(* ===== verification/Prelude.thy ===== *)
theory Prelude
  imports Main "HOL-Library.Word" "HOL-Library.Monad_Syntax" "HOL-Library.Signed_Division"
begin

unbundle bit_operations_syntax

section \<open>Shared vocabulary and lemmas\<close>

text \<open>
  What every component of the development shares: names for the machine types of the C++
  sources, the collections of rewrite rules that the component theories fill, and the generic
  facts on lists, options, sums over the computing parties and words.

  Conventions. A \<open>std::vector\<close> is a list; \<open>v[i]\<close> is \<open>v ! i\<close> (out of range it is
  unspecified here as it is undefined in C++) and \<open>v.at(i)\<close> is \<open>vec_at\<close>, which fails.
  \<open>size_t\<close> counts of objects in memory are \<open>nat\<close>; integers whose width the code relies on
  are words.
\<close>

type_synonym u8 = "8 word"
type_synonym u16 = "16 word"
type_synonym u32 = "32 word"
type_synonym u64 = "64 word"
type_synonym bytes = "8 word list"

text \<open>
  \<open>share_simps\<close>: how a share operation acts on the fields of a share. \<open>lin_simps\<close>: how
  the sum over the parties distributes over share operations. \<open>frame_simps\<close>: what an
  operation leaves unchanged.
\<close>

named_theorems share_simps
named_theorems lin_simps
named_theorems frame_simps

subsection \<open>Vectors\<close>

definition vec_at :: "'a list \<Rightarrow> nat \<Rightarrow> 'a option" where
  "vec_at xs i = (if i < length xs then Some (xs ! i) else None)"

lemma vec_at_Some [simp]: "vec_at xs i = Some x \<longleftrightarrow> i < length xs \<and> x = xs ! i"
  by (auto simp: vec_at_def)

lemma vec_at_None [simp]: "vec_at xs i = None \<longleftrightarrow> length xs \<le> i"
  by (auto simp: vec_at_def)

lemma list_update_all_cong:
  "length ys = length xs \<Longrightarrow> (\<And>i. i < length xs \<Longrightarrow> xs ! i = ys ! i) \<Longrightarrow> xs = ys"
  by (auto intro: nth_equalityI)

lemma take_append_drop_nth: "i < length xs \<Longrightarrow> take i xs @ xs ! i # drop (Suc i) xs = xs"
  by (rule id_take_nth_drop [symmetric])

lemma drop_take_nth:
  "s + n \<le> length xs \<Longrightarrow> i < n \<Longrightarrow> take n (drop s xs) ! i = xs ! (s + i)"
  by simp

lemma ceil_div_step:
  fixes n w :: nat
  assumes "0 < w" "w \<le> n"
  shows "(n + w - 1) div w = Suc ((n - w + w - 1) div w)"
proof -
  have "n + w - 1 = (n - 1) + w" using assms by simp
  then have "(n + w - 1) div w = Suc ((n - 1) div w)"
    using assms(1) by (metis Suc_eq_plus1 div_add_self2 not_less_zero)
  then show ?thesis using assms by simp
qed

subsection \<open>Sums over the parties 1..n\<close>

text \<open>
  The computing parties of a run are numbered \<open>1, \<dots>, nP\<close>; the helper (the trusted dealer
  of the offline phase) is party 0.
\<close>

abbreviation parties :: "nat \<Rightarrow> nat list" where
  "parties n \<equiv> [1..<Suc n]"

definition psum :: "nat \<Rightarrow> (nat \<Rightarrow> 'a::comm_monoid_add) \<Rightarrow> 'a" where
  "psum n f = (\<Sum>i\<leftarrow>parties n. f i)"

lemma psum_0 [simp]: "psum 0 f = 0"
  by (simp add: psum_def)

lemma psum_Suc [simp]: "psum (Suc n) f = psum n f + f (Suc n)"
  by (simp add: psum_def)

lemma psum_cong [cong]: "n = m \<Longrightarrow> (\<And>i. 1 \<le> i \<Longrightarrow> i \<le> m \<Longrightarrow> f i = g i) \<Longrightarrow> psum n f = psum m g"
  unfolding psum_def by (rule arg_cong [where f = sum_list]) auto

lemma psum_add [lin_simps]: "psum n (\<lambda>i. f i + g i) = psum n f + psum n g"
  by (induction n) (simp_all add: algebra_simps)

lemma psum_zero [simp]: "psum n (\<lambda>i. 0) = 0"
  by (induction n) simp_all

lemma psum_diff [lin_simps]:
  fixes f :: "nat \<Rightarrow> 'a::ab_group_add"
  shows "psum n (\<lambda>i. f i - g i) = psum n f - psum n g"
  by (induction n) (simp_all add: algebra_simps)

lemma psum_uminus [lin_simps]:
  fixes f :: "nat \<Rightarrow> 'a::ab_group_add"
  shows "psum n (\<lambda>i. - f i) = - psum n f"
  by (induction n) (simp_all add: algebra_simps)

lemma psum_mult_right [lin_simps]:
  fixes f :: "nat \<Rightarrow> 'a::comm_ring_1"
  shows "psum n (\<lambda>i. f i * c) = psum n f * c"
  by (induction n) (simp_all add: algebra_simps)

lemma psum_mult_left [lin_simps]:
  fixes f :: "nat \<Rightarrow> 'a::comm_ring_1"
  shows "psum n (\<lambda>i. c * f i) = c * psum n f"
  by (induction n) (simp_all add: algebra_simps)

lemma psum_delta:
  "psum n (\<lambda>i. if i = k then f i else 0) = (if 1 \<le> k \<and> k \<le> n then f k else 0)"
  by (induction n) auto

lemma psum_single: "0 < n \<Longrightarrow> psum n (\<lambda>i. if i = 1 then f i else 0) = f 1"
  by (simp add: psum_delta)

lemma psum_eq_sum: "psum n f = sum f {1..n}"
  by (induction n) (simp_all add: add.commute)

lemma psum_shift: "psum n (\<lambda>i. f (i - 1)) = sum_list (map f [0..<n])"
  by (induction n) simp_all

lemma psum_sum_list:
  "psum n (\<lambda>i. \<Sum>x\<leftarrow>xs. f i x) = (\<Sum>x\<leftarrow>xs. psum n (\<lambda>i. f i x))"
  by (induction xs) (simp_all add: lin_simps)

subsection \<open>Loops as folds\<close>

lemma fold_invariant_upt:
  assumes "P a s" and "\<And>i s. a \<le> i \<Longrightarrow> i < b \<Longrightarrow> P i s \<Longrightarrow> P (Suc i) (f i s)" and "a \<le> b"
  shows "P b (fold f [a..<b] s)"
  using assms(3,2)
proof (induction b)
  case 0
  with assms(1) show ?case by simp
next
  case (Suc b)
  show ?case
  proof (cases "a \<le> b")
    case True
    with Suc.IH Suc.prems have "P b (fold f [a..<b] s)" by simp
    with Suc.prems True show ?thesis by simp
  next
    case False
    with Suc.prems(1) have "a = Suc b" by simp
    with assms(1) show ?thesis by simp
  qed
qed

lemma fold_add_sum_list:
  fixes f :: "'b \<Rightarrow> 'a::comm_monoid_add"
  shows "fold (\<lambda>x acc. acc + f x) xs s = s + sum_list (map f xs)"
  by (induction xs arbitrary: s) (simp_all add: algebra_simps)

text \<open>A fallible loop body, run over a list: the first failure ends the loop.\<close>

fun foldM :: "('a \<Rightarrow> 's \<Rightarrow> 's option) \<Rightarrow> 'a list \<Rightarrow> 's \<Rightarrow> 's option" where
  "foldM f [] s = Some s"
| "foldM f (x # xs) s = (case f x s of None \<Rightarrow> None | Some s' \<Rightarrow> foldM f xs s')"

lemma foldM_append:
  "foldM f (xs @ ys) s = (case foldM f xs s of None \<Rightarrow> None | Some s' \<Rightarrow> foldM f ys s')"
  by (induction xs arbitrary: s) (simp_all split: option.splits)

lemma foldM_Some: "(\<And>x s. x \<in> set xs \<Longrightarrow> f x s = Some (g x s)) \<Longrightarrow> foldM f xs s = Some (fold g xs s)"
  by (induction xs arbitrary: s) simp_all

text \<open>The same for bodies that throw: the exception of the first failing step is the result.\<close>

fun foldE :: "('a \<Rightarrow> 's \<Rightarrow> 'e + 's) \<Rightarrow> 'a list \<Rightarrow> 's \<Rightarrow> 'e + 's" where
  "foldE f [] s = Inr s"
| "foldE f (x # xs) s = (case f x s of Inl e \<Rightarrow> Inl e | Inr s' \<Rightarrow> foldE f xs s')"

lemma foldE_append:
  "foldE f (xs @ ys) s = (case foldE f xs s of Inl e \<Rightarrow> Inl e | Inr s' \<Rightarrow> foldE f ys s')"
  by (induction xs arbitrary: s) (simp_all split: sum.splits)

lemma foldE_concat: "foldE (foldE f) xss s = foldE f (concat xss) s"
  by (induction xss arbitrary: s) (simp_all add: foldE_append split: sum.splits)

subsection \<open>Words\<close>

lemma bit_and_1_iff: "(w AND 1 = 1) \<longleftrightarrow> bit (w :: 'w::len word) 0"
  by (simp add: and_one_eq odd_iff_mod_2_eq_one [symmetric] bit_0)

end
