(* ===== verification/BoolRings.thy ===== *)
theory BoolRings
  imports Prelude
begin

section \<open>Boolean ring elements and bit packing (utils/types, utils/helpers)\<close>

text \<open>
  \<open>BoolRing\<close> is the class of \<^verbatim>\<open>utils/types.h\<close>: one bit with exclusive or as addition and
  conjunction as multiplication. Its operators make it a commutative ring and, as it has no zero
  divisors, an instance of \<open>idom\<close>, so that everything proved for a generic ring \<open>R\<close> of the
  templates holds for it. The theory also has the packing of such vectors into bytes and words
  and the index helpers of \<^verbatim>\<open>utils/helpers.cpp\<close>.
\<close>

datatype BoolRing = BR (val: bool)

definition BoolRing_of_int :: "int \<Rightarrow> BoolRing" where
  "BoolRing_of_int v = BR (v \<noteq> 0)"

text \<open>The assignment operator copies the bit, by cases on it.\<close>

definition BoolRing_assign :: "BoolRing \<Rightarrow> BoolRing \<Rightarrow> BoolRing" where
  "BoolRing_assign lhs rhs = (if val rhs = False then BR (val rhs) else BR True)"

lemma BoolRing_assign_rhs [simp]: "BoolRing_assign lhs rhs = rhs"
  by (cases rhs) (simp add: BoolRing_assign_def)

text \<open>The default constructor and the compound operators; subtraction calls addition.\<close>

definition BoolRing_new :: BoolRing where
  "BoolRing_new = BR False"

definition BoolRing_plus :: "BoolRing \<Rightarrow> BoolRing \<Rightarrow> BoolRing" where
  "BoolRing_plus lhs rhs = BR (val lhs \<noteq> val rhs)"

definition BoolRing_minus :: "BoolRing \<Rightarrow> BoolRing \<Rightarrow> BoolRing" where
  "BoolRing_minus lhs rhs = BoolRing_plus lhs rhs"

definition BoolRing_times :: "BoolRing \<Rightarrow> BoolRing \<Rightarrow> BoolRing" where
  "BoolRing_times lhs rhs = BR (val lhs \<and> val rhs)"

text \<open>The ring operations of the type are these operators.\<close>

instantiation BoolRing :: comm_ring_1
begin

definition zero_BoolRing :: BoolRing where
  "zero_BoolRing = BoolRing_new"

definition one_BoolRing :: BoolRing where
  "one_BoolRing = BR True"

definition plus_BoolRing :: "BoolRing \<Rightarrow> BoolRing \<Rightarrow> BoolRing" where
  "plus_BoolRing = BoolRing_plus"

definition minus_BoolRing :: "BoolRing \<Rightarrow> BoolRing \<Rightarrow> BoolRing" where
  "minus_BoolRing = BoolRing_minus"

definition uminus_BoolRing :: "BoolRing \<Rightarrow> BoolRing" where
  "uminus_BoolRing x = 0 - x"

definition times_BoolRing :: "BoolRing \<Rightarrow> BoolRing \<Rightarrow> BoolRing" where
  "times_BoolRing = BoolRing_times"

lemmas BoolRing_ops = zero_BoolRing_def one_BoolRing_def plus_BoolRing_def minus_BoolRing_def uminus_BoolRing_def
  times_BoolRing_def BoolRing_new_def BoolRing_plus_def BoolRing_minus_def BoolRing_times_def

instance
  by standard (auto simp: BoolRing_ops intro!: BoolRing.expand)

end

instance BoolRing :: idom
  by standard (auto simp: BoolRing_ops dest: BoolRing.expand intro: BoolRing.expand)

lemma val_zero [simp]: "val 0 = False"
  by (simp add: BoolRing_ops)

lemma val_one [simp]: "val 1 = True"
  by (simp add: BoolRing_ops)

lemma val_plus [simp]: "val (a + b) = (val a \<noteq> val b)"
  by (simp add: BoolRing_ops)

lemma val_minus [simp]: "val (a - b) = (val a \<noteq> val b)"
  by (simp add: BoolRing_ops)

lemma val_uminus [simp]: "val (- a) = val a"
  unfolding uminus_BoolRing_def by (simp only: val_minus val_zero) simp

lemma val_times [simp]: "val (a * b) = (val a \<and> val b)"
  by (simp add: BoolRing_ops)

lemma val_inject: "val a = val b \<longleftrightarrow> a = b"
  by (cases a; cases b) simp

lemma BR_eqI: "val a = val b \<Longrightarrow> a = b"
  by (simp add: val_inject)

lemma BoolRing_cases: "(x :: BoolRing) = 0 \<or> x = 1"
  by (cases x) (auto simp: BoolRing_ops)

lemma BoolRing_double [simp]: "(x :: BoolRing) + x = 0"
  by (rule BR_eqI) (simp only: val_plus val_zero simp_thms)

lemma val_of_bool [simp]: "val (of_bool b) = b"
  by (cases b) simp_all

subsection \<open>Packing bits into words\<close>

text \<open>
  \<open>BoolRing::pack\<close> (bytes) and \<open>packBool\<close> (64-bit words) are the same loop at two widths:
  the inner loop sets bit \<open>j\<close> of \<open>temp\<close> for each set entry, the outer loop pushes one word
  per started group. \<open>unpack\<close> and \<open>unpackBool\<close> read the low bit and shift right.
\<close>

fun pack_word :: "nat \<Rightarrow> 'w::len word \<Rightarrow> bool list \<Rightarrow> 'w word" where
  "pack_word j temp [] = temp"
| "pack_word j temp (x # xs) =
     pack_word (Suc j) (if x then temp OR push_bit j 1 else temp) xs"

function pack_words :: "bool list \<Rightarrow> 'w::len word list" where
  "pack_words xs =
     (if xs = [] then []
      else pack_word 0 0 (take LENGTH('w) xs) # pack_words (drop LENGTH('w) xs))"
  by pat_completeness auto
termination
  by (relation "measure length") auto

fun unpack_word :: "nat \<Rightarrow> 'w::len word \<Rightarrow> bool list" where
  "unpack_word 0 temp = []"
| "unpack_word (Suc n) temp = (temp AND 1 = 1) # unpack_word n (drop_bit 1 temp)"

function unpack_words :: "'w::len word list \<Rightarrow> nat \<Rightarrow> bool list" where
  "unpack_words packed n =
     (if n = 0 then []
      else unpack_word (min LENGTH('w) n) (hd packed) @ unpack_words (tl packed) (n - LENGTH('w)))"
  by pat_completeness auto
termination
  by (relation "measure snd") auto

declare pack_words.simps [simp del] unpack_words.simps [simp del]

definition pack :: "BoolRing list \<Rightarrow> u8 list" where
  "pack data = pack_words (map val data)"

definition unpack :: "u8 list \<Rightarrow> nat \<Rightarrow> BoolRing list" where
  "unpack packed len = map BR (unpack_words packed len)"

definition packBool :: "bool list \<Rightarrow> u64 list" where
  "packBool data = pack_words data"

definition unpackBool :: "u64 list \<Rightarrow> nat \<Rightarrow> bool list" where
  "unpackBool packed len = unpack_words packed len"

lemma bit_pack_word:
  "j + length xs \<le> LENGTH('w) \<Longrightarrow>
   bit (pack_word j (temp :: 'w::len word) xs) k =
     (bit temp k \<or> (j \<le> k \<and> k < j + length xs \<and> xs ! (k - j)))"
proof (induction xs arbitrary: j temp)
  case Nil
  then show ?case by auto
next
  case (Cons x xs)
  have "bit (pack_word (Suc j) (if x then temp OR push_bit j 1 else temp) xs) k =
      (bit (if x then temp OR push_bit j 1 else temp) k \<or>
       (Suc j \<le> k \<and> k < Suc j + length xs \<and> xs ! (k - Suc j)))"
    using Cons.prems by (intro Cons.IH) simp
  moreover have "bit (if x then temp OR push_bit j 1 else temp) k = (bit temp k \<or> (x \<and> k = j))"
    using Cons.prems by (auto simp: bit_or_iff bit_push_bit_iff bit_1_iff bit_exp_iff push_bit_eq_mult)
  ultimately show ?case
    by (auto simp: nth_Cons' Suc_diff_Suc)
qed

lemma unpack_word_bits: "unpack_word n (w :: 'w::len word) = map (bit w) [0..<n]"
proof (induction n arbitrary: w)
  case 0
  then show ?case by simp
next
  case (Suc n)
  have "map (bit w) [0..<Suc n] = bit w 0 # map (\<lambda>k. bit w (Suc k)) [0..<n]"
    by (simp add: upt_conv_Cons map_Suc_upt [symmetric] del: upt_Suc map_Suc_upt)
  moreover have "bit (drop_bit 1 w) = (\<lambda>k. bit w (Suc k))"
    by (rule ext) (simp add: bit_drop_bit_eq)
  ultimately show ?case by (simp add: Suc.IH bit_and_1_iff)
qed

lemma unpack_pack_word:
  "length xs \<le> LENGTH('w) \<Longrightarrow> unpack_word (length xs) (pack_word 0 (0 :: 'w::len word) xs) = xs"
  by (rule nth_equalityI) (auto simp: unpack_word_bits bit_pack_word)

lemma unpack_pack_words: "unpack_words (pack_words xs :: 'w::len word list) (length xs) = xs"
proof (induction xs rule: length_induct)
  case (1 xs)
  show ?case
  proof (cases "xs = []")
    case True
    then show ?thesis by (simp add: unpack_words.simps)
  next
    case False
    let ?w = "LENGTH('w)"
    have min: "min ?w (length xs) = length (take ?w xs)" by simp
    have IH: "unpack_words (pack_words (drop ?w xs) :: 'w word list) (length (drop ?w xs)) = drop ?w xs"
      using 1 False by (metis drop_eq_Nil2 length_drop diff_less length_greater_0_conv len_gt_0)
    have "unpack_words (pack_words xs :: 'w word list) (length xs) =
        unpack_word (length (take ?w xs)) (pack_word 0 (0 :: 'w word) (take ?w xs)) @ drop ?w xs"
      using False IH
      by (subst unpack_words.simps, subst (1 2) pack_words.simps) (simp add: min)
    also have "\<dots> = take ?w xs @ drop ?w xs"
      by (subst unpack_pack_word) simp_all
    finally show ?thesis by simp
  qed
qed

lemma length_pack_words:
  "length (pack_words xs :: 'w::len word list) = (length xs + LENGTH('w) - 1) div LENGTH('w)"
proof (induction xs rule: length_induct)
  case (1 xs)
  let ?w = "LENGTH('w)"
  show ?case
  proof (cases "xs = []")
    case True
    then show ?thesis by (simp add: pack_words.simps)
  next
    case False
    have "length (pack_words xs :: 'w word list) = Suc ((length xs - ?w + ?w - 1) div ?w)"
      using 1 False by (subst pack_words.simps) simp
    also have "\<dots> = (length xs + ?w - 1) div ?w"
    proof (cases "length xs \<le> ?w")
      case True
      have "length xs + ?w - 1 = (length xs - 1) + ?w" using False by (cases xs) auto
      then have "(length xs + ?w - 1) div ?w = (length xs - 1) div ?w + 1"
        by (simp only:) (simp only: div_add_self2 [of ?w] len_gt_0 neq0_conv not_False_eq_True)
      moreover have "(length xs - 1) div ?w = 0"
        using True False by (intro div_less) (cases xs, auto)
      moreover have "(?w - 1) div ?w = 0" by (intro div_less) simp
      ultimately show ?thesis using True by simp
    next
      case False
      then have "(length xs + ?w - 1) div ?w = Suc ((length xs - ?w + ?w - 1) div ?w)"
        by (intro ceil_div_step) simp_all
      then show ?thesis by simp
    qed
    finally show ?thesis .
  qed
qed

lemma length_unpack_words [simp]: "length (unpack_words (ws :: 'w::len word list) n) = n"
proof (induction n arbitrary: ws rule: less_induct)
  case (less n)
  show ?case
  proof (cases "n = 0")
    case True
    then show ?thesis by (simp add: unpack_words.simps)
  next
    case False
    have "length (unpack_words (tl ws) (n - LENGTH('w))) = n - LENGTH('w)"
      by (rule less.IH) (use False in simp)
    then show ?thesis using False by (subst unpack_words.simps) (simp add: unpack_word_bits)
  qed
qed

lemma unpack_pack: "unpack (pack xs) (length xs) = xs"
proof -
  have "unpack_words (pack_words (map val xs) :: u8 list) (length (map val xs)) = map val xs"
    by (rule unpack_pack_words)
  then show ?thesis by (simp add: unpack_def pack_def o_def)
qed

lemma length_pack: "length (pack xs) = (length xs + 7) div 8"
  by (simp add: pack_def length_pack_words)

lemma length_unpack [simp]: "length (unpack ws n) = n"
  by (simp add: unpack_def)

subsection \<open>Bit decomposition\<close>

definition bitDecompose :: "u64 \<Rightarrow> BoolRing list" where
  "bitDecompose v = map (\<lambda>i. BR ((drop_bit i v) AND 1 = 1)) [0..<64]"

text \<open>
  \<open>bitDecomposeTwo\<close> first converts a ring element with NTL's \<open>conv<uint64_t>\<close>, a parameter.
\<close>

definition bitDecomposeTwo :: "('r \<Rightarrow> u64) \<Rightarrow> 'r \<Rightarrow> BoolRing list" where
  "bitDecomposeTwo conv value = bitDecompose (conv value)"

lemma length_bitDecompose [simp]: "length (bitDecompose v) = 64"
  by (simp add: bitDecompose_def)

lemma bitDecompose_nth: "i < 64 \<Longrightarrow> bitDecompose v ! i = BR (bit v i)"
  by (simp add: bitDecompose_def bit_and_1_iff bit_drop_bit_eq)

lemma length_bitDecomposeTwo [simp]: "length (bitDecomposeTwo c v) = 64"
  by (simp add: bitDecomposeTwo_def)

subsection \<open>Index helpers\<close>

definition pidFromOffset :: "int \<Rightarrow> int \<Rightarrow> int" where
  "pidFromOffset pid0 offset =
     (let pid = (pid0 + offset) smod 4 in if pid < 0 then pid + 4 else pid)"

definition offsetFromPid :: "int \<Rightarrow> int \<Rightarrow> int" where
  "offsetFromPid pid0 pid = (if pid0 < pid then pid - pid0 else 4 + pid - pid0)"

text \<open>\<open>size_t\<close> arithmetic, which wraps around.\<close>

definition upperTriangularToArray :: "u64 \<Rightarrow> u64 \<Rightarrow> u64" where
  "upperTriangularToArray i j =
     (let mn = min i j; mx = max i j in (mx * (mx - 1)) div 2 + mn)"

lemma pidFromOffset_mod: "pidFromOffset pid0 offset = (pid0 + offset) mod 4"
proof -
  have smod: "(x :: int) smod 4 = (if x < 0 then - ((- x) mod 4) else x mod 4)" for x
    by (auto simp: signed_modulo_int_def sgn_if)
  show ?thesis
    unfolding pidFromOffset_def Let_def smod by presburger
qed

text \<open>The two helpers are inverse to each other on the party numbers 0 to 3.\<close>

lemma pidFromOffset_offsetFromPid:
  assumes "0 \<le> p" "p < 4" "0 \<le> q" "q < 4"
  shows "pidFromOffset p (offsetFromPid p q) = q"
  using assms by (auto simp: pidFromOffset_mod offsetFromPid_def)

lemma triangle_step: "(Suc n * n) div 2 = (n * (n - 1)) div 2 + n"
  by (cases n) (simp_all add: algebra_simps)

lemma triangle_mono: "m \<le> n \<Longrightarrow> (m * (m - 1)) div 2 \<le> (n * (n - 1)) div (2 :: nat)"
  by (intro div_le_mono mult_le_mono) simp_all

text \<open>Up to \<open>2 ^ 32\<close> nothing wraps around, and the cells of the triangle fill the array.\<close>

lemma upperTriangularToArray_nat:
  assumes "i < j" "j \<le> 2 ^ 32"
  shows "unat (upperTriangularToArray (of_nat i) (of_nat j)) = (j * (j - 1)) div 2 + i"
proof -
  have u: "unat (of_nat k :: u64) = k" if "k < 2 ^ 64" for k using that by (simp add: unat_of_nat)
  have "j * (j - 1) \<le> 2 ^ 32 * (2 ^ 32 - 1)" using assms(2) by (intro mult_le_mono) simp_all
  then have jj: "j * (j - 1) < 2 ^ 64" by (rule le_less_trans) simp
  have le: "(of_nat i :: u64) \<le> of_nat j" using assms by (simp add: word_le_nat_alt u)
  have "(of_nat j - 1 :: u64) = of_nat (j - 1)" using assms(1) by (simp add: of_nat_diff)
  then have "upperTriangularToArray (of_nat i) (of_nat j) = of_nat (j * (j - 1)) div 2 + of_nat i"
    using le by (simp add: upperTriangularToArray_def min_def max_def antisym)
  moreover have "unat (of_nat (j * (j - 1)) div 2 :: u64) = (j * (j - 1)) div 2" by (simp only: unat_div u [OF jj]) simp
  moreover have "(j * (j - 1)) div 2 + i < 2 ^ 64"
  proof -
    have "(j * (j - 1)) div 2 < 2 ^ 63" using jj by simp
    moreover have "i < 2 ^ 63" using assms by simp
    ultimately show ?thesis by simp
  qed
  ultimately show ?thesis using assms by (simp add: unat_word_ariths u)
qed

lemma triangle_inj:
  fixes i j k l :: nat
  assumes "i < j" "k < l" "(j * (j - 1)) div 2 + i = (l * (l - 1)) div 2 + k"
  shows "i = k \<and> j = l"
proof -
  have "\<not> a < b" if "c < a" "(a * (a - 1)) div 2 + c = (b * (b - 1)) div 2 + d" for a b c d :: nat
  proof
    assume "a < b"
    then have "(Suc a * (Suc a - 1)) div 2 \<le> (b * (b - 1)) div 2"
      by (intro triangle_mono) simp
    with that show False by (simp add: triangle_step del: mult_Suc)
  qed
  from this [OF assms(1,3)] this [OF assms(2) assms(3) [symmetric]] assms(3) show ?thesis by simp
qed

lemma triangle_range:
  fixes x :: nat
  shows "x < (n * (n - 1)) div 2 \<longleftrightarrow> (\<exists>i j. i < j \<and> j < n \<and> x = (j * (j - 1)) div 2 + i)"
proof (induction n)
  case (Suc n)
  have "x < T + n \<longleftrightarrow> x < T \<or> (\<exists>i<n. x = T + i)" for T :: nat
    by (auto intro!: exI [of _ "x - T"])
  then have "x < (Suc n * (Suc n - 1)) div 2 \<longleftrightarrow> x < (n * (n - 1)) div 2 \<or> (\<exists>i<n. x = (n * (n - 1)) div 2 + i)"
    by (simp only: triangle_step diff_Suc_1)
  also have "\<dots> \<longleftrightarrow> (\<exists>i j. i < j \<and> j < Suc n \<and> x = (j * (j - 1)) div 2 + i)"
    unfolding Suc.IH by (auto simp: less_Suc_eq)
  finally show ?case .
qed simp

lemma upperTriangularToArray_bij:
  assumes "n \<le> 2 ^ 32 + 1"
  shows "bij_betw (\<lambda>(i, j). unat (upperTriangularToArray (of_nat i) (of_nat j))) {(i, j). i < j \<and> j < n} {0..<(n * (n - 1)) div 2}"
proof -
  have v: "unat (upperTriangularToArray (of_nat i) (of_nat j)) = (j * (j - 1)) div 2 + i" if "i < j" "j < n" for i j
    using that assms by (intro upperTriangularToArray_nat) simp_all
  have "inj_on (\<lambda>(i, j). unat (upperTriangularToArray (of_nat i) (of_nat j))) {(i, j). i < j \<and> j < n}"
    by (rule inj_onI) (auto simp: v dest: triangle_inj [simplified])
  moreover have "(\<lambda>(i, j). unat (upperTriangularToArray (of_nat i) (of_nat j))) ` {(i, j). i < j \<and> j < n} =
      (\<lambda>(i, j). (j * (j - 1)) div 2 + i) ` {(i, j). i < j \<and> j < n}"
    by (rule image_cong) (auto simp: v)
  moreover have "\<dots> = {x. x < (n * (n - 1)) div 2}"
    unfolding triangle_range by force
  ultimately show ?thesis by (auto simp: bij_betw_def)
qed

end
