(* ===== verification/Circuits.thy ===== *)
theory Circuits
  imports BoolRings "HOL-Library.Multiset"
begin

section \<open>Arithmetic circuits (utils/circuit.h)\<close>

text \<open>
  The gate classes, the builder methods of \<^verbatim>\<open>Circuit<R>\<close>, the level order computed by
  \<open>orderGatesByLevel\<close> and the plaintext evaluation \<open>evaluate\<close>. \<open>circuit_ok\<close> is the
  invariant of circuits built through the builder; the main facts are that the level order is a
  topological order in which an interactive gate reads only wires of lower levels
  (\<open>levels_ok\<close>), and that evaluating in that order computes the value of every wire.

  \<open>R\<close> is a type variable of class \<open>comm_ring_1\<close>. What the code asks of \<open>R\<close> beyond the ring
  operations (\<^verbatim>\<open>conv<uint64_t>\<close>, construction from a word, whether it is \<open>BoolRing\<close>) is the
  record \<open>ringops\<close>, a parameter.
\<close>

type_synonym wire_t = nat

datatype GateType =
  kInp | kAdd | kMul | kMul3 | kMul4 | kSub | kConstAdd | kConstMul | kRelu | kMsb | kEqz | kLtz
  | kDotprod | kTrdotp | kInvalid

text \<open>The class hierarchy under \<open>Gate\<close>; the last wire of a gate is its output.\<close>

datatype 'r gate =
  Gate GateType wire_t
| FIn1Gate GateType wire_t wire_t
| FIn2Gate GateType wire_t wire_t wire_t
| FIn3Gate GateType wire_t wire_t wire_t wire_t
| FIn4Gate GateType wire_t wire_t wire_t wire_t wire_t
| SIMDGate GateType "wire_t list" "wire_t list" wire_t
| ConstOpGate GateType wire_t 'r wire_t

fun gtype :: "'r gate \<Rightarrow> GateType" where
  "gtype (Gate t _) = t"
| "gtype (FIn1Gate t _ _) = t"
| "gtype (FIn2Gate t _ _ _) = t"
| "gtype (FIn3Gate t _ _ _ _) = t"
| "gtype (FIn4Gate t _ _ _ _ _) = t"
| "gtype (SIMDGate t _ _ _) = t"
| "gtype (ConstOpGate t _ _ _) = t"

fun gout :: "'r gate \<Rightarrow> wire_t" where
  "gout (Gate _ out) = out"
| "gout (FIn1Gate _ _ out) = out"
| "gout (FIn2Gate _ _ _ out) = out"
| "gout (FIn3Gate _ _ _ _ out) = out"
| "gout (FIn4Gate _ _ _ _ _ out) = out"
| "gout (SIMDGate _ _ _ out) = out"
| "gout (ConstOpGate _ _ _ out) = out"

fun gins :: "'r gate \<Rightarrow> wire_t list" where
  "gins (Gate _ _) = []"
| "gins (FIn1Gate _ a _) = [a]"
| "gins (FIn2Gate _ a b _) = [a, b]"
| "gins (FIn3Gate _ a b c _) = [a, b, c]"
| "gins (FIn4Gate _ a b c d _) = [a, b, c, d]"
| "gins (SIMDGate _ as bs _) = as @ bs"
| "gins (ConstOpGate _ a _ _) = [a]"

record 'r Circuit =
  circ_outputs :: "wire_t list"
  circ_gates :: "'r gate list"

record 'r LevelOrderedCircuit =
  num_gates :: nat
  gate_count :: "GateType \<Rightarrow> nat"
  outputs :: "wire_t list"
  gates_by_level :: "'r gate list list"

datatype exn =
  invalid_argument string
| expected_inputs nat nat
| runtime_error string
| out_of_range

subsection \<open>The builder\<close>

definition Circuit_new :: "'r Circuit" where
  "Circuit_new = \<lparr>circ_outputs = [], circ_gates = []\<rparr>"

definition isWireValid :: "'r Circuit \<Rightarrow> wire_t \<Rightarrow> bool" where
  "isWireValid c wid \<longleftrightarrow> wid < length (circ_gates c)"

definition push_gate :: "'r gate \<Rightarrow> 'r Circuit \<Rightarrow> 'r Circuit" where
  "push_gate g c = c\<lparr>circ_gates := circ_gates c @ [g]\<rparr>"

definition newInputWire :: "'r Circuit \<Rightarrow> wire_t \<times> 'r Circuit" where
  "newInputWire c = (let wid = length (circ_gates c) in (wid, push_gate (Gate kInp wid) c))"

definition setAsOutput :: "wire_t \<Rightarrow> 'r Circuit \<Rightarrow> exn + 'r Circuit" where
  "setAsOutput wid c =
     (if \<not> isWireValid c wid then Inl (invalid_argument ''Invalid wire ID.'')
      else Inr (c\<lparr>circ_outputs := circ_outputs c @ [wid]\<rparr>))"

definition addGate2 :: "GateType \<Rightarrow> wire_t \<Rightarrow> wire_t \<Rightarrow> 'r Circuit \<Rightarrow> exn + wire_t \<times> 'r Circuit" where
  "addGate2 type input1 input2 c =
     (if type \<noteq> kAdd \<and> type \<noteq> kMul \<and> type \<noteq> kSub then Inl (invalid_argument ''Invalid gate type.'')
      else if \<not> isWireValid c input1 \<or> \<not> isWireValid c input2
        then Inl (invalid_argument ''Invalid wire ID.'')
      else let output = length (circ_gates c)
        in Inr (output, push_gate (FIn2Gate type input1 input2 output) c))"

definition addGate3 ::
  "GateType \<Rightarrow> wire_t \<Rightarrow> wire_t \<Rightarrow> wire_t \<Rightarrow> 'r Circuit \<Rightarrow> exn + wire_t \<times> 'r Circuit" where
  "addGate3 type input1 input2 input3 c =
     (if type \<noteq> kMul3 then Inl (invalid_argument ''Invalid gate type.'')
      else if \<not> isWireValid c input1 \<or> \<not> isWireValid c input2 \<or> \<not> isWireValid c input3
        then Inl (invalid_argument ''Invalid wire ID.'')
      else let output = length (circ_gates c)
        in Inr (output, push_gate (FIn3Gate type input1 input2 input3 output) c))"

definition addGate4 ::
  "GateType \<Rightarrow> wire_t \<Rightarrow> wire_t \<Rightarrow> wire_t \<Rightarrow> wire_t \<Rightarrow> 'r Circuit \<Rightarrow> exn + wire_t \<times> 'r Circuit" where
  "addGate4 type input1 input2 input3 input4 c =
     (if type \<noteq> kMul4 then Inl (invalid_argument ''Invalid gate type.'')
      else if \<not> isWireValid c input1 \<or> \<not> isWireValid c input2
          \<or> \<not> isWireValid c input3 \<or> \<not> isWireValid c input4
        then Inl (invalid_argument ''Invalid wire ID.'')
      else let output = length (circ_gates c)
        in Inr (output, push_gate (FIn4Gate type input1 input2 input3 input4 output) c))"

definition addConstOpGate :: "GateType \<Rightarrow> wire_t \<Rightarrow> 'r \<Rightarrow> 'r Circuit \<Rightarrow> exn + wire_t \<times> 'r Circuit" where
  "addConstOpGate type wid cval c =
     (if type \<noteq> kConstAdd \<and> type \<noteq> kConstMul then Inl (invalid_argument ''Invalid gate type.'')
      else if \<not> isWireValid c wid then Inl (invalid_argument ''Invalid wire ID.'')
      else let output = length (circ_gates c)
        in Inr (output, push_gate (ConstOpGate type wid cval output) c))"

definition addGate1 :: "GateType \<Rightarrow> wire_t \<Rightarrow> 'r Circuit \<Rightarrow> exn + wire_t \<times> 'r Circuit" where
  "addGate1 type input c =
     (if type \<noteq> kRelu \<and> type \<noteq> kMsb \<and> type \<noteq> kEqz \<and> type \<noteq> kLtz
        then Inl (invalid_argument ''Invalid gate type.'')
      else if \<not> isWireValid c input then Inl (invalid_argument ''Invalid wire ID.'')
      else let output = length (circ_gates c)
        in Inr (output, push_gate (FIn1Gate type input output) c))"

definition addGateV ::
  "GateType \<Rightarrow> wire_t list \<Rightarrow> wire_t list \<Rightarrow> 'r Circuit \<Rightarrow> exn + wire_t \<times> 'r Circuit" where
  "addGateV type input1 input2 c =
     (if type \<noteq> kDotprod \<and> type \<noteq> kTrdotp then Inl (invalid_argument ''Invalid gate type.'')
      else if length input1 \<noteq> length input2
        then Inl (invalid_argument ''Expected same length inputs.'')
      else if \<exists>i\<in>set [0..<length input1]. \<not> isWireValid c (input1 ! i) \<or> \<not> isWireValid c (input2 ! i)
        then Inl (invalid_argument ''Invalid wire ID.'')
      else let output = length (circ_gates c)
        in Inr (output, push_gate (SIMDGate type input1 input2 output) c))"

subsection \<open>Level order\<close>

text \<open>
  The depth the switch computes for a gate from the levels of its inputs; \<open>None\<close> is the
  default branch, which leaves the entry of the output wire as it is.
\<close>

fun gate_depth :: "nat list \<Rightarrow> 'r gate \<Rightarrow> nat option" where
  "gate_depth lv (Gate t out) = None"
| "gate_depth lv (FIn1Gate t a out) =
     (if t = kEqz \<or> t = kLtz \<or> t = kRelu \<or> t = kMsb then Some (lv ! a + 1) else None)"
| "gate_depth lv (FIn2Gate t a b out) =
     (if t = kAdd \<or> t = kSub then Some (max (lv ! a) (lv ! b))
      else if t = kMul then Some (max (lv ! a) (lv ! b) + 1) else None)"
| "gate_depth lv (FIn3Gate t a b c out) =
     (if t = kMul3 then Some (max (max (lv ! a) (lv ! b)) (lv ! c) + 1) else None)"
| "gate_depth lv (FIn4Gate t a b c d out) =
     (if t = kMul4 then Some (max (max (max (lv ! a) (lv ! b)) (lv ! c)) (lv ! d) + 1) else None)"
| "gate_depth lv (SIMDGate t as bs out) =
     (if t = kDotprod \<or> t = kTrdotp
      then Some (fold (\<lambda>i gd. max (max (lv ! (as ! i)) (lv ! (bs ! i))) gd) [0..<length as] 0 + 1)
      else None)"
| "gate_depth lv (ConstOpGate t a cval out) =
     (if t = kConstAdd \<or> t = kConstMul then Some (lv ! a) else None)"

definition level_step :: "'r gate \<Rightarrow> nat list \<times> nat \<Rightarrow> nat list \<times> nat" where
  "level_step g = (\<lambda>(lv, depth).
     let lv' = (case gate_depth lv g of None \<Rightarrow> lv | Some d \<Rightarrow> lv[gout g := d])
     in (lv', max depth (lv' ! gout g)))"

definition bucket_step ::
  "nat list \<Rightarrow> 'r gate \<Rightarrow> (GateType \<Rightarrow> nat) \<times> 'r gate list list \<Rightarrow> (GateType \<Rightarrow> nat) \<times> 'r gate list list" where
  "bucket_step lv g = (\<lambda>(cnt, lvls).
     (cnt(gtype g := cnt (gtype g) + 1),
      lvls[lv ! gout g := lvls ! (lv ! gout g) @ [g]]))"

definition orderGatesByLevel :: "'r Circuit \<Rightarrow> 'r LevelOrderedCircuit" where
  "orderGatesByLevel c =
     (let gs = circ_gates c;
          (lv, depth) = fold level_step gs (replicate (length gs) 0, 0);
          (cnt, lvls) = fold (bucket_step lv) gs ((\<lambda>_. 0), replicate (depth + 1) [])
      in \<lparr>num_gates = length gs, gate_count = cnt, outputs = circ_outputs c, gates_by_level = lvls\<rparr>)"

subsection \<open>Plaintext evaluation\<close>

record 'r ringops =
  is_BoolRing :: bool
  conv_u64 :: "'r \<Rightarrow> u64"
  R_of_u64 :: "u64 \<Rightarrow> 'r"

text \<open>An \<open>unordered_map\<close> is an association list; \<open>size\<close> counts its distinct keys.\<close>

type_synonym ('k, 'v) umap = "('k \<times> 'v) list"

definition umap_size :: "('k, 'v) umap \<Rightarrow> nat" where
  "umap_size m = length (remdups (map fst m))"

definition umap_at :: "('k, 'v) umap \<Rightarrow> 'k \<Rightarrow> exn + 'v" where
  "umap_at m k = (case map_of m k of None \<Rightarrow> Inl out_of_range | Some v \<Rightarrow> Inr v)"

definition FRACTION :: nat where
  "FRACTION = 16"

definition dot_acc :: "wire_t list \<Rightarrow> wire_t list \<Rightarrow> wire_t \<Rightarrow> 'r::comm_ring_1 list \<Rightarrow> 'r list" where
  "dot_acc as bs out wires =
     fold (\<lambda>i ws. ws[out := ws ! out + ws ! (as ! i) * ws ! (bs ! i)]) [0..<length as] wires"

fun eval_gate ::
  "'r::comm_ring_1 ringops \<Rightarrow> (wire_t, 'r) umap \<Rightarrow> 'r gate \<Rightarrow> 'r list \<Rightarrow> exn + 'r list" where
  "eval_gate R inputs (Gate t out) wires =
     (if t = kInp then
        (case umap_at inputs out of Inl e \<Rightarrow> Inl e | Inr v \<Rightarrow> Inr (wires[out := v]))
      else Inl (runtime_error ''Invalid gate type.''))"
| "eval_gate R inputs (FIn2Gate t a b out) wires =
     (if t = kMul then Inr (wires[out := wires ! a * wires ! b])
      else if t = kAdd then Inr (wires[out := wires ! a + wires ! b])
      else if t = kSub then Inr (wires[out := wires ! a - wires ! b])
      else Inl (runtime_error ''Invalid gate type.''))"
| "eval_gate R inputs (FIn3Gate t a b c out) wires =
     (if t = kMul3 then Inr (wires[out := wires ! a * wires ! b * wires ! c])
      else Inl (runtime_error ''Invalid gate type.''))"
| "eval_gate R inputs (FIn4Gate t a b c d out) wires =
     (if t = kMul4 then Inr (wires[out := wires ! a * wires ! b * wires ! c * wires ! d])
      else Inl (runtime_error ''Invalid gate type.''))"
| "eval_gate R inputs (ConstOpGate t a cval out) wires =
     (if t = kConstAdd then Inr (wires[out := wires ! a + cval])
      else if t = kConstMul then Inr (wires[out := wires ! a * cval])
      else Inl (runtime_error ''Invalid gate type.''))"
| "eval_gate R inputs (FIn1Gate t a out) wires =
     (if t = kEqz then Inr (wires[out := (if wires ! a = 0 then 1 else 0)])
      else if t = kLtz then
        Inr (wires[out := (if is_BoolRing R then wires ! a
          else of_bool (val (bitDecomposeTwo (conv_u64 R) (wires ! a) ! 63)))])
      else if t = kRelu then
        (if is_BoolRing R then Inl (runtime_error ''ReLU gates are invalid for BoolRing.'')
         else Inr (wires[out := (if val (bitDecomposeTwo (conv_u64 R) (wires ! a) ! 63) then 0
           else wires ! a)]))
      else if t = kMsb then
        Inr (wires[out := (if is_BoolRing R then wires ! a
          else of_bool (val (bitDecomposeTwo (conv_u64 R) (wires ! a) ! 63)))])
      else Inl (runtime_error ''Invalid gate type.''))"
| "eval_gate R inputs (SIMDGate t as bs out) wires =
     (if t = kDotprod then
        (if length bs < length as then Inl out_of_range else Inr (dot_acc as bs out wires))
      else if t = kTrdotp then
        (if is_BoolRing R then Inl (runtime_error ''Truncation gates are invalid for BoolRing.'')
         else if length bs < length as then Inl out_of_range
         else let ws = dot_acc as bs out wires; temp = conv_u64 R (ws ! out)
           in Inr (ws[out := R_of_u64 R (drop_bit FRACTION temp)]))
      else Inl (runtime_error ''Invalid gate type.''))"

definition evaluate :: "'r::comm_ring_1 ringops \<Rightarrow> 'r Circuit \<Rightarrow> (wire_t, 'r) umap \<Rightarrow> exn + 'r list" where
  "evaluate R c inputs =
     (let lc = orderGatesByLevel c;
          wires = replicate (num_gates lc) 0;
          num_inp_gates = gate_count lc kInp
      in if umap_size inputs \<noteq> num_inp_gates
         then Inl (expected_inputs num_inp_gates (umap_size inputs))
         else (case foldE (foldE (eval_gate R inputs)) (gates_by_level lc) wires of
             Inl e \<Rightarrow> Inl e
           | Inr ws \<Rightarrow> Inr (map (\<lambda>i. ws ! i) (outputs lc))))"

subsection \<open>The builder keeps circuits well formed\<close>

text \<open>
  A gate is typed when its tag goes with its class, which is what makes the \<open>static_cast\<close>s of
  the switches defined. In a well-formed circuit gate number \<open>i\<close> drives wire \<open>i\<close> and reads
  only earlier wires, and every output wire exists.
\<close>

fun gate_typed :: "'r gate \<Rightarrow> bool" where
  "gate_typed (Gate t _) \<longleftrightarrow> t = kInp"
| "gate_typed (FIn1Gate t _ _) \<longleftrightarrow> t \<in> {kRelu, kMsb, kEqz, kLtz}"
| "gate_typed (FIn2Gate t _ _ _) \<longleftrightarrow> t \<in> {kAdd, kMul, kSub}"
| "gate_typed (FIn3Gate t _ _ _ _) \<longleftrightarrow> t = kMul3"
| "gate_typed (FIn4Gate t _ _ _ _ _) \<longleftrightarrow> t = kMul4"
| "gate_typed (SIMDGate t as bs _) \<longleftrightarrow> t \<in> {kDotprod, kTrdotp} \<and> length as = length bs"
| "gate_typed (ConstOpGate t _ _ _) \<longleftrightarrow> t \<in> {kConstAdd, kConstMul}"

definition gates_ok :: "'r gate list \<Rightarrow> bool" where
  "gates_ok gs \<longleftrightarrow>
     (\<forall>i<length gs. gout (gs ! i) = i \<and> gate_typed (gs ! i) \<and> (\<forall>w\<in>set (gins (gs ! i)). w < i))"

definition circuit_ok :: "'r Circuit \<Rightarrow> bool" where
  "circuit_ok c \<longleftrightarrow>
     gates_ok (circ_gates c) \<and> (\<forall>w\<in>set (circ_outputs c). w < length (circ_gates c))"

lemma gates_okD:
  assumes "gates_ok gs" "i < length gs"
  shows "gout (gs ! i) = i" "gate_typed (gs ! i)" "\<And>w. w \<in> set (gins (gs ! i)) \<Longrightarrow> w < i"
  using assms by (auto simp: gates_ok_def)

lemma gates_ok_snoc:
  "gates_ok (gs @ [g]) \<longleftrightarrow>
     gates_ok gs \<and> gout g = length gs \<and> gate_typed g \<and> (\<forall>w\<in>set (gins g). w < length gs)"
  by (auto simp: gates_ok_def nth_append less_Suc_eq)

lemma circuit_ok_new: "circuit_ok Circuit_new"
  by (simp add: circuit_ok_def gates_ok_def Circuit_new_def)

lemma circuit_ok_push:
  assumes "circuit_ok c" "gout g = length (circ_gates c)" "gate_typed g"
    "\<forall>w\<in>set (gins g). w < length (circ_gates c)"
  shows "circuit_ok (push_gate g c)"
  using assms by (auto simp: circuit_ok_def push_gate_def gates_ok_snoc)

lemma circuit_ok_newInputWire: "circuit_ok c \<Longrightarrow> circuit_ok (snd (newInputWire c))"
  by (auto simp: newInputWire_def Let_def intro!: circuit_ok_push)

lemma circuit_ok_setAsOutput: "circuit_ok c \<Longrightarrow> setAsOutput w c = Inr c' \<Longrightarrow> circuit_ok c'"
  by (auto simp: setAsOutput_def isWireValid_def circuit_ok_def split: if_splits)

lemma circuit_ok_addGate2: "circuit_ok c \<Longrightarrow> addGate2 t a b c = Inr (w, c') \<Longrightarrow> circuit_ok c'"
  by (auto simp: addGate2_def isWireValid_def Let_def split: if_splits intro!: circuit_ok_push)

lemma circuit_ok_addGate3: "circuit_ok c \<Longrightarrow> addGate3 t a b d c = Inr (w, c') \<Longrightarrow> circuit_ok c'"
  by (auto simp: addGate3_def isWireValid_def Let_def split: if_splits intro!: circuit_ok_push)

lemma circuit_ok_addGate4: "circuit_ok c \<Longrightarrow> addGate4 t a b d e c = Inr (w, c') \<Longrightarrow> circuit_ok c'"
  by (auto simp: addGate4_def isWireValid_def Let_def split: if_splits intro!: circuit_ok_push)

lemma circuit_ok_addGate1: "circuit_ok c \<Longrightarrow> addGate1 t a c = Inr (w, c') \<Longrightarrow> circuit_ok c'"
  by (auto simp: addGate1_def isWireValid_def Let_def split: if_splits intro!: circuit_ok_push)

lemma circuit_ok_addConstOpGate:
  "circuit_ok c \<Longrightarrow> addConstOpGate t a k c = Inr (w, c') \<Longrightarrow> circuit_ok c'"
  by (auto simp: addConstOpGate_def isWireValid_def Let_def split: if_splits intro!: circuit_ok_push)

lemma circuit_ok_addGateV: "circuit_ok c \<Longrightarrow> addGateV t as bs c = Inr (w, c') \<Longrightarrow> circuit_ok c'"
  by (auto simp: addGateV_def isWireValid_def Let_def in_set_conv_nth split: if_splits
      intro!: circuit_ok_push)

lemmas builder_ok = circuit_ok_addGate1 circuit_ok_addGate2 circuit_ok_addGate3
  circuit_ok_addGate4 circuit_ok_addConstOpGate circuit_ok_addGateV circuit_ok_setAsOutput

subsection \<open>What the level order computes\<close>

text \<open>
  \<open>interactive\<close>: the gates that raise the multiplicative depth, and need a round of
  communication in the protocol.
\<close>

definition interactive :: "'r gate \<Rightarrow> bool" where
  "interactive g \<longleftrightarrow>
     gtype g \<in> {kMul, kMul3, kMul4, kRelu, kMsb, kEqz, kLtz, kDotprod, kTrdotp}"

text \<open>
  \<open>levels_ok D ls\<close>: reading the levels \<open>ls\<close> in order, with the wires \<open>D\<close> already computed,
  every gate reads computed wires only, no wire is computed twice, and an interactive gate
  reads wires computed before its level.
\<close>

fun level_ok :: "wire_t set \<Rightarrow> wire_t set \<Rightarrow> 'r gate list \<Rightarrow> bool" where
  "level_ok D0 D [] \<longleftrightarrow> True"
| "level_ok D0 D (g # gs) \<longleftrightarrow>
     set (gins g) \<subseteq> D \<and> (interactive g \<longrightarrow> set (gins g) \<subseteq> D0) \<and> gout g \<notin> D \<and> gate_typed g \<and>
     level_ok D0 (insert (gout g) D) gs"

fun levels_ok :: "wire_t set \<Rightarrow> 'r gate list list \<Rightarrow> bool" where
  "levels_ok D [] \<longleftrightarrow> True"
| "levels_ok D (l # ls) \<longleftrightarrow> level_ok D D l \<and> levels_ok (D \<union> gout ` set l) ls"

lemma fold_max_ge:
  fixes f :: "nat \<Rightarrow> nat"
  shows "m \<le> fold (\<lambda>i gd. max (f i) gd) xs m" and "i \<in> set xs \<Longrightarrow> f i \<le> fold (\<lambda>i gd. max (f i) gd) xs m"
proof (induction xs arbitrary: m)
  case (Cons x xs)
  { case 1 show ?case using Cons.IH(1) [of "max (f x) m"] by simp }
  { case 2 show ?case using Cons.IH(1) [of "max (f x) m"] Cons.IH(2) [of "max (f x) m"] 2 by auto }
qed simp_all

lemma fold_max_cong:
  "(\<And>i. i \<in> set xs \<Longrightarrow> f i = g i) \<Longrightarrow> fold (\<lambda>i gd. max (f i) gd) xs m = fold (\<lambda>i gd. max (g i) gd) xs (m::nat)"
  by (rule fold_cong) auto

lemma gate_depth_cong:
  assumes "\<And>w. w \<in> set (gins g) \<Longrightarrow> lv ! w = lv' ! w" and "gate_typed g"
  shows "gate_depth lv g = gate_depth lv' g"
  using assms by (cases g) (auto intro!: fold_cong)

lemma gate_depth_ge:
  assumes "gate_typed g" "gate_depth lv g = Some d" "w \<in> set (gins g)"
  shows "lv ! w \<le> d" and "interactive g \<Longrightarrow> lv ! w < d"
proof -
  have simd: "lv ! w \<le> fold (\<lambda>i gd. max (max (lv ! (as ! i)) (lv ! (bs ! i))) gd) [0..<length as] 0"
    if "g = SIMDGate t as bs out" for t as bs out
  proof -
    from that assms obtain i where "i < length as" "w = as ! i \<or> w = bs ! i"
      by (auto simp: in_set_conv_nth)
    then have "lv ! w \<le> max (lv ! (as ! i)) (lv ! (bs ! i))" and "i \<in> set [0..<length as]"
      by auto
    then show ?thesis
      using fold_max_ge(2) [of i "[0..<length as]" "\<lambda>i. max (lv ! (as ! i)) (lv ! (bs ! i))" 0]
      by (meson order_trans)
  qed
  show "lv ! w \<le> d"
    using assms simd by (cases g) (auto split: if_splits intro: le_SucI)
  show "lv ! w < d" if "interactive g"
    using assms simd that by (cases g) (auto simp: interactive_def less_Suc_eq_le split: if_splits)
qed

lemma gate_depth_None: "gate_typed g \<Longrightarrow> gate_depth lv g = None \<longleftrightarrow> gtype g = kInp"
  by (cases g) (auto split: if_splits)

text \<open>
  The levels the first loop leaves: a fixed point of \<open>gate_depth\<close>, because no later gate
  writes the entries an earlier one has read.
\<close>

definition levels_fix :: "'r gate list \<Rightarrow> nat list \<Rightarrow> nat \<Rightarrow> bool" where
  "levels_fix gs lv n \<longleftrightarrow> length lv = length gs \<and>
     (\<forall>i<n. lv ! i = (case gate_depth lv (gs ! i) of None \<Rightarrow> 0 | Some d \<Rightarrow> d)) \<and>
     (\<forall>i<length gs. n \<le> i \<longrightarrow> lv ! i = 0)"

lemma level_step_inv:
  assumes ok: "gates_ok gs" and n: "n < length gs"
    and fx: "levels_fix gs lv n" and depth: "\<forall>i<n. lv ! i \<le> depth"
    and step: "level_step (gs ! n) (lv, depth) = (lv', depth')"
  shows "levels_fix gs lv' (Suc n) \<and> (\<forall>i<Suc n. lv' ! i \<le> depth')"
proof -
  let ?g = "gs ! n"
  note g = gates_okD [OF ok n]
  have len: "length lv = length gs" using fx by (simp add: levels_fix_def)
  have lv': "lv' = (case gate_depth lv ?g of None \<Rightarrow> lv | Some d \<Rightarrow> lv[n := d])"
    and d': "depth' = max depth (lv' ! n)"
    using step g(1) by (auto simp: level_step_def Let_def split: option.splits)
  have same: "lv' ! i = lv ! i" if "i \<noteq> n" for i
    using that by (auto simp: lv' split: option.splits)
  have cong: "gate_depth lv' (gs ! i) = gate_depth lv (gs ! i)" if "i \<le> n" for i
    using that n gates_okD [OF ok, of i] by (intro gate_depth_cong same) fastforce+
  have here: "lv' ! n = (case gate_depth lv' ?g of None \<Rightarrow> 0 | Some d \<Rightarrow> d)"
    using fx n cong [of n] by (auto simp: lv' levels_fix_def split: option.splits)
  have "levels_fix gs lv' (Suc n)"
    using fx here cong same len
    by (auto simp: levels_fix_def less_Suc_eq lv' split: option.splits)
  moreover have "\<forall>i<Suc n. lv' ! i \<le> depth'"
    using depth same by (auto simp: less_Suc_eq d' intro: le_max_iff_disj [THEN iffD2])
  ultimately show ?thesis by blast
qed

lemma level_loop:
  assumes ok: "gates_ok gs"
  shows "\<exists>lv depth. fold level_step gs (replicate (length gs) 0, 0) = (lv, depth) \<and>
     levels_fix gs lv (length gs) \<and> (\<forall>i<length gs. lv ! i \<le> depth)"
proof -
  have "\<exists>lv depth. fold level_step (take n gs) (replicate (length gs) 0, 0) = (lv, depth) \<and>
      levels_fix gs lv n \<and> (\<forall>i<n. lv ! i \<le> depth)" if "n \<le> length gs" for n
    using that
  proof (induction n)
    case 0
    show ?case by (simp add: levels_fix_def)
  next
    case (Suc n)
    then obtain lv depth where IH: "fold level_step (take n gs) (replicate (length gs) 0, 0) = (lv, depth)"
      "levels_fix gs lv n" "\<forall>i<n. lv ! i \<le> depth" by auto
    obtain lv' depth' where st: "level_step (gs ! n) (lv, depth) = (lv', depth')" by fastforce
    have "levels_fix gs lv' (Suc n) \<and> (\<forall>i<Suc n. lv' ! i \<le> depth')"
      by (rule level_step_inv [OF ok _ IH(2,3) st]) (use Suc.prems in simp)
    moreover have "fold level_step (take (Suc n) gs) (replicate (length gs) 0, 0) = (lv', depth')"
      using Suc.prems IH(1) st by (simp add: take_Suc_conv_app_nth)
    ultimately show ?case by blast
  qed
  from this [of "length gs"] show ?thesis by simp
qed

lemma bucket_loop:
  assumes "\<forall>g\<in>set gs. lv ! gout g < length lvls"
  shows "fold (bucket_step lv) gs (cnt, lvls) =
     ((\<lambda>t. cnt t + length (filter (\<lambda>g. gtype g = t) gs)),
      map (\<lambda>l. lvls ! l @ filter (\<lambda>g. lv ! gout g = l) gs) [0..<length lvls])"
  using assms
proof (induction gs arbitrary: cnt lvls)
  case Nil
  show ?case by (simp add: map_nth)
next
  case (Cons g gs)
  have "fold (bucket_step lv) (g # gs) (cnt, lvls) =
      fold (bucket_step lv) gs (cnt(gtype g := cnt (gtype g) + 1),
        lvls[lv ! gout g := lvls ! (lv ! gout g) @ [g]])"
    by (simp add: bucket_step_def)
  also have "\<dots> = ((\<lambda>t. cnt t + length (filter (\<lambda>g. gtype g = t) (g # gs))),
      map (\<lambda>l. lvls ! l @ filter (\<lambda>g. lv ! gout g = l) (g # gs)) [0..<length lvls])"
    using Cons.prems by (subst Cons.IH) (auto simp: nth_list_update intro!: ext)
  finally show ?case .
qed

text \<open>The level order in closed form: level \<open>l\<close> has the gates of depth \<open>l\<close>, in insertion order.\<close>

lemma orderGatesByLevel_spec:
  assumes "gates_ok (circ_gates c)"
  obtains lv depth where "levels_fix (circ_gates c) lv (length (circ_gates c))"
    "\<forall>i<length (circ_gates c). lv ! i \<le> depth"
    "gates_by_level (orderGatesByLevel c) =
       map (\<lambda>l. filter (\<lambda>g. lv ! gout g = l) (circ_gates c)) [0..<Suc depth]"
    "gate_count (orderGatesByLevel c) = (\<lambda>t. length (filter (\<lambda>g. gtype g = t) (circ_gates c)))"
proof -
  let ?gs = "circ_gates c"
  obtain lv depth where fold: "fold level_step ?gs (replicate (length ?gs) 0, 0) = (lv, depth)"
    and fx: "levels_fix ?gs lv (length ?gs)" and dep: "\<forall>i<length ?gs. lv ! i \<le> depth"
    using level_loop [OF assms] by blast
  have "\<forall>g\<in>set ?gs. lv ! gout g < length (replicate (depth + 1) ([] :: 'a gate list))"
    using dep gates_okD(1) [OF assms] by (fastforce simp: in_set_conv_nth)
  note b = bucket_loop [OF this, of "\<lambda>_. 0"]
  have map_eq: "map (\<lambda>l. replicate (depth + 1) [] ! l @ filter (\<lambda>g. lv ! gout g = l) ?gs) [0..<Suc depth] =
      map (\<lambda>l. filter (\<lambda>g. lv ! gout g = l) ?gs) [0..<Suc depth]"
    by (rule map_cong) (auto simp del: replicate.simps upt_Suc)
  show thesis
  proof (rule that [OF fx dep])
    show "gates_by_level (orderGatesByLevel c) =
        map (\<lambda>l. filter (\<lambda>g. lv ! gout g = l) ?gs) [0..<Suc depth]"
      using b map_eq by (simp add: orderGatesByLevel_def fold Let_def)
    show "gate_count (orderGatesByLevel c) = (\<lambda>t. length (filter (\<lambda>g. gtype g = t) ?gs))"
      using b by (simp add: orderGatesByLevel_def fold Let_def)
  qed
qed


text \<open>
  Every gate reads wires of its own or of lower levels, and an interactive one of lower levels
  only; so the closed form satisfies \<open>levels_ok\<close>.
\<close>

lemma levels_fix_reads:
  assumes ok: "gates_ok gs" and fx: "levels_fix gs lv (length gs)" and i: "i < length gs"
    and w: "w \<in> set (gins (gs ! i))"
  shows "lv ! w \<le> lv ! i" and "interactive (gs ! i) \<Longrightarrow> lv ! w < lv ! i"
proof -
  note g = gates_okD [OF ok i]
  have "gate_depth lv (gs ! i) \<noteq> None"
  proof
    assume "gate_depth lv (gs ! i) = None"
    with g(2) have "gtype (gs ! i) = kInp" by (simp add: gate_depth_None)
    with g(2) w show False by (cases "gs ! i") auto
  qed
  then obtain d where d: "gate_depth lv (gs ! i) = Some d" by auto
  with fx i have "lv ! i = d" by (auto simp: levels_fix_def)
  with gate_depth_ge [OF g(2) d w] show "lv ! w \<le> lv ! i" "interactive (gs ! i) \<Longrightarrow> lv ! w < lv ! i"
    by simp_all
qed

lemma level_ok_filter:
  assumes ok: "gates_ok gs" and fx: "levels_fix gs lv (length gs)" and "k \<le> length gs"
  shows "level_ok {w. w < length gs \<and> lv ! w < l}
    {w. w < length gs \<and> (lv ! w < l \<or> lv ! w = l \<and> w < k)}
    (filter (\<lambda>g. lv ! gout g = l) (drop k gs))"
  using assms(3)
proof (induction rule: inc_induct)
  case base
  show ?case by simp
next
  case (step k)
  let ?D = "\<lambda>k. {w. w < length gs \<and> (lv ! w < l \<or> lv ! w = l \<and> w < k)}"
  note g = gates_okD [OF ok step.hyps(2)]
  have d: "drop k gs = gs ! k # drop (Suc k) gs"
    using step.hyps by (simp add: Cons_nth_drop_Suc)
  show ?case
  proof (cases "lv ! k = l")
    case True
    have "insert k (?D k) = ?D (Suc k)"
      using True step.hyps by (auto simp: less_Suc_eq)
    moreover have "set (gins (gs ! k)) \<subseteq> ?D k"
      using True levels_fix_reads(1) [OF ok fx step.hyps(2)] g(3) step.hyps(2)
      by (auto simp: le_less intro: less_trans)
    moreover have "set (gins (gs ! k)) \<subseteq> {w. w < length gs \<and> lv ! w < l}" if "interactive (gs ! k)"
      using True levels_fix_reads(2) [OF ok fx step.hyps(2) _ that] g(3) step.hyps(2)
      by (auto intro: less_trans)
    ultimately show ?thesis using step.IH True g(1,2) by (simp add: d)
  next
    case False
    then have "?D k = ?D (Suc k)" by (auto simp: less_Suc_eq)
    with step.IH False g(1) show ?thesis by (simp add: d)
  qed
qed

lemma level_wires:
  assumes "gates_ok gs"
  shows "gout ` set (filter (\<lambda>g. lv ! gout g = l) gs) = {w. w < length gs \<and> lv ! w = l}"
proof -
  have "gout ` set gs = {..<length gs}"
    using gates_okD(1) [OF assms] by (force simp: in_set_conv_nth image_iff)
  then show ?thesis by (auto simp: image_iff)
qed

lemma levels_ok_map:
  assumes ok: "gates_ok gs" and fx: "levels_fix gs lv (length gs)"
  shows "levels_ok {w. w < length gs \<and> lv ! w < l}
    (map (\<lambda>l. filter (\<lambda>g. lv ! gout g = l) gs) [l..<l + n])"
proof (induction n arbitrary: l)
  case 0
  show ?case by simp
next
  case (Suc n)
  have "{w. w < length gs \<and> lv ! w < l} \<union> {w. w < length gs \<and> lv ! w = l} =
      {w. w < length gs \<and> lv ! w < Suc l}" by auto
  with level_ok_filter [OF ok fx, of 0 l] Suc.IH [of "Suc l"] show ?case
    by (simp add: upt_conv_Cons level_wires [OF ok] del: upt_Suc set_filter)
qed

text \<open>
  The facts about the level order that the evaluators rest on: it is sound for evaluation, it
  has every gate exactly once, and it counts the gates of each type.
\<close>

lemma orderGatesByLevel_levels_ok:
  assumes "circuit_ok c"
  shows "levels_ok {} (gates_by_level (orderGatesByLevel c))"
proof -
  have ok: "gates_ok (circ_gates c)" using assms by (simp add: circuit_ok_def)
  obtain lv depth where fx: "levels_fix (circ_gates c) lv (length (circ_gates c))"
    and lvls: "gates_by_level (orderGatesByLevel c) =
       map (\<lambda>l. filter (\<lambda>g. lv ! gout g = l) (circ_gates c)) [0..<Suc depth]"
    by (rule orderGatesByLevel_spec [OF ok])
  show ?thesis using levels_ok_map [OF ok fx, of 0 "Suc depth"] by (simp add: lvls del: upt_Suc)
qed

lemma mset_buckets_below:
  "mset (concat (map (\<lambda>l. filter (\<lambda>x. f x = l) xs) [0..<n])) = mset (filter (\<lambda>x. f x < n) xs)"
proof (induction n)
  case 0
  show ?case by simp
next
  case (Suc n)
  have "mset (filter (\<lambda>x. f x < Suc n) xs) = mset (filter (\<lambda>x. f x < n) xs) + mset (filter (\<lambda>x. f x = n) xs)"
    by (induction xs) auto
  with Suc.IH show ?case by simp
qed

lemma mset_buckets:
  assumes "\<forall>x\<in>set xs. f x < n"
  shows "mset (concat (map (\<lambda>l. filter (\<lambda>x. f x = l) xs) [0..<n])) = mset xs"
  using assms by (subst mset_buckets_below) (simp add: filter_id_conv)

lemma orderGatesByLevel_mset:
  assumes "circuit_ok c"
  shows "mset (concat (gates_by_level (orderGatesByLevel c))) = mset (circ_gates c)"
proof -
  have ok: "gates_ok (circ_gates c)" using assms by (simp add: circuit_ok_def)
  obtain lv depth where dep: "\<forall>i<length (circ_gates c). lv ! i \<le> depth"
    and lvls: "gates_by_level (orderGatesByLevel c) =
       map (\<lambda>l. filter (\<lambda>g. lv ! gout g = l) (circ_gates c)) [0..<Suc depth]"
    by (rule orderGatesByLevel_spec [OF ok])
  have "\<forall>g\<in>set (circ_gates c). lv ! gout g < Suc depth"
    using dep gates_okD(1) [OF ok] by (fastforce simp: in_set_conv_nth less_Suc_eq_le)
  from mset_buckets [OF this] show ?thesis by (simp only: lvls)
qed

lemma orderGatesByLevel_fields [simp]:
  "num_gates (orderGatesByLevel c) = length (circ_gates c)"
  "outputs (orderGatesByLevel c) = circ_outputs c"
  by (simp_all add: orderGatesByLevel_def Let_def split: prod.splits)


subsection \<open>Evaluation in level order\<close>

text \<open>
  The value of a gate over a valuation of its input wires, and the reference evaluation
  \<open>wire_vals\<close>, which takes the gates in the order in which the builder appended them.
\<close>

definition msb :: "'r::comm_ring_1 ringops \<Rightarrow> 'r \<Rightarrow> bool" where
  "msb R x = bit (conv_u64 R x) 63"

definition dotp :: "'r::comm_ring_1 list \<Rightarrow> wire_t list \<Rightarrow> wire_t list \<Rightarrow> 'r" where
  "dotp v as bs = (\<Sum>i\<leftarrow>[0..<length as]. v ! (as ! i) * v ! (bs ! i))"

fun gate_val :: "'r::comm_ring_1 ringops \<Rightarrow> (wire_t \<Rightarrow> 'r) \<Rightarrow> 'r list \<Rightarrow> 'r gate \<Rightarrow> 'r" where
  "gate_val R inp v (Gate t out) = inp out"
| "gate_val R inp v (FIn1Gate t a out) =
     (if t = kEqz then of_bool (v ! a = 0)
      else if t = kRelu then (if msb R (v ! a) then 0 else v ! a)
      else if is_BoolRing R then v ! a else of_bool (msb R (v ! a)))"
| "gate_val R inp v (FIn2Gate t a b out) =
     (if t = kMul then v ! a * v ! b else if t = kAdd then v ! a + v ! b else v ! a - v ! b)"
| "gate_val R inp v (FIn3Gate t a b c out) = v ! a * v ! b * v ! c"
| "gate_val R inp v (FIn4Gate t a b c d out) = v ! a * v ! b * v ! c * v ! d"
| "gate_val R inp v (SIMDGate t as bs out) =
     (if t = kDotprod then dotp v as bs
      else R_of_u64 R (drop_bit FRACTION (conv_u64 R (dotp v as bs))))"
| "gate_val R inp v (ConstOpGate t a k out) = (if t = kConstAdd then v ! a + k else v ! a * k)"

definition vals_by :: "('r list \<Rightarrow> 'r gate \<Rightarrow> 'r) \<Rightarrow> 'r gate list \<Rightarrow> 'r list" where
  "vals_by f gs = fold (\<lambda>g vs. vs @ [f vs g]) gs []"

definition wire_vals :: "'r::comm_ring_1 ringops \<Rightarrow> (wire_t \<Rightarrow> 'r) \<Rightarrow> 'r gate list \<Rightarrow> 'r list" where
  "wire_vals R inp gs = vals_by (gate_val R inp) gs"

lemma gate_val_cong:
  assumes "gate_typed g" "\<And>w. w \<in> set (gins g) \<Longrightarrow> v ! w = v' ! w"
  shows "gate_val R inp v g = gate_val R inp v' g"
  using assms by (cases g) (auto simp: dotp_def intro!: arg_cong [where f = sum_list]
      arg_cong [where f = "\<lambda>x. R_of_u64 R (drop_bit FRACTION (conv_u64 R x))"])

lemma vals_by_snoc: "vals_by f (gs @ [g]) = vals_by f gs @ [f (vals_by f gs) g]"
  by (simp add: vals_by_def)

lemma length_vals_by [simp]: "length (vals_by f gs) = length gs"
  by (induction gs rule: rev_induct) (simp_all add: vals_by_snoc, simp add: vals_by_def)

lemma wire_vals_snoc:
  "wire_vals R inp (gs @ [g]) = wire_vals R inp gs @ [gate_val R inp (wire_vals R inp gs) g]"
  by (simp add: wire_vals_def vals_by_snoc)

lemma length_wire_vals [simp]: "length (wire_vals R inp gs) = length gs"
  by (simp add: wire_vals_def)

text \<open>
  An evaluation in insertion order satisfies the equation of every gate, provided the value of a
  gate depends on its input wires only.
\<close>

lemma vals_by_fix:
  assumes f: "\<And>g v v'. gate_typed g \<Longrightarrow> (\<And>w. w \<in> set (gins g) \<Longrightarrow> v ! w = v' ! w) \<Longrightarrow> f v g = f v' g"
    and "gates_ok gs" "i < length gs"
  shows "vals_by f gs ! i = f (vals_by f gs) (gs ! i)"
  using assms(2,3)
proof (induction gs arbitrary: i rule: rev_induct)
  case Nil
  then show ?case by simp
next
  case (snoc g gs)
  let ?v = "vals_by f gs"
  have ok: "gates_ok gs" and g: "gate_typed g" "\<forall>w\<in>set (gins g). w < length gs"
    using snoc.prems(1) by (simp_all add: gates_ok_snoc)
  show ?case
  proof (cases "i = length gs")
    case True
    then show ?thesis
      using g by (simp add: vals_by_snoc nth_append) (intro f, auto simp: nth_append)
  next
    case False
    with snoc.prems have i: "i < length gs" by simp
    have "?v ! i = f ?v (gs ! i)"
      by (rule snoc.IH [OF ok i])
    also have "\<dots> = f (vals_by f (gs @ [g])) (gs ! i)"
      using gates_okD [OF ok i] i
      by (intro f) (auto simp: vals_by_snoc nth_append dest!: gates_okD(3) [OF ok i])
    finally show ?thesis using i by (simp add: vals_by_snoc nth_append)
  qed
qed

lemma wire_vals_fix:
  assumes "gates_ok gs" "i < length gs"
  shows "wire_vals R inp gs ! i = gate_val R inp (wire_vals R inp gs) (gs ! i)"
  unfolding wire_vals_def by (rule vals_by_fix [OF gate_val_cong assms])

text \<open>Two evaluations that agree on every gate of the list agree.\<close>

lemma vals_by_cong:
  assumes "\<And>g v. g \<in> set gs \<Longrightarrow> f v g = f' v g"
  shows "vals_by f gs = vals_by f' gs"
  unfolding vals_by_def using assms by (intro fold_cong) auto

lemma dot_acc_eq:
  assumes "out < length wires" "out \<notin> set as" "out \<notin> set bs" "length as = length bs" "wires ! out = 0"
  shows "dot_acc as bs out wires = wires[out := dotp wires as bs]"
proof -
  have "fold (\<lambda>i ws. ws[out := ws ! out + ws ! (as ! i) * ws ! (bs ! i)]) [0..<n] wires =
      wires[out := (\<Sum>i\<leftarrow>[0..<n]. wires ! (as ! i) * wires ! (bs ! i))]" if "n \<le> length as" for n
    using that
  proof (induction n)
    case 0
    then show ?case using assms by (metis fold_simps(1) list.simps(8) list_update_id sum_list.Nil upt_0)
  next
    case (Suc n)
    then have "as ! n \<noteq> out" "bs ! n \<noteq> out"
      using assms by (auto simp: in_set_conv_nth)
    with Suc assms show ?case by simp
  qed
  then show ?thesis by (simp add: dot_acc_def dotp_def)
qed

text \<open>
  \<open>gate_supported\<close>: the gates the code refuses over \<open>BoolRing\<close> do not occur.
\<close>

definition gate_supported :: "'r ringops \<Rightarrow> 'r gate \<Rightarrow> bool" where
  "gate_supported R g \<longleftrightarrow> (is_BoolRing R \<longrightarrow> gtype g \<noteq> kRelu \<and> gtype g \<noteq> kTrdotp)"

lemma eval_gate_eq:
  assumes "gate_typed g" "gate_supported R g" "gout g < length ws" "ws ! gout g = 0"
    "gout g \<notin> set (gins g)" "gtype g = kInp \<Longrightarrow> map_of inputs (gout g) = Some (inp (gout g))"
  shows "eval_gate R inputs g ws = Inr (ws[gout g := gate_val R inp ws g])"
  using assms
  by (cases g) (auto simp: umap_at_def msb_def bitDecomposeTwo_def bitDecompose_nth gate_supported_def
      dot_acc_eq Let_def split: if_splits)

text \<open>A level computed from correct wires is correct; the other wires keep their zero.\<close>

definition agree :: "'r::comm_ring_1 list \<Rightarrow> wire_t set \<Rightarrow> 'r list \<Rightarrow> bool" where
  "agree v D ws \<longleftrightarrow> length ws = length v \<and> (\<forall>w<length v. ws ! w = (if w \<in> D then v ! w else 0))"

lemma agree_insert:
  "agree v D ws \<Longrightarrow> x = v ! w \<Longrightarrow> agree v (insert w D) (ws[w := x])"
  by (cases "w < length v") (auto simp: agree_def nth_list_update list_update_beyond)

lemma eval_level:
  assumes "level_ok D0 D gs" "agree v D ws" "D \<subseteq> {..<length v}"
    "\<forall>g\<in>set gs. gout g < length v \<and> gate_supported R g \<and> v ! gout g = gate_val R inp v g \<and>
      (gtype g = kInp \<longrightarrow> map_of inputs (gout g) = Some (inp (gout g)))"
  shows "\<exists>ws'. foldE (eval_gate R inputs) gs ws = Inr ws' \<and> agree v (D \<union> gout ` set gs) ws'"
  using assms
proof (induction gs arbitrary: D ws)
  case Nil
  then show ?case by simp
next
  case (Cons g gs)
  have g: "set (gins g) \<subseteq> D" "gout g \<notin> D" "gate_typed g" "level_ok D0 (insert (gout g) D) gs"
    using Cons.prems(1) by auto
  have out: "gout g < length v" using Cons.prems(4) by simp
  have "gate_val R inp ws g = gate_val R inp v g"
    using g(1,3) Cons.prems(2,3) by (intro gate_val_cong) (auto simp: agree_def subset_iff)
  moreover have "eval_gate R inputs g ws = Inr (ws[gout g := gate_val R inp ws g])"
    using g Cons.prems out by (intro eval_gate_eq) (auto simp: agree_def)
  moreover have "agree v (insert (gout g) D) (ws[gout g := v ! gout g])"
    by (rule agree_insert [OF Cons.prems(2) refl])
  ultimately show ?case
    using Cons.IH [OF g(4), of "ws[gout g := v ! gout g]"] Cons.prems(3,4) out by simp
qed

lemma eval_levels:
  assumes "levels_ok D ls" "agree v D ws" "D \<subseteq> {..<length v}"
    "\<forall>g\<in>set (concat ls). gout g < length v \<and> gate_supported R g \<and> v ! gout g = gate_val R inp v g \<and>
      (gtype g = kInp \<longrightarrow> map_of inputs (gout g) = Some (inp (gout g)))"
  shows "\<exists>ws'. foldE (foldE (eval_gate R inputs)) ls ws = Inr ws' \<and>
    agree v (D \<union> gout ` set (concat ls)) ws'"
  using assms
proof (induction ls arbitrary: D ws)
  case Nil
  then show ?case by simp
next
  case (Cons l ls)
  obtain ws1 where ws1: "foldE (eval_gate R inputs) l ws = Inr ws1" "agree v (D \<union> gout ` set l) ws1"
    using eval_level [of D D l v ws R inp inputs] Cons.prems by auto
  have "D \<union> gout ` set l \<subseteq> {..<length v}" using Cons.prems(3,4) by auto
  then obtain ws2 where "foldE (foldE (eval_gate R inputs)) ls ws1 = Inr ws2"
    "agree v (D \<union> gout ` set l \<union> gout ` set (concat ls)) ws2"
    using Cons.IH [of "D \<union> gout ` set l" ws1] ws1(2) Cons.prems by auto
  with ws1(1) show ?case by (simp add: image_Un Un_assoc)
qed

text \<open>The inputs of an evaluation: exactly one value for each input wire.\<close>

definition inputs_ok :: "'r gate list \<Rightarrow> (wire_t, 'r) umap \<Rightarrow> bool" where
  "inputs_ok gs inputs \<longleftrightarrow>
     set (map fst inputs) = gout ` set (filter (\<lambda>g. gtype g = kInp) gs)"

lemma gates_ok_distinct: "gates_ok gs \<Longrightarrow> distinct (map gout gs)"
  by (simp add: distinct_conv_nth gates_ok_def)

lemma inputs_ok_size:
  assumes "gates_ok gs" "inputs_ok gs inputs"
  shows "umap_size inputs = length (filter (\<lambda>g. gtype g = kInp) gs)"
proof -
  have "distinct (map gout (filter (\<lambda>g. gtype g = kInp) gs))"
    using gates_ok_distinct [OF assms(1)] by (rule distinct_map_filter)
  then have "card (gout ` set (filter (\<lambda>g. gtype g = kInp) gs)) = length (filter (\<lambda>g. gtype g = kInp) gs)"
    by (metis distinct_card length_map set_map)
  moreover have "umap_size inputs = card (set (map fst inputs))"
    by (simp add: umap_size_def length_remdups_card_conv)
  ultimately show ?thesis using assms(2) by (simp only: inputs_ok_def)
qed

lemma evaluate_eq:
  assumes ok: "circuit_ok c" and inp: "inputs_ok (circ_gates c) inputs"
    and sup: "\<forall>g\<in>set (circ_gates c). gate_supported R g"
  shows "evaluate R c inputs =
    Inr (map (\<lambda>w. wire_vals R (\<lambda>w. the (map_of inputs w)) (circ_gates c) ! w) (circ_outputs c))"
proof -
  let ?gs = "circ_gates c" and ?inp = "\<lambda>w. the (map_of inputs w)"
  let ?lc = "orderGatesByLevel c" and ?v = "wire_vals R ?inp ?gs"
  have gok: "gates_ok ?gs" using ok by (simp add: circuit_ok_def)
  have set: "set (concat (gates_by_level ?lc)) = set ?gs"
    using orderGatesByLevel_mset [OF ok] by (metis set_mset_mset)
  have "\<forall>g\<in>set (concat (gates_by_level ?lc)). gout g < length ?v \<and> gate_supported R g \<and>
      ?v ! gout g = gate_val R ?inp ?v g \<and> (gtype g = kInp \<longrightarrow> map_of inputs (gout g) = Some (?inp (gout g)))"
  proof
    fix g assume "g \<in> set (concat (gates_by_level ?lc))"
    then obtain i where i: "i < length ?gs" "g = ?gs ! i" unfolding set by (auto simp: in_set_conv_nth)
    then have out: "gout g = i" and g: "g \<in> set ?gs" by (simp_all add: gates_okD(1) [OF gok])
    have "map_of inputs (gout g) = Some (?inp (gout g))" if "gtype g = kInp"
    proof -
      have "gout g \<in> fst ` set inputs" using that g inp by (auto simp: inputs_ok_def)
      then show ?thesis by (cases "map_of inputs (gout g)") (auto simp: map_of_eq_None_iff)
    qed
    moreover have "?v ! gout g = gate_val R ?inp ?v g"
      using wire_vals_fix [OF gok i(1)] by (simp only: out i(2) [symmetric])
    moreover have "gout g < length ?v" using i(1) by (simp only: out length_wire_vals)
    ultimately show "gout g < length ?v \<and> gate_supported R g \<and> ?v ! gout g = gate_val R ?inp ?v g \<and>
        (gtype g = kInp \<longrightarrow> map_of inputs (gout g) = Some (?inp (gout g)))"
      using sup g by blast
  qed
  then obtain ws where ws: "foldE (foldE (eval_gate R inputs)) (gates_by_level ?lc) (replicate (length ?gs) 0) = Inr ws"
    "agree ?v ({} \<union> gout ` set (concat (gates_by_level ?lc))) ws"
    using eval_levels [OF orderGatesByLevel_levels_ok [OF ok], of ?v "replicate (length ?gs) 0" R ?inp inputs]
    by (force simp: agree_def)
  then have ag: "agree ?v (gout ` set ?gs) ws" by (simp only: set Un_empty_left)
  have "ws ! w = ?v ! w" if "w \<in> set (circ_outputs c)" for w
  proof -
    have "w < length ?gs" using that ok by (simp add: circuit_ok_def)
    moreover then have "w \<in> gout ` set ?gs"
      using gates_okD(1) [OF gok, of w] by (metis imageI nth_mem)
    ultimately show ?thesis using ag by (simp add: agree_def)
  qed
  moreover have "umap_size inputs = gate_count ?lc kInp"
    by (rule orderGatesByLevel_spec [OF gok]) (simp add: inputs_ok_size [OF gok inp])
  ultimately show ?thesis using ws(1) by (simp add: evaluate_def Let_def)
qed

end
