(* ===== verification/Sharing.thy ===== *)
theory Sharing
  imports Circuits
begin

section \<open>Authenticated additive shares (asterisk/sharing.h)\<close>

text \<open>
  \<open>AuthAddShare\<close> is what one party holds of a shared value: its share of the MAC key, of the
  value and of the tag. \<open>TPShare\<close> is what the dealer (party 0) holds: the key, and the key,
  value and tag shares of every party, indexed by party, with entry 0 for the dealer itself.

  \<open>shared\<close> is the meaning of the parties' shares of \<open>x\<close>: the value shares add up to \<open>x\<close> and
  the tag shares to key times \<open>x\<close>. \<open>dealt\<close> ties them to the dealer's copy. The lemmas show
  that the share operators compute on the shared values, which is what both phases of the
  protocol rest on.
\<close>

record 'r AuthAddShare =
  key_sh :: 'r
  valueAt :: 'r
  tagAt :: 'r

record 'r TPShare =
  macKey :: 'r
  tp_key_sh :: "'r list"
  tp_values :: "'r list"
  tp_tags :: "'r list"

definition AuthAddShare_default :: "'r::comm_ring_1 AuthAddShare" where
  "AuthAddShare_default = \<lparr>key_sh = 0, valueAt = 0, tagAt = 0\<rparr>"

definition TPShare_default :: "'r::comm_ring_1 TPShare" where
  "TPShare_default = \<lparr>macKey = 0, tp_key_sh = [], tp_values = [], tp_tags = []\<rparr>"

subsection \<open>The party's share\<close>

definition pushValue :: "'r \<Rightarrow> 'r AuthAddShare \<Rightarrow> 'r AuthAddShare" where
  "pushValue v s = s\<lparr>valueAt := v\<rparr>"

definition pushTag :: "'r \<Rightarrow> 'r AuthAddShare \<Rightarrow> 'r AuthAddShare" where
  "pushTag t s = s\<lparr>tagAt := t\<rparr>"

definition setKey :: "'r \<Rightarrow> 'r AuthAddShare \<Rightarrow> 'r AuthAddShare" where
  "setKey k s = s\<lparr>key_sh := k\<rparr>"

text \<open>\<open>operator+=\<close> takes the key share of the right operand.\<close>

definition aas_add :: "'r::comm_ring_1 AuthAddShare \<Rightarrow> 'r AuthAddShare \<Rightarrow> 'r AuthAddShare" where
  "aas_add lhs rhs =
     \<lparr>key_sh = key_sh rhs, valueAt = valueAt lhs + valueAt rhs, tagAt = tagAt lhs + tagAt rhs\<rparr>"

definition aas_mul :: "'r::comm_ring_1 AuthAddShare \<Rightarrow> 'r \<Rightarrow> 'r AuthAddShare" where
  "aas_mul lhs c = lhs\<lparr>valueAt := valueAt lhs * c, tagAt := tagAt lhs * c\<rparr>"

definition aas_sub :: "'r::comm_ring_1 AuthAddShare \<Rightarrow> 'r AuthAddShare \<Rightarrow> 'r AuthAddShare" where
  "aas_sub lhs rhs = aas_add lhs (aas_mul rhs (- 1))"

definition aas_shl :: "'r::comm_ring_1 ringops \<Rightarrow> 'r AuthAddShare \<Rightarrow> nat \<Rightarrow> 'r AuthAddShare" where
  "aas_shl R s n = s\<lparr>valueAt := R_of_u64 R (push_bit n (conv_u64 R (valueAt s))),
     tagAt := R_of_u64 R (push_bit n (conv_u64 R (tagAt s)))\<rparr>"

definition aas_shr :: "'r::comm_ring_1 ringops \<Rightarrow> 'r AuthAddShare \<Rightarrow> nat \<Rightarrow> 'r AuthAddShare" where
  "aas_shr R s n = s\<lparr>valueAt := R_of_u64 R (drop_bit n (conv_u64 R (valueAt s))),
     tagAt := R_of_u64 R (drop_bit n (conv_u64 R (tagAt s)))\<rparr>"

definition aas_addc :: "'r::comm_ring_1 \<Rightarrow> nat \<Rightarrow> 'r AuthAddShare \<Rightarrow> 'r AuthAddShare" where
  "aas_addc v pid s =
     (if pid = 1 then s\<lparr>valueAt := valueAt s + v, tagAt := tagAt s + key_sh s * v\<rparr>
      else s\<lparr>tagAt := tagAt s + key_sh s * v\<rparr>)"

definition addWithAdder :: "'r::comm_ring_1 \<Rightarrow> nat \<Rightarrow> nat \<Rightarrow> 'r AuthAddShare \<Rightarrow> 'r AuthAddShare" where
  "addWithAdder v pid adder s =
     (if pid = adder then s\<lparr>valueAt := valueAt s + v, tagAt := tagAt s + key_sh s * v\<rparr>
      else s\<lparr>tagAt := tagAt s + key_sh s * v\<rparr>)"

definition aas_shift :: "'r::comm_ring_1 ringops \<Rightarrow> 'r AuthAddShare \<Rightarrow> 'r AuthAddShare" where
  "aas_shift R s =
     s\<lparr>valueAt := (if bitDecomposeTwo (conv_u64 R) (valueAt s) ! 63 = 1 then 1 else 0),
       tagAt := (if bitDecomposeTwo (conv_u64 R) (tagAt s) ! 63 = 1 then 1 else 0)\<rparr>"

lemma aas_fields [share_simps]:
  "key_sh (aas_add a b) = key_sh b"
  "valueAt (aas_add a b) = valueAt a + valueAt b"
  "tagAt (aas_add a b) = tagAt a + tagAt b"
  "key_sh (aas_mul a c) = key_sh a"
  "valueAt (aas_mul a c) = valueAt a * c"
  "tagAt (aas_mul a c) = tagAt a * c"
  "key_sh (aas_sub a b) = key_sh b"
  "valueAt (aas_sub a b) = valueAt a - valueAt b"
  "tagAt (aas_sub a b) = tagAt a - tagAt b"
  "key_sh (aas_addc v p a) = key_sh a"
  "valueAt (aas_addc v p a) = valueAt a + (if p = 1 then v else 0)"
  "tagAt (aas_addc v p a) = tagAt a + key_sh a * v"
  "key_sh (addWithAdder v p q a) = key_sh a"
  "valueAt (addWithAdder v p q a) = valueAt a + (if p = q then v else 0)"
  "tagAt (addWithAdder v p q a) = tagAt a + key_sh a * v"
  by (simp_all add: aas_add_def aas_mul_def aas_sub_def aas_addc_def addWithAdder_def)

lemma share_setters [share_simps]:
  "key_sh (pushValue v s) = key_sh s" "valueAt (pushValue v s) = v" "tagAt (pushValue v s) = tagAt s"
  "key_sh (pushTag v s) = key_sh s" "valueAt (pushTag v s) = valueAt s" "tagAt (pushTag v s) = v"
  "key_sh (setKey v s) = v" "valueAt (setKey v s) = valueAt s" "tagAt (setKey v s) = tagAt s"
  by (simp_all add: pushValue_def pushTag_def setKey_def)

subsection \<open>The dealer's share\<close>

text \<open>The loops of the \<open>TPShare\<close> operators run over the indices from 1 and update in place.\<close>

definition upd_range :: "nat \<Rightarrow> nat \<Rightarrow> (nat \<Rightarrow> 'a \<Rightarrow> 'a) \<Rightarrow> 'a list \<Rightarrow> 'a list" where
  "upd_range a b f xs = fold (\<lambda>i xs. xs[i := f i (xs ! i)]) [a..<b] xs"

lemma length_upd_range [simp]: "length (upd_range a b f xs) = length xs"
proof -
  have "length (fold (\<lambda>i xs. xs[i := f i (xs ! i)]) is xs) = length xs" for "is"
    by (induction "is" arbitrary: xs) simp_all
  then show ?thesis by (simp add: upd_range_def)
qed

lemma nth_upd_range:
  "i < length xs \<Longrightarrow> upd_range a b f xs ! i = (if a \<le> i \<and> i < b then f i (xs ! i) else xs ! i)"
proof (induction b)
  case 0
  then show ?case by (simp add: upd_range_def)
next
  case (Suc b)
  have "upd_range a (Suc b) f xs =
      (if a \<le> b then (upd_range a b f xs)[b := f b (upd_range a b f xs ! b)] else upd_range a b f xs)"
    by (simp add: upd_range_def)
  moreover have "i < length (upd_range a b f xs)" using Suc.prems by simp
  ultimately show ?case using Suc by (auto simp: nth_list_update less_Suc_eq)
qed

definition tp_at :: "'r TPShare \<Rightarrow> nat \<Rightarrow> 'r option" where
  "tp_at s idx = vec_at (tp_values s) idx"

definition commonValueWithParty :: "'r TPShare \<Rightarrow> nat \<Rightarrow> 'r option" where
  "commonValueWithParty s pid = vec_at (tp_values s) pid"

definition commonTagWithParty :: "'r TPShare \<Rightarrow> nat \<Rightarrow> 'r option" where
  "commonTagWithParty s pid = vec_at (tp_tags s) pid"

definition commonKeyWithParty :: "'r TPShare \<Rightarrow> nat \<Rightarrow> 'r option" where
  "commonKeyWithParty s pid = vec_at (tp_key_sh s) pid"

definition tp_setKey :: "'r \<Rightarrow> 'r TPShare \<Rightarrow> 'r TPShare" where
  "tp_setKey k s = s\<lparr>macKey := k\<rparr>"

definition pushValues :: "'r \<Rightarrow> 'r TPShare \<Rightarrow> 'r TPShare" where
  "pushValues v s = s\<lparr>tp_values := tp_values s @ [v]\<rparr>"

definition pushTags :: "'r \<Rightarrow> 'r TPShare \<Rightarrow> 'r TPShare" where
  "pushTags t s = s\<lparr>tp_tags := tp_tags s @ [t]\<rparr>"

definition setKeySh :: "'r \<Rightarrow> 'r TPShare \<Rightarrow> 'r TPShare" where
  "setKeySh k s = s\<lparr>tp_key_sh := tp_key_sh s @ [k]\<rparr>"

definition secret :: "'r::comm_ring_1 TPShare \<Rightarrow> 'r" where
  "secret s = fold (\<lambda>i res. res + tp_values s ! i) [1..<length (tp_values s)] (tp_values s ! 0)"

definition tp_add :: "'r::comm_ring_1 TPShare \<Rightarrow> 'r TPShare \<Rightarrow> 'r TPShare" where
  "tp_add lhs rhs =
     (let n = length (tp_values lhs)
      in \<lparr>macKey = macKey rhs,
          tp_key_sh = upd_range 1 n (\<lambda>i _. tp_key_sh rhs ! i) (tp_key_sh lhs),
          tp_values = upd_range 1 n (\<lambda>i v. v + tp_values rhs ! i) (tp_values lhs),
          tp_tags = upd_range 1 n (\<lambda>i t. t + tp_tags rhs ! i) (tp_tags lhs)\<rparr>)"

definition tp_mul :: "'r::comm_ring_1 TPShare \<Rightarrow> 'r \<Rightarrow> 'r TPShare" where
  "tp_mul lhs c =
     (let n = length (tp_values lhs)
      in lhs\<lparr>tp_values := upd_range 1 n (\<lambda>_ v. v * c) (tp_values lhs),
           tp_tags := upd_range 1 n (\<lambda>_ t. t * c) (tp_tags lhs)\<rparr>)"

definition tp_sub :: "'r::comm_ring_1 TPShare \<Rightarrow> 'r TPShare \<Rightarrow> 'r TPShare" where
  "tp_sub lhs rhs = tp_add lhs (tp_mul rhs (- 1))"

definition tp_map :: "('r \<Rightarrow> 'r) \<Rightarrow> 'r TPShare \<Rightarrow> 'r TPShare" where
  "tp_map f s =
     (let n = length (tp_values s)
      in s\<lparr>tp_values := upd_range 1 n (\<lambda>_. f) (tp_values s), tp_tags := upd_range 1 n (\<lambda>_. f) (tp_tags s)\<rparr>)"

definition tp_shl :: "'r::comm_ring_1 ringops \<Rightarrow> 'r TPShare \<Rightarrow> nat \<Rightarrow> 'r TPShare" where
  "tp_shl R s n = tp_map (\<lambda>v. R_of_u64 R (push_bit n (conv_u64 R v))) s"

definition tp_shr :: "'r::comm_ring_1 ringops \<Rightarrow> 'r TPShare \<Rightarrow> nat \<Rightarrow> 'r TPShare" where
  "tp_shr R s n = tp_map (\<lambda>v. R_of_u64 R (drop_bit n (conv_u64 R v))) s"

definition tp_shift :: "'r::comm_ring_1 ringops \<Rightarrow> 'r TPShare \<Rightarrow> 'r TPShare" where
  "tp_shift R s = tp_map (\<lambda>v. if bitDecomposeTwo (conv_u64 R) v ! 63 = 1 then 1 else 0) s"

definition getAAS :: "'r TPShare \<Rightarrow> nat \<Rightarrow> 'r AuthAddShare option" where
  "getAAS s pid =
     do { k \<leftarrow> vec_at (tp_key_sh s) pid; v \<leftarrow> vec_at (tp_values s) pid; t \<leftarrow> vec_at (tp_tags s) pid;
          Some \<lparr>key_sh = k, valueAt = v, tagAt = t\<rparr> }"

subsection \<open>Shared values\<close>

text \<open>
  The parties \<open>1, \<dots>, n\<close> with key shares \<open>kf\<close> hold the shares \<open>sh\<close> of \<open>x\<close>.
\<close>

definition shared :: "nat \<Rightarrow> (nat \<Rightarrow> 'r::comm_ring_1) \<Rightarrow> (nat \<Rightarrow> 'r AuthAddShare) \<Rightarrow> 'r \<Rightarrow> bool" where
  "shared n kf sh x \<longleftrightarrow>
     (\<forall>i\<in>{1..n}. key_sh (sh i) = kf i) \<and>
     psum n (\<lambda>i. valueAt (sh i)) = x \<and> psum n (\<lambda>i. tagAt (sh i)) = psum n kf * x"

lemma sharedI:
  assumes "\<And>i. 1 \<le> i \<Longrightarrow> i \<le> n \<Longrightarrow> key_sh (sh i) = kf i" "psum n (\<lambda>i. valueAt (sh i)) = x"
    "psum n (\<lambda>i. tagAt (sh i)) = psum n kf * x"
  shows "shared n kf sh x"
  using assms by (simp add: shared_def)

lemma sharedD:
  assumes "shared n kf sh x"
  shows "\<And>i. 1 \<le> i \<Longrightarrow> i \<le> n \<Longrightarrow> key_sh (sh i) = kf i" "psum n (\<lambda>i. valueAt (sh i)) = x"
    "psum n (\<lambda>i. tagAt (sh i)) = psum n kf * x"
  using assms by (simp_all add: shared_def)

lemma shared_cong:
  "(\<And>i. 1 \<le> i \<Longrightarrow> i \<le> n \<Longrightarrow> sh i = sh' i) \<Longrightarrow> x = y \<Longrightarrow> shared n kf sh x = shared n kf sh' y"
  by (simp add: shared_def)

lemma shared_unique: "shared n kf sh x \<Longrightarrow> shared n kf sh y \<Longrightarrow> x = y"
  by (simp add: shared_def)

text \<open>The share operators compute on the shared values.\<close>

lemma shared_add: "shared n kf a x \<Longrightarrow> shared n kf b y \<Longrightarrow> shared n kf (\<lambda>i. aas_add (a i) (b i)) (x + y)"
  by (simp add: shared_def share_simps lin_simps algebra_simps)

lemma shared_sub: "shared n kf a x \<Longrightarrow> shared n kf b y \<Longrightarrow> shared n kf (\<lambda>i. aas_sub (a i) (b i)) (x - y)"
  by (simp add: shared_def share_simps lin_simps algebra_simps)

lemma shared_mul: "shared n kf a x \<Longrightarrow> shared n kf (\<lambda>i. aas_mul (a i) c) (x * c)"
  by (simp add: shared_def share_simps lin_simps algebra_simps)

lemma shared_addc:
  assumes "shared n kf a x" "0 < n"
  shows "shared n kf (\<lambda>i. aas_addc v i (a i)) (x + v)"
proof -
  have "psum n (\<lambda>i. key_sh (a i) * v) = psum n kf * v"
    using assms(1) by (simp add: shared_def lin_simps)
  then show ?thesis
    using assms psum_single [of n "\<lambda>_. v"] by (simp add: shared_def share_simps lin_simps algebra_simps)
qed

lemma shared_addWithAdder:
  assumes "shared n kf a x" "1 \<le> q" "q \<le> n"
  shows "shared n kf (\<lambda>i. addWithAdder v i q (a i)) (x + v)"
proof -
  have "psum n (\<lambda>i. key_sh (a i) * v) = psum n kf * v"
    using assms(1) by (simp add: shared_def lin_simps)
  then show ?thesis
    using assms psum_delta [of n q "\<lambda>_. v"] by (simp add: shared_def share_simps lin_simps algebra_simps)
qed

lemmas shared_ops = shared_add shared_sub shared_mul shared_addc

subsection \<open>Dealt values\<close>

text \<open>
  \<open>dealt n kf tp sh x\<close>: the dealer's copy \<open>tp\<close> lists the shares \<open>sh\<close> of the parties, which
  share \<open>x\<close> authentically, and the dealer's own entries are zero.
\<close>

definition dealt ::
  "nat \<Rightarrow> (nat \<Rightarrow> 'r::comm_ring_1) \<Rightarrow> 'r TPShare \<Rightarrow> (nat \<Rightarrow> 'r AuthAddShare) \<Rightarrow> 'r \<Rightarrow> bool" where
  "dealt n kf tp sh x \<longleftrightarrow>
     macKey tp = psum n kf \<and>
     length (tp_key_sh tp) = Suc n \<and> length (tp_values tp) = Suc n \<and> length (tp_tags tp) = Suc n \<and>
     tp_key_sh tp ! 0 = 0 \<and> tp_values tp ! 0 = 0 \<and> tp_tags tp ! 0 = 0 \<and>
     (\<forall>i\<in>{1..n}. tp_key_sh tp ! i = key_sh (sh i) \<and> tp_values tp ! i = valueAt (sh i) \<and>
        tp_tags tp ! i = tagAt (sh i)) \<and>
     shared n kf sh x"

lemma dealt_shared: "dealt n kf tp sh x \<Longrightarrow> shared n kf sh x"
  by (simp add: dealt_def)

lemma secret_eq:
  assumes "length (tp_values tp) = Suc n" "tp_values tp ! 0 = 0"
  shows "secret tp = psum n (\<lambda>i. tp_values tp ! i)"
  using assms by (simp add: secret_def psum_def fold_add_sum_list)

lemma dealt_secret:
  assumes "dealt n kf tp sh x"
  shows "secret tp = x"
proof -
  have "secret tp = psum n (\<lambda>i. valueAt (sh i))"
    using assms by (subst secret_eq [of _ n]) (auto simp: dealt_def)
  with assms show ?thesis by (simp add: dealt_def shared_def)
qed

lemma dealt_add:
  assumes "dealt n kf s a x" "dealt n kf t b y"
  shows "dealt n kf (tp_add s t) (\<lambda>i. aas_add (a i) (b i)) (x + y)"
  using assms shared_add [of n kf a x b y]
  by (auto simp: dealt_def tp_add_def Let_def nth_upd_range share_simps shared_def)

lemma dealt_mul:
  assumes "dealt n kf s a x"
  shows "dealt n kf (tp_mul s c) (\<lambda>i. aas_mul (a i) c) (x * c)"
  using assms shared_mul [of n kf a x c]
  by (auto simp: dealt_def tp_mul_def Let_def nth_upd_range share_simps)

lemma dealt_sub:
  assumes "dealt n kf s a x" "dealt n kf t b y"
  shows "dealt n kf (tp_sub s t) (\<lambda>i. aas_sub (a i) (b i)) (x - y)"
  using dealt_add [OF assms(1) dealt_mul [OF assms(2), of "-1"]]
  by (simp add: tp_sub_def aas_sub_def)

lemmas dealt_ops = dealt_add dealt_sub dealt_mul

lemma dealt_getAAS: "dealt n kf tp sh x \<Longrightarrow> 1 \<le> i \<Longrightarrow> i \<le> n \<Longrightarrow> getAAS tp i = Some (sh i)"
  by (simp add: dealt_def getAAS_def vec_at_def)

end
