(* ===== verification/Offline_Shares.thy ===== *)
theory Offline_Shares
  imports Sharing "HOL-Library.Sublist"
begin

section \<open>Dealing random shares (asterisk/rand_gen_pool, randomShare of the offline evaluators)\<close>

text \<open>
  The dealer shares a pool of pseudo-random generators with every party: its generator
  \<open>pi(i)\<close> and party \<open>i\<close>'s \<open>p0()\<close> run in step. A dealt value then costs no communication but
  for the shares of the last party, which cannot be random; the dealer collects those in the
  vectors \<open>rand_sh\<close>, \<open>rand_sh_sec\<close> and \<open>rand_sh_party\<close>, which the last party reads with an index.

  The theory models the generator pool, the two samplers (\<open>Field\<close> and \<open>BoolRing\<close>) and the
  three dealing routines, which the sources have once for each ring and which are generic in
  the sampler here. The joint lemmas run the dealer and all parties side by side: if the pools
  are in step (\<open>in_sync\<close>) and the last party's vectors extend what the dealer has written
  (\<open>bufs_ok\<close>), every routine leaves them in step and gives the parties a \<open>dealt\<close> share.

  \<open>emp::PRG\<close> is not part of the repository: \<open>'g\<close> is the type of its states and
  \<open>random_data g n\<close>, a parameter, gives \<open>n\<close> bytes and the next state.
\<close>

record 'g RandGenPool =
  k_id :: nat
  k_p0 :: 'g
  k_self :: 'g
  k_all_minus_0 :: 'g
  k_all :: 'g
  k_pi :: "'g list"

text \<open>
  \<open>reseed s\<close> stands for a generator reseeded with \<open>emp::makeBlock(s, 0)\<close>, \<open>fresh\<close> for the
  default-constructed generator that stays at index 0 of \<open>k_pi\<close>.
\<close>

definition RandGenPool_new :: "(u64 \<Rightarrow> 'g) \<Rightarrow> 'g \<Rightarrow> nat \<Rightarrow> nat \<Rightarrow> u64 \<Rightarrow> 'g RandGenPool" where
  "RandGenPool_new reseed fresh my_id num_parties seed =
     \<lparr>k_id = my_id, k_p0 = reseed seed, k_self = reseed seed, k_all_minus_0 = reseed seed,
      k_all = reseed seed,
      k_pi = fold (\<lambda>i k. k[i := reseed seed]) (parties num_parties) (replicate (num_parties + 1) fresh)\<rparr>"

text \<open>
  The evaluators construct their pool as \<open>rgen_(my_id, seed)\<close>: their argument \<open>seed\<close> becomes
  the number of parties, and the generators are seeded with the default 200.
\<close>

definition evaluator_rgen :: "(u64 \<Rightarrow> 'g) \<Rightarrow> 'g \<Rightarrow> nat \<Rightarrow> nat \<Rightarrow> 'g RandGenPool" where
  "evaluator_rgen reseed fresh my_id seed = RandGenPool_new reseed fresh my_id seed 200"

definition draw_p0 :: "('g \<Rightarrow> 'a \<times> 'g) \<Rightarrow> 'g RandGenPool \<Rightarrow> 'a \<times> 'g RandGenPool" where
  "draw_p0 smp rg = (let (v, g) = smp (k_p0 rg) in (v, rg\<lparr>k_p0 := g\<rparr>))"

definition draw_self :: "('g \<Rightarrow> 'a \<times> 'g) \<Rightarrow> 'g RandGenPool \<Rightarrow> 'a \<times> 'g RandGenPool" where
  "draw_self smp rg = (let (v, g) = smp (k_self rg) in (v, rg\<lparr>k_self := g\<rparr>))"

definition draw_all :: "('g \<Rightarrow> 'a \<times> 'g) \<Rightarrow> 'g RandGenPool \<Rightarrow> 'a \<times> 'g RandGenPool" where
  "draw_all smp rg = (let (v, g) = smp (k_all rg) in (v, rg\<lparr>k_all := g\<rparr>))"

definition draw_all_minus_0 :: "('g \<Rightarrow> 'a \<times> 'g) \<Rightarrow> 'g RandGenPool \<Rightarrow> 'a \<times> 'g RandGenPool" where
  "draw_all_minus_0 smp rg = (let (v, g) = smp (k_all_minus_0 rg) in (v, rg\<lparr>k_all_minus_0 := g\<rparr>))"

definition draw_pi :: "('g \<Rightarrow> 'a \<times> 'g) \<Rightarrow> nat \<Rightarrow> 'g RandGenPool \<Rightarrow> 'a \<times> 'g RandGenPool" where
  "draw_pi smp i rg = (let (v, g) = smp (k_pi rg ! i) in (v, rg\<lparr>k_pi := (k_pi rg)[i := g]\<rparr>))"

subsection \<open>The samplers\<close>

text \<open>\<open>randomizeZZp\<close> fills a \<open>uint64_t\<close> from the generator and converts it to the field.\<close>

fun le_word :: "bytes \<Rightarrow> u64" where
  "le_word [] = 0"
| "le_word (b # bs) = ucast b + push_bit 8 (le_word bs)"

definition randomizeZZp :: "('g \<Rightarrow> nat \<Rightarrow> bytes \<times> 'g) \<Rightarrow> (u64 \<Rightarrow> 'f) \<Rightarrow> 'g \<Rightarrow> 'f \<times> 'g" where
  "randomizeZZp random_data zzp prg = (let (bs, prg') = random_data prg 8 in (zzp (le_word bs), prg'))"

text \<open>A random \<open>BoolRing\<close>: one byte, of which the code keeps the parity.\<close>

definition randomBool :: "('g \<Rightarrow> nat \<Rightarrow> bytes \<times> 'g) \<Rightarrow> 'g \<Rightarrow> BoolRing \<times> 'g" where
  "randomBool random_data prg =
     (let (bs, prg') = random_data prg 1 in (BoolRing_of_int (uint (hd bs) mod 2), prg'))"

subsection \<open>The dealing routines\<close>

type_synonym 'r mask = "'r AuthAddShare \<times> 'r TPShare"

definition rs_step ::
  "('g \<Rightarrow> 'r \<times> 'g) \<Rightarrow> nat \<Rightarrow> 'r::comm_ring_1 list \<Rightarrow> nat \<Rightarrow>
   'g RandGenPool \<times> 'r TPShare \<times> 'r \<Rightarrow> 'g RandGenPool \<times> 'r TPShare \<times> 'r" where
  "rs_step smp nP keySh i = (\<lambda>(rg, tp, tagn).
     let (v, rg) = draw_pi smp i rg;
         tp = pushValues v tp;
         tp = setKeySh (keySh ! i) tp;
         (t, rg) = draw_pi smp i rg
     in if i \<noteq> nP then (rg, pushTags t tp, tagn + t) else (rg, tp, tagn))"

definition tp_start :: "'r::comm_ring_1 \<Rightarrow> 'r list \<Rightarrow> 'r TPShare" where
  "tp_start key keySh = tp_setKey key (setKeySh (keySh ! 0) (pushTags 0 (pushValues 0 TPShare_default)))"

definition share_start :: "'r::comm_ring_1 list \<Rightarrow> 'r AuthAddShare" where
  "share_start keySh = setKey (keySh ! 0) (pushTag 0 (pushValue 0 AuthAddShare_default))"

definition randomShare ::
  "('g \<Rightarrow> 'r::comm_ring_1 \<times> 'g) \<Rightarrow> nat \<Rightarrow> nat \<Rightarrow> 'g RandGenPool \<Rightarrow> 'r \<Rightarrow> 'r list \<Rightarrow> 'r list \<Rightarrow> nat \<Rightarrow>
   'r mask \<times> 'g RandGenPool \<times> 'r list \<times> nat" where
  "randomShare smp nP pid rg key keySh rand_sh idx =
     (if pid = 0 then
        let (rg, tp, tagn) = fold (rs_step smp nP keySh) (parties nP) (rg, tp_start key keySh, 0);
            tag = key * secret tp;
            tagn = tag - tagn;
            tp = pushTags tagn tp
        in ((share_start keySh, tp), rg, rand_sh @ [tagn], idx)
      else
        let sh = setKey key AuthAddShare_default;
            (v, rg) = draw_p0 smp rg;
            sh = pushValue v sh;
            (t, rg) = draw_p0 smp rg
        in if pid \<noteq> nP then ((pushTag t sh, TPShare_default), rg, rand_sh, idx)
           else ((pushTag (rand_sh ! idx) sh, TPShare_default), rg, rand_sh, idx + 1))"

definition rss_step ::
  "('g \<Rightarrow> 'r \<times> 'g) \<Rightarrow> 'r::comm_ring_1 list \<Rightarrow> nat \<Rightarrow>
   'g RandGenPool \<times> 'r TPShare \<times> 'r \<times> 'r \<Rightarrow> 'g RandGenPool \<times> 'r TPShare \<times> 'r \<times> 'r" where
  "rss_step smp keySh i = (\<lambda>(rg, tp, valn, tagn).
     let (v, rg) = draw_pi smp i rg;
         tp = pushValues v tp;
         valn = valn + v;
         (t, rg) = draw_pi smp i rg;
         tp = pushTags t tp;
         tagn = tagn + t
     in (rg, setKeySh (keySh ! i) tp, valn, tagn))"

definition randomShareSecret ::
  "('g \<Rightarrow> 'r::comm_ring_1 \<times> 'g) \<Rightarrow> nat \<Rightarrow> nat \<Rightarrow> 'g RandGenPool \<Rightarrow> 'r \<Rightarrow> 'r \<Rightarrow> 'r list \<Rightarrow> 'r list \<Rightarrow> nat \<Rightarrow>
   'r mask \<times> 'g RandGenPool \<times> 'r list \<times> nat" where
  "randomShareSecret smp nP pid rg sec key keySh rand_sh_sec idx =
     (if pid = 0 then
        let (rg, tp, valn, tagn) = fold (rss_step smp keySh) [1..<nP] (rg, tp_start key keySh, 0, 0);
            tp = setKeySh (keySh ! nP) tp;
            valn = sec - valn;
            tagn = key * sec - tagn;
            tp = pushTags tagn (pushValues valn tp)
        in ((share_start keySh, tp), rg, (rand_sh_sec @ [valn]) @ [tagn], idx)
      else
        let sh = setKey key AuthAddShare_default
        in if pid \<noteq> nP then
             let (v, rg) = draw_p0 smp rg; (t, rg) = draw_p0 smp rg
             in ((pushTag t (pushValue v sh), TPShare_default), rg, rand_sh_sec, idx)
           else
             let valn = rand_sh_sec ! idx; tagn = rand_sh_sec ! (idx + 1)
             in ((pushTag tagn (pushValue valn sh), TPShare_default), rg, rand_sh_sec, idx + 1 + 1))"

definition rsp_step ::
  "('g \<Rightarrow> 'r \<times> 'g) \<Rightarrow> 'r::comm_ring_1 list \<Rightarrow> nat \<Rightarrow>
   'g RandGenPool \<times> 'r TPShare \<times> 'r \<times> 'r \<Rightarrow> 'g RandGenPool \<times> 'r TPShare \<times> 'r \<times> 'r" where
  "rsp_step smp keySh i = (\<lambda>(rg, tp, valn, tagn).
     let tp = setKeySh (keySh ! i) tp;
         (v, rg) = draw_pi smp i rg;
         tp = pushValues v tp;
         (t, rg) = draw_pi smp i rg;
         tp = pushTags t tp
     in (rg, tp, valn + v, tagn + t))"

text \<open>
  The secret of \<open>randomShareWithParty\<close> is drawn by the dealer and by the party that is to know
  it; for the others the argument \<open>sec\<close> is returned as it was.
\<close>

definition randomShareWithParty ::
  "('g \<Rightarrow> 'r::comm_ring_1 \<times> 'g) \<Rightarrow> nat \<Rightarrow> nat \<Rightarrow> nat \<Rightarrow> 'g RandGenPool \<Rightarrow> 'r \<Rightarrow> 'r \<Rightarrow> 'r list \<Rightarrow> 'r list \<Rightarrow> nat \<Rightarrow>
   'r mask \<times> 'r \<times> 'g RandGenPool \<times> 'r list \<times> nat" where
  "randomShareWithParty smp nP pid dealer rg sec key keySh rand_sh_party idx =
     (if pid = 0 then
        let (sec, rg) = (if dealer \<noteq> 0 then draw_pi smp dealer rg else draw_self smp rg);
            tagF = key * sec;
            (rg, tp, valn, tagn) = fold (rsp_step smp keySh) [1..<nP] (rg, tp_start key keySh, 0, 0);
            tp = setKeySh (keySh ! nP) tp;
            valn = sec - valn;
            tagn = tagF - tagn;
            tp = pushTags tagn (pushValues valn tp)
        in ((share_start keySh, tp), sec, rg, (rand_sh_party @ [valn]) @ [tagn], idx)
      else
        let sh = setKey key AuthAddShare_default;
            (sec, rg) = (if pid = dealer then draw_p0 smp rg else (sec, rg))
        in if pid \<noteq> nP then
             let (v, rg) = draw_p0 smp rg; sh = pushValue v sh; (t, rg) = draw_p0 smp rg
             in ((pushTag t sh, TPShare_default), sec, rg, rand_sh_party, idx)
           else
             let valn = rand_sh_party ! idx; tagn = rand_sh_party ! (idx + 1)
             in ((pushTag tagn (pushValue valn sh), TPShare_default), sec, rg, rand_sh_party, idx + 1 + 1))"

definition key_step ::
  "('g \<Rightarrow> 'r \<times> 'g) \<Rightarrow> nat \<Rightarrow> 'g RandGenPool \<times> 'r::comm_ring_1 list \<times> 'r \<Rightarrow> 'g RandGenPool \<times> 'r list \<times> 'r" where
  "key_step smp i = (\<lambda>(rg, keySh, key).
     let (k, rg) = draw_pi smp i rg in (rg, keySh[i := k], key + k))"

definition keyGen ::
  "('g \<Rightarrow> 'r::comm_ring_1 \<times> 'g) \<Rightarrow> nat \<Rightarrow> nat \<Rightarrow> 'g RandGenPool \<Rightarrow> 'r list \<Rightarrow> 'r list \<times> 'r \<times> 'g RandGenPool" where
  "keyGen smp nP pid rg keySh =
     (if pid = 0 then
        let (rg, keySh, key) = fold (key_step smp) (parties nP) (rg, keySh[0 := 0], 0)
        in (keySh, key, rg)
      else let (key, rg) = draw_p0 smp rg in (keySh, key, rg))"

subsection \<open>The dealer's loops in closed form\<close>

abbreviation (input) next2 :: "('g \<Rightarrow> 'r \<times> 'g) \<Rightarrow> 'g \<Rightarrow> 'g" where
  "next2 smp g \<equiv> snd (smp (snd (smp g)))"

abbreviation (input) fst_draw :: "('g \<Rightarrow> 'r \<times> 'g) \<Rightarrow> 'g \<Rightarrow> 'r" where
  "fst_draw smp g \<equiv> fst (smp g)"

abbreviation (input) snd_draw :: "('g \<Rightarrow> 'r \<times> 'g) \<Rightarrow> 'g \<Rightarrow> 'r" where
  "snd_draw smp g \<equiv> fst (smp (snd (smp g)))"

lemma upd_range_empty [simp]: "b \<le> a \<Longrightarrow> upd_range a b f xs = xs"
  by (simp add: upd_range_def)

lemma upd_range_Suc: "a \<le> b \<Longrightarrow> b < length xs \<Longrightarrow>
    upd_range a (Suc b) f xs = (upd_range a b f xs)[b := f b (xs ! b)]"
  using nth_upd_range [of b xs a b f] by (simp add: upd_range_def)

lemma rsp_step_eq: "rsp_step smp keySh = rss_step smp keySh"
  by (auto simp: rsp_step_def rss_step_def draw_pi_def Let_def pushValues_def pushTags_def setKeySh_def
      fun_eq_iff split: prod.splits)

lemma rss_step_eq:
  assumes "i < length (k_pi rg)"
  shows "rss_step smp keySh i (rg, tp, vn, tn) =
     (rg\<lparr>k_pi := (k_pi rg)[i := next2 smp (k_pi rg ! i)]\<rparr>,
      tp\<lparr>tp_values := tp_values tp @ [fst_draw smp (k_pi rg ! i)],
         tp_tags := tp_tags tp @ [snd_draw smp (k_pi rg ! i)],
         tp_key_sh := tp_key_sh tp @ [keySh ! i]\<rparr>,
      vn + fst_draw smp (k_pi rg ! i), tn + snd_draw smp (k_pi rg ! i))"
  using assms
  by (simp add: rss_step_def draw_pi_def Let_def pushValues_def pushTags_def setKeySh_def split: prod.splits)

lemma parties_Suc: "parties (Suc m) = parties m @ [Suc m]"
  by simp

lemma parties_snoc: "0 < n \<Longrightarrow> parties n = [1..<n] @ [n]"
  by simp

lemma upd_range_parties: "Suc m < length xs \<Longrightarrow>
    upd_range 1 (Suc (Suc m)) f xs = (upd_range 1 (Suc m) f xs)[Suc m := f (Suc m) (xs ! Suc m)]"
  by (rule upd_range_Suc) simp_all

lemma rss_loop:
  assumes "m < length (k_pi rg)"
  shows "fold (rss_step smp keySh) (parties m) (rg, tp, vn, tn) =
     (rg\<lparr>k_pi := upd_range 1 (Suc m) (\<lambda>_. next2 smp) (k_pi rg)\<rparr>,
      tp\<lparr>tp_values := tp_values tp @ map (\<lambda>i. fst_draw smp (k_pi rg ! i)) (parties m),
         tp_tags := tp_tags tp @ map (\<lambda>i. snd_draw smp (k_pi rg ! i)) (parties m),
         tp_key_sh := tp_key_sh tp @ map (\<lambda>i. keySh ! i) (parties m)\<rparr>,
      vn + psum m (\<lambda>i. fst_draw smp (k_pi rg ! i)), tn + psum m (\<lambda>i. snd_draw smp (k_pi rg ! i)))"
  using assms
proof (induction m)
  case 0
  show ?case by simp
next
  case (Suc m)
  then show ?case
    by (simp add: rss_step_eq nth_upd_range upd_range_parties parties_Suc add.assoc del: upt_Suc One_nat_def)
qed

lemma rs_step_last:
  assumes "nP < length (k_pi rg)"
  shows "rs_step smp nP keySh nP (rg, tp, tn) =
     (rg\<lparr>k_pi := (k_pi rg)[nP := next2 smp (k_pi rg ! nP)]\<rparr>,
      tp\<lparr>tp_values := tp_values tp @ [fst_draw smp (k_pi rg ! nP)],
         tp_key_sh := tp_key_sh tp @ [keySh ! nP]\<rparr>, tn)"
  using assms by (simp add: rs_step_def draw_pi_def Let_def pushValues_def setKeySh_def split: prod.splits)

lemma rs_step_rss:
  assumes "i \<noteq> nP"
  shows "rs_step smp nP keySh i (rg, tp, tn) =
    (case rss_step smp keySh i (rg, tp, vn, tn) of (rg', tp', _, tn') \<Rightarrow> (rg', tp', tn'))"
  using assms by (simp add: rs_step_def rss_step_def draw_pi_def Let_def pushValues_def pushTags_def
      setKeySh_def split: prod.splits)

lemma rs_loop_below:
  assumes "m < nP"
  shows "fold (rs_step smp nP keySh) (parties m) (rg, tp, tn) =
    (case fold (rss_step smp keySh) (parties m) (rg, tp, vn, tn) of (rg', tp', _, tn') \<Rightarrow> (rg', tp', tn'))"
  using assms
proof (induction m)
  case 0
  show ?case by simp
next
  case (Suc m)
  obtain rg' tp' vn' tn' where f: "fold (rss_step smp keySh) (parties m) (rg, tp, vn, tn) = (rg', tp', vn', tn')"
    by (metis prod_cases4)
  with Suc show ?case using rs_step_rss [of "Suc m" nP smp keySh rg' tp' tn' vn'] by simp
qed

lemma rs_loop:
  assumes "n < length (k_pi rg)" "0 < n"
  shows "fold (rs_step smp n keySh) (parties n) (rg, tp, tn) =
     (rg\<lparr>k_pi := upd_range 1 (Suc n) (\<lambda>_. next2 smp) (k_pi rg)\<rparr>,
      tp\<lparr>tp_values := tp_values tp @ map (\<lambda>i. fst_draw smp (k_pi rg ! i)) (parties n),
         tp_tags := tp_tags tp @ map (\<lambda>i. snd_draw smp (k_pi rg ! i)) [1..<n],
         tp_key_sh := tp_key_sh tp @ map (\<lambda>i. keySh ! i) (parties n)\<rparr>,
      tn + psum (n - 1) (\<lambda>i. snd_draw smp (k_pi rg ! i)))"
proof -
  obtain m where n: "n = Suc m" using assms(2) by (cases n) auto
  have "fold (rs_step smp n keySh) (parties m) (rg, tp, tn) =
      (rg\<lparr>k_pi := upd_range 1 (Suc m) (\<lambda>_. next2 smp) (k_pi rg)\<rparr>,
       tp\<lparr>tp_values := tp_values tp @ map (\<lambda>i. fst_draw smp (k_pi rg ! i)) (parties m),
          tp_tags := tp_tags tp @ map (\<lambda>i. snd_draw smp (k_pi rg ! i)) (parties m),
          tp_key_sh := tp_key_sh tp @ map (\<lambda>i. keySh ! i) (parties m)\<rparr>,
       tn + psum m (\<lambda>i. snd_draw smp (k_pi rg ! i)))"
    using assms(1) n by (subst rs_loop_below [of _ _ _ _ _ _ _ 0]) (simp_all add: rss_loop del: upt_Suc One_nat_def)
  then show ?thesis
    using assms(1) n
    by (simp add: rs_step_last nth_upd_range upd_range_parties parties_Suc del: upt_Suc One_nat_def)
qed


subsection \<open>The call sites\<close>

text \<open>
  What \<open>setWireMasksParty\<close> of one party keeps for one ring: its key and the key shares, and
  the three vectors of shares for the last party with the index into each.
\<close>

record 'r pool =
  pl_key :: 'r
  pl_keySh :: "'r list"
  pl_rand_sh :: "'r list"
  pl_idx_rand_sh :: nat
  pl_rand_sh_sec :: "'r list"
  pl_idx_rand_sh_sec :: nat
  pl_rand_sh_party :: "'r list"
  pl_idx_rand_sh_party :: nat

type_synonym ('g, 'r) deal_st = "'g RandGenPool \<times> 'r pool"

definition call_randomShare ::
  "('g \<Rightarrow> 'r::comm_ring_1 \<times> 'g) \<Rightarrow> nat \<Rightarrow> nat \<Rightarrow> ('g, 'r) deal_st \<Rightarrow> 'r mask \<times> ('g, 'r) deal_st" where
  "call_randomShare smp nP pid = (\<lambda>(rg, pl).
     let (m, rg, buf, i) =
           randomShare smp nP pid rg (pl_key pl) (pl_keySh pl) (pl_rand_sh pl) (pl_idx_rand_sh pl)
     in (m, rg, pl\<lparr>pl_rand_sh := buf, pl_idx_rand_sh := i\<rparr>))"

definition call_randomShareSecret ::
  "('g \<Rightarrow> 'r::comm_ring_1 \<times> 'g) \<Rightarrow> nat \<Rightarrow> nat \<Rightarrow> 'r \<Rightarrow> ('g, 'r) deal_st \<Rightarrow> 'r mask \<times> ('g, 'r) deal_st" where
  "call_randomShareSecret smp nP pid x = (\<lambda>(rg, pl).
     let (m, rg, buf, i) =
           randomShareSecret smp nP pid rg x (pl_key pl) (pl_keySh pl) (pl_rand_sh_sec pl) (pl_idx_rand_sh_sec pl)
     in (m, rg, pl\<lparr>pl_rand_sh_sec := buf, pl_idx_rand_sh_sec := i\<rparr>))"

definition call_randomShareWithParty ::
  "('g \<Rightarrow> 'r::comm_ring_1 \<times> 'g) \<Rightarrow> nat \<Rightarrow> nat \<Rightarrow> nat \<Rightarrow> 'r \<Rightarrow> ('g, 'r) deal_st \<Rightarrow> ('r mask \<times> 'r) \<times> ('g, 'r) deal_st" where
  "call_randomShareWithParty smp nP pid dealer x = (\<lambda>(rg, pl).
     let (m, x, rg, buf, i) =
           randomShareWithParty smp nP pid dealer rg x (pl_key pl) (pl_keySh pl) (pl_rand_sh_party pl) (pl_idx_rand_sh_party pl)
     in ((m, x), rg, pl\<lparr>pl_rand_sh_party := buf, pl_idx_rand_sh_party := i\<rparr>))"

subsection \<open>Dealer and parties in step\<close>

text \<open>
  A joint state gives the state of every party, the dealer's under 0. The generators the dealer
  shares with a party agree, and so does the common generator \<open>all()\<close>.
\<close>

definition rgs_ok :: "nat \<Rightarrow> (nat \<Rightarrow> 'g RandGenPool) \<Rightarrow> bool" where
  "rgs_ok n rg \<longleftrightarrow> n < length (k_pi (rg 0)) \<and>
     (\<forall>i\<in>{1..n}. k_pi (rg 0) ! i = k_p0 (rg i) \<and> k_all (rg i) = k_all (rg 0))"

lemma k_pi_new: "k_pi (RandGenPool_new reseed fresh p N s) = fresh # replicate N (reseed s)"
proof -
  have "fold (\<lambda>i k. k[i := reseed s]) (parties m) (replicate (N + 1) fresh) =
      fresh # replicate m (reseed s) @ replicate (N - m) fresh" if "m \<le> N" for m
    using that
  proof (induction m)
    case (Suc m)
    have "replicate (N - m) fresh = fresh # replicate (N - Suc m) fresh" using Suc.prems by (cases "N - m") auto
    with Suc show ?case by (simp add: parties_Suc list_update_append replicate_append_same del: upt_Suc One_nat_def)
  qed simp
  from this [of N] show ?thesis by (simp add: RandGenPool_new_def)
qed

lemma evaluator_rgens_ok: "rgs_ok n (\<lambda>p. evaluator_rgen reseed fresh p seed) \<longleftrightarrow> n \<le> seed"
proof -
  have k: "k_p0 (RandGenPool_new reseed fresh p N s) = reseed s" "k_all (RandGenPool_new reseed fresh p N s) = reseed s"
    for p N s by (simp_all add: RandGenPool_new_def)
  show ?thesis by (auto simp: rgs_ok_def evaluator_rgen_def k_pi_new k nth_Cons split: nat.splits)
qed

definition pools_ok :: "nat \<Rightarrow> (nat \<Rightarrow> 'r::comm_ring_1) \<Rightarrow> (nat \<Rightarrow> 'r pool) \<Rightarrow> bool" where
  "pools_ok n kf pl \<longleftrightarrow> 0 < n \<and>
     pl_key (pl 0) = psum n kf \<and> length (pl_keySh (pl 0)) = Suc n \<and> pl_keySh (pl 0) ! 0 = 0 \<and>
     (\<forall>i\<in>{1..n}. pl_keySh (pl 0) ! i = kf i \<and> pl_key (pl i) = kf i) \<and>
     pl_idx_rand_sh (pl n) = length (pl_rand_sh (pl 0)) \<and>
     pl_idx_rand_sh_sec (pl n) = length (pl_rand_sh_sec (pl 0)) \<and>
     pl_idx_rand_sh_party (pl n) = length (pl_rand_sh_party (pl 0))"

definition bufs_ok :: "nat \<Rightarrow> (nat \<Rightarrow> 'r pool) \<Rightarrow> bool" where
  "bufs_ok n pl \<longleftrightarrow>
     prefix (pl_rand_sh (pl 0)) (pl_rand_sh (pl n)) \<and>
     prefix (pl_rand_sh_sec (pl 0)) (pl_rand_sh_sec (pl n)) \<and>
     prefix (pl_rand_sh_party (pl 0)) (pl_rand_sh_party (pl n))"

definition deal_sync :: "nat \<Rightarrow> (nat \<Rightarrow> 'r::comm_ring_1) \<Rightarrow> (nat \<Rightarrow> ('g, 'r) deal_st) \<Rightarrow> bool" where
  "deal_sync n kf st \<longleftrightarrow> rgs_ok n (\<lambda>p. fst (st p)) \<and> pools_ok n kf (\<lambda>p. snd (st p))"

definition deal_bufs :: "nat \<Rightarrow> (nat \<Rightarrow> ('g, 'r) deal_st) \<Rightarrow> bool" where
  "deal_bufs n st \<longleftrightarrow> bufs_ok n (\<lambda>p. snd (st p))"

lemma prefix_nth: "prefix (xs @ [y]) zs \<Longrightarrow> zs ! length xs = y"
  by (auto simp: prefix_def nth_append)

lemma prefix_nth2: "prefix ((xs @ [y]) @ [y']) zs \<Longrightarrow> zs ! length xs = y \<and> zs ! Suc (length xs) = y'"
  by (auto simp: prefix_def nth_append)

lemma prefix_snocD: "prefix (xs @ [y]) zs \<Longrightarrow> prefix xs zs"
  by (auto simp: prefix_def)

lemmas start_defs = tp_start_def share_start_def tp_setKey_def setKeySh_def pushTags_def pushValues_def
  TPShare_default_def AuthAddShare_default_def setKey_def pushTag_def pushValue_def

text \<open>How a share dealt by the closed forms reads: the last entries make the sums right.\<close>

lemma psum_last: "0 < n \<Longrightarrow> psum n f = psum (n - 1) f + f n"
  by (cases n) simp_all

lemma nth_dealt_list:
  assumes "1 \<le> i" "i \<le> n" "0 < n"
  shows "(c # map f [1..<n] @ [z]) ! i = (if i = n then z else f i)"
  using assms by (cases i) (auto simp: nth_append nth_Cons')

lemma psum_fix_last:
  assumes "0 < n"
  shows "psum n (\<lambda>i. if i = n then x - psum (n - 1) f else f i) = (x :: 'r::comm_ring_1)"
proof -
  have "psum (n - 1) (\<lambda>i. if i = n then x - psum (n - 1) f else f i) = psum (n - 1) f"
    using assms by (intro psum_cong) auto
  with assms show ?thesis by (simp add: psum_last)
qed

lemma dealt_parts:
  assumes n: "0 < n" and key: "key = psum n kf" "length ks = Suc n" "ks ! 0 = 0"
    and ks: "\<And>i. 1 \<le> i \<Longrightarrow> i \<le> n \<Longrightarrow> ks ! i = kf i \<and> key_sh (sh i) = kf i"
    and vs: "vs = 0 # map f [1..<n] @ [vn]" and ts: "ts = 0 # map g [1..<n] @ [key * x - psum (n - 1) g]"
    and vn: "vn = x - psum (n - 1) f"
    and sh: "\<And>i. 1 \<le> i \<Longrightarrow> i < n \<Longrightarrow> valueAt (sh i) = f i \<and> tagAt (sh i) = g i"
    and shn: "valueAt (sh n) = vn \<and> tagAt (sh n) = key * x - psum (n - 1) g"
    and kl: "kl = ks ! 0 # map (\<lambda>i. ks ! i) (parties n)"
  shows "dealt n kf \<lparr>macKey = key, tp_key_sh = kl, tp_values = vs, tp_tags = ts\<rparr> sh x"
proof -
  have kls: "kl ! i = ks ! i" if "i \<le> n" for i
    using that by (cases i) (simp_all add: kl nth_Cons' del: upt_Suc)
  have v: "vs ! i = valueAt (sh i)" and t: "ts ! i = tagAt (sh i)" if "1 \<le> i" "i \<le> n" for i
    using that sh [of i] shn unfolding vs ts by (simp_all only: nth_dealt_list [OF that n]) auto
  have "psum n (\<lambda>i. valueAt (sh i)) = psum n (\<lambda>i. if i = n then x - psum (n - 1) f else f i)"
    using sh shn vn by (intro psum_cong) auto
  moreover have "psum n (\<lambda>i. tagAt (sh i)) = psum n (\<lambda>i. if i = n then key * x - psum (n - 1) g else g i)"
    using sh shn by (intro psum_cong) auto
  ultimately have "shared n kf sh x"
    using ks n key(1) by (intro sharedI) (simp_all add: psum_fix_last)
  moreover have "length kl = Suc n" "length vs = Suc n" "length ts = Suc n"
    using n by (simp_all add: kl vs ts)
  ultimately show ?thesis
    using ks kls v t key by (auto simp: dealt_def vs ts)
qed


text \<open>The parties' generators after two draws each keep in step with the dealer's loop.\<close>

lemma rgs_ok_next2:
  assumes "rgs_ok n rg" "m \<le> n" "rg' 0 = (rg 0)\<lparr>k_pi := upd_range 1 (Suc m) (\<lambda>_. next2 smp) (k_pi (rg 0))\<rparr>"
    "\<And>i. 1 \<le> i \<Longrightarrow> i \<le> n \<Longrightarrow> rg' i = (if i \<le> m then (rg i)\<lparr>k_p0 := next2 smp (k_p0 (rg i))\<rparr> else rg i)"
  shows "rgs_ok n rg'"
  using assms by (auto simp: rgs_ok_def nth_upd_range)

lemma call_randomShare_dealer:
  fixes smp :: "'g \<Rightarrow> 'r::comm_ring_1 \<times> 'g"
  assumes "rgs_ok n (\<lambda>p. fst (st p))" "0 < n" "st 0 = (rg, pl)"
  defines "v \<equiv> \<lambda>i. fst_draw smp (k_pi rg ! i)" and "t \<equiv> \<lambda>i. snd_draw smp (k_pi rg ! i)"
  shows "call_randomShare smp n 0 (st 0) =
    ((share_start (pl_keySh pl),
      \<lparr>macKey = pl_key pl, tp_key_sh = pl_keySh pl ! 0 # map (\<lambda>i. pl_keySh pl ! i) (parties n),
       tp_values = 0 # map v (parties n),
       tp_tags = 0 # map t [1..<n] @ [pl_key pl * psum n v - psum (n - 1) t]\<rparr>),
     rg\<lparr>k_pi := upd_range 1 (Suc n) (\<lambda>_. next2 smp) (k_pi rg)\<rparr>,
     pl\<lparr>pl_rand_sh := pl_rand_sh pl @ [pl_key pl * psum n v - psum (n - 1) t]\<rparr>)"
proof -
  have len: "n < length (k_pi rg)" using assms(1,3) by (simp add: rgs_ok_def)
  have sec: "secret \<lparr>macKey = k, tp_key_sh = ks, tp_values = 0 # map v (parties n), tp_tags = ts\<rparr> = psum n v"
    for k ks ts
    by (subst secret_eq [of _ n]) (simp_all add: nth_Cons' del: upt_Suc cong: psum_cong)
  show ?thesis
    using sec
    by (simp add: call_randomShare_def randomShare_def assms(3) start_defs Let_def v_def t_def
        rs_loop [OF len assms(2)] del: upt_Suc One_nat_def)
qed

lemma call_randomShare_party:
  assumes "st i = (rg, pl)" "i \<noteq> 0"
  shows "call_randomShare smp n i (st i) =
    ((\<lparr>key_sh = pl_key pl, valueAt = fst_draw smp (k_p0 rg),
       tagAt = (if i = n then pl_rand_sh pl ! pl_idx_rand_sh pl else snd_draw smp (k_p0 rg))\<rparr>, TPShare_default),
     rg\<lparr>k_p0 := next2 smp (k_p0 rg)\<rparr>,
     pl\<lparr>pl_idx_rand_sh := (if i = n then pl_idx_rand_sh pl + 1 else pl_idx_rand_sh pl)\<rparr>)"
  using assms
  by (simp add: call_randomShare_def randomShare_def draw_p0_def Let_def setKey_def pushTag_def pushValue_def
      AuthAddShare_default_def split: prod.splits)

lemma call_randomShare_ok:
  assumes sync: "deal_sync n kf st"
    and bufs: "deal_bufs n (\<lambda>p. snd (call_randomShare smp n p (st p)))"
  shows "deal_sync n kf (\<lambda>p. snd (call_randomShare smp n p (st p)))" "deal_bufs n st"
    "\<exists>x. dealt n kf (snd (fst (call_randomShare smp n 0 (st 0)))) (\<lambda>p. fst (fst (call_randomShare smp n p (st p)))) x"
proof -
  let ?rg = "fst (st 0)" and ?pl = "snd (st 0)"
  let ?v = "\<lambda>i. fst_draw smp (k_pi ?rg ! i)" and ?t = "\<lambda>i. snd_draw smp (k_pi ?rg ! i)"
  let ?tn = "pl_key ?pl * psum n ?v - psum (n - 1) ?t"
  have rgs: "rgs_ok n (\<lambda>p. fst (st p))" and pls: "pools_ok n kf (\<lambda>p. snd (st p))"
    using sync by (simp_all add: deal_sync_def)
  have n: "0 < n" and key: "pl_key ?pl = psum n kf" "length (pl_keySh ?pl) = Suc n" "pl_keySh ?pl ! 0 = 0"
    and kf: "\<And>i. 1 \<le> i \<Longrightarrow> i \<le> n \<Longrightarrow> pl_keySh ?pl ! i = kf i \<and> pl_key (snd (st i)) = kf i"
    and idx: "pl_idx_rand_sh (snd (st n)) = length (pl_rand_sh ?pl)"
    using pls by (auto simp: pools_ok_def)
  have g: "k_p0 (fst (st i)) = k_pi ?rg ! i" if "1 \<le> i" "i \<le> n" for i
    using rgs that by (simp add: rgs_ok_def)
  note D = call_randomShare_dealer [OF rgs n, of ?rg ?pl smp, simplified]
  have P: "call_randomShare smp n i (st i) =
    ((\<lparr>key_sh = kf i, valueAt = ?v i,
       tagAt = (if i = n then pl_rand_sh (snd (st n)) ! length (pl_rand_sh ?pl) else ?t i)\<rparr>, TPShare_default),
     (fst (st i))\<lparr>k_p0 := next2 smp (k_p0 (fst (st i)))\<rparr>,
     (snd (st i))\<lparr>pl_idx_rand_sh := (if i = n then Suc (length (pl_rand_sh ?pl)) else pl_idx_rand_sh (snd (st i)))\<rparr>)"
    if "1 \<le> i" "i \<le> n" for i
    using that kf [OF that] idx g [OF that] call_randomShare_party [of st i "fst (st i)" "snd (st i)"] by simp
  have buf: "prefix (pl_rand_sh ?pl @ [?tn]) (pl_rand_sh (snd (st n)))"
    using bufs n P [of n] D by (simp add: deal_bufs_def bufs_ok_def)
  show "deal_bufs n st"
    using bufs n P [of n] D prefix_snocD [OF buf] by (simp add: deal_bufs_def bufs_ok_def)
  have "rgs_ok n (\<lambda>p. fst (snd (call_randomShare smp n p (st p))))"
    by (rule rgs_ok_next2 [OF rgs order_refl, of _ smp]) (use D P in auto)
  moreover have "pools_ok n kf (\<lambda>p. snd (snd (call_randomShare smp n p (st p))))"
    using pls D P n by (simp add: pools_ok_def)
  ultimately show "deal_sync n kf (\<lambda>p. snd (call_randomShare smp n p (st p)))"
    by (simp add: deal_sync_def)
  have "dealt n kf \<lparr>macKey = pl_key ?pl, tp_key_sh = pl_keySh ?pl ! 0 # map (\<lambda>i. pl_keySh ?pl ! i) (parties n),
       tp_values = 0 # map ?v (parties n), tp_tags = 0 # map ?t [1..<n] @ [?tn]\<rparr>
     (\<lambda>p. fst (fst (call_randomShare smp n p (st p)))) (psum n ?v)"
    by (rule dealt_parts [OF n key(1,2,3), where f = ?v and g = ?t and vn = "?v n"])
      (use n kf P prefix_nth [OF buf] in \<open>auto simp: psum_last [OF n] parties_snoc\<close>)
  then show "\<exists>x. dealt n kf (snd (fst (call_randomShare smp n 0 (st 0)))) (\<lambda>p. fst (fst (call_randomShare smp n p (st p)))) x"
    using D by auto
qed


lemma rss_loop_below:
  assumes "n < length (k_pi rg)" "0 < n"
  shows "fold (rss_step smp keySh) [1..<n] (rg, tp, vn, tn) =
     (rg\<lparr>k_pi := upd_range 1 n (\<lambda>_. next2 smp) (k_pi rg)\<rparr>,
      tp\<lparr>tp_values := tp_values tp @ map (\<lambda>i. fst_draw smp (k_pi rg ! i)) [1..<n],
         tp_tags := tp_tags tp @ map (\<lambda>i. snd_draw smp (k_pi rg ! i)) [1..<n],
         tp_key_sh := tp_key_sh tp @ map (\<lambda>i. keySh ! i) [1..<n]\<rparr>,
      vn + psum (n - 1) (\<lambda>i. fst_draw smp (k_pi rg ! i)), tn + psum (n - 1) (\<lambda>i. snd_draw smp (k_pi rg ! i)))"
  using rss_loop [of "n - 1" rg smp keySh tp vn tn] assms by simp

text \<open>\<open>randomShareSecret\<close>, and \<open>randomShareWithParty\<close> once the secret is drawn, deal a given value.\<close>

lemma randomShareSecret_dealer:
  fixes smp :: "'g \<Rightarrow> 'r::comm_ring_1 \<times> 'g"
  assumes "n < length (k_pi rg)" "0 < n"
  defines "v \<equiv> \<lambda>i. fst_draw smp (k_pi rg ! i)" and "t \<equiv> \<lambda>i. snd_draw smp (k_pi rg ! i)"
  shows "randomShareSecret smp n 0 rg x key ks buf idx =
    ((share_start ks,
      \<lparr>macKey = key, tp_key_sh = ks ! 0 # map (\<lambda>i. ks ! i) (parties n),
       tp_values = 0 # map v [1..<n] @ [x - psum (n - 1) v],
       tp_tags = 0 # map t [1..<n] @ [key * x - psum (n - 1) t]\<rparr>),
     rg\<lparr>k_pi := upd_range 1 n (\<lambda>_. next2 smp) (k_pi rg)\<rparr>,
     (buf @ [x - psum (n - 1) v]) @ [key * x - psum (n - 1) t], idx)"
  using assms(2)
  by (simp add: randomShareSecret_def start_defs Let_def v_def t_def parties_snoc
      rss_loop_below [OF assms(1,2)] del: upt_Suc One_nat_def)

lemma randomShareSecret_party:
  assumes "i \<noteq> 0"
  shows "randomShareSecret smp n i rg x key ks buf idx =
    ((\<lparr>key_sh = key, valueAt = (if i = n then buf ! idx else fst_draw smp (k_p0 rg)),
       tagAt = (if i = n then buf ! Suc idx else snd_draw smp (k_p0 rg))\<rparr>, TPShare_default),
     (if i = n then rg else rg\<lparr>k_p0 := next2 smp (k_p0 rg)\<rparr>), buf, if i = n then Suc (Suc idx) else idx)"
  using assms
  by (simp add: randomShareSecret_def draw_p0_def Let_def setKey_def pushTag_def pushValue_def
      AuthAddShare_default_def split: prod.splits)

text \<open>
  The common core of the two routines, with the buffer of the last party as an argument: what
  the dealer writes and what the parties get is a dealt share of \<open>x\<close>.
\<close>

lemma randomShareSecret_joint:
  assumes rgs: "rgs_ok n rg" and n: "0 < n"
    and key: "key 0 = psum n kf" "length (ks 0) = Suc n" "ks 0 ! 0 = 0"
    and kf: "\<And>i. 1 \<le> i \<Longrightarrow> i \<le> n \<Longrightarrow> ks 0 ! i = kf i \<and> key i = kf i"
    and idx: "idx n = length (buf 0)"
    and run: "\<And>p. p \<le> n \<Longrightarrow> randomShareSecret smp n p (rg p) (x p) (key p) (ks p) (buf p) (idx p) =
      (m p, rg' p, buf' p, idx' p)"
    and ext: "prefix (buf' 0) (buf' n)"
  shows "rgs_ok n rg'" "prefix (buf 0) (buf n)" "idx' n = length (buf' 0)"
    "dealt n kf (snd (m 0)) (\<lambda>p. fst (m p)) (x 0)"
proof -
  let ?v = "\<lambda>i. fst_draw smp (k_pi (rg 0) ! i)" and ?t = "\<lambda>i. snd_draw smp (k_pi (rg 0) ! i)"
  let ?vn = "x 0 - psum (n - 1) ?v" and ?tn = "key 0 * x 0 - psum (n - 1) ?t"
  have len: "n < length (k_pi (rg 0))" using rgs by (simp add: rgs_ok_def)
  have g: "k_p0 (rg i) = k_pi (rg 0) ! i" if "1 \<le> i" "i \<le> n" for i
    using rgs that by (simp add: rgs_ok_def)
  have D: "snd (m 0) = \<lparr>macKey = key 0, tp_key_sh = ks 0 ! 0 # map (\<lambda>i. ks 0 ! i) (parties n),
       tp_values = 0 # map ?v [1..<n] @ [?vn], tp_tags = 0 # map ?t [1..<n] @ [?tn]\<rparr>"
    "rg' 0 = (rg 0)\<lparr>k_pi := upd_range 1 n (\<lambda>_. next2 smp) (k_pi (rg 0))\<rparr>"
    "buf' 0 = (buf 0 @ [?vn]) @ [?tn]"
    using trans [OF run [of 0, symmetric] randomShareSecret_dealer [OF len n]]
    by (simp_all del: One_nat_def upt_Suc)
  have P: "buf' i = buf i" "rg' i = (if i = n then rg i else (rg i)\<lparr>k_p0 := next2 smp (k_p0 (rg i))\<rparr>)"
    "idx' i = (if i = n then Suc (Suc (idx i)) else idx i)"
    "fst (m i) = \<lparr>key_sh = kf i, valueAt = (if i = n then buf n ! length (buf 0) else ?v i),
       tagAt = (if i = n then buf n ! Suc (length (buf 0)) else ?t i)\<rparr>" if "1 \<le> i" "i \<le> n" for i
    using run [of i] that kf [OF that] idx g [OF that]
      randomShareSecret_party [of i smp n "rg i" "x i" "key i" "ks i" "buf i" "idx i"]
    by auto
  have buf: "prefix ((buf 0 @ [?vn]) @ [?tn]) (buf n)"
    using ext D(3) P(1) [of n] n by simp
  then show "prefix (buf 0) (buf n)" by (auto simp: prefix_def)
  show "idx' n = length (buf' 0)" using P(3) [of n] D(3) idx n by simp
  show "rgs_ok n rg'"
    by (rule rgs_ok_next2 [OF rgs, of "n - 1" _ smp]) (use D(2) P(2) n in auto)
  show "dealt n kf (snd (m 0)) (\<lambda>p. fst (m p)) (x 0)"
    unfolding D(1)
    by (rule dealt_parts [OF n key(1,2,3), where f = ?v and g = ?t and vn = ?vn])
      (use n kf P(4) prefix_nth2 [OF buf] in auto)
qed

lemma call_randomShareSecret_ok:
  assumes sync: "deal_sync n kf st"
    and bufs: "deal_bufs n (\<lambda>p. snd (call_randomShareSecret smp n p (x p) (st p)))"
  shows "deal_sync n kf (\<lambda>p. snd (call_randomShareSecret smp n p (x p) (st p)))" "deal_bufs n st"
    "dealt n kf (snd (fst (call_randomShareSecret smp n 0 (x 0) (st 0))))
       (\<lambda>p. fst (fst (call_randomShareSecret smp n p (x p) (st p)))) (x 0)"
proof -
  define R where "R p = randomShareSecret smp n p (fst (st p)) (x p) (pl_key (snd (st p)))
      (pl_keySh (snd (st p))) (pl_rand_sh_sec (snd (st p))) (pl_idx_rand_sh_sec (snd (st p)))" for p
  have C: "call_randomShareSecret smp n p (x p) (st p) =
      (fst (R p), fst (snd (R p)), (snd (st p))\<lparr>pl_rand_sh_sec := fst (snd (snd (R p))),
        pl_idx_rand_sh_sec := snd (snd (snd (R p)))\<rparr>)" for p
    by (simp add: call_randomShareSecret_def R_def split: prod.splits)
  have pls: "pools_ok n kf (\<lambda>p. snd (st p))" and n: "0 < n"
    using sync by (simp_all add: deal_sync_def pools_ok_def)
  have "rgs_ok n (\<lambda>p. fst (st p))" using sync by (simp add: deal_sync_def)
  note J = randomShareSecret_joint [OF this n, of "\<lambda>p. pl_key (snd (st p))" kf "\<lambda>p. pl_keySh (snd (st p))"
      "\<lambda>p. pl_idx_rand_sh_sec (snd (st p))" "\<lambda>p. pl_rand_sh_sec (snd (st p))" smp x
      "\<lambda>p. fst (R p)" "\<lambda>p. fst (snd (R p))" "\<lambda>p. fst (snd (snd (R p)))" "\<lambda>p. snd (snd (snd (R p)))"]
  have ext: "prefix (fst (snd (snd (R 0)))) (fst (snd (snd (R n))))"
    using bufs by (simp add: deal_bufs_def bufs_ok_def C)
  have J1: "rgs_ok n (\<lambda>p. fst (snd (R p)))"
    and J2: "prefix (pl_rand_sh_sec (snd (st 0))) (pl_rand_sh_sec (snd (st n)))"
    and J3: "snd (snd (snd (R n))) = length (fst (snd (snd (R 0))))"
    and J4: "dealt n kf (snd (fst (R 0))) (\<lambda>p. fst (fst (R p))) (x 0)"
    using J pls ext by (auto simp: pools_ok_def R_def)
  show "deal_sync n kf (\<lambda>p. snd (call_randomShareSecret smp n p (x p) (st p)))"
    using J1 J3 pls by (simp add: deal_sync_def C pools_ok_def)
  show "deal_bufs n st" using J2 bufs by (simp add: deal_bufs_def bufs_ok_def C)
  show "dealt n kf (snd (fst (call_randomShareSecret smp n 0 (x 0) (st 0))))
       (\<lambda>p. fst (fst (call_randomShareSecret smp n p (x p) (st p)))) (x 0)"
    using J4 by (simp add: C)
qed


definition draw_secret ::
  "('g \<Rightarrow> 'r \<times> 'g) \<Rightarrow> nat \<Rightarrow> nat \<Rightarrow> 'r \<Rightarrow> 'g RandGenPool \<Rightarrow> 'r \<times> 'g RandGenPool" where
  "draw_secret smp pid dealer x rg =
     (if pid = 0 then if dealer \<noteq> 0 then draw_pi smp dealer rg else draw_self smp rg
      else if pid = dealer then draw_p0 smp rg else (x, rg))"

lemma randomShareWithParty_eq:
  "randomShareWithParty smp nP pid dealer rg x key ks buf idx =
    (let (y, rg1) = draw_secret smp pid dealer x rg;
         (m, rg2, buf', idx') = randomShareSecret smp nP pid rg1 y key ks buf idx
     in (m, y, rg2, buf', idx'))"
  by (simp add: randomShareWithParty_def randomShareSecret_def draw_secret_def rsp_step_eq Let_def
      split: prod.splits)

lemma draw_secret_ok:
  assumes "rgs_ok n rg" "d \<le> n"
  shows "rgs_ok n (\<lambda>p. snd (draw_secret smp p d (x p) (rg p)))"
    "d \<noteq> 0 \<Longrightarrow> fst (draw_secret smp d d (x d) (rg d)) = fst (draw_secret smp 0 d (x 0) (rg 0))"
  using assms
  by (auto simp: rgs_ok_def draw_secret_def draw_pi_def draw_p0_def draw_self_def nth_list_update
      split: prod.splits)

text \<open>Dealing a value known to party \<open>d\<close>: it learns the value the dealer has shared.\<close>

lemma call_randomShareWithParty_ok:
  assumes sync: "deal_sync n kf st" and d: "d \<le> n"
    and bufs: "deal_bufs n (\<lambda>p. snd (call_randomShareWithParty smp n p d (x p) (st p)))"
  shows "deal_sync n kf (\<lambda>p. snd (call_randomShareWithParty smp n p d (x p) (st p)))" "deal_bufs n st"
    "dealt n kf (snd (fst (fst (call_randomShareWithParty smp n 0 d (x 0) (st 0)))))
       (\<lambda>p. fst (fst (fst (call_randomShareWithParty smp n p d (x p) (st p)))))
       (snd (fst (call_randomShareWithParty smp n 0 d (x 0) (st 0))))"
    "d \<noteq> 0 \<Longrightarrow> snd (fst (call_randomShareWithParty smp n d d (x d) (st d))) =
       snd (fst (call_randomShareWithParty smp n 0 d (x 0) (st 0)))"
proof -
  define y where "y p = fst (draw_secret smp p d (x p) (fst (st p)))" for p
  define rg1 where "rg1 p = snd (draw_secret smp p d (x p) (fst (st p)))" for p
  define R where "R p = randomShareSecret smp n p (rg1 p) (y p) (pl_key (snd (st p)))
      (pl_keySh (snd (st p))) (pl_rand_sh_party (snd (st p))) (pl_idx_rand_sh_party (snd (st p)))" for p
  have C: "call_randomShareWithParty smp n p d (x p) (st p) =
      ((fst (R p), y p), fst (snd (R p)), (snd (st p))\<lparr>pl_rand_sh_party := fst (snd (snd (R p))),
        pl_idx_rand_sh_party := snd (snd (snd (R p)))\<rparr>)" for p
    by (simp add: call_randomShareWithParty_def randomShareWithParty_eq R_def y_def rg1_def Let_def split: prod.splits)
  have pls: "pools_ok n kf (\<lambda>p. snd (st p))" and n: "0 < n" and rg: "rgs_ok n (\<lambda>p. fst (st p))"
    using sync by (simp_all add: deal_sync_def pools_ok_def)
  have "rgs_ok n rg1" using draw_secret_ok(1) [OF rg d] by (simp add: rg1_def [abs_def])
  note J = randomShareSecret_joint [OF this n, of "\<lambda>p. pl_key (snd (st p))" kf "\<lambda>p. pl_keySh (snd (st p))"
      "\<lambda>p. pl_idx_rand_sh_party (snd (st p))" "\<lambda>p. pl_rand_sh_party (snd (st p))" smp y
      "\<lambda>p. fst (R p)" "\<lambda>p. fst (snd (R p))" "\<lambda>p. fst (snd (snd (R p)))" "\<lambda>p. snd (snd (snd (R p)))"]
  have ext: "prefix (fst (snd (snd (R 0)))) (fst (snd (snd (R n))))"
    using bufs by (simp add: deal_bufs_def bufs_ok_def C)
  have J1: "rgs_ok n (\<lambda>p. fst (snd (R p)))"
    and J2: "prefix (pl_rand_sh_party (snd (st 0))) (pl_rand_sh_party (snd (st n)))"
    and J3: "snd (snd (snd (R n))) = length (fst (snd (snd (R 0))))"
    and J4: "dealt n kf (snd (fst (R 0))) (\<lambda>p. fst (fst (R p))) (y 0)"
    using J pls ext by (auto simp: pools_ok_def R_def)
  show "deal_sync n kf (\<lambda>p. snd (call_randomShareWithParty smp n p d (x p) (st p)))"
    using J1 J3 pls by (simp add: deal_sync_def C pools_ok_def)
  show "deal_bufs n st" using J2 bufs by (simp add: deal_bufs_def bufs_ok_def C)
  show "dealt n kf (snd (fst (fst (call_randomShareWithParty smp n 0 d (x 0) (st 0)))))
       (\<lambda>p. fst (fst (fst (call_randomShareWithParty smp n p d (x p) (st p)))))
       (snd (fst (call_randomShareWithParty smp n 0 d (x 0) (st 0))))"
    using J4 by (simp add: C)
  show "snd (fst (call_randomShareWithParty smp n d d (x d) (st d))) =
       snd (fst (call_randomShareWithParty smp n 0 d (x 0) (st 0)))" if "d \<noteq> 0"
    using draw_secret_ok(2) [OF rg d that, of smp x] by (simp add: C y_def)
qed

subsection \<open>Key setup\<close>

lemma key_loop:
  assumes "m < length (k_pi rg)"
  shows "fold (key_step smp) (parties m) (rg, ks, k) =
    (rg\<lparr>k_pi := upd_range 1 (Suc m) (\<lambda>_ g. snd (smp g)) (k_pi rg)\<rparr>,
     upd_range 1 (Suc m) (\<lambda>i _. fst_draw smp (k_pi rg ! i)) ks, k + psum m (\<lambda>i. fst_draw smp (k_pi rg ! i)))"
  using assms
proof (induction m)
  case 0
  show ?case by simp
next
  case (Suc m)
  have "upd_range 1 (Suc (Suc m)) (\<lambda>i _. fst_draw smp (k_pi rg ! i)) ks =
      (upd_range 1 (Suc m) (\<lambda>i _. fst_draw smp (k_pi rg ! i)) ks)[Suc m := fst_draw smp (k_pi rg ! Suc m)]"
    by (simp add: upd_range_def)
  with Suc show ?case
    by (simp add: key_step_def draw_pi_def Let_def nth_upd_range upd_range_parties parties_Suc add.assoc
        split: prod.splits del: upt_Suc One_nat_def)
qed

text \<open>
  The key shares of the parties add up to the dealer's key, and the pools stay in step: the
  state after key setup satisfies the invariant of the dealing routines.
\<close>

lemma keyGen_ok:
  fixes smp :: "'g \<Rightarrow> 'r::comm_ring_1 \<times> 'g"
  assumes rgs: "rgs_ok n rg" and "length ks = Suc n"
  defines "kf \<equiv> \<lambda>i. fst_draw smp (k_p0 (rg i))" and "K \<equiv> \<lambda>p. keyGen smp n p (rg p) ks"
  shows "fst (snd (K 0)) = psum n kf" "length (fst (K 0)) = Suc n" "fst (K 0) ! 0 = 0"
    "\<And>i. 1 \<le> i \<Longrightarrow> i \<le> n \<Longrightarrow> fst (K 0) ! i = kf i \<and> fst (snd (K i)) = kf i"
    "rgs_ok n (\<lambda>p. snd (snd (K p)))"
proof -
  have len: "n < length (k_pi (rg 0))" using rgs by (simp add: rgs_ok_def)
  have g: "k_p0 (rg i) = k_pi (rg 0) ! i" if "1 \<le> i" "i \<le> n" for i
    using rgs that by (simp add: rgs_ok_def)
  have D: "K 0 = (upd_range 1 (Suc n) (\<lambda>i _. fst_draw smp (k_pi (rg 0) ! i)) (ks[0 := 0]),
      psum n (\<lambda>i. fst_draw smp (k_pi (rg 0) ! i)),
      (rg 0)\<lparr>k_pi := upd_range 1 (Suc n) (\<lambda>_ g. snd (smp g)) (k_pi (rg 0))\<rparr>)"
    by (simp add: K_def keyGen_def key_loop [OF len] Let_def del: upt_Suc One_nat_def)
  have P: "K i = (ks, kf i, (rg i)\<lparr>k_p0 := snd (smp (k_p0 (rg i)))\<rparr>)" if "1 \<le> i" "i \<le> n" for i
    using that by (simp add: K_def keyGen_def draw_p0_def kf_def split: prod.splits)
  show "fst (snd (K 0)) = psum n kf" using g by (simp add: D kf_def cong: psum_cong)
  show "length (fst (K 0)) = Suc n" "fst (K 0) ! 0 = 0"
    using assms(2) by (simp_all add: D nth_upd_range del: upt_Suc)
  show "fst (K 0) ! i = kf i \<and> fst (snd (K i)) = kf i" if "1 \<le> i" "i \<le> n" for i
    using that assms(2) g [OF that] P [OF that] by (simp add: D nth_upd_range kf_def)
  show "rgs_ok n (\<lambda>p. snd (snd (K p)))"
    using rgs len by (auto simp: rgs_ok_def D P nth_upd_range)
qed


subsection \<open>The last party's vectors\<close>

text \<open>
  The dealer only appends to the vectors and the parties do not change them; so what the last
  party holds extends the dealer's vectors before a call if it does after it.
\<close>

lemma call_bufs_dealer:
  "prefix (pl_rand_sh (snd st)) (pl_rand_sh (snd (snd (call_randomShare smp n 0 st))))"
  "pl_rand_sh_sec (snd (snd (call_randomShare smp n p st))) = pl_rand_sh_sec (snd st)"
  "pl_rand_sh_party (snd (snd (call_randomShare smp n p st))) = pl_rand_sh_party (snd st)"
  "prefix (pl_rand_sh_sec (snd st)) (pl_rand_sh_sec (snd (snd (call_randomShareSecret smp n 0 x st))))"
  "pl_rand_sh (snd (snd (call_randomShareSecret smp n p x st))) = pl_rand_sh (snd st)"
  "pl_rand_sh_party (snd (snd (call_randomShareSecret smp n p x st))) = pl_rand_sh_party (snd st)"
  "prefix (pl_rand_sh_party (snd st)) (pl_rand_sh_party (snd (snd (call_randomShareWithParty smp n 0 d x st))))"
  "pl_rand_sh (snd (snd (call_randomShareWithParty smp n p d x st))) = pl_rand_sh (snd st)"
  "pl_rand_sh_sec (snd (snd (call_randomShareWithParty smp n p d x st))) = pl_rand_sh_sec (snd st)"
  by (auto simp: call_randomShare_def call_randomShareSecret_def call_randomShareWithParty_def
      randomShare_def randomShareSecret_def randomShareWithParty_def Let_def split: prod.splits)

lemma call_bufs_party:
  assumes "p \<noteq> 0"
  shows "pl_rand_sh (snd (snd (call_randomShare smp n p st))) = pl_rand_sh (snd st)"
    "pl_rand_sh_sec (snd (snd (call_randomShareSecret smp n p x st))) = pl_rand_sh_sec (snd st)"
    "pl_rand_sh_party (snd (snd (call_randomShareWithParty smp n p d x st))) = pl_rand_sh_party (snd st)"
  using assms
  by (auto simp: call_randomShare_def call_randomShareSecret_def call_randomShareWithParty_def
      randomShare_def randomShareSecret_def randomShareWithParty_def Let_def split: prod.splits)

lemma deal_bufs_back:
  "deal_bufs n (\<lambda>p. snd (call_randomShare smp n p (st p))) \<Longrightarrow> deal_bufs n st"
  "deal_bufs n (\<lambda>p. snd (call_randomShareSecret smp n p (x p) (st p))) \<Longrightarrow> deal_bufs n st"
  "deal_bufs n (\<lambda>p. snd (call_randomShareWithParty smp n p d (x p) (st p))) \<Longrightarrow> deal_bufs n st"
  by (cases "n = 0";
      auto simp: deal_bufs_def bufs_ok_def call_bufs_dealer call_bufs_party
        intro: prefix_order.trans [OF call_bufs_dealer(1)] prefix_order.trans [OF call_bufs_dealer(4)]
          prefix_order.trans [OF call_bufs_dealer(7)])+

end
