(* ===== verification/Preproc.thy ===== *)
theory Preproc
  imports Offline_Shares
begin

section \<open>Preprocessed gates (asterisk/preproc.h) and how the offline phase makes them\<close>

text \<open>
  The class hierarchy of preprocessed gates as one datatype: every gate has the sharing of its
  output wire's mask, and the multiplication gates the sharings of the products of their input
  masks. \<open>'b\<close> is the type of the gates of a nested boolean circuit.

  The offline phase treats a multiplication, three- and four-way multiplication and dot product
  the same way in four places of the sources (the field evaluator, its two nested boolean
  circuits and the boolean evaluator). The routines here are that treatment, generic in the two
  dealing calls \<open>share\<close> and \<open>sec\<close>. The locale \<open>dealing\<close> states what those calls promise; its
  lemmas show that the routines deal the right products, and it is interpreted on the dealing
  routines of \<open>Offline_Shares\<close> for a single ring and for the field evaluator's two rings.
\<close>

datatype ('r, 'b) preproc_gate =
  PreprocGate (pg_mask: "'r mask")
| PreprocInput (pg_mask: "'r mask") (inp_pid: nat) (mask_value: 'r)
| PreprocMultGate (pg_mask: "'r mask") (mask_prod: "'r mask")
| PreprocMult3Gate (pg_mask: "'r mask") (mask_ab: "'r mask") (mask_ac: "'r mask") (mask_bc: "'r mask")
    (mask_abc: "'r mask")
| PreprocMult4Gate (pg_mask: "'r mask") (mask_ab: "'r mask") (mask_ac: "'r mask") (mask_ad: "'r mask")
    (mask_bc: "'r mask") (mask_bd: "'r mask") (mask_cd: "'r mask") (mask_abc: "'r mask")
    (mask_abd: "'r mask") (mask_acd: "'r mask") (mask_bcd: "'r mask") (mask_abcd: "'r mask")
| PreprocDotpGate (pg_mask: "'r mask") (mask_prod: "'r mask")
| PreprocEqzGate (pg_mask: "'r mask") (mask_w: "'r mask") (mask_b: "'r mask") (rval: "'r mask")
    (multk_gates: "'b option list") (padded_val: 'r)
| PreprocLtzGate (pg_mask: "'r mask") (mask_w: "'r mask") (mask_b: "'r mask")
    (PrefixOR_gates: "'b option list") (padded_val: 'r)

text \<open>Operations on the pair of a party's share and the dealer's share of a mask.\<close>

definition m_add :: "'r::comm_ring_1 mask \<Rightarrow> 'r mask \<Rightarrow> 'r mask" where
  "m_add a b = (aas_add (fst a) (fst b), tp_add (snd a) (snd b))"

definition m_sub :: "'r::comm_ring_1 mask \<Rightarrow> 'r mask \<Rightarrow> 'r mask" where
  "m_sub a b = (aas_sub (fst a) (fst b), tp_sub (snd a) (snd b))"

definition m_mul :: "'r::comm_ring_1 mask \<Rightarrow> 'r \<Rightarrow> 'r mask" where
  "m_mul a c = (aas_mul (fst a) c, tp_mul (snd a) c)"

text \<open>The constructor of \<open>PreprocEqzGate\<close> computes the mask of the output wire itself.\<close>

definition mk_PreprocEqzGate ::
  "'r::comm_ring_1 mask \<Rightarrow> 'r mask \<Rightarrow> 'r mask \<Rightarrow> 'b option list \<Rightarrow> 'r \<Rightarrow> ('r, 'b) preproc_gate" where
  "mk_PreprocEqzGate w b rv gates pad =
     PreprocEqzGate (m_add (m_mul b (- 1)) (m_mul w (- 2))) w b rv gates pad"

definition mask_at :: "('r, 'b) preproc_gate option list \<Rightarrow> wire_t \<Rightarrow> 'r mask" where
  "mask_at gates w = pg_mask (the (gates ! w))"

subsection \<open>The routines\<close>

fun deal_all :: "('r \<Rightarrow> 's \<Rightarrow> 'r mask \<times> 's) \<Rightarrow> 'r list \<Rightarrow> 's \<Rightarrow> 'r mask list \<times> 's" where
  "deal_all sec [] s = ([], s)"
| "deal_all sec (x # xs) s =
     (let (m, s) = sec x s; (ms, s) = deal_all sec xs s in (m # ms, s))"

lemma deal_all_hd:
  "xs \<noteq> [] \<Longrightarrow> deal_all sec xs s =
    (fst (sec (hd xs) s) # fst (deal_all sec (tl xs) (snd (sec (hd xs) s))),
     snd (deal_all sec (tl xs) (snd (sec (hd xs) s))))"
  by (cases xs) (simp_all add: Let_def split_beta)

definition pre_mul ::
  "nat \<Rightarrow> ('s \<Rightarrow> 'r::comm_ring_1 mask \<times> 's) \<Rightarrow> ('r \<Rightarrow> 's \<Rightarrow> 'r mask \<times> 's) \<Rightarrow>
   'r mask \<Rightarrow> 'r mask \<Rightarrow> 's \<Rightarrow> ('r, 'b) preproc_gate \<times> 's" where
  "pre_mul pid share sec in1 in2 s =
     (let tp_prod = (if pid = 0 then secret (snd in1) * secret (snd in2) else 0);
          (rand_mask, s) = share s;
          (ms, s) = deal_all sec [tp_prod] s
      in (PreprocMultGate rand_mask (ms ! 0), s))"

definition pre_mul3 ::
  "nat \<Rightarrow> ('s \<Rightarrow> 'r::comm_ring_1 mask \<times> 's) \<Rightarrow> ('r \<Rightarrow> 's \<Rightarrow> 'r mask \<times> 's) \<Rightarrow>
   'r mask \<Rightarrow> 'r mask \<Rightarrow> 'r mask \<Rightarrow> 's \<Rightarrow> ('r, 'b) preproc_gate \<times> 's" where
  "pre_mul3 pid share sec in1 in2 in3 s =
     (let a = secret (snd in1); b = secret (snd in2); c = secret (snd in3);
          prods = (if pid = 0 then [a * b, a * c, b * c, a * b * c] else replicate 4 0);
          (rand_mask, s) = share s;
          (ms, s) = deal_all sec prods s
      in (PreprocMult3Gate rand_mask (ms ! 0) (ms ! 1) (ms ! 2) (ms ! 3), s))"

definition pre_mul4 ::
  "nat \<Rightarrow> ('s \<Rightarrow> 'r::comm_ring_1 mask \<times> 's) \<Rightarrow> ('r \<Rightarrow> 's \<Rightarrow> 'r mask \<times> 's) \<Rightarrow>
   'r mask \<Rightarrow> 'r mask \<Rightarrow> 'r mask \<Rightarrow> 'r mask \<Rightarrow> 's \<Rightarrow> ('r, 'b) preproc_gate \<times> 's" where
  "pre_mul4 pid share sec in1 in2 in3 in4 s =
     (let a = secret (snd in1); b = secret (snd in2); c = secret (snd in3); d = secret (snd in4);
          prods = (if pid = 0 then
              [a * b, a * c, a * d, b * c, b * d, c * d, a * b * c, a * b * d, a * c * d, b * c * d, a * b * c * d]
            else replicate 11 0);
          (rand_mask, s) = share s;
          (ms, s) = deal_all sec prods s
      in (PreprocMult4Gate rand_mask (ms ! 0) (ms ! 1) (ms ! 2) (ms ! 3) (ms ! 4) (ms ! 5) (ms ! 6) (ms ! 7)
            (ms ! 8) (ms ! 9) (ms ! 10), s))"

definition pre_dotp ::
  "nat \<Rightarrow> ('s \<Rightarrow> 'r::comm_ring_1 mask \<times> 's) \<Rightarrow> ('r \<Rightarrow> 's \<Rightarrow> 'r mask \<times> 's) \<Rightarrow>
   'r mask list \<Rightarrow> 'r mask list \<Rightarrow> 's \<Rightarrow> ('r, 'b) preproc_gate \<times> 's" where
  "pre_dotp pid share sec ins1 ins2 s =
     (let prod = (if pid = 0
              then fold (\<lambda>i acc. acc + secret (snd (ins1 ! i)) * secret (snd (ins2 ! i))) [0..<length ins1] 0 else 0);
          (rand_mask, s) = share s;
          (ms, s) = deal_all sec [prod] s
      in (PreprocDotpGate rand_mask (ms ! 0), s))"

text \<open>
  The gates that need no input from a party: linear gates combine the masks of their inputs, the
  others call the routines. \<open>None\<close> stands for the default branch, which stores nothing.
\<close>

fun pre_arith ::
  "nat \<Rightarrow> ('s \<Rightarrow> 'r::comm_ring_1 mask \<times> 's) \<Rightarrow> ('r \<Rightarrow> 's \<Rightarrow> 'r mask \<times> 's) \<Rightarrow>
   ('r, 'b) preproc_gate option list \<Rightarrow> 'r gate \<Rightarrow> 's \<Rightarrow> ('r, 'b) preproc_gate option \<times> 's" where
  "pre_arith pid share sec gs (FIn2Gate t a b out) s =
     (if t = kAdd then (Some (PreprocGate (m_add (mask_at gs a) (mask_at gs b))), s)
      else if t = kSub then (Some (PreprocGate (m_sub (mask_at gs a) (mask_at gs b))), s)
      else if t = kMul then apfst Some (pre_mul pid share sec (mask_at gs a) (mask_at gs b) s)
      else (None, s))"
| "pre_arith pid share sec gs (ConstOpGate t a k out) s =
     (if t = kConstAdd then (Some (PreprocGate (mask_at gs a)), s)
      else if t = kConstMul then (Some (PreprocGate (m_mul (mask_at gs a) k)), s)
      else (None, s))"
| "pre_arith pid share sec gs (FIn3Gate t a b c out) s =
     (if t = kMul3 then apfst Some (pre_mul3 pid share sec (mask_at gs a) (mask_at gs b) (mask_at gs c) s)
      else (None, s))"
| "pre_arith pid share sec gs (FIn4Gate t a b c d out) s =
     (if t = kMul4
      then apfst Some (pre_mul4 pid share sec (mask_at gs a) (mask_at gs b) (mask_at gs c) (mask_at gs d) s)
      else (None, s))"
| "pre_arith pid share sec gs (SIMDGate t as bs out) s =
     (if t = kDotprod then apfst Some (pre_dotp pid share sec (map (mask_at gs) as) (map (mask_at gs) bs) s)
      else (None, s))"
| "pre_arith pid share sec gs g s = (None, s)"

definition store_pre :: "wire_t \<Rightarrow> 'p option \<Rightarrow> 'p option list \<Rightarrow> 'p option list" where
  "store_pre out pg gs = (case pg of None \<Rightarrow> gs | Some _ \<Rightarrow> gs[out := pg])"

subsection \<open>What a preprocessed gate has to satisfy\<close>

text \<open>
  \<open>pgs p\<close> is the preprocessed gate of party \<open>p\<close>; \<open>dealt_sel n kf sel pgs x\<close>: the component
  \<open>sel\<close> of it is a dealt sharing of \<open>x\<close>. \<open>\<delta> w\<close> is the mask of wire \<open>w\<close>.
\<close>

definition dealt_sel ::
  "nat \<Rightarrow> (nat \<Rightarrow> 'r::comm_ring_1) \<Rightarrow> ('p \<Rightarrow> 'r mask) \<Rightarrow> (nat \<Rightarrow> 'p) \<Rightarrow> 'r \<Rightarrow> bool" where
  "dealt_sel n kf sel pgs x \<longleftrightarrow> dealt n kf (snd (sel (pgs 0))) (\<lambda>p. fst (sel (pgs p))) x"

fun arith_ok ::
  "nat \<Rightarrow> (nat \<Rightarrow> 'r::comm_ring_1) \<Rightarrow> (wire_t \<Rightarrow> 'r) \<Rightarrow> 'r gate \<Rightarrow> (nat \<Rightarrow> ('r, 'b) preproc_gate) \<Rightarrow> bool" where
  "arith_ok n kf \<delta> (FIn2Gate t a b out) pgs \<longleftrightarrow>
     (if t = kMul then dealt_sel n kf mask_prod pgs (\<delta> a * \<delta> b)
      else \<delta> out = (if t = kAdd then \<delta> a + \<delta> b else \<delta> a - \<delta> b))"
| "arith_ok n kf \<delta> (ConstOpGate t a k out) pgs \<longleftrightarrow> \<delta> out = (if t = kConstAdd then \<delta> a else \<delta> a * k)"
| "arith_ok n kf \<delta> (FIn3Gate t a b c out) pgs \<longleftrightarrow>
     dealt_sel n kf mask_ab pgs (\<delta> a * \<delta> b) \<and> dealt_sel n kf mask_ac pgs (\<delta> a * \<delta> c) \<and>
     dealt_sel n kf mask_bc pgs (\<delta> b * \<delta> c) \<and> dealt_sel n kf mask_abc pgs (\<delta> a * \<delta> b * \<delta> c)"
| "arith_ok n kf \<delta> (FIn4Gate t a b c d out) pgs \<longleftrightarrow>
     dealt_sel n kf mask_ab pgs (\<delta> a * \<delta> b) \<and> dealt_sel n kf mask_ac pgs (\<delta> a * \<delta> c) \<and>
     dealt_sel n kf mask_ad pgs (\<delta> a * \<delta> d) \<and> dealt_sel n kf mask_bc pgs (\<delta> b * \<delta> c) \<and>
     dealt_sel n kf mask_bd pgs (\<delta> b * \<delta> d) \<and> dealt_sel n kf mask_cd pgs (\<delta> c * \<delta> d) \<and>
     dealt_sel n kf mask_abc pgs (\<delta> a * \<delta> b * \<delta> c) \<and> dealt_sel n kf mask_abd pgs (\<delta> a * \<delta> b * \<delta> d) \<and>
     dealt_sel n kf mask_acd pgs (\<delta> a * \<delta> c * \<delta> d) \<and> dealt_sel n kf mask_bcd pgs (\<delta> b * \<delta> c * \<delta> d) \<and>
     dealt_sel n kf mask_abcd pgs (\<delta> a * \<delta> b * \<delta> c * \<delta> d)"
| "arith_ok n kf \<delta> (SIMDGate t as bs out) pgs \<longleftrightarrow>
     dealt_sel n kf mask_prod pgs (\<Sum>i\<leftarrow>[0..<length as]. \<delta> (as ! i) * \<delta> (bs ! i))"
| "arith_ok n kf \<delta> g pgs \<longleftrightarrow> True"

definition arith_gate :: "'r gate \<Rightarrow> bool" where
  "arith_gate g \<longleftrightarrow> gate_typed g \<and>
     gtype g \<in> {kAdd, kSub, kConstAdd, kConstMul, kMul, kMul3, kMul4, kDotprod}"

lemma dealt_sel_add:
  "dealt_sel n kf sel1 pgs x \<Longrightarrow> dealt_sel n kf sel2 pgs' y \<Longrightarrow>
   dealt_sel n kf (\<lambda>m. m) (\<lambda>p. m_add (sel1 (pgs p)) (sel2 (pgs' p))) (x + y)"
  by (simp add: dealt_sel_def m_add_def dealt_add)

lemma dealt_sel_sub:
  "dealt_sel n kf sel1 pgs x \<Longrightarrow> dealt_sel n kf sel2 pgs' y \<Longrightarrow>
   dealt_sel n kf (\<lambda>m. m) (\<lambda>p. m_sub (sel1 (pgs p)) (sel2 (pgs' p))) (x - y)"
  by (simp add: dealt_sel_def m_sub_def dealt_sub)

lemma dealt_sel_mul:
  "dealt_sel n kf sel pgs x \<Longrightarrow> dealt_sel n kf (\<lambda>m. m) (\<lambda>p. m_mul (sel (pgs p)) c) (x * c)"
  by (simp add: dealt_sel_def m_mul_def dealt_mul)

lemma dealt_sel_secret: "dealt_sel n kf sel pgs x \<Longrightarrow> secret (snd (sel (pgs 0))) = x"
  by (auto simp: dealt_sel_def intro: dealt_secret)

subsection \<open>The interface of the dealing calls\<close>

text \<open>
  \<open>sync\<close> is the invariant of the joint state of dealer and parties, \<open>bok\<close> that the last party
  holds what the dealer has written so far. A call keeps \<open>sync\<close> provided \<open>bok\<close> holds
  afterwards; the dealer only appends, so \<open>bok\<close> holds before as well. \<open>share\<close> deals
  some value and \<open>sec\<close> the value the dealer passes.
\<close>

locale dealing =
  fixes n :: nat and kf :: "nat \<Rightarrow> 'r::comm_ring_1"
    and share :: "nat \<Rightarrow> 's \<Rightarrow> 'r mask \<times> 's" and sec :: "nat \<Rightarrow> 'r \<Rightarrow> 's \<Rightarrow> 'r mask \<times> 's"
    and sync :: "(nat \<Rightarrow> 's) \<Rightarrow> bool" and bok :: "(nat \<Rightarrow> 's) \<Rightarrow> bool"
  assumes share_sync: "sync st \<Longrightarrow> bok (\<lambda>p. snd (share p (st p))) \<Longrightarrow> sync (\<lambda>p. snd (share p (st p)))"
    and share_bok: "bok (\<lambda>p. snd (share p (st p))) \<Longrightarrow> bok st"
    and share_dealt: "sync st \<Longrightarrow> bok (\<lambda>p. snd (share p (st p))) \<Longrightarrow>
      \<exists>x. dealt n kf (snd (fst (share 0 (st 0)))) (\<lambda>p. fst (fst (share p (st p)))) x"
    and sec_sync: "sync st \<Longrightarrow> bok (\<lambda>p. snd (sec p (x p) (st p))) \<Longrightarrow> sync (\<lambda>p. snd (sec p (x p) (st p)))"
    and sec_bok: "bok (\<lambda>p. snd (sec p (x p) (st p))) \<Longrightarrow> bok st"
    and sec_dealt: "sync st \<Longrightarrow> bok (\<lambda>p. snd (sec p (x p) (st p))) \<Longrightarrow>
      dealt n kf (snd (fst (sec 0 (x 0) (st 0)))) (\<lambda>p. fst (fst (sec p (x p) (st p)))) (x 0)"
begin

lemma deal_all_bok:
  "(\<And>p. length (xs p) = k) \<Longrightarrow> bok (\<lambda>p. snd (deal_all (sec p) (xs p) (st p))) \<Longrightarrow> bok st"
proof (induction k arbitrary: xs st)
  case 0
  then show ?case by simp
next
  case (Suc k)
  have ne: "xs p \<noteq> []" for p using Suc.prems(1) [of p] by auto
  have b: "bok (\<lambda>p. snd (deal_all (sec p) (tl (xs p)) (snd (sec p (hd (xs p)) (st p)))))"
    using Suc.prems(2) unfolding deal_all_hd [OF ne] snd_conv .
  have "bok (\<lambda>p. snd (sec p (hd (xs p)) (st p)))"
    by (rule Suc.IH [OF _ b]) (simp add: Suc.prems(1))
  then show ?case by (rule sec_bok)
qed

lemma deal_all_ok:
  assumes "\<And>p. length (xs p) = k" "sync st" "bok (\<lambda>p. snd (deal_all (sec p) (xs p) (st p)))"
  shows "sync (\<lambda>p. snd (deal_all (sec p) (xs p) (st p))) \<and>
    (\<forall>i<k. dealt n kf (snd (fst (deal_all (sec 0) (xs 0) (st 0)) ! i))
       (\<lambda>p. fst (fst (deal_all (sec p) (xs p) (st p)) ! i)) (xs 0 ! i))"
  using assms
proof (induction k arbitrary: xs st)
  case 0
  then show ?case by simp
next
  case (Suc k)
  let ?st1 = "\<lambda>p. snd (sec p (hd (xs p)) (st p))"
  have ne: "xs p \<noteq> []" for p using Suc.prems(1) [of p] by auto
  have len: "length (tl (xs p)) = k" for p using Suc.prems(1) by simp
  have b: "bok (\<lambda>p. snd (deal_all (sec p) (tl (xs p)) (?st1 p)))"
    using Suc.prems(3) unfolding deal_all_hd [OF ne] snd_conv .
  have b1: "bok ?st1" by (rule deal_all_bok [OF len b])
  note IH = Suc.IH [OF len sec_sync [OF Suc.prems(2) b1] b]
  have "dealt n kf (snd (fst (deal_all (sec 0) (xs 0) (st 0)) ! i))
       (\<lambda>p. fst (fst (deal_all (sec p) (xs p) (st p)) ! i)) (xs 0 ! i)" if "i < Suc k" for i
  proof (cases i)
    case 0
    then show ?thesis
      using sec_dealt [OF Suc.prems(2) b1] hd_conv_nth [OF ne [of 0]] unfolding deal_all_hd [OF ne] by simp
  next
    case (Suc j)
    have "xs 0 ! Suc j = tl (xs 0) ! j" using nth_tl [of j "xs 0"] len [of 0] that Suc by simp
    with Suc IH that show ?thesis unfolding deal_all_hd [OF ne] by simp
  qed
  with IH show ?case unfolding deal_all_hd [OF ne] by simp
qed

text \<open>Sharing a fresh mask and a list of products, which is what every routine does.\<close>

definition share_then :: "nat \<Rightarrow> 'r list \<Rightarrow> 's \<Rightarrow> 'r mask \<times> 'r mask list \<times> 's" where
  "share_then p xs s = (fst (share p s), deal_all (sec p) xs (snd (share p s)))"

lemma share_then_bok:
  assumes "\<And>p. length (xs p) = k" "bok (\<lambda>p. snd (snd (share_then p (xs p) (st p))))"
  shows "bok st"
  using share_bok [OF deal_all_bok [OF assms(1)]] assms(2) by (simp add: share_then_def)

lemma share_then_ok:
  assumes "\<And>p. length (xs p) = k" "sync st" "bok (\<lambda>p. snd (snd (share_then p (xs p) (st p))))"
  shows "sync (\<lambda>p. snd (snd (share_then p (xs p) (st p))))"
    "\<exists>x. dealt n kf (snd (fst (share_then 0 (xs 0) (st 0)))) (\<lambda>p. fst (fst (share_then p (xs p) (st p)))) x"
    "i < k \<Longrightarrow> dealt n kf (snd (fst (snd (share_then 0 (xs 0) (st 0))) ! i))
       (\<lambda>p. fst (fst (snd (share_then p (xs p) (st p))) ! i)) (xs 0 ! i)"
proof -
  let ?st1 = "\<lambda>p. snd (share p (st p))"
  have b: "bok (\<lambda>p. snd (deal_all (sec p) (xs p) (?st1 p)))" using assms(3) by (simp add: share_then_def)
  have b1: "bok ?st1" by (rule deal_all_bok [OF assms(1) b])
  note D = deal_all_ok [OF assms(1) share_sync [OF assms(2) b1] b]
  show "sync (\<lambda>p. snd (snd (share_then p (xs p) (st p))))" using D by (simp add: share_then_def)
  show "\<exists>x. dealt n kf (snd (fst (share_then 0 (xs 0) (st 0)))) (\<lambda>p. fst (fst (share_then p (xs p) (st p)))) x"
    using share_dealt [OF assms(2) b1] by (simp add: share_then_def)
  show "i < k \<Longrightarrow> dealt n kf (snd (fst (snd (share_then 0 (xs 0) (st 0))) ! i))
       (\<lambda>p. fst (fst (snd (share_then p (xs p) (st p))) ! i)) (xs 0 ! i)"
    using D by (simp add: share_then_def)
qed

lemma pre_routines:
  "pre_mul p (share p) (sec p) a b s =
    (let T = share_then p [if p = 0 then secret (snd a) * secret (snd b) else 0] s
     in (PreprocMultGate (fst T) (fst (snd T) ! 0), snd (snd T)))"
  "pre_mul3 p (share p) (sec p) a b c s =
    (let x = secret (snd a); y = secret (snd b); z = secret (snd c);
         T = share_then p (if p = 0 then [x * y, x * z, y * z, x * y * z] else replicate 4 0) s; ms = fst (snd T)
     in (PreprocMult3Gate (fst T) (ms ! 0) (ms ! 1) (ms ! 2) (ms ! 3), snd (snd T)))"
  "pre_mul4 p (share p) (sec p) a b c d s =
    (let x = secret (snd a); y = secret (snd b); z = secret (snd c); u = secret (snd d);
         T = share_then p (if p = 0 then
              [x * y, x * z, x * u, y * z, y * u, z * u, x * y * z, x * y * u, x * z * u, y * z * u, x * y * z * u]
            else replicate 11 0) s; ms = fst (snd T)
     in (PreprocMult4Gate (fst T) (ms ! 0) (ms ! 1) (ms ! 2) (ms ! 3) (ms ! 4) (ms ! 5) (ms ! 6) (ms ! 7)
            (ms ! 8) (ms ! 9) (ms ! 10), snd (snd T)))"
  "pre_dotp p (share p) (sec p) as bs s =
    (let T = share_then p [if p = 0 then (\<Sum>i\<leftarrow>[0..<length as]. secret (snd (as ! i)) * secret (snd (bs ! i))) else 0] s
     in (PreprocDotpGate (fst T) (fst (snd T) ! 0), snd (snd T)))"
  by (simp_all add: pre_mul_def pre_mul3_def pre_mul4_def pre_dotp_def share_then_def Let_def split_beta
      fold_add_sum_list)

text \<open>
  One gate, run by the dealer and all parties: the invariant is kept, and the preprocessed gates
  hold a dealt mask for the output wire and what the gate needs besides.
\<close>

definition gate_dealt :: "(wire_t \<Rightarrow> 'r) \<Rightarrow> 'r gate \<Rightarrow> (nat \<Rightarrow> ('r, 'b) preproc_gate option \<times> 's) \<Rightarrow> bool" where
  "gate_dealt \<delta> g R \<longleftrightarrow> sync (\<lambda>p. snd (R p)) \<and> (\<forall>p. fst (R p) \<noteq> None) \<and>
     (\<exists>x. dealt_sel n kf pg_mask (\<lambda>p. the (fst (R p))) x \<and>
        arith_ok n kf (\<delta>(gout g := x)) g (\<lambda>p. the (fst (R p))))"

lemma gate_dealtI:
  assumes "\<And>p. length (xs p) = k" "sync st" "bok (\<lambda>p. snd (snd (share_then p (xs p) (st p))))"
    and R: "\<And>p. R p = (Some (C (fst (share_then p (xs p) (st p))) (fst (snd (share_then p (xs p) (st p))))),
      snd (snd (share_then p (xs p) (st p))))"
    and C: "\<And>m ms. pg_mask (C m ms) = m"
    and ok: "\<And>x m ms. list_all (\<lambda>i. dealt_sel n kf (\<lambda>ms. ms ! i) ms (xs 0 ! i)) [0..<k] \<Longrightarrow>
      arith_ok n kf (\<delta>(gout g := x)) g (\<lambda>p. C (m p) (ms p))"
  shows "gate_dealt \<delta> g R"
proof -
  note T = share_then_ok [OF assms(1-3)]
  obtain x where "dealt_sel n kf pg_mask (\<lambda>p. the (fst (R p))) x"
    using T(2) by (auto simp: R dealt_sel_def C)
  moreover have "arith_ok n kf (\<delta>(gout g := x)) g (\<lambda>p. the (fst (R p)))"
    unfolding R fst_conv option.sel by (rule ok) (use T(3) in \<open>simp add: dealt_sel_def list_all_iff\<close>)
  ultimately show ?thesis using T(1) by (auto simp: gate_dealt_def R)
qed

lemma gate_dealt_linear:
  fixes R :: "nat \<Rightarrow> ('r, 'b) preproc_gate option \<times> 's"
  assumes "sync st" "\<And>p. R p = (Some (PreprocGate (f p)), st p)" "dealt_sel n kf (\<lambda>m. m) f x"
    "\<And>pgs :: nat \<Rightarrow> ('r, 'b) preproc_gate. arith_ok n kf (\<delta>(gout g := x)) g pgs"
  shows "gate_dealt \<delta> g R"
  using assms by (auto simp: gate_dealt_def dealt_sel_def intro!: exI [of _ x])

lemma upts: "[0..<4] = [0, 1, 2, 3]" "[0..<11] = [0, 1, 2, 3, 4, 5, 6, 7, 8, 9, 10]"
  by (simp_all add: upt_rec)

lemma pre_arith_dealt:
  fixes G :: "nat \<Rightarrow> ('r, 'b) preproc_gate option list"
  assumes g: "arith_gate g" and sync: "sync st" and out: "gout g \<notin> set (gins g)"
    and ins: "\<And>w. w \<in> set (gins g) \<Longrightarrow> dealt_sel n kf (\<lambda>gs. mask_at gs w) G (\<delta> w)"
    and bok: "bok (\<lambda>p. snd (pre_arith p (share p) (sec p) (G p) g (st p)))"
  shows "gate_dealt \<delta> g (\<lambda>p. pre_arith p (share p) (sec p) (G p) g (st p))"
proof -
  have sec: "secret (snd (mask_at (G 0) w)) = \<delta> w" if "w \<in> set (gins g)" for w
    using dealt_sel_secret [OF ins [OF that]] .
  show ?thesis
  proof (cases g)
    case (FIn2Gate t a b out')
    consider "t = kMul" | "t = kAdd" | "t = kSub" using g FIn2Gate by (auto simp: arith_gate_def)
    then show ?thesis
    proof cases
      case 1
      show ?thesis
        by (rule gate_dealtI [where k = 1 and C = "\<lambda>m ms. PreprocMultGate m (ms ! 0)" and
              xs = "\<lambda>p. [if p = 0 then secret (snd (mask_at (G p) a)) * secret (snd (mask_at (G p) b)) else 0]", OF _ sync])
          (use bok sec out in \<open>auto simp: FIn2Gate 1 pre_routines Let_def dealt_sel_def\<close>)
    next
      case 2
      show ?thesis
        by (rule gate_dealt_linear [OF sync _ dealt_sel_add [OF ins [of a] ins [of b]]])
          (use out in \<open>auto simp: FIn2Gate 2\<close>)
    next
      case 3
      show ?thesis
        by (rule gate_dealt_linear [OF sync _ dealt_sel_sub [OF ins [of a] ins [of b]]])
          (use out in \<open>auto simp: FIn2Gate 3\<close>)
    qed
  next
    case (ConstOpGate t a k out')
    consider "t = kConstAdd" | "t = kConstMul" using g ConstOpGate by (auto simp: arith_gate_def)
    then show ?thesis
    proof cases
      case 1
      have "dealt_sel n kf (\<lambda>m. m) (\<lambda>p. mask_at (G p) a) (\<delta> a)"
        using ins [of a] by (simp add: ConstOpGate dealt_sel_def)
      then show ?thesis
        by (rule gate_dealt_linear [OF sync, rotated]) (use out in \<open>auto simp: ConstOpGate 1\<close>)
    next
      case 2
      show ?thesis
        by (rule gate_dealt_linear [OF sync _ dealt_sel_mul [OF ins [of a], of k]])
          (use out in \<open>auto simp: ConstOpGate 2\<close>)
    qed
  next
    case (FIn3Gate t a b c out')
    let ?s = "\<lambda>p w. secret (snd (mask_at (G p) w))"
    have t: "t = kMul3" using g FIn3Gate by (simp add: arith_gate_def)
    show ?thesis
      by (rule gate_dealtI [where k = 4 and C = "\<lambda>m ms. PreprocMult3Gate m (ms ! 0) (ms ! 1) (ms ! 2) (ms ! 3)" and
            xs = "\<lambda>p. if p = 0 then [?s p a * ?s p b, ?s p a * ?s p c, ?s p b * ?s p c, ?s p a * ?s p b * ?s p c]
              else replicate 4 0", OF _ sync])
        (use bok sec out in \<open>auto simp: FIn3Gate t pre_routines Let_def dealt_sel_def upts\<close>)
  next
    case (FIn4Gate t a b c d out')
    let ?s = "\<lambda>p w. secret (snd (mask_at (G p) w))"
    have t: "t = kMul4" using g FIn4Gate by (simp add: arith_gate_def)
    show ?thesis
      by (rule gate_dealtI [where k = 11 and C = "\<lambda>m ms. PreprocMult4Gate m (ms ! 0) (ms ! 1) (ms ! 2) (ms ! 3)
              (ms ! 4) (ms ! 5) (ms ! 6) (ms ! 7) (ms ! 8) (ms ! 9) (ms ! 10)" and
            xs = "\<lambda>p. if p = 0 then [?s p a * ?s p b, ?s p a * ?s p c, ?s p a * ?s p d, ?s p b * ?s p c,
                ?s p b * ?s p d, ?s p c * ?s p d, ?s p a * ?s p b * ?s p c, ?s p a * ?s p b * ?s p d,
                ?s p a * ?s p c * ?s p d, ?s p b * ?s p c * ?s p d, ?s p a * ?s p b * ?s p c * ?s p d]
              else replicate 11 0", OF _ sync])
        (use bok sec out in \<open>auto simp: FIn4Gate t pre_routines Let_def dealt_sel_def upts\<close>)
  next
    case (SIMDGate t as bs out')
    have t: "t = kDotprod" and len: "length as = length bs" using g SIMDGate by (auto simp: arith_gate_def)
    have sum: "(\<Sum>i\<leftarrow>[0..<length as]. secret (snd (map (mask_at (G 0)) as ! i)) * secret (snd (map (mask_at (G 0)) bs ! i))) =
        (\<Sum>i\<leftarrow>[0..<length as]. \<delta> (as ! i) * \<delta> (bs ! i))"
      using sec len by (intro arg_cong [where f = sum_list]) (auto simp: SIMDGate)
    have upd: "(\<Sum>i\<leftarrow>[0..<length as]. (\<delta>(out' := x)) (as ! i) * (\<delta>(out' := x)) (bs ! i)) =
        (\<Sum>i\<leftarrow>[0..<length as]. \<delta> (as ! i) * \<delta> (bs ! i))" for x
      using out len by (intro arg_cong [where f = sum_list]) (auto simp: SIMDGate)
    show ?thesis
      by (rule gate_dealtI [where k = 1 and C = "\<lambda>m ms. PreprocDotpGate m (ms ! 0)" and
            xs = "\<lambda>p. [if p = 0 then (\<Sum>i\<leftarrow>[0..<length as]. secret (snd (map (mask_at (G p)) as ! i)) *
                secret (snd (map (mask_at (G p)) bs ! i))) else 0]", OF _ sync])
        (use bok upd in \<open>auto simp: SIMDGate t pre_routines Let_def dealt_sel_def sum cong: if_cong\<close>)
  qed (use g in \<open>auto simp: arith_gate_def\<close>)
qed

lemma pre_arith_bok:
  assumes "bok (\<lambda>p. snd (pre_arith p (share p) (sec p) (G p) g (st p)))"
  shows "bok st"
proof -
  have T: "bok st" if "bok (\<lambda>p. snd (snd (share_then p (xs p) (st p))))" "\<And>p. length (xs p) = k" for xs k
    by (rule share_then_bok [OF that(2,1)])
  show ?thesis
  proof (cases g)
    case (FIn2Gate t a b out)
    then show ?thesis
      using assms T [of "\<lambda>p. [if p = 0 then secret (snd (mask_at (G p) a)) * secret (snd (mask_at (G p) b)) else 0]" 1]
      by (cases "t = kAdd"; cases "t = kSub"; cases "t = kMul"; simp add: pre_routines Let_def)
  next
    case (FIn3Gate t a b c out)
    let ?s = "\<lambda>p w. secret (snd (mask_at (G p) w))"
    show ?thesis
      using assms T [of "\<lambda>p. if p = 0 then [?s p a * ?s p b, ?s p a * ?s p c, ?s p b * ?s p c, ?s p a * ?s p b * ?s p c]
              else replicate 4 0" 4]
      by (cases "t = kMul3"; simp add: FIn3Gate pre_routines Let_def)
  next
    case (FIn4Gate t a b c d out)
    let ?s = "\<lambda>p w. secret (snd (mask_at (G p) w))"
    show ?thesis
      using assms T [of "\<lambda>p. if p = 0 then [?s p a * ?s p b, ?s p a * ?s p c, ?s p a * ?s p d, ?s p b * ?s p c,
                ?s p b * ?s p d, ?s p c * ?s p d, ?s p a * ?s p b * ?s p c, ?s p a * ?s p b * ?s p d,
                ?s p a * ?s p c * ?s p d, ?s p b * ?s p c * ?s p d, ?s p a * ?s p b * ?s p c * ?s p d]
              else replicate 11 0" 11]
      by (cases "t = kMul4"; simp add: FIn4Gate pre_routines Let_def)
  next
    case (SIMDGate t as bs out)
    show ?thesis
      using assms T [of "\<lambda>p. [if p = 0 then (\<Sum>i\<leftarrow>[0..<length as]. secret (snd (map (mask_at (G p)) as ! i)) *
                secret (snd (map (mask_at (G p)) bs ! i))) else 0]" 1]
      by (cases "t = kDotprod"; simp add: SIMDGate pre_routines Let_def cong: if_cong)
  next
    case (ConstOpGate t a k out)
    with assms show ?thesis by (cases "t = kConstAdd"; cases "t = kConstMul"; simp)
  qed (use assms in auto)
qed

end

end
