(* ===== verification/CircuitGen.thy ===== *)
theory CircuitGen
  imports Circuits "HOL-Library.Sublist"
begin

section \<open>Generated circuits (the static generators of utils/circuit.h)\<close>

text \<open>
  The generators drive the builder of \<open>Circuits\<close>; every call of it may throw, so they are
  written over a state and exception monad. \<open>builds\<close> is the partial correctness judgement used
  for them, and at the same time the statement that no exception is raised: from a well-formed
  circuit the generator returns, the circuit it leaves is well formed and extends the one it got,
  and the result satisfies the postcondition. \<open>wval\<close> is the plaintext value of a wire of the
  circuit built so far; extending a circuit does not change it.
\<close>

type_synonym ('r, 'a) builder = "'r Circuit \<Rightarrow> exn + 'a \<times> 'r Circuit"

definition retB :: "'a \<Rightarrow> ('r, 'a) builder" where
  "retB x c = Inr (x, c)"

definition bindB :: "('r, 'a) builder \<Rightarrow> ('a \<Rightarrow> ('r, 'b) builder) \<Rightarrow> ('r, 'b) builder" where
  "bindB m k c = (case m c of Inl e \<Rightarrow> Inl e | Inr (x, c') \<Rightarrow> k x c')"

fun forB :: "('i \<Rightarrow> 's \<Rightarrow> ('r, 's) builder) \<Rightarrow> 'i list \<Rightarrow> 's \<Rightarrow> ('r, 's) builder" where
  "forB f [] s = retB s"
| "forB f (i # is) s = bindB (f i s) (forB f is)"

definition inputB :: "('r, wire_t) builder" where
  "inputB c = Inr (newInputWire c)"

definition outputB :: "wire_t \<Rightarrow> ('r, unit) builder" where
  "outputB w c = map_sum (\<lambda>e. e) (\<lambda>c'. ((), c')) (setAsOutput w c)"

text \<open>A circuit generator starts from the empty circuit and returns the circuit built.\<close>

definition runB :: "('r, unit) builder \<Rightarrow> exn + 'r Circuit" where
  "runB m = map_sum (\<lambda>e. e) snd (m Circuit_new)"

text \<open>\<open>k\<close> input wires in a row, as the loops over \<open>newInputWire\<close> create them.\<close>

definition inputsB :: "nat \<Rightarrow> ('r, wire_t list) builder" where
  "inputsB k = forB (\<lambda>_ ws. bindB inputB (\<lambda>w. retB (ws @ [w]))) [0..<k] []"

subsection \<open>The generators\<close>

text \<open>The number of levels \<open>log(k)/log(4)\<close> is 3 for the constant \<open>k = 64\<close> of the generators.\<close>

definition multK_level :: "nat \<Rightarrow> wire_t list \<Rightarrow> ('r, wire_t list) builder" where
  "multK_level level leveli =
     forB (\<lambda>j level_next.
       bindB (addGate4 kMul4 (leveli ! (4 * j - 4)) (leveli ! (4 * j - 3)) (leveli ! (4 * j - 2)) (leveli ! (4 * j - 1)))
         (\<lambda>w. retB (level_next[j - 1 := w])))
       [1..<Suc (64 div 4 ^ level)] (replicate (64 div 4 ^ level) 0)"

definition generateMultK :: "exn + 'r Circuit" where
  "generateMultK = runB
     (bindB (inputsB 64) (\<lambda>inp.
      bindB (forB multK_level [1..<Suc 3] inp) (\<lambda>leveli. outputB (leveli ! 0))))"

text \<open>
  One step of the parallel prefix tree: the four gates of group \<open>j\<close> and offset \<open>i\<close>. The
  nested loops over \<open>j\<close> and \<open>i\<close> are one loop over the pairs in the same order.
\<close>

definition prefix_step ::
  "nat \<Rightarrow> wire_t list \<Rightarrow> nat \<times> nat \<Rightarrow> wire_t list \<Rightarrow> ('r::comm_ring_1, wire_t list) builder" where
  "prefix_step level leveli = (\<lambda>(j, i) level_next.
     let p = (j - 1) * 4 ^ level;
         q = (j - 1) * 4 ^ level + 4 ^ (level - 1);
         r = (j - 1) * 4 ^ level + 2 * 4 ^ (level - 1);
         s = (j - 1) * 4 ^ level + 3 * 4 ^ (level - 1)
     in bindB (addConstOpGate kConstAdd (leveli ! (p + i)) 0) (\<lambda>w1.
        bindB (addGate2 kMul (leveli ! (q - 1)) (leveli ! (q + i))) (\<lambda>w2.
        bindB (addGate3 kMul3 (leveli ! (q - 1)) (leveli ! (r - 1)) (leveli ! (r + i))) (\<lambda>w3.
        bindB (addGate4 kMul4 (leveli ! (q - 1)) (leveli ! (r - 1)) (leveli ! (s - 1)) (leveli ! (s + i))) (\<lambda>w4.
        retB (level_next[p + i := w1, q + i := w2, r + i := w3, s + i := w4]))))))"

definition prefix_level :: "nat \<Rightarrow> nat \<Rightarrow> wire_t list \<Rightarrow> ('r::comm_ring_1, wire_t list) builder" where
  "prefix_level n level leveli =
     forB (prefix_step level leveli)
       [(j, i). j \<leftarrow> [1..<Suc (n div 4 ^ level)], i \<leftarrow> [0..<4 ^ (level - 1)]] (replicate n 0)"

text \<open>
  \<open>generateParaPrefixOR\<close> for \<open>repeat\<close> blocks of 64 wires. The vectors \<open>inp1\<close> and \<open>inp2\<close>
  of the dot product start with \<open>k * repeat\<close> zeros, the constructor's fill, before the wires.
\<close>

definition prefixOR_diffs :: "nat \<Rightarrow> wire_t list \<Rightarrow> ('r::comm_ring_1, wire_t list) builder" where
  "prefixOR_diffs i wv =
     forB (\<lambda>j wz.
       bindB (if j = 0 then addConstOpGate kConstAdd (wv ! (i * 64)) 0
              else addGate2 kAdd (wv ! (i * 64 + j)) (wv ! (i * 64 + (j - 1))))
         (\<lambda>w. retB (wz @ [w])))
       [0..<64] []"

definition generateParaPrefixOR :: "nat \<Rightarrow> exn + 'r::comm_ring_1 Circuit" where
  "generateParaPrefixOR repeat = runB
     (bindB (inputsB (repeat * 64)) (\<lambda>input.
      bindB (inputsB (repeat * 64)) (\<lambda>inp_d.
      bindB (forB (prefix_level (repeat * 64)) [1..<Suc 3] input) (\<lambda>leveli.
      bindB (forB (\<lambda>i wv. bindB (addConstOpGate kConstAdd (leveli ! i) 1) (\<lambda>w. retB (wv @ [w]))) [0..<repeat * 64] []) (\<lambda>wv.
      bindB (forB (\<lambda>i wz. bindB (prefixOR_diffs i wv) (\<lambda>ws. retB (wz @ ws))) [0..<repeat] []) (\<lambda>wz.
      bindB (addGateV kDotprod (replicate (64 * repeat) 0 @ wz) (replicate (64 * repeat) 0 @ inp_d)) (\<lambda>res.
      outputB res)))))))"

text \<open>
  The adders: generate and propagate wires per bit, then a tree over six levels. \<open>pow(2, x)\<close> is
  exact, so the loop bounds are powers of two.
\<close>

definition ppa_leaf ::
  "wire_t list \<Rightarrow> wire_t list \<Rightarrow> nat \<Rightarrow> wire_t list \<times> wire_t list \<Rightarrow> ('r, wire_t list \<times> wire_t list) builder" where
  "ppa_leaf a b i = (\<lambda>(loc_p, loc_g).
     bindB (addGate2 kAdd (a ! i) (b ! i)) (\<lambda>p.
     bindB (addGate2 kMul (a ! i) (b ! i)) (\<lambda>g. retB (loc_p @ [p], loc_g @ [g]))))"

definition ppa_combine ::
  "nat \<Rightarrow> nat \<Rightarrow> wire_t list \<times> wire_t list \<Rightarrow> ('r, wire_t list \<times> wire_t list) builder" where
  "ppa_combine dst src = (\<lambda>(loc_p, loc_g).
     bindB (addGate2 kMul (loc_p ! dst) (loc_g ! src)) (\<lambda>w1.
     bindB (addGate2 kAdd (loc_g ! dst) w1) (\<lambda>w2.
     bindB (addGate2 kMul (loc_p ! dst) (loc_p ! src)) (\<lambda>w3.
     retB (loc_p[dst := w3], loc_g[dst := w2])))))"

definition ppa_temp :: "nat \<Rightarrow> nat \<Rightarrow> nat" where
  "ppa_temp level cnt = 2 ^ (level - 1) + (cnt - 1) * 2 ^ level - 1"

definition generatePPA :: "exn + 'r Circuit" where
  "generatePPA = runB
     (bindB (inputsB 64) (\<lambda>a.
      bindB (inputsB 64) (\<lambda>b.
      bindB (forB (ppa_leaf a b) [0..<64] ([], [])) (\<lambda>pg.
      bindB (forB (\<lambda>(level, cnt, i). ppa_combine (ppa_temp level cnt + i + 1) (ppa_temp level cnt))
          [(level, cnt, i). level \<leftarrow> [1..<Suc 6], cnt \<leftarrow> [1..<Suc (64 div 2 ^ level)], i \<leftarrow> [0..<2 ^ (level - 1)]] pg)
        (\<lambda>(loc_p, loc_g).
      bindB (bindB (addGate2 kAdd (a ! 0) (b ! 0)) (\<lambda>s0.
          forB (\<lambda>i S. bindB (addGate2 kAdd (a ! i) (b ! i)) (\<lambda>w.
             bindB (addGate2 kAdd w (loc_g ! (i - 1))) (\<lambda>s. retB (S @ [s])))) [1..<64] [s0])) (\<lambda>S.
      forB (\<lambda>i _. outputB (S ! i)) [0..<64] ()))))))"

definition generatePPAMSB :: "exn + 'r Circuit" where
  "generatePPAMSB = runB
     (bindB (inputsB 64) (\<lambda>a.
      bindB (inputsB 64) (\<lambda>b.
      bindB (forB (ppa_leaf a b) [0..<64] ([], [])) (\<lambda>pg.
      bindB (forB (\<lambda>(level, cnt) pg.
            if cnt < 64 div 2 ^ level
              then ppa_combine (ppa_temp level cnt + 2 ^ (level - 1)) (ppa_temp level cnt) pg
            else if level \<noteq> 1 then ppa_combine 62 (ppa_temp level cnt) pg
            else retB pg)
          [(level, cnt). level \<leftarrow> [1..<Suc 6], cnt \<leftarrow> [1..<Suc (64 div 2 ^ level)]] pg)
        (\<lambda>(loc_p, loc_g).
      bindB (addGate2 kAdd (a ! 63) (b ! 63)) (\<lambda>w.
      bindB (addGate2 kAdd w (loc_g ! 62)) outputB))))))"

subsection \<open>Reasoning about builders\<close>

lemma bindB_Inr: "m c = Inr (x, c') \<Longrightarrow> bindB m k c = k x c'"
  by (simp add: bindB_def)

text \<open>The value of a wire of the circuit built so far.\<close>

definition wval :: "'r::comm_ring_1 ringops \<Rightarrow> (wire_t \<Rightarrow> 'r) \<Rightarrow> 'r Circuit \<Rightarrow> wire_t \<Rightarrow> 'r" where
  "wval R inp c w = wire_vals R inp (circ_gates c) ! w"

definition inputs_of :: "'r Circuit \<Rightarrow> 'r gate list" where
  "inputs_of c = filter (\<lambda>g. gtype g = kInp) (circ_gates c)"

text \<open>\<open>extends\<close>: gates other than inputs have been appended.\<close>

definition extends :: "'r Circuit \<Rightarrow> 'r Circuit \<Rightarrow> bool" where
  "extends c c' \<longleftrightarrow> circuit_ok c' \<and> prefix (circ_gates c) (circ_gates c') \<and>
     circ_outputs c' = circ_outputs c \<and> inputs_of c' = inputs_of c"

text \<open>
  \<open>builds c m Q\<close>: from \<open>c\<close> the builder \<open>m\<close> returns some \<open>x\<close> and a circuit \<open>c'\<close> that extends
  \<open>c\<close>, with \<open>Q x c'\<close>.
\<close>

definition builds :: "'r Circuit \<Rightarrow> ('r, 'a) builder \<Rightarrow> ('a \<Rightarrow> 'r Circuit \<Rightarrow> bool) \<Rightarrow> bool" where
  "builds c m Q \<longleftrightarrow> (\<exists>x c'. m c = Inr (x, c') \<and> extends c c' \<and> Q x c')"

lemma buildsE:
  assumes "builds c m Q"
  obtains x c' where "m c = Inr (x, c')" "extends c c'" "Q x c'"
  using assms by (auto simp: builds_def)

lemma extends_refl: "circuit_ok c \<Longrightarrow> extends c c"
  by (simp add: extends_def)

lemma extends_trans: "extends c c' \<Longrightarrow> extends c' c'' \<Longrightarrow> extends c c''"
  by (auto simp: extends_def intro: prefix_order.trans)

lemma extends_ok: "extends c c' \<Longrightarrow> circuit_ok c'"
  by (simp add: extends_def)

lemma extends_length: "extends c c' \<Longrightarrow> length (circ_gates c) \<le> length (circ_gates c')"
  by (auto simp: extends_def dest: prefix_length_le)

lemma wire_vals_prefix:
  "w < length gs \<Longrightarrow> wire_vals R inp (gs @ hs) ! w = wire_vals R inp gs ! w"
  by (induction hs rule: rev_induct) (simp_all add: nth_append wire_vals_snoc flip: append_assoc)

lemma wval_extends: "extends c c' \<Longrightarrow> w < length (circ_gates c) \<Longrightarrow> wval R inp c' w = wval R inp c w"
  by (auto simp: extends_def wval_def prefix_def wire_vals_prefix)

text \<open>\<open>has R inp c w x\<close>: wire \<open>w\<close> exists in \<open>c\<close> and has value \<open>x\<close>; stable under extension.\<close>

definition has :: "'r::comm_ring_1 ringops \<Rightarrow> (wire_t \<Rightarrow> 'r) \<Rightarrow> 'r Circuit \<Rightarrow> wire_t \<Rightarrow> 'r \<Rightarrow> bool" where
  "has R inp c w x \<longleftrightarrow> w < length (circ_gates c) \<and> wval R inp c w = x"

lemma has_extends: "has R inp c w x \<Longrightarrow> extends c c' \<Longrightarrow> has R inp c' w x"
  using extends_length [of c c'] by (auto simp: has_def wval_extends)

lemma has_length: "has R inp c w x \<Longrightarrow> w < length (circ_gates c)"
  by (simp add: has_def)

lemma builds_ret: "circuit_ok c \<Longrightarrow> Q x c \<Longrightarrow> builds c (retB x) Q"
  by (auto simp: builds_def retB_def extends_refl)

lemma builds_bind:
  assumes "builds c m P" and "\<And>x c'. extends c c' \<Longrightarrow> P x c' \<Longrightarrow> builds c' (k x) Q"
  shows "builds c (bindB m k) Q"
proof -
  from assms(1) obtain x c' where m: "m c = Inr (x, c')" "extends c c'" "P x c'" by (rule buildsE)
  from assms(2) [OF m(2,3)] obtain y c'' where "k x c' = Inr (y, c'')" "extends c' c''" "Q y c''"
    by (rule buildsE)
  with m show ?thesis by (auto simp: builds_def bindB_def intro: extends_trans)
qed

lemma builds_weaken:
  "builds c m P \<Longrightarrow> (\<And>x c'. extends c c' \<Longrightarrow> P x c' \<Longrightarrow> Q x c') \<Longrightarrow> builds c m Q"
  by (auto simp: builds_def)

text \<open>Loops: an invariant indexed by the elements processed so far.\<close>

lemma builds_for:
  assumes "circuit_ok c" "I [] s c"
    and step: "\<And>dn i rest s c'. is = dn @ i # rest \<Longrightarrow> extends c c' \<Longrightarrow> I dn s c' \<Longrightarrow>
      builds c' (f i s) (I (dn @ [i]))"
  shows "builds c (forB f is s) (I is)"
proof -
  have "builds c' (forB f rest s) (I is)"
    if "is = dn @ rest" "extends c c'" "I dn s c'" for dn rest s c'
    using that
  proof (induction rest arbitrary: "dn" s c')
    case Nil
    then show ?case by (auto intro: builds_ret extends_ok)
  next
    case (Cons i rest)
    show ?case
      unfolding forB.simps
    proof (rule builds_bind [OF step [OF Cons.prems]])
      fix s' c'' assume "extends c' c''" "I (dn @ [i]) s' c''"
      with Cons.prems show "builds c'' (forB f rest s') (I is)"
        by (intro Cons.IH [of "dn @ [i]"]) (auto intro: extends_trans)
    qed
  qed
  from this [of "[]" "is" c s] assms show ?thesis by (simp add: extends_refl)
qed

lemma extends_push:
  assumes "circuit_ok c" "gout g = length (circ_gates c)" "gate_typed g" "gtype g \<noteq> kInp"
    "\<forall>w\<in>set (gins g). w < length (circ_gates c)"
  shows "extends c (push_gate g c)"
  using circuit_ok_push [OF assms(1-3,5)] assms(4) by (simp add: extends_def push_gate_def inputs_of_def)

text \<open>A gate appended by the builder has the value of the gate over the current circuit.\<close>

lemma has_push:
  assumes "gate_val R inp (wire_vals R inp (circ_gates c)) g = x" "gout g = length (circ_gates c)"
  shows "has R inp (push_gate g c) (length (circ_gates c)) x"
  using assms by (simp add: has_def wval_def push_gate_def wire_vals_snoc nth_append)

lemma builds_push:
  assumes "m c = Inr (length (circ_gates c), push_gate g c)" "circuit_ok c"
    "gout g = length (circ_gates c)" "gate_typed g" "gtype g \<noteq> kInp" "\<forall>w\<in>set (gins g). w < length (circ_gates c)"
    "gate_val R inp (wire_vals R inp (circ_gates c)) g = x"
  shows "builds c m (\<lambda>w c'. has R inp c' w x)"
  using extends_push [OF assms(2-6)] has_push [OF assms(7,3)] assms(1) by (auto simp: builds_def)

lemma builds_mul2:
  "circuit_ok c \<Longrightarrow> has R inp c a x \<Longrightarrow> has R inp c b y \<Longrightarrow>
   builds c (addGate2 kMul a b) (\<lambda>w c'. has R inp c' w (x * y))"
  by (rule builds_push [where g = "FIn2Gate kMul a b (length (circ_gates c))"])
    (auto simp: Let_def addGate2_def isWireValid_def has_def wval_def)

lemma builds_add:
  "circuit_ok c \<Longrightarrow> has R inp c a x \<Longrightarrow> has R inp c b y \<Longrightarrow>
   builds c (addGate2 kAdd a b) (\<lambda>w c'. has R inp c' w (x + y))"
  by (rule builds_push [where g = "FIn2Gate kAdd a b (length (circ_gates c))"])
    (auto simp: Let_def addGate2_def isWireValid_def has_def wval_def)

lemma builds_sub:
  "circuit_ok c \<Longrightarrow> has R inp c a x \<Longrightarrow> has R inp c b y \<Longrightarrow>
   builds c (addGate2 kSub a b) (\<lambda>w c'. has R inp c' w (x - y))"
  by (rule builds_push [where g = "FIn2Gate kSub a b (length (circ_gates c))"])
    (auto simp: Let_def addGate2_def isWireValid_def has_def wval_def)

lemma builds_mul3:
  "circuit_ok c \<Longrightarrow> has R inp c a x \<Longrightarrow> has R inp c b y \<Longrightarrow> has R inp c d z \<Longrightarrow>
   builds c (addGate3 kMul3 a b d) (\<lambda>w c'. has R inp c' w (x * y * z))"
  by (rule builds_push [where g = "FIn3Gate kMul3 a b d (length (circ_gates c))"])
    (auto simp: Let_def addGate3_def isWireValid_def has_def wval_def)

lemma builds_mul4:
  "circuit_ok c \<Longrightarrow> has R inp c a x \<Longrightarrow> has R inp c b y \<Longrightarrow> has R inp c d z \<Longrightarrow> has R inp c e u \<Longrightarrow>
   builds c (addGate4 kMul4 a b d e) (\<lambda>w c'. has R inp c' w (x * y * z * u))"
  by (rule builds_push [where g = "FIn4Gate kMul4 a b d e (length (circ_gates c))"])
    (auto simp: Let_def addGate4_def isWireValid_def has_def wval_def)

lemma builds_constAdd:
  "circuit_ok c \<Longrightarrow> has R inp c a x \<Longrightarrow>
   builds c (addConstOpGate kConstAdd a k) (\<lambda>w c'. has R inp c' w (x + k))"
  by (rule builds_push [where g = "ConstOpGate kConstAdd a k (length (circ_gates c))"])
    (auto simp: Let_def addConstOpGate_def isWireValid_def has_def wval_def)

lemma builds_constMul:
  "circuit_ok c \<Longrightarrow> has R inp c a x \<Longrightarrow>
   builds c (addConstOpGate kConstMul a k) (\<lambda>w c'. has R inp c' w (x * k))"
  by (rule builds_push [where g = "ConstOpGate kConstMul a k (length (circ_gates c))"])
    (auto simp: Let_def addConstOpGate_def isWireValid_def has_def wval_def)

lemma builds_dotprod:
  assumes "circuit_ok c" "length as = length bs"
    "\<And>i. i < length as \<Longrightarrow> has R inp c (as ! i) (x i)" "\<And>i. i < length as \<Longrightarrow> has R inp c (bs ! i) (y i)"
  shows "builds c (addGateV kDotprod as bs) (\<lambda>w c'. has R inp c' w (\<Sum>i\<leftarrow>[0..<length as]. x i * y i))"
proof (rule builds_push [OF _ assms(1)])
  have v: "as ! i < length (circ_gates c)" "bs ! i < length (circ_gates c)" if "i < length as" for i
    using assms(3,4) that by (auto simp: has_def)
  show "addGateV kDotprod as bs c =
      Inr (length (circ_gates c), push_gate (SIMDGate kDotprod as bs (length (circ_gates c))) c)"
    using assms(2) v by (auto simp: addGateV_def isWireValid_def Let_def)
  show "\<forall>w\<in>set (gins (SIMDGate kDotprod as bs (length (circ_gates c)))). w < length (circ_gates c)"
    using assms(2) v by (auto simp: in_set_conv_nth)
  show "gate_val R inp (wire_vals R inp (circ_gates c)) (SIMDGate kDotprod as bs (length (circ_gates c))) =
      (\<Sum>i\<leftarrow>[0..<length as]. x i * y i)"
    using assms(3,4) by (auto simp: dotp_def has_def wval_def intro!: arg_cong [where f = sum_list])
qed (use assms(2) in auto)

text \<open>
  The last phase of a generator marks outputs: \<open>ends c m Q\<close> says that \<open>m\<close> returns a well-formed
  circuit satisfying \<open>Q\<close>.
\<close>

definition ends :: "'r Circuit \<Rightarrow> ('r, unit) builder \<Rightarrow> ('r Circuit \<Rightarrow> bool) \<Rightarrow> bool" where
  "ends c m Q \<longleftrightarrow> (\<exists>c'. m c = Inr ((), c') \<and> circuit_ok c' \<and> Q c')"

lemma ends_bind:
  assumes "builds c m P" and "\<And>x c'. extends c c' \<Longrightarrow> P x c' \<Longrightarrow> ends c' (k x) Q"
  shows "ends c (bindB m k) Q"
proof -
  from assms(1) obtain x c' where m: "m c = Inr (x, c')" "extends c c'" "P x c'" by (rule buildsE)
  from assms(2) [OF m(2,3)] m(1) show ?thesis by (auto simp: ends_def bindB_def)
qed

lemma has_outputs [simp]: "has R inp (c\<lparr>circ_outputs := x\<rparr>) w v = has R inp c w v"
  by (simp add: has_def wval_def)

lemma ends_output:
  assumes "circuit_ok c" "has R inp c w v" "Q (c\<lparr>circ_outputs := circ_outputs c @ [w]\<rparr>)"
  shows "ends c (outputB w) Q"
  using assms circuit_ok_setAsOutput [OF assms(1), of w]
  by (auto simp: ends_def outputB_def setAsOutput_def isWireValid_def has_def)

lemma runB_ends: "ends Circuit_new m Q \<Longrightarrow> \<exists>c. runB m = Inr c \<and> circuit_ok c \<and> Q c"
  by (auto simp: ends_def runB_def)

subsection \<open>The tree of four-way products\<close>

definition inputs_circuit :: "nat \<Rightarrow> 'r Circuit" where
  "inputs_circuit k = \<lparr>circ_outputs = [], circ_gates = map (Gate kInp) [0..<k]\<rparr>"

lemma inputs_circuit_ok: "circuit_ok (inputs_circuit k)"
  by (simp add: circuit_ok_def gates_ok_def inputs_circuit_def)

lemma inputs_of_circuit: "inputs_of (inputs_circuit k) = map (Gate kInp) [0..<k]"
  by (simp add: inputs_of_def inputs_circuit_def filter_id_conv)

lemma has_inputs_circuit: "w < k \<Longrightarrow> has R inp (inputs_circuit k) w (inp w)"
  using wire_vals_fix [of "map (Gate kInp) [0..<k]" w R inp] inputs_circuit_ok [of k]
  by (simp add: has_def wval_def inputs_circuit_def circuit_ok_def)

lemma inputsB_eq: "inputsB k (inputs_circuit n) = Inr ([n..<n + k], inputs_circuit (n + k))"
proof -
  have "forB (\<lambda>_ ws. bindB inputB (\<lambda>w. retB (ws @ [w]))) is ws (inputs_circuit m) =
      Inr (ws @ [m..<m + length is], inputs_circuit (m + length is))" for "is" :: "nat list" and ws m
  proof (induction "is" arbitrary: ws m)
    case Nil
    show ?case by (simp add: retB_def)
  next
    case (Cons i "is")
    have st: "bindB inputB (\<lambda>w. retB (ws @ [w])) (inputs_circuit m) = Inr (ws @ [m], inputs_circuit (Suc m))"
      by (simp add: bindB_def inputB_def newInputWire_def retB_def Let_def inputs_circuit_def push_gate_def)
    from Cons.IH [of "ws @ [m]" "Suc m"] show ?case
      by (simp add: bindB_Inr [where m = "bindB inputB (\<lambda>w. retB (ws @ [w]))" and c = "inputs_circuit m", OF st] upt_conv_Cons del: upt_Suc)
  qed
  from this [of "[0..<k]" "[]" n] show ?thesis by (simp add: inputsB_def)
qed

lemma Circuit_new_inputs: "Circuit_new = inputs_circuit 0"
  by (simp add: Circuit_new_def inputs_circuit_def)

text \<open>What a generator of a circuit with \<open>k\<close> inputs delivers.\<close>

definition inputs_first :: "nat \<Rightarrow> 'r Circuit \<Rightarrow> bool" where
  "inputs_first k c \<longleftrightarrow> inputs_of c = map (Gate kInp) [0..<k] \<and> prefix (map (Gate kInp) [0..<k]) (circ_gates c)"

lemma inputs_first_extends: "extends (inputs_circuit k) c \<Longrightarrow> inputs_first k c"
  by (simp add: extends_def inputs_first_def inputs_of_circuit) (simp add: inputs_circuit_def)

lemma inputs_first_outputs [simp]: "inputs_first k (c\<lparr>circ_outputs := x\<rparr>) = inputs_first k c"
  by (simp add: inputs_first_def inputs_of_def)

definition quad :: "(nat \<Rightarrow> 'r::comm_ring_1) \<Rightarrow> nat \<Rightarrow> 'r" where
  "quad v i = v (4 * i) * v (4 * i + 1) * v (4 * i + 2) * v (4 * i + 3)"

lemma prod_quad: "prod_list (map v [0..<4 * n]) = prod_list (map (quad v) [0..<n])"
proof (induction n)
  case (Suc n)
  have "[0..<4 * Suc n] = [0..<4 * n] @ [4 * n..<4 * n + 4]"
    using upt_add_eq_append [of 0 "4 * n" 4] by (simp add: add.commute)
  also have "[4 * n..<4 * n + 4] = [4 * n, 4 * n + 1, 4 * n + 2, 4 * n + 3]"
    by (simp add: upt_conv_Cons)
  finally have "[0..<4 * Suc n] = [0..<4 * n] @ [4 * n, 4 * n + 1, 4 * n + 2, 4 * n + 3]" .
  with Suc show ?case by (simp add: quad_def algebra_simps)
qed simp

lemma upt_split: "[a..<b] = dn @ i # rest \<Longrightarrow> i = a + length dn \<and> i < b"
proof -
  assume *: "[a..<b] = dn @ i # rest"
  then have "length dn < length [a..<b]" "[a..<b] ! length dn = i" by simp_all
  then show "i = a + length dn \<and> i < b" by simp
qed

lemma builds_multK_level:
  assumes "circuit_ok c" and "n = 64 div 4 ^ level" and leveli: "\<And>i. i < 4 * n \<Longrightarrow> has R inp c (leveli ! i) (v i)"
  shows "builds c (multK_level level leveli)
    (\<lambda>ws c'. length ws = n \<and> (\<forall>i<n. has R inp c' (ws ! i) (quad v i)))"
proof -
  let ?I = "\<lambda>dn ws c'. length ws = n \<and> (\<forall>i<length dn. has R inp c' (ws ! i) (quad v i))"
  have "builds c (multK_level level leveli) (?I [1..<Suc n])"
    unfolding multK_level_def assms(2) [symmetric]
  proof (rule builds_for [OF assms(1)])
    fix dn j rest ws c'
    assume split: "[1..<Suc n] = dn @ j # rest" and c': "extends c c'" and I: "?I dn ws c'"
    have j: "j = Suc (length dn)" "j \<le> n" using upt_split [OF split] by simp_all
    have v: "has R inp c' (leveli ! i) (v i)" if "i < 4 * n" for i
      using leveli [OF that] c' by (rule has_extends)
    have ix: "4 * j - 4 = 4 * length dn" "4 * j - 3 = 4 * length dn + 1" "4 * j - 2 = 4 * length dn + 2"
      "4 * j - 1 = 4 * length dn + 3" "j - 1 = length dn" using j by simp_all
    have m4: "builds c' (addGate4 kMul4 (leveli ! (4 * j - 4)) (leveli ! (4 * j - 3)) (leveli ! (4 * j - 2)) (leveli ! (4 * j - 1)))
        (\<lambda>w c''. has R inp c'' w (quad v (length dn)))"
      unfolding quad_def ix by (rule builds_mul4 [OF extends_ok [OF c']]) (use j v in auto)
    show "builds c' (bindB (addGate4 kMul4 (leveli ! (4 * j - 4)) (leveli ! (4 * j - 3)) (leveli ! (4 * j - 2))
        (leveli ! (4 * j - 1))) (\<lambda>w. retB (ws[j - 1 := w]))) (?I (dn @ [j]))"
    proof (rule builds_bind [OF m4])
      fix w c'' assume "extends c' c''" "has R inp c'' w (quad v (length dn))"
      with I j show "builds c'' (retB (ws[j - 1 := w])) (?I (dn @ [j]))"
        by (intro builds_ret) (auto simp: ix nth_list_update less_Suc_eq intro: has_extends extends_ok)
    qed
  qed simp
  then show ?thesis by (simp del: upt_Suc)
qed

text \<open>
  \<open>generateMultK\<close> never throws, and its circuit has 64 inputs and one output, whose value is the
  product of the inputs.
\<close>

lemma builds_multK_levels:
  "builds (inputs_circuit 64) (forB multK_level [1..<Suc 3] [0..<64])
    (\<lambda>ws c. has R inp c (ws ! 0) (prod_list (map inp [0..<64])))"
proof -
  have levels: "[1..<Suc 3] = [1, 2, 3]" by (simp add: upt_rec)
  have v0: "has R inp (inputs_circuit 64) ([0..<64] ! i) (inp i)" if "i < 4 * 16" for i
    using that by (simp add: has_inputs_circuit)
  have prod: "quad (quad (quad inp)) 0 = prod_list (map inp [0..<64])"
    using prod_quad [of inp 16] prod_quad [of "quad inp" 4] prod_quad [of "quad (quad inp)" 1] by simp
  show ?thesis
    unfolding levels forB.simps
  proof (rule builds_bind [OF builds_multK_level [OF inputs_circuit_ok, of 16, OF _ v0]])
    fix ws2 c2 assume c2: "extends (inputs_circuit 64) c2" and "length ws2 = 16 \<and> (\<forall>i<16. has R inp c2 (ws2 ! i) (quad inp i))"
    then have v1: "has R inp c2 (ws2 ! i) (quad inp i)" if "i < 4 * 4" for i using that by simp
    show "builds c2 (bindB (multK_level 2 ws2) (\<lambda>s. bindB (multK_level 3 s) retB))
        (\<lambda>ws c'. has R inp c' (ws ! 0) (prod_list (map inp [0..<64])))"
    proof (rule builds_bind [OF builds_multK_level [OF extends_ok [OF c2], of 4, OF _ v1]])
      fix ws3 c3 assume c3: "extends c2 c3" and "length ws3 = 4 \<and> (\<forall>i<4. has R inp c3 (ws3 ! i) (quad (quad inp) i))"
      then have v2: "has R inp c3 (ws3 ! i) (quad (quad inp) i)" if "i < 4 * 1" for i using that by simp
      show "builds c3 (bindB (multK_level 3 ws3) retB) (\<lambda>ws c'. has R inp c' (ws ! 0) (prod_list (map inp [0..<64])))"
        by (rule builds_bind [OF builds_multK_level [OF extends_ok [OF c3], of 1, OF _ v2]])
          (auto intro!: builds_ret extends_ok simp: prod)
    qed simp_all
  qed simp_all
qed

lemma generateMultK_exists:
  "\<exists>c. generateMultK = Inr c \<and> circuit_ok c \<and> inputs_first 64 c \<and>
    (\<exists>w. circ_outputs c = [w] \<and> wval R inp c w = prod_list (map inp [0..<64]))"
proof -
  have "ends (inputs_circuit 64) (bindB (forB multK_level [1..<Suc 3] [0..<64]) (\<lambda>leveli. outputB (leveli ! 0)))
      (\<lambda>c. inputs_first 64 c \<and> (\<exists>w. circ_outputs c = [w] \<and> wval R inp c w = prod_list (map inp [0..<64])))"
  proof (rule ends_bind [OF builds_multK_levels])
    fix ws c assume c: "extends (inputs_circuit 64) c" and w: "has R inp c (ws ! 0) (prod_list (map inp [0..<64]))"
    show "ends c (outputB (ws ! 0)) (\<lambda>c. inputs_first 64 c \<and>
        (\<exists>w. circ_outputs c = [w] \<and> wval R inp c w = prod_list (map inp [0..<64])))"
    proof (rule ends_output [OF extends_ok [OF c] w])
      have "circ_outputs c = []" using c by (simp add: extends_def inputs_circuit_def)
      then show "inputs_first 64 (c\<lparr>circ_outputs := circ_outputs c @ [ws ! 0]\<rparr>) \<and>
          (\<exists>wa. circ_outputs (c\<lparr>circ_outputs := circ_outputs c @ [ws ! 0]\<rparr>) = [wa] \<and>
            wval R inp (c\<lparr>circ_outputs := circ_outputs c @ [ws ! 0]\<rparr>) wa = prod_list (map inp [0..<64]))"
        using w inputs_first_extends [OF c] by (simp add: has_def) (simp add: wval_def)
    qed
  qed
  then show ?thesis
    by (auto simp: generateMultK_def runB_def ends_def Circuit_new_inputs bindB_def inputsB_eq [of 64 0, simplified])
qed

lemma generateMultK_ok:
  obtains c :: "'a::comm_ring_1 Circuit" and w where "generateMultK = Inr c" "circuit_ok c" "inputs_first 64 c"
    "circ_outputs c = [w]" "\<And>R inp. wval R inp c w = prod_list (map inp [0..<64])"
proof -
  obtain c w where c: "generateMultK = Inr (c :: 'a Circuit)" "circuit_ok c" "inputs_first 64 c" "circ_outputs c = [w]"
    using generateMultK_exists by blast
  moreover have "wval R inp c w = prod_list (map inp [0..<64])" for R :: "'a ringops" and inp
  proof -
    obtain c' w' where c': "generateMultK = Inr (c' :: 'a Circuit)" "circ_outputs c' = [w']"
      "wval R inp c' w' = prod_list (map inp [0..<64])"
      using generateMultK_exists [of R inp] by blast
    have "c' = c" using trans [OF c'(1) [symmetric] c(1)] by (rule Inr_inject)
    with c c' show ?thesis by simp
  qed
  ultimately show thesis by (rule that)
qed


subsection \<open>The parallel prefix tree\<close>

text \<open>
  After level \<open>L\<close> entry \<open>m\<close> is the product of the inputs from the start of its block of \<open>4^L\<close>
  up to \<open>m\<close>.
\<close>

definition block_prod :: "(nat \<Rightarrow> 'r::comm_ring_1) \<Rightarrow> nat \<Rightarrow> nat \<Rightarrow> 'r" where
  "block_prod x L m = prod_list (map x [m div 4 ^ L * 4 ^ L..<Suc m])"

lemma block_prod_0 [simp]: "block_prod x 0 m = x m"
  by (simp add: block_prod_def)

lemma block_prod_at:
  assumes "t < 4" "i < 4 ^ L"
  shows "block_prod x L (g * 4 ^ Suc L + t * 4 ^ L + i) =
      prod_list (map x [g * 4 ^ Suc L + t * 4 ^ L..<g * 4 ^ Suc L + t * 4 ^ L + Suc i])"
    and "block_prod x (Suc L) (g * 4 ^ Suc L + t * 4 ^ L + i) =
      prod_list (map x [g * 4 ^ Suc L..<g * 4 ^ Suc L + t * 4 ^ L + Suc i])"
proof -
  let ?m = "g * 4 ^ Suc L + t * 4 ^ L + i"
  have m: "?m = (4 * g + t) * 4 ^ L + i" by (simp add: algebra_simps)
  have d1: "?m div 4 ^ L = 4 * g + t" unfolding m using assms(2) by simp
  have "4 ^ Suc L = 4 ^ L * (4 :: nat)" by simp
  then have "?m div 4 ^ Suc L = ?m div 4 ^ L div 4" by (simp only: div_mult2_eq)
  with d1 assms(1) have d2: "?m div 4 ^ Suc L = g" by simp
  show "block_prod x L ?m = prod_list (map x [g * 4 ^ Suc L + t * 4 ^ L..<g * 4 ^ Suc L + t * 4 ^ L + Suc i])"
    unfolding block_prod_def d1 by (simp add: algebra_simps del: upt_Suc)
  show "block_prod x (Suc L) ?m = prod_list (map x [g * 4 ^ Suc L..<g * 4 ^ Suc L + t * 4 ^ L + Suc i])"
    unfolding block_prod_def d2 by (simp del: upt_Suc power_Suc)
qed

lemma prod_upt_split:
  "a \<le> b \<Longrightarrow> b \<le> c \<Longrightarrow> prod_list (map x [a..<c]) = prod_list (map x [a..<b]) * prod_list (map (x :: nat \<Rightarrow> 'r::comm_ring_1) [b..<c])"
  by (metis le_Suc_ex map_append prod_list.append upt_add_eq_append)

text \<open>The four gates of a group extend the prefix products to the larger block.\<close>

lemma block_prod_step:
  fixes x :: "nat \<Rightarrow> 'r::comm_ring_1" and g :: nat
  assumes "i < 4 ^ L"
  defines "b \<equiv> g * 4 ^ Suc L" and "P \<equiv> (4::nat) ^ L"
  shows "block_prod x (Suc L) (b + i) = block_prod x L (b + i)"
    "block_prod x (Suc L) (b + P + i) = block_prod x L (b + P - 1) * block_prod x L (b + P + i)"
    "block_prod x (Suc L) (b + 2 * P + i) =
      block_prod x L (b + P - 1) * block_prod x L (b + 2 * P - 1) * block_prod x L (b + 2 * P + i)"
    "block_prod x (Suc L) (b + 3 * P + i) =
      block_prod x L (b + P - 1) * block_prod x L (b + 2 * P - 1) * block_prod x L (b + 3 * P - 1) *
      block_prod x L (b + 3 * P + i)"
proof -
  have P: "0 < P" by (simp add: P_def)
  have at: "block_prod x L (b + t * P + k) = prod_list (map x [b + t * P..<b + t * P + Suc k])"
    "block_prod x (Suc L) (b + t * P + k) = prod_list (map x [b..<b + t * P + Suc k])" if "t < 4" "k < P" for t k
    using block_prod_at [of t k L x g] that by (simp_all add: b_def P_def del: power_Suc upt_Suc)
  have i: "i < P" using assms by (simp add: P_def)
  have last: "block_prod x L (b + t * P + P - 1) = prod_list (map x [b + t * P..<b + t * P + P])" if "t < 4" for t
    using at(1) [OF that, of "P - 1"] P by simp
  show "block_prod x (Suc L) (b + i) = block_prod x L (b + i)"
    using at [of 0 i] i by simp
  have q: "block_prod x L (b + P - 1) = prod_list (map x [b..<b + P])" using last [of 0] by simp
  have r: "block_prod x L (b + 2 * P - 1) = prod_list (map x [b + P..<b + 2 * P])"
    using last [of 1] by (simp add: add.assoc flip: mult_2)
  have s: "block_prod x L (b + 3 * P - 1) = prod_list (map x [b + 2 * P..<b + 3 * P])"
    using last [of 2] by (simp add: algebra_simps)
  show "block_prod x (Suc L) (b + P + i) = block_prod x L (b + P - 1) * block_prod x L (b + P + i)"
    using at [of 1 i] i prod_upt_split [of b "b + P" "b + P + Suc i" x] by (simp add: q del: upt_Suc One_nat_def)
  show "block_prod x (Suc L) (b + 2 * P + i) =
      block_prod x L (b + P - 1) * block_prod x L (b + 2 * P - 1) * block_prod x L (b + 2 * P + i)"
    using at [of 2 i] i prod_upt_split [of b "b + P" "b + 2 * P + Suc i" x]
      prod_upt_split [of "b + P" "b + 2 * P" "b + 2 * P + Suc i" x]
    by (simp add: q r mult.assoc del: upt_Suc One_nat_def)
  show "block_prod x (Suc L) (b + 3 * P + i) =
      block_prod x L (b + P - 1) * block_prod x L (b + 2 * P - 1) * block_prod x L (b + 3 * P - 1) *
      block_prod x L (b + 3 * P + i)"
    using at [of 3 i] i prod_upt_split [of b "b + P" "b + 3 * P + Suc i" x]
      prod_upt_split [of "b + P" "b + 2 * P" "b + 3 * P + Suc i" x]
      prod_upt_split [of "b + 2 * P" "b + 3 * P" "b + 3 * P + Suc i" x]
    by (simp add: q r s mult.assoc del: upt_Suc One_nat_def)
qed

text \<open>One step of a level, for the entries \<open>D\<close> already filled in.\<close>

definition filled ::
  "'r::comm_ring_1 ringops \<Rightarrow> (wire_t \<Rightarrow> 'r) \<Rightarrow> nat \<Rightarrow> (nat \<Rightarrow> 'r) \<Rightarrow> nat set \<Rightarrow> wire_t list \<Rightarrow> 'r Circuit \<Rightarrow> bool" where
  "filled R inp n tgt D ws c \<longleftrightarrow> length ws = n \<and> (\<forall>m\<in>D. m < n \<longrightarrow> has R inp c (ws ! m) (tgt m))"

lemma filled_extends: "filled R inp n tgt D ws c \<Longrightarrow> extends c c' \<Longrightarrow> filled R inp n tgt D ws c'"
  by (auto simp: filled_def intro: has_extends)

lemma filled_update:
  "filled R inp n tgt D ws c \<Longrightarrow> has R inp c w (tgt k) \<Longrightarrow> filled R inp n tgt (insert k D) (ws[k := w]) c"
  by (cases "k < length ws") (auto simp: filled_def nth_list_update list_update_beyond)

definition group_cells :: "nat \<Rightarrow> nat \<times> nat \<Rightarrow> nat set" where
  "group_cells L = (\<lambda>(j, i). {(j - 1) * 4 ^ Suc L + i, (j - 1) * 4 ^ Suc L + 4 ^ L + i,
     (j - 1) * 4 ^ Suc L + 2 * 4 ^ L + i, (j - 1) * 4 ^ Suc L + 3 * 4 ^ L + i})"

lemma builds_prefix_step:
  assumes c: "circuit_ok c" and i: "i < 4 ^ L" and j: "1 \<le> j" "j * 4 ^ Suc L \<le> n"
    and lev: "\<And>m. m < n \<Longrightarrow> has R inp c (leveli ! m) (block_prod x L m)"
    and ws: "filled R inp n (block_prod x (Suc L)) D ws c"
  shows "builds c (prefix_step (Suc L) leveli (j, i) ws)
    (\<lambda>ws' c'. filled R inp n (block_prod x (Suc L)) (D \<union> group_cells L (j, i)) ws' c')"
proof -
  let ?b = "(j - 1) * 4 ^ Suc L" and ?P = "(4::nat) ^ L"
  have "?b + 4 * ?P \<le> n" using j by (cases j) (simp_all add: algebra_simps)
  then have lt: "?b + i < n" "?b + ?P + i < n" "?b + 2 * ?P + i < n" "?b + 3 * ?P + i < n"
      "?b + ?P - 1 < n" "?b + 2 * ?P - 1 < n" "?b + 3 * ?P - 1 < n"
    using i by (simp_all del: power_Suc)
  note st = block_prod_step [OF i, of x "j - 1"]
  have l: "has R inp c' (leveli ! m) (block_prod x L m)" if "extends c c'" "m < n" for c' m
    using lev [OF that(2)] that(1) by (rule has_extends)
  show ?thesis
    unfolding prefix_step_def Let_def prod.case diff_Suc_1
  proof (rule builds_bind [OF builds_constAdd [OF c lev [OF lt(1)]]])
    fix w1 c1 assume c1: "extends c c1" and "has R inp c1 w1 (block_prod x L (?b + i) + 0)"
    then have w1: "has R inp c1 w1 (block_prod x (Suc L) (?b + i))" by (simp add: st del: power_Suc One_nat_def)
    note ok = extends_ok [OF c1]
    show "builds c1 (bindB (addGate2 kMul (leveli ! (?b + ?P - 1)) (leveli ! (?b + ?P + i))) (\<lambda>w2.
        bindB (addGate3 kMul3 (leveli ! (?b + ?P - 1)) (leveli ! (?b + 2 * ?P - 1)) (leveli ! (?b + 2 * ?P + i))) (\<lambda>w3.
        bindB (addGate4 kMul4 (leveli ! (?b + ?P - 1)) (leveli ! (?b + 2 * ?P - 1)) (leveli ! (?b + 3 * ?P - 1)) (leveli ! (?b + 3 * ?P + i)))
          (\<lambda>w4. retB (ws[?b + i := w1, ?b + ?P + i := w2, ?b + 2 * ?P + i := w3, ?b + 3 * ?P + i := w4])))))
      (\<lambda>ws' c'. filled R inp n (block_prod x (Suc L)) (D \<union> group_cells L (j, i)) ws' c')"
    proof (rule builds_bind [OF builds_mul2 [OF ok l [OF c1 lt(5)] l [OF c1 lt(2)]]])
      fix w2 c2 assume c2: "extends c1 c2" and w2: "has R inp c2 w2 (block_prod x L (?b + ?P - 1) * block_prod x L (?b + ?P + i))"
      note ok = extends_ok [OF c2] and e2 = extends_trans [OF c1 c2]
      show "builds c2 (bindB (addGate3 kMul3 (leveli ! (?b + ?P - 1)) (leveli ! (?b + 2 * ?P - 1)) (leveli ! (?b + 2 * ?P + i))) (\<lambda>w3.
        bindB (addGate4 kMul4 (leveli ! (?b + ?P - 1)) (leveli ! (?b + 2 * ?P - 1)) (leveli ! (?b + 3 * ?P - 1)) (leveli ! (?b + 3 * ?P + i)))
          (\<lambda>w4. retB (ws[?b + i := w1, ?b + ?P + i := w2, ?b + 2 * ?P + i := w3, ?b + 3 * ?P + i := w4]))))
        (\<lambda>ws' c'. filled R inp n (block_prod x (Suc L)) (D \<union> group_cells L (j, i)) ws' c')"
      proof (rule builds_bind [OF builds_mul3 [OF ok l [OF e2 lt(5)] l [OF e2 lt(6)] l [OF e2 lt(3)]]])
        fix w3 c3 assume c3: "extends c2 c3" and w3: "has R inp c3 w3 (block_prod x L (?b + ?P - 1) *
            block_prod x L (?b + 2 * ?P - 1) * block_prod x L (?b + 2 * ?P + i))"
        note ok = extends_ok [OF c3] and e3 = extends_trans [OF e2 c3]
        show "builds c3 (bindB (addGate4 kMul4 (leveli ! (?b + ?P - 1)) (leveli ! (?b + 2 * ?P - 1)) (leveli ! (?b + 3 * ?P - 1)) (leveli ! (?b + 3 * ?P + i)))
            (\<lambda>w4. retB (ws[?b + i := w1, ?b + ?P + i := w2, ?b + 2 * ?P + i := w3, ?b + 3 * ?P + i := w4])))
          (\<lambda>ws' c'. filled R inp n (block_prod x (Suc L)) (D \<union> group_cells L (j, i)) ws' c')"
        proof (rule builds_bind [OF builds_mul4 [OF ok l [OF e3 lt(5)] l [OF e3 lt(6)] l [OF e3 lt(7)] l [OF e3 lt(4)]]])
          fix w4 c4 assume c4: "extends c3 c4" and w4: "has R inp c4 w4 (block_prod x L (?b + ?P - 1) *
            block_prod x L (?b + 2 * ?P - 1) * block_prod x L (?b + 3 * ?P - 1) * block_prod x L (?b + 3 * ?P + i))"
          have h: "has R inp c4 w1 (block_prod x (Suc L) (?b + i))" "has R inp c4 w2 (block_prod x (Suc L) (?b + ?P + i))"
            "has R inp c4 w3 (block_prod x (Suc L) (?b + 2 * ?P + i))" "has R inp c4 w4 (block_prod x (Suc L) (?b + 3 * ?P + i))"
            using has_extends [OF w1 extends_trans [OF c2 extends_trans [OF c3 c4]]]
              has_extends [OF w2 extends_trans [OF c3 c4]] has_extends [OF w3 c4] w4
            by (simp_all only: st)
          have f: "filled R inp n (block_prod x (Suc L)) D ws c4"
            by (rule filled_extends [OF ws extends_trans [OF e3 c4]])
          have eq: "insert (?b + 3 * ?P + i) (insert (?b + 2 * ?P + i) (insert (?b + ?P + i) (insert (?b + i) D))) =
              D \<union> group_cells L (j, i)"
            by (auto simp: group_cells_def)
          show "builds c4 (retB (ws[?b + i := w1, ?b + ?P + i := w2, ?b + 2 * ?P + i := w3, ?b + 3 * ?P + i := w4]))
            (\<lambda>ws' c'. filled R inp n (block_prod x (Suc L)) (D \<union> group_cells L (j, i)) ws' c')"
            unfolding eq [symmetric]
            by (rule builds_ret [OF extends_ok [OF c4]]) (intro filled_update f h)
        qed
      qed
    qed
  qed
qed


lemma group_cells_cover:
  assumes "4 ^ Suc L dvd n" "m < n"
  shows "\<exists>p\<in>set [(j, i). j \<leftarrow> [1..<Suc (n div 4 ^ Suc L)], i \<leftarrow> [0..<4 ^ L]]. m \<in> group_cells L p"
proof -
  let ?g = "m div 4 ^ Suc L" and ?i = "m mod 4 ^ L" and ?t = "m div 4 ^ L mod 4"
  have S: "4 ^ Suc L = 4 ^ L * (4 :: nat)" by simp
  have g: "m div 4 ^ L div 4 = ?g" unfolding S by (simp only: div_mult2_eq)
  have "m = m div 4 ^ L * 4 ^ L + ?i" by (rule div_mult_mod_eq [symmetric])
  also have "m div 4 ^ L = ?g * 4 + ?t" using div_mult_mod_eq [of "m div 4 ^ L" 4] by (simp only: g)
  finally have m: "m = ?g * 4 ^ Suc L + ?t * 4 ^ L + ?i" by (simp only: S algebra_simps)
  have "?t < 4" by simp
  then have "?t = 0 \<or> ?t = 1 \<or> ?t = 2 \<or> ?t = 3" by arith
  then have "m \<in> group_cells L (Suc ?g, ?i)"
    using m by (auto simp: group_cells_def simp del: power_Suc)
  moreover have "?g < n div 4 ^ Suc L"
    using assms by (auto elim!: dvdE simp: div_less_iff_less_mult mult.commute simp del: power_Suc)
  moreover have "(Suc ?g, ?i) \<in> set [(j, i). j \<leftarrow> [1..<Suc k], i \<leftarrow> [0..<4 ^ L]]" if "?g < k" for k
    using that by (auto simp del: upt_Suc power_Suc intro!: bexI [of _ "Suc ?g"] imageI)
  ultimately show ?thesis by blast
qed

lemma builds_prefix_level:
  assumes c: "circuit_ok c" and dv: "4 ^ Suc L dvd n"
    and lev: "\<And>m. m < n \<Longrightarrow> has R inp c (leveli ! m) (block_prod x L m)"
  shows "builds c (prefix_level n (Suc L) leveli)
    (\<lambda>ws c'. \<forall>m<n. has R inp c' (ws ! m) (block_prod x (Suc L) m))"
proof -
  let ?ps = "[(j, i). j \<leftarrow> [1..<Suc (n div 4 ^ Suc L)], i \<leftarrow> [0..<4 ^ L]]"
  let ?I = "\<lambda>dn ws c'. filled R inp n (block_prod x (Suc L)) (\<Union>p\<in>set dn. group_cells L p) ws c'"
  have "builds c (prefix_level n (Suc L) leveli) (?I ?ps)"
    unfolding prefix_level_def diff_Suc_1
  proof (rule builds_for [OF c])
    show "?I [] (replicate n 0) c" by (simp add: filled_def)
    fix dn p rest ws c'
    assume split: "?ps = dn @ p # rest" and c': "extends c c'" and I: "?I dn ws c'"
    obtain j i where p: "p = (j, i)" by fastforce
    have "p \<in> set ?ps" unfolding split by simp
    then have ji: "1 \<le> j" "j \<le> n div 4 ^ Suc L" "i < 4 ^ L" by (auto simp: p simp del: power_Suc upt_Suc)
    then have "j * 4 ^ Suc L \<le> n"
      by (metis div_times_less_eq_dividend le_trans mult_le_mono1)
    then show "builds c' (prefix_step (Suc L) leveli p ws) (?I (dn @ [p]))"
      using builds_prefix_step [OF extends_ok [OF c'] ji(3,1) _ _ I] lev c'
      by (auto simp: p Un_commute intro: has_extends simp del: power_Suc)
  qed
  then show ?thesis
    by (rule builds_weaken) (use group_cells_cover [OF dv] in \<open>auto simp: filled_def simp del: power_Suc upt_Suc\<close>)
qed

text \<open>Three levels give the prefix products of each block of 64.\<close>

lemma builds_prefix_levels:
  assumes c: "circuit_ok c" and dv: "64 dvd n" and lev: "\<And>m. m < n \<Longrightarrow> has R inp c (ws ! m) (x m)"
  shows "builds c (forB (prefix_level n) [1..<Suc 3] ws) (\<lambda>ws c'. \<forall>m<n. has R inp c' (ws ! m) (block_prod x 3 m))"
proof -
  have levels: "[1..<Suc 3] = [Suc 0, Suc 1, Suc 2]" by (simp add: upt_rec)
  have dvds: "4 ^ Suc 0 dvd n" "4 ^ Suc 1 dvd n" "4 ^ Suc 2 dvd n"
    using dv by (auto elim!: dvdE)
  show ?thesis
    unfolding levels forB.simps
  proof (rule builds_bind [OF builds_prefix_level [OF c dvds(1), of R inp ws x]])
    show "has R inp c (ws ! m) (block_prod x 0 m)" if "m < n" for m using lev [OF that] by simp
    fix ws1 c1 assume c1: "extends c c1" and "\<forall>m<n. has R inp c1 (ws1 ! m) (block_prod x (Suc 0) m)"
    then have h: "has R inp c1 (ws1 ! m) (block_prod x 1 m)" if "m < n" for m using that by simp
    show "builds c1 (bindB (prefix_level n (Suc 1) ws1) (\<lambda>s. bindB (prefix_level n (Suc 2) s) retB))
        (\<lambda>ws c'. \<forall>m<n. has R inp c' (ws ! m) (block_prod x 3 m))"
    proof (rule builds_bind [OF builds_prefix_level [OF extends_ok [OF c1] dvds(2) h]], assumption)
      fix ws2 c2 assume c2: "extends c1 c2" and "\<forall>m<n. has R inp c2 (ws2 ! m) (block_prod x (Suc 1) m)"
      then have h: "has R inp c2 (ws2 ! m) (block_prod x 2 m)" if "m < n" for m
        using that by (simp add: numeral_2_eq_2)
      show "builds c2 (bindB (prefix_level n (Suc 2) ws2) retB) (\<lambda>ws c'. \<forall>m<n. has R inp c' (ws ! m) (block_prod x 3 m))"
        by (rule builds_bind [OF builds_prefix_level [OF extends_ok [OF c2] dvds(3) h]], assumption)
          (auto intro!: builds_ret extends_ok simp: numeral_3_eq_3)
    qed
  qed
qed

text \<open>A loop that appends one wire per element.\<close>

lemma builds_append_loop:
  assumes c: "circuit_ok c"
    and f: "\<And>k c'. k < length is \<Longrightarrow> extends c c' \<Longrightarrow> builds c' (f (is ! k)) (\<lambda>w c''. has R inp c'' w (v k))"
  shows "builds c (forB (\<lambda>i ws. bindB (f i) (\<lambda>w. retB (ws @ [w]))) is [])
    (\<lambda>ws c'. length ws = length is \<and> (\<forall>k<length is. has R inp c' (ws ! k) (v k)))"
proof (rule builds_for [OF c, where I = "\<lambda>dn ws c'. length ws = length dn \<and> (\<forall>k<length dn. has R inp c' (ws ! k) (v k))"])
  fix dn i rest ws c'
  assume split: "is = dn @ i # rest" and c': "extends c c'"
    and I: "length ws = length dn \<and> (\<forall>k<length dn. has R inp c' (ws ! k) (v k))"
  have "builds c' (f i) (\<lambda>w c''. has R inp c'' w (v (length dn)))"
    using f [of "length dn" c'] c' by (simp add: split)
  then show "builds c' (bindB (f i) (\<lambda>w. retB (ws @ [w])))
      (\<lambda>ws c'. length ws = length (dn @ [i]) \<and> (\<forall>k<length (dn @ [i]). has R inp c' (ws ! k) (v k)))"
  proof (rule builds_bind)
    fix w c'' assume e: "extends c' c''" and w: "has R inp c'' w (v (length dn))"
    have "has R inp c'' ((ws @ [w]) ! k) (v k)" if "k < length (dn @ [i])" for k
      using that I w has_extends [OF _ e] by (cases "k = length dn") (auto simp: nth_append)
    then show "builds c'' (retB (ws @ [w]))
        (\<lambda>ws c'. length ws = length (dn @ [i]) \<and> (\<forall>k<length (dn @ [i]). has R inp c' (ws ! k) (v k)))"
      using I by (intro builds_ret extends_ok [OF e]) simp
  qed
qed simp

text \<open>The differences of neighbouring prefix products: the first position where a zero occurs.\<close>

definition step_val :: "(nat \<Rightarrow> 'r::comm_ring_1) \<Rightarrow> nat \<Rightarrow> 'r" where
  "step_val v m = (if m mod 64 = 0 then v m else v m + v (m - 1))"

lemma builds_diffs:
  assumes c: "circuit_ok c" and "i < n" and wv: "\<And>m. m < n * 64 \<Longrightarrow> has R inp c (wv ! m) (v m)"
  shows "builds c (prefixOR_diffs i wv)
    (\<lambda>ws c'. length ws = 64 \<and> (\<forall>k<64. has R inp c' (ws ! k) (step_val v (i * 64 + k))))"
proof -
  have lt: "i * 64 + k < n * 64" if "k < 64" for k
  proof -
    have "i * 64 + k < Suc i * 64" using that by simp
    also have "\<dots> \<le> n * 64" using assms(2) by (intro mult_le_mono1) simp
    finally show ?thesis .
  qed
  have "builds c (prefixOR_diffs i wv)
    (\<lambda>ws c'. length ws = length [0..<64] \<and> (\<forall>k<length [0..<64]. has R inp c' (ws ! k) (step_val v (i * 64 + k))))"
    unfolding prefixOR_diffs_def
  proof (rule builds_append_loop [OF c])
    fix k c' assume k: "k < length [0..<64]" and c': "extends c c'"
    have h: "has R inp c' (wv ! m) (v m)" if "m < n * 64" for m using wv [OF that] c' by (rule has_extends)
    show "builds c' (if [0..<64] ! k = 0 then addConstOpGate kConstAdd (wv ! (i * 64)) 0
        else addGate2 kAdd (wv ! (i * 64 + [0..<64] ! k)) (wv ! (i * 64 + ([0..<64] ! k - 1))))
      (\<lambda>w c''. has R inp c'' w (step_val v (i * 64 + k)))"
    proof (cases "k = 0")
      case True
      then show ?thesis
        using builds_constAdd [OF extends_ok [OF c'] h [OF lt [of 0]], of 0] by (simp add: step_val_def)
    next
      case False
      then have "step_val v (i * 64 + k) = v (i * 64 + k) + v (i * 64 + (k - 1))"
        using k by (simp add: step_val_def)
      moreover have "i * 64 + (k - 1) < n * 64" by (rule lt) (use k in simp)
      ultimately show ?thesis
        using False k lt builds_add [OF extends_ok [OF c'] h [of "i * 64 + k"] h [of "i * 64 + (k - 1)"]] by simp
    qed
  qed
  then show ?thesis by simp
qed

lemma builds_all_diffs:
  assumes c: "circuit_ok c" and wv: "\<And>m. m < n * 64 \<Longrightarrow> has R inp c (wv ! m) (v m)"
  shows "builds c (forB (\<lambda>i wz. bindB (prefixOR_diffs i wv) (\<lambda>ws. retB (wz @ ws))) [0..<n] [])
    (\<lambda>ws c'. length ws = n * 64 \<and> (\<forall>m<n * 64. has R inp c' (ws ! m) (step_val v m)))"
proof -
  let ?I = "\<lambda>dn ws c'. length ws = length dn * 64 \<and> (\<forall>m<length dn * 64. has R inp c' (ws ! m) (step_val v m))"
  have "builds c (forB (\<lambda>i wz. bindB (prefixOR_diffs i wv) (\<lambda>ws. retB (wz @ ws))) [0..<n] []) (?I [0..<n])"
  proof (rule builds_for [OF c])
    fix dn i rest ws c'
    assume split: "[0..<n] = dn @ i # rest" and c': "extends c c'" and I: "?I dn ws c'"
    have i: "i = length dn" "i < n" using upt_split [OF split] by simp_all
    show "builds c' (bindB (prefixOR_diffs i wv) (\<lambda>ws'. retB (ws @ ws'))) (?I (dn @ [i]))"
    proof (rule builds_bind [OF builds_diffs [OF extends_ok [OF c'] i(2)]])
      show "has R inp c' (wv ! m) (v m)" if "m < n * 64" for m using wv [OF that] c' by (rule has_extends)
      fix ws' c'' assume c'': "extends c' c''"
        and ws': "length ws' = 64 \<and> (\<forall>k<64. has R inp c'' (ws' ! k) (step_val v (i * 64 + k)))"
      have "has R inp c'' ((ws @ ws') ! m) (step_val v m)" if m: "m < length (dn @ [i]) * 64" for m
      proof (cases "m < length dn * 64")
        case True
        with I c'' show ?thesis by (auto simp: nth_append intro: has_extends)
      next
        case False
        with m have "m - length dn * 64 < 64" by simp
        with ws' False I i show ?thesis by (auto simp: nth_append)
      qed
      then show "builds c'' (retB (ws @ ws')) (?I (dn @ [i]))"
        using I ws' by (intro builds_ret extends_ok [OF c'']) auto
    qed
  qed simp
  then show ?thesis by simp
qed


text \<open>The value of the circuit of \<open>generateParaPrefixOR\<close>, for any ring.\<close>

definition prefixOR_val :: "nat \<Rightarrow> (wire_t \<Rightarrow> 'r::comm_ring_1) \<Rightarrow> 'r" where
  "prefixOR_val n inp =
     (\<Sum>k\<leftarrow>[0..<64 * n]. inp 0 * inp 0) +
     (\<Sum>m\<leftarrow>[0..<64 * n]. step_val (\<lambda>m. block_prod inp 3 m + 1) m * inp (n * 64 + m))"

lemma generateParaPrefixOR_exists:
  assumes "0 < n"
  shows "\<exists>c. generateParaPrefixOR n = Inr c \<and> circuit_ok c \<and> inputs_first (2 * (n * 64)) c \<and>
    (\<exists>w. circ_outputs c = [w] \<and> wval R inp c w = prefixOR_val n inp)"
proof -
  let ?N = "n * 64" and ?Z = "replicate (64 * n) (0::nat)"
  let ?c0 = "inputs_circuit (?N + ?N)" and ?v = "\<lambda>m. block_prod inp 3 m + 1"
  let ?Q = "\<lambda>c. inputs_first (2 * (n * 64)) c \<and> (\<exists>w. circ_outputs c = [w] \<and> wval R inp c w = prefixOR_val n inp)"
  have c0: "circuit_ok ?c0" by (rule inputs_circuit_ok)
  have inp: "has R inp ?c0 w (inp w)" if "w < ?N + ?N" for w using that by (rule has_inputs_circuit)
  have "ends ?c0
     (bindB (forB (prefix_level ?N) [1..<Suc 3] [0..<?N]) (\<lambda>leveli.
      bindB (forB (\<lambda>i wv. bindB (addConstOpGate kConstAdd (leveli ! i) 1) (\<lambda>w. retB (wv @ [w]))) [0..<?N] []) (\<lambda>wv.
      bindB (forB (\<lambda>i wz. bindB (prefixOR_diffs i wv) (\<lambda>ws. retB (wz @ ws))) [0..<n] []) (\<lambda>wz.
      bindB (addGateV kDotprod (?Z @ wz) (?Z @ [?N..<?N + ?N])) outputB)))) ?Q"
  proof (rule ends_bind [OF builds_prefix_levels [OF c0, where x = inp]])
    show "64 dvd ?N" by simp
    show "has R inp ?c0 ([0..<?N] ! m) (inp m)" if "m < ?N" for m using inp [of m] that by simp
    fix lv c1 assume c1: "extends ?c0 c1" and lv: "\<forall>m<?N. has R inp c1 (lv ! m) (block_prod inp 3 m)"
    have wvB: "builds c1 (forB (\<lambda>i wv. bindB (addConstOpGate kConstAdd (lv ! i) 1) (\<lambda>w. retB (wv @ [w]))) [0..<?N] [])
      (\<lambda>ws c'. length ws = length [0..<?N] \<and> (\<forall>k<length [0..<?N]. has R inp c' (ws ! k) (?v k)))"
      by (rule builds_append_loop [OF extends_ok [OF c1]])
        (use lv in \<open>auto intro!: builds_constAdd extends_ok intro: has_extends\<close>)
    show "ends c1
     (bindB (forB (\<lambda>i wv. bindB (addConstOpGate kConstAdd (lv ! i) 1) (\<lambda>w. retB (wv @ [w]))) [0..<?N] []) (\<lambda>wv.
      bindB (forB (\<lambda>i wz. bindB (prefixOR_diffs i wv) (\<lambda>ws. retB (wz @ ws))) [0..<n] []) (\<lambda>wz.
      bindB (addGateV kDotprod (?Z @ wz) (?Z @ [?N..<?N + ?N])) outputB))) ?Q"
    proof (rule ends_bind [OF wvB])
      fix wv c2 assume c2: "extends c1 c2" and wv: "length wv = length [0..<?N] \<and> (\<forall>k<length [0..<?N]. has R inp c2 (wv ! k) (?v k))"
      have h: "has R inp c2 (wv ! m) (?v m)" if "m < ?N" for m using wv that by simp
      show "ends c2 (bindB (forB (\<lambda>i wz. bindB (prefixOR_diffs i wv) (\<lambda>ws. retB (wz @ ws))) [0..<n] []) (\<lambda>wz.
        bindB (addGateV kDotprod (?Z @ wz) (?Z @ [?N..<?N + ?N])) outputB)) ?Q"
      proof (rule ends_bind [OF builds_all_diffs [OF extends_ok [OF c2], where R = R and inp = inp and v = ?v]])
        show "has R inp c2 (wv ! m) (?v m)" if "m < ?N" for m using h [OF that] .
        fix wz c3 assume c3: "extends c2 c3"
          and wz: "length wz = ?N \<and> (\<forall>m<?N. has R inp c3 (wz ! m) (step_val ?v m))"
        have e: "extends ?c0 c3" using c1 c2 c3 by (blast intro: extends_trans)
        let ?x = "\<lambda>i. if i < 64 * n then inp 0 else step_val ?v (i - 64 * n)"
        let ?y = "\<lambda>i. if i < 64 * n then inp 0 else inp (?N + (i - 64 * n))"
        have "builds c3 (addGateV kDotprod (?Z @ wz) (?Z @ [?N..<?N + ?N]))
          (\<lambda>w c'. has R inp c' w (\<Sum>i\<leftarrow>[0..<length (?Z @ wz)]. ?x i * ?y i))"
        proof (rule builds_dotprod [OF extends_ok [OF c3]])
          show "length (?Z @ wz) = length (?Z @ [?N..<?N + ?N])" using wz by simp
          fix i assume i: "i < length (?Z @ wz)"
          have 0: "has R inp c3 0 (inp 0)" using inp [of 0] assms e by (auto intro: has_extends)
          show "has R inp c3 ((?Z @ wz) ! i) (?x i)" using 0 i wz by (auto simp: nth_append)
          have "has R inp c3 (?N + (i - 64 * n)) (inp (?N + (i - 64 * n)))" if "\<not> i < 64 * n"
            using that i wz e by (intro has_extends [OF inp]) auto
          then show "has R inp c3 ((?Z @ [?N..<?N + ?N]) ! i) (?y i)" using 0 i wz by (auto simp: nth_append)
        qed
        moreover have "(\<Sum>i\<leftarrow>[0..<length (?Z @ wz)]. ?x i * ?y i) = prefixOR_val n inp"
        proof -
          have "[0..<length (?Z @ wz)] = [0..<64 * n] @ map (\<lambda>m. m + 64 * n) [0..<64 * n]"
            using wz upt_add_eq_append [of 0 "64 * n" "64 * n"] by (simp add: map_add_upt mult.commute)
          then show ?thesis
            by (simp add: prefixOR_val_def o_def) (auto intro!: arg_cong2 [where f = "(+)"] arg_cong [where f = sum_list])
        qed
        ultimately have D: "builds c3 (addGateV kDotprod (?Z @ wz) (?Z @ [?N..<?N + ?N]))
          (\<lambda>w c'. has R inp c' w (prefixOR_val n inp))" by simp
        show "ends c3 (bindB (addGateV kDotprod (?Z @ wz) (?Z @ [?N..<?N + ?N])) outputB) ?Q"
        proof (rule ends_bind [OF D])
          fix w c4 assume c4: "extends c3 c4" and w: "has R inp c4 w (prefixOR_val n inp)"
          have e4: "extends ?c0 c4" using e c4 by (rule extends_trans)
          then have "circ_outputs c4 = []" by (simp add: extends_def inputs_circuit_def)
          then have "circ_outputs (c4\<lparr>circ_outputs := circ_outputs c4 @ [w]\<rparr>) = [w]" by simp
          moreover have "wval R inp (c4\<lparr>circ_outputs := circ_outputs c4 @ [w]\<rparr>) w = prefixOR_val n inp"
            using w by (simp add: has_def wval_def)
          ultimately show "ends c4 (outputB w) ?Q"
            using inputs_first_extends [OF e4] by (intro ends_output [OF extends_ok [OF c4] w]) (simp add: mult_2)
        qed
      qed
    qed
  qed
  then show ?thesis
    by (auto simp: generateParaPrefixOR_def runB_def ends_def Circuit_new_inputs bindB_def
        inputsB_eq [of ?N 0, simplified] inputsB_eq [of ?N ?N])
qed

end
