(* ===== verification/Offline_Gates.thy ===== *)
theory Offline_Gates
  imports Preproc CircuitGen
begin

section \<open>Preprocessing the gates of a circuit\<close>

text \<open>
  The loop over levels and gates that \<open>setWireMasksParty\<close> and its nested boolean circuits have in
  common: an input gate takes what the caller provides for the next input, any other gate is
  preprocessed by the routines of \<open>Preproc\<close>. \<open>run_gates_dealt\<close> is the joint correctness of the
  loop: run by the dealer and all parties on the same gates, it leaves for every wire a dealt
  sharing of a mask, and for every multiplication dealt sharings of the mask products.
\<close>

definition run_gate ::
  "('p option list \<Rightarrow> 'r gate \<Rightarrow> 's \<Rightarrow> 'p option \<times> 's) \<Rightarrow> (nat \<Rightarrow> wire_t \<Rightarrow> 's \<Rightarrow> 'p \<times> 's) \<Rightarrow> 'r gate \<Rightarrow>
   'p option list \<times> nat \<times> 's \<Rightarrow> 'p option list \<times> nat \<times> 's" where
  "run_gate pre inp g = (\<lambda>(gs, ctr, s).
     if gtype g = kInp then
       let (pg, s) = inp ctr (gout g) s in (gs[gout g := Some pg], ctr + 1, s)
     else let (pg, s) = pre gs g s in (store_pre (gout g) pg gs, ctr, s))"

subsection \<open>Topological order\<close>

fun topo :: "wire_t set \<Rightarrow> 'r gate list \<Rightarrow> bool" where
  "topo D [] \<longleftrightarrow> True"
| "topo D (g # gs) \<longleftrightarrow> set (gins g) \<subseteq> D \<and> gout g \<notin> D \<and> gate_typed g \<and> topo (insert (gout g) D) gs"

lemma topo_level: "level_ok D0 D gs \<Longrightarrow> topo D gs"
  by (induction gs arbitrary: D) auto

lemma topo_append: "topo D (gs @ hs) \<longleftrightarrow> topo D gs \<and> topo (D \<union> gout ` set gs) hs"
  by (induction gs arbitrary: D) (auto simp: Un_commute)

lemma topo_levels: "levels_ok D ls \<Longrightarrow> topo D (concat ls)"
  by (induction ls arbitrary: D) (auto simp: topo_append topo_level)

lemma topo_fresh: "topo D gs \<Longrightarrow> D \<inter> gout ` set gs = {}"
  by (induction gs arbitrary: D) auto

lemma topo_gins: "topo D gs \<Longrightarrow> g \<in> set gs \<Longrightarrow> set (gins g) \<subseteq> D \<union> gout ` set gs"
  by (induction gs arbitrary: D) auto

lemma topo_mono_distinct: "topo D gs \<Longrightarrow> distinct (map gout gs)"
proof (induction gs arbitrary: D)
  case (Cons g gs)
  with topo_fresh [of "insert (gout g) D" gs] show ?case by auto
qed simp

lemma topo_orderGatesByLevel:
  "circuit_ok c \<Longrightarrow> topo {} (concat (gates_by_level (orderGatesByLevel c)))"
  by (rule topo_levels [OF orderGatesByLevel_levels_ok])

lemma set_orderGatesByLevel:
  assumes "circuit_ok c"
  shows "set (concat (gates_by_level (orderGatesByLevel c))) = set (circ_gates c)"
  using arg_cong [OF orderGatesByLevel_mset [OF assms], of set_mset] by simp

lemma gout_less: "circuit_ok c \<Longrightarrow> g \<in> set (circ_gates c) \<Longrightarrow> gout g < length (circ_gates c)"
  by (auto simp: circuit_ok_def in_set_conv_nth dest: gates_okD(1))

lemma fold_levels: "fold (fold f) ls s = fold f (concat ls) s"
  by (induction ls arbitrary: s) simp_all

lemma arith_ok_cong:
  assumes "\<And>w. w \<in> insert (gout g) (set (gins g)) \<Longrightarrow> \<delta> w = \<delta>' w" "gate_typed g"
  shows "arith_ok n kf \<delta> g pgs = arith_ok n kf \<delta>' g pgs"
proof (cases g)
  case (SIMDGate t as bs out)
  have "(\<Sum>i\<leftarrow>[0..<length as]. \<delta> (as ! i) * \<delta> (bs ! i)) = (\<Sum>i\<leftarrow>[0..<length as]. \<delta>' (as ! i) * \<delta>' (bs ! i))"
    using assms by (intro arg_cong [where f = sum_list]) (auto simp: SIMDGate)
  then show ?thesis by (simp only: SIMDGate arith_ok.simps)
qed (use assms in auto)

subsection \<open>The joint run\<close>

text \<open>
  \<open>gates_dealt n kf GP IP \<delta> gs ctr G\<close>: what a joint run leaves for the gates \<open>gs\<close>, of which the
  first input has number \<open>ctr\<close>. Every wire \<open>w\<close> has a dealt sharing of its mask \<open>\<delta> w\<close>; \<open>GP\<close> holds of
  every other gate and \<open>IP\<close> of every input with its number.
\<close>

definition inputs_in :: "'r gate list \<Rightarrow> 'r gate list" where
  "inputs_in gs = filter (\<lambda>g. gtype g = kInp) gs"

definition gates_dealt ::
  "nat \<Rightarrow> (nat \<Rightarrow> 'r::comm_ring_1) \<Rightarrow>
   ((wire_t \<Rightarrow> 'r) \<Rightarrow> 'r gate \<Rightarrow> (nat \<Rightarrow> ('r, 'b) preproc_gate) \<Rightarrow> bool) \<Rightarrow>
   (nat \<Rightarrow> wire_t \<Rightarrow> 'r \<Rightarrow> (nat \<Rightarrow> ('r, 'b) preproc_gate) \<Rightarrow> bool) \<Rightarrow> (wire_t \<Rightarrow> 'r) \<Rightarrow> 'r gate list \<Rightarrow> nat \<Rightarrow>
   (nat \<Rightarrow> ('r, 'b) preproc_gate option list) \<Rightarrow> bool" where
  "gates_dealt n kf GP IP \<delta> gs ctr G \<longleftrightarrow>
    (\<forall>g\<in>set gs. (\<forall>p. G p ! gout g \<noteq> None) \<and>
       dealt_sel n kf pg_mask (\<lambda>p. the (G p ! gout g)) (\<delta> (gout g)) \<and>
       (gtype g \<noteq> kInp \<longrightarrow> GP \<delta> g (\<lambda>p. the (G p ! gout g)))) \<and>
    (\<forall>k<length (inputs_in gs). IP (ctr + k) (gout (inputs_in gs ! k)) (\<delta> (gout (inputs_in gs ! k)))
       (\<lambda>p. the (G p ! gout (inputs_in gs ! k))))"

definition gate_cong :: "((wire_t \<Rightarrow> 'r) \<Rightarrow> 'r gate \<Rightarrow> 'q \<Rightarrow> bool) \<Rightarrow> bool" where
  "gate_cong GP \<longleftrightarrow> (\<forall>\<delta> \<delta>' g pgs. gate_typed g \<longrightarrow> (\<forall>w\<in>insert (gout g) (set (gins g)). \<delta> w = \<delta>' w) \<longrightarrow>
     GP \<delta> g pgs = GP \<delta>' g pgs)"

lemma gate_cong_arith_ok: "gate_cong (arith_ok n kf)"
  unfolding gate_cong_def by (auto intro!: arith_ok_cong)

lemma gates_dealt_cong:
  fixes G :: "nat \<Rightarrow> ('r::comm_ring_1, 'b) preproc_gate option list"
  assumes "gates_dealt n kf GP IP \<delta> gs ctr G" "\<And>p g. g \<in> set gs \<Longrightarrow> G' p ! gout g = G p ! gout g"
    "\<And>g w. g \<in> set gs \<Longrightarrow> w \<in> insert (gout g) (set (gins g)) \<Longrightarrow> \<delta>' w = \<delta> w" "\<forall>g\<in>set gs. gate_typed g"
    "gate_cong GP"
  shows "gates_dealt n kf GP IP \<delta>' gs ctr G'"
proof -
  have mem: "inputs_in gs ! k \<in> set gs" if "k < length (inputs_in gs)" for k
    using nth_mem [OF that] by (simp add: inputs_in_def)
  have "GP \<delta>' g pgs = GP \<delta> g pgs" if "g \<in> set gs" for g pgs
    using that assms(3-5) by (simp add: gate_cong_def)
  moreover have "\<delta>' (gout g) = \<delta> (gout g)" "(\<lambda>p. the (G' p ! gout g)) = (\<lambda>p. the (G p ! gout g))"
    if "g \<in> set gs" for g using assms(2,3) that by simp_all
  ultimately show ?thesis using assms(1,2) mem by (simp add: gates_dealt_def del: not_None_eq)
qed

text \<open>The run of party \<open>p\<close> over a list of gates.\<close>

definition run_joint ::
  "(nat \<Rightarrow> 'p option list \<Rightarrow> 'r gate \<Rightarrow> 's \<Rightarrow> 'p option \<times> 's) \<Rightarrow> (nat \<Rightarrow> nat \<Rightarrow> wire_t \<Rightarrow> 's \<Rightarrow> 'p \<times> 's) \<Rightarrow>
   'r gate list \<Rightarrow> nat \<Rightarrow> (nat \<Rightarrow> 'p option list) \<Rightarrow> (nat \<Rightarrow> 's) \<Rightarrow> nat \<Rightarrow> 'p option list \<times> nat \<times> 's" where
  "run_joint pre inp gs ctr G st p = fold (run_gate (pre p) (inp p)) gs (G p, ctr, st p)"

lemma run_joint_Nil: "run_joint pre inp [] ctr G st p = (G p, ctr, st p)"
  by (simp add: run_joint_def)

lemma run_joint_input:
  "gtype g = kInp \<Longrightarrow> run_joint pre inp (g # gs) ctr G st =
    run_joint pre inp gs (Suc ctr) (\<lambda>p. (G p)[gout g := Some (fst (inp p ctr (gout g) (st p)))])
      (\<lambda>p. snd (inp p ctr (gout g) (st p)))"
  by (simp add: run_joint_def run_gate_def Let_def split_beta fun_eq_iff)

lemma run_joint_gate:
  "gtype g \<noteq> kInp \<Longrightarrow> run_joint pre inp (g # gs) ctr G st =
    run_joint pre inp gs ctr (\<lambda>p. store_pre (gout g) (fst (pre p (G p) g (st p))) (G p))
      (\<lambda>p. snd (pre p (G p) g (st p)))"
  by (simp add: run_joint_def run_gate_def Let_def split_beta fun_eq_iff)

text \<open>A property of the state that every call keeps is kept by the loop.\<close>

lemma run_gate_inv:
  assumes "\<And>gs s. Q s \<Longrightarrow> Q (snd (pre gs g s))" "\<And>k out s. Q s \<Longrightarrow> Q (snd (inp k out s))" "Q (snd (snd x))"
  shows "Q (snd (snd (run_gate pre inp g x)))"
  using assms by (simp add: run_gate_def Let_def split_beta)

lemma run_gates_inv:
  assumes "\<And>g gs s. Q s \<Longrightarrow> Q (snd (pre gs g s))" "\<And>k out s. Q s \<Longrightarrow> Q (snd (inp k out s))" "Q (snd (snd x))"
  shows "Q (snd (snd (fold (run_gate pre inp) gs x)))"
  using assms(3)
proof (induction gs arbitrary: x)
  case (Cons g gs)
  show ?case unfolding fold_simps by (rule Cons.IH, rule run_gate_inv) (rule assms(1,2) Cons.prems, assumption?)+
qed simp

lemma deal_all_inv:
  assumes "\<And>x s. Q s \<Longrightarrow> Q (snd (sec x s))" "Q s"
  shows "Q (snd (deal_all sec xs s))"
  using assms(2) by (induction xs arbitrary: s) (simp_all add: Let_def split_beta assms(1))

lemma pre_arith_inv:
  assumes "\<And>s. Q s \<Longrightarrow> Q (snd (share s))" "\<And>x s. Q s \<Longrightarrow> Q (snd (sec x s))" "Q s"
  shows "Q (snd (pre_arith pid share sec gs g s))"
proof -
  have "Q (snd (deal_all sec xs (snd (share s))))" for xs
    by (rule deal_all_inv) (use assms in auto)
  with assms(3) show ?thesis
    by (cases g) (simp_all add: pre_mul_def pre_mul3_def pre_mul4_def pre_dotp_def Let_def split_beta
      del: deal_all.simps)
qed

context dealing
begin

text \<open>What the caller's input handler and its gate routine have to guarantee.\<close>

definition inp_law ::
  "(nat \<Rightarrow> nat \<Rightarrow> wire_t \<Rightarrow> 's \<Rightarrow> ('r, 'b) preproc_gate \<times> 's) \<Rightarrow>
   (nat \<Rightarrow> wire_t \<Rightarrow> 'r \<Rightarrow> (nat \<Rightarrow> ('r, 'b) preproc_gate) \<Rightarrow> bool) \<Rightarrow> nat \<Rightarrow> wire_t \<Rightarrow> bool" where
  "inp_law inp IP ctr out \<longleftrightarrow>
    (\<forall>st. bok (\<lambda>p. snd (inp p ctr out (st p))) \<longrightarrow> bok st \<and>
       (sync st \<longrightarrow> sync (\<lambda>p. snd (inp p ctr out (st p))) \<and>
          (\<exists>x. dealt_sel n kf pg_mask (\<lambda>p. fst (inp p ctr out (st p))) x \<and>
             IP ctr out x (\<lambda>p. fst (inp p ctr out (st p))))))"

definition gate_law ::
  "(nat \<Rightarrow> ('r, 'b) preproc_gate option list \<Rightarrow> 'r gate \<Rightarrow> 's \<Rightarrow> ('r, 'b) preproc_gate option \<times> 's) \<Rightarrow>
   ((wire_t \<Rightarrow> 'r) \<Rightarrow> 'r gate \<Rightarrow> (nat \<Rightarrow> ('r, 'b) preproc_gate) \<Rightarrow> bool) \<Rightarrow> 'r gate \<Rightarrow> bool" where
  "gate_law pre GP g \<longleftrightarrow>
    (\<forall>G st \<delta>. bok (\<lambda>p. snd (pre p (G p) g (st p))) \<longrightarrow> bok st \<and>
       (sync st \<longrightarrow> gout g \<notin> set (gins g) \<longrightarrow> (\<forall>w\<in>set (gins g). dealt_sel n kf (\<lambda>gs. mask_at gs w) G (\<delta> w)) \<longrightarrow>
          sync (\<lambda>p. snd (pre p (G p) g (st p))) \<and> (\<forall>p. fst (pre p (G p) g (st p)) \<noteq> None) \<and>
          (\<exists>x. dealt_sel n kf pg_mask (\<lambda>p. the (fst (pre p (G p) g (st p)))) x \<and>
             GP (\<delta>(gout g := x)) g (\<lambda>p. the (fst (pre p (G p) g (st p)))))))"

lemma gate_law_arith:
  assumes "arith_gate g"
  shows "gate_law (\<lambda>p. pre_arith p (share p) (sec p)) (arith_ok n kf) g"
proof -
  have L: "bok st \<and> (sync st \<longrightarrow> gout g \<notin> set (gins g) \<longrightarrow> (\<forall>w\<in>set (gins g). dealt_sel n kf (\<lambda>gs. mask_at gs w) G (\<delta> w)) \<longrightarrow>
      gate_dealt \<delta> g (\<lambda>p. pre_arith p (share p) (sec p) (G p) g (st p)))"
    if "bok (\<lambda>p. snd (pre_arith p (share p) (sec p) (G p) g (st p)))" for G :: "nat \<Rightarrow> ('r, 'b) preproc_gate option list" and st \<delta>
    using pre_arith_bok [OF that] pre_arith_dealt [OF assms _ _ _ that] by simp
  show ?thesis unfolding gate_law_def
    by (intro allI) (rule impI, rule L [unfolded gate_dealt_def])
qed

lemma run_joint_bok:
  assumes "bok (\<lambda>p. snd (snd (run_joint pre inp gs ctr G st p)))"
    "\<And>k out st. bok (\<lambda>p. snd (inp p k out (st p))) \<Longrightarrow> bok st"
    "\<forall>g\<in>set gs. gtype g = kInp \<or> (\<forall>G st. bok (\<lambda>p. snd (pre p (G p) g (st p))) \<longrightarrow> bok st)"
  shows "bok st"
  using assms(1,3)
proof (induction gs arbitrary: ctr G st)
  case Nil
  then show ?case by (simp add: run_joint_Nil)
next
  case (Cons g gs)
  show ?case
  proof (cases "gtype g = kInp")
    case True
    have "bok (\<lambda>p. snd (inp p ctr (gout g) (st p)))"
      by (rule Cons.IH [OF Cons.prems(1) [unfolded run_joint_input [OF True]]]) (use Cons.prems(2) in simp)
    then show ?thesis by (rule assms(2))
  next
    case False
    have "bok (\<lambda>p. snd (pre p (G p) g (st p)))"
      by (rule Cons.IH [OF Cons.prems(1) [unfolded run_joint_gate [OF False]]]) (use Cons.prems(2) in simp)
    then show ?thesis using Cons.prems(2) False by auto
  qed
qed

lemma inp_law_bok: "inp_law inp IP k out \<Longrightarrow> bok (\<lambda>p. snd (inp p k out (st p))) \<Longrightarrow> bok st"
  by (simp add: inp_law_def)

lemma gate_law_bok:
  "\<forall>g\<in>set gs. gtype g = kInp \<or> gate_law pre GP g \<Longrightarrow>
   \<forall>g\<in>set gs. gtype g = kInp \<or> (\<forall>G st. bok (\<lambda>p. snd (pre p (G p) g (st p))) \<longrightarrow> bok st)"
  unfolding gate_law_def by blast

lemma run_gates_dealt:
  fixes G :: "nat \<Rightarrow> ('r, 'b) preproc_gate option list"
  assumes "topo D gs" "\<forall>g\<in>set gs. gtype g = kInp \<or> gate_law pre GP g" "sync st"
    "\<And>p g. g \<in> set gs \<Longrightarrow> gout g < length (G p)"
    "\<And>w. w \<in> D \<Longrightarrow> dealt_sel n kf (\<lambda>gs. mask_at gs w) G (\<delta> w)"
    "\<And>k out. inp_law inp IP k out" "bok (\<lambda>p. snd (snd (run_joint pre inp gs ctr G st p)))" "gate_cong GP"
  shows "\<exists>\<delta>'. sync (\<lambda>p. snd (snd (run_joint pre inp gs ctr G st p))) \<and>
    (\<forall>w. w \<notin> gout ` set gs \<longrightarrow> \<delta>' w = \<delta> w) \<and>
    (\<forall>p w. w \<notin> gout ` set gs \<longrightarrow> fst (run_joint pre inp gs ctr G st p) ! w = G p ! w) \<and>
    (\<forall>p. length (fst (run_joint pre inp gs ctr G st p)) = length (G p)) \<and>
    gates_dealt n kf GP IP \<delta>' gs ctr (\<lambda>p. fst (run_joint pre inp gs ctr G st p))"
  using assms(1-5,7)
proof (induction gs arbitrary: D G st \<delta> ctr)
  case Nil
  then show ?case by (auto simp: run_joint_Nil gates_dealt_def inputs_in_def)
next
  case (Cons g gs)
  have g: "set (gins g) \<subseteq> D" "gout g \<notin> D" "gate_typed g" "topo (insert (gout g) D) gs"
    using Cons.prems(1) by auto
  have laws: "\<forall>g\<in>set gs. gtype g = kInp \<or> gate_law pre GP g" using Cons.prems(2) by simp
  note fresh = topo_fresh [OF g(4)]
  obtain G1 st1 ctr1 x where run: "run_joint pre inp (g # gs) ctr G st = run_joint pre inp gs ctr1 G1 st1"
    and G1: "\<And>p. length (G1 p) = length (G p)" "\<And>p w. w \<noteq> gout g \<Longrightarrow> G1 p ! w = G p ! w"
      "\<And>p. G1 p ! gout g \<noteq> None"
    and st1: "sync st1"
    and x: "dealt_sel n kf pg_mask (\<lambda>p. the (G1 p ! gout g)) x"
    and ari: "gtype g \<noteq> kInp \<longrightarrow> GP (\<delta>(gout g := x)) g (\<lambda>p. the (G1 p ! gout g))"
    and inp: "gtype g = kInp \<longrightarrow> ctr1 = Suc ctr \<and> IP ctr (gout g) x (\<lambda>p. the (G1 p ! gout g))"
    and ctr: "gtype g \<noteq> kInp \<longrightarrow> ctr1 = ctr"
  proof (cases "gtype g = kInp")
    case True
    let ?pg = "\<lambda>p. fst (inp p ctr (gout g) (st p))" and ?st1 = "\<lambda>p. snd (inp p ctr (gout g) (st p))"
    have "bok ?st1"
      by (rule run_joint_bok [OF _ inp_law_bok [OF assms(6)] gate_law_bok [OF laws]])
        (use Cons.prems(6) in \<open>simp only: run_joint_input [OF True]\<close>)
    then have "sync ?st1 \<and> (\<exists>x. dealt_sel n kf pg_mask ?pg x \<and> IP ctr (gout g) x ?pg)"
      using assms(6) [of ctr "gout g"] Cons.prems(3) by (simp add: inp_law_def)
    then obtain x where "sync ?st1" "dealt_sel n kf pg_mask ?pg x" "IP ctr (gout g) x ?pg" by blast
    with True Cons.prems(4) show thesis
      by (intro that [OF run_joint_input [OF True]]) auto
  next
    case False
    let ?R = "\<lambda>p. pre p (G p) g (st p)"
    have law: "gate_law pre GP g" using Cons.prems(2) False by auto
    have b: "bok (\<lambda>p. snd (?R p))"
      by (rule run_joint_bok [OF _ inp_law_bok [OF assms(6)] gate_law_bok [OF laws]])
        (use Cons.prems(6) in \<open>simp only: run_joint_gate [OF False]\<close>)
    have ins: "gout g \<notin> set (gins g)" "\<forall>w\<in>set (gins g). dealt_sel n kf (\<lambda>gs. mask_at gs w) G (\<delta> w)"
      using g(1,2) Cons.prems(5) by auto
    obtain x where R: "sync (\<lambda>p. snd (?R p))" "\<And>p. fst (?R p) \<noteq> None"
      "dealt_sel n kf pg_mask (\<lambda>p. the (fst (?R p))) x" "GP (\<delta>(gout g := x)) g (\<lambda>p. the (fst (?R p)))"
      using law b ins Cons.prems(3) unfolding gate_law_def by blast
    have "store_pre (gout g) (fst (?R p)) (G p) = (G p)[gout g := fst (?R p)]" for p
      using R(2) [of p] by (auto simp: store_pre_def)
    with R False Cons.prems(4) show thesis
      by (intro that [OF run_joint_gate [OF False], of x]) auto
  qed
  let ?\<delta> = "\<delta>(gout g := x)"
  have mk: "dealt_sel n kf (\<lambda>gs. mask_at gs w) G1 (?\<delta> w)" if "w \<in> insert (gout g) D" for w
    using that x Cons.prems(5) [of w] G1(2) g(2) by (auto simp: dealt_sel_def mask_at_def)
  obtain \<delta>' where IH: "sync (\<lambda>p. snd (snd (run_joint pre inp gs ctr1 G1 st1 p)))"
    "\<forall>w. w \<notin> gout ` set gs \<longrightarrow> \<delta>' w = ?\<delta> w"
    "\<forall>p w. w \<notin> gout ` set gs \<longrightarrow> fst (run_joint pre inp gs ctr1 G1 st1 p) ! w = G1 p ! w"
    "\<forall>p. length (fst (run_joint pre inp gs ctr1 G1 st1 p)) = length (G1 p)"
    "gates_dealt n kf GP IP \<delta>' gs ctr1 (\<lambda>p. fst (run_joint pre inp gs ctr1 G1 st1 p))"
    using Cons.IH [OF g(4) laws st1 _ mk, of ctr1] Cons.prems(4,6) G1(1) by (auto simp: run)
  have out: "gout g \<notin> gout ` set gs" using fresh by auto
  have \<delta>'g: "\<delta>' w = ?\<delta> w" if "w \<in> insert (gout g) (set (gins g))" for w
  proof -
    have "w \<in> insert (gout g) D" using that g(1) by auto
    then have "w \<notin> gout ` set gs" using fresh by blast
    then show ?thesis using IH(2) by simp
  qed
  have here: "gates_dealt n kf GP IP \<delta>' [g] ctr (\<lambda>p. fst (run_joint pre inp gs ctr1 G1 st1 p))"
  proof (rule gates_dealt_cong [of n kf GP IP ?\<delta> "[g]" ctr G1])
    show "gates_dealt n kf GP IP ?\<delta> [g] ctr G1"
      using G1(3) x ari inp by (auto simp: gates_dealt_def inputs_in_def)
  qed (use IH(3) out \<delta>'g g(3) assms(8) in auto)
  have "gates_dealt n kf GP IP \<delta>' (g # gs) ctr (\<lambda>p. fst (run_joint pre inp gs ctr1 G1 st1 p))"
    using here IH(5) inp ctr
    by (auto simp: gates_dealt_def inputs_in_def nth_Cons split: nat.splits if_splits)
  with IH(1-4) G1(1,2) show ?case unfolding run by (intro exI [of _ \<delta>']) auto
qed

text \<open>The whole of a circuit, level by level.\<close>

lemma circuit_dealt:
  fixes c :: "'r Circuit" and inp :: "nat \<Rightarrow> nat \<Rightarrow> wire_t \<Rightarrow> 's \<Rightarrow> ('r, 'b) preproc_gate \<times> 's"
  assumes "circuit_ok c" "\<forall>g\<in>set (circ_gates c). gtype g = kInp \<or> gate_law pre GP g" "gate_cong GP"
    "\<And>k out. inp_law inp IP k out"
  defines "R \<equiv> run_joint pre inp (concat (gates_by_level (orderGatesByLevel c))) 0
      (\<lambda>p. replicate (length (circ_gates c)) None)"
  assumes bok: "bok (\<lambda>p. snd (snd (R st p)))"
  shows "bok st"
    "sync st \<Longrightarrow> sync (\<lambda>p. snd (snd (R st p))) \<and>
       (\<exists>\<delta>. gates_dealt n kf GP IP \<delta> (concat (gates_by_level (orderGatesByLevel c))) 0 (\<lambda>p. fst (R st p)))"
proof -
  let ?gs = "concat (gates_by_level (orderGatesByLevel c))"
  have laws: "\<forall>g\<in>set ?gs. gtype g = kInp \<or> gate_law pre GP g"
    using assms(2) unfolding set_orderGatesByLevel [OF assms(1)] .
  show "bok st" by (rule run_joint_bok [OF bok [unfolded R_def] inp_law_bok [OF assms(4)] gate_law_bok [OF laws]])
  show "sync (\<lambda>p. snd (snd (R st p))) \<and> (\<exists>\<delta>. gates_dealt n kf GP IP \<delta> ?gs 0 (\<lambda>p. fst (R st p)))" if "sync st"
  proof -
    have "gout g < length (replicate (length (circ_gates c)) (None :: ('r, 'b) preproc_gate option))" if "g \<in> set ?gs" for g
      using that gout_less [OF assms(1)] unfolding set_orderGatesByLevel [OF assms(1)] by simp
    with run_gates_dealt [OF topo_orderGatesByLevel [OF assms(1)] laws that _ _ assms(4) bok [unfolded R_def] assms(3)]
    show ?thesis unfolding R_def by blast
  qed
qed

end

end
