(* ===== verification/Offline_Nested.thy ===== *)
theory Offline_Nested
  imports Offline_Gates
begin

section \<open>The nested boolean circuits of the equality and comparison gates\<close>

text \<open>
  \<open>setWireMasksParty\<close> of \<open>asterisk/offline_evaluator.cpp\<close> preprocesses an equality (comparison)
  gate by preprocessing the gates of a \<open>generateMultK\<close> (\<open>generateParaPrefixOR(2)\<close>) circuit over
  \<open>BoolRing\<close> and sharing the bits of the masked input. A party's state is its generator pool and
  the pools of the two rings. The locale \<open>dealing\<close> is interpreted on the dealing calls of the
  field and of the boolean ring on that joint state; the results are \<open>pre_eqz_law\<close> and
  \<open>pre_ltz_law\<close>.
\<close>

subsection \<open>The state and the calls\<close>

text \<open>
  The number of parties, the samplers of field elements and bits, and NTL's conversion of a
  field element to \<open>uint64_t\<close>.
\<close>

record ('g, 'f) offline_env =
  oe_nP :: nat
  oe_field :: "'g \<Rightarrow> 'f \<times> 'g"
  oe_bool :: "'g \<Rightarrow> BoolRing \<times> 'g"
  oe_conv :: "'f \<Rightarrow> u64"

type_synonym ('g, 'f) party_st = "'g RandGenPool \<times> 'f pool \<times> BoolRing pool"
type_synonym bool_gate = "(BoolRing, unit) preproc_gate"
type_synonym 'f field_gate = "('f, bool_gate) preproc_gate"

definition on_field :: "(('g, 'f) deal_st \<Rightarrow> 'a \<times> ('g, 'f) deal_st) \<Rightarrow> ('g, 'f) party_st \<Rightarrow> 'a \<times> ('g, 'f) party_st" where
  "on_field f = (\<lambda>(rg, fp, bp). let (a, rg, fp) = f (rg, fp) in (a, rg, fp, bp))"

definition on_bool ::
  "(('g, BoolRing) deal_st \<Rightarrow> 'a \<times> ('g, BoolRing) deal_st) \<Rightarrow> ('g, 'f) party_st \<Rightarrow> 'a \<times> ('g, 'f) party_st" where
  "on_bool f = (\<lambda>(rg, fp, bp). let (a, rg, bp) = f (rg, bp) in (a, rg, fp, bp))"

definition F_share :: "('g, 'f::comm_ring_1) offline_env \<Rightarrow> nat \<Rightarrow> ('g, 'f) party_st \<Rightarrow> 'f mask \<times> ('g, 'f) party_st" where
  "F_share E pid = on_field (call_randomShare (oe_field E) (oe_nP E) pid)"

definition F_sec :: "('g, 'f::comm_ring_1) offline_env \<Rightarrow> nat \<Rightarrow> 'f \<Rightarrow> ('g, 'f) party_st \<Rightarrow> 'f mask \<times> ('g, 'f) party_st" where
  "F_sec E pid x = on_field (call_randomShareSecret (oe_field E) (oe_nP E) pid x)"

definition F_party ::
  "('g, 'f::comm_ring_1) offline_env \<Rightarrow> nat \<Rightarrow> nat \<Rightarrow> ('g, 'f) party_st \<Rightarrow> ('f mask \<times> 'f) \<times> ('g, 'f) party_st" where
  "F_party E pid dealer = on_field (call_randomShareWithParty (oe_field E) (oe_nP E) pid dealer 0)"

definition B_share :: "('g, 'f) offline_env \<Rightarrow> nat \<Rightarrow> ('g, 'f) party_st \<Rightarrow> BoolRing mask \<times> ('g, 'f) party_st" where
  "B_share E pid = on_bool (call_randomShare (oe_bool E) (oe_nP E) pid)"

definition B_sec :: "('g, 'f) offline_env \<Rightarrow> nat \<Rightarrow> BoolRing \<Rightarrow> ('g, 'f) party_st \<Rightarrow> BoolRing mask \<times> ('g, 'f) party_st" where
  "B_sec E pid x = on_bool (call_randomShareSecret (oe_bool E) (oe_nP E) pid x)"

text \<open>A field element sampled by all parties together: \<open>randomizeZZp(rgen_.all(), ..)\<close>.\<close>

definition F_all :: "('g, 'f) offline_env \<Rightarrow> ('g, 'f) party_st \<Rightarrow> 'f \<times> ('g, 'f) party_st" where
  "F_all E = (\<lambda>(rg, pools). let (x, rg) = draw_all (oe_field E) rg in (x, rg, pools))"

subsection \<open>The multiplication tree of an equality gate\<close>

definition multk_circ :: "BoolRing LevelOrderedCircuit" where
  "multk_circ = orderGatesByLevel (projr generateMultK)"

definition multk_inp ::
  "('g, 'f) offline_env \<Rightarrow> nat \<Rightarrow> BoolRing list \<Rightarrow> nat \<Rightarrow> wire_t \<Rightarrow> ('g, 'f) party_st \<Rightarrow> bool_gate \<times> ('g, 'f) party_st" where
  "multk_inp E pid r_bits inp_ctr out s =
     (let (m, s) = B_sec E pid (r_bits ! inp_ctr) s in (PreprocInput m 0 (r_bits ! inp_ctr), s))"

definition multk_step ::
  "('g, 'f) offline_env \<Rightarrow> nat \<Rightarrow> BoolRing list \<Rightarrow> BoolRing gate \<Rightarrow>
   bool_gate option list \<times> nat \<times> ('g, 'f) party_st \<Rightarrow> bool_gate option list \<times> nat \<times> ('g, 'f) party_st" where
  "multk_step E pid r_bits g st =
     (if gtype g \<in> {kInp, kMul4}
      then run_gate (pre_arith pid (B_share E pid) (B_sec E pid)) (multk_inp E pid r_bits) g st else st)"

definition pre_multk ::
  "('g, 'f) offline_env \<Rightarrow> nat \<Rightarrow> BoolRing list \<Rightarrow> ('g, 'f) party_st \<Rightarrow> bool_gate option list \<times> ('g, 'f) party_st" where
  "pre_multk E pid r_bits s =
     (let (gs, _, s) = fold (fold (multk_step E pid r_bits)) (gates_by_level multk_circ)
            (replicate (num_gates multk_circ) None, 0, s)
      in (gs, s))"

text \<open>The equality gate itself.\<close>

definition pre_eqz ::
  "('g, 'f::comm_ring_1) offline_env \<Rightarrow> nat \<Rightarrow> 'f field_gate option list \<Rightarrow> wire_t \<Rightarrow> ('g, 'f) party_st \<Rightarrow>
   'f field_gate \<times> ('g, 'f) party_st" where
  "pre_eqz E pid gs a s =
     (let (mask_w, s) = F_share E pid s;
          (padded_val, s) = F_all E s;
          r_value = (if pid = 0 then padded_val + secret (snd (mask_at gs a)) else 0);
          (rv, s) = F_sec E pid r_value s;
          r_bits = (if pid = 0 then bitDecomposeTwo (oe_conv E) r_value else replicate 64 0);
          (multk_gates, s) = pre_multk E pid r_bits s;
          arith_b = (if pid = 0 \<and> secret (snd (mask_at multk_gates (outputs multk_circ ! 0))) = 1 then 1 else 0);
          (mask_b, s) = F_sec E pid arith_b s
      in (mk_PreprocEqzGate mask_w mask_b rv multk_gates padded_val, s))"

subsection \<open>The prefix circuit of a comparison gate\<close>

definition prefixOR_circ :: "BoolRing LevelOrderedCircuit" where
  "prefixOR_circ = orderGatesByLevel (projr (generateParaPrefixOR 2))"

definition prefixOR_pregates ::
  "('g, 'f) offline_env \<Rightarrow> nat \<Rightarrow> BoolRing list \<Rightarrow> ('g, 'f) party_st \<Rightarrow> bool_gate list \<times> ('g, 'f) party_st" where
  "prefixOR_pregates E pid r_bits s =
     (let bits = map (\<lambda>i. r_bits ! (63 - i)) [0..<64];
          (ms, s) = deal_all (B_sec E pid) bits s
      in (map2 (\<lambda>m b. PreprocInput m 0 b) ms bits, s))"

definition prefixOR_inp :: "bool_gate list \<Rightarrow> nat \<Rightarrow> wire_t \<Rightarrow> ('g, 'f) party_st \<Rightarrow> bool_gate \<times> ('g, 'f) party_st" where
  "prefixOR_inp pregates inp_ctr out s = (pregates ! (inp_ctr mod 64), s)"

definition pre_prefixOR ::
  "('g, 'f) offline_env \<Rightarrow> nat \<Rightarrow> BoolRing list \<Rightarrow> ('g, 'f) party_st \<Rightarrow> bool_gate option list \<times> ('g, 'f) party_st" where
  "pre_prefixOR E pid r_bits s =
     (let (pregates, s) = prefixOR_pregates E pid r_bits s;
          (gs, _, s) = fold (fold (run_gate (pre_arith pid (B_share E pid) (B_sec E pid)) (prefixOR_inp pregates)))
            (gates_by_level prefixOR_circ) (replicate (num_gates prefixOR_circ) None, 0, s)
      in (gs, s))"

text \<open>The comparison gate itself.\<close>

definition pre_ltz ::
  "('g, 'f::comm_ring_1) offline_env \<Rightarrow> nat \<Rightarrow> 'f field_gate option list \<Rightarrow> wire_t \<Rightarrow> ('g, 'f) party_st \<Rightarrow>
   'f field_gate \<times> ('g, 'f) party_st" where
  "pre_ltz E pid gs a s =
     (let (padded_val, s) = F_all E s;
          r_value = (if pid = 0 then padded_val + secret (snd (mask_at gs a)) else 0);
          r_bits = (if pid = 0 then bitDecomposeTwo (oe_conv E) r_value else replicate 64 0);
          (prefixOR_gates, s) = pre_prefixOR E pid r_bits s;
          arith_b = (if pid = 0 \<and> secret (snd (mask_at prefixOR_gates (outputs prefixOR_circ ! 0))) = 1 then 1 else 0);
          (mask_b, s) = F_sec E pid arith_b s;
          (mask_w, s) = F_share E pid s;
          mask_out = m_add (m_mul mask_w (- 2)) (m_mul mask_b (- 1))
      in (PreprocLtzGate mask_out mask_w mask_b prefixOR_gates padded_val, s))"

subsection \<open>The gates that occur in the nested circuits\<close>

definition only :: "GateType set \<Rightarrow> ('r, 'a) builder \<Rightarrow> bool" where
  "only T m \<longleftrightarrow> (\<forall>c x c'. m c = Inr (x, c') \<longrightarrow> (\<forall>g\<in>set (circ_gates c). gtype g \<in> T) \<longrightarrow>
     (\<forall>g\<in>set (circ_gates c'). gtype g \<in> T))"

lemma only_ret [intro!]: "only T (retB x)"
  by (simp add: only_def retB_def)

lemma only_bind [intro!]: "only T m \<Longrightarrow> (\<And>x. only T (k x)) \<Longrightarrow> only T (bindB m k)"
  by (fastforce simp: only_def bindB_def split: sum.splits prod.splits)

lemma only_for [intro!]:
  assumes "\<And>i s. only T (f i s)" shows "only T (forB f is s)"
  by (induction "is" arbitrary: s) (auto simp: only_bind only_ret assms)

lemma only_if [intro!]: "only T m \<Longrightarrow> only T m' \<Longrightarrow> only T (if b then m else m')"
  by simp

lemma only_gates [intro!]:
  "kInp \<in> T \<Longrightarrow> only T inputB" "only T (outputB w)"
  "t \<in> T \<Longrightarrow> only T (addGate2 t a b)" "t \<in> T \<Longrightarrow> only T (addGate3 t a b d)"
  "t \<in> T \<Longrightarrow> only T (addGate4 t a b d e)" "t \<in> T \<Longrightarrow> only T (addConstOpGate t a k)"
  "t \<in> T \<Longrightarrow> only T (addGateV t as bs)"
  by (auto simp: only_def inputB_def newInputWire_def outputB_def setAsOutput_def addGate2_def addGate3_def
      addGate4_def addConstOpGate_def addGateV_def push_gate_def Let_def split: if_splits)

lemma only_inputs [intro!]: "kInp \<in> T \<Longrightarrow> only T (inputsB k)"
  by (auto simp: inputsB_def)

lemma only_run: "only T m \<Longrightarrow> runB m = Inr c \<Longrightarrow> g \<in> set (circ_gates c) \<Longrightarrow> gtype g \<in> T"
  by (cases "m Circuit_new") (auto simp: only_def runB_def Circuit_new_def)

abbreviation "prefix_kinds \<equiv> {kInp, kAdd, kConstAdd, kMul, kMul3, kMul4, kDotprod}"

lemma generateMultK_kinds:
  assumes "generateMultK = Inr c" "g \<in> set (circ_gates c)" shows "gtype g \<in> {kInp, kMul4}"
  by (rule only_run [OF _ assms(1) [unfolded generateMultK_def] assms(2)]) (auto simp: multK_level_def)

lemma only_prefix_step: "only prefix_kinds (prefix_step level lv ji ws)"
  by (cases ji) (auto simp: prefix_step_def Let_def)

lemma generateParaPrefixOR_kinds:
  assumes "generateParaPrefixOR n = Inr c" "g \<in> set (circ_gates c)" shows "gtype g \<in> prefix_kinds"
  by (rule only_run [OF _ assms(1) [unfolded generateParaPrefixOR_def] assms(2)])
    (auto simp: prefix_level_def prefixOR_diffs_def intro: only_prefix_step)

lemma circuit_typed: "circuit_ok c \<Longrightarrow> g \<in> set (circ_gates c) \<Longrightarrow> gate_typed g"
  by (auto simp: circuit_ok_def in_set_conv_nth dest: gates_okD(2))

text \<open>The two circuits as the offline phase sees them: well-formed, and all gates have a routine.\<close>

lemma multk_circ_ok:
  obtains c w where "multk_circ = orderGatesByLevel c" "generateMultK = Inr c" "circuit_ok c" "inputs_first 64 c"
    "circ_outputs c = [w]" "w < length (circ_gates c)" "\<forall>g\<in>set (circ_gates c). gtype g = kInp \<or> arith_gate g"
    "\<And>R inp. wval R inp c w = prod_list (map inp [0..<64])"
proof -
  obtain c :: "BoolRing Circuit" and w where c: "generateMultK = Inr c" "circuit_ok c" "inputs_first 64 c"
    "circ_outputs c = [w]" "\<And>R inp. wval R inp c w = prod_list (map inp [0..<64])"
    by (rule generateMultK_ok) blast
  moreover have "multk_circ = orderGatesByLevel c" by (simp add: multk_circ_def c(1))
  moreover have "w < length (circ_gates c)" using c(2,4) by (simp add: circuit_ok_def)
  moreover have "\<forall>g\<in>set (circ_gates c). gtype g = kInp \<or> arith_gate g"
    using generateMultK_kinds [OF c(1)] circuit_typed [OF c(2)] by (auto simp: arith_gate_def)
  ultimately show thesis using that by blast
qed

lemma prefixOR_circ_ok:
  obtains c w where "prefixOR_circ = orderGatesByLevel c" "generateParaPrefixOR 2 = Inr c" "circuit_ok c"
    "inputs_first 256 c" "circ_outputs c = [w]" "w < length (circ_gates c)"
    "\<forall>g\<in>set (circ_gates c). gtype g = kInp \<or> arith_gate g"
    "\<And>R inp. wval R inp c w = prefixOR_val 2 inp"
proof -
  obtain c :: "BoolRing Circuit" and w where c: "generateParaPrefixOR 2 = Inr c" "circuit_ok c" "inputs_first 256 c"
    "circ_outputs c = [w]"
    using generateParaPrefixOR_exists [of 2 undefined undefined] by auto
  moreover have "wval R inp c w = prefixOR_val 2 inp" for R :: "BoolRing ringops" and inp
    using generateParaPrefixOR_exists [of 2 R inp] c(1,4) by auto
  moreover have "prefixOR_circ = orderGatesByLevel c" by (simp add: prefixOR_circ_def c(1))
  moreover have "w < length (circ_gates c)" using c(2,4) by (simp add: circuit_ok_def)
  moreover have "\<forall>g\<in>set (circ_gates c). gtype g = kInp \<or> arith_gate g"
    using generateParaPrefixOR_kinds [OF c(1)] circuit_typed [OF c(2)] by (auto simp: arith_gate_def)
  ultimately show thesis using that by blast
qed

subsection \<open>The joint state and the interpretations\<close>

definition full_sync ::
  "nat \<Rightarrow> (nat \<Rightarrow> 'f::comm_ring_1) \<Rightarrow> (nat \<Rightarrow> BoolRing) \<Rightarrow> (nat \<Rightarrow> ('g, 'f) party_st) \<Rightarrow> bool" where
  "full_sync n kf kb st \<longleftrightarrow> rgs_ok n (\<lambda>p. fst (st p)) \<and> pools_ok n kf (\<lambda>p. fst (snd (st p))) \<and>
     pools_ok n kb (\<lambda>p. snd (snd (st p)))"

definition full_bufs :: "nat \<Rightarrow> (nat \<Rightarrow> ('g, 'f) party_st) \<Rightarrow> bool" where
  "full_bufs n st \<longleftrightarrow> bufs_ok n (\<lambda>p. fst (snd (st p))) \<and> bufs_ok n (\<lambda>p. snd (snd (st p)))"

abbreviation (input) f_st :: "('g, 'f) party_st \<Rightarrow> ('g, 'f) deal_st" where
  "f_st s \<equiv> (fst s, fst (snd s))"

abbreviation (input) b_st :: "('g, 'f) party_st \<Rightarrow> ('g, BoolRing) deal_st" where
  "b_st s \<equiv> (fst s, snd (snd s))"

lemma on_field_simps [simp]:
  "fst (on_field f s) = fst (f (f_st s))" "fst (snd (on_field f s)) = fst (snd (f (f_st s)))"
  "fst (snd (snd (on_field f s))) = snd (snd (f (f_st s)))" "snd (snd (snd (on_field f s))) = snd (snd s)"
  by (auto simp: on_field_def Let_def split: prod.splits)

lemma on_bool_simps [simp]:
  "fst (on_bool f s) = fst (f (b_st s))" "fst (snd (on_bool f s)) = fst (snd (f (b_st s)))"
  "snd (snd (snd (on_bool f s))) = snd (snd (f (b_st s)))" "fst (snd (snd (on_bool f s))) = fst (snd s)"
  by (auto simp: on_bool_def Let_def split: prod.splits)

lemma full_field:
  "full_sync n kf kb (\<lambda>p. snd (on_field (f p) (st p))) \<longleftrightarrow>
     deal_sync n kf (\<lambda>p. snd (f p (f_st (st p)))) \<and> pools_ok n kb (\<lambda>p. snd (snd (st p)))"
  "full_bufs n (\<lambda>p. snd (on_field (f p) (st p))) \<longleftrightarrow>
     deal_bufs n (\<lambda>p. snd (f p (f_st (st p)))) \<and> bufs_ok n (\<lambda>p. snd (snd (st p)))"
  by (auto simp: full_sync_def full_bufs_def deal_sync_def deal_bufs_def)

lemma full_bool:
  "full_sync n kf kb (\<lambda>p. snd (on_bool (f p) (st p))) \<longleftrightarrow>
     deal_sync n kb (\<lambda>p. snd (f p (b_st (st p)))) \<and> pools_ok n kf (\<lambda>p. fst (snd (st p)))"
  "full_bufs n (\<lambda>p. snd (on_bool (f p) (st p))) \<longleftrightarrow>
     deal_bufs n (\<lambda>p. snd (f p (b_st (st p)))) \<and> bufs_ok n (\<lambda>p. fst (snd (st p)))"
  by (auto simp: full_sync_def full_bufs_def deal_sync_def deal_bufs_def)

lemma full_parts:
  "full_sync n kf kb st \<longleftrightarrow> deal_sync n kf (\<lambda>p. f_st (st p)) \<and> pools_ok n kb (\<lambda>p. snd (snd (st p)))"
  "full_sync n kf kb st \<longleftrightarrow> deal_sync n kb (\<lambda>p. b_st (st p)) \<and> pools_ok n kf (\<lambda>p. fst (snd (st p)))"
  "full_bufs n st \<longleftrightarrow> deal_bufs n (\<lambda>p. f_st (st p)) \<and> bufs_ok n (\<lambda>p. snd (snd (st p)))"
  "full_bufs n st \<longleftrightarrow> deal_bufs n (\<lambda>p. b_st (st p)) \<and> bufs_ok n (\<lambda>p. fst (snd (st p)))"
  by (auto simp: full_sync_def full_bufs_def deal_sync_def deal_bufs_def)

interpretation F: dealing "oe_nP E" kf "F_share E" "F_sec E" "full_sync (oe_nP E) kf kb" "full_bufs (oe_nP E)"
  for E :: "('g, 'f::comm_ring_1) offline_env" and kf kb
proof
  fix st :: "nat \<Rightarrow> ('g, 'f) party_st" and x :: "nat \<Rightarrow> 'f"
  let ?n = "oe_nP E" and ?st = "\<lambda>p. f_st (st p)"
  note S = F_share_def F_sec_def full_field
  { assume b: "full_bufs ?n (\<lambda>p. snd (F_share E p (st p)))"
    then show "full_bufs ?n st"
      using deal_bufs_back(1) [of ?n "oe_field E" ?st] by (simp add: S full_parts(3)) }
  { assume b: "full_bufs ?n (\<lambda>p. snd (F_sec E p (x p) (st p)))"
    then show "full_bufs ?n st"
      using deal_bufs_back(2) [of ?n "oe_field E" x ?st] by (simp add: S full_parts(3)) }
  { assume "full_sync ?n kf kb st" "full_bufs ?n (\<lambda>p. snd (F_share E p (st p)))"
    then show "full_sync ?n kf kb (\<lambda>p. snd (F_share E p (st p)))"
      using call_randomShare_ok(1) [of ?n kf ?st "oe_field E"] by (simp add: S full_parts(1)) }
  { assume "full_sync ?n kf kb st" "full_bufs ?n (\<lambda>p. snd (F_share E p (st p)))"
    then show "\<exists>x. dealt ?n kf (snd (fst (F_share E 0 (st 0)))) (\<lambda>p. fst (fst (F_share E p (st p)))) x"
      using call_randomShare_ok(3) [of ?n kf ?st "oe_field E"] by (simp add: S full_parts(1)) }
  { assume "full_sync ?n kf kb st" "full_bufs ?n (\<lambda>p. snd (F_sec E p (x p) (st p)))"
    then show "full_sync ?n kf kb (\<lambda>p. snd (F_sec E p (x p) (st p)))"
      using call_randomShareSecret_ok(1) [of ?n kf ?st "oe_field E" x] by (simp add: S full_parts(1)) }
  { assume "full_sync ?n kf kb st" "full_bufs ?n (\<lambda>p. snd (F_sec E p (x p) (st p)))"
    then show "dealt ?n kf (snd (fst (F_sec E 0 (x 0) (st 0)))) (\<lambda>p. fst (fst (F_sec E p (x p) (st p)))) (x 0)"
      using call_randomShareSecret_ok(3) [of ?n kf ?st "oe_field E" x] by (simp add: S full_parts(1)) }
qed

interpretation B: dealing "oe_nP E" kb "B_share E" "B_sec E" "full_sync (oe_nP E) kf kb" "full_bufs (oe_nP E)"
  for E :: "('g, 'f::comm_ring_1) offline_env" and kf kb
proof
  fix st :: "nat \<Rightarrow> ('g, 'f) party_st" and x :: "nat \<Rightarrow> BoolRing"
  let ?n = "oe_nP E" and ?st = "\<lambda>p. b_st (st p)"
  note S = B_share_def B_sec_def full_bool
  { assume b: "full_bufs ?n (\<lambda>p. snd (B_share E p (st p)))"
    then show "full_bufs ?n st"
      using deal_bufs_back(1) [of ?n "oe_bool E" ?st] by (simp add: S full_parts(4)) }
  { assume b: "full_bufs ?n (\<lambda>p. snd (B_sec E p (x p) (st p)))"
    then show "full_bufs ?n st"
      using deal_bufs_back(2) [of ?n "oe_bool E" x ?st] by (simp add: S full_parts(4)) }
  { assume "full_sync ?n kf kb st" "full_bufs ?n (\<lambda>p. snd (B_share E p (st p)))"
    then show "full_sync ?n kf kb (\<lambda>p. snd (B_share E p (st p)))"
      using call_randomShare_ok(1) [of ?n kb ?st "oe_bool E"] by (simp add: S full_parts(2)) }
  { assume "full_sync ?n kf kb st" "full_bufs ?n (\<lambda>p. snd (B_share E p (st p)))"
    then show "\<exists>x. dealt ?n kb (snd (fst (B_share E 0 (st 0)))) (\<lambda>p. fst (fst (B_share E p (st p)))) x"
      using call_randomShare_ok(3) [of ?n kb ?st "oe_bool E"] by (simp add: S full_parts(2)) }
  { assume "full_sync ?n kf kb st" "full_bufs ?n (\<lambda>p. snd (B_sec E p (x p) (st p)))"
    then show "full_sync ?n kf kb (\<lambda>p. snd (B_sec E p (x p) (st p)))"
      using call_randomShareSecret_ok(1) [of ?n kb ?st "oe_bool E" x] by (simp add: S full_parts(2)) }
  { assume "full_sync ?n kf kb st" "full_bufs ?n (\<lambda>p. snd (B_sec E p (x p) (st p)))"
    then show "dealt ?n kb (snd (fst (B_sec E 0 (x 0) (st 0)))) (\<lambda>p. fst (fst (B_sec E p (x p) (st p)))) (x 0)"
      using call_randomShareSecret_ok(3) [of ?n kb ?st "oe_bool E" x] by (simp add: S full_parts(2)) }
qed

subsection \<open>The nested circuits are dealt\<close>

text \<open>
  \<open>nested_ok n kb circ mb \<delta> gs\<close>: the gates of \<open>circ\<close> are preprocessed for the masks \<open>\<delta>\<close>, and the
  mask of input number \<open>k\<close> is \<open>mb k\<close>.
\<close>

definition nested_ok ::
  "nat \<Rightarrow> (nat \<Rightarrow> BoolRing) \<Rightarrow> BoolRing LevelOrderedCircuit \<Rightarrow> (nat \<Rightarrow> BoolRing) \<Rightarrow> (wire_t \<Rightarrow> BoolRing) \<Rightarrow>
   (nat \<Rightarrow> bool_gate option list) \<Rightarrow> bool" where
  "nested_ok n kb circ mb \<delta> gs \<longleftrightarrow>
     gates_dealt n kb (arith_ok n kb) (\<lambda>k out x pgs. x = mb k) \<delta> (concat (gates_by_level circ)) 0 gs"

lemma nested_secret:
  assumes "nested_ok n kb (orderGatesByLevel c) mb \<delta> gs" "circuit_ok c" "w < length (circ_gates c)"
  shows "secret (snd (mask_at (gs 0) w)) = \<delta> w"
proof -
  have "gout (circ_gates c ! w) = w" using assms(2,3) by (auto simp: circuit_ok_def dest: gates_okD(1))
  moreover have "circ_gates c ! w \<in> set (concat (gates_by_level (orderGatesByLevel c)))"
    using assms(2,3) by (simp add: set_orderGatesByLevel del: set_concat)
  ultimately have "dealt_sel n kb pg_mask (\<lambda>p. the (gs p ! w)) (\<delta> w)"
    using assms(1) unfolding nested_ok_def gates_dealt_def by metis
  from dealt_sel_secret [OF this] show ?thesis by (simp add: mask_at_def)
qed

lemma multk_step_run:
  "gtype g \<in> {kInp, kMul4} \<Longrightarrow> multk_step E pid bits g st =
     run_gate (pre_arith pid (B_share E pid) (B_sec E pid)) (multk_inp E pid bits) g st"
  by (simp add: multk_step_def)

lemma pre_multk_run:
  "pre_multk E p bits s = (let R = run_joint (\<lambda>p. pre_arith p (B_share E p) (B_sec E p)) (\<lambda>p. multk_inp E p bits)
      (concat (gates_by_level multk_circ)) 0 (\<lambda>p. replicate (num_gates multk_circ) None) (\<lambda>p. s) p
    in (fst R, snd (snd R)))"
proof -
  obtain c where c: "multk_circ = orderGatesByLevel c" "generateMultK = Inr c" "circuit_ok c"
    by (rule multk_circ_ok) blast
  have "multk_step E p bits g st = run_gate (pre_arith p (B_share E p) (B_sec E p)) (multk_inp E p bits) g st"
    if "g \<in> set (concat (gates_by_level multk_circ))" for g st
    using generateMultK_kinds [OF c(2), of g] that set_orderGatesByLevel [OF c(3)] unfolding c(1)
    by (intro multk_step_run) blast
  then have "fold (multk_step E p bits) (concat (gates_by_level multk_circ)) =
      fold (run_gate (pre_arith p (B_share E p) (B_sec E p)) (multk_inp E p bits)) (concat (gates_by_level multk_circ))"
    by (intro fold_cong ext) auto
  then show ?thesis by (simp add: pre_multk_def run_joint_def fold_levels Let_def split_beta)
qed

lemma multk_inp_law:
  fixes E :: "('g, 'f::comm_ring_1) offline_env"
  shows "B.inp_law E kb kf (\<lambda>p. multk_inp E p (bits p)) (\<lambda>k out x pgs. x = bits 0 ! k) ctr out"
  unfolding B.inp_law_def
proof (intro allI impI conjI)
  fix st :: "nat \<Rightarrow> ('g, 'f) party_st"
  let ?x = "\<lambda>p. bits p ! ctr"
  have eq: "multk_inp E p (bits p) ctr out (st p) =
      (PreprocInput (fst (B_sec E p (?x p) (st p))) 0 (?x p), snd (B_sec E p (?x p) (st p)))" for p
    by (simp add: multk_inp_def Let_def split_beta)
  assume b: "full_bufs (oe_nP E) (\<lambda>p. snd (multk_inp E p (bits p) ctr out (st p)))"
  then have b': "full_bufs (oe_nP E) (\<lambda>p. snd (B_sec E p (?x p) (st p)))" by (simp add: eq)
  show "full_bufs (oe_nP E) st" by (rule B.sec_bok [OF b'])
  assume sync: "full_sync (oe_nP E) kf kb st"
  show "full_sync (oe_nP E) kf kb (\<lambda>p. snd (multk_inp E p (bits p) ctr out (st p)))"
    using B.sec_sync [OF sync b'] by (simp add: eq)
  show "\<exists>x. dealt_sel (oe_nP E) kb pg_mask (\<lambda>p. fst (multk_inp E p (bits p) ctr out (st p))) x \<and> x = bits 0 ! ctr"
    using B.sec_dealt [OF sync b'] by (simp add: eq dealt_sel_def)
qed

lemma arith_laws:
  fixes E :: "('g, 'f::comm_ring_1) offline_env" and c :: "BoolRing Circuit"
  assumes "\<forall>g\<in>set (circ_gates c). gtype g = kInp \<or> arith_gate g"
  shows "\<forall>g\<in>set (circ_gates c). gtype g = kInp \<or>
    B.gate_law E kb kf (\<lambda>p. pre_arith p (B_share E p) (B_sec E p) :: bool_gate option list \<Rightarrow> _) (arith_ok (oe_nP E) kb) g"
  using assms B.gate_law_arith by blast

lemma pre_multk_law:
  fixes E :: "('g, 'f::comm_ring_1) offline_env" and st :: "nat \<Rightarrow> ('g, 'f) party_st"
  assumes b: "full_bufs (oe_nP E) (\<lambda>p. snd (pre_multk E p (bits p) (st p)))"
  shows "full_bufs (oe_nP E) st"
    "full_sync (oe_nP E) kf kb st \<Longrightarrow> full_sync (oe_nP E) kf kb (\<lambda>p. snd (pre_multk E p (bits p) (st p))) \<and>
       (\<exists>\<delta>. nested_ok (oe_nP E) kb multk_circ (\<lambda>k. bits 0 ! k) \<delta> (\<lambda>p. fst (pre_multk E p (bits p) (st p))))"
proof -
  obtain c where c: "multk_circ = orderGatesByLevel c" "circuit_ok c"
    "\<forall>g\<in>set (circ_gates c). gtype g = kInp \<or> arith_gate g"
    by (rule multk_circ_ok) blast
  have eq: "pre_multk E p (bits p) (st p) =
     (let R = run_joint (\<lambda>p. pre_arith p (B_share E p) (B_sec E p)) (\<lambda>p. multk_inp E p (bits p))
      (concat (gates_by_level (orderGatesByLevel c))) 0 (\<lambda>p. replicate (length (circ_gates c)) None) st p
      in (fst R, snd (snd R)))" for p
    unfolding pre_multk_run c(1) by (simp add: run_joint_def)
  note D = B.circuit_dealt [OF c(2) arith_laws [OF c(3)] gate_cong_arith_ok multk_inp_law [of E kb kf bits]]
  show "full_bufs (oe_nP E) st" using D(1) b by (simp add: eq Let_def)
  show "full_sync (oe_nP E) kf kb (\<lambda>p. snd (pre_multk E p (bits p) (st p))) \<and>
       (\<exists>\<delta>. nested_ok (oe_nP E) kb multk_circ (\<lambda>k. bits 0 ! k) \<delta> (\<lambda>p. fst (pre_multk E p (bits p) (st p))))"
    if "full_sync (oe_nP E) kf kb st"
    using D(2) [OF _ that] b by (simp add: eq Let_def nested_ok_def c(1))
qed

lemma pre_prefixOR_run:
  "pre_prefixOR E p bits s =
     (let (pregates, s) = prefixOR_pregates E p bits s;
          R = run_joint (\<lambda>p. pre_arith p (B_share E p) (B_sec E p)) (\<lambda>p. prefixOR_inp pregates)
            (concat (gates_by_level prefixOR_circ)) 0 (\<lambda>p. replicate (num_gates prefixOR_circ) None) (\<lambda>p. s) p
      in (fst R, snd (snd R)))"
  by (simp add: pre_prefixOR_def run_joint_def fold_levels Let_def split_beta)

lemma pregates_law:
  fixes E :: "('g, 'f::comm_ring_1) offline_env" and st :: "nat \<Rightarrow> ('g, 'f) party_st"
  assumes b: "full_bufs (oe_nP E) (\<lambda>p. snd (prefixOR_pregates E p (bits p) (st p)))"
  shows "full_bufs (oe_nP E) st"
    "full_sync (oe_nP E) kf kb st \<Longrightarrow> full_sync (oe_nP E) kf kb (\<lambda>p. snd (prefixOR_pregates E p (bits p) (st p))) \<and>
       (\<forall>i<64. dealt_sel (oe_nP E) kb pg_mask (\<lambda>p. fst (prefixOR_pregates E p (bits p) (st p)) ! i) (bits 0 ! (63 - i)))"
proof -
  let ?bs = "\<lambda>p. map (\<lambda>i. bits p ! (63 - i)) [0..<64]"
  let ?D = "\<lambda>p. deal_all (B_sec E p) (?bs p) (st p)"
  have len: "\<And>p. length (?bs p) = 64" by simp
  have "length (fst (deal_all sec xs s)) = length xs" for sec :: "BoolRing \<Rightarrow> ('g, 'f) party_st \<Rightarrow> BoolRing mask \<times> _" and xs s
    by (induction xs arbitrary: s) (simp_all add: Let_def split_beta)
  then have eq: "snd (prefixOR_pregates E p (bits p) (st p)) = snd (?D p)"
    "i < 64 \<Longrightarrow> fst (prefixOR_pregates E p (bits p) (st p)) ! i = PreprocInput (fst (?D p) ! i) 0 (bits p ! (63 - i))" for p i
    by (simp_all add: prefixOR_pregates_def Let_def split_beta del: deal_all.simps)
  have b': "full_bufs (oe_nP E) (\<lambda>p. snd (?D p))" using b by (simp only: eq)
  show "full_bufs (oe_nP E) st" by (rule B.deal_all_bok [OF len b'])
  show "full_sync (oe_nP E) kf kb (\<lambda>p. snd (prefixOR_pregates E p (bits p) (st p))) \<and>
       (\<forall>i<64. dealt_sel (oe_nP E) kb pg_mask (\<lambda>p. fst (prefixOR_pregates E p (bits p) (st p)) ! i) (bits 0 ! (63 - i)))"
    if "full_sync (oe_nP E) kf kb st"
    using B.deal_all_ok [OF len that b'] by (simp add: eq dealt_sel_def del: deal_all.simps)
qed

lemma prefixOR_inp_law:
  assumes "\<forall>i<64. dealt_sel (oe_nP E) kb pg_mask (\<lambda>p. pregates p ! i) (x i)"
  shows "B.inp_law E kb kf (\<lambda>p. prefixOR_inp (pregates p)) (\<lambda>k out v pgs. v = x (k mod 64)) ctr out"
  using assms by (simp add: B.inp_law_def prefixOR_inp_def)

lemma pre_prefixOR_law:
  fixes E :: "('g, 'f::comm_ring_1) offline_env" and st :: "nat \<Rightarrow> ('g, 'f) party_st"
  assumes b: "full_bufs (oe_nP E) (\<lambda>p. snd (pre_prefixOR E p (bits p) (st p)))"
  shows "full_bufs (oe_nP E) st"
    "full_sync (oe_nP E) kf kb st \<Longrightarrow> full_sync (oe_nP E) kf kb (\<lambda>p. snd (pre_prefixOR E p (bits p) (st p))) \<and>
       (\<exists>\<delta>. nested_ok (oe_nP E) kb prefixOR_circ (\<lambda>k. bits 0 ! (63 - k mod 64)) \<delta> (\<lambda>p. fst (pre_prefixOR E p (bits p) (st p))))"
proof -
  obtain c where c: "prefixOR_circ = orderGatesByLevel c" "circuit_ok c"
    "\<forall>g\<in>set (circ_gates c). gtype g = kInp \<or> arith_gate g"
    by (rule prefixOR_circ_ok) blast
  let ?P = "\<lambda>p. prefixOR_pregates E p (bits p) (st p)"
  let ?R = "run_joint (\<lambda>p. pre_arith p (B_share E p) (B_sec E p)) (\<lambda>p. prefixOR_inp (fst (?P p)))
      (concat (gates_by_level (orderGatesByLevel c))) 0 (\<lambda>p. replicate (length (circ_gates c)) None) (\<lambda>p. snd (?P p))"
  have eq: "pre_prefixOR E p (bits p) (st p) = (fst (?R p), snd (snd (?R p)))" for p
    unfolding pre_prefixOR_run c(1) by (simp add: run_joint_def Let_def split_beta)
  have b': "full_bufs (oe_nP E) (\<lambda>p. snd (snd (?R p)))" using b by (simp add: eq)
  have laws: "\<forall>g\<in>set (concat (gates_by_level (orderGatesByLevel c))). gtype g = kInp \<or>
      B.gate_law E kb kf (\<lambda>p. pre_arith p (B_share E p) (B_sec E p) :: bool_gate option list \<Rightarrow> _) (arith_ok (oe_nP E) kb) g"
    for kf kb using arith_laws [OF c(3)] unfolding set_orderGatesByLevel [OF c(2)] .
  have b1: "full_bufs (oe_nP E) (\<lambda>p. snd (?P p))"
    by (rule B.run_joint_bok [OF b' _ B.gate_law_bok [OF laws]]) (simp add: prefixOR_inp_def)
  show "full_bufs (oe_nP E) st" by (rule pregates_law(1) [OF b1])
  assume sync: "full_sync (oe_nP E) kf kb st"
  note P = pregates_law(2) [OF b1 sync]
  note D = B.circuit_dealt(2) [OF c(2) arith_laws [OF c(3)] gate_cong_arith_ok prefixOR_inp_law [OF conjunct2 [OF P]] b']
  show "full_sync (oe_nP E) kf kb (\<lambda>p. snd (pre_prefixOR E p (bits p) (st p))) \<and>
       (\<exists>\<delta>. nested_ok (oe_nP E) kb prefixOR_circ (\<lambda>k. bits 0 ! (63 - k mod 64)) \<delta> (\<lambda>p. fst (pre_prefixOR E p (bits p) (st p))))"
    using D [OF conjunct1 [OF P]] by (simp add: eq nested_ok_def c(1))
qed

end
