(* ===== verification/Offline.thy ===== *)
theory Offline
  imports Offline_Nested
begin

section \<open>The offline phase (asterisk/offline_evaluator.cpp)\<close>

text \<open>
  \<open>OfflineEvaluator\<close>: key setup, the loop over the gates of the circuit, the messages by which
  the dealer (party 0) sends the last party its shares, and the output masks; then the boolean
  \<open>OfflineBoolEvaluator\<close>. The network is the identity on messages here: what the dealer passes
  to \<open>send\<close> is what the last party gets from \<open>recv\<close>.
\<close>

subsection \<open>The gates of the field evaluator\<close>

fun pre_field ::
  "('g, 'f::comm_ring_1) offline_env \<Rightarrow> nat \<Rightarrow> 'f field_gate option list \<Rightarrow> 'f gate \<Rightarrow> ('g, 'f) party_st \<Rightarrow>
   'f field_gate option \<times> ('g, 'f) party_st" where
  "pre_field E pid gs (FIn1Gate t a out) s =
     (if t = kEqz then apfst Some (pre_eqz E pid gs a s)
      else if t = kLtz then apfst Some (pre_ltz E pid gs a s) else (None, s))"
| "pre_field E pid gs g s = pre_arith pid (F_share E pid) (F_sec E pid) gs g s"

definition field_inp ::
  "('g, 'f::comm_ring_1) offline_env \<Rightarrow> nat \<Rightarrow> nat \<Rightarrow> ('g, 'f) party_st \<Rightarrow> 'f field_gate \<times> ('g, 'f) party_st" where
  "field_inp E pid dealer s = (let ((m, v), s) = F_party E pid dealer s in (PreprocInput m dealer v, s))"

text \<open>One gate of the circuit; \<open>input_pid_map.at\<close> throws for an input wire that has no party.\<close>

definition field_step ::
  "('g, 'f::comm_ring_1) offline_env \<Rightarrow> nat \<Rightarrow> (wire_t, nat) umap \<Rightarrow> 'f gate \<Rightarrow>
   'f field_gate option list \<times> ('g, 'f) party_st \<Rightarrow> exn + 'f field_gate option list \<times> ('g, 'f) party_st" where
  "field_step E pid input_pid_map g = (\<lambda>(gs, s).
     if gtype g = kInp then
       (case umap_at input_pid_map (gout g) of
          Inl e \<Rightarrow> Inl e
        | Inr d \<Rightarrow> let (pg, s) = field_inp E pid d s in Inr (gs[gout g := Some pg], s))
     else let (pg, s) = pre_field E pid gs g s in Inr (store_pre (gout g) pg gs, s))"

text \<open>The six vectors for the last party, as arguments and results of \<open>setWireMasksParty\<close>.\<close>

record 'r vecs =
  v_rand_sh :: "'r list"
  v_rand_sh_sec :: "'r list"
  v_rand_sh_party :: "'r list"

definition no_vecs :: "'r vecs" where
  "no_vecs = \<lparr>v_rand_sh = [], v_rand_sh_sec = [], v_rand_sh_party = []\<rparr>"

definition mk_pool :: "'r \<Rightarrow> 'r list \<Rightarrow> 'r vecs \<Rightarrow> 'r pool" where
  "mk_pool key keySh v =
     \<lparr>pl_key = key, pl_keySh = keySh, pl_rand_sh = v_rand_sh v, pl_idx_rand_sh = 0,
      pl_rand_sh_sec = v_rand_sh_sec v, pl_idx_rand_sh_sec = 0,
      pl_rand_sh_party = v_rand_sh_party v, pl_idx_rand_sh_party = 0\<rparr>"

definition pool_vecs :: "'r pool \<Rightarrow> 'r vecs" where
  "pool_vecs pl = \<lparr>v_rand_sh = pl_rand_sh pl, v_rand_sh_sec = pl_rand_sh_sec pl, v_rand_sh_party = pl_rand_sh_party pl\<rparr>"

definition key_setup ::
  "('g, 'f::comm_ring_1) offline_env \<Rightarrow> nat \<Rightarrow> 'g RandGenPool \<Rightarrow> 'f vecs \<Rightarrow> BoolRing vecs \<Rightarrow> ('g, 'f) party_st" where
  "key_setup E pid rgen v bv =
     (let (keySh, key, rgen) = keyGen (oe_field E) (oe_nP E) pid rgen (replicate (oe_nP E + 1) 0);
          (bkeySh, bkey, rgen) = keyGen (oe_bool E) (oe_nP E) pid rgen (replicate (oe_nP E + 1) 0)
      in (rgen, mk_pool key keySh v, mk_pool bkey bkeySh bv))"

definition setWireMasksParty ::
  "('g, 'f::comm_ring_1) offline_env \<Rightarrow> 'f LevelOrderedCircuit \<Rightarrow> nat \<Rightarrow> (wire_t, nat) umap \<Rightarrow> 'g RandGenPool \<Rightarrow>
   'f vecs \<Rightarrow> BoolRing vecs \<Rightarrow> exn + 'f field_gate option list \<times> ('g, 'f) party_st" where
  "setWireMasksParty E circ pid input_pid_map rgen v bv =
     foldE (foldE (field_step E pid input_pid_map)) (gates_by_level circ)
       (replicate (num_gates circ) None, key_setup E pid rgen v bv)"

subsection \<open>The dealer's messages to the last party\<close>

text \<open>\<open>copy_into off src dst\<close> is the loop that copies \<open>src\<close> into \<open>dst\<close> from position \<open>off\<close> on.\<close>

definition copy_into :: "nat \<Rightarrow> 'a list \<Rightarrow> 'a list \<Rightarrow> 'a list" where
  "copy_into off src dst = fold (\<lambda>i d. d[off + i := src ! i]) [0..<length src] dst"

definition join_vecs :: "'r::zero vecs \<Rightarrow> 'r list" where
  "join_vecs v =
     (let rand_sh_num = length (v_rand_sh v);
          rand_sh_sec_num = length (v_rand_sh_sec v);
          rand_sh_party_num = length (v_rand_sh_party v);
          comm = replicate (rand_sh_num + rand_sh_sec_num + rand_sh_party_num) 0
      in copy_into (rand_sh_sec_num + rand_sh_num) (v_rand_sh_party v)
           (copy_into rand_sh_num (v_rand_sh_sec v) (copy_into 0 (v_rand_sh v) comm)))"

definition split_vecs :: "'r list \<Rightarrow> nat \<Rightarrow> nat \<Rightarrow> nat \<Rightarrow> 'r vecs" where
  "split_vecs comm rand_sh_num rand_sh_sec_num rand_sh_party_num =
     \<lparr>v_rand_sh = map (\<lambda>i. comm ! i) [0..<rand_sh_num],
      v_rand_sh_sec = map (\<lambda>i. comm ! (rand_sh_num + i)) [0..<rand_sh_sec_num],
      v_rand_sh_party = map (\<lambda>i. comm ! (rand_sh_num + rand_sh_sec_num + i)) [0..<rand_sh_party_num]\<rparr>"

type_synonym 'f offline_msgs = "nat list \<times> 'f list \<times> u8 list"

definition offline_lengths :: "'f vecs \<Rightarrow> BoolRing vecs \<Rightarrow> nat list" where
  "offline_lengths v bv =
     [length (v_rand_sh v) + length (v_rand_sh_sec v) + length (v_rand_sh_party v),
      length (v_rand_sh v), length (v_rand_sh_sec v), length (v_rand_sh_party v),
      length (v_rand_sh bv) + length (v_rand_sh_sec bv) + length (v_rand_sh_party bv),
      length (v_rand_sh bv), length (v_rand_sh_sec bv), length (v_rand_sh_party bv)]"

definition dealer_msgs :: "'f::zero vecs \<Rightarrow> BoolRing vecs \<Rightarrow> 'f offline_msgs" where
  "dealer_msgs v bv = (offline_lengths v bv, join_vecs v, pack (join_vecs bv))"

definition receive_msgs :: "'f offline_msgs \<Rightarrow> 'f vecs \<times> BoolRing vecs" where
  "receive_msgs = (\<lambda>(lengths, offline_arith_comm, net_data).
     let offline_bool_comm = unpack net_data (lengths ! 4)
     in (split_vecs offline_arith_comm (lengths ! 1) (lengths ! 2) (lengths ! 3),
         split_vecs offline_bool_comm (lengths ! 5) (lengths ! 6) (lengths ! 7)))"

text \<open>
  \<open>setWireMasks\<close> of party \<open>pid\<close>. The last party first receives \<open>msgs\<close>; the result has the
  messages sent, which only the dealer does.
\<close>

definition setWireMasks ::
  "('g, 'f::comm_ring_1) offline_env \<Rightarrow> 'f LevelOrderedCircuit \<Rightarrow> nat \<Rightarrow> (wire_t, nat) umap \<Rightarrow> 'g RandGenPool \<Rightarrow>
   'f offline_msgs \<Rightarrow> exn + 'f field_gate option list \<times> ('g, 'f) party_st \<times> 'f offline_msgs option" where
  "setWireMasks E circ pid input_pid_map rgen msgs =
     (if pid \<noteq> oe_nP E then
        (case setWireMasksParty E circ pid input_pid_map rgen no_vecs no_vecs of
           Inl e \<Rightarrow> Inl e
         | Inr (gs, s) \<Rightarrow> Inr (gs, s,
             if pid = 0 then Some (dealer_msgs (pool_vecs (fst (snd s))) (pool_vecs (snd (snd s)))) else None))
      else let (v, bv) = receive_msgs msgs in
        (case setWireMasksParty E circ pid input_pid_map rgen v bv of
           Inl e \<Rightarrow> Inl e
         | Inr (gs, s) \<Rightarrow> Inr (gs, s, None)))"

definition getOutputMasks :: "'f::comm_ring_1 LevelOrderedCircuit \<Rightarrow> nat \<Rightarrow> 'f field_gate option list \<Rightarrow> 'f list" where
  "getOutputMasks circ pid gs =
     (if pid = 0 then map (\<lambda>w. secret (snd (mask_at gs w))) (outputs circ)
      else map (\<lambda>w. 0) (outputs circ))"

subsection \<open>Equality and comparison gates are dealt\<close>

lemma F_all_law:
  "full_bufs n (\<lambda>p. snd (F_all E (st p))) \<longleftrightarrow> full_bufs n st"
  "full_sync n kf kb st \<Longrightarrow> full_sync n kf kb (\<lambda>p. snd (F_all E (st p)))"
  "full_sync n kf kb st \<Longrightarrow> 1 \<le> p \<Longrightarrow> p \<le> n \<Longrightarrow> fst (F_all E (st p)) = fst (F_all E (st 0))"
proof -
  have eq: "F_all E s = (fst (oe_field E (k_all (fst s))),
      (fst s)\<lparr>k_all := snd (oe_field E (k_all (fst s)))\<rparr>, snd s)" for s
    by (simp add: F_all_def draw_all_def Let_def split_beta)
  show "full_bufs n (\<lambda>p. snd (F_all E (st p))) \<longleftrightarrow> full_bufs n st" by (simp add: eq full_bufs_def)
  show "full_sync n kf kb st \<Longrightarrow> full_sync n kf kb (\<lambda>p. snd (F_all E (st p)))"
    by (auto simp: eq full_sync_def rgs_ok_def)
  show "full_sync n kf kb st \<Longrightarrow> 1 \<le> p \<Longrightarrow> p \<le> n \<Longrightarrow> fst (F_all E (st p)) = fst (F_all E (st 0))"
    by (simp add: eq full_sync_def rgs_ok_def)
qed

text \<open>
  What an equality gate holds, for an input mask \<open>da\<close> and an output mask \<open>dout\<close>: with
  \<open>r = padded_val + da\<close>, a sharing of \<open>r\<close> and of a fresh \<open>\<mu>\<close>, the nested circuit preprocessed with the
  bits of \<open>r\<close> as input masks, a sharing of the mask \<open>\<beta>\<close> of its output bit, and \<open>dout = - \<beta> - 2 \<mu>\<close>.
\<close>

definition eqz_ok ::
  "nat \<Rightarrow> (nat \<Rightarrow> 'f::comm_ring_1) \<Rightarrow> (nat \<Rightarrow> BoolRing) \<Rightarrow> ('f \<Rightarrow> u64) \<Rightarrow> 'f \<Rightarrow> 'f \<Rightarrow> (nat \<Rightarrow> 'f field_gate) \<Rightarrow> bool" where
  "eqz_ok n kf kb conv da dout pgs \<longleftrightarrow>
     (\<exists>\<mu> \<delta>. (\<forall>p\<in>{1..n}. padded_val (pgs p) = padded_val (pgs 0)) \<and>
        dealt_sel n kf mask_w pgs \<mu> \<and> dealt_sel n kf rval pgs (padded_val (pgs 0) + da) \<and>
        nested_ok n kb multk_circ (\<lambda>k. bitDecomposeTwo conv (padded_val (pgs 0) + da) ! k) \<delta> (\<lambda>p. multk_gates (pgs p)) \<and>
        dealt_sel n kf mask_b pgs (of_bool (val (\<delta> (outputs multk_circ ! 0)))) \<and>
        dout = - of_bool (val (\<delta> (outputs multk_circ ! 0))) - 2 * \<mu>)"

definition ltz_ok ::
  "nat \<Rightarrow> (nat \<Rightarrow> 'f::comm_ring_1) \<Rightarrow> (nat \<Rightarrow> BoolRing) \<Rightarrow> ('f \<Rightarrow> u64) \<Rightarrow> 'f \<Rightarrow> 'f \<Rightarrow> (nat \<Rightarrow> 'f field_gate) \<Rightarrow> bool" where
  "ltz_ok n kf kb conv da dout pgs \<longleftrightarrow>
     (\<exists>\<mu> \<delta>. (\<forall>p\<in>{1..n}. padded_val (pgs p) = padded_val (pgs 0)) \<and>
        dealt_sel n kf mask_w pgs \<mu> \<and>
        nested_ok n kb prefixOR_circ (\<lambda>k. bitDecomposeTwo conv (padded_val (pgs 0) + da) ! (63 - k mod 64)) \<delta>
          (\<lambda>p. PrefixOR_gates (pgs p)) \<and>
        dealt_sel n kf mask_b pgs (of_bool (val (\<delta> (outputs prefixOR_circ ! 0)))) \<and>
        dout = - of_bool (val (\<delta> (outputs prefixOR_circ ! 0))) - 2 * \<mu>)"

lemma multk_secret:
  "nested_ok n kb multk_circ mb \<delta> gs \<Longrightarrow> secret (snd (mask_at (gs 0) (outputs multk_circ ! 0))) = \<delta> (outputs multk_circ ! 0)"
proof -
  assume ok: "nested_ok n kb multk_circ mb \<delta> gs"
  obtain c w where c: "multk_circ = orderGatesByLevel c" "circuit_ok c" "circ_outputs c = [w]" "w < length (circ_gates c)"
    by (rule multk_circ_ok) blast
  show ?thesis using nested_secret [OF ok [unfolded c(1)] c(2,4)] by (simp add: c(1,3))
qed

lemma prefixOR_secret:
  "nested_ok n kb prefixOR_circ mb \<delta> gs \<Longrightarrow>
   secret (snd (mask_at (gs 0) (outputs prefixOR_circ ! 0))) = \<delta> (outputs prefixOR_circ ! 0)"
proof -
  assume ok: "nested_ok n kb prefixOR_circ mb \<delta> gs"
  obtain c w where c: "prefixOR_circ = orderGatesByLevel c" "circuit_ok c" "circ_outputs c = [w]" "w < length (circ_gates c)"
    by (rule prefixOR_circ_ok) blast
  show ?thesis using nested_secret [OF ok [unfolded c(1)] c(2,4)] by (simp add: c(1,3))
qed

lemma BoolRing_eq_1: "(x = 1) = val x"
  by (cases x) (simp add: one_BoolRing_def)

lemma mask_out_dealt:
  assumes "dealt n kf (snd (b 0)) (\<lambda>p. fst (b p)) y" "dealt n kf (snd (w 0)) (\<lambda>p. fst (w p)) \<mu>"
  shows "dealt n kf (snd (m_add (m_mul (b 0) (- 1)) (m_mul (w 0) (- 2)))) (\<lambda>p. fst (m_add (m_mul (b p) (- 1)) (m_mul (w p) (- 2))))
      (- y - 2 * \<mu>)"
    "dealt n kf (snd (m_add (m_mul (w 0) (- 2)) (m_mul (b 0) (- 1)))) (\<lambda>p. fst (m_add (m_mul (w p) (- 2)) (m_mul (b p) (- 1))))
      (- y - 2 * \<mu>)"
  using dealt_add [OF dealt_mul [OF assms(1), of "- 1"] dealt_mul [OF assms(2), of "- 2"]]
    dealt_add [OF dealt_mul [OF assms(2), of "- 2"] dealt_mul [OF assms(1), of "- 1"]]
  by (simp_all add: m_add_def m_mul_def algebra_simps)

lemma pre_eqz_joint:
  fixes E :: "('g, 'f::comm_ring_1) offline_env" and st :: "nat \<Rightarrow> ('g, 'f) party_st"
  assumes b: "full_bufs (oe_nP E) (\<lambda>p. snd (pre_eqz E p (G p) a (st p)))"
  shows "full_bufs (oe_nP E) st"
    "full_sync (oe_nP E) kf kb st \<Longrightarrow> secret (snd (mask_at (G 0) a)) = da \<Longrightarrow>
       full_sync (oe_nP E) kf kb (\<lambda>p. snd (pre_eqz E p (G p) a (st p))) \<and>
       (\<exists>x. dealt_sel (oe_nP E) kf pg_mask (\<lambda>p. fst (pre_eqz E p (G p) a (st p))) x \<and>
          eqz_ok (oe_nP E) kf kb (oe_conv E) da x (\<lambda>p. fst (pre_eqz E p (G p) a (st p))))"
proof -
  let ?n = "oe_nP E"
  define W where "W p = F_share E p (st p)" for p
  define A where "A p = F_all E (snd (W p))" for p
  define r where "r p = (if p = 0 then fst (A p) + secret (snd (mask_at (G p) a)) else 0)" for p :: nat
  define R where "R p = F_sec E p (r p) (snd (A p))" for p
  define M where "M p = pre_multk E p (if p = 0 then bitDecomposeTwo (oe_conv E) (r p) else replicate 64 0) (snd (R p))" for p
  define y where "y p = (if p = 0 \<and> secret (snd (mask_at (fst (M p)) (outputs multk_circ ! 0))) = 1 then 1 else 0 :: 'f)" for p
  define S where "S p = F_sec E p (y p) (snd (M p))" for p
  note defs = W_def A_def r_def R_def M_def y_def S_def
  have eq: "pre_eqz E p (G p) a (st p) = (mk_PreprocEqzGate (fst (W p)) (fst (S p)) (fst (R p)) (fst (M p)) (fst (A p)), snd (S p))" for p
    unfolding pre_eqz_def by (simp add: defs Let_def split_beta cong: if_cong)
  have b5: "full_bufs ?n (\<lambda>p. snd (S p))" using b by (simp add: eq)
  have b4: "full_bufs ?n (\<lambda>p. snd (M p))" by (rule F.sec_bok) (use b5 in \<open>simp add: S_def\<close>)
  have b3: "full_bufs ?n (\<lambda>p. snd (R p))" by (rule pre_multk_law(1)) (use b4 in \<open>simp add: M_def\<close>)
  have b2: "full_bufs ?n (\<lambda>p. snd (A p))" by (rule F.sec_bok) (use b3 in \<open>simp add: R_def\<close>)
  have b1: "full_bufs ?n (\<lambda>p. snd (W p))" using b2 by (simp add: A_def F_all_law(1))
  show "full_bufs ?n st" by (rule F.share_bok) (use b1 in \<open>simp add: W_def\<close>)
  assume sync: "full_sync ?n kf kb st" and da: "secret (snd (mask_at (G 0) a)) = da"
  note b = b1 b2 b3 b4 b5
  have s1: "full_sync ?n kf kb (\<lambda>p. snd (W p))"
    using F.share_sync [OF sync b1 [unfolded W_def]] by (simp add: W_def)
  have s2: "full_sync ?n kf kb (\<lambda>p. snd (A p))" using F_all_law(2) [OF s1] by (simp add: A_def)
  have s3: "full_sync ?n kf kb (\<lambda>p. snd (R p))" using F.sec_sync [OF s2 b3 [unfolded R_def]] by (simp add: R_def)
  note M = pre_multk_law(2) [OF b4 [unfolded M_def] s3]
  obtain \<delta> where s4: "full_sync ?n kf kb (\<lambda>p. snd (M p))"
    and \<delta>: "nested_ok ?n kb multk_circ (\<lambda>k. bitDecomposeTwo (oe_conv E) (r 0) ! k) \<delta> (\<lambda>p. fst (M p))"
    using M unfolding M_def by auto
  have s5: "full_sync ?n kf kb (\<lambda>p. snd (S p))" using F.sec_sync [OF s4 b5 [unfolded S_def]] by (simp add: S_def)
  obtain \<mu> where w: "dealt ?n kf (snd (fst (W 0))) (\<lambda>p. fst (fst (W p))) \<mu>"
    using F.share_dealt [OF sync b1 [unfolded W_def]] by (auto simp: W_def)
  have r: "dealt ?n kf (snd (fst (R 0))) (\<lambda>p. fst (fst (R p))) (fst (A 0) + da)"
    using F.sec_dealt [OF s2 b3 [unfolded R_def]] by (simp add: R_def) (simp add: r_def da)
  have y: "y 0 = of_bool (val (\<delta> (outputs multk_circ ! 0)))"
    using multk_secret [OF \<delta>] by (simp add: y_def BoolRing_eq_1)
  have bd: "dealt ?n kf (snd (fst (S 0))) (\<lambda>p. fst (fst (S p))) (of_bool (val (\<delta> (outputs multk_circ ! 0))))"
    using F.sec_dealt [OF s4 b5 [unfolded S_def]] unfolding S_def [symmetric] unfolding y .
  have pad: "\<forall>p\<in>{1..?n}. fst (A p) = fst (A 0)"
    using F_all_law(3) [OF s1] by (simp add: A_def)
  have r0: "r 0 = fst (A 0) + da" by (simp add: r_def da)
  have "dealt_sel ?n kf pg_mask (\<lambda>p. fst (pre_eqz E p (G p) a (st p))) (- of_bool (val (\<delta> (outputs multk_circ ! 0))) - 2 * \<mu>) \<and>
      eqz_ok ?n kf kb (oe_conv E) da (- of_bool (val (\<delta> (outputs multk_circ ! 0))) - 2 * \<mu>) (\<lambda>p. fst (pre_eqz E p (G p) a (st p)))"
    unfolding dealt_sel_def eqz_ok_def eq mk_PreprocEqzGate_def fst_conv preproc_gate.sel
    by (intro conjI exI [of _ \<mu>] exI [of _ \<delta>] refl mask_out_dealt(1) [OF bd w] pad w r \<delta> [unfolded r0] bd)
  with s5 show "full_sync ?n kf kb (\<lambda>p. snd (pre_eqz E p (G p) a (st p))) \<and>
       (\<exists>x. dealt_sel ?n kf pg_mask (\<lambda>p. fst (pre_eqz E p (G p) a (st p))) x \<and>
          eqz_ok ?n kf kb (oe_conv E) da x (\<lambda>p. fst (pre_eqz E p (G p) a (st p))))"
    unfolding eq snd_conv by blast
qed

lemma pre_ltz_joint:
  fixes E :: "('g, 'f::comm_ring_1) offline_env" and st :: "nat \<Rightarrow> ('g, 'f) party_st"
  assumes b: "full_bufs (oe_nP E) (\<lambda>p. snd (pre_ltz E p (G p) a (st p)))"
  shows "full_bufs (oe_nP E) st"
    "full_sync (oe_nP E) kf kb st \<Longrightarrow> secret (snd (mask_at (G 0) a)) = da \<Longrightarrow>
       full_sync (oe_nP E) kf kb (\<lambda>p. snd (pre_ltz E p (G p) a (st p))) \<and>
       (\<exists>x. dealt_sel (oe_nP E) kf pg_mask (\<lambda>p. fst (pre_ltz E p (G p) a (st p))) x \<and>
          ltz_ok (oe_nP E) kf kb (oe_conv E) da x (\<lambda>p. fst (pre_ltz E p (G p) a (st p))))"
proof -
  let ?n = "oe_nP E"
  define A where "A p = F_all E (st p)" for p
  define r where "r p = (if p = 0 then fst (A p) + secret (snd (mask_at (G p) a)) else 0)" for p :: nat
  define M where "M p = pre_prefixOR E p (if p = 0 then bitDecomposeTwo (oe_conv E) (r p) else replicate 64 0) (snd (A p))" for p
  define y where "y p = (if p = 0 \<and> secret (snd (mask_at (fst (M p)) (outputs prefixOR_circ ! 0))) = 1 then 1 else 0 :: 'f)" for p
  define S where "S p = F_sec E p (y p) (snd (M p))" for p
  define W where "W p = F_share E p (snd (S p))" for p
  note defs = A_def r_def M_def y_def S_def W_def
  have eq: "pre_ltz E p (G p) a (st p) =
      (PreprocLtzGate (m_add (m_mul (fst (W p)) (- 2)) (m_mul (fst (S p)) (- 1))) (fst (W p)) (fst (S p)) (fst (M p)) (fst (A p)),
       snd (W p))" for p
    unfolding pre_ltz_def by (simp add: defs Let_def split_beta cong: if_cong)
  have b4: "full_bufs ?n (\<lambda>p. snd (W p))" using b by (simp add: eq)
  have b3: "full_bufs ?n (\<lambda>p. snd (S p))" by (rule F.share_bok) (use b4 in \<open>simp add: W_def\<close>)
  have b2: "full_bufs ?n (\<lambda>p. snd (M p))" by (rule F.sec_bok) (use b3 in \<open>simp add: S_def\<close>)
  have b1: "full_bufs ?n (\<lambda>p. snd (A p))" by (rule pre_prefixOR_law(1)) (use b2 in \<open>simp add: M_def\<close>)
  then show "full_bufs ?n st" by (simp add: A_def F_all_law(1))
  assume sync: "full_sync ?n kf kb st" and da: "secret (snd (mask_at (G 0) a)) = da"
  have s1: "full_sync ?n kf kb (\<lambda>p. snd (A p))" using F_all_law(2) [OF sync] by (simp add: A_def)
  note M = pre_prefixOR_law(2) [OF b2 [unfolded M_def] s1]
  obtain \<delta> where s2: "full_sync ?n kf kb (\<lambda>p. snd (M p))"
    and \<delta>: "nested_ok ?n kb prefixOR_circ (\<lambda>k. bitDecomposeTwo (oe_conv E) (r 0) ! (63 - k mod 64)) \<delta> (\<lambda>p. fst (M p))"
    using M unfolding M_def by auto
  have s3: "full_sync ?n kf kb (\<lambda>p. snd (S p))" using F.sec_sync [OF s2 b3 [unfolded S_def]] by (simp add: S_def)
  have s4: "full_sync ?n kf kb (\<lambda>p. snd (W p))"
    using F.share_sync [OF s3 b4 [unfolded W_def]] by (simp add: W_def)
  obtain \<mu> where w: "dealt ?n kf (snd (fst (W 0))) (\<lambda>p. fst (fst (W p))) \<mu>"
    using F.share_dealt [OF s3 b4 [unfolded W_def]] by (auto simp: W_def)
  have y: "y 0 = of_bool (val (\<delta> (outputs prefixOR_circ ! 0)))"
    using prefixOR_secret [OF \<delta>] by (simp add: y_def BoolRing_eq_1)
  have bd: "dealt ?n kf (snd (fst (S 0))) (\<lambda>p. fst (fst (S p))) (of_bool (val (\<delta> (outputs prefixOR_circ ! 0))))"
    using F.sec_dealt [OF s2 b3 [unfolded S_def]] unfolding S_def [symmetric] unfolding y .
  have pad: "\<forall>p\<in>{1..?n}. fst (A p) = fst (A 0)"
    using F_all_law(3) [OF sync] by (simp add: A_def)
  have r0: "r 0 = fst (A 0) + da" by (simp add: r_def da)
  have "dealt_sel ?n kf pg_mask (\<lambda>p. fst (pre_ltz E p (G p) a (st p))) (- of_bool (val (\<delta> (outputs prefixOR_circ ! 0))) - 2 * \<mu>) \<and>
      ltz_ok ?n kf kb (oe_conv E) da (- of_bool (val (\<delta> (outputs prefixOR_circ ! 0))) - 2 * \<mu>) (\<lambda>p. fst (pre_ltz E p (G p) a (st p)))"
    unfolding dealt_sel_def ltz_ok_def eq fst_conv preproc_gate.sel
    by (intro conjI exI [of _ \<mu>] exI [of _ \<delta>] refl mask_out_dealt(2) [OF bd w] pad w \<delta> [unfolded r0] bd)
  with s4 show "full_sync ?n kf kb (\<lambda>p. snd (pre_ltz E p (G p) a (st p))) \<and>
       (\<exists>x. dealt_sel ?n kf pg_mask (\<lambda>p. fst (pre_ltz E p (G p) a (st p))) x \<and>
          ltz_ok ?n kf kb (oe_conv E) da x (\<lambda>p. fst (pre_ltz E p (G p) a (st p))))"
    unfolding eq snd_conv by blast
qed

subsection \<open>The whole circuit\<close>

text \<open>The gates the offline phase of the field evaluator handles, and what it leaves for each.\<close>

definition field_gate_kind :: "'f gate \<Rightarrow> bool" where
  "field_gate_kind g \<longleftrightarrow> arith_gate g \<or> gate_typed g \<and> gtype g \<in> {kEqz, kLtz}"

fun field_ok ::
  "nat \<Rightarrow> (nat \<Rightarrow> 'f::comm_ring_1) \<Rightarrow> (nat \<Rightarrow> BoolRing) \<Rightarrow> ('f \<Rightarrow> u64) \<Rightarrow> (wire_t \<Rightarrow> 'f) \<Rightarrow> 'f gate \<Rightarrow>
   (nat \<Rightarrow> 'f field_gate) \<Rightarrow> bool" where
  "field_ok n kf kb conv \<delta> (FIn1Gate t a out) pgs =
     (if t = kEqz then eqz_ok n kf kb conv (\<delta> a) (\<delta> out) pgs else ltz_ok n kf kb conv (\<delta> a) (\<delta> out) pgs)"
| "field_ok n kf kb conv \<delta> g pgs = arith_ok n kf \<delta> g pgs"

lemma gate_cong_field_ok: "gate_cong (field_ok n kf kb conv)"
  unfolding gate_cong_def
proof (intro allI impI)
  fix \<delta> \<delta>' :: "wire_t \<Rightarrow> 'a" and g :: "'a gate" and pgs :: "nat \<Rightarrow> 'a field_gate"
  assume "gate_typed g" "\<forall>w\<in>insert (gout g) (set (gins g)). \<delta> w = \<delta>' w"
  moreover from this have "arith_ok n kf \<delta> g pgs = arith_ok n kf \<delta>' g pgs"
    by (intro arith_ok_cong) auto
  ultimately show "field_ok n kf kb conv \<delta> g pgs = field_ok n kf kb conv \<delta>' g pgs"
    by (cases g) auto
qed

lemma gate_law_field:
  fixes E :: "('g, 'f::comm_ring_1) offline_env"
  assumes "field_gate_kind g"
  shows "F.gate_law E kf kb (pre_field E) (field_ok (oe_nP E) kf kb (oe_conv E)) g"
proof (cases "\<exists>t a out. g = FIn1Gate t a out")
  case True
  then obtain t a out where g: "g = FIn1Gate t a out" by blast
  have eq: "pre_field E p gs (FIn1Gate kEqz a out) s = apfst Some (pre_eqz E p gs a s)"
    "pre_field E p gs (FIn1Gate kLtz a out) s = apfst Some (pre_ltz E p gs a s)" for p gs s by simp_all
  have "F.gate_law E kf kb (pre_field E) (field_ok (oe_nP E) kf kb (oe_conv E)) (FIn1Gate kEqz a out)"
    unfolding F.gate_law_def eq
  proof (intro allI impI conjI, goal_cases)
    case (1 G st \<delta>)
    from 1(1) show ?case by (intro pre_eqz_joint(1) [of E G a st]) simp
  next
    case (2 G st \<delta>)
    then show ?case using pre_eqz_joint(2) [of E G a st] by simp
  next
    case (3 G st \<delta> p)
    then show ?case by simp
  next
    case (4 G st \<delta>)
    then have "secret (snd (mask_at (G 0) a)) = \<delta> a" by (auto intro: dealt_sel_secret)
    with 4 show ?case using pre_eqz_joint(2) [of E G a st kf kb "\<delta> a"] by simp
  qed
  moreover have "F.gate_law E kf kb (pre_field E) (field_ok (oe_nP E) kf kb (oe_conv E)) (FIn1Gate kLtz a out)"
    unfolding F.gate_law_def eq
  proof (intro allI impI conjI, goal_cases)
    case (1 G st \<delta>)
    from 1(1) show ?case by (intro pre_ltz_joint(1) [of E G a st]) simp
  next
    case (2 G st \<delta>)
    then show ?case using pre_ltz_joint(2) [of E G a st] by simp
  next
    case (3 G st \<delta> p)
    then show ?case by simp
  next
    case (4 G st \<delta>)
    then have "secret (snd (mask_at (G 0) a)) = \<delta> a" by (auto intro: dealt_sel_secret)
    with 4 show ?case using pre_ltz_joint(2) [of E G a st kf kb "\<delta> a"] by simp
  qed
  ultimately show ?thesis
    using assms by (auto simp: g field_gate_kind_def arith_gate_def)
next
  case False
  then have "pre_field E p gs g s = pre_arith p (F_share E p) (F_sec E p) gs g s"
    "field_ok (oe_nP E) kf kb (oe_conv E) \<delta> g pgs = arith_ok (oe_nP E) kf \<delta> g pgs" for p gs s \<delta> pgs
    by (cases g; simp)+
  moreover have "arith_gate g" using assms False by (cases g) (auto simp: field_gate_kind_def)
  ultimately show ?thesis using F.gate_law_arith [of g E kf kb] by (simp add: F.gate_law_def)
qed

text \<open>The party an input wire belongs to, and what the input's preprocessing leaves for it.\<close>

definition party_of :: "(wire_t, nat) umap \<Rightarrow> wire_t \<Rightarrow> nat" where
  "party_of m w = (case map_of m w of None \<Rightarrow> 0 | Some d \<Rightarrow> d)"

definition party_inp :: "(wire_t, nat) umap \<Rightarrow> nat \<Rightarrow> wire_t \<Rightarrow> 'r \<Rightarrow> (nat \<Rightarrow> ('r, 'b) preproc_gate) \<Rightarrow> bool" where
  "party_inp m k out x pgs \<longleftrightarrow> (\<forall>p. is_PreprocInput (pgs p) \<and> inp_pid (pgs p) = party_of m out) \<and>
     (party_of m out \<noteq> 0 \<longrightarrow> mask_value (pgs (party_of m out)) = x)"

lemma field_inp_law:
  fixes E :: "('g, 'f::comm_ring_1) offline_env"
  assumes "\<forall>d\<in>ran (map_of m). d \<le> oe_nP E"
  shows "F.inp_law E kf kb (\<lambda>p k out. field_inp E p (party_of m out)) (party_inp m) k out"
  unfolding F.inp_law_def
proof (intro allI impI conjI)
  fix st :: "nat \<Rightarrow> ('g, 'f) party_st"
  let ?n = "oe_nP E" and ?d = "party_of m out"
  let ?C = "\<lambda>p. call_randomShareWithParty (oe_field E) ?n p ?d 0 (f_st (st p))"
  have d: "?d \<le> ?n" using assms by (auto simp: party_of_def ran_def split: option.splits)
  have eq: "field_inp E p ?d s = (PreprocInput (fst (fst (F_party E p ?d s))) ?d (snd (fst (F_party E p ?d s))), snd (F_party E p ?d s))" for p s
    by (simp add: field_inp_def Let_def split_beta)
  assume "full_bufs ?n (\<lambda>p. snd (field_inp E p ?d (st p)))"
  then have b: "deal_bufs ?n (\<lambda>p. snd (?C p))" "bufs_ok ?n (\<lambda>p. snd (snd (st p)))"
    by (simp_all add: eq F_party_def full_field)
  show "full_bufs ?n st" using deal_bufs_back(3) [of ?n "oe_field E" ?d "\<lambda>_. 0"  "\<lambda>p. f_st (st p)"] b
    by (simp add: full_parts(3))
  assume sync: "full_sync ?n kf kb st"
  note C = call_randomShareWithParty_ok [OF _ d, of kf "\<lambda>p. f_st (st p)" "oe_field E" "\<lambda>_. 0"]
  have s: "deal_sync ?n kf (\<lambda>p. f_st (st p))" "pools_ok ?n kb (\<lambda>p. snd (snd (st p)))"
    using sync by (simp_all add: full_parts(1))
  show "full_sync ?n kf kb (\<lambda>p. snd (field_inp E p ?d (st p)))"
    using C(1) [OF s(1) b(1)] s(2) by (simp add: eq F_party_def full_field)
  show "\<exists>x. dealt_sel ?n kf pg_mask (\<lambda>p. fst (field_inp E p ?d (st p))) x \<and>
      party_inp m k out x (\<lambda>p. fst (field_inp E p ?d (st p)))"
    using C(3,4) [OF s(1) b(1)] by (auto simp: eq F_party_def dealt_sel_def party_inp_def)
qed

text \<open>Without exceptions the loop is the generic one, with a counter of the inputs added.\<close>

lemma field_step_run:
  assumes "\<forall>g\<in>set gs. gtype g = kInp \<longrightarrow> map_of m (gout g) \<noteq> None"
  shows "foldE (field_step E pid m) gs (G, s) =
    (let R = fold (run_gate (pre_field E pid) (\<lambda>k out. field_inp E pid (party_of m out))) gs (G, ctr, s)
     in Inr (fst R, snd (snd R)))"
  using assms
proof (induction gs arbitrary: G s ctr)
  case (Cons g gs)
  show ?case
  proof (cases "gtype g = kInp")
    case True
    with Cons.prems obtain d where "map_of m (gout g) = Some d" by auto
    with True Cons show ?thesis
      by (simp add: field_step_def run_gate_def umap_at_def party_of_def Let_def split_beta)
  next
    case False
    with Cons show ?thesis by (simp add: field_step_def run_gate_def Let_def split_beta)
  qed
qed simp

lemma key_setup_sync:
  fixes E :: "('g, 'f::comm_ring_1) offline_env"
  assumes "rgs_ok (oe_nP E) rg" "0 < oe_nP E" "v 0 = no_vecs" "bv 0 = no_vecs"
  obtains kf kb where "full_sync (oe_nP E) kf kb (\<lambda>p. key_setup E p (rg p) (v p) (bv p))"
proof -
  let ?n = "oe_nP E" and ?z = "replicate (Suc (oe_nP E)) 0"
  let ?K = "\<lambda>p. keyGen (oe_field E) ?n p (rg p) ?z"
  let ?rg = "\<lambda>p. snd (snd (?K p))"
  let ?B = "\<lambda>p. keyGen (oe_bool E) ?n p (?rg p) (replicate (Suc (oe_nP E)) 0)"
  have len: "length (replicate (Suc ?n) (0 :: 'x::comm_ring_1)) = Suc ?n" by simp
  note K = keyGen_ok [where smp = "oe_field E", OF assms(1) len]
  note B = keyGen_ok [where smp = "oe_bool E", OF K(5) len]
  have eq: "key_setup E p (rg p) (v p) (bv p) =
      (snd (snd (?B p)), mk_pool (fst (snd (?K p))) (fst (?K p)) (v p), mk_pool (fst (snd (?B p))) (fst (?B p)) (bv p))" for p
    by (simp add: key_setup_def Let_def split_beta del: replicate_Suc)
  have "full_sync ?n (\<lambda>i. fst_draw (oe_field E) (k_p0 (rg i))) (\<lambda>i. fst_draw (oe_bool E) (k_p0 (?rg i)))
      (\<lambda>p. key_setup E p (rg p) (v p) (bv p))"
    unfolding full_sync_def pools_ok_def eq fst_conv snd_conv using K B assms(2-4)
    by (simp add: mk_pool_def no_vecs_def del: replicate_Suc)
  then show thesis by (rule that)
qed

subsection \<open>The vectors of a party do not change\<close>

definition has_vecs :: "'f vecs \<Rightarrow> BoolRing vecs \<Rightarrow> ('g, 'f) party_st \<Rightarrow> bool" where
  "has_vecs v bv s \<longleftrightarrow> pool_vecs (fst (snd s)) = v \<and> pool_vecs (snd (snd s)) = bv"

lemma has_vecs_calls:
  fixes E :: "('g, 'f::comm_ring_1) offline_env" and s :: "('g, 'f) party_st"
  assumes "pid \<noteq> 0" "has_vecs v bv s"
  shows "has_vecs v bv (snd (F_share E pid s))" "has_vecs v bv (snd (F_sec E pid x s))"
    "has_vecs v bv (snd (F_party E pid d s))" "has_vecs v bv (snd (B_share E pid s))"
    "has_vecs v bv (snd (B_sec E pid y s))" "has_vecs v bv (snd (F_all E s))"
  using assms
  by (simp_all add: has_vecs_def pool_vecs_def F_share_def F_sec_def F_party_def B_share_def B_sec_def
      call_bufs_dealer call_bufs_party F_all_def Let_def split_beta)

lemma has_vecs_multk:
  fixes E :: "('g, 'f::comm_ring_1) offline_env" and s :: "('g, 'f) party_st"
  assumes "pid \<noteq> 0" "has_vecs v bv s"
  shows "has_vecs v bv (snd (pre_multk E pid bits s))"
proof -
  note calls = has_vecs_calls [OF assms(1)]
  have inp: "has_vecs v bv (snd (multk_inp E pid bits k out s))" if "has_vecs v bv s" for k out and s :: "('g, 'f) party_st"
    using calls(5) [OF that] by (simp add: multk_inp_def Let_def split_beta)
  have pre: "has_vecs v bv (snd (pre_arith pid (B_share E pid) (B_sec E pid) gs g s))" if "has_vecs v bv s"
    for gs :: "bool_gate option list" and g and s :: "('g, 'f) party_st"
    by (rule pre_arith_inv) (use calls(4,5) that in auto)
  show ?thesis
    unfolding pre_multk_run run_joint_def Let_def snd_conv by (rule run_gates_inv) (use pre inp assms(2) in auto)
qed

lemma has_vecs_prefixOR:
  fixes E :: "('g, 'f::comm_ring_1) offline_env" and s :: "('g, 'f) party_st"
  assumes "pid \<noteq> 0" "has_vecs v bv s"
  shows "has_vecs v bv (snd (pre_prefixOR E pid bits s))"
proof -
  note calls = has_vecs_calls [OF assms(1)]
  have pre: "has_vecs v bv (snd (pre_arith pid (B_share E pid) (B_sec E pid) gs g s))" if "has_vecs v bv s"
    for gs :: "bool_gate option list" and g and s :: "('g, 'f) party_st"
    by (rule pre_arith_inv) (use calls(4,5) that in auto)
  have all: "has_vecs v bv (snd (deal_all (B_sec E pid) bits s))" for bits
    by (rule deal_all_inv) (use calls(5) assms(2) in auto)
  show ?thesis
    unfolding pre_prefixOR_run run_joint_def Let_def split_beta snd_conv
    by (rule run_gates_inv) (use pre all in \<open>auto simp: prefixOR_inp_def prefixOR_pregates_def Let_def split_beta\<close>)
qed

lemma has_vecs_field:
  fixes E :: "('g, 'f::comm_ring_1) offline_env" and s :: "('g, 'f) party_st"
  assumes "pid \<noteq> 0" "has_vecs v bv s"
  shows "has_vecs v bv (snd (pre_field E pid gs g s))"
proof (cases "\<exists>t a out. g = FIn1Gate t a out")
  case True
  then obtain t a out where g: "g = FIn1Gate t a out" by blast
  note calls = has_vecs_calls [OF assms(1)] has_vecs_multk [OF assms(1)] has_vecs_prefixOR [OF assms(1)]
  have "has_vecs v bv (snd (pre_eqz E pid gs a s))" "has_vecs v bv (snd (pre_ltz E pid gs a s))"
    unfolding pre_eqz_def pre_ltz_def Let_def split_beta snd_conv by (intro calls assms(2))+
  then show ?thesis using assms(2) by (simp add: g)
next
  case False
  then have "pre_field E pid gs g s = pre_arith pid (F_share E pid) (F_sec E pid) gs g s" by (cases g) auto
  then show ?thesis using pre_arith_inv [of "has_vecs v bv"] has_vecs_calls [OF assms(1)] assms(2) by metis
qed

lemma has_vecs_run:
  fixes E :: "('g, 'f::comm_ring_1) offline_env" and s :: "('g, 'f) party_st"
  assumes "pid \<noteq> 0" "has_vecs v bv s"
  shows "has_vecs v bv (snd (snd (fold (run_gate (pre_field E pid) (\<lambda>k out. field_inp E pid (party_of m out))) gs (G, ctr, s))))"
proof (rule run_gates_inv)
  show "has_vecs v bv (snd (field_inp E pid (party_of m out) s))" if "has_vecs v bv s" for k :: nat and out and s :: "('g, 'f) party_st"
    using has_vecs_calls(3) [OF assms(1) that] by (simp add: field_inp_def Let_def split_beta)
qed (use has_vecs_field [OF assms(1)] assms(2) in auto)

subsection \<open>The messages arrive\<close>

lemma copy_into_eq:
  "off + length src \<le> length dst \<Longrightarrow> copy_into off src dst = take off dst @ src @ drop (off + length src) dst"
proof (induction src rule: rev_induct)
  case Nil
  then show ?case by (simp add: copy_into_def)
next
  case (snoc x src)
  have "fold (\<lambda>i d. d[off + i := (src @ [x]) ! i]) [0..<length src] dst = copy_into off src dst"
    unfolding copy_into_def by (intro fold_cong) (auto simp: nth_append)
  with snoc show ?case
    by (simp add: copy_into_def list_update_append upd_conv_take_nth_drop)
qed

lemma join_vecs_eq: "join_vecs v = v_rand_sh v @ v_rand_sh_sec v @ v_rand_sh_party v"
  by (simp add: join_vecs_def Let_def copy_into_eq)

lemma split_join_vecs:
  "split_vecs (join_vecs v) (length (v_rand_sh v)) (length (v_rand_sh_sec v)) (length (v_rand_sh_party v)) = v"
  by (intro vecs.equality nth_equalityI) (simp_all add: split_vecs_def join_vecs_eq nth_append)

lemma receive_dealer_msgs: "receive_msgs (dealer_msgs v bv) = (v, bv)"
proof -
  have "length (join_vecs bv) = length (v_rand_sh bv) + length (v_rand_sh_sec bv) + length (v_rand_sh_party bv)"
    by (simp add: join_vecs_eq)
  then have "unpack (pack (join_vecs bv)) (offline_lengths v bv ! 4) = join_vecs bv"
    using unpack_pack [of "join_vecs bv"] by (simp add: offline_lengths_def)
  then show ?thesis
    using split_join_vecs [of v] split_join_vecs [of bv]
    by (simp add: receive_msgs_def dealer_msgs_def Let_def) (simp add: offline_lengths_def)
qed

subsection \<open>The offline phase as a whole\<close>

text \<open>
  What the phase needs: a well-formed circuit all of whose gates it handles, and a party for
  every input. \<open>offline_st E c m rg v bv p\<close> is what party \<open>p\<close> ends in when the loop starts from the
  vectors \<open>v p\<close> and \<open>bv p\<close>.
\<close>

definition offline_ok :: "('g, 'f::comm_ring_1) offline_env \<Rightarrow> 'f Circuit \<Rightarrow> (wire_t, nat) umap \<Rightarrow> bool" where
  "offline_ok E c m \<longleftrightarrow> 0 < oe_nP E \<and> circuit_ok c \<and>
     (\<forall>g\<in>set (circ_gates c). gtype g = kInp \<or> field_gate_kind g) \<and>
     (\<forall>g\<in>set (circ_gates c). gtype g = kInp \<longrightarrow> map_of m (gout g) \<noteq> None) \<and> (\<forall>d\<in>ran (map_of m). d \<le> oe_nP E)"

definition offline_st ::
  "('g, 'f::comm_ring_1) offline_env \<Rightarrow> 'f Circuit \<Rightarrow> (wire_t, nat) umap \<Rightarrow> (nat \<Rightarrow> 'g RandGenPool) \<Rightarrow>
   (nat \<Rightarrow> 'f vecs) \<Rightarrow> (nat \<Rightarrow> BoolRing vecs) \<Rightarrow> nat \<Rightarrow> 'f field_gate option list \<times> nat \<times> ('g, 'f) party_st" where
  "offline_st E c m rg v bv = run_joint (pre_field E) (\<lambda>p k out. field_inp E p (party_of m out))
     (concat (gates_by_level (orderGatesByLevel c))) 0 (\<lambda>p. replicate (length (circ_gates c)) None)
     (\<lambda>p. key_setup E p (rg p) (v p) (bv p))"

lemma setWireMasksParty_eq:
  assumes "offline_ok E c m"
  shows "setWireMasksParty E (orderGatesByLevel c) p m (rg p) (v p) (bv p) =
    Inr (fst (offline_st E c m rg v bv p), snd (snd (offline_st E c m rg v bv p)))"
proof -
  let ?gs = "concat (gates_by_level (orderGatesByLevel c))"
  have "\<forall>g\<in>set ?gs. gtype g = kInp \<longrightarrow> map_of m (gout g) \<noteq> None"
    using assms unfolding offline_ok_def by (metis set_orderGatesByLevel)
  from field_step_run [OF this, of E p "replicate (length (circ_gates c)) None" "key_setup E p (rg p) (v p) (bv p)" 0]
  show ?thesis
    by (simp add: setWireMasksParty_def foldE_concat offline_st_def run_joint_def Let_def del: set_concat)
qed

lemma bufs_of_vecs: "pool_vecs (pl 0) = pool_vecs (pl n) \<Longrightarrow> bufs_ok n pl"
  by (simp add: bufs_ok_def pool_vecs_def)

lemma offline_dealt:
  fixes E :: "('g, 'f::comm_ring_1) offline_env"
  assumes ok: "offline_ok E c m" and rgs: "rgs_ok (oe_nP E) rg"
    and v0: "v 0 = no_vecs" "bv 0 = no_vecs"
    and vn: "has_vecs (v (oe_nP E)) (bv (oe_nP E)) (snd (snd (offline_st E c m rg v bv 0)))"
  shows "\<exists>kf kb \<delta>. full_sync (oe_nP E) kf kb (\<lambda>p. snd (snd (offline_st E c m rg v bv p))) \<and>
    gates_dealt (oe_nP E) kf (field_ok (oe_nP E) kf kb (oe_conv E)) (party_inp m) \<delta>
      (concat (gates_by_level (orderGatesByLevel c))) 0 (\<lambda>p. fst (offline_st E c m rg v bv p))"
proof -
  let ?n = "oe_nP E" and ?S = "\<lambda>p. snd (snd (offline_st E c m rg v bv p))"
  have n: "0 < ?n" and c: "circuit_ok c" and kinds: "\<forall>g\<in>set (circ_gates c). gtype g = kInp \<or> field_gate_kind g"
    and d: "\<forall>d\<in>ran (map_of m). d \<le> ?n"
    using ok by (auto simp: offline_ok_def)
  obtain kf kb where sync: "full_sync ?n kf kb (\<lambda>p. key_setup E p (rg p) (v p) (bv p))"
    using key_setup_sync [where v = v and bv = bv, OF rgs n v0] by blast
  have laws: "\<forall>g\<in>set (circ_gates c). gtype g = kInp \<or>
      F.gate_law E kf kb (pre_field E) (field_ok ?n kf kb (oe_conv E)) g"
    using kinds gate_law_field by blast
  have "has_vecs (v ?n) (bv ?n) (key_setup E ?n (rg ?n) (v ?n) (bv ?n))"
    by (simp add: key_setup_def has_vecs_def mk_pool_def pool_vecs_def Let_def split_beta)
  then have "has_vecs (v ?n) (bv ?n) (?S ?n)"
    unfolding offline_st_def run_joint_def using has_vecs_run n by blast
  with vn have b: "full_bufs ?n ?S"
    by (simp add: full_bufs_def bufs_of_vecs has_vecs_def)
  show ?thesis
    using F.circuit_dealt(2) [OF c laws gate_cong_field_ok field_inp_law [OF d] b [unfolded offline_st_def] sync]
    unfolding offline_st_def by blast
qed

lemma gates_dealt_secret:
  assumes "gates_dealt n kf GP IP \<delta> (concat (gates_by_level (orderGatesByLevel c))) ctr G" "circuit_ok c"
    "w < length (circ_gates c)"
  shows "secret (snd (mask_at (G 0) w)) = \<delta> w"
proof -
  have "gout (circ_gates c ! w) = w" using assms(2,3) by (auto simp: circuit_ok_def dest: gates_okD(1))
  moreover have "circ_gates c ! w \<in> set (concat (gates_by_level (orderGatesByLevel c)))"
    using assms(2,3) by (simp add: set_orderGatesByLevel del: set_concat)
  ultimately have "dealt_sel n kf pg_mask (\<lambda>p. the (G p ! w)) (\<delta> w)"
    using assms(1) unfolding gates_dealt_def by metis
  from dealt_sel_secret [OF this] show ?thesis by (simp add: mask_at_def)
qed

text \<open>
  The offline phase with its messages. The last party gets what the dealer sends; then every
  party finishes, and what the parties hold is dealt.
\<close>

definition offline_run ::
  "('g, 'f::comm_ring_1) offline_env \<Rightarrow> 'f Circuit \<Rightarrow> (wire_t, nat) umap \<Rightarrow> (nat \<Rightarrow> 'g RandGenPool) \<Rightarrow>
   nat \<Rightarrow> exn + 'f field_gate option list \<times> ('g, 'f) party_st \<times> 'f offline_msgs option" where
  "offline_run E c m rg pid =
     (case setWireMasks E (orderGatesByLevel c) 0 m (rg 0) ([], [], []) of
        Inr (gs, s, Some msgs) \<Rightarrow> setWireMasks E (orderGatesByLevel c) pid m (rg pid) msgs
      | r \<Rightarrow> r)"

lemma offline_run_dealt:
  fixes E :: "('g, 'f::comm_ring_1) offline_env"
  assumes ok: "offline_ok E c m" and rgs: "rgs_ok (oe_nP E) rg"
  shows "\<exists>G st msgs kf kb \<delta>. (\<forall>p. offline_run E c m rg p = Inr (G p, st p, msgs p)) \<and>
    full_sync (oe_nP E) kf kb st \<and>
    gates_dealt (oe_nP E) kf (field_ok (oe_nP E) kf kb (oe_conv E)) (party_inp m) \<delta>
      (concat (gates_by_level (orderGatesByLevel c))) 0 G"
proof -
  let ?n = "oe_nP E"
  have n: "0 < ?n" using ok by (simp add: offline_ok_def)
  define D where "D = offline_st E c m rg (\<lambda>_. no_vecs) (\<lambda>_. no_vecs) 0"
  define V where "V = pool_vecs (fst (snd (snd (snd D))))"
  define BV where "BV = pool_vecs (snd (snd (snd (snd D))))"
  define v where "v p = (if p = ?n then V else no_vecs)" for p
  define bv where "bv p = (if p = ?n then BV else no_vecs)" for p
  let ?R = "offline_st E c m rg v bv"
  have D: "?R 0 = D" using n by (simp add: D_def offline_st_def run_joint_def v_def bv_def)
  have dealer: "setWireMasks E (orderGatesByLevel c) 0 m (rg 0) msgs = Inr (fst D, snd (snd D), Some (dealer_msgs V BV))" for msgs
    using n setWireMasksParty_eq [OF ok, of 0 rg "\<lambda>_. no_vecs" "\<lambda>_. no_vecs"]
    by (simp add: setWireMasks_def D_def V_def BV_def)
  have P: "setWireMasksParty E (orderGatesByLevel c) p m (rg p) (v p) (bv p) = Inr (fst (?R p), snd (snd (?R p)))" for p
    by (rule setWireMasksParty_eq [OF ok])
  have "offline_run E c m rg p = Inr (fst (?R p), snd (snd (?R p)), if p = 0 then Some (dealer_msgs V BV) else None)" for p
    using n D dealer P [of p]
    by (cases "p = ?n") (auto simp: offline_run_def setWireMasks_def v_def bv_def receive_dealer_msgs split: if_splits)
  moreover have "has_vecs (v ?n) (bv ?n) (snd (snd (?R 0)))"
    by (simp add: D has_vecs_def v_def bv_def V_def BV_def)
  with offline_dealt [OF ok rgs, of v bv] n obtain kf kb \<delta> where "full_sync ?n kf kb (\<lambda>p. snd (snd (?R p)))"
    "gates_dealt ?n kf (field_ok ?n kf kb (oe_conv E)) (party_inp m) \<delta>
      (concat (gates_by_level (orderGatesByLevel c))) 0 (\<lambda>p. fst (?R p))"
    by (auto simp: v_def bv_def)
  ultimately show ?thesis
    by (intro exI [of _ "\<lambda>p. fst (?R p)"] exI [of _ "\<lambda>p. snd (snd (?R p))"]
        exI [of _ "\<lambda>p. if p = 0 then Some (dealer_msgs V BV) else None"] exI [of _ kf] exI [of _ kb] exI [of _ \<delta>]) simp
qed

end
