(* ===== verification/Exchange.thy ===== *)
theory Exchange
  imports BoolRings
begin

section \<open>Opening shares: the load-balanced exchange\<close>

text \<open>
  \<open>OnlineEvaluator::evaluateGatesAtDepth\<close> and \<open>BoolEval::evaluateGatesAtDepth\<close> open a vector of
  \<open>total_comm\<close> shares in two rounds: party \<open>pid\<close> gets from everyone the \<open>pid\<close>-th slice of their
  vectors, adds the slices up and sends the sum to everyone. The last party's slice takes the
  remainder. \<open>exchange_sum\<close> states that every party ends with the sum of all vectors.
  \<open>BoolEvaluator\<close> opens through the dealer instead (\<open>tp_open\<close>).

  Slices travel through an encoding: packed bits for \<open>BoolRing\<close>, field elements as they are. The
  locale \<open>codec\<close> states what the exchange relies on.
\<close>

subsection \<open>The slices\<close>

definition per_party_comm :: "nat \<Rightarrow> nat \<Rightarrow> nat" where
  "per_party_comm total_comm nP = total_comm div nP"

definition last_party_comm :: "nat \<Rightarrow> nat \<Rightarrow> nat" where
  "last_party_comm total_comm nP = per_party_comm total_comm nP + total_comm mod nP"

definition slice_len :: "nat \<Rightarrow> nat \<Rightarrow> nat \<Rightarrow> nat" where
  "slice_len total_comm nP pid = (if pid \<noteq> nP then per_party_comm total_comm nP else last_party_comm total_comm nP)"

definition online_comm_to_party :: "nat \<Rightarrow> nat \<Rightarrow> 'r list \<Rightarrow> nat \<Rightarrow> 'r list" where
  "online_comm_to_party total_comm nP comm pid =
     map (\<lambda>i. comm ! ((pid - 1) * per_party_comm total_comm nP + i)) [0..<slice_len total_comm nP pid]"

text \<open>The loops \<open>dst[off + i] += src[i]\<close>.\<close>

definition add_into :: "nat \<Rightarrow> 'r::plus list \<Rightarrow> nat \<Rightarrow> 'r list \<Rightarrow> 'r list" where
  "add_into off src len dst = fold (\<lambda>i d. d[off + i := d ! (off + i) + src ! i]) [0..<len] dst"

text \<open>
  Round one at party \<open>me\<close>: \<open>recv pid\<close> is what it receives from \<open>pid\<close>. Round two: \<open>sent\<close> is its own
  sum and \<open>recv pid\<close> the sum \<open>pid\<close> has sent.
\<close>

definition agg_values_send ::
  "nat \<Rightarrow> nat \<Rightarrow> nat \<Rightarrow> 'r::comm_ring_1 list \<Rightarrow> (nat \<Rightarrow> 'r list) \<Rightarrow> 'r list" where
  "agg_values_send total_comm nP me comm recv =
     fold (\<lambda>pid agg.
        if me = pid then add_into 0 (online_comm_to_party total_comm nP comm pid) (slice_len total_comm nP me) agg
        else add_into 0 (recv pid) (slice_len total_comm nP me) agg)
       (parties nP) (replicate (slice_len total_comm nP me) 0)"

definition agg_values ::
  "nat \<Rightarrow> nat \<Rightarrow> nat \<Rightarrow> 'r::comm_ring_1 list \<Rightarrow> (nat \<Rightarrow> 'r list) \<Rightarrow> 'r list" where
  "agg_values total_comm nP me sent recv =
     fold (\<lambda>pid agg.
        if me = pid then add_into ((pid - 1) * per_party_comm total_comm nP) sent (slice_len total_comm nP me) agg
        else add_into ((pid - 1) * per_party_comm total_comm nP) (recv pid) (slice_len total_comm nP pid) agg)
       (parties nP) (replicate total_comm 0)"

text \<open>Both rounds together, for the vectors \<open>comm p\<close> of all parties.\<close>

definition exchange ::
  "('r::comm_ring_1 list \<Rightarrow> 'm) \<Rightarrow> (nat \<Rightarrow> 'm \<Rightarrow> 'r list) \<Rightarrow> nat \<Rightarrow> nat \<Rightarrow> (nat \<Rightarrow> 'r list) \<Rightarrow> nat \<Rightarrow> 'r list" where
  "exchange enc dec total_comm nP comm me =
     (let sum = (\<lambda>q. agg_values_send total_comm nP q (comm q)
            (\<lambda>pid. dec (slice_len total_comm nP q) (enc (online_comm_to_party total_comm nP (comm pid) q))))
      in agg_values total_comm nP me (sum me) (\<lambda>pid. dec (slice_len total_comm nP pid) (enc (sum pid))))"

text \<open>Opening through the dealer: it adds up the parties' vectors and sends the sum back.\<close>

definition tp_open ::
  "('r::comm_ring_1 list \<Rightarrow> 'm) \<Rightarrow> (nat \<Rightarrow> 'm \<Rightarrow> 'r list) \<Rightarrow> nat \<Rightarrow> nat \<Rightarrow> (nat \<Rightarrow> 'r list) \<Rightarrow> nat \<Rightarrow> 'r list" where
  "tp_open enc dec total_comm nP comm me =
     dec total_comm (enc (fold (\<lambda>pid agg. add_into 0 (dec total_comm (enc (comm pid))) total_comm agg)
       (parties nP) (replicate total_comm 0)))"

subsection \<open>Correctness\<close>

lemma length_add_into [simp]: "length (add_into off src len dst) = length dst"
  unfolding add_into_def by (induction len) auto

lemma nth_add_into:
  "off + len \<le> length dst \<Longrightarrow>
   add_into off src len dst ! j = (if off \<le> j \<and> j < off + len then dst ! j + src ! (j - off) else dst ! j)"
proof (induction len arbitrary: j)
  case (Suc len)
  note IH = Suc.IH
  let ?d = "add_into off src len dst"
  have "add_into off src (Suc len) dst = ?d[off + len := ?d ! (off + len) + src ! len]"
    by (simp add: add_into_def)
  moreover have "?d ! i = (if off \<le> i \<and> i < off + len then dst ! i + src ! (i - off) else dst ! i)" for i
    using IH [of i] Suc.prems by simp
  ultimately show ?case using Suc.prems by (auto simp: nth_list_update less_Suc_eq)
qed (auto simp: add_into_def)

lemma slices_exact: "0 < nP \<Longrightarrow> (nP - 1) * (tot div nP) + (tot div nP + tot mod nP) = tot" for nP tot :: nat
  using mult_div_mod_eq [of nP tot] by (cases nP) (simp_all add: algebra_simps)

lemma slice_bounds:
  assumes "1 \<le> pid" "pid \<le> nP"
  shows "(pid - 1) * per_party_comm tot nP + slice_len tot nP pid \<le> tot"
proof (cases "pid = nP")
  case True
  have "0 < nP" using assms by simp
  from slices_exact [OF this, of tot] True show ?thesis by (simp add: slice_len_def last_party_comm_def per_party_comm_def)
next
  case False
  have "(pid - 1) * (tot div nP) + tot div nP = pid * (tot div nP)"
    using assms(1) by (cases pid) simp_all
  also have "\<dots> \<le> nP * (tot div nP)" using assms(2) by (intro mult_le_mono1)
  also have "\<dots> \<le> tot" by simp
  finally show ?thesis using False by (simp add: slice_len_def per_party_comm_def)
qed

text \<open>The slices cover every position exactly once.\<close>

definition in_slice :: "nat \<Rightarrow> nat \<Rightarrow> nat \<Rightarrow> nat \<Rightarrow> bool" where
  "in_slice tot nP pid j \<longleftrightarrow>
     (pid - 1) * per_party_comm tot nP \<le> j \<and> j < (pid - 1) * per_party_comm tot nP + slice_len tot nP pid"

definition slice_of :: "nat \<Rightarrow> nat \<Rightarrow> nat \<Rightarrow> nat" where
  "slice_of tot nP j =
     (if per_party_comm tot nP = 0 then nP else min nP (Suc (j div per_party_comm tot nP)))"

lemma in_slice_iff:
  assumes "1 \<le> pid" "pid \<le> nP" "j < tot"
  shows "in_slice tot nP pid j \<longleftrightarrow> pid = slice_of tot nP j"
proof (cases "tot div nP = 0")
  case True
  then have "tot mod nP = tot" using div_mult_mod_eq [of tot nP] by simp
  then show ?thesis
    using assms True by (auto simp: in_slice_def slice_of_def slice_len_def last_party_comm_def per_party_comm_def)
next
  case False
  define k where "k = tot div nP"
  have k: "0 < k" using False by (simp add: k_def)
  obtain q where q: "pid = Suc q" using assms(1) by (cases pid) auto
  have up: "(nP - 1) * k + (k + tot mod nP) = tot"
    using slices_exact [of nP tot] assms by (simp add: k_def)
  show ?thesis
  proof (cases "pid = nP")
    case True
    have "in_slice tot nP pid j \<longleftrightarrow> q * k \<le> j"
      using True q up assms(3) by (auto simp: in_slice_def slice_len_def last_party_comm_def per_party_comm_def k_def)
    also have "\<dots> \<longleftrightarrow> q \<le> j div k" using k by (simp add: less_eq_div_iff_mult_less_eq)
    finally show ?thesis using True q k by (auto simp: slice_of_def per_party_comm_def k_def)
  next
    case False
    have "in_slice tot nP pid j \<longleftrightarrow> q * k \<le> j \<and> j < Suc q * k"
      using False q by (auto simp: in_slice_def slice_len_def per_party_comm_def k_def)
    also have "\<dots> \<longleftrightarrow> j div k = q"
      using k by (metis Suc_eq_plus1 div_nat_eqI dividend_less_div_times div_times_less_eq_dividend mult.commute
          mult_Suc add.commute)
    finally show ?thesis using False q k assms(2) by (auto simp: slice_of_def per_party_comm_def k_def)
  qed
qed

lemma slice_of_range: "0 < nP \<Longrightarrow> 1 \<le> slice_of tot nP j \<and> slice_of tot nP j \<le> nP"
  by (auto simp: slice_of_def)

text \<open>
  A loop over the parties that adds the vector \<open>src pid\<close> at \<open>off pid\<close>: position \<open>j\<close> ends with
  the sum of what the parties whose range has \<open>j\<close> put there.
\<close>

lemma fold_add_into:
  fixes dst :: "'r::comm_ring_1 list"
  assumes "\<And>pid. 1 \<le> pid \<Longrightarrow> pid \<le> n \<Longrightarrow> off pid + len pid \<le> length dst"
  shows "length (fold (\<lambda>pid. add_into (off pid) (src pid) (len pid)) (parties n) dst) = length dst"
    "fold (\<lambda>pid. add_into (off pid) (src pid) (len pid)) (parties n) dst ! j =
      dst ! j + psum n (\<lambda>pid. if off pid \<le> j \<and> j < off pid + len pid then src pid ! (j - off pid) else 0)"
proof -
  have "length (fold (\<lambda>pid. add_into (off pid) (src pid) (len pid)) (parties n) dst) = length dst \<and>
    fold (\<lambda>pid. add_into (off pid) (src pid) (len pid)) (parties n) dst ! j =
      dst ! j + psum n (\<lambda>pid. if off pid \<le> j \<and> j < off pid + len pid then src pid ! (j - off pid) else 0)"
    using assms
  proof (induction n)
    case (Suc n)
    have "off (Suc n) + len (Suc n) \<le> length dst" using Suc.prems by simp
    with Suc show ?case by (auto simp: nth_add_into add.assoc)
  qed simp
  then show "length (fold (\<lambda>pid. add_into (off pid) (src pid) (len pid)) (parties n) dst) = length dst"
    "fold (\<lambda>pid. add_into (off pid) (src pid) (len pid)) (parties n) dst ! j =
      dst ! j + psum n (\<lambda>pid. if off pid \<le> j \<and> j < off pid + len pid then src pid ! (j - off pid) else 0)"
    by blast+
qed

subsection \<open>The interface of the encoding\<close>

locale codec =
  fixes enc :: "'r::comm_ring_1 list \<Rightarrow> 'm" and dec :: "nat \<Rightarrow> 'm \<Rightarrow> 'r list"
  assumes dec_enc: "dec (length xs) (enc xs) = xs"
begin

lemma dec_enc_len: "length xs = k \<Longrightarrow> dec k (enc xs) = xs"
  using dec_enc by blast

lemma slice_sum:
  fixes comm :: "nat \<Rightarrow> 'r list" and tot :: nat
  assumes "1 \<le> q" "q \<le> nP"
  defines "S \<equiv> agg_values_send tot nP q (comm q)
            (\<lambda>pid. dec (slice_len tot nP q) (enc (online_comm_to_party tot nP (comm pid) q)))"
  shows "length S = slice_len tot nP q"
    "i < slice_len tot nP q \<Longrightarrow> S ! i = psum nP (\<lambda>pid. comm pid ! ((q - 1) * per_party_comm tot nP + i))"
proof -
  let ?k = "slice_len tot nP q" and ?src = "\<lambda>pid. online_comm_to_party tot nP (comm pid) q"
  have dec: "dec ?k (enc (?src pid)) = ?src pid" for pid
    by (rule dec_enc_len) (simp add: online_comm_to_party_def)
  have S: "S = fold (\<lambda>pid. add_into 0 (?src pid) ?k) (parties nP) (replicate ?k 0)"
    unfolding S_def agg_values_send_def dec by (intro fold_cong refl) auto
  note F = fold_add_into [where dst = "replicate ?k (0 :: 'r)" and n = nP and off = "\<lambda>_. 0" and len = "\<lambda>_. ?k" and src = ?src]
  show "length S = ?k" unfolding S using F(1) by simp
  show "S ! i = psum nP (\<lambda>pid. comm pid ! ((q - 1) * per_party_comm tot nP + i))" if "i < ?k"
    unfolding S using F(2) [of i] that by (simp add: online_comm_to_party_def)
qed

text \<open>Every party ends with the sum of the vectors of all parties.\<close>

lemma exchange_sum:
  fixes comm :: "nat \<Rightarrow> 'r list"
  assumes "0 < nP"
  shows "exchange enc dec tot nP comm me = map (\<lambda>j. psum nP (\<lambda>p. comm p ! j)) [0..<tot]"
proof -
  let ?S = "\<lambda>q. agg_values_send tot nP q (comm q)
            (\<lambda>pid. dec (slice_len tot nP q) (enc (online_comm_to_party tot nP (comm pid) q)))"
  let ?off = "\<lambda>pid. (pid - 1) * per_party_comm tot nP"
  have dec: "dec (slice_len tot nP pid) (enc (?S pid)) = ?S pid" if "1 \<le> pid" "pid \<le> nP" for pid
    by (rule dec_enc_len) (rule slice_sum(1) [OF that])
  have E: "exchange enc dec tot nP comm me =
      fold (\<lambda>pid. add_into (?off pid) (?S pid) (slice_len tot nP pid)) (parties nP) (replicate tot 0)"
    unfolding exchange_def agg_values_def Let_def by (intro fold_cong refl) (auto simp: dec simp del: One_nat_def)
  note F = fold_add_into [where dst = "replicate tot (0 :: 'r)" and n = nP and off = ?off and len = "slice_len tot nP" and src = ?S]
  show ?thesis
  proof (rule nth_equalityI)
    show "length (exchange enc dec tot nP comm me) = length (map (\<lambda>j. psum nP (\<lambda>p. comm p ! j)) [0..<tot])"
      unfolding E using F(1) slice_bounds by simp
    fix j assume "j < length (exchange enc dec tot nP comm me)"
    then have j: "j < tot" unfolding E using F(1) slice_bounds by simp
    let ?q = "slice_of tot nP j"
    have q: "1 \<le> ?q" "?q \<le> nP" using slice_of_range [OF assms] by simp_all
    have "in_slice tot nP ?q j" by (subst in_slice_iff) (use q j in auto)
    then have i: "?off ?q \<le> j" "j - ?off ?q < slice_len tot nP ?q" by (auto simp: in_slice_def)
    have "(if ?off pid \<le> j \<and> j < ?off pid + slice_len tot nP pid then ?S pid ! (j - ?off pid) else 0) =
        (if pid = ?q then psum nP (\<lambda>p. comm p ! j) else 0)" if "1 \<le> pid" "pid \<le> nP" for pid
      using in_slice_iff [OF that j] slice_sum(2) [OF q i(2)] i(1) by (auto simp: in_slice_def)
    then have "exchange enc dec tot nP comm me ! j = psum nP (\<lambda>pid. if pid = ?q then psum nP (\<lambda>p. comm p ! j) else 0)"
      unfolding E using F(2) [of j] slice_bounds j by (simp cong: psum_cong)
    then show "exchange enc dec tot nP comm me ! j = map (\<lambda>j. psum nP (\<lambda>p. comm p ! j)) [0..<tot] ! j"
      using j q by (simp add: psum_delta)
  qed
qed

lemma tp_open_sum:
  fixes comm :: "nat \<Rightarrow> 'r list"
  assumes "\<And>p. 1 \<le> p \<Longrightarrow> p \<le> nP \<Longrightarrow> length (comm p) = tot"
  shows "tp_open enc dec tot nP comm me = map (\<lambda>j. psum nP (\<lambda>p. comm p ! j)) [0..<tot]"
proof -
  let ?A = "fold (\<lambda>pid agg. add_into 0 (dec tot (enc (comm pid))) tot agg) (parties nP) (replicate tot 0)"
  note F = fold_add_into [where dst = "replicate tot (0 :: 'r)" and n = nP and off = "\<lambda>_. 0" and len = "\<lambda>_. tot" and src = comm]
  have A: "?A = fold (\<lambda>pid. add_into 0 (comm pid) tot) (parties nP) (replicate tot 0)"
    by (intro fold_cong refl) (use assms in \<open>auto simp: dec_enc_len\<close>)
  have "?A = map (\<lambda>j. psum nP (\<lambda>p. comm p ! j)) [0..<tot]"
    unfolding A by (rule nth_equalityI) (use F in simp_all)
  then show ?thesis unfolding tp_open_def by (simp add: dec_enc_len)
qed

end

text \<open>Field elements travel as they are, bits in packed bytes.\<close>

abbreviation raw_dec :: "nat \<Rightarrow> 'a list \<Rightarrow> 'a list" where
  "raw_dec k xs \<equiv> xs"

abbreviation unpack_len :: "nat \<Rightarrow> u8 list \<Rightarrow> BoolRing list" where
  "unpack_len k bs \<equiv> unpack bs k"

interpretation raw: codec "\<lambda>xs. xs" raw_dec
  by unfold_locales simp

interpretation packed: codec pack unpack_len
  by unfold_locales (rule unpack_pack)

end
