(* ===== verification/Online_Gates.thy ===== *)
theory Online_Gates
  imports Offline Exchange
begin

section \<open>Evaluating gates on masked values\<close>

text \<open>
  In the online phase every party holds the same masked value \<open>m\<^sub>w = v\<^sub>w + \<delta>\<^sub>w\<close> of each wire. A
  multiplication gate is evaluated by opening a sharing of its masked output, which each party
  computes from the preprocessed shares (\<open>q_share\<close>); the linear gates need no communication.

  The three evaluators (\<open>OnlineEvaluator\<close>, \<open>BoolEvaluator\<close> and \<open>BoolEval\<close>) compute the same
  shares and lay them out in the same way. This theory has these common parts: the shares, the
  layout of the opened vector, and the loop that reads it back with one index per gate type.
\<close>

subsection \<open>The share of a masked output\<close>

definition sh_at :: "('r, 'b) preproc_gate option list \<Rightarrow> wire_t \<Rightarrow> 'r AuthAddShare" where
  "sh_at G w = fst (mask_at G w)"

definition q_mul ::
  "nat \<Rightarrow> ('r::comm_ring_1, 'b) preproc_gate option list \<Rightarrow> 'r list \<Rightarrow> wire_t \<Rightarrow> wire_t \<Rightarrow> wire_t \<Rightarrow> 'r AuthAddShare" where
  "q_mul me G ws in1 in2 out =
     (let m_in1 = sh_at G in1; m_in2 = sh_at G in2; pre_out = the (G ! out);
          q_share = aas_sub (aas_sub (aas_add (fst (pg_mask pre_out)) (fst (mask_prod pre_out)))
            (aas_mul m_in1 (ws ! in2))) (aas_mul m_in2 (ws ! in1))
      in aas_addc (ws ! in1 * ws ! in2) me q_share)"

definition q_mul3 ::
  "nat \<Rightarrow> ('r::comm_ring_1, 'b) preproc_gate option list \<Rightarrow> 'r list \<Rightarrow> wire_t \<Rightarrow> wire_t \<Rightarrow> wire_t \<Rightarrow> wire_t \<Rightarrow>
   'r AuthAddShare" where
  "q_mul3 me G ws in1 in2 in3 out =
     (let del_a = sh_at G in1; del_b = sh_at G in2; del_c = sh_at G in3;
          m_a = ws ! in1; m_b = ws ! in2; m_c = ws ! in3; pre_out = the (G ! out);
          q_share = fst (pg_mask pre_out);
          q_share = aas_sub q_share (fst (mask_abc pre_out));
          q_share = aas_add q_share (aas_add (aas_add (aas_mul (fst (mask_bc pre_out)) m_a)
            (aas_mul (fst (mask_ac pre_out)) m_b)) (aas_mul (fst (mask_ab pre_out)) m_c));
          q_share = aas_sub q_share (aas_add (aas_add (aas_mul (aas_mul del_c m_a) m_b)
            (aas_mul (aas_mul del_b m_a) m_c)) (aas_mul (aas_mul del_a m_b) m_c))
      in aas_addc (m_a * m_b * m_c) me q_share)"

definition q_mul4 ::
  "nat \<Rightarrow> ('r::comm_ring_1, 'b) preproc_gate option list \<Rightarrow> 'r list \<Rightarrow> wire_t \<Rightarrow> wire_t \<Rightarrow> wire_t \<Rightarrow> wire_t \<Rightarrow>
   wire_t \<Rightarrow> 'r AuthAddShare" where
  "q_mul4 me G ws in1 in2 in3 in4 out =
     (let del_a = sh_at G in1; del_b = sh_at G in2; del_c = sh_at G in3; del_d = sh_at G in4;
          m_a = ws ! in1; m_b = ws ! in2; m_c = ws ! in3; m_d = ws ! in4; pre_out = the (G ! out);
          q_share = fst (pg_mask pre_out);
          q_share = aas_sub q_share (aas_add (aas_add (aas_add
            (aas_mul (aas_mul (aas_mul del_d m_a) m_b) m_c) (aas_mul (aas_mul (aas_mul del_c m_a) m_b) m_d))
            (aas_mul (aas_mul (aas_mul del_b m_a) m_c) m_d)) (aas_mul (aas_mul (aas_mul del_a m_b) m_c) m_d));
          q_share = aas_add q_share (aas_add (aas_add (aas_add (aas_add (aas_add
            (aas_mul (aas_mul (fst (mask_cd pre_out)) m_a) m_b) (aas_mul (aas_mul (fst (mask_bd pre_out)) m_a) m_c))
            (aas_mul (aas_mul (fst (mask_bc pre_out)) m_a) m_d)) (aas_mul (aas_mul (fst (mask_ad pre_out)) m_b) m_c))
            (aas_mul (aas_mul (fst (mask_ac pre_out)) m_b) m_d)) (aas_mul (aas_mul (fst (mask_ab pre_out)) m_c) m_d));
          q_share = aas_sub q_share (aas_add (aas_add (aas_add
            (aas_mul (fst (mask_bcd pre_out)) m_a) (aas_mul (fst (mask_acd pre_out)) m_b))
            (aas_mul (fst (mask_abd pre_out)) m_c)) (aas_mul (fst (mask_abc pre_out)) m_d));
          q_share = aas_add q_share (fst (mask_abcd pre_out))
      in aas_addc (m_a * m_b * m_c * m_d) me q_share)"

definition q_dotp ::
  "nat \<Rightarrow> ('r::comm_ring_1, 'b) preproc_gate option list \<Rightarrow> 'r list \<Rightarrow> wire_t list \<Rightarrow> wire_t list \<Rightarrow> wire_t \<Rightarrow>
   'r AuthAddShare" where
  "q_dotp me G ws in1 in2 out =
     (let pre_out = the (G ! out)
      in fold (\<lambda>i q_share.
           let win1 = in1 ! i; win2 = in2 ! i; m_in1 = sh_at G win1; m_in2 = sh_at G win2;
               q_share = aas_sub q_share (aas_add (aas_mul m_in1 (ws ! win2)) (aas_mul m_in2 (ws ! win1)))
           in aas_addc (ws ! win1 * ws ! win2) me q_share)
         [0..<length in1] (aas_add (fst (pg_mask pre_out)) (fst (mask_prod pre_out))))"

fun q_share ::
  "nat \<Rightarrow> ('r::comm_ring_1, 'b) preproc_gate option list \<Rightarrow> 'r list \<Rightarrow> 'r gate \<Rightarrow> 'r AuthAddShare" where
  "q_share me G ws (FIn2Gate t a b out) = q_mul me G ws a b out"
| "q_share me G ws (FIn3Gate t a b c out) = q_mul3 me G ws a b c out"
| "q_share me G ws (FIn4Gate t a b c d out) = q_mul4 me G ws a b c d out"
| "q_share me G ws (SIMDGate t as bs out) = q_dotp me G ws as bs out"
| "q_share me G ws g = AuthAddShare_default"

subsection \<open>The layout of the opened vector\<close>

text \<open>
  The types whose gates are opened, in the order in which the shares are laid out. \<open>num t\<close> is
  the number of gates of type \<open>t\<close>, \<open>nonTP t\<close> the shares a party has pushed for them.
\<close>

abbreviation mult_types :: "GateType list" where
  "mult_types \<equiv> [kMul, kMul3, kMul4, kDotprod]"

definition push :: "GateType \<Rightarrow> 'a \<Rightarrow> (GateType \<Rightarrow> 'a list) \<Rightarrow> GateType \<Rightarrow> 'a list" where
  "push t x nonTP = nonTP(t := nonTP t @ [x])"

definition total_comm :: "(GateType \<Rightarrow> nat) \<Rightarrow> GateType list \<Rightarrow> nat" where
  "total_comm num ts = sum_list (map num ts)"

definition online_comm :: "(GateType \<Rightarrow> nat) \<Rightarrow> GateType list \<Rightarrow> (GateType \<Rightarrow> 'r list) \<Rightarrow> 'r list" where
  "online_comm num ts nonTP = concat (map (\<lambda>t. map (\<lambda>i. nonTP t ! i) [0..<num t]) ts)"

definition comm_off :: "(GateType \<Rightarrow> nat) \<Rightarrow> GateType list \<Rightarrow> GateType \<Rightarrow> nat" where
  "comm_off num ts t = sum_list (map num (takeWhile (\<lambda>u. u \<noteq> t) ts))"

definition all_values :: "(GateType \<Rightarrow> nat) \<Rightarrow> GateType list \<Rightarrow> 'r list \<Rightarrow> GateType \<Rightarrow> 'r list" where
  "all_values num ts agg t = map (\<lambda>i. agg ! (comm_off num ts t + i)) [0..<num t]"

definition count_type :: "'r gate list \<Rightarrow> GateType \<Rightarrow> nat" where
  "count_type gs t = fold (\<lambda>g n. if gtype g = t then n + 1 else n) gs 0"

lemma count_type_eq: "count_type gs t = length (filter (\<lambda>g. gtype g = t) gs)"
proof -
  have "fold (\<lambda>g n. if gtype g = t then n + 1 else n) gs k = k + length (filter (\<lambda>g. gtype g = t) gs)" for k
    by (induction gs arbitrary: k) auto
  then show ?thesis by (simp add: count_type_def)
qed

lemma length_online_comm: "length (online_comm num ts f) = total_comm num ts"
  by (simp add: online_comm_def total_comm_def length_concat comp_def)

lemma online_comm_nth:
  "t \<in> set ts \<Longrightarrow> i < num t \<Longrightarrow> comm_off num ts t + i < total_comm num ts"
  "t \<in> set ts \<Longrightarrow> i < num t \<Longrightarrow> online_comm num ts f ! (comm_off num ts t + i) = f t ! i"
  by (induction ts) (auto simp: online_comm_def comm_off_def total_comm_def nth_append)

text \<open>After the opening, each type's vector has the sums of the parties' shares.\<close>

lemma all_values_sum:
  assumes "t \<in> set ts"
  shows "all_values num ts (map (\<lambda>j. psum n (\<lambda>p. online_comm num ts (f p) ! j)) [0..<total_comm num ts]) t =
    map (\<lambda>i. psum n (\<lambda>p. f p t ! i)) [0..<num t]"
  by (auto simp: all_values_def online_comm_nth [OF assms])

text \<open>
  The receiving loop keeps one index per type. \<open>indexed T ty f\<close> is its step: \<open>f a i\<close> processes
  the item \<open>a\<close> at index \<open>i\<close> of its type. If all vectors list the values of the items in order,
  the index always finds the item's own value.
\<close>

definition indexed ::
  "GateType set \<Rightarrow> ('a \<Rightarrow> GateType) \<Rightarrow> ('a \<Rightarrow> nat \<Rightarrow> 's \<Rightarrow> 's) \<Rightarrow> 'a \<Rightarrow> 's \<times> (GateType \<Rightarrow> nat) \<Rightarrow> 's \<times> (GateType \<Rightarrow> nat)" where
  "indexed T ty f a = (\<lambda>(s, idx). (f a (idx (ty a)) s,
     if ty a \<in> T then idx(ty a := idx (ty a) + 1) else idx))"

definition of_type :: "('a \<Rightarrow> GateType) \<Rightarrow> 'a list \<Rightarrow> GateType \<Rightarrow> 'a list" where
  "of_type ty items t = filter (\<lambda>a. ty a = t) items"

lemma of_type_simps [simp]:
  "of_type ty [] t = []" "of_type ty (a # as) t = (if ty a = t then a # of_type ty as t else of_type ty as t)"
  "of_type ty (as @ bs) t = of_type ty as t @ of_type ty bs t"
  by (simp_all add: of_type_def)

lemma indexed_eq: "indexed T ty f a (s, idx) =
    (f a (idx (ty a)) s, if ty a \<in> T then idx(ty a := idx (ty a) + 1) else idx)"
  by (simp add: indexed_def)

lemma fold_indexed:
  assumes "\<And>pre a post s. items = pre @ a # post \<Longrightarrow> ty a \<in> T \<Longrightarrow> f a (length (of_type ty pre (ty a))) s = g a s"
    "\<And>a i s. a \<in> set items \<Longrightarrow> ty a \<notin> T \<Longrightarrow> f a i s = g a s"
  shows "fold (indexed T ty f) items (s, \<lambda>_. 0) =
    (fold g items s, \<lambda>t. if t \<in> T then length (of_type ty items t) else 0)"
  using assms
proof (induction items rule: rev_induct)
  case (snoc a items)
  have "fold (indexed T ty f) items (s, \<lambda>_. 0) =
    (fold g items s, \<lambda>t. if t \<in> T then length (of_type ty items t) else 0)"
    by (rule snoc.IH) (use snoc.prems in auto)
  with snoc.prems(1) [of items a "[]"] snoc.prems(2) [of a] show ?case
    by (auto simp: indexed_eq fun_eq_iff)
qed (simp add: fun_eq_iff)

lemma of_type_nth:
  "items = pre @ a # post \<Longrightarrow> map x (of_type ty items (ty a)) ! length (of_type ty pre (ty a)) = x a"
  by (simp add: nth_append)

lemma push_fold:
  "fold (\<lambda>a f. if ty a \<in> T then push (ty a) (x a) f else f) items f t =
     f t @ (if t \<in> T then map x (of_type ty items t) else [])"
  by (induction items arbitrary: f) (auto simp: push_def)

subsection \<open>Correctness of the shares\<close>

lemma q_share_cong:
  assumes "gate_typed g" "\<And>w. w \<in> set (gins g) \<Longrightarrow> ws ! w = ws' ! w"
  shows "q_share me G ws g = q_share me G ws' g"
proof (cases g)
  case (SIMDGate t as bs out)
  have "length as = length bs" using assms(1) by (simp add: SIMDGate)
  then show ?thesis
    using assms(2) unfolding SIMDGate q_share.simps q_dotp_def Let_def
    by (intro fold_cong refl) (simp add: SIMDGate)
qed (use assms in \<open>simp_all add: q_mul_def q_mul3_def q_mul4_def\<close>)

lemma shared_value: "shared n kf sh x \<Longrightarrow> x = y \<Longrightarrow> shared n kf sh y"
  by simp

text \<open>The masks a gate needs: those of its input wires and what its preprocessing dealt.\<close>

definition gate_ready ::
  "nat \<Rightarrow> (nat \<Rightarrow> 'r::comm_ring_1) \<Rightarrow> (wire_t \<Rightarrow> 'r) \<Rightarrow> 'r gate \<Rightarrow> (nat \<Rightarrow> ('r, 'b) preproc_gate option list) \<Rightarrow> bool" where
  "gate_ready n kf \<delta> g G \<longleftrightarrow>
     (\<forall>w\<in>insert (gout g) (set (gins g)). shared n kf (\<lambda>p. sh_at (G p) w) (\<delta> w)) \<and>
     arith_ok n kf \<delta> g (\<lambda>p. the (G p ! gout g))"

lemma dealt_sel_shared: "dealt_sel n kf sel pgs x \<Longrightarrow> shared n kf (\<lambda>p. fst (sel (pgs p))) x"
  by (simp add: dealt_sel_def dealt_shared)

lemma q_mul_shared:
  assumes "gate_ready n kf \<delta> (FIn2Gate kMul a b out) G" "0 < n" "m ! a = va + \<delta> a" "m ! b = vb + \<delta> b"
  shows "shared n kf (\<lambda>p. q_mul p (G p) m a b out) (va * vb + \<delta> out)"
proof -
  have S: "shared n kf (\<lambda>p. sh_at (G p) a) (\<delta> a)" "shared n kf (\<lambda>p. sh_at (G p) b) (\<delta> b)"
    "shared n kf (\<lambda>p. fst (pg_mask (the (G p ! out)))) (\<delta> out)"
    "shared n kf (\<lambda>p. fst (mask_prod (the (G p ! out)))) (\<delta> a * \<delta> b)"
    using assms(1) by (auto simp: gate_ready_def sh_at_def mask_at_def dest: dealt_sel_shared)
  show ?thesis
    unfolding q_mul_def Let_def
    by (rule shared_value, (rule shared_addc shared_sub shared_add shared_mul S assms(2))+)
      (simp add: assms(3,4) algebra_simps)
qed

lemma q_mul3_shared:
  assumes "gate_ready n kf \<delta> (FIn3Gate kMul3 a b c out) G" "0 < n"
    "m ! a = va + \<delta> a" "m ! b = vb + \<delta> b" "m ! c = vc + \<delta> c"
  shows "shared n kf (\<lambda>p. q_mul3 p (G p) m a b c out) (va * vb * vc + \<delta> out)"
proof -
  have S: "shared n kf (\<lambda>p. sh_at (G p) a) (\<delta> a)" "shared n kf (\<lambda>p. sh_at (G p) b) (\<delta> b)"
    "shared n kf (\<lambda>p. sh_at (G p) c) (\<delta> c)"
    "shared n kf (\<lambda>p. fst (pg_mask (the (G p ! out)))) (\<delta> out)"
    "shared n kf (\<lambda>p. fst (mask_ab (the (G p ! out)))) (\<delta> a * \<delta> b)"
    "shared n kf (\<lambda>p. fst (mask_ac (the (G p ! out)))) (\<delta> a * \<delta> c)"
    "shared n kf (\<lambda>p. fst (mask_bc (the (G p ! out)))) (\<delta> b * \<delta> c)"
    "shared n kf (\<lambda>p. fst (mask_abc (the (G p ! out)))) (\<delta> a * \<delta> b * \<delta> c)"
    using assms(1) by (auto simp: gate_ready_def sh_at_def mask_at_def dest: dealt_sel_shared)
  show ?thesis
    unfolding q_mul3_def Let_def
    by (rule shared_value, (rule shared_addc shared_sub shared_add shared_mul S assms(2))+)
      (simp add: assms(3-) algebra_simps)
qed

lemma q_mul4_shared:
  assumes "gate_ready n kf \<delta> (FIn4Gate kMul4 a b c d out) G" "0 < n"
    "m ! a = va + \<delta> a" "m ! b = vb + \<delta> b" "m ! c = vc + \<delta> c" "m ! d = vd + \<delta> d"
  shows "shared n kf (\<lambda>p. q_mul4 p (G p) m a b c d out) (va * vb * vc * vd + \<delta> out)"
proof -
  have S: "shared n kf (\<lambda>p. sh_at (G p) a) (\<delta> a)" "shared n kf (\<lambda>p. sh_at (G p) b) (\<delta> b)"
    "shared n kf (\<lambda>p. sh_at (G p) c) (\<delta> c)" "shared n kf (\<lambda>p. sh_at (G p) d) (\<delta> d)"
    "shared n kf (\<lambda>p. fst (pg_mask (the (G p ! out)))) (\<delta> out)"
    "shared n kf (\<lambda>p. fst (mask_ab (the (G p ! out)))) (\<delta> a * \<delta> b)"
    "shared n kf (\<lambda>p. fst (mask_ac (the (G p ! out)))) (\<delta> a * \<delta> c)"
    "shared n kf (\<lambda>p. fst (mask_ad (the (G p ! out)))) (\<delta> a * \<delta> d)"
    "shared n kf (\<lambda>p. fst (mask_bc (the (G p ! out)))) (\<delta> b * \<delta> c)"
    "shared n kf (\<lambda>p. fst (mask_bd (the (G p ! out)))) (\<delta> b * \<delta> d)"
    "shared n kf (\<lambda>p. fst (mask_cd (the (G p ! out)))) (\<delta> c * \<delta> d)"
    "shared n kf (\<lambda>p. fst (mask_abc (the (G p ! out)))) (\<delta> a * \<delta> b * \<delta> c)"
    "shared n kf (\<lambda>p. fst (mask_abd (the (G p ! out)))) (\<delta> a * \<delta> b * \<delta> d)"
    "shared n kf (\<lambda>p. fst (mask_acd (the (G p ! out)))) (\<delta> a * \<delta> c * \<delta> d)"
    "shared n kf (\<lambda>p. fst (mask_bcd (the (G p ! out)))) (\<delta> b * \<delta> c * \<delta> d)"
    "shared n kf (\<lambda>p. fst (mask_abcd (the (G p ! out)))) (\<delta> a * \<delta> b * \<delta> c * \<delta> d)"
    using assms(1) by (auto simp: gate_ready_def sh_at_def mask_at_def dest: dealt_sel_shared)
  show ?thesis
    unfolding q_mul4_def Let_def
    by (rule shared_value, (rule shared_addc shared_sub shared_add shared_mul S assms(2))+)
      (simp add: assms(3-) algebra_simps)
qed

lemma q_dotp_shared:
  assumes "gate_ready n kf \<delta> (SIMDGate kDotprod as bs out) G" "0 < n" "length as = length bs"
    "\<And>w. w \<in> set (as @ bs) \<Longrightarrow> m ! w = v ! w + \<delta> w"
  shows "shared n kf (\<lambda>p. q_dotp p (G p) m as bs out) (dotp v as bs + \<delta> out)"
proof -
  let ?P = "\<lambda>xs x y. (\<Sum>i\<leftarrow>xs. x (as ! i) * y (bs ! i))"
  have S0: "shared n kf (\<lambda>p. fst (pg_mask (the (G p ! out)))) (\<delta> out)"
    "shared n kf (\<lambda>p. fst (mask_prod (the (G p ! out)))) (?P [0..<length as] \<delta> \<delta>)"
    using assms(1) by (auto simp: gate_ready_def sh_at_def mask_at_def dest: dealt_sel_shared)
  have S: "shared n kf (\<lambda>p. sh_at (G p) w) (\<delta> w)" if "w \<in> set (as @ bs)" for w
    using assms(1) that by (simp add: gate_ready_def)
  let ?f = "\<lambda>p i q. aas_addc (m ! (as ! i) * m ! (bs ! i)) p (aas_sub q
    (aas_add (aas_mul (sh_at (G p) (as ! i)) (m ! (bs ! i))) (aas_mul (sh_at (G p) (bs ! i)) (m ! (as ! i)))))"
  have "shared n kf (\<lambda>p. fold (?f p) xs (q p)) (x - ?P xs \<delta> \<delta> + ?P xs (\<lambda>w. v ! w) (\<lambda>w. v ! w))"
    if "shared n kf q x" "set xs \<subseteq> {..<length as}" for xs q x
    using that
  proof (induction xs arbitrary: q x)
    case (Cons i xs)
    let ?a = "as ! i" and ?b = "bs ! i"
    have in1: "?a \<in> set (as @ bs)" and in2: "?b \<in> set (as @ bs)" using Cons.prems(2) assms(3) by auto
    have "shared n kf (\<lambda>p. ?f p i (q p)) (x - (\<delta> ?a * m ! ?b + \<delta> ?b * m ! ?a) + m ! ?a * m ! ?b)"
      by (rule shared_addc shared_sub shared_add shared_mul Cons.prems(1) S in1 in2 assms(2))+
    from Cons.IH [OF this] Cons.prems(2) show ?case
      using assms(4) [OF in1] assms(4) [OF in2] by (auto elim!: shared_value simp: algebra_simps)
  qed simp
  note F = this
  have "set [0..<length as] \<subseteq> {..<length as}" by auto
  from F [OF shared_add [OF S0] this] show ?thesis
    unfolding q_dotp_def Let_def dotp_def by (rule shared_value) simp
qed

text \<open>
  The shares of a multiplication gate share its masked output, provided all parties hold the
  masked values of its inputs.
\<close>

lemma q_share_shared:
  assumes ready: "gate_ready n kf \<delta> g G" and g: "gate_typed g" "gtype g \<in> set mult_types" and n: "0 < n"
    and ws: "\<And>p w. 1 \<le> p \<Longrightarrow> p \<le> n \<Longrightarrow> w \<in> set (gins g) \<Longrightarrow> ws p ! w = v ! w + \<delta> w"
  shows "shared n kf (\<lambda>p. q_share p (G p) (ws p) g) (gate_val R inp v g + \<delta> (gout g))"
proof -
  have m: "ws 1 ! w = v ! w + \<delta> w" if "w \<in> set (gins g)" for w using ws [of 1 w] n that by simp
  have "shared n kf (\<lambda>p. q_share p (G p) (ws 1) g) (gate_val R inp v g + \<delta> (gout g))"
  proof (cases g)
    case (FIn2Gate t a b out)
    then have "t = kMul" using g by auto
    with FIn2Gate show ?thesis
      using q_mul_shared [OF _ n, of kf \<delta> a b out G "ws 1" "v ! a" "v ! b"] ready m by simp
  next
    case (FIn3Gate t a b c out)
    then have "t = kMul3" using g by auto
    with FIn3Gate show ?thesis
      using q_mul3_shared [OF _ n, of kf \<delta> a b c out G "ws 1" "v ! a" "v ! b" "v ! c"] ready m by simp
  next
    case (FIn4Gate t a b c d out)
    then have "t = kMul4" using g by auto
    with FIn4Gate show ?thesis
      using q_mul4_shared [OF _ n, of kf \<delta> a b c d out G "ws 1" "v ! a" "v ! b" "v ! c" "v ! d"] ready m by simp
  next
    case (SIMDGate t as bs out)
    then have "t = kDotprod" "length as = length bs" using g by auto
    with SIMDGate show ?thesis
      using q_dotp_shared [OF _ n, of kf \<delta> as bs out G "ws 1" v] ready m by simp
  qed (use g in auto)
  moreover have "q_share p (G p) (ws 1) g = q_share p (G p) (ws p) g" if "1 \<le> p" "p \<le> n" for p
    using ws [OF that] m by (intro q_share_cong g(1)) simp
  ultimately show ?thesis by (simp cong: shared_cong)
qed

subsection \<open>The state of an evaluation\<close>

text \<open>
  What an evaluator keeps per wire: the masked value, the share it computed and the value that
  was opened.
\<close>

record 'r online =
  wires :: "'r list"
  q_sh :: "'r AuthAddShare list"
  q_val :: "'r list"

definition online_new :: "nat \<Rightarrow> 'r::comm_ring_1 online" where
  "online_new n = \<lparr>wires = replicate n 0, q_sh = replicate n AuthAddShare_default, q_val = replicate n 0\<rparr>"

definition set_wire :: "wire_t \<Rightarrow> 'r \<Rightarrow> 'r online \<Rightarrow> 'r online" where
  "set_wire w x st = st\<lparr>wires := (wires st)[w := x]\<rparr>"

definition set_qval :: "wire_t \<Rightarrow> 'r \<Rightarrow> 'r online \<Rightarrow> 'r online" where
  "set_qval w x st = st\<lparr>q_val := (q_val st)[w := x]\<rparr>"

definition set_qsh :: "wire_t \<Rightarrow> 'r AuthAddShare \<Rightarrow> 'r online \<Rightarrow> 'r online" where
  "set_qsh w x st = st\<lparr>q_sh := (q_sh st)[w := x]\<rparr>"

lemma online_fields [simp]:
  "wires (set_wire w x st) = (wires st)[w := x]" "wires (set_qval w x st) = wires st"
  "wires (set_qsh w s st) = wires st" "q_val (set_wire w x st) = q_val st"
  "q_val (set_qval w x st) = (q_val st)[w := x]" "q_val (set_qsh w s st) = q_val st"
  "q_sh (set_wire w x st) = q_sh st" "q_sh (set_qval w x st) = q_sh st"
  "q_sh (set_qsh w s st) = (q_sh st)[w := s]"
  by (simp_all add: set_wire_def set_qval_def set_qsh_def)

text \<open>The linear gates, as the receiving half of a level evaluates them.\<close>

fun lin_gate :: "'r::comm_ring_1 gate \<Rightarrow> 'r online \<Rightarrow> 'r online" where
  "lin_gate (FIn2Gate t a b out) st =
     (if t = kAdd then set_qval out 0 (set_wire out (wires st ! a + wires st ! b) st)
      else if t = kSub then set_qval out 0 (set_wire out (wires st ! a - wires st ! b) st)
      else st)"
| "lin_gate (ConstOpGate t a k out) st =
     (if t = kConstAdd then set_wire out (wires st ! a + k) st
      else if t = kConstMul then set_wire out (wires st ! a * k) st
      else st)"
| "lin_gate g st = st"

text \<open>
  \<open>masked v \<delta> D ws\<close>: the wires in \<open>D\<close> hold their masked values. It is the invariant of the
  online phase, with \<open>v\<close> the values of the plaintext evaluation and \<open>D\<close> the wires computed so far.
\<close>

definition masked :: "'r::comm_ring_1 list \<Rightarrow> (wire_t \<Rightarrow> 'r) \<Rightarrow> wire_t set \<Rightarrow> 'r list \<Rightarrow> bool" where
  "masked v \<delta> D ws \<longleftrightarrow> length ws = length v \<and> (\<forall>w\<in>D. w < length v \<and> ws ! w = v ! w + \<delta> w)"

lemma maskedD:
  "masked v \<delta> D ws \<Longrightarrow> w \<in> D \<Longrightarrow> ws ! w = v ! w + \<delta> w" "masked v \<delta> D ws \<Longrightarrow> w \<in> D \<Longrightarrow> w < length v"
  by (simp_all add: masked_def)

lemma masked_mono: "masked v \<delta> D ws \<Longrightarrow> D' \<subseteq> D \<Longrightarrow> masked v \<delta> D' ws"
  by (auto simp: masked_def)

lemma masked_set:
  "masked v \<delta> D ws \<Longrightarrow> w < length v \<Longrightarrow> x = v ! w + \<delta> w \<Longrightarrow> masked v \<delta> (insert w D) (ws[w := x])"
  by (auto simp: masked_def nth_list_update)

lemma masked_lin:
  assumes "masked v \<delta> D (wires st)" "gate_typed g" "gtype g \<in> {kAdd, kSub, kConstAdd, kConstMul}" "set (gins g) \<subseteq> D"
    "gout g < length v" "v ! gout g = gate_val R inp v g" "arith_ok n kf \<delta> g pgs"
  shows "masked v \<delta> (insert (gout g) D) (wires (lin_gate g st))"
  using assms
  by (cases g) (auto intro!: masked_set simp: maskedD algebra_simps)

lemma gates_dealt_ready:
  assumes "gates_dealt n kf GP IP \<delta> gs ctr G" "topo {} gs" "g \<in> set gs" "gtype g \<noteq> kInp"
    "GP \<delta> g (\<lambda>p. the (G p ! gout g)) \<Longrightarrow> arith_ok n kf \<delta> g (\<lambda>p. the (G p ! gout g))"
  shows "gate_ready n kf \<delta> g G"
proof -
  have sh: "shared n kf (\<lambda>p. sh_at (G p) (gout h)) (\<delta> (gout h))" if "h \<in> set gs" for h
    using assms(1) that dealt_sel_shared unfolding gates_dealt_def sh_at_def mask_at_def by blast
  have "set (gins g) \<subseteq> gout ` set gs" using topo_gins [OF assms(2,3)] by simp
  with sh have "\<forall>w\<in>set (gins g). shared n kf (\<lambda>p. sh_at (G p) w) (\<delta> w)" by auto
  then show ?thesis using sh [OF assms(3)] assms(1,3-5) by (auto simp: gate_ready_def gates_dealt_def)
qed

text \<open>Opening the values \<open>x p a\<close> of the items \<open>a\<close>, grouped by type.\<close>

lemma opened_values:
  fixes x :: "nat \<Rightarrow> 'a \<Rightarrow> 'r::comm_ring_1"
  assumes "\<And>t. t \<in> set ts \<Longrightarrow> num t = length (of_type ty items t)"
    "\<And>p t. 1 \<le> p \<Longrightarrow> p \<le> n \<Longrightarrow> t \<in> set ts \<Longrightarrow> f p t = map (x p) (of_type ty items t)" "t \<in> set ts"
  shows "all_values num ts (map (\<lambda>j. psum n (\<lambda>p. online_comm num ts (f p) ! j)) [0..<total_comm num ts]) t =
    map (\<lambda>a. psum n (\<lambda>p. x p a)) (of_type ty items t)"
  unfolding all_values_sum [OF assms(3)]
  by (rule nth_equalityI) (use assms in \<open>auto cong: psum_cong\<close>)

subsection \<open>The interface of a level\<close>

text \<open>
  All three evaluators run the levels of a circuit in order. \<open>inv W E\<close> says that in the joint state
  \<open>E\<close> the wires \<open>W\<close> are evaluated, \<open>I\<close> are the input wires, which are set before the first level,
  and \<open>gate_fine\<close> is what the evaluator asks of the gates. The law is that a level adds the outputs
  of its gates; the lemma is that then the whole run evaluates all wires.
\<close>

locale level_run =
  fixes atDepth :: "'r gate list \<Rightarrow> 's \<Rightarrow> 's" and inv :: "wire_t set \<Rightarrow> 's \<Rightarrow> bool"
    and I :: "wire_t set" and gate_fine :: "'r gate \<Rightarrow> bool"
  assumes level: "level_ok D D gs \<Longrightarrow> \<forall>g\<in>set gs. gate_fine g \<Longrightarrow> inv (D \<union> I) E \<Longrightarrow>
    inv (D \<union> gout ` set gs \<union> I) (atDepth gs E)"
begin

lemma levels:
  assumes "levels_ok D ls" "\<forall>g\<in>set (concat ls). gate_fine g" "inv (D \<union> I) E"
  shows "inv (D \<union> gout ` set (concat ls) \<union> I) (fold atDepth ls E)"
  using assms
proof (induction ls arbitrary: D E)
  case (Cons l ls)
  have "inv (D \<union> gout ` set l \<union> I) (atDepth l E)" by (rule level) (use Cons.prems in auto)
  then have "inv (D \<union> gout ` set l \<union> gout ` set (concat ls) \<union> I) (fold atDepth ls (atDepth l E))"
    by (rule Cons.IH [rotated 2]) (use Cons.prems in auto)
  then show ?case by (simp add: image_Un Un_assoc)
qed simp

lemma run_circuit:
  assumes "circuit_ok c" "\<forall>g\<in>set (circ_gates c). gate_fine g" "inv I E"
  shows "inv (gout ` set (circ_gates c) \<union> I) (fold atDepth (gates_by_level (orderGatesByLevel c)) E)"
proof -
  let ?ls = "gates_by_level (orderGatesByLevel c)"
  note set = set_orderGatesByLevel [OF assms(1)]
  have "\<forall>g\<in>set (concat ?ls). gate_fine g" unfolding set by (rule assms(2))
  from levels [OF orderGatesByLevel_levels_ok [OF assms(1)] this, of E] assms(3) show ?thesis unfolding set by simp
qed

end

end
