(* ===== verification/Online_Bool.thy ===== *)
theory Online_Bool
  imports Online_Gates
begin

section \<open>The boolean evaluators of the online phase\<close>

text \<open>
  \<open>BoolEval\<close> evaluates several instances of one boolean circuit side by side, for the equality and
  comparison gates of the field evaluator; \<open>BoolEvaluator\<close> evaluates one circuit and opens through
  the dealer. Both add a random pad to every opened value, drawn by the parties from their common
  generator \<open>all_minus_0\<close>, and subtract it again from what was opened.

  The main lemma is \<open>bool_level\<close>: a level keeps the invariant \<open>masked\<close> at every party and in every
  instance.
\<close>

subsection \<open>The sending half of a level\<close>

definition draw_pads :: "('g \<Rightarrow> BoolRing \<times> 'g) \<Rightarrow> nat \<Rightarrow> 'g RandGenPool \<Rightarrow> BoolRing list \<times> BoolRing \<times> 'g RandGenPool" where
  "draw_pads smp nP rg =
     fold (\<lambda>i (r, r_sum, rg). let (x, rg) = draw_all_minus_0 smp rg in (r[i := x], r_sum + x, rg))
       [0..<nP] (replicate nP 0, 0, rg)"

definition bool_send_gate ::
  "(GateType \<Rightarrow> 'g \<Rightarrow> BoolRing \<times> 'g) \<Rightarrow> nat \<Rightarrow> nat \<Rightarrow> bool_gate option list \<Rightarrow> BoolRing gate \<Rightarrow>
   BoolRing online \<times> 'g RandGenPool \<times> (GateType \<Rightarrow> BoolRing list) \<times> (GateType \<Rightarrow> BoolRing list) \<Rightarrow>
   BoolRing online \<times> 'g RandGenPool \<times> (GateType \<Rightarrow> BoolRing list) \<times> (GateType \<Rightarrow> BoolRing list)" where
  "bool_send_gate smps nP me G g = (\<lambda>(st, rg, nonTP, r_pad).
     if gtype g \<in> set mult_types then
       let st = (if gtype g \<noteq> kDotprod then set_qval (gout g) 0 st else st)
       in if me \<noteq> 0 then
            let (r, r_sum, rg) = draw_pads (smps (gtype g)) nP rg;
                r_pad = push (gtype g) r_sum r_pad;
                q = q_share me G (wires st) g;
                q = fold (\<lambda>i q. addWithAdder (r ! (me - 1)) me i q) (parties nP) q;
                nonTP = push (gtype g) (valueAt q) nonTP
            in (set_qsh (gout g) q st, rg, nonTP, r_pad)
          else (st, rg, nonTP, r_pad)
     else (st, rg, nonTP, r_pad))"

definition bool_recv_gate ::
  "(GateType \<Rightarrow> BoolRing list) \<Rightarrow> (GateType \<Rightarrow> BoolRing list) \<Rightarrow> BoolRing gate \<Rightarrow>
   BoolRing online \<times> (GateType \<Rightarrow> nat) \<Rightarrow> BoolRing online \<times> (GateType \<Rightarrow> nat)" where
  "bool_recv_gate all_vals r_pad = indexed (set mult_types) gtype (\<lambda>g i st.
     if gtype g \<in> set mult_types then
       let q = all_vals (gtype g) ! i
       in set_wire (gout g) (q - r_pad (gtype g) ! i) (set_qval (gout g) q st)
     else lin_gate g st)"

subsection \<open>Several instances\<close>

text \<open>\<open>on_inst i f\<close>: the loop body \<open>f\<close> run on instance \<open>i\<close>, with the rest of the state \<open>r\<close>.\<close>

definition on_inst :: "nat \<Rightarrow> ('s \<times> 'r \<Rightarrow> 's \<times> 'r) \<Rightarrow> 's list \<times> 'r \<Rightarrow> 's list \<times> 'r" where
  "on_inst i f = (\<lambda>(insts, r). let (s, r) = f (insts ! i, r) in (insts[i := s], r))"

definition BoolEval_PartySend ::
  "('g \<Rightarrow> BoolRing \<times> 'g) \<Rightarrow> nat \<Rightarrow> nat \<Rightarrow> bool_gate option list list \<Rightarrow> BoolRing gate list \<Rightarrow> BoolRing online list \<Rightarrow>
   'g RandGenPool \<Rightarrow> BoolRing online list \<times> 'g RandGenPool \<times> (GateType \<Rightarrow> BoolRing list) \<times> (GateType \<Rightarrow> BoolRing list)" where
  "BoolEval_PartySend smp nP me vpreproc gs insts rg =
     fold (\<lambda>i. on_inst i (fold (bool_send_gate (\<lambda>_. smp) nP me (vpreproc ! i)) gs)) [0..<length insts]
       (insts, rg, \<lambda>_. [], \<lambda>_. [])"

definition BoolEval_PartyRecv ::
  "(GateType \<Rightarrow> BoolRing list) \<Rightarrow> (GateType \<Rightarrow> BoolRing list) \<Rightarrow> BoolRing gate list \<Rightarrow> BoolRing online list \<Rightarrow>
   BoolRing online list" where
  "BoolEval_PartyRecv all_vals r_pad gs insts =
     fst (fold (\<lambda>i. on_inst i (fold (bool_recv_gate all_vals r_pad) gs)) [0..<length insts] (insts, \<lambda>_. 0))"

lemma length_on_inst [simp]: "length (fst (on_inst i f (insts, r))) = length insts"
  by (simp add: on_inst_def split_beta Let_def)

lemma on_inst_fold:
  assumes "i < length insts"
  shows "on_inst i (fold f gs) (insts, r) = fold (\<lambda>g. on_inst i (f g)) gs (insts, r)"
  using assms
proof (induction gs arbitrary: insts r)
  case (Cons g gs)
  have "on_inst i (fold f (g # gs)) (insts, r) = on_inst i (fold f gs) (on_inst i (f g) (insts, r))"
    using Cons.prems by (simp add: on_inst_def split_beta Let_def)
  also have "\<dots> = fold (\<lambda>g. on_inst i (f g)) gs (on_inst i (f g) (insts, r))"
    using Cons.IH [of "fst (on_inst i (f g) (insts, r))" "snd (on_inst i (f g) (insts, r))"] Cons.prems by simp
  finally show ?case by (simp add: comp_def)
qed (simp add: on_inst_def)

text \<open>The pairs of instance and gate, in the order of the two loops.\<close>

definition inst_gates :: "nat \<Rightarrow> 'a list \<Rightarrow> (nat \<times> 'a) list" where
  "inst_gates k gs = concat (map (\<lambda>i. map (Pair i) gs) [0..<k])"

lemma inst_gates_simps [simp]:
  "inst_gates 0 gs = []" "inst_gates (Suc k) gs = inst_gates k gs @ map (Pair k) gs"
  by (simp_all add: inst_gates_def)

lemma length_insts_fold:
  "length (fst (fold (\<lambda>(i, g). on_inst i (f i g)) items (insts, r))) = length insts"
proof (induction items arbitrary: insts r)
  case (Cons a items)
  show ?case
    using Cons.IH [of "fst (on_inst (fst a) (f (fst a) (snd a)) (insts, r))" "snd (on_inst (fst a) (f (fst a) (snd a)) (insts, r))"]
    by (simp add: split_beta)
qed simp

lemma insts_fold:
  assumes "k \<le> length insts"
  shows "fold (\<lambda>i. on_inst i (fold (f i) gs)) [0..<k] (insts, r) =
    fold (\<lambda>(i, g). on_inst i (f i g)) (inst_gates k gs) (insts, r)"
  using assms
proof (induction k)
  case (Suc k)
  let ?S = "fold (\<lambda>(i, g). on_inst i (f i g)) (inst_gates k gs) (insts, r)"
  have "k < length (fst ?S)" using Suc.prems by (simp add: length_insts_fold)
  then have "on_inst k (fold (f k) gs) ?S = fold (\<lambda>g. on_inst k (f k g)) gs ?S"
    using on_inst_fold [of k "fst ?S" "f k" gs "snd ?S"] by simp
  with Suc show ?case by (simp add: fold_map comp_def)
qed simp

lemma inst_gates_split:
  "inst_gates k gs = pre @ (i, g) # post \<Longrightarrow>
   i < k \<and> (\<exists>gpre gpost. gs = gpre @ g # gpost \<and> set gpre \<subseteq> {h. (i, h) \<in> set pre})"
proof (induction k arbitrary: post)
  case (Suc k)
  let ?A = "inst_gates k gs"
  from Suc.prems have "?A @ map (Pair k) gs = pre @ (i, g) # post" by simp
  then obtain us where "?A = pre @ us \<and> us @ map (Pair k) gs = (i, g) # post \<or>
      ?A @ us = pre \<and> map (Pair k) gs = us @ (i, g) # post"
    unfolding append_eq_append_conv2 by blast
  then consider "?A = pre @ us" "us @ map (Pair k) gs = (i, g) # post"
    | "pre = ?A @ us" "map (Pair k) gs = us @ (i, g) # post"
    by blast
  then show ?case
  proof cases
    case 1
    show ?thesis
    proof (cases us)
      case Nil
      with 1(2) obtain gpost where "k = i" "gs = g # gpost" by (cases gs) auto
      then show ?thesis by (metis append_Nil empty_set empty_subsetI lessI)
    next
      case (Cons u us')
      with 1 Suc.IH [of us'] show ?thesis by auto
    qed
  next
    case 2
    then obtain gpre rest where g: "gs = gpre @ rest" "us = map (Pair k) gpre" "map (Pair k) rest = (i, g) # post"
      by (metis map_eq_append_conv)
    then obtain gpost where "rest = g # gpost" "k = i" by (cases rest) auto
    moreover have "set gpre \<subseteq> {h. (i, h) \<in> set pre}" unfolding 2(1) g(2) \<open>k = i\<close> by auto
    ultimately show ?thesis using g(1) by auto
  qed
qed simp

subsection \<open>The pads\<close>

text \<open>The pads in closed form: what \<open>smp\<close> gives from the state \<open>g\<close> of the common generator.\<close>

fun draws :: "('g \<Rightarrow> 'a \<times> 'g) \<Rightarrow> nat \<Rightarrow> 'g \<Rightarrow> 'a list \<times> 'g" where
  "draws smp 0 g = ([], g)"
| "draws smp (Suc n) g = (let (xs, g) = draws smp n g; (x, g) = smp g in (xs @ [x], g))"

lemma length_draws: "length (fst (draws smp n g)) = n"
  by (induction n) (simp_all add: Let_def split_beta)

lemma draw_pads_eq:
  "draw_pads smp nP rg = (fst (draws smp nP (k_all_minus_0 rg)), sum_list (fst (draws smp nP (k_all_minus_0 rg))),
     rg\<lparr>k_all_minus_0 := snd (draws smp nP (k_all_minus_0 rg))\<rparr>)"
proof -
  let ?D = "\<lambda>i. draws smp i (k_all_minus_0 rg)"
  have "fold (\<lambda>i (r, r_sum, rg). let (x, rg) = draw_all_minus_0 smp rg in (r[i := x], r_sum + x, rg))
       [0..<i] (replicate nP 0, 0, rg) =
      (fst (?D i) @ replicate (nP - i) 0, sum_list (fst (?D i)), rg\<lparr>k_all_minus_0 := snd (?D i)\<rparr>)" if "i \<le> nP" for i
    using that
  proof (induction i)
    case (Suc i)
    then have "replicate (nP - i) (0 :: BoolRing) = 0 # replicate (nP - Suc i) 0"
      by (metis Suc_diff_le diff_Suc_Suc replicate_Suc)
    with Suc show ?case
      by (simp add: draw_all_minus_0_def Let_def split_beta list_update_append length_draws)
  qed simp
  then show ?thesis by (simp add: draw_pads_def)
qed

lemma blind_value:
  assumes "1 \<le> me" "me \<le> nP"
  shows "valueAt (fold (\<lambda>i q. addWithAdder x me i q) (parties nP) q) = valueAt q + x"
proof -
  have "valueAt (fold (\<lambda>i q. addWithAdder x me i q) (parties k) q) = valueAt q + (if me \<le> k then x else 0)" for k
    using assms(1) by (induction k) (auto simp: share_simps)
  with assms(2) show ?thesis by simp
qed

text \<open>The pads of all items, gate by gate; a gate that is not opened has none.\<close>

abbreviation opened :: "BoolRing gate \<Rightarrow> bool" where
  "opened g \<equiv> gtype g \<in> set mult_types"

fun item_pads :: "(GateType \<Rightarrow> 'g \<Rightarrow> BoolRing \<times> 'g) \<Rightarrow> nat \<Rightarrow> (nat \<times> BoolRing gate) list \<Rightarrow> 'g \<Rightarrow>
    (nat \<times> BoolRing gate \<times> BoolRing list) list \<times> 'g" where
  "item_pads smps nP [] s = ([], s)"
| "item_pads smps nP ((i, g) # items) s =
     (let (r, s) = (if opened g then draws (smps (gtype g)) nP s else ([], s));
          (zs, s) = item_pads smps nP items s
      in ((i, g, r) # zs, s))"

abbreviation ity :: "nat \<times> BoolRing gate \<times> BoolRing list \<Rightarrow> GateType" where
  "ity \<equiv> \<lambda>(i, g, r). gtype g"

lemma item_pads_items: "map (\<lambda>(i, g, r). (i, g)) (fst (item_pads smps nP items s)) = items"
  by (induction items arbitrary: s) (auto simp: Let_def split_beta)

lemma item_pads_length: "(i, g, r) \<in> set (fst (item_pads smps nP items s)) \<Longrightarrow> opened g \<Longrightarrow> length r = nP"
  by (induction items arbitrary: s) (auto simp: Let_def split_beta length_draws split: if_splits)

text \<open>
  What the sending half leaves: no wire changes, and the vectors list for every opened item the
  party's share plus its own pad, and the sum of the pads. The pads, and the next state of the
  common generator, depend on that generator alone.
\<close>

definition item_share :: "nat \<Rightarrow> (nat \<Rightarrow> bool_gate option list) \<Rightarrow> (nat \<Rightarrow> BoolRing list) \<Rightarrow>
    nat \<times> BoolRing gate \<times> BoolRing list \<Rightarrow> BoolRing" where
  "item_share me G ws = (\<lambda>(i, g, r). valueAt (q_share me (G i) (ws i) g) + r ! (me - 1))"

definition send_inv ::
  "BoolRing online list \<Rightarrow> 'g \<Rightarrow> (nat \<times> BoolRing gate \<times> BoolRing list \<Rightarrow> BoolRing) \<Rightarrow>
   (nat \<times> BoolRing gate \<times> BoolRing list) list \<Rightarrow> (GateType \<Rightarrow> BoolRing list) \<Rightarrow> (GateType \<Rightarrow> BoolRing list) \<Rightarrow>
   BoolRing online list \<times> 'g RandGenPool \<times> (GateType \<Rightarrow> BoolRing list) \<times> (GateType \<Rightarrow> BoolRing list) \<Rightarrow> bool" where
  "send_inv insts s x zs f pd = (\<lambda>(insts', rg', f', pd').
     length insts' = length insts \<and> (\<forall>i<length insts. wires (insts' ! i) = wires (insts ! i)) \<and>
     k_all_minus_0 rg' = s \<and>
     (\<forall>t\<in>set mult_types. f' t = f t @ map x (of_type ity zs t) \<and>
        pd' t = pd t @ map (\<lambda>(i, g, r). sum_list r) (of_type ity zs t)))"

lemma send_items:
  assumes me: "1 \<le> me" "me \<le> nP" and items: "\<forall>(i, g)\<in>set items. i < length insts"
  shows "send_inv insts (snd (item_pads smps nP items (k_all_minus_0 rg)))
    (item_share me G (\<lambda>i. wires (insts ! i))) (fst (item_pads smps nP items (k_all_minus_0 rg))) f pd
    (fold (\<lambda>(i, g). on_inst i (bool_send_gate smps nP me (G i) g)) items (insts, rg, f, pd))"
  using items
proof (induction items arbitrary: insts rg f pd)
  case Nil
  then show ?case by (simp add: send_inv_def)
next
  case (Cons a items)
  obtain i g where a: "a = (i, g)" by (cases a)
  have i: "i < length insts" using Cons.prems a by auto
  show ?case
  proof (cases "opened g")
    case False
    have "on_inst i (bool_send_gate smps nP me (G i) g) (insts, rg, f, pd) = (insts, rg, f, pd)"
      using False by (simp add: on_inst_def bool_send_gate_def)
    moreover have "ity (i, g, r) \<notin> set mult_types" for r using False by simp
    ultimately show ?thesis
      using Cons.IH [of insts rg f pd] Cons.prems False unfolding a
      by (simp add: Let_def split_beta send_inv_def)
  next
    case True
    let ?t = "gtype g" and ?d = "draws (smps (gtype g)) nP (k_all_minus_0 rg)"
    define st where "st = (if ?t \<noteq> kDotprod then set_qval (gout g) 0 (insts ! i) else insts ! i)"
    define q where "q = fold (\<lambda>k q. addWithAdder (fst ?d ! (me - 1)) me k q) (parties nP) (q_share me (G i) (wires st) g)"
    have w: "wires st = wires (insts ! i)" by (simp add: st_def)
    have q: "valueAt q = item_share me G (\<lambda>i. wires (insts ! i)) (i, g, fst ?d)"
      unfolding q_def blind_value [OF me] by (simp add: item_share_def w)
    let ?insts = "insts[i := set_qsh (gout g) q st]" and ?rg = "rg\<lparr>k_all_minus_0 := snd ?d\<rparr>"
    let ?f = "push ?t (valueAt q) f" and ?pd = "push ?t (sum_list (fst ?d)) pd"
    have step: "on_inst i (bool_send_gate smps nP me (G i) g) (insts, rg, f, pd) = (?insts, ?rg, ?f, ?pd)"
      using True me(1) by (simp add: on_inst_def bool_send_gate_def draw_pads_eq Let_def st_def q_def)
    have ws: "wires (?insts ! j) = wires (insts ! j)" if "j < length insts" for j
      using that w by (cases "j = i") simp_all
    have sh: "item_share me G (\<lambda>j. wires (?insts ! j)) z = item_share me G (\<lambda>j. wires (insts ! j)) z"
      if "z \<in> set (fst (item_pads smps nP items s))" for z s
    proof -
      obtain j h r where z: "z = (j, h, r)" by (cases z)
      have "(j, h) \<in> set items" using that z item_pads_items [of smps nP items s] by (metis (mono_tags, lifting) case_prod_conv image_eqI list.set_map)
      then have "j < length insts" using Cons.prems by auto
      then show ?thesis by (simp add: z item_share_def ws)
    qed
    have IH: "send_inv ?insts (snd (item_pads smps nP items (snd ?d)))
        (item_share me G (\<lambda>i. wires (?insts ! i))) (fst (item_pads smps nP items (snd ?d))) ?f ?pd
        (fold (\<lambda>(i, g). on_inst i (bool_send_gate smps nP me (G i) g)) items (?insts, ?rg, ?f, ?pd))"
      using Cons.IH [of ?insts ?rg ?f ?pd] Cons.prems by simp
    have m: "map (item_share me G (\<lambda>i. wires (?insts ! i))) (of_type ity (fst (item_pads smps nP items (snd ?d))) t) =
        map (item_share me G (\<lambda>i. wires (insts ! i))) (of_type ity (fst (item_pads smps nP items (snd ?d))) t)" for t
      by (intro map_cong refl sh [of _ "snd ?d"]) (simp add: of_type_def)
    have push: "push t x h u = (if u = t then h u @ [x] else h u)" for t u and x :: BoolRing and h
      by (simp add: push_def)
    obtain insts' rg' f' pd' where F: "fold (\<lambda>(i, g). on_inst i (bool_send_gate smps nP me (G i) g)) items (?insts, ?rg, ?f, ?pd) =
        (insts', rg', f', pd')" by (rule prod_cases4)
    have zs: "item_pads smps nP ((i, g) # items) (k_all_minus_0 rg) =
        ((i, g, fst ?d) # fst (item_pads smps nP items (snd ?d)), snd (item_pads smps nP items (snd ?d)))"
      using True by (simp add: Let_def split_beta)
    have "length insts' = length insts" "\<And>j. j < length insts \<Longrightarrow> wires (insts' ! j) = wires (insts ! j)"
      "k_all_minus_0 rg' = snd (item_pads smps nP items (snd ?d))"
      "\<And>t. t \<in> set mult_types \<Longrightarrow> f' t = ?f t @ map (item_share me G (\<lambda>i. wires (insts ! i))) (of_type ity (fst (item_pads smps nP items (snd ?d))) t)"
      "\<And>t. t \<in> set mult_types \<Longrightarrow> pd' t = ?pd t @ map (\<lambda>(i, g, r). sum_list r) (of_type ity (fst (item_pads smps nP items (snd ?d))) t)"
      using IH ws unfolding F send_inv_def prod.case m by (simp_all del: set_simps)
    moreover have fold: "fold (\<lambda>(i, g). on_inst i (bool_send_gate smps nP me (G i) g)) ((i, g) # items) (insts, rg, f, pd) =
        (insts', rg', f', pd')" using step F by simp
    ultimately show ?thesis
      unfolding a fold zs send_inv_def prod.case by (simp add: push q del: set_simps)
  qed
qed

subsection \<open>The receiving half\<close>

definition recv_item :: "(nat \<times> BoolRing gate \<times> BoolRing list \<Rightarrow> BoolRing) \<Rightarrow> nat \<times> BoolRing gate \<times> BoolRing list \<Rightarrow>
    BoolRing online list \<Rightarrow> BoolRing online list" where
  "recv_item x = (\<lambda>(i, g, r) insts. insts[i :=
     if opened g then set_wire (gout g) (x (i, g, r) - sum_list r) (set_qval (gout g) (x (i, g, r)) (insts ! i))
     else lin_gate g (insts ! i)])"

lemma recv_items:
  assumes "\<And>t. t \<in> set mult_types \<Longrightarrow> all_vals t = map x (of_type ity zs t)"
    "\<And>t. t \<in> set mult_types \<Longrightarrow> pd t = map (\<lambda>(i, g, r). sum_list r) (of_type ity zs t)"
  shows "fst (fold (\<lambda>(i, g). on_inst i (bool_recv_gate all_vals pd g)) (map (\<lambda>(i, g, r). (i, g)) zs) (insts, \<lambda>_. 0)) =
    fold (recv_item x) zs insts"
proof -
  let ?F = "\<lambda>(i, g, r) k insts. insts[i :=
     if opened g then set_wire (gout g) (all_vals (gtype g) ! k - pd (gtype g) ! k)
       (set_qval (gout g) (all_vals (gtype g) ! k) (insts ! i))
     else lin_gate g (insts ! i)]"
  have "fold (\<lambda>(i, g). on_inst i (bool_recv_gate all_vals pd g)) (map (\<lambda>(i, g, r). (i, g)) zs) (insts, \<lambda>_. 0) =
      fold (indexed (set mult_types) ity ?F) zs (insts, \<lambda>_. 0)"
    unfolding fold_map
    by (intro fold_cong refl)
      (auto simp: on_inst_def bool_recv_gate_def indexed_def fun_eq_iff Let_def split: prod.splits simp del: set_simps)
  also have "\<dots> = (fold (recv_item x) zs insts, \<lambda>t. if t \<in> set mult_types then length (of_type ity zs t) else 0)"
  proof (rule fold_indexed)
    fix pre post and z :: "nat \<times> BoolRing gate \<times> BoolRing list" and ins :: "BoolRing online list"
    assume zs: "zs = pre @ z # post" and t: "ity z \<in> set mult_types"
    note N = of_type_nth [OF zs, of _ ity]
    show "?F z (length (of_type ity pre (ity z))) ins = recv_item x z ins"
      using t N [of x] N [of "\<lambda>(i, g, r). sum_list r"] assms [OF t]
      by (cases z) (simp add: recv_item_def del: set_simps)
  next
    fix z :: "nat \<times> BoolRing gate \<times> BoolRing list" and k and ins :: "BoolRing online list"
    assume "ity z \<notin> set mult_types"
    then show "?F z k ins = recv_item x z ins" by (cases z) (simp add: recv_item_def del: set_simps)
  qed
  finally show ?thesis by simp
qed

text \<open>If every opened value is the masked output plus the pads, the wires end masked.\<close>

lemma recv_items_masked:
  fixes v :: "nat \<Rightarrow> BoolRing list"
  assumes D: "\<And>i. i < length insts \<Longrightarrow> masked (v i) (\<delta> i) D (wires (insts ! i))"
    and split: "\<And>pre i g r post. zs = pre @ (i, g, r) # post \<Longrightarrow>
      i < length insts \<and> set (gins g) \<subseteq> D \<union> {gout h |h. \<exists>r. (i, h, r) \<in> set pre}"
    and g: "\<And>i g r. (i, g, r) \<in> set zs \<Longrightarrow> gtype g = kInp \<and> gout g \<in> D \<or>
      arith_gate g \<and> gout g < length (v i) \<and> v i ! gout g = gate_val R (inp i) (v i) g \<and>
      arith_ok n kb (\<delta> i) g (pgs i g)"
    and x: "\<And>i g r. (i, g, r) \<in> set zs \<Longrightarrow> opened g \<Longrightarrow> x (i, g, r) = v i ! gout g + \<delta> i (gout g) + sum_list r"
  shows "length (fold (recv_item x) zs insts) = length insts \<and>
    (\<forall>i<length insts. masked (v i) (\<delta> i) (D \<union> {gout h |h. \<exists>r. (i, h, r) \<in> set zs}) (wires (fold (recv_item x) zs insts ! i)))"
  using split g x
proof (induction zs rule: rev_induct)
  case Nil
  then show ?case using D by simp
next
  case (snoc z zs)
  obtain i g r where z: "z = (i, g, r)" by (cases z) auto
  let ?S = "fold (recv_item x) zs insts"
  have IH: "length ?S = length insts"
    "\<And>i. i < length insts \<Longrightarrow> masked (v i) (\<delta> i) (D \<union> {gout h |h. \<exists>r. (i, h, r) \<in> set zs}) (wires (?S ! i))"
  proof -
    have "length ?S = length insts \<and>
      (\<forall>i<length insts. masked (v i) (\<delta> i) (D \<union> {gout h |h. \<exists>r. (i, h, r) \<in> set zs}) (wires (?S ! i)))"
    proof (rule snoc.IH)
      fix pre i g r post assume "zs = pre @ (i, g, r) # post"
      then show "i < length insts \<and> set (gins g) \<subseteq> D \<union> {gout h |h. \<exists>r. (i, h, r) \<in> set pre}"
        using snoc.prems(1) [of pre i g r "post @ [z]"] by simp
    qed (use snoc.prems(2,3) in auto)
    then show "length ?S = length insts"
      "\<And>i. i < length insts \<Longrightarrow> masked (v i) (\<delta> i) (D \<union> {gout h |h. \<exists>r. (i, h, r) \<in> set zs}) (wires (?S ! i))"
      by blast+
  qed
  have i: "i < length insts" and ins: "set (gins g) \<subseteq> D \<union> {gout h |h. \<exists>r. (i, h, r) \<in> set zs}"
    using snoc.prems(1) [of zs i g r "[]"] by (auto simp: z)
  note G = snoc.prems(2) [of i g r]
  let ?D = "\<lambda>j. D \<union> {gout h |h. \<exists>r. (j, h, r) \<in> set zs}"
  let ?st = "if opened g then set_wire (gout g) (x (i, g, r) - sum_list r) (set_qval (gout g) (x (i, g, r)) (?S ! i))
     else lin_gate g (?S ! i)"
  have M: "masked (v i) (\<delta> i) (insert (gout g) (?D i)) (wires ?st)"
  proof (cases "opened g")
    case True
    then show ?thesis
      using masked_set [OF IH(2) [OF i], of "gout g" "x (i, g, r) - sum_list r"] G snoc.prems(3) [of i g r]
      by (auto simp: z)
  next
    case False
    show ?thesis
    proof (cases "gtype g = kInp")
      case True
      then have "lin_gate g (?S ! i) = ?S ! i" "gout g \<in> D" using G by (cases g; auto simp: z arith_gate_def)+
      with False IH(2) [OF i] show ?thesis by (simp add: insert_absorb)
    next
      case F: False
      then have "arith_gate g" using G by (auto simp: z)
      then have "gate_typed g" "gtype g \<in> {kAdd, kSub, kConstAdd, kConstMul}"
        using False by (auto simp: arith_gate_def)
      with masked_lin [OF IH(2) [OF i] _ _ ins, of R "inp i" n kb "pgs i g"] G F False show ?thesis by (simp add: z)
    qed
  qed
  have step: "fold (recv_item x) (zs @ [z]) insts = ?S[i := ?st]" by (simp add: z recv_item_def)
  show ?case
  proof (intro conjI allI impI)
    show "length (fold (recv_item x) (zs @ [z]) insts) = length insts" unfolding step by (simp add: IH(1))
    fix j assume j: "j < length insts"
    show "masked (v j) (\<delta> j) (D \<union> {gout h |h. \<exists>r. (j, h, r) \<in> set (zs @ [z])}) (wires (fold (recv_item x) (zs @ [z]) insts ! j))"
    proof (cases "j = i")
      case True
      have "D \<union> {gout h |h. \<exists>r. (i, h, r) \<in> set (zs @ [z])} = insert (gout g) (?D i)" by (auto simp: z)
      with M True i IH(1) show ?thesis unfolding step by simp
    next
      case False
      have "D \<union> {gout h |h. \<exists>r. (j, h, r) \<in> set (zs @ [z])} = ?D j" using False by (auto simp: z)
      with IH(2) [OF j] False show ?thesis unfolding step by simp
    qed
  qed
qed

subsection \<open>A level\<close>

text \<open>
  What a level needs: \<open>v i\<close> are the values and \<open>\<delta> i\<close> the masks of instance \<open>i\<close>, \<open>G p i\<close> what party
  \<open>p\<close> has preprocessed for it, \<open>D\<close> the wires that hold their masked values.
\<close>

definition level_ready ::
  "nat \<Rightarrow> (nat \<Rightarrow> BoolRing) \<Rightarrow> BoolRing ringops \<Rightarrow> nat \<Rightarrow> (nat \<Rightarrow> wire_t \<Rightarrow> BoolRing) \<Rightarrow> (nat \<Rightarrow> BoolRing list) \<Rightarrow>
   (nat \<Rightarrow> wire_t \<Rightarrow> BoolRing) \<Rightarrow> (nat \<Rightarrow> nat \<Rightarrow> bool_gate option list) \<Rightarrow> wire_t set \<Rightarrow> BoolRing gate list \<Rightarrow> bool" where
  "level_ready n kb R k inp v \<delta> G D gs \<longleftrightarrow>
     (\<exists>D0. D0 \<subseteq> D \<and> level_ok D0 D0 gs) \<and>
     (\<forall>i<k. \<forall>g\<in>set gs. gtype g = kInp \<and> gout g \<in> D \<or>
        arith_gate g \<and> gout g < length (v i) \<and> v i ! gout g = gate_val R (inp i) (v i) g \<and>
        gate_ready n kb (\<delta> i) g (\<lambda>p. G p i))"

lemma level_readyD:
  assumes "level_ready n kb R k inp v \<delta> G D gs" "i < k" "g \<in> set gs" "gtype g \<noteq> kInp"
  shows "arith_gate g" "gout g < length (v i)" "v i ! gout g = gate_val R (inp i) (v i) g"
    "gate_ready n kb (\<delta> i) g (\<lambda>p. G p i)"
  using assms unfolding level_ready_def by blast+

lemma level_ready_inp:
  assumes "level_ready n kb R k inp v \<delta> G D gs" "i < k" "g \<in> set gs" "gtype g = kInp"
  shows "gout g \<in> D"
proof -
  have "gout g \<in> D \<or> arith_gate g" using assms(1-3) unfolding level_ready_def by blast
  then show ?thesis using assms(4) by (simp add: arith_gate_def)
qed

lemma level_ok_split:
  "level_ok D0 D (pre @ g # post) \<Longrightarrow> gate_typed g \<and> set (gins g) \<subseteq> D \<union> gout ` set pre \<and>
     (interactive g \<longrightarrow> set (gins g) \<subseteq> D0)"
  by (induction pre arbitrary: D) auto

lemma bool_level:
  fixes G :: "nat \<Rightarrow> nat \<Rightarrow> bool_gate option list" and insts :: "nat \<Rightarrow> BoolRing online list"
    and rg :: "nat \<Rightarrow> 'g RandGenPool" and gs :: "BoolRing gate list" and k n me :: nat
    and smps :: "GateType \<Rightarrow> 'g \<Rightarrow> BoolRing \<times> 'g" and num :: "GateType \<Rightarrow> nat" and agg :: "BoolRing list"
  defines "S \<equiv> \<lambda>p. fold (\<lambda>(i, g). on_inst i (bool_send_gate smps n p (G p i) g)) (inst_gates k gs)
      (insts p, rg p, \<lambda>_. [], \<lambda>_. [])"
  assumes ready: "level_ready n kb R k inp v \<delta> G D gs" and n: "0 < n"
    and M: "\<And>p i. 1 \<le> p \<Longrightarrow> p \<le> n \<Longrightarrow> i < k \<Longrightarrow> masked (v i) (\<delta> i) D (wires (insts p ! i))"
    and len: "\<And>p. 1 \<le> p \<Longrightarrow> p \<le> n \<Longrightarrow> length (insts p) = k"
    and rg: "\<And>p. 1 \<le> p \<Longrightarrow> p \<le> n \<Longrightarrow> k_all_minus_0 (rg p) = s"
    and me: "1 \<le> me" "me \<le> n"
    and num: "\<And>t. num t = count_type gs t * k"
    and agg: "agg = map (\<lambda>j. psum n (\<lambda>p. online_comm num mult_types (fst (snd (snd (S p)))) ! j)) [0..<total_comm num mult_types]"
  defines "W \<equiv> fst (fold (\<lambda>(i, g). on_inst i (bool_recv_gate (all_values num mult_types agg) (snd (snd (snd (S me)))) g))
      (inst_gates k gs) (fst (S me), \<lambda>_. 0))"
  shows "length W = k" "i < k \<Longrightarrow> masked (v i) (\<delta> i) (D \<union> gout ` set gs) (wires (W ! i))"
    "k_all_minus_0 (fst (snd (S me))) = snd (item_pads smps n (inst_gates k gs) s)"
proof -
  let ?zs = "fst (item_pads smps n (inst_gates k gs) s)"
  let ?x = "\<lambda>p. item_share p (G p) (\<lambda>i. wires (insts p ! i))"
  have items: "\<forall>(i, g)\<in>set (inst_gates k gs). i < k" by (auto simp: inst_gates_def)
  have inv: "send_inv (insts p) (snd (item_pads smps n (inst_gates k gs) s)) (?x p) ?zs (\<lambda>_. []) (\<lambda>_. []) (S p)"
    if "1 \<le> p" "p \<le> n" for p
    using send_items [OF that, of "inst_gates k gs" "insts p" smps "rg p" "G p" "\<lambda>_. []" "\<lambda>_. []"] items
    by (simp add: S_def len [OF that] rg [OF that])
  have S: "length (fst (S p)) = k" "\<And>i. i < k \<Longrightarrow> wires (fst (S p) ! i) = wires (insts p ! i)"
    "k_all_minus_0 (fst (snd (S p))) = snd (item_pads smps n (inst_gates k gs) s)"
    "\<And>t. t \<in> set mult_types \<Longrightarrow> fst (snd (snd (S p))) t = map (?x p) (of_type ity ?zs t)"
    "\<And>t. t \<in> set mult_types \<Longrightarrow> snd (snd (snd (S p))) t = map (\<lambda>(i, g, r). sum_list r) (of_type ity ?zs t)"
    if "1 \<le> p" "p \<le> n" for p
    using inv [OF that] by (auto simp: send_inv_def split_beta len [OF that] simp del: set_simps)
  show "k_all_minus_0 (fst (snd (S me))) = snd (item_pads smps n (inst_gates k gs) s)" by (rule S(3) [OF me])
  have num': "num t = length (of_type ity ?zs t)" for t
  proof -
    have "length (of_type ity zs t) = length (of_type gtype (map snd (map (\<lambda>(i, g, r). (i, g)) zs)) t)" for zs
      by (induction zs) auto
    then have "length (of_type ity ?zs t) = length (of_type gtype (map snd (inst_gates k gs)) t)"
      by (simp only: item_pads_items)
    also have "\<dots> = count_type gs t * k"
      by (induction k) (simp_all add: count_type_eq of_type_def comp_def)
    finally show ?thesis by (simp add: num)
  qed
  let ?X = "\<lambda>z. psum n (\<lambda>p. ?x p z)"
  have all: "all_values num mult_types agg t = map ?X (of_type ity ?zs t)" if "t \<in> set mult_types" for t
    unfolding agg by (rule opened_values [OF num' _ that]) (rule S(4))
  have W: "W = fold (recv_item ?X) ?zs (fst (S me))"
    unfolding W_def using recv_items [OF all S(5) [OF me], where insts = "fst (S me)"]
    by (simp only: item_pads_items)
  obtain D0 where D0: "D0 \<subseteq> D" "level_ok D0 D0 gs" using ready by (auto simp: level_ready_def)
  have split: "i < k \<and> gate_typed g \<and> set (gins g) \<subseteq> D \<union> {gout h |h. \<exists>r. (i, h, r) \<in> set pre} \<and>
      (interactive g \<longrightarrow> set (gins g) \<subseteq> D)"
    if zs: "?zs = pre @ (i, g, r) # post" for pre i g r post
  proof -
    have "inst_gates k gs = map (\<lambda>(i, g, r). (i, g)) pre @ (i, g) # map (\<lambda>(i, g, r). (i, g)) post"
      using arg_cong [OF zs, of "map (\<lambda>(i, g, r). (i, g))"] by (simp add: item_pads_items)
    from inst_gates_split [OF this] obtain gpre gpost where gs: "i < k" "gs = gpre @ g # gpost"
      "set gpre \<subseteq> {h. (i, h) \<in> set (map (\<lambda>(i, g, r). (i, g)) pre)}" by blast
    have "gout ` set gpre \<subseteq> {gout h |h. \<exists>r. (i, h, r) \<in> set pre}" using gs(3) by force
    with level_ok_split [OF D0(2) [unfolded gs(2)]] gs(1) D0(1) show ?thesis by blast
  qed
  have mem: "i < k" "g \<in> set gs" "opened g \<Longrightarrow> length r = n" "gate_typed g" "interactive g \<Longrightarrow> set (gins g) \<subseteq> D"
    if z: "(i, g, r) \<in> set ?zs" for i g r
  proof -
    have "(i, g) \<in> set (inst_gates k gs)"
      using z item_pads_items [of smps n "inst_gates k gs" s] by (metis (mono_tags, lifting) case_prod_conv image_eqI list.set_map)
    then show "i < k" "g \<in> set gs" by (auto simp: inst_gates_def)
    show "opened g \<Longrightarrow> length r = n" by (rule item_pads_length [OF z])
    obtain pre post where "?zs = pre @ (i, g, r) # post" using split_list [OF z] by blast
    from split [OF this] show "gate_typed g" "interactive g \<Longrightarrow> set (gins g) \<subseteq> D" by auto
  qed
  have X: "?X (i, g, r) = v i ! gout g + \<delta> i (gout g) + sum_list r" if z: "(i, g, r) \<in> set ?zs" and o: "opened g" for i g r
  proof -
    note m = mem [OF z]
    have int: "interactive g" using o by (auto simp: interactive_def)
    have "gate_ready n kb (\<delta> i) g (\<lambda>p. G p i)" and val: "v i ! gout g = gate_val R (inp i) (v i) g"
      using level_readyD [OF ready m(1,2)] o by auto
    then have "shared n kb (\<lambda>p. q_share p (G p i) (wires (insts p ! i)) g) (gate_val R (inp i) (v i) g + \<delta> i (gout g))"
      using m(4,5) o int M [OF _ _ m(1)] by (intro q_share_shared n) (auto dest: maskedD)
    moreover have "psum n (\<lambda>p. r ! (p - 1)) = sum_list r"
      using m(3) [OF o] psum_shift [of n "\<lambda>i. r ! i"] map_nth [of r] by simp
    ultimately show ?thesis by (simp add: item_share_def lin_simps val shared_def)
  qed
  have lin: "gtype g = kInp \<and> gout g \<in> D \<or> arith_gate g \<and> gout g < length (v i) \<and>
      v i ! gout g = gate_val R (inp i) (v i) g \<and> arith_ok n kb (\<delta> i) g (\<lambda>p. the (G p i ! gout g))"
    if "(i, g, r) \<in> set ?zs" for i g r
  proof (cases "gtype g = kInp")
    case True
    then show ?thesis using level_ready_inp [OF ready mem(1,2) [OF that]] by simp
  next
    case False
    then show ?thesis using level_readyD [OF ready mem(1,2) [OF that]] by (simp add: gate_ready_def)
  qed
  have L: "length (fst (S me)) = k" by (rule S(1) [OF me])
  have R: "length W = length (fst (S me)) \<and>
    (\<forall>i<length (fst (S me)). masked (v i) (\<delta> i) (D \<union> {gout h |h. \<exists>r. (i, h, r) \<in> set ?zs}) (wires (W ! i)))"
    unfolding W
  proof (rule recv_items_masked [where R = R and inp = inp and kb = kb and n = n and pgs = "\<lambda>i g p. the (G p i ! gout g)"])
    show "masked (v i) (\<delta> i) D (wires (fst (S me) ! i))" if "i < length (fst (S me))" for i
      using M [OF me] S(2) [OF me] that by (simp add: L)
  qed (use split lin X in \<open>auto simp: L simp del: set_simps\<close>)
  show "length W = k" using R L by simp
  show "masked (v i) (\<delta> i) (D \<union> gout ` set gs) (wires (W ! i))" if i: "i < k"
  proof -
    have "gout ` set gs \<subseteq> {gout h |h. \<exists>r. (i, h, r) \<in> set ?zs}"
    proof clarify
      fix g assume "g \<in> set gs"
      with i have "(i, g) \<in> set (inst_gates k gs)" by (auto simp: inst_gates_def)
      then have "(i, g) \<in> (\<lambda>(i, g, r). (i, g)) ` set ?zs" using item_pads_items [of smps n "inst_gates k gs" s] by (metis list.set_map)
      then show "\<exists>h. gout g = gout h \<and> (\<exists>r. (i, h, r) \<in> set ?zs)" by force
    qed
    moreover have "masked (v i) (\<delta> i) (D \<union> {gout h |h. \<exists>r. (i, h, r) \<in> set ?zs}) (wires (W ! i))"
      using R i L by simp
    ultimately show ?thesis by (meson masked_mono Un_mono subset_refl)
  qed
qed

subsection \<open>BoolEval\<close>

record 'g BoolEval =
  be_insts :: "BoolRing online list"
  be_rgen :: "'g RandGenPool"

definition BoolEval_new :: "'g RandGenPool \<Rightarrow> nat \<Rightarrow> nat \<Rightarrow> 'g BoolEval" where
  "BoolEval_new rgen num_insts ngates = \<lparr>be_insts = replicate num_insts (online_new ngates), be_rgen = rgen\<rparr>"

definition BoolEval_num :: "BoolRing gate list \<Rightarrow> nat \<Rightarrow> GateType \<Rightarrow> nat" where
  "BoolEval_num gs num_insts t = count_type gs t * num_insts"

text \<open>
  The vector a party opens at a level, and a level of all parties: \<open>E p\<close> is the evaluator of
  party \<open>p\<close>, \<open>vpreproc p\<close> what it has preprocessed for the instances.
\<close>

definition BoolEval_comm ::
  "('g \<Rightarrow> BoolRing \<times> 'g) \<Rightarrow> nat \<Rightarrow> bool_gate option list list \<Rightarrow> BoolRing gate list \<Rightarrow> nat \<Rightarrow> 'g BoolEval \<Rightarrow>
   BoolRing list" where
  "BoolEval_comm smp nP vpreproc gs me be =
     (let (_, _, nonTP, _) = BoolEval_PartySend smp nP me vpreproc gs (be_insts be) (be_rgen be)
      in online_comm (BoolEval_num gs (length (be_insts be))) mult_types nonTP)"

definition BoolEval_atDepth ::
  "('g \<Rightarrow> BoolRing \<times> 'g) \<Rightarrow> nat \<Rightarrow> (nat \<Rightarrow> bool_gate option list list) \<Rightarrow> BoolRing gate list \<Rightarrow>
   (nat \<Rightarrow> 'g BoolEval) \<Rightarrow> nat \<Rightarrow> 'g BoolEval" where
  "BoolEval_atDepth smp nP vpreproc gs E me =
     (if me \<noteq> 0 then
        let num = BoolEval_num gs (length (be_insts (E me)));
            (insts, rg, _, r_pad) = BoolEval_PartySend smp nP me (vpreproc me) gs (be_insts (E me)) (be_rgen (E me));
            agg_values = exchange pack unpack_len (total_comm num mult_types) nP
              (\<lambda>p. BoolEval_comm smp nP (vpreproc p) gs p (E p)) me
        in \<lparr>be_insts = BoolEval_PartyRecv (all_values num mult_types agg_values) r_pad gs insts, be_rgen = rg\<rparr>
      else E me)"

definition BoolEval_evaluateAllLevels ::
  "('g \<Rightarrow> BoolRing \<times> 'g) \<Rightarrow> nat \<Rightarrow> BoolRing LevelOrderedCircuit \<Rightarrow> (nat \<Rightarrow> bool_gate option list list) \<Rightarrow>
   (nat \<Rightarrow> 'g BoolEval) \<Rightarrow> nat \<Rightarrow> 'g BoolEval" where
  "BoolEval_evaluateAllLevels smp nP circ vpreproc E = fold (BoolEval_atDepth smp nP vpreproc) (gates_by_level circ) E"

definition getOutputShares :: "BoolRing LevelOrderedCircuit \<Rightarrow> 'g BoolEval \<Rightarrow> BoolRing list list" where
  "getOutputShares circ be = map (\<lambda>st. map (\<lambda>w. wires st ! w) (outputs circ)) (be_insts be)"

text \<open>The invariant of the joint run and what it asks of a gate.\<close>

definition insts_masked ::
  "nat \<Rightarrow> nat \<Rightarrow> (nat \<Rightarrow> BoolRing list) \<Rightarrow> (nat \<Rightarrow> wire_t \<Rightarrow> BoolRing) \<Rightarrow> wire_t set \<Rightarrow>
   (nat \<Rightarrow> BoolRing online list) \<Rightarrow> (nat \<Rightarrow> 'g RandGenPool) \<Rightarrow> bool" where
  "insts_masked n k v \<delta> D insts rg \<longleftrightarrow> 0 < n \<and>
     (\<forall>p\<in>{1..n}. length (insts p) = k \<and> (\<forall>i<k. masked (v i) (\<delta> i) D (wires (insts p ! i)))) \<and>
     (\<exists>s. \<forall>p\<in>{1..n}. k_all_minus_0 (rg p) = s)"

definition bool_gate_fine ::
  "nat \<Rightarrow> (nat \<Rightarrow> BoolRing) \<Rightarrow> BoolRing ringops \<Rightarrow> nat \<Rightarrow> (nat \<Rightarrow> wire_t \<Rightarrow> BoolRing) \<Rightarrow> (nat \<Rightarrow> BoolRing list) \<Rightarrow>
   (nat \<Rightarrow> wire_t \<Rightarrow> BoolRing) \<Rightarrow> (nat \<Rightarrow> nat \<Rightarrow> bool_gate option list) \<Rightarrow> wire_t set \<Rightarrow> BoolRing gate \<Rightarrow> bool" where
  "bool_gate_fine n kb R k inp v \<delta> G I g \<longleftrightarrow>
     (\<forall>i<k. gtype g = kInp \<and> gout g \<in> I \<or>
        arith_gate g \<and> gout g < length (v i) \<and> v i ! gout g = gate_val R (inp i) (v i) g \<and>
        gate_ready n kb (\<delta> i) g (\<lambda>p. G p i))"

lemma bool_level_ready:
  assumes "level_ok D D gs" "\<forall>g\<in>set gs. bool_gate_fine n kb R k inp v \<delta> G I g"
  shows "level_ready n kb R k inp v \<delta> G (D \<union> I) gs"
  using assms unfolding level_ready_def bool_gate_fine_def by blast

text \<open>\<open>sent\<close> and \<open>received\<close>: the two halves over the pairs of instance and gate.\<close>

definition sent where
  "sent smps n G k gs insts rg p = fold (\<lambda>(i, g). on_inst i (bool_send_gate smps n p (G p i) g)) (inst_gates k gs)
      (insts p, rg p, \<lambda>_. [], \<lambda>_. [])"

definition received where
  "received num agg k gs S = fst (fold (\<lambda>(i, g). on_inst i (bool_recv_gate (all_values num mult_types agg) (snd (snd (snd S))) g))
      (inst_gates k gs) (fst S, \<lambda>_. 0))"

lemma insts_masked_level:
  fixes G :: "nat \<Rightarrow> nat \<Rightarrow> bool_gate option list" and gs :: "BoolRing gate list" and rg :: "nat \<Rightarrow> 'g RandGenPool"
    and n k :: nat
  defines "num \<equiv> \<lambda>t. count_type gs t * k"
  assumes "level_ready n kb R k inp v \<delta> G D gs" "insts_masked n k v \<delta> D insts rg"
    "\<And>p. 1 \<le> p \<Longrightarrow> p \<le> n \<Longrightarrow> agg p = map (\<lambda>j. psum n (\<lambda>p. online_comm num mult_types
        (fst (snd (snd (sent smps n G k gs insts rg p)))) ! j)) [0..<total_comm num mult_types]"
  shows "insts_masked n k v \<delta> (D \<union> gout ` set gs) (\<lambda>p. received num (agg p) k gs (sent smps n G k gs insts rg p))
    (\<lambda>p. fst (snd (sent smps n G k gs insts rg p)))"
proof -
  obtain s where n: "0 < n" and s: "\<And>p. 1 \<le> p \<Longrightarrow> p \<le> n \<Longrightarrow> k_all_minus_0 (rg p) = s"
    and len: "\<And>p. 1 \<le> p \<Longrightarrow> p \<le> n \<Longrightarrow> length (insts p) = k"
    and M: "\<And>p i. 1 \<le> p \<Longrightarrow> p \<le> n \<Longrightarrow> i < k \<Longrightarrow> masked (v i) (\<delta> i) D (wires (insts p ! i))"
    using assms(3) by (fastforce simp: insts_masked_def)
  have num: "\<And>t. num t = count_type gs t * k" by (simp add: num_def)
  have L: "length (received num (agg p) k gs (sent smps n G k gs insts rg p)) = k \<and>
    (\<forall>i<k. masked (v i) (\<delta> i) (D \<union> gout ` set gs) (wires (received num (agg p) k gs (sent smps n G k gs insts rg p) ! i))) \<and>
    k_all_minus_0 (fst (snd (sent smps n G k gs insts rg p))) = snd (item_pads smps n (inst_gates k gs) s)"
    if p: "1 \<le> p" "p \<le> n" for p
    unfolding sent_def received_def
    by (intro conjI allI impI bool_level [where s = s and num = num and agg = "agg p", OF assms(2) n])
      (assumption | rule M len s num p assms(4) [OF p, unfolded sent_def])+
  show ?thesis unfolding insts_masked_def using n L by auto
qed

lemma insts_masked_cong:
  assumes "insts_masked n k v \<delta> D insts rg"
    "\<And>p. 1 \<le> p \<Longrightarrow> p \<le> n \<Longrightarrow> insts' p = insts p" "\<And>p. 1 \<le> p \<Longrightarrow> p \<le> n \<Longrightarrow> rg' p = rg p"
  shows "insts_masked n k v \<delta> D insts' rg'"
  using assms by (simp add: insts_masked_def)

definition be_masked ::
  "nat \<Rightarrow> nat \<Rightarrow> (nat \<Rightarrow> BoolRing list) \<Rightarrow> (nat \<Rightarrow> wire_t \<Rightarrow> BoolRing) \<Rightarrow> wire_t set \<Rightarrow> (nat \<Rightarrow> 'g BoolEval) \<Rightarrow> bool" where
  "be_masked n k v \<delta> W E \<longleftrightarrow> insts_masked n k v \<delta> W (\<lambda>p. be_insts (E p)) (\<lambda>p. be_rgen (E p))"

lemma BoolEval_atDepth_masked:
  fixes E :: "nat \<Rightarrow> 'g BoolEval"
  assumes "level_ok D D gs" "\<forall>g\<in>set gs. bool_gate_fine n kb R k inp v \<delta> (\<lambda>p i. vpre p ! i) I g"
    "be_masked n k v \<delta> (D \<union> I) E"
  shows "be_masked n k v \<delta> (D \<union> gout ` set gs \<union> I) (BoolEval_atDepth smp n vpre gs E)"
proof -
  let ?insts = "\<lambda>p. be_insts (E p)" and ?rg = "\<lambda>p. be_rgen (E p)" and ?num = "\<lambda>t. count_type gs t * k"
  let ?S = "sent (\<lambda>_. smp) n (\<lambda>p i. vpre p ! i) k gs ?insts ?rg"
  have len: "length (be_insts (E p)) = k" if "1 \<le> p" "p \<le> n" for p
    using assms(3) that by (auto simp: be_masked_def insts_masked_def)
  have n: "0 < n" using assms(3) by (simp add: be_masked_def insts_masked_def)
  have S: "BoolEval_PartySend smp n p (vpre p) gs (?insts p) (?rg p) = ?S p" if "1 \<le> p" "p \<le> n" for p
    unfolding BoolEval_PartySend_def sent_def len [OF that] by (rule insts_fold) (simp add: len [OF that])
  let ?agg = "\<lambda>p. exchange pack unpack_len (total_comm ?num mult_types) n (\<lambda>p. BoolEval_comm smp n (vpre p) gs p (E p)) p"
  have num: "BoolEval_num gs k = ?num" by (simp add: BoolEval_num_def fun_eq_iff)
  have comm: "BoolEval_comm smp n (vpre p) gs p (E p) = online_comm ?num mult_types (fst (snd (snd (?S p))))"
    if "1 \<le> p" "p \<le> n" for p
    by (simp only: BoolEval_comm_def S [OF that] len [OF that] num split_beta Let_def)
  have agg: "?agg p = map (\<lambda>j. psum n (\<lambda>p. online_comm ?num mult_types (fst (snd (snd (?S p)))) ! j)) [0..<total_comm ?num mult_types]" for p
    unfolding packed.exchange_sum [OF n] using comm by (intro map_cong refl psum_cong) simp
  have res: "BoolEval_atDepth smp n vpre gs E p = \<lparr>be_insts = received ?num (?agg p) k gs (?S p), be_rgen = fst (snd (?S p))\<rparr>"
    if p: "1 \<le> p" "p \<le> n" for p
  proof -
    have L: "length (fst (?S p)) = k" unfolding sent_def by (simp add: length_insts_fold len [OF p])
    have "BoolEval_PartyRecv all_vals r_pad gs (fst (?S p)) = fst (fold (\<lambda>(i, g). on_inst i (bool_recv_gate all_vals r_pad g))
        (inst_gates k gs) (fst (?S p), \<lambda>_. 0))" for all_vals r_pad
      unfolding BoolEval_PartyRecv_def L by (subst insts_fold) (simp_all add: L)
    then show ?thesis
      using p(1) by (simp only: BoolEval_atDepth_def S [OF p] len [OF p] num received_def split_beta Let_def) simp
  qed
  have "insts_masked n k v \<delta> (D \<union> I \<union> gout ` set gs) (\<lambda>p. received ?num (?agg p) k gs (?S p)) (\<lambda>p. fst (snd (?S p)))"
    using assms(3) unfolding be_masked_def
    by (intro insts_masked_level [OF bool_level_ready [OF assms(1,2)]] agg)
  then have "be_masked n k v \<delta> (D \<union> I \<union> gout ` set gs) (BoolEval_atDepth smp n vpre gs E)"
    unfolding be_masked_def by (rule insts_masked_cong) (simp_all add: res)
  then show ?thesis by (simp add: Un_ac)
qed

interpretation be: level_run "BoolEval_atDepth smp n vpre" "be_masked n k v \<delta>" I
    "bool_gate_fine n kb R k inp v \<delta> (\<lambda>p i. vpre p ! i) I"
  by unfold_locales (rule BoolEval_atDepth_masked)

subsection \<open>BoolEvaluator\<close>

text \<open>
  The kMul4 branch of \<open>BoolEvaluator::evaluateGatesAtDepthPartySend\<close> converts the random byte
  without reducing it modulo 2 first: its sampler \<open>smp4\<close> is a different one.
\<close>

record 'g BoolEvaluator =
  bv_st :: "BoolRing online"
  bv_rgen :: "'g RandGenPool"

definition randomBool4 :: "('g \<Rightarrow> nat \<Rightarrow> bytes \<times> 'g) \<Rightarrow> 'g \<Rightarrow> BoolRing \<times> 'g" where
  "randomBool4 random_data prg =
     (let (bs, prg') = random_data prg 1 in (BoolRing_of_int (uint (hd bs)), prg'))"

definition BoolEvaluator_new :: "'g RandGenPool \<Rightarrow> nat \<Rightarrow> 'g BoolEvaluator" where
  "BoolEvaluator_new rgen ngates = \<lparr>bv_st = online_new ngates, bv_rgen = rgen\<rparr>"

definition BoolEvaluator_PartySend ::
  "('g \<Rightarrow> BoolRing \<times> 'g) \<Rightarrow> ('g \<Rightarrow> BoolRing \<times> 'g) \<Rightarrow> nat \<Rightarrow> nat \<Rightarrow> bool_gate option list \<Rightarrow> BoolRing gate list \<Rightarrow>
   BoolRing online \<Rightarrow> 'g RandGenPool \<Rightarrow>
   BoolRing online \<times> 'g RandGenPool \<times> (GateType \<Rightarrow> BoolRing list) \<times> (GateType \<Rightarrow> BoolRing list)" where
  "BoolEvaluator_PartySend smp smp4 nP me preproc gs st rg =
     fold (bool_send_gate (\<lambda>t. if t = kMul4 then smp4 else smp) nP me preproc) gs (st, rg, \<lambda>_. [], \<lambda>_. [])"

definition BoolEvaluator_PartyRecv ::
  "(GateType \<Rightarrow> BoolRing list) \<Rightarrow> (GateType \<Rightarrow> BoolRing list) \<Rightarrow> BoolRing gate list \<Rightarrow> BoolRing online \<Rightarrow> BoolRing online" where
  "BoolEvaluator_PartyRecv all_vals r_pad gs st = fst (fold (bool_recv_gate all_vals r_pad) gs (st, \<lambda>_. 0))"

definition BoolEvaluator_comm ::
  "('g \<Rightarrow> BoolRing \<times> 'g) \<Rightarrow> ('g \<Rightarrow> BoolRing \<times> 'g) \<Rightarrow> nat \<Rightarrow> bool_gate option list \<Rightarrow> BoolRing gate list \<Rightarrow> nat \<Rightarrow>
   'g BoolEvaluator \<Rightarrow> BoolRing list" where
  "BoolEvaluator_comm smp smp4 nP preproc gs me bv =
     (let (_, _, nonTP, _) = BoolEvaluator_PartySend smp smp4 nP me preproc gs (bv_st bv) (bv_rgen bv)
      in online_comm (count_type gs) mult_types nonTP)"

definition BoolEvaluator_atDepth ::
  "('g \<Rightarrow> BoolRing \<times> 'g) \<Rightarrow> ('g \<Rightarrow> BoolRing \<times> 'g) \<Rightarrow> nat \<Rightarrow> (nat \<Rightarrow> bool_gate option list) \<Rightarrow> BoolRing gate list \<Rightarrow>
   (nat \<Rightarrow> 'g BoolEvaluator) \<Rightarrow> nat \<Rightarrow> 'g BoolEvaluator" where
  "BoolEvaluator_atDepth smp smp4 nP preproc gs E me =
     (if me \<noteq> 0 then
        let num = count_type gs;
            (st, rg, _, r_pad) = BoolEvaluator_PartySend smp smp4 nP me (preproc me) gs (bv_st (E me)) (bv_rgen (E me));
            agg_values = tp_open pack unpack_len (total_comm num mult_types) nP
              (\<lambda>p. BoolEvaluator_comm smp smp4 nP (preproc p) gs p (E p)) me
        in \<lparr>bv_st = BoolEvaluator_PartyRecv (all_values num mult_types agg_values) r_pad gs st, bv_rgen = rg\<rparr>
      else E me)"

definition BoolEvaluator_evaluateAllLevels ::
  "('g \<Rightarrow> BoolRing \<times> 'g) \<Rightarrow> ('g \<Rightarrow> BoolRing \<times> 'g) \<Rightarrow> nat \<Rightarrow> BoolRing LevelOrderedCircuit \<Rightarrow>
   (nat \<Rightarrow> bool_gate option list) \<Rightarrow> (nat \<Rightarrow> 'g BoolEvaluator) \<Rightarrow> nat \<Rightarrow> 'g BoolEvaluator" where
  "BoolEvaluator_evaluateAllLevels smp smp4 nP circ preproc E =
     fold (BoolEvaluator_atDepth smp smp4 nP preproc) (gates_by_level circ) E"

text \<open>One instance is a vector of one.\<close>

lemma on_inst_single: "on_inst 0 f ([s], r) = ([fst (f (s, r))], snd (f (s, r)))"
  by (simp add: on_inst_def split_beta Let_def)

lemma fold_single:
  "fold (\<lambda>(i, g). on_inst i (f g)) (inst_gates (Suc 0) gs) ([s], r) = ([fst (fold f gs (s, r))], snd (fold f gs (s, r)))"
  using on_inst_fold [of 0 "[s]" f gs r] by (simp add: on_inst_single fold_map comp_def)

definition bv_masked ::
  "nat \<Rightarrow> BoolRing list \<Rightarrow> (wire_t \<Rightarrow> BoolRing) \<Rightarrow> wire_t set \<Rightarrow> (nat \<Rightarrow> 'g BoolEvaluator) \<Rightarrow> bool" where
  "bv_masked n v \<delta> W E \<longleftrightarrow> insts_masked n 1 (\<lambda>_. v) (\<lambda>_. \<delta>) W (\<lambda>p. [bv_st (E p)]) (\<lambda>p. bv_rgen (E p))"

lemma BoolEvaluator_atDepth_masked:
  fixes E :: "nat \<Rightarrow> 'g BoolEvaluator"
  assumes "level_ok D D gs" "\<forall>g\<in>set gs. bool_gate_fine n kb R 1 (\<lambda>_. inp) (\<lambda>_. v) (\<lambda>_. \<delta>) (\<lambda>p i. G p) I g"
    "bv_masked n v \<delta> (D \<union> I) E"
  shows "bv_masked n v \<delta> (D \<union> gout ` set gs \<union> I) (BoolEvaluator_atDepth smp smp4 n G gs E)"
proof -
  let ?insts = "\<lambda>p. [bv_st (E p)]" and ?rg = "\<lambda>p. bv_rgen (E p)" and ?num = "\<lambda>t. count_type gs t * 1"
  let ?smps = "\<lambda>t. if t = kMul4 then smp4 else smp"
  let ?S = "sent ?smps n (\<lambda>p i. G p) 1 gs ?insts ?rg"
  let ?T = "\<lambda>p. BoolEvaluator_PartySend smp smp4 n p (G p) gs (bv_st (E p)) (?rg p)"
  have n: "0 < n" using assms(3) by (simp add: bv_masked_def insts_masked_def)
  have S: "?S p = ([fst (?T p)], snd (?T p))" for p
    unfolding sent_def BoolEvaluator_PartySend_def One_nat_def by (rule fold_single)
  let ?agg = "\<lambda>p. tp_open pack unpack_len (total_comm ?num mult_types) n (\<lambda>p. BoolEvaluator_comm smp smp4 n (G p) gs p (E p)) p"
  have num: "count_type gs = ?num" by simp
  have comm: "BoolEvaluator_comm smp smp4 n (G p) gs p (E p) = online_comm ?num mult_types (fst (snd (snd (?S p))))" for p
    unfolding S by (simp only: BoolEvaluator_comm_def num [symmetric] split_beta Let_def snd_conv)
  have agg: "?agg p = map (\<lambda>j. psum n (\<lambda>p. online_comm ?num mult_types (fst (snd (snd (?S p)))) ! j)) [0..<total_comm ?num mult_types]" for p
    by (subst packed.tp_open_sum) (simp_all only: comm length_online_comm)
  have res: "[bv_st (BoolEvaluator_atDepth smp smp4 n G gs E p)] = received ?num (?agg p) 1 gs (?S p)"
    "bv_rgen (BoolEvaluator_atDepth smp smp4 n G gs E p) = fst (snd (?S p))" if p: "1 \<le> p" "p \<le> n" for p
    unfolding received_def S fst_conv snd_conv unfolding One_nat_def fold_single
    using p(1) by (simp_all add: BoolEvaluator_atDepth_def BoolEvaluator_PartyRecv_def split_beta Let_def)
  have "insts_masked n 1 (\<lambda>_. v) (\<lambda>_. \<delta>) (D \<union> I \<union> gout ` set gs) (\<lambda>p. received ?num (?agg p) 1 gs (?S p)) (\<lambda>p. fst (snd (?S p)))"
    using assms(3) unfolding bv_masked_def
    by (intro insts_masked_level [OF bool_level_ready [OF assms(1,2)]] agg)
  then have "bv_masked n v \<delta> (D \<union> I \<union> gout ` set gs) (BoolEvaluator_atDepth smp smp4 n G gs E)"
    unfolding bv_masked_def by (rule insts_masked_cong) (simp_all only: res)
  then show ?thesis by (simp add: Un_ac)
qed

interpretation bv: level_run "BoolEvaluator_atDepth smp smp4 n G" "bv_masked n v \<delta>" I
    "bool_gate_fine n kb R 1 (\<lambda>_. inp) (\<lambda>_. v) (\<lambda>_. \<delta>) (\<lambda>p i. G p) I"
  by unfold_locales (rule BoolEvaluator_atDepth_masked)

end
