(* ===== verification/Online_Nested.thy ===== *)
theory Online_Nested
  imports Online_Bool
begin

section \<open>The equality and comparison gates of the online phase\<close>

text \<open>
  \<open>OnlineEvaluator::eqzEvaluate\<close> and \<open>ltzEvaluate\<close> open nothing of the compared value but the bits of
  \<open>x + r\<close> for the dealt mask \<open>r\<close>: a boolean circuit, evaluated by \<open>BoolEval\<close>, compares them with the
  shared bits of \<open>r\<close>. What it gives is a masked bit, which the last step turns into a field
  element. The lemmas show which bit the circuits compute (\<open>eqz_bit\<close>, \<open>ltz_bit\<close>).
\<close>

subsection \<open>The input level\<close>

lemma fold_idem_id: "fold (\<lambda>_ s. s) xs s = s"
  by (induction xs) simp_all

lemma inputs_first_levels:
  fixes c :: "'r::comm_ring_1 Circuit"
  assumes "circuit_ok c" "inputs_first m c"
  obtains rest ls where "gates_by_level (orderGatesByLevel c) = (map (Gate kInp) [0..<m] @ rest) # ls"
    "\<forall>g\<in>set rest \<union> set (concat ls). gtype g \<noteq> kInp"
proof -
  let ?gs = "circ_gates c"
  have ok: "gates_ok ?gs" using assms(1) by (simp add: circuit_ok_def)
  obtain lv depth where fx: "levels_fix ?gs lv (length ?gs)"
    and ls: "gates_by_level (orderGatesByLevel c) = map (\<lambda>l. filter (\<lambda>g. lv ! gout g = l) ?gs) [0..<Suc depth]"
    by (rule orderGatesByLevel_spec [OF ok])
  obtain tl where gs: "?gs = map (Gate kInp) [0..<m] @ tl" and "inputs_of c = map (Gate kInp) [0..<m]"
    using assms(2) by (auto simp: inputs_first_def prefix_def)
  then have tl: "\<forall>g\<in>set tl. gtype g \<noteq> kInp" by (simp add: inputs_of_def filter_empty_conv filter_id_conv)
  have "lv ! w = 0" if "w < m" for w
  proof -
    have "?gs ! w = Gate kInp w" "w < length ?gs" using that by (simp_all add: gs nth_append)
    with fx show ?thesis by (simp add: levels_fix_def)
  qed
  then have "filter (\<lambda>g. lv ! gout g = 0) (map (Gate kInp) [0..<m]) = (map (Gate kInp) [0..<m] :: 'r gate list)"
    by (auto simp: filter_id_conv)
  moreover have "filter (\<lambda>g. lv ! gout g = l) (map (Gate kInp) [0..<m]) = ([] :: 'r gate list)" if "l \<noteq> 0" for l
    using \<open>\<And>w. w < m \<Longrightarrow> lv ! w = 0\<close> that by (auto simp: filter_empty_conv)
  ultimately have "gates_by_level (orderGatesByLevel c) =
      (map (Gate kInp) [0..<m] @ filter (\<lambda>g. lv ! gout g = 0) tl) # map (\<lambda>l. filter (\<lambda>g. lv ! gout g = l) tl) [1..<Suc depth]"
    unfolding ls gs by (auto simp: upt_conv_Cons simp del: upt_Suc)
  then show thesis by (rule that) (use tl in auto)
qed

text \<open>The loop over the gates of level 0 that sets the inputs of an instance to \<open>F j\<close>.\<close>

definition set_bool_inputs :: "BoolRing gate list \<Rightarrow> (nat \<Rightarrow> BoolRing) \<Rightarrow> BoolRing online \<Rightarrow> BoolRing online" where
  "set_bool_inputs level0 F st =
     fold (\<lambda>j st. if gtype (level0 ! j) = kInp then set_wire (gout (level0 ! j)) (F j) st else st) [0..<length level0] st"

lemma set_bool_inputs_wires:
  assumes "level0 = map (Gate kInp) [0..<m] @ rest" "\<forall>g\<in>set rest. gtype g \<noteq> kInp" "m \<le> length (wires st)"
  shows "length (wires (set_bool_inputs level0 F st)) = length (wires st)"
    "w < m \<Longrightarrow> wires (set_bool_inputs level0 F st) ! w = F w"
proof -
  let ?f = "\<lambda>j st. if gtype (level0 ! j) = kInp then set_wire (gout (level0 ! j)) (F j) st else st"
  have R: "fold ?f [m..<length level0] st = st" for st
  proof -
    have "?f j st = st" if "j \<in> set [m..<length level0]" for j st
      using that assms(1,2) by (auto simp: nth_append)
    then have "fold ?f [m..<length level0] st = fold (\<lambda>_ st. st) [m..<length level0] st" by (intro fold_cong refl ext) blast
    then show ?thesis by (simp add: fold_idem_id)
  qed
  have L: "length (wires (fold ?f [0..<k] st)) = length (wires st) \<and> (\<forall>w<k. wires (fold ?f [0..<k] st) ! w = F w)"
    if "k \<le> m" for k
    using that
  proof (induction k)
    case (Suc k)
    then have "level0 ! k = Gate kInp k" by (simp add: assms(1) nth_append)
    with Suc assms(3) show ?case by (auto simp: nth_list_update less_Suc_eq)
  qed simp
  have "[0..<length level0] = [0..<m] @ [m..<length level0]"
    using upt_add_eq_append [of 0 m "length level0 - m"] assms(1) by simp
  then have "set_bool_inputs level0 F st = fold ?f [0..<m] st" unfolding set_bool_inputs_def by (simp add: R)
  with L [of m] show "length (wires (set_bool_inputs level0 F st)) = length (wires st)"
    "w < m \<Longrightarrow> wires (set_bool_inputs level0 F st) ! w = F w" by simp_all
qed

subsection \<open>Evaluating the nested circuits\<close>

lemma bool_gates_fine:
  fixes c :: "BoolRing Circuit"
  assumes c: "circuit_ok c" and kinds: "\<forall>g\<in>set (circ_gates c). gtype g = kInp \<or> arith_gate g"
    and G: "\<And>i. i < k \<Longrightarrow> gates_dealt n kb (arith_ok n kb) (IP i) (\<delta> i) (concat (gates_by_level (orderGatesByLevel c))) 0 (\<lambda>p. G p i)"
    and I: "\<forall>g\<in>set (circ_gates c). gtype g = kInp \<longrightarrow> gout g \<in> I"
    and g: "g \<in> set (circ_gates c)"
  shows "bool_gate_fine n kb R k inp (\<lambda>i. wire_vals R (inp i) (circ_gates c)) \<delta> G I g"
proof -
  have ok: "gates_ok (circ_gates c)" using c by (simp add: circuit_ok_def)
  have out: "gout g < length (circ_gates c)" by (rule gout_less [OF c g])
  have nth: "circ_gates c ! gout g = g" using g gates_okD(1) [OF ok] by (auto simp: in_set_conv_nth)
  have "gate_ready n kb (\<delta> i) g (\<lambda>p. G p i)" if "i < k" "gtype g \<noteq> kInp" for i
    using gates_dealt_ready [OF G [OF that(1)] topo_orderGatesByLevel [OF c] _ that(2)] g
    unfolding set_orderGatesByLevel [OF c] by blast
  moreover have "wire_vals R (inp i) (circ_gates c) ! gout g = gate_val R (inp i) (wire_vals R (inp i) (circ_gates c)) g" for i
    using wire_vals_fix [OF ok out] by (simp add: nth)
  ultimately show ?thesis using kinds I g out by (auto simp: bool_gate_fine_def)
qed

text \<open>
  \<open>BoolEval\<close> on a circuit whose first wires are its inputs: if the inputs hold masked values, every
  party ends with the masked values of the outputs.
\<close>

lemma BoolEval_outputs:
  fixes c :: "BoolRing Circuit" and E :: "nat \<Rightarrow> 'g BoolEval"
  assumes c: "circuit_ok c" and first: "inputs_first m c" and kinds: "\<forall>g\<in>set (circ_gates c). gtype g = kInp \<or> arith_gate g"
    and G: "\<And>i. i < k \<Longrightarrow> nested_ok n kb (orderGatesByLevel c) (mb i) (\<delta> i) (\<lambda>p. vpre p ! i)"
    and n: "0 < n" and rg: "\<And>p. 1 \<le> p \<Longrightarrow> p \<le> n \<Longrightarrow> k_all_minus_0 (be_rgen (E p)) = s"
    and len: "\<And>p. 1 \<le> p \<Longrightarrow> p \<le> n \<Longrightarrow> length (be_insts (E p)) = k"
    and wlen: "\<And>p i. 1 \<le> p \<Longrightarrow> p \<le> n \<Longrightarrow> i < k \<Longrightarrow> length (wires (be_insts (E p) ! i)) = length (circ_gates c)"
    and inp: "\<And>p i w. 1 \<le> p \<Longrightarrow> p \<le> n \<Longrightarrow> i < k \<Longrightarrow> w < m \<Longrightarrow> wires (be_insts (E p) ! i) ! w = inp i w + mb i w"
    and me: "1 \<le> me" "me \<le> n"
  shows "getOutputShares (orderGatesByLevel c) (BoolEval_evaluateAllLevels smp n (orderGatesByLevel c) vpre E me) =
    map (\<lambda>i. map (\<lambda>w. wval R (inp i) c w + \<delta> i w) (circ_outputs c)) [0..<k]"
proof -
  let ?v = "\<lambda>i. wire_vals R (inp i) (circ_gates c)" and ?E = "BoolEval_evaluateAllLevels smp n (orderGatesByLevel c) vpre E"
  have ok: "gates_ok (circ_gates c)" using c by (simp add: circuit_ok_def)
  obtain rest ls where ls: "gates_by_level (orderGatesByLevel c) = (map (Gate kInp) [0..<m] @ rest) # ls"
    "\<forall>g\<in>set rest \<union> set (concat ls). gtype g \<noteq> kInp"
    by (rule inputs_first_levels [OF c first])
  have inps: "inputs_in (concat (gates_by_level (orderGatesByLevel c))) = map (Gate kInp) [0..<m]"
    unfolding inputs_in_def ls(1) using ls(2) by (auto simp: filter_id_conv filter_empty_conv filter_concat)
  have mask: "\<delta> i w = mb i w" if "i < k" "w < m" for i w
    using G [OF that(1)] that(2) unfolding nested_ok_def gates_dealt_def inps by fastforce
  have less: "w < length (circ_gates c)" if "w < m" for w
    using first that by (auto simp: inputs_first_def prefix_def)
  have gates: "gtype g = kInp \<longrightarrow> gout g < m" if "g \<in> set (circ_gates c)" for g
  proof
    assume "gtype g = kInp"
    with that have "g \<in> set (inputs_of c)" by (simp add: inputs_of_def)
    moreover have "inputs_of c = map (Gate kInp) [0..<m]" using first by (simp add: inputs_first_def)
    ultimately show "gout g < m" by auto
  qed
  have val: "?v i ! w = inp i w" if "w < m" for i w
  proof -
    have "circ_gates c ! w = Gate kInp w" using first that by (auto simp: inputs_first_def prefix_def nth_append)
    with wire_vals_fix [OF ok less [OF that], of R "inp i"] show ?thesis by simp
  qed
  have "be_masked n k ?v \<delta> {..<m} E"
    using n len rg less wlen inp mask val by (auto simp: be_masked_def insts_masked_def masked_def)
  then have "be_masked n k ?v \<delta> (gout ` set (circ_gates c) \<union> {..<m}) ?E"
    unfolding BoolEval_evaluateAllLevels_def
    by (intro be.run_circuit [OF c, where kb = kb and R = R and inp = inp] ballI
        bool_gates_fine [OF c kinds G [unfolded nested_ok_def]]) (use gates in auto)
  then have M: "length (be_insts (?E me)) = k"
    "\<And>i. i < k \<Longrightarrow> masked (?v i) (\<delta> i) (gout ` set (circ_gates c) \<union> {..<m}) (wires (be_insts (?E me) ! i))"
    using me by (auto simp: be_masked_def insts_masked_def)
  have "w \<in> gout ` set (circ_gates c)" if "w \<in> set (circ_outputs c)" for w
    using that c gates_okD(1) [OF ok, of w] by (metis circuit_ok_def image_eqI nth_mem)
  then have "wires (be_insts (?E me) ! i) ! w = ?v i ! w + \<delta> i w" if "i < k" "w \<in> set (circ_outputs c)" for i w
    using maskedD(1) [OF M(2) [OF that(1)]] that(2) by blast
  then show ?thesis
    unfolding getOutputShares_def by (intro nth_equalityI) (auto simp: wval_def M(1))
qed

subsection \<open>What the circuits compare\<close>

text \<open>
  Bits that are equal give 1: \<open>eq_bits a b k\<close> is 1 when bit \<open>k\<close> of both words is the same. The prefix
  products of these, read from the top bit, change from 1 to 0 at the first bit in which the words
  differ; adding up the bits of \<open>b\<close> at the changes gives 1 exactly when \<open>a < b\<close>.
\<close>

definition eq_bits :: "u64 \<Rightarrow> u64 \<Rightarrow> nat \<Rightarrow> BoolRing" where
  "eq_bits a b k = 1 - BR (bit a k) - BR (bit b k)"

lemma val_eq_bits [simp]: "val (eq_bits a b k) = (bit a k = bit b k)"
  by (auto simp: eq_bits_def)

lemma val_prod_list: "val (prod_list xs) = (\<forall>x\<in>set xs. val x)"
  by (induction xs) auto

lemma all_bits_eq: "(\<forall>k<64. bit (a :: u64) k = bit b k) \<longleftrightarrow> a = b"
  by (auto intro: bit_word_eqI)

lemma nat_half_less: "(A :: nat) < B \<longleftrightarrow> A div 2 < B div 2 \<or> A div 2 = B div 2 \<and> even A \<and> odd B"
  by presburger

lemma nat_half_eq: "(A :: nat) = B \<longleftrightarrow> A div 2 = B div 2 \<and> (even A = even B)"
  by presburger

lemma prefix_compare:
  fixes a b :: u64
  defines "v \<equiv> \<lambda>m. prod_list (map (\<lambda>m. eq_bits a b (63 - m)) [0..<Suc m]) + 1"
    and "T \<equiv> \<lambda>n w :: u64. unat w div 2 ^ (64 - n)"
  assumes "n \<le> 64"
  shows "val (\<Sum>m\<leftarrow>[0..<n]. (if m = 0 then v 0 else v m + v (m - 1)) * BR (bit b (63 - m))) = (T n a < T n b)"
    "0 < n \<Longrightarrow> val (v (n - 1)) = (T n a \<noteq> T n b)"
proof -
  have half: "T (Suc k) w div 2 = T k w" "odd (T (Suc k) w) = bit w (63 - k)" if "k < 64" for k w
  proof -
    have "64 - k = Suc (63 - k)" using that by simp
    then have "2 ^ (64 - k) = 2 ^ (63 - k) * (2 :: nat)" by simp
    then show "T (Suc k) w div 2 = T k w" by (simp add: T_def div_mult2_eq)
    show "odd (T (Suc k) w) = bit w (63 - k)"
      using that by (simp add: T_def bit_iff_odd [of "unat w", symmetric] bit_unsigned_iff)
  qed
  have T0: "T 0 w = 0" for w using unsigned_less [of w, where 'a = nat] by (simp add: T_def)
  have "val (\<Sum>m\<leftarrow>[0..<n]. (if m = 0 then v 0 else v m + v (m - 1)) * BR (bit b (63 - m))) = (T n a < T n b) \<and>
      (0 < n \<longrightarrow> val (v (n - 1)) = (T n a \<noteq> T n b))"
    using assms(3)
  proof (induction n)
    case 0
    then show ?case by (simp add: T0)
  next
    case (Suc k)
    then have k: "k < 64" by simp
    note h = half [OF k]
    have lt: "T (Suc k) a < T (Suc k) b \<longleftrightarrow> T k a < T k b \<or> T k a = T k b \<and> \<not> bit a (63 - k) \<and> bit b (63 - k)"
      using nat_half_less [of "T (Suc k) a" "T (Suc k) b"] h [of a] h [of b] by auto
    have eq: "T (Suc k) a = T (Suc k) b \<longleftrightarrow> T k a = T k b \<and> bit a (63 - k) = bit b (63 - k)"
      using nat_half_eq [of "T (Suc k) a" "T (Suc k) b"] h [of a] h [of b] by auto
    have v: "val (v k) = (\<not> (\<forall>m<Suc k. bit a (63 - m) = bit b (63 - m)))"
      by (auto simp: v_def val_prod_list simp del: upt_Suc)
    have vk: "val (v k) = (T (Suc k) a \<noteq> T (Suc k) b)"
    proof (cases k)
      case 0
      then show ?thesis unfolding v eq by (auto simp: T0)
    next
      case (Suc j)
      have "val (v (k - 1)) = (T k a \<noteq> T k b)" using Suc.IH k Suc by simp
      moreover have "val (v (k - 1)) = (\<not> (\<forall>m<k. bit a (63 - m) = bit b (63 - m)))"
        using Suc by (auto simp: v_def val_prod_list simp del: upt_Suc)
      ultimately show ?thesis unfolding v eq by (auto simp: less_Suc_eq)
    qed
    let ?S = "\<Sum>m\<leftarrow>[0..<k]. (if m = 0 then v 0 else v m + v (m - 1)) * BR (bit b (63 - m))"
    have S: "val ?S = (T k a < T k b)" using Suc.IH k by simp
    have "val (?S + (if k = 0 then v 0 else v k + v (k - 1)) * BR (bit b (63 - k))) = (T (Suc k) a < T (Suc k) b)"
    proof (cases "k = 0")
      case True
      then show ?thesis using vk eq lt by (auto simp: T0)
    next
      case False
      then have "val (v (k - 1)) = (T k a \<noteq> T k b)" using Suc.IH k by simp
      with False show ?thesis using vk by (auto simp: S lt eq)
    qed
    then show ?case using vk by simp
  qed
  then show "val (\<Sum>m\<leftarrow>[0..<n]. (if m = 0 then v 0 else v m + v (m - 1)) * BR (bit b (63 - m))) = (T n a < T n b)"
    "0 < n \<Longrightarrow> val (v (n - 1)) = (T n a \<noteq> T n b)" by blast+
qed

text \<open>The values on the output wires of the two circuits.\<close>

lemma multk_compares:
  "prod_list (map (\<lambda>k. eq_bits a b k) [0..<64]) = BR (a = b)"
  by (rule BR_eqI) (auto simp: val_prod_list all_bits_eq [symmetric] simp del: upt_Suc)

lemma block_compares:
  "val (\<Sum>m\<leftarrow>[0..<64]. step_val (\<lambda>m. block_prod (\<lambda>m. eq_bits a b (63 - m)) 3 m + 1) m * BR (bit b (63 - m))) = (a < b)"
proof -
  let ?v = "\<lambda>m. prod_list (map (\<lambda>m. eq_bits a b (63 - m)) [0..<Suc m]) + 1"
  have "step_val (\<lambda>m. block_prod (\<lambda>m. eq_bits a b (63 - m)) 3 m + 1) m = (if m = 0 then ?v 0 else ?v m + ?v (m - 1))"
    if "m < 64" for m
    using that by (auto simp: step_val_def block_prod_def simp del: upt_Suc)
  then have "(\<Sum>m\<leftarrow>[0..<64]. step_val (\<lambda>m. block_prod (\<lambda>m. eq_bits a b (63 - m)) 3 m + 1) m * BR (bit b (63 - m))) =
      (\<Sum>m\<leftarrow>[0..<64]. (if m = 0 then ?v 0 else ?v m + ?v (m - 1)) * BR (bit b (63 - m)))"
    by (intro arg_cong [where f = sum_list] map_cong refl) simp
  with prefix_compare(1) [of 64 a b] show ?thesis by (simp add: word_less_nat_alt del: upt_Suc)
qed

lemma prefixOR_compares:
  assumes "\<And>k. k < 64 \<Longrightarrow> inp k = eq_bits a b (63 - k)" "\<And>k. k < 64 \<Longrightarrow> inp (64 + k) = eq_bits c b (63 - k)"
    "\<And>k. k < 64 \<Longrightarrow> inp (128 + k) = BR (bit b (63 - k))" "\<And>k. k < 64 \<Longrightarrow> inp (192 + k) = BR (bit b (63 - k))"
  shows "prefixOR_val 2 inp = BR ((a < b) \<noteq> (c < b))"
proof -
  let ?f = "\<lambda>m. step_val (\<lambda>m. block_prod inp 3 m + 1) m * inp (128 + m)"
  let ?g = "\<lambda>a m. step_val (\<lambda>m. block_prod (\<lambda>m. eq_bits a b (63 - m)) 3 m + 1) m * BR (bit b (63 - m))"
  have p1: "block_prod inp 3 m = block_prod (\<lambda>m. eq_bits a b (63 - m)) 3 m" if "m < 64" for m
    using that assms(1) unfolding block_prod_def by (intro arg_cong [where f = prod_list] map_cong refl) auto
  have p2: "block_prod inp 3 (64 + m) = block_prod (\<lambda>m. eq_bits c b (63 - m)) 3 m" if "m < 64" for m
  proof -
    have "[64..<Suc (64 + m)] = map (\<lambda>i. i + 64) [0..<Suc m]" using map_add_upt [of 64 "Suc m"] by (simp add: add.commute del: upt_Suc)
    moreover have "(64 + m) div 4 ^ 3 * 4 ^ 3 = 64" "m div 4 ^ 3 * 4 ^ 3 = 0" using that by simp_all
    moreover have "map (\<lambda>i. inp (i + 64)) [0..<Suc m] = map (\<lambda>i. eq_bits c b (63 - i)) [0..<Suc m]"
      using that assms(2) by (intro map_cong refl) (auto simp: add.commute)
    ultimately show ?thesis unfolding block_prod_def by (simp only: map_map o_def)
  qed
  have f1: "?f m = ?g a m" if "m < 64" for m
    using that p1 [of m] p1 [of "m - 1"] assms(3) [of m] by (auto simp: step_val_def)
  have f2: "?f (m + 64) = ?g c m" if "m < 64" for m
  proof -
    have "m - Suc 0 < 64" using that by simp
    moreover have "m + 63 = 64 + (m - Suc 0)" if "0 < m" using that by simp
    ultimately show ?thesis
      using that p2 [of m] p2 [of "m - Suc 0"] assms(4) [of m] by (auto simp: step_val_def add.commute)
  qed
  have split: "[0..<128] = [0..<64] @ map (\<lambda>i. i + 64) [0..<64]"
    using upt_add_eq_append [of 0 64 64] by (simp add: map_add_upt del: upt_Suc)
  have "(128 :: BoolRing) = 0" using BoolRing_double [of 64] by (simp del: BoolRing_double)
  then have "(\<Sum>k\<leftarrow>[0..<64 * 2]. inp 0 * inp 0) = (0 :: BoolRing)" by (simp add: sum_list_triv)
  moreover have "(\<Sum>m\<leftarrow>[0..<128]. ?f m) = (\<Sum>m\<leftarrow>[0..<64]. ?g a m) + (\<Sum>m\<leftarrow>[0..<64]. ?g c m)"
    unfolding split map_append map_map o_def sum_list_append
    by (intro arg_cong2 [where f = "(+)"] arg_cong [where f = sum_list] map_cong refl f1 f2) auto
  ultimately have "prefixOR_val 2 inp = (\<Sum>m\<leftarrow>[0..<64]. ?g a m) + (\<Sum>m\<leftarrow>[0..<64]. ?g c m)"
    by (simp add: prefixOR_val_def del: upt_Suc)
  then show ?thesis by (intro BR_eqI) (simp only: val_plus block_compares BoolRing.sel)
qed

subsection \<open>The gates\<close>

text \<open>
  The parameters of the field evaluator: number of parties, NTL's conversions to \<open>uint64_t\<close> and to
  an integer, the modulus, the samplers for pads and for field elements, and the generator pool
  that party \<open>p\<close> makes for a new \<open>BoolEval\<close>.
\<close>

record ('g, 'f) online_env =
  on_nP :: nat
  on_conv :: "'f \<Rightarrow> u64"
  on_zz :: "'f \<Rightarrow> nat"
  on_modulus :: nat
  on_bit :: "'g \<Rightarrow> BoolRing \<times> 'g"
  on_zzp :: "'g \<Rightarrow> 'f \<times> 'g"
  on_rgen :: "nat \<Rightarrow> 'g RandGenPool"

definition padded_input :: "nat \<Rightarrow> 'f::comm_ring_1 field_gate option list \<Rightarrow> 'f online \<Rightarrow> 'f gate \<Rightarrow> 'f" where
  "padded_input me G st g = (if me \<noteq> 0 then wires st ! (gins g ! 0) + padded_val (the (G ! gout g)) else 0)"

definition eqz_start ::
  "('g, 'f::comm_ring_1) online_env \<Rightarrow> nat \<Rightarrow> 'f field_gate option list \<Rightarrow> 'f online \<Rightarrow> 'f gate list \<Rightarrow> 'g BoolEval" where
  "eqz_start E me G st gates =
     (let val = map (padded_input me G st) gates;
          bool_eval = BoolEval_new (on_rgen E me) (length gates) (num_gates multk_circ)
      in bool_eval\<lparr>be_insts := map (\<lambda>i.
           let val_bits = bitDecomposeTwo (on_conv E) (val ! i)
           in set_bool_inputs (gates_by_level multk_circ ! 0) (\<lambda>j. 1 - val_bits ! j) (be_insts bool_eval ! i))
         [0..<length gates]\<rparr>)"

definition eqzEvaluate ::
  "('g, 'f::comm_ring_1) online_env \<Rightarrow> (nat \<Rightarrow> 'f field_gate option list) \<Rightarrow> (nat \<Rightarrow> 'f online) \<Rightarrow> 'f gate list \<Rightarrow> nat \<Rightarrow>
   'f list \<times> 'f AuthAddShare list \<times> 'f list" where
  "eqzEvaluate E G S gates me =
     (let bool_eval = BoolEval_evaluateAllLevels (on_bit E) (on_nP E) multk_circ
            (\<lambda>p. map (\<lambda>g. multk_gates (the (G p ! gout g))) gates) (\<lambda>p. eqz_start E p (G p) (S p) gates) me;
          output_shares = getOutputShares multk_circ bool_eval;
          output_share_val = map (\<lambda>i. if val (output_shares ! i ! 0) then 1 else 0) [0..<length gates];
          q_share = (if me \<noteq> 0 then map (\<lambda>i.
              let pre_eqz = the (G me ! gout (gates ! i)); del_w = fst (mask_w pre_eqz); del_b = fst (mask_b pre_eqz)
              in aas_sub del_w (aas_mul del_b (output_share_val ! i))) [0..<length gates]
            else replicate (length gates) AuthAddShare_default)
      in (if me \<noteq> 0 then map valueAt q_share else [], q_share, output_share_val))"

definition ltz_M :: "('g, 'f) online_env \<Rightarrow> nat" where
  "ltz_M E = (on_modulus E + 1) div 2"

definition shifted_input :: "('g, 'f::comm_ring_1) online_env \<Rightarrow> nat \<Rightarrow> 'f field_gate option list \<Rightarrow> 'f online \<Rightarrow> 'f gate \<Rightarrow> 'f" where
  "shifted_input E me G st g = (if me \<noteq> 0 then padded_input me G st g + of_nat (ltz_M E) else 0)"

definition ltz_start ::
  "('g, 'f::comm_ring_1) online_env \<Rightarrow> nat \<Rightarrow> 'f field_gate option list \<Rightarrow> 'f online \<Rightarrow> 'f gate list \<Rightarrow> 'g BoolEval" where
  "ltz_start E me G st gates =
     (let val = map (padded_input me G st) gates; val2 = map (shifted_input E me G st) gates;
          bool_eval = BoolEval_new (on_rgen E me) (length gates) (num_gates prefixOR_circ)
      in bool_eval\<lparr>be_insts := map (\<lambda>i.
           let val_bits = bitDecomposeTwo (on_conv E) (val ! i); val_bits2 = bitDecomposeTwo (on_conv E) (val2 ! i)
           in set_bool_inputs (gates_by_level prefixOR_circ ! 0)
             (\<lambda>j. if j < 64 then 1 - val_bits ! (63 - j)
               else if j < 128 then 1 - val_bits2 ! (127 - j)
               else if j < 192 then 0 else 0)
             (be_insts bool_eval ! i))
         [0..<length gates]\<rparr>)"

definition ltzEvaluate ::
  "('g, 'f::comm_ring_1) online_env \<Rightarrow> (nat \<Rightarrow> 'f field_gate option list) \<Rightarrow> (nat \<Rightarrow> 'f online) \<Rightarrow> 'f gate list \<Rightarrow> nat \<Rightarrow>
   'f list \<times> 'f AuthAddShare list \<times> 'f list" where
  "ltzEvaluate E G S gates me =
     (let bool_eval = BoolEval_evaluateAllLevels (on_bit E) (on_nP E) prefixOR_circ
            (\<lambda>p. map (\<lambda>g. PrefixOR_gates (the (G p ! gout g))) gates) (\<lambda>p. ltz_start E p (G p) (S p) gates) me;
          output_shares = getOutputShares prefixOR_circ bool_eval;
          val2 = map (shifted_input E me (G me) (S me)) gates;
          output_share_val = map (\<lambda>i. if val (output_shares ! i ! 0) \<noteq> (on_zz E (val2 ! i) < ltz_M E) then 1 else 0)
            [0..<length gates];
          q_share = (if me \<noteq> 0 then map (\<lambda>i.
              let pre_ltz = the (G me ! gout (gates ! i))
              in aas_add (fst (mask_w pre_ltz)) (aas_mul (fst (mask_b pre_ltz)) (output_share_val ! i))) [0..<length gates]
            else replicate (length gates) AuthAddShare_default)
      in (if me \<noteq> 0 then map valueAt q_share else [], q_share, output_share_val))"

text \<open>
  The bits the protocols compute of a value \<open>x\<close> that is masked with \<open>r\<close> (what the dealer knows as
  \<open>padded_val + mask\<close>).
\<close>

definition eqz_bit :: "('g, 'f::comm_ring_1) online_env \<Rightarrow> 'f \<Rightarrow> 'f \<Rightarrow> bool" where
  "eqz_bit E r x \<longleftrightarrow> on_conv E (x + r) = on_conv E r"

definition ltz_bit :: "('g, 'f::comm_ring_1) online_env \<Rightarrow> 'f \<Rightarrow> 'f \<Rightarrow> bool" where
  "ltz_bit E r x \<longleftrightarrow>
     ((on_conv E (x + r) < on_conv E r) \<noteq> (on_conv E (x + r + of_nat (ltz_M E)) < on_conv E r)) \<noteq>
     (on_zz E (x + r + of_nat (ltz_M E)) < ltz_M E)"

text \<open>What the two gates have in common: the masked bits and the shares from which the output is opened.\<close>

definition bit_opens ::
  "nat \<Rightarrow> (nat \<Rightarrow> 'f::comm_ring_1) \<Rightarrow> 'f \<Rightarrow> 'f \<Rightarrow> bool \<Rightarrow> bool \<Rightarrow> (nat \<Rightarrow> 'f AuthAddShare) \<Rightarrow> (nat \<Rightarrow> 'f) \<Rightarrow> bool" where
  "bit_opens n kf dout sg b \<beta> q m \<longleftrightarrow> (\<exists>\<mu>. (\<forall>p\<in>{1..n}. m p = of_bool (b \<noteq> \<beta>)) \<and>
     shared n kf q (\<mu> + sg * of_bool \<beta> * of_bool (b \<noteq> \<beta>)) \<and> dout = - of_bool \<beta> - 2 * \<mu>)"

text \<open>The mask bit of an equality or comparison gate, which the dealer knows.\<close>

definition eqz_mask_bit :: "'f field_gate option list \<Rightarrow> wire_t \<Rightarrow> bool" where
  "eqz_mask_bit G0 w = val (secret (snd (mask_at (multk_gates (the (G0 ! w))) (outputs multk_circ ! 0))))"

definition ltz_mask_bit :: "'f field_gate option list \<Rightarrow> wire_t \<Rightarrow> bool" where
  "ltz_mask_bit G0 w = val (secret (snd (mask_at (PrefixOR_gates (the (G0 ! w))) (outputs prefixOR_circ ! 0))))"

text \<open>
  The instances of a nested circuit, started with inputs \<open>F p i\<close>: if these are the masked values of
  \<open>inp i\<close>, every party gets the masked value of the output.
\<close>

lemma nested_shares:
  fixes E :: "nat \<Rightarrow> 'g BoolEval" and c :: "BoolRing Circuit"
  assumes c: "circuit_ok c" "inputs_first m c" "circ_outputs c = [out]"
    "\<forall>g\<in>set (circ_gates c). gtype g = kInp \<or> arith_gate g"
    and n: "0 < n" and G: "\<And>i. i < k \<Longrightarrow> nested_ok n kb (orderGatesByLevel c) (mb i) (\<Delta> i) (\<lambda>p. vpre p ! i)"
    and E: "\<And>p. 1 \<le> p \<Longrightarrow> p \<le> n \<Longrightarrow> be_insts (E p) =
        map (\<lambda>i. set_bool_inputs (gates_by_level (orderGatesByLevel c) ! 0) (F p i) (online_new (length (circ_gates c)))) [0..<k]"
    and rg: "\<And>p. 1 \<le> p \<Longrightarrow> p \<le> n \<Longrightarrow> k_all_minus_0 (be_rgen (E p)) = s"
    and F: "\<And>p i j. 1 \<le> p \<Longrightarrow> p \<le> n \<Longrightarrow> i < k \<Longrightarrow> j < m \<Longrightarrow> F p i j = inp i j + mb i j"
    and me: "1 \<le> me" "me \<le> n"
  shows "getOutputShares (orderGatesByLevel c) (BoolEval_evaluateAllLevels smp n (orderGatesByLevel c) vpre E me) =
    map (\<lambda>i. [wval R (inp i) c out + \<Delta> i out]) [0..<k]"
proof -
  obtain rest ls where ls: "gates_by_level (orderGatesByLevel c) = (map (Gate kInp) [0..<m] @ rest) # ls"
    "\<forall>g\<in>set rest \<union> set (concat ls). gtype g \<noteq> kInp"
    by (rule inputs_first_levels [OF c(1,2)])
  have "m \<le> length (circ_gates c)" using c(2) by (auto simp: inputs_first_def prefix_def)
  then have nw: "m \<le> length (wires (online_new (length (circ_gates c))))" by (simp add: online_new_def)
  note set = set_bool_inputs_wires [OF refl _ nw, of rest]
  have "getOutputShares (orderGatesByLevel c) (BoolEval_evaluateAllLevels smp n (orderGatesByLevel c) vpre E me) =
    map (\<lambda>i. map (\<lambda>w. wval R (inp i) c w + \<Delta> i w) (circ_outputs c)) [0..<k]"
  proof (rule BoolEval_outputs [OF c(1,2,4) G n rg _ _ _ me])
    show "wires (be_insts (E p) ! i) ! w = inp i w + mb i w" if "1 \<le> p" "p \<le> n" "i < k" "w < m" for p i w
      using set(2) that ls F by (simp add: E [OF that(1,2)])
    show "length (wires (be_insts (E p) ! i)) = length (circ_gates c)" if "1 \<le> p" "p \<le> n" "i < k" for p i
      using set(1) that ls by (simp add: E [OF that(1,2)] online_new_def)
  qed (simp_all add: E)
  then show ?thesis by (simp add: c(3))
qed

lemma eqzEvaluate_opens:
  fixes E :: "('g, 'f::comm_ring_1) online_env"
  assumes n: "0 < on_nP E" and rg: "\<And>p. 1 \<le> p \<Longrightarrow> p \<le> on_nP E \<Longrightarrow> k_all_minus_0 (on_rgen E p) = s"
    and ok: "\<And>i. i < length gates \<Longrightarrow> eqz_ok (on_nP E) kf kb (on_conv E) (\<delta> (gins (gates ! i) ! 0)) (\<delta> (gout (gates ! i)))
      (\<lambda>p. the (G p ! gout (gates ! i)))"
    and w: "\<And>p i. 1 \<le> p \<Longrightarrow> p \<le> on_nP E \<Longrightarrow> i < length gates \<Longrightarrow> wires (S p) ! (gins (gates ! i) ! 0) = x i + \<delta> (gins (gates ! i) ! 0)"
    and i: "i < length gates"
  shows "bit_opens (on_nP E) kf (\<delta> (gout (gates ! i))) (- 1)
    (eqz_bit E (padded_val (the (G 0 ! gout (gates ! i))) + \<delta> (gins (gates ! i) ! 0)) (x i))
    (eqz_mask_bit (G 0) (gout (gates ! i)))
    (\<lambda>p. fst (snd (eqzEvaluate E G S gates p)) ! i) (\<lambda>p. snd (snd (eqzEvaluate E G S gates p)) ! i)"
proof -
  let ?n = "on_nP E" and ?k = "length gates" and ?pre = "\<lambda>p i. the (G p ! gout (gates ! i))"
  let ?r = "\<lambda>i. padded_val (?pre 0 i) + \<delta> (gins (gates ! i) ! 0)"
  obtain c out where c: "multk_circ = orderGatesByLevel c" "circuit_ok c" "inputs_first 64 c" "circ_outputs c = [out]"
    "\<forall>g\<in>set (circ_gates c). gtype g = kInp \<or> arith_gate g" "\<And>R inp. wval R inp c out = prod_list (map inp [0..<64])"
    by (rule multk_circ_ok) blast
  define Q where "Q i \<mu> \<Delta> \<longleftrightarrow> (\<forall>p\<in>{1..?n}. padded_val (?pre p i) = padded_val (?pre 0 i)) \<and>
      dealt_sel ?n kf mask_w (\<lambda>p. ?pre p i) \<mu> \<and>
      nested_ok ?n kb multk_circ (\<lambda>k. bitDecomposeTwo (on_conv E) (?r i) ! k) \<Delta> (\<lambda>p. multk_gates (?pre p i)) \<and>
      dealt_sel ?n kf mask_b (\<lambda>p. ?pre p i) (of_bool (val (\<Delta> (outputs multk_circ ! 0)))) \<and>
      \<delta> (gout (gates ! i)) = - of_bool (val (\<Delta> (outputs multk_circ ! 0))) - 2 * \<mu>" for i \<mu> \<Delta>
  have "\<forall>i. \<exists>\<mu> \<Delta>. i < ?k \<longrightarrow> Q i \<mu> \<Delta>" using ok unfolding eqz_ok_def Q_def by blast
  then obtain \<mu> \<Delta> where Q: "\<And>i. i < ?k \<Longrightarrow> Q i (\<mu> i) (\<Delta> i)" by metis
  have D: "\<And>i p. i < ?k \<Longrightarrow> 1 \<le> p \<Longrightarrow> p \<le> ?n \<Longrightarrow> padded_val (?pre p i) = padded_val (?pre 0 i)"
    "\<And>i. i < ?k \<Longrightarrow> dealt_sel ?n kf mask_w (\<lambda>p. ?pre p i) (\<mu> i)"
    "\<And>i. i < ?k \<Longrightarrow> nested_ok ?n kb multk_circ (\<lambda>k. bitDecomposeTwo (on_conv E) (?r i) ! k) (\<Delta> i) (\<lambda>p. multk_gates (?pre p i))"
    "\<And>i. i < ?k \<Longrightarrow> dealt_sel ?n kf mask_b (\<lambda>p. ?pre p i) (of_bool (val (\<Delta> i (outputs multk_circ ! 0))))"
    "\<And>i. i < ?k \<Longrightarrow> \<delta> (gout (gates ! i)) = - of_bool (val (\<Delta> i (outputs multk_circ ! 0))) - 2 * \<mu> i"
    using Q unfolding Q_def by auto
  let ?E = "\<lambda>p. eqz_start E p (G p) (S p) gates" and ?vpre = "\<lambda>p. map (\<lambda>g. multk_gates (the (G p ! gout g))) gates"
  let ?inp = "\<lambda>i. eq_bits (on_conv E (x i + ?r i)) (on_conv E (?r i))"
  have val: "padded_input p (G p) (S p) (gates ! i) = x i + ?r i" if "1 \<le> p" "p \<le> ?n" "i < ?k" for p i
    using that w [OF that] D(1) [OF that(3,1,2)] by (simp add: padded_input_def)
  have shares: "getOutputShares multk_circ (BoolEval_evaluateAllLevels (on_bit E) ?n multk_circ ?vpre ?E p) =
      map (\<lambda>i. [BR (on_conv E (x i + ?r i) = on_conv E (?r i)) + \<Delta> i out]) [0..<?k]" if p: "1 \<le> p" "p \<le> ?n" for p
  proof -
    have "getOutputShares (orderGatesByLevel c) (BoolEval_evaluateAllLevels (on_bit E) ?n (orderGatesByLevel c) ?vpre ?E p) =
      map (\<lambda>i. [wval undefined (?inp i) c out + \<Delta> i out]) [0..<?k]"
    proof (rule nested_shares [OF c(2,3,4,5) n, where mb = "\<lambda>i k. bitDecomposeTwo (on_conv E) (?r i) ! k" and kb = kb and s = s
          and F = "\<lambda>p i j. 1 - bitDecomposeTwo (on_conv E) (padded_input p (G p) (S p) (gates ! i)) ! j"])
      show "nested_ok ?n kb (orderGatesByLevel c) (\<lambda>k. bitDecomposeTwo (on_conv E) (?r i) ! k) (\<Delta> i) (\<lambda>p. ?vpre p ! i)"
        if "i < ?k" for i using D(3) [OF that] that by (simp add: c(1))
      show "1 - bitDecomposeTwo (on_conv E) (padded_input p (G p) (S p) (gates ! i)) ! j = ?inp i j + bitDecomposeTwo (on_conv E) (?r i) ! j"
        if "1 \<le> p" "p \<le> ?n" "i < ?k" "j < 64" for p i j
        using that by (simp add: val eq_bits_def bitDecomposeTwo_def bitDecompose_nth)
    qed (use p rg in \<open>auto simp: eqz_start_def BoolEval_new_def Let_def c(1)\<close>)
    then show ?thesis by (simp add: c(1,6) multk_compares)
  qed
  let ?b = "eqz_bit E (?r i) (x i)" and ?\<beta> = "val (\<Delta> i out)"
  have outs: "outputs multk_circ ! 0 = out" by (simp add: c(1,4))
  have m: "snd (snd (eqzEvaluate E G S gates p)) ! i = of_bool (?b \<noteq> ?\<beta>)" if "1 \<le> p" "p \<le> ?n" for p
    using i by (simp add: eqzEvaluate_def Let_def shares [OF that] eqz_bit_def)
  have q: "fst (snd (eqzEvaluate E G S gates p)) ! i = aas_sub (fst (mask_w (?pre p i))) (aas_mul (fst (mask_b (?pre p i))) (of_bool (?b \<noteq> ?\<beta>)))"
    if "1 \<le> p" "p \<le> ?n" for p
    using i that by (simp add: eqzEvaluate_def Let_def shares [OF that] eqz_bit_def)
  have "shared ?n kf (\<lambda>p. aas_sub (fst (mask_w (?pre p i))) (aas_mul (fst (mask_b (?pre p i))) (of_bool (?b \<noteq> ?\<beta>))))
      (\<mu> i - of_bool ?\<beta> * of_bool (?b \<noteq> ?\<beta>))"
    using D(2,4) [OF i, THEN dealt_sel_shared] by (intro shared_sub shared_mul) (simp_all add: outs)
  then have "shared ?n kf (\<lambda>p. fst (snd (eqzEvaluate E G S gates p)) ! i) (\<mu> i + - 1 * of_bool ?\<beta> * of_bool (?b \<noteq> ?\<beta>))"
    using q by (simp cong: shared_cong)
  then show ?thesis
    unfolding bit_opens_def using m D(5) [OF i] outs multk_secret [OF D(3) [OF i]]
    by (intro exI [of _ "\<mu> i"]) (auto simp: eqz_mask_bit_def)
qed

lemma ltzEvaluate_opens:
  fixes E :: "('g, 'f::comm_ring_1) online_env"
  assumes n: "0 < on_nP E" and rg: "\<And>p. 1 \<le> p \<Longrightarrow> p \<le> on_nP E \<Longrightarrow> k_all_minus_0 (on_rgen E p) = s"
    and ok: "\<And>i. i < length gates \<Longrightarrow> ltz_ok (on_nP E) kf kb (on_conv E) (\<delta> (gins (gates ! i) ! 0)) (\<delta> (gout (gates ! i)))
      (\<lambda>p. the (G p ! gout (gates ! i)))"
    and w: "\<And>p i. 1 \<le> p \<Longrightarrow> p \<le> on_nP E \<Longrightarrow> i < length gates \<Longrightarrow> wires (S p) ! (gins (gates ! i) ! 0) = x i + \<delta> (gins (gates ! i) ! 0)"
    and i: "i < length gates"
  shows "bit_opens (on_nP E) kf (\<delta> (gout (gates ! i))) 1
    (ltz_bit E (padded_val (the (G 0 ! gout (gates ! i))) + \<delta> (gins (gates ! i) ! 0)) (x i))
    (ltz_mask_bit (G 0) (gout (gates ! i)))
    (\<lambda>p. fst (snd (ltzEvaluate E G S gates p)) ! i) (\<lambda>p. snd (snd (ltzEvaluate E G S gates p)) ! i)"
proof -
  let ?n = "on_nP E" and ?k = "length gates" and ?pre = "\<lambda>p i. the (G p ! gout (gates ! i))"
  let ?r = "\<lambda>i. padded_val (?pre 0 i) + \<delta> (gins (gates ! i) ! 0)" and ?M = "of_nat (ltz_M E) :: 'f"
  obtain c out where c: "prefixOR_circ = orderGatesByLevel c" "circuit_ok c" "inputs_first 256 c" "circ_outputs c = [out]"
    "\<forall>g\<in>set (circ_gates c). gtype g = kInp \<or> arith_gate g" "\<And>R inp. wval R inp c out = prefixOR_val 2 inp"
    by (rule prefixOR_circ_ok) blast
  define Q where "Q i \<mu> \<Delta> \<longleftrightarrow> (\<forall>p\<in>{1..?n}. padded_val (?pre p i) = padded_val (?pre 0 i)) \<and>
      dealt_sel ?n kf mask_w (\<lambda>p. ?pre p i) \<mu> \<and>
      nested_ok ?n kb prefixOR_circ (\<lambda>k. bitDecomposeTwo (on_conv E) (?r i) ! (63 - k mod 64)) \<Delta> (\<lambda>p. PrefixOR_gates (?pre p i)) \<and>
      dealt_sel ?n kf mask_b (\<lambda>p. ?pre p i) (of_bool (val (\<Delta> (outputs prefixOR_circ ! 0)))) \<and>
      \<delta> (gout (gates ! i)) = - of_bool (val (\<Delta> (outputs prefixOR_circ ! 0))) - 2 * \<mu>" for i \<mu> \<Delta>
  have "\<forall>i. \<exists>\<mu> \<Delta>. i < ?k \<longrightarrow> Q i \<mu> \<Delta>" using ok unfolding ltz_ok_def Q_def by blast
  then obtain \<mu> \<Delta> where Q: "\<And>i. i < ?k \<Longrightarrow> Q i (\<mu> i) (\<Delta> i)" by metis
  have D: "\<And>i p. i < ?k \<Longrightarrow> 1 \<le> p \<Longrightarrow> p \<le> ?n \<Longrightarrow> padded_val (?pre p i) = padded_val (?pre 0 i)"
    "\<And>i. i < ?k \<Longrightarrow> dealt_sel ?n kf mask_w (\<lambda>p. ?pre p i) (\<mu> i)"
    "\<And>i. i < ?k \<Longrightarrow> nested_ok ?n kb prefixOR_circ (\<lambda>k. bitDecomposeTwo (on_conv E) (?r i) ! (63 - k mod 64)) (\<Delta> i) (\<lambda>p. PrefixOR_gates (?pre p i))"
    "\<And>i. i < ?k \<Longrightarrow> dealt_sel ?n kf mask_b (\<lambda>p. ?pre p i) (of_bool (val (\<Delta> i (outputs prefixOR_circ ! 0))))"
    "\<And>i. i < ?k \<Longrightarrow> \<delta> (gout (gates ! i)) = - of_bool (val (\<Delta> i (outputs prefixOR_circ ! 0))) - 2 * \<mu> i"
    using Q unfolding Q_def by auto
  let ?E = "\<lambda>p. ltz_start E p (G p) (S p) gates" and ?vpre = "\<lambda>p. map (\<lambda>g. PrefixOR_gates (the (G p ! gout g))) gates"
  let ?a = "\<lambda>i. on_conv E (x i + ?r i)" and ?c = "\<lambda>i. on_conv E (x i + ?r i + ?M)" and ?b = "\<lambda>i. on_conv E (?r i)"
  let ?inp = "\<lambda>i j. if j < 64 then eq_bits (?a i) (?b i) (63 - j) else if j < 128 then eq_bits (?c i) (?b i) (127 - j)
      else BR (bit (?b i) (63 - j mod 64))"
  let ?F = "\<lambda>p i j. if j < 64 then 1 - bitDecomposeTwo (on_conv E) (padded_input p (G p) (S p) (gates ! i)) ! (63 - j)
               else if j < 128 then 1 - bitDecomposeTwo (on_conv E) (shifted_input E p (G p) (S p) (gates ! i)) ! (127 - j)
               else if j < 192 then 0 else 0"
  have val: "padded_input p (G p) (S p) (gates ! i) = x i + ?r i" if "1 \<le> p" "p \<le> ?n" "i < ?k" for p i
    using that w [OF that] D(1) [OF that(3,1,2)] by (simp add: padded_input_def)
  have val2: "shifted_input E p (G p) (S p) (gates ! i) = x i + ?r i + ?M" if "1 \<le> p" "p \<le> ?n" "i < ?k" for p i
    using val [OF that] that(1) by (simp add: shifted_input_def)
  have shares: "getOutputShares prefixOR_circ (BoolEval_evaluateAllLevels (on_bit E) ?n prefixOR_circ ?vpre ?E p) =
      map (\<lambda>i. [BR ((?a i < ?b i) \<noteq> (?c i < ?b i)) + \<Delta> i out]) [0..<?k]" if p: "1 \<le> p" "p \<le> ?n" for p
  proof -
    have "getOutputShares (orderGatesByLevel c) (BoolEval_evaluateAllLevels (on_bit E) ?n (orderGatesByLevel c) ?vpre ?E p) =
      map (\<lambda>i. [wval undefined (?inp i) c out + \<Delta> i out]) [0..<?k]"
    proof (rule nested_shares [OF c(2,3,4,5) n, where mb = "\<lambda>i k. bitDecomposeTwo (on_conv E) (?r i) ! (63 - k mod 64)" and
          kb = kb and s = s and F = ?F])
      show "nested_ok ?n kb (orderGatesByLevel c) (\<lambda>k. bitDecomposeTwo (on_conv E) (?r i) ! (63 - k mod 64)) (\<Delta> i) (\<lambda>p. ?vpre p ! i)"
        if "i < ?k" for i using D(3) [OF that] that by (simp add: c(1))
      show "?F p i j = ?inp i j + bitDecomposeTwo (on_conv E) (?r i) ! (63 - j mod 64)"
        if "1 \<le> p" "p \<le> ?n" "i < ?k" "j < 256" for p i j
      proof (cases "64 \<le> j \<and> j < 128")
        case True
        then have "j mod 64 = j - 64" by (auto simp: le_mod_geq)
        with True have "63 - j mod 64 = 127 - j" by simp
        with True show ?thesis using that by (simp add: val2 eq_bits_def bitDecomposeTwo_def bitDecompose_nth)
      qed (use that in \<open>auto simp: val eq_bits_def bitDecomposeTwo_def bitDecompose_nth\<close>)
    qed (use p rg in \<open>auto simp: ltz_start_def BoolEval_new_def Let_def c(1) cong: if_cong\<close>)
    moreover have "prefixOR_val 2 (?inp i) = BR ((?a i < ?b i) \<noteq> (?c i < ?b i))" for i
    proof (rule prefixOR_compares)
      fix k :: nat assume k: "k < 64"
      have "(128 + k) mod 64 = k" "(192 + k) mod 64 = k"
        using mod_mult_self1 [of k 2 64] mod_mult_self1 [of k 3 64] k by (simp_all add: add.commute)
      with k show "?inp i k = eq_bits (?a i) (?b i) (63 - k)" "?inp i (64 + k) = eq_bits (?c i) (?b i) (63 - k)"
        "?inp i (128 + k) = BR (bit (?b i) (63 - k))" "?inp i (192 + k) = BR (bit (?b i) (63 - k))" by simp_all
    qed
    ultimately show ?thesis by (simp add: c(1,6))
  qed
  let ?\<beta> = "val (\<Delta> i out)" and ?lb = "ltz_bit E (?r i) (x i)"
  have outs: "outputs prefixOR_circ ! 0 = out" by (simp add: c(1,4))
  have bits: "(val (BR ((?a i < ?b i) \<noteq> (?c i < ?b i)) + \<Delta> i out) \<noteq> (on_zz E (x i + ?r i + ?M) < ltz_M E)) = (?lb \<noteq> ?\<beta>)"
    by (auto simp: ltz_bit_def)
  have m: "snd (snd (ltzEvaluate E G S gates p)) ! i = of_bool (?lb \<noteq> ?\<beta>)" if "1 \<le> p" "p \<le> ?n" for p
    using i bits by (simp add: ltzEvaluate_def Let_def shares [OF that] val2 [OF that i])
  have q: "fst (snd (ltzEvaluate E G S gates p)) ! i = aas_add (fst (mask_w (?pre p i))) (aas_mul (fst (mask_b (?pre p i))) (of_bool (?lb \<noteq> ?\<beta>)))"
    if "1 \<le> p" "p \<le> ?n" for p
    using i that bits by (simp add: ltzEvaluate_def Let_def shares [OF that] val2 [OF that i])
  have "shared ?n kf (\<lambda>p. aas_add (fst (mask_w (?pre p i))) (aas_mul (fst (mask_b (?pre p i))) (of_bool (?lb \<noteq> ?\<beta>))))
      (\<mu> i + of_bool ?\<beta> * of_bool (?lb \<noteq> ?\<beta>))"
    using D(2,4) [OF i, THEN dealt_sel_shared] by (intro shared_add shared_mul) (simp_all add: outs)
  then have "shared ?n kf (\<lambda>p. fst (snd (ltzEvaluate E G S gates p)) ! i) (\<mu> i + 1 * of_bool ?\<beta> * of_bool (?lb \<noteq> ?\<beta>))"
    using q by (simp cong: shared_cong)
  then show ?thesis
    unfolding bit_opens_def using m D(5) [OF i] outs prefixOR_secret [OF D(3) [OF i]]
    by (intro exI [of _ "\<mu> i"]) (auto simp: ltz_mask_bit_def)
qed

end
