(* ===== verification/Online.thy ===== *)
theory Online
  imports Online_Nested
begin

section \<open>The online phase (asterisk/online_evaluator_load_balanced.cpp)\<close>

text \<open>
  \<open>OnlineEvaluator\<close>: the parties send around their masked inputs, evaluate the levels of the circuit
  on masked values, check the MACs of what they opened and unmask the outputs with the masks the
  dealer sends. A joint state is a function of the party; messages arrive as they were sent. The
  states of the parties that a message needs are arguments of the step.

  The invariant is \<open>online_inv\<close>: all parties hold the masked values of the evaluated wires, and
  for every opened wire its masked value and an authenticated sharing of it.
\<close>

subsection \<open>Setting the inputs\<close>

text \<open>
  How a party's part of a run ends: with a result \<open>Some (Inr r)\<close>, with an exception \<open>Some (Inl e)\<close>, or
  not at all, \<open>None\<close>, where it waits for a message that is never sent or leaves a vector.
\<close>

type_synonym 'a outcome = "(exn + 'a) option"

fun foldO :: "('x \<Rightarrow> 's \<Rightarrow> 's outcome) \<Rightarrow> 'x list \<Rightarrow> 's \<Rightarrow> 's outcome" where
  "foldO f [] s = Some (Inr s)"
| "foldO f (x # xs) s = (case f x s of Some (Inr s') \<Rightarrow> foldO f xs s' | stop \<Rightarrow> stop)"

definition returns :: "'a outcome \<Rightarrow> bool" where
  "returns r = (case r of Some (Inr _) \<Rightarrow> True | _ \<Rightarrow> False)"

abbreviation result :: "'a outcome \<Rightarrow> 'a" where
  "result r \<equiv> projr (the r)"

text \<open>A party that returns from a step waits for those that do not, and so does not return from the run.\<close>

definition stopped :: "'a outcome \<Rightarrow> 'b outcome" where
  "stopped r = (case r of Some (Inl e) \<Rightarrow> Some (Inl e) | _ \<Rightarrow> None)"

lemma returns_Some [simp]: "returns (Some (Inr x))" "\<not> returns (Some (Inl e))" "\<not> returns None"
  by (simp_all add: returns_def)

lemma returnsE:
  assumes "returns r"
  obtains x where "r = Some (Inr x)"
  using assms by (auto simp: returns_def split: option.splits sum.splits)

lemma stopped_simps [simp]: "stopped (Some (Inl e)) = Some (Inl e)" "stopped None = None" "stopped (Some (Inr x)) = None"
  by (simp_all add: stopped_def)

lemma stopped_no_result [simp]: "stopped r \<noteq> Some (Inr x)"
  by (auto simp: stopped_def split: option.splits sum.splits)

text \<open>
  The owner of an input sends its masked value to every other party. \<open>inputs.at\<close> throws at the owner
  of an input wire without a value; the others then wait for the message, as they do for an input
  of the dealer, who sends none. \<open>input_msg\<close> is what the owner computes before it sends.
\<close>

definition input_msg ::
  "('f::comm_ring_1, 'b) preproc_gate option list \<Rightarrow> (wire_t, 'f) umap \<Rightarrow> wire_t \<Rightarrow> exn + 'f" where
  "input_msg G inputs w =
     (case umap_at inputs w of Inl e \<Rightarrow> Inl e | Inr x \<Rightarrow> Inr (mask_value (the (G ! w)) + x))"

definition set_input ::
  "(nat \<Rightarrow> ('f::comm_ring_1, 'b) preproc_gate option list) \<Rightarrow> (nat \<Rightarrow> (wire_t, 'f) umap) \<Rightarrow> nat \<Rightarrow> 'f gate \<Rightarrow>
   'f online \<Rightarrow> 'f online outcome" where
  "set_input G inputs me g st =
     (if gtype g = kInp then
        let pid = inp_pid (the (G me ! gout g))
        in if me \<noteq> 0 then
             if pid = 0 then None
             else case input_msg (G pid) (inputs pid) (gout g) of
               Inl e \<Rightarrow> if pid = me then Some (Inl e) else None
             | Inr q \<Rightarrow> Some (Inr (set_wire (gout g) q (set_qval (gout g) q st)))
           else Some (Inr st)
      else Some (Inr st))"

definition setInputs ::
  "(nat \<Rightarrow> ('f::comm_ring_1, 'b) preproc_gate option list) \<Rightarrow> (nat \<Rightarrow> (wire_t, 'f) umap) \<Rightarrow> 'f LevelOrderedCircuit \<Rightarrow> nat \<Rightarrow>
   'f online \<Rightarrow> 'f online outcome" where
  "setInputs G inputs circ me st = foldO (set_input G inputs me) (gates_by_level circ ! 0) st"

text \<open>\<open>setRandomInputs\<close>, for benchmarks: the parties draw the masked inputs from their common generator.\<close>

definition set_random_input ::
  "('g \<Rightarrow> 'r::comm_ring_1 \<times> 'g) \<Rightarrow> 'r gate \<Rightarrow> 'r online \<times> 'g RandGenPool \<Rightarrow> 'r online \<times> 'g RandGenPool" where
  "set_random_input smp g = (\<lambda>(st, rg).
     if gtype g = kInp then let (x, rg) = draw_all smp rg in (set_wire (gout g) x st, rg) else (st, rg))"

definition setRandomInputs ::
  "('g \<Rightarrow> 'r::comm_ring_1 \<times> 'g) \<Rightarrow> 'r LevelOrderedCircuit \<Rightarrow> 'r online \<times> 'g RandGenPool \<Rightarrow> 'r online \<times> 'g RandGenPool" where
  "setRandomInputs smp circ = fold (set_random_input smp) (gates_by_level circ ! 0)"

definition same_inputs :: "'r online \<times> 'g RandGenPool \<Rightarrow> 'r online \<times> 'g RandGenPool \<Rightarrow> bool" where
  "same_inputs s s' \<longleftrightarrow> wires (fst s) = wires (fst s') \<and> k_all (snd s) = k_all (snd s')"

lemma setRandomInputs_common:
  assumes "same_inputs s s'"
  shows "same_inputs (setRandomInputs smp circ s) (setRandomInputs smp circ s')"
proof -
  have "same_inputs (set_random_input smp g s) (set_random_input smp g s')" if "same_inputs s s'" for g s s'
    using that by (simp add: same_inputs_def set_random_input_def draw_all_def split_beta Let_def)
  then have "same_inputs (fold (set_random_input smp) gs s) (fold (set_random_input smp) gs s')" for gs
    using assms by (induction gs arbitrary: s s') simp_all
  then show ?thesis by (simp add: setRandomInputs_def)
qed

subsection \<open>A level\<close>

definition send_gate ::
  "nat \<Rightarrow> ('f::comm_ring_1, 'b) preproc_gate option list \<Rightarrow> 'f gate \<Rightarrow> 'f online \<times> (GateType \<Rightarrow> 'f list) \<Rightarrow>
   'f online \<times> (GateType \<Rightarrow> 'f list)" where
  "send_gate me G g = (\<lambda>(st, nonTP).
     if gtype g \<in> set mult_types then
       let st = (if gtype g \<noteq> kDotprod then set_qval (gout g) 0 st else st)
       in if me \<noteq> 0 then
            let q = q_share me G (wires st) g
            in (set_qsh (gout g) q st, push (gtype g) (valueAt q) nonTP)
          else (st, nonTP)
     else (st, nonTP))"

definition PartySend ::
  "nat \<Rightarrow> ('f::comm_ring_1, 'b) preproc_gate option list \<Rightarrow> 'f gate list \<Rightarrow> 'f online \<Rightarrow>
   'f online \<times> (GateType \<Rightarrow> 'f list)" where
  "PartySend me G gs st = fold (send_gate me G) gs (st, \<lambda>_. [])"

abbreviation field_types :: "GateType list" where
  "field_types \<equiv> mult_types @ [kEqz, kLtz]"

definition recv_gate ::
  "(GateType \<Rightarrow> 'f::comm_ring_1 list) \<Rightarrow> (GateType \<Rightarrow> 'f AuthAddShare list) \<Rightarrow> (GateType \<Rightarrow> 'f list) \<Rightarrow> 'f gate \<Rightarrow>
   'f online \<times> (GateType \<Rightarrow> nat) \<Rightarrow> 'f online \<times> (GateType \<Rightarrow> nat)" where
  "recv_gate all_vals q_shares masked_b = indexed (set field_types) gtype (\<lambda>g i st.
     let t = gtype g; q = all_vals t ! i
     in if t \<in> set mult_types then set_wire (gout g) q (set_qval (gout g) q st)
        else if t = kEqz \<or> t = kLtz then
          set_qsh (gout g) (q_shares t ! i) (set_wire (gout g) (masked_b t ! i - 2 * q) (set_qval (gout g) q st))
        else lin_gate g st)"

definition PartyRecv ::
  "(GateType \<Rightarrow> 'f::comm_ring_1 list) \<Rightarrow> (GateType \<Rightarrow> 'f AuthAddShare list) \<Rightarrow> (GateType \<Rightarrow> 'f list) \<Rightarrow> 'f gate list \<Rightarrow>
   'f online \<Rightarrow> 'f online" where
  "PartyRecv all_vals q_shares masked_b gs st = fst (fold (recv_gate all_vals q_shares masked_b) gs (st, \<lambda>_. 0))"

text \<open>
  The equality and comparison gates of a level, evaluated together before the multiplications; the
  vectors are empty if there are none.
\<close>

definition compare_gates ::
  "('g, 'f::comm_ring_1) online_env \<Rightarrow> (nat \<Rightarrow> 'f field_gate option list) \<Rightarrow> 'f gate list \<Rightarrow> (nat \<Rightarrow> 'f online) \<Rightarrow> nat \<Rightarrow>
   GateType \<Rightarrow> 'f list \<times> 'f AuthAddShare list \<times> 'f list" where
  "compare_gates E G gs S me t =
     (if t = kEqz \<and> 0 < count_type gs kEqz then eqzEvaluate E G S (filter (\<lambda>g. gtype g = kEqz) gs) me
      else if t = kLtz \<and> 0 < count_type gs kLtz then ltzEvaluate E G S (filter (\<lambda>g. gtype g = kLtz) gs) me
      else ([], [], []))"

definition online_comm_to_TP ::
  "('g, 'f::comm_ring_1) online_env \<Rightarrow> (nat \<Rightarrow> 'f field_gate option list) \<Rightarrow> 'f gate list \<Rightarrow> (nat \<Rightarrow> 'f online) \<Rightarrow> nat \<Rightarrow> 'f list" where
  "online_comm_to_TP E G gs S me =
     (let cmp = compare_gates E G gs S me;
          (_, nonTP) = PartySend me (G me) gs (S me)
      in online_comm (count_type gs) field_types (nonTP(kEqz := fst (cmp kEqz), kLtz := fst (cmp kLtz))))"

definition evaluateGatesAtDepth ::
  "('g, 'f::comm_ring_1) online_env \<Rightarrow> (nat \<Rightarrow> 'f field_gate option list) \<Rightarrow> 'f gate list \<Rightarrow> (nat \<Rightarrow> 'f online) \<Rightarrow> nat \<Rightarrow>
   'f online" where
  "evaluateGatesAtDepth E G gs S me =
     (if me \<noteq> 0 then
        let num = count_type gs; cmp = compare_gates E G gs S me;
            (st, _) = PartySend me (G me) gs (S me);
            agg_values = exchange (\<lambda>xs. xs) raw_dec (total_comm num field_types) (on_nP E) (online_comm_to_TP E G gs S) me
        in PartyRecv (all_values num field_types agg_values) (\<lambda>t. fst (snd (cmp t))) (\<lambda>t. snd (snd (cmp t))) gs st
      else S me)"

subsection \<open>The MAC check\<close>

text \<open>
  The cases of the switch have no \<open>break\<close>: a multiplication gate falls through to the cases of the
  dot product and of the other multiplications, and is weighed with a new random number each time.
\<close>

definition mac_terms :: "GateType \<Rightarrow> nat" where
  "mac_terms t = (if t = kMul then 4 else if t = kDotprod then 3 else if t = kMul3 then 2 else if t = kMul4 then 1 else 0)"

definition mac_term :: "('g \<Rightarrow> 'f::comm_ring_1 \<times> 'g) \<Rightarrow> 'f \<Rightarrow> 'f online \<Rightarrow> 'f gate \<Rightarrow> 'g \<times> 'f \<Rightarrow> 'g \<times> 'f" where
  "mac_term smp key st g = (\<lambda>(prg, omega). let (rho, prg) = smp prg
     in (prg, omega + rho * (q_val st ! gout g * key - tagAt (q_sh st ! gout g))))"

definition mac_gate :: "('g \<Rightarrow> 'f::comm_ring_1 \<times> 'g) \<Rightarrow> 'f \<Rightarrow> 'f online \<Rightarrow> 'f gate \<Rightarrow> 'g \<times> 'f \<Rightarrow> 'g \<times> 'f" where
  "mac_gate smp key st g = mac_term smp key st g ^^ mac_terms (gtype g)"

definition mac_omega :: "('g \<Rightarrow> 'f::comm_ring_1 \<times> 'g) \<Rightarrow> ('f, 'b) preproc_gate option list \<Rightarrow> 'f LevelOrderedCircuit \<Rightarrow> 'g \<Rightarrow>
   'f online \<Rightarrow> 'f" where
  "mac_omega smp G circ prg st =
     (let key = key_sh (sh_at G 0) in snd (fold (fold (mac_gate smp key st)) (gates_by_level circ) (prg, 0)))"

text \<open>All parties seed \<open>prg\<close> with the key the dealer sends; the dealer adds the results up.\<close>

definition MACVerification ::
  "('g, 'f::comm_ring_1) online_env \<Rightarrow> (nat \<Rightarrow> 'f field_gate option list) \<Rightarrow> 'f LevelOrderedCircuit \<Rightarrow> 'g \<Rightarrow> (nat \<Rightarrow> 'f online) \<Rightarrow> bool" where
  "MACVerification E G circ prg S =
     (let res = fold (\<lambda>i res. res + mac_omega (on_zzp E) (G i) circ prg (S i)) (parties (on_nP E)) 0 in res = 0)"

subsection \<open>The outputs, and the whole run\<close>

definition output_masks :: "'f::comm_ring_1 LevelOrderedCircuit \<Rightarrow> ('f, 'b) preproc_gate option list \<Rightarrow> 'f list" where
  "output_masks circ G0 = map (\<lambda>w. secret (snd (mask_at G0 w))) (outputs circ)"

definition getOutputs :: "(nat \<Rightarrow> ('f::comm_ring_1, 'b) preproc_gate option list) \<Rightarrow> 'f LevelOrderedCircuit \<Rightarrow> nat \<Rightarrow> 'f online \<Rightarrow> 'f list" where
  "getOutputs G circ me st =
     (if me = 0 then replicate (length (outputs circ)) 0
      else let masks = output_masks circ (G 0)
           in map (\<lambda>i. wires st ! (outputs circ ! i) - masks ! i) [0..<length (outputs circ)])"

text \<open>
  A party that does not return from \<open>setInputs\<close> sends nothing afterwards, and all others need its
  messages, the dealer at the latest in the MAC check, which collects a value of every party.
\<close>

definition online_start :: "(nat \<Rightarrow> ('f::comm_ring_1, 'b) preproc_gate option list) \<Rightarrow> (nat \<Rightarrow> (wire_t, 'f) umap) \<Rightarrow>
    'f LevelOrderedCircuit \<Rightarrow> nat \<Rightarrow> 'f online outcome" where
  "online_start G inputs circ me = setInputs G inputs circ me (online_new (num_gates circ))"

definition evaluateCircuit ::
  "('g, 'f::comm_ring_1) online_env \<Rightarrow> (nat \<Rightarrow> 'f field_gate option list) \<Rightarrow> 'f LevelOrderedCircuit \<Rightarrow> 'g \<Rightarrow>
   (nat \<Rightarrow> (wire_t, 'f) umap) \<Rightarrow> nat \<Rightarrow> 'f list outcome" where
  "evaluateCircuit E G circ prg inputs me =
     (let S = online_start G inputs circ
      in if \<forall>p\<in>{0..on_nP E}. returns (S p) then
           let T = fold (evaluateGatesAtDepth E G) (gates_by_level circ) (\<lambda>p. result (S p))
           in Some (Inr (if MACVerification E G circ prg T then getOutputs G circ me (T me)
                else replicate (length (outputs circ)) 0))
         else stopped (S me))"

text \<open>
  The opening of a share to the dealer. The dealer's vector \<open>share_val\<close> has no elements, so that
  \<open>share_val[i]\<close> is out of bounds for every \<open>i\<close>; the model returns no value then.
\<close>

definition reconstruct :: "nat \<Rightarrow> nat \<Rightarrow> (nat \<Rightarrow> 'f::comm_ring_1 AuthAddShare) \<Rightarrow> 'f option" where
  "reconstruct nP me shares =
     (if me \<noteq> 0 then Some 0
      else foldM (\<lambda>i r. let share_val = []
        in if i < length (share_val :: 'f list) then Some (r + valueAt (shares i)) else None) (parties nP) 0)"

subsection \<open>The two halves of a level\<close>

lemma PartySend_eq:
  assumes "me \<noteq> 0" "distinct (map gout gs)" "\<forall>g\<in>set gs. gout g < length (q_sh st)"
  shows "wires (fst (PartySend me G gs st)) = wires st" "length (q_val (fst (PartySend me G gs st))) = length (q_val st)"
    "length (q_sh (fst (PartySend me G gs st))) = length (q_sh st)"
    "t \<in> set mult_types \<Longrightarrow> snd (PartySend me G gs st) t = map (\<lambda>g. valueAt (q_share me G (wires st) g)) (of_type gtype gs t)"
    "g \<in> set gs \<Longrightarrow> gtype g \<in> set mult_types \<Longrightarrow> q_sh (fst (PartySend me G gs st)) ! gout g = q_share me G (wires st) g"
    "w \<notin> gout ` set gs \<Longrightarrow> q_sh (fst (PartySend me G gs st)) ! w = q_sh st ! w \<and> q_val (fst (PartySend me G gs st)) ! w = q_val st ! w"
proof -
  let ?P = "\<lambda>gs. PartySend me G gs st"
  have "wires (fst (?P gs)) = wires st \<and> length (q_val (fst (?P gs))) = length (q_val st) \<and>
    length (q_sh (fst (?P gs))) = length (q_sh st) \<and>
    (\<forall>t\<in>set mult_types. snd (?P gs) t = map (\<lambda>g. valueAt (q_share me G (wires st) g)) (of_type gtype gs t)) \<and>
    (\<forall>g\<in>set gs. gtype g \<in> set mult_types \<longrightarrow> q_sh (fst (?P gs)) ! gout g = q_share me G (wires st) g) \<and>
    (\<forall>w. w \<notin> gout ` set gs \<longrightarrow> q_sh (fst (?P gs)) ! w = q_sh st ! w \<and> q_val (fst (?P gs)) ! w = q_val st ! w)"
    using assms(2,3)
  proof (induction gs rule: rev_induct)
    case Nil
    then show ?case by (simp add: PartySend_def)
  next
    case (snoc h gs)
    obtain st1 f1 where P: "?P gs = (st1, f1)" by (cases "?P gs")
    have IH: "wires st1 = wires st" "length (q_val st1) = length (q_val st)" "length (q_sh st1) = length (q_sh st)"
      "\<And>t. t \<in> set mult_types \<Longrightarrow> f1 t = map (\<lambda>g. valueAt (q_share me G (wires st) g)) (of_type gtype gs t)"
      "\<And>g. g \<in> set gs \<Longrightarrow> gtype g \<in> set mult_types \<Longrightarrow> q_sh st1 ! gout g = q_share me G (wires st) g"
      "\<And>w. w \<notin> gout ` set gs \<Longrightarrow> q_sh st1 ! w = q_sh st ! w \<and> q_val st1 ! w = q_val st ! w"
      using snoc.IH snoc.prems by (simp_all add: P del: set_simps)
    have step: "?P (gs @ [h]) = send_gate me G h (st1, f1)" using P by (simp add: PartySend_def)
    show ?case
    proof (cases "gtype h \<in> set mult_types")
      case False
      then have "?P (gs @ [h]) = (st1, f1)" unfolding step by (simp add: send_gate_def)
      moreover have "g = h \<or> g \<in> set gs" if "g \<in> set (gs @ [h])" for g using that by auto
      moreover have "w \<notin> gout ` set gs" if "w \<notin> gout ` set (gs @ [h])" for w using that by auto
      moreover have "of_type gtype (gs @ [h]) t = of_type gtype gs t" if "t \<in> set mult_types" for t using that False by auto
      ultimately show ?thesis using IH False by (metis fst_conv snd_conv)
    next
      case True
      have "gout h \<notin> gout ` set gs" using snoc.prems(1) by simp
      then have new: "gout g \<noteq> gout h" if "g \<in> set gs" for g using that by (metis imageI)
      let ?q = "q_share me G (wires st) h"
      let ?st = "set_qsh (gout h) ?q (if gtype h \<noteq> kDotprod then set_qval (gout h) 0 st1 else st1)"
      have eq: "?P (gs @ [h]) = (?st, push (gtype h) (valueAt ?q) f1)"
        unfolding step using True assms(1) IH(1) by (simp add: send_gate_def Let_def)
      have sh: "q_sh ?st = (q_sh st1)[gout h := ?q]" by simp
      have vl: "q_val ?st ! w = q_val st1 ! w" if "w \<noteq> gout h" for w using that by simp
      have "gout h < length (q_sh st1)" using snoc.prems(2) IH(3) by simp
      then have here: "(q_sh st1)[gout h := ?q] ! gout h = ?q" by simp
      have "q_sh ?st ! gout g = q_share me G (wires st) g" if "g \<in> set (gs @ [h])" "gtype g \<in> set mult_types" for g
      proof (cases "g = h")
        case False
        then have "g \<in> set gs" using that(1) by simp
        then show ?thesis unfolding sh using new IH(5) that(2) by (metis nth_list_update_neq)
      qed (simp only: sh here)
      moreover have "q_sh ?st ! w = q_sh st ! w \<and> q_val ?st ! w = q_val st ! w" if "w \<notin> gout ` set (gs @ [h])" for w
        unfolding sh using that IH(6) vl by auto
      moreover have "push (gtype h) (valueAt ?q) f1 t = map (\<lambda>g. valueAt (q_share me G (wires st) g)) (of_type gtype (gs @ [h]) t)"
        if "t \<in> set mult_types" for t using IH(4) [OF that] by (cases "t = gtype h") (simp_all add: push_def)
      ultimately show ?thesis unfolding eq fst_conv snd_conv using IH(1-3) by simp
    qed
  qed
  then show "wires (fst (PartySend me G gs st)) = wires st" "length (q_val (fst (PartySend me G gs st))) = length (q_val st)"
    "length (q_sh (fst (PartySend me G gs st))) = length (q_sh st)"
    "t \<in> set mult_types \<Longrightarrow> snd (PartySend me G gs st) t = map (\<lambda>g. valueAt (q_share me G (wires st) g)) (of_type gtype gs t)"
    "g \<in> set gs \<Longrightarrow> gtype g \<in> set mult_types \<Longrightarrow> q_sh (fst (PartySend me G gs st)) ! gout g = q_share me G (wires st) g"
    "w \<notin> gout ` set gs \<Longrightarrow> q_sh (fst (PartySend me G gs st)) ! w = q_sh st ! w \<and> q_val (fst (PartySend me G gs st)) ! w = q_val st ! w"
    by blast+
qed

text \<open>The receiving half, with the value \<open>x g\<close>, share \<open>y g\<close> and masked bit \<open>m g\<close> of each gate.\<close>

definition recv_val :: "('f::comm_ring_1 gate \<Rightarrow> 'f) \<Rightarrow> ('f gate \<Rightarrow> 'f AuthAddShare) \<Rightarrow> ('f gate \<Rightarrow> 'f) \<Rightarrow> 'f gate \<Rightarrow> 'f online \<Rightarrow> 'f online" where
  "recv_val x y m g st =
     (if gtype g \<in> set mult_types then set_wire (gout g) (x g) (set_qval (gout g) (x g) st)
      else if gtype g = kEqz \<or> gtype g = kLtz then
        set_qsh (gout g) (y g) (set_wire (gout g) (m g - 2 * x g) (set_qval (gout g) (x g) st))
      else lin_gate g st)"

lemma PartyRecv_eq:
  fixes gs :: "'f::comm_ring_1 gate list"
  assumes "\<And>t. t \<in> set field_types \<Longrightarrow> all_vals t = map x (of_type gtype gs t)"
    "\<And>t. t = kEqz \<or> t = kLtz \<Longrightarrow> q_shares t = map y (of_type gtype gs t)"
    "\<And>t. t = kEqz \<or> t = kLtz \<Longrightarrow> masked_b t = map m (of_type gtype gs t)"
  shows "PartyRecv all_vals q_shares masked_b gs st = fold (recv_val x y m) gs st"
proof -
  let ?f = "\<lambda>g i st. let t = gtype g; q = all_vals t ! i
     in if t \<in> set mult_types then set_wire (gout g) q (set_qval (gout g) q st)
        else if t = kEqz \<or> t = kLtz then
          set_qsh (gout g) (q_shares t ! i) (set_wire (gout g) (masked_b t ! i - 2 * q) (set_qval (gout g) q st))
        else lin_gate g st"
  have "fold (indexed (set field_types) gtype ?f) gs (st, \<lambda>_. 0) =
      (fold (recv_val x y m) gs st, \<lambda>t. if t \<in> set field_types then length (of_type gtype gs t) else 0)"
  proof (rule fold_indexed)
    fix pre post and g :: "'f gate" and st :: "'f online" assume gs: "gs = pre @ g # post" and t: "gtype g \<in> set field_types"
    note N = of_type_nth [OF gs, of _ gtype]
    have "all_vals (gtype g) ! length (of_type gtype pre (gtype g)) = x g" using N [of x] assms(1) [OF t] by simp
    moreover have "gtype g = kEqz \<or> gtype g = kLtz \<Longrightarrow> q_shares (gtype g) ! length (of_type gtype pre (gtype g)) = y g"
      using N [of y] assms(2) by metis
    moreover have "gtype g = kEqz \<or> gtype g = kLtz \<Longrightarrow> masked_b (gtype g) ! length (of_type gtype pre (gtype g)) = m g"
      using N [of m] assms(3) by metis
    ultimately show "?f g (length (of_type gtype pre (gtype g))) st = recv_val x y m g st"
      using t by (simp add: recv_val_def Let_def del: set_simps)
  next
    fix g :: "'f gate" and i and st :: "'f online" assume "gtype g \<notin> set field_types"
    then show "?f g i st = recv_val x y m g st" by (simp add: recv_val_def Let_def)
  qed
  then show ?thesis by (simp add: PartyRecv_def recv_gate_def)
qed

lemma lin_gate_frame:
  "w \<noteq> gout g \<Longrightarrow> q_val (lin_gate g st) ! w = q_val st ! w" "q_sh (lin_gate g st) = q_sh st"
  "length (q_val (lin_gate g st)) = length (q_val st)"
  by (cases g; simp)+

lemma recv_val_frame:
  "w \<noteq> gout g \<Longrightarrow> q_val (recv_val x y m g st) ! w = q_val st ! w \<and> q_sh (recv_val x y m g st) ! w = q_sh st ! w"
  "length (q_val (recv_val x y m g st)) = length (q_val st)" "length (q_sh (recv_val x y m g st)) = length (q_sh st)"
  "gtype g \<in> set mult_types \<Longrightarrow> q_sh (recv_val x y m g st) = q_sh st"
  by (simp_all add: recv_val_def lin_gate_frame)

lemma recv_vals:
  assumes "distinct (map gout gs)" "\<forall>g\<in>set gs. gout g < length (q_val st)"
  shows "length (q_val (fold (recv_val x y m) gs st)) = length (q_val st)"
    "length (q_sh (fold (recv_val x y m) gs st)) = length (q_sh st)"
    "w \<notin> gout ` set gs \<Longrightarrow> q_val (fold (recv_val x y m) gs st) ! w = q_val st ! w \<and> q_sh (fold (recv_val x y m) gs st) ! w = q_sh st ! w"
    "g \<in> set gs \<Longrightarrow> gtype g \<in> set mult_types \<Longrightarrow> q_val (fold (recv_val x y m) gs st) ! gout g = x g \<and>
      q_sh (fold (recv_val x y m) gs st) ! gout g = q_sh st ! gout g"
proof -
  have "length (q_val (fold (recv_val x y m) gs st)) = length (q_val st) \<and>
    length (q_sh (fold (recv_val x y m) gs st)) = length (q_sh st) \<and>
    (\<forall>w. w \<notin> gout ` set gs \<longrightarrow> q_val (fold (recv_val x y m) gs st) ! w = q_val st ! w \<and> q_sh (fold (recv_val x y m) gs st) ! w = q_sh st ! w) \<and>
    (\<forall>g\<in>set gs. gtype g \<in> set mult_types \<longrightarrow> q_val (fold (recv_val x y m) gs st) ! gout g = x g \<and>
      q_sh (fold (recv_val x y m) gs st) ! gout g = q_sh st ! gout g)"
    using assms
  proof (induction gs rule: rev_induct)
    case (snoc h gs)
    let ?S = "fold (recv_val x y m) gs st"
    have IH: "length (q_val ?S) = length (q_val st)" "length (q_sh ?S) = length (q_sh st)"
      "\<And>w. w \<notin> gout ` set gs \<Longrightarrow> q_val ?S ! w = q_val st ! w \<and> q_sh ?S ! w = q_sh st ! w"
      "\<And>g. g \<in> set gs \<Longrightarrow> gtype g \<in> set mult_types \<Longrightarrow> q_val ?S ! gout g = x g \<and> q_sh ?S ! gout g = q_sh st ! gout g"
      using snoc.IH snoc.prems by (simp_all del: set_simps)
    have h: "gout h \<notin> gout ` set gs" "gout h < length (q_val st)" using snoc.prems by auto
    have old: "q_val (recv_val x y m h ?S) ! gout g = x g \<and> q_sh (recv_val x y m h ?S) ! gout g = q_sh st ! gout g"
      if "g \<in> set gs" "gtype g \<in> set mult_types" for g
    proof -
      have "gout g \<noteq> gout h" using h(1) that(1) by (metis imageI)
      then show ?thesis using recv_val_frame(1) [of "gout g" h x y m ?S] IH(4) [OF that] by simp
    qed
    have here: "q_val (recv_val x y m h ?S) ! gout h = x h \<and> q_sh (recv_val x y m h ?S) ! gout h = q_sh st ! gout h"
      if "gtype h \<in> set mult_types"
      using recv_val_frame(4) [OF that, of x y m ?S] IH(1,3) h that by (simp add: recv_val_def)
    show ?case
      using IH(1-3) recv_val_frame(1) [of _ h x y m ?S] old here by (auto simp: recv_val_frame(2,3))
  qed simp
  then show "length (q_val (fold (recv_val x y m) gs st)) = length (q_val st)"
    "length (q_sh (fold (recv_val x y m) gs st)) = length (q_sh st)"
    "w \<notin> gout ` set gs \<Longrightarrow> q_val (fold (recv_val x y m) gs st) ! w = q_val st ! w \<and> q_sh (fold (recv_val x y m) gs st) ! w = q_sh st ! w"
    "g \<in> set gs \<Longrightarrow> gtype g \<in> set mult_types \<Longrightarrow> q_val (fold (recv_val x y m) gs st) ! gout g = x g \<and>
      q_sh (fold (recv_val x y m) gs st) ! gout g = q_sh st ! gout g"
    by blast+
qed

subsection \<open>The invariant\<close>

text \<open>
  The value of a gate in the protocol: that of the plaintext evaluation but for the comparison
  gates, which compute the bits of \<open>Online_Nested\<close>. \<open>eqz_out b \<beta>\<close> is the value \<open>eqzEvaluate\<close> gives for
  the bit \<open>b\<close> when its mask bit is \<open>\<beta>\<close>; it is \<open>b\<close> only if one of them makes it so.
\<close>

definition eqz_out :: "bool \<Rightarrow> bool \<Rightarrow> 'f::comm_ring_1" where
  "eqz_out b \<beta> = of_bool (b \<noteq> \<beta>) + of_bool \<beta> + 2 * of_bool \<beta> * of_bool (b \<noteq> \<beta>)"

lemma eqz_out_cases: "eqz_out b \<beta> = (if b then 1 else if \<beta> then 4 else 0)"
  by (simp add: eqz_out_def)

definition online_val ::
  "('g, 'f::comm_ring_1) online_env \<Rightarrow> 'f field_gate option list \<Rightarrow> (wire_t \<Rightarrow> 'f) \<Rightarrow> 'f ringops \<Rightarrow> (wire_t \<Rightarrow> 'f) \<Rightarrow>
   'f list \<Rightarrow> 'f gate \<Rightarrow> 'f" where
  "online_val E G0 \<delta> R inp v g =
     (let r = padded_val (the (G0 ! gout g)) + \<delta> (gins g ! 0)
      in if gtype g = kEqz then eqz_out (eqz_bit E r (v ! (gins g ! 0))) (eqz_mask_bit G0 (gout g))
         else if gtype g = kLtz then of_bool (ltz_bit E r (v ! (gins g ! 0)))
         else gate_val R inp v g)"

definition online_inv ::
  "('g, 'f::comm_ring_1) online_env \<Rightarrow> (nat \<Rightarrow> 'f) \<Rightarrow> 'f list \<Rightarrow> (wire_t \<Rightarrow> 'f) \<Rightarrow> wire_t set \<Rightarrow> wire_t set \<Rightarrow> (nat \<Rightarrow> 'f online) \<Rightarrow> bool" where
  "online_inv E kf v \<delta> M W S \<longleftrightarrow> 0 < on_nP E \<and> (\<exists>s. \<forall>p\<in>{1..on_nP E}. k_all_minus_0 (on_rgen E p) = s) \<and>
     (\<forall>p\<in>{1..on_nP E}. masked v \<delta> W (wires (S p)) \<and> length (q_val (S p)) = length v \<and> length (q_sh (S p)) = length v) \<and>
     (\<forall>w\<in>W \<inter> M. (\<forall>p\<in>{1..on_nP E}. q_val (S p) ! w = v ! w + \<delta> w) \<and>
        shared (on_nP E) kf (\<lambda>p. q_sh (S p) ! w) (v ! w + \<delta> w))"

definition online_gate_fine ::
  "('g, 'f::comm_ring_1) online_env \<Rightarrow> (nat \<Rightarrow> 'f) \<Rightarrow> (nat \<Rightarrow> BoolRing) \<Rightarrow> 'f ringops \<Rightarrow> (wire_t \<Rightarrow> 'f) \<Rightarrow> 'f list \<Rightarrow>
   (wire_t \<Rightarrow> 'f) \<Rightarrow> (nat \<Rightarrow> 'f field_gate option list) \<Rightarrow> wire_t set \<Rightarrow> wire_t set \<Rightarrow> 'f gate \<Rightarrow> bool" where
  "online_gate_fine E kf kb R inp v \<delta> G M I g \<longleftrightarrow>
     (gout g \<in> M \<longleftrightarrow> gtype g \<in> set mult_types) \<and> gout g < length v \<and>
     (gtype g = kInp \<and> gout g \<in> I \<or>
      field_gate_kind g \<and> (\<forall>w\<in>insert (gout g) (set (gins g)). shared (on_nP E) kf (\<lambda>p. sh_at (G p) w) (\<delta> w)) \<and>
      field_ok (on_nP E) kf kb (on_conv E) \<delta> g (\<lambda>p. the (G p ! gout g)) \<and>
      v ! gout g = online_val E (G 0) \<delta> R inp v g)"

text \<open>The vectors of the comparison gates of a level, as functions of the gate.\<close>

lemma vector_as_map: "distinct xs \<Longrightarrow> length vs = length xs \<Longrightarrow> map (\<lambda>x. the (map_of (zip xs vs) x)) xs = vs"
  by (rule nth_equalityI) (simp_all add: map_of_zip_nth)

definition cmp_opens ::
  "('g, 'f::comm_ring_1) online_env \<Rightarrow> (nat \<Rightarrow> 'f) \<Rightarrow> 'f list \<Rightarrow> (wire_t \<Rightarrow> 'f) \<Rightarrow> (nat \<Rightarrow> 'f field_gate option list) \<Rightarrow>
   (nat \<Rightarrow> 'f online) \<Rightarrow> 'f gate list \<Rightarrow> GateType \<Rightarrow> (nat \<Rightarrow> 'f gate \<Rightarrow> 'f AuthAddShare) \<Rightarrow> (nat \<Rightarrow> 'f gate \<Rightarrow> 'f) \<Rightarrow> bool" where
  "cmp_opens E kf v \<delta> G S gs t y m \<longleftrightarrow>
     (\<forall>p. 1 \<le> p \<longrightarrow> p \<le> on_nP E \<longrightarrow> compare_gates E G gs S p t =
       (map (\<lambda>g. valueAt (y p g)) (of_type gtype gs t), map (y p) (of_type gtype gs t), map (m p) (of_type gtype gs t))) \<and>
     (\<forall>g\<in>set gs. gtype g = t \<longrightarrow> bit_opens (on_nP E) kf (\<delta> (gout g)) (if t = kEqz then - 1 else 1)
       (if t = kEqz then eqz_bit E (padded_val (the (G 0 ! gout g)) + \<delta> (gins g ! 0)) (v ! (gins g ! 0))
        else ltz_bit E (padded_val (the (G 0 ! gout g)) + \<delta> (gins g ! 0)) (v ! (gins g ! 0)))
       (if t = kEqz then eqz_mask_bit (G 0) (gout g) else ltz_mask_bit (G 0) (gout g))
       (\<lambda>p. y p g) (\<lambda>p. m p g))"

lemma compare_gates_opens:
  fixes E :: "('g, 'f::comm_ring_1) online_env"
  assumes t: "t = kEqz \<or> t = kLtz" and n: "0 < on_nP E"
    and rg: "\<And>p. 1 \<le> p \<Longrightarrow> p \<le> on_nP E \<Longrightarrow> k_all_minus_0 (on_rgen E p) = s"
    and dis: "distinct gs"
    and ok: "\<And>g. g \<in> set gs \<Longrightarrow> gtype g = t \<Longrightarrow> gate_typed g \<and> field_ok (on_nP E) kf kb (on_conv E) \<delta> g (\<lambda>p. the (G p ! gout g))"
    and w: "\<And>p g. 1 \<le> p \<Longrightarrow> p \<le> on_nP E \<Longrightarrow> g \<in> set gs \<Longrightarrow> gtype g = t \<Longrightarrow>
      wires (S p) ! (gins g ! 0) = v ! (gins g ! 0) + \<delta> (gins g ! 0)"
  shows "\<exists>y m. cmp_opens E kf v \<delta> G S gs t y m"
proof -
  let ?gs = "of_type gtype gs t"
  let ?V = "\<lambda>p. if t = kEqz then eqzEvaluate E G S ?gs p else ltzEvaluate E G S ?gs p"
  define y where "y p g = the (map_of (zip ?gs (fst (snd (?V p)))) g)" for p g
  define m where "m p g = the (map_of (zip ?gs (snd (snd (?V p)))) g)" for p g
  have dis: "distinct ?gs" using dis by (simp add: of_type_def)
  have len: "length (fst (snd (?V p))) = length ?gs" "length (snd (snd (?V p))) = length ?gs" for p
    by (simp_all add: eqzEvaluate_def ltzEvaluate_def Let_def)
  have Y: "map (y p) ?gs = fst (snd (?V p))" "map (m p) ?gs = snd (snd (?V p))" for p
    unfolding y_def m_def by (rule vector_as_map [OF dis len(1)], rule vector_as_map [OF dis len(2)])
  have V1: "fst (?V p) = map valueAt (fst (snd (?V p)))" if "1 \<le> p" for p
    using that by (simp add: eqzEvaluate_def ltzEvaluate_def Let_def)
  have mem: "g \<in> set gs \<and> gtype g = t" if "g \<in> set ?gs" for g using that by (simp add: of_type_def)
  have "cmp_opens E kf v \<delta> G S gs t y m"
    unfolding cmp_opens_def
  proof (intro conjI allI ballI impI)
    show "compare_gates E G gs S p t = (map (\<lambda>g. valueAt (y p g)) ?gs, map (y p) ?gs, map (m p) ?gs)"
      if p: "1 \<le> p" "p \<le> on_nP E" for p
    proof (cases "?gs = []")
      case True
      then show ?thesis using t by (auto simp: compare_gates_def count_type_eq of_type_def)
    next
      case False
      have "map (\<lambda>g. valueAt (y p g)) ?gs = map valueAt (map (y p) ?gs)" by simp
      then have "(map (\<lambda>g. valueAt (y p g)) ?gs, map (y p) ?gs, map (m p) ?gs) = ?V p"
        using V1 [OF p(1)] by (intro prod_eqI) (simp_all only: Y fst_conv snd_conv)
      then show ?thesis using False t by (auto simp: compare_gates_def count_type_eq of_type_def)
    qed
    fix g assume g: "g \<in> set gs" "gtype g = t"
    then have "g \<in> set ?gs" by (simp add: of_type_def)
    then obtain i where i: "i < length ?gs" "?gs ! i = g" by (auto simp: in_set_conv_nth)
    have yi: "y p g = fst (snd (?V p)) ! i" "m p g = snd (snd (?V p)) ! i" for p
      using i arg_cong [OF Y(1) [of p], of "\<lambda>xs. xs ! i"] arg_cong [OF Y(2) [of p], of "\<lambda>xs. xs ! i"] by auto
    have shape: "\<exists>a out. h = FIn1Gate t a out" if "h \<in> set ?gs" for h
      using ok [of h] mem [OF that] t by (cases h) auto
    have oks: "t = kEqz \<Longrightarrow> eqz_ok (on_nP E) kf kb (on_conv E) (\<delta> (gins (?gs ! j) ! 0)) (\<delta> (gout (?gs ! j))) (\<lambda>p. the (G p ! gout (?gs ! j)))"
      "t \<noteq> kEqz \<Longrightarrow> ltz_ok (on_nP E) kf kb (on_conv E) (\<delta> (gins (?gs ! j) ! 0)) (\<delta> (gout (?gs ! j))) (\<lambda>p. the (G p ! gout (?gs ! j)))"
      if j: "j < length ?gs" for j
    proof -
      obtain a out where a: "?gs ! j = FIn1Gate t a out" using shape [OF nth_mem [OF j]] by blast
      have R: "gins (?gs ! j) ! 0 = a" "gout (?gs ! j) = out" by (simp_all add: a)
      have "field_ok (on_nP E) kf kb (on_conv E) \<delta> (FIn1Gate t a out) (\<lambda>p. the (G p ! out))"
        using ok [of "FIn1Gate t a out"] mem [OF nth_mem [OF j]] unfolding a by simp
      then show "t = kEqz \<Longrightarrow> eqz_ok (on_nP E) kf kb (on_conv E) (\<delta> (gins (?gs ! j) ! 0)) (\<delta> (gout (?gs ! j))) (\<lambda>p. the (G p ! gout (?gs ! j)))"
        "t \<noteq> kEqz \<Longrightarrow> ltz_ok (on_nP E) kf kb (on_conv E) (\<delta> (gins (?gs ! j) ! 0)) (\<delta> (gout (?gs ! j))) (\<lambda>p. the (G p ! gout (?gs ! j)))"
        unfolding R using t by auto
    qed
    have ws: "wires (S p) ! (gins (?gs ! j) ! 0) = v ! (gins (?gs ! j) ! 0) + \<delta> (gins (?gs ! j) ! 0)"
      if "1 \<le> p" "p \<le> on_nP E" "j < length ?gs" for p j
      using w [OF that(1,2)] mem [OF nth_mem [OF that(3)]] by blast
    show "bit_opens (on_nP E) kf (\<delta> (gout g)) (if t = kEqz then - 1 else 1)
       (if t = kEqz then eqz_bit E (padded_val (the (G 0 ! gout g)) + \<delta> (gins g ! 0)) (v ! (gins g ! 0))
        else ltz_bit E (padded_val (the (G 0 ! gout g)) + \<delta> (gins g ! 0)) (v ! (gins g ! 0)))
       (if t = kEqz then eqz_mask_bit (G 0) (gout g) else ltz_mask_bit (G 0) (gout g))
       (\<lambda>p. y p g) (\<lambda>p. m p g)"
    proof (cases "t = kEqz")
      case True
      note B = eqzEvaluate_opens [where x = "\<lambda>j. v ! (gins (?gs ! j) ! 0)" and gates = ?gs and S = S and G = G and \<delta> = \<delta>,
          OF n rg oks(1) [OF _ True] ws i(1)]
      show ?thesis unfolding yi if_P [OF True] by (rule B [unfolded i(2)])
    next
      case False
      note B = ltzEvaluate_opens [where x = "\<lambda>j. v ! (gins (?gs ! j) ! 0)" and gates = ?gs and S = S and G = G and \<delta> = \<delta>,
          OF n rg oks(2) [OF _ False] ws i(1)]
      show ?thesis unfolding yi if_not_P [OF False] by (rule B [unfolded i(2)])
    qed
  qed
  then show ?thesis by blast
qed

end
