(* ===== verification/Online_Correct.thy ===== *)
theory Online_Correct
  imports Online
begin

section \<open>The online phase computes the circuit\<close>

text \<open>
  The law of a level of \<open>OnlineEvaluator\<close>, which is the interpretation of \<open>level_run\<close>, the two ends
  of a run (\<open>setInputs\<close> establishes the invariant, \<open>getOutputs\<close> unmasks) and the completeness of the
  MAC check.
\<close>

subsection \<open>The receiving half\<close>

text \<open>If the opened values are right, the wires of the level end masked.\<close>

definition recv_fine ::
  "nat \<Rightarrow> (nat \<Rightarrow> 'f::comm_ring_1) \<Rightarrow> 'f ringops \<Rightarrow> (wire_t \<Rightarrow> 'f) \<Rightarrow> 'f list \<Rightarrow> (wire_t \<Rightarrow> 'f) \<Rightarrow> wire_t set \<Rightarrow>
   ('f gate \<Rightarrow> 'f) \<Rightarrow> ('f gate \<Rightarrow> 'f) \<Rightarrow> 'f gate \<Rightarrow> bool" where
  "recv_fine n kf R inp v \<delta> D x m g \<longleftrightarrow> gout g < length v \<and>
     (if gtype g \<in> set mult_types then x g = v ! gout g + \<delta> (gout g)
      else if gtype g = kEqz \<or> gtype g = kLtz then m g - 2 * x g = v ! gout g + \<delta> (gout g)
      else gtype g = kInp \<and> gout g \<in> D \<or>
        arith_gate g \<and> v ! gout g = gate_val R inp v g \<and> (\<exists>pgs :: nat \<Rightarrow> 'f field_gate. arith_ok n kf \<delta> g pgs))"

lemma recv_vals_masked:
  assumes "masked v \<delta> D (wires st)" "topo E gs" "E \<subseteq> D" "\<forall>g\<in>set gs. recv_fine n kf R inp v \<delta> D x m g"
  shows "masked v \<delta> (D \<union> gout ` set gs) (wires (fold (recv_val x y m) gs st))"
  using assms
proof (induction gs arbitrary: D E st)
  case (Cons g gs)
  have g: "recv_fine n kf R inp v \<delta> D x m g" and ins: "set (gins g) \<subseteq> D" using Cons.prems by auto
  have "masked v \<delta> (insert (gout g) D) (wires (recv_val x y m g st))"
  proof (cases "gtype g \<in> set mult_types \<or> gtype g = kEqz \<or> gtype g = kLtz")
    case True
    then show ?thesis using masked_set [OF Cons.prems(1)] g by (auto simp: recv_val_def recv_fine_def)
  next
    case False
    then have eq: "recv_val x y m g st = lin_gate g st" by (simp add: recv_val_def)
    show ?thesis
    proof (cases "gtype g = kInp")
      case True
      then have "lin_gate g st = st" "gout g \<in> D" using g by (cases g; auto simp: recv_fine_def arith_gate_def)+
      then show ?thesis using Cons.prems(1) eq by (simp add: insert_absorb)
    next
      case F: False
      then have "arith_gate g" "v ! gout g = gate_val R inp v g" "gout g < length v" and
        ok: "\<exists>pgs :: nat \<Rightarrow> 'a field_gate. arith_ok n kf \<delta> g pgs"
        using g False by (auto simp: recv_fine_def)
      moreover from this False have "gate_typed g" "gtype g \<in> {kAdd, kSub, kConstAdd, kConstMul}"
        by (auto simp: arith_gate_def)
      ultimately show ?thesis using masked_lin [OF Cons.prems(1) _ _ ins] unfolding eq by blast
    qed
  qed
  moreover have "\<forall>h\<in>set gs. recv_fine n kf R inp v \<delta> (insert (gout g) D) x m h"
    using Cons.prems(4) by (auto simp: recv_fine_def)
  ultimately show ?case
    using Cons.IH [of "insert (gout g) D" "recv_val x y m g st" "insert (gout g) E"] Cons.prems(2,3) by auto
qed simp

text \<open>The value of a comparison gate: from the masked bit and the opened correction.\<close>

lemma bit_opens_value:
  assumes "bit_opens n kf dout sg b \<beta> q m" "1 \<le> p" "p \<le> n"
  shows "m p - 2 * psum n (\<lambda>p. valueAt (q p)) =
    of_bool (b \<noteq> \<beta>) + of_bool \<beta> - 2 * sg * of_bool \<beta> * of_bool (b \<noteq> \<beta>) + dout"
  using assms by (auto simp: bit_opens_def shared_def algebra_simps)

lemma eqz_opens_value:
  assumes "bit_opens n kf dout (- 1) b \<beta> q m" "1 \<le> p" "p \<le> n"
  shows "m p - 2 * psum n (\<lambda>p. valueAt (q p)) = eqz_out b \<beta> + dout"
  using bit_opens_value [OF assms] by (simp add: eqz_out_def)

lemma ltz_opens_value:
  assumes "bit_opens n kf dout 1 b \<beta> q m" "1 \<le> p" "p \<le> n"
  shows "m p - 2 * psum n (\<lambda>p. valueAt (q p)) = of_bool b + dout"
  using bit_opens_value [OF assms] by (cases b; cases \<beta>) simp_all


subsection \<open>A level\<close>

lemma online_gate_fineD:
  assumes "online_gate_fine E kf kb R inp v \<delta> G M I g" "gtype g \<noteq> kInp"
  shows "field_gate_kind g" "gate_typed g" "gout g < length v" "v ! gout g = online_val E (G 0) \<delta> R inp v g"
    "field_ok (on_nP E) kf kb (on_conv E) \<delta> g (\<lambda>p. the (G p ! gout g))"
    "gtype g \<noteq> kEqz \<Longrightarrow> gtype g \<noteq> kLtz \<Longrightarrow> arith_gate g \<and> v ! gout g = gate_val R inp v g \<and> gate_ready (on_nP E) kf \<delta> g G"
proof -
  show g: "field_gate_kind g" "gout g < length v" "v ! gout g = online_val E (G 0) \<delta> R inp v g"
    and ok: "field_ok (on_nP E) kf kb (on_conv E) \<delta> g (\<lambda>p. the (G p ! gout g))"
    using assms by (auto simp: online_gate_fine_def)
  show "gate_typed g" using g(1) by (auto simp: field_gate_kind_def arith_gate_def)
  assume t: "gtype g \<noteq> kEqz" "gtype g \<noteq> kLtz"
  then have a: "arith_gate g" using g(1) by (auto simp: field_gate_kind_def)
  have "arith_ok (on_nP E) kf \<delta> g (\<lambda>p. the (G p ! gout g))" using ok a by (cases g) (auto simp: arith_gate_def)
  then show "arith_gate g \<and> v ! gout g = gate_val R inp v g \<and> gate_ready (on_nP E) kf \<delta> g G"
    using assms t a g(3) by (auto simp: online_gate_fine_def gate_ready_def online_val_def Let_def)
qed

text \<open>
  What the parties open for the gates of a level, from a state where the wires \<open>W\<close> are masked: the
  shares \<open>Y p g\<close> and the masked bits \<open>m p g\<close> of the comparison gates.
\<close>

lemma level_opens:
  fixes E :: "('g, 'f::comm_ring_1) online_env"
  assumes lv: "level_ok D D gs" and fine: "\<forall>g\<in>set gs. online_gate_fine E kf kb R inp v \<delta> G M I g"
    and inv: "online_inv E kf v \<delta> M (D \<union> I) S"
  obtains Y m where
    "\<And>p t. 1 \<le> p \<Longrightarrow> p \<le> on_nP E \<Longrightarrow> t = kEqz \<or> t = kLtz \<Longrightarrow> compare_gates E G gs S p t =
       (map (\<lambda>g. valueAt (Y p g)) (of_type gtype gs t), map (Y p) (of_type gtype gs t), map (m p) (of_type gtype gs t))"
    "\<And>p g. gtype g \<in> set mult_types \<Longrightarrow> Y p g = q_share p (G p) (wires (S p)) g"
    "\<And>p g. 1 \<le> p \<Longrightarrow> p \<le> on_nP E \<Longrightarrow> g \<in> set gs \<Longrightarrow>
       recv_fine (on_nP E) kf R inp v \<delta> (D \<union> I) (\<lambda>g. psum (on_nP E) (\<lambda>p. valueAt (Y p g))) (m p) g"
    "\<And>g. g \<in> set gs \<Longrightarrow> gtype g \<in> set mult_types \<Longrightarrow> shared (on_nP E) kf (\<lambda>p. Y p g) (v ! gout g + \<delta> (gout g))"
proof -
  obtain s where n: "0 < on_nP E" and rg: "\<And>p. 1 \<le> p \<Longrightarrow> p \<le> on_nP E \<Longrightarrow> k_all_minus_0 (on_rgen E p) = s"
    and M: "\<And>p. 1 \<le> p \<Longrightarrow> p \<le> on_nP E \<Longrightarrow> masked v \<delta> (D \<union> I) (wires (S p))"
    using inv by (auto simp: online_inv_def)
  have dis: "distinct gs" using topo_mono_distinct [OF topo_level [OF lv]] by (simp add: distinct_map)
  have ins: "set (gins g) \<subseteq> D" if "g \<in> set gs" "interactive g" for g
    using split_list [OF that(1)] level_ok_split lv that(2) by metis
  have cmp: "gate_typed g \<and> field_ok (on_nP E) kf kb (on_conv E) \<delta> g (\<lambda>p. the (G p ! gout g)) \<and> gins g ! 0 \<in> D"
    if "g \<in> set gs" "gtype g = kEqz \<or> gtype g = kLtz" for g
  proof -
    have "gtype g \<noteq> kInp" using that(2) by auto
    note F = online_gate_fineD [OF bspec [OF fine that(1)] this]
    have "set (gins g) \<subseteq> D" using that by (intro ins) (auto simp: interactive_def)
    moreover have "gins g ! 0 \<in> set (gins g)" using F(2) that(2) by (cases g) auto
    ultimately show ?thesis using F by blast
  qed
  have w: "wires (S p) ! (gins g ! 0) = v ! (gins g ! 0) + \<delta> (gins g ! 0)"
    if "1 \<le> p" "p \<le> on_nP E" "g \<in> set gs" "gtype g = kEqz \<or> gtype g = kLtz" for p g
    using maskedD(1) [OF M [OF that(1,2)]] cmp [OF that(3,4)] by blast
  have cm: "\<exists>y m. cmp_opens E kf v \<delta> G S gs t y m" if t: "t = kEqz \<or> t = kLtz" for t
  proof (rule compare_gates_opens [where s = s and kb = kb, OF t n])
    show "gate_typed g \<and> field_ok (on_nP E) kf kb (on_conv E) \<delta> g (\<lambda>p. the (G p ! gout g))"
      if "g \<in> set gs" "gtype g = t" for g using cmp [OF that(1)] t unfolding that(2) by (elim conjE disjE) simp_all
    show "wires (S p) ! (gins g ! 0) = v ! (gins g ! 0) + \<delta> (gins g ! 0)"
      if "1 \<le> p" "p \<le> on_nP E" "g \<in> set gs" "gtype g = t" for p g using w [OF that(1-3)] t unfolding that(4) by simp
  qed (rule rg dis | assumption)+
  obtain yE mE where cmE: "cmp_opens E kf v \<delta> G S gs kEqz yE mE" using cm [OF disjI1 [OF refl]] by (elim exE)
  obtain yL mL where cmL: "cmp_opens E kf v \<delta> G S gs kLtz yL mL" using cm [OF disjI2 [OF refl]] by (elim exE)
  have e: "\<And>p. 1 \<le> p \<Longrightarrow> p \<le> on_nP E \<Longrightarrow> compare_gates E G gs S p kEqz =
       (map (\<lambda>g. valueAt (yE p g)) (of_type gtype gs kEqz), map (yE p) (of_type gtype gs kEqz), map (mE p) (of_type gtype gs kEqz))"
    "\<And>g. g \<in> set gs \<Longrightarrow> gtype g = kEqz \<Longrightarrow> bit_opens (on_nP E) kf (\<delta> (gout g)) (- 1)
       (eqz_bit E (padded_val (the (G 0 ! gout g)) + \<delta> (gins g ! 0)) (v ! (gins g ! 0)))
       (eqz_mask_bit (G 0) (gout g)) (\<lambda>p. yE p g) (\<lambda>p. mE p g)"
    using cmE unfolding cmp_opens_def if_P [OF refl] by blast+
  have ne: "kLtz \<noteq> kEqz" by simp
  have l: "\<And>p. 1 \<le> p \<Longrightarrow> p \<le> on_nP E \<Longrightarrow> compare_gates E G gs S p kLtz =
       (map (\<lambda>g. valueAt (yL p g)) (of_type gtype gs kLtz), map (yL p) (of_type gtype gs kLtz), map (mL p) (of_type gtype gs kLtz))"
    "\<And>g. g \<in> set gs \<Longrightarrow> gtype g = kLtz \<Longrightarrow> bit_opens (on_nP E) kf (\<delta> (gout g)) 1
       (ltz_bit E (padded_val (the (G 0 ! gout g)) + \<delta> (gins g ! 0)) (v ! (gins g ! 0)))
       (ltz_mask_bit (G 0) (gout g)) (\<lambda>p. yL p g) (\<lambda>p. mL p g)"
    using cmL unfolding cmp_opens_def if_not_P [OF ne] by blast+
  define Y where "Y p g = (if gtype g = kEqz then yE p g else if gtype g = kLtz then yL p g
    else q_share p (G p) (wires (S p)) g)" for p g
  define m where "m p g = (if gtype g = kEqz then mE p g else mL p g)" for p g
  have shd: "shared (on_nP E) kf (\<lambda>p. Y p g) (v ! gout g + \<delta> (gout g))" if g: "g \<in> set gs" "gtype g \<in> set mult_types" for g
  proof -
    have t: "gtype g \<noteq> kInp" "gtype g \<noteq> kEqz" "gtype g \<noteq> kLtz" using g(2) by auto
    note F = online_gate_fineD [OF bspec [OF fine g(1)] t(1)]
    have "set (gins g) \<subseteq> D" using g by (intro ins) (auto simp: interactive_def)
    then have "wires (S p) ! w = v ! w + \<delta> w" if "1 \<le> p" "p \<le> on_nP E" "w \<in> set (gins g)" for p w
      using maskedD(1) [OF M [OF that(1,2)]] that(3) by blast
    with F t show ?thesis
      using q_share_shared [of "on_nP E" kf \<delta> g G "\<lambda>p. wires (S p)" v R inp] n g(2) by (simp add: Y_def)
  qed
  show thesis
  proof (rule that [of Y m])
    show "compare_gates E G gs S p t =
       (map (\<lambda>g. valueAt (Y p g)) (of_type gtype gs t), map (Y p) (of_type gtype gs t), map (m p) (of_type gtype gs t))"
      if "1 \<le> p" "p \<le> on_nP E" "t = kEqz \<or> t = kLtz" for p t
      using that(3) e(1) [OF that(1,2)] l(1) [OF that(1,2)] by (auto simp: Y_def m_def of_type_def)
    show "Y p g = q_share p (G p) (wires (S p)) g" if "gtype g \<in> set mult_types" for p g
      using that by (auto simp: Y_def)
    show "shared (on_nP E) kf (\<lambda>p. Y p g) (v ! gout g + \<delta> (gout g))" if "g \<in> set gs" "gtype g \<in> set mult_types" for g
      by (rule shd [OF that])
    show "recv_fine (on_nP E) kf R inp v \<delta> (D \<union> I) (\<lambda>g. psum (on_nP E) (\<lambda>p. valueAt (Y p g))) (m p) g"
      if p: "1 \<le> p" "p \<le> on_nP E" and g: "g \<in> set gs" for p g
    proof (cases "gtype g = kInp")
      case True
      then show ?thesis using bspec [OF fine g] by (auto simp: online_gate_fine_def recv_fine_def field_gate_kind_def arith_gate_def)
    next
      case False
      note F = online_gate_fineD [OF bspec [OF fine g] False]
      consider "gtype g \<in> set mult_types" | "gtype g = kEqz" | "gtype g = kLtz" |
        "gtype g \<notin> set mult_types" "gtype g \<noteq> kEqz" "gtype g \<noteq> kLtz" by blast
      then show ?thesis
      proof cases
        case 1
        then show ?thesis using sharedD(2) [OF shd [OF g]] F(3) by (simp add: recv_fine_def del: set_simps)
      next
        case 2
        then show ?thesis using eqz_opens_value [OF e(2) [OF g 2] p] F(3,4)
          by (simp add: recv_fine_def Y_def m_def online_val_def Let_def)
      next
        case 3
        then show ?thesis using ltz_opens_value [OF l(2) [OF g 3] p] F(3,4)
          by (simp add: recv_fine_def Y_def m_def online_val_def Let_def)
      next
        case 4
        then show ?thesis using F(3) F(6) [OF 4(2,3)] by (auto simp: recv_fine_def gate_ready_def simp del: set_simps)
      qed
    qed
  qed
qed

lemma evaluateGatesAtDepth_inv:
  fixes E :: "('g, 'f::comm_ring_1) online_env"
  assumes lv: "level_ok D D gs" and fine: "\<forall>g\<in>set gs. online_gate_fine E kf kb R inp v \<delta> G M I g"
    and inv: "online_inv E kf v \<delta> M (D \<union> I) S"
  shows "online_inv E kf v \<delta> M (D \<union> gout ` set gs \<union> I) (evaluateGatesAtDepth E G gs S)"
proof -
  let ?n = "on_nP E" and ?num = "count_type gs"
  obtain Y m where cmp: "\<And>p t. 1 \<le> p \<Longrightarrow> p \<le> ?n \<Longrightarrow> t = kEqz \<or> t = kLtz \<Longrightarrow> compare_gates E G gs S p t =
       (map (\<lambda>g. valueAt (Y p g)) (of_type gtype gs t), map (Y p) (of_type gtype gs t), map (m p) (of_type gtype gs t))"
    and Y: "\<And>p g. gtype g \<in> set mult_types \<Longrightarrow> Y p g = q_share p (G p) (wires (S p)) g"
    and rf: "\<And>p g. 1 \<le> p \<Longrightarrow> p \<le> ?n \<Longrightarrow> g \<in> set gs \<Longrightarrow>
       recv_fine ?n kf R inp v \<delta> (D \<union> I) (\<lambda>g. psum ?n (\<lambda>p. valueAt (Y p g))) (m p) g"
    and shd: "\<And>g. g \<in> set gs \<Longrightarrow> gtype g \<in> set mult_types \<Longrightarrow> shared ?n kf (\<lambda>p. Y p g) (v ! gout g + \<delta> (gout g))"
    by (rule level_opens [OF lv fine inv]) blast
  let ?x = "\<lambda>g. psum ?n (\<lambda>p. valueAt (Y p g))"
  have n: "0 < ?n" and M: "\<And>p. 1 \<le> p \<Longrightarrow> p \<le> ?n \<Longrightarrow> masked v \<delta> (D \<union> I) (wires (S p))"
    and len: "\<And>p. 1 \<le> p \<Longrightarrow> p \<le> ?n \<Longrightarrow> length (q_val (S p)) = length v \<and> length (q_sh (S p)) = length v"
    and old: "\<And>w p. w \<in> (D \<union> I) \<inter> M \<Longrightarrow> 1 \<le> p \<Longrightarrow> p \<le> ?n \<Longrightarrow> q_val (S p) ! w = v ! w + \<delta> w"
      "\<And>w. w \<in> (D \<union> I) \<inter> M \<Longrightarrow> shared ?n kf (\<lambda>p. q_sh (S p) ! w) (v ! w + \<delta> w)"
    and rg: "\<exists>s. \<forall>p\<in>{1..?n}. k_all_minus_0 (on_rgen E p) = s"
    using inv by (auto simp: online_inv_def)
  have dis: "distinct (map gout gs)" by (rule topo_mono_distinct [OF topo_level [OF lv]])
  have out: "gout g < length v" if "g \<in> set gs" for g using fine that by (auto simp: online_gate_fine_def)
  note PS = PartySend_eq [OF _ dis, where me = p and G = "G p" and st = "S p" for p]
  have bnd: "\<forall>g\<in>set gs. gout g < length (q_sh (S p))" if "1 \<le> p" "p \<le> ?n" for p using len [OF that] out by auto
  let ?f = "\<lambda>p. (snd (PartySend p (G p) gs (S p)))
     (kEqz := fst (compare_gates E G gs S p kEqz), kLtz := fst (compare_gates E G gs S p kLtz))"
  have f: "?f p t = map (\<lambda>g. valueAt (Y p g)) (of_type gtype gs t)" if p: "1 \<le> p" "p \<le> ?n" and t: "t \<in> set field_types" for p t
  proof (cases "t \<in> set mult_types")
    case True
    have "p \<noteq> 0" using p(1) by simp
    from PS(4) [OF this bnd [OF p] True] True show ?thesis by (auto simp: Y of_type_def)
  next
    case False
    then show ?thesis using t cmp [OF p] by auto
  qed
  have comm: "online_comm_to_TP E G gs S p = online_comm ?num field_types (?f p)" for p
    by (simp add: online_comm_to_TP_def Let_def split_beta)
  have num: "?num t = length (of_type gtype gs t)" for t by (simp add: count_type_eq of_type_def)
  let ?agg = "exchange (\<lambda>xs. xs) raw_dec (total_comm ?num field_types) ?n (online_comm_to_TP E G gs S)"
  have agg: "?agg p = map (\<lambda>j. psum ?n (\<lambda>p. online_comm ?num field_types (?f p) ! j)) [0..<total_comm ?num field_types]" for p
    unfolding raw.exchange_sum [OF n] comm ..
  have vals: "all_values ?num field_types (?agg p) t = map ?x (of_type gtype gs t)" if "t \<in> set field_types" for p t
    unfolding agg by (rule opened_values [OF num f that])
  define T where "T p = fst (PartySend p (G p) gs (S p))" for p
  have T: "wires (T p) = wires (S p)" "length (q_val (T p)) = length v" "length (q_sh (T p)) = length v"
      "\<And>g. g \<in> set gs \<Longrightarrow> gtype g \<in> set mult_types \<Longrightarrow> q_sh (T p) ! gout g = Y p g"
      "\<And>w. w \<notin> gout ` set gs \<Longrightarrow> q_sh (T p) ! w = q_sh (S p) ! w \<and> q_val (T p) ! w = q_val (S p) ! w"
    if p: "1 \<le> p" "p \<le> ?n" for p
  proof -
    have "p \<noteq> 0" using p(1) by simp
    note P = PS [OF this bnd [OF p], folded T_def]
    show "wires (T p) = wires (S p)" "length (q_val (T p)) = length v" "length (q_sh (T p)) = length v"
      using P(1-3) len [OF p] by simp_all
    show "q_sh (T p) ! gout g = Y p g" if "g \<in> set gs" "gtype g \<in> set mult_types" for g
      unfolding P(5) [OF that] Y [OF that(2)] ..
    show "q_sh (T p) ! w = q_sh (S p) ! w \<and> q_val (T p) ! w = q_val (S p) ! w" if "w \<notin> gout ` set gs" for w
      by (rule P(6) [OF that])
  qed
  define V where "V p = fold (recv_val ?x (Y p) (m p)) gs (T p)" for p
  have res: "evaluateGatesAtDepth E G gs S p = V p" if p: "1 \<le> p" "p \<le> ?n" for p
  proof -
    have "PartyRecv (all_values ?num field_types (?agg p)) (\<lambda>t. fst (snd (compare_gates E G gs S p t)))
        (\<lambda>t. snd (snd (compare_gates E G gs S p t))) gs (T p) = V p"
      unfolding V_def by (rule PartyRecv_eq [OF vals]) (use cmp [OF p] in auto)
    then show ?thesis using p by (simp add: evaluateGatesAtDepth_def Let_def split_beta T_def)
  qed
  have bq: "\<forall>g\<in>set gs. gout g < length (q_val (T p))" if "1 \<le> p" "p \<le> ?n" for p using out T(2) [OF that] by simp
  have RV: "length (q_val (V p)) = length v" "length (q_sh (V p)) = length v"
      "\<And>w. w \<notin> gout ` set gs \<Longrightarrow> q_val (V p) ! w = q_val (S p) ! w \<and> q_sh (V p) ! w = q_sh (S p) ! w"
      "\<And>g. g \<in> set gs \<Longrightarrow> gtype g \<in> set mult_types \<Longrightarrow> q_val (V p) ! gout g = v ! gout g + \<delta> (gout g) \<and> q_sh (V p) ! gout g = Y p g"
    if p: "1 \<le> p" "p \<le> ?n" for p
  proof -
    note r = recv_vals [OF dis bq [OF p], where x = ?x and y = "Y p" and m = "m p", folded V_def]
    show "length (q_val (V p)) = length v" "length (q_sh (V p)) = length v" using r(1,2) T(2,3) [OF p] by simp_all
    show "q_val (V p) ! w = q_val (S p) ! w \<and> q_sh (V p) ! w = q_sh (S p) ! w" if "w \<notin> gout ` set gs" for w
      using r(3) [OF that] T(5) [OF p that] by simp
    show "q_val (V p) ! gout g = v ! gout g + \<delta> (gout g) \<and> q_sh (V p) ! gout g = Y p g"
      if "g \<in> set gs" "gtype g \<in> set mult_types" for g
      using r(4) [OF that] T(4) [OF p that] sharedD(2) [OF shd [OF that]] by simp
  qed
  have mk: "masked v \<delta> (D \<union> gout ` set gs \<union> I) (wires (V p))" if p: "1 \<le> p" "p \<le> ?n" for p
  proof -
    have "masked v \<delta> (D \<union> I \<union> gout ` set gs) (wires (V p))"
      unfolding V_def
      by (rule recv_vals_masked [OF _ topo_level [OF lv], where n = ?n and kf = kf and R = R and inp = inp])
        (use M [OF p] T(1) [OF p] rf [OF p] in auto)
    then show ?thesis by (simp add: Un_ac)
  qed
  have "(\<forall>p\<in>{1..?n}. q_val (V p) ! w = v ! w + \<delta> w) \<and> shared ?n kf (\<lambda>p. q_sh (V p) ! w) (v ! w + \<delta> w)"
    if w: "w \<in> (D \<union> gout ` set gs \<union> I) \<inter> M" for w
  proof (cases "w \<in> gout ` set gs")
    case True
    then obtain g where g: "g \<in> set gs" "w = gout g" by blast
    have t: "gtype g \<in> set mult_types" using fine g w by (auto simp: online_gate_fine_def simp del: set_simps)
    show ?thesis using RV(4) [OF _ _ g(1) t] shd [OF g(1) t] by (simp add: g(2) cong: shared_cong)
  next
    case False
    then have "w \<in> (D \<union> I) \<inter> M" using w by auto
    then show ?thesis using RV(3) [OF _ _ False] old by (simp cong: shared_cong)
  qed
  then have "online_inv E kf v \<delta> M (D \<union> gout ` set gs \<union> I) V"
    unfolding online_inv_def using n rg mk RV(1,2) by simp
  then show ?thesis unfolding online_inv_def using res by (simp cong: shared_cong)
qed

interpretation on: level_run "evaluateGatesAtDepth E G" "online_inv E kf v \<delta> M" I "online_gate_fine E kf kb R inp v \<delta> G M I"
  by unfold_locales (rule evaluateGatesAtDepth_inv)

subsection \<open>The MAC check\<close>

text \<open>
  If the parties hold the same opened values \<open>q\<close> and authenticated sharings of \<open>x\<close>, the dealer adds
  up the MAC key times the weighted sum of the deviations \<open>q - x\<close>, weighted with the common random
  numbers.
\<close>

definition dev_term :: "('g \<Rightarrow> 'f::comm_ring_1 \<times> 'g) \<Rightarrow> (wire_t \<Rightarrow> 'f) \<Rightarrow> 'f gate \<Rightarrow> 'g \<times> 'f \<Rightarrow> 'g \<times> 'f" where
  "dev_term smp err g = (\<lambda>(prg, e). let (rho, prg) = smp prg in (prg, e + rho * err (gout g)))"

definition mac_deviation :: "('g \<Rightarrow> 'f::comm_ring_1 \<times> 'g) \<Rightarrow> (wire_t \<Rightarrow> 'f) \<Rightarrow> 'f gate list \<Rightarrow> 'g \<Rightarrow> 'f" where
  "mac_deviation smp err gs prg = snd (fold (\<lambda>g. dev_term smp err g ^^ mac_terms (gtype g)) gs (prg, 0))"

text \<open>\<open>mac_sum n K F D\<close>: the parties' generators agree with that of \<open>D\<close>, and their sums add up to \<open>K\<close> times its sum.\<close>

definition mac_sum :: "nat \<Rightarrow> 'f::comm_ring_1 \<Rightarrow> (nat \<Rightarrow> 'g \<times> 'f) \<Rightarrow> 'g \<times> 'f \<Rightarrow> bool" where
  "mac_sum n K F D \<longleftrightarrow> (\<forall>p\<in>{1..n}. fst (F p) = fst D) \<and> psum n (\<lambda>p. snd (F p)) = K * snd D"

lemma mac_sum_term:
  assumes "mac_sum n (psum n kf) F D" "\<forall>p\<in>{1..n}. q_val (S p) ! gout g = q (gout g)"
    "shared n kf (\<lambda>p. q_sh (S p) ! gout g) (x (gout g))"
  shows "mac_sum n (psum n kf) (\<lambda>p. mac_term smp (kf p) (S p) g (F p)) (dev_term smp (\<lambda>w. q w - x w) g D)"
proof -
  obtain rho prg where s: "smp (fst D) = (rho, prg)" by (cases "smp (fst D)")
  have F: "mac_term smp (kf p) (S p) g (F p) =
      (prg, snd (F p) + rho * (q (gout g) * kf p - tagAt (q_sh (S p) ! gout g)))" if "1 \<le> p" "p \<le> n" for p
    using assms(1,2) that s by (simp add: mac_term_def mac_sum_def split_beta)
  have D: "dev_term smp (\<lambda>w. q w - x w) g D = (prg, snd D + rho * (q (gout g) - x (gout g)))"
    using s by (simp add: dev_term_def split_beta)
  have "psum n (\<lambda>p. snd (F p) + rho * (q (gout g) * kf p - tagAt (q_sh (S p) ! gout g))) =
      psum n kf * (snd D + rho * (q (gout g) - x (gout g)))"
    using assms(1) sharedD(3) [OF assms(3)] by (simp add: mac_sum_def lin_simps algebra_simps)
  then show ?thesis unfolding mac_sum_def D using F by (simp cong: psum_cong)
qed

lemma mac_sum_gates:
  assumes "mac_sum n (psum n kf) F D"
    "\<forall>g\<in>set gs. mac_terms (gtype g) \<noteq> 0 \<longrightarrow> (\<forall>p\<in>{1..n}. q_val (S p) ! gout g = q (gout g)) \<and>
       shared n kf (\<lambda>p. q_sh (S p) ! gout g) (x (gout g))"
  shows "mac_sum n (psum n kf) (\<lambda>p. fold (mac_gate smp (kf p) (S p)) gs (F p))
    (fold (\<lambda>g. dev_term smp (\<lambda>w. q w - x w) g ^^ mac_terms (gtype g)) gs D)"
  using assms
proof (induction gs arbitrary: F D)
  case (Cons g gs)
  have "mac_sum n (psum n kf) (\<lambda>p. (mac_term smp (kf p) (S p) g ^^ k) (F p)) ((dev_term smp (\<lambda>w. q w - x w) g ^^ k) D)"
    if "k = 0 \<or> mac_terms (gtype g) \<noteq> 0" for k
    using that
  proof (induction k)
    case (Suc k)
    then show ?case using mac_sum_term [OF _ _, of n kf _ _ S g q x smp] Cons.prems(2) by simp
  qed (use Cons.prems(1) in simp)
  then have "mac_sum n (psum n kf) (\<lambda>p. mac_gate smp (kf p) (S p) g (F p))
      ((dev_term smp (\<lambda>w. q w - x w) g ^^ mac_terms (gtype g)) D)" unfolding mac_gate_def by blast
  from Cons.IH [OF this] Cons.prems(2) show ?case by simp
qed simp

lemma MACVerification_iff:
  fixes E :: "('g, 'f::comm_ring_1) online_env"
  assumes key: "\<And>p. 1 \<le> p \<Longrightarrow> p \<le> on_nP E \<Longrightarrow> concat (gates_by_level circ) \<noteq> [] \<Longrightarrow> key_sh (sh_at (G p) 0) = kf p"
    and opened: "\<forall>g\<in>set (concat (gates_by_level circ)). mac_terms (gtype g) \<noteq> 0 \<longrightarrow>
       (\<forall>p\<in>{1..on_nP E}. q_val (S p) ! gout g = q (gout g)) \<and> shared (on_nP E) kf (\<lambda>p. q_sh (S p) ! gout g) (x (gout g))"
  shows "MACVerification E G circ prg S \<longleftrightarrow>
    psum (on_nP E) kf * mac_deviation (on_zzp E) (\<lambda>w. q w - x w) (concat (gates_by_level circ)) prg = 0"
proof -
  let ?gs = "concat (gates_by_level circ)" and ?n = "on_nP E"
  have om: "mac_omega (on_zzp E) (G p) circ prg (S p) = snd (fold (mac_gate (on_zzp E) (kf p) (S p)) ?gs (prg, 0))"
    if "1 \<le> p" "p \<le> ?n" for p
    using key [OF that] by (cases "?gs = []") (auto simp: mac_omega_def fold_levels simp del: concat_eq_Nil_conv)
  have "fold (\<lambda>i res. res + f i) xs a = a + sum_list (map f xs)" for f :: "nat \<Rightarrow> 'f" and xs a
    by (induction xs arbitrary: a) (simp_all add: add.assoc)
  then have "MACVerification E G circ prg S \<longleftrightarrow> psum ?n (\<lambda>p. mac_omega (on_zzp E) (G p) circ prg (S p)) = 0"
    by (simp add: MACVerification_def psum_def)
  also have "\<dots> \<longleftrightarrow> psum ?n (\<lambda>p. snd (fold (mac_gate (on_zzp E) (kf p) (S p)) ?gs (prg, 0))) = 0"
    using om by (simp cong: psum_cong)
  also have "\<dots> \<longleftrightarrow> psum ?n kf * mac_deviation (on_zzp E) (\<lambda>w. q w - x w) ?gs prg = 0"
    using mac_sum_gates [OF _ opened, of "\<lambda>_. (prg, 0)" "(prg, 0)" "on_zzp E"]
    by (simp add: mac_sum_def mac_deviation_def lin_simps)
  finally show ?thesis .
qed

lemma mac_deviation_zero: "mac_deviation smp (\<lambda>w. 0) gs prg = 0"
proof -
  have k: "snd ((dev_term smp (\<lambda>w. 0) g ^^ k) D) = snd D" for g k D
    by (induction k) (simp_all add: dev_term_def split_beta)
  have "snd (fold (\<lambda>g. dev_term smp (\<lambda>w. 0) g ^^ mac_terms (gtype g)) gs D) = snd D" for D
    by (induction gs arbitrary: D) (simp_all add: k)
  then show ?thesis by (simp add: mac_deviation_def)
qed

subsection \<open>The inputs\<close>

lemma inputs_level0:
  assumes "circuit_ok c" "g \<in> set (circ_gates c)" "gtype g = kInp"
  shows "g \<in> set (gates_by_level (orderGatesByLevel c) ! 0)"
proof -
  have ok: "gates_ok (circ_gates c)" using assms(1) by (simp add: circuit_ok_def)
  obtain lv depth where lv: "levels_fix (circ_gates c) lv (length (circ_gates c))"
    "gates_by_level (orderGatesByLevel c) = map (\<lambda>l. filter (\<lambda>g. lv ! gout g = l) (circ_gates c)) [0..<Suc depth]"
    by (rule orderGatesByLevel_spec [OF ok])
  obtain i where i: "i < length (circ_gates c)" "g = circ_gates c ! i" using assms(2) by (auto simp: in_set_conv_nth)
  have "lv ! gout g = 0"
    using lv(1) i gates_okD(1,2) [OF ok i(1)] gate_depth_None [of g lv] assms(3) by (simp add: levels_fix_def)
  then show ?thesis using assms(2) by (simp add: lv(2) upt_conv_Cons del: upt_Suc)
qed

text \<open>A party holds the masked values of the inputs if their owners have values for them.\<close>

lemma set_inputs_masked:
  assumes "me \<noteq> 0" "\<forall>g\<in>set gs. gtype g = kInp \<longrightarrow> gout g < length v \<and>
      (let d = inp_pid (the (G me ! gout g)) in d \<noteq> 0 \<and> input_msg (G d) (inputs d) (gout g) = Inr (v ! gout g + \<delta> (gout g)))"
    "masked v \<delta> D (wires st)"
  shows "\<exists>st'. foldO (set_input G inputs me) gs st = Some (Inr st') \<and>
    masked v \<delta> (D \<union> {gout g |g. g \<in> set gs \<and> gtype g = kInp}) (wires st') \<and>
    length (q_val st') = length (q_val st) \<and> q_sh st' = q_sh st"
  using assms(2,3)
proof (induction gs arbitrary: D st)
  case (Cons g gs)
  let ?D = "if gtype g = kInp then insert (gout g) D else D"
  let ?q = "v ! gout g + \<delta> (gout g)"
  define st1 where "st1 = (if gtype g = kInp then set_wire (gout g) ?q (set_qval (gout g) ?q st) else st)"
  have "set_input G inputs me g st = Some (Inr st1)"
    using Cons.prems(1) assms(1) by (cases "gtype g = kInp") (auto simp: set_input_def Let_def st1_def)
  moreover have "masked v \<delta> ?D (wires st1)" "length (q_val st1) = length (q_val st)" "q_sh st1 = q_sh st"
    using Cons.prems masked_set [OF Cons.prems(2), of "gout g"] by (auto simp: st1_def)
  moreover have "?D \<union> {gout h |h. h \<in> set gs \<and> gtype h = kInp} = D \<union> {gout h |h. h \<in> set (g # gs) \<and> gtype h = kInp}"
    by auto
  ultimately show ?case using Cons.IH [of ?D st1] Cons.prems(1) by simp
qed simp

text \<open>Without the value of some input, the first party to miss one throws and the others wait.\<close>

definition lacks_input :: "(wire_t \<Rightarrow> nat) \<Rightarrow> (nat \<Rightarrow> (wire_t, 'f) umap) \<Rightarrow> 'f gate \<Rightarrow> bool" where
  "lacks_input own inputs g \<longleftrightarrow> gtype g = kInp \<and> map_of (inputs (own (gout g))) (gout g) = None"

lemma set_input_lacks:
  assumes "gtype g = kInp \<Longrightarrow> inp_pid (the (G me ! gout g)) = own (gout g) \<and> own (gout g) \<noteq> 0" "me \<noteq> 0"
  shows "\<not> lacks_input own inputs g \<Longrightarrow> returns (set_input G inputs me g st)"
    "lacks_input own inputs g \<Longrightarrow> set_input G inputs me g st = (if own (gout g) = me then Some (Inl out_of_range) else None)"
  using assms by (auto simp: lacks_input_def set_input_def input_msg_def umap_at_def Let_def)

lemma set_inputs_lacks:
  assumes owner: "\<forall>g\<in>set gs. gtype g = kInp \<longrightarrow> (\<forall>p. inp_pid (the (G p ! gout g)) = own (gout g)) \<and> own (gout g) \<in> {1..n}"
    and "\<exists>g\<in>set gs. lacks_input own inputs g"
  shows "\<exists>d\<in>{1..n}. \<forall>me st. me \<noteq> 0 \<longrightarrow> foldO (set_input G inputs me) gs st = (if d = me then Some (Inl out_of_range) else None)"
proof -
  obtain ys x zs where gs: "gs = ys @ x # zs" "\<forall>y\<in>set ys. \<not> lacks_input own inputs y" "lacks_input own inputs x"
    using split_list_first_prop [OF assms(2)] by blast
  have own: "gtype g = kInp \<Longrightarrow> inp_pid (the (G p ! gout g)) = own (gout g) \<and> own (gout g) \<noteq> 0" if "g \<in> set gs" for g p
    using owner that by fastforce
  have fine: "returns (set_input G inputs me y st)" if "y \<in> set ys" "me \<noteq> 0" for me y st
    by (rule set_input_lacks(1) [where own = own]) (use own [of y] that gs in auto)
  have "foldO (set_input G inputs me) (ys @ x # zs) st = (if own (gout x) = me then Some (Inl out_of_range) else None)"
    if "me \<noteq> 0" for me st
    using fine
  proof (induction ys arbitrary: st)
    case Nil
    have "set_input G inputs me x st = (if own (gout x) = me then Some (Inl out_of_range) else None)"
      by (rule set_input_lacks(2)) (use own [of x] that gs in auto)
    then show ?case by simp
  next
    case (Cons y ys)
    then have "returns (set_input G inputs me y st)" using that by simp
    then show ?case using Cons by (auto elim!: returnsE)
  qed
  moreover have "own (gout x) \<in> {1..n}" using owner gs by (simp add: lacks_input_def)
  ultimately show ?thesis unfolding gs(1) by blast
qed

end
