(* ===== verification/Online_Result.thy ===== *)
theory Online_Result
  imports Online_Correct
begin

section \<open>What a run of the online phase returns\<close>

text \<open>
  From preprocessing that is dealt (\<open>gates_dealt\<close>, which \<open>offline_run\<close> establishes) every party gets
  from \<open>evaluateCircuit\<close> the values of the output wires in the evaluation \<open>online_vals\<close>, in which
  equality and comparison gates have the values the protocol gives them. The second half says what
  these are: comparison gates tell the upper half of the field from the lower half; equality gates
  are right when their mask bit is 0, and when it is 1 give 4 instead of 0 for an unequal value.
\<close>

subsection \<open>The run\<close>

definition online_vals ::
  "('g, 'f::comm_ring_1) online_env \<Rightarrow> 'f field_gate option list \<Rightarrow> (wire_t \<Rightarrow> 'f) \<Rightarrow> 'f ringops \<Rightarrow> (wire_t \<Rightarrow> 'f) \<Rightarrow>
   'f gate list \<Rightarrow> 'f list" where
  "online_vals E G0 \<delta> R inp gs = vals_by (online_val E G0 \<delta> R inp) gs"

definition owned_input :: "(wire_t, nat) umap \<Rightarrow> (nat \<Rightarrow> (wire_t, 'f) umap) \<Rightarrow> wire_t \<Rightarrow> 'f" where
  "owned_input m inputs w = the (map_of (inputs (party_of m w)) w)"

lemma online_val_cong:
  assumes "gate_typed g" "\<And>w. w \<in> set (gins g) \<Longrightarrow> v ! w = v' ! w"
  shows "online_val E G0 \<delta> R inp v g = online_val E G0 \<delta> R inp v' g"
proof (cases "gtype g = kEqz \<or> gtype g = kLtz")
  case True
  then have "gins g ! 0 \<in> set (gins g)" using assms(1) by (cases g) auto
  with True assms(2) show ?thesis by (auto simp: online_val_def Let_def)
next
  case False
  with gate_val_cong [OF assms] show ?thesis by (simp add: online_val_def Let_def)
qed

lemma length_online_vals [simp]: "length (online_vals E G0 \<delta> R inp gs) = length gs"
  by (simp add: online_vals_def)

lemma online_vals_fix:
  "gates_ok gs \<Longrightarrow> i < length gs \<Longrightarrow>
   online_vals E G0 \<delta> R inp gs ! i = online_val E G0 \<delta> R inp (online_vals E G0 \<delta> R inp gs) (gs ! i)"
  unfolding online_vals_def by (rule vals_by_fix [OF online_val_cong])

text \<open>
  What a run needs: preprocessing \<open>G\<close> that is dealt, with masks \<open>\<delta>\<close> and key shares \<open>kf\<close>; inputs that
  belong to computing parties; parties whose common generators agree.
\<close>

definition online_ready ::
  "('g, 'f::comm_ring_1) online_env \<Rightarrow> 'f Circuit \<Rightarrow> (wire_t, nat) umap \<Rightarrow> (nat \<Rightarrow> 'f) \<Rightarrow> (nat \<Rightarrow> BoolRing) \<Rightarrow>
   (wire_t \<Rightarrow> 'f) \<Rightarrow> (nat \<Rightarrow> 'f field_gate option list) \<Rightarrow> bool" where
  "online_ready E c m kf kb \<delta> G \<longleftrightarrow> 0 < on_nP E \<and> circuit_ok c \<and>
     (\<forall>g\<in>set (circ_gates c). gtype g = kInp \<and> party_of m (gout g) \<in> {1..on_nP E} \<or> field_gate_kind g) \<and>
     (\<exists>s. \<forall>p\<in>{1..on_nP E}. k_all_minus_0 (on_rgen E p) = s) \<and>
     gates_dealt (on_nP E) kf (field_ok (on_nP E) kf kb (on_conv E)) (party_inp m) \<delta>
       (concat (gates_by_level (orderGatesByLevel c))) 0 G"

definition mult_wires :: "'f Circuit \<Rightarrow> wire_t set" where
  "mult_wires c = gout ` {g \<in> set (circ_gates c). gtype g \<in> set mult_types}"

definition input_wires :: "'f Circuit \<Rightarrow> wire_t set" where
  "input_wires c = gout ` {g \<in> set (circ_gates c). gtype g = kInp}"

lemma input_wires_code: "input_wires c = set (map gout (filter (\<lambda>g. gtype g = kInp) (circ_gates c)))"
  by (auto simp: input_wires_def)

text \<open>Every input wire has a value at the party it belongs to.\<close>

definition inputs_given :: "'f Circuit \<Rightarrow> (wire_t, nat) umap \<Rightarrow> (nat \<Rightarrow> (wire_t, 'f) umap) \<Rightarrow> bool" where
  "inputs_given c m inputs \<longleftrightarrow> (\<forall>w\<in>input_wires c. map_of (inputs (party_of m w)) w \<noteq> None)"

lemma inputs_given_at: "inputs_given c m inputs \<Longrightarrow> w \<in> input_wires c \<Longrightarrow> umap_at (inputs (party_of m w)) w = Inr (owned_input m inputs w)"
  by (auto simp: inputs_given_def owned_input_def umap_at_def)

lemma gout_inj: "circuit_ok c \<Longrightarrow> g \<in> set (circ_gates c) \<Longrightarrow> h \<in> set (circ_gates c) \<Longrightarrow> gout g = gout h \<Longrightarrow> g = h"
  using gates_ok_distinct [of "circ_gates c"] by (simp add: circuit_ok_def distinct_map inj_on_def)

lemma level0_gates: "circuit_ok c \<Longrightarrow> set (gates_by_level (orderGatesByLevel c) ! 0) \<subseteq> set (circ_gates c)"
proof -
  assume c: "circuit_ok c"
  then have "gates_ok (circ_gates c)" by (simp add: circuit_ok_def)
  then have "gates_by_level (orderGatesByLevel c) \<noteq> []" by (rule orderGatesByLevel_spec) auto
  then have "gates_by_level (orderGatesByLevel c) ! 0 \<in> set (gates_by_level (orderGatesByLevel c))" by simp
  then show ?thesis unfolding set_orderGatesByLevel [OF c, symmetric] by auto
qed

lemma level0_inputs:
  "circuit_ok c \<Longrightarrow> {gout g |g. g \<in> set (gates_by_level (orderGatesByLevel c) ! 0) \<and> gtype g = kInp} = input_wires c"
  using level0_gates [of c] inputs_level0 [of c] by (auto simp: input_wires_def)

lemma mult_wires_iff: "circuit_ok c \<Longrightarrow> g \<in> set (circ_gates c) \<Longrightarrow> gout g \<in> mult_wires c \<longleftrightarrow> gtype g \<in> set mult_types"
  using gout_inj [of c g] by (auto simp: mult_wires_def)

lemma gates_dealt_shared:
  assumes "gates_dealt n kf GP IP \<delta> (concat (gates_by_level (orderGatesByLevel c))) ctr G" "circuit_ok c"
    "g \<in> set (circ_gates c)" "w \<in> insert (gout g) (set (gins g))"
  shows "shared n kf (\<lambda>p. sh_at (G p) w) (\<delta> w)"
proof -
  let ?gs = "concat (gates_by_level (orderGatesByLevel c))"
  note set = set_orderGatesByLevel [OF assms(2)]
  have g: "g \<in> set ?gs" unfolding set by (rule assms(3))
  have "w \<in> gout ` set ?gs" using topo_gins [OF topo_orderGatesByLevel [OF assms(2)] g] assms(4) g by auto
  then obtain h where h: "h \<in> set ?gs" "w = gout h" by blast
  have "dealt_sel n kf pg_mask (\<lambda>p. the (G p ! gout h)) (\<delta> (gout h))"
    using assms(1) h(1) unfolding gates_dealt_def by blast
  from dealt_sel_shared [OF this] show ?thesis by (simp add: h(2) sh_at_def mask_at_def)
qed

lemma online_gates_fine:
  fixes E :: "('g, 'f::comm_ring_1) online_env"
  assumes ready: "online_ready E c m kf kb \<delta> G" and g: "g \<in> set (circ_gates c)"
  shows "online_gate_fine E kf kb R inp (online_vals E (G 0) \<delta> R inp (circ_gates c)) \<delta> G (mult_wires c) (input_wires c) g"
proof -
  let ?v = "online_vals E (G 0) \<delta> R inp (circ_gates c)"
  have c: "circuit_ok c" and ok: "gates_ok (circ_gates c)" and n: "0 < on_nP E"
    and G: "gates_dealt (on_nP E) kf (field_ok (on_nP E) kf kb (on_conv E)) (party_inp m) \<delta>
       (concat (gates_by_level (orderGatesByLevel c))) 0 G"
    using ready by (auto simp: online_ready_def circuit_ok_def)
  have out: "gout g < length (circ_gates c)" by (rule gout_less [OF c g])
  have nth: "circ_gates c ! gout g = g" using g gates_okD(1) [OF ok] by (auto simp: in_set_conv_nth)
  have "?v ! gout g = online_val E (G 0) \<delta> R inp ?v g"
    using online_vals_fix [OF ok out] by (simp add: nth)
  moreover have "field_ok (on_nP E) kf kb (on_conv E) \<delta> g (\<lambda>p. the (G p ! gout g))" if "gtype g \<noteq> kInp"
    using G g that unfolding gates_dealt_def set_orderGatesByLevel [OF c] by blast
  moreover have "gtype g = kInp \<and> gout g \<in> input_wires c \<or> gtype g \<noteq> kInp \<and> field_gate_kind g"
    using ready g by (auto simp: online_ready_def input_wires_def field_gate_kind_def arith_gate_def)
  ultimately show ?thesis
    using mult_wires_iff [OF c g] gates_dealt_shared [OF G c g] out
    unfolding online_gate_fine_def by auto
qed

lemma gates_dealt_input:
  assumes "gates_dealt n kf GP IP \<delta> (concat (gates_by_level (orderGatesByLevel c))) 0 G" "circuit_ok c"
    "g \<in> set (circ_gates c)" "gtype g = kInp"
  shows "\<exists>k. IP k (gout g) (\<delta> (gout g)) (\<lambda>p. the (G p ! gout g))"
proof -
  have "g \<in> set (inputs_in (concat (gates_by_level (orderGatesByLevel c))))"
    using assms(3,4) by (simp add: inputs_in_def set_orderGatesByLevel [OF assms(2)] del: set_concat)
  then obtain k where "k < length (inputs_in (concat (gates_by_level (orderGatesByLevel c))))"
    "inputs_in (concat (gates_by_level (orderGatesByLevel c))) ! k = g" by (auto simp: in_set_conv_nth)
  with assms(1) show ?thesis unfolding gates_dealt_def by fastforce
qed

lemma set_inputs_dealer: "foldO (set_input G inputs 0) gs s = Some (Inr s)"
  by (induction gs) (simp_all add: set_input_def)

lemma online_start_inv:
  fixes E :: "('g, 'f::comm_ring_1) online_env"
  assumes ready: "online_ready E c m kf kb \<delta> G" and given: "inputs_given c m inputs"
  shows "\<exists>S. (\<forall>p. online_start G inputs (orderGatesByLevel c) p = Some (Inr (S p))) \<and>
    online_inv E kf (online_vals E (G 0) \<delta> R (owned_input m inputs) (circ_gates c)) \<delta> (mult_wires c) (input_wires c) S"
proof -
  let ?v = "online_vals E (G 0) \<delta> R (owned_input m inputs) (circ_gates c)" and ?lc = "orderGatesByLevel c"
  have c: "circuit_ok c" and ok: "gates_ok (circ_gates c)" and n: "0 < on_nP E"
    and G: "gates_dealt (on_nP E) kf (field_ok (on_nP E) kf kb (on_conv E)) (party_inp m) \<delta>
       (concat (gates_by_level ?lc)) 0 G"
    and rg: "\<exists>s. \<forall>p\<in>{1..on_nP E}. k_all_minus_0 (on_rgen E p) = s"
    using ready by (auto simp: online_ready_def circuit_ok_def)
  note set = set_orderGatesByLevel [OF c]
  note level0 = level0_gates [OF c] and I = level0_inputs [OF c]
  have val: "gout g < length ?v \<and> (let d = inp_pid (the (G p ! gout g)) in d \<noteq> 0 \<and> input_msg (G d) (inputs d) (gout g) = Inr (?v ! gout g + \<delta> (gout g)))"
    if g: "g \<in> set (circ_gates c)" "gtype g = kInp" for g p
  proof -
    have out: "gout g < length (circ_gates c)" by (rule gout_less [OF c g(1)])
    have nth: "circ_gates c ! gout g = g" using g gates_okD(1) [OF ok] by (auto simp: in_set_conv_nth)
    have Gg: "g = Gate kInp (gout g)" using gates_okD(2) [OF ok out] g(2) unfolding nth by (cases g) auto
    have v: "?v ! gout g = owned_input m inputs (gout g)"
      using online_vals_fix [OF ok out, of E "G 0" \<delta> R "owned_input m inputs"] g(2) arg_cong [OF Gg, of "gate_val R (owned_input m inputs) ?v"]
      by (simp add: nth online_val_def Let_def)
    have "g \<in> set (inputs_in (concat (gates_by_level ?lc)))" using g by (simp add: inputs_in_def set del: set_concat)
    then obtain k where k: "k < length (inputs_in (concat (gates_by_level ?lc)))" "inputs_in (concat (gates_by_level ?lc)) ! k = g"
      by (auto simp: in_set_conv_nth)
    have "party_inp m k (gout g) (\<delta> (gout g)) (\<lambda>p. the (G p ! gout g))"
      using G k unfolding gates_dealt_def by fastforce
    moreover have "party_of m (gout g) \<noteq> 0" using ready g by (auto simp: online_ready_def field_gate_kind_def arith_gate_def)
    moreover have "umap_at (inputs (party_of m (gout g))) (gout g) = Inr (owned_input m inputs (gout g))"
      by (rule inputs_given_at [OF given]) (use g in \<open>auto simp: input_wires_def\<close>)
    ultimately show ?thesis using out
      by (simp add: party_inp_def v input_msg_def Let_def add.commute)
  qed
  have "masked ?v \<delta> {} (wires (online_new (length (circ_gates c)) :: 'f online))"
    by (simp add: masked_def online_new_def)
  note M = set_inputs_masked [OF _ _ this, of _ "gates_by_level ?lc ! 0" G inputs]
  have "\<exists>s. online_start G inputs ?lc p = Some (Inr s) \<and> (1 \<le> p \<longrightarrow> masked ?v \<delta> (input_wires c) (wires s) \<and>
      length (q_val s) = length ?v \<and> length (q_sh s) = length ?v)" for p
  proof (cases "p = 0")
    case True
    then show ?thesis by (simp add: online_start_def setInputs_def set_inputs_dealer)
  next
    case False
    moreover have "\<forall>g\<in>set (gates_by_level ?lc ! 0). gtype g = kInp \<longrightarrow> gout g < length ?v \<and>
        (let d = inp_pid (the (G p ! gout g)) in d \<noteq> 0 \<and> input_msg (G d) (inputs d) (gout g) = Inr (?v ! gout g + \<delta> (gout g)))"
      using val level0 by blast
    ultimately obtain s where "online_start G inputs ?lc p = Some (Inr s)" "masked ?v \<delta> (input_wires c) (wires s)"
      "length (q_val s) = length ?v" "length (q_sh s) = length ?v"
      using M [of p] unfolding I by (auto simp: online_start_def setInputs_def online_new_def)
    then show ?thesis by simp
  qed
  then obtain S where "\<forall>p. online_start G inputs ?lc p = Some (Inr (S p)) \<and> (1 \<le> p \<longrightarrow> masked ?v \<delta> (input_wires c) (wires (S p)) \<and>
      length (q_val (S p)) = length ?v \<and> length (q_sh (S p)) = length ?v)" by metis
  moreover have "input_wires c \<inter> mult_wires c = {}"
    using mult_wires_iff [OF c] by (auto simp: input_wires_def)
  ultimately show ?thesis using n rg by (auto simp: online_inv_def intro!: exI [of _ S])
qed

text \<open>If an owner lacks a value, the first such owner throws, the other parties and the dealer wait.\<close>

lemma online_start_lacks:
  fixes E :: "('g, 'f::comm_ring_1) online_env"
  assumes ready: "online_ready E c m kf kb \<delta> G" and missing: "\<not> inputs_given c m inputs"
  shows "\<exists>d\<in>{1..on_nP E}. \<forall>me. me \<noteq> 0 \<longrightarrow>
    online_start G inputs (orderGatesByLevel c) me = (if d = me then Some (Inl out_of_range) else None)"
proof -
  let ?lc = "orderGatesByLevel c"
  have c: "circuit_ok c" and G: "gates_dealt (on_nP E) kf (field_ok (on_nP E) kf kb (on_conv E)) (party_inp m) \<delta>
       (concat (gates_by_level ?lc)) 0 G"
    using ready by (auto simp: online_ready_def)
  have "(\<forall>p. inp_pid (the (G p ! gout g)) = party_of m (gout g)) \<and> party_of m (gout g) \<in> {1..on_nP E}"
    if "g \<in> set (gates_by_level ?lc ! 0)" "gtype g = kInp" for g
  proof -
    have g: "g \<in> set (circ_gates c)" using that(1) level0_gates [OF c] by blast
    then have "party_of m (gout g) \<in> {1..on_nP E}"
      using ready that(2) by (auto simp: online_ready_def field_gate_kind_def arith_gate_def)
    with gates_dealt_input [OF G c g that(2)] show ?thesis by (auto simp: party_inp_def)
  qed
  moreover have "\<exists>g\<in>set (gates_by_level ?lc ! 0). lacks_input (party_of m) inputs g"
  proof -
    from missing obtain g where "g \<in> set (circ_gates c)" "gtype g = kInp" "map_of (inputs (party_of m (gout g))) (gout g) = None"
      by (auto simp: inputs_given_def input_wires_def)
    then show ?thesis using inputs_level0 [OF c] by (auto simp: lacks_input_def)
  qed
  ultimately obtain d where "d \<in> {1..on_nP E}" "\<forall>me st. me \<noteq> 0 \<longrightarrow>
      foldO (set_input G inputs me) (gates_by_level ?lc ! 0) st = (if d = me then Some (Inl out_of_range) else None)"
    using set_inputs_lacks [of "gates_by_level ?lc ! 0" G "party_of m" "on_nP E" inputs] by blast
  then show ?thesis by (intro bexI [of _ d]) (simp_all add: online_start_def setInputs_def)
qed

lemma online_run_inv:
  fixes E :: "('g, 'f::comm_ring_1) online_env"
  assumes ready: "online_ready E c m kf kb \<delta> G" and given: "inputs_given c m inputs"
  shows "\<exists>S. (\<forall>p. online_start G inputs (orderGatesByLevel c) p = Some (Inr (S p))) \<and>
    online_inv E kf (online_vals E (G 0) \<delta> R (owned_input m inputs) (circ_gates c)) \<delta> (mult_wires c) (gout ` set (circ_gates c))
      (fold (evaluateGatesAtDepth E G) (gates_by_level (orderGatesByLevel c)) S)"
proof -
  have c: "circuit_ok c" using ready by (simp add: online_ready_def)
  have "gout ` set (circ_gates c) \<union> input_wires c = gout ` set (circ_gates c)" by (auto simp: input_wires_def)
  then show ?thesis
    using on.run_circuit [OF c] online_start_inv [OF assms] online_gates_fine [OF ready] by metis
qed

lemma online_MAC:
  fixes E :: "('g, 'f::comm_ring_1) online_env"
  assumes ready: "online_ready E c m kf kb \<delta> G" and inv: "online_inv E kf v \<delta> (mult_wires c) (gout ` set (circ_gates c)) S"
  shows "MACVerification E G (orderGatesByLevel c) prg S"
proof -
  let ?lc = "orderGatesByLevel c"
  have c: "circuit_ok c" and ok: "gates_ok (circ_gates c)"
    and G: "gates_dealt (on_nP E) kf (field_ok (on_nP E) kf kb (on_conv E)) (party_inp m) \<delta> (concat (gates_by_level ?lc)) 0 G"
    using ready by (auto simp: online_ready_def circuit_ok_def)
  note set = set_orderGatesByLevel [OF c]
  have key: "key_sh (sh_at (G p) 0) = kf p" if p: "1 \<le> p" "p \<le> on_nP E" and ne: "concat (gates_by_level ?lc) \<noteq> []" for p
  proof -
    have "circ_gates c \<noteq> []" using ne set by (metis set_empty2)
    then have z: "0 < length (circ_gates c)" by simp
    have "gout (circ_gates c ! 0) = 0" by (rule gates_okD(1) [OF ok z])
    with gates_dealt_shared [OF G c nth_mem [OF z], of 0] have "shared (on_nP E) kf (\<lambda>p. sh_at (G p) 0) (\<delta> 0)" by simp
    from sharedD(1) [OF this p] show ?thesis .
  qed
  have "gtype g \<in> set mult_types" if "mac_terms (gtype g) \<noteq> 0" for g :: "'f gate"
    using that by (auto simp: mac_terms_def split: if_splits)
  then have "\<forall>g\<in>set (concat (gates_by_level ?lc)). mac_terms (gtype g) \<noteq> 0 \<longrightarrow>
      (\<forall>p\<in>{1..on_nP E}. q_val (S p) ! gout g = v ! gout g + \<delta> (gout g)) \<and>
      shared (on_nP E) kf (\<lambda>p. q_sh (S p) ! gout g) (v ! gout g + \<delta> (gout g))"
    using inv mult_wires_iff [OF c] unfolding set online_inv_def by blast
  from MACVerification_iff [where x = "\<lambda>w. v ! w + \<delta> w" and q = "\<lambda>w. v ! w + \<delta> w", OF key this]
  show ?thesis by (simp add: mac_deviation_zero)
qed

text \<open>The whole run: no abort, and every party's result is the list of the outputs' values.\<close>

lemma evaluateCircuit_eq:
  fixes E :: "('g, 'f::comm_ring_1) online_env"
  assumes ready: "online_ready E c m kf kb \<delta> G" and given: "inputs_given c m inputs" and me: "1 \<le> me" "me \<le> on_nP E"
  shows "evaluateCircuit E G (orderGatesByLevel c) prg inputs me =
    Some (Inr (map (\<lambda>w. online_vals E (G 0) \<delta> R (owned_input m inputs) (circ_gates c) ! w) (circ_outputs c)))"
proof -
  let ?lc = "orderGatesByLevel c" and ?v = "online_vals E (G 0) \<delta> R (owned_input m inputs) (circ_gates c)"
  have c: "circuit_ok c" and ok: "gates_ok (circ_gates c)"
    and G: "gates_dealt (on_nP E) kf (field_ok (on_nP E) kf kb (on_conv E)) (party_inp m) \<delta> (concat (gates_by_level ?lc)) 0 G"
    using ready by (auto simp: online_ready_def circuit_ok_def)
  obtain S where S: "\<And>p. online_start G inputs ?lc p = Some (Inr (S p))"
    and inv: "online_inv E kf ?v \<delta> (mult_wires c) (gout ` set (circ_gates c)) (fold (evaluateGatesAtDepth E G) (gates_by_level ?lc) S)"
    using online_run_inv [OF ready given] by blast
  let ?S = "fold (evaluateGatesAtDepth E G) (gates_by_level ?lc) S"
  have M: "masked ?v \<delta> (gout ` set (circ_gates c)) (wires (?S me))" using inv me by (simp add: online_inv_def)
  have w: "wires (?S me) ! w - secret (snd (mask_at (G 0) w)) = ?v ! w" if "w \<in> set (circ_outputs c)" for w
  proof -
    have l: "w < length (circ_gates c)" using that c by (simp add: circuit_ok_def)
    then have "w \<in> gout ` set (circ_gates c)" using gates_okD(1) [OF ok l] by (metis image_eqI nth_mem)
    from maskedD(1) [OF M this] gates_dealt_secret [OF G c l] show ?thesis by simp
  qed
  show ?thesis
    using online_MAC [OF ready inv, of prg] me w
    by (auto simp: evaluateCircuit_def S getOutputs_def output_masks_def Let_def intro!: nth_equalityI)
qed

lemma evaluateCircuit_lacks:
  fixes E :: "('g, 'f::comm_ring_1) online_env"
  assumes "online_ready E c m kf kb \<delta> G" "\<not> inputs_given c m inputs"
  shows "\<exists>d\<in>{1..on_nP E}. \<forall>me\<in>{0..on_nP E}. evaluateCircuit E G (orderGatesByLevel c) prg inputs me =
    (if d = me then Some (Inl out_of_range) else None)"
proof -
  obtain d where d: "d \<in> {1..on_nP E}" "\<And>me. me \<noteq> 0 \<Longrightarrow> online_start G inputs (orderGatesByLevel c) me = (if d = me then Some (Inl out_of_range) else None)"
    using online_start_lacks [OF assms] by blast
  have "\<not> (\<forall>p\<in>{0..on_nP E}. returns (online_start G inputs (orderGatesByLevel c) p))"
    using d by (auto intro!: bexI [of _ d])
  then have "evaluateCircuit E G (orderGatesByLevel c) prg inputs me = stopped (online_start G inputs (orderGatesByLevel c) me)" for me
    unfolding evaluateCircuit_def Let_def by (rule if_not_P)
  moreover have "stopped (online_start G inputs (orderGatesByLevel c) me) = (if d = me then Some (Inl out_of_range) else None)" for me
  proof (cases "me = 0")
    case True
    then show ?thesis using d(1) by (simp add: online_start_def setInputs_def set_inputs_dealer)
  qed (simp add: d(2))
  ultimately show ?thesis by (intro bexI [OF _ d(1)] ballI) (simp only:)
qed


subsection \<open>What the comparison gates compute\<close>

text \<open>
  The field of integers modulo an odd prime, as NTL documents it: \<open>rep\<close> (here \<open>on_zz\<close>) gives the
  representative below the modulus, it is additive modulo the modulus, and \<open>conv\<close> to \<open>uint64_t\<close> goes
  through it. The modulus fits into 64 bits.
\<close>

definition zz_field :: "('g, 'f::comm_ring_1) online_env \<Rightarrow> bool" where
  "zz_field E \<longleftrightarrow> 2 \<le> on_modulus E \<and> on_modulus E \<le> 2 ^ 64 \<and> inj (on_zz E) \<and>
     (\<forall>x. on_zz E x < on_modulus E) \<and> (\<forall>x y. on_zz E (x + y) = (on_zz E x + on_zz E y) mod on_modulus E) \<and>
     (\<forall>k. on_zz E (of_nat k) = k mod on_modulus E) \<and> (\<forall>x. on_conv E x = word_of_nat (on_zz E x))"

lemma zz_field_conv:
  fixes E :: "('g, 'f::comm_ring_1) online_env"
  assumes "zz_field E"
  shows "on_conv E x < on_conv E y \<longleftrightarrow> on_zz E x < on_zz E y" "on_conv E x = on_conv E y \<longleftrightarrow> x = y"
proof -
  have l: "unat (on_conv E z) = on_zz E z" for z
  proof -
    have "on_zz E z < on_modulus E" "on_modulus E \<le> 2 ^ 64" using assms by (auto simp: zz_field_def)
    then have "on_zz E z < 2 ^ 64" by (rule less_le_trans)
    moreover have "unat (word_of_nat k :: u64) = k mod 2 ^ 64" for k by (simp add: unsigned_of_nat take_bit_eq_mod)
    ultimately show ?thesis using assms by (simp add: zz_field_def)
  qed
  show "on_conv E x < on_conv E y \<longleftrightarrow> on_zz E x < on_zz E y" by (simp add: word_less_nat_alt l)
  have "on_conv E x = on_conv E y \<longleftrightarrow> on_zz E x = on_zz E y" using l by (metis unsigned_word_eqI)
  then show "on_conv E x = on_conv E y \<longleftrightarrow> x = y" using assms by (auto simp: zz_field_def inj_eq)
qed

lemma eqz_bit_eq: "zz_field E \<Longrightarrow> eqz_bit E r x \<longleftrightarrow> x = 0"
  by (simp add: eqz_bit_def zz_field_conv)

lemma wrap_less:
  fixes a b p :: nat
  assumes "a < p" "b < p"
  shows "(a + b) mod p < b \<longleftrightarrow> p \<le> a + b"
proof (cases "p \<le> a + b")
  case True
  then have "(a + b) mod p = a + b - p" using assms by (simp add: mod_if)
  with True assms show ?thesis by simp
qed (use assms in simp)

text \<open>
  The three wraps around the modulus that the protocol sees determine the fourth: adding \<open>M\<close> and the
  mask \<open>r\<close> to \<open>x\<close> in either order wraps equally often.
\<close>

lemma wraps_parity:
  fixes x r M p :: nat
  assumes "x < p" "r < p" "M < p"
  defines "a \<equiv> (x + r) mod p"
  shows "((a < r) \<noteq> ((a + M) mod p < r)) \<noteq> ((a + M) mod p < M) \<longleftrightarrow> p \<le> x + M"
proof -
  let ?y = "(x + M) mod p"
  have p: "0 < p" using assms(1) by simp
  have c: "(a + M) mod p = (?y + r) mod p" by (simp add: a_def mod_add_left_eq mod_add_right_eq ac_simps)
  have w: "z + b = (z + b) mod p + (if p \<le> z + b then p else 0)" if "z < p" "b < p" for z b
    using that by (auto simp: mod_if)
  have a: "a < p" "?y < p" using p by (simp_all add: a_def)
  have "x + r = a + (if p \<le> x + r then p else 0)" using w [OF assms(1,2)] by (simp add: a_def)
  moreover have "a + M = (?y + r) mod p + (if p \<le> a + M then p else 0)" using w [OF a(1) assms(3)] c by simp
  moreover have "x + M = ?y + (if p \<le> x + M then p else 0)" by (rule w [OF assms(1,3)])
  moreover have "?y + r = (?y + r) mod p + (if p \<le> ?y + r then p else 0)" by (rule w [OF a(2) assms(2)])
  ultimately have "(if p \<le> x + r then p else 0) + (if p \<le> a + M then p else 0) =
      (if p \<le> x + M then p else 0) + (if p \<le> ?y + r then p else 0)" by linarith
  then have par: "((p \<le> x + r) \<noteq> (p \<le> ?y + r)) \<noteq> (p \<le> a + M) \<longleftrightarrow> p \<le> x + M"
    using p by (simp split: if_splits)
  have "a < r \<longleftrightarrow> p \<le> x + r" "(a + M) mod p < M \<longleftrightarrow> p \<le> a + M" "(a + M) mod p < r \<longleftrightarrow> p \<le> ?y + r"
    using wrap_less [OF assms(1,2)] wrap_less [OF a(1) assms(3)] wrap_less [OF a(2) assms(2)] by (simp_all add: a_def [symmetric] c)
  with par show ?thesis by simp
qed

lemma ltz_bit_eq:
  fixes E :: "('g, 'f::comm_ring_1) online_env"
  assumes "zz_field E" "2 < on_modulus E"
  shows "ltz_bit E r x \<longleftrightarrow> on_modulus E \<le> on_zz E x + ltz_M E"
proof -
  let ?p = "on_modulus E" and ?M = "ltz_M E"
  have M: "?M < ?p" using assms(2) unfolding ltz_M_def by linarith
  have zz: "on_zz E (x + r) = (on_zz E x + on_zz E r) mod ?p" "on_zz E x < ?p" "on_zz E r < ?p"
    "on_zz E (x + r + of_nat ?M) = (on_zz E (x + r) + ?M) mod ?p"
    using assms(1) M by (simp_all add: zz_field_def)
  show ?thesis
    unfolding ltz_bit_def zz_field_conv(1) [OF assms(1)] zz(4)
    using wraps_parity [OF zz(2,3) M] by (simp only: zz(1))
qed

text \<open>
  The plaintext value of a comparison gate, and when the whole evaluation is the plaintext one: all
  mask bits of equality gates are 0.
\<close>

definition field_val :: "('g, 'f::comm_ring_1) online_env \<Rightarrow> 'f ringops \<Rightarrow> (wire_t \<Rightarrow> 'f) \<Rightarrow> 'f list \<Rightarrow> 'f gate \<Rightarrow> 'f" where
  "field_val E R inp v g =
     (if gtype g = kLtz then of_bool (on_modulus E \<le> on_zz E (v ! (gins g ! 0)) + ltz_M E) else gate_val R inp v g)"

lemma online_val_field:
  fixes E :: "('g, 'f::comm_ring_1) online_env"
  assumes "zz_field E" "2 < on_modulus E" "gate_typed g" "gtype g = kEqz \<Longrightarrow> \<not> eqz_mask_bit G0 (gout g)"
  shows "online_val E G0 \<delta> R inp v g = field_val E R inp v g"
proof (cases "gtype g = kEqz")
  case True
  then obtain a out where "g = FIn1Gate kEqz a out" using assms(3) by (cases g) auto
  with assms(4) show ?thesis
    by (simp add: online_val_def field_val_def eqz_out_cases eqz_bit_eq [OF assms(1)])
next
  case False
  then show ?thesis by (simp add: online_val_def field_val_def ltz_bit_eq [OF assms(1,2)])
qed

lemma online_vals_field:
  fixes E :: "('g, 'f::comm_ring_1) online_env"
  assumes "zz_field E" "2 < on_modulus E" "circuit_ok c"
    "\<forall>g\<in>set (circ_gates c). gtype g = kEqz \<longrightarrow> \<not> eqz_mask_bit G0 (gout g)"
  shows "online_vals E G0 \<delta> R inp (circ_gates c) = vals_by (field_val E R inp) (circ_gates c)"
  unfolding online_vals_def
  by (rule vals_by_cong, rule online_val_field [OF assms(1,2)]) (use assms(3,4) circuit_typed in auto)

end
