(* ===== verification/Offline_Bool.thy ===== *)
theory Offline_Bool
  imports Offline
begin

section \<open>The boolean offline evaluator (class OfflineBoolEvaluator)\<close>

text \<open>
  \<open>OfflineBoolEvaluator\<close> of \<open>asterisk/offline_evaluator.cpp\<close> preprocesses a circuit over
  \<open>BoolRing\<close> on its own: an input of a party gets a random mask the party learns, an input of the
  dealer the mask the caller passes in \<open>bit_mask_map\<close>. Its messages are not packed.
\<close>

text \<open>
  The class has its own copies of the sharing routines and of the gate cases. They are those of
  \<open>OfflineEvaluator\<close> over \<open>BoolRing\<close>, statement by statement, with bits drawn instead of field elements.
\<close>

definition bool_randomShare :: "('g \<Rightarrow> BoolRing \<times> 'g) \<Rightarrow> nat \<Rightarrow> nat \<Rightarrow> ('g, BoolRing) deal_st \<Rightarrow> BoolRing mask \<times> ('g, BoolRing) deal_st" where
  "bool_randomShare = call_randomShare"

definition bool_randomShareSecret ::
  "('g \<Rightarrow> BoolRing \<times> 'g) \<Rightarrow> nat \<Rightarrow> nat \<Rightarrow> BoolRing \<Rightarrow> ('g, BoolRing) deal_st \<Rightarrow> BoolRing mask \<times> ('g, BoolRing) deal_st" where
  "bool_randomShareSecret = call_randomShareSecret"

definition bool_randomShareWithParty ::
  "('g \<Rightarrow> BoolRing \<times> 'g) \<Rightarrow> nat \<Rightarrow> nat \<Rightarrow> nat \<Rightarrow> BoolRing \<Rightarrow> ('g, BoolRing) deal_st \<Rightarrow> (BoolRing mask \<times> BoolRing) \<times> ('g, BoolRing) deal_st" where
  "bool_randomShareWithParty = call_randomShareWithParty"

lemmas bool_sharing_defs = bool_randomShare_def bool_randomShareSecret_def bool_randomShareWithParty_def

definition bool_inp ::
  "('g \<Rightarrow> BoolRing \<times> 'g) \<Rightarrow> nat \<Rightarrow> nat \<Rightarrow> nat \<Rightarrow> BoolRing \<Rightarrow> ('g, BoolRing) deal_st \<Rightarrow> bool_gate \<times> ('g, BoolRing) deal_st" where
  "bool_inp smp nP me pid bit_mask s =
     (if pid \<noteq> 0 then
        let ((m, v), s) = bool_randomShareWithParty smp nP me pid 0 s in (PreprocInput m pid v, s)
      else let (m, s) = bool_randomShareSecret smp nP me bit_mask s in (PreprocInput m pid 0, s))"

definition bool_arith ::
  "('g \<Rightarrow> BoolRing \<times> 'g) \<Rightarrow> nat \<Rightarrow> nat \<Rightarrow> bool_gate option list \<Rightarrow> BoolRing gate \<Rightarrow> ('g, BoolRing) deal_st \<Rightarrow>
   bool_gate option \<times> ('g, BoolRing) deal_st" where
  "bool_arith smp nP me = pre_arith me (bool_randomShare smp nP me) (bool_randomShareSecret smp nP me)"

definition bool_step ::
  "('g \<Rightarrow> BoolRing \<times> 'g) \<Rightarrow> nat \<Rightarrow> nat \<Rightarrow> (wire_t, nat) umap \<Rightarrow> (wire_t, BoolRing) umap \<Rightarrow> BoolRing gate \<Rightarrow>
   bool_gate option list \<times> ('g, BoolRing) deal_st \<Rightarrow> exn + bool_gate option list \<times> ('g, BoolRing) deal_st" where
  "bool_step smp nP me input_pid_map bit_mask_map g = (\<lambda>(gs, s).
     if gtype g = kInp then
       (case umap_at input_pid_map (gout g) of
          Inl e \<Rightarrow> Inl e
        | Inr pid \<Rightarrow>
            (case umap_at bit_mask_map (gout g) of
               Inl e \<Rightarrow> Inl e
             | Inr bit_mask \<Rightarrow> let (pg, s) = bool_inp smp nP me pid bit_mask s in Inr (gs[gout g := Some pg], s)))
     else let (pg, s) = bool_arith smp nP me gs g s
       in Inr (store_pre (gout g) pg gs, s))"

definition bool_key_setup ::
  "('g \<Rightarrow> BoolRing \<times> 'g) \<Rightarrow> nat \<Rightarrow> nat \<Rightarrow> 'g RandGenPool \<Rightarrow> BoolRing vecs \<Rightarrow> ('g, BoolRing) deal_st" where
  "bool_key_setup smp nP me rgen v =
     (let (keySh, key, rgen) = keyGen smp nP me rgen (replicate (nP + 1) 0) in (rgen, mk_pool key keySh v))"

definition bool_setWireMasksParty ::
  "('g \<Rightarrow> BoolRing \<times> 'g) \<Rightarrow> nat \<Rightarrow> BoolRing LevelOrderedCircuit \<Rightarrow> nat \<Rightarrow> (wire_t, nat) umap \<Rightarrow> (wire_t, BoolRing) umap \<Rightarrow>
   'g RandGenPool \<Rightarrow> BoolRing vecs \<Rightarrow> exn + bool_gate option list \<times> ('g, BoolRing) deal_st" where
  "bool_setWireMasksParty smp nP circ me input_pid_map bit_mask_map rgen v =
     foldE (foldE (bool_step smp nP me input_pid_map bit_mask_map)) (gates_by_level circ)
       (replicate (num_gates circ) None, bool_key_setup smp nP me rgen v)"

type_synonym bool_msgs = "nat list \<times> BoolRing list"

definition bool_dealer_msgs :: "BoolRing vecs \<Rightarrow> bool_msgs" where
  "bool_dealer_msgs v =
     ([length (v_rand_sh v) + length (v_rand_sh_sec v) + length (v_rand_sh_party v),
       length (v_rand_sh v), length (v_rand_sh_sec v), length (v_rand_sh_party v)], join_vecs v)"

definition bool_receive_msgs :: "bool_msgs \<Rightarrow> BoolRing vecs" where
  "bool_receive_msgs = (\<lambda>(lengths, offline_comm). split_vecs offline_comm (lengths ! 1) (lengths ! 2) (lengths ! 3))"

definition bool_setWireMasks ::
  "('g \<Rightarrow> BoolRing \<times> 'g) \<Rightarrow> nat \<Rightarrow> BoolRing LevelOrderedCircuit \<Rightarrow> nat \<Rightarrow> (wire_t, nat) umap \<Rightarrow> (wire_t, BoolRing) umap \<Rightarrow>
   'g RandGenPool \<Rightarrow> bool_msgs \<Rightarrow> exn + bool_gate option list \<times> ('g, BoolRing) deal_st \<times> bool_msgs option" where
  "bool_setWireMasks smp nP circ me input_pid_map bit_mask_map rgen msgs =
     (if me \<noteq> nP then
        (case bool_setWireMasksParty smp nP circ me input_pid_map bit_mask_map rgen no_vecs of
           Inl e \<Rightarrow> Inl e
         | Inr (gs, s) \<Rightarrow> Inr (gs, s, if me = 0 then Some (bool_dealer_msgs (pool_vecs (snd s))) else None))
      else
        (case bool_setWireMasksParty smp nP circ me input_pid_map bit_mask_map rgen (bool_receive_msgs msgs) of
           Inl e \<Rightarrow> Inl e
         | Inr (gs, s) \<Rightarrow> Inr (gs, s, None)))"

text \<open>The output masks: the shares of every party, and for the dealer its own shares as well.\<close>

definition bool_getOutputMasks ::
  "BoolRing LevelOrderedCircuit \<Rightarrow> nat \<Rightarrow> bool_gate option list \<Rightarrow> BoolRing AuthAddShare list \<times> BoolRing TPShare list" where
  "bool_getOutputMasks circ me gs =
     (map (\<lambda>w. fst (mask_at gs w)) (outputs circ), if me = 0 then map (\<lambda>w. snd (mask_at gs w)) (outputs circ) else [])"

subsection \<open>The interface of the dealing calls\<close>

interpretation S: dealing n kf "call_randomShare smp n" "call_randomShareSecret smp n" "deal_sync n kf" "deal_bufs n"
  for n and kf :: "nat \<Rightarrow> 'r::comm_ring_1" and smp :: "'g \<Rightarrow> 'r \<times> 'g"
proof
  fix st :: "nat \<Rightarrow> ('g, 'r) deal_st" and x :: "nat \<Rightarrow> 'r"
  show "deal_bufs n (\<lambda>p. snd (call_randomShare smp n p (st p))) \<Longrightarrow> deal_bufs n st"
    "deal_bufs n (\<lambda>p. snd (call_randomShareSecret smp n p (x p) (st p))) \<Longrightarrow> deal_bufs n st"
    by (fact deal_bufs_back)+
qed (fact call_randomShare_ok call_randomShareSecret_ok)+

text \<open>What a party or the dealer knows of an input's mask.\<close>

definition bit_inp ::
  "(wire_t, nat) umap \<Rightarrow> (wire_t, BoolRing) umap \<Rightarrow> nat \<Rightarrow> wire_t \<Rightarrow> BoolRing \<Rightarrow> (nat \<Rightarrow> bool_gate) \<Rightarrow> bool" where
  "bit_inp m bm k out x pgs \<longleftrightarrow> (\<forall>p. is_PreprocInput (pgs p) \<and> inp_pid (pgs p) = party_of m out) \<and>
     (if party_of m out \<noteq> 0 then mask_value (pgs (party_of m out)) = x
      else x = (case map_of bm out of None \<Rightarrow> 0 | Some b \<Rightarrow> b))"

abbreviation bool_handler ::
  "('g \<Rightarrow> BoolRing \<times> 'g) \<Rightarrow> nat \<Rightarrow> (wire_t, nat) umap \<Rightarrow> (wire_t, BoolRing) umap \<Rightarrow> nat \<Rightarrow> nat \<Rightarrow> wire_t \<Rightarrow>
   ('g, BoolRing) deal_st \<Rightarrow> bool_gate \<times> ('g, BoolRing) deal_st" where
  "bool_handler smp n m bm p k out \<equiv>
     bool_inp smp n p (party_of m out) (case map_of bm out of None \<Rightarrow> 0 | Some b \<Rightarrow> b)"

lemma bool_inp_law:
  fixes smp :: "'g \<Rightarrow> BoolRing \<times> 'g"
  assumes "\<forall>d\<in>ran (map_of m). d \<le> n"
  shows "S.inp_law n kb (bool_handler smp n m bm) (bit_inp m bm) k out"
  unfolding S.inp_law_def
proof (intro allI impI conjI)
  fix st :: "nat \<Rightarrow> ('g, BoolRing) deal_st"
  let ?d = "party_of m out" and ?x = "case map_of bm out of None \<Rightarrow> 0 | Some b \<Rightarrow> b"
  let ?C = "\<lambda>p. call_randomShareWithParty smp n p ?d 0 (st p)"
  let ?S = "\<lambda>p. call_randomShareSecret smp n p ?x (st p)"
  have d: "?d \<le> n" using assms by (auto simp: party_of_def ran_def split: option.splits)
  have eq: "bool_inp smp n p ?d ?x (st p) =
      (if ?d \<noteq> 0 then (PreprocInput (fst (fst (?C p))) ?d (snd (fst (?C p))), snd (?C p))
       else (PreprocInput (fst (?S p)) 0 0, snd (?S p)))" for p
    by (simp add: bool_inp_def bool_sharing_defs Let_def split_beta)
  assume b: "deal_bufs n (\<lambda>p. snd (bool_inp smp n p ?d ?x (st p)))"
  show "deal_bufs n st"
    using b deal_bufs_back(2) [of n smp "\<lambda>_. ?x" st] deal_bufs_back(3) [of n smp ?d "\<lambda>_. 0" st]
    unfolding eq by (cases "?d = 0") simp_all
  assume sync: "deal_sync n kb st"
  note C = call_randomShareWithParty_ok [where smp = smp and x = "\<lambda>_. 0", OF sync d]
  note D = call_randomShareSecret_ok [where smp = smp and x = "\<lambda>_. ?x", OF sync]
  show "deal_sync n kb (\<lambda>p. snd (bool_inp smp n p ?d ?x (st p)))"
    using b C(1) D(1) unfolding eq by (cases "?d = 0") simp_all
  show "\<exists>x. dealt_sel n kb pg_mask (\<lambda>p. fst (bool_inp smp n p ?d ?x (st p))) x \<and>
      bit_inp m bm k out x (\<lambda>p. fst (bool_inp smp n p ?d ?x (st p)))"
    using b C(3,4) D(3) unfolding eq by (cases "?d = 0") (auto simp: dealt_sel_def bit_inp_def)
qed

lemma bool_step_run:
  assumes "\<forall>g\<in>set gs. gtype g = kInp \<longrightarrow> map_of m (gout g) \<noteq> None \<and> map_of bm (gout g) \<noteq> None"
  shows "foldE (bool_step smp n me m bm) gs (G, s) =
    (let R = fold (run_gate (pre_arith me (call_randomShare smp n me) (call_randomShareSecret smp n me)) (bool_handler smp n m bm me))
       gs (G, ctr, s)
     in Inr (fst R, snd (snd R)))"
  using assms
proof (induction gs arbitrary: G s ctr)
  case (Cons g gs)
  show ?case
  proof (cases "gtype g = kInp")
    case True
    with Cons.prems obtain d b where "map_of m (gout g) = Some d" "map_of bm (gout g) = Some b" by auto
    with True Cons show ?thesis
      by (simp add: bool_step_def bool_arith_def bool_sharing_defs run_gate_def umap_at_def party_of_def Let_def split_beta)
  next
    case False
    with Cons show ?thesis by (simp add: bool_step_def bool_arith_def bool_sharing_defs run_gate_def Let_def split_beta)
  qed
qed simp

lemma bool_key_setup_sync:
  assumes "rgs_ok n rg" "0 < n" "v 0 = no_vecs"
  obtains kb where "deal_sync n kb (\<lambda>p. bool_key_setup smp n p (rg p) (v p))"
proof -
  have len: "length (replicate (Suc n) (0 :: BoolRing)) = Suc n" by simp
  note K = keyGen_ok [where smp = smp, OF assms(1) len]
  have eq: "bool_key_setup smp n p (rg p) (v p) = (let K = keyGen smp n p (rg p) (replicate (Suc n) 0)
      in (snd (snd K), mk_pool (fst (snd K)) (fst K) (v p)))" for p
    by (simp add: bool_key_setup_def Let_def split_beta del: replicate_Suc)
  have "deal_sync n (\<lambda>i. fst_draw smp (k_p0 (rg i))) (\<lambda>p. bool_key_setup smp n p (rg p) (v p))"
    unfolding deal_sync_def pools_ok_def eq Let_def fst_conv snd_conv using K assms(2,3)
    by (simp add: mk_pool_def no_vecs_def del: replicate_Suc)
  then show thesis by (rule that)
qed

definition has_bvecs :: "BoolRing vecs \<Rightarrow> ('g, BoolRing) deal_st \<Rightarrow> bool" where
  "has_bvecs v s \<longleftrightarrow> pool_vecs (snd s) = v"

lemma has_bvecs_run:
  fixes s :: "('g, BoolRing) deal_st"
  assumes "me \<noteq> 0" "has_bvecs v s"
  shows "has_bvecs v (snd (snd (fold (run_gate (pre_arith me (call_randomShare smp n me) (call_randomShareSecret smp n me))
    (bool_handler smp n m bm me)) gs (G, ctr, s))))"
proof -
  have calls: "has_bvecs v (snd (call_randomShare smp n me s))" "has_bvecs v (snd (call_randomShareSecret smp n me x s))"
    "has_bvecs v (snd (call_randomShareWithParty smp n me d x s))" if "has_bvecs v s" for s :: "('g, BoolRing) deal_st" and x d
    using assms(1) that by (simp_all add: has_bvecs_def pool_vecs_def call_bufs_dealer call_bufs_party)
  show ?thesis
  proof (rule run_gates_inv)
    show "has_bvecs v (snd (pre_arith me (call_randomShare smp n me) (call_randomShareSecret smp n me) gs g s))"
      if "has_bvecs v s" for g and gs :: "bool_gate option list" and s :: "('g, BoolRing) deal_st"
      by (rule pre_arith_inv) (use calls that in auto)
    show "has_bvecs v (snd (bool_handler smp n m bm me k out s))" if "has_bvecs v s"
      for k :: nat and out and s :: "('g, BoolRing) deal_st"
      using calls [OF that] by (simp add: bool_inp_def bool_sharing_defs Let_def split_beta)
  qed (use assms(2) in simp)
qed

subsection \<open>The evaluator as a whole\<close>

definition bool_offline_ok :: "nat \<Rightarrow> BoolRing Circuit \<Rightarrow> (wire_t, nat) umap \<Rightarrow> (wire_t, BoolRing) umap \<Rightarrow> bool" where
  "bool_offline_ok n c m bm \<longleftrightarrow> 0 < n \<and> circuit_ok c \<and>
     (\<forall>g\<in>set (circ_gates c). gtype g = kInp \<or> arith_gate g) \<and>
     (\<forall>g\<in>set (circ_gates c). gtype g = kInp \<longrightarrow> map_of m (gout g) \<noteq> None \<and> map_of bm (gout g) \<noteq> None) \<and>
     (\<forall>d\<in>ran (map_of m). d \<le> n)"

definition bool_offline_st ::
  "('g \<Rightarrow> BoolRing \<times> 'g) \<Rightarrow> nat \<Rightarrow> BoolRing Circuit \<Rightarrow> (wire_t, nat) umap \<Rightarrow> (wire_t, BoolRing) umap \<Rightarrow>
   (nat \<Rightarrow> 'g RandGenPool) \<Rightarrow> (nat \<Rightarrow> BoolRing vecs) \<Rightarrow> nat \<Rightarrow> bool_gate option list \<times> nat \<times> ('g, BoolRing) deal_st" where
  "bool_offline_st smp n c m bm rg v =
     run_joint (\<lambda>p. pre_arith p (call_randomShare smp n p) (call_randomShareSecret smp n p)) (bool_handler smp n m bm)
       (concat (gates_by_level (orderGatesByLevel c))) 0 (\<lambda>p. replicate (length (circ_gates c)) None)
       (\<lambda>p. bool_key_setup smp n p (rg p) (v p))"

lemma bool_setWireMasksParty_eq:
  assumes "bool_offline_ok n c m bm"
  shows "bool_setWireMasksParty smp n (orderGatesByLevel c) p m bm (rg p) (v p) =
    Inr (fst (bool_offline_st smp n c m bm rg v p), snd (snd (bool_offline_st smp n c m bm rg v p)))"
proof -
  let ?gs = "concat (gates_by_level (orderGatesByLevel c))"
  have "\<forall>g\<in>set ?gs. gtype g = kInp \<longrightarrow> map_of m (gout g) \<noteq> None \<and> map_of bm (gout g) \<noteq> None"
    using assms unfolding bool_offline_ok_def by (metis set_orderGatesByLevel)
  from bool_step_run [OF this, of smp n p "replicate (length (circ_gates c)) None" "bool_key_setup smp n p (rg p) (v p)" 0]
  show ?thesis
    by (simp add: bool_setWireMasksParty_def foldE_concat bool_offline_st_def run_joint_def Let_def del: set_concat)
qed

lemma bool_offline_dealt:
  assumes ok: "bool_offline_ok n c m bm" and rgs: "rgs_ok n rg" and v0: "v 0 = no_vecs"
    and vn: "has_bvecs (v n) (snd (snd (bool_offline_st smp n c m bm rg v 0)))"
  shows "\<exists>kb \<delta>. deal_sync n kb (\<lambda>p. snd (snd (bool_offline_st smp n c m bm rg v p))) \<and>
    gates_dealt n kb (arith_ok n kb) (bit_inp m bm) \<delta> (concat (gates_by_level (orderGatesByLevel c))) 0
      (\<lambda>p. fst (bool_offline_st smp n c m bm rg v p))"
proof -
  let ?S = "\<lambda>p. snd (snd (bool_offline_st smp n c m bm rg v p))"
  have n: "0 < n" and c: "circuit_ok c" and kinds: "\<forall>g\<in>set (circ_gates c). gtype g = kInp \<or> arith_gate g"
    and d: "\<forall>d\<in>ran (map_of m). d \<le> n"
    using ok by (auto simp: bool_offline_ok_def)
  obtain kb where sync: "deal_sync n kb (\<lambda>p. bool_key_setup smp n p (rg p) (v p))"
    using bool_key_setup_sync [where v = v, OF rgs n v0] by blast
  have laws: "\<forall>g\<in>set (circ_gates c). gtype g = kInp \<or> S.gate_law n kb
      (\<lambda>p. pre_arith p (call_randomShare smp n p) (call_randomShareSecret smp n p) :: bool_gate option list \<Rightarrow> _) (arith_ok n kb) g"
    using kinds S.gate_law_arith by blast
  have "has_bvecs (v n) (bool_key_setup smp n n (rg n) (v n))"
    by (simp add: bool_key_setup_def has_bvecs_def mk_pool_def pool_vecs_def Let_def split_beta)
  then have "has_bvecs (v n) (?S n)"
    unfolding bool_offline_st_def run_joint_def using has_bvecs_run n by blast
  with vn have b: "deal_bufs n ?S" by (simp add: deal_bufs_def bufs_of_vecs has_bvecs_def)
  show ?thesis
    using S.circuit_dealt(2) [OF c laws gate_cong_arith_ok bool_inp_law [OF d] b [unfolded bool_offline_st_def] sync]
    unfolding bool_offline_st_def by blast
qed

definition bool_offline_run ::
  "('g \<Rightarrow> BoolRing \<times> 'g) \<Rightarrow> nat \<Rightarrow> BoolRing Circuit \<Rightarrow> (wire_t, nat) umap \<Rightarrow> (wire_t, BoolRing) umap \<Rightarrow>
   (nat \<Rightarrow> 'g RandGenPool) \<Rightarrow> nat \<Rightarrow> exn + bool_gate option list \<times> ('g, BoolRing) deal_st \<times> bool_msgs option" where
  "bool_offline_run smp n c m bm rg me =
     (case bool_setWireMasks smp n (orderGatesByLevel c) 0 m bm (rg 0) ([], []) of
        Inr (gs, s, Some msgs) \<Rightarrow> bool_setWireMasks smp n (orderGatesByLevel c) me m bm (rg me) msgs
      | r \<Rightarrow> r)"

lemma bool_offline_run_dealt:
  assumes ok: "bool_offline_ok n c m bm" and rgs: "rgs_ok n rg"
  shows "\<exists>G st msgs kb \<delta>. (\<forall>p. bool_offline_run smp n c m bm rg p = Inr (G p, st p, msgs p)) \<and> deal_sync n kb st \<and>
    gates_dealt n kb (arith_ok n kb) (bit_inp m bm) \<delta> (concat (gates_by_level (orderGatesByLevel c))) 0 G"
proof -
  have n: "0 < n" using ok by (simp add: bool_offline_ok_def)
  define D where "D = bool_offline_st smp n c m bm rg (\<lambda>_. no_vecs) 0"
  define V where "V = pool_vecs (snd (snd (snd D)))"
  define v where "v p = (if p = n then V else no_vecs)" for p
  let ?R = "bool_offline_st smp n c m bm rg v"
  have D: "?R 0 = D" using n by (simp add: D_def bool_offline_st_def run_joint_def v_def)
  have dealer: "bool_setWireMasks smp n (orderGatesByLevel c) 0 m bm (rg 0) msgs = Inr (fst D, snd (snd D), Some (bool_dealer_msgs V))" for msgs
    using n bool_setWireMasksParty_eq [OF ok, of smp 0 rg "\<lambda>_. no_vecs"]
    by (simp add: bool_setWireMasks_def D_def V_def)
  have recv: "bool_receive_msgs (bool_dealer_msgs V) = V"
    using split_join_vecs [of V] by (simp add: bool_receive_msgs_def bool_dealer_msgs_def)
  have P: "bool_setWireMasksParty smp n (orderGatesByLevel c) p m bm (rg p) (v p) = Inr (fst (?R p), snd (snd (?R p)))" for p
    by (rule bool_setWireMasksParty_eq [OF ok])
  have "bool_offline_run smp n c m bm rg p = Inr (fst (?R p), snd (snd (?R p)), if p = 0 then Some (bool_dealer_msgs V) else None)" for p
    using n D dealer P [of p]
    by (cases "p = n") (auto simp: bool_offline_run_def bool_setWireMasks_def v_def recv split: if_splits)
  moreover have "has_bvecs (v n) (snd (snd (?R 0)))"
    by (simp add: D has_bvecs_def v_def V_def)
  with bool_offline_dealt [OF ok rgs, of v smp] n obtain kb \<delta> where "deal_sync n kb (\<lambda>p. snd (snd (?R p)))"
    "gates_dealt n kb (arith_ok n kb) (bit_inp m bm) \<delta> (concat (gates_by_level (orderGatesByLevel c))) 0 (\<lambda>p. fst (?R p))"
    by (auto simp: v_def)
  ultimately show ?thesis
    by (intro exI [of _ "\<lambda>p. fst (?R p)"] exI [of _ "\<lambda>p. snd (snd (?R p))"]
        exI [of _ "\<lambda>p. if p = 0 then Some (bool_dealer_msgs V) else None"] exI [of _ kb] exI [of _ \<delta>]) simp
qed

end
