(* ===== verification/Online_BoolRun.thy ===== *)
theory Online_BoolRun
  imports Online_Result Offline_Bool
begin

section \<open>The online phase of the boolean evaluator\<close>

text \<open>
  \<open>BoolEvaluator::setInputs\<close>, \<open>getOutputs\<close> and \<open>evaluateCircuit\<close>, and that a run returns the values of
  the output wires. An input goes through the dealer, which must not see the masked value: the
  owner pads it with a random bit that the parties, but not the dealer, have in common.
\<close>

subsection \<open>The run\<close>

text \<open>
  \<open>setInputs\<close> counts the inputs of each party in a vector of \<open>nP\<close> entries that it indexes with the
  owner. The owners are \<open>1, \<dots>, nP\<close>, so that an input of party \<open>nP\<close> writes out of bounds; no party
  has a result then. The loop handles one input gate after the other: every party counts it, and the
  parties draw the pad; the owner looks its value up, which throws if there is none, and sends it
  to the dealer, for whose message all others wait. An input of the dealer is never sent.
\<close>

definition num_inp_pid :: "nat \<Rightarrow> nat list \<Rightarrow> nat list option" where
  "num_inp_pid pid v = (if pid < length v then Some (v[pid := v ! pid + 1]) else None)"

definition bool_set_input ::
  "('g \<Rightarrow> BoolRing \<times> 'g) \<Rightarrow> (nat \<Rightarrow> bool_gate option list) \<Rightarrow> (nat \<Rightarrow> (wire_t, BoolRing) umap) \<Rightarrow> BoolRing gate \<Rightarrow>
   (nat \<Rightarrow> nat list \<times> 'g BoolEvaluator) \<Rightarrow> nat \<Rightarrow> (nat list \<times> 'g BoolEvaluator) outcome" where
  "bool_set_input smp G inputs g S me =
     (if gtype g = kInp then
        let pid = inp_pid (the (G me ! gout g)); (v, bv) = S me
        in case num_inp_pid pid v of None \<Rightarrow> None
        | Some v \<Rightarrow>
            if pid = 0 then None
            else let (r_pid, _) = draw_all_minus_0 smp (bv_rgen (snd (S pid)))
              in case umap_at (inputs pid) (gout g) of
                Inl e \<Rightarrow> if pid = me then Some (Inl e) else None
              | Inr x \<Rightarrow>
                  let q = mask_value (the (G pid ! gout g)) + x + r_pid
                  in Some (Inr (v,
                       if me \<noteq> 0 then
                         let (r_in, rg) = draw_all_minus_0 smp (bv_rgen bv)
                         in \<lparr>bv_st = set_wire (gout g) (q - r_in) (set_qval (gout g) q (bv_st bv)), bv_rgen = rg\<rparr>
                       else bv\<lparr>bv_st := set_qval (gout g) q (bv_st bv)\<rparr>))
      else Some (Inr (S me)))"

text \<open>A loop of all parties, in step: when one of them does not return, the others wait for it.\<close>

fun joint_foldO :: "('x \<Rightarrow> (nat \<Rightarrow> 's) \<Rightarrow> nat \<Rightarrow> 's outcome) \<Rightarrow> nat \<Rightarrow> 'x list \<Rightarrow> (nat \<Rightarrow> 's) \<Rightarrow> nat \<Rightarrow> 's outcome" where
  "joint_foldO f nP [] S me = Some (Inr (S me))"
| "joint_foldO f nP (x # xs) S me =
     (let T = f x S
      in if \<forall>p\<in>{0..nP}. returns (T p) then joint_foldO f nP xs (\<lambda>p. result (T p)) me else stopped (T me))"

definition BoolEvaluator_setInputs ::
  "('g \<Rightarrow> BoolRing \<times> 'g) \<Rightarrow> nat \<Rightarrow> (nat \<Rightarrow> bool_gate option list) \<Rightarrow> (nat \<Rightarrow> (wire_t, BoolRing) umap) \<Rightarrow>
   BoolRing LevelOrderedCircuit \<Rightarrow> (nat \<Rightarrow> 'g BoolEvaluator) \<Rightarrow> nat \<Rightarrow> 'g BoolEvaluator outcome" where
  "BoolEvaluator_setInputs smp nP G inputs circ E me =
     (case joint_foldO (bool_set_input smp G inputs) nP (gates_by_level circ ! 0) (\<lambda>p. (replicate nP 0, E p)) me of
        Some (Inr (_, bv)) \<Rightarrow> Some (Inr bv) | r \<Rightarrow> stopped r)"

text \<open>\<open>setRandomInputs\<close>, for benchmarks: the parties draw the masked inputs from their common generator.\<close>

definition BoolEvaluator_setRandomInputs ::
  "('g \<Rightarrow> BoolRing \<times> 'g) \<Rightarrow> BoolRing LevelOrderedCircuit \<Rightarrow> 'g BoolEvaluator \<Rightarrow> 'g BoolEvaluator" where
  "BoolEvaluator_setRandomInputs smp circ bv =
     (let (st, rg) = setRandomInputs smp circ (bv_st bv, bv_rgen bv) in \<lparr>bv_st = st, bv_rgen = rg\<rparr>)"

lemma BoolEvaluator_setRandomInputs_common:
  "wires (bv_st a) = wires (bv_st b) \<Longrightarrow> k_all (bv_rgen a) = k_all (bv_rgen b) \<Longrightarrow>
   wires (bv_st (BoolEvaluator_setRandomInputs smp circ a)) = wires (bv_st (BoolEvaluator_setRandomInputs smp circ b))"
  using setRandomInputs_common [of "(bv_st a, bv_rgen a)" "(bv_st b, bv_rgen b)" smp circ]
  by (simp add: same_inputs_def BoolEvaluator_setRandomInputs_def split_beta)

definition BoolEvaluator_getOutputs ::
  "(nat \<Rightarrow> bool_gate option list) \<Rightarrow> BoolRing LevelOrderedCircuit \<Rightarrow> nat \<Rightarrow> 'g BoolEvaluator \<Rightarrow> BoolRing list" where
  "BoolEvaluator_getOutputs G circ me bv =
     (if me = 0 then replicate (length (outputs circ)) 0
      else let masks = map (\<lambda>w. secret (snd (mask_at (G 0) w))) (outputs circ)
           in map (\<lambda>i. wires (bv_st bv) ! (outputs circ ! i) - masks ! i) [0..<length (outputs circ)])"

definition BoolEvaluator_evaluateCircuit ::
  "('g \<Rightarrow> BoolRing \<times> 'g) \<Rightarrow> ('g \<Rightarrow> BoolRing \<times> 'g) \<Rightarrow> nat \<Rightarrow> BoolRing LevelOrderedCircuit \<Rightarrow> (nat \<Rightarrow> bool_gate option list) \<Rightarrow>
   (nat \<Rightarrow> (wire_t, BoolRing) umap) \<Rightarrow> (nat \<Rightarrow> 'g RandGenPool) \<Rightarrow> nat \<Rightarrow> BoolRing list outcome" where
  "BoolEvaluator_evaluateCircuit smp smp4 nP circ G inputs rgen me =
     (let E = BoolEvaluator_setInputs smp nP G inputs circ (\<lambda>p. BoolEvaluator_new (rgen p) (num_gates circ))
      in if \<forall>p\<in>{0..nP}. returns (E p) then
           Some (Inr (BoolEvaluator_getOutputs G circ me
             (BoolEvaluator_evaluateAllLevels smp smp4 nP circ G (\<lambda>p. result (E p)) me)))
         else stopped (E me))"

subsection \<open>The inputs\<close>

text \<open>
  An input gate stops all parties if the counter has no entry for its owner, or if the owner, a
  party other than the dealer, has no value for it.
\<close>

definition stops_inputs :: "nat \<Rightarrow> (wire_t \<Rightarrow> nat) \<Rightarrow> (nat \<Rightarrow> (wire_t, BoolRing) umap) \<Rightarrow> BoolRing gate \<Rightarrow> bool" where
  "stops_inputs n own inputs g \<longleftrightarrow> gtype g = kInp \<and> own (gout g) \<notin> {1..<n} \<or> lacks_input own inputs g"

lemma bool_set_input_stop:
  assumes own: "gtype g = kInp \<Longrightarrow> inp_pid (the (G me ! gout g)) = own (gout g)" and len: "length (fst (S me)) = n"
  shows "\<not> stops_inputs n own inputs g \<Longrightarrow> \<exists>t. bool_set_input smp G inputs g S me = Some (Inr t) \<and> length (fst t) = n"
    "stops_inputs n own inputs g \<Longrightarrow> bool_set_input smp G inputs g S me =
       (if own (gout g) \<in> {1..<n} \<and> own (gout g) = me then Some (Inl out_of_range) else None)"
proof -
  obtain v bv where S: "S me = (v, bv)" by (cases "S me")
  show "\<not> stops_inputs n own inputs g \<Longrightarrow> \<exists>t. bool_set_input smp G inputs g S me = Some (Inr t) \<and> length (fst t) = n"
    using assms by (auto simp: S stops_inputs_def lacks_input_def bool_set_input_def num_inp_pid_def umap_at_def Let_def split: prod.split)
  show "stops_inputs n own inputs g \<Longrightarrow> bool_set_input smp G inputs g S me =
       (if own (gout g) \<in> {1..<n} \<and> own (gout g) = me then Some (Inl out_of_range) else None)"
    using assms by (auto simp: S stops_inputs_def lacks_input_def bool_set_input_def num_inp_pid_def umap_at_def Let_def
        split: prod.split)
qed

text \<open>The first such gate decides what becomes of every party.\<close>

lemma bool_inputs_stop:
  fixes S :: "nat \<Rightarrow> nat list \<times> 'g BoolEvaluator"
  assumes "\<forall>g\<in>set gs. gtype g = kInp \<longrightarrow> (\<forall>p. inp_pid (the (G p ! gout g)) = own (gout g))"
    and "\<exists>g\<in>set gs. stops_inputs n own inputs g" and "\<forall>p. length (fst (S p)) = n"
  shows "\<exists>g\<in>set gs. stops_inputs n own inputs g \<and> (\<forall>me. joint_foldO (bool_set_input smp G inputs) n gs S me =
    (if own (gout g) \<in> {1..<n} \<and> own (gout g) = me then Some (Inl out_of_range) else None))"
  using assms
proof (induction gs arbitrary: S)
  case (Cons g gs)
  note step = bool_set_input_stop [of g G _ own S n inputs smp]
  show ?case
  proof (cases "stops_inputs n own inputs g")
    case True
    then have out: "bool_set_input smp G inputs g S me = (if own (gout g) \<in> {1..<n} \<and> own (gout g) = me then Some (Inl out_of_range) else None)" for me
      using step(2) Cons.prems by simp
    then have "\<not> returns (bool_set_input smp G inputs g S 0)" by simp
    then have "joint_foldO (bool_set_input smp G inputs) n (g # gs) S me = stopped (bool_set_input smp G inputs g S me)" for me
      by (auto simp: Let_def)
    with True out show ?thesis by (intro bexI [of _ g]) auto
  next
    case False
    then have "\<forall>p. \<exists>t. bool_set_input smp G inputs g S p = Some (Inr t) \<and> length (fst t) = n"
      using step(1) Cons.prems by simp
    then obtain T where T: "\<And>p. bool_set_input smp G inputs g S p = Some (Inr (T p))" "\<forall>p. length (fst (T p)) = n"
      by metis
    have "\<exists>h\<in>set gs. stops_inputs n own inputs h \<and> (\<forall>me. joint_foldO (bool_set_input smp G inputs) n gs T me =
        (if own (gout h) \<in> {1..<n} \<and> own (gout h) = me then Some (Inl out_of_range) else None))"
      by (rule Cons.IH) (use Cons.prems False T(2) in auto)
    then show ?thesis by (simp add: T(1))
  qed
qed simp

lemma bool_inputs_masked:
  fixes S :: "nat \<Rightarrow> nat list \<times> 'g BoolEvaluator"
  assumes "\<forall>g\<in>set gs. gtype g = kInp \<longrightarrow> gout g < length v \<and> (\<forall>p. inp_pid (the (G p ! gout g)) = own (gout g)) \<and>
      own (gout g) \<in> {1..<n} \<and> (\<exists>x. map_of (inputs (own (gout g))) (gout g) = Some x \<and>
         mask_value (the (G (own (gout g)) ! gout g)) + x = v ! gout g + \<delta> (gout g))"
    "\<forall>p. length (fst (S p)) = n" "bv_masked n v \<delta> D (\<lambda>p. snd (S p))"
  shows "\<exists>T. (\<forall>p. joint_foldO (bool_set_input smp G inputs) n gs S p = Some (Inr (T p))) \<and>
    bv_masked n v \<delta> (D \<union> {gout g |g. g \<in> set gs \<and> gtype g = kInp}) (\<lambda>p. snd (T p))"
  using assms
proof (induction gs arbitrary: D S)
  case (Cons g gs)
  let ?D = "if gtype g = kInp then insert (gout g) D else D"
  have "\<not> stops_inputs n own inputs g"
    using Cons.prems(1) by (auto simp: stops_inputs_def lacks_input_def)
  then have "\<forall>p. \<exists>t. bool_set_input smp G inputs g S p = Some (Inr t) \<and> length (fst t) = n"
    using bool_set_input_stop(1) [of g G _ own S n inputs smp] Cons.prems(1,2) by simp
  then obtain T where T: "\<And>p. bool_set_input smp G inputs g S p = Some (Inr (T p))" "\<forall>p. length (fst (T p)) = n"
    by metis
  have "bv_masked n v \<delta> ?D (\<lambda>p. snd (T p))"
  proof (cases "gtype g = kInp")
    case True
    let ?d = "own (gout g)"
    obtain x where d: "?d \<in> {1..<n}" "\<And>p. inp_pid (the (G p ! gout g)) = ?d" "gout g < length v"
        "map_of (inputs ?d) (gout g) = Some x" "mask_value (the (G ?d ! gout g)) + x = v ! gout g + \<delta> (gout g)"
      using Cons.prems(1) True by auto
    obtain s where n: "0 < n" and s: "\<And>p. 1 \<le> p \<Longrightarrow> p \<le> n \<Longrightarrow> k_all_minus_0 (bv_rgen (snd (S p))) = s"
      and M: "\<And>p. 1 \<le> p \<Longrightarrow> p \<le> n \<Longrightarrow> masked v \<delta> D (wires (bv_st (snd (S p))))"
      using Cons.prems(3) by (auto simp: bv_masked_def insts_masked_def)
    obtain r s' where rs: "smp s = (r, s')" by (cases "smp s")
    have draw: "draw_all_minus_0 smp (bv_rgen (snd (S p))) = (r, (bv_rgen (snd (S p)))\<lparr>k_all_minus_0 := s'\<rparr>)" if "1 \<le> p" "p \<le> n" for p
      using s [OF that] rs by (simp add: draw_all_minus_0_def)
    have Tp: "T p = result (bool_set_input smp G inputs g S p)" for p by (simp add: T(1))
    have st: "wires (bv_st (snd (T p))) = (wires (bv_st (snd (S p))))[gout g := v ! gout g + \<delta> (gout g)]"
        "k_all_minus_0 (bv_rgen (snd (T p))) = s'" if "1 \<le> p" "p \<le> n" for p
      unfolding Tp using True d(1,2,4,5) draw [OF that] draw [of ?d] that Cons.prems(2)
      by (auto simp: bool_set_input_def num_inp_pid_def umap_at_def Let_def split_beta)
    show ?thesis
      unfolding bv_masked_def insts_masked_def using n True M masked_set [OF _ d(3) refl] st by auto
  next
    case False
    then have "T = S" using T(1) by (auto simp: bool_set_input_def)
    with False Cons.prems(3) show ?thesis by simp
  qed
  moreover have "?D \<union> {gout h |h. h \<in> set gs \<and> gtype h = kInp} = D \<union> {gout h |h. h \<in> set (g # gs) \<and> gtype h = kInp}"
    by auto
  ultimately show ?case using Cons.IH [of T ?D] Cons.prems(1) T by simp
qed auto

subsection \<open>Correctness\<close>

text \<open>
  What a run needs: dealt preprocessing, inputs of the parties \<open>1, \<dots>, n - 1\<close>, and common generators
  of the parties that agree.
\<close>

definition bool_online_ready ::
  "nat \<Rightarrow> BoolRing Circuit \<Rightarrow> (wire_t, nat) umap \<Rightarrow> (wire_t, BoolRing) umap \<Rightarrow> (nat \<Rightarrow> BoolRing) \<Rightarrow> (wire_t \<Rightarrow> BoolRing) \<Rightarrow>
   (nat \<Rightarrow> bool_gate option list) \<Rightarrow> (nat \<Rightarrow> 'g RandGenPool) \<Rightarrow> bool" where
  "bool_online_ready n c m bm kb \<delta> G rgen \<longleftrightarrow> 0 < n \<and> circuit_ok c \<and>
     (\<forall>g\<in>set (circ_gates c). gtype g = kInp \<and> party_of m (gout g) \<in> {1..<n} \<or> arith_gate g) \<and>
     (\<exists>s. \<forall>p\<in>{1..n}. k_all_minus_0 (rgen p) = s) \<and>
     gates_dealt n kb (arith_ok n kb) (bit_inp m bm) \<delta> (concat (gates_by_level (orderGatesByLevel c))) 0 G"

lemma bit_inp_owner:
  assumes "gates_dealt n kb GP (bit_inp m bm) \<delta> (concat (gates_by_level (orderGatesByLevel c))) 0 G" "circuit_ok c"
    "g \<in> set (gates_by_level (orderGatesByLevel c) ! 0)" "gtype g = kInp"
  shows "inp_pid (the (G p ! gout g)) = party_of m (gout g)"
proof -
  have "g \<in> set (circ_gates c)" using assms(3) level0_gates [OF assms(2)] by blast
  from gates_dealt_input [OF assms(1,2) this assms(4)] show ?thesis by (auto simp: bit_inp_def)
qed

text \<open>With the values of all inputs, all parties hold the masked inputs after \<open>setInputs\<close>.\<close>

lemma BoolEvaluator_setInputs_masked:
  fixes G :: "nat \<Rightarrow> bool_gate option list" and rgen :: "nat \<Rightarrow> 'g RandGenPool" and R :: "BoolRing ringops"
    and inputs :: "nat \<Rightarrow> (wire_t, BoolRing) umap"
  assumes ready: "bool_online_ready n c m bm kb \<delta> G rgen" and given: "inputs_given c m inputs"
  defines "v \<equiv> wire_vals R (owned_input m inputs) (circ_gates c)" and "lc \<equiv> orderGatesByLevel c"
  shows "\<exists>T. (\<forall>p. BoolEvaluator_setInputs smp n G inputs lc (\<lambda>p. BoolEvaluator_new (rgen p) (num_gates lc)) p = Some (Inr (T p))) \<and>
    bv_masked n v \<delta> (input_wires c) T"
proof -
  let ?E0 = "\<lambda>p. BoolEvaluator_new (rgen p) (num_gates lc)"
  have c: "circuit_ok c" and ok: "gates_ok (circ_gates c)" and n: "0 < n"
    and own: "\<And>g. g \<in> set (circ_gates c) \<Longrightarrow> gtype g = kInp \<Longrightarrow> party_of m (gout g) \<in> {1..<n}"
    and rg: "\<exists>s. \<forall>p\<in>{1..n}. k_all_minus_0 (rgen p) = s"
    and G: "gates_dealt n kb (arith_ok n kb) (bit_inp m bm) \<delta> (concat (gates_by_level lc)) 0 G"
    using ready by (auto simp: bool_online_ready_def circuit_ok_def arith_gate_def lc_def)
  have I: "{gout g |g. g \<in> set (gates_by_level lc ! 0) \<and> gtype g = kInp} = input_wires c"
    unfolding lc_def by (rule level0_inputs [OF c])
  have start: "bv_masked n v \<delta> {} (\<lambda>p. snd (replicate n (0 :: nat), ?E0 p))"
    using n rg by (simp add: bv_masked_def insts_masked_def masked_def BoolEvaluator_new_def online_new_def v_def lc_def)
  have "\<exists>T. (\<forall>p. joint_foldO (bool_set_input smp G inputs) n (gates_by_level lc ! 0) (\<lambda>p. (replicate n 0, ?E0 p)) p = Some (Inr (T p))) \<and>
    bv_masked n v \<delta> ({} \<union> {gout g |g. g \<in> set (gates_by_level lc ! 0) \<and> gtype g = kInp}) (\<lambda>p. snd (T p))"
  proof (rule bool_inputs_masked [where own = "party_of m", OF _ _ start], intro ballI impI)
    fix g assume g0: "g \<in> set (gates_by_level lc ! 0)" and t: "gtype g = kInp"
    have g: "g \<in> set (circ_gates c)" using g0 level0_gates [OF c] unfolding lc_def by blast
    have out: "gout g < length (circ_gates c)" by (rule gout_less [OF c g])
    have nth: "circ_gates c ! gout g = g" using g gates_okD(1) [OF ok] by (auto simp: in_set_conv_nth)
    have "g = Gate kInp (gout g)" using gates_okD(2) [OF ok out] t unfolding nth by (cases g) auto
    then have val: "v ! gout g = owned_input m inputs (gout g)"
      using wire_vals_fix [OF ok out, of R "owned_input m inputs"] unfolding nth v_def by (metis gate_val.simps(1))
    have "gout g \<in> input_wires c" using g t by (auto simp: input_wires_def)
    with given have x: "map_of (inputs (party_of m (gout g))) (gout g) = Some (v ! gout g)"
      by (auto simp: inputs_given_def val owned_input_def)
    obtain k where "bit_inp m bm k (gout g) (\<delta> (gout g)) (\<lambda>p. the (G p ! gout g))"
      using gates_dealt_input [OF G [unfolded lc_def] c g t] by blast
    with own [OF g t] x out show "gout g < length v \<and> (\<forall>p. inp_pid (the (G p ! gout g)) = party_of m (gout g)) \<and>
        party_of m (gout g) \<in> {1..<n} \<and> (\<exists>x. map_of (inputs (party_of m (gout g))) (gout g) = Some x \<and>
        mask_value (the (G (party_of m (gout g)) ! gout g)) + x = v ! gout g + \<delta> (gout g))"
      by (auto simp: bit_inp_def v_def add.commute)
  qed simp
  then obtain T where T: "\<forall>p. joint_foldO (bool_set_input smp G inputs) n (gates_by_level lc ! 0) (\<lambda>p. (replicate n 0, ?E0 p)) p = Some (Inr (T p))"
    "bv_masked n v \<delta> (input_wires c) (\<lambda>p. snd (T p))" unfolding I by auto
  have "BoolEvaluator_setInputs smp n G inputs lc ?E0 p = Some (Inr (snd (T p)))" for p
    using T(1) by (simp add: BoolEvaluator_setInputs_def split_beta)
  with T(2) show ?thesis by (intro exI [of _ "\<lambda>p. snd (T p)"]) simp
qed

lemma BoolEvaluator_run_masked:
  fixes G :: "nat \<Rightarrow> bool_gate option list" and R :: "BoolRing ringops" and inputs :: "nat \<Rightarrow> (wire_t, BoolRing) umap"
  assumes ready: "bool_online_ready n c m bm kb \<delta> G rgen"
  defines "v \<equiv> wire_vals R (owned_input m inputs) (circ_gates c)" and "lc \<equiv> orderGatesByLevel c"
  assumes E: "bv_masked n v \<delta> (input_wires c) E"
  shows "bv_masked n v \<delta> (gout ` set (circ_gates c)) (BoolEvaluator_evaluateAllLevels smp smp4 n lc G E)"
proof -
  have c: "circuit_ok c" and kinds: "\<forall>g\<in>set (circ_gates c). gtype g = kInp \<or> arith_gate g"
    and G: "gates_dealt n kb (arith_ok n kb) (bit_inp m bm) \<delta> (concat (gates_by_level lc)) 0 G"
    using ready by (auto simp: bool_online_ready_def lc_def)
  have "\<forall>g\<in>set (circ_gates c). bool_gate_fine n kb R 1 (\<lambda>_. owned_input m inputs) (\<lambda>_. v) (\<lambda>_. \<delta>) (\<lambda>p i. G p) (input_wires c) g"
    unfolding v_def
    using bool_gates_fine [OF c kinds, where k = 1 and \<delta> = "\<lambda>_. \<delta>" and IP = "\<lambda>_. bit_inp m bm" and G = "\<lambda>p i. G p" and inp = "\<lambda>_. owned_input m inputs"]
      G by (auto simp: input_wires_def lc_def)
  from bv.run_circuit [OF c this E]
  have "bv_masked n v \<delta> (gout ` set (circ_gates c) \<union> input_wires c) (BoolEvaluator_evaluateAllLevels smp smp4 n lc G E)"
    unfolding BoolEvaluator_evaluateAllLevels_def lc_def .
  moreover have "gout ` set (circ_gates c) \<union> input_wires c = gout ` set (circ_gates c)" by (auto simp: input_wires_def)
  ultimately show ?thesis by simp
qed

text \<open>The result of every party: the values of the output wires in the plaintext evaluation.\<close>

lemma BoolEvaluator_evaluateCircuit_eq:
  fixes G :: "nat \<Rightarrow> bool_gate option list" and rgen :: "nat \<Rightarrow> 'g RandGenPool"
  assumes ready: "bool_online_ready n c m bm kb \<delta> G rgen" and given: "inputs_given c m inputs" and me: "1 \<le> me" "me \<le> n"
  shows "BoolEvaluator_evaluateCircuit smp smp4 n (orderGatesByLevel c) G inputs rgen me =
    Some (Inr (map (\<lambda>w. wire_vals R (owned_input m inputs) (circ_gates c) ! w) (circ_outputs c)))"
proof -
  let ?lc = "orderGatesByLevel c" and ?v = "wire_vals R (owned_input m inputs) (circ_gates c)"
  obtain E where E: "\<And>p. BoolEvaluator_setInputs smp n G inputs ?lc (\<lambda>p. BoolEvaluator_new (rgen p) (num_gates ?lc)) p = Some (Inr (E p))"
    and M0: "bv_masked n ?v \<delta> (input_wires c) E"
    using BoolEvaluator_setInputs_masked [OF ready given, of smp R] by blast
  let ?T = "BoolEvaluator_evaluateAllLevels smp smp4 n ?lc G E"
  have c: "circuit_ok c" and ok: "gates_ok (circ_gates c)"
    and G: "gates_dealt n kb (arith_ok n kb) (bit_inp m bm) \<delta> (concat (gates_by_level ?lc)) 0 G"
    using ready by (auto simp: bool_online_ready_def circuit_ok_def)
  have M: "masked ?v \<delta> (gout ` set (circ_gates c)) (wires (bv_st (?T me)))"
    using BoolEvaluator_run_masked [OF ready M0, of smp smp4] me by (auto simp: bv_masked_def insts_masked_def)
  have w: "wires (bv_st (?T me)) ! w - secret (snd (mask_at (G 0) w)) = ?v ! w" if "w \<in> set (circ_outputs c)" for w
  proof -
    have l: "w < length (circ_gates c)" using that c by (simp add: circuit_ok_def)
    then have "w \<in> gout ` set (circ_gates c)" using gates_okD(1) [OF ok l] by (metis image_eqI nth_mem)
    from maskedD(1) [OF M this] gates_dealt_secret [OF G c l] show ?thesis by simp
  qed
  have "BoolEvaluator_evaluateCircuit smp smp4 n ?lc G inputs rgen me = Some (Inr (BoolEvaluator_getOutputs G ?lc me (?T me)))"
    by (simp add: BoolEvaluator_evaluateCircuit_def E Let_def del: orderGatesByLevel_fields)
  also have "BoolEvaluator_getOutputs G ?lc me (?T me) = map (\<lambda>w. ?v ! w) (circ_outputs c)"
    using me w by (auto simp: BoolEvaluator_getOutputs_def Let_def intro!: nth_equalityI)
  finally show ?thesis .
qed

text \<open>
  Without a result: an input of the last party or of the dealer, or an input without a value. The first such
  gate decides. Only an owner that finds no value throws.
\<close>

lemma BoolEvaluator_evaluateCircuit_stop:
  assumes G: "gates_dealt n kb GP (bit_inp m bm) \<delta> (concat (gates_by_level (orderGatesByLevel c))) 0 G" and c: "circuit_ok c"
    and stop: "\<exists>g\<in>set (circ_gates c). stops_inputs n (party_of m) inputs g"
  shows "\<exists>g\<in>set (circ_gates c). stops_inputs n (party_of m) inputs g \<and>
    (\<forall>me. BoolEvaluator_evaluateCircuit smp smp4 n (orderGatesByLevel c) G inputs rgen me =
      (if party_of m (gout g) \<in> {1..<n} \<and> party_of m (gout g) = me then Some (Inl out_of_range) else None))"
proof -
  let ?lc = "orderGatesByLevel c"
  let ?S = "BoolEvaluator_setInputs smp n G inputs ?lc (\<lambda>p. BoolEvaluator_new (rgen p) (num_gates ?lc))"
  have "\<exists>g\<in>set (gates_by_level ?lc ! 0). stops_inputs n (party_of m) inputs g"
    using stop inputs_level0 [OF c] by (auto simp: stops_inputs_def lacks_input_def)
  then obtain g where g: "g \<in> set (gates_by_level ?lc ! 0)" "stops_inputs n (party_of m) inputs g"
    and J: "\<And>me. joint_foldO (bool_set_input smp G inputs) n (gates_by_level ?lc ! 0) (\<lambda>p. (replicate n 0, BoolEvaluator_new (rgen p) (num_gates ?lc))) me =
      (if party_of m (gout g) \<in> {1..<n} \<and> party_of m (gout g) = me then Some (Inl out_of_range) else None)"
    using bool_inputs_stop [of "gates_by_level ?lc ! 0" G "party_of m" n inputs "\<lambda>p. (replicate n 0, BoolEvaluator_new (rgen p) (num_gates ?lc))" smp]
      bit_inp_owner [OF G c] by auto
  have S: "?S me = (if party_of m (gout g) \<in> {1..<n} \<and> party_of m (gout g) = me then Some (Inl out_of_range) else None)" for me
    unfolding BoolEvaluator_setInputs_def J by simp
  have "\<not> returns (?S 0)" unfolding S by simp
  then have "\<not> (\<forall>p\<in>{0..n}. returns (?S p))" by (metis atLeastAtMost_iff le0)
  then have "BoolEvaluator_evaluateCircuit smp smp4 n ?lc G inputs rgen me = stopped (?S me)" for me
    unfolding BoolEvaluator_evaluateCircuit_def Let_def by (rule if_not_P)
  then have "BoolEvaluator_evaluateCircuit smp smp4 n ?lc G inputs rgen me =
      (if party_of m (gout g) \<in> {1..<n} \<and> party_of m (gout g) = me then Some (Inl out_of_range) else None)" for me
    unfolding S by simp
  moreover have "g \<in> set (circ_gates c)" using g(1) level0_gates [OF c] by blast
  ultimately show ?thesis using g(2) by blast
qed

lemma BoolEvaluator_evaluateCircuit_lacks:
  assumes ready: "bool_online_ready n c m bm kb \<delta> G rgen" and "\<not> inputs_given c m inputs"
  shows "\<exists>d\<in>{1..<n}. \<forall>me. BoolEvaluator_evaluateCircuit smp smp4 n (orderGatesByLevel c) G inputs rgen me =
    (if d = me then Some (Inl out_of_range) else None)"
proof -
  have c: "circuit_ok c" and own: "\<And>g. g \<in> set (circ_gates c) \<Longrightarrow> gtype g = kInp \<Longrightarrow> party_of m (gout g) \<in> {1..<n}"
    and G: "gates_dealt n kb (arith_ok n kb) (bit_inp m bm) \<delta> (concat (gates_by_level (orderGatesByLevel c))) 0 G"
    using ready by (auto simp: bool_online_ready_def arith_gate_def)
  have "\<exists>g\<in>set (circ_gates c). stops_inputs n (party_of m) inputs g"
    using assms(2) by (fastforce simp: inputs_given_def input_wires_def stops_inputs_def lacks_input_def)
  from BoolEvaluator_evaluateCircuit_stop [OF G c this, of smp smp4 rgen]
  obtain g where g: "g \<in> set (circ_gates c)" "stops_inputs n (party_of m) inputs g"
    and run: "\<forall>me. BoolEvaluator_evaluateCircuit smp smp4 n (orderGatesByLevel c) G inputs rgen me =
      (if party_of m (gout g) \<in> {1..<n} \<and> party_of m (gout g) = me then Some (Inl out_of_range) else None)"
    by blast
  have "party_of m (gout g) \<in> {1..<n}" using own g by (auto simp: stops_inputs_def lacks_input_def)
  with run show ?thesis by (intro bexI [of _ "party_of m (gout g)"]) auto
qed

lemma BoolEvaluator_last_party_input:
  assumes "gates_dealt n kb (arith_ok n kb) (bit_inp m bm) \<delta> (concat (gates_by_level (orderGatesByLevel c))) 0 G" "circuit_ok c"
    "g \<in> set (circ_gates c)" "gtype g = kInp" "party_of m (gout g) = n"
  shows "BoolEvaluator_evaluateCircuit smp smp4 n (orderGatesByLevel c) G inputs rgen me = None \<or>
    BoolEvaluator_evaluateCircuit smp smp4 n (orderGatesByLevel c) G inputs rgen me = Some (Inl out_of_range) \<and>
      (\<exists>w\<in>input_wires c. party_of m w = me \<and> map_of (inputs me) w = None)"
proof -
  have "\<exists>g\<in>set (circ_gates c). stops_inputs n (party_of m) inputs g"
    using assms(3-5) by (intro bexI [of _ g]) (simp_all add: stops_inputs_def)
  from BoolEvaluator_evaluateCircuit_stop [OF assms(1,2) this, of smp smp4 rgen]
  obtain h where h: "h \<in> set (circ_gates c)" "stops_inputs n (party_of m) inputs h"
    and run: "BoolEvaluator_evaluateCircuit smp smp4 n (orderGatesByLevel c) G inputs rgen me =
      (if party_of m (gout h) \<in> {1..<n} \<and> party_of m (gout h) = me then Some (Inl out_of_range) else None)"
    by blast
  show ?thesis
  proof (cases "party_of m (gout h) \<in> {1..<n} \<and> party_of m (gout h) = me")
    case True
    then have "lacks_input (party_of m) inputs h" using h(2) by (simp add: stops_inputs_def)
    then have "gout h \<in> input_wires c \<and> party_of m (gout h) = me \<and> map_of (inputs me) (gout h) = None"
      using True h(1) by (auto simp: lacks_input_def input_wires_def)
    with True run show ?thesis by auto
  next
    case False
    then have "BoolEvaluator_evaluateCircuit smp smp4 n (orderGatesByLevel c) G inputs rgen me = None" unfolding run by (rule if_not_P)
    then show ?thesis ..
  qed
qed

text \<open>The offline phase makes ready for the online phase.\<close>

lemma evaluator_rgen_common: "k_all_minus_0 (evaluator_rgen reseed fresh p seed) = reseed 200"
  by (simp add: evaluator_rgen_def RandGenPool_new_def)

lemma offline_online_ready:
  fixes E :: "('g, 'f::comm_ring_1) offline_env" and F :: "('g, 'f) online_env"
  assumes ok: "offline_ok E c m" and seed: "oe_nP E \<le> seed" and own: "\<forall>d\<in>ran (map_of m). d \<noteq> 0"
    and F: "on_nP F = oe_nP E" "on_conv F = oe_conv E" "on_rgen F = (\<lambda>p. evaluator_rgen reseed' fresh' p seed')"
  shows "\<exists>G st msgs kf kb \<delta>. (\<forall>p. offline_run E c m (\<lambda>p. evaluator_rgen reseed fresh p seed) p = Inr (G p, st p, msgs p)) \<and>
    online_ready F c m kf kb \<delta> G"
proof -
  obtain G st msgs kf kb \<delta>
    where run: "\<forall>p. offline_run E c m (\<lambda>p. evaluator_rgen reseed fresh p seed) p = Inr (G p, st p, msgs p)"
    and G: "gates_dealt (oe_nP E) kf (field_ok (oe_nP E) kf kb (oe_conv E)) (party_inp m) \<delta>
      (concat (gates_by_level (orderGatesByLevel c))) 0 G"
    using offline_run_dealt [OF ok] seed by (metis evaluator_rgens_ok)
  have "party_of m (gout g) \<in> {1..oe_nP E}" if g: "g \<in> set (circ_gates c)" "gtype g = kInp" for g
  proof -
    obtain d where "map_of m (gout g) = Some d" using ok g by (auto simp: offline_ok_def)
    then show ?thesis using ok own by (fastforce simp: offline_ok_def party_of_def ran_def)
  qed
  then have "online_ready F c m kf kb \<delta> G"
    using ok G unfolding online_ready_def F offline_ok_def by (auto simp: evaluator_rgen_common)
  with run show ?thesis by blast
qed

lemma bool_offline_online_ready:
  assumes ok: "bool_offline_ok n c m bm" and seed: "n \<le> seed" and own: "\<forall>d\<in>ran (map_of m). d \<noteq> 0 \<and> d \<noteq> n"
  shows "\<exists>G st msgs kb \<delta>. (\<forall>p. bool_offline_run smp n c m bm (\<lambda>p. evaluator_rgen reseed fresh p seed) p = Inr (G p, st p, msgs p)) \<and>
    bool_online_ready n c m bm kb \<delta> G (\<lambda>p. evaluator_rgen reseed' fresh' p seed')"
proof -
  obtain G st msgs kb \<delta>
    where run: "\<forall>p. bool_offline_run smp n c m bm (\<lambda>p. evaluator_rgen reseed fresh p seed) p = Inr (G p, st p, msgs p)"
    and G: "gates_dealt n kb (arith_ok n kb) (bit_inp m bm) \<delta> (concat (gates_by_level (orderGatesByLevel c))) 0 G"
    using bool_offline_run_dealt [OF ok] seed by (metis evaluator_rgens_ok)
  have "party_of m (gout g) \<in> {1..<n}" if g: "g \<in> set (circ_gates c)" "gtype g = kInp" for g
  proof -
    obtain d where "map_of m (gout g) = Some d" using ok g by (auto simp: bool_offline_ok_def)
    then show ?thesis using ok own by (fastforce simp: bool_offline_ok_def party_of_def ran_def)
  qed
  then have "bool_online_ready n c m bm kb \<delta> G (\<lambda>p. evaluator_rgen reseed' fresh' p seed')"
    using ok G unfolding bool_online_ready_def bool_offline_ok_def by (auto simp: evaluator_rgen_common)
  with run show ?thesis by blast
qed

end
