(* ===== verification/AesCtr.thy ===== *)
theory AesCtr
  imports Prelude
begin

section \<open>Words in memory and the per-pair encryption (io/aes_ctr.h)\<close>

text \<open>
  The bytes \<open>memcpy\<close> copies out of and into an integer variable (little endian, as on the x86
  machines the code is written for), and the helpers of \<open>io::aes_ctr\<close>. OpenSSL is a parameter:
  \<open>sha256\<close> stands for \<open>EVP_Digest\<close> and \<open>ks key iv j\<close> for byte \<open>j\<close> of the AES-128-CTR key stream, with
  which \<open>EVP_EncryptUpdate\<close> is documented to XOR its input.
\<close>

subsection \<open>Integers as bytes\<close>

primrec le_bytes :: "nat \<Rightarrow> 'w::len word \<Rightarrow> bytes" where
  "le_bytes 0 w = []"
| "le_bytes (Suc n) w = ucast w # le_bytes n (drop_bit 8 w)"

primrec le_get :: "bytes \<Rightarrow> 'w::len word" where
  "le_get [] = 0"
| "le_get (b # bs) = ucast b OR push_bit 8 (le_get bs)"

lemma length_le_bytes [simp]: "length (le_bytes n w) = n"
  by (induction n arbitrary: w) simp_all

lemma bit_le_get_le_bytes:
  "bit (le_get (le_bytes n w) :: 'w::len word) k \<longleftrightarrow> k < 8 * n \<and> bit (w :: 'w word) k"
proof (induction n arbitrary: w k)
  case 0
  then show ?case by simp
next
  case (Suc n)
  show ?case
  proof (cases "k < 8")
    case True
    then show ?thesis by (auto simp: bit_or_iff bit_ucast_iff bit_push_bit_iff dest: bit_imp_le_length)
  next
    case False
    then have "bit (ucast (ucast w :: u8) :: 'w word) k = False"
      by (simp add: bit_ucast_iff)
    moreover have "bit (push_bit 8 (le_get (le_bytes n (drop_bit 8 w))) :: 'w word) k \<longleftrightarrow>
        k < LENGTH('w) \<and> k - 8 < 8 * n \<and> bit w k"
      using False Suc.IH [of "drop_bit 8 w" "k - 8"] by (auto simp: bit_push_bit_iff bit_drop_bit_eq)
    ultimately show ?thesis using False by (auto simp: bit_or_iff dest: bit_imp_le_length)
  qed
qed

lemma le_get_le_bytes: "LENGTH('w) \<le> 8 * n \<Longrightarrow> le_get (le_bytes n w) = (w :: 'w::len word)"
  by (rule bit_eqI) (auto simp: bit_le_get_le_bytes)

lemma le_get_32 [simp]: "le_get (le_bytes 4 w) = (w :: u32)"
  by (rule le_get_le_bytes) simp

lemma le_get_16 [simp]: "le_get (le_bytes 2 w) = (w :: u16)"
  by (rule le_get_le_bytes) simp

lemma le_bytes_inj: "LENGTH('w) \<le> 8 * n \<Longrightarrow> le_bytes n v = le_bytes n w \<longleftrightarrow> v = (w :: 'w::len word)"
  by (metis le_get_le_bytes)

lemma unat_ucast_16_32 [simp]: "unat (ucast (w :: u16) :: u32) = unat w"
  by transfer (simp add: min_def)

subsection \<open>Keys\<close>

text \<open>\<open>snprintf\<close> of the key string: the conversions \<open>%llu\<close> and \<open>%d\<close>.\<close>

fun fmt_u :: "nat \<Rightarrow> string" where
  "fmt_u n = (if n < 10 then [char_of (48 + n)] else fmt_u (n div 10) @ [char_of (48 + n mod 10)])"

declare fmt_u.simps [simp del]

definition fmt_d :: "int \<Rightarrow> string" where
  "fmt_d i = (if i < 0 then CHR ''-'' # fmt_u (nat (- i)) else fmt_u (nat i))"

definition key_string :: "u64 \<Rightarrow> int \<Rightarrow> int \<Rightarrow> string" where
  "key_string seed i j =
     (let lo = if i < j then i else j; hi = if i < j then j else i
      in ''asterisk-bcast|'' @ fmt_u (unat seed) @ ''|'' @ fmt_d lo @ ''|'' @ fmt_d hi)"

definition derive_pair_key :: "(string \<Rightarrow> bytes) \<Rightarrow> u64 \<Rightarrow> int \<Rightarrow> int \<Rightarrow> bytes" where
  "derive_pair_key sha256 seed i j = take 16 (sha256 (key_string seed i j))"

lemma derive_pair_key_sym: "derive_pair_key sha256 seed i j = derive_pair_key sha256 seed j i"
  by (simp add: derive_pair_key_def key_string_def)

text \<open>Different seeds or different pairs of parties have different key strings.\<close>

definition dec_val :: "string \<Rightarrow> nat" where
  "dec_val cs = foldl (\<lambda>v c. 10 * v + (of_char c - 48)) 0 cs"

lemma fmt_u_digit: "c \<in> set (fmt_u n) \<Longrightarrow> 48 \<le> (of_char c :: nat) \<and> (of_char c :: nat) < 58"
proof (induction n rule: fmt_u.induct)
  case (1 n)
  have d: "(of_char (char_of (48 + d) :: char) :: nat) = 48 + d" if "d < 10" for d :: nat
    using that by (simp add: of_char_mod_256)
  show ?case
    using "1.prems" "1.IH" d [of n] d [of "n mod 10"] by (subst (asm) fmt_u.simps) (auto split: if_splits)
qed

lemma dec_val_fmt_u: "dec_val (fmt_u n) = n"
proof (induction n rule: fmt_u.induct)
  case (1 n)
  have d: "(of_char (char_of (48 + d) :: char) :: nat) = 48 + d" if "d < 10" for d :: nat
    using that by (simp add: of_char_mod_256)
  show ?case
    using "1.IH" d [of n] d [of "n mod 10"] by (subst fmt_u.simps) (simp add: dec_val_def)
qed

lemma fmt_u_inj: "fmt_u m = fmt_u n \<longleftrightarrow> m = n"
  by (metis dec_val_fmt_u)

lemma fmt_no_bar: "CHR ''|'' \<notin> set (fmt_u n)" "CHR ''-'' \<notin> set (fmt_u n)"
  using fmt_u_digit [of "CHR ''|''" n] fmt_u_digit [of "CHR ''-''" n] by auto

lemma fmt_d_no_bar: "CHR ''|'' \<notin> set (fmt_d i)"
  by (simp add: fmt_d_def fmt_no_bar)

lemma fmt_d_inj: "fmt_d i = fmt_d j \<longleftrightarrow> i = j"
proof -
  have "fmt_u m \<noteq> CHR ''-'' # fmt_u n" for m n
    using fmt_no_bar(2) [of m] by (metis list.set_intros(1))
  then show ?thesis by (auto simp: fmt_d_def fmt_u_inj dest: sym)
qed

lemma split_bar:
  "CHR ''|'' \<notin> set a \<Longrightarrow> CHR ''|'' \<notin> set c \<Longrightarrow> a @ ''|'' @ b = c @ ''|'' @ d \<longleftrightarrow> a = c \<and> b = d"
proof (induction a arbitrary: c)
  case Nil
  then show ?case by (cases c) auto
next
  case (Cons x a)
  then show ?case by (cases c) auto
qed

lemma key_string_inj: "key_string s i j = key_string s' i' j' \<longleftrightarrow> s = s' \<and> {i, j} = {i', j'}"
proof -
  have "key_string s i j = key_string s' i' j' \<longleftrightarrow> s = s' \<and> min i j = min i' j' \<and> max i j = max i' j'"
    unfolding key_string_def Let_def same_append_eq split_bar [OF fmt_no_bar(1) fmt_no_bar(1)]
      split_bar [OF fmt_d_no_bar fmt_d_no_bar] fmt_u_inj fmt_d_inj word_unat_eq_iff [symmetric]
    by (auto simp: min_def max_def)
  then show ?thesis by (auto simp: min_def max_def doubleton_eq_iff)
qed

subsection \<open>Nonces\<close>

definition build_nonce :: "u8 \<Rightarrow> u8 \<Rightarrow> u8 \<Rightarrow> u32 \<Rightarrow> u16 \<Rightarrow> bytes" where
  "build_nonce channel_role sender_id target_pid seq idx =
     [channel_role, sender_id, target_pid, 0] @ le_bytes 4 seq @ le_bytes 2 idx @ [0, 0]"

lemma length_build_nonce [simp]: "length (build_nonce r s t q i) = 12"
  by (simp add: build_nonce_def)

lemma build_nonce_inj:
  "build_nonce r s t q i = build_nonce r' s' t' q' i' \<longleftrightarrow> r = r' \<and> s = s' \<and> t = t' \<and> q = q' \<and> i = i'"
  by (simp add: build_nonce_def le_bytes_inj)

subsection \<open>Encryption\<close>

definition crypt :: "(bytes \<Rightarrow> bytes \<Rightarrow> nat \<Rightarrow> u8) \<Rightarrow> bytes \<Rightarrow> bytes \<Rightarrow> bytes \<Rightarrow> bytes" where
  "crypt ks key nonce inp =
     (if inp = [] then [] else let iv = nonce @ replicate 4 0
      in map (\<lambda>j. inp ! j XOR ks key iv j) [0..<length inp])"

lemma length_crypt [simp]: "length (crypt ks key nonce inp) = length inp"
  by (simp add: crypt_def Let_def)

lemma crypt_Nil [simp]: "crypt ks key nonce [] = []"
  by (simp add: crypt_def)

lemma crypt_eq_Nil [simp]: "crypt ks key nonce inp = [] \<longleftrightarrow> inp = []"
  using length_crypt [of ks key nonce inp] by (metis length_0_conv)

lemma crypt_crypt: "crypt ks key nonce (crypt ks key nonce inp) = inp"
proof (rule nth_equalityI)
  fix j assume "j < length (crypt ks key nonce (crypt ks key nonce inp))"
  then have j: "j < length inp" by simp
  have C: "crypt ks key nonce xs ! j = xs ! j XOR ks key (nonce @ replicate 4 0) j" if "j < length xs" for xs
    using that by (auto simp: crypt_def Let_def)
  show "crypt ks key nonce (crypt ks key nonce inp) ! j = inp ! j"
    using j by (simp add: C xor.assoc)
qed simp

end
