(* ===== verification/Bus.thy ===== *)
theory Bus
  imports AesCtr "HOL-Library.AList" "HOL-Library.Product_Lexorder"
begin

section \<open>The broadcast bus (io/bcast_bus.h, io/bcast_bus.cpp)\<close>

text \<open>
  One \<open>BcastBus\<close> per host: frames on the wire, the state per target and per sender, sending,
  receiving and the pump. A datagram is its bytes. \<open>sendto\<close> is a list of frames put on the wire,
  with its return values as an argument where the code looks at them; clock readings are arguments;
  the scheduler only delays a frame and is left out here. Each of the functions below runs
  between one \<open>lock_guard\<close> and the next, or composes such steps in the order of the code.
  A \<open>std::map\<close> that is only searched is an association list; \<open>nack_state\<close>, which is iterated,
  is kept sorted by its keys.
\<close>

subsection \<open>Frames\<close>

abbreviation (input) MAX_PAYLOAD :: nat where "MAX_PAYLOAD \<equiv> 1400"
abbreviation (input) HEADER_SIZE :: nat where "HEADER_SIZE \<equiv> 20"
abbreviation (input) SYNC_MAGIC :: u32 where "SYNC_MAGIC \<equiv> 0xBEEFCAFE"
abbreviation (input) KIND_DATA :: u32 where "KIND_DATA \<equiv> 0"
abbreviation (input) KIND_NACK :: u32 where "KIND_NACK \<equiv> 1"
abbreviation (input) KIND_POISON :: u32 where "KIND_POISON \<equiv> 2"

definition mk_frame :: "u32 \<Rightarrow> u8 \<Rightarrow> u8 \<Rightarrow> u32 \<Rightarrow> u16 \<Rightarrow> u16 \<Rightarrow> u32 \<Rightarrow> bytes \<Rightarrow> bytes" where
  "mk_frame kind sender target seq idx tot plen payload =
     le_bytes 4 kind @ [sender, target, 0, 0] @ le_bytes 4 seq @ le_bytes 2 idx @ le_bytes 2 tot @
     le_bytes 4 plen @ payload"

definition hdr_kind :: "bytes \<Rightarrow> u32" where "hdr_kind buf = le_get (take 4 buf)"
definition hdr_sender :: "bytes \<Rightarrow> u8" where "hdr_sender buf = buf ! 4"
definition hdr_target :: "bytes \<Rightarrow> u8" where "hdr_target buf = buf ! 5"
definition hdr_seq :: "bytes \<Rightarrow> u32" where "hdr_seq buf = le_get (take 4 (drop 8 buf))"
definition hdr_idx :: "bytes \<Rightarrow> u16" where "hdr_idx buf = le_get (take 2 (drop 12 buf))"
definition hdr_tot :: "bytes \<Rightarrow> u16" where "hdr_tot buf = le_get (take 2 (drop 14 buf))"
definition hdr_plen :: "bytes \<Rightarrow> u32" where "hdr_plen buf = le_get (take 4 (drop 16 buf))"

named_theorems hdr_simps

lemma hdr_mk_frame [hdr_simps]:
  "hdr_kind (mk_frame k s t q i n l p) = k" "hdr_sender (mk_frame k s t q i n l p) = s"
  "hdr_target (mk_frame k s t q i n l p) = t" "hdr_seq (mk_frame k s t q i n l p) = q"
  "hdr_idx (mk_frame k s t q i n l p) = i" "hdr_tot (mk_frame k s t q i n l p) = n"
  "hdr_plen (mk_frame k s t q i n l p) = l" "drop HEADER_SIZE (mk_frame k s t q i n l p) = p"
  "length (mk_frame k s t q i n l p) = HEADER_SIZE + length p"
  unfolding hdr_kind_def hdr_sender_def hdr_target_def hdr_seq_def hdr_idx_def hdr_tot_def hdr_plen_def mk_frame_def
  by (simp_all add: nth_append)

subsection \<open>State\<close>

record Partial =
  frag_total :: u32
  received :: u32
  frags :: "bytes list"

record Chunk =
  ch_bytes :: bytes
  ch_offset :: nat

record TxRecord =
  tr_frag_total :: u16
  tr_payload_len :: u32
  tr_payload :: bytes
  nack_count :: u32

record NackRec =
  attempts :: u32
  last_nack_ns :: u64

abbreviation (input) TX_BUF_CAP_STREAMS :: nat where "TX_BUF_CAP_STREAMS \<equiv> 4096"

record TxState =
  local_seq :: u32
  pair_key :: bytes
  tx_buf :: "((u32 \<times> u16) \<times> TxRecord) list"
  tx_buf_order :: "u32 list"
  streams_in_flight :: "u32 set"
  app_bytes :: u64
  datagrams_tx :: u64
  tx_buf_evictions :: u64
  retx_sends :: u64
  tx_poisoned :: bool

record RxState =
  next_rx_seq :: u32
  max_seen_seq :: u32
  rx_any_seen :: bool
  pending :: "(u32 \<times> Partial) list"
  rx_chunks :: "Chunk list"
  rx_bytes :: nat
  nack_state :: "((u32 \<times> u16) \<times> NackRec) list"
  datagrams_rx :: u64
  rx_poisoned :: bool

record WitnessState =
  seen :: "u32 set"
  nacked :: "u32 set"
  max_seen :: u32
  low_walk :: u32
  wit_any_seen :: bool

record BcastBus =
  self_id :: u8
  bus_nP :: nat
  bus_tx :: "TxState list"
  bus_rx :: "RxState list"
  bus_witness :: "WitnessState list"
  ip_table :: "u32 list"
  self_tsn_ip_be :: u32
  retx_k_send :: u32
  retx_k_recv :: u32
  cycle_ns :: u64
  dropped_self :: u64
  witness_dispatched :: u64
  dropped_unknown :: u64
  witness_nacks_sent :: u64
  target_nacks_sent :: u64
  nack_origin_dropped :: u64
  nack_received_total :: u64

definition tx_init :: "bytes \<Rightarrow> TxState" where
  "tx_init key = \<lparr>local_seq = 0, pair_key = key, tx_buf = [], tx_buf_order = [], streams_in_flight = {},
     app_bytes = 0, datagrams_tx = 0, tx_buf_evictions = 0, retx_sends = 0, tx_poisoned = False\<rparr>"

definition rx_init :: RxState where
  "rx_init = \<lparr>next_rx_seq = 0, max_seen_seq = 0, rx_any_seen = False, pending = [], rx_chunks = [], rx_bytes = 0,
     nack_state = [], datagrams_rx = 0, rx_poisoned = False\<rparr>"

definition witness_init :: WitnessState where
  "witness_init = \<lparr>seen = {}, nacked = {}, max_seen = 0, low_walk = 0, wit_any_seen = False\<rparr>"

text \<open>
  The constructor, without the socket: \<open>ips\<close> is what \<open>inet_pton\<close> makes of the list of addresses (0 for
  one it does not accept), \<open>slots\<close> the slot length and the cycle length of the scheduler, if there is one.
\<close>

definition new_tx :: "(string \<Rightarrow> bytes) \<Rightarrow> u64 \<Rightarrow> nat \<Rightarrow> u8 \<Rightarrow> TxState list" where
  "new_tx sha256 key_seed nP me = map (\<lambda>t. tx_init (if t = unat me then replicate 16 0
     else derive_pair_key sha256 key_seed (int (unat me)) (int t))) [0..<nP]"

definition BcastBus_new ::
  "(string \<Rightarrow> bytes) \<Rightarrow> nat \<Rightarrow> nat \<Rightarrow> u32 list \<Rightarrow> (u64 \<times> u64) option \<Rightarrow> u64 \<Rightarrow> BcastBus" where
  "BcastBus_new sha256 self nP ips slots key_seed =
     (let me = of_nat self :: u8; ipt = map (\<lambda>p. if p < length ips then ips ! p else 0) [0..<nP]
      in \<lparr>self_id = me, bus_nP = nP, bus_tx = new_tx sha256 key_seed nP me,
          bus_rx = replicate nP rx_init, bus_witness = replicate (nP * nP) witness_init, ip_table = ipt,
          self_tsn_ip_be = ipt ! unat me, retx_k_send = 5, retx_k_recv = 5,
          cycle_ns = (case slots of Some (slot, n) \<Rightarrow> if 0 < slot \<and> 0 < n then slot * n else 100000000 | None \<Rightarrow> 100000000),
          dropped_self = 0, witness_dispatched = 0, dropped_unknown = 0, witness_nacks_sent = 0,
          target_nacks_sent = 0, nack_origin_dropped = 0, nack_received_total = 0\<rparr>)"

definition set_retx_k_send :: "u32 \<Rightarrow> BcastBus \<Rightarrow> BcastBus" where
  "set_retx_k_send k b = b\<lparr>retx_k_send := k\<rparr>"

definition set_retx_k_recv :: "u32 \<Rightarrow> BcastBus \<Rightarrow> BcastBus" where
  "set_retx_k_recv k b = b\<lparr>retx_k_recv := k\<rparr>"

definition upd_tx :: "nat \<Rightarrow> (TxState \<Rightarrow> TxState) \<Rightarrow> BcastBus \<Rightarrow> BcastBus" where
  "upd_tx t f b = b\<lparr>bus_tx := (bus_tx b)[t := f (bus_tx b ! t)]\<rparr>"

definition upd_rx :: "nat \<Rightarrow> (RxState \<Rightarrow> RxState) \<Rightarrow> BcastBus \<Rightarrow> BcastBus" where
  "upd_rx s f b = b\<lparr>bus_rx := (bus_rx b)[s := f (bus_rx b ! s)]\<rparr>"

end
