(* ===== verification/Bus_Rx.thy ===== *)
theory Bus_Rx
  imports Bus
begin

section \<open>The receiving side of the bus\<close>

text \<open>
  One \<open>RxState\<close>: reassembly of streams (\<open>handle_data_\<close>, \<open>drain_pending_locked_\<close>), the byte queue
  (\<open>recv\<close>) and the NACK state (\<open>compute_missing_locked_\<close>, \<open>drain_nack_state_\<close>). The lemmas show that the
  byte queue is a prefix of the bytes the peer sent whatever the network does with its frames.
\<close>

subsection \<open>Reassembly\<close>

text \<open>Completed streams move to the byte queue in the order of their sequence numbers.\<close>

definition push_chunk :: "bytes \<Rightarrow> RxState \<Rightarrow> RxState" where
  "push_chunk bs rs = (if bs = [] then rs else
     rs\<lparr>rx_bytes := rx_bytes rs + length bs, rx_chunks := rx_chunks rs @ [\<lparr>ch_bytes = bs, ch_offset = 0\<rparr>]\<rparr>)"

lemma length_AList_delete: "map_of xs k \<noteq> None \<Longrightarrow> length (AList.delete k xs) < length xs"
  using length_filter_less [where P = "\<lambda>(k', _). k \<noteq> k'" and xs = xs]
  by (fastforce simp: AList.delete_eq dest: map_of_SomeD)

function drain_pending :: "RxState \<Rightarrow> RxState" where
  "drain_pending rs = (case map_of (pending rs) (next_rx_seq rs) of None \<Rightarrow> rs
     | Some p \<Rightarrow> if received p \<noteq> frag_total p then rs
         else drain_pending ((push_chunk (concat (frags p)) rs)\<lparr>
             pending := AList.delete (next_rx_seq rs) (pending rs), next_rx_seq := next_rx_seq rs + 1\<rparr>))"
  by auto
termination
  by (relation "measure (\<lambda>rs. length (pending rs))") (simp_all add: length_AList_delete)

declare drain_pending.simps [simp del]

text \<open>
  A data frame of the stream \<open>seq\<close> once it is decrypted. \<open>operator[]\<close> of the map makes an empty
  entry; the counters of an entry with no fragments are set from the frame.
\<close>

definition store_frag :: "u16 \<Rightarrow> u16 \<Rightarrow> bytes \<Rightarrow> Partial \<Rightarrow> Partial" where
  "store_frag idx tot payload p0 =
     (let p = (if frag_total p0 = 0 then p0\<lparr>frag_total := ucast tot,
                   frags := take (unat tot) (frags p0) @ replicate (unat tot - length (frags p0)) []\<rparr> else p0)
      in if (ucast idx :: u32) < frag_total p \<and> frags p ! unat idx = []
         then p\<lparr>frags := (frags p)[unat idx := payload], received := received p + 1\<rparr> else p)"

definition note_frame :: "u32 \<Rightarrow> u16 \<Rightarrow> RxState \<Rightarrow> RxState" where
  "note_frame seq idx rs0 =
     (let rs = rs0\<lparr>datagrams_rx := datagrams_rx rs0 + 1\<rparr>;
          rs = (if \<not> rx_any_seen rs \<or> seq > max_seen_seq rs then rs\<lparr>max_seen_seq := seq, rx_any_seen := True\<rparr> else rs)
      in rs\<lparr>nack_state := AList.delete (seq, idx) (nack_state rs)\<rparr>)"

definition rx_store :: "u32 \<Rightarrow> u16 \<Rightarrow> u16 \<Rightarrow> bytes \<Rightarrow> RxState \<Rightarrow> RxState" where
  "rx_store seq idx tot payload rs =
     (if tot = 1 \<and> seq = next_rx_seq rs
      then (push_chunk payload rs)\<lparr>next_rx_seq := next_rx_seq rs + 1\<rparr>
      else let p = (case map_of (pending rs) seq of Some p \<Rightarrow> p | None \<Rightarrow> \<lparr>frag_total = 0, received = 0, frags = []\<rparr>)
           in rs\<lparr>pending := AList.update seq (store_frag idx tot payload p) (pending rs)\<rparr>)"

definition rx_frame :: "u32 \<Rightarrow> u16 \<Rightarrow> u16 \<Rightarrow> bytes \<Rightarrow> RxState \<Rightarrow> RxState" where
  "rx_frame seq idx tot payload rs0 =
     (let rs = note_frame seq idx rs0
      in if seq < next_rx_seq rs then rs else drain_pending (rx_store seq idx tot payload rs))"

subsection \<open>The byte queue\<close>

text \<open>
  The copy loop of \<open>recv\<close>: the bytes taken and the chunks left. \<open>None\<close> is \<open>front()\<close> of an empty deque.
\<close>

fun take_chunks :: "Chunk list \<Rightarrow> nat \<Rightarrow> (bytes \<times> Chunk list) option" where
  "take_chunks cs remaining = (if remaining = 0 then Some ([], cs) else
     (case cs of [] \<Rightarrow> None
      | c # cs' \<Rightarrow>
          let avail = length (ch_bytes c) - ch_offset c;
              n = (if remaining < avail then remaining else avail);
              bs = take n (drop (ch_offset c) (ch_bytes c))
          in if ch_offset c + n = length (ch_bytes c)
             then map_option (apfst ((@) bs)) (take_chunks cs' (remaining - n))
             else Some (bs, c\<lparr>ch_offset := ch_offset c + n\<rparr> # cs')))"

declare take_chunks.simps [simp del]

text \<open>
  \<open>recv\<close> on one sender: it throws if the pipe is poisoned, otherwise waits for enough bytes or poison.
\<close>

datatype rx_result = Rx_blocked | Rx_poisoned | Rx_crash | Rx_data bytes RxState

definition rx_recv :: "nat \<Rightarrow> RxState \<Rightarrow> rx_result" where
  "rx_recv len rs =
     (if rx_poisoned rs then Rx_poisoned
      else if rx_bytes rs < len then Rx_blocked
      else case take_chunks (rx_chunks rs) len of None \<Rightarrow> Rx_crash
        | Some (bs, cs) \<Rightarrow> Rx_data bs (rs\<lparr>rx_chunks := cs, rx_bytes := rx_bytes rs - len\<rparr>))"

definition chunk_data :: "Chunk list \<Rightarrow> bytes" where
  "chunk_data cs = concat (map (\<lambda>c. drop (ch_offset c) (ch_bytes c)) cs)"

definition chunks_ok :: "Chunk list \<Rightarrow> bool" where
  "chunks_ok cs \<longleftrightarrow> (\<forall>c\<in>set cs. ch_offset c < length (ch_bytes c))"

lemma chunk_simps [simp]:
  "chunk_data [] = []" "chunk_data (c # cs) = drop (ch_offset c) (ch_bytes c) @ chunk_data cs"
  "chunk_data (cs @ ds) = chunk_data cs @ chunk_data ds"
  "chunks_ok []" "chunks_ok (c # cs) \<longleftrightarrow> ch_offset c < length (ch_bytes c) \<and> chunks_ok cs"
  "chunks_ok (cs @ ds) \<longleftrightarrow> chunks_ok cs \<and> chunks_ok ds"
  by (auto simp: chunk_data_def chunks_ok_def)

definition rx_data :: "RxState \<Rightarrow> bytes" where
  "rx_data rs = chunk_data (rx_chunks rs)"

definition queue_ok :: "RxState \<Rightarrow> bool" where
  "queue_ok rs \<longleftrightarrow> rx_bytes rs = length (rx_data rs) \<and> chunks_ok (rx_chunks rs)"

text \<open>\<open>recv\<close> is the removal of a prefix of the queued bytes.\<close>

lemma take_chunks_data:
  assumes "chunks_ok cs" "n \<le> length (chunk_data cs)"
  shows "\<exists>cs'. take_chunks cs n = Some (take n (chunk_data cs), cs') \<and> chunk_data cs' = drop n (chunk_data cs) \<and> chunks_ok cs'"
  using assms
proof (induction cs arbitrary: n)
  case Nil
  then show ?case by (simp add: take_chunks.simps)
next
  case (Cons c cs)
  let ?av = "length (ch_bytes c) - ch_offset c"
  have av: "0 < ?av" using Cons.prems(1) by simp
  show ?case
  proof (cases "n < ?av")
    case True
    then show ?thesis using Cons.prems by (cases "n = 0") (auto simp: take_chunks.simps Let_def add.commute)
  next
    case False
    have "n - ?av \<le> length (chunk_data cs)" using Cons.prems by auto
    then have "\<exists>cs'. take_chunks cs (n - ?av) = Some (take (n - ?av) (chunk_data cs), cs') \<and>
        chunk_data cs' = drop (n - ?av) (chunk_data cs) \<and> chunks_ok cs'"
      using Cons.IH Cons.prems(1) by simp
    then obtain cs' where cs': "take_chunks cs (n - ?av) = Some (take (n - ?av) (chunk_data cs), cs')"
        "chunk_data cs' = drop (n - ?av) (chunk_data cs)" "chunks_ok cs'"
      by (elim exE conjE)
    have n0: "n \<noteq> 0" using False av by linarith
    have "take_chunks (c # cs) n = Some (take n (chunk_data (c # cs)), cs')"
      unfolding take_chunks.simps [of "c # cs" n] if_not_P [OF n0]
      using False av Cons.prems(1) cs'(1) by (simp add: Let_def)
    moreover have "chunk_data cs' = drop n (chunk_data (c # cs))" using False cs'(2) by simp
    ultimately show ?thesis using cs'(3) by blast
  qed
qed

lemma rx_recv_cases:
  assumes "queue_ok rs"
  shows "rx_recv n rs =
    (if rx_poisoned rs then Rx_poisoned else if length (rx_data rs) < n then Rx_blocked
     else Rx_data (take n (rx_data rs))
       (rs\<lparr>rx_chunks := snd (the (take_chunks (rx_chunks rs) n)), rx_bytes := length (rx_data rs) - n\<rparr>))"
    and "n \<le> length (rx_data rs) \<Longrightarrow> chunks_ok (snd (the (take_chunks (rx_chunks rs) n))) \<and>
      chunk_data (snd (the (take_chunks (rx_chunks rs) n))) = drop n (rx_data rs)"
proof -
  have "n \<le> length (rx_data rs) \<Longrightarrow> \<exists>cs'. take_chunks (rx_chunks rs) n = Some (take n (rx_data rs), cs') \<and>
      chunk_data cs' = drop n (rx_data rs) \<and> chunks_ok cs'"
    using take_chunks_data [of "rx_chunks rs" n] assms by (simp add: rx_data_def queue_ok_def)
  then show "rx_recv n rs =
    (if rx_poisoned rs then Rx_poisoned else if length (rx_data rs) < n then Rx_blocked
     else Rx_data (take n (rx_data rs))
       (rs\<lparr>rx_chunks := snd (the (take_chunks (rx_chunks rs) n)), rx_bytes := length (rx_data rs) - n\<rparr>))"
    "n \<le> length (rx_data rs) \<Longrightarrow> chunks_ok (snd (the (take_chunks (rx_chunks rs) n))) \<and>
      chunk_data (snd (the (take_chunks (rx_chunks rs) n))) = drop n (rx_data rs)"
    using assms by (auto simp: rx_recv_def queue_ok_def not_less)
qed

lemma rx_recv_Data:
  assumes "queue_ok rs" "rx_recv n rs = Rx_data bs rs'"
  shows "queue_ok rs'" "bs @ rx_data rs' = rx_data rs" "length bs = n" "\<not> rx_poisoned rs"
    "\<exists>cs k. rs' = rs\<lparr>rx_chunks := cs, rx_bytes := k\<rparr>"
  using assms(2) rx_recv_cases [OF assms(1), of n]
  by (auto simp: queue_ok_def rx_data_def not_less split: if_splits)

subsection \<open>Fragments of a message\<close>

definition nfrags :: "bytes \<Rightarrow> nat" where
  "nfrags m = (if m = [] then 1 else (length m + MAX_PAYLOAD - 1) div MAX_PAYLOAD)"

definition frag :: "bytes \<Rightarrow> nat \<Rightarrow> bytes" where
  "frag m j = take MAX_PAYLOAD (drop (MAX_PAYLOAD * j) m)"

lemma nfrags_pos [simp]: "0 < nfrags m"
proof -
  have "m \<noteq> [] \<Longrightarrow> 1400 \<le> length m + 1399" by (cases m) simp_all
  then show ?thesis by (simp add: nfrags_def div_greater_zero_iff)
qed

lemma frag_Nil: "m = [] \<Longrightarrow> frag m j = []"
  by (simp add: frag_def)

lemma frag_nonempty: "m \<noteq> [] \<Longrightarrow> j < nfrags m \<Longrightarrow> frag m j \<noteq> []"
proof -
  assume m: "m \<noteq> []" and "j < nfrags m"
  then have "j + 1 \<le> (length m + 1399) div 1400" by (simp add: nfrags_def)
  then have "(j + 1) * 1400 \<le> length m + 1399" by (metis div_times_less_eq_dividend le_trans mult_le_mono1)
  then have "1400 * j < length m" by simp
  then show ?thesis by (simp add: frag_def)
qed

lemma length_frag: "length (frag m j) \<le> MAX_PAYLOAD"
  by (simp add: frag_def)

lemma concat_frag_prefix: "concat (map (frag m) [0..<k]) = take (MAX_PAYLOAD * k) m"
  by (induction k) (simp_all add: frag_def take_add [symmetric] add.commute)

lemma concat_frag: "concat (map (frag m) [0..<nfrags m]) = m"
proof -
  have "length m \<le> 1400 * nfrags m" unfolding nfrags_def by (simp split: if_splits) linarith
  then show ?thesis by (simp add: concat_frag_prefix)
qed

lemma frag_single: "nfrags m = 1 \<Longrightarrow> frag m 0 = m"
  using concat_frag [of m] by simp

subsection \<open>What the receiver knows of the streams of its peer\<close>

text \<open>
  \<open>msgs\<close> is the list of messages the peer has sent, the stream \<open>s\<close> being \<open>msgs ! s\<close>, and \<open>H\<close> the frames
  of it that have arrived, newest first. An entry of \<open>pending\<close> holds the fragments of \<open>H\<close>; its
  counter counts the arrivals of an empty stream, and the fragments of any other.
\<close>

definition sane :: "bytes list \<Rightarrow> bool" where
  "sane msgs \<longleftrightarrow> length msgs < 2 ^ 32 \<and> (\<forall>m\<in>set msgs. nfrags m < 2 ^ 16)"

definition partial_ok :: "bytes list \<Rightarrow> (u32 \<times> u16) list \<Rightarrow> u32 \<Rightarrow> Partial \<Rightarrow> bool" where
  "partial_ok msgs H s p \<longleftrightarrow> unat s < length msgs \<and> (let m = msgs ! unat s in
     frag_total p = of_nat (nfrags m) \<and> length (frags p) = nfrags m \<and>
     (\<forall>j<nfrags m. frags p ! j = (if (s, of_nat j) \<in> set H then frag m j else [])) \<and>
     received p = (if m = [] then of_nat (count_list H (s, 0))
                   else of_nat (card {j. j < nfrags m \<and> (s, of_nat j) \<in> set H})))"

definition pend_ok :: "bytes list \<Rightarrow> (u32 \<times> u16) list \<Rightarrow> RxState \<Rightarrow> bool" where
  "pend_ok msgs H rs \<longleftrightarrow> (\<forall>s\<ge>next_rx_seq rs. case map_of (pending rs) s of
     None \<Rightarrow> (\<forall>i. (s, i) \<notin> set H) | Some p \<Rightarrow> partial_ok msgs H s p)"

definition rx_inv :: "bytes list \<Rightarrow> (u32 \<times> u16) list \<Rightarrow> bytes \<Rightarrow> RxState \<Rightarrow> bool" where
  "rx_inv msgs H delivered rs \<longleftrightarrow> queue_ok rs \<and> unat (next_rx_seq rs) \<le> length msgs \<and>
     delivered @ rx_data rs = concat (take (unat (next_rx_seq rs)) msgs) \<and> pend_ok msgs H rs"

definition drained :: "RxState \<Rightarrow> bool" where
  "drained rs \<longleftrightarrow> (\<forall>p. map_of (pending rs) (next_rx_seq rs) = Some p \<longrightarrow> received p \<noteq> frag_total p)"

definition honest :: "bytes list \<Rightarrow> u32 \<Rightarrow> u16 \<Rightarrow> u16 \<Rightarrow> bytes \<Rightarrow> bool" where
  "honest msgs s i tot payload \<longleftrightarrow> unat s < length msgs \<and>
     (let m = msgs ! unat s in tot = of_nat (nfrags m) \<and> unat i < nfrags m \<and> payload = frag m (unat i))"

lemma rx_inv_init: "rx_inv msgs [] [] rx_init"
  by (simp add: rx_inv_def rx_init_def queue_ok_def rx_data_def pend_ok_def)

lemma sane_nth: "sane msgs \<Longrightarrow> k < length msgs \<Longrightarrow> nfrags (msgs ! k) < 2 ^ 16"
  by (simp add: sane_def)

lemma unat_next_Suc:
  "sane msgs \<Longrightarrow> unat (s :: u32) < length msgs \<Longrightarrow> unat (s + 1) = Suc (unat s)"
  by (simp add: sane_def unat_word_ariths)

text \<open>The queue gains what \<open>push_chunk\<close> is given.\<close>

lemma push_chunk_data:
  "rx_data (push_chunk bs rs) = rx_data rs @ bs" "queue_ok rs \<Longrightarrow> queue_ok (push_chunk bs rs)"
  "next_rx_seq (push_chunk bs rs) = next_rx_seq rs" "pending (push_chunk bs rs) = pending rs"
  by (auto simp: push_chunk_def rx_data_def queue_ok_def)

lemma complete_is_message:
  assumes p: "partial_ok msgs H s p" and "sane msgs" "received p = frag_total p"
  shows "concat (frags p) = msgs ! unat s"
proof -
  let ?m = "msgs ! unat s" and ?J = "{j. j < nfrags (msgs ! unat s) \<and> (s, of_nat j) \<in> set H}"
  from p have s: "unat s < length msgs" and len: "length (frags p) = nfrags ?m"
    and fr: "\<And>j. j < nfrags ?m \<Longrightarrow> frags p ! j = (if (s, of_nat j) \<in> set H then frag ?m j else [])"
    by (auto simp: partial_ok_def Let_def)
  have small: "nfrags ?m < 2 ^ 16" by (rule sane_nth [OF assms(2) s])
  have all: "frags p ! j = frag ?m j" if j: "j < nfrags ?m" for j
  proof (cases "?m = []")
    case True
    then show ?thesis using fr [OF j] by (simp add: frag_Nil)
  next
    case False
    have J: "card ?J \<le> nfrags ?m" using card_mono [of "{..<nfrags ?m}" ?J] by auto
    have "(of_nat (card ?J) :: u32) = of_nat (nfrags ?m)" using p assms(3) False unfolding partial_ok_def Let_def by metis
    then have "card ?J = nfrags ?m" using J small by (simp add: of_nat_inverse word_of_nat_eq_iff take_bit_eq_mod)
    then have "?J = {..<nfrags ?m}" using card_subset_eq [of "{..<nfrags ?m}" ?J] by auto
    then show ?thesis using fr [OF j] j by auto
  qed
  then have "frags p = map (frag ?m) [0..<nfrags ?m]" using len by (intro nth_equalityI) simp_all
  then show ?thesis by (simp add: concat_frag)
qed

definition drain_step :: "Partial \<Rightarrow> RxState \<Rightarrow> RxState" where
  "drain_step p rs = (push_chunk (concat (frags p)) rs)\<lparr>
     pending := AList.delete (next_rx_seq rs) (pending rs), next_rx_seq := next_rx_seq rs + 1\<rparr>"

lemma drain_pending_cases:
  "map_of (pending rs) (next_rx_seq rs) = Some p \<Longrightarrow> received p = frag_total p \<Longrightarrow>
    drain_pending rs = drain_pending (drain_step p rs)"
  "drained rs \<Longrightarrow> drain_pending rs = rs"
  by (subst drain_pending.simps, simp add: drain_step_def)
    (subst drain_pending.simps, simp add: drained_def split: option.splits)

lemma drain_induct [consumes 1, case_names stop step]:
  assumes "P rs"
    and "\<And>rs. P rs \<Longrightarrow> drained rs \<Longrightarrow> Q rs"
    and "\<And>rs p. P rs \<Longrightarrow> map_of (pending rs) (next_rx_seq rs) = Some p \<Longrightarrow> received p = frag_total p \<Longrightarrow> P (drain_step p rs)"
  shows "Q (drain_pending rs)"
  using assms(1)
proof (induction rs rule: drain_pending.induct)
  case (1 rs)
  show ?case
  proof (cases "drained rs")
    case True
    then show ?thesis using "1.prems" assms(2) by (simp add: drain_pending_cases)
  next
    case False
    then obtain p where p: "map_of (pending rs) (next_rx_seq rs) = Some p" "received p = frag_total p"
      by (auto simp: drained_def)
    then have "P (drain_step p rs)" by (intro assms(3) "1.prems")
    then have "Q (drain_pending (drain_step p rs))" using "1.IH" [OF p(1)] p(2) by (simp add: drain_step_def)
    then show ?thesis using p by (simp add: drain_pending_cases(1))
  qed
qed

lemma drain_step_inv:
  assumes "sane msgs" "rx_inv msgs H d rs"
    and p: "map_of (pending rs) (next_rx_seq rs) = Some p" "received p = frag_total p"
  shows "rx_inv msgs H d (drain_step p rs)" "partial_ok msgs H (next_rx_seq rs) p"
    "next_rx_seq rs < next_rx_seq (drain_step p rs)"
proof -
  let ?n = "next_rx_seq rs" and ?rs = "drain_step p rs"
  have inv: "queue_ok rs" "d @ rx_data rs = concat (take (unat ?n) msgs)" "pend_ok msgs H rs"
    using assms(2) by (simp_all add: rx_inv_def)
  show ok: "partial_ok msgs H ?n p" using inv(3) p(1) by (force simp: pend_ok_def)
  then have m: "concat (frags p) = msgs ! unat ?n" and n: "unat ?n < length msgs"
    using complete_is_message [OF _ assms(1) p(2)] by (auto simp: partial_ok_def)
  have nxt: "unat (?n + 1) = Suc (unat ?n)" by (rule unat_next_Suc [OF assms(1) n])
  then show "?n < next_rx_seq ?rs" by (simp add: drain_step_def word_less_nat_alt)
  show "rx_inv msgs H d ?rs"
    unfolding rx_inv_def
  proof (intro conjI)
    show "queue_ok ?rs" using push_chunk_data(2) [OF inv(1)] by (simp add: queue_ok_def rx_data_def drain_step_def)
    show "d @ rx_data ?rs = concat (take (unat (next_rx_seq ?rs)) msgs)"
      using push_chunk_data(1) [of "concat (frags p)" rs] inv(2) m n
      by (simp add: nxt rx_data_def drain_step_def take_Suc_conv_app_nth flip: append_assoc)
    show "pend_ok msgs H ?rs"
      unfolding pend_ok_def
    proof (intro allI impI)
      fix s assume "next_rx_seq ?rs \<le> s"
      then have "?n < s" using nxt by (simp add: drain_step_def word_le_nat_alt word_less_nat_alt)
      then show "case map_of (pending ?rs) s of None \<Rightarrow> \<forall>i. (s, i) \<notin> set H | Some p \<Rightarrow> partial_ok msgs H s p"
        using inv(3) by (auto simp: pend_ok_def drain_step_def AList.delete_conv')
    qed
  qed (use n nxt in \<open>simp add: drain_step_def\<close>)
qed

lemma drain_pending_inv:
  assumes "sane msgs" "rx_inv msgs H d rs"
  shows "rx_inv msgs H d (drain_pending rs) \<and> drained (drain_pending rs)"
  using assms(2) by (induction rule: drain_induct) (simp_all add: drain_step_inv(1) [OF assms(1)])

text \<open>Storing a fragment adds it to what has arrived.\<close>

lemma honestD:
  assumes "honest msgs s i tot payload" "sane msgs"
  shows "unat s < length msgs" "unat tot = nfrags (msgs ! unat s)" "unat i < nfrags (msgs ! unat s)"
    "payload = frag (msgs ! unat s) (unat i)" "tot = of_nat (nfrags (msgs ! unat s))"
  using assms sane_nth [OF assms(2), of "unat s"]
  by (auto simp: honest_def Let_def unat_of_nat)

lemma u16_of_nat_eq: "n < 2 ^ 16 \<Longrightarrow> j < n \<Longrightarrow> of_nat j = (i :: u16) \<longleftrightarrow> j = unat i"
  by (auto simp: unat_of_nat)

lemma frags_set_insert:
  assumes "nfrags m < 2 ^ 16" "unat i < nfrags m"
  shows "{j. j < nfrags m \<and> (s, of_nat j) \<in> set ((s, i) # H)} =
    insert (unat (i :: u16)) {j. j < nfrags m \<and> (s, of_nat j) \<in> set H}"
proof -
  have "(s, of_nat j) \<in> set ((s, i) # H) \<longleftrightarrow> j = unat i \<or> (s, of_nat j) \<in> set H" if "j < nfrags m" for j
    using u16_of_nat_eq [OF assms(1) that, of i] by auto
  then show ?thesis using assms(2) by auto
qed

lemma store_frag_ok:
  assumes h: "honest msgs s i tot payload" "sane msgs"
    and p: "p0 = \<lparr>frag_total = 0, received = 0, frags = []\<rparr> \<and> (\<forall>i. (s, i) \<notin> set H) \<or> partial_ok msgs H s p0"
  shows "partial_ok msgs ((s, i) # H) s (store_frag i tot payload p0)"
proof -
  let ?m = "msgs ! unat s"
  note hD = honestD [OF h]
  have small: "nfrags ?m < 2 ^ 16" by (rule sane_nth [OF h(2) hD(1)])
  then have nz: "(of_nat (nfrags ?m) :: u32) \<noteq> 0" and ft: "unat (of_nat (nfrags ?m) :: u32) = nfrags ?m"
    using nfrags_pos [of ?m] by (simp_all add: unat_of_nat unat_eq_zero [symmetric] del: unat_eq_zero nfrags_pos)
  have tot: "(ucast tot :: u32) = of_nat (nfrags ?m)"
    using hD(2) by (metis of_nat_unat)
  define p where "p = (if frag_total p0 = 0 then p0\<lparr>frag_total := ucast tot,
      frags := take (unat tot) (frags p0) @ replicate (unat tot - length (frags p0)) []\<rparr> else p0)"
  have p: "frag_total p = of_nat (nfrags ?m)" "length (frags p) = nfrags ?m"
    "\<And>j. j < nfrags ?m \<Longrightarrow> frags p ! j = (if (s, of_nat j) \<in> set H then frag ?m j else [])"
    "received p = (if ?m = [] then of_nat (count_list H (s, 0))
                   else of_nat (card {j. j < nfrags ?m \<and> (s, of_nat j) \<in> set H}))"
    using assms(3) nz hD(2) by (auto simp: p_def tot partial_ok_def Let_def count_list_0_iff)
  have i: "unat i < length (frags p)" "(ucast i :: u32) < frag_total p"
    using hD(3) ft p(1,2) by (simp_all add: word_less_nat_alt)
  have fi: "frags p ! unat i = [] \<longleftrightarrow> ?m = [] \<or> (s, i) \<notin> set H"
    using p(3) [OF hD(3)] frag_nonempty [OF _ hD(3)] by (auto simp: frag_Nil)
  have J: "{j. j < nfrags ?m \<and> (s, of_nat j) \<in> set ((s, i) # H)} =
      insert (unat i) {j. j < nfrags ?m \<and> (s, of_nat j) \<in> set H}"
    by (rule frags_set_insert [OF small hD(3)])
  have new: "frags p ! j = (if (s, of_nat j) \<in> set ((s, i) # H) then frag ?m j else [])"
    if "j < nfrags ?m" "j \<noteq> unat i" for j
    using p(3) [OF that(1)] u16_of_nat_eq [OF small that(1), of i] that(2) by auto
  have e: "?m = [] \<Longrightarrow> i = 0" using hD(3) by (simp add: nfrags_def unat_eq_0)
  show ?thesis
  proof (cases "frags p ! unat i = []")
    case True
    then have sf: "store_frag i tot payload p0 = p\<lparr>frags := (frags p)[unat i := payload], received := received p + 1\<rparr>"
      using i unfolding store_frag_def p_def Let_def by simp
    have "unat i \<notin> {j. j < nfrags ?m \<and> (s, of_nat j) \<in> set H}" if "?m \<noteq> []"
      using True fi that by simp
    moreover have "(frags p)[unat i := payload] ! j = (if (s, of_nat j) \<in> set ((s, i) # H) then frag ?m j else [])"
      if "j < nfrags ?m" for j
    proof (cases "j = unat i")
      case True
      then show ?thesis using i(1) hD(4) by simp
    next
      case False
      then show ?thesis using new [OF that False] by simp
    qed
    ultimately show ?thesis
      unfolding partial_ok_def Let_def sf J using hD(1) p(1,2,4) e by (simp add: add.commute)
  next
    case False
    then have sf: "store_frag i tot payload p0 = p" and iH: "(s, i) \<in> set H" "?m \<noteq> []"
      using fi i unfolding store_frag_def p_def Let_def by auto
    have "set ((s, i) # H) = set H" using iH by auto
    then show ?thesis
      unfolding partial_ok_def Let_def sf using hD(1) p iH(2) by simp
  qed
qed

subsection \<open>Every frame keeps the invariant\<close>

lemma partial_ok_other: "s' \<noteq> s \<Longrightarrow> partial_ok msgs ((s, i) # H) s' p = partial_ok msgs H s' p"
  by (simp add: partial_ok_def)

lemma pend_ok_other:
  assumes "pend_ok msgs H rs" "next_rx_seq rs \<le> s'" "s' \<noteq> s"
  shows "case map_of (pending rs) s' of None \<Rightarrow> (\<forall>j. (s', j) \<notin> set ((s, i) # H)) | Some p \<Rightarrow> partial_ok msgs ((s, i) # H) s' p"
proof -
  have "case map_of (pending rs) s' of None \<Rightarrow> \<forall>j. (s', j) \<notin> set H | Some p \<Rightarrow> partial_ok msgs H s' p"
    using assms(1,2) unfolding pend_ok_def by blast
  then show ?thesis using assms(3) by (cases "map_of (pending rs) s'") (auto simp: partial_ok_other)
qed

lemma note_frame_simps [simp]:
  "next_rx_seq (note_frame s i rs) = next_rx_seq rs" "pending (note_frame s i rs) = pending rs"
  "rx_chunks (note_frame s i rs) = rx_chunks rs" "rx_bytes (note_frame s i rs) = rx_bytes rs"
  by (simp_all add: note_frame_def Let_def)

lemma rx_inv_fields:
  assumes "rx_inv msgs H d rs" "next_rx_seq rs' = next_rx_seq rs" "pending rs' = pending rs"
    "rx_chunks rs' = rx_chunks rs" "rx_bytes rs' = rx_bytes rs"
  shows "rx_inv msgs H d rs'"
  using assms by (simp add: rx_inv_def queue_ok_def rx_data_def pend_ok_def)

lemma rx_store_inv:
  assumes h: "honest msgs s i tot payload" "sane msgs" and inv: "rx_inv msgs H d r" and le: "next_rx_seq r \<le> s"
  shows "rx_inv msgs ((s, i) # H) d (rx_store s i tot payload r)"
proof -
  let ?m = "msgs ! unat s"
  note hD = honestD [OF h]
  have po: "pend_ok msgs H r" and q: "queue_ok r" and nl: "unat (next_rx_seq r) \<le> length msgs"
    and dat: "d @ rx_data r = concat (take (unat (next_rx_seq r)) msgs)"
    using inv by (simp_all add: rx_inv_def)
  show ?thesis
  proof (cases "tot = 1 \<and> s = next_rx_seq r")
    case True
    let ?r = "(push_chunk payload r)\<lparr>next_rx_seq := next_rx_seq r + 1\<rparr>"
    have nf: "nfrags ?m = 1" using hD(2) True by simp
    then have pl: "payload = ?m" using hD(3,4) frag_single by simp
    have nxt: "unat (next_rx_seq r + 1) = Suc (unat (next_rx_seq r))"
      using unat_next_Suc [OF h(2) hD(1)] True by simp
    have "rx_inv msgs ((s, i) # H) d ?r"
      unfolding rx_inv_def
    proof (intro conjI)
      show "queue_ok ?r" using push_chunk_data(2) [OF q] by (simp add: queue_ok_def rx_data_def)
      show "d @ rx_data ?r = concat (take (unat (next_rx_seq ?r)) msgs)"
        using push_chunk_data(1) [of payload r] dat pl hD(1) True
        by (simp add: nxt rx_data_def take_Suc_conv_app_nth flip: append_assoc)
      show "pend_ok msgs ((s, i) # H) ?r"
        unfolding pend_ok_def
      proof (intro allI impI)
        fix s' assume "next_rx_seq ?r \<le> s'"
        then have "next_rx_seq r \<le> s'" "s' \<noteq> s" using nxt True by (auto simp: word_le_nat_alt)
        from pend_ok_other [OF po this] show "case map_of (pending ?r) s' of None \<Rightarrow> \<forall>j. (s', j) \<notin> set ((s, i) # H)
            | Some p \<Rightarrow> partial_ok msgs ((s, i) # H) s' p" by (simp add: push_chunk_data)
      qed
    qed (use hD(1) True nxt in simp)
    then show ?thesis using True by (simp add: rx_store_def)
  next
    case False
    let ?p = "case map_of (pending r) s of Some p \<Rightarrow> p | None \<Rightarrow> \<lparr>frag_total = 0, received = 0, frags = []\<rparr>"
    let ?r = "r\<lparr>pending := AList.update s (store_frag i tot payload ?p) (pending r)\<rparr>"
    have "?p = \<lparr>frag_total = 0, received = 0, frags = []\<rparr> \<and> (\<forall>i. (s, i) \<notin> set H) \<or> partial_ok msgs H s ?p"
      using po le by (auto simp: pend_ok_def split: option.splits)
    then have sf: "partial_ok msgs ((s, i) # H) s (store_frag i tot payload ?p)" by (rule store_frag_ok [OF h])
    have "pend_ok msgs ((s, i) # H) ?r"
      unfolding pend_ok_def
    proof (intro allI impI)
      fix s' assume "next_rx_seq ?r \<le> s'"
      then have s': "next_rx_seq r \<le> s'" by simp
      show "case map_of (pending ?r) s' of None \<Rightarrow> \<forall>j. (s', j) \<notin> set ((s, i) # H)
          | Some p \<Rightarrow> partial_ok msgs ((s, i) # H) s' p"
        using sf pend_ok_other [OF po s'] by (cases "s' = s") (simp_all add: AList.update_conv')
    qed
    then show ?thesis using False q nl dat by (auto simp: rx_inv_def queue_ok_def rx_data_def rx_store_def Let_def)
  qed
qed

lemma rx_inv_late:
  assumes "rx_inv msgs H d r" "s < next_rx_seq r"
  shows "rx_inv msgs ((s, i) # H) d r"
proof -
  have "next_rx_seq r \<le> s' \<Longrightarrow> s' \<noteq> s" for s' using assms(2) by auto
  then have "pend_ok msgs ((s, i) # H) r"
    using pend_ok_other assms(1) unfolding rx_inv_def pend_ok_def by blast
  then show ?thesis using assms(1) by (simp add: rx_inv_def)
qed

lemma rx_frame_inv:
  assumes h: "honest msgs s i tot payload" "sane msgs" and inv: "rx_inv msgs H d rs" "drained rs"
  shows "rx_inv msgs ((s, i) # H) d (rx_frame s i tot payload rs) \<and> drained (rx_frame s i tot payload rs)"
proof -
  have n: "rx_inv msgs H d (note_frame s i rs)" "drained (note_frame s i rs)"
    using rx_inv_fields [OF inv(1)] inv(2) by (simp_all add: drained_def)
  show ?thesis
    using n rx_inv_late [OF n(1)] drain_pending_inv [OF h(2) rx_store_inv [OF h n(1)]]
    unfolding rx_frame_def Let_def by (cases "s < next_rx_seq (note_frame s i rs)") (simp_all add: not_less)
qed

lemma rx_recv_inv:
  assumes "rx_inv msgs H d rs" "drained rs" "rx_recv n rs = Rx_data bs rs'"
  shows "rx_inv msgs H (d @ bs) rs' \<and> drained rs' \<and> length bs = n"
proof -
  have q: "queue_ok rs" using assms(1) by (simp add: rx_inv_def)
  note R = rx_recv_Data [OF q assms(3)]
  then obtain cs k where rs': "rs' = rs\<lparr>rx_chunks := cs, rx_bytes := k\<rparr>" by blast
  have "d @ bs @ rx_data rs' = concat (take (unat (next_rx_seq rs)) msgs)" using assms(1) R(2) by (simp add: rx_inv_def)
  moreover have "next_rx_seq rs' = next_rx_seq rs" "pending rs' = pending rs" by (simp_all add: rs')
  ultimately show ?thesis using assms(1,2) R by (simp add: rx_inv_def pend_ok_def drained_def)
qed

text \<open>A longer history of the peer does not change what is known of the streams of \<open>H\<close>.\<close>

lemma partial_ok_append: "partial_ok msgs H s p \<Longrightarrow> partial_ok (msgs @ ms) H s p"
  by (simp add: partial_ok_def nth_append)

lemma rx_inv_append:
  assumes "rx_inv msgs H d rs"
  shows "rx_inv (msgs @ ms) H d rs"
proof -
  have "case map_of (pending rs) s of None \<Rightarrow> \<forall>i. (s, i) \<notin> set H | Some p \<Rightarrow> partial_ok (msgs @ ms) H s p"
    if "next_rx_seq rs \<le> s" for s
  proof -
    have "case map_of (pending rs) s of None \<Rightarrow> \<forall>i. (s, i) \<notin> set H | Some p \<Rightarrow> partial_ok msgs H s p"
      using assms that unfolding rx_inv_def pend_ok_def by blast
    then show ?thesis using partial_ok_append by (cases "map_of (pending rs) s") simp_all
  qed
  then have "pend_ok (msgs @ ms) H rs" unfolding pend_ok_def by blast
  then show ?thesis using assms by (simp add: rx_inv_def)
qed

lemma honest_append: "honest msgs s i tot pl \<Longrightarrow> honest (msgs @ ms) s i tot pl"
  by (simp add: honest_def nth_append)

text \<open>
  Completeness: once all fragments of the first \<open>k\<close> streams have arrived, an empty stream only
  once, these streams are in the byte queue.
\<close>

lemma rx_complete:
  assumes inv: "rx_inv msgs H d rs" "drained rs" and "sane msgs" "k \<le> length msgs"
    and all: "\<And>s j. s < k \<Longrightarrow> j < nfrags (msgs ! s) \<Longrightarrow> (of_nat s, of_nat j) \<in> set H"
    and once: "\<And>s. s < k \<Longrightarrow> msgs ! s = [] \<Longrightarrow> count_list H (of_nat s, 0) = 1"
  shows "k \<le> unat (next_rx_seq rs)"
proof (rule ccontr)
  assume "\<not> k \<le> unat (next_rx_seq rs)"
  then have n: "unat (next_rx_seq rs) < k" by simp
  let ?n = "next_rx_seq rs" let ?m = "msgs ! unat (next_rx_seq rs)"
  have small: "nfrags ?m < 2 ^ 16" by (rule sane_nth [OF assms(3)]) (use n assms(4) in simp)
  have H: "(?n, of_nat j) \<in> set H" if "j < nfrags ?m" for j using all [OF n that] by simp
  have po: "case map_of (pending rs) ?n of None \<Rightarrow> \<forall>i. (?n, i) \<notin> set H | Some p \<Rightarrow> partial_ok msgs H ?n p"
    using inv(1) unfolding rx_inv_def pend_ok_def by blast
  then obtain p where p: "map_of (pending rs) ?n = Some p" using H [OF nfrags_pos]
    by (cases "map_of (pending rs) ?n") auto
  then have ok: "partial_ok msgs H ?n p" using po by simp
  have "received p = frag_total p"
  proof (cases "?m = []")
    case True
    then show ?thesis using ok once [OF n] by (simp add: partial_ok_def nfrags_def)
  next
    case False
    moreover have "{j. j < nfrags ?m \<and> (?n, of_nat j) \<in> set H} = {..<nfrags ?m}" using H by auto
    ultimately show ?thesis using ok by (simp add: partial_ok_def Let_def)
  qed
  then show False using inv(2) p by (simp add: drained_def)
qed

text \<open>
  An empty stream that arrives twice before its turn is never completed from \<open>pending\<close>: its counter
  has passed the number of fragments.
\<close>

lemma drain_stalls:
  assumes "rx_inv msgs H d rs" "next_rx_seq rs \<le> s" and "sane msgs" "msgs ! unat s = []"
    and c: "count_list H (s, 0) < 2 ^ 32" "1 < count_list H (s, 0)"
  shows "next_rx_seq (drain_pending rs) \<le> s"
proof -
  have "rx_inv msgs H d rs \<and> next_rx_seq rs \<le> s" using assms(1,2) by blast
  then show ?thesis
  proof (induction rule: drain_induct)
    case (step rs p)
    then have inv: "rx_inv msgs H d rs" and le: "next_rx_seq rs \<le> s" by blast+
    note st = drain_step_inv [OF assms(3) inv step(2,3)]
    have "next_rx_seq rs \<noteq> s"
    proof
      assume e: "next_rx_seq rs = s"
      then have "received p = of_nat (count_list H (s, 0))" "frag_total p = of_nat 1"
        using st(2) assms(4) by (simp_all add: partial_ok_def nfrags_def)
      then have "unat (of_nat (count_list H (s, 0)) :: u32) = unat (of_nat 1 :: u32)" using step(3) by metis
      then show False using c by (simp add: unat_of_nat)
    qed
    then have "next_rx_seq (drain_step p rs) \<le> s" using le by (simp add: drain_step_def inc_le)
    with st(1) show ?case by blast
  qed simp
qed

lemma rx_frame_stalls:
  assumes h: "honest msgs s' i tot pl" "sane msgs" and inv: "rx_inv msgs H d rs"
    and "s' \<noteq> s" "next_rx_seq rs \<le> s" "msgs ! unat s = []"
    and c: "count_list H (s, 0) < 2 ^ 32" "1 < count_list H (s, 0)"
  shows "next_rx_seq (rx_frame s' i tot pl rs) \<le> s"
proof (cases "s' < next_rx_seq rs")
  case True
  then show ?thesis using assms(5) by (simp add: rx_frame_def Let_def)
next
  case False
  let ?r = "rx_store s' i tot pl (note_frame s' i rs)"
  have "rx_inv msgs H d (note_frame s' i rs)" using rx_inv_fields [OF inv] by simp
  then have "rx_inv msgs ((s', i) # H) d ?r" by (rule rx_store_inv [OF h]) (use False in simp)
  moreover have "next_rx_seq ?r \<le> s"
    using assms(4,5) by (auto simp: rx_store_def Let_def push_chunk_data inc_le)
  ultimately have "next_rx_seq (drain_pending ?r) \<le> s"
    by (rule drain_stalls) (use assms in auto)
  then show ?thesis using False by (simp add: rx_frame_def Let_def)
qed

end
