(* ===== verification/Bus_Nack.thy ===== *)
theory Bus_Nack
  imports Bus_Rx
begin

section \<open>Requests for retransmission\<close>

text \<open>
  The receiver's NACK state: \<open>compute_missing_locked_\<close> enters every gap below the highest sequence
  number seen, \<open>drain_nack_state_\<close> drops what has arrived and decides which fragments are due.
  The loop over the sequence numbers compares with \<open><=\<close> and need not end, so it is an
  option-valued partial function; a list sorted by its keys stands for the \<open>std::map\<close>.
\<close>

definition try_emplace :: "'k::linorder \<Rightarrow> 'v \<Rightarrow> ('k \<times> 'v) list \<Rightarrow> ('k \<times> 'v) list" where
  "try_emplace k v xs = insort_insert_key fst (k, v) xs"

definition missing_in :: "u64 \<Rightarrow> u32 \<Rightarrow> RxState \<Rightarrow> RxState" where
  "missing_in now s rs = rs\<lparr>nack_state := (let fresh = \<lparr>attempts = 0, last_nack_ns = now\<rparr> in
     case map_of (pending rs) s of None \<Rightarrow> try_emplace (s, 0) fresh (nack_state rs)
     | Some part \<Rightarrow> if frag_total part = 0 then nack_state rs
         else fold (\<lambda>i ns. if frags part ! i = [] then try_emplace (s, of_nat i) fresh ns else ns)
                [0..<unat (frag_total part)] (nack_state rs))\<rparr>"

partial_function (option) missing_loop :: "u64 \<Rightarrow> u32 \<Rightarrow> RxState \<Rightarrow> RxState option" where
  [code]: "missing_loop now s rs =
     (if s \<le> max_seen_seq rs then missing_loop now (s + 1) (missing_in now s rs) else Some rs)"

definition compute_missing :: "u64 \<Rightarrow> RxState \<Rightarrow> RxState option" where
  "compute_missing now rs = (if \<not> rx_any_seen rs then Some rs else missing_loop now (next_rx_seq rs) rs)"

text \<open>The walk over \<open>nack_state\<close>: what stays, what is due, and whether a budget is used up.\<close>

definition nack_satisfied :: "RxState \<Rightarrow> u32 \<times> u16 \<Rightarrow> bool" where
  "nack_satisfied rs = (\<lambda>(s, i). s < next_rx_seq rs \<or>
     (case map_of (pending rs) s of None \<Rightarrow> False
      | Some p \<Rightarrow> 0 < frag_total p \<and> unat i < length (frags p) \<and> frags p ! unat i \<noteq> []))"

fun nack_walk :: "RxState \<Rightarrow> u64 \<Rightarrow> u64 \<Rightarrow> u32 \<Rightarrow> ((u32 \<times> u16) \<times> NackRec) list \<Rightarrow>
    ((u32 \<times> u16) \<times> NackRec) list \<times> (u32 \<times> u16) list \<times> bool" where
  "nack_walk rs now cyc k [] = ([], [], False)"
| "nack_walk rs now cyc k ((key, r) # ns) =
     (if nack_satisfied rs key then nack_walk rs now cyc k ns
      else if last_nack_ns r = 0 \<or> now - last_nack_ns r \<ge> cyc then
        (if attempts r \<ge> k then ((key, r) # ns, [], True)
         else let (ns', due, poison) = nack_walk rs now cyc k ns
              in ((key, r\<lparr>last_nack_ns := now, attempts := attempts r + 1\<rparr>) # ns', key # due, poison))
      else let (ns', due, poison) = nack_walk rs now cyc k ns in ((key, r) # ns', due, poison))"

text \<open>
  \<open>drain_nack_state_\<close> up to the sending: the fragments to ask for and whether the pipe is to be
  poisoned; the two clock readings are those of \<open>compute_missing_locked_\<close> and of the walk.
\<close>

definition rx_drain_nacks :: "u64 \<times> u64 \<Rightarrow> u64 \<Rightarrow> u32 \<Rightarrow> RxState \<Rightarrow> (RxState \<times> (u32 \<times> u16) list \<times> bool) option" where
  "rx_drain_nacks now cyc k rs =
     (case compute_missing (fst now) rs of None \<Rightarrow> None
      | Some rs \<Rightarrow> let (ns, due, poison) = nack_walk rs (snd now) cyc k (nack_state rs)
                  in Some (rs\<lparr>nack_state := ns\<rparr>, due, poison))"

subsection \<open>The loop over the sequence numbers\<close>

lemma missing_in_simps [simp]:
  "max_seen_seq (missing_in now s rs) = max_seen_seq rs" "next_rx_seq (missing_in now s rs) = next_rx_seq rs"
  "pending (missing_in now s rs) = pending rs" "rx_any_seen (missing_in now s rs) = rx_any_seen rs"
  "rx_chunks (missing_in now s rs) = rx_chunks rs" "rx_bytes (missing_in now s rs) = rx_bytes rs"
  "rx_poisoned (missing_in now s rs) = rx_poisoned rs"
  by (simp_all add: missing_in_def)

lemma fold_missing_simps [simp]:
  "max_seen_seq (fold (missing_in now) ss rs) = max_seen_seq rs"
  "next_rx_seq (fold (missing_in now) ss rs) = next_rx_seq rs"
  "pending (fold (missing_in now) ss rs) = pending rs"
  "rx_any_seen (fold (missing_in now) ss rs) = rx_any_seen rs"
  "rx_chunks (fold (missing_in now) ss rs) = rx_chunks rs"
  "rx_bytes (fold (missing_in now) ss rs) = rx_bytes rs"
  "rx_poisoned (fold (missing_in now) ss rs) = rx_poisoned rs"
  by (induction ss arbitrary: rs) simp_all

text \<open>At the largest sequence number the loop never ends.\<close>

lemma missing_loop_diverges: "max_seen_seq rs = - 1 \<Longrightarrow> missing_loop now s rs = None"
proof (rule ccontr)
  assume m: "max_seen_seq rs = - 1" and "missing_loop now s rs \<noteq> None"
  then obtain r where r: "missing_loop now s rs = Some r" by blast
  have "max_seen_seq rs \<noteq> - 1"
  proof (rule missing_loop.raw_induct [where P = "\<lambda>now s rs y. max_seen_seq rs \<noteq> - 1", OF _ r])
    fix f and now :: u64 and s and rs y :: RxState
    assume IH: "\<And>now s rs y. f now s rs = Some y \<Longrightarrow> max_seen_seq rs \<noteq> - 1"
      and "(if s \<le> max_seen_seq rs then f now (s + 1) (missing_in now s rs) else Some rs) = Some y"
    then show "max_seen_seq rs \<noteq> - 1"
      using IH [of now "s + 1" "missing_in now s rs" y] by (cases "s \<le> max_seen_seq rs") auto
  qed
  with m show False by simp
qed

lemma missing_loop_eq:
  assumes "max_seen_seq rs \<noteq> - 1"
  shows "missing_loop now s rs = Some (fold (missing_in now) (map of_nat [unat s..<Suc (unat (max_seen_seq rs))]) rs)"
  using assms
proof (induction "Suc (unat (max_seen_seq rs)) - unat s" arbitrary: s rs)
  case 0
  then show ?case by (subst missing_loop.simps) (simp add: word_le_nat_alt)
next
  case (Suc n)
  have le: "s \<le> max_seen_seq rs" using Suc.hyps(2) by (simp add: word_le_nat_alt)
  have "s \<noteq> - 1" using le Suc.prems by (metis antisym word_order.extremum)
  then have s1: "unat (s + 1) = Suc (unat s)" by (metis add.commute add_eq_0_iff unatSuc)
  have "missing_loop now s rs = missing_loop now (s + 1) (missing_in now s rs)"
    by (subst missing_loop.simps) (simp add: le)
  also have "\<dots> = Some (fold (missing_in now) (map of_nat [unat (s + 1)..<Suc (unat (max_seen_seq rs))]) (missing_in now s rs))"
    using Suc.hyps(1) [of "missing_in now s rs" "s + 1"] Suc.hyps(2) Suc.prems s1 by simp
  also have "\<dots> = Some (fold (missing_in now) (map of_nat [unat s..<Suc (unat (max_seen_seq rs))]) rs)"
    using le s1 by (simp add: word_le_nat_alt upt_conv_Cons [of "unat s"] del: upt_Suc)
  finally show ?case .
qed

lemma compute_missing_returns_iff: "compute_missing now rs \<noteq> None \<longleftrightarrow> \<not> (rx_any_seen rs \<and> max_seen_seq rs = - 1)"
  by (cases "max_seen_seq rs = - 1") (simp_all add: compute_missing_def missing_loop_diverges missing_loop_eq)

subsection \<open>What is asked for\<close>

text \<open>The gaps the receiver can see: the fragments of the entries, and fragment 0 of unknown streams.\<close>

definition gap :: "RxState \<Rightarrow> u32 \<times> u16 \<Rightarrow> bool" where
  "gap rs = (\<lambda>(s, i). next_rx_seq rs \<le> s \<and> s \<le> max_seen_seq rs \<and>
     (case map_of (pending rs) s of None \<Rightarrow> i = 0
      | Some p \<Rightarrow> frag_total p \<noteq> 0 \<and> (\<exists>j<unat (frag_total p). i = of_nat j \<and> frags p ! j = [])))"

lemma try_emplace_keys: "fst ` set (try_emplace k v xs) = insert k (fst ` set xs)"
  by (auto simp: try_emplace_def insort_insert_key_def set_insort_key)

definition nack_list_ok :: "u32 \<Rightarrow> ((u32 \<times> u16) \<times> NackRec) list \<Rightarrow> bool" where
  "nack_list_ok k ns \<longleftrightarrow> sorted (map fst ns) \<and> distinct (map fst ns) \<and> (\<forall>e\<in>set ns. attempts (snd e) \<le> k)"

lemma try_emplace_ok: "nack_list_ok k ns \<Longrightarrow> attempts r \<le> k \<Longrightarrow> nack_list_ok k (try_emplace key r ns)"
  by (auto simp: nack_list_ok_def try_emplace_def sorted_insort_key insort_insert_key_def set_insort_key
      distinct_insort_key split: if_splits)

lemma fold_emplace_keys:
  "fst ` set (fold (\<lambda>i ns. if P i then try_emplace (f i) v ns else ns) is ns) = f ` {i \<in> set is. P i} \<union> fst ` set ns"
  by (induction "is" arbitrary: ns) (auto simp: try_emplace_keys)

lemma fold_emplace_ok:
  "nack_list_ok k ns \<Longrightarrow> attempts v \<le> k \<Longrightarrow>
    nack_list_ok k (fold (\<lambda>i ns. if P i then try_emplace (f i) v ns else ns) is ns)"
  by (induction "is" arbitrary: ns) (simp_all add: try_emplace_ok)

lemma missing_in_keys:
  "fst ` set (nack_state (missing_in now s rs)) = fst ` set (nack_state rs) \<union>
    {(s', i). s' = s \<and> (case map_of (pending rs) s of None \<Rightarrow> i = 0
      | Some p \<Rightarrow> frag_total p \<noteq> 0 \<and> (\<exists>j<unat (frag_total p). i = of_nat j \<and> frags p ! j = []))}"
  by (cases "map_of (pending rs) s") (auto simp: missing_in_def try_emplace_keys fold_emplace_keys)

lemma missing_in_ok: "nack_list_ok k (nack_state rs) \<Longrightarrow> nack_list_ok k (nack_state (missing_in now s rs))"
  by (auto simp: missing_in_def Let_def try_emplace_ok fold_emplace_ok split: option.split)

lemma compute_missing_keys:
  assumes "compute_missing now rs = Some rs'"
  shows "fst ` set (nack_state rs') = fst ` set (nack_state rs) \<union> {e. rx_any_seen rs \<and> gap rs e}"
    "nack_list_ok k (nack_state rs) \<Longrightarrow> nack_list_ok k (nack_state rs')"
    "\<exists>ns. rs' = rs\<lparr>nack_state := ns\<rparr>"
proof -
  let ?ss = "map of_nat [unat (next_rx_seq rs)..<Suc (unat (max_seen_seq rs))] :: u32 list"
  have set_ss: "set ?ss = {s. next_rx_seq rs \<le> s \<and> s \<le> max_seen_seq rs}"
  proof (intro equalityI subsetI)
    fix s assume "s \<in> set ?ss"
    then obtain x where "s = of_nat x" "unat (next_rx_seq rs) \<le> x" "x \<le> unat (max_seen_seq rs)" by auto
    then show "s \<in> {s. next_rx_seq rs \<le> s \<and> s \<le> max_seen_seq rs}" by (simp add: word_le_nat_alt le_unat_uoi)
  next
    fix s assume "s \<in> {s. next_rx_seq rs \<le> s \<and> s \<le> max_seen_seq rs}"
    then have "unat s \<in> {unat (next_rx_seq rs)..<Suc (unat (max_seen_seq rs))}" by (simp add: word_le_nat_alt less_Suc_eq_le)
    then have "of_nat (unat s) \<in> set ?ss" unfolding set_map set_upt by (rule imageI)
    then show "s \<in> set ?ss" by simp
  qed
  have F: "fst ` set (nack_state (fold (missing_in now) ss rs)) = fst ` set (nack_state rs) \<union>
      {(s, i). s \<in> set ss \<and> (case map_of (pending rs) s of None \<Rightarrow> i = 0
        | Some p \<Rightarrow> frag_total p \<noteq> 0 \<and> (\<exists>j<unat (frag_total p). i = of_nat j \<and> frags p ! j = []))}" for ss rs
    by (induction ss arbitrary: rs) (auto simp: missing_in_keys)
  have G: "nack_list_ok k (nack_state rs) \<Longrightarrow> nack_list_ok k (nack_state (fold (missing_in now) ss rs))" for ss rs k
    by (induction ss arbitrary: rs) (auto simp: missing_in_ok)
  have E: "\<exists>ns. fold (missing_in now) ss rs = rs\<lparr>nack_state := ns\<rparr>" for ss rs
  proof (induction ss arbitrary: rs)
    case (Cons s ss)
    obtain ns where "fold (missing_in now) ss (missing_in now s rs) = (missing_in now s rs)\<lparr>nack_state := ns\<rparr>"
      using Cons by blast
    also have "\<dots> = rs\<lparr>nack_state := ns\<rparr>" by (simp add: missing_in_def)
    finally show ?case by auto
  qed (metis fold_simps(1) RxState.surjective RxState.update_convs(7))
  define ks where "ks = ?ss"
  have rs': "rs' = (if rx_any_seen rs then fold (missing_in now) ks rs else rs)"
    using assms unfolding ks_def by (cases "max_seen_seq rs = - 1")
      (auto simp: compute_missing_def missing_loop_diverges missing_loop_eq split: if_splits)
  show "fst ` set (nack_state rs') = fst ` set (nack_state rs) \<union> {e. rx_any_seen rs \<and> gap rs e}"
    unfolding rs' using F [of ks rs] set_ss [folded ks_def] by (auto simp: gap_def)
  show "nack_list_ok k (nack_state rs) \<Longrightarrow> nack_list_ok k (nack_state rs')" unfolding rs' using G by simp
  show "\<exists>ns. rs' = rs\<lparr>nack_state := ns\<rparr>" unfolding rs' using E E [of "[]"] by simp
qed

subsection \<open>The walk\<close>

definition overdue :: "u64 \<Rightarrow> u64 \<Rightarrow> NackRec \<Rightarrow> bool" where
  "overdue now cyc r \<longleftrightarrow> last_nack_ns r = 0 \<or> now - last_nack_ns r \<ge> cyc"

lemma nack_walk_cases:
  assumes "nack_walk rs now cyc k ((key, r) # ns) = (ns', due, poison)"
  obtains (sat) "nack_satisfied rs key" "nack_walk rs now cyc k ns = (ns', due, poison)"
  | (wait) ns1 where "\<not> nack_satisfied rs key" "\<not> overdue now cyc r" "nack_walk rs now cyc k ns = (ns1, due, poison)"
      "ns' = (key, r) # ns1"
  | (out) "\<not> nack_satisfied rs key" "overdue now cyc r" "k \<le> attempts r" "ns' = (key, r) # ns" "due = []" "poison"
  | (due) ns1 due1 where "\<not> nack_satisfied rs key" "overdue now cyc r" "attempts r < k"
      "nack_walk rs now cyc k ns = (ns1, due1, poison)" "due = key # due1"
      "ns' = (key, r\<lparr>last_nack_ns := now, attempts := attempts r + 1\<rparr>) # ns1"
  using assms by (auto simp: overdue_def not_le split: if_splits prod.splits)

lemma nack_walk_keys: "nack_walk rs now cyc k ns = (ns', due, poison) \<Longrightarrow> fst ` set ns' \<subseteq> fst ` set ns"
proof (induction ns arbitrary: ns' due poison)
  case (Cons e ns)
  obtain key r where e: "e = (key, r)" by (cases e)
  show ?case using Cons.prems unfolding e by (rule nack_walk_cases) (use Cons.IH in force)+
qed simp

lemma nack_walk_due:
  "nack_walk rs now cyc k ns = (ns', due, poison) \<Longrightarrow> set due \<subseteq> {key \<in> fst ` set ns. \<not> nack_satisfied rs key}"
proof (induction ns arbitrary: ns' due poison)
  case (Cons e ns)
  obtain key r where e: "e = (key, r)" by (cases e)
  show ?case using Cons.prems unfolding e by (rule nack_walk_cases) (use Cons.IH in force)+
qed simp

lemma nack_list_ok_Cons:
  "nack_list_ok k ((key, r) # ns) \<longleftrightarrow>
    nack_list_ok k ns \<and> attempts r \<le> k \<and> (\<forall>x\<in>fst ` set ns. key \<le> x) \<and> key \<notin> fst ` set ns"
  by (auto simp: nack_list_ok_def)

lemma nack_walk_ok:
  "nack_walk rs now cyc k ns = (ns', due, poison) \<Longrightarrow> nack_list_ok k ns \<Longrightarrow> nack_list_ok k ns'"
proof (induction ns arbitrary: ns' due poison)
  case (Cons e ns)
  obtain key r where e: "e = (key, r)" by (cases e)
  have ok: "nack_list_ok k ns" "attempts r \<le> k" "\<forall>x\<in>fst ` set ns. key \<le> x" "key \<notin> fst ` set ns"
    using Cons.prems(2) by (simp_all add: e nack_list_ok_Cons)
  from Cons.prems(1) [unfolded e] show ?case
  proof (cases rule: nack_walk_cases)
    case (wait ns1)
    have "\<forall>x\<in>fst ` set ns1. key \<le> x" "key \<notin> fst ` set ns1" using nack_walk_keys [OF wait(3)] ok(3,4) by blast+
    then show ?thesis unfolding wait(4) nack_list_ok_Cons using Cons.IH [OF wait(3) ok(1)] ok(2) by blast
  next
    case (due ns1 due1)
    have "\<forall>x\<in>fst ` set ns1. key \<le> x" "key \<notin> fst ` set ns1" using nack_walk_keys [OF due(4)] ok(3,4) by blast+
    moreover have "attempts (r\<lparr>last_nack_ns := now, attempts := attempts r + 1\<rparr>) \<le> k" using due(3) by (simp add: inc_le)
    ultimately show ?thesis unfolding due(6) nack_list_ok_Cons using Cons.IH [OF due(4) ok(1)] by blast
  qed (use Cons ok e in \<open>auto simp: nack_list_ok_Cons\<close>)
qed simp

lemma nack_walk_poison:
  "nack_walk rs now cyc k ns = (ns', due, poison) \<Longrightarrow>
    poison \<longleftrightarrow> (\<exists>e\<in>set ns. \<not> nack_satisfied rs (fst e) \<and> overdue now cyc (snd e) \<and> k \<le> attempts (snd e))"
proof (induction ns arbitrary: ns' due poison)
  case (Cons e ns)
  obtain key r where e: "e = (key, r)" by (cases e)
  from Cons.prems [unfolded e] show ?case by (cases rule: nack_walk_cases) (use Cons.IH e in auto)
qed simp

lemma nack_walk_complete:
  "nack_walk rs now cyc k ns = (ns', due, poison) \<Longrightarrow> \<not> poison \<Longrightarrow> (key, r) \<in> set ns \<Longrightarrow>
    \<not> nack_satisfied rs key \<Longrightarrow> overdue now cyc r \<Longrightarrow> key \<in> set due"
proof (induction ns arbitrary: ns' due poison)
  case (Cons e ns)
  obtain key' r' where e: "e = (key', r')" by (cases e)
  from Cons.prems(1) [unfolded e] show ?case by (cases rule: nack_walk_cases) (use Cons.IH Cons.prems(2-5) e in auto)
qed simp

lemma nack_walk_kept:
  "nack_walk rs now cyc k ns = (ns', due, poison) \<Longrightarrow> key \<in> fst ` set ns \<Longrightarrow> \<not> nack_satisfied rs key \<Longrightarrow>
    key \<in> fst ` set ns'"
proof (induction ns arbitrary: ns' due poison)
  case (Cons e ns)
  obtain key' r' where e: "e = (key', r')" by (cases e)
  from Cons.prems(1) [unfolded e] show ?case by (cases rule: nack_walk_cases) (use Cons.IH Cons.prems(2,3) e in auto)
qed simp

subsection \<open>A round of requests\<close>

lemma rx_drain_nacks_frame:
  assumes "rx_drain_nacks now cyc k rs = Some (rs', due, poison)"
  shows "\<exists>ns. rs' = rs\<lparr>nack_state := ns\<rparr>"
  using assms compute_missing_keys(3) [of "fst now" rs]
  by (fastforce simp: rx_drain_nacks_def split: option.splits prod.splits)

lemma rx_drain_nacks_inv:
  assumes "rx_drain_nacks now cyc k rs = Some (rs', due, poison)" "rx_inv msgs H d rs" "drained rs"
  shows "rx_inv msgs H d rs' \<and> drained rs'"
  using rx_drain_nacks_frame [OF assms(1)] assms(2,3)
  by (auto simp: rx_inv_def queue_ok_def rx_data_def pend_ok_def drained_def)

text \<open>
  Only fragments that have not arrived are asked for, with one exception: the fragment of an
  empty stream that waits in \<open>pending\<close> looks as if it had not arrived.
\<close>

lemma due_missing:
  assumes "rx_drain_nacks now cyc k rs = Some (rs', due, poison)" and inv: "rx_inv msgs H d rs" "sane msgs"
    and H: "\<And>s i. (s, i) \<in> set H \<Longrightarrow> unat i < nfrags (msgs ! unat s)" and "(s, i) \<in> set due"
  shows "next_rx_seq rs \<le> s" "(s, i) \<notin> set H \<or> unat s < length msgs \<and> msgs ! unat s = []"
proof -
  obtain r1 ns where r1: "compute_missing (fst now) rs = Some r1" "nack_walk r1 (snd now) cyc k (nack_state r1) = (ns, due, poison)"
    using assms(1) by (auto simp: rx_drain_nacks_def split: option.splits prod.splits)
  have "next_rx_seq r1 = next_rx_seq rs" "pending r1 = pending rs" using compute_missing_keys(3) [OF r1(1)] by auto
  moreover have "\<not> nack_satisfied r1 (s, i)" using nack_walk_due [OF r1(2)] assms(5) by auto
  ultimately have ns: "\<not> nack_satisfied rs (s, i)" by (simp add: nack_satisfied_def)
  then show n: "next_rx_seq rs \<le> s" by (auto simp: nack_satisfied_def)
  have po: "case map_of (pending rs) s of None \<Rightarrow> \<forall>i. (s, i) \<notin> set H | Some p \<Rightarrow> partial_ok msgs H s p"
    using inv(1) n unfolding rx_inv_def pend_ok_def by blast
  show "(s, i) \<notin> set H \<or> unat s < length msgs \<and> msgs ! unat s = []"
  proof (cases "(s, i) \<in> set H")
    case True
    then obtain p where p: "map_of (pending rs) s = Some p" "partial_ok msgs H s p"
      using po by (cases "map_of (pending rs) s") auto
    then have l: "unat s < length msgs" by (simp add: partial_ok_def)
    have i: "unat i < nfrags (msgs ! unat s)" using H True by blast
    have "0 < frag_total p" using p(2) sane_nth [OF inv(2) l] nfrags_pos [of "msgs ! unat s"]
      by (simp add: partial_ok_def Let_def word_less_nat_alt unat_of_nat)
    then have "frags p ! unat i = []" using ns p i by (simp add: nack_satisfied_def partial_ok_def Let_def)
    then have "frag (msgs ! unat s) (unat i) = []" using p(2) i True by (simp add: partial_ok_def Let_def)
    then have "msgs ! unat s = []" using frag_nonempty [OF _ i] by blast
    then show ?thesis using l by blast
  qed simp
qed

text \<open>Every fragment that has not arrived of a stream that has begun to arrive is a visible gap, and stays tracked.\<close>

lemma missing_is_gap:
  assumes "rx_inv msgs H d rs" "sane msgs" and s: "unat s < length msgs" "next_rx_seq rs \<le> s" "s \<le> max_seen_seq rs"
    and j: "j < nfrags (msgs ! unat s)" "(s, of_nat j) \<notin> set H"
  shows "gap rs (s, of_nat j) \<or> gap rs (s, 0) \<and> map_of (pending rs) s = None"
proof -
  have po: "case map_of (pending rs) s of None \<Rightarrow> \<forall>i. (s, i) \<notin> set H | Some p \<Rightarrow> partial_ok msgs H s p"
    using assms(1) s(2) unfolding rx_inv_def pend_ok_def by blast
  show ?thesis
  proof (cases "map_of (pending rs) s")
    case None
    then show ?thesis using s by (simp add: gap_def)
  next
    case (Some p)
    then have p: "partial_ok msgs H s p" using po by simp
    have n: "unat (frag_total p) = nfrags (msgs ! unat s)"
      using p sane_nth [OF assms(2) s(1)] by (simp add: partial_ok_def Let_def unat_of_nat)
    then have "frag_total p \<noteq> 0" by (metis less_irrefl nfrags_pos unsigned_0)
    moreover have "frags p ! j = []" using p j by (simp add: partial_ok_def Let_def)
    ultimately show ?thesis using Some s n j(1) by (auto simp: gap_def)
  qed
qed

lemma gap_tracked:
  assumes "rx_drain_nacks now cyc k rs = Some (rs', due, poison)" and g: "rx_any_seen rs" "gap rs (s, i)"
    and small: "\<And>p. map_of (pending rs) s = Some p \<Longrightarrow> frag_total p < 2 ^ 16"
  shows "(s, i) \<in> fst ` set (nack_state rs')"
proof -
  obtain r1 ns where r1: "compute_missing (fst now) rs = Some r1" "nack_walk r1 (snd now) cyc k (nack_state r1) = (ns, due, poison)"
      "rs' = r1\<lparr>nack_state := ns\<rparr>"
    using assms(1) by (auto simp: rx_drain_nacks_def split: option.splits prod.splits)
  have e: "next_rx_seq r1 = next_rx_seq rs" "pending r1 = pending rs" using compute_missing_keys(3) [OF r1(1)] by auto
  have "\<not> nack_satisfied rs (s, i)"
  proof (cases "map_of (pending rs) s")
    case None
    then show ?thesis using g(2) by (auto simp: gap_def nack_satisfied_def)
  next
    case (Some p)
    then obtain j where j: "j < unat (frag_total p)" "i = of_nat j" "frags p ! j = []" using g(2) by (auto simp: gap_def)
    have "unat (frag_total p) < 2 ^ 16" using small [OF Some] by (simp add: word_less_nat_alt)
    then have "unat i = j" using j(1,2) by (simp add: unat_of_nat)
    then show ?thesis using Some j(3) g(2) by (auto simp: gap_def nack_satisfied_def)
  qed
  then have "\<not> nack_satisfied r1 (s, i)" using e by (simp add: nack_satisfied_def)
  moreover have "(s, i) \<in> fst ` set (nack_state r1)" using compute_missing_keys(1) [OF r1(1)] g by auto
  ultimately show ?thesis using nack_walk_kept [OF r1(2)] r1(3) by simp
qed

subsection \<open>Every round\<close>

text \<open>
  The states a receiver goes through: frames of the peer's messages arrive, \<open>recv\<close> takes bytes, idle
  rounds run and the pipe may be poisoned, in any order; \<open>H\<close> lists the fragments that have arrived.
\<close>

inductive rx_reach :: "bytes list \<Rightarrow> (u32 \<times> u16) list \<Rightarrow> RxState \<Rightarrow> bool" for msgs where
  rx_start: "rx_reach msgs [] rx_init"
| rx_arrive: "rx_reach msgs H rs \<Longrightarrow> honest msgs s i tot payload \<Longrightarrow> rx_reach msgs ((s, i) # H) (rx_frame s i tot payload rs)"
| rx_take: "rx_reach msgs H rs \<Longrightarrow> rx_recv n rs = Rx_data bs rs' \<Longrightarrow> rx_reach msgs H rs'"
| rx_idle: "rx_reach msgs H rs \<Longrightarrow> rx_drain_nacks now cyc k rs = Some (rs', due, poison) \<Longrightarrow> rx_reach msgs H rs'"
| rx_poison: "rx_reach msgs H rs \<Longrightarrow> rx_reach msgs H (rs\<lparr>rx_poisoned := True\<rparr>)"

lemma drain_pending_nack [simp]:
  "nack_state (drain_pending rs) = nack_state rs" "max_seen_seq (drain_pending rs) = max_seen_seq rs"
  "rx_any_seen (drain_pending rs) = rx_any_seen rs"
proof -
  have "nack_state (drain_pending rs) = nack_state rs \<and> max_seen_seq (drain_pending rs) = max_seen_seq rs \<and>
      rx_any_seen (drain_pending rs) = rx_any_seen rs"
    by (rule drain_induct [where P = "\<lambda>r. nack_state r = nack_state rs \<and> max_seen_seq r = max_seen_seq rs \<and> rx_any_seen r = rx_any_seen rs"])
      (simp_all add: drain_step_def push_chunk_def)
  then show "nack_state (drain_pending rs) = nack_state rs" "max_seen_seq (drain_pending rs) = max_seen_seq rs"
    "rx_any_seen (drain_pending rs) = rx_any_seen rs" by blast+
qed

lemma rx_frame_nack:
  "nack_state (rx_frame s i tot payload rs) = AList.delete (s, i) (nack_state rs)"
  "rx_any_seen (rx_frame s i tot payload rs)"
  "max_seen_seq (rx_frame s i tot payload rs) = (if rx_any_seen rs then max (max_seen_seq rs) s else s)"
  by (auto simp: rx_frame_def Let_def rx_store_def note_frame_def push_chunk_def max_def)

text \<open>What holds in all of them: entries are in range, and the highest sequence number is of a message.\<close>

definition nack_inv :: "bytes list \<Rightarrow> (u32 \<times> u16) list \<Rightarrow> RxState \<Rightarrow> bool" where
  "nack_inv msgs H rs \<longleftrightarrow> (\<exists>d. rx_inv msgs H d rs) \<and> drained rs \<and>
     (\<forall>(s, i)\<in>set H. unat i < nfrags (msgs ! unat s) \<and> rx_any_seen rs \<and> s \<le> max_seen_seq rs) \<and>
     (rx_any_seen rs \<longrightarrow> unat (max_seen_seq rs) < length msgs) \<and>
     (\<forall>(s, i)\<in>fst ` set (nack_state rs). unat s < length msgs \<and> unat i < nfrags (msgs ! unat s))"

lemma pending_total:
  assumes "rx_inv msgs H d rs" "sane msgs" "next_rx_seq rs \<le> s" "map_of (pending rs) s = Some p"
  shows "unat s < length msgs" "unat (frag_total p) = nfrags (msgs ! unat s)" "partial_ok msgs H s p" "frag_total p < 2 ^ 16"
proof -
  have "case map_of (pending rs) s of None \<Rightarrow> \<forall>i. (s, i) \<notin> set H | Some p \<Rightarrow> partial_ok msgs H s p"
    using assms(1,3) unfolding rx_inv_def pend_ok_def by blast
  then show p: "partial_ok msgs H s p" using assms(4) by simp
  then show l: "unat s < length msgs" by (simp add: partial_ok_def)
  show "unat (frag_total p) = nfrags (msgs ! unat s)"
    using p sane_nth [OF assms(2) l] by (simp add: partial_ok_def Let_def unat_of_nat)
  with sane_nth [OF assms(2) l] show "frag_total p < 2 ^ 16" by (simp add: word_less_nat_alt)
qed

lemma gap_range:
  assumes "rx_inv msgs H d rs" "sane msgs" "unat (max_seen_seq rs) < length msgs" "gap rs (s, i)"
  shows "unat s < length msgs \<and> unat i < nfrags (msgs ! unat s)"
proof -
  have s: "next_rx_seq rs \<le> s" "s \<le> max_seen_seq rs" using assms(4) by (auto simp: gap_def)
  then have l: "unat s < length msgs" using assms(3) by (simp add: word_le_nat_alt)
  show ?thesis
  proof (cases "map_of (pending rs) s")
    case None
    then show ?thesis using assms(4) l by (simp add: gap_def)
  next
    case (Some p)
    then obtain j where "j < nfrags (msgs ! unat s)" "i = of_nat j"
      using assms(4) pending_total(2) [OF assms(1,2) s(1) Some] by (auto simp: gap_def)
    then show ?thesis using l sane_nth [OF assms(2) l] by (simp add: unat_of_nat)
  qed
qed

lemma drain_keys:
  assumes "rx_drain_nacks now cyc k rs = Some (rs', due, poison)"
  shows "fst ` set (nack_state rs') \<subseteq> fst ` set (nack_state rs) \<union> {e. rx_any_seen rs \<and> gap rs e}"
    "set due \<subseteq> fst ` set (nack_state rs) \<union> {e. rx_any_seen rs \<and> gap rs e}"
proof -
  obtain r1 ns where r1: "compute_missing (fst now) rs = Some r1" "nack_walk r1 (snd now) cyc k (nack_state r1) = (ns, due, poison)"
      "rs' = r1\<lparr>nack_state := ns\<rparr>"
    using assms(1) by (auto simp: rx_drain_nacks_def split: option.splits prod.splits)
  show "fst ` set (nack_state rs') \<subseteq> fst ` set (nack_state rs) \<union> {e. rx_any_seen rs \<and> gap rs e}"
    using nack_walk_keys [OF r1(2)] compute_missing_keys(1) [OF r1(1)] r1(3) by simp
  show "set due \<subseteq> fst ` set (nack_state rs) \<union> {e. rx_any_seen rs \<and> gap rs e}"
    using nack_walk_due [OF r1(2)] compute_missing_keys(1) [OF r1(1)] by blast
qed

lemma rx_reach_inv: "rx_reach msgs H rs \<Longrightarrow> sane msgs \<Longrightarrow> nack_inv msgs H rs"
proof (induction rule: rx_reach.induct)
  case rx_start
  show ?case unfolding nack_inv_def using rx_inv_init by (auto simp: rx_init_def drained_def)
next
  case (rx_arrive H rs s i tot payload)
  then have I: "nack_inv msgs H rs" by blast
  then obtain d where d: "rx_inv msgs H d rs" "drained rs" by (auto simp: nack_inv_def)
  have h: "unat s < length msgs" "unat i < nfrags (msgs ! unat s)" using rx_arrive.hyps(2) by (auto simp: honest_def Let_def)
  have "fst ` set (AList.delete (s, i) (nack_state rs)) \<subseteq> fst ` set (nack_state rs)"
    by (auto simp: AList.delete_eq)
  then show ?case
    using I rx_frame_inv [OF rx_arrive.hyps(2) rx_arrive.prems d] h
    unfolding nack_inv_def by (fastforce simp: rx_frame_nack max_def)
next
  case (rx_take H rs n bs rs')
  then obtain d where d: "rx_inv msgs H d rs" "drained rs" by (auto simp: nack_inv_def)
  then obtain cs j where "rs' = rs\<lparr>rx_chunks := cs, rx_bytes := j\<rparr>"
    using rx_recv_Data(5) [OF _ rx_take.hyps(2)] by (auto simp: rx_inv_def)
  with rx_recv_inv [OF d rx_take.hyps(2)] rx_take show ?case by (auto simp: nack_inv_def)
next
  case (rx_idle H rs now cyc k rs' due poison)
  then have I: "nack_inv msgs H rs" by blast
  then obtain d where d: "rx_inv msgs H d rs" "drained rs" by (auto simp: nack_inv_def)
  obtain ns where rs': "rs' = rs\<lparr>nack_state := ns\<rparr>" using rx_drain_nacks_frame [OF rx_idle.hyps(2)] by blast
  have "\<forall>(s, i)\<in>fst ` set (nack_state rs'). unat s < length msgs \<and> unat i < nfrags (msgs ! unat s)"
    using drain_keys(1) [OF rx_idle.hyps(2)] I gap_range [OF d(1) rx_idle.prems] unfolding nack_inv_def by fastforce
  with I rx_drain_nacks_inv [OF rx_idle.hyps(2) d] show ?case by (auto simp: nack_inv_def rs')
next
  case (rx_poison H rs)
  then show ?case by (auto simp: nack_inv_def rx_inv_def queue_ok_def rx_data_def pend_ok_def drained_def)
qed

text \<open>
  A round of requests in any of these states: what it asks for, what it tracks, and that whatever has
  been tracked for a cycle without arriving is asked for.
\<close>

lemma requests_in_range:
  assumes "rx_reach msgs H rs" "sane msgs" "rx_drain_nacks now cyc k rs = Some (rs', due, poison)" "(s, i) \<in> set due"
  shows "next_rx_seq rs \<le> s \<and> unat s < length msgs \<and> unat i < nfrags (msgs ! unat s) \<and> ((s, i) \<notin> set H \<or> msgs ! unat s = [])"
proof -
  have I: "nack_inv msgs H rs" using rx_reach_inv assms(1,2) by blast
  then obtain d where d: "rx_inv msgs H d rs" by (auto simp: nack_inv_def)
  have "(s, i) \<in> fst ` set (nack_state rs) \<or> rx_any_seen rs \<and> gap rs (s, i)"
    using drain_keys(2) [OF assms(3)] assms(4) by blast
  then have "unat s < length msgs \<and> unat i < nfrags (msgs ! unat s)"
    using gap_range [OF d assms(2)] I unfolding nack_inv_def by auto
  moreover have "next_rx_seq rs \<le> s" "(s, i) \<notin> set H \<or> msgs ! unat s = []"
    using due_missing [OF assms(3) d assms(2) _ assms(4)] I by (auto simp: nack_inv_def)
  ultimately show ?thesis by blast
qed

lemma missing_tracked:
  assumes "rx_reach msgs H rs" "sane msgs" "rx_drain_nacks now cyc k rs = Some (rs', due, poison)"
    and s: "next_rx_seq rs \<le> s" "(s', i') \<in> set H" "s \<le> s'"
  shows "(s, i) \<in> set H \<Longrightarrow> j < nfrags (msgs ! unat s) \<Longrightarrow> (s, of_nat j) \<notin> set H \<Longrightarrow> (s, of_nat j) \<in> fst ` set (nack_state rs')"
    "\<forall>i. (s, i) \<notin> set H \<Longrightarrow> (s, 0) \<in> fst ` set (nack_state rs')"
proof -
  have I: "nack_inv msgs H rs" using rx_reach_inv assms(1,2) by blast
  then obtain d where d: "rx_inv msgs H d rs" by (auto simp: nack_inv_def)
  have seen: "rx_any_seen rs" "s \<le> max_seen_seq rs" "unat s < length msgs"
    using I s(2,3) by (auto simp: nack_inv_def word_le_nat_alt)
  note po = d [unfolded rx_inv_def pend_ok_def, THEN conjunct2, THEN conjunct2, THEN conjunct2, rule_format, OF s(1)]
  have tr: "gap rs (s, i) \<Longrightarrow> (s, i) \<in> fst ` set (nack_state rs')" for i
    using gap_tracked [OF assms(3) seen(1)] pending_total(4) [OF d assms(2) s(1)] by blast
  have none: "map_of (pending rs) s \<noteq> None" if "(s, i) \<in> set H" for i using po that by (cases "map_of (pending rs) s") auto
  show "(s, of_nat j) \<in> fst ` set (nack_state rs')" if "(s, i) \<in> set H" "j < nfrags (msgs ! unat s)" "(s, of_nat j) \<notin> set H"
    using missing_is_gap [OF d assms(2) seen(3) s(1) seen(2) that(2,3)] none [OF that(1)] tr by blast
  show "(s, 0) \<in> fst ` set (nack_state rs')" if "\<forall>i. (s, i) \<notin> set H"
  proof (cases "map_of (pending rs) s")
    case None
    then show ?thesis using s(1) seen(2) by (intro tr) (simp add: gap_def)
  next
    case (Some p)
    have "gap rs (s, of_nat 0) \<or> gap rs (s, 0) \<and> map_of (pending rs) s = None"
      by (rule missing_is_gap [OF d assms(2) seen(3) s(1) seen(2)]) (use that in simp_all)
    then show ?thesis using tr by auto
  qed
qed

lemma try_emplace_keeps: "set xs \<subseteq> set (try_emplace k v xs)"
  by (auto simp: try_emplace_def insort_insert_key_def set_insort_key)

lemma fold_emplace_keeps: "set ns \<subseteq> set (fold (\<lambda>i ns. if P i then try_emplace (f i) v ns else ns) is ns)"
proof (induction "is" arbitrary: ns)
  case (Cons i "is")
  then show ?case using try_emplace_keeps [of ns "f i" v] by (auto split: if_splits)
qed simp

lemma compute_missing_keeps:
  assumes "compute_missing now rs = Some rs'"
  shows "set (nack_state rs) \<subseteq> set (nack_state rs')"
proof -
  have one: "set (nack_state r) \<subseteq> set (nack_state (missing_in now s r))" for s r
    by (auto simp: missing_in_def Let_def intro: subsetD [OF try_emplace_keeps] subsetD [OF fold_emplace_keeps] split: option.split)
  have "set (nack_state r) \<subseteq> set (nack_state (fold (missing_in now) ss r))" for ss r
  proof (induction ss arbitrary: r)
    case (Cons s ss)
    show ?case using subset_trans [OF one Cons.IH] by simp
  qed simp
  then show ?thesis using assms by (cases "max_seen_seq rs = - 1")
    (auto simp: compute_missing_def missing_loop_diverges missing_loop_eq simp del: upt_Suc split: if_splits)
qed

lemma overdue_requested:
  assumes "rx_reach msgs H rs" "sane msgs" "rx_drain_nacks now cyc k rs = Some (rs', due, poison)" "\<not> poison"
    and e: "((s, i), r) \<in> set (nack_state rs)" "overdue (snd now) cyc r" "next_rx_seq rs \<le> s" "(s, i) \<notin> set H"
  shows "(s, i) \<in> set due"
proof -
  have I: "nack_inv msgs H rs" using rx_reach_inv assms(1,2) by blast
  then obtain d where d: "rx_inv msgs H d rs" by (auto simp: nack_inv_def)
  obtain r1 ns where r1: "compute_missing (fst now) rs = Some r1" "nack_walk r1 (snd now) cyc k (nack_state r1) = (ns, due, poison)"
    using assms(3) by (auto simp: rx_drain_nacks_def split: option.splits prod.splits)
  have r: "next_rx_seq r1 = next_rx_seq rs" "pending r1 = pending rs" using compute_missing_keys(3) [OF r1(1)] by auto
  have range: "unat i < nfrags (msgs ! unat s)" using I e(1) by (force simp: nack_inv_def)
  have "frags p ! unat i = []" if "map_of (pending rs) s = Some p" for p
    using pending_total(3) [OF d assms(2) e(3) that] range e(4) by (simp add: partial_ok_def Let_def)
  then have "\<not> nack_satisfied r1 (s, i)" using e(3) by (auto simp: nack_satisfied_def r split: option.splits)
  then show ?thesis
    using nack_walk_complete [OF r1(2) assms(4)] compute_missing_keeps [OF r1(1)] e(1,2) by blast
qed

end
