(* ===== verification/Bus_Tx.thy ===== *)
theory Bus_Tx
  imports Bus_Nack
begin

section \<open>The sending side of the bus\<close>

text \<open>
  One \<open>TxState\<close>: the fragment loop of \<open>send\<close>, the buffer of sent fragments with its eviction, and
  the answer to a NACK. One iteration of the loop is a step of its own, since the pump may answer
  NACKs between two of them. The lemmas show that whatever is put on the wire, by \<open>send\<close> or as a
  retransmission, is the one right frame for its stream and fragment.
\<close>

subsection \<open>Sending\<close>

datatype io_result = Sent | Again | Failed

datatype send_end = Send_running | Send_ok | Send_error

record SendCall =
  sc_seq :: u32
  sc_data :: bytes
  sc_i :: u32
  sc_off :: nat

text \<open>\<open>send\<close> up to the loop: the stream gets the next sequence number and is in flight.\<close>

definition send_begin :: "bytes \<Rightarrow> TxState \<Rightarrow> SendCall \<times> TxState" where
  "send_begin data ts = (\<lparr>sc_seq = local_seq ts, sc_data = data, sc_i = 0, sc_off = 0\<rparr>,
     ts\<lparr>local_seq := local_seq ts + 1, streams_in_flight := insert (local_seq ts) (streams_in_flight ts)\<rparr>)"

definition send_total :: "nat \<Rightarrow> u32" where
  "send_total len = (if len = 0 then 1 else of_nat ((len + MAX_PAYLOAD - 1) div MAX_PAYLOAD))"

fun evict_streams :: "u32 list \<Rightarrow> ((u32 \<times> u16) \<times> TxRecord) list \<Rightarrow> u64 \<Rightarrow>
    u32 list \<times> ((u32 \<times> u16) \<times> TxRecord) list \<times> u64" where
  "evict_streams [] buf ev = ([], buf, ev)"
| "evict_streams (old # order) buf ev =
     (if Suc (length order) > TX_BUF_CAP_STREAMS
      then evict_streams order (filter (\<lambda>(k, _). fst k \<noteq> old) buf) (ev + 1) else (old # order, buf, ev))"

definition buffer_frag :: "u32 \<Rightarrow> u32 \<Rightarrow> TxRecord \<Rightarrow> TxState \<Rightarrow> TxState" where
  "buffer_frag seq i rec ts =
     (let ts = ts\<lparr>tx_buf := AList.update (seq, ucast i) rec (tx_buf ts)\<rparr>
      in if i = 0 then
           let (order, buf, ev) = evict_streams (tx_buf_order ts @ [seq]) (tx_buf ts) (tx_buf_evictions ts)
           in ts\<lparr>tx_buf_order := order, tx_buf := buf, tx_buf_evictions := ev\<rparr>
         else ts)"

definition send_chunk :: "SendCall \<Rightarrow> bytes" where
  "send_chunk c = take MAX_PAYLOAD (drop (sc_off c) (sc_data c))"

definition send_fragment ::
  "(bytes \<Rightarrow> bytes \<Rightarrow> nat \<Rightarrow> u8) \<Rightarrow> u8 \<Rightarrow> u8 \<Rightarrow> SendCall \<Rightarrow> TxState \<Rightarrow> bytes \<times> TxState" where
  "send_fragment ks self target c ts =
     (let chunk = send_chunk c; plen = of_nat (length chunk); idx = ucast (sc_i c);
          tot16 = ucast (send_total (length (sc_data c)));
          payload = crypt ks (pair_key ts) (build_nonce 0 self target (sc_seq c) idx) chunk
      in (mk_frame KIND_DATA self target (sc_seq c) idx tot16 plen payload,
          buffer_frag (sc_seq c) (sc_i c)
            \<lparr>tr_frag_total = tot16, tr_payload_len = plen, tr_payload = payload, nack_count = 0\<rparr> ts))"

text \<open>
  One iteration, with what \<open>sendto\<close> returns: the frames that egress, the state and whether the loop
  goes on. \<open>EAGAIN\<close> repeats the iteration with the same index.
\<close>

definition send_step ::
  "(bytes \<Rightarrow> bytes \<Rightarrow> nat \<Rightarrow> u8) \<Rightarrow> u8 \<Rightarrow> u8 \<Rightarrow> io_result \<Rightarrow> SendCall \<Rightarrow> TxState \<Rightarrow>
   bytes list \<times> SendCall \<times> TxState \<times> send_end" where
  "send_step ks self target r c ts =
     (let (frame, ts) = send_fragment ks self target c ts
      in case r of Again \<Rightarrow> ([], c, ts, Send_running)
         | Failed \<Rightarrow> ([], c, ts, Send_error)
         | Sent \<Rightarrow> ([frame], c\<lparr>sc_i := sc_i c + 1, sc_off := sc_off c + length (send_chunk c)\<rparr>,
             ts\<lparr>datagrams_tx := datagrams_tx ts + 1\<rparr>,
             if sc_data c = [] then Send_ok else Send_running))"

definition loop_done :: "SendCall \<Rightarrow> bool" where
  "loop_done c \<longleftrightarrow> \<not> sc_i c < send_total (length (sc_data c))"

definition send_finish :: "SendCall \<Rightarrow> TxState \<Rightarrow> TxState" where
  "send_finish c ts = ts\<lparr>app_bytes := app_bytes ts + of_nat (length (sc_data c)),
     streams_in_flight := streams_in_flight ts - {sc_seq c}\<rparr>"

fun send_loop ::
  "(bytes \<Rightarrow> bytes \<Rightarrow> nat \<Rightarrow> u8) \<Rightarrow> u8 \<Rightarrow> u8 \<Rightarrow> io_result list \<Rightarrow> SendCall \<Rightarrow> TxState \<Rightarrow>
   bytes list \<times> TxState \<times> send_end" where
  "send_loop ks self target rs c ts =
     (if loop_done c then ([], send_finish c ts, Send_ok)
      else case rs of [] \<Rightarrow> ([], ts, Send_running)
      | r # rs' \<Rightarrow> let (fs, c, ts, e) = send_step ks self target r c ts
          in case e of Send_ok \<Rightarrow> (fs, send_finish c ts, Send_ok)
             | Send_error \<Rightarrow> (fs, ts, Send_error)
             | Send_running \<Rightarrow> let (fs', ts, e) = send_loop ks self target rs' c ts in (fs @ fs', ts, e))"

declare send_loop.simps [simp del]

text \<open>\<open>send\<close>: out of range or to itself it does nothing; on a poisoned pipe it throws.\<close>

datatype send_result = Send_ignored | Send_poisoned | Send_result send_end

definition BcastBus_send ::
  "(bytes \<Rightarrow> bytes \<Rightarrow> nat \<Rightarrow> u8) \<Rightarrow> int \<Rightarrow> bytes \<Rightarrow> io_result list \<Rightarrow> BcastBus \<Rightarrow> BcastBus \<times> bytes list \<times> send_result" where
  "BcastBus_send ks dst data rs b =
     (if dst < 0 \<or> int (bus_nP b) \<le> dst \<or> dst = int (unat (self_id b)) then (b, [], Send_ignored)
      else if tx_poisoned (bus_tx b ! nat dst) then (b, [], Send_poisoned)
      else let (c, ts) = send_begin data (bus_tx b ! nat dst);
               (fs, ts, e) = send_loop ks (self_id b) (of_int dst) rs c ts
           in (upd_tx (nat dst) (\<lambda>_. ts) b, fs, Send_result e))"

subsection \<open>Answering a NACK\<close>

datatype nack_verdict = Nack_ignore | Nack_over_cap | Nack_evicted | Nack_resend TxRecord

definition nack_tx :: "u32 \<Rightarrow> u32 \<Rightarrow> u16 \<Rightarrow> TxState \<Rightarrow> TxState \<times> nack_verdict" where
  "nack_tx k seq idx ts =
     (if tx_poisoned ts then (ts, Nack_ignore)
      else case map_of (tx_buf ts) (seq, idx) of
        Some rec \<Rightarrow> let rec = rec\<lparr>nack_count := nack_count rec + 1\<rparr>; ts = ts\<lparr>tx_buf := AList.update (seq, idx) rec (tx_buf ts)\<rparr>
          in (ts, if nack_count rec > k then Nack_over_cap else Nack_resend rec)
      | None \<Rightarrow> (ts, if seq \<ge> local_seq ts \<or> seq \<in> streams_in_flight ts then Nack_ignore else Nack_evicted))"

definition resend_frame :: "u8 \<Rightarrow> u8 \<Rightarrow> u32 \<Rightarrow> u16 \<Rightarrow> TxRecord \<Rightarrow> bytes" where
  "resend_frame self target seq idx rec =
     mk_frame KIND_DATA self target seq idx (tr_frag_total rec) (tr_payload_len rec)
       (take (unat (tr_payload_len rec)) (tr_payload rec))"

definition poison_frame :: "u8 \<Rightarrow> u8 \<Rightarrow> string \<Rightarrow> bytes" where
  "poison_frame self target reason =
     (let plen = min (length reason) MAX_PAYLOAD
      in mk_frame KIND_POISON self target 0 0 0 (of_nat plen) (map of_char (take plen reason)))"

definition over_cap_reason :: "u8 \<Rightarrow> u32 \<Rightarrow> u16 \<Rightarrow> string" where
  "over_cap_reason target seq idx = take 127 (''peer '' @ fmt_u (unat target) @ '' exceeded retx budget on (s='' @
     fmt_u (unat seq) @ '', i='' @ fmt_u (unat idx) @ '')'')"

definition evicted_reason :: "u8 \<Rightarrow> u32 \<Rightarrow> u16 \<Rightarrow> string" where
  "evicted_reason target seq idx = take 127 (''NACK for evicted (peer='' @ fmt_u (unat target) @ '', s='' @
     fmt_u (unat seq) @ '', i='' @ fmt_u (unat idx) @ '')'')"

definition answer_nack :: "u8 \<Rightarrow> u32 \<Rightarrow> u16 \<Rightarrow> BcastBus \<Rightarrow> BcastBus \<times> bytes list" where
  "answer_nack target seq idx b0 =
     (let t = unat target; (ts, v) = nack_tx (retx_k_send b0) seq idx (bus_tx b0 ! t); b = upd_tx t (\<lambda>_. ts) b0
      in case v of Nack_ignore \<Rightarrow> (b, [])
         | Nack_over_cap \<Rightarrow> (upd_tx t (tx_poisoned_update (\<lambda>_. True)) b,
             [poison_frame (self_id b) target (over_cap_reason target seq idx)])
         | Nack_evicted \<Rightarrow> (upd_tx t (tx_poisoned_update (\<lambda>_. True)) b,
             [poison_frame (self_id b) target (evicted_reason target seq idx)])
         | Nack_resend rec \<Rightarrow> (upd_tx t (\<lambda>ts. ts\<lparr>retx_sends := retx_sends ts + 1\<rparr>) b,
             [resend_frame (self_id b) target seq idx rec]))"

text \<open>A NACK counts only if it is for a stream of this host and comes from the host the stream is for.\<close>

definition handle_nack :: "bytes \<Rightarrow> u32 \<Rightarrow> BcastBus \<Rightarrow> BcastBus \<times> bytes list" where
  "handle_nack buf src b0 =
     (let b = b0\<lparr>nack_received_total := nack_received_total b0 + 1\<rparr>;
          missing_sender = buf ! HEADER_SIZE; missing_target = buf ! (HEADER_SIZE + 1)
      in if length buf < HEADER_SIZE + 12 then (b, [])
         else if hdr_target buf \<noteq> self_id b then (b, [])
         else if missing_sender \<noteq> self_id b then (b, [])
         else if bus_nP b \<le> unat missing_target \<or> missing_target = self_id b then (b, [])
         else if src \<noteq> ip_table b ! unat missing_target then (b\<lparr>nack_origin_dropped := nack_origin_dropped b + 1\<rparr>, [])
         else answer_nack missing_target (le_get (take 4 (drop (HEADER_SIZE + 4) buf)))
                (le_get (take 2 (drop (HEADER_SIZE + 8) buf))) b)"

subsection \<open>The frames of a message\<close>

definition wire_frame ::
  "(bytes \<Rightarrow> bytes \<Rightarrow> nat \<Rightarrow> u8) \<Rightarrow> bytes \<Rightarrow> u8 \<Rightarrow> u8 \<Rightarrow> bytes \<Rightarrow> u32 \<Rightarrow> u16 \<Rightarrow> bytes" where
  "wire_frame ks key self target m s i =
     mk_frame KIND_DATA self target s i (of_nat (nfrags m)) (of_nat (length (frag m (unat i))))
       (crypt ks key (build_nonce 0 self target s i) (frag m (unat i)))"

definition call_ok :: "bytes list \<Rightarrow> SendCall \<Rightarrow> bool" where
  "call_ok msgs c \<longleftrightarrow> unat (sc_seq c) < length msgs \<and> sc_data c = msgs ! unat (sc_seq c) \<and>
     sc_off c = min (MAX_PAYLOAD * unat (sc_i c)) (length (sc_data c)) \<and> unat (sc_i c) \<le> nfrags (sc_data c)"

definition rec_ok :: "(bytes \<Rightarrow> bytes \<Rightarrow> nat \<Rightarrow> u8) \<Rightarrow> bytes \<Rightarrow> u8 \<Rightarrow> u8 \<Rightarrow> bytes list \<Rightarrow> u32 \<Rightarrow> u16 \<Rightarrow> TxRecord \<Rightarrow> bool" where
  "rec_ok ks key self target msgs s i rec \<longleftrightarrow> unat s < length msgs \<and> (let m = msgs ! unat s in unat i < nfrags m \<and>
     tr_frag_total rec = of_nat (nfrags m) \<and> tr_payload_len rec = of_nat (length (frag m (unat i))) \<and>
     tr_payload rec = crypt ks key (build_nonce 0 self target s i) (frag m (unat i)))"

definition tx_ok :: "(bytes \<Rightarrow> bytes \<Rightarrow> nat \<Rightarrow> u8) \<Rightarrow> bytes \<Rightarrow> u8 \<Rightarrow> u8 \<Rightarrow> bytes list \<Rightarrow> TxState \<Rightarrow> bool" where
  "tx_ok ks key self target msgs ts \<longleftrightarrow> pair_key ts = key \<and> unat (local_seq ts) = length msgs \<and>
     (\<forall>s i rec. map_of (tx_buf ts) (s, i) = Some rec \<longrightarrow> rec_ok ks key self target msgs s i rec)"

lemma send_total_eq: "send_total (length m) = of_nat (nfrags m)"
  by (simp add: send_total_def nfrags_def)

lemma unat_ucast_32_16: "unat (w :: u32) < 2 ^ 16 \<Longrightarrow> unat (ucast w :: u16) = unat w"
  by (simp add: unsigned_ucast_eq take_bit_nat_eq_self)

lemma rec_ok_append: "rec_ok ks key self target msgs s i rec \<Longrightarrow> rec_ok ks key self target (msgs @ ms) s i rec"
  by (simp add: rec_ok_def nth_append)

lemma call_ok_append: "call_ok msgs c \<Longrightarrow> call_ok (msgs @ ms) c"
  by (auto simp: call_ok_def nth_append)

lemma call_okD: "call_ok msgs c \<Longrightarrow> unat (sc_i c) \<le> nfrags (sc_data c)"
  unfolding call_ok_def by blast

lemma tx_ok_init: "tx_ok ks key self target [] (tx_init key)"
  by (simp add: tx_ok_def tx_init_def)

lemma send_begin_ok:
  assumes "tx_ok ks key self target msgs ts" "sane (msgs @ [data])" "send_begin data ts = (c, ts')"
  shows "tx_ok ks key self target (msgs @ [data]) ts'" "call_ok (msgs @ [data]) c"
proof -
  have l: "unat (local_seq ts) = length msgs" "pair_key ts = key"
    "map_of (tx_buf ts) (s, i) = Some rec \<Longrightarrow> rec_ok ks key self target msgs s i rec" for s i rec
    using assms(1) by (simp_all add: tx_ok_def)
  have "Suc (length msgs) < 2 ^ 32" using assms(2) by (simp add: sane_def)
  then have "unat (local_seq ts + 1) = Suc (length msgs)" using l(1) by (simp add: unat_word_ariths)
  moreover have c: "c = \<lparr>sc_seq = local_seq ts, sc_data = data, sc_i = 0, sc_off = 0\<rparr>"
    "ts' = ts\<lparr>local_seq := local_seq ts + 1, streams_in_flight := insert (local_seq ts) (streams_in_flight ts)\<rparr>"
    using assms(3) by (auto simp: send_begin_def)
  ultimately show "tx_ok ks key self target (msgs @ [data]) ts'" "call_ok (msgs @ [data]) c"
    using l rec_ok_append by (simp_all add: tx_ok_def call_ok_def nth_append)
qed

lemma map_of_filter_key: "map_of (filter (\<lambda>(k, _). P k) xs) k = (if P k then map_of xs k else None)"
  by (induction xs) auto

lemma evict_streams_sub:
  "evict_streams order buf ev = (order', buf', ev') \<Longrightarrow> map_of buf' k = Some rec \<Longrightarrow> map_of buf k = Some rec"
  by (induction order buf ev rule: evict_streams.induct) (auto simp: map_of_filter_key split: if_splits)

lemma buffer_frag_simps:
  "pair_key (buffer_frag s i rec ts) = pair_key ts" "local_seq (buffer_frag s i rec ts) = local_seq ts"
  "tx_poisoned (buffer_frag s i rec ts) = tx_poisoned ts"
  "map_of (tx_buf (buffer_frag s i rec ts)) k = Some r \<Longrightarrow> k = (s, ucast i) \<and> r = rec \<or> map_of (tx_buf ts) k = Some r"
proof -
  show "pair_key (buffer_frag s i rec ts) = pair_key ts" "local_seq (buffer_frag s i rec ts) = local_seq ts"
    "tx_poisoned (buffer_frag s i rec ts) = tx_poisoned ts"
    by (simp_all add: buffer_frag_def Let_def split: prod.split)
  assume "map_of (tx_buf (buffer_frag s i rec ts)) k = Some r"
  then have "map_of (AList.update (s, ucast i) rec (tx_buf ts)) k = Some r"
    by (auto simp: buffer_frag_def Let_def split: prod.splits if_splits dest: evict_streams_sub)
  then show "k = (s, ucast i) \<and> r = rec \<or> map_of (tx_buf ts) k = Some r"
    by (simp add: AList.update_conv' split: if_splits)
qed

lemma send_chunk_eq:
  assumes "call_ok msgs c"
  shows "send_chunk c = frag (sc_data c) (unat (sc_i c))"
  using assms by (cases "MAX_PAYLOAD * unat (sc_i c) \<le> length (sc_data c)")
    (auto simp: call_ok_def send_chunk_def frag_def min_def)

lemma off_step: "min (MAX_PAYLOAD * k) (length m) + length (frag m k) = min (MAX_PAYLOAD * Suc k) (length m)"
proof -
  have "min b L + min (L - b) a = min (b + a) L" for a b L :: nat by linarith
  from this [of "MAX_PAYLOAD * k" "length m" MAX_PAYLOAD] show ?thesis by (simp add: frag_def add.commute)
qed

text \<open>An iteration of the loop emits at most the frame of the current fragment.\<close>

lemma send_step_ok:
  assumes tx: "tx_ok ks key self target msgs ts" and c: "call_ok msgs c" "\<not> loop_done c" and "sane msgs"
    and step: "send_step ks self target r c ts = (fs, c', ts', e)"
  shows "tx_ok ks key self target msgs ts'" "call_ok msgs c'"
    "fs = (if r = Sent then [wire_frame ks key self target (msgs ! unat (sc_seq c)) (sc_seq c) (ucast (sc_i c))] else [])"
    "unat (ucast (sc_i c) :: u16) < nfrags (msgs ! unat (sc_seq c))" "unat (sc_seq c) < length msgs"
    "sc_i c' = (if r = Sent then sc_i c + 1 else sc_i c)" "sc_seq c' = sc_seq c" "sc_data c' = sc_data c"
proof -
  let ?m = "msgs ! unat (sc_seq c)"
  have m: "unat (sc_seq c) < length msgs" "sc_data c = ?m" using c(1) by (simp_all add: call_ok_def)
  have small: "nfrags ?m < 2 ^ 16" by (rule sane_nth [OF assms(4) m(1)])
  have tot: "send_total (length (sc_data c)) = of_nat (nfrags ?m)" by (simp add: send_total_eq m(2))
  have "unat (of_nat (nfrags ?m) :: u32) = nfrags ?m" using small by (simp add: unat_of_nat)
  then have i: "unat (sc_i c) < nfrags ?m" using c(2) by (simp add: loop_done_def tot word_less_nat_alt)
  then have ui: "unat (ucast (sc_i c) :: u16) = unat (sc_i c)" using small by (intro unat_ucast_32_16) simp
  have chunk: "send_chunk c = frag ?m (unat (sc_i c))" using send_chunk_eq [OF c(1)] m(2) by simp
  have t16: "(ucast (of_nat (nfrags ?m) :: u32) :: u16) = of_nat (nfrags ?m)" by transfer simp
  let ?rec = "\<lparr>tr_frag_total = of_nat (nfrags ?m), tr_payload_len = of_nat (length (frag ?m (unat (sc_i c)))),
      tr_payload = crypt ks key (build_nonce 0 self target (sc_seq c) (ucast (sc_i c))) (frag ?m (unat (sc_i c))), nack_count = 0\<rparr>"
  have rok: "rec_ok ks key self target msgs (sc_seq c) (ucast (sc_i c)) ?rec" using m(1) i by (simp add: rec_ok_def ui)
  have key: "pair_key ts = key" using tx by (simp add: tx_ok_def)
  define W where "W = wire_frame ks key self target ?m (sc_seq c) (ucast (sc_i c))"
  define B where "B = buffer_frag (sc_seq c) (sc_i c) ?rec ts"
  have sf: "send_fragment ks self target c ts = (W, B)"
    by (simp add: send_fragment_def Let_def chunk tot t16 key wire_frame_def ui W_def B_def)
  have B: "pair_key B = pair_key ts" "local_seq B = local_seq ts" unfolding B_def by (simp_all add: buffer_frag_simps)
  have bok: "tx_ok ks key self target msgs B"
    unfolding tx_ok_def B
  proof (intro conjI allI impI)
    fix s i rec assume "map_of (tx_buf B) (s, i) = Some rec"
    then have "(s, i) = (sc_seq c, ucast (sc_i c)) \<and> rec = ?rec \<or> map_of (tx_buf ts) (s, i) = Some rec"
      unfolding B_def by (rule buffer_frag_simps(4))
    then show "rec_ok ks key self target msgs s i rec" using rok tx unfolding tx_ok_def by blast
  qed (use tx in \<open>simp_all add: tx_ok_def\<close>)
  have "(fs, c', ts', e) = (case r of Again \<Rightarrow> ([], c, B, Send_running) | Failed \<Rightarrow> ([], c, B, Send_error)
      | Sent \<Rightarrow> ([W], c\<lparr>sc_i := sc_i c + 1, sc_off := sc_off c + length (send_chunk c)\<rparr>,
             B\<lparr>datagrams_tx := datagrams_tx B + 1\<rparr>, if sc_data c = [] then Send_ok else Send_running))"
    unfolding step [symmetric] send_step_def sf by simp
  then have e: "fs = (if r = Sent then [W] else [])"
    "c' = (if r = Sent then c\<lparr>sc_i := sc_i c + 1, sc_off := sc_off c + length (send_chunk c)\<rparr> else c)"
    "ts' = (if r = Sent then B\<lparr>datagrams_tx := datagrams_tx B + 1\<rparr> else B)"
    by (cases r, simp_all)+
  show "fs = (if r = Sent then [wire_frame ks key self target ?m (sc_seq c) (ucast (sc_i c))] else [])"
    unfolding e(1) W_def ..
  show "tx_ok ks key self target msgs ts'" using bok unfolding e(3) by (simp add: tx_ok_def)
  show "unat (ucast (sc_i c) :: u16) < nfrags ?m" "unat (sc_seq c) < length msgs" using i m(1) by (simp_all add: ui)
  show "sc_i c' = (if r = Sent then sc_i c + 1 else sc_i c)" "sc_seq c' = sc_seq c" "sc_data c' = sc_data c"
    by (simp_all add: e(2))
  have i1: "unat (sc_i c + 1) = Suc (unat (sc_i c))" using i small by (simp add: unat_word_ariths)
  have off: "sc_off c + length (frag ?m (unat (sc_i c))) = min (MAX_PAYLOAD * Suc (unat (sc_i c))) (length ?m)"
    using c(1) off_step [of "unat (sc_i c)" ?m] m(2) by (simp only: call_ok_def)
  have le: "Suc (unat (sc_i c)) \<le> nfrags ?m" using i by simp
  show "call_ok msgs c'"
  proof (cases "r = Sent")
    case True
    then have c': "c' = c\<lparr>sc_i := sc_i c + 1, sc_off := sc_off c + length (frag ?m (unat (sc_i c)))\<rparr>" by (simp add: e(2) chunk)
    have "sc_seq c' = sc_seq c" "sc_data c' = ?m" "sc_i c' = sc_i c + 1"
      "sc_off c' = sc_off c + length (frag ?m (unat (sc_i c)))" by (simp_all add: c' m(2))
    then show ?thesis unfolding call_ok_def using i1 off le m(1) by (simp only:)
  next
    case False
    then show ?thesis using c(1) by (simp add: e(2))
  qed
qed

text \<open>
  However often the socket buffer is full, the loop emits the fragments of the message one after
  the other, once each, and ends when the socket has taken as many frames as there are fragments.
\<close>

lemma loop_done_iff:
  assumes "call_ok msgs c" "sane msgs"
  shows "loop_done c \<longleftrightarrow> unat (sc_i c) = nfrags (sc_data c)"
proof -
  have "nfrags (sc_data c) < 2 ^ 16" using assms sane_nth [OF assms(2)] by (simp add: call_ok_def)
  then have "unat (send_total (length (sc_data c))) = nfrags (sc_data c)" by (simp add: send_total_eq unat_of_nat)
  then show ?thesis using assms(1) by (auto simp: loop_done_def word_less_nat_alt call_ok_def)
qed

lemma send_step_end:
  "send_step ks self target r c ts = (fs, c', ts', e) \<Longrightarrow> e = (case r of Again \<Rightarrow> Send_running | Failed \<Rightarrow> Send_error
     | Sent \<Rightarrow> if sc_data c = [] then Send_ok else Send_running)"
  by (cases r) (auto simp: send_step_def split: prod.splits)

lemma send_loop_ok:
  assumes "tx_ok ks key self target msgs ts" "call_ok msgs c" "sane msgs"
    and "Failed \<notin> set rs" "nfrags (sc_data c) \<le> unat (sc_i c) + count_list rs Sent"
    and "send_loop ks self target rs c ts = (fs, ts', e)"
  shows "e = Send_ok" "fs = map (\<lambda>j. wire_frame ks key self target (sc_data c) (sc_seq c) (of_nat j)) [unat (sc_i c)..<nfrags (sc_data c)]"
    "tx_ok ks key self target msgs ts'"
proof -
  have fin: "tx_ok ks key self target msgs ts \<Longrightarrow> tx_ok ks key self target msgs (send_finish c ts)" for c ts
    by (simp add: tx_ok_def send_finish_def)
  have "e = Send_ok \<and> fs = map (\<lambda>j. wire_frame ks key self target (sc_data c) (sc_seq c) (of_nat j)) [unat (sc_i c)..<nfrags (sc_data c)] \<and>
    tx_ok ks key self target msgs ts'"
    using assms
  proof (induction rs arbitrary: c ts fs ts' e)
    case Nil
    have "unat (sc_i c) = nfrags (sc_data c)" using call_okD [OF Nil.prems(2)] Nil.prems(5) by simp
    moreover from this have "loop_done c" using loop_done_iff [OF Nil.prems(2,3)] by simp
    ultimately show ?case using Nil.prems(6) fin [OF Nil.prems(1)] by (subst (asm) send_loop.simps) auto
  next
    case (Cons r rs)
    show ?case
    proof (cases "loop_done c")
      case True
      then have "unat (sc_i c) = nfrags (sc_data c)" using loop_done_iff [OF Cons.prems(2,3)] by simp
      then show ?thesis using True Cons.prems(6) fin [OF Cons.prems(1)] by (subst (asm) send_loop.simps) auto
    next
      case False
      obtain fs1 c1 ts1 e1 where st: "send_step ks self target r c ts = (fs1, c1, ts1, e1)" by (metis prod_cases4)
      note S = send_step_ok [OF Cons.prems(1,2) False Cons.prems(3) st]
      have m: "sc_data c = msgs ! unat (sc_seq c)" using Cons.prems(2) by (simp add: call_ok_def)
      have e1: "e1 = (if r = Sent \<and> sc_data c = [] then Send_ok else Send_running)"
        using send_step_end [OF st] Cons.prems(4) by (cases r) auto
      have lt: "unat (sc_i c) < nfrags (sc_data c)"
        using False loop_done_iff [OF Cons.prems(2,3)] call_okD [OF Cons.prems(2)] by simp
      have small: "nfrags (sc_data c) < 2 ^ 16" using sane_nth [OF Cons.prems(3) S(5)] m by simp
      then have Suc: "unat (sc_i c + 1) = Suc (unat (sc_i c))" using lt by (simp add: unat_word_ariths)
      have cast: "(ucast (sc_i c) :: u16) = of_nat (unat (sc_i c))" by simp
      show ?thesis
      proof (cases "e1 = Send_ok")
        case True
        then have r: "r = Sent" "sc_data c = []" using e1 by (auto split: if_splits)
        then have "nfrags (sc_data c) = 1" by (simp add: nfrags_def)
        then have i0: "unat (sc_i c) = 0" using lt by simp
        have "fs = fs1 \<and> ts' = send_finish c1 ts1 \<and> e = Send_ok"
          using Cons.prems(6) False st True by (subst (asm) send_loop.simps) simp
        moreover have "fs1 = [wire_frame ks key self target (sc_data c) (sc_seq c) (of_nat 0)]" using S(3) r m i0 cast by simp
        ultimately show ?thesis using fin [OF S(1)] i0 \<open>nfrags (sc_data c) = 1\<close> by simp
      next
        case run: False
        then have e1r: "e1 = Send_running" using e1 by (simp split: if_splits)
        obtain fs2 ts2 e2 where lp: "send_loop ks self target rs c1 ts1 = (fs2, ts2, e2)" by (metis prod_cases3)
        have eq: "fs = fs1 @ fs2 \<and> ts' = ts2 \<and> e = e2"
          using Cons.prems(6) False st e1r lp by (subst (asm) send_loop.simps) simp
        have cnt: "nfrags (sc_data c1) \<le> unat (sc_i c1) + count_list rs Sent"
          using Cons.prems(5) S(6,8) Suc by (cases "r = Sent") simp_all
        note IH = Cons.IH [OF S(1,2) Cons.prems(3) _ cnt lp]
        have "fs1 @ map (\<lambda>j. wire_frame ks key self target (sc_data c) (sc_seq c) (of_nat j)) [unat (sc_i c1)..<nfrags (sc_data c)] =
            map (\<lambda>j. wire_frame ks key self target (sc_data c) (sc_seq c) (of_nat j)) [unat (sc_i c)..<nfrags (sc_data c)]"
        proof (cases "r = Sent")
          case True
          have "fs1 = [wire_frame ks key self target (sc_data c) (sc_seq c) (of_nat (unat (sc_i c)))]" unfolding S(3) m cast using True by simp
          then show ?thesis using S(6) True Suc lt by (simp add: upt_conv_Cons del: of_nat_unat)
        qed (use S(3,6) in simp)
        then show ?thesis using IH Cons.prems(4) S(7,8) eq by simp
      qed
    qed
  qed
  then show "e = Send_ok" "fs = map (\<lambda>j. wire_frame ks key self target (sc_data c) (sc_seq c) (of_nat j)) [unat (sc_i c)..<nfrags (sc_data c)]"
    "tx_ok ks key self target msgs ts'" by blast+
qed

text \<open>A retransmission is the frame that was sent.\<close>

lemma resend_is_wire:
  assumes "rec_ok ks key self target msgs s i rec" "sane msgs"
  shows "resend_frame self target s i rec = wire_frame ks key self target (msgs ! unat s) s i"
proof -
  let ?f = "frag (msgs ! unat s) (unat i)"
  have "length ?f < 2 ^ 32" using length_frag [of "msgs ! unat s" "unat i"] by simp
  then have "unat (of_nat (length ?f) :: u32) = length ?f" by (simp add: unat_of_nat)
  then show ?thesis using assms by (simp add: resend_frame_def wire_frame_def rec_ok_def Let_def)
qed

lemma nack_tx_ok:
  assumes "tx_ok ks key self target msgs ts" "sane msgs" "nack_tx k s i ts = (ts', v)"
  shows "tx_ok ks key self target msgs ts'"
    "v = Nack_resend rec \<Longrightarrow> resend_frame self target s i rec = wire_frame ks key self target (msgs ! unat s) s i \<and>
      unat s < length msgs \<and> unat i < nfrags (msgs ! unat s)"
proof -
  have r: "rec_ok ks key self target msgs s i (rec\<lparr>nack_count := n\<rparr>)" if "map_of (tx_buf ts) (s, i) = Some rec" for rec n
    using assms(1) that by (auto simp: tx_ok_def rec_ok_def Let_def)
  show "tx_ok ks key self target msgs ts'"
    using assms(1,3) r by (auto simp: nack_tx_def Let_def tx_ok_def AList.update_conv' split: option.splits if_splits)
  assume "v = Nack_resend rec"
  then obtain rec0 n where "map_of (tx_buf ts) (s, i) = Some rec0" "rec = rec0\<lparr>nack_count := n\<rparr>"
    using assms(3) by (auto simp: nack_tx_def Let_def split: option.splits if_splits)
  then have "rec_ok ks key self target msgs s i rec" using r by simp
  then show "resend_frame self target s i rec = wire_frame ks key self target (msgs ! unat s) s i \<and>
      unat s < length msgs \<and> unat i < nfrags (msgs ! unat s)"
    using resend_is_wire [OF _ assms(2)] by (auto simp: rec_ok_def Let_def)
qed

end
