(* ===== verification/Bus_Pump.thy ===== *)
theory Bus_Pump
  imports Bus_Tx
begin

section \<open>The pump and the witness role of the bus\<close>

text \<open>
  What a host does with a datagram (\<open>pump_loop_\<close> and the three handlers), what it does when the
  receive buffer is empty (NACKs of the target and of the witness role), \<open>recv\<close> and \<open>sync\<close>. A function
  that puts frames on the wire returns them; one that may not return is option-valued.
\<close>

subsection \<open>Witness role\<close>

text \<open>Observing the frames of a stream between two other hosts: the contiguous prefix is dropped.\<close>

function advance_walk :: "WitnessState \<Rightarrow> WitnessState" where
  "advance_walk ws = (if low_walk ws \<in> seen ws
     then advance_walk (ws\<lparr>seen := seen ws - {low_walk ws}, low_walk := low_walk ws + 1\<rparr>) else ws)"
  by auto
termination
  by (relation "measure (\<lambda>ws. card (seen ws))") (auto simp: card_gt_0_iff intro!: diff_less)

declare advance_walk.simps [simp del]

definition wit_observe :: "u32 \<Rightarrow> WitnessState \<Rightarrow> WitnessState" where
  "wit_observe seq ws0 =
     (let ws = ws0\<lparr>seen := insert seq (seen ws0)\<rparr>;
          ws = (if \<not> wit_any_seen ws \<or> seq > max_seen ws then ws\<lparr>max_seen := seq\<rparr> else ws)
      in advance_walk (ws\<lparr>wit_any_seen := True\<rparr>))"

definition witness_observe :: "u8 \<Rightarrow> u8 \<Rightarrow> u32 \<Rightarrow> BcastBus \<Rightarrow> BcastBus" where
  "witness_observe sender target seq b =
     (if bus_nP b \<le> unat sender \<or> bus_nP b \<le> unat target then b
      else let k = unat sender * bus_nP b + unat target
           in b\<lparr>bus_witness := (bus_witness b)[k := wit_observe seq (bus_witness b ! k)]\<rparr>)"

definition wit_due :: "WitnessState \<Rightarrow> u32 list" where
  "wit_due ws = (if \<not> wit_any_seen ws then []
     else filter (\<lambda>s. s \<notin> seen ws \<and> s \<notin> nacked ws) (map of_nat [unat (low_walk ws)..<unat (max_seen ws)]))"

definition wit_drain :: "WitnessState \<Rightarrow> WitnessState \<times> u32 list" where
  "wit_drain ws = (ws\<lparr>nacked := nacked ws \<union> set (wit_due ws)\<rparr>, wit_due ws)"

definition nack_frame :: "u8 \<Rightarrow> u8 \<Rightarrow> u8 \<Rightarrow> u32 \<Rightarrow> u16 \<Rightarrow> bytes" where
  "nack_frame self missing_sender missing_target seq idx =
     mk_frame KIND_NACK self missing_sender 0 0 0 12
       ([missing_sender, missing_target, 0, 0] @ le_bytes 4 seq @ le_bytes 2 idx @ [0, 0])"

text \<open>\<open>send_nack_\<close>: one frame, and the counter of its role.\<close>

definition send_nack :: "u8 \<Rightarrow> u8 \<Rightarrow> u32 \<times> u16 \<Rightarrow> BcastBus \<times> bytes list \<Rightarrow> BcastBus \<times> bytes list" where
  "send_nack missing_sender missing_target = (\<lambda>(seq, idx) (b, out).
     (if missing_target = self_id b then b\<lparr>target_nacks_sent := target_nacks_sent b + 1\<rparr>
      else b\<lparr>witness_nacks_sent := witness_nacks_sent b + 1\<rparr>,
      out @ [nack_frame (self_id b) missing_sender missing_target seq idx]))"

definition witness_drain :: "u8 \<Rightarrow> u8 \<Rightarrow> BcastBus \<times> bytes list \<Rightarrow> BcastBus \<times> bytes list" where
  "witness_drain sender target = (\<lambda>(b, out).
     if bus_nP b \<le> unat sender \<or> bus_nP b \<le> unat target then (b, out)
     else let k = unat sender * bus_nP b + unat target; (ws, due) = wit_drain (bus_witness b ! k)
          in fold (\<lambda>s. send_nack sender target (s, 0)) due (b\<lparr>bus_witness := (bus_witness b)[k := ws]\<rparr>, out))"

subsection \<open>Handling a datagram\<close>

definition handle_data :: "(bytes \<Rightarrow> bytes \<Rightarrow> nat \<Rightarrow> u8) \<Rightarrow> bytes \<Rightarrow> BcastBus \<Rightarrow> BcastBus" where
  "handle_data ks buf b =
     (let s = hdr_sender buf; t = hdr_target buf
      in if s = self_id b \<or> bus_nP b \<le> unat s \<or> bus_nP b \<le> unat t then b\<lparr>dropped_unknown := dropped_unknown b + 1\<rparr>
         else if length buf \<noteq> HEADER_SIZE + unat (hdr_plen buf) then b\<lparr>dropped_unknown := dropped_unknown b + 1\<rparr>
         else if t \<noteq> self_id b then
           (let b = witness_observe s t (hdr_seq buf) b in b\<lparr>witness_dispatched := witness_dispatched b + 1\<rparr>)
         else let payload = crypt ks (pair_key (bus_tx b ! unat s)) (build_nonce 0 s (self_id b) (hdr_seq buf) (hdr_idx buf))
                    (drop HEADER_SIZE buf)
              in upd_rx (unat s) (rx_frame (hdr_seq buf) (hdr_idx buf) (hdr_tot buf) payload) b)"

definition handle_poison :: "bytes \<Rightarrow> BcastBus \<Rightarrow> BcastBus" where
  "handle_poison buf b =
     (let s = hdr_sender buf; plen = (if unat (hdr_plen buf) > MAX_PAYLOAD then 0 else unat (hdr_plen buf))
      in if hdr_target buf \<noteq> self_id b then b
         else if bus_nP b \<le> unat s \<or> s = self_id b then b
         else if length buf < HEADER_SIZE + plen then b
         else upd_rx (unat s) (rx_poisoned_update (\<lambda>_. True)) b)"

text \<open>A datagram from \<open>src\<close>; the receive buffer holds \<open>HEADER_SIZE + MAX_PAYLOAD + 64\<close> bytes.\<close>

definition pump_datagram ::
  "(bytes \<Rightarrow> bytes \<Rightarrow> nat \<Rightarrow> u8) \<Rightarrow> u32 \<Rightarrow> bytes \<Rightarrow> BcastBus \<Rightarrow> BcastBus \<times> bytes list" where
  "pump_datagram ks src datagram b =
     (let buf = take (HEADER_SIZE + MAX_PAYLOAD + 64) datagram
      in if buf = [] then (b, [])
         else if self_tsn_ip_be b \<noteq> 0 \<and> src = self_tsn_ip_be b then (b\<lparr>dropped_self := dropped_self b + 1\<rparr>, [])
         else if length buf < HEADER_SIZE then (b, [])
         else if hdr_kind buf = KIND_DATA then (handle_data ks buf b, [])
         else if hdr_kind buf = KIND_NACK then handle_nack buf src b
         else if hdr_kind buf = KIND_POISON then (handle_poison buf b, [])
         else (b, []))"

subsection \<open>When the receive buffer is empty\<close>

definition drain_nack_state :: "u64 \<times> u64 \<Rightarrow> u8 \<Rightarrow> BcastBus \<times> bytes list \<Rightarrow> (BcastBus \<times> bytes list) option" where
  "drain_nack_state now sender = (\<lambda>(b, out).
     let rs = bus_rx b ! unat sender
     in if rx_poisoned rs then Some (b, out)
        else case rx_drain_nacks now (cycle_ns b) (retx_k_recv b) rs of None \<Rightarrow> None
        | Some (rs, due, poison) \<Rightarrow>
            let (b, out) = fold (send_nack sender (self_id b)) due (upd_rx (unat sender) (\<lambda>_. rs) b, out)
            in Some (if poison then upd_rx (unat sender) (rx_poisoned_update (\<lambda>_. True)) b else b, out))"

definition pump_idle :: "(nat \<Rightarrow> u64 \<times> u64) \<Rightarrow> BcastBus \<Rightarrow> (BcastBus \<times> bytes list) option" where
  "pump_idle clock b0 = foldM (\<lambda>s (b, out).
     if s = unat (self_id b) then Some (b, out)
     else map_option (fold (\<lambda>t (b, out). if t = unat (self_id b) \<or> t = s then (b, out)
              else witness_drain (of_nat s) (of_nat t) (b, out)) [0..<bus_nP b])
            (drain_nack_state (clock s) (of_nat s) (b, out))) [0..<bus_nP b0] (b0, [])"

subsection \<open>The application's side, statistics and the start\<close>

datatype recv_result = Recv_ignored | Recv_blocked | Recv_poisoned | Recv_crash | Recv_data bytes

definition BcastBus_recv :: "int \<Rightarrow> nat \<Rightarrow> BcastBus \<Rightarrow> BcastBus \<times> recv_result" where
  "BcastBus_recv src len b =
     (if src < 0 \<or> int (bus_nP b) \<le> src \<or> src = int (unat (self_id b)) then (b, Recv_ignored)
      else case rx_recv len (bus_rx b ! nat src) of Rx_blocked \<Rightarrow> (b, Recv_blocked)
        | Rx_poisoned \<Rightarrow> (b, Recv_poisoned) | Rx_crash \<Rightarrow> (b, Recv_crash)
        | Rx_data bs rs \<Rightarrow> (upd_rx (nat src) (\<lambda>_. rs) b, Recv_data bs))"

definition app_bytes_sent :: "BcastBus \<Rightarrow> u64" where
  "app_bytes_sent b = fold (\<lambda>ts total. total + app_bytes ts) (bus_tx b) 0"

definition reset_stats :: "BcastBus \<Rightarrow> BcastBus" where
  "reset_stats b = b\<lparr>bus_tx := map (app_bytes_update (\<lambda>_. 0)) (bus_tx b)\<rparr>"

definition bytes_sent_to :: "int \<Rightarrow> BcastBus \<Rightarrow> u64" where
  "bytes_sent_to target b = (if target < 0 \<or> int (bus_nP b) \<le> target \<or> target = int (unat (self_id b)) then 0
     else app_bytes (bus_tx b ! nat target))"

text \<open>
  \<open>sync\<close>: \<open>batches\<close> are the datagrams that arrive after each of the broadcasts. The result is the
  number of peers seen and the number of broadcasts; too few peers is reported, not an error.
\<close>

definition sync_frame :: "u8 \<Rightarrow> bytes" where
  "sync_frame self = le_bytes 4 SYNC_MAGIC @ [self]"

definition sync_datagram :: "u8 \<Rightarrow> nat \<Rightarrow> bytes \<Rightarrow> nat list \<times> nat \<Rightarrow> nat list \<times> nat" where
  "sync_datagram self nP d = (\<lambda>(peers, got).
     let buf = take 16 d; i = buf ! 4
     in if length buf \<noteq> 5 then (peers, got)
        else if (le_get (take 4 buf) :: u32) \<noteq> SYNC_MAGIC then (peers, got)
        else if i = self then (peers, got)
        else if unat i < nP \<and> unat i \<notin> set peers then (unat i # peers, Suc got) else (peers, got))"

fun sync_loop :: "u8 \<Rightarrow> nat \<Rightarrow> nat \<Rightarrow> bytes list list \<Rightarrow> nat list \<times> nat \<Rightarrow> nat \<Rightarrow> nat \<times> nat" where
  "sync_loop self nP attempt [] (peers, got) sent = (got, sent)"
| "sync_loop self nP attempt (batch # batches) (peers, got) sent =
     (if attempt < 1200 \<and> got < nP - 1
      then sync_loop self nP (Suc attempt) batches (fold (sync_datagram self nP) batch (peers, got)) (Suc sent)
      else (got, sent))"

definition sync_all :: "u8 \<Rightarrow> nat \<Rightarrow> bytes list list \<Rightarrow> nat \<times> nat" where
  "sync_all self nP batches = (let (got, sent) = sync_loop self nP 0 batches ([unat self], 0) 0 in (got, sent + 4))"

end
