(* ===== verification/Bus_System.thy ===== *)
theory Bus_System
  imports Bus_Pump
begin

section \<open>A cluster of hosts on the bus\<close>

text \<open>
  All hosts run the code of the bus; the network keeps every datagram that was ever put on the
  wire and may deliver any of them to any host, in any order, any number of times or never. Calls
  of \<open>send\<close> and \<open>recv\<close>, answers to NACKs and idle rounds of the pumps interleave freely. The result
  is what the protocol needs of the bus: between two hosts it is a FIFO pipe of bytes.
\<close>

subsection \<open>One host\<close>

text \<open>
  \<open>sent s t\<close> are the messages host \<open>s\<close> has passed to \<open>send\<close> for \<open>t\<close>, \<open>got t s\<close> the bytes \<open>recv\<close> has returned
  to \<open>t\<close> from \<open>s\<close>, and \<open>handled t s\<close> the frames of \<open>s\<close> that \<open>t\<close> has handled.
\<close>

type_synonym 'a chans = "nat \<Rightarrow> nat \<Rightarrow> 'a"

definition bus_shape :: "nat \<Rightarrow> nat \<Rightarrow> BcastBus \<Rightarrow> bool" where
  "bus_shape nP p b \<longleftrightarrow> self_id b = of_nat p \<and> bus_nP b = nP \<and> length (bus_tx b) = nP \<and> length (bus_rx b) = nP"

definition bus_ok ::
  "(bytes \<Rightarrow> bytes \<Rightarrow> nat \<Rightarrow> u8) \<Rightarrow> nat \<Rightarrow> bytes chans \<Rightarrow> bytes list chans \<Rightarrow> (u32 \<times> u16) list chans \<Rightarrow> bytes chans \<Rightarrow>
   nat \<Rightarrow> BcastBus \<Rightarrow> bool" where
  "bus_ok ks nP keys sent handled got p b \<longleftrightarrow> bus_shape nP p b \<and>
     (\<forall>q<nP. q \<noteq> p \<longrightarrow> tx_ok ks (keys p q) (of_nat p) (of_nat q) (sent p q) (bus_tx b ! q) \<and>
        rx_inv (sent q p) (handled p q) (got p q) (bus_rx b ! q) \<and> drained (bus_rx b ! q))"

definition frame_ok ::
  "(bytes \<Rightarrow> bytes \<Rightarrow> nat \<Rightarrow> u8) \<Rightarrow> nat \<Rightarrow> bytes chans \<Rightarrow> bytes list chans \<Rightarrow> bytes \<Rightarrow> bool" where
  "frame_ok ks nP keys sent d \<longleftrightarrow> HEADER_SIZE \<le> length d \<and> (hdr_kind d = KIND_DATA \<longrightarrow>
     (\<exists>s t q i. s < nP \<and> t < nP \<and> s \<noteq> t \<and> unat q < length (sent s t) \<and> unat i < nfrags (sent s t ! unat q) \<and>
        d = wire_frame ks (keys s t) (of_nat s) (of_nat t) (sent s t ! unat q) q i))"

lemma frame_okI:
  assumes "s < nP" "t < nP" "s \<noteq> t" "unat q < length (sent s t)" "unat i < nfrags (sent s t ! unat q)"
  shows "frame_ok ks nP keys sent (wire_frame ks (keys s t) (of_nat s) (of_nat t) (sent s t ! unat q) q i)"
  using assms unfolding frame_ok_def by (auto simp: wire_frame_def hdr_simps)

lemma frame_ok_other: "k \<noteq> KIND_DATA \<Longrightarrow> frame_ok ks nP keys sent (mk_frame k s t q i n l pl)"
  by (simp add: frame_ok_def hdr_simps)

lemma unat_u8: "a < 256 \<Longrightarrow> unat (of_nat a :: u8) = a"
  by (simp add: unat_of_nat)

lemma u8_inj: "a < 256 \<Longrightarrow> b < 256 \<Longrightarrow> (of_nat a :: u8) = of_nat b \<longleftrightarrow> a = b"
  by (metis unat_u8)

text \<open>A step that only changes counters, or the state of one channel, keeps the rest.\<close>

lemma bus_ok_counters:
  assumes "bus_ok ks nP keys sent handled got p b"
    and "self_id b' = self_id b" "bus_nP b' = bus_nP b" "bus_tx b' = bus_tx b" "bus_rx b' = bus_rx b"
  shows "bus_ok ks nP keys sent handled got p b'"
  using assms by (simp add: bus_ok_def bus_shape_def)

lemma bus_ok_upd_tx:
  assumes "bus_ok ks nP keys sent handled got p b" "t < nP"
    and "t \<noteq> p \<Longrightarrow> tx_ok ks (keys p t) (of_nat p) (of_nat t) (sent p t) (f (bus_tx b ! t))"
  shows "bus_ok ks nP keys sent handled got p (upd_tx t f b)"
  using assms by (auto simp: bus_ok_def bus_shape_def upd_tx_def nth_list_update)

lemma bus_ok_upd_rx:
  assumes "bus_ok ks nP keys sent handled got p b" "s < nP"
    and "s \<noteq> p \<Longrightarrow> rx_inv (sent s p) H (d) (f (bus_rx b ! s)) \<and> drained (f (bus_rx b ! s))"
  shows "bus_ok ks nP keys sent (handled(p := (handled p)(s := H))) (got(p := (got p)(s := d))) p (upd_rx s f b)"
  using assms by (auto simp: bus_ok_def bus_shape_def upd_rx_def nth_list_update)

lemma bus_ok_upd_rx_same:
  assumes "bus_ok ks nP keys sent handled got p b" "s < nP"
    and "s \<noteq> p \<Longrightarrow> rx_inv (sent s p) (handled p s) (got p s) (f (bus_rx b ! s)) \<and> drained (f (bus_rx b ! s))"
  shows "bus_ok ks nP keys sent handled got p (upd_rx s f b)"
  using bus_ok_upd_rx [OF assms(1,2), where H = "handled p s" and d = "got p s" and f = f] assms(3) by simp

lemma bus_okD:
  assumes "bus_ok ks nP keys sent handled got p b"
  shows "self_id b = of_nat p" "bus_nP b = nP" "length (bus_tx b) = nP" "length (bus_rx b) = nP"
    "q < nP \<Longrightarrow> q \<noteq> p \<Longrightarrow> tx_ok ks (keys p q) (of_nat p) (of_nat q) (sent p q) (bus_tx b ! q)"
    "q < nP \<Longrightarrow> q \<noteq> p \<Longrightarrow> rx_inv (sent q p) (handled p q) (got p q) (bus_rx b ! q) \<and> drained (bus_rx b ! q)"
  using assms by (simp_all add: bus_ok_def bus_shape_def)

lemma rx_inv_poison: "rx_inv m H d (rx_poisoned_update f rs) \<longleftrightarrow> rx_inv m H d rs" "drained (rx_poisoned_update f rs) \<longleftrightarrow> drained rs"
  by (simp_all add: rx_inv_def queue_ok_def rx_data_def pend_ok_def drained_def)

lemma tx_ok_poison: "tx_ok ks key s t m (tx_poisoned_update f ts) \<longleftrightarrow> tx_ok ks key s t m ts"
  by (simp add: tx_ok_def)

subsection \<open>Every handler keeps a host in order\<close>

definition all_sane :: "nat \<Rightarrow> bytes list chans \<Rightarrow> bool" where
  "all_sane nP sent \<longleftrightarrow> (\<forall>s<nP. \<forall>t<nP. s \<noteq> t \<longrightarrow> sane (sent s t))"

text \<open>Which channel a datagram is recorded for, if it is a data frame for this host.\<close>

definition data_for :: "nat \<Rightarrow> BcastBus \<Rightarrow> bytes \<Rightarrow> bool" where
  "data_for p b d \<longleftrightarrow> hdr_kind d = KIND_DATA \<and> hdr_target d = self_id b"

definition note_data :: "nat \<Rightarrow> bytes \<Rightarrow> (u32 \<times> u16) list chans \<Rightarrow> (u32 \<times> u16) list chans" where
  "note_data p d handled = (let s = unat (hdr_sender d)
     in handled(p := (handled p)(s := (hdr_seq d, hdr_idx d) # handled p s)))"

lemma wire_honest:
  assumes "sane m" "unat q < length m" "unat i < nfrags (m ! unat q)"
  shows "honest m q i (of_nat (nfrags (m ! unat q))) (frag (m ! unat q) (unat i))"
  using assms by (simp add: honest_def)

lemma handle_data_wire:
  assumes ok: "bus_ok ks nP keys sent handled got p b" and "nP \<le> 256" "p < nP" "s < nP" "t < nP" "s \<noteq> t" "s \<noteq> p"
    and key: "keys p s = keys s p" and sane: "sane (sent s t)" and q: "unat q < length (sent s t)" "unat i < nfrags (sent s t ! unat q)"
    and d: "d = wire_frame ks (keys s t) (of_nat s) (of_nat t) (sent s t ! unat q) q i"
  shows "bus_ok ks nP keys sent (if t = p then note_data p d handled else handled) got p (handle_data ks d b)"
proof -
  note D = bus_okD [OF ok]
  let ?f = "frag (sent s t ! unat q) (unat i)"
  have len: "unat (of_nat (length ?f) :: u32) = length ?f"
    using length_frag [of "sent s t ! unat q" "unat i"] by (simp add: unat_of_nat)
  have hd: "hdr_sender d = of_nat s" "hdr_target d = of_nat t" "hdr_seq d = q" "hdr_idx d = i"
    "hdr_tot d = of_nat (nfrags (sent s t ! unat q))" "unat (hdr_plen d) = length ?f" "length d = HEADER_SIZE + length ?f"
    "drop HEADER_SIZE d = crypt ks (keys s t) (build_nonce 0 (of_nat s) (of_nat t) q i) ?f"
    unfolding d wire_frame_def by (simp_all add: hdr_simps len)
  have u: "unat (of_nat s :: u8) = s" "unat (of_nat t :: u8) = t" using assms(2,4,5) by (simp_all add: unat_u8)
  have sp: "(of_nat s :: u8) \<noteq> of_nat p" "(of_nat t :: u8) = of_nat p \<longleftrightarrow> t = p"
    using u8_inj [of s p] u8_inj [of t p] assms(2-7) by auto
  show ?thesis
  proof (cases "t = p")
    case False
    then have "handle_data ks d b = (witness_observe (of_nat s) (of_nat t) q b)\<lparr>witness_dispatched :=
        witness_dispatched (witness_observe (of_nat s) (of_nat t) q b) + 1\<rparr>"
      using D(1,2) u sp assms(4,5) by (simp add: handle_data_def Let_def hd)
    then show ?thesis using False by (auto intro!: bus_ok_counters [OF ok] simp: witness_observe_def Let_def)
  next
    case True
    have tx: "pair_key (bus_tx b ! s) = keys p s" using D(5) [OF assms(4,7)] by (simp add: tx_ok_def)
    have payload: "crypt ks (pair_key (bus_tx b ! s)) (build_nonce 0 (of_nat s) (of_nat p) q i) (drop HEADER_SIZE d) = ?f"
      using True by (simp add: hd tx key crypt_crypt)
    have eq: "handle_data ks d b = upd_rx s (rx_frame q i (of_nat (nfrags (sent s t ! unat q))) ?f) b"
      using D(1,2) u sp(1) assms(3,4) True payload by (simp add: handle_data_def Let_def hd)
    have "rx_inv (sent s p) ((q, i) # handled p s) (got p s) (rx_frame q i (of_nat (nfrags (sent s t ! unat q))) ?f (bus_rx b ! s)) \<and>
        drained (rx_frame q i (of_nat (nfrags (sent s t ! unat q))) ?f (bus_rx b ! s))"
      using rx_frame_inv [OF wire_honest [OF sane q] sane] D(6) [OF assms(4,7)] True by blast
    then have "bus_ok ks nP keys sent (handled(p := (handled p)(s := (q, i) # handled p s))) (got(p := (got p)(s := got p s))) p (handle_data ks d b)"
      unfolding eq by (intro bus_ok_upd_rx [OF ok assms(4)]) simp
    then show ?thesis using True by (simp add: note_data_def hd u)
  qed
qed

lemma answer_nack_ok:
  assumes ok: "bus_ok ks nP keys sent handled got p b" and "nP \<le> 256" "p < nP" and sane: "all_sane nP sent"
    and t: "unat mt < nP" "unat mt \<noteq> p" and h: "answer_nack mt seq idx b = (b', out)"
  shows "bus_ok ks nP keys sent handled got p b' \<and> (\<forall>f\<in>set out. frame_ok ks nP keys sent f)"
proof -
  note D = bus_okD [OF ok]
  let ?t = "unat mt"
  obtain ts v where n: "nack_tx (retx_k_send b) seq idx (bus_tx b ! ?t) = (ts, v)" by (metis prod.exhaust)
  have sn: "sane (sent p ?t)" using sane t assms(3) unfolding all_sane_def by blast
  have mt: "of_nat ?t = mt" by simp
  note N = nack_tx_ok [OF D(5) [OF t] sn n]
  define b1 where "b1 = upd_tx ?t (\<lambda>_. ts) b"
  have up: "bus_ok ks nP keys sent handled got p b1"
    unfolding b1_def by (rule bus_ok_upd_tx [OF ok t(1)]) (rule N(1))
  have b1: "bus_tx b1 ! ?t = ts" "self_id b1 = of_nat p" using t(1) D(1,3) by (simp_all add: upd_tx_def b1_def)
  have up2: "bus_ok ks nP keys sent handled got p (upd_tx ?t f b1)"
    if "tx_ok ks (keys p ?t) (of_nat p) (of_nat ?t) (sent p ?t) (f ts)" for f
    by (rule bus_ok_upd_tx [OF up t(1)]) (use that b1 in simp)
  have H: "(b', out) = (case v of Nack_ignore \<Rightarrow> (b1, [])
                 | Nack_over_cap \<Rightarrow> (upd_tx ?t (tx_poisoned_update (\<lambda>_. True)) b1, [poison_frame (of_nat p) mt (over_cap_reason mt seq idx)])
                 | Nack_evicted \<Rightarrow> (upd_tx ?t (tx_poisoned_update (\<lambda>_. True)) b1, [poison_frame (of_nat p) mt (evicted_reason mt seq idx)])
                 | Nack_resend rec \<Rightarrow> (upd_tx ?t (\<lambda>ts. ts\<lparr>retx_sends := retx_sends ts + 1\<rparr>) b1, [resend_frame (of_nat p) mt seq idx rec]))"
    unfolding h [symmetric] answer_nack_def n Let_def prod.case b1_def [symmetric] b1(2) ..
  have poison: "frame_ok ks nP keys sent (poison_frame (of_nat p) mt r)" for r
    unfolding poison_frame_def Let_def by (rule frame_ok_other) simp
  have pz: "bus_ok ks nP keys sent handled got p (upd_tx ?t (tx_poisoned_update (\<lambda>_. True)) b1)"
    by (rule up2) (simp add: tx_ok_poison N(1) [unfolded mt])
  show ?thesis
  proof (cases v)
    case (Nack_resend rec)
    have "frame_ok ks nP keys sent (wire_frame ks (keys p ?t) (of_nat p) (of_nat ?t) (sent p ?t ! unat seq) seq idx)"
      using N(2) [OF Nack_resend] t assms(3) by (intro frame_okI) auto
    moreover have "resend_frame (of_nat p) mt seq idx rec =
        wire_frame ks (keys p ?t) (of_nat p) (of_nat ?t) (sent p ?t ! unat seq) seq idx"
      using N(2) [OF Nack_resend] unfolding mt by blast
    moreover have "bus_ok ks nP keys sent handled got p (upd_tx ?t (\<lambda>ts. ts\<lparr>retx_sends := retx_sends ts + 1\<rparr>) b1)"
      by (rule up2) (use N(1) [unfolded mt] in \<open>simp add: tx_ok_def\<close>)
    ultimately show ?thesis using H unfolding Nack_resend by simp
  next
    case Nack_ignore
    then show ?thesis using H up by simp
  next
    case Nack_over_cap
    then show ?thesis using H pz poison by simp
  next
    case Nack_evicted
    then show ?thesis using H pz poison by simp
  qed
qed

lemma handle_nack_ok:
  assumes ok: "bus_ok ks nP keys sent handled got p b" and "nP \<le> 256" "p < nP" and sane: "all_sane nP sent"
    and h: "handle_nack d src b = (b', out)"
  shows "bus_ok ks nP keys sent handled got p b' \<and> (\<forall>f\<in>set out. frame_ok ks nP keys sent f)"
proof -
  note D = bus_okD [OF ok]
  define mt where "mt = d ! (HEADER_SIZE + 1)"
  define b1 where "b1 = b\<lparr>nack_received_total := nack_received_total b + 1\<rparr>"
  have ok': "bus_ok ks nP keys sent handled got p b1" unfolding b1_def by (rule bus_ok_counters [OF ok]) simp_all
  have ok2: "bus_ok ks nP keys sent handled got p (b1\<lparr>nack_origin_dropped := n\<rparr>)" for n
    by (rule bus_ok_counters [OF ok']) simp_all
  note D1 = bus_okD [OF ok']
  have "handle_nack d src b = (b1, []) \<or> handle_nack d src b = (b1\<lparr>nack_origin_dropped := nack_origin_dropped b1 + 1\<rparr>, []) \<or>
    unat mt < nP \<and> mt \<noteq> of_nat p \<and> (\<exists>seq idx. handle_nack d src b = answer_nack mt seq idx b1)"
    unfolding handle_nack_def Let_def b1_def [symmetric] mt_def [symmetric] D1(1,2) by (simp add: not_le) blast
  then consider "b' = b1" "out = []" | "b' = b1\<lparr>nack_origin_dropped := nack_origin_dropped b1 + 1\<rparr>" "out = []"
    | seq idx where "unat mt < nP" "mt \<noteq> of_nat p" "answer_nack mt seq idx b1 = (b', out)"
    unfolding h by auto
  then show ?thesis
  proof cases
    case (3 seq idx)
    have "unat mt \<noteq> p" using 3(2) by (metis of_nat_unat ucast_id)
    then show ?thesis by (rule answer_nack_ok [OF ok' assms(2,3) sane 3(1) _ 3(3)])
  qed (use ok' ok2 in simp_all)
qed

lemma handle_poison_ok:
  assumes "bus_ok ks nP keys sent handled got p b"
  shows "bus_ok ks nP keys sent handled got p (handle_poison d b)"
  using assms bus_okD(2,6) [OF assms]
  by (auto simp: handle_poison_def Let_def rx_inv_poison intro!: bus_ok_upd_rx_same)

definition keys_sym :: "nat \<Rightarrow> bytes chans \<Rightarrow> bool" where
  "keys_sym nP keys \<longleftrightarrow> (\<forall>s<nP. \<forall>t<nP. keys s t = keys t s)"

text \<open>
  A frame of the network reaches the receiver \<open>p\<close> and is recorded there if it is a data frame for
  \<open>p\<close> from another host that the loopback filter lets pass.
\<close>

definition reaches :: "nat \<Rightarrow> BcastBus \<Rightarrow> u32 \<Rightarrow> bytes \<Rightarrow> bool" where
  "reaches p b src d \<longleftrightarrow> \<not> (self_tsn_ip_be b \<noteq> 0 \<and> src = self_tsn_ip_be b) \<and> hdr_kind d = KIND_DATA \<and>
     hdr_target d = self_id b \<and> hdr_sender d \<noteq> self_id b"

lemma frame_ok_take:
  assumes "frame_ok ks nP keys sent d"
  shows "hdr_kind (take (HEADER_SIZE + MAX_PAYLOAD + 64) d) = hdr_kind d"
    "HEADER_SIZE \<le> length (take (HEADER_SIZE + MAX_PAYLOAD + 64) d)"
    "hdr_kind d = KIND_DATA \<Longrightarrow> take (HEADER_SIZE + MAX_PAYLOAD + 64) d = d"
proof -
  show "hdr_kind (take (HEADER_SIZE + MAX_PAYLOAD + 64) d) = hdr_kind d" by (simp add: hdr_kind_def min_def)
  show "HEADER_SIZE \<le> length (take (HEADER_SIZE + MAX_PAYLOAD + 64) d)" using assms by (simp add: frame_ok_def)
  assume "hdr_kind d = KIND_DATA"
  then obtain s t q i where "d = wire_frame ks (keys s t) (of_nat s) (of_nat t) (sent s t ! unat q) q i"
    using assms unfolding frame_ok_def by blast
  then have "length d \<le> HEADER_SIZE + MAX_PAYLOAD" using length_frag by (simp add: wire_frame_def hdr_simps)
  then show "take (HEADER_SIZE + MAX_PAYLOAD + 64) d = d" by simp
qed

lemma handle_data_frame:
  assumes ok: "bus_ok ks nP keys sent handled got p b" and n: "nP \<le> 256" "p < nP" and "keys_sym nP keys" "all_sane nP sent"
    and f: "frame_ok ks nP keys sent d" "hdr_kind d = KIND_DATA"
  shows "bus_ok ks nP keys sent (if hdr_target d = self_id b \<and> hdr_sender d \<noteq> self_id b then note_data p d handled else handled)
      got p (handle_data ks d b)"
proof -
  note D = bus_okD [OF ok]
  obtain s t q i where st: "s < nP" "t < nP" "s \<noteq> t" and q: "unat q < length (sent s t)" "unat i < nfrags (sent s t ! unat q)"
    and d: "d = wire_frame ks (keys s t) (of_nat s) (of_nat t) (sent s t ! unat q) q i"
    using f unfolding frame_ok_def by blast
  have hd: "hdr_sender d = of_nat s" "hdr_target d = of_nat t" by (simp_all add: d wire_frame_def hdr_simps)
  have key: "keys p s = keys s p" using assms(4) st(1) n(2) by (auto simp: keys_sym_def)
  have sane: "sane (sent s t)" using assms(5) st by (auto simp: all_sane_def)
  have eq: "(of_nat s :: u8) = of_nat p \<longleftrightarrow> s = p" "(of_nat t :: u8) = of_nat p \<longleftrightarrow> t = p"
    using u8_inj [of s p] u8_inj [of t p] n st by auto
  show ?thesis
  proof (cases "s = p")
    case True
    then have "handle_data ks d b = b\<lparr>dropped_unknown := dropped_unknown b + 1\<rparr>" by (simp add: handle_data_def hd D(1) Let_def)
    then show ?thesis using True bus_ok_counters [OF ok] by (simp add: hd D(1))
  next
    case False
    show ?thesis
      using handle_data_wire [OF ok n st False key sane q d] False by (simp add: hd D(1) eq)
  qed
qed

lemma pump_datagram_ok:
  assumes ok: "bus_ok ks nP keys sent handled got p b" and n: "nP \<le> 256" "p < nP" and ks: "keys_sym nP keys" "all_sane nP sent"
    and f: "frame_ok ks nP keys sent d" and h: "pump_datagram ks src d b = (b', out)"
  shows "bus_ok ks nP keys sent (if reaches p b src d then note_data p d handled else handled) got p b' \<and>
    (\<forall>f\<in>set out. frame_ok ks nP keys sent f)"
proof -
  define buf where "buf = take (HEADER_SIZE + MAX_PAYLOAD + 64) d"
  note F = frame_ok_take [OF f, folded buf_def]
  have ne: "buf \<noteq> []" "\<not> length buf < HEADER_SIZE" using F(2) by auto
  define L where "L \<longleftrightarrow> self_tsn_ip_be b \<noteq> 0 \<and> src = self_tsn_ip_be b"
  have R: "reaches p b src d \<longleftrightarrow> \<not> L \<and> hdr_kind d = KIND_DATA \<and> hdr_target d = self_id b \<and> hdr_sender d \<noteq> self_id b"
    by (simp add: reaches_def L_def)
  have P: "(b', out) = (if L then (b\<lparr>dropped_self := dropped_self b + 1\<rparr>, [])
         else if hdr_kind d = KIND_DATA then (handle_data ks buf b, [])
         else if hdr_kind d = KIND_NACK then handle_nack buf src b
         else if hdr_kind d = KIND_POISON then (handle_poison buf b, []) else (b, []))"
    unfolding h [symmetric] pump_datagram_def buf_def [symmetric] Let_def F(1) if_not_P [OF ne(1)] if_not_P [OF ne(2)] L_def ..
  consider (self) L | (data) "\<not> L" "hdr_kind d = KIND_DATA" | (nack) "\<not> L" "hdr_kind d = KIND_NACK"
    | (other) "\<not> L" "hdr_kind d \<noteq> KIND_DATA" "hdr_kind d \<noteq> KIND_NACK" by blast
  then show ?thesis
  proof cases
    case self
    then show ?thesis using P bus_ok_counters [OF ok, of b'] by (simp add: R)
  next
    case data
    then have "b' = handle_data ks d b" "out = []" using P F(3) by simp_all
    then show ?thesis using handle_data_frame [OF ok n ks f data(2)] data by (simp add: R)
  next
    case nack
    then have "handle_nack buf src b = (b', out)" using P by simp
    then show ?thesis using handle_nack_ok [OF ok n ks(2)] nack by (simp add: R)
  next
    case other
    then have "(b' = handle_poison buf b \<or> b' = b) \<and> out = []" using P by (cases "hdr_kind d = KIND_POISON") simp_all
    then show ?thesis using handle_poison_ok [OF ok] ok other by (auto simp: R)
  qed
qed

text \<open>Idle rounds send NACKs only.\<close>

lemma send_nack_ok:
  assumes "bus_ok ks nP keys sent handled got p b" "\<forall>f\<in>set out. frame_ok ks nP keys sent f"
    and "send_nack ms mt e (b, out) = (b', out')"
  shows "bus_ok ks nP keys sent handled got p b' \<and> (\<forall>f\<in>set out'. frame_ok ks nP keys sent f)"
proof -
  have "frame_ok ks nP keys sent (nack_frame self ms mt q i)" for self q i
    unfolding nack_frame_def by (rule frame_ok_other) simp
  then show ?thesis using assms bus_ok_counters [OF assms(1), of b'] by (auto simp: send_nack_def split: prod.splits if_splits)
qed

definition out_ok where
  "out_ok ks nP keys sent handled got p = (\<lambda>(b, out). bus_ok ks nP keys sent handled got p b \<and>
     (\<forall>f\<in>set out. frame_ok ks nP keys sent f))"

lemma fold_inv: "P s \<Longrightarrow> (\<And>x s. x \<in> set xs \<Longrightarrow> P s \<Longrightarrow> P (f x s)) \<Longrightarrow> P (fold f xs s)"
  by (induction xs arbitrary: s) auto

lemma fold_send_nack_ok:
  "out_ok ks nP keys sent handled got p bo \<Longrightarrow> out_ok ks nP keys sent handled got p (fold (\<lambda>x. send_nack ms mt (e x)) xs bo)"
proof (rule fold_inv)
  fix x s assume "out_ok ks nP keys sent handled got p s"
  moreover obtain b out where "s = (b, out)" by (cases s)
  moreover obtain b' out' where "send_nack ms mt (e x) (b, out) = (b', out')" by (metis prod.exhaust)
  ultimately show "out_ok ks nP keys sent handled got p (send_nack ms mt (e x) s)"
    using send_nack_ok [of ks nP keys sent handled got p b out ms mt "e x" b' out'] by (simp add: out_ok_def)
qed

lemma witness_drain_ok:
  assumes "out_ok ks nP keys sent handled got p bo"
  shows "out_ok ks nP keys sent handled got p (witness_drain s t bo)"
proof -
  obtain b out where bo: "bo = (b, out)" by (cases bo)
  have "out_ok ks nP keys sent handled got p (b\<lparr>bus_witness := ws\<rparr>, out)" for ws
    using assms bus_ok_counters [of ks nP keys sent handled got p b "b\<lparr>bus_witness := ws\<rparr>"] by (simp add: out_ok_def bo)
  then have "out_ok ks nP keys sent handled got p (fold (\<lambda>x. send_nack s t (x, 0)) due (b\<lparr>bus_witness := ws\<rparr>, out))" for ws due
    by (rule fold_send_nack_ok)
  then show ?thesis using assms by (auto simp: witness_drain_def bo Let_def split: prod.splits)
qed

lemma drain_nack_state_ok:
  assumes "out_ok ks nP keys sent handled got p bo" "s < nP" "s \<noteq> p" "nP \<le> 256" "drain_nack_state now (of_nat s) bo = Some bo'"
  shows "out_ok ks nP keys sent handled got p bo'"
proof -
  obtain b out where bo: "bo = (b, out)" by (cases bo)
  have ok: "bus_ok ks nP keys sent handled got p b" "\<forall>f\<in>set out. frame_ok ks nP keys sent f"
    using assms(1) by (simp_all add: out_ok_def bo)
  have u: "unat (of_nat s :: u8) = s" using assms(2,4) by (simp add: unat_u8)
  show ?thesis
  proof (cases "rx_poisoned (bus_rx b ! s)")
    case True
    then show ?thesis using assms(1,5) by (simp add: drain_nack_state_def bo u)
  next
    case False
    then obtain rs due poison where r: "rx_drain_nacks now (cycle_ns b) (retx_k_recv b) (bus_rx b ! s) = Some (rs, due, poison)"
      using assms(5) by (auto simp: drain_nack_state_def bo u Let_def split: option.splits)
    define bo1 where "bo1 = fold (send_nack (of_nat s) (self_id b)) due (upd_rx s (\<lambda>_. rs) b, out)"
    have "bus_ok ks nP keys sent handled got p (upd_rx s (\<lambda>_. rs) b)"
      using rx_drain_nacks_inv [OF r] bus_okD(6) [OF ok(1) assms(2,3)] by (intro bus_ok_upd_rx_same [OF ok(1) assms(2)]) blast
    then have "out_ok ks nP keys sent handled got p (upd_rx s (\<lambda>_. rs) b, out)" using ok(2) by (simp add: out_ok_def)
    then have o1: "out_ok ks nP keys sent handled got p bo1"
      unfolding bo1_def using fold_send_nack_ok [where e = "\<lambda>x. x"] by blast
    obtain b1 out1 where b1: "bo1 = (b1, out1)" by (cases bo1)
    have "bo' = (if poison then upd_rx s (rx_poisoned_update (\<lambda>_. True)) b1 else b1, out1)"
      using assms(5) False r b1 [unfolded bo1_def] unfolding drain_nack_state_def bo by (cases poison) (auto simp: u Let_def)
    moreover have "bus_ok ks nP keys sent handled got p (upd_rx s (rx_poisoned_update (\<lambda>_. True)) b1)"
      using o1 bus_okD(6) [of ks nP keys sent handled got p b1 s] assms(2,3)
      by (intro bus_ok_upd_rx_same) (simp_all add: out_ok_def b1 rx_inv_poison)
    ultimately show ?thesis using o1 by (simp add: out_ok_def b1)
  qed
qed

lemma foldM_inv:
  assumes "foldM f xs s = Some s'" "P s" "\<And>x s s'. x \<in> set xs \<Longrightarrow> P s \<Longrightarrow> f x s = Some s' \<Longrightarrow> P s'"
  shows "P s'"
  using assms
proof (induction xs arbitrary: s)
  case (Cons x xs)
  then obtain t where t: "f x s = Some t" "foldM f xs t = Some s'" by (auto split: option.splits)
  show ?case by (rule Cons.IH [OF t(2)]) (use Cons.prems t(1) in auto)
qed simp

lemma pump_idle_ok:
  assumes ok: "bus_ok ks nP keys sent handled got p b" and n: "nP \<le> 256" "p < nP" and h: "pump_idle clock b = Some (b', out)"
  shows "bus_ok ks nP keys sent handled got p b' \<and> (\<forall>f\<in>set out. frame_ok ks nP keys sent f)"
proof -
  have "out_ok ks nP keys sent handled got p (b', out)"
  proof (rule foldM_inv [OF h [unfolded pump_idle_def]])
    show "out_ok ks nP keys sent handled got p (b, [])" using ok by (simp add: out_ok_def)
    fix s bo bo' assume s: "s \<in> set [0..<bus_nP b]" and o: "out_ok ks nP keys sent handled got p bo"
      and step: "(case bo of (b, out) \<Rightarrow> if s = unat (self_id b) then Some (b, out)
        else map_option (fold (\<lambda>t (b, out). if t = unat (self_id b) \<or> t = s then (b, out)
              else witness_drain (of_nat s) (of_nat t) (b, out)) [0..<bus_nP b])
            (drain_nack_state (clock s) (of_nat s) (b, out))) = Some bo'"
    obtain b1 out1 where bo: "bo = (b1, out1)" by (cases bo)
    have s: "s < nP" using s bus_okD(2) [OF ok] by simp
    have self: "unat (self_id b1) = p" using o n bus_okD(1) [of ks nP keys sent handled got p b1] by (simp add: out_ok_def bo unat_u8)
    show "out_ok ks nP keys sent handled got p bo'"
    proof (cases "s = p")
      case True
      then show ?thesis using step o self by (simp add: bo)
    next
      case False
      then obtain bo2 where b2: "drain_nack_state (clock s) (of_nat s) bo = Some bo2"
        "bo' = fold (\<lambda>t (b, out). if t = unat (self_id b) \<or> t = s then (b, out)
              else witness_drain (of_nat s) (of_nat t) (b, out)) [0..<bus_nP b1] bo2"
        using step self by (auto simp: bo)
      show ?thesis unfolding b2(2)
      proof (rule fold_inv [where P = "out_ok ks nP keys sent handled got p"])
        show "out_ok ks nP keys sent handled got p bo2" by (rule drain_nack_state_ok [OF o s False n(1) b2(1)])
        fix t bo assume "out_ok ks nP keys sent handled got p bo"
        then show "out_ok ks nP keys sent handled got p ((\<lambda>(b, out). if t = unat (self_id b) \<or> t = s then (b, out)
              else witness_drain (of_nat s) (of_nat t) (b, out)) bo)"
          using witness_drain_ok [of ks nP keys sent handled got p bo] by (cases bo) simp
      qed
    qed
  qed
  then show ?thesis by (simp add: out_ok_def)
qed

subsection \<open>The cluster\<close>

text \<open>
  \<open>cl_net\<close> holds every datagram with its source address, \<open>cl_calls\<close> the calls of \<open>send\<close> that have not
  returned, by their sequence numbers. The last three fields only record the history.
\<close>

record cluster =
  cl_bus :: "nat \<Rightarrow> BcastBus"
  cl_net :: "(u32 \<times> bytes) set"
  cl_calls :: "(u32 \<Rightarrow> SendCall option) chans"
  cl_sent :: "bytes list chans"
  cl_handled :: "(u32 \<times> u16) list chans"
  cl_got :: "bytes chans"

definition chan_upd :: "nat \<Rightarrow> nat \<Rightarrow> 'a \<Rightarrow> 'a chans \<Rightarrow> 'a chans" where
  "chan_upd p q x f = f(p := (f p)(q := x))"

lemma chan_upd_apply [simp]: "chan_upd p q x f p' q' = (if p' = p \<and> q' = q then x else f p' q')"
  by (simp add: chan_upd_def)

definition cl_put :: "u32 \<Rightarrow> nat \<Rightarrow> BcastBus \<times> bytes list \<Rightarrow> cluster \<Rightarrow> cluster" where
  "cl_put src p bo C = C\<lparr>cl_bus := (cl_bus C)(p := fst bo), cl_net := cl_net C \<union> Pair src ` set (snd bo)\<rparr>"

definition cl_call :: "nat \<Rightarrow> nat \<Rightarrow> u32 \<Rightarrow> SendCall option \<Rightarrow> cluster \<Rightarrow> cluster" where
  "cl_call p t q c C = C\<lparr>cl_calls := chan_upd p t ((cl_calls C p t)(q := c)) (cl_calls C)\<rparr>"

text \<open>
  The steps: \<open>send\<close> begins, sends a fragment or ends; the pump handles a datagram or finds the
  receive buffer empty; \<open>recv\<close> returns; the statistics are reset.
\<close>

inductive cl_step :: "(bytes \<Rightarrow> bytes \<Rightarrow> nat \<Rightarrow> u8) \<Rightarrow> nat \<Rightarrow> (nat \<Rightarrow> u32) \<Rightarrow> cluster \<Rightarrow> cluster \<Rightarrow> bool"
  for ks nP addr where
  cl_begin: "p < nP \<Longrightarrow> t < nP \<Longrightarrow> p \<noteq> t \<Longrightarrow> \<not> tx_poisoned (bus_tx (cl_bus C p) ! t) \<Longrightarrow>
     send_begin data (bus_tx (cl_bus C p) ! t) = (c, ts) \<Longrightarrow>
     cl_step ks nP addr C ((cl_call p t (sc_seq c) (Some c) (cl_put (addr p) p (upd_tx t (\<lambda>_. ts) (cl_bus C p), []) C))
       \<lparr>cl_sent := chan_upd p t (cl_sent C p t @ [data]) (cl_sent C)\<rparr>)"
| cl_fragment: "p < nP \<Longrightarrow> t < nP \<Longrightarrow> p \<noteq> t \<Longrightarrow> cl_calls C p t q = Some c \<Longrightarrow> \<not> loop_done c \<Longrightarrow>
     send_step ks (self_id (cl_bus C p)) (of_nat t) r c (bus_tx (cl_bus C p) ! t) = (fs, c', ts, e) \<Longrightarrow>
     cl_step ks nP addr C (cl_call p t q (if e = Send_running then Some c' else None)
       (cl_put (addr p) p (upd_tx t (\<lambda>_. if e = Send_ok then send_finish c' ts else ts) (cl_bus C p), fs) C))"
| cl_end: "p < nP \<Longrightarrow> t < nP \<Longrightarrow> p \<noteq> t \<Longrightarrow> cl_calls C p t q = Some c \<Longrightarrow> loop_done c \<Longrightarrow>
     cl_step ks nP addr C (cl_call p t q None (cl_put (addr p) p (upd_tx t (send_finish c) (cl_bus C p), []) C))"
| cl_datagram: "p < nP \<Longrightarrow> (src, d) \<in> cl_net C \<Longrightarrow>
     cl_step ks nP addr C ((cl_put (addr p) p (pump_datagram ks src d (cl_bus C p)) C)
       \<lparr>cl_handled := (if reaches p (cl_bus C p) src d then note_data p d (cl_handled C) else cl_handled C)\<rparr>)"
| cl_idle: "p < nP \<Longrightarrow> pump_idle clock (cl_bus C p) = Some bo \<Longrightarrow> cl_step ks nP addr C (cl_put (addr p) p bo C)"
| cl_recv: "p < nP \<Longrightarrow> s < nP \<Longrightarrow> BcastBus_recv (int s) n (cl_bus C p) = (b, Recv_data bs) \<Longrightarrow>
     cl_step ks nP addr C ((cl_put (addr p) p (b, []) C)\<lparr>cl_got := chan_upd p s (cl_got C p s @ bs) (cl_got C)\<rparr>)"
| cl_reset: "p < nP \<Longrightarrow> cl_step ks nP addr C (cl_put (addr p) p (reset_stats (cl_bus C p), []) C)"

definition cl_init :: "(string \<Rightarrow> bytes) \<Rightarrow> nat \<Rightarrow> u32 list \<Rightarrow> (u64 \<times> u64) option \<Rightarrow> u64 \<Rightarrow> cluster" where
  "cl_init sha256 nP ips slots seed = \<lparr>cl_bus = (\<lambda>p. BcastBus_new sha256 p nP ips slots seed), cl_net = {},
     cl_calls = (\<lambda>_ _ _. None), cl_sent = (\<lambda>_ _. []), cl_handled = (\<lambda>_ _. []), cl_got = (\<lambda>_ _. [])\<rparr>"

inductive cl_reach for ks sha256 nP addr ips slots seed where
  reach_init: "cl_reach ks sha256 nP addr ips slots seed (cl_init sha256 nP ips slots seed)"
| reach_step: "cl_reach ks sha256 nP addr ips slots seed C \<Longrightarrow> cl_step ks nP addr C C' \<Longrightarrow>
     cl_reach ks sha256 nP addr ips slots seed C'"

definition cl_inv :: "(bytes \<Rightarrow> bytes \<Rightarrow> nat \<Rightarrow> u8) \<Rightarrow> nat \<Rightarrow> bytes chans \<Rightarrow> cluster \<Rightarrow> bool" where
  "cl_inv ks nP keys C \<longleftrightarrow>
     (\<forall>p<nP. bus_ok ks nP keys (cl_sent C) (cl_handled C) (cl_got C) p (cl_bus C p)) \<and>
     (\<forall>(src, d)\<in>cl_net C. frame_ok ks nP keys (cl_sent C) d) \<and>
     (\<forall>p t q c. cl_calls C p t q = Some c \<longrightarrow> p \<noteq> t \<and> call_ok (cl_sent C p t) c)"

subsection \<open>The invariant of the cluster\<close>

lemma cl_put_simps [simp]:
  "cl_bus (cl_put a p bo C) = (cl_bus C)(p := fst bo)" "cl_net (cl_put a p bo C) = cl_net C \<union> Pair a ` set (snd bo)"
  "cl_calls (cl_put a p bo C) = cl_calls C" "cl_sent (cl_put a p bo C) = cl_sent C"
  "cl_handled (cl_put a p bo C) = cl_handled C" "cl_got (cl_put a p bo C) = cl_got C"
  "cl_bus (cl_call p t q c C) = cl_bus C" "cl_net (cl_call p t q c C) = cl_net C"
  "cl_calls (cl_call p t q c C) p' t' q' = (if p' = p \<and> t' = t \<and> q' = q then c else cl_calls C p' t' q')"
  "cl_sent (cl_call p t q c C) = cl_sent C" "cl_handled (cl_call p t q c C) = cl_handled C"
  "cl_got (cl_call p t q c C) = cl_got C"
  by (simp_all add: cl_put_def cl_call_def)

lemma cl_invI:
  assumes "\<And>p. p < nP \<Longrightarrow> bus_ok ks nP keys (cl_sent C) (cl_handled C) (cl_got C) p (cl_bus C p)"
    "\<And>src d. (src, d) \<in> cl_net C \<Longrightarrow> frame_ok ks nP keys (cl_sent C) d"
    "\<And>p t q c. cl_calls C p t q = Some c \<Longrightarrow> p \<noteq> t \<and> call_ok (cl_sent C p t) c"
  shows "cl_inv ks nP keys C"
  using assms unfolding cl_inv_def by blast

lemma cl_invD:
  assumes "cl_inv ks nP keys C"
  shows "p < nP \<Longrightarrow> bus_ok ks nP keys (cl_sent C) (cl_handled C) (cl_got C) p (cl_bus C p)"
    "(src, d) \<in> cl_net C \<Longrightarrow> frame_ok ks nP keys (cl_sent C) d"
    "cl_calls C p t q = Some c \<Longrightarrow> p \<noteq> t \<and> call_ok (cl_sent C p t) c"
  using assms unfolding cl_inv_def by blast+

lemma bus_ok_cong:
  assumes "bus_ok ks nP keys sent handled got p b"
    and "\<And>q. handled' p q = handled p q" "\<And>q. got' p q = got p q"
  shows "bus_ok ks nP keys sent handled' got' p b"
  using assms by (simp add: bus_ok_def)

lemma tx_ok_mono:
  "tx_ok ks key s t m ts \<Longrightarrow> rec_ok ks key s t (m @ ms) i j r \<or> map_of (tx_buf ts) (i, j) \<noteq> Some r"
  using rec_ok_append by (auto simp: tx_ok_def)

lemma frame_ok_append:
  assumes "frame_ok ks nP keys sent d"
  shows "frame_ok ks nP keys (chan_upd p t (sent p t @ ms) sent) d"
proof -
  have "unat q < length (chan_upd p t (sent p t @ ms) sent s t') \<and> chan_upd p t (sent p t @ ms) sent s t' ! unat q = sent s t' ! unat q"
    if "unat q < length (sent s t')" for s t' and q :: u32
    using that by (auto simp: nth_append)
  then show ?thesis using assms unfolding frame_ok_def by metis
qed

lemma cl_inv_put:
  assumes inv: "cl_inv ks nP keys C"
    and b: "bus_ok ks nP keys (cl_sent C) (cl_handled C) (cl_got C) p b" "\<forall>f\<in>set out. frame_ok ks nP keys (cl_sent C) f"
  shows "cl_inv ks nP keys (cl_put a p (b, out) C)"
  using assms by (auto simp: cl_inv_def)

lemma cl_inv_call:
  assumes "cl_inv ks nP keys C" "\<And>c'. c = Some c' \<Longrightarrow> p \<noteq> t \<and> call_ok (cl_sent C p t) c'"
  shows "cl_inv ks nP keys (cl_call p t q c C)"
  using assms by (auto simp: cl_inv_def split: if_splits)

lemma send_finish_ok: "tx_ok ks key s t m ts \<Longrightarrow> tx_ok ks key s t m (send_finish c ts)"
  by (simp add: tx_ok_def send_finish_def)

lemma cl_begin_inv:
  assumes inv: "cl_inv ks nP keys C" and pt: "p < nP" "t < nP" "p \<noteq> t"
    and "send_begin data (bus_tx (cl_bus C p) ! t) = (c, ts)" and sane: "sane (cl_sent C p t @ [data])"
  shows "cl_inv ks nP keys ((cl_call p t (sc_seq c) (Some c) (cl_put (addr p) p (upd_tx t (\<lambda>_. ts) (cl_bus C p), []) C))
       \<lparr>cl_sent := chan_upd p t (cl_sent C p t @ [data]) (cl_sent C)\<rparr>)"
proof -
  let ?C = "(cl_call p t (sc_seq c) (Some c) (cl_put (addr p) p (upd_tx t (\<lambda>_. ts) (cl_bus C p), []) C))
       \<lparr>cl_sent := chan_upd p t (cl_sent C p t @ [data]) (cl_sent C)\<rparr>"
  let ?sent = "chan_upd p t (cl_sent C p t @ [data]) (cl_sent C)"
  have ok: "bus_ok ks nP keys (cl_sent C) (cl_handled C) (cl_got C) x (cl_bus C x)" if "x < nP" for x
    using inv that by (simp add: cl_inv_def)
  note D = bus_okD [OF ok]
  note B = send_begin_ok [OF D(5) [OF pt(1,2) pt(3) [symmetric]] sane assms(5)]
  have buses: "bus_ok ks nP keys ?sent (cl_handled C) (cl_got C) x (((cl_bus C)(p := upd_tx t (\<lambda>_. ts) (cl_bus C p))) x)" if "x < nP" for x
  proof (cases "x = p")
    case True
    have "tx_ok ks (keys p q) (of_nat p) (of_nat q) (?sent p q) (bus_tx (upd_tx t (\<lambda>_. ts) (cl_bus C p)) ! q) \<and>
        rx_inv (?sent q p) (cl_handled C p q) (cl_got C p q) (bus_rx (cl_bus C p) ! q) \<and> drained (bus_rx (cl_bus C p) ! q)"
      if "q < nP" "q \<noteq> p" for q
      using D(5,6) [OF pt(1) that] B(1) D(3) [OF pt(1)] that pt by (auto simp: upd_tx_def nth_list_update)
    then show ?thesis using True ok [OF pt(1)] by (simp add: bus_ok_def bus_shape_def upd_tx_def)
  next
    case False
    have "rx_inv (?sent q x) (cl_handled C x q) (cl_got C x q) (bus_rx (cl_bus C x) ! q)" if "q < nP" "q \<noteq> x" for q
      using D(6) [OF \<open>x < nP\<close> that] rx_inv_append by auto
    then show ?thesis using False ok [OF \<open>x < nP\<close>] by (auto simp: bus_ok_def)
  qed
  have frames: "frame_ok ks nP keys ?sent d" if "(src, d) \<in> cl_net C" for src d
    by (rule frame_ok_append) (rule cl_invD(2) [OF inv that])
  have calls: "p' \<noteq> t' \<and> call_ok (?sent p' t') c'" if "(if p' = p \<and> t' = t \<and> q = sc_seq c then Some c else cl_calls C p' t' q) = Some c'" for p' t' q c'
  proof (cases "p' = p \<and> t' = t \<and> q = sc_seq c")
    case True
    then show ?thesis using that B(2) pt by simp
  next
    case False
    then have "cl_calls C p' t' q = Some c'" using that by (simp split: if_splits)
    then have "p' \<noteq> t' \<and> call_ok (cl_sent C p' t') c'" by (rule cl_invD(3) [OF inv])
    then show ?thesis using call_ok_append [of "cl_sent C p' t'" c' "[data]"] by (cases "p' = p \<and> t' = t") auto
  qed
  show ?thesis
  proof (rule cl_invI)
    fix x assume "x < nP"
    from buses [OF this] show "bus_ok ks nP keys (cl_sent ?C) (cl_handled ?C) (cl_got ?C) x (cl_bus ?C x)" by simp
  next
    fix src d assume "(src, d) \<in> cl_net ?C"
    then have "(src, d) \<in> cl_net C" by simp
    from frames [OF this] show "frame_ok ks nP keys (cl_sent ?C) d" by simp
  next
    fix p' t' q c' assume "cl_calls ?C p' t' q = Some c'"
    then have "(if p' = p \<and> t' = t \<and> q = sc_seq c then Some c else cl_calls C p' t' q) = Some c'"
      by (auto split: if_splits)
    from calls [OF this] show "p' \<noteq> t' \<and> call_ok (cl_sent ?C p' t') c'" by simp
  qed
qed

lemma cl_step_inv:
  assumes "cl_step ks nP addr C C'" and inv: "cl_inv ks nP keys C" and n: "nP \<le> 256" "keys_sym nP keys"
    and "all_sane nP (cl_sent C')"
  shows "cl_inv ks nP keys C'"
  using assms(1)
proof cases
  case (cl_begin p t data c ts)
  then have "sane (cl_sent C' p t)" using assms(5) unfolding all_sane_def by blast
  then have "sane (cl_sent C p t @ [data])" unfolding cl_begin(1) by simp
  then show ?thesis unfolding cl_begin(1) using cl_begin by (intro cl_begin_inv [OF inv])
next
  case (cl_fragment p t q c r fs c' ts e)
  have sane: "sane (cl_sent C p t)" using assms(5) cl_fragment by (auto simp: all_sane_def)
  have ok: "bus_ok ks nP keys (cl_sent C) (cl_handled C) (cl_got C) p (cl_bus C p)" and co: "call_ok (cl_sent C p t) c"
    using inv cl_fragment by (auto simp: cl_inv_def)
  note D = bus_okD [OF ok]
  note S = send_step_ok [OF D(5) [OF cl_fragment(3) cl_fragment(4) [symmetric]] co cl_fragment(6) sane cl_fragment(7) [unfolded D(1)]]
  have "\<forall>f\<in>set fs. frame_ok ks nP keys (cl_sent C) f"
    unfolding S(3) using frame_okI [OF cl_fragment(2-4), of "sc_seq c" "cl_sent C" "ucast (sc_i c)" ks keys] S(4,5) by simp
  moreover have "bus_ok ks nP keys (cl_sent C) (cl_handled C) (cl_got C) p
      (upd_tx t (\<lambda>_. if e = Send_ok then send_finish c' ts else ts) (cl_bus C p))"
    by (rule bus_ok_upd_tx [OF ok cl_fragment(3)]) (use S(1) in \<open>simp add: send_finish_ok\<close>)
  ultimately show ?thesis unfolding cl_fragment(1)
    by (intro cl_inv_call cl_inv_put inv) (use S(2) cl_fragment(4) in \<open>auto split: if_splits\<close>)
next
  case (cl_end p t q c)
  have ok: "bus_ok ks nP keys (cl_sent C) (cl_handled C) (cl_got C) p (cl_bus C p)"
    using inv cl_end by (auto simp: cl_inv_def)
  have "bus_ok ks nP keys (cl_sent C) (cl_handled C) (cl_got C) p (upd_tx t (send_finish c) (cl_bus C p))"
    by (rule bus_ok_upd_tx [OF ok cl_end(3)]) (use bus_okD(5) [OF ok cl_end(3)] in \<open>simp add: send_finish_ok\<close>)
  then show ?thesis unfolding cl_end(1) by (intro cl_inv_call cl_inv_put inv) auto
next
  case (cl_datagram p src d)
  obtain b out where bo: "pump_datagram ks src d (cl_bus C p) = (b, out)" by (metis prod.exhaust)
  have ok: "bus_ok ks nP keys (cl_sent C) (cl_handled C) (cl_got C) p (cl_bus C p)" and f: "frame_ok ks nP keys (cl_sent C) d"
    using inv cl_datagram by (auto simp: cl_inv_def)
  have sane: "all_sane nP (cl_sent C)" using assms(5) unfolding cl_datagram(1) by simp
  define h where "h = (if reaches p (cl_bus C p) src d then note_data p d (cl_handled C) else cl_handled C)"
  note P = pump_datagram_ok [OF ok n(1) cl_datagram(2) n(2) sane f bo, folded h_def]
  have "h x = cl_handled C x" if "x \<noteq> p" for x using that by (simp add: h_def note_data_def Let_def)
  then have "bus_ok ks nP keys (cl_sent C) h (cl_got C) x (((cl_bus C)(p := b)) x)" if "x < nP" for x
    using inv that P by (cases "x = p") (auto simp: cl_inv_def intro: bus_ok_cong)
  then show ?thesis using inv P unfolding cl_datagram(1) h_def [symmetric] bo by (auto simp: cl_inv_def)
next
  case (cl_idle p clock bo)
  obtain b out where bo: "bo = (b, out)" by (cases bo)
  have ok: "bus_ok ks nP keys (cl_sent C) (cl_handled C) (cl_got C) p (cl_bus C p)" using inv cl_idle by (auto simp: cl_inv_def)
  show ?thesis unfolding cl_idle(1) bo
    using pump_idle_ok [OF ok n(1) cl_idle(2) cl_idle(3) [unfolded bo]] by (intro cl_inv_put inv) blast+
next
  case (cl_recv p s k b bs)
  have ok: "bus_ok ks nP keys (cl_sent C) (cl_handled C) (cl_got C) p (cl_bus C p)" using inv cl_recv by (auto simp: cl_inv_def)
  note D = bus_okD [OF ok]
  have sp: "s \<noteq> p" using cl_recv(4) D(1) n(1) cl_recv(2) by (auto simp: BcastBus_recv_def unat_u8)
  obtain rs where rs: "rx_recv k (bus_rx (cl_bus C p) ! s) = Rx_data bs rs" "b = upd_rx s (\<lambda>_. rs) (cl_bus C p)"
    using cl_recv(4) by (auto simp: BcastBus_recv_def split: if_splits rx_result.splits)
  have "rx_inv (cl_sent C s p) (cl_handled C p s) (cl_got C p s @ bs) rs \<and> drained rs"
    using rx_recv_inv [OF _ _ rs(1)] D(6) [OF cl_recv(3) sp] by blast
  then have "bus_ok ks nP keys (cl_sent C) ((cl_handled C)(p := (cl_handled C p)(s := cl_handled C p s)))
      ((cl_got C)(p := (cl_got C p)(s := cl_got C p s @ bs))) p b"
    unfolding rs(2) by (intro bus_ok_upd_rx [OF ok cl_recv(3)])
  then have "bus_ok ks nP keys (cl_sent C) (cl_handled C) (chan_upd p s (cl_got C p s @ bs) (cl_got C)) x (((cl_bus C)(p := b)) x)"
    if "x < nP" for x
    using inv that by (cases "x = p") (auto simp: cl_inv_def chan_upd_def intro: bus_ok_cong)
  then show ?thesis using inv unfolding cl_recv(1) by (auto simp: cl_inv_def)
next
  case (cl_reset p)
  have ok: "bus_ok ks nP keys (cl_sent C) (cl_handled C) (cl_got C) p (cl_bus C p)" using inv cl_reset by (auto simp: cl_inv_def)
  have "bus_ok ks nP keys (cl_sent C) (cl_handled C) (cl_got C) p (reset_stats (cl_bus C p))"
    using ok by (simp add: bus_ok_def bus_shape_def reset_stats_def tx_ok_def)
  then show ?thesis unfolding cl_reset(1) by (intro cl_inv_put inv) auto
qed

subsection \<open>Reachable states\<close>

definition pair_keys :: "(string \<Rightarrow> bytes) \<Rightarrow> u64 \<Rightarrow> bytes chans" where
  "pair_keys sha256 seed s t = derive_pair_key sha256 seed (int s) (int t)"

lemma keys_sym_pair_keys: "keys_sym nP (pair_keys sha256 seed)"
  unfolding keys_sym_def pair_keys_def using derive_pair_key_sym by blast

lemma cl_init_inv:
  assumes "nP \<le> 256"
  shows "cl_inv ks nP (pair_keys sha256 seed) (cl_init sha256 nP ips slots seed)"
proof (rule cl_invI)
  fix p assume p: "p < nP"
  then have u: "unat (of_nat p :: u8) = p" using assms by (simp add: unat_u8)
  have "drained rx_init" by (simp add: drained_def rx_init_def)
  then show "bus_ok ks nP (pair_keys sha256 seed) (cl_sent (cl_init sha256 nP ips slots seed)) (cl_handled (cl_init sha256 nP ips slots seed))
      (cl_got (cl_init sha256 nP ips slots seed)) p (cl_bus (cl_init sha256 nP ips slots seed) p)"
    using tx_ok_init rx_inv_init
    by (simp add: cl_init_def bus_ok_def bus_shape_def BcastBus_new_def new_tx_def Let_def u pair_keys_def)
qed (simp_all add: cl_init_def)

lemma cl_step_sent: "cl_step ks nP addr C C' \<Longrightarrow> \<exists>ms. cl_sent C' s t = cl_sent C s t @ ms"
  by (erule cl_step.cases) auto

lemma all_sane_step:
  assumes "cl_step ks nP addr C C'" "all_sane nP (cl_sent C')"
  shows "all_sane nP (cl_sent C)"
proof -
  have "sane (xs @ ys) \<Longrightarrow> sane xs" for xs ys by (auto simp: sane_def)
  then show ?thesis using assms(2) cl_step_sent [OF assms(1)] unfolding all_sane_def by metis
qed

lemma cl_reach_inv:
  assumes "cl_reach ks sha256 nP addr ips slots seed C" "all_sane nP (cl_sent C)" "nP \<le> 256"
  shows "cl_inv ks nP (pair_keys sha256 seed) C"
  using assms(1,2)
proof (induction rule: cl_reach.induct)
  case reach_init
  show ?case by (rule cl_init_inv [OF assms(3)])
next
  case (reach_step C C')
  then show ?case using cl_step_inv [OF _ _ assms(3) keys_sym_pair_keys] all_sane_step by blast
qed

lemma cl_reach_sane:
  assumes "cl_reach ks sha256 nP addr ips slots seed C" "cl_step ks nP addr C C'" "all_sane nP (cl_sent C')" "nP \<le> 256"
  shows "cl_inv ks nP (pair_keys sha256 seed) C" "cl_inv ks nP (pair_keys sha256 seed) C'"
  using cl_reach_inv [OF assms(1) all_sane_step [OF assms(2,3)] assms(4)]
    cl_reach_inv [OF cl_reach.reach_step [OF assms(1,2)] assms(3,4)] by blast+

text \<open>A data frame on the wire is determined by its header.\<close>

lemma frame_ok_data:
  assumes "frame_ok ks nP (pair_keys sha256 seed) sent d" "hdr_kind d = KIND_DATA" "nP \<le> 256"
  shows "hdr_sender d \<noteq> hdr_target d \<and> d = wire_frame ks (derive_pair_key sha256 seed (uint (hdr_sender d)) (uint (hdr_target d)))
    (hdr_sender d) (hdr_target d) (sent (unat (hdr_sender d)) (unat (hdr_target d)) ! unat (hdr_seq d)) (hdr_seq d) (hdr_idx d)"
proof -
  obtain s t q i where f: "s < nP" "t < nP" "s \<noteq> t"
    "d = wire_frame ks (pair_keys sha256 seed s t) (of_nat s) (of_nat t) (sent s t ! unat q) q i"
    using assms(1,2) unfolding frame_ok_def by blast
  have h: "hdr_sender d = of_nat s" "hdr_target d = of_nat t" "hdr_seq d = q" "hdr_idx d = i"
    unfolding f(4) wire_frame_def by (simp_all add: hdr_simps)
  have u: "unat (of_nat s :: u8) = s" "unat (of_nat t :: u8) = t" using f(1,2) assms(3) by (simp_all add: unat_u8)
  then have "uint (of_nat s :: u8) = int s" "uint (of_nat t :: u8) = int t" by (metis uint_nat)+
  with f u show ?thesis unfolding h by (auto simp: pair_keys_def)
qed

subsection \<open>The bus is a pipe of bytes\<close>

text \<open>
  What the bus promises: for every ordered pair of hosts a queue of bytes, to which a message is
  appended and from which bytes are taken at the front.
\<close>

datatype pipe_event = Push nat nat bytes | Pop nat nat bytes | Internal

inductive pipe_step :: "pipe_event \<Rightarrow> bytes chans \<Rightarrow> bytes chans \<Rightarrow> bool" where
  pipe_push: "pipe_step (Push s t data) F (chan_upd s t (F s t @ data) F)"
| pipe_pop: "F s t = bs @ rest \<Longrightarrow> pipe_step (Pop s t bs) F (chan_upd s t rest F)"
| pipe_internal: "pipe_step Internal F F"

text \<open>The bytes on their way, and what a step of the cluster means to the applications.\<close>

definition cl_pipe :: "cluster \<Rightarrow> bytes chans" where
  "cl_pipe C s t = drop (length (cl_got C t s)) (concat (cl_sent C s t))"

fun cl_obs :: "pipe_event \<Rightarrow> cluster \<Rightarrow> cluster \<Rightarrow> bool" where
  "cl_obs (Push s t data) C C' \<longleftrightarrow>
     cl_sent C' = chan_upd s t (cl_sent C s t @ [data]) (cl_sent C) \<and> cl_got C' = cl_got C"
| "cl_obs (Pop s t bs) C C' \<longleftrightarrow> cl_sent C' = cl_sent C \<and> cl_got C' = chan_upd t s (cl_got C t s @ bs) (cl_got C)"
| "cl_obs Internal C C' \<longleftrightarrow> cl_sent C' = cl_sent C \<and> cl_got C' = cl_got C"

lemma cl_inv_channel:
  assumes "cl_inv ks nP keys C" "s < nP" "t < nP" "s \<noteq> t"
  shows "rx_inv (cl_sent C s t) (cl_handled C t s) (cl_got C t s) (bus_rx (cl_bus C t) ! s)"
    "drained (bus_rx (cl_bus C t) ! s)"
    "cl_got C t s @ rx_data (bus_rx (cl_bus C t) ! s) = concat (take (unat (next_rx_seq (bus_rx (cl_bus C t) ! s))) (cl_sent C s t))"
  using bus_okD(6) [OF cl_invD(1) [OF assms(1,3)] assms(2,4)] by (simp_all add: rx_inv_def)

lemma cl_got_prefix:
  assumes "cl_inv ks nP keys C" "s < nP" "t < nP" "s \<noteq> t"
  shows "concat (cl_sent C s t) = cl_got C t s @ cl_pipe C s t"
proof -
  let ?k = "unat (next_rx_seq (bus_rx (cl_bus C t) ! s))"
  have "concat (cl_sent C s t) = concat (take ?k (cl_sent C s t)) @ concat (drop ?k (cl_sent C s t))"
    by (metis append_take_drop_id concat_append)
  then show ?thesis unfolding cl_pipe_def cl_inv_channel(3) [OF assms, symmetric] by simp
qed

lemma cl_pipe_refines:
  assumes step: "cl_step ks nP addr C C'" and inv: "cl_inv ks nP keys C" "cl_inv ks nP keys C'" and n: "nP \<le> 256"
  shows "\<exists>e. cl_obs e C C' \<and> pipe_step e (cl_pipe C) (cl_pipe C')"
proof -
  have internal: ?thesis if "cl_sent C' = cl_sent C" "cl_got C' = cl_got C"
  proof -
    have "cl_pipe C' = cl_pipe C" using that by (intro ext) (simp add: cl_pipe_def)
    then show ?thesis using that pipe_internal by (intro exI [of _ Internal]) simp
  qed
  from step show ?thesis
  proof cases
    case (cl_begin p t data c ts)
    have "concat (cl_sent C p t) = cl_got C t p @ cl_pipe C p t" by (rule cl_got_prefix [OF inv(1) cl_begin(2-4)])
    then have "length (cl_got C t p) \<le> length (concat (cl_sent C p t))" by simp
    then have "cl_pipe C' = chan_upd p t (cl_pipe C p t @ data) (cl_pipe C)"
      by (intro ext) (auto simp: cl_pipe_def cl_begin(1))
    then show ?thesis using pipe_push [of p t data "cl_pipe C"] by (intro exI [of _ "Push p t data"]) (simp add: cl_begin(1))
  next
    case (cl_recv p s k b bs)
    have sp: "s \<noteq> p" using cl_recv(4) bus_okD(1) [OF cl_invD(1) [OF inv(1) cl_recv(2)]] n cl_recv(2)
      by (auto simp: BcastBus_recv_def unat_u8)
    have "concat (cl_sent C' s p) = cl_got C' p s @ cl_pipe C' s p" by (rule cl_got_prefix [OF inv(2) cl_recv(3,2) sp])
    then have "concat (cl_sent C s p) = (cl_got C p s @ bs) @ cl_pipe C' s p" by (simp add: cl_recv(1))
    then have pop: "cl_pipe C s p = bs @ cl_pipe C' s p" by (simp add: cl_pipe_def)
    have "cl_pipe C' = chan_upd s p (cl_pipe C' s p) (cl_pipe C)"
      by (intro ext) (auto simp: cl_pipe_def cl_recv(1))
    then have "pipe_step (Pop s p bs) (cl_pipe C) (cl_pipe C')"
      using pipe_pop [of "cl_pipe C" s p bs "cl_pipe C' s p"] pop by simp
    then show ?thesis by (intro exI [of _ "Pop s p bs"]) (simp add: cl_recv(1))
  qed (intro internal; simp)+
qed

text \<open>A call of \<open>send\<close> that the socket lets finish.\<close>

lemma BcastBus_send_emits:
  assumes "tx_ok ks key self target msgs (bus_tx b ! t)" "sane (msgs @ [data])" "\<not> tx_poisoned (bus_tx b ! t)"
    and "self_id b = self" "target = of_nat t" "t < bus_nP b" "bus_nP b \<le> 256" "target \<noteq> self"
    and "Failed \<notin> set rs" "nfrags data \<le> count_list rs Sent"
  shows "\<exists>ts frames. BcastBus_send ks (int t) data rs b = (upd_tx t (\<lambda>_. ts) b, frames, Send_result Send_ok) \<and>
    tx_ok ks key self target (msgs @ [data]) ts \<and>
    frames = map (\<lambda>j. wire_frame ks key self target data (local_seq (bus_tx b ! t)) (of_nat j)) [0..<nfrags data] \<and>
    concat (map (\<lambda>f. crypt ks key (build_nonce 0 self target (hdr_seq f) (hdr_idx f)) (drop HEADER_SIZE f)) frames) = data"
proof -
  let ?q = "local_seq (bus_tx b ! t)"
  obtain c ts0 where bg: "send_begin data (bus_tx b ! t) = (c, ts0)" by (metis prod.exhaust)
  have c: "sc_data c = data" "sc_i c = 0" "sc_seq c = ?q" using bg by (auto simp: send_begin_def)
  note B = send_begin_ok [OF assms(1,2) bg]
  obtain frames ts e where lp: "send_loop ks self target rs c ts0 = (frames, ts, e)" by (metis prod_cases3)
  have cnt: "nfrags (sc_data c) \<le> unat (sc_i c) + count_list rs Sent" using assms(10) by (simp add: c)
  note L = send_loop_ok [OF B(1,2) assms(2,9) cnt lp]
  have tid: "unat (of_nat t :: u8) = t" using assms(6,7) by (simp add: unat_u8)
  have "t \<noteq> unat self" using assms(5,8) tid by (metis of_nat_unat ucast_id)
  then have "int t \<noteq> uint self" by (metis nat_int nat_uint_eq)
  then have "BcastBus_send ks (int t) data rs b = (upd_tx t (\<lambda>_. ts) b, frames, Send_result Send_ok)"
    using assms(3-6) bg lp L(1) by (simp add: BcastBus_send_def)
  moreover have fr: "frames = map (\<lambda>j. wire_frame ks key self target data ?q (of_nat j)) [0..<nfrags data]"
    using L(2) by (simp add: c)
  moreover have "concat (map (\<lambda>f. crypt ks key (build_nonce 0 self target (hdr_seq f) (hdr_idx f)) (drop HEADER_SIZE f)) frames) = data"
  proof -
    have small: "nfrags data < 2 ^ 16" using assms(2) by (simp add: sane_def)
    have "map (\<lambda>f. crypt ks key (build_nonce 0 self target (hdr_seq f) (hdr_idx f)) (drop HEADER_SIZE f)) frames =
        map (frag data) [0..<nfrags data]"
      unfolding fr map_map using small by (intro map_cong refl) (simp add: wire_frame_def hdr_simps crypt_crypt unat_of_nat)
    then show ?thesis by (simp add: concat_frag)
  qed
  ultimately show ?thesis using L(3) by blast
qed

end
