(* ===== verification/Bus_Properties.thy ===== *)
theory Bus_Properties
  imports Bus_System
begin

section \<open>Properties of the bus\<close>

text \<open>
  The theorems on the broadcast bus, each with an instance. In the instances the key stream is
  the byte index, the hash returns sixteen zeros, and messages are a few bytes long.
\<close>

definition ex_ks :: "bytes \<Rightarrow> bytes \<Rightarrow> nat \<Rightarrow> u8" where
  "ex_ks key iv j = of_nat j"

definition ex_sha :: "string \<Rightarrow> bytes" where
  "ex_sha s = replicate 32 0"

definition rx_run :: "(u32 \<times> u16 \<times> u16 \<times> bytes) list \<Rightarrow> RxState \<Rightarrow> RxState" where
  "rx_run fs rs = fold (\<lambda>(s, i, tot, payload). rx_frame s i tot payload) fs rs"

definition frame_ids :: "(u32 \<times> u16 \<times> u16 \<times> bytes) list \<Rightarrow> (u32 \<times> u16) list" where
  "frame_ids fs = map (\<lambda>(s, i, tot, payload). (s, i)) fs"

lemma rx_run_inv:
  assumes "sane msgs" "\<forall>(s, i, tot, payload)\<in>set fs. honest msgs s i tot payload" "rx_inv msgs H d rs" "drained rs"
  shows "rx_inv msgs (rev (frame_ids fs) @ H) d (rx_run fs rs) \<and> drained (rx_run fs rs)"
  using assms(2-)
proof (induction fs arbitrary: H rs)
  case (Cons f fs)
  obtain s i tot payload where f: "f = (s, i, tot, payload)" by (metis prod_cases4)
  have h: "honest msgs s i tot payload" using Cons.prems(1) by (simp add: f)
  have "rx_inv msgs ((s, i) # H) d (rx_frame s i tot payload rs)" "drained (rx_frame s i tot payload rs)"
    using rx_frame_inv [OF h assms(1) Cons.prems(2,3)] by blast+
  then show ?case using Cons.IH [of "(s, i) # H" "rx_frame s i tot payload rs"] Cons.prems(1)
    by (simp add: f rx_run_def frame_ids_def)
qed (simp add: rx_run_def frame_ids_def)

lemma drained_init: "drained rx_init"
  by (simp add: drained_def rx_init_def)

text \<open>
  C3: between every two hosts of the cluster the bus is a FIFO pipe of bytes. Whatever the network
  loses, repeats and reorders, every step that any host takes is one of the pipe: \<open>send\<close> appends its
  message, \<open>recv\<close> returns the bytes at the front and removes them, and everything else, NACKs,
  retransmissions and poisoning included, leaves the bytes on their way as they are.
\<close>

theorem bus_refines_pipe:
  assumes "cl_reach ks sha256 nP addr ips slots seed C" "cl_step ks nP addr C C'" "all_sane nP (cl_sent C')" "nP \<le> 256"
  shows "\<exists>e. cl_obs e C C' \<and> pipe_step e (cl_pipe C) (cl_pipe C')"
  by (rule cl_pipe_refines [OF assms(2) cl_reach_sane [OF assms] assms(4)])

definition ex_cl :: cluster where
  "ex_cl = cl_init ex_sha 2 [1, 2] None 7"

definition ex_cl' :: cluster where
  "ex_cl' = (let (c, ts) = send_begin [1, 2, 3] (bus_tx (cl_bus ex_cl 0) ! 1)
     in (cl_call 0 1 (sc_seq c) (Some c) (cl_put 0 0 (upd_tx 1 (\<lambda>_. ts) (cl_bus ex_cl 0), []) ex_cl))
          \<lparr>cl_sent := chan_upd 0 1 (cl_sent ex_cl 0 1 @ [[1, 2, 3]]) (cl_sent ex_cl)\<rparr>)"

lemma ex_cl_step: "cl_step ex_ks 2 (\<lambda>_. 0) ex_cl ex_cl'"
proof -
  obtain c ts where b: "send_begin [1, 2, 3] (bus_tx (cl_bus ex_cl 0) ! 1) = (c, ts)" by (metis prod.exhaust)
  have "\<not> tx_poisoned (bus_tx (cl_bus ex_cl 0) ! 1)"
    by (simp add: ex_cl_def cl_init_def BcastBus_new_def new_tx_def Let_def tx_init_def numeral_2_eq_2)
  then show ?thesis using cl_begin [of 0 2 1 ex_cl "[1, 2, 3]" c ts ex_ks "\<lambda>_. 0"] b by (simp add: ex_cl'_def)
qed

lemma ex_cl_sane: "all_sane 2 (cl_sent ex_cl')"
  by (auto simp: all_sane_def ex_cl'_def ex_cl_def cl_init_def sane_def nfrags_def split: prod.split)

theorem bus_refines_pipe_witness:
  "\<exists>e. cl_obs e ex_cl ex_cl' \<and> pipe_step e (cl_pipe ex_cl) (cl_pipe ex_cl')"
proof -
  have "cl_reach ex_ks ex_sha 2 (\<lambda>_. 0) [1, 2] None 7 ex_cl" unfolding ex_cl_def by (rule cl_reach.reach_init)
  then show ?thesis by (rule bus_refines_pipe [OF _ ex_cl_step ex_cl_sane]) simp
qed

lemma rx_poisoned_simps: "rx_poisoned (push_chunk bs rs) = rx_poisoned rs" "rx_poisoned (note_frame s i rs) = rx_poisoned rs"
  "rx_poisoned (rx_store s i tot pl rs) = rx_poisoned rs" "rx_poisoned (drain_step p rs) = rx_poisoned rs"
  by (simp_all add: push_chunk_def note_frame_def rx_store_def drain_step_def Let_def)

lemma drain_pending_poisoned: "rx_poisoned (drain_pending rs) = rx_poisoned rs"
  by (rule drain_induct [where P = "\<lambda>r. rx_poisoned r = rx_poisoned rs"]) (simp_all add: rx_poisoned_simps)

lemma rx_run_poisoned: "rx_poisoned (rx_run fs rs) = rx_poisoned rs"
proof -
  have "rx_poisoned (rx_frame s i tot pl r) = rx_poisoned r" for s i tot pl r
    by (simp add: rx_frame_def Let_def drain_pending_poisoned rx_poisoned_simps)
  then show ?thesis unfolding rx_run_def by (induction fs arbitrary: rs) auto
qed

text \<open>
  C4: nothing is lost once it has arrived. When all fragments of all messages have been handled, in
  any order, the fragments of nonempty messages any number of times but the one fragment of an empty
  message exactly once, a \<open>recv\<close> of all the bytes returns exactly the messages in order. For an empty
  message that arrives twice see \<open>duplicate_empty_message_blocks\<close>.
\<close>

theorem receiver_delivers:
  assumes "sane msgs" and honest: "\<forall>(s, i, tot, payload)\<in>set fs. honest msgs s i tot payload"
    and all: "\<And>s j. s < length msgs \<Longrightarrow> j < nfrags (msgs ! s) \<Longrightarrow> (of_nat s, of_nat j) \<in> set (frame_ids fs)"
    and once: "\<And>s. s < length msgs \<Longrightarrow> msgs ! s = [] \<Longrightarrow> count_list (frame_ids fs) (of_nat s, 0) = 1"
  shows "\<exists>rs. rx_recv (length (concat msgs)) (rx_run fs rx_init) = Rx_data (concat msgs) rs \<and> rx_data rs = []"
proof -
  let ?rs = "rx_run fs rx_init"
  have inv: "rx_inv msgs (rev (frame_ids fs)) [] ?rs" "drained ?rs"
    using rx_run_inv [OF assms(1) honest rx_inv_init drained_init] by simp_all
  have c: "count_list (rev xs) x = count_list xs x" for xs :: "(u32 \<times> u16) list" and x by (induction xs) auto
  have "length msgs \<le> unat (next_rx_seq ?rs)"
    by (rule rx_complete [OF inv assms(1) order_refl]) (use all once in \<open>simp_all add: c\<close>)
  then have d: "rx_data ?rs = concat msgs" "queue_ok ?rs" using inv(1) by (simp_all add: rx_inv_def)
  have "\<not> rx_poisoned ?rs" by (simp add: rx_run_poisoned rx_init_def)
  with d show ?thesis using rx_recv_cases [OF d(2), of "length (concat msgs)"] by (simp add: rx_data_def)
qed

definition ex_frames :: "(u32 \<times> u16 \<times> u16 \<times> bytes) list" where
  "ex_frames = [(2, 0, 1, [7]), (1, 0, 1, []), (2, 0, 1, [7]), (0, 0, 1, [5, 6])]"

definition ex_msgs :: "bytes list" where
  "ex_msgs = [[5, 6], [], [7]]"

theorem receiver_delivers_witness:
  "\<exists>rs. rx_recv (length (concat ex_msgs)) (rx_run ex_frames rx_init) = Rx_data (concat ex_msgs) rs \<and> rx_data rs = []"
proof (rule receiver_delivers)
  have nf: "nfrags [5, 6] = 1" "nfrags [] = 1" "nfrags [7] = 1" by (simp_all add: nfrags_def)
  show "sane ex_msgs" by (simp add: sane_def nf ex_msgs_def)
  show "\<forall>(s, i, tot, payload)\<in>set ex_frames. honest ex_msgs s i tot payload"
    by (simp add: ex_frames_def honest_def nf frag_def ex_msgs_def)
  have lt: "s < length ex_msgs \<Longrightarrow> s = 0 \<or> s = 1 \<or> s = 2" for s by (auto simp: ex_msgs_def)
  show "(of_nat s, of_nat j) \<in> set (frame_ids ex_frames)" if "s < length ex_msgs" "j < nfrags (ex_msgs ! s)" for s j
    using lt [OF that(1)] that(2) by (auto simp: ex_frames_def frame_ids_def nf ex_msgs_def)
  show "count_list (frame_ids ex_frames) (of_nat s, 0) = 1" if "s < length ex_msgs" "ex_msgs ! s = []" for s
    using lt [OF that(1)] that(2) by (auto simp: ex_frames_def frame_ids_def ex_msgs_def)
qed

text \<open>
  C29: an empty message whose frame arrives twice before its turn blocks the pipe. No matter what
  frames of other messages arrive, all of them included, the receiver never gets past it; only
  another copy of that frame, sent on request when its turn has come, could.
\<close>

theorem duplicate_empty_message_blocks:
  assumes "sane msgs" "unat s < length msgs" "msgs ! unat s = []"
    and "\<forall>(s', i, tot, payload)\<in>set fs. honest msgs s' i tot payload"
    and "\<forall>(s', i, tot, payload)\<in>set later. honest msgs s' i tot payload \<and> s' \<noteq> s"
    and "1 < count_list (frame_ids fs) (s, 0)" "count_list (frame_ids fs) (s, 0) < 2 ^ 32"
    and "next_rx_seq (rx_run fs rx_init) \<le> s"
  shows "next_rx_seq (rx_run (fs @ later) rx_init) \<le> s"
proof -
  have c: "count_list (rev xs) x = count_list xs x" for xs :: "(u32 \<times> u16) list" and x by (induction xs) auto
  let ?rs = "rx_run fs rx_init"
  have inv: "rx_inv msgs (rev (frame_ids fs)) [] ?rs" "drained ?rs"
    using rx_run_inv [OF assms(1,4) rx_inv_init drained_init] by simp_all
  have "next_rx_seq (rx_run later rs) \<le> s"
    if "rx_inv msgs H [] rs" "drained rs" "next_rx_seq rs \<le> s" "count_list H (s, 0) < 2 ^ 32" "1 < count_list H (s, 0)" for H rs
    using assms(5) that
  proof (induction later arbitrary: H rs)
    case (Cons f later)
    obtain s' i tot payload where f: "f = (s', i, tot, payload)" by (metis prod_cases4)
    have h: "honest msgs s' i tot payload" "s' \<noteq> s" using Cons.prems(1) by (simp_all add: f)
    have nx: "next_rx_seq (rx_frame s' i tot payload rs) \<le> s"
      by (rule rx_frame_stalls [OF h(1) assms(1) Cons.prems(2) h(2) Cons.prems(4) assms(3) Cons.prems(5,6)])
    have "next_rx_seq (rx_run later (rx_frame s' i tot payload rs)) \<le> s"
      using rx_frame_inv [OF h(1) assms(1) Cons.prems(2,3)] Cons.prems h(2) nx
      by (intro Cons.IH [of "(s', i) # H"]) auto
    then show ?case by (simp add: f rx_run_def)
  qed (simp add: rx_run_def)
  from this [OF inv assms(8)] assms(6,7) show ?thesis by (simp add: c rx_run_def)
qed

definition ex_twice :: "(u32 \<times> u16 \<times> u16 \<times> bytes) list" where
  "ex_twice = [(1, 0, 1, []), (1, 0, 1, [])]"

theorem duplicate_empty_message_blocks_witness:
  "next_rx_seq (rx_run (ex_twice @ [(0, 0, 1, [5, 6]), (2, 0, 1, [7])]) rx_init) \<le> 1"
proof (rule duplicate_empty_message_blocks)
  have nf: "nfrags [5, 6] = 1" "nfrags [] = 1" "nfrags [7] = 1" by (simp_all add: nfrags_def)
  show "sane ex_msgs" by (simp add: sane_def nf ex_msgs_def)
  show "unat (1 :: u32) < length ex_msgs" "ex_msgs ! unat (1 :: u32) = []" by (simp_all add: ex_msgs_def)
  show "\<forall>(s', i, tot, payload)\<in>set ex_twice. honest ex_msgs s' i tot payload"
    by (simp add: ex_twice_def honest_def nf frag_def ex_msgs_def)
  show "\<forall>(s', i, tot, payload)\<in>set [(0, 0, 1, [5, 6]), (2, 0, 1, [7])]. honest ex_msgs s' i tot payload \<and> s' \<noteq> 1"
    by (simp add: honest_def nf frag_def ex_msgs_def)
  show "1 < count_list (frame_ids ex_twice) (1, 0)" "count_list (frame_ids ex_twice) (1, 0) < 2 ^ 32"
    by (simp_all add: ex_twice_def frame_ids_def)
  show "next_rx_seq (rx_run ex_twice rx_init) \<le> 1"
    by (simp add: ex_twice_def rx_run_def rx_frame_def note_frame_def rx_init_def rx_store_def store_frag_def drain_pending.simps)
qed

text \<open>
  C28: the search for gaps returns unless the largest sequence number has been seen; then its loop
  never ends.
\<close>

theorem compute_missing_terminates_iff:
  "compute_missing now rs \<noteq> None \<longleftrightarrow> \<not> (rx_any_seen rs \<and> max_seen_seq rs = - 1)"
  by (rule compute_missing_returns_iff)

text \<open>
  C27: every idle round of a receiver asks for the right fragments, in whatever order frames, \<open>recv\<close>
  calls, poisoning and earlier rounds have come. What it asks for is a fragment of a message that is
  not yet delivered, and has not arrived; the fragment of a waiting empty message may be asked for
  again. It tracks every missing fragment of a message of which some fragment has arrived, and
  fragment 0 of a message of which none has while one of a later message has. What has been tracked
  for a whole cycle without arriving is asked for, unless the pipe gets poisoned.
\<close>

theorem requests_name_missing_fragments:
  assumes "rx_reach msgs H rs0" "sane msgs" "rx_drain_nacks now cyc k rs0 = Some (rs, due, poison)"
  shows "(\<forall>(s, i)\<in>set due. next_rx_seq rs0 \<le> s \<and> unat s < length msgs \<and> unat i < nfrags (msgs ! unat s) \<and>
       ((s, i) \<notin> set H \<or> msgs ! unat s = [])) \<and>
    (\<forall>s i j. next_rx_seq rs0 \<le> s \<and> (s, i) \<in> set H \<and> j < nfrags (msgs ! unat s) \<and> (s, of_nat j) \<notin> set H \<longrightarrow>
       (s, of_nat j) \<in> fst ` set (nack_state rs)) \<and>
    (\<forall>s s' i'. next_rx_seq rs0 \<le> s \<and> (s', i') \<in> set H \<and> s \<le> s' \<and> (\<forall>i. (s, i) \<notin> set H) \<longrightarrow>
       (s, 0) \<in> fst ` set (nack_state rs)) \<and>
    (\<forall>s i r. \<not> poison \<and> ((s, i), r) \<in> set (nack_state rs0) \<and> overdue (snd now) cyc r \<and> next_rx_seq rs0 \<le> s \<and>
       (s, i) \<notin> set H \<longrightarrow> (s, i) \<in> set due)"
proof (intro conjI)
  show "\<forall>(s, i)\<in>set due. next_rx_seq rs0 \<le> s \<and> unat s < length msgs \<and> unat i < nfrags (msgs ! unat s) \<and>
      ((s, i) \<notin> set H \<or> msgs ! unat s = [])"
    using requests_in_range [OF assms] by auto
  show "\<forall>s i j. next_rx_seq rs0 \<le> s \<and> (s, i) \<in> set H \<and> j < nfrags (msgs ! unat s) \<and> (s, of_nat j) \<notin> set H \<longrightarrow>
      (s, of_nat j) \<in> fst ` set (nack_state rs)"
    using missing_tracked(1) [OF assms _ _ order_refl] by blast
  show "\<forall>s s' i'. next_rx_seq rs0 \<le> s \<and> (s', i') \<in> set H \<and> s \<le> s' \<and> (\<forall>i. (s, i) \<notin> set H) \<longrightarrow>
      (s, 0) \<in> fst ` set (nack_state rs)"
    using missing_tracked(2) [OF assms] by blast
  show "\<forall>s i r. \<not> poison \<and> ((s, i), r) \<in> set (nack_state rs0) \<and> overdue (snd now) cyc r \<and> next_rx_seq rs0 \<le> s \<and>
      (s, i) \<notin> set H \<longrightarrow> (s, i) \<in> set due"
    using overdue_requested [OF assms] by blast
qed

definition ex_gap :: RxState where
  "ex_gap = rx_run [(2, 0, 1, [7])] rx_init"

theorem requests_name_missing_fragments_witness:
  "\<exists>rs due poison. rx_drain_nacks (5, 9) 0 5 ex_gap = Some (rs, due, poison) \<and> due = [(0, 0), (1, 0)] \<and>
    (\<forall>(s, i)\<in>set due. (s, i) \<noteq> (2, 0)) \<and> (0, 0) \<in> fst ` set (nack_state rs) \<and> (1, 0) \<in> fst ` set (nack_state rs)"
proof -
  have nf: "nfrags [5, 6] = 1" "nfrags [] = 1" "nfrags [7] = 1" by (simp_all add: nfrags_def)
  have g: "ex_gap = \<lparr>next_rx_seq = 0, max_seen_seq = 2, rx_any_seen = True,
      pending = [(2, \<lparr>frag_total = 1, received = 1, frags = [[7]]\<rparr>)], rx_chunks = [], rx_bytes = 0, nack_state = [],
      datagrams_rx = 1, rx_poisoned = False\<rparr>"
    by (simp add: ex_gap_def rx_run_def rx_frame_def note_frame_def rx_init_def rx_store_def store_frag_def drain_pending.simps)
  have "\<exists>rs. rx_drain_nacks (5, 9) 0 5 ex_gap = Some (rs, [(0, 0), (1, 0)], False)"
    by (simp add: g rx_drain_nacks_def compute_missing_def missing_loop.simps missing_in_def try_emplace_def
        insort_insert_key_def nack_satisfied_def)
  then obtain rs where rs: "rx_drain_nacks (5, 9) 0 5 ex_gap = Some (rs, [(0, 0), (1, 0)], False)" by blast
  have sane: "sane ex_msgs" by (simp add: sane_def nf ex_msgs_def)
  have "rx_reach ex_msgs [(2, 0)] (rx_frame 2 0 1 [7] rx_init)"
    by (rule rx_arrive [OF rx_start]) (simp add: honest_def nf frag_def ex_msgs_def)
  then have r: "rx_reach ex_msgs [(2, 0)] ex_gap" by (simp add: ex_gap_def rx_run_def)
  note C = requests_name_missing_fragments [OF r sane rs]
  note later = C [THEN conjunct2, THEN conjunct2, THEN conjunct1, rule_format, of _ 2 0]
  have tracked: "(s, 0) \<in> fst ` set (nack_state rs)" if "s \<le> 2" "s \<noteq> 2" for s
    using that by (intro later) (simp_all add: g)
  from tracked [of 0] tracked [of 1] rs show ?thesis by auto
qed

text \<open>
  C26: \<open>send\<close> puts on the wire the fragments of its message in order, once each, however often the
  socket buffer is full, and what the receiver decrypts from them is the message.
\<close>

theorem send_emits_message:
  assumes "tx_ok ks key self target msgs (bus_tx b ! t)" "sane (msgs @ [data])" "\<not> tx_poisoned (bus_tx b ! t)"
    and "self_id b = self" "target = of_nat t" "t < bus_nP b" "bus_nP b \<le> 256" "target \<noteq> self"
    and "Failed \<notin> set rs" "nfrags data \<le> count_list rs Sent"
  shows "\<exists>ts frames. BcastBus_send ks (int t) data rs b = (upd_tx t (\<lambda>_. ts) b, frames, Send_result Send_ok) \<and>
    tx_ok ks key self target (msgs @ [data]) ts \<and>
    frames = map (\<lambda>j. wire_frame ks key self target data (local_seq (bus_tx b ! t)) (of_nat j)) [0..<nfrags data] \<and>
    concat (map (\<lambda>f. crypt ks key (build_nonce 0 self target (hdr_seq f) (hdr_idx f)) (drop HEADER_SIZE f)) frames) = data"
  by (rule BcastBus_send_emits [OF assms])

theorem send_emits_message_witness:
  "\<exists>ts frames. BcastBus_send ex_ks (int 1) [5, 6] [Again, Sent] (cl_bus ex_cl 0) = (upd_tx 1 (\<lambda>_. ts) (cl_bus ex_cl 0), frames, Send_result Send_ok) \<and>
    tx_ok ex_ks (replicate 16 0) 0 1 ([] @ [[5, 6]]) ts \<and>
    frames = map (\<lambda>j. wire_frame ex_ks (replicate 16 0) 0 1 [5, 6] (local_seq (bus_tx (cl_bus ex_cl 0) ! 1)) (of_nat j)) [0..<nfrags [5, 6]] \<and>
    concat (map (\<lambda>f. crypt ex_ks (replicate 16 0) (build_nonce 0 0 1 (hdr_seq f) (hdr_idx f)) (drop HEADER_SIZE f)) frames) = [5, 6]"
proof (rule send_emits_message)
  have nf: "nfrags [5, 6] = 1" by (simp add: nfrags_def)
  have tx: "bus_tx (cl_bus ex_cl 0) ! 1 = tx_init (replicate 16 0)"
    by (simp add: ex_cl_def cl_init_def BcastBus_new_def new_tx_def Let_def derive_pair_key_def ex_sha_def upt_rec)
  show "tx_ok ex_ks (replicate 16 0) 0 1 [] (bus_tx (cl_bus ex_cl 0) ! 1)" unfolding tx by (rule tx_ok_init)
  show "\<not> tx_poisoned (bus_tx (cl_bus ex_cl 0) ! 1)" unfolding tx by (simp add: tx_init_def)
  show "sane ([] @ [[5, 6]])" by (simp add: sane_def nf)
  show "nfrags [5, 6] \<le> count_list [Again, Sent] Sent" by (simp add: nf)
qed (simp_all add: ex_cl_def cl_init_def BcastBus_new_def new_tx_def Let_def)

text \<open>
  C31: no part of a key stream is used for two different plaintexts. Whatever has happened in the
  cluster, losses, retransmissions and answers to NACKs included, the payload of a data frame on the
  wire is the fragment its header names, encrypted with the key of its sender and target and the nonce
  of its header; two data frames with the same nonce are the same datagram; and data frames of
  different pairs of hosts have keys hashed from different strings.
\<close>

theorem key_stream_used_once:
  assumes "cl_reach ks sha256 nP addr ips slots seed C" "all_sane nP (cl_sent C)" "nP \<le> 256"
    and "(src, d) \<in> cl_net C" "(src', d') \<in> cl_net C" "hdr_kind d = KIND_DATA" "hdr_kind d' = KIND_DATA"
  shows "drop HEADER_SIZE d = crypt ks (derive_pair_key sha256 seed (uint (hdr_sender d)) (uint (hdr_target d)))
      (build_nonce 0 (hdr_sender d) (hdr_target d) (hdr_seq d) (hdr_idx d))
      (frag (cl_sent C (unat (hdr_sender d)) (unat (hdr_target d)) ! unat (hdr_seq d)) (unat (hdr_idx d))) \<and>
    (build_nonce 0 (hdr_sender d) (hdr_target d) (hdr_seq d) (hdr_idx d) =
       build_nonce 0 (hdr_sender d') (hdr_target d') (hdr_seq d') (hdr_idx d') \<longleftrightarrow> d = d') \<and>
    (key_string seed (uint (hdr_sender d)) (uint (hdr_target d)) = key_string seed (uint (hdr_sender d')) (uint (hdr_target d')) \<longleftrightarrow>
       {hdr_sender d, hdr_target d} = {hdr_sender d', hdr_target d'})"
proof -
  have inv: "cl_inv ks nP (pair_keys sha256 seed) C" by (rule cl_reach_inv [OF assms(1-3)])
  note f = frame_ok_data [OF cl_invD(2) [OF inv assms(4)] assms(6,3), THEN conjunct2]
  note f' = frame_ok_data [OF cl_invD(2) [OF inv assms(5)] assms(7,3), THEN conjunct2]
  have "drop HEADER_SIZE (wire_frame ks key s t m q i) = crypt ks key (build_nonce 0 s t q i) (frag m (unat i))" for key s t m q i
    by (simp add: wire_frame_def hdr_simps)
  then have "drop HEADER_SIZE d = crypt ks (derive_pair_key sha256 seed (uint (hdr_sender d)) (uint (hdr_target d)))
      (build_nonce 0 (hdr_sender d) (hdr_target d) (hdr_seq d) (hdr_idx d))
      (frag (cl_sent C (unat (hdr_sender d)) (unat (hdr_target d)) ! unat (hdr_seq d)) (unat (hdr_idx d)))"
    using f by metis
  moreover have "build_nonce 0 (hdr_sender d) (hdr_target d) (hdr_seq d) (hdr_idx d) =
       build_nonce 0 (hdr_sender d') (hdr_target d') (hdr_seq d') (hdr_idx d') \<longleftrightarrow> d = d'"
    unfolding build_nonce_inj using f f' by metis
  moreover have "{uint a, uint b} = {uint a', uint b'} \<longleftrightarrow> {a, b} = {a', b'}" for a b a' b' :: u8
    by (auto simp: doubleton_eq_iff word_uint_eq_iff)
  ultimately show ?thesis by (simp add: key_string_inj)
qed

lemma ex_cl'_frame:
  "\<exists>C d. cl_reach ex_ks ex_sha 2 (\<lambda>_. 0) [1, 2] None 7 C \<and> cl_sent C = cl_sent ex_cl' \<and> (0, d) \<in> cl_net C \<and> hdr_kind d = KIND_DATA"
proof -
  have "cl_reach ex_ks ex_sha 2 (\<lambda>_. 0) [1, 2] None 7 ex_cl'"
    using cl_reach.reach_step [OF _ ex_cl_step] cl_reach.reach_init unfolding ex_cl_def by blast
  obtain c ts where b: "send_begin [1, 2, 3] (bus_tx (cl_bus ex_cl 0) ! 1) = (c, ts)" by (metis prod.exhaust)
  have c: "sc_i c = 0" "sc_data c = [1, 2, 3]" using b by (auto simp: send_begin_def)
  obtain fs c' ts' e where st: "send_step ex_ks (self_id (cl_bus ex_cl' 0)) (of_nat 1) Sent c (bus_tx (cl_bus ex_cl' 0) ! 1) = (fs, c', ts', e)"
    by (metis prod.exhaust)
  then have fs: "\<exists>d\<in>set fs. hdr_kind d = KIND_DATA"
    by (auto simp: send_step_def send_fragment_def Let_def hdr_simps split: prod.splits)
  have call: "cl_calls ex_cl' 0 1 (sc_seq c) = Some c" using b by (simp add: ex_cl'_def)
  have "\<not> loop_done c" by (simp add: loop_done_def c send_total_def word_less_nat_alt)
  from cl_fragment [OF _ _ _ call this st, of 2 "\<lambda>_. 0"] fs show ?thesis
    using cl_reach.reach_step \<open>cl_reach _ _ _ _ _ _ _ ex_cl'\<close> by fastforce
qed

theorem key_stream_used_once_witness:
  "\<exists>C d. cl_reach ex_ks ex_sha 2 (\<lambda>_. 0) [1, 2] None 7 C \<and> (0, d) \<in> cl_net C \<and>
    drop HEADER_SIZE d = crypt ex_ks (derive_pair_key ex_sha 7 (uint (hdr_sender d)) (uint (hdr_target d)))
      (build_nonce 0 (hdr_sender d) (hdr_target d) (hdr_seq d) (hdr_idx d))
      (frag (cl_sent C (unat (hdr_sender d)) (unat (hdr_target d)) ! unat (hdr_seq d)) (unat (hdr_idx d)))"
proof -
  obtain C d where C: "cl_reach ex_ks ex_sha 2 (\<lambda>_. 0) [1, 2] None 7 C" "cl_sent C = cl_sent ex_cl'" "(0, d) \<in> cl_net C" "hdr_kind d = KIND_DATA"
    using ex_cl'_frame by blast
  have "all_sane 2 (cl_sent C)" unfolding C(2) by (rule ex_cl_sane)
  from key_stream_used_once [OF C(1) this _ C(3) C(3) C(4) C(4)] C(1,3) show ?thesis by auto
qed

text \<open>
  C30: a message whose number of fragments is a multiple of \<open>65536\<close> is lost without an error. The
  16-bit total of its frames is zero, and the receiver completes the stream on any of its frames
  without queueing a byte.
\<close>

theorem oversized_message_is_lost:
  assumes "send_fragment ks self target c ts = (f, ts')" "sc_data c \<noteq> []" "nfrags (sc_data c) mod 2 ^ 16 = 0"
    and "sc_seq c = next_rx_seq rs" "map_of (pending rs) (next_rx_seq rs) = None" "map_of (pending rs) (next_rx_seq rs + 1) = None"
  shows "hdr_tot f = 0 \<and> rx_data (rx_frame (hdr_seq f) (hdr_idx f) (hdr_tot f) payload rs) = rx_data rs \<and>
    next_rx_seq (rx_frame (hdr_seq f) (hdr_idx f) (hdr_tot f) payload rs) = next_rx_seq rs + 1"
proof -
  have "(ucast (of_nat n :: u32) :: u16) = of_nat n" for n by transfer simp
  moreover have "(of_nat (nfrags (sc_data c)) :: u16) = 0"
    using assms(3) by (simp add: word_of_nat_eq_0_iff dvd_eq_mod_eq_0)
  ultimately have "(ucast (send_total (length (sc_data c))) :: u16) = 0" by (simp add: send_total_eq)
  then have h: "hdr_tot f = 0" "hdr_seq f = next_rx_seq rs"
    using assms(1,4) by (auto simp: send_fragment_def Let_def hdr_simps)
  define r where "r = note_frame (hdr_seq f) (hdr_idx f) rs"
  have r: "next_rx_seq r = next_rx_seq rs" "pending r = pending rs" "rx_data r = rx_data rs"
    by (simp_all add: r_def rx_data_def)
  let ?p = "\<lparr>frag_total = 0, received = 0, frags = []\<rparr>"
  have sf: "store_frag (hdr_idx f) 0 payload ?p = ?p" by (simp add: store_frag_def Let_def word_less_nat_alt)
  let ?r1 = "r\<lparr>pending := AList.update (next_rx_seq rs) ?p (pending rs)\<rparr>"
  have st: "rx_store (hdr_seq f) (hdr_idx f) 0 payload r = ?r1"
    using assms(5) by (simp add: rx_store_def r h(2) sf)
  have "drain_pending ?r1 = drain_pending (drain_step ?p ?r1)"
    by (rule drain_pending_cases(1)) (simp_all add: r AList.update_conv')
  moreover have "drained (drain_step ?p ?r1)"
    using assms(6) by (simp add: drained_def drain_step_def push_chunk_def r AList.delete_conv' AList.update_conv')
  ultimately have "drain_pending ?r1 = drain_step ?p ?r1" by (simp add: drain_pending_cases(2))
  then have "rx_frame (hdr_seq f) (hdr_idx f) 0 payload rs = drain_step ?p ?r1"
    unfolding rx_frame_def r_def [symmetric] Let_def using st h(2) r(1) by simp
  then show ?thesis using h r by (simp add: drain_step_def push_chunk_def rx_data_def)
qed

definition ex_big :: SendCall where
  "ex_big = \<lparr>sc_seq = 0, sc_data = replicate (MAX_PAYLOAD * 65536) 0, sc_i = 0, sc_off = 0\<rparr>"

theorem oversized_message_is_lost_witness:
  "\<exists>f ts'. send_fragment ex_ks 0 1 ex_big (tx_init []) = (f, ts') \<and> hdr_tot f = 0 \<and>
    rx_data (rx_frame (hdr_seq f) (hdr_idx f) (hdr_tot f) [0] rx_init) = rx_data rx_init \<and>
    next_rx_seq (rx_frame (hdr_seq f) (hdr_idx f) (hdr_tot f) [0] rx_init) = next_rx_seq rx_init + 1"
proof -
  obtain f ts' where f: "send_fragment ex_ks 0 1 ex_big (tx_init []) = (f, ts')" by (metis prod.exhaust)
  have d: "sc_data ex_big \<noteq> []" by (simp add: ex_big_def)
  have "nfrags (sc_data ex_big) mod 2 ^ 16 = 0" using d by (simp add: nfrags_def) (simp add: ex_big_def)
  note L = oversized_message_is_lost [OF f d this, of rx_init "[0]"]
  have "sc_seq ex_big = next_rx_seq rx_init" "map_of (pending rx_init) (next_rx_seq rx_init) = None"
    "map_of (pending rx_init) (next_rx_seq rx_init + 1) = None" by (simp_all add: ex_big_def rx_init_def)
  with L f show ?thesis by blast
qed

end
