(* ===== verification/Tdma.thy ===== *)
theory Tdma
  imports Prelude
begin

section \<open>The shared clock and the transmit schedule (time/, net/tdma_scheduler)\<close>

text \<open>
  \<open>TimeSource::now_ns\<close> and \<open>TDMAScheduler\<close>. Clock readings are inputs: the monotonic clock, what each
  load from the shared memory returns, and, for the scheduler, the sequence of values of
  \<open>now_ns\<close>. Sleeping has no effect but to let the next reading be a later one, so \<open>wait_for_slot\<close> is
  a partial function of the readings: \<open>None\<close> means that it never returns.
\<close>

subsection \<open>Reading the shared clock\<close>

text \<open>
  One attempt of the seqlock read: the sequence number before, the two fields, the sequence
  number after, and the monotonic clock at the end.
\<close>

record shm_read =
  rd_s1 :: u64
  rd_epoch :: u64
  rd_mono :: u64
  rd_s2 :: u64
  rd_now :: u64

fun now_loop :: "shm_read list \<Rightarrow> u64 \<Rightarrow> u64" where
  "now_loop [] raw = raw"
| "now_loop (r # rs) raw =
     (if rd_s1 r AND 1 \<noteq> 0 then now_loop rs raw
      else if rd_s1 r = rd_s2 r then rd_epoch r + (rd_now r - rd_mono r) else now_loop rs raw)"

definition now_ns :: "bool \<Rightarrow> (nat \<Rightarrow> shm_read) \<Rightarrow> u64 \<Rightarrow> u64" where
  "now_ns ok reads raw = (if \<not> ok then raw else now_loop (map reads [0..<8]) raw)"

subsection \<open>Schedules\<close>

record TDMASchedule =
  slot_ns :: u64
  slot_owners :: "int list list"

definition sched_ok :: "TDMASchedule \<Rightarrow> bool" where
  "sched_ok s \<longleftrightarrow> slot_ns s > 0 \<and> slot_owners s \<noteq> []"

definition round_robin :: "nat \<Rightarrow> u64 \<Rightarrow> TDMASchedule" where
  "round_robin nP slot = \<lparr>slot_ns = slot, slot_owners = map (\<lambda>i. [int i]) [0..<nP]\<rparr>"

record TDMAScheduler =
  td_party :: int
  td_sched :: TDMASchedule
  td_disabled :: bool
  td_owns :: "bool list"
  td_waits :: u64
  td_ns_waited :: u64
  td_in_slot_sends :: u64
  td_out_of_slot_sends :: u64
  td_boundary_spans :: u64
  td_slot_hist :: "u64 list"

text \<open>The constructor; \<open>ts_ok\<close> tells whether there is a time source that is mapped.\<close>

definition TDMAScheduler_new :: "int \<Rightarrow> bool \<Rightarrow> TDMASchedule \<Rightarrow> bool \<Rightarrow> TDMAScheduler" where
  "TDMAScheduler_new party ts_ok sched disabled =
     (let td = \<lparr>td_party = party, td_sched = sched, td_disabled = disabled, td_owns = [], td_waits = 0, td_ns_waited = 0,
        td_in_slot_sends = 0, td_out_of_slot_sends = 0, td_boundary_spans = 0, td_slot_hist = []\<rparr>
      in if \<not> sched_ok sched then td\<lparr>td_disabled := True\<rparr>
         else td\<lparr>td_owns := map (\<lambda>owners. party \<in> set owners) (slot_owners sched),
                 td_slot_hist := replicate (length (slot_owners sched)) 0,
                 td_disabled := disabled \<or> \<not> ts_ok\<rparr>)"

definition owns_slot :: "TDMAScheduler \<Rightarrow> u32 \<Rightarrow> bool" where
  "owns_slot td s \<longleftrightarrow> unat s < length (td_owns td) \<and> td_owns td ! unat s"

definition cycle_len :: "TDMAScheduler \<Rightarrow> u64" where
  "cycle_len td = slot_ns (td_sched td) * of_nat (length (slot_owners (td_sched td)))"

definition slot_of :: "TDMAScheduler \<Rightarrow> u64 \<Rightarrow> u32" where
  "slot_of td t = ucast ((t mod cycle_len td) div slot_ns (td_sched td))"

text \<open>The wait until the next slot of this party, seen from position \<open>pos\<close> in slot \<open>cur\<close>; 0 if there is none.\<close>

definition next_delta :: "TDMAScheduler \<Rightarrow> u32 \<Rightarrow> u64 \<Rightarrow> u64" where
  "next_delta td cur pos =
     (let n = length (slot_owners (td_sched td))
      in case find (\<lambda>k. td_owns td ! ((unat cur + k) mod n)) [1..<Suc n] of None \<Rightarrow> 0
         | Some k \<Rightarrow> (ucast cur + of_nat k) * slot_ns (td_sched td) - pos)"

definition in_own_window :: "u64 \<Rightarrow> TDMAScheduler \<Rightarrow> u64 \<Rightarrow> bool" where
  "in_own_window guard td now =
     (let slot = slot_ns (td_sched td); pos = now mod cycle_len td; cur = slot_of td now;
          remaining = slot - (pos - ucast cur * slot)
      in owns_slot td cur \<and> remaining > guard)"

text \<open>\<open>wait_for_slot\<close>: \<open>clock k\<close> is its \<open>k\<close>-th reading; the result counts the readings.\<close>

partial_function (option) wait_loop :: "(nat \<Rightarrow> u64) \<Rightarrow> u64 \<Rightarrow> nat \<Rightarrow> TDMAScheduler \<Rightarrow> (nat \<times> TDMAScheduler) option" where
  [code]: "wait_loop clock guard k td =
     (let now = clock k
      in if in_own_window guard td now then Some (Suc k, td)
         else let delta = next_delta td (slot_of td now) (now mod cycle_len td)
              in if delta = 0 then Some (Suc k, td)
                 else wait_loop clock guard (Suc k)
                        (td\<lparr>td_waits := td_waits td + 1, td_ns_waited := td_ns_waited td + delta\<rparr>))"

definition wait_for_slot :: "(nat \<Rightarrow> u64) \<Rightarrow> u64 \<Rightarrow> TDMAScheduler \<Rightarrow> (nat \<times> TDMAScheduler) option" where
  "wait_for_slot clock guard td = (if td_disabled td then Some (0, td) else wait_loop clock guard 0 td)"

definition wait_and_mark_pre :: "(nat \<Rightarrow> u64) \<Rightarrow> u64 \<Rightarrow> TDMAScheduler \<Rightarrow> (u64 \<times> TDMAScheduler) option" where
  "wait_and_mark_pre clock guard td =
     (if td_disabled td then Some (0, td)
      else map_option (\<lambda>(k, td). (clock k, td)) (wait_for_slot clock guard td))"

definition mark_post :: "u64 \<Rightarrow> u64 \<Rightarrow> TDMAScheduler \<Rightarrow> TDMAScheduler" where
  "mark_post t_post t_pre td =
     (if td_disabled td then td
      else let s_pre = slot_of td t_pre; s_post = slot_of td t_post;
               td = td\<lparr>td_slot_hist := (td_slot_hist td)[unat s_pre := td_slot_hist td ! unat s_pre + 1]\<rparr>
           in if owns_slot td s_pre \<and> owns_slot td s_post \<and> s_pre = s_post
              then td\<lparr>td_in_slot_sends := td_in_slot_sends td + 1\<rparr>
              else let td = td\<lparr>td_out_of_slot_sends := td_out_of_slot_sends td + 1\<rparr>
                   in if s_pre \<noteq> s_post then td\<lparr>td_boundary_spans := td_boundary_spans td + 1\<rparr> else td)"

definition slot_histogram :: "TDMAScheduler \<Rightarrow> u32 \<Rightarrow> u64" where
  "slot_histogram td s = (if unat s < length (td_slot_hist td) then td_slot_hist td ! unat s else 0)"

subsection \<open>Positions in the cycle\<close>

text \<open>The products the code computes in 64 bits do not wrap.\<close>

definition tdma_ok :: "TDMAScheduler \<Rightarrow> bool" where
  "tdma_ok td \<longleftrightarrow> 0 < slot_ns (td_sched td) \<and> slot_owners (td_sched td) \<noteq> [] \<and>
     length (td_owns td) = length (slot_owners (td_sched td)) \<and> length (td_owns td) < 2 ^ 32 \<and>
     unat (slot_ns (td_sched td)) * (2 * length (td_owns td)) < 2 ^ 64"

abbreviation slot_nat :: "TDMAScheduler \<Rightarrow> nat" where
  "slot_nat td \<equiv> unat (slot_ns (td_sched td))"

abbreviation cycle_nat :: "TDMAScheduler \<Rightarrow> nat" where
  "cycle_nat td \<equiv> slot_nat td * length (td_owns td)"

lemma unat_times: "unat a * unat b < 2 ^ LENGTH('w) \<Longrightarrow> unat (a * b) = unat a * unat (b :: 'w::len word)"
  by (simp add: unat_word_ariths)

lemma unat_ucast_32_64: "unat (ucast (w :: u32) :: u64) = unat w"
  by transfer (simp add: min_def)

lemma tdma_okD:
  assumes "tdma_ok td"
  shows "0 < length (td_owns td)" "0 < slot_nat td" "length (slot_owners (td_sched td)) = length (td_owns td)"
    "length (td_owns td) < 2 ^ 32" "slot_nat td * (2 * length (td_owns td)) < 2 ^ 64" "cycle_nat td < 2 ^ 64"
proof -
  show big: "slot_nat td * (2 * length (td_owns td)) < 2 ^ 64" using assms unfolding tdma_ok_def by (elim conjE)
  have "cycle_nat td \<le> slot_nat td * (2 * length (td_owns td))" by simp
  then show "cycle_nat td < 2 ^ 64" using big by (rule le_less_trans)
qed (use assms in \<open>auto simp: tdma_ok_def unat_gt_0 word_neq_0_conv\<close>)

lemma unat_cycle:
  assumes "tdma_ok td"
  shows "unat (cycle_len td) = cycle_nat td"
proof -
  note ok = tdma_okD [OF assms]
  have "unat (of_nat (length (td_owns td)) :: u64) = length (td_owns td)"
    using ok(4) by (simp add: unat_of_nat)
  then show ?thesis using ok(6) unfolding cycle_len_def ok(3) by (subst unat_times) simp_all
qed

lemma unat_slot_of:
  assumes "tdma_ok td"
  shows "unat (slot_of td t) = unat t mod cycle_nat td div slot_nat td"
    and "unat t mod cycle_nat td div slot_nat td < length (td_owns td)"
proof -
  note ok = tdma_okD [OF assms]
  show lt: "unat t mod cycle_nat td div slot_nat td < length (td_owns td)"
    using ok(1,2) by (simp add: less_mult_imp_div_less mult.commute)
  then have "unat t mod cycle_nat td div slot_nat td < 2 ^ 32" using ok(4) by (rule less_trans)
  moreover have "unat ((t mod cycle_len td) div slot_ns (td_sched td)) = unat t mod cycle_nat td div slot_nat td"
    by (simp add: unat_div_distrib unat_mod_distrib unat_cycle [OF assms])
  ultimately show "unat (slot_of td t) = unat t mod cycle_nat td div slot_nat td"
    by (simp add: slot_of_def unsigned_ucast_eq take_bit_nat_eq_self)
qed

lemma owns_slot_of: "tdma_ok td \<Longrightarrow> owns_slot td (slot_of td t) = td_owns td ! (unat t mod cycle_nat td div slot_nat td)"
  using unat_slot_of [of td t] by (simp add: owns_slot_def)

lemma unat_cur_times:
  assumes "tdma_ok td"
  shows "unat (ucast (slot_of td t) * slot_ns (td_sched td)) = unat t mod cycle_nat td div slot_nat td * slot_nat td"
proof -
  have "unat t mod cycle_nat td div slot_nat td * slot_nat td \<le> unat t mod cycle_nat td" by simp
  also have "\<dots> < 2 ^ 64" using unsigned_less [of t, where ?'a = nat] by (auto intro: le_less_trans [OF mod_less_eq_dividend])
  finally show ?thesis
    by (subst unat_times) (simp_all add: unat_ucast_32_64 unat_slot_of(1) [OF assms])
qed

lemma in_own_window_iff:
  assumes "tdma_ok td"
  shows "in_own_window guard td t \<longleftrightarrow>
    owns_slot td (slot_of td t) \<and> unat guard < slot_nat td - unat t mod slot_nat td"
proof -
  let ?s = "slot_ns (td_sched td)"
  let ?p = "t mod cycle_len td"
  have p: "unat ?p = unat t mod cycle_nat td" by (simp add: unat_mod_distrib unat_cycle [OF assms])
  have "ucast (slot_of td t) * ?s \<le> ?p"
    by (simp add: word_le_nat_alt unat_cur_times [OF assms] p)
  then have d: "unat (?p - ucast (slot_of td t) * ?s) = unat t mod slot_nat td"
    by (simp add: unat_sub unat_cur_times [OF assms] p minus_div_mult_eq_mod mod_mod_cancel)
  moreover have "unat t mod slot_nat td < slot_nat td" using tdma_okD(2) [OF assms] by simp
  ultimately have "unat (?s - (?p - ucast (slot_of td t) * ?s)) = slot_nat td - unat t mod slot_nat td"
    by (subst unat_sub) (simp_all add: word_le_nat_alt)
  then show ?thesis by (simp add: in_own_window_def Let_def word_less_nat_alt)
qed

subsection \<open>The wait for the next slot\<close>

lemma next_delta_none:
  assumes "tdma_ok td" and "True \<notin> set (td_owns td)"
  shows "next_delta td cur pos = 0"
proof -
  have "\<not> td_owns td ! ((unat cur + k) mod length (td_owns td))" for k
    using assms(2) tdma_okD(1) [OF assms(1)]
    by (metis (full_types) mod_less_divisor nth_mem)
  then have "find (\<lambda>k. td_owns td ! ((unat cur + k) mod length (td_owns td))) [1..<Suc (length (td_owns td))] = None"
    by (simp add: find_None_iff)
  then show ?thesis by (simp add: next_delta_def Let_def tdma_okD(3) [OF assms(1)] del: upt_Suc)
qed

text \<open>Otherwise it is the time to the start of the first own slot after the current one.\<close>

lemma next_delta_some:
  assumes ok: "tdma_ok td" and own: "True \<in> set (td_owns td)"
  shows "\<exists>k. 1 \<le> k \<and> k \<le> length (td_owns td) \<and> td_owns td ! ((unat (slot_of td t) + k) mod length (td_owns td)) \<and>
    unat (next_delta td (slot_of td t) (t mod cycle_len td)) + unat t mod cycle_nat td
      = (unat (slot_of td t) + k) * slot_nat td"
proof -
  note okD = tdma_okD [OF ok]
  let ?n = "length (td_owns td)"
  let ?c = "unat (slot_of td t)"
  let ?s = "slot_ns (td_sched td)"
  let ?P = "\<lambda>k. td_owns td ! ((?c + k) mod ?n)"
  have c: "?c < ?n" using unat_slot_of [OF ok, of t] by simp
  obtain i where i: "i < ?n" "td_owns td ! i" using own by (auto simp: in_set_conv_nth)
  have "\<exists>k\<in>{1..<Suc ?n}. ?P k"
  proof (cases "?c < i")
    case True
    then show ?thesis using i by (intro bexI [of _ "i - ?c"]) auto
  next
    case False
    then show ?thesis using i c by (intro bexI [of _ "i + ?n - ?c"]) auto
  qed
  then obtain k where k: "find ?P [1..<Suc ?n] = Some k"
    by (cases "find ?P [1..<Suc ?n]") (auto simp: find_None_iff)
  then have kP: "1 \<le> k" "k \<le> ?n" "?P k" by (auto simp: find_Some_iff simp del: upt_Suc)
  have bound: "(?c + k) * slot_nat td < 2 ^ 64"
  proof -
    have "(?c + k) * slot_nat td \<le> 2 * ?n * slot_nat td" using c kP(2) by (intro mult_right_mono) simp_all
    also have "\<dots> = slot_nat td * (2 * ?n)" by (simp only: mult.commute)
    finally show ?thesis using okD(5) by (rule le_less_trans)
  qed
  have uk: "unat (ucast (slot_of td t) + of_nat k :: u64) = ?c + k"
  proof -
    have "ucast (slot_of td t) = (of_nat (unat (ucast (slot_of td t) :: u64)) :: u64)" by simp
    then have "ucast (slot_of td t) = (of_nat ?c :: u64)" by (simp only: unat_ucast_32_64)
    then have "ucast (slot_of td t) + of_nat k = (of_nat (?c + k) :: u64)" by simp
    moreover have "?c + k < 2 ^ 64" using c kP(2) okD(4) by simp
    ultimately show ?thesis by (simp only: unat_of_nat) (simp add: take_bit_nat_eq_self)
  qed
  have p: "unat (t mod cycle_len td) = unat t mod cycle_nat td" by (simp add: unat_mod_distrib unat_cycle [OF ok])
  have le: "unat t mod cycle_nat td \<le> (?c + k) * slot_nat td"
  proof -
    have "unat t mod cycle_nat td = ?c * slot_nat td + unat t mod slot_nat td"
      using div_mult_mod_eq [of "unat t mod cycle_nat td" "slot_nat td"]
      by (simp add: unat_slot_of(1) [OF ok] mod_mod_cancel)
    moreover have "unat t mod slot_nat td \<le> k * slot_nat td"
      using okD(2) kP(1) by (simp add: trans_le_add1 mod_le_divisor order_trans [of _ "1 * slot_nat td"] del: One_nat_def)
    ultimately show ?thesis by (simp add: add_mult_distrib)
  qed
  have d: "next_delta td (slot_of td t) (t mod cycle_len td) = (ucast (slot_of td t) + of_nat k) * ?s - t mod cycle_len td"
    using k by (simp add: next_delta_def Let_def okD(3) del: upt_Suc)
  have m: "unat ((ucast (slot_of td t) + of_nat k) * ?s) = (?c + k) * slot_nat td"
    using bound by (subst unat_times) (simp_all add: uk)
  have "unat (next_delta td (slot_of td t) (t mod cycle_len td)) = (?c + k) * slot_nat td - unat t mod cycle_nat td"
    using le unfolding d by (subst unat_sub) (simp_all add: word_le_nat_alt m p)
  then show ?thesis using kP le by (intro exI [of _ k]) simp
qed

lemma next_delta_pos:
  assumes "tdma_ok td" and "True \<in> set (td_owns td)"
  shows "next_delta td (slot_of td t) (t mod cycle_len td) \<noteq> 0"
proof
  assume z: "next_delta td (slot_of td t) (t mod cycle_len td) = 0"
  obtain k where k: "1 \<le> k" and
    e: "unat t mod cycle_nat td = (unat (slot_of td t) + k) * slot_nat td"
    using next_delta_some [OF assms, of t] z by auto
  have "(unat (slot_of td t) + k) * slot_nat td div slot_nat td = unat (slot_of td t)"
    unfolding e [symmetric] by (simp only: unat_slot_of(1) [OF assms(1)])
  then show False using k tdma_okD(2) [OF assms(1)] by simp
qed

lemma next_delta_zero_iff:
  "tdma_ok td \<Longrightarrow> next_delta td (slot_of td t) (t mod cycle_len td) = 0 \<longleftrightarrow> True \<notin> set (td_owns td)"
  using next_delta_none next_delta_pos by blast

text \<open>Only the two wait counters change.\<close>

definition same_schedule :: "TDMAScheduler \<Rightarrow> TDMAScheduler \<Rightarrow> bool" where
  "same_schedule a b \<longleftrightarrow> td_sched a = td_sched b \<and> td_owns a = td_owns b \<and> td_party a = td_party b \<and> td_disabled a = td_disabled b \<and>
     td_in_slot_sends a = td_in_slot_sends b \<and> td_out_of_slot_sends a = td_out_of_slot_sends b \<and>
     td_boundary_spans a = td_boundary_spans b \<and> td_slot_hist a = td_slot_hist b"

lemma same_schedule_refl [simp]: "same_schedule a a"
  by (simp add: same_schedule_def)

lemma same_schedule_waits [simp]: "same_schedule (td\<lparr>td_waits := w, td_ns_waited := x\<rparr>) b = same_schedule td b"
  by (simp add: same_schedule_def)

lemma same_schedule_cong:
  assumes "same_schedule a b"
  shows "tdma_ok a = tdma_ok b" "slot_of a t = slot_of b t" "owns_slot a i = owns_slot b i" "cycle_len a = cycle_len b"
    "in_own_window g a t = in_own_window g b t" "next_delta a i pos = next_delta b i pos"
  using assms by (auto simp: same_schedule_def tdma_ok_def slot_of_def owns_slot_def cycle_len_def in_own_window_def
      next_delta_def Let_def simp del: upt_Suc cong: option.case_cong)

lemma wait_loop_result:
  assumes ret: "wait_loop clock guard k td = Some r"
  shows "k < fst r \<and> same_schedule td (snd r) \<and> (in_own_window guard td (clock (fst r - 1)) \<or>
    next_delta td (slot_of td (clock (fst r - 1))) (clock (fst r - 1) mod cycle_len td) = 0)"
proof (rule wait_loop.raw_induct [where P = "\<lambda>clock guard k td r. k < fst r \<and> same_schedule td (snd r) \<and>
    (in_own_window guard td (clock (fst r - 1)) \<or>
     next_delta td (slot_of td (clock (fst r - 1))) (clock (fst r - 1) mod cycle_len td) = 0)", OF _ ret])
  fix wl and clock :: "nat \<Rightarrow> u64" and guard k td r
  let ?td = "td\<lparr>td_waits := td_waits td + 1, td_ns_waited := td_ns_waited td +
    next_delta td (slot_of td (clock k)) (clock k mod cycle_len td)\<rparr>"
  let ?at = "\<lambda>td i. in_own_window guard td (clock i) \<or> next_delta td (slot_of td (clock i)) (clock i mod cycle_len td) = 0"
  assume IH: "\<And>clock guard k td r. wl clock guard k td = Some r \<Longrightarrow>
      k < fst r \<and> same_schedule td (snd r) \<and> (in_own_window guard td (clock (fst r - 1)) \<or>
      next_delta td (slot_of td (clock (fst r - 1))) (clock (fst r - 1) mod cycle_len td) = 0)"
    and step: "(let now = clock k
      in if in_own_window guard td now then Some (Suc k, td)
         else let delta = next_delta td (slot_of td now) (now mod cycle_len td)
              in if delta = 0 then Some (Suc k, td)
                 else wl clock guard (Suc k)
                        (td\<lparr>td_waits := td_waits td + 1, td_ns_waited := td_ns_waited td + delta\<rparr>)) = Some r"
  show "k < fst r \<and> same_schedule td (snd r) \<and> ?at td (fst r - 1)"
  proof (cases "?at td k")
    case True
    with step have "r = (Suc k, td)" by (auto simp: Let_def split: if_splits)
    with True show ?thesis by simp
  next
    case False
    with step have "wl clock guard (Suc k) ?td = Some r" by (simp add: Let_def)
    note ih = IH [OF this]
    have s: "same_schedule ?td td" by simp
    from ih have "Suc k < fst r" "same_schedule td (snd r)" by simp_all
    with ih show ?thesis by (simp add: same_schedule_cong [OF s])
  qed
qed

text \<open>The reading at which the wait ended.\<close>

lemma wait_loop_owned:
  assumes ok: "tdma_ok td" and own: "True \<in> set (td_owns td)" and ret: "wait_loop clock guard 0 td = Some (k, td')"
  shows "in_own_window guard td (clock (k - 1))"
  using wait_loop_result [OF ret] next_delta_pos [OF ok own] by auto

text \<open>With a guard band of a slot or more there is no window to send in.\<close>

lemma wait_loop_stuck:
  assumes ok: "tdma_ok td" and own: "True \<in> set (td_owns td)" and guard: "slot_ns (td_sched td) \<le> guard"
  shows "wait_loop clock guard 0 td = None"
proof (cases "wait_loop clock guard 0 td")
  case (Some r)
  then have "in_own_window guard td (clock (fst r - 1))"
    using wait_loop_owned [OF ok own, of clock guard "fst r" "snd r"] by simp
  then have "unat guard < slot_nat td"
    unfolding in_own_window_iff [OF ok] by (elim conjE) (rule less_le_trans, assumption, rule diff_le_self)
  with guard show ?thesis by (simp add: word_le_nat_alt)
qed simp

text \<open>A sleep that ends \<open>e\<close> after its target, inside the window, is the last one.\<close>

lemma slept_into_window:
  assumes ok: "tdma_ok td" and own: "True \<in> set (td_owns td)"
    and t': "unat t' = unat t + unat (next_delta td (slot_of td t) (t mod cycle_len td)) + e"
    and e: "e + unat guard < slot_nat td"
  shows "in_own_window guard td t'"
proof -
  let ?n = "length (td_owns td)" and ?s = "slot_nat td" and ?d = "unat (next_delta td (slot_of td t) (t mod cycle_len td))"
  obtain k where k: "td_owns td ! ((unat (slot_of td t) + k) mod ?n)" and
    d: "?d + unat t mod (?s * ?n) = (unat (slot_of td t) + k) * ?s"
    using next_delta_some [OF ok own, of t] by blast
  have "unat t' = unat t div (?s * ?n) * (?s * ?n) + ((?d + unat t mod (?s * ?n)) + e)"
    using div_mult_mod_eq [of "unat t" "?s * ?n"] by (simp only: t')
  then have eq: "unat t' = ?s * (unat t div (?s * ?n) * ?n + (unat (slot_of td t) + k)) + e"
    by (simp only: d) (simp add: algebra_simps)
  have "unat t' mod (?s * ?n) div ?s = unat t' div ?s mod ?n"
    using tdma_okD(2) [OF ok] by (simp add: mod_mult2_eq)
  also have "\<dots> = (unat (slot_of td t) + k) mod ?n" using e by (simp add: eq)
  finally have "unat t' mod (?s * ?n) div ?s = (unat (slot_of td t) + k) mod ?n" .
  moreover have "unat t' mod ?s = e" using e by (simp add: eq)
  ultimately show ?thesis using k e by (simp add: in_own_window_iff [OF ok] owns_slot_of [OF ok])
qed

lemma wait_loop_two_readings:
  assumes ok: "tdma_ok td" and own: "True \<in> set (td_owns td)"
    and slept: "unat (clock 1) = unat (clock 0) + unat (next_delta td (slot_of td (clock 0)) (clock 0 mod cycle_len td)) + e"
    and e: "e + unat guard < slot_nat td"
  shows "\<exists>k td'. wait_loop clock guard 0 td = Some (k, td') \<and> k \<le> 2"
proof (cases "in_own_window guard td (clock 0)")
  case True
  then show ?thesis by (subst wait_loop.simps) (simp add: Let_def)
next
  case False
  let ?td = "td\<lparr>td_waits := td_waits td + 1, td_ns_waited := td_ns_waited td +
    next_delta td (slot_of td (clock 0)) (clock 0 mod cycle_len td)\<rparr>"
  have "wait_loop clock guard 0 td = wait_loop clock guard 1 ?td"
    using False next_delta_pos [OF ok own] by (subst wait_loop.simps) (simp add: Let_def)
  also have "\<dots> = Some (2, ?td)"
    using slept_into_window [OF ok own slept e] same_schedule_cong(5) [of ?td td]
    by (subst wait_loop.simps) (simp add: Let_def numeral_2_eq_2)
  finally show ?thesis by simp
qed

subsection \<open>Schedules of the constructor\<close>

lemma TDMAScheduler_new_sel:
  assumes "sched_ok sched"
  shows "td_sched (TDMAScheduler_new p ts sched d) = sched" "td_disabled (TDMAScheduler_new p ts sched d) = (d \<or> \<not> ts)"
    "td_owns (TDMAScheduler_new p ts sched d) = map (\<lambda>owners. p \<in> set owners) (slot_owners sched)"
    "td_slot_hist (TDMAScheduler_new p ts sched d) = replicate (length (slot_owners sched)) 0"
  using assms by (simp_all add: TDMAScheduler_new_def Let_def)

definition sched_fits :: "TDMASchedule \<Rightarrow> bool" where
  "sched_fits s \<longleftrightarrow> sched_ok s \<and> length (slot_owners s) < 2 ^ 32 \<and> unat (slot_ns s) * (2 * length (slot_owners s)) < 2 ^ 64"

lemma tdma_ok_new: "sched_fits sched \<Longrightarrow> tdma_ok (TDMAScheduler_new p ts sched d)"
  by (simp add: sched_fits_def tdma_ok_def TDMAScheduler_new_sel) (simp add: sched_ok_def)

lemma owns_new:
  "sched_fits sched \<Longrightarrow> True \<in> set (td_owns (TDMAScheduler_new p ts sched d)) \<longleftrightarrow> (\<exists>owners\<in>set (slot_owners sched). p \<in> set owners)"
  by (auto simp: sched_fits_def TDMAScheduler_new_sel)

text \<open>The owners of the slot that \<open>t\<close> lies in.\<close>

definition owners_at :: "TDMASchedule \<Rightarrow> u64 \<Rightarrow> int list" where
  "owners_at s t = slot_owners s ! (unat t mod (unat (slot_ns s) * length (slot_owners s)) div unat (slot_ns s))"

lemma own_window_new:
  assumes fits: "sched_fits sched" and w: "in_own_window guard (TDMAScheduler_new p ts sched d) t"
  shows "p \<in> set (owners_at sched t)" "unat guard < unat (slot_ns sched) - unat t mod unat (slot_ns sched)"
proof -
  let ?td = "TDMAScheduler_new p ts sched d"
  have s: "sched_ok sched" using fits by (simp add: sched_fits_def)
  note sel = TDMAScheduler_new_sel [OF s]
  note ok = tdma_ok_new [OF fits, of p ts d]
  have "owns_slot ?td (slot_of ?td t)" and g: "unat guard < slot_nat ?td - unat t mod slot_nat ?td"
    using w by (simp_all add: in_own_window_iff [OF ok])
  then show "p \<in> set (owners_at sched t)"
    using unat_slot_of(2) [OF ok, of t] by (simp add: owns_slot_of [OF ok] sel owners_at_def)
  show "unat guard < unat (slot_ns sched) - unat t mod unat (slot_ns sched)" using g by (simp add: sel)
qed

lemma round_robin_sel [simp]:
  "slot_owners (round_robin nP slot) = map (\<lambda>i. [int i]) [0..<nP]" "slot_ns (round_robin nP slot) = slot"
  by (simp_all add: round_robin_def)

lemma round_robin_owners:
  assumes "0 < nP" and "0 < slot"
  shows "owners_at (round_robin nP slot) t = [int (unat t div unat slot mod nP)]"
proof -
  have s: "0 < unat slot" using assms(2) by (simp add: unat_gt_0 word_neq_0_conv)
  have "unat t mod (unat slot * nP) div unat slot = unat t div unat slot mod nP"
    using s by (simp add: mod_mult2_eq)
  then show ?thesis using assms(1) by (simp add: owners_at_def)
qed

subsection \<open>What the schedule guarantees\<close>

lemma wait_returns_in_own_slot_aux:
  assumes fits: "sched_fits sched" and own: "\<exists>owners\<in>set (slot_owners sched). p \<in> set owners"
    and ret: "wait_for_slot clock guard (TDMAScheduler_new p True sched False) = Some (k, td')"
  shows "in_own_window guard (TDMAScheduler_new p True sched False) (clock (k - 1))"
proof -
  have "wait_loop clock guard 0 (TDMAScheduler_new p True sched False) = Some (k, td')"
    using ret fits by (simp add: wait_for_slot_def TDMAScheduler_new_sel sched_fits_def)
  moreover have "True \<in> set (td_owns (TDMAScheduler_new p True sched False))" using own owns_new [OF fits] by simp
  ultimately show ?thesis using wait_loop_owned [OF tdma_ok_new [OF fits]] by blast
qed

text \<open>
  C35: when \<open>wait_for_slot\<close> returns, for a party that owns a slot of the schedule, the last reading of
  the shared clock lies in a slot that the party owns.
\<close>

theorem wait_returns_in_own_slot:
  assumes fits: "sched_fits sched" and own: "\<exists>owners\<in>set (slot_owners sched). p \<in> set owners"
    and ret: "wait_for_slot clock guard (TDMAScheduler_new p True sched False) = Some (k, td')"
  shows "p \<in> set (owners_at sched (clock (k - 1)))"
  by (rule own_window_new [OF fits wait_returns_in_own_slot_aux [OF assms]])

theorem wait_returns_in_own_slot_witness:
  "1 \<in> set (owners_at (round_robin 2 100) ((\<lambda>k. if k = 0 then 20 else 103) (2 - 1 :: nat)))"
proof (rule wait_returns_in_own_slot)
  show "wait_for_slot (\<lambda>k. if k = 0 then 20 else 103) 10 (TDMAScheduler_new 1 True (round_robin 2 100) False) =
    Some (2, (TDMAScheduler_new 1 True (round_robin 2 100) False)\<lparr>td_waits := 1, td_ns_waited := 80\<rparr>)"
    by code_simp
qed (simp_all add: sched_fits_def sched_ok_def)

text \<open>
  C32: under the round-robin schedule two parties whose waits have both returned, at clock readings in the
  same slot, are the same party: at most one party transmits in a slot.
\<close>

theorem round_robin_exclusive:
  assumes n: "0 < nP" "nP < 2 ^ 32" "0 < slot" "unat slot * (2 * nP) < 2 ^ 64" "p < nP" "q < nP"
    and p: "wait_for_slot cp gp (TDMAScheduler_new (int p) True (round_robin nP slot) False) = Some (k, tdp)"
    and q: "wait_for_slot cq gq (TDMAScheduler_new (int q) True (round_robin nP slot) False) = Some (l, tdq)"
    and same: "cp (k - 1) div slot = cq (l - 1) div slot"
  shows "p = q"
proof -
  have fits: "sched_fits (round_robin nP slot)" using n by (simp add: sched_fits_def sched_ok_def)
  have "int p \<in> set (owners_at (round_robin nP slot) (cp (k - 1)))" "int q \<in> set (owners_at (round_robin nP slot) (cq (l - 1)))"
    using own_window_new(1) [OF fits wait_returns_in_own_slot_aux [OF fits _ p]]
      own_window_new(1) [OF fits wait_returns_in_own_slot_aux [OF fits _ q]] n(5,6) by auto
  then have "p = unat (cp (k - 1)) div unat slot mod nP" "q = unat (cq (l - 1)) div unat slot mod nP"
    by (simp_all add: round_robin_owners n)
  then show ?thesis using same by (simp flip: unat_div_distrib)
qed

lemma round_robin_returns:
  "wait_for_slot (\<lambda>k. if k = 0 then 20 else 103) 10 (TDMAScheduler_new (int 1) True (round_robin 2 100) False) =
     Some (2, (TDMAScheduler_new (int 1) True (round_robin 2 100) False)\<lparr>td_waits := 1, td_ns_waited := 80\<rparr>)"
  by code_simp

theorem round_robin_exclusive_witness:
  "wait_for_slot (\<lambda>k. if k = 0 then 20 else 103) 10 (TDMAScheduler_new (int 1) True (round_robin 2 100) False) \<noteq> None \<and> (1::nat) = 1"
proof
  show "(1::nat) = 1"
    by (rule round_robin_exclusive [of 2 100 1 1, OF _ _ _ _ _ _ round_robin_returns round_robin_returns]) simp_all
qed (simp only: round_robin_returns option.distinct not_False_eq_True)

text \<open>
  C34: with a guard band of at least one slot (\<open>TDMA_GUARD_NS\<close>, 1 ms by default, against \<open>TDMA_SLOT_NS\<close>) a
  party that owns a slot never returns from \<open>wait_for_slot\<close>, whatever the clock reads.
\<close>

theorem guard_of_a_slot_never_returns:
  assumes "sched_fits sched" and "\<exists>owners\<in>set (slot_owners sched). p \<in> set owners" and "slot_ns sched \<le> guard"
  shows "wait_for_slot clock guard (TDMAScheduler_new p True sched False) = None"
proof -
  have "sched_ok sched" using assms(1) by (simp add: sched_fits_def)
  then show ?thesis
    using wait_loop_stuck [OF tdma_ok_new [OF assms(1)], of p True False guard clock] owns_new [OF assms(1)] assms(2,3)
    by (simp add: wait_for_slot_def TDMAScheduler_new_sel)
qed

theorem guard_of_a_slot_never_returns_witness:
  "wait_for_slot (\<lambda>k. of_nat k * 250000) 1000000 (TDMAScheduler_new 0 True (round_robin 4 1000000) False) = None"
  by (rule guard_of_a_slot_never_returns) (simp_all add: sched_fits_def sched_ok_def)

text \<open>
  C33: if the sleep ends at most \<open>e\<close> after its target, with \<open>e\<close> and the guard band together inside a slot, then
  \<open>wait_for_slot\<close> returns, after at most two readings of the clock.
\<close>

theorem wait_returns_after_one_sleep:
  assumes fits: "sched_fits sched" and own: "\<exists>owners\<in>set (slot_owners sched). p \<in> set owners"
    and td: "td = TDMAScheduler_new p True sched False"
    and slept: "unat (clock 1) = unat (clock 0) + unat (next_delta td (slot_of td (clock 0)) (clock 0 mod cycle_len td)) + e"
    and e: "e + unat guard < unat (slot_ns sched)"
  shows "\<exists>k td'. wait_for_slot clock guard td = Some (k, td') \<and> k \<le> 2"
proof -
  have s: "sched_ok sched" using fits by (simp add: sched_fits_def)
  have "\<exists>k td'. wait_loop clock guard 0 td = Some (k, td') \<and> k \<le> 2"
    by (rule wait_loop_two_readings [OF _ _ slept])
       (use tdma_ok_new [OF fits] owns_new [OF fits] own e s in \<open>simp_all add: td TDMAScheduler_new_sel\<close>)
  then show ?thesis using s by (simp add: wait_for_slot_def td TDMAScheduler_new_sel)
qed

theorem wait_returns_after_one_sleep_witness:
  "\<exists>k td'. wait_for_slot (\<lambda>k. if k = 0 then 20 else 103) 10 (TDMAScheduler_new 1 True (round_robin 2 100) False) =
     Some (k, td') \<and> k \<le> 2"
proof (rule wait_returns_after_one_sleep [where e = 3 and p = 1 and sched = "round_robin 2 100"])
  show "unat (if (1::nat) = 0 then 20 else 103 :: u64) =
    unat (if (0::nat) = 0 then 20 else 103 :: u64) +
    unat (next_delta (TDMAScheduler_new 1 True (round_robin 2 100) False)
      (slot_of (TDMAScheduler_new 1 True (round_robin 2 100) False) (if (0::nat) = 0 then 20 else 103))
      ((if (0::nat) = 0 then 20 else 103) mod cycle_len (TDMAScheduler_new 1 True (round_robin 2 100) False))) + 3"
    by code_simp
qed (simp_all add: sched_fits_def sched_ok_def)

subsection \<open>Send accounting\<close>

text \<open>
  Every send recorded by \<open>mark_post\<close> is counted in one slot of the histogram and either as in its slot or as
  out of it; a send that spans a boundary is out.
\<close>

definition accounted :: "TDMAScheduler \<Rightarrow> bool" where
  "accounted td \<longleftrightarrow> length (td_slot_hist td) = length (td_owns td) \<and>
     sum_list (td_slot_hist td) = td_in_slot_sends td + td_out_of_slot_sends td"

lemma sum_list_incr: "i < length xs \<Longrightarrow> sum_list (xs[i := xs ! i + 1]) = sum_list xs + (1::u64)"
  by (induction xs arbitrary: i) (auto simp: add_ac split: nat.split)

lemma mark_post_accounted:
  assumes ok: "tdma_ok td" and acc: "accounted td"
  shows "accounted (mark_post t_post t_pre td)"
proof -
  have "unat (slot_of td t_pre) < length (td_slot_hist td)"
    using unat_slot_of [OF ok, of t_pre] acc by (simp add: accounted_def)
  moreover from acc have l: "length (td_slot_hist td) = length (td_owns td)"
    and sum: "sum_list (td_slot_hist td) = td_in_slot_sends td + td_out_of_slot_sends td"
    by (simp_all add: accounted_def)
  ultimately have "sum_list ((td_slot_hist td)[unat (slot_of td t_pre) := td_slot_hist td ! unat (slot_of td t_pre) + 1]) =
      td_in_slot_sends td + td_out_of_slot_sends td + 1"
    by (simp add: sum_list_incr)
  then show ?thesis using l sum by (auto simp: mark_post_def accounted_def Let_def)
qed

lemma mark_post_ok: "tdma_ok td \<Longrightarrow> tdma_ok (mark_post t_post t_pre td)"
  unfolding mark_post_def tdma_ok_def Let_def by (simp split del: if_split cong: if_cong) (auto split: if_splits)

text \<open>
  After any sequence of recorded sends the per-slot counts add up to the sends in and out of their
  slot, modulo \<open>2 ^ 64\<close>.
\<close>

lemma sends_are_accounted:
  assumes fits: "sched_fits sched"
  shows "accounted (fold (\<lambda>(pre, post). mark_post post pre) sends (TDMAScheduler_new p True sched False))"
proof -
  have "tdma_ok td \<Longrightarrow> accounted td \<Longrightarrow> accounted (fold (\<lambda>(pre, post). mark_post post pre) sends td)" for td
    by (induction sends arbitrary: td) (auto simp: mark_post_accounted mark_post_ok)
  moreover have "accounted (TDMAScheduler_new p True sched False)"
    using fits by (simp add: accounted_def sched_fits_def TDMAScheduler_new_def Let_def sum_list_replicate)
  ultimately show ?thesis using tdma_ok_new [OF fits] by blast
qed

end
