(* ===== verification/NetMP.thy ===== *)
theory NetMP
  imports BoolRings Bus_Properties Tdma
begin

section \<open>The network party (io/netmp.h)\<close>

text \<open>
  \<open>NetIOMP\<close> holds the bus and the scheduler of one party and offers vectors of field elements and of
  booleans on top of the bus's bytes. Environment variables are arguments of the constructor. A call of
  \<open>send\<close> takes the results of its system calls and returns the datagrams it put on the wire; a call of
  \<open>recv\<close> that would wait returns \<open>Got_blocked\<close>. \<open>flush\<close> is empty in the source and \<open>sync\<close> is \<open>sync_all\<close> of
  the bus. Party ids are small, so \<open>party + offset\<close> does not overflow an \<open>int\<close>.
\<close>

subsection \<open>State and construction\<close>

record NetIOMP =
  np_party :: int
  np_nP :: nat
  np_sent :: "bool list"
  np_scheduler :: "TDMAScheduler option"
  np_bus :: BcastBus

text \<open>
  The environment: is \<open>TDMA_DISABLED\<close> set, what \<open>TDMA_SCHEDULE\<close> parses to, and \<open>TDMA_SLOT_NS\<close>,
  \<open>MPC_PAIR_KEY_SEED\<close>, \<open>TDMA_RETX_K_SEND\<close> and \<open>TDMA_RETX_K_RECV\<close>.
\<close>

record net_env =
  ev_disabled :: bool
  ev_schedule :: "TDMASchedule option"
  ev_slot_ns :: "u64 option"
  ev_key_seed :: "u64 option"
  ev_retx_send :: "u32 option"
  ev_retx_recv :: "u32 option"

definition net_schedule :: "net_env \<Rightarrow> nat \<Rightarrow> TDMASchedule" where
  "net_schedule ev nP = (case ev_schedule ev of Some sched \<Rightarrow> sched
     | None \<Rightarrow> round_robin nP (case ev_slot_ns ev of Some ns \<Rightarrow> ns | None \<Rightarrow> 1048544))"

definition net_scheduler :: "net_env \<Rightarrow> bool \<Rightarrow> nat \<Rightarrow> nat \<Rightarrow> TDMAScheduler option" where
  "net_scheduler ev ts_ok party nP =
     (if ev_disabled ev then None else Some (TDMAScheduler_new (int party) ts_ok (net_schedule ev nP) False))"

definition NetIOMP_new :: "(string \<Rightarrow> bytes) \<Rightarrow> net_env \<Rightarrow> bool \<Rightarrow> u32 list \<Rightarrow> nat \<Rightarrow> nat \<Rightarrow> NetIOMP" where
  "NetIOMP_new sha256 ev ts_ok ips party nP =
     (let scheduler = net_scheduler ev ts_ok party nP;
          slots = map_option (\<lambda>td. (slot_ns (td_sched td), of_nat (length (slot_owners (td_sched td))))) scheduler;
          key_seed = (case ev_key_seed ev of Some s \<Rightarrow> s | None \<Rightarrow> 200);
          bus = BcastBus_new sha256 party nP ips slots key_seed;
          bus = (case ev_retx_send ev of Some k \<Rightarrow> set_retx_k_send k bus | None \<Rightarrow> bus);
          bus = (case ev_retx_recv ev of Some k \<Rightarrow> set_retx_k_recv k bus | None \<Rightarrow> bus)
      in \<lparr>np_party = int party, np_nP = nP, np_sent = replicate nP False, np_scheduler = scheduler, np_bus = bus\<rparr>)"

definition net_count :: "NetIOMP \<Rightarrow> int" where
  "net_count net = sint (app_bytes_sent (np_bus net))"

definition net_resetStats :: "NetIOMP \<Rightarrow> NetIOMP" where
  "net_resetStats net = net\<lparr>np_bus := reset_stats (np_bus net)\<rparr>"

subsection \<open>Bytes\<close>

text \<open>\<open>Net_crash\<close> is a write outside of \<open>sent\<close> or of a buffer, \<open>Net_threw\<close> an exception of the bus.\<close>

datatype net_result = Net_skipped | Net_ok | Net_threw | Net_running | Net_crash

definition net_send ::
  "(bytes \<Rightarrow> bytes \<Rightarrow> nat \<Rightarrow> u8) \<Rightarrow> int \<Rightarrow> bytes \<Rightarrow> io_result list \<Rightarrow> NetIOMP \<Rightarrow> NetIOMP \<times> bytes list \<times> net_result" where
  "net_send ks dst data rs net =
     (if dst \<noteq> -1 \<and> dst \<noteq> np_party net
      then let (b, fs, r) = BcastBus_send ks dst data rs (np_bus net); net = net\<lparr>np_bus := b\<rparr>
           in case r of Send_poisoned \<Rightarrow> (net, fs, Net_threw)
              | Send_result Send_error \<Rightarrow> (net, fs, Net_threw)
              | Send_result Send_running \<Rightarrow> (net, fs, Net_running)
              | _ \<Rightarrow> if 0 \<le> dst \<and> nat dst < length (np_sent net)
                     then (net\<lparr>np_sent := (np_sent net)[nat dst := True]\<rparr>, fs, Net_ok)
                     else (net, fs, Net_crash)
      else (net, [], Net_skipped))"

datatype 'a got = Got 'a | Got_blocked | Got_poisoned | Got_crash

text \<open>A skipped \<open>recv\<close> leaves the buffer as it is: \<open>buf\<close>.\<close>

definition net_recv :: "bytes \<Rightarrow> int \<Rightarrow> nat \<Rightarrow> NetIOMP \<Rightarrow> NetIOMP \<times> bytes got" where
  "net_recv buf src len net =
     (if src \<noteq> -1 \<and> src \<noteq> np_party net
      then let (b, r) = BcastBus_recv src len (np_bus net)
           in (net\<lparr>np_bus := b\<rparr>, case r of Recv_ignored \<Rightarrow> Got buf | Recv_blocked \<Rightarrow> Got_blocked
                 | Recv_poisoned \<Rightarrow> Got_poisoned | Recv_crash \<Rightarrow> Got_crash | Recv_data bs \<Rightarrow> Got bs)
      else (net, Got buf))"

subsection \<open>Field elements\<close>

text \<open>
  NTL's conversions are parameters: \<open>rep\<close> for \<open>conv<ZZ>\<close> and \<open>conv\<close> for \<open>conv<ZZ_p>\<close>. \<open>BytesFromZZ\<close> writes the
  low \<open>FIELDSIZE\<close> bytes, the lowest first, and \<open>ZZFromBytes\<close> reads them. The argument \<open>len\<close> counts bytes.
\<close>

abbreviation (input) FIELDSIZE :: nat where "FIELDSIZE \<equiv> 8"

definition num_elems :: "nat \<Rightarrow> nat" where
  "num_elems len = (len + FIELDSIZE - 1) div FIELDSIZE"

definition field_bytes :: "('r \<Rightarrow> int) \<Rightarrow> 'r list \<Rightarrow> bytes" where
  "field_bytes rep xs = concat (map (\<lambda>x. le_bytes FIELDSIZE (of_int (rep x) :: u64)) xs)"

definition net_send_ZZp ::
  "(bytes \<Rightarrow> bytes \<Rightarrow> nat \<Rightarrow> u8) \<Rightarrow> ('r \<Rightarrow> int) \<Rightarrow> int \<Rightarrow> 'r list \<Rightarrow> nat \<Rightarrow> io_result list \<Rightarrow> NetIOMP \<Rightarrow>
   NetIOMP \<times> bytes list \<times> net_result" where
  "net_send_ZZp ks rep dst data len rs net =
     (let num = num_elems len
      in if len < num * FIELDSIZE \<or> length data < num then (net, [], Net_crash)
         else net_send ks dst (field_bytes rep (take num data)) rs net)"

definition field_elems :: "(int \<Rightarrow> 'r) \<Rightarrow> nat \<Rightarrow> bytes \<Rightarrow> 'r list" where
  "field_elems conv num bs = map (\<lambda>i. conv (uint (le_get (take FIELDSIZE (drop (i * FIELDSIZE) bs)) :: u64))) [0..<num]"

definition net_recv_ZZp :: "(int \<Rightarrow> 'r) \<Rightarrow> int \<Rightarrow> nat \<Rightarrow> NetIOMP \<Rightarrow> NetIOMP \<times> 'r list got" where
  "net_recv_ZZp conv src len net =
     (let (net, r) = net_recv (replicate len 0) src len net; num = num_elems len
      in (net, case r of Got bs \<Rightarrow> if len < num * FIELDSIZE then Got_crash else Got (field_elems conv num bs)
            | Got_blocked \<Rightarrow> Got_blocked | Got_poisoned \<Rightarrow> Got_poisoned | Got_crash \<Rightarrow> Got_crash))"

subsection \<open>Booleans\<close>

text \<open>One message of eight bytes per 64 booleans; \<open>rss\<close> are the system call results of each message.\<close>

function net_sendBool ::
  "(bytes \<Rightarrow> bytes \<Rightarrow> nat \<Rightarrow> u8) \<Rightarrow> int \<Rightarrow> bool list \<Rightarrow> io_result list list \<Rightarrow> NetIOMP \<Rightarrow> NetIOMP \<times> bytes list \<times> net_result" where
  "net_sendBool ks dst data rss net =
     (if data = [] then (net, [], Net_ok)
      else case rss of [] \<Rightarrow> (net, [], Net_running)
      | rs # rss \<Rightarrow> let tmp = pack_word 0 0 (take 64 data) :: u64; (net, fs, r) = net_send ks dst (le_bytes 8 tmp) rs net
          in if r = Net_ok \<or> r = Net_skipped
             then let (net, fs', r) = net_sendBool ks dst (drop 64 data) rss net in (net, fs @ fs', r)
             else (net, fs, r))"
  by pat_completeness auto
termination
  by (relation "measure (\<lambda>(ks, dst, data, rss, net). length rss)") auto

function net_recvBool :: "int \<Rightarrow> nat \<Rightarrow> NetIOMP \<Rightarrow> NetIOMP \<times> bool list got" where
  "net_recvBool src n net =
     (if n = 0 then (net, Got [])
      else let (net, r) = net_recv (replicate 8 0) src 8 net
           in case r of Got bs \<Rightarrow>
                (let xs = unpack_word (min 64 n) (le_get bs :: u64); (net, r) = net_recvBool src (n - 64) net
                 in (net, case r of Got ys \<Rightarrow> Got (xs @ ys) | e \<Rightarrow> e))
              | Got_blocked \<Rightarrow> (net, Got_blocked) | Got_poisoned \<Rightarrow> (net, Got_poisoned) | Got_crash \<Rightarrow> (net, Got_crash))"
  by pat_completeness auto
termination
  by (relation "measure (\<lambda>(src, n, net). n)") auto

declare net_sendBool.simps [simp del] net_recvBool.simps [simp del]

subsection \<open>Relative parties\<close>

text \<open>C++ divides towards zero, so the remainder has the sign of \<open>party + offset\<close>.\<close>

definition c_rem :: "int \<Rightarrow> int \<Rightarrow> int" where
  "c_rem a n = (if a < 0 then - ((- a) mod n) else a mod n)"

definition relative :: "int \<Rightarrow> NetIOMP \<Rightarrow> int" where
  "relative offset net =
     (let dst = c_rem (np_party net + offset) (int (np_nP net)) in if dst < 0 then dst + int (np_nP net) else dst)"

definition net_sendRelative where
  "net_sendRelative ks offset data rs net = net_send ks (relative offset net) data rs net"

definition net_sendBoolRelative where
  "net_sendBoolRelative ks offset data rss net = net_sendBool ks (relative offset net) data rss net"

definition net_recvRelative where
  "net_recvRelative buf offset len net = net_recv buf (relative offset net) len net"

definition net_recvRelative_bool where
  "net_recvRelative_bool offset n net = net_recvBool (relative offset net) n net"

subsection \<open>Messages\<close>

lemma le_get_64 [simp]: "le_get (le_bytes 8 w) = (w :: u64)"
  by (rule le_get_le_bytes) simp

lemma num_elems_mult [simp]: "num_elems (8 * n) = n"
  by (simp add: num_elems_def)

lemma length_field_bytes [simp]: "length (field_bytes rep xs) = 8 * length xs"
  by (induction xs) (simp_all add: field_bytes_def)

lemma chunk_drop: "take 8 (drop (i * 8) (concat (map (\<lambda>x. le_bytes 8 (f x)) xs))) = le_bytes 8 (f (xs ! i))"
  if "i < length xs"
  using that
proof (induction xs arbitrary: i)
  case (Cons x xs)
  then show ?case by (cases i) simp_all
qed simp

text \<open>NTL's documented conversions: \<open>conv<ZZ>\<close> gives the representative, \<open>conv<ZZ_p>\<close> reduces it.\<close>

definition ntl_conv :: "('r \<Rightarrow> int) \<Rightarrow> (int \<Rightarrow> 'r) \<Rightarrow> bool" where
  "ntl_conv rep conv \<longleftrightarrow> (\<forall>x. 0 \<le> rep x \<and> rep x < 2 ^ 64 \<and> conv (rep x) = x)"

lemma field_elems_bytes:
  assumes "ntl_conv rep conv"
  shows "field_elems conv (length xs) (field_bytes rep xs) = xs"
proof (rule nth_equalityI)
  fix i assume "i < length (field_elems conv (length xs) (field_bytes rep xs))"
  then have i: "i < length xs" by (simp add: field_elems_def)
  have "uint (of_int (rep x) :: u64) = rep x" for x
    using assms by (simp add: ntl_conv_def uint_word_of_int_eq take_bit_int_eq_self)
  then show "field_elems conv (length xs) (field_bytes rep xs) ! i = xs ! i"
    using i assms unfolding field_elems_def field_bytes_def by (simp add: chunk_drop [OF i] ntl_conv_def)
qed (simp add: field_elems_def)

text \<open>The queue of one sender, as \<open>recv\<close> sees it.\<close>

definition queued :: "NetIOMP \<Rightarrow> int \<Rightarrow> bytes \<Rightarrow> bool" where
  "queued net src bs \<longleftrightarrow> (let rs = bus_rx (np_bus net) ! nat src
     in 0 \<le> src \<and> src < int (bus_nP (np_bus net)) \<and> length (bus_rx (np_bus net)) = bus_nP (np_bus net) \<and>
        src \<noteq> int (unat (self_id (np_bus net))) \<and> src \<noteq> np_party net \<and>
        \<not> rx_poisoned rs \<and> queue_ok rs \<and> rx_data rs = bs)"

lemma net_recv_queued:
  assumes "queued net src (m @ rest)"
  shows "\<exists>net'. net_recv buf src (length m) net = (net', Got m) \<and> queued net' src rest"
proof -
  let ?b = "np_bus net"
  let ?rs = "bus_rx ?b ! nat src"
  have q: "0 \<le> src" "src < int (bus_nP ?b)" "length (bus_rx ?b) = bus_nP ?b" "src \<noteq> int (unat (self_id ?b))"
    "src \<noteq> np_party net" "\<not> rx_poisoned ?rs" "queue_ok ?rs" "rx_data ?rs = m @ rest"
    using assms by (simp_all add: queued_def Let_def)
  define cs where "cs = snd (the (take_chunks (rx_chunks ?rs) (length m)))"
  define rs' where "rs' = ?rs\<lparr>rx_chunks := cs, rx_bytes := length rest\<rparr>"
  have c: "chunks_ok cs \<and> chunk_data cs = rest"
    using rx_recv_cases(2) [OF q(7), of "length m"] q(8) by (simp add: cs_def)
  have "rx_recv (length m) ?rs = Rx_data m rs'"
    using rx_recv_cases(1) [OF q(7), of "length m"] q(6,8) by (simp add: cs_def rs'_def)
  then have "net_recv buf src (length m) net = (net\<lparr>np_bus := upd_rx (nat src) (\<lambda>_. rs') ?b\<rparr>, Got m)"
    using q(1,2,4,5) by (simp add: net_recv_def BcastBus_recv_def)
  moreover have "queued (net\<lparr>np_bus := upd_rx (nat src) (\<lambda>_. rs') ?b\<rparr>) src rest"
    using q c by (simp add: queued_def Let_def upd_rx_def rs'_def queue_ok_def rx_data_def nat_less_iff)
  ultimately show ?thesis by blast
qed

lemma pack_words_cons: "xs \<noteq> [] \<Longrightarrow> packBool xs = pack_word 0 0 (take 64 xs) # packBool (drop 64 xs)"
  by (simp add: packBool_def pack_words.simps [of xs])

lemma packBool_Nil [simp]: "packBool [] = []"
  by (simp add: packBool_def pack_words.simps)

definition bool_msgs :: "bool list \<Rightarrow> bytes list" where
  "bool_msgs data = map (le_bytes 8) (packBool data)"

lemma bool_msgs_simps: "bool_msgs [] = []"
  "xs \<noteq> [] \<Longrightarrow> bool_msgs xs = le_bytes 8 (pack_word 0 0 (take 64 xs) :: u64) # bool_msgs (drop 64 xs)"
  by (simp_all add: bool_msgs_def pack_words_cons)

lemma net_recvBool_queued:
  "queued net src (concat (bool_msgs data) @ rest) \<Longrightarrow>
   \<exists>net'. net_recvBool src (length data) net = (net', Got data) \<and> queued net' src rest"
proof (induction data arbitrary: net rule: length_induct)
  case (1 data)
  show ?case
  proof (cases "data = []")
    case True
    then show ?thesis using "1.prems" by (simp add: net_recvBool.simps bool_msgs_simps)
  next
    case False
    let ?w = "pack_word 0 0 (take 64 data) :: u64"
    have "queued net src (le_bytes 8 ?w @ concat (bool_msgs (drop 64 data)) @ rest)"
      using "1.prems" False by (simp add: bool_msgs_simps)
    from net_recv_queued [OF this, of "replicate 8 0"]
    obtain net1 where n1: "net_recv (replicate 8 0) src 8 net = (net1, Got (le_bytes 8 ?w))"
      "queued net1 src (concat (bool_msgs (drop 64 data)) @ rest)" by auto
    have "length (drop 64 data) < length data" using False by simp
    with "1.IH" n1(2) obtain net2 where n2: "net_recvBool src (length data - 64) net1 = (net2, Got (drop 64 data))"
      "queued net2 src rest" by fastforce
    have "unpack_word (length (take 64 data)) ?w = take 64 data" by (rule unpack_pack_word) simp
    then have u: "unpack_word (min 64 (length data)) ?w = take 64 data" by (simp add: min.commute)
    have "net_recvBool src (length data) net = (net2, Got data)"
      using False n1(1) n2(1) u by (subst net_recvBool.simps) simp
    then show ?thesis using n2(2) by blast
  qed
qed

subsection \<open>Sending\<close>

lemma send_step_poisoned: "send_step ks self target r c ts = (fs, c', ts', e) \<Longrightarrow> tx_poisoned ts' = tx_poisoned ts"
  by (auto simp: send_step_def send_fragment_def Let_def buffer_frag_def split: io_result.splits prod.splits if_splits)

lemma send_loop_poisoned: "send_loop ks self target rs c ts = (fs, ts', e) \<Longrightarrow> tx_poisoned ts' = tx_poisoned ts"
proof (induction rs arbitrary: c ts fs ts' e)
  case Nil
  then show ?case by (subst (asm) send_loop.simps) (auto simp: send_finish_def split: if_splits)
next
  case (Cons r rs)
  obtain f1 c1 ts1 e1 where st: "send_step ks self target r c ts = (f1, c1, ts1, e1)" by (metis prod_cases4)
  note P = send_step_poisoned [OF st]
  obtain f2 ts2 e2 where lp: "send_loop ks self target rs c1 ts1 = (f2, ts2, e2)" by (metis prod_cases3)
  show ?case
    using Cons.prems Cons.IH [OF lp] P
    by (subst (asm) send_loop.simps) (auto simp: send_finish_def st lp split: if_splits send_end.splits)
qed

text \<open>The party's channel to \<open>t\<close> works and \<open>msgs\<close> are the messages it has sent so far.\<close>

definition channel_ok ::
  "(bytes \<Rightarrow> bytes \<Rightarrow> nat \<Rightarrow> u8) \<Rightarrow> bytes \<Rightarrow> nat \<Rightarrow> bytes list \<Rightarrow> NetIOMP \<Rightarrow> bool" where
  "channel_ok ks key t msgs net \<longleftrightarrow> (let b = np_bus net in
     tx_ok ks key (self_id b) (of_nat t) msgs (bus_tx b ! t) \<and> \<not> tx_poisoned (bus_tx b ! t) \<and>
     t < bus_nP b \<and> bus_nP b \<le> 256 \<and> length (bus_tx b) = bus_nP b \<and> length (np_sent net) = bus_nP b \<and>
     of_nat t \<noteq> self_id b \<and> np_party net = int (unat (self_id b)))"

definition no_failure :: "io_result list \<Rightarrow> bytes \<Rightarrow> bool" where
  "no_failure rs data \<longleftrightarrow> Failed \<notin> set rs \<and> nfrags data \<le> count_list rs Sent"

lemma net_send_ok:
  assumes ch: "channel_ok ks key t msgs net" and sane: "sane (msgs @ [data])" and rs: "no_failure rs data"
  shows "\<exists>net' fs. net_send ks (int t) data rs net = (net', fs, Net_ok) \<and> channel_ok ks key t (msgs @ [data]) net' \<and>
    np_sent net' ! t"
proof -
  let ?b = "np_bus net"
  have c: "tx_ok ks key (self_id ?b) (of_nat t) msgs (bus_tx ?b ! t)" "\<not> tx_poisoned (bus_tx ?b ! t)"
    "t < bus_nP ?b" "bus_nP ?b \<le> 256" "length (bus_tx ?b) = bus_nP ?b" "length (np_sent net) = bus_nP ?b"
    "(of_nat t :: u8) \<noteq> self_id ?b" "np_party net = int (unat (self_id ?b))"
    using ch by (simp_all add: channel_ok_def Let_def)
  obtain ts frames where snd: "BcastBus_send ks (int t) data rs ?b = (upd_tx t (\<lambda>_. ts) ?b, frames, Send_result Send_ok)"
    and tx: "tx_ok ks key (self_id ?b) (of_nat t) (msgs @ [data]) ts"
    using BcastBus_send_emits [OF c(1) sane c(2) refl refl c(3,4,7)] rs unfolding no_failure_def by blast
  have tp: "int t \<noteq> np_party net"
  proof
    assume "int t = np_party net"
    then have "t = unat (self_id ?b)" by (simp only: c(8) of_nat_eq_iff)
    then show False using c(7) by simp
  qed
  have pois: "\<not> tx_poisoned ts"
  proof -
    obtain sc ts0 where bg: "send_begin data (bus_tx ?b ! t) = (sc, ts0)" by (metis prod.exhaust)
    obtain fs ts1 e where lp: "send_loop ks (self_id ?b) (of_nat t) rs sc ts0 = (fs, ts1, e)" by (metis prod_cases3)
    have "upd_tx t (\<lambda>_. ts1) ?b = upd_tx t (\<lambda>_. ts) ?b"
      using snd bg lp c(2,3,8) tp by (simp add: BcastBus_send_def split: if_splits)
    then have "bus_tx (upd_tx t (\<lambda>_. ts1) ?b) ! t = bus_tx (upd_tx t (\<lambda>_. ts) ?b) ! t" by simp
    then have "ts1 = ts" using c(3,5) by (simp add: upd_tx_def)
    moreover have "tx_poisoned ts0 = tx_poisoned (bus_tx ?b ! t)" using bg by (auto simp: send_begin_def)
    ultimately show ?thesis using send_loop_poisoned [OF lp] c(2) by simp
  qed
  define net' where "net' = net\<lparr>np_bus := upd_tx t (\<lambda>_. ts) ?b, np_sent := (np_sent net)[t := True]\<rparr>"
  have "net_send ks (int t) data rs net = (net', frames, Net_ok)"
    using snd tp c(3,6) by (simp add: net_send_def net'_def)
  moreover have "channel_ok ks key t (msgs @ [data]) net'"
    using c tx pois by (simp add: channel_ok_def Let_def net'_def upd_tx_def)
  moreover have "np_sent net' ! t" using c(3,6) by (simp add: net'_def)
  ultimately show ?thesis by blast
qed

lemma net_sendBool_ok:
  assumes "channel_ok ks key t msgs net" "sane (msgs @ bool_msgs data)"
    and "length (bool_msgs data) \<le> length rss" "\<forall>rs\<in>set rss. \<forall>m\<in>set (bool_msgs data). no_failure rs m"
  shows "\<exists>net' fs. net_sendBool ks (int t) data rss net = (net', fs, Net_ok) \<and>
    channel_ok ks key t (msgs @ bool_msgs data) net'"
  using assms
proof (induction rss arbitrary: data msgs net)
  case Nil
  then have "data = []" by (cases "data = []") (simp_all add: bool_msgs_simps)
  then show ?case using Nil.prems(1) by (subst net_sendBool.simps) (simp add: bool_msgs_simps)
next
  case (Cons rs rss)
  show ?case
  proof (cases "data = []")
    case True
    then show ?thesis using Cons.prems(1) by (subst net_sendBool.simps) (simp add: bool_msgs_simps)
  next
    case False
    define m where "m = le_bytes 8 (pack_word 0 0 (take 64 data) :: u64)"
    let ?ms = "bool_msgs (drop 64 data)"
    have bm: "bool_msgs data = m # ?ms" using False by (simp add: bool_msgs_simps m_def)
    have sane: "sane (msgs @ [m])" "sane ((msgs @ [m]) @ ?ms)"
      using Cons.prems(2) by (auto simp: bm sane_def)
    obtain net1 f1 where n1: "net_send ks (int t) m rs net = (net1, f1, Net_ok)" "channel_ok ks key t (msgs @ [m]) net1"
      using net_send_ok [OF Cons.prems(1) sane(1), of rs] Cons.prems(4) by (fastforce simp: bm)
    have "\<exists>net' fs. net_sendBool ks (int t) (drop 64 data) rss net1 = (net', fs, Net_ok) \<and>
        channel_ok ks key t ((msgs @ [m]) @ ?ms) net'"
      using Cons.prems(3,4) by (intro Cons.IH [OF n1(2) sane(2)]) (auto simp: bm)
    then obtain net2 f2 where n2: "net_sendBool ks (int t) (drop 64 data) rss net1 = (net2, f2, Net_ok)"
      "channel_ok ks key t (msgs @ bool_msgs data) net2" by (auto simp: bm)
    have "net_sendBool ks (int t) data (rs # rss) net = (net2, f1 @ f2, Net_ok)"
      using False n1(1) n2(1) by (subst net_sendBool.simps) (simp add: m_def [symmetric])
    then show ?thesis using n2(2) by blast
  qed
qed

subsection \<open>What the party guarantees\<close>

lemma c_rem_mod:
  assumes "0 < n"
  shows "(if c_rem a n < 0 then c_rem a n + n else c_rem a n) = a mod n"
proof (cases "a < 0")
  case True
  have "(- a) mod n = (if a mod n = 0 then 0 else n - a mod n)" by (rule zmod_zminus1_eq_if)
  then show ?thesis using True pos_mod_bound [OF assms, of a] by (simp add: c_rem_def)
next
  case False
  have "\<not> a mod n < 0" using pos_mod_sign [OF assms, of a] by simp
  then show ?thesis using False by (simp add: c_rem_def)
qed

lemma relative_eq:
  assumes "0 < np_nP net"
  shows "relative offset net = (np_party net + offset) mod int (np_nP net)"
  using c_rem_mod [of "int (np_nP net)" "np_party net + offset"] assms by (simp add: relative_def Let_def)

text \<open>
  Relative addressing is symmetric. The peer that \<open>sendRelative offset\<close> sends to, whatever the sign of the
  offset, reaches back with \<open>recvRelative (- offset)\<close>.
\<close>

lemma relative_parties_meet:
  assumes "0 < np_nP net" "0 \<le> np_party net" "np_party net < int (np_nP net)"
    and "np_nP peer = np_nP net" "np_party peer = relative offset net"
  shows "relative (- offset) peer = np_party net"
proof -
  have "relative (- offset) peer = ((np_party net + offset) mod int (np_nP net) + - offset) mod int (np_nP net)"
    using assms(1,4,5) by (simp add: relative_eq)
  also have "\<dots> = (np_party net + offset + - offset) mod int (np_nP net)" by (rule mod_add_left_eq)
  finally show ?thesis using assms(2,3) by simp
qed

definition ex_env :: net_env where
  "ex_env = \<lparr>ev_disabled = False, ev_schedule = None, ev_slot_ns = None, ev_key_seed = None, ev_retx_send = None, ev_retx_recv = None\<rparr>"

definition ex_net :: "nat \<Rightarrow> NetIOMP" where
  "ex_net p = NetIOMP_new ex_sha ex_env True [1, 2, 3] p 3"

lemma ex_net_sel: "np_party (ex_net p) = int p" "np_nP (ex_net p) = 3" "np_sent (ex_net p) = [False, False, False]"
  by (simp_all add: ex_net_def NetIOMP_new_def ex_env_def Let_def numeral_3_eq_3)

text \<open>
  C36: a vector of field elements, its length given in bytes, is handed to the bus as one message, and a receiver
  whose queue starts with that message reads the same vector and nothing more.
\<close>

theorem field_vectors_roundtrip:
  assumes conv: "ntl_conv rep conv" and ch: "channel_ok ks key t msgs net" and sane: "sane (msgs @ [field_bytes rep xs])"
    and rs: "no_failure rs (field_bytes rep xs)" and q: "queued peer src (field_bytes rep xs @ rest)"
  shows "\<exists>net' fs peer'. net_send_ZZp ks rep (int t) xs (8 * length xs) rs net = (net', fs, Net_ok) \<and>
    channel_ok ks key t (msgs @ [field_bytes rep xs]) net' \<and>
    net_recv_ZZp conv src (8 * length xs) peer = (peer', Got xs) \<and> queued peer' src rest"
proof -
  obtain net' fs where s: "net_send ks (int t) (field_bytes rep xs) rs net = (net', fs, Net_ok)"
    "channel_ok ks key t (msgs @ [field_bytes rep xs]) net'"
    using net_send_ok [OF ch sane rs] by blast
  obtain peer' where r: "net_recv (replicate (8 * length xs) 0) src (8 * length xs) peer = (peer', Got (field_bytes rep xs))"
    "queued peer' src rest"
    using net_recv_queued [OF q, of "replicate (8 * length xs) 0"] by auto
  have "net_send_ZZp ks rep (int t) xs (8 * length xs) rs net = (net', fs, Net_ok)" using s(1) by (simp add: net_send_ZZp_def)
  moreover have "net_recv_ZZp conv src (8 * length xs) peer = (peer', Got xs)"
    using r(1) by (simp add: net_recv_ZZp_def field_elems_bytes [OF conv])
  ultimately show ?thesis using s(2) r(2) by blast
qed

text \<open>Party 1 with some bytes of party 0 in its queue.\<close>

definition ex_queue :: "bytes \<Rightarrow> NetIOMP" where
  "ex_queue bs = (ex_net 1)\<lparr>np_bus := upd_rx 0 (push_chunk bs) (np_bus (ex_net 1))\<rparr>"

lemma ex_bus: "np_bus (ex_net p) = BcastBus_new ex_sha p 3 [1, 2, 3] (Some (1048544, 3)) 200"
  by (simp add: ex_net_def NetIOMP_new_def ex_env_def Let_def net_scheduler_def net_schedule_def TDMAScheduler_new_def sched_ok_def)

lemma ex_queue_queued: "queued (ex_queue bs) 0 bs"
  by (simp add: queued_def Let_def ex_queue_def ex_bus ex_net_sel BcastBus_new_def upd_rx_def push_chunk_def rx_init_def
      rx_data_def queue_ok_def numeral_3_eq_3)

lemma ex_channel: "channel_ok ex_ks (replicate 16 0) 1 [] (ex_net 0)"
proof -
  have tx: "bus_tx (np_bus (ex_net 0)) ! 1 = tx_init (replicate 16 0)"
    by (simp add: ex_bus BcastBus_new_def new_tx_def Let_def derive_pair_key_def ex_sha_def)
  show ?thesis
    unfolding channel_ok_def Let_def tx
    using tx_ok_init by (simp add: ex_net_sel tx_init_def) (simp add: ex_bus BcastBus_new_def new_tx_def Let_def)
qed

theorem field_vectors_roundtrip_witness:
  "\<exists>net' fs peer'. net_send_ZZp ex_ks uint (int 1) [3, 500 :: u64] (8 * length [3, 500 :: u64]) [Again, Sent] (ex_net 0) = (net', fs, Net_ok) \<and>
    channel_ok ex_ks (replicate 16 0) 1 ([] @ [field_bytes uint [3, 500 :: u64]]) net' \<and>
    net_recv_ZZp word_of_int 0 (8 * length [3, 500 :: u64]) (ex_queue (field_bytes uint [3, 500 :: u64] @ [9])) = (peer', Got [3, 500 :: u64]) \<and>
    queued peer' 0 [9]"
proof (rule field_vectors_roundtrip [where rep = uint and conv = word_of_int and xs = "[3, 500 :: u64]" and rest = "[9]", OF _ ex_channel _ _ ex_queue_queued])
  have nf: "nfrags (field_bytes uint [3, 500 :: u64]) = 1" by (simp add: nfrags_def)
  have "uint (x :: u64) < 2 ^ 64" for x using unsigned_less [of x, where ?'a = int] by simp
  then show "ntl_conv uint (word_of_int :: int \<Rightarrow> u64)" unfolding ntl_conv_def by (intro allI conjI) simp_all
  show "sane ([] @ [field_bytes uint [3, 500 :: u64]])" by (simp add: sane_def nf)
  show "no_failure [Again, Sent] (field_bytes uint [3, 500 :: u64])" by (simp add: no_failure_def nf)
qed

text \<open>
  \<open>recvBool\<close> reads what \<open>sendBool\<close> sends: the sender hands one message of eight bytes per started group of
  64 booleans to the bus, the receiver takes exactly those bytes from its queue and gets the booleans.
\<close>

theorem bool_vectors_roundtrip:
  assumes ch: "channel_ok ks key t msgs net" and sane: "sane (msgs @ bool_msgs data)"
    and rs: "length (bool_msgs data) \<le> length rss" "\<forall>rs\<in>set rss. \<forall>m\<in>set (bool_msgs data). no_failure rs m"
    and q: "queued peer src (concat (bool_msgs data) @ rest)"
  shows "\<exists>net' fs peer'. net_sendBool ks (int t) data rss net = (net', fs, Net_ok) \<and>
    channel_ok ks key t (msgs @ bool_msgs data) net' \<and>
    net_recvBool src (length data) peer = (peer', Got data) \<and> queued peer' src rest"
  using net_sendBool_ok [OF ch sane rs] net_recvBool_queued [OF q] by blast

theorem bool_vectors_roundtrip_witness:
  "\<exists>net' fs peer'. net_sendBool ex_ks (int 1) [True, False, True] [[Sent]] (ex_net 0) = (net', fs, Net_ok) \<and>
    channel_ok ex_ks (replicate 16 0) 1 ([] @ bool_msgs [True, False, True]) net' \<and>
    net_recvBool 0 (length [True, False, True]) (ex_queue (concat (bool_msgs [True, False, True]) @ [])) = (peer', Got [True, False, True]) \<and>
    queued peer' 0 []"
proof (rule bool_vectors_roundtrip [OF ex_channel _ _ _ ex_queue_queued])
  have m: "bool_msgs [True, False, True] = [le_bytes 8 (5 :: u64)]" by (simp add: bool_msgs_simps)
  have nf: "nfrags (le_bytes 8 (5 :: u64)) = 1" by (simp add: nfrags_def)
  show "sane ([] @ bool_msgs [True, False, True])" by (simp add: sane_def nf m)
  show "length (bool_msgs [True, False, True]) \<le> length [[Sent]]" by (simp add: m)
  show "\<forall>rs\<in>set [[Sent]]. \<forall>m\<in>set (bool_msgs [True, False, True]). no_failure rs m"
    unfolding m by (simp add: no_failure_def nf del: le_bytes.simps)
qed

end
