(* ===== verification/Assisted.thy ===== *)
theory Assisted
  imports Offline
begin

section \<open>The offline phase of the assisted protocol (assistedMPC/)\<close>

text \<open>
  In \<open>assistedMPC\<close> a helper (party 0) deals all shares: it draws them from its own generator, collects
  what each party is to get in the vectors \<open>rand_sh\<close>, \<open>rand_sh_sec\<close> and \<open>rand_sh_party\<close> of that party and
  sends them. The parties only read their vectors with an index. Shares, preprocessed gates, sampling
  and key generation are the text of \<open>asterisk\<close> again and use its definitions; the dealing routines,
  the gates and the messages are different.
\<close>

text \<open>This pool also seeds the generator at index 0.\<close>

definition am_RandGenPool_new :: "(u64 \<Rightarrow> 'g) \<Rightarrow> 'g \<Rightarrow> nat \<Rightarrow> nat \<Rightarrow> u64 \<Rightarrow> 'g RandGenPool" where
  "am_RandGenPool_new reseed fresh my_id num_parties seed =
     \<lparr>k_id = my_id, k_p0 = reseed seed, k_self = reseed seed, k_all_minus_0 = reseed seed, k_all = reseed seed,
      k_pi = fold (\<lambda>i k. k[i := reseed seed]) [0..<Suc num_parties] (replicate (num_parties + 1) fresh)\<rparr>"

text \<open>As in \<open>asterisk\<close>, \<open>rgen_(my_id, seed)\<close> passes the seed as the number of parties.\<close>

definition am_rgen_new :: "(u64 \<Rightarrow> 'g) \<Rightarrow> 'g \<Rightarrow> nat \<Rightarrow> nat \<Rightarrow> 'g RandGenPool" where
  "am_rgen_new reseed fresh my_id seed = am_RandGenPool_new reseed fresh my_id seed 200"

subsection \<open>The helper\<close>

definition push_at :: "nat \<Rightarrow> 'a \<Rightarrow> 'a list list \<Rightarrow> 'a list list" where
  "push_at i x out = out[i := out ! i @ [x]]"

definition helper_step ::
  "('g \<Rightarrow> 'r \<times> 'g) \<Rightarrow> 'r::comm_ring_1 list \<Rightarrow> nat \<Rightarrow> 'g RandGenPool \<times> 'r TPShare \<times> 'r \<times> 'r \<times> 'r list list \<Rightarrow>
   'g RandGenPool \<times> 'r TPShare \<times> 'r \<times> 'r \<times> 'r list list" where
  "helper_step smp keySh i = (\<lambda>(rg, tp, valn, tagn, out).
     let (v, rg) = draw_self smp rg;
         tp = pushValues v tp;
         out = push_at (i - 1) v out;
         (t, rg) = draw_self smp rg;
         tp = pushTags t tp;
         out = push_at (i - 1) t out
     in (rg, setKeySh (keySh ! i) tp, valn + v, tagn + t, out))"

definition randomShareSecret_Helper ::
  "('g \<Rightarrow> 'r::comm_ring_1 \<times> 'g) \<Rightarrow> nat \<Rightarrow> 'g RandGenPool \<Rightarrow> 'r \<Rightarrow> 'r \<Rightarrow> 'r list \<Rightarrow> 'r list list \<Rightarrow>
   'r mask \<times> 'g RandGenPool \<times> 'r list list" where
  "randomShareSecret_Helper smp nP rg sec key keySh rand_sh_sec =
     (let (rg, tp, valn, tagn, out) = fold (helper_step smp keySh) [1..<nP] (rg, tp_start key keySh, 0, 0, rand_sh_sec);
          tp = setKeySh (keySh ! nP) tp;
          valn = sec - valn;
          tagn = key * sec - tagn;
          tp = pushValues valn tp;
          out = push_at (nP - 1) valn out;
          tp = pushTags tagn tp;
          out = push_at (nP - 1) tagn out
      in ((share_start keySh, tp), rg, out))"

definition randomShare_Helper ::
  "('g \<Rightarrow> 'r::comm_ring_1 \<times> 'g) \<Rightarrow> nat \<Rightarrow> 'g RandGenPool \<Rightarrow> 'r \<Rightarrow> 'r list \<Rightarrow> 'r list list \<Rightarrow>
   'r mask \<times> 'g RandGenPool \<times> 'r list list" where
  "randomShare_Helper smp nP rg key keySh rand_sh =
     (let (sec, rg) = draw_self smp rg in randomShareSecret_Helper smp nP rg sec key keySh rand_sh)"

definition randomShareWithParty_Helper ::
  "('g \<Rightarrow> 'r::comm_ring_1 \<times> 'g) \<Rightarrow> nat \<Rightarrow> nat \<Rightarrow> 'g RandGenPool \<Rightarrow> 'r \<Rightarrow> 'r list \<Rightarrow> 'r list list \<Rightarrow>
   'r mask \<times> 'g RandGenPool \<times> 'r list list" where
  "randomShareWithParty_Helper smp nP dealer rg key keySh rand_sh_party =
     (let (sec, rg) = draw_self smp rg;
          (m, rg, out) = randomShareSecret_Helper smp nP rg sec key keySh rand_sh_party
      in (m, rg, push_at (dealer - 1) sec out))"

subsection \<open>The parties\<close>

definition randomShare_Party :: "'r::comm_ring_1 \<Rightarrow> 'r list \<Rightarrow> nat \<Rightarrow> 'r mask \<times> nat" where
  "randomShare_Party key rand_sh idx =
     (let share = setKey key AuthAddShare_default;
          share = pushValue (rand_sh ! idx) share;
          idx = idx + 1;
          share = pushTag (rand_sh ! idx) share;
          idx = idx + 1
      in ((share, TPShare_default), idx))"

definition randomShareSecret_Party :: "'r::comm_ring_1 \<Rightarrow> 'r list \<Rightarrow> nat \<Rightarrow> 'r mask \<times> nat" where
  "randomShareSecret_Party key rand_sh_sec idx = randomShare_Party key rand_sh_sec idx"

definition randomShareWithParty_Party :: "'r::comm_ring_1 \<Rightarrow> 'r list \<Rightarrow> nat \<Rightarrow> 'r mask \<times> nat" where
  "randomShareWithParty_Party key rand_sh_party idx = randomShare_Party key rand_sh_party idx"

definition randomShareWithParty_Dealer :: "'r::comm_ring_1 \<Rightarrow> 'r list \<Rightarrow> nat \<Rightarrow> 'r mask \<times> 'r \<times> nat" where
  "randomShareWithParty_Dealer key rand_sh_party idx =
     (let (m, idx) = randomShare_Party key rand_sh_party idx in (m, rand_sh_party ! idx, idx + 1))"

subsection \<open>State\<close>

text \<open>
  What \<open>setWireMasksHelper\<close> and \<open>setWireMasksParty\<close> keep. The three vectors are indexed by \<open>vec_id\<close>: the
  helper fills \<open>b_out\<close>, which has a vector for each party, a party reads \<open>b_in\<close> from index \<open>b_idx\<close> on. The
  boolean vectors are never touched.
\<close>

datatype vec_id = Rand_sh | Rand_sh_sec | Rand_sh_party

record 'r vec_buf =
  b_out :: "'r list list"
  b_in :: "'r list"
  b_idx :: nat

record ('g, 'f) am_st =
  am_rgen :: "'g RandGenPool"
  am_key :: 'f
  am_keySh :: "'f list"
  am_bkey :: BoolRing
  am_bkeySh :: "BoolRing list"
  am_buf :: "vec_id \<Rightarrow> 'f vec_buf"

definition am_put :: "vec_id \<Rightarrow> 'f mask \<times> 'g RandGenPool \<times> 'f list list \<Rightarrow> ('g, 'f) am_st \<Rightarrow> 'f mask \<times> ('g, 'f) am_st" where
  "am_put b = (\<lambda>(m, rg, out) s. (m, s\<lparr>am_rgen := rg, am_buf := (am_buf s)(b := (am_buf s b)\<lparr>b_out := out\<rparr>)\<rparr>))"

definition am_take :: "vec_id \<Rightarrow> 'x \<times> nat \<Rightarrow> ('g, 'f) am_st \<Rightarrow> 'x \<times> ('g, 'f) am_st" where
  "am_take b = (\<lambda>(m, idx) s. (m, s\<lparr>am_buf := (am_buf s)(b := (am_buf s b)\<lparr>b_idx := idx\<rparr>)\<rparr>))"

definition am_share :: "('g, 'f::comm_ring_1) offline_env \<Rightarrow> nat \<Rightarrow> ('g, 'f) am_st \<Rightarrow> 'f mask \<times> ('g, 'f) am_st" where
  "am_share E pid s =
     (if pid = 0
      then am_put Rand_sh (randomShare_Helper (oe_field E) (oe_nP E) (am_rgen s) (am_key s) (am_keySh s) (b_out (am_buf s Rand_sh))) s
      else am_take Rand_sh (randomShare_Party (am_key s) (b_in (am_buf s Rand_sh)) (b_idx (am_buf s Rand_sh))) s)"

definition am_sec :: "('g, 'f::comm_ring_1) offline_env \<Rightarrow> nat \<Rightarrow> 'f \<Rightarrow> ('g, 'f) am_st \<Rightarrow> 'f mask \<times> ('g, 'f) am_st" where
  "am_sec E pid x s =
     (if pid = 0
      then am_put Rand_sh_sec (randomShareSecret_Helper (oe_field E) (oe_nP E) (am_rgen s) x (am_key s) (am_keySh s)
             (b_out (am_buf s Rand_sh_sec))) s
      else am_take Rand_sh_sec (randomShareSecret_Party (am_key s) (b_in (am_buf s Rand_sh_sec)) (b_idx (am_buf s Rand_sh_sec))) s)"

subsection \<open>Gates\<close>

type_synonym 'f am_gate = "('f, unit) preproc_gate"

text \<open>
  The helper: the four products of a three-way multiplication are computed, but \<open>tp_ab\<close> is shared four
  times.
\<close>

fun helper_gate ::
  "('g, 'f::comm_ring_1) offline_env \<Rightarrow> 'f am_gate option list \<Rightarrow> 'f gate \<Rightarrow> ('g, 'f) am_st \<Rightarrow> 'f am_gate option \<times> ('g, 'f) am_st" where
  "helper_gate E gs (FIn2Gate t a b out) s =
     (if t = kAdd then (Some (PreprocGate (m_add (mask_at gs a) (mask_at gs b))), s)
      else if t = kSub then (Some (PreprocGate (m_sub (mask_at gs a) (mask_at gs b))), s)
      else if t = kMul then
        let tp_prod = secret (snd (mask_at gs a)) * secret (snd (mask_at gs b));
            (rand_mask, s) = am_share E 0 s;
            (mask_product, s) = am_sec E 0 tp_prod s
        in (Some (PreprocMultGate rand_mask mask_product), s)
      else (None, s))"
| "helper_gate E gs (ConstOpGate t a k out) s =
     (if t = kConstAdd then (Some (PreprocGate (mask_at gs a)), s)
      else if t = kConstMul then (Some (PreprocGate (m_mul (mask_at gs a) k)), s)
      else (None, s))"
| "helper_gate E gs (FIn3Gate t a b c out) s =
     (if t = kMul3 then
        let tp_ab = secret (snd (mask_at gs a)) * secret (snd (mask_at gs b));
            (rand_mask, s) = am_share E 0 s;
            (mask_ab, s) = am_sec E 0 tp_ab s;
            (mask_ac, s) = am_sec E 0 tp_ab s;
            (mask_bc, s) = am_sec E 0 tp_ab s;
            (mask_abc, s) = am_sec E 0 tp_ab s
        in (Some (PreprocMult3Gate rand_mask mask_ab mask_ac mask_bc mask_abc), s)
      else (None, s))"
| "helper_gate E gs g s = (None, s)"

fun party_gate ::
  "('g, 'f::comm_ring_1) offline_env \<Rightarrow> nat \<Rightarrow> 'f am_gate option list \<Rightarrow> 'f gate \<Rightarrow> ('g, 'f) am_st \<Rightarrow>
   'f am_gate option \<times> ('g, 'f) am_st" where
  "party_gate E pid gs (FIn2Gate t a b out) s =
     (if t = kAdd then (Some (PreprocGate (m_add (mask_at gs a) (mask_at gs b))), s)
      else if t = kSub then (Some (PreprocGate (m_sub (mask_at gs a) (mask_at gs b))), s)
      else if t = kMul then
        let (rand_mask, s) = am_share E pid s;
            (mask_product, s) = am_sec E pid 0 s
        in (Some (PreprocMultGate rand_mask mask_product), s)
      else (None, s))"
| "party_gate E pid gs (ConstOpGate t a k out) s =
     (if t = kConstAdd then (Some (PreprocGate (mask_at gs a)), s)
      else if t = kConstMul then (Some (PreprocGate (m_mul (mask_at gs a) k)), s)
      else (None, s))"
| "party_gate E pid gs (FIn3Gate t a b c out) s =
     (if t = kMul3 then
        let (rand_mask, s) = am_share E pid s;
            (mask_ab, s) = am_sec E pid 0 s;
            (mask_ac, s) = am_sec E pid 0 s;
            (mask_bc, s) = am_sec E pid 0 s;
            (mask_abc, s) = am_sec E pid 0 s
        in (Some (PreprocMult3Gate rand_mask mask_ab mask_ac mask_bc mask_abc), s)
      else (None, s))"
| "party_gate E pid gs g s = (None, s)"

text \<open>Inputs: the helper stores the mask's value, and so does the party that provides the input.\<close>

definition helper_input ::
  "('g, 'f::comm_ring_1) offline_env \<Rightarrow> nat \<Rightarrow> ('g, 'f) am_st \<Rightarrow> 'f am_gate \<times> ('g, 'f) am_st" where
  "helper_input E dealer s =
     (let (m, s) = am_put Rand_sh_party (randomShareWithParty_Helper (oe_field E) (oe_nP E) dealer (am_rgen s) (am_key s)
            (am_keySh s) (b_out (am_buf s Rand_sh_party))) s
      in (PreprocInput m dealer (secret (snd m)), s))"

definition party_input ::
  "nat \<Rightarrow> nat \<Rightarrow> ('g, 'f::comm_ring_1) am_st \<Rightarrow> 'f am_gate \<times> ('g, 'f) am_st" where
  "party_input pid dealer s =
     (let B = am_buf s Rand_sh_party
      in if pid = dealer then
           let ((m, v), s) = am_take Rand_sh_party
                 (let (m, v, idx) = randomShareWithParty_Dealer (am_key s) (b_in B) (b_idx B) in ((m, v), idx)) s
           in (PreprocInput m dealer v, s)
         else let (m, s) = am_take Rand_sh_party (randomShareWithParty_Party (am_key s) (b_in B) (b_idx B)) s
           in (PreprocInput m dealer 0, s))"

subsection \<open>The loops over the circuit\<close>

text \<open>
  \<open>input_pid_map.at\<close> throws for an input that has no party; \<open>rand_sh_party[dealer - 1]\<close> is out of bounds
  unless the party is one of \<open>1, \<dots>, nP\<close>.
\<close>

datatype am_exn = Am_throw exn | Am_out_of_bounds

definition helper_gates ::
  "('g, 'f::comm_ring_1) offline_env \<Rightarrow> (wire_t, nat) umap \<Rightarrow> 'f gate \<Rightarrow>
   'f am_gate option list \<times> ('g, 'f) am_st \<Rightarrow> am_exn + 'f am_gate option list \<times> ('g, 'f) am_st" where
  "helper_gates E input_pid_map g = (\<lambda>(gs, s).
     if gtype g = kInp then
       (case umap_at input_pid_map (gout g) of Inl e \<Rightarrow> Inl (Am_throw e)
        | Inr d \<Rightarrow> if d = 0 \<or> oe_nP E < d then Inl Am_out_of_bounds
            else let (pg, s) = helper_input E d s in Inr (gs[gout g := Some pg], s))
     else let (pg, s) = helper_gate E gs g s in Inr (store_pre (gout g) pg gs, s))"

definition party_gates ::
  "('g, 'f::comm_ring_1) offline_env \<Rightarrow> nat \<Rightarrow> (wire_t, nat) umap \<Rightarrow> 'f gate \<Rightarrow>
   'f am_gate option list \<times> ('g, 'f) am_st \<Rightarrow> am_exn + 'f am_gate option list \<times> ('g, 'f) am_st" where
  "party_gates E pid input_pid_map g = (\<lambda>(gs, s).
     if gtype g = kInp then
       (case umap_at input_pid_map (gout g) of Inl e \<Rightarrow> Inl (Am_throw e)
        | Inr d \<Rightarrow> let (pg, s) = party_input pid d s in Inr (gs[gout g := Some pg], s))
     else let (pg, s) = party_gate E pid gs g s in Inr (store_pre (gout g) pg gs, s))"

text \<open>The keys of both rings; the code inlines \<open>keyGen\<close> twice.\<close>

definition am_key_setup ::
  "('g, 'f::comm_ring_1) offline_env \<Rightarrow> nat \<Rightarrow> 'g RandGenPool \<Rightarrow> (vec_id \<Rightarrow> 'f vec_buf) \<Rightarrow> ('g, 'f) am_st" where
  "am_key_setup E pid rgen bufs =
     (let (keySh, key, rgen) = keyGen (oe_field E) (oe_nP E) pid rgen (replicate (oe_nP E + 1) 0);
          (bkeySh, bkey, rgen) = keyGen (oe_bool E) (oe_nP E) pid rgen (replicate (oe_nP E + 1) 0)
      in \<lparr>am_rgen = rgen, am_key = key, am_keySh = keySh, am_bkey = bkey, am_bkeySh = bkeySh, am_buf = bufs\<rparr>)"

definition helper_bufs :: "nat \<Rightarrow> vec_id \<Rightarrow> 'f vec_buf" where
  "helper_bufs nP b = \<lparr>b_out = replicate nP [], b_in = [], b_idx = 0\<rparr>"

definition party_bufs :: "'f vecs \<Rightarrow> vec_id \<Rightarrow> 'f vec_buf" where
  "party_bufs v b = \<lparr>b_out = [],
     b_in = (case b of Rand_sh \<Rightarrow> v_rand_sh v | Rand_sh_sec \<Rightarrow> v_rand_sh_sec v | Rand_sh_party \<Rightarrow> v_rand_sh_party v),
     b_idx = 0\<rparr>"

definition setWireMasksHelper ::
  "('g, 'f::comm_ring_1) offline_env \<Rightarrow> 'f LevelOrderedCircuit \<Rightarrow> (wire_t, nat) umap \<Rightarrow> 'g RandGenPool \<Rightarrow>
   am_exn + 'f am_gate option list \<times> ('g, 'f) am_st" where
  "setWireMasksHelper E circ input_pid_map rgen =
     foldE (foldE (helper_gates E input_pid_map)) (gates_by_level circ)
       (replicate (num_gates circ) None, am_key_setup E 0 rgen (helper_bufs (oe_nP E)))"

definition am_setWireMasksParty ::
  "('g, 'f::comm_ring_1) offline_env \<Rightarrow> 'f LevelOrderedCircuit \<Rightarrow> nat \<Rightarrow> (wire_t, nat) umap \<Rightarrow> 'g RandGenPool \<Rightarrow> 'f vecs \<Rightarrow>
   am_exn + 'f am_gate option list \<times> ('g, 'f) am_st" where
  "am_setWireMasksParty E circ pid input_pid_map rgen v =
     foldE (foldE (party_gates E pid input_pid_map)) (gates_by_level circ)
       (replicate (num_gates circ) None, am_key_setup E pid rgen (party_bufs v))"

subsection \<open>Messages\<close>

text \<open>What the helper sends to one party: eight lengths, the field elements, the (empty) booleans.\<close>

type_synonym 'f am_msgs = "nat list \<times> 'f list \<times> BoolRing list"

definition helper_msgs :: "'f::zero vecs \<Rightarrow> BoolRing vecs \<Rightarrow> 'f am_msgs" where
  "helper_msgs v bv = (offline_lengths v bv, join_vecs v, join_vecs bv)"

definition party_vecs :: "'f am_msgs \<Rightarrow> 'f vecs \<times> BoolRing vecs" where
  "party_vecs = (\<lambda>(lengths, offline_arith_comm, offline_bool_comm).
     (split_vecs offline_arith_comm (lengths ! 1) (lengths ! 2) (lengths ! 3),
      split_vecs offline_bool_comm (lengths ! 5) (lengths ! 6) (lengths ! 7)))"

definition vecs_for :: "nat \<Rightarrow> ('g, 'f) am_st \<Rightarrow> 'f vecs" where
  "vecs_for p s = \<lparr>v_rand_sh = b_out (am_buf s Rand_sh) ! (p - 1), v_rand_sh_sec = b_out (am_buf s Rand_sh_sec) ! (p - 1),
     v_rand_sh_party = b_out (am_buf s Rand_sh_party) ! (p - 1)\<rparr>"

definition am_setWireMasks ::
  "('g, 'f::comm_ring_1) offline_env \<Rightarrow> 'f LevelOrderedCircuit \<Rightarrow> nat \<Rightarrow> (wire_t, nat) umap \<Rightarrow> 'g RandGenPool \<Rightarrow>
   'f am_msgs \<Rightarrow> am_exn + 'f am_gate option list \<times> ('g, 'f) am_st \<times> 'f am_msgs list" where
  "am_setWireMasks E circ pid input_pid_map rgen msgs =
     (if pid = 0 then
        (case setWireMasksHelper E circ input_pid_map rgen of Inl e \<Rightarrow> Inl e
         | Inr (gs, s) \<Rightarrow> Inr (gs, s, map (\<lambda>p. helper_msgs (vecs_for p s) no_vecs) (parties (oe_nP E))))
      else let (v, bv) = party_vecs msgs
           in case am_setWireMasksParty E circ pid input_pid_map rgen v of Inl e \<Rightarrow> Inl e
              | Inr (gs, s) \<Rightarrow> Inr (gs, s, []))"

definition am_getOutputMasks :: "'f::comm_ring_1 LevelOrderedCircuit \<Rightarrow> nat \<Rightarrow> 'f am_gate option list \<Rightarrow> 'f list" where
  "am_getOutputMasks circ pid gs =
     (if outputs circ = [] then []
      else if pid = 0 then map (\<lambda>w. secret (snd (mask_at gs w))) (outputs circ)
      else map (\<lambda>w. 0) (outputs circ))"

end
