(* ===== verification/Assisted_Deal.thy ===== *)
theory Assisted_Deal
  imports Assisted
begin

section \<open>The helper and the parties side by side\<close>

text \<open>
  The joint run of the assisted offline phase: \<open>am_sync\<close> holds of the states of the helper and the parties
  when every party has read exactly what the helper has written for it, \<open>am_bok\<close> when every party's
  vectors extend what the helper has written. With these the calls satisfy the locale \<open>dealing\<close>, so the
  lemmas on the gate routines and on the loop over a circuit hold here as well; only the three-way
  multiplication needs its own.
\<close>

subsection \<open>The helper's loop\<close>

lemma nth_beyond: "length xs \<le> i \<Longrightarrow> xs ! i = [] ! (i - length xs)"
proof (induction xs arbitrary: i)
  case (Cons x xs)
  then show ?case by (cases i) auto
qed simp

lemma length_push_at [simp]: "length (push_at i x out) = length out"
  by (simp add: push_at_def)

lemma nth_push_at: "j < length out \<Longrightarrow> push_at i x out ! j = (if i = j then out ! j @ [x] else out ! j)"
  by (simp add: push_at_def nth_list_update)

lemma push_at_prefix: "prefix (out ! j) (push_at i x out ! j)"
proof (cases "j < length out")
  case False
  then show ?thesis using nth_beyond [of out j] nth_beyond [of "push_at i x out" j] by simp
qed (simp add: nth_push_at)

text \<open>The vectors grow by the shares of each party.\<close>

definition grown :: "nat \<Rightarrow> (nat \<Rightarrow> 'a) \<Rightarrow> (nat \<Rightarrow> 'a) \<Rightarrow> 'a list list \<Rightarrow> 'a list list \<Rightarrow> bool" where
  "grown m f g out out' \<longleftrightarrow> length out' = length out \<and>
     (\<forall>i<length out. out' ! i = (if i < m then (out ! i @ [f (Suc i)]) @ [g (Suc i)] else out ! i))"

lemma grown_Suc:
  assumes "grown m f g out out'"
  shows "grown (Suc m) (f(Suc m := v)) (g(Suc m := t)) out (push_at m t (push_at m v out'))"
  using assms by (auto simp: grown_def nth_push_at less_Suc_eq)

lemma helper_step_eq:
  "helper_step smp keySh (Suc m) (rg, tp, vn, tn, out) =
    (let g = k_self rg; v = fst (smp g); t = fst (smp (snd (smp g)))
     in (rg\<lparr>k_self := snd (smp (snd (smp g)))\<rparr>,
         tp\<lparr>tp_values := tp_values tp @ [v], tp_tags := tp_tags tp @ [t], tp_key_sh := tp_key_sh tp @ [keySh ! Suc m]\<rparr>,
         vn + v, tn + t, push_at m t (push_at m v out)))"
  by (simp add: helper_step_def draw_self_def Let_def pushValues_def pushTags_def setKeySh_def split_beta)

lemma helper_loop:
  "\<exists>rg' f g out'. fold (helper_step smp keySh) (parties m) (rg, tp, vn, tn, out) =
     (rg', tp\<lparr>tp_values := tp_values tp @ map f (parties m), tp_tags := tp_tags tp @ map g (parties m),
        tp_key_sh := tp_key_sh tp @ map (\<lambda>i. keySh ! i) (parties m)\<rparr>,
      vn + psum m f, tn + psum m g, out') \<and> grown m f g out out'"
proof (induction m)
  case 0
  show ?case by (auto simp: grown_def)
next
  case (Suc m)
  then obtain rg' f g out' where IH: "fold (helper_step smp keySh) (parties m) (rg, tp, vn, tn, out) =
     (rg', tp\<lparr>tp_values := tp_values tp @ map f (parties m), tp_tags := tp_tags tp @ map g (parties m),
        tp_key_sh := tp_key_sh tp @ map (\<lambda>i. keySh ! i) (parties m)\<rparr>,
      vn + psum m f, tn + psum m g, out')" "grown m f g out out'"
    by blast
  define v where "v = fst (smp (k_self rg'))"
  define t where "t = fst (smp (snd (smp (k_self rg'))))"
  have same: "map (f(Suc m := v)) (parties m) = map f (parties m)" "map (g(Suc m := t)) (parties m) = map g (parties m)"
    "psum m (f(Suc m := v)) = psum m f" "psum m (g(Suc m := t)) = psum m g"
    by (auto intro!: psum_cong)
  show ?case
    using grown_Suc [OF IH(2), of v t]
    by (intro exI conjI) (simp_all add: parties_Suc IH(1) helper_step_eq Let_def same add.assoc
        flip: v_def t_def del: upt_Suc One_nat_def)
qed

lemma helper_secret:
  assumes n: "0 < n"
  obtains rg' f g out' where
    "randomShareSecret_Helper smp n rg x key keySh out =
      ((share_start keySh, \<lparr>macKey = key, tp_key_sh = keySh ! 0 # map (\<lambda>i. keySh ! i) (parties n),
          tp_values = 0 # map f [1..<n] @ [x - psum (n - 1) f], tp_tags = 0 # map g [1..<n] @ [key * x - psum (n - 1) g]\<rparr>),
       rg', out')"
    "grown n (f(n := x - psum (n - 1) f)) (g(n := key * x - psum (n - 1) g)) out out'"
proof -
  obtain m where m: "n = Suc m" using n by (cases n) auto
  obtain rg' f g out' where L: "fold (helper_step smp keySh) (parties m) (rg, tp_start key keySh, 0, 0, out) =
     (rg', (tp_start key keySh)\<lparr>tp_values := tp_values (tp_start key keySh) @ map f (parties m),
        tp_tags := tp_tags (tp_start key keySh) @ map g (parties m),
        tp_key_sh := tp_key_sh (tp_start key keySh) @ map (\<lambda>i. keySh ! i) (parties m)\<rparr>,
      0 + psum m f, 0 + psum m g, out')" "grown m f g out out'"
    using helper_loop [of smp keySh m rg "tp_start key keySh" 0 0 out] by blast
  have p: "[1..<n] = parties m" by (simp add: m)
  define out'' where "out'' = push_at m (key * x - psum m g) (push_at m (x - psum m f) out')"
  have n1: "n - 1 = m" by (simp add: m)
  have A: "randomShareSecret_Helper smp n rg x key keySh out =
      ((share_start keySh, \<lparr>macKey = key, tp_key_sh = keySh ! 0 # map (\<lambda>i. keySh ! i) (parties n),
          tp_values = 0 # map f [1..<n] @ [x - psum (n - 1) f], tp_tags = 0 # map g [1..<n] @ [key * x - psum (n - 1) g]\<rparr>),
       rg', out'')"
    unfolding randomShareSecret_Helper_def p L(1) Let_def n1 out''_def
    by (simp add: m start_defs parties_Suc del: upt_Suc One_nat_def)
  have B: "grown n (f(n := x - psum (n - 1) f)) (g(n := key * x - psum (n - 1) g)) out out''"
    unfolding n1 out''_def unfolding m by (rule grown_Suc [OF L(2)])
  show thesis by (rule that [OF A B])
qed

lemma helper_secret_prefix: "prefix (out ! i) (snd (snd (randomShareSecret_Helper smp n rg x key keySh out)) ! i)"
proof -
  have L: "prefix (out ! i) (snd (snd (snd (snd (fold (helper_step smp keySh) ks (rg, tp, vn, tn, out))))) ! i)" for ks rg tp vn tn
  proof (induction ks rule: rev_induct)
    case (snoc j js)
    obtain rg1 tp1 vn1 tn1 out1 where "fold (helper_step smp keySh) js (rg, tp, vn, tn, out) = (rg1, tp1, vn1, tn1, out1)"
      by (metis prod_cases5)
    with snoc show ?case
      by (auto simp: helper_step_def Let_def split_beta intro!: prefix_order.trans [OF _ prefix_order.trans [OF push_at_prefix push_at_prefix]])
  qed simp
  obtain rg1 tp1 vn1 tn1 out1 where f: "fold (helper_step smp keySh) [1..<n] (rg, tp_start key keySh, 0, 0, out) = (rg1, tp1, vn1, tn1, out1)"
    by (metis prod_cases5)
  have "prefix (out ! i) (out1 ! i)" using L [of "[1..<n]" rg "tp_start key keySh" 0 0] by (simp only: f snd_conv)
  then show ?thesis
    by (auto simp: randomShareSecret_Helper_def f Let_def simp del: One_nat_def intro!: prefix_order.trans [OF _ prefix_order.trans [OF push_at_prefix push_at_prefix]])
qed

lemma length_helper_secret: "0 < n \<Longrightarrow> length (snd (snd (randomShareSecret_Helper smp n rg x key keySh out))) = length out"
  by (rule helper_secret [of n smp rg x key keySh out]) (simp_all add: grown_def)

subsection \<open>A call of helper and parties\<close>

definition joint ::
  "vec_id \<Rightarrow> 'f mask \<times> 'g RandGenPool \<times> 'f list list \<Rightarrow> (nat \<Rightarrow> 'f mask \<times> nat) \<Rightarrow> (nat \<Rightarrow> ('g, 'f) am_st) \<Rightarrow> nat \<Rightarrow>
   'f mask \<times> ('g, 'f) am_st" where
  "joint b H P st p = (if p = 0 then am_put b H (st 0) else am_take b (P p) (st p))"

definition am_sync :: "nat \<Rightarrow> (nat \<Rightarrow> 'f::comm_ring_1) \<Rightarrow> (nat \<Rightarrow> ('g, 'f) am_st) \<Rightarrow> bool" where
  "am_sync n kf st \<longleftrightarrow> 0 < n \<and> am_key (st 0) = psum n kf \<and> length (am_keySh (st 0)) = Suc n \<and> am_keySh (st 0) ! 0 = 0 \<and>
     (\<forall>p\<in>{1..n}. am_keySh (st 0) ! p = kf p \<and> am_key (st p) = kf p) \<and>
     (\<forall>b. length (b_out (am_buf (st 0) b)) = n \<and>
        (\<forall>p\<in>{1..n}. b_idx (am_buf (st p) b) = length (b_out (am_buf (st 0) b) ! (p - 1))))"

definition am_bok :: "nat \<Rightarrow> (nat \<Rightarrow> ('g, 'f) am_st) \<Rightarrow> bool" where
  "am_bok n st \<longleftrightarrow> (\<forall>p\<in>{1..n}. \<forall>b. prefix (b_out (am_buf (st 0) b) ! (p - 1)) (b_in (am_buf (st p) b)))"

lemma joint_sel:
  "am_key (snd (joint b H P st p)) = am_key (st p)" "am_keySh (snd (joint b H P st p)) = am_keySh (st p)"
  "b_in (am_buf (snd (joint b H P st p)) b') = b_in (am_buf (st p) b')"
  "b_out (am_buf (snd (joint b H P st 0)) b') = (if b' = b then snd (snd H) else b_out (am_buf (st 0) b'))"
  "p \<noteq> 0 \<Longrightarrow> b_idx (am_buf (snd (joint b H P st p)) b') = (if b' = b then snd (P p) else b_idx (am_buf (st p) b'))"
  "fst (joint b H P st 0) = fst H" "p \<noteq> 0 \<Longrightarrow> fst (joint b H P st p) = fst (P p)"
  by (auto simp: joint_def am_put_def am_take_def split: prod.splits)

lemma joint_bok:
  assumes "am_bok n (\<lambda>p. snd (joint b H P st p))" "\<And>i. prefix (b_out (am_buf (st 0) b) ! i) (snd (snd H) ! i)"
  shows "am_bok n st"
  unfolding am_bok_def
proof (intro ballI allI)
  fix p b' assume "p \<in> {1..n}"
  with assms(1) have "prefix (b_out (am_buf (snd (joint b H P st 0)) b') ! (p - 1)) (b_in (am_buf (st p) b'))"
    unfolding am_bok_def joint_sel(3) by blast
  then show "prefix (b_out (am_buf (st 0) b') ! (p - 1)) (b_in (am_buf (st p) b'))"
    using prefix_order.trans [OF assms(2)] by (auto simp: joint_sel split: if_splits)
qed

lemma joint_sync:
  assumes "am_sync n kf st" "length (snd (snd H)) = n"
    and "\<And>p. p \<in> {1..n} \<Longrightarrow> snd (P p) = length (snd (snd H) ! (p - 1))"
  shows "am_sync n kf (\<lambda>p. snd (joint b H P st p))"
  using assms by (auto simp: am_sync_def joint_sel)

text \<open>
  The helper shares \<open>x\<close> by way of the vectors \<open>b\<close>, perhaps with a value \<open>z\<close> for party \<open>d\<close> after the share.
\<close>

lemma am_deal:
  fixes st :: "nat \<Rightarrow> ('g, 'f::comm_ring_1) am_st"
  assumes sync: "am_sync n kf st"
    and H: "H = randomShareSecret_Helper smp n rg x (am_key (st 0)) (am_keySh (st 0)) (b_out (am_buf (st 0) b))"
    and H': "fst H' = fst H" "length (snd (snd H')) = n" "\<And>p. p \<in> {1..n} \<Longrightarrow> prefix (snd (snd H) ! (p - 1)) (snd (snd H') ! (p - 1))"
    and P: "\<And>p. p \<in> {1..n} \<Longrightarrow> fst (P p) = fst (randomShare_Party (am_key (st p)) (b_in (am_buf (st p) b)) (b_idx (am_buf (st p) b)))"
    and bok: "am_bok n (\<lambda>p. snd (joint b H' P st p))"
  shows "dealt n kf (snd (fst (joint b H' P st 0))) (\<lambda>p. fst (fst (joint b H' P st p))) x"
    and "\<And>p. p \<in> {1..n} \<Longrightarrow> length (snd (snd H) ! (p - 1)) = b_idx (am_buf (st p) b) + 2"
proof -
  let ?key = "am_key (st 0)" and ?ks = "am_keySh (st 0)" and ?out = "b_out (am_buf (st 0) b)"
  have S: "0 < n" "?key = psum n kf" "length ?ks = Suc n" "?ks ! 0 = 0" "length ?out = n"
    "\<And>p. p \<in> {1..n} \<Longrightarrow> ?ks ! p = kf p \<and> am_key (st p) = kf p \<and> b_idx (am_buf (st p) b) = length (?out ! (p - 1))"
    using sync by (auto simp: am_sync_def)
  obtain rg' f g out' where Heq: "H = ((share_start ?ks, \<lparr>macKey = ?key, tp_key_sh = ?ks ! 0 # map (\<lambda>i. ?ks ! i) (parties n),
          tp_values = 0 # map f [1..<n] @ [x - psum (n - 1) f], tp_tags = 0 # map g [1..<n] @ [?key * x - psum (n - 1) g]\<rparr>),
       rg', out')"
    and gr: "grown n (f(n := x - psum (n - 1) f)) (g(n := ?key * x - psum (n - 1) g)) ?out out'"
    unfolding H by (rule helper_secret [OF S(1)])
  have out': "length out' = n" "\<And>p. p \<in> {1..n} \<Longrightarrow> out' ! (p - 1) =
      (?out ! (p - 1) @ [if p = n then x - psum (n - 1) f else f p]) @ [if p = n then ?key * x - psum (n - 1) g else g p]"
    using gr S(5) by (auto simp: grown_def)
  show "length (snd (snd H) ! (p - 1)) = b_idx (am_buf (st p) b) + 2" if "p \<in> {1..n}" for p
    using S(6) [OF that] out'(2) [OF that] by (simp add: Heq)
  have sh: "valueAt (fst (fst (P p))) = (if p = n then x - psum (n - 1) f else f p) \<and>
      tagAt (fst (fst (P p))) = (if p = n then ?key * x - psum (n - 1) g else g p) \<and> key_sh (fst (fst (P p))) = kf p"
    if p: "p \<in> {1..n}" for p
  proof -
    have "prefix (snd (snd H') ! (p - 1)) (b_in (am_buf (st p) b))"
      using spec [OF bspec [OF bok [unfolded am_bok_def joint_sel(3,4)] p], of b] by simp
    with H'(3) [OF p] have "prefix (snd (snd H) ! (p - 1)) (b_in (am_buf (st p) b))"
      by (rule prefix_order.trans)
    then have "prefix (out' ! (p - 1)) (b_in (am_buf (st p) b))" by (simp only: Heq snd_conv)
    then have "b_in (am_buf (st p) b) ! length (?out ! (p - 1)) = (if p = n then x - psum (n - 1) f else f p) \<and>
        b_in (am_buf (st p) b) ! Suc (length (?out ! (p - 1))) = (if p = n then ?key * x - psum (n - 1) g else g p)"
      unfolding out'(2) [OF p] by (rule prefix_nth2)
    then show ?thesis using S(6) [OF p]
      by (simp add: P [OF p] randomShare_Party_def Let_def start_defs split del: if_split)
  qed
  have J: "fst (joint b H' P st p) = fst (P p)" if "p \<in> {1..n}" for p
    using that by (intro joint_sel(7)) simp
  show "dealt n kf (snd (fst (joint b H' P st 0))) (\<lambda>p. fst (fst (joint b H' P st p))) x"
    unfolding joint_sel(6) H'(1) Heq fst_conv snd_conv
    by (rule dealt_parts [OF S(1-4), where f = f and g = g and vn = "x - psum (n - 1) f"])
      (use S(1,6) sh J in auto)
qed

subsection \<open>The interpretation\<close>

lemma am_share_joint: "am_share E p (st p) = joint Rand_sh
    (randomShare_Helper (oe_field E) (oe_nP E) (am_rgen (st 0)) (am_key (st 0)) (am_keySh (st 0)) (b_out (am_buf (st 0) Rand_sh)))
    (\<lambda>p. randomShare_Party (am_key (st p)) (b_in (am_buf (st p) Rand_sh)) (b_idx (am_buf (st p) Rand_sh))) st p"
  by (simp add: am_share_def joint_def)

lemma am_sec_joint: "am_sec E p (x p) (st p) = joint Rand_sh_sec
    (randomShareSecret_Helper (oe_field E) (oe_nP E) (am_rgen (st 0)) (x 0) (am_key (st 0)) (am_keySh (st 0)) (b_out (am_buf (st 0) Rand_sh_sec)))
    (\<lambda>p. randomShare_Party (am_key (st p)) (b_in (am_buf (st p) Rand_sh_sec)) (b_idx (am_buf (st p) Rand_sh_sec))) st p"
  by (simp add: am_sec_def joint_def randomShareSecret_Party_def)

lemma randomShare_Helper_eq: "randomShare_Helper smp n rg key keySh out =
    randomShareSecret_Helper smp n (snd (draw_self smp rg)) (fst (draw_self smp rg)) key keySh out"
  by (simp add: randomShare_Helper_def split_beta)

lemma snd_randomShare_Party [simp]: "snd (randomShare_Party key v idx) = idx + 2"
  by (simp add: randomShare_Party_def Let_def)

text \<open>A call without a further value for anyone.\<close>

lemma am_plain:
  fixes n :: nat and st :: "nat \<Rightarrow> ('g, 'f::comm_ring_1) am_st" and smp :: "'g \<Rightarrow> 'f \<times> 'g"
  defines "R \<equiv> \<lambda>rg x b. joint b (randomShareSecret_Helper smp n rg x (am_key (st 0)) (am_keySh (st 0)) (b_out (am_buf (st 0) b)))
      (\<lambda>p. randomShare_Party (am_key (st p)) (b_in (am_buf (st p) b)) (b_idx (am_buf (st p) b))) st"
  shows "am_bok n (\<lambda>p. snd (R rg x b p)) \<Longrightarrow> am_bok n st"
    and "am_sync n kf st \<Longrightarrow> am_bok n (\<lambda>p. snd (R rg x b p)) \<Longrightarrow> am_sync n kf (\<lambda>p. snd (R rg x b p))"
    and "am_sync n kf st \<Longrightarrow> am_bok n (\<lambda>p. snd (R rg x b p)) \<Longrightarrow>
      dealt n kf (snd (fst (R rg x b 0))) (\<lambda>p. fst (fst (R rg x b p))) x"
proof -
  show "am_bok n (\<lambda>p. snd (R rg x b p)) \<Longrightarrow> am_bok n st"
    unfolding R_def by (rule joint_bok, assumption, rule helper_secret_prefix)
  assume sync: "am_sync n kf st" and bok: "am_bok n (\<lambda>p. snd (R rg x b p))"
  let ?H = "randomShareSecret_Helper smp n rg x (am_key (st 0)) (am_keySh (st 0)) (b_out (am_buf (st 0) b))"
  have len: "length (snd (snd ?H)) = n"
    using sync by (simp add: am_sync_def length_helper_secret)
  note D = am_deal [OF sync refl refl len prefix_order.refl refl bok [unfolded R_def]]
  show "am_sync n kf (\<lambda>p. snd (R rg x b p))"
    unfolding R_def by (rule joint_sync [OF sync len]) (simp only: D(2) snd_randomShare_Party)
  show "dealt n kf (snd (fst (R rg x b 0))) (\<lambda>p. fst (fst (R rg x b p))) x"
    unfolding R_def by (rule D(1))
qed

interpretation AM: dealing "oe_nP E" kf "am_share E" "am_sec E" "am_sync (oe_nP E) kf" "am_bok (oe_nP E)"
  for E :: "('g, 'f::comm_ring_1) offline_env" and kf
proof
  fix st :: "nat \<Rightarrow> ('g, 'f) am_st" and x :: "nat \<Rightarrow> 'f"
  let ?n = "oe_nP E"
  note P = am_plain [where n = ?n and smp = "oe_field E" and st = st]
  note S = am_share_joint [where st = st, unfolded randomShare_Helper_eq] am_sec_joint [where st = st]
  { assume "am_bok ?n (\<lambda>p. snd (am_share E p (st p)))"
    then show "am_bok ?n st" unfolding S by (rule P(1)) }
  { assume "am_bok ?n (\<lambda>p. snd (am_sec E p (x p) (st p)))"
    then show "am_bok ?n st" unfolding S by (rule P(1)) }
  { assume "am_sync ?n kf st" "am_bok ?n (\<lambda>p. snd (am_share E p (st p)))"
    then show "am_sync ?n kf (\<lambda>p. snd (am_share E p (st p)))" unfolding S by (rule P(2)) }
  { assume "am_sync ?n kf st" "am_bok ?n (\<lambda>p. snd (am_share E p (st p)))"
    then show "\<exists>x. dealt ?n kf (snd (fst (am_share E 0 (st 0)))) (\<lambda>p. fst (fst (am_share E p (st p)))) x"
      unfolding S by (intro exI) (rule P(3)) }
  { assume "am_sync ?n kf st" "am_bok ?n (\<lambda>p. snd (am_sec E p (x p) (st p)))"
    then show "am_sync ?n kf (\<lambda>p. snd (am_sec E p (x p) (st p)))" unfolding S by (rule P(2)) }
  { assume "am_sync ?n kf st" "am_bok ?n (\<lambda>p. snd (am_sec E p (x p) (st p)))"
    then show "dealt ?n kf (snd (fst (am_sec E 0 (x 0) (st 0)))) (\<lambda>p. fst (fst (am_sec E p (x p) (st p)))) (x 0)"
      unfolding S by (rule P(3)) }
qed

end
