(* ===== verification/Assisted_Run.thy ===== *)
theory Assisted_Run
  imports Assisted_Deal
begin

section \<open>The assisted offline phase as a whole\<close>

subsection \<open>Gates\<close>

definition am_pre ::
  "('g, 'f::comm_ring_1) offline_env \<Rightarrow> nat \<Rightarrow> 'f am_gate option list \<Rightarrow> 'f gate \<Rightarrow> ('g, 'f) am_st \<Rightarrow>
   'f am_gate option \<times> ('g, 'f) am_st" where
  "am_pre E p gs g s = (if p = 0 then helper_gate E gs g s else party_gate E p gs g s)"

text \<open>The gates the phase handles; all four sharings of a three-way multiplication are of the product of the first two masks.\<close>

definition am_kind :: "'f gate \<Rightarrow> bool" where
  "am_kind g \<longleftrightarrow> gate_typed g \<and> gtype g \<in> {kAdd, kSub, kConstAdd, kConstMul, kMul, kMul3}"

fun am_ok ::
  "nat \<Rightarrow> (nat \<Rightarrow> 'f::comm_ring_1) \<Rightarrow> (wire_t \<Rightarrow> 'f) \<Rightarrow> 'f gate \<Rightarrow> (nat \<Rightarrow> 'f am_gate) \<Rightarrow> bool" where
  "am_ok n kf \<delta> (FIn3Gate t a b c out) pgs \<longleftrightarrow>
     dealt_sel n kf mask_ab pgs (\<delta> a * \<delta> b) \<and> dealt_sel n kf mask_ac pgs (\<delta> a * \<delta> b) \<and>
     dealt_sel n kf mask_bc pgs (\<delta> a * \<delta> b) \<and> dealt_sel n kf mask_abc pgs (\<delta> a * \<delta> b)"
| "am_ok n kf \<delta> g pgs \<longleftrightarrow> arith_ok n kf \<delta> g pgs"

lemma gate_cong_am_ok: "gate_cong (am_ok n kf)"
  unfolding gate_cong_def
proof (intro allI impI)
  fix \<delta> \<delta>' :: "wire_t \<Rightarrow> 'a" and g :: "'a gate" and pgs :: "nat \<Rightarrow> 'a am_gate"
  assume "gate_typed g" "\<forall>w\<in>insert (gout g) (set (gins g)). \<delta> w = \<delta>' w"
  moreover from this have "arith_ok n kf \<delta> g pgs = arith_ok n kf \<delta>' g pgs"
    by (intro arith_ok_cong) auto
  ultimately show "am_ok n kf \<delta> g pgs = am_ok n kf \<delta>' g pgs"
    by (cases g) auto
qed

lemma am_pre_arith:
  assumes "am_kind g" "gtype g \<noteq> kMul3"
  shows "am_pre E p gs g s = pre_arith p (am_share E p) (am_sec E p) gs g s"
  using assms by (cases g) (auto simp: am_kind_def am_pre_def pre_mul_def Let_def split: prod.splits)

lemma gate_law_mul3:
  fixes E :: "('g, 'f::comm_ring_1) offline_env"
  shows "AM.gate_law E kf (am_pre E) (am_ok (oe_nP E) kf) (FIn3Gate kMul3 a b c out)"
proof -
  let ?n = "oe_nP E"
  let ?xs = "\<lambda>G p. replicate 4 (if p = 0 then secret (snd (mask_at (G p) a)) * secret (snd (mask_at (G p) b)) else 0 :: 'f)"
  let ?T = "\<lambda>G (st :: nat \<Rightarrow> ('g, 'f) am_st) p. AM.share_then E p (?xs G p) (st p)"
  have eq: "am_pre E p (G p) (FIn3Gate kMul3 a b c out) (st p) =
      (let T = ?T G st p; ms = fst (snd T) in (Some (PreprocMult3Gate (fst T) (ms ! 0) (ms ! 1) (ms ! 2) (ms ! 3)), snd (snd T)))"
    for p and G :: "nat \<Rightarrow> 'f am_gate option list" and st
    by (simp add: am_pre_def AM.share_then_def Let_def split_beta numeral_eq_Suc)
  show ?thesis
    unfolding AM.gate_law_def
  proof (intro allI impI conjI)
    fix G :: "nat \<Rightarrow> 'f am_gate option list" and st :: "nat \<Rightarrow> ('g, 'f) am_st" and \<delta>
    assume "am_bok ?n (\<lambda>p. snd (am_pre E p (G p) (FIn3Gate kMul3 a b c out) (st p)))"
    then have b: "am_bok ?n (\<lambda>p. snd (snd (?T G st p)))" by (simp add: eq Let_def)
    show "am_bok ?n st" by (rule AM.share_then_bok [OF _ b]) simp
    assume sync: "am_sync ?n kf st" and out: "gout (FIn3Gate kMul3 a b c out) \<notin> set (gins (FIn3Gate kMul3 a b c out :: 'f gate))"
      and ins: "\<forall>w\<in>set (gins (FIn3Gate kMul3 a b c out :: 'f gate)). dealt_sel ?n kf (\<lambda>gs. mask_at gs w) G (\<delta> w)"
    note T = AM.share_then_ok [where k = 4 and xs = "?xs G", OF _ sync b, simplified length_replicate]
    have sec: "secret (snd (mask_at (G 0) w)) = \<delta> w" if "w \<in> {a, b, c}" for w
      using ins that by (auto intro: dealt_sel_secret)
    show "am_sync ?n kf (\<lambda>p. snd (am_pre E p (G p) (FIn3Gate kMul3 a b c out) (st p)))"
      using T(1) by (simp add: eq Let_def)
    show "fst (am_pre E p (G p) (FIn3Gate kMul3 a b c out) (st p)) \<noteq> None" for p
      by (simp add: eq Let_def)
    obtain x where x: "dealt ?n kf (snd (fst (?T G st 0))) (\<lambda>p. fst (fst (?T G st p))) x" using T(2) by auto
    have m: "dealt ?n kf (snd (fst (snd (?T G st 0)) ! i)) (\<lambda>p. fst (fst (snd (?T G st p)) ! i)) (\<delta> a * \<delta> b)" if "i < 4" for i
      using T(3) [OF _ that] that sec by simp
    show "\<exists>x. dealt_sel ?n kf pg_mask (\<lambda>p. the (fst (am_pre E p (G p) (FIn3Gate kMul3 a b c out) (st p)))) x \<and>
        am_ok ?n kf (\<delta>(gout (FIn3Gate kMul3 a b c out :: 'f gate) := x)) (FIn3Gate kMul3 a b c out)
          (\<lambda>p. the (fst (am_pre E p (G p) (FIn3Gate kMul3 a b c out) (st p))))"
      using x m [of 0] m [of 1] m [of 2] m [of 3] out
      by (intro exI [of _ x]) (simp add: eq Let_def dealt_sel_def)
  qed
qed

lemma gate_law_am:
  fixes E :: "('g, 'f::comm_ring_1) offline_env"
  assumes "am_kind g"
  shows "AM.gate_law E kf (am_pre E) (am_ok (oe_nP E) kf) g"
proof (cases "gtype g = kMul3")
  case True
  then obtain a b c out where "g = FIn3Gate kMul3 a b c out" using assms by (cases g) (auto simp: am_kind_def)
  then show ?thesis using gate_law_mul3 by simp
next
  case False
  have "arith_gate g" using assms False by (auto simp: am_kind_def arith_gate_def)
  moreover have "am_ok (oe_nP E) kf \<delta> g pgs = arith_ok (oe_nP E) kf \<delta> g pgs" for \<delta> pgs
    using False assms by (cases g) (auto simp: am_kind_def)
  ultimately show ?thesis
    using AM.gate_law_arith [of g E kf] by (simp add: AM.gate_law_def am_pre_arith [OF assms False])
qed

subsection \<open>Inputs\<close>

definition am_inp ::
  "('g, 'f::comm_ring_1) offline_env \<Rightarrow> nat \<Rightarrow> nat \<Rightarrow> ('g, 'f) am_st \<Rightarrow> 'f am_gate \<times> ('g, 'f) am_st" where
  "am_inp E p d s = (if p = 0 then helper_input E d s else party_input p d s)"

definition am_party_of :: "(wire_t, nat) umap \<Rightarrow> wire_t \<Rightarrow> nat" where
  "am_party_of m w = (case map_of m w of None \<Rightarrow> 1 | Some d \<Rightarrow> d)"

text \<open>The helper and the party of an input know its mask.\<close>

definition am_known :: "(wire_t, nat) umap \<Rightarrow> nat \<Rightarrow> wire_t \<Rightarrow> 'r \<Rightarrow> (nat \<Rightarrow> ('r, 'b) preproc_gate) \<Rightarrow> bool" where
  "am_known m k out x pgs \<longleftrightarrow> (\<forall>p. is_PreprocInput (pgs p) \<and> inp_pid (pgs p) = am_party_of m out) \<and>
     mask_value (pgs 0) = x \<and> mask_value (pgs (am_party_of m out)) = x"

lemma am_input_law:
  fixes E :: "('g, 'f::comm_ring_1) offline_env"
  assumes n: "0 < oe_nP E" and m: "\<forall>d\<in>ran (map_of m). 1 \<le> d \<and> d \<le> oe_nP E"
  shows "AM.inp_law E kf (\<lambda>p k out. am_inp E p (am_party_of m out)) (am_known m) k out"
  unfolding AM.inp_law_def
proof (intro allI impI conjI)
  fix st :: "nat \<Rightarrow> ('g, 'f) am_st"
  let ?n = "oe_nP E" and ?d = "am_party_of m out" and ?b = Rand_sh_party
  let ?vec = "\<lambda>p. b_in (am_buf (st p) ?b)" and ?idx = "\<lambda>p. b_idx (am_buf (st p) ?b)"
  have d: "?d \<in> {1..?n}" using n m by (auto simp: am_party_of_def ran_def split: option.splits)
  define x where "x = fst (draw_self (oe_field E) (am_rgen (st 0)))"
  define H where "H = randomShareSecret_Helper (oe_field E) ?n (snd (draw_self (oe_field E) (am_rgen (st 0)))) x
      (am_key (st 0)) (am_keySh (st 0)) (b_out (am_buf (st 0) ?b))"
  define H' where "H' = (fst H, fst (snd H), push_at (?d - 1) x (snd (snd H)))"
  define P where "P p = (fst (randomShare_Party (am_key (st p)) (?vec p) (?idx p)), ?idx p + (if p = ?d then 3 else 2))" for p
  let ?R = "joint ?b H' P st"
  have pre: "prefix (snd (snd H) ! i) (snd (snd H') ! i)" for i by (simp add: H'_def push_at_prefix)
  have eq: "am_inp E p ?d (st p) = (PreprocInput (fst (?R p)) ?d (if p = 0 then secret (snd (fst (?R 0)))
      else if p = ?d then ?vec p ! (?idx p + 2) else 0), snd (?R p))" for p
    using d by (auto simp: am_inp_def helper_input_def party_input_def joint_def am_put_def am_take_def H'_def H_def x_def P_def
        randomShareWithParty_Helper_def randomShareWithParty_Dealer_def randomShareWithParty_Party_def randomShare_Party_def
        Let_def split_beta eval_nat_numeral)
  assume "am_bok ?n (\<lambda>p. snd (am_inp E p ?d (st p)))"
  then have bok: "am_bok ?n (\<lambda>p. snd (?R p))" by (simp add: eq)
  have "prefix (b_out (am_buf (st 0) ?b) ! i) (snd (snd H') ! i)" for i
    using pre prefix_order.trans helper_secret_prefix unfolding H_def by blast
  then show "am_bok ?n st" by (rule joint_bok [OF bok])
  assume sync: "am_sync ?n kf st"
  have len: "length (snd (snd H)) = ?n" using sync n by (simp add: H_def length_helper_secret am_sync_def)
  then have len': "length (snd (snd H')) = ?n" by (simp add: H'_def)
  have D: "dealt ?n kf (snd (fst (?R 0))) (\<lambda>p. fst (fst (?R p))) x"
    "\<And>p. p \<in> {1..?n} \<Longrightarrow> length (snd (snd H) ! (p - 1)) = ?idx p + 2"
    by ((rule am_deal [OF sync H_def _ len' pre _ bok]; simp only: H'_def P_def fst_conv))+
  have grow: "snd (snd H') ! (p - 1) = (if p = ?d then snd (snd H) ! (p - 1) @ [x] else snd (snd H) ! (p - 1))"
    if "p \<in> {1..?n}" for p
  proof -
    have "(?d - 1 = p - 1) = (p = ?d)" "p - 1 < length (snd (snd H))" using that d len by auto
    then show ?thesis by (simp add: H'_def nth_push_at del: One_nat_def)
  qed
  show "am_sync ?n kf (\<lambda>p. snd (am_inp E p ?d (st p)))"
    unfolding eq snd_conv by (rule joint_sync [OF sync len']) (simp add: grow D(2) P_def del: One_nat_def)
  have "prefix (snd (snd H') ! (?d - 1)) (?vec ?d)"
    using spec [OF bspec [OF bok [unfolded am_bok_def joint_sel(3,4)] d], of ?b] by simp
  then have "prefix (snd (snd H) ! (?d - 1) @ [x]) (?vec ?d)" by (simp only: grow [OF d] if_True refl)
  from prefix_nth [OF this] have known: "?vec ?d ! (?idx ?d + 2) = x" by (simp only: D(2) [OF d])
  show "\<exists>x. dealt_sel ?n kf pg_mask (\<lambda>p. fst (am_inp E p ?d (st p))) x \<and>
      am_known m k out x (\<lambda>p. fst (am_inp E p ?d (st p)))"
    using D(1) known d dealt_secret [OF D(1)]
    by (intro exI [of _ x]) (simp add: eq dealt_sel_def am_known_def)
qed

subsection \<open>The loop\<close>

definition am_step ::
  "('g, 'f::comm_ring_1) offline_env \<Rightarrow> nat \<Rightarrow> (wire_t, nat) umap \<Rightarrow> 'f gate \<Rightarrow>
   'f am_gate option list \<times> ('g, 'f) am_st \<Rightarrow> am_exn + 'f am_gate option list \<times> ('g, 'f) am_st" where
  "am_step E p m = (if p = 0 then helper_gates E m else party_gates E p m)"

lemma am_step_run:
  assumes "\<forall>g\<in>set gs. gtype g = kInp \<longrightarrow> map_of m (gout g) \<noteq> None" "\<forall>d\<in>ran (map_of m). 1 \<le> d \<and> d \<le> oe_nP E"
  shows "foldE (am_step E p m) gs (G, s) =
    (let R = fold (run_gate (am_pre E p) (\<lambda>k out. am_inp E p (am_party_of m out))) gs (G, ctr, s)
     in Inr (fst R, snd (snd R)))"
  using assms(1)
proof (induction gs arbitrary: G s ctr)
  case (Cons g gs)
  show ?case
  proof (cases "gtype g = kInp")
    case True
    with Cons.prems obtain d where d: "map_of m (gout g) = Some d" by auto
    then have "1 \<le> d \<and> d \<le> oe_nP E" using assms(2) by (auto simp: ran_def)
    with True Cons d show ?thesis
      by (simp add: am_step_def helper_gates_def party_gates_def run_gate_def umap_at_def am_party_of_def am_inp_def
          Let_def split_beta)
  next
    case False
    with Cons show ?thesis
      by (simp add: am_step_def helper_gates_def party_gates_def run_gate_def am_pre_def Let_def split_beta)
  qed
qed simp

lemma am_key_setup_sync:
  fixes E :: "('g, 'f::comm_ring_1) offline_env"
  assumes "rgs_ok (oe_nP E) rg" "0 < oe_nP E" "B 0 = helper_bufs (oe_nP E)" "\<And>p b. 0 < p \<Longrightarrow> b_idx (B p b) = 0"
  obtains kf where "am_sync (oe_nP E) kf (\<lambda>p. am_key_setup E p (rg p) (B p))"
proof -
  let ?n = "oe_nP E"
  have len: "length (replicate (Suc ?n) (0 :: 'f)) = Suc ?n" by simp
  note K = keyGen_ok [where smp = "oe_field E", OF assms(1) len]
  have eq: "am_key (am_key_setup E p (rg p) (B p)) = fst (snd (keyGen (oe_field E) ?n p (rg p) (replicate (Suc ?n) 0)))"
    "am_keySh (am_key_setup E p (rg p) (B p)) = fst (keyGen (oe_field E) ?n p (rg p) (replicate (Suc ?n) 0))"
    "am_buf (am_key_setup E p (rg p) (B p)) = B p" for p
    by (simp_all add: am_key_setup_def Let_def split_beta del: replicate_Suc)
  have "am_sync ?n (\<lambda>i. fst_draw (oe_field E) (k_p0 (rg i))) (\<lambda>p. am_key_setup E p (rg p) (B p))"
    unfolding am_sync_def eq using K assms(2-4) by (auto simp: helper_bufs_def simp del: replicate_Suc)
  then show thesis by (rule that)
qed

subsection \<open>A party's vectors do not change\<close>

definition am_ins :: "(vec_id \<Rightarrow> 'f list) \<Rightarrow> ('g, 'f) am_st \<Rightarrow> bool" where
  "am_ins V s \<longleftrightarrow> (\<forall>b. b_in (am_buf s b) = V b)"

lemma am_ins_calls:
  assumes "p \<noteq> 0" "am_ins V s"
  shows "am_ins V (snd (am_share E p s))" "am_ins V (snd (am_sec E p x s))" "am_ins V (snd (am_inp E p d s))"
  using assms by (auto simp: am_ins_def am_share_def am_sec_def am_inp_def party_input_def am_take_def Let_def split_beta)

lemma am_ins_pre:
  assumes p: "p \<noteq> 0" and s: "am_ins V s"
  shows "am_ins V (snd (am_pre E p gs g s))"
proof -
  note C = am_ins_calls(1,2) [OF p]
  show ?thesis
    using p by (cases g) (simp_all add: am_pre_def Let_def split_beta C s)
qed

lemma am_ins_run:
  assumes "p \<noteq> 0" "am_ins V s"
  shows "am_ins V (snd (snd (fold (run_gate (am_pre E p) (\<lambda>k out. am_inp E p (am_party_of m out))) gs (G, ctr, s))))"
proof (rule run_gates_inv)
  show "am_ins V (snd (am_pre E p gs g s))" if "am_ins V s" for g gs s by (rule am_ins_pre [OF assms(1) that])
  show "am_ins V (snd (am_inp E p (am_party_of m out) s))" if "am_ins V s" for k :: nat and out s
    by (rule am_ins_calls(3) [OF assms(1) that])
qed (use assms in simp)

subsection \<open>The run with its messages\<close>

definition am_offline_ok :: "('g, 'f::comm_ring_1) offline_env \<Rightarrow> 'f Circuit \<Rightarrow> (wire_t, nat) umap \<Rightarrow> bool" where
  "am_offline_ok E c m \<longleftrightarrow> 0 < oe_nP E \<and> circuit_ok c \<and>
     (\<forall>g\<in>set (circ_gates c). gtype g = kInp \<or> am_kind g) \<and>
     (\<forall>g\<in>set (circ_gates c). gtype g = kInp \<longrightarrow> map_of m (gout g) \<noteq> None) \<and>
     (\<forall>d\<in>ran (map_of m). 1 \<le> d \<and> d \<le> oe_nP E)"

text \<open>Party \<open>pid\<close> gets the messages the helper's run sends to it.\<close>

definition am_offline_run ::
  "('g, 'f::comm_ring_1) offline_env \<Rightarrow> 'f Circuit \<Rightarrow> (wire_t, nat) umap \<Rightarrow> (nat \<Rightarrow> 'g RandGenPool) \<Rightarrow> nat \<Rightarrow>
   am_exn + 'f am_gate option list \<times> ('g, 'f) am_st \<times> 'f am_msgs list" where
  "am_offline_run E c m rg pid =
     (case am_setWireMasks E (orderGatesByLevel c) 0 m (rg 0) ([], [], []) of
        Inl e \<Rightarrow> Inl e
      | Inr (gs, s, msgs) \<Rightarrow>
          if pid = 0 then Inr (gs, s, msgs)
          else am_setWireMasks E (orderGatesByLevel c) pid m (rg pid) (msgs ! (pid - 1)))"

definition am_st ::
  "('g, 'f::comm_ring_1) offline_env \<Rightarrow> 'f Circuit \<Rightarrow> (wire_t, nat) umap \<Rightarrow> (nat \<Rightarrow> 'g RandGenPool) \<Rightarrow>
   (nat \<Rightarrow> vec_id \<Rightarrow> 'f vec_buf) \<Rightarrow> nat \<Rightarrow> 'f am_gate option list \<times> nat \<times> ('g, 'f) am_st" where
  "am_st E c m rg B = run_joint (am_pre E) (\<lambda>p k out. am_inp E p (am_party_of m out))
     (concat (gates_by_level (orderGatesByLevel c))) 0 (\<lambda>p. replicate (length (circ_gates c)) None)
     (\<lambda>p. am_key_setup E p (rg p) (B p))"

lemma am_loop_eq:
  assumes "am_offline_ok E c m"
  shows "foldE (foldE (am_step E p m)) (gates_by_level (orderGatesByLevel c))
      (replicate (num_gates (orderGatesByLevel c)) None, am_key_setup E p (rg p) (B p)) =
    Inr (fst (am_st E c m rg B p), snd (snd (am_st E c m rg B p)))"
proof -
  let ?gs = "concat (gates_by_level (orderGatesByLevel c))"
  have g: "\<forall>g\<in>set ?gs. gtype g = kInp \<longrightarrow> map_of m (gout g) \<noteq> None"
    using assms unfolding am_offline_ok_def by (metis set_orderGatesByLevel)
  have d: "\<forall>d\<in>ran (map_of m). 1 \<le> d \<and> d \<le> oe_nP E" using assms by (simp add: am_offline_ok_def)
  from am_step_run [OF g d, of p "replicate (length (circ_gates c)) None" "am_key_setup E p (rg p) (B p)" 0]
  show ?thesis
    by (simp add: foldE_concat am_st_def run_joint_def Let_def del: set_concat)
qed

lemma party_helper_msgs: "fst (party_vecs (helper_msgs v bv)) = v"
  using split_join_vecs [of v] by (simp add: party_vecs_def helper_msgs_def) (simp add: offline_lengths_def)

lemma party_bufs_in: "b_in (party_bufs (vecs_for p s) b) = b_out (am_buf s b) ! (p - 1)"
  by (simp add: party_bufs_def vecs_for_def split: vec_id.split)

lemma am_offline_dealt:
  fixes E :: "('g, 'f::comm_ring_1) offline_env"
  assumes ok: "am_offline_ok E c m" and rgs: "rgs_ok (oe_nP E) rg"
  shows "\<exists>G st msgs kf \<delta>. (\<forall>p. am_offline_run E c m rg p = Inr (G p, st p, msgs p)) \<and>
    am_sync (oe_nP E) kf st \<and>
    gates_dealt (oe_nP E) kf (am_ok (oe_nP E) kf) (am_known m) \<delta> (concat (gates_by_level (orderGatesByLevel c))) 0 G"
proof -
  let ?n = "oe_nP E"
  have n: "0 < ?n" and c: "circuit_ok c" and kinds: "\<forall>g\<in>set (circ_gates c). gtype g = kInp \<or> am_kind g"
    and d: "\<forall>d\<in>ran (map_of m). 1 \<le> d \<and> d \<le> ?n"
    using ok by (auto simp: am_offline_ok_def)
  define s0 where "s0 = snd (snd (am_st E c m rg (\<lambda>_. helper_bufs ?n) 0))"
  define M where "M = map (\<lambda>p. helper_msgs (vecs_for p s0) no_vecs) (parties ?n)"
  define B where "B p = (if p = 0 then helper_bufs ?n else party_bufs (fst (party_vecs (M ! (p - 1)))))" for p
  let ?R = "am_st E c m rg B"
  have R0: "?R 0 = am_st E c m rg (\<lambda>_. helper_bufs ?n) 0" by (simp add: am_st_def run_joint_def B_def)
  note loop = am_loop_eq [OF ok, of _ rg B, unfolded am_step_def]
  have helper: "am_setWireMasks E (orderGatesByLevel c) 0 m (rg 0) ms = Inr (fst (?R 0), snd (snd (?R 0)), M)" for ms
    using loop [of 0] by (simp add: am_setWireMasks_def setWireMasksHelper_def B_def M_def s0_def R0)
  have party: "am_setWireMasks E (orderGatesByLevel c) p m (rg p) (M ! (p - 1)) = Inr (fst (?R p), snd (snd (?R p)), [])"
    if "p \<noteq> 0" for p
    using loop [of p] that by (simp add: am_setWireMasks_def am_setWireMasksParty_def B_def split_beta)
  have run: "am_offline_run E c m rg p = Inr (fst (?R p), snd (snd (?R p)), if p = 0 then M else [])" for p
    using helper party [of p] by (auto simp: am_offline_run_def)
  obtain kf where sync: "am_sync ?n kf (\<lambda>p. am_key_setup E p (rg p) (B p))"
    by (rule am_key_setup_sync [OF rgs n, of B]) (simp_all add: B_def party_bufs_def)
  have bok: "am_bok ?n (\<lambda>p. snd (snd (?R p)))"
    unfolding am_bok_def
  proof (intro ballI allI)
    fix p b assume p: "p \<in> {1..?n}"
    then have "am_ins (\<lambda>b. b_in (B p b)) (am_key_setup E p (rg p) (B p))"
      by (simp add: am_ins_def am_key_setup_def Let_def split_beta)
    then have "am_ins (\<lambda>b. b_in (B p b)) (snd (snd (?R p)))"
      unfolding am_st_def run_joint_def using p by (intro am_ins_run) auto
    moreover have "M ! (p - 1) = helper_msgs (vecs_for p s0) no_vecs"
      using p unfolding M_def by (subst nth_map) (auto simp: nth_upt simp del: upt_Suc)
    ultimately have "b_in (am_buf (snd (snd (?R p))) b) = b_out (am_buf s0 b) ! (p - 1)"
      using p by (simp add: am_ins_def B_def party_helper_msgs party_bufs_in)
    then show "prefix (b_out (am_buf (snd (snd (?R 0))) b) ! (p - 1)) (b_in (am_buf (snd (snd (?R p))) b))"
      by (simp add: R0 s0_def)
  qed
  have laws: "\<forall>g\<in>set (circ_gates c). gtype g = kInp \<or> AM.gate_law E kf (am_pre E) (am_ok ?n kf) g"
    using kinds gate_law_am by blast
  note D = AM.circuit_dealt(2) [OF c laws gate_cong_am_ok am_input_law [OF n d] bok [unfolded am_st_def] sync, folded am_st_def]
  then obtain \<delta> where "am_sync ?n kf (\<lambda>p. snd (snd (?R p)))"
    "gates_dealt ?n kf (am_ok ?n kf) (am_known m) \<delta> (concat (gates_by_level (orderGatesByLevel c))) 0 (\<lambda>p. fst (?R p))"
    by blast
  with run show ?thesis
    by (intro exI [of _ "\<lambda>p. fst (?R p)"] exI [of _ "\<lambda>p. snd (snd (?R p))"] exI [of _ "\<lambda>p. if p = 0 then M else []"]
        exI [of _ kf] exI [of _ \<delta>]) simp
qed

lemma am_rgens_ok: "rgs_ok n (\<lambda>p. am_rgen_new reseed fresh p seed) \<longleftrightarrow> n \<le> seed"
proof -
  have "k_pi (am_RandGenPool_new reseed fresh p N s) = replicate (Suc N) (reseed s)" for p N s
  proof -
    have "fold (\<lambda>i k. k[i := x]) [0..<m] (replicate N y) = replicate m x @ replicate (N - m) y" if "m \<le> N" for m N :: nat and x y :: 'a
      using that
    proof (induction m)
      case (Suc m)
      then show ?case
        by (simp add: list_update_append Suc_diff_Suc replicate_append_same [symmetric] flip: replicate_Suc)
           (metis Suc.prems Suc_diff_Suc append_Cons append_assoc list_update_code(2) replicate_Suc replicate_append_same Suc_le_lessD self_append_conv2)
    qed simp
    from this [of "Suc N" "Suc N"] show ?thesis by (simp add: am_RandGenPool_new_def)
  qed
  then show ?thesis by (auto simp: rgs_ok_def am_rgen_new_def am_RandGenPool_new_def nth_append simp del: replicate_Suc)
qed

subsection \<open>What the phase guarantees\<close>

definition am_circ :: "u64 Circuit" where
  "am_circ = \<lparr>circ_outputs = [4], circ_gates =
     [Gate kInp 0, Gate kInp 1, Gate kInp 2, FIn3Gate kMul3 0 1 2 3, FIn2Gate kMul 2 3 4]\<rparr>"

definition am_env :: "(nat, u64) offline_env" where
  "am_env = \<lparr>oe_nP = 2, oe_field = (\<lambda>g. (word_of_nat (7 * g + 3), g + 1)),
     oe_bool = (\<lambda>g. (BR (g mod 3 = 0), g + 1)), oe_conv = (\<lambda>x. x)\<rparr>"

lemma am_ex_ok: "am_offline_ok am_env am_circ [(0, 1), (1, 2), (2, 2)]"
proof -
  have "circuit_ok am_circ"
    by (simp add: circuit_ok_def gates_ok_def am_circ_def less_Suc_eq numeral_eq_Suc)
  then show ?thesis
    by (auto simp: am_offline_ok_def am_env_def am_circ_def am_kind_def ran_def split: if_splits)
qed

text \<open>
  C37: the assisted offline phase, run by the helper and \<open>nP\<close> parties with its messages, raises no exception
  and ends in authenticated sharings that fit together: of the mask of every wire, of the product of the
  input masks for a two-way multiplication, and of what \<open>am_ok\<close> says for a three-way one. The helper and the
  party of an input know its mask, and the helper's output masks are the masks of the output wires.
\<close>

theorem assisted_offline_deals:
  fixes E :: "('g, 'f::comm_ring_1) offline_env"
  assumes "am_offline_ok E c m" and "oe_nP E \<le> seed"
  shows "\<exists>G st msgs kf \<delta>.
    (\<forall>p. am_offline_run E c m (\<lambda>p. am_rgen_new reseed fresh p seed) p = Inr (G p, st p, msgs p)) \<and>
    am_sync (oe_nP E) kf st \<and>
    gates_dealt (oe_nP E) kf (am_ok (oe_nP E) kf) (am_known m) \<delta> (concat (gates_by_level (orderGatesByLevel c))) 0 G \<and>
    am_getOutputMasks (orderGatesByLevel c) 0 (G 0) = map \<delta> (circ_outputs c)"
proof -
  have "rgs_ok (oe_nP E) (\<lambda>p. am_rgen_new reseed fresh p seed)" using assms(2) by (simp only: am_rgens_ok)
  with am_offline_dealt [OF assms(1)] obtain G st msgs kf \<delta>
    where run: "\<forall>p. am_offline_run E c m (\<lambda>p. am_rgen_new reseed fresh p seed) p = Inr (G p, st p, msgs p)"
      "am_sync (oe_nP E) kf st"
    and G: "gates_dealt (oe_nP E) kf (am_ok (oe_nP E) kf) (am_known m) \<delta> (concat (gates_by_level (orderGatesByLevel c))) 0 G"
    by blast
  have c: "circuit_ok c" using assms(1) by (simp add: am_offline_ok_def)
  have "am_getOutputMasks (orderGatesByLevel c) 0 (G 0) = map \<delta> (circ_outputs c)"
    using gates_dealt_secret [OF G c] c by (auto simp: am_getOutputMasks_def circuit_ok_def)
  with run G show ?thesis by blast
qed

theorem assisted_offline_deals_witness:
  "\<exists>G st msgs kf \<delta>.
    (\<forall>p. am_offline_run am_env am_circ [(0, 1), (1, 2), (2, 2)] (\<lambda>p. am_rgen_new unat 0 p 200) p = Inr (G p, st p, msgs p)) \<and>
    am_sync (oe_nP am_env) kf st \<and>
    gates_dealt (oe_nP am_env) kf (am_ok (oe_nP am_env) kf) (am_known [(0, 1), (1, 2), (2, 2)]) \<delta>
      (concat (gates_by_level (orderGatesByLevel am_circ))) 0 G \<and>
    am_getOutputMasks (orderGatesByLevel am_circ) 0 (G 0) = map \<delta> (circ_outputs am_circ)"
  by (rule assisted_offline_deals [OF am_ex_ok]) (simp add: am_env_def)

text \<open>
  C38: for a three-way multiplication of the wires \<open>a\<close>, \<open>b\<close> and \<open>c\<close> the sharings labelled \<open>ab\<close>, \<open>ac\<close>, \<open>bc\<close> and \<open>abc\<close>
  all open to the product of the masks of \<open>a\<close> and \<open>b\<close>.
\<close>

theorem assisted_mul3_shares_ab:
  fixes E :: "('g, 'f::comm_ring_1) offline_env"
  assumes ok: "am_offline_ok E c m" and seed: "oe_nP E \<le> seed" and g: "FIn3Gate kMul3 x y z out \<in> set (circ_gates c)"
  shows "\<exists>gs st msgs. am_offline_run E c m (\<lambda>p. am_rgen_new reseed fresh p seed) 0 = Inr (gs, st, msgs) \<and>
    (let pg = the (gs ! out); prod = secret (snd (mask_at gs x)) * secret (snd (mask_at gs y))
     in map (\<lambda>sh. secret (snd sh)) [mask_ab pg, mask_ac pg, mask_bc pg, mask_abc pg] = replicate 4 prod)"
proof -
  have "rgs_ok (oe_nP E) (\<lambda>p. am_rgen_new reseed fresh p seed)" using seed by (simp only: am_rgens_ok)
  with am_offline_dealt [OF ok] obtain G st msgs kf \<delta>
    where run: "\<forall>p. am_offline_run E c m (\<lambda>p. am_rgen_new reseed fresh p seed) p = Inr (G p, st p, msgs p)"
    and G: "gates_dealt (oe_nP E) kf (am_ok (oe_nP E) kf) (am_known m) \<delta> (concat (gates_by_level (orderGatesByLevel c))) 0 G"
    by blast
  have c: "circuit_ok c" using ok by (simp add: am_offline_ok_def)
  have "FIn3Gate kMul3 x y z out \<in> set (concat (gates_by_level (orderGatesByLevel c)))"
    using g c by (simp add: set_orderGatesByLevel del: set_concat)
  then have mul: "am_ok (oe_nP E) kf \<delta> (FIn3Gate kMul3 x y z out) (\<lambda>p. the (G p ! out))"
    using G unfolding gates_dealt_def by fastforce
  obtain i where i: "i < length (circ_gates c)" "circ_gates c ! i = FIn3Gate kMul3 x y z out"
    using g by (auto simp: in_set_conv_nth)
  have "x < i" "y < i" using c i gates_okD(3) [of "circ_gates c" i] by (auto simp: circuit_ok_def)
  then have "secret (snd (mask_at (G 0) x)) = \<delta> x" "secret (snd (mask_at (G 0) y)) = \<delta> y"
    using gates_dealt_secret [OF G c] i(1) by simp_all
  with mul have "map (\<lambda>sh. secret (snd sh)) [mask_ab (the (G 0 ! out)), mask_ac (the (G 0 ! out)), mask_bc (the (G 0 ! out)), mask_abc (the (G 0 ! out))] =
      replicate 4 (secret (snd (mask_at (G 0) x)) * secret (snd (mask_at (G 0) y)))"
    by (simp add: numeral_eq_Suc) (blast dest: dealt_sel_secret)
  with run show ?thesis by (intro exI) (auto simp: Let_def)
qed

theorem assisted_mul3_shares_ab_witness:
  "\<exists>gs st msgs. am_offline_run am_env am_circ [(0, 1), (1, 2), (2, 2)] (\<lambda>p. am_rgen_new unat 0 p 200) 0 = Inr (gs, st, msgs) \<and>
    (let pg = the (gs ! 3); prod = secret (snd (mask_at gs 0)) * secret (snd (mask_at gs 1))
     in map (\<lambda>sh. secret (snd sh)) [mask_ab pg, mask_ac pg, mask_bc pg, mask_abc pg] = replicate 4 prod)"
  by (rule assisted_mul3_shares_ab [OF am_ex_ok]) (simp_all add: am_env_def am_circ_def)

end
