(* ===== verification/AppBuild.thy ===== *)
theory AppBuild
  imports CircuitGen
begin

section \<open>Building circuits over vectors without bounds checks\<close>

text \<open>
  The application classes (\<open>utils/liquidity_matching.h\<close>, \<open>utils/darkpool.h\<close>,
  \<open>utils/neural_network.h\<close>) drive the builder of \<open>Circuits\<close> with wires kept in vectors they index
  without a check. Their operations live in a monad with three outcomes: \<open>None\<close> is an access
  outside a vector, \<open>Some (Inl e)\<close> an exception of the builder, \<open>Some (Inr (x, c))\<close> a result and the
  circuit afterwards. \<open>makes\<close> extends the judgement \<open>builds\<close> of \<open>CircuitGen\<close>: new input wires may be
  created, which the generators only do at the start; \<open>marks\<close> also allows new outputs.
\<close>

type_synonym ('r, 'a) appb = "'r Circuit \<Rightarrow> (exn + 'a \<times> 'r Circuit) option"

definition retA :: "'a \<Rightarrow> ('r, 'a) appb" where
  "retA x c = Some (Inr (x, c))"

definition liftA :: "('r, 'a) builder \<Rightarrow> ('r, 'a) appb" where
  "liftA m c = Some (m c)"

definition bindA :: "('r, 'a) appb \<Rightarrow> ('a \<Rightarrow> ('r, 'b) appb) \<Rightarrow> ('r, 'b) appb" where
  "bindA m k c = (case m c of None \<Rightarrow> None | Some (Inl e) \<Rightarrow> Some (Inl e) | Some (Inr (x, c')) \<Rightarrow> k x c')"

definition undefA :: "('r, 'a) appb" where
  "undefA c = None"

fun forA :: "('i \<Rightarrow> 's \<Rightarrow> ('r, 's) appb) \<Rightarrow> 'i list \<Rightarrow> 's \<Rightarrow> ('r, 's) appb" where
  "forA f [] s = retA s"
| "forA f (i # is) s = bindA (f i s) (forA f is)"

text \<open>Reading \<open>xs[i]\<close> and writing \<open>xs[i] = x\<close>.\<close>

definition atA :: "'x list \<Rightarrow> nat \<Rightarrow> ('r, 'x) appb" where
  "atA xs i = (if i < length xs then retA (xs ! i) else undefA)"

definition putA :: "'x list \<Rightarrow> nat \<Rightarrow> 'x \<Rightarrow> ('r, 'x list) appb" where
  "putA xs i x = (if i < length xs then retA (xs[i := x]) else undefA)"

definition inputA :: "('r, wire_t) appb" where
  "inputA = liftA inputB"

definition outputA :: "wire_t \<Rightarrow> ('r, unit) appb" where
  "outputA w = liftA (outputB w)"

subsection \<open>Reasoning\<close>

text \<open>\<open>grows\<close>: gates, inputs among them, have been appended, and the outputs are the same.\<close>

definition grows :: "'r Circuit \<Rightarrow> 'r Circuit \<Rightarrow> bool" where
  "grows c c' \<longleftrightarrow> circuit_ok c' \<and> prefix (circ_gates c) (circ_gates c') \<and> circ_outputs c' = circ_outputs c"

definition makes :: "'r Circuit \<Rightarrow> ('r, 'a) appb \<Rightarrow> ('a \<Rightarrow> 'r Circuit \<Rightarrow> bool) \<Rightarrow> bool" where
  "makes c m Q \<longleftrightarrow> (\<exists>x c'. m c = Some (Inr (x, c')) \<and> grows c c' \<and> Q x c')"

definition marks :: "'r Circuit \<Rightarrow> ('r, 'a) appb \<Rightarrow> ('a \<Rightarrow> 'r Circuit \<Rightarrow> bool) \<Rightarrow> bool" where
  "marks c m Q \<longleftrightarrow> (\<exists>x c'. m c = Some (Inr (x, c')) \<and> circuit_ok c' \<and> Q x c')"

lemma extends_grows: "extends c c' \<Longrightarrow> grows c c'"
  by (simp add: extends_def grows_def)

lemma grows_refl: "circuit_ok c \<Longrightarrow> grows c c"
  by (simp add: grows_def)

lemma grows_trans [trans]: "grows c c' \<Longrightarrow> grows c' c'' \<Longrightarrow> grows c c''"
  by (auto simp: grows_def intro: prefix_order.trans)

lemma grows_ok: "grows c c' \<Longrightarrow> circuit_ok c'"
  by (simp add: grows_def)

lemma grows_outputs: "grows c c' \<Longrightarrow> circ_outputs c' = circ_outputs c"
  by (simp add: grows_def)

lemma grows_length: "grows c c' \<Longrightarrow> length (circ_gates c) \<le> length (circ_gates c')"
  by (auto simp: grows_def dest: prefix_length_le)

lemma has_grows: "has R inp c w x \<Longrightarrow> grows c c' \<Longrightarrow> has R inp c' w x"
  by (auto simp: grows_def has_def wval_def prefix_def wire_vals_prefix)

lemma makesI: "m c = Some (Inr (x, c')) \<Longrightarrow> grows c c' \<Longrightarrow> P x c' \<Longrightarrow> makes c m P"
  by (auto simp: makes_def)

lemma makesE:
  assumes "makes c m Q"
  obtains x c' where "m c = Some (Inr (x, c'))" "grows c c'" "Q x c'"
  using assms by (auto simp: makes_def)

lemma makes_lift: "builds c m Q \<Longrightarrow> makes c (liftA m) Q"
  by (auto simp: builds_def makes_def liftA_def extends_grows)

lemma makes_ret: "circuit_ok c \<Longrightarrow> Q x c \<Longrightarrow> makes c (retA x) Q"
  by (simp add: makes_def retA_def grows_refl)

lemma makes_bind:
  assumes "makes c m P" and "\<And>x c'. grows c c' \<Longrightarrow> P x c' \<Longrightarrow> makes c' (k x) Q"
  shows "makes c (bindA m k) Q"
proof -
  from assms(1) obtain x c' where m: "m c = Some (Inr (x, c'))" "grows c c'" "P x c'" by (rule makesE)
  from assms(2) [OF m(2,3)] obtain y c'' where "k x c' = Some (Inr (y, c''))" "grows c' c''" "Q y c''"
    by (rule makesE)
  with m show ?thesis by (auto simp: makes_def bindA_def intro: grows_trans)
qed

lemma makes_weaken: "makes c m P \<Longrightarrow> (\<And>x c'. grows c c' \<Longrightarrow> P x c' \<Longrightarrow> Q x c') \<Longrightarrow> makes c m Q"
  by (auto simp: makes_def)

text \<open>Running a sequence whose steps are known: unfold one \<open>bindA\<close>, rewrite the result of the step.\<close>

definition continueA :: "(exn + 'a \<times> 'r Circuit) option \<Rightarrow> ('a \<Rightarrow> ('r, 'b) appb) \<Rightarrow> (exn + 'b \<times> 'r Circuit) option" where
  "continueA r k = (case r of None \<Rightarrow> None | Some (Inl e) \<Rightarrow> Some (Inl e) | Some (Inr (x, c')) \<Rightarrow> k x c')"

lemma bindA_run: "bindA m k c = continueA (m c) k"
  by (simp add: bindA_def continueA_def)

lemma continueA_simps [simp]:
  "continueA None k = None" "continueA (Some (Inl e)) k = Some (Inl e)" "continueA (Some (Inr (x, c'))) k = k x c'"
  by (simp_all add: continueA_def)

lemma bindA_ret [simp]: "bindA (retA x) k = k x"
  by (simp add: bindA_def retA_def fun_eq_iff)

lemma bindA_undef [simp]: "bindA undefA k = undefA"
  by (simp add: bindA_def undefA_def fun_eq_iff)

lemma bindA_assoc: "bindA (bindA m k) h = bindA m (\<lambda>x. bindA (k x) h)"
  by (auto simp: bindA_def fun_eq_iff split: option.splits sum.splits)

lemma atA_ret [simp]: "i < length xs \<Longrightarrow> atA xs i = retA (xs ! i)"
  by (simp add: atA_def)

lemma putA_ret [simp]: "i < length xs \<Longrightarrow> putA xs i x = retA (xs[i := x])"
  by (simp add: putA_def)

lemma putA_fun: "i < length xs \<Longrightarrow> putA xs i = (\<lambda>x. retA (xs[i := x]))"
  by (rule ext) simp

lemma forA_Nil_ret: "forA f [] = retA"
  by (simp add: fun_eq_iff)

lemma forA_Cons_bind: "forA f (i # is) = (\<lambda>s. bindA (f i s) (forA f is))"
  by (rule ext) simp

lemma forA_append: "forA f (is @ js) s = bindA (forA f is s) (forA f js)"
proof (induction "is" arbitrary: s)
  case (Cons i "is")
  then have "forA f (is @ js) = (\<lambda>s. bindA (forA f is s) (forA f js))" by (rule ext)
  then show ?case by (simp add: bindA_assoc)
qed simp

lemma forA_cong: "(\<And>i s. i \<in> set is \<Longrightarrow> f i s = g i s) \<Longrightarrow> forA f is s = forA g is s"
proof (induction "is" arbitrary: s)
  case (Cons i "is")
  then have "forA f is = forA g is" by (intro ext) simp
  then show ?case by (simp add: Cons.prems)
qed simp

lemma forA_nested: "forA (\<lambda>b s. forA (f b) js s) is s = forA (\<lambda>(b, i) s. f b i s) [(b, i). b \<leftarrow> is, i \<leftarrow> js] s"
proof (induction "is" arbitrary: s)
  case (Cons b "is")
  have "forA (\<lambda>(b, i) s. f b i s) (map (Pair b) js) s = forA (f b) js s" for s
  proof (induction js arbitrary: s)
    case (Cons j js)
    then have "forA (\<lambda>(b, i) s. f b i s) (map (Pair b) js) = forA (f b) js" by (rule ext)
    then show ?case by simp
  qed simp
  moreover have "forA (\<lambda>b s. forA (f b) js s) is = forA (\<lambda>(b, i) s. f b i s) [(b, i). b \<leftarrow> is, i \<leftarrow> js]"
    using Cons.IH by (rule ext)
  ultimately show ?case by (simp add: forA_append)
qed simp

lemma forA_collect: "forA (\<lambda>i v. retA (v @ [f i])) is v = retA (v @ map f is)"
  by (induction "is" arbitrary: v) simp_all

lemma makes_for:
  assumes "circuit_ok c" "I [] s c"
    and step: "\<And>dn i rest s c'. is = dn @ i # rest \<Longrightarrow> grows c c' \<Longrightarrow> I dn s c' \<Longrightarrow>
      makes c' (f i s) (I (dn @ [i]))"
  shows "makes c (forA f is s) (I is)"
  using step
proof (induction "is" rule: rev_induct)
  case Nil
  show ?case using assms(1,2) by (simp add: makes_ret)
next
  case (snoc i "is")
  have "makes c (forA f is s) (I is)"
  proof (rule snoc.IH)
    fix dn j rest s c' assume "is = dn @ j # rest" "grows c c'" "I dn s c'"
    then show "makes c' (f j s) (I (dn @ [j]))" by (intro snoc.prems [of dn j "rest @ [i]"]) simp_all
  qed
  then show ?case
    unfolding forA_append
  proof (rule makes_bind)
    fix s' c' assume "grows c c'" "I is s' c'"
    then have "makes c' (f i s') (I (is @ [i]))" by (intro snoc.prems [of "is" i "[]"]) simp_all
    then have "makes c' (bindA (f i s') retA) (I (is @ [i]))"
      by (rule makes_bind) (auto intro: makes_ret grows_ok)
    then show "makes c' (forA f [i] s') (I (is @ [i]))" by (simp add: forA_Nil_ret)
  qed
qed

lemma makes_upt:
  assumes "circuit_ok c" "I a s c" "a \<le> b"
    and "\<And>i s c'. a \<le> i \<Longrightarrow> i < b \<Longrightarrow> grows c c' \<Longrightarrow> I i s c' \<Longrightarrow> makes c' (f i s) (I (Suc i))"
  shows "makes c (forA f [a..<b] s) (I b)"
proof -
  have "makes c (forA f [a..<b] s) (\<lambda>s c. I (a + length [a..<b]) s c)"
  proof (rule makes_for [where I = "\<lambda>dn. I (a + length dn)"])
    fix dn i rest s c' assume "[a..<b] = dn @ i # rest" "grows c c'" "I (a + length dn) s c'"
    with upt_split [OF this(1)] show "makes c' (f i s) (I (a + length (dn @ [i])))" using assms(4) by simp
  qed (use assms in simp_all)
  then show ?thesis using assms(3) by simp
qed

text \<open>A loop over \<open>0, \<dots>, n - 1\<close> with an invariant indexed by the counter.\<close>

lemmas makes_upto = makes_upt [where a = 0, simplified]

text \<open>A loop that writes one wire per round.\<close>

lemma makes_fill:
  assumes "circuit_ok c"
    and "\<And>i ns c'. i < n \<Longrightarrow> grows c c' \<Longrightarrow> length ns = n \<Longrightarrow>
      makes c' (f i ns) (\<lambda>ns' c''. \<exists>w. ns' = ns[i := w] \<and> has R inp c'' w (v i))"
  shows "makes c (forA f [0..<n] (replicate n 0)) (\<lambda>ns c'. length ns = n \<and> (\<forall>i<n. has R inp c' (ns ! i) (v i)))"
proof -
  let ?I = "\<lambda>k ns c'. length ns = n \<and> (\<forall>i<k. has R inp c' (ns ! i) (v i))"
  show ?thesis
  proof (rule makes_upto [where I = ?I, OF assms(1)])
    fix i ns c' assume i: "i < n" "grows c c'" "?I i ns c'"
    then have "makes c' (f i ns) (\<lambda>ns' c''. \<exists>w. ns' = ns[i := w] \<and> has R inp c'' w (v i))" by (intro assms(2)) auto
    then show "makes c' (f i ns) (?I (Suc i))"
    proof (rule makes_weaken)
      fix ns' c'' assume c'': "grows c' c''" and "\<exists>w. ns' = ns[i := w] \<and> has R inp c'' w (v i)"
      with i show "?I (Suc i) ns' c''" by (auto simp: less_Suc_eq intro: has_grows [OF _ c''])
    qed
  qed simp
qed

lemma makes_input: "circuit_ok c \<Longrightarrow> makes c inputA (\<lambda>w c'. w = length (circ_gates c) \<and>
    circ_gates c' = circ_gates c @ [Gate kInp w] \<and> has R inp c' w (inp w))"
  using circuit_ok_newInputWire [of c] has_push [of R inp c "Gate kInp (length (circ_gates c))"]
  by (simp add: makes_def inputA_def liftA_def inputB_def newInputWire_def Let_def grows_def) (simp add: push_gate_def)

definition throwA :: "exn \<Rightarrow> ('r, 'a) appb" where
  "throwA e = liftA (\<lambda>_. Inl e)"

text \<open>The calls of the builder, with the gate type as the code gives it.\<close>

abbreviation addGate1A :: "GateType \<Rightarrow> wire_t \<Rightarrow> ('r, wire_t) appb" where
  "addGate1A t a \<equiv> liftA (addGate1 t a)"

abbreviation addGate2A :: "GateType \<Rightarrow> wire_t \<Rightarrow> wire_t \<Rightarrow> ('r, wire_t) appb" where
  "addGate2A t a b \<equiv> liftA (addGate2 t a b)"

abbreviation addGateVA :: "GateType \<Rightarrow> wire_t list \<Rightarrow> wire_t list \<Rightarrow> ('r, wire_t) appb" where
  "addGateVA t as bs \<equiv> liftA (addGateV t as bs)"

abbreviation addConstA :: "GateType \<Rightarrow> wire_t \<Rightarrow> 'r \<Rightarrow> ('r, wire_t) appb" where
  "addConstA t a k \<equiv> liftA (addConstOpGate t a k)"

lemmas makes_mul = makes_lift [OF builds_mul2]
lemmas makes_add = makes_lift [OF builds_add]
lemmas makes_sub = makes_lift [OF builds_sub]
lemmas makes_constAdd = makes_lift [OF builds_constAdd]
lemmas makes_constMul = makes_lift [OF builds_constMul]

lemma builds_unary:
  "t \<in> {kRelu, kMsb, kEqz, kLtz} \<Longrightarrow> circuit_ok c \<Longrightarrow> has R inp c a x \<Longrightarrow>
   builds c (addGate1 t a) (\<lambda>w c'. has R inp c' w (gate_val R inp [x] (FIn1Gate t 0 1)))"
  by (rule builds_push [where g = "FIn1Gate t a (length (circ_gates c))"])
    (auto simp: Let_def addGate1_def isWireValid_def has_def wval_def)

text \<open>The value of the sign gates over a ring that is not \<open>BoolRing\<close>, as a bit.\<close>

lemma makes_sign:
  "t \<in> {kMsb, kLtz} \<Longrightarrow> \<not> is_BoolRing R \<Longrightarrow> circuit_ok c \<Longrightarrow> has R inp c a x \<Longrightarrow>
   makes c (addGate1A t a) (\<lambda>w c'. has R inp c' w (of_bool (msb R x)))"
  using makes_lift [OF builds_unary [of t c R inp a x]] by auto

lemma makes_relu:
  "circuit_ok c \<Longrightarrow> has R inp c a x \<Longrightarrow>
   makes c (addGate1A kRelu a) (\<lambda>w c'. has R inp c' w (if msb R x then 0 else x))"
  using makes_lift [OF builds_unary [of kRelu c R inp a x]] by (cases "msb R x") simp_all

text \<open>\<open>1 - w\<close> in two gates.\<close>

definition complA :: "wire_t \<Rightarrow> ('r::comm_ring_1, wire_t) appb" where
  "complA w = bindA (addConstA kConstMul w (- 1)) (\<lambda>t. addConstA kConstAdd t 1)"

lemma makes_compl:
  assumes "circuit_ok c" "has R inp c w (of_bool b)"
  shows "makes c (complA w) (\<lambda>u c'. has R inp c' u (of_bool (\<not> b)))"
  unfolding complA_def
proof (rule makes_bind [OF makes_constMul [OF assms]])
  fix t c' assume "grows c c'" "has R inp c' t (of_bool b * - 1)"
  then have "makes c' (addConstA kConstAdd t 1) (\<lambda>u c'. has R inp c' u (of_bool b * - 1 + 1))"
    by (intro makes_constAdd grows_ok)
  then show "makes c' (addConstA kConstAdd t 1) (\<lambda>u c'. has R inp c' u (of_bool (\<not> b)))" by (cases b) simp_all
qed

definition truncate_val :: "'r::comm_ring_1 ringops \<Rightarrow> 'r \<Rightarrow> 'r" where
  "truncate_val R x = R_of_u64 R (drop_bit FRACTION (conv_u64 R x))"

lemma makes_trdotp:
  assumes "circuit_ok c" "list_all2 (has R inp c) as xs" "list_all2 (has R inp c) bs ys" "length xs = length ys"
  shows "makes c (addGateVA kTrdotp as bs) (\<lambda>w c'. has R inp c' w (truncate_val R (\<Sum>(x, y)\<leftarrow>zip xs ys. x * y)))"
proof (rule makes_lift, rule builds_push [OF _ assms(1)])
  have len: "length as = length xs" "length bs = length ys" using assms(2,3) by (auto dest: list_all2_lengthD)
  have v: "has R inp c (as ! i) (xs ! i)" "has R inp c (bs ! i) (ys ! i)" if "i < length xs" for i
    using assms(2-4) that len by (auto simp: list_all2_conv_all_nth)
  then have lt: "as ! i < length (circ_gates c)" "bs ! i < length (circ_gates c)" if "i < length xs" for i
    using that by (auto simp: has_def)
  show "addGateV kTrdotp as bs c =
      Inr (length (circ_gates c), push_gate (SIMDGate kTrdotp as bs (length (circ_gates c))) c)"
    using len assms(4) lt by (auto simp: addGateV_def isWireValid_def Let_def)
  show "\<forall>w\<in>set (gins (SIMDGate kTrdotp as bs (length (circ_gates c)))). w < length (circ_gates c)"
    using len assms(4) lt by (auto simp: in_set_conv_nth)
  have "(\<Sum>(x, y)\<leftarrow>zip xs ys. x * y) = (\<Sum>i\<leftarrow>[0..<length xs]. xs ! i * ys ! i)"
    using assms(4) by (intro arg_cong [where f = sum_list] nth_equalityI) auto
  also have "\<dots> = dotp (wire_vals R inp (circ_gates c)) as bs"
    using v len by (auto simp: dotp_def has_def wval_def intro!: arg_cong [where f = sum_list])
  finally show "gate_val R inp (wire_vals R inp (circ_gates c)) (SIMDGate kTrdotp as bs (length (circ_gates c))) =
      truncate_val R (\<Sum>(x, y)\<leftarrow>zip xs ys. x * y)" by (simp add: truncate_val_def)
  show "gate_typed (SIMDGate kTrdotp as bs (length (circ_gates c)))" using len assms(4) by simp
qed simp_all

lemma hasl_grows: "list_all2 (has R inp c) ws xs \<Longrightarrow> grows c c' \<Longrightarrow> list_all2 (has R inp c') ws xs"
  by (erule list_all2_mono) (rule has_grows)

lemma marks_makes:
  assumes "makes c m P" and "\<And>x c'. grows c c' \<Longrightarrow> P x c' \<Longrightarrow> marks c' (k x) Q"
  shows "marks c (bindA m k) Q"
proof -
  from assms(1) obtain x c' where m: "m c = Some (Inr (x, c'))" "grows c c'" "P x c'" by (rule makesE)
  with assms(2) [OF m(2,3)] show ?thesis by (auto simp: marks_def bindA_def)
qed

lemma marks_bind:
  assumes "marks c m P" and "\<And>x c'. circuit_ok c' \<Longrightarrow> P x c' \<Longrightarrow> marks c' (k x) Q"
  shows "marks c (bindA m k) Q"
  using assms by (fastforce simp: marks_def bindA_def)

lemma marks_weaken: "marks c m P \<Longrightarrow> (\<And>x c'. circuit_ok c' \<Longrightarrow> P x c' \<Longrightarrow> Q x c') \<Longrightarrow> marks c m Q"
  by (auto simp: marks_def)

lemma marks_ret: "circuit_ok c \<Longrightarrow> Q x c \<Longrightarrow> marks c (retA x) Q"
  by (simp add: marks_def retA_def)

lemma marks_output:
  assumes "circuit_ok c" "has R inp c w v"
  shows "marks c (outputA w) (\<lambda>_ c'. c' = c\<lparr>circ_outputs := circ_outputs c @ [w]\<rparr>)"
  using assms circuit_ok_setAsOutput [OF assms(1), of w]
  by (auto simp: marks_def outputA_def liftA_def outputB_def setAsOutput_def isWireValid_def has_def)

text \<open>\<open>outputs_added c ws c'\<close>: \<open>c'\<close> extends \<open>c\<close> and has the output wires \<open>ws\<close> in addition.\<close>

definition outputs_added :: "'r Circuit \<Rightarrow> wire_t list \<Rightarrow> 'r Circuit \<Rightarrow> bool" where
  "outputs_added c ws c' \<longleftrightarrow>
     prefix (circ_gates c) (circ_gates c') \<and> circ_outputs c' = circ_outputs c @ ws"

lemma has_outputs_added: "has R inp c w x \<Longrightarrow> outputs_added c ws c' \<Longrightarrow> has R inp c' w x"
  by (auto simp: outputs_added_def has_def wval_def prefix_def wire_vals_prefix)

lemma outputs_added_refl: "outputs_added c [] c"
  by (simp add: outputs_added_def)

lemma grows_outputs_added: "grows c c' \<Longrightarrow> outputs_added c [] c'"
  by (simp add: outputs_added_def grows_def)

lemma outputs_added_trans: "outputs_added c ws c' \<Longrightarrow> outputs_added c' vs c'' \<Longrightarrow> outputs_added c (ws @ vs) c''"
  by (auto simp: outputs_added_def intro: prefix_order.trans)

lemma outputs_added_output:
  "grows c c' \<Longrightarrow> outputs_added c [w] (c'\<lparr>circ_outputs := circ_outputs c' @ [w]\<rparr>)"
  by (simp add: outputs_added_def grows_def)

lemma marks_upt:
  assumes "circuit_ok c" "I a s c" "a \<le> b"
    and "\<And>i s c'. a \<le> i \<Longrightarrow> i < b \<Longrightarrow> circuit_ok c' \<Longrightarrow> I i s c' \<Longrightarrow> marks c' (f i s) (I (Suc i))"
  shows "marks c (forA f [a..<b] s) (I b)"
  using assms(3,4)
proof (induction b rule: dec_induct)
  case base
  then show ?case using assms(1,2) by (simp add: marks_ret)
next
  case (step n)
  have "marks c (forA f [a..<n] s) (I n)" by (rule step.IH) (simp add: step.prems)
  then have "marks c (bindA (forA f [a..<n] s) (\<lambda>s. bindA (f n s) retA)) (I (Suc n))"
    by (rule marks_bind) (auto intro: marks_bind [OF step.prems] marks_ret simp: step.hyps)
  moreover have "forA f [n] = (\<lambda>s. bindA (f n s) retA)" by (rule ext) (simp add: forA_Nil_ret)
  ultimately show ?case using step.hyps by (simp add: forA_append)
qed

lemmas marks_upto = marks_upt [where a = 0, simplified]

text \<open>An access outside a vector makes what follows undefined.\<close>

lemma makes_undef: "makes c m P \<Longrightarrow> (\<And>x c'. grows c c' \<Longrightarrow> P x c' \<Longrightarrow> k x c' = None) \<Longrightarrow> bindA m k c = None"
  by (auto simp: makes_def bindA_def)

lemma marks_undef: "marks c m P \<Longrightarrow> (\<And>x c'. circuit_ok c' \<Longrightarrow> P x c' \<Longrightarrow> k x c' = None) \<Longrightarrow> bindA m k c = None"
  by (auto simp: marks_def bindA_def)

end
