(* ===== verification/Gridlock.thy ===== *)
theory Gridlock
  imports AppBuild "HOL-Library.AList"
begin

section \<open>Liquidity matching (utils/liquidity_matching.h)\<close>

text \<open>
  \<open>SoDoGridLock\<close> builds the circuit of one iteration of the gridlock resolution among banks: the
  balances after the selected transactions, the banks whose balance is negative, and the new
  selection. The member \<open>circ_\<close> is the state of the monad of \<open>AppBuild\<close>.
\<close>

record SoDoTxn =
  src :: nat
  dest :: nat
  amt :: wire_t

record SoDoGridLock =
  txn_queue :: "SoDoTxn list"
  num_banks :: nat

definition SoDoGridLock_new :: "nat \<Rightarrow> SoDoGridLock" where
  "SoDoGridLock_new n = \<lparr>txn_queue = [], num_banks = n\<rparr>"

definition newTransaction :: "SoDoGridLock \<Rightarrow> nat \<Rightarrow> nat \<Rightarrow> ('r, wire_t \<times> SoDoGridLock) appb" where
  "newTransaction gl s d =
     (if s \<ge> num_banks gl \<or> d \<ge> num_banks gl
      then throwA (invalid_argument ''Source and destination ids are zero indexed.'')
      else bindA inputA (\<lambda>w. retA (w, gl\<lparr>txn_queue := txn_queue gl @ [\<lparr>src = s, dest = d, amt = w\<rparr>]\<rparr>)))"

text \<open>
  One pass of the product tree; a last wire without a partner goes to the next level as it is. The
  loop bound \<open>prev_level.size() - 1\<close> of an empty level wraps around, and the first access is outside.
\<close>

fun mult_level :: "wire_t list \<Rightarrow> ('r, wire_t list) appb" where
  "mult_level (a # b # ws) =
     bindA (addGate2A kMul a b) (\<lambda>w. bindA (mult_level ws) (\<lambda>curr. retA (w # curr)))"
| "mult_level ws = retA ws"

partial_function (option) treeMult :: "wire_t list \<Rightarrow> 'r Circuit \<Rightarrow> (exn + wire_t \<times> 'r Circuit) option" where
  "treeMult ws c =
     (if ws = [] then None
      else if length ws = 1 then Some (Inr (ws ! 0, c))
      else Option.bind (mult_level ws c) (\<lambda>r. case r of Inl e \<Rightarrow> Some (Inl e) | Inr (ws', c') \<Rightarrow> treeMult ws' c'))"

text \<open>
  The entries \<open>-1\<close> of \<open>vs\<close> and \<open>vr\<close>, for no wire yet, are \<open>None\<close>; a circuit has fewer than
  \<open>2 ^ 64 - 1\<close> wires.
\<close>

definition add_to :: "wire_t option \<Rightarrow> wire_t \<Rightarrow> ('r, wire_t) appb" where
  "add_to v f = (case v of None \<Rightarrow> retA f | Some w \<Rightarrow> addGate2A kAdd w f)"

definition txn_filter :: "SoDoGridLock \<Rightarrow> wire_t list \<Rightarrow> ('r, wire_t list) appb" where
  "txn_filter gl selected =
     forA (\<lambda>i fs. bindA (atA selected i) (\<lambda>s. bindA (atA (txn_queue gl) i) (\<lambda>txn.
         bindA (addGate2A kMul s (amt txn)) (\<lambda>w. putA fs i w))))
       [0..<length (txn_queue gl)] (replicate (length (txn_queue gl)) 0)"

definition txn_totals ::
  "SoDoGridLock \<Rightarrow> wire_t list \<Rightarrow> ('r, wire_t option list \<times> wire_t option list) appb" where
  "txn_totals gl fs =
     forA (\<lambda>i (vs, vr).
         bindA (atA (txn_queue gl) i) (\<lambda>txn. bindA (atA fs i) (\<lambda>f.
         bindA (atA vs (src txn)) (\<lambda>v. bindA (add_to v f) (\<lambda>w. bindA (putA vs (src txn) (Some w)) (\<lambda>vs.
         bindA (atA vr (dest txn)) (\<lambda>v. bindA (add_to v f) (\<lambda>w. bindA (putA vr (dest txn) (Some w)) (\<lambda>vr.
         retA (vs, vr))))))))))
       [0..<length (txn_queue gl)] (replicate (num_banks gl) None, replicate (num_banks gl) None)"

definition apply_total :: "GateType \<Rightarrow> wire_t \<Rightarrow> wire_t option \<Rightarrow> ('r, wire_t) appb" where
  "apply_total t b v = (case v of None \<Rightarrow> retA b | Some w \<Rightarrow> addGate2A t b w)"

definition newBalances :: "SoDoGridLock \<Rightarrow> wire_t list \<Rightarrow> wire_t list \<Rightarrow> ('r, wire_t list) appb" where
  "newBalances gl balance selected =
     bindA (txn_filter gl selected) (\<lambda>fs. bindA (txn_totals gl fs) (\<lambda>(vs, vr).
       forA (\<lambda>i nb. bindA (atA balance i) (\<lambda>b. bindA (atA vs i) (\<lambda>v. bindA (apply_total kSub b v) (\<lambda>b.
           bindA (atA vr i) (\<lambda>v. bindA (apply_total kAdd b v) (\<lambda>b. putA nb i b))))))
         [0..<num_banks gl] (replicate (num_banks gl) 0)))"

text \<open>The positions of a bank's transactions in the queue, in order (\<open>txn_by_src\<close>).\<close>

definition txn_by_src :: "SoDoGridLock \<Rightarrow> nat \<Rightarrow> nat list" where
  "txn_by_src gl b = filter (\<lambda>i. src (txn_queue gl ! i) = b) [0..<length (txn_queue gl)]"

definition reselect_bank ::
  "SoDoGridLock \<Rightarrow> wire_t list \<Rightarrow> wire_t list \<Rightarrow> wire_t list \<Rightarrow> nat \<Rightarrow> wire_t list \<Rightarrow> ('r, wire_t list) appb" where
  "reselect_bank gl selected neg pos i ns =
     (let stxn = txn_by_src gl i in
      bindA (forA (\<lambda>j ns. bindA (atA selected (stxn ! j)) (\<lambda>s. bindA (atA selected (stxn ! (j + 1))) (\<lambda>s'.
          bindA (addGate2A kMul s s') (\<lambda>xprod. bindA (atA neg i) (\<lambda>n. bindA (addGate2A kMul xprod n) (\<lambda>term1.
          bindA (atA pos i) (\<lambda>p. bindA (addGate2A kMul s p) (\<lambda>term2.
          bindA (addGate2A kAdd term1 term2) (\<lambda>w. putA ns (stxn ! j) w)))))))))
        (if stxn = [] then [] else [0..<length stxn - 1]) ns) (\<lambda>ns.
      if stxn = [] then retA ns
      else bindA (atA selected (last stxn)) (\<lambda>s. bindA (atA pos i) (\<lambda>p. bindA (addGate2A kMul s p) (\<lambda>w.
          putA ns (last stxn) w)))))"

text \<open>The three phases around the first output: the signs of the balances, the selection, the end.\<close>

definition bank_flags :: "SoDoGridLock \<Rightarrow> wire_t list \<Rightarrow> ('r::comm_ring_1, wire_t list \<times> wire_t list) appb" where
  "bank_flags gl nb =
     bindA (forA (\<lambda>i neg. bindA (atA nb i) (\<lambda>b. bindA (addGate1A kMsb b) (\<lambda>w. putA neg i w)))
       [0..<num_banks gl] (replicate (num_banks gl) 0)) (\<lambda>neg.
     bindA (forA (\<lambda>i pos. bindA (atA neg i) (\<lambda>n. bindA (complA n) (\<lambda>w. putA pos i w)))
       [0..<num_banks gl] (replicate (num_banks gl) 0)) (\<lambda>pos. retA (neg, pos)))"

definition reselect :: "SoDoGridLock \<Rightarrow> wire_t list \<Rightarrow> wire_t list \<Rightarrow> wire_t list \<Rightarrow> ('r, wire_t list) appb" where
  "reselect gl selected neg pos =
     forA (reselect_bank gl selected neg pos) [0..<num_banks gl] (replicate (length (txn_queue gl)) 0)"

definition mark_deadlock :: "wire_t list \<Rightarrow> ('r::comm_ring_1, unit) appb" where
  "mark_deadlock ns =
     bindA (forA (\<lambda>w ws. bindA (complA w) (\<lambda>u. retA (ws @ [u]))) ns []) (\<lambda>is_not_selected.
     bindA (treeMult is_not_selected) outputA)"

definition updateSelectedTransactions ::
  "SoDoGridLock \<Rightarrow> wire_t list \<Rightarrow> wire_t list \<Rightarrow> ('r::comm_ring_1, wire_t list) appb" where
  "updateSelectedTransactions gl balance selected =
     bindA (newBalances gl balance selected) (\<lambda>nb.
     bindA (bank_flags gl nb) (\<lambda>(neg, pos).
     bindA (treeMult pos) (\<lambda>all_balances_positive.
     bindA (outputA all_balances_positive) (\<lambda>_.
     bindA (reselect gl selected neg pos) (\<lambda>ns.
     bindA (mark_deadlock ns) (\<lambda>_. retA ns))))))"

text \<open>The input wires of the balances and of the selection, and the map of their values.\<close>

definition initBalances ::
  "SoDoGridLock \<Rightarrow> 'r list \<Rightarrow> (wire_t, 'r) umap \<Rightarrow> ('r, wire_t list \<times> (wire_t, 'r) umap) appb" where
  "initBalances gl balances imap =
     forA (\<lambda>i (out, imap). bindA inputA (\<lambda>w. bindA (putA out i w) (\<lambda>out. bindA (atA balances i) (\<lambda>b.
         retA (out, AList.update w b imap)))))
       [0..<num_banks gl] (replicate (num_banks gl) 0, imap)"

definition initSelectedSet ::
  "SoDoGridLock \<Rightarrow> (wire_t, 'r::comm_ring_1) umap \<Rightarrow> ('r, wire_t list \<times> (wire_t, 'r) umap) appb" where
  "initSelectedSet gl imap =
     forA (\<lambda>i (out, imap). bindA inputA (\<lambda>w. bindA (putA out i w) (\<lambda>out.
         retA (out, AList.update w 1 imap))))
       [0..<length (txn_queue gl)] (replicate (length (txn_queue gl)) 0, imap)"

subsection \<open>What an iteration computes\<close>

subsubsection \<open>Products\<close>

fun pair_products :: "'r::comm_ring_1 list \<Rightarrow> 'r list" where
  "pair_products (x # y # xs) = x * y # pair_products xs"
| "pair_products xs = xs"

lemma prod_pair_products: "prod_list (pair_products xs) = prod_list xs"
  by (induction xs rule: pair_products.induct) (simp_all add: mult.assoc)

lemma length_pair_products: "length (pair_products xs) = (length xs + 1) div 2"
  by (induction xs rule: pair_products.induct) simp_all

lemma makes_mult_level:
  "circuit_ok c \<Longrightarrow> list_all2 (has R inp c) ws xs \<Longrightarrow>
   makes c (mult_level ws) (\<lambda>ws' c'. list_all2 (has R inp c') ws' (pair_products xs))"
proof (induction xs arbitrary: c ws rule: pair_products.induct)
  case (1 x y xs)
  from "1.prems"(2) obtain a b vs where ws: "ws = a # b # vs"
    and ab: "has R inp c a x" "has R inp c b y" and vs: "list_all2 (has R inp c) vs xs"
    by (auto simp: list_all2_Cons2)
  show ?case
    unfolding ws mult_level.simps
  proof (rule makes_bind [OF makes_mul [OF "1.prems"(1) ab]])
    fix w c1 assume c1: "grows c c1" and w: "has R inp c1 w (x * y)"
    show "makes c1 (bindA (mult_level vs) (\<lambda>curr. retA (w # curr)))
        (\<lambda>ws' c'. list_all2 (has R inp c') ws' (pair_products (x # y # xs)))"
      by (rule makes_bind [OF "1.IH" [OF grows_ok [OF c1] hasl_grows [OF vs c1]]])
        (auto intro!: makes_ret has_grows [OF w] dest: grows_ok)
  qed
qed (auto simp: list_all2_Cons2 intro!: makes_ret)

text \<open>The tree terminates and computes the product, whatever the number of wires.\<close>

lemma makes_treeMult:
  "circuit_ok c \<Longrightarrow> list_all2 (has R inp c) ws xs \<Longrightarrow> xs \<noteq> [] \<Longrightarrow>
   makes c (treeMult ws) (\<lambda>w c'. has R inp c' w (prod_list xs))"
proof (induction "length xs" arbitrary: c ws xs rule: less_induct)
  case less
  have len: "length ws = length xs" using less.prems(2) by (rule list_all2_lengthD)
  show ?case
  proof (cases "length xs = 1")
    case True
    then obtain x where xs: "xs = [x]" by (auto simp: length_Suc_conv)
    then obtain w where "ws = [w]" "has R inp c w x" using less.prems(2) by (auto simp: list_all2_Cons2)
    then show ?thesis using less.prems(1) by (simp add: makes_def treeMult.simps xs grows_refl)
  next
    case False
    moreover have "length xs > 0" using less.prems(3) by simp
    ultimately have two: "2 \<le> length xs" by linarith
    obtain ws' c1 where l: "mult_level ws c = Some (Inr (ws', c1))" "grows c c1"
      "list_all2 (has R inp c1) ws' (pair_products xs)"
      using makes_mult_level [OF less.prems(1,2)] by (rule makesE)
    have lt: "length (pair_products xs) < length xs" and ne: "pair_products xs \<noteq> []"
      using two length_pair_products [of xs] by (simp, auto)
    obtain w c2 where "treeMult ws' c1 = Some (Inr (w, c2))" "grows c1 c2" "has R inp c2 w (prod_list xs)"
      using less.hyps [OF lt grows_ok [OF l(2)] l(3) ne] unfolding prod_pair_products by (rule makesE)
    moreover have "treeMult ws c = treeMult ws' c1"
      using two len l(1) by (subst treeMult.simps) auto
    ultimately show ?thesis using l(2) by (auto simp: makes_def intro: grows_trans)
  qed
qed

lemma prod_of_bool: "prod_list (map (\<lambda>x. of_bool (P x)) xs) = (of_bool (\<forall>x\<in>set xs. P x) :: 'r::comm_ring_1)"
  by (induction xs) auto

subsubsection \<open>Balances\<close>

definition txns_of :: "(SoDoTxn \<Rightarrow> nat) \<Rightarrow> SoDoGridLock \<Rightarrow> nat \<Rightarrow> nat \<Rightarrow> nat list" where
  "txns_of f gl k b = filter (\<lambda>t. f (txn_queue gl ! t) = b) [0..<k]"

text \<open>The balance of bank \<open>b\<close> after the transactions: what it sends is taken off, what it receives added.\<close>

definition settled ::
  "SoDoGridLock \<Rightarrow> (nat \<Rightarrow> 'r::comm_ring_1) \<Rightarrow> (nat \<Rightarrow> 'r) \<Rightarrow> nat \<Rightarrow> 'r" where
  "settled gl bal x b =
     bal b - sum_list (map x (txns_of src gl (length (txn_queue gl)) b))
           + sum_list (map x (txns_of dest gl (length (txn_queue gl)) b))"

definition has_total ::
  "'r::comm_ring_1 ringops \<Rightarrow> (wire_t \<Rightarrow> 'r) \<Rightarrow> 'r Circuit \<Rightarrow> wire_t option \<Rightarrow> 'r list \<Rightarrow> bool" where
  "has_total R inp c v xs = (case v of None \<Rightarrow> xs = [] | Some w \<Rightarrow> has R inp c w (sum_list xs))"

lemma has_total_grows: "has_total R inp c v xs \<Longrightarrow> grows c c' \<Longrightarrow> has_total R inp c' v xs"
  by (auto simp: has_total_def intro: has_grows split: option.splits)

lemma makes_add_to:
  assumes "circuit_ok c" "has_total R inp c v xs" "has R inp c f x"
  shows "makes c (add_to v f) (\<lambda>w c'. has_total R inp c' (Some w) (xs @ [x]))"
  using assms makes_add [OF assms(1)] by (cases v) (auto simp: has_total_def add_to_def intro!: makes_ret)

lemma makes_apply_total:
  assumes "circuit_ok c" "has R inp c b y" "has_total R inp c v xs"
  shows "makes c (apply_total kSub b v) (\<lambda>w c'. has R inp c' w (y - sum_list xs))"
    "makes c (apply_total kAdd b v) (\<lambda>w c'. has R inp c' w (y + sum_list xs))"
  using assms makes_add [OF assms(1,2)] makes_sub [OF assms(1,2)]
  by (auto simp: has_total_def apply_total_def intro!: makes_ret split: option.splits)

text \<open>The totals of one side after \<open>k\<close> transactions.\<close>

definition totals_inv ::
  "'r::comm_ring_1 ringops \<Rightarrow> (wire_t \<Rightarrow> 'r) \<Rightarrow> SoDoGridLock \<Rightarrow> (nat \<Rightarrow> 'r) \<Rightarrow> (SoDoTxn \<Rightarrow> nat) \<Rightarrow> nat \<Rightarrow>
   wire_t option list \<Rightarrow> 'r Circuit \<Rightarrow> bool" where
  "totals_inv R inp gl x f k vs c \<longleftrightarrow> length vs = num_banks gl \<and>
     (\<forall>b<num_banks gl. has_total R inp c (vs ! b) (map x (txns_of f gl k b)))"

lemma totals_inv_grows: "totals_inv R inp gl x f k vs c \<Longrightarrow> grows c c' \<Longrightarrow> totals_inv R inp gl x f k vs c'"
  by (auto simp: totals_inv_def intro: has_total_grows)

lemma makes_total_step:
  assumes "circuit_ok c" "totals_inv R inp gl x f k vs c" "has R inp c w (x k)" "f (txn_queue gl ! k) < num_banks gl"
  shows "makes c (bindA (atA vs (f (txn_queue gl ! k))) (\<lambda>v. bindA (add_to v w) (\<lambda>u. putA vs (f (txn_queue gl ! k)) (Some u))))
    (totals_inv R inp gl x f (Suc k))"
proof -
  let ?b = "f (txn_queue gl ! k)"
  have b: "?b < length vs" "has_total R inp c (vs ! ?b) (map x (txns_of f gl k ?b))"
    using assms(2,4) by (auto simp: totals_inv_def)
  have suc: "txns_of f gl (Suc k) b = (if b = ?b then txns_of f gl k b @ [k] else txns_of f gl k b)" for b
    by (simp add: txns_of_def)
  have "makes c (bindA (add_to (vs ! ?b) w) (\<lambda>u. putA vs ?b (Some u))) (totals_inv R inp gl x f (Suc k))"
  proof (rule makes_bind [OF makes_add_to [OF assms(1) b(2) assms(3)]])
    fix u c' assume c': "grows c c'" and u: "has_total R inp c' (Some u) (map x (txns_of f gl k ?b) @ [x k])"
    have "totals_inv R inp gl x f (Suc k) (vs[?b := Some u]) c'"
      using totals_inv_grows [OF assms(2) c'] u by (auto simp: totals_inv_def suc nth_list_update)
    then show "makes c' (putA vs ?b (Some u)) (totals_inv R inp gl x f (Suc k))"
      using b(1) grows_ok [OF c'] by (simp add: makes_ret)
  qed
  then show ?thesis using b(1) by simp
qed

definition gl_ok :: "SoDoGridLock \<Rightarrow> bool" where
  "gl_ok gl \<longleftrightarrow> (\<forall>txn\<in>set (txn_queue gl). src txn < num_banks gl \<and> dest txn < num_banks gl)"

lemma newTransaction_ok:
  "gl_ok gl \<Longrightarrow> newTransaction gl s d c = Some (Inr ((w, gl'), c')) \<Longrightarrow> gl_ok gl'"
  by (auto simp: gl_ok_def newTransaction_def throwA_def liftA_def inputA_def bindA_def retA_def
      split: if_splits option.splits sum.splits)

lemma makes_txn_totals:
  assumes "circuit_ok c" "gl_ok gl" "length fs = length (txn_queue gl)"
    "\<forall>t<length (txn_queue gl). has R inp c (fs ! t) (x t)"
  shows "makes c (txn_totals gl fs) (\<lambda>(vs, vr) c'.
    totals_inv R inp gl x src (length (txn_queue gl)) vs c' \<and> totals_inv R inp gl x dest (length (txn_queue gl)) vr c')"
  unfolding txn_totals_def
proof (rule makes_upto [OF assms(1),
      where I = "\<lambda>k (vs, vr) c'. totals_inv R inp gl x src k vs c' \<and> totals_inv R inp gl x dest k vr c'"])
  fix t and s :: "wire_t option list \<times> wire_t option list" and c'
  assume t: "t < length (txn_queue gl)" and c': "grows c c'"
    and I: "(case s of (vs, vr) \<Rightarrow> \<lambda>c'. totals_inv R inp gl x src t vs c' \<and> totals_inv R inp gl x dest t vr c') c'"
  obtain vs vr where s: "s = (vs, vr)" by fastforce
  let ?q = "txn_queue gl ! t" and ?f = "fs ! t"
  have q: "src ?q < num_banks gl" "dest ?q < num_banks gl" using assms(2) t by (auto simp: gl_ok_def)
  have "makes c' (bindA (bindA (atA vs (src ?q)) (\<lambda>v. bindA (add_to v ?f) (\<lambda>u. putA vs (src ?q) (Some u)))) (\<lambda>vs.
      bindA (bindA (atA vr (dest ?q)) (\<lambda>v. bindA (add_to v ?f) (\<lambda>u. putA vr (dest ?q) (Some u)))) (\<lambda>vr.
      retA (vs, vr)))) (\<lambda>(vs, vr) c'. totals_inv R inp gl x src (Suc t) vs c' \<and> totals_inv R inp gl x dest (Suc t) vr c')"
  proof (rule makes_bind [OF makes_total_step [where x = x and R = R and inp = inp]])
    show "circuit_ok c'" using c' by (rule grows_ok)
    show "totals_inv R inp gl x src t vs c'" using I s by simp
    show "has R inp c' ?f (x t)" using assms(4) t c' by (auto intro: has_grows)
    fix vs' c1 assume c1: "grows c' c1" and vs': "totals_inv R inp gl x src (Suc t) vs' c1"
    have h: "has R inp c1 ?f (x t)" "totals_inv R inp gl x dest t vr c1"
      using assms(4) t c' c1 I s by (auto intro: has_grows totals_inv_grows)
    show "makes c1 (bindA (bindA (atA vr (dest ?q)) (\<lambda>v. bindA (add_to v ?f) (\<lambda>u. putA vr (dest ?q) (Some u)))) (\<lambda>vr.
      retA (vs', vr))) (\<lambda>(vs, vr) c'. totals_inv R inp gl x src (Suc t) vs c' \<and> totals_inv R inp gl x dest (Suc t) vr c')"
      by (rule makes_bind [OF makes_total_step [OF grows_ok [OF c1] h(2,1) q(2)]])
        (auto intro!: makes_ret totals_inv_grows [OF vs'] dest: grows_ok)
  qed (use q in simp_all)
  then show "makes c' ((\<lambda>(vs, vr).
         bindA (atA (txn_queue gl) t) (\<lambda>txn. bindA (atA fs t) (\<lambda>f.
         bindA (atA vs (src txn)) (\<lambda>v. bindA (add_to v f) (\<lambda>w. bindA (putA vs (src txn) (Some w)) (\<lambda>vs.
         bindA (atA vr (dest txn)) (\<lambda>v. bindA (add_to v f) (\<lambda>w. bindA (putA vr (dest txn) (Some w)) (\<lambda>vr.
         retA (vs, vr)))))))))) s)
     (\<lambda>(vs, vr) c'. totals_inv R inp gl x src (Suc t) vs c' \<and> totals_inv R inp gl x dest (Suc t) vr c')"
    using t assms(3) s by (simp add: bindA_assoc)
qed (simp add: totals_inv_def has_total_def txns_of_def)

lemma makes_txn_filter:
  assumes "circuit_ok c" "length selected = length (txn_queue gl)"
    "\<forall>t<length (txn_queue gl). has R inp c (selected ! t) (s t)"
    "\<forall>t<length (txn_queue gl). has R inp c (amt (txn_queue gl ! t)) (a t)"
  shows "makes c (txn_filter gl selected) (\<lambda>fs c'. length fs = length (txn_queue gl) \<and>
    (\<forall>t<length (txn_queue gl). has R inp c' (fs ! t) (s t * a t)))"
  unfolding txn_filter_def
proof (rule makes_fill [OF assms(1)])
  fix t and ns :: "wire_t list" and c' assume t: "t < length (txn_queue gl)" "length ns = length (txn_queue gl)" and c': "grows c c'"
  have "makes c' (bindA (addGate2A kMul (selected ! t) (amt (txn_queue gl ! t))) (putA ns t))
      (\<lambda>ns' c''. \<exists>w. ns' = ns[t := w] \<and> has R inp c'' w (s t * a t))"
    by (rule makes_bind [OF makes_mul [OF grows_ok [OF c'] has_grows [OF _ c'] has_grows [OF _ c']]])
      (use assms t in \<open>auto intro: makes_ret grows_ok\<close>)
  then show "makes c' (bindA (atA selected t) (\<lambda>s. bindA (atA (txn_queue gl) t) (\<lambda>txn.
      bindA (addGate2A kMul s (amt txn)) (putA ns t))))
      (\<lambda>ns' c''. \<exists>w. ns' = ns[t := w] \<and> has R inp c'' w (s t * a t))"
    using t assms(2) by simp
qed

lemma makes_newBalances:
  assumes "circuit_ok c" "gl_ok gl" "length selected = length (txn_queue gl)" "length balance = num_banks gl"
    "\<forall>t<length (txn_queue gl). has R inp c (selected ! t) (s t)"
    "\<forall>t<length (txn_queue gl). has R inp c (amt (txn_queue gl ! t)) (a t)"
    "\<forall>b<num_banks gl. has R inp c (balance ! b) (bal b)"
  shows "makes c (newBalances gl balance selected) (\<lambda>nb c'. length nb = num_banks gl \<and>
    (\<forall>b<num_banks gl. has R inp c' (nb ! b) (settled gl bal (\<lambda>t. s t * a t) b)))"
  unfolding newBalances_def
proof (rule makes_bind [OF makes_txn_filter [OF assms(1,3,5,6)]])
  let ?n = "length (txn_queue gl)" and ?x = "\<lambda>t. s t * a t"
  fix fs c1 assume c1: "grows c c1" and fs: "length fs = ?n \<and> (\<forall>t<?n. has R inp c1 (fs ! t) (?x t))"
  let ?upd = "\<lambda>vs vr. forA (\<lambda>i nb. bindA (atA balance i) (\<lambda>b. bindA (atA vs i) (\<lambda>v. bindA (apply_total kSub b v) (\<lambda>b.
           bindA (atA vr i) (\<lambda>v. bindA (apply_total kAdd b v) (\<lambda>b. putA nb i b))))))
         [0..<num_banks gl] (replicate (num_banks gl) 0)"
  let ?Q = "\<lambda>nb c'. length nb = num_banks gl \<and> (\<forall>b<num_banks gl. has R inp c' (nb ! b) (settled gl bal ?x b))"
  have upd: "makes c2 (?upd vs vr) ?Q" if c2: "grows c1 c2" and vs: "totals_inv R inp gl ?x src ?n vs c2"
      and vr: "totals_inv R inp gl ?x dest ?n vr c2" for vs vr c2
  proof (rule makes_fill)
    show "circuit_ok c2" using c2 by (rule grows_ok)
    fix b and ns :: "wire_t list" and c' assume b: "b < num_banks gl" "length ns = num_banks gl" and c': "grows c2 c'"
    have g: "grows c c'" using c1 c2 c' by (blast intro: grows_trans)
    have tot: "b < length vs" "b < length vr" "has_total R inp c' (vs ! b) (map ?x (txns_of src gl ?n b))"
        "has_total R inp c' (vr ! b) (map ?x (txns_of dest gl ?n b))" "has R inp c' (balance ! b) (bal b)"
      using vs vr b assms(7) by (auto simp: totals_inv_def intro: has_total_grows [OF _ c'] has_grows [OF _ g])
    let ?z = "bal b - sum_list (map ?x (txns_of src gl ?n b))"
    have "makes c' (bindA (apply_total kSub (balance ! b) (vs ! b)) (\<lambda>u. bindA (apply_total kAdd u (vr ! b)) (putA ns b)))
        (\<lambda>ns' c''. \<exists>w. ns' = ns[b := w] \<and> has R inp c'' w (settled gl bal ?x b))"
    proof (rule makes_bind [OF makes_apply_total(1) [OF grows_ok [OF c'] tot(5,3)]])
      fix u c3 assume c3: "grows c' c3" and u: "has R inp c3 u ?z"
      show "makes c3 (bindA (apply_total kAdd u (vr ! b)) (putA ns b))
          (\<lambda>ns' c''. \<exists>w. ns' = ns[b := w] \<and> has R inp c'' w (settled gl bal ?x b))"
        by (rule makes_bind [OF makes_apply_total(2) [OF grows_ok [OF c3] u has_total_grows [OF tot(4) c3]]])
          (use b in \<open>auto intro!: makes_ret dest: grows_ok simp: settled_def\<close>)
    qed
    then show "makes c' (bindA (atA balance b) (\<lambda>u. bindA (atA vs b) (\<lambda>v. bindA (apply_total kSub u v) (\<lambda>u.
        bindA (atA vr b) (\<lambda>v. bindA (apply_total kAdd u v) (putA ns b))))))
        (\<lambda>ns' c''. \<exists>w. ns' = ns[b := w] \<and> has R inp c'' w (settled gl bal ?x b))"
      using tot(1,2) b assms(4) by simp
  qed
  have fs': "length fs = ?n" "\<forall>t<?n. has R inp c1 (fs ! t) (?x t)" using fs by simp_all
  show "makes c1 (bindA (txn_totals gl fs) (\<lambda>(vs, vr). ?upd vs vr)) ?Q"
  proof (rule makes_bind [OF makes_txn_totals [OF grows_ok [OF c1] assms(2) fs']])
    fix x c2 assume c2: "grows c1 c2" and x: "(case x of (vs, vr) \<Rightarrow> \<lambda>c'. totals_inv R inp gl ?x src ?n vs c' \<and> totals_inv R inp gl ?x dest ?n vr c') c2"
    obtain vs vr where [simp]: "x = (vs, vr)" by fastforce
    show "makes c2 (case x of (vs, vr) \<Rightarrow> ?upd vs vr) ?Q" using upd [OF c2, of vs vr] x by simp
  qed
qed

subsubsection \<open>The new selection\<close>

text \<open>
  A transaction stays selected if it was and its bank is solvent, or if the bank's next transaction
  in the queue was selected as well: an insolvent bank drops the last of a run of selected ones.
\<close>

definition next_selected :: "SoDoGridLock \<Rightarrow> (nat \<Rightarrow> bool) \<Rightarrow> nat \<Rightarrow> bool" where
  "next_selected gl sel t =
     (case filter (\<lambda>u. src (txn_queue gl ! u) = src (txn_queue gl ! t)) [Suc t..<length (txn_queue gl)] of
        [] \<Rightarrow> False | u # _ \<Rightarrow> sel u)"

definition stays_selected :: "SoDoGridLock \<Rightarrow> (nat \<Rightarrow> bool) \<Rightarrow> (nat \<Rightarrow> bool) \<Rightarrow> nat \<Rightarrow> bool" where
  "stays_selected gl insolvent sel t \<longleftrightarrow>
     sel t \<and> (insolvent (src (txn_queue gl ! t)) \<longrightarrow> next_selected gl sel t)"

lemma filter_upt_drop:
  "j < length (filter P [a..<n]) \<Longrightarrow> filter P [Suc (filter P [a..<n] ! j)..<n] = drop (Suc j) (filter P [a..<n])"
proof (induction "n - a" arbitrary: a j)
  case (Suc k)
  then have u: "[a..<n] = a # [Suc a..<n]" by (simp add: upt_conv_Cons)
  show ?case
  proof (cases "P a")
    case True
    then show ?thesis using Suc.hyps(1) [of "Suc a" "j - 1"] Suc.hyps(2) Suc.prems by (cases j) (simp_all add: u)
  next
    case False
    then show ?thesis using Suc.hyps(1) [of "Suc a" j] Suc.hyps(2) Suc.prems by (simp add: u)
  qed
qed simp

lemma txn_by_src_nth:
  assumes "j < length (txn_by_src gl b)"
  shows "txn_by_src gl b ! j < length (txn_queue gl)" "src (txn_queue gl ! (txn_by_src gl b ! j)) = b"
  using nth_mem [OF assms] by (simp_all add: txn_by_src_def)

lemma next_selected_nth:
  assumes "j < length (txn_by_src gl b)"
  shows "next_selected gl sel (txn_by_src gl b ! j) \<longleftrightarrow>
    Suc j < length (txn_by_src gl b) \<and> sel (txn_by_src gl b ! Suc j)"
proof -
  have "filter (\<lambda>u. src (txn_queue gl ! u) = b) [Suc (txn_by_src gl b ! j)..<length (txn_queue gl)] = drop (Suc j) (txn_by_src gl b)"
    using filter_upt_drop assms unfolding txn_by_src_def by blast
  then show ?thesis
    by (cases "Suc j < length (txn_by_src gl b)")
      (simp_all add: next_selected_def txn_by_src_nth [OF assms] Cons_nth_drop_Suc [symmetric])
qed

lemma makes_kept:
  assumes "circuit_ok c" "has R inp c s (of_bool a)" "has R inp c s' (of_bool b)" "has R inp c n (of_bool d)"
    "has R inp c p (of_bool (\<not> d))"
  shows "makes c (bindA (addGate2A kMul s s') (\<lambda>x. bindA (addGate2A kMul x n) (\<lambda>t1. bindA (addGate2A kMul s p) (\<lambda>t2.
      addGate2A kAdd t1 t2)))) (\<lambda>w c'. has R inp c' w (of_bool (a \<and> (d \<longrightarrow> b))))"
proof (rule makes_bind [OF makes_mul [OF assms(1-3)]])
  fix x c1 assume c1: "grows c c1" and x: "has R inp c1 x (of_bool a * of_bool b)"
  have h1: "has R inp c1 n (of_bool d)" "has R inp c1 s (of_bool a)" "has R inp c1 p (of_bool (\<not> d))"
    using assms c1 by (auto intro: has_grows)
  show "makes c1 (bindA (addGate2A kMul x n) (\<lambda>t1. bindA (addGate2A kMul s p) (\<lambda>t2. addGate2A kAdd t1 t2)))
      (\<lambda>w c'. has R inp c' w (of_bool (a \<and> (d \<longrightarrow> b))))"
  proof (rule makes_bind [OF makes_mul [OF grows_ok [OF c1] x h1(1)]])
    fix t1 c2 assume c2: "grows c1 c2" and t1: "has R inp c2 t1 (of_bool a * of_bool b * of_bool d)"
    show "makes c2 (bindA (addGate2A kMul s p) (\<lambda>t2. addGate2A kAdd t1 t2)) (\<lambda>w c'. has R inp c' w (of_bool (a \<and> (d \<longrightarrow> b))))"
    proof (rule makes_bind [OF makes_mul [OF grows_ok [OF c2] has_grows [OF h1(2) c2] has_grows [OF h1(3) c2]]])
      fix t2 c3 assume c3: "grows c2 c3" and t2: "has R inp c3 t2 (of_bool a * of_bool (\<not> d))"
      have "of_bool a * of_bool b * of_bool d + of_bool a * of_bool (\<not> d) = (of_bool (a \<and> (d \<longrightarrow> b)) :: 'a)" by auto
      then show "makes c3 (addGate2A kAdd t1 t2) (\<lambda>w c'. has R inp c' w (of_bool (a \<and> (d \<longrightarrow> b))))"
        using makes_add [OF grows_ok [OF c3] has_grows [OF t1 c3] t2] by simp
    qed
  qed
qed

definition selection_inv ::
  "'r::comm_ring_1 ringops \<Rightarrow> (wire_t \<Rightarrow> 'r) \<Rightarrow> SoDoGridLock \<Rightarrow> (nat \<Rightarrow> bool) \<Rightarrow> (nat \<Rightarrow> bool) \<Rightarrow> wire_t list \<Rightarrow> 'r Circuit \<Rightarrow> bool" where
  "selection_inv R inp gl keep dn ns c \<longleftrightarrow> length ns = length (txn_queue gl) \<and>
     (\<forall>t<length (txn_queue gl). dn t \<longrightarrow> has R inp c (ns ! t) (of_bool (keep t)))"

lemma selection_inv_update:
  assumes "selection_inv R inp gl keep dn ns c" "grows c c'" "has R inp c' w (of_bool (keep t))"
    "\<And>u. dn' u \<Longrightarrow> u = t \<or> dn u"
  shows "selection_inv R inp gl keep dn' (ns[t := w]) c'"
  unfolding selection_inv_def
proof (intro conjI allI impI)
  show "length (ns[t := w]) = length (txn_queue gl)" using assms(1) by (simp add: selection_inv_def)
  fix u assume u: "u < length (txn_queue gl)" "dn' u"
  show "has R inp c' (ns[t := w] ! u) (of_bool (keep u))"
  proof (cases "u = t")
    case True
    then show ?thesis using assms(1,3) u(1) by (simp add: selection_inv_def)
  next
    case False
    then have "dn u" using assms(4) [OF u(2)] by simp
    then have "has R inp c (ns ! u) (of_bool (keep u))" using assms(1) u(1) by (simp add: selection_inv_def)
    then show ?thesis using False has_grows [OF _ assms(2)] by simp
  qed
qed

lemma makes_reselect_bank:
  fixes R :: "'r::comm_ring_1 ringops"
  assumes "circuit_ok c" "length selected = length (txn_queue gl)" "i < length neg" "i < length pos"
    and sel: "\<forall>t<length (txn_queue gl). has R inp c (selected ! t) (of_bool (sel t))"
    and neg: "has R inp c (neg ! i) (of_bool (ins i))" and pos: "has R inp c (pos ! i) (of_bool (\<not> ins i))"
    and inv: "selection_inv R inp gl (stays_selected gl ins sel) (\<lambda>t. src (txn_queue gl ! t) < i) ns c"
  shows "makes c (reselect_bank gl selected neg pos i ns)
    (selection_inv R inp gl (stays_selected gl ins sel) (\<lambda>t. src (txn_queue gl ! t) < Suc i))"
proof (cases "txn_by_src gl i = []")
  case True
  then have "src (txn_queue gl ! t) \<noteq> i" if "t < length (txn_queue gl)" for t
    using that by (auto simp: txn_by_src_def filter_empty_conv)
  then have "selection_inv R inp gl (stays_selected gl ins sel) (\<lambda>t. src (txn_queue gl ! t) < Suc i) ns c"
    using inv by (auto simp: selection_inv_def less_Suc_eq)
  then show ?thesis using assms(1) True by (simp add: reselect_bank_def makes_ret)
next
  case False
  let ?T = "txn_by_src gl i" and ?keep = "stays_selected gl ins sel"
  let ?dn = "\<lambda>k t. src (txn_queue gl ! t) < i \<or> t \<in> set (take k ?T)"
  have T: "?T ! j < length (txn_queue gl)" "src (txn_queue gl ! (?T ! j)) = i" if "j < length ?T" for j
    using txn_by_src_nth [OF that] .
  have keep: "?keep (?T ! j) \<longleftrightarrow> sel (?T ! j) \<and> (ins i \<longrightarrow> Suc j < length ?T \<and> sel (?T ! Suc j))" if "j < length ?T" for j
    by (simp add: stays_selected_def T [OF that] next_selected_nth [OF that])
  have body: "makes c' (bindA (addGate2A kMul (selected ! (?T ! j)) (selected ! (?T ! Suc j))) (\<lambda>x. bindA (addGate2A kMul x (neg ! i)) (\<lambda>t1.
        bindA (addGate2A kMul (selected ! (?T ! j)) (pos ! i)) (\<lambda>t2. bindA (addGate2A kAdd t1 t2) (putA ns (?T ! j))))))
      (selection_inv R inp gl ?keep (?dn (Suc j)))"
    if j: "Suc j < length ?T" and c': "grows c c'" and I: "selection_inv R inp gl ?keep (?dn j) ns c'" for j ns c'
  proof -
    have len: "length ns = length (txn_queue gl)" using I by (simp add: selection_inv_def)
    have "makes c' (bindA (bindA (addGate2A kMul (selected ! (?T ! j)) (selected ! (?T ! Suc j))) (\<lambda>x. bindA (addGate2A kMul x (neg ! i)) (\<lambda>t1.
        bindA (addGate2A kMul (selected ! (?T ! j)) (pos ! i)) (\<lambda>t2. addGate2A kAdd t1 t2)))) (putA ns (?T ! j)))
      (selection_inv R inp gl ?keep (?dn (Suc j)))"
    proof (rule makes_bind [OF makes_kept [OF grows_ok [OF c'] has_grows [OF _ c'] has_grows [OF _ c'] has_grows [OF neg c'] has_grows [OF pos c']]])
      show "has R inp c (selected ! (?T ! j)) (of_bool (sel (?T ! j)))" using sel T(1) [of j] j by simp
      show "has R inp c (selected ! (?T ! Suc j)) (of_bool (sel (?T ! Suc j)))" using sel T(1) [of "Suc j"] j by simp
      fix w c'' assume c'': "grows c' c''" and w: "has R inp c'' w (of_bool (sel (?T ! j) \<and> (ins i \<longrightarrow> sel (?T ! Suc j))))"
      have "selection_inv R inp gl ?keep (?dn (Suc j)) (ns[?T ! j := w]) c''"
      proof (rule selection_inv_update [OF I c''])
        show "has R inp c'' w (of_bool (?keep (?T ! j)))" using w j keep [of j] by simp
      qed (use j in \<open>auto simp: take_Suc_conv_app_nth\<close>)
      then show "makes c'' (putA ns (?T ! j) w) (selection_inv R inp gl ?keep (?dn (Suc j)))"
        using len T(1) [of j] j by (simp add: makes_ret grows_ok [OF c''])
    qed
    then show ?thesis by (simp add: bindA_assoc)
  qed
  let ?m = "length ?T - 1"
  have m: "Suc ?m = length ?T" "last ?T = ?T ! ?m" using False by (auto simp: last_conv_nth)
  have "makes c (forA (\<lambda>j ns. bindA (atA selected (?T ! j)) (\<lambda>s. bindA (atA selected (?T ! (j + 1))) (\<lambda>s'.
          bindA (addGate2A kMul s s') (\<lambda>xprod. bindA (atA neg i) (\<lambda>n. bindA (addGate2A kMul xprod n) (\<lambda>term1.
          bindA (atA pos i) (\<lambda>p. bindA (addGate2A kMul s p) (\<lambda>term2.
          bindA (addGate2A kAdd term1 term2) (\<lambda>w. putA ns (?T ! j) w)))))))))
        [0..<?m] ns) (selection_inv R inp gl ?keep (?dn ?m))"
  proof (rule makes_upto [OF assms(1), where I = "\<lambda>k. selection_inv R inp gl ?keep (?dn k)"])
    show "selection_inv R inp gl ?keep (?dn 0) ns c" using inv by simp
    fix j ns c' assume j: "j < ?m" and c': "grows c c'" "selection_inv R inp gl ?keep (?dn j) ns c'"
    have "Suc j < length ?T" using j by simp
    from body [OF this c'] show "makes c' (bindA (atA selected (?T ! j)) (\<lambda>s. bindA (atA selected (?T ! (j + 1))) (\<lambda>s'.
          bindA (addGate2A kMul s s') (\<lambda>xprod. bindA (atA neg i) (\<lambda>n. bindA (addGate2A kMul xprod n) (\<lambda>term1.
          bindA (atA pos i) (\<lambda>p. bindA (addGate2A kMul s p) (\<lambda>term2.
          bindA (addGate2A kAdd term1 term2) (\<lambda>w. putA ns (?T ! j) w)))))))))
       (selection_inv R inp gl ?keep (?dn (Suc j)))"
      using assms(2-4) T(1) [of j] T(1) [of "Suc j"] j by simp
  qed
  then show ?thesis
    unfolding reselect_bank_def Let_def if_not_P [OF False]
  proof (rule makes_bind)
    fix ns c' assume c': "grows c c'" and I: "selection_inv R inp gl ?keep (?dn ?m) ns c'"
    have len: "length ns = length (txn_queue gl)" using I by (simp add: selection_inv_def)
    have h: "has R inp c' (selected ! (?T ! ?m)) (of_bool (sel (?T ! ?m)))"
      by (rule has_grows [OF _ c']) (use sel T(1) [of ?m] m(1) in simp)
    have "makes c' (bindA (addGate2A kMul (selected ! (?T ! ?m)) (pos ! i)) (putA ns (?T ! ?m)))
      (selection_inv R inp gl ?keep (\<lambda>t. src (txn_queue gl ! t) < Suc i))"
    proof (rule makes_bind [OF makes_mul [OF grows_ok [OF c'] h has_grows [OF pos c']]])
      fix w c'' assume c'': "grows c' c''" and w: "has R inp c'' w (of_bool (sel (?T ! ?m)) * of_bool (\<not> ins i))"
      have "selection_inv R inp gl ?keep (\<lambda>t. t < length (txn_queue gl) \<and> src (txn_queue gl ! t) < Suc i) (ns[?T ! ?m := w]) c''"
      proof (rule selection_inv_update [OF I c''])
        have "of_bool (sel (?T ! ?m)) * of_bool (\<not> ins i) = (of_bool (?keep (?T ! ?m)) :: 'r)"
          using keep [of ?m] m(1) by auto
        then show "has R inp c'' w (of_bool (?keep (?T ! ?m)))" using w by simp
        fix u assume u: "u < length (txn_queue gl) \<and> src (txn_queue gl ! u) < Suc i"
        show "u = ?T ! ?m \<or> ?dn ?m u"
        proof (cases "src (txn_queue gl ! u) = i")
          case True
          then have "u \<in> set ?T" using u by (simp add: txn_by_src_def)
          moreover have "?T = take ?m ?T @ [?T ! ?m]" using m(1) take_Suc_conv_app_nth [of ?m ?T] by simp
          ultimately show ?thesis by (metis Un_iff empty_iff insert_iff list.set(1,2) set_append)
        qed (use u in simp)
      qed
      then have "selection_inv R inp gl ?keep (\<lambda>t. src (txn_queue gl ! t) < Suc i) (ns[?T ! ?m := w]) c''"
        by (simp add: selection_inv_def)
      then show "makes c'' (putA ns (?T ! ?m) w) (selection_inv R inp gl ?keep (\<lambda>t. src (txn_queue gl ! t) < Suc i))"
        using len T(1) [of ?m] m(1) by (simp add: makes_ret grows_ok [OF c''])
    qed
    then show "makes c' (bindA (atA selected (last ?T)) (\<lambda>s. bindA (atA pos i) (\<lambda>p. bindA (addGate2A kMul s p) (\<lambda>w.
          putA ns (last ?T) w))))
      (selection_inv R inp gl ?keep (\<lambda>t. src (txn_queue gl ! t) < Suc i))"
      using assms(2,4) T(1) [of ?m] m by simp
  qed
qed

text \<open>A wire vector whose entry \<open>i\<close> has the bit \<open>P i\<close>.\<close>

lemma bits_all2:
  "length ws = n \<Longrightarrow> \<forall>i<n. has R inp c (ws ! i) (of_bool (P i)) \<Longrightarrow>
   list_all2 (has R inp c) ws (map (\<lambda>i. of_bool (P i)) [0..<n])"
  by (simp add: list_all2_conv_all_nth)

lemma makes_compl_all:
  assumes "circuit_ok c" "length ws = n" "\<forall>i<n. has R inp c (ws ! i) (of_bool (P i))"
  shows "makes c (forA (\<lambda>w us. bindA (complA w) (\<lambda>u. retA (us @ [u]))) ws [])
    (\<lambda>us c'. list_all2 (has R inp c') us (map (\<lambda>i. of_bool (\<not> P i)) [0..<n]))"
proof -
  have "makes c (forA (\<lambda>w us. bindA (complA w) (\<lambda>u. retA (us @ [u]))) ws [])
    (\<lambda>us c'. list_all2 (has R inp c') us (map (\<lambda>i. of_bool (\<not> P i)) [0..<length ws]))"
  proof (rule makes_for [where I = "\<lambda>dn us c'. list_all2 (has R inp c') us (map (\<lambda>i. of_bool (\<not> P i)) [0..<length dn])", OF assms(1)])
    fix dn w rest us c'
    assume split: "ws = dn @ w # rest" and c': "grows c c'"
      and I: "list_all2 (has R inp c') us (map (\<lambda>i. of_bool (\<not> P i)) [0..<length dn])"
    have at: "length dn < n" "ws ! length dn = w" using assms(2) split by auto
    have w: "has R inp c' w (of_bool (P (length dn)))"
      using has_grows [OF assms(3) [rule_format, OF at(1)] c'] by (simp only: at(2))
    show "makes c' (bindA (complA w) (\<lambda>u. retA (us @ [u])))
        (\<lambda>us c'. list_all2 (has R inp c') us (map (\<lambda>i. of_bool (\<not> P i)) [0..<length (dn @ [w])]))"
    proof (rule makes_bind [OF makes_compl [OF grows_ok [OF c'] w]])
      fix u c'' assume c'': "grows c' c''" and u: "has R inp c'' u (of_bool (\<not> P (length dn)))"
      have "list_all2 (has R inp c'') (us @ [u]) (map (\<lambda>i. of_bool (\<not> P i)) [0..<length dn] @ [of_bool (\<not> P (length dn))])"
        using hasl_grows [OF I c''] u by (intro list_all2_appendI) simp_all
      then show "makes c'' (retA (us @ [u]))
          (\<lambda>us c'. list_all2 (has R inp c') us (map (\<lambda>i. of_bool (\<not> P i)) [0..<length (dn @ [w])]))"
        by (simp add: makes_ret grows_ok [OF c''])
    qed
  qed simp
  then show ?thesis using assms(2) by simp
qed

lemma makes_all_bits:
  assumes "circuit_ok c" "list_all2 (has R inp c) ws (map (\<lambda>i. of_bool (P i)) [0..<n])" "0 < n"
  shows "makes c (treeMult ws) (\<lambda>w c'. has R inp c' w (of_bool (\<forall>i<n. P i)))"
  using makes_treeMult [OF assms(1,2)] assms(3) by (simp add: prod_of_bool Ball_def)

definition insolvent :: "'r::comm_ring_1 ringops \<Rightarrow> SoDoGridLock \<Rightarrow> (nat \<Rightarrow> 'r) \<Rightarrow> (nat \<Rightarrow> 'r) \<Rightarrow> (nat \<Rightarrow> bool) \<Rightarrow> nat \<Rightarrow> bool" where
  "insolvent R gl bal a sel b \<longleftrightarrow> msb R (settled gl bal (\<lambda>t. of_bool (sel t) * a t) b)"

lemma makes_reselect:
  assumes "circuit_ok c" "gl_ok gl" "length selected = length (txn_queue gl)"
    "length neg = num_banks gl" "length pos = num_banks gl"
    "\<forall>t<length (txn_queue gl). has R inp c (selected ! t) (of_bool (sel t))"
    "\<forall>b<num_banks gl. has R inp c (neg ! b) (of_bool (ins b))"
    "\<forall>b<num_banks gl. has R inp c (pos ! b) (of_bool (\<not> ins b))"
  shows "makes c (reselect gl selected neg pos)
    (\<lambda>ns c'. length ns = length (txn_queue gl) \<and>
      (\<forall>t<length (txn_queue gl). has R inp c' (ns ! t) (of_bool (stays_selected gl ins sel t))))"
proof -
  have "makes c (forA (reselect_bank gl selected neg pos) [0..<num_banks gl] (replicate (length (txn_queue gl)) 0))
    (selection_inv R inp gl (stays_selected gl ins sel) (\<lambda>t. src (txn_queue gl ! t) < num_banks gl))"
  proof (rule makes_upto [where I = "\<lambda>i. selection_inv R inp gl (stays_selected gl ins sel) (\<lambda>t. src (txn_queue gl ! t) < i)", OF assms(1)])
    fix i ns c' assume i: "i < num_banks gl" and c': "grows c c'"
      and I: "selection_inv R inp gl (stays_selected gl ins sel) (\<lambda>t. src (txn_queue gl ! t) < i) ns c'"
    show "makes c' (reselect_bank gl selected neg pos i ns)
        (selection_inv R inp gl (stays_selected gl ins sel) (\<lambda>t. src (txn_queue gl ! t) < Suc i))"
    proof (rule makes_reselect_bank [OF grows_ok [OF c'] assms(3)])
      show "has R inp c' (neg ! i) (of_bool (ins i))" "has R inp c' (pos ! i) (of_bool (\<not> ins i))"
        by (rule has_grows [OF _ c'], use assms(7,8) i in simp)+
      show "\<forall>t<length (txn_queue gl). has R inp c' (selected ! t) (of_bool (sel t))"
        using assms(6) has_grows [OF _ c'] by blast
    qed (use i I assms(4,5) in simp_all)
  qed (simp add: selection_inv_def)
  then show ?thesis unfolding reselect_def by (rule makes_weaken) (use assms(2) in \<open>simp add: selection_inv_def gl_ok_def\<close>)
qed

lemma makes_sign_bits:
  assumes "circuit_ok c" "\<not> is_BoolRing R" "length nb = n" "\<forall>b<n. has R inp c (nb ! b) (x b)"
  shows "makes c (forA (\<lambda>i neg. bindA (atA nb i) (\<lambda>b. bindA (addGate1A kMsb b) (\<lambda>w. putA neg i w))) [0..<n] (replicate n 0))
    (\<lambda>neg c'. length neg = n \<and> (\<forall>b<n. has R inp c' (neg ! b) (of_bool (msb R (x b)))))"
proof (rule makes_fill [OF assms(1)])
  fix b and ns :: "wire_t list" and c' assume b: "b < n" "length ns = n" and c': "grows c c'"
  have "has R inp c' (nb ! b) (x b)" by (rule has_grows [OF _ c']) (use assms(4) b in simp)
  then have "makes c' (bindA (addGate1A kMsb (nb ! b)) (putA ns b)) (\<lambda>ns' c''. \<exists>w. ns' = ns[b := w] \<and> has R inp c'' w (of_bool (msb R (x b))))"
    by (intro makes_bind [OF makes_sign [OF _ assms(2) grows_ok [OF c']]]) (use b in \<open>auto intro!: makes_ret dest: grows_ok\<close>)
  then show "makes c' (bindA (atA nb b) (\<lambda>b'. bindA (addGate1A kMsb b') (putA ns b)))
      (\<lambda>ns' c''. \<exists>w. ns' = ns[b := w] \<and> has R inp c'' w (of_bool (msb R (x b))))" using b assms(3) by simp
qed

lemma makes_compl_bits:
  assumes "circuit_ok c" "length nb = n" "\<forall>b<n. has R inp c (nb ! b) (of_bool (P b))"
  shows "makes c (forA (\<lambda>i pos. bindA (atA nb i) (\<lambda>b. bindA (complA b) (\<lambda>w. putA pos i w))) [0..<n] (replicate n 0))
    (\<lambda>pos c'. length pos = n \<and> (\<forall>b<n. has R inp c' (pos ! b) (of_bool (\<not> P b))))"
proof (rule makes_fill [OF assms(1)])
  fix b and ns :: "wire_t list" and c' assume b: "b < n" "length ns = n" and c': "grows c c'"
  have "has R inp c' (nb ! b) (of_bool (P b))" by (rule has_grows [OF _ c']) (use assms(3) b in simp)
  then have "makes c' (bindA (complA (nb ! b)) (putA ns b)) (\<lambda>ns' c''. \<exists>w. ns' = ns[b := w] \<and> has R inp c'' w (of_bool (\<not> P b)))"
    by (intro makes_bind [OF makes_compl [OF grows_ok [OF c']]]) (use b in \<open>auto intro!: makes_ret dest: grows_ok\<close>)
  then show "makes c' (bindA (atA nb b) (\<lambda>b'. bindA (complA b') (putA ns b)))
      (\<lambda>ns' c''. \<exists>w. ns' = ns[b := w] \<and> has R inp c'' w (of_bool (\<not> P b)))" using b assms(2) by simp
qed

lemma makes_bank_flags:
  assumes "circuit_ok c" "\<not> is_BoolRing R" "length nb = num_banks gl" "\<forall>b<num_banks gl. has R inp c (nb ! b) (x b)"
  shows "makes c (bank_flags gl nb) (\<lambda>(neg, pos) c'. length neg = num_banks gl \<and> length pos = num_banks gl \<and>
    (\<forall>b<num_banks gl. has R inp c' (neg ! b) (of_bool (msb R (x b)))) \<and>
    (\<forall>b<num_banks gl. has R inp c' (pos ! b) (of_bool (\<not> msb R (x b)))))"
  unfolding bank_flags_def
proof (rule makes_bind [OF makes_sign_bits [OF assms]], elim conjE)
  let ?k = "num_banks gl"
  fix neg c1 assume c1: "grows c c1" and neg: "length neg = ?k" "\<forall>b<?k. has R inp c1 (neg ! b) (of_bool (msb R (x b)))"
  show "makes c1 (bindA (forA (\<lambda>i pos. bindA (atA neg i) (\<lambda>n. bindA (complA n) (\<lambda>w. putA pos i w)))
       [0..<?k] (replicate ?k 0)) (\<lambda>pos. retA (neg, pos))) (\<lambda>(neg, pos) c'. length neg = ?k \<and> length pos = ?k \<and>
    (\<forall>b<?k. has R inp c' (neg ! b) (of_bool (msb R (x b)))) \<and> (\<forall>b<?k. has R inp c' (pos ! b) (of_bool (\<not> msb R (x b)))))"
  proof (rule makes_bind [OF makes_compl_bits [OF grows_ok [OF c1] neg]], elim conjE)
    fix pos c2 assume c2: "grows c1 c2" and pos: "length pos = ?k" "\<forall>b<?k. has R inp c2 (pos ! b) (of_bool (\<not> msb R (x b)))"
    have "\<forall>b<?k. has R inp c2 (neg ! b) (of_bool (msb R (x b)))" using neg(2) has_grows [OF _ c2] by blast
    then show "makes c2 (retA (neg, pos)) (\<lambda>(neg, pos) c'. length neg = ?k \<and> length pos = ?k \<and>
      (\<forall>b<?k. has R inp c' (neg ! b) (of_bool (msb R (x b)))) \<and> (\<forall>b<?k. has R inp c' (pos ! b) (of_bool (\<not> msb R (x b)))))"
      using neg(1) pos by (intro makes_ret grows_ok [OF c2]) simp
  qed
qed

text \<open>Marking the product of the wires \<open>ws\<close> as output, when they carry the bits \<open>P 0, \<dots>, P (n - 1)\<close>.\<close>

lemma marks_all_bits:
  assumes "circuit_ok c" "list_all2 (has R inp c) ws (map (\<lambda>i. of_bool (P i)) [0..<n])" "0 < n"
  shows "marks c (bindA (treeMult ws) outputA) (\<lambda>_ c'. \<exists>w. outputs_added c [w] c' \<and> has R inp c' w (of_bool (\<forall>i<n. P i)))"
proof (rule marks_makes [OF makes_all_bits [OF assms]])
  fix w c1 assume c1: "grows c c1" and w: "has R inp c1 w (of_bool (\<forall>i<n. P i))"
  have "outputs_added c [w] (c1\<lparr>circ_outputs := circ_outputs c1 @ [w]\<rparr>)"
    using c1 by (simp add: outputs_added_def grows_def)
  then show "marks c1 (outputA w) (\<lambda>_ c'. \<exists>w. outputs_added c [w] c' \<and> has R inp c' w (of_bool (\<forall>i<n. P i)))"
    by (intro marks_weaken [OF marks_output [OF grows_ok [OF c1] w]] exI [of _ w]) (simp add: w)
qed

lemma marks_mark_deadlock:
  assumes "circuit_ok c" "length ns = n" "\<forall>t<n. has R inp c (ns ! t) (of_bool (P t))" "0 < n"
  shows "marks c (mark_deadlock ns) (\<lambda>_ c'. \<exists>d. outputs_added c [d] c' \<and> has R inp c' d (of_bool (\<forall>t<n. \<not> P t)))"
  unfolding mark_deadlock_def
proof (rule marks_makes [OF makes_compl_all [OF assms(1-3)]])
  fix us c1 assume c1: "grows c c1" and us: "list_all2 (has R inp c1) us (map (\<lambda>t. of_bool (\<not> P t)) [0..<n])"
  show "marks c1 (bindA (treeMult us) outputA)
      (\<lambda>_ c'. \<exists>d. outputs_added c [d] c' \<and> has R inp c' d (of_bool (\<forall>t<n. \<not> P t)))"
    by (rule marks_weaken [OF marks_all_bits [OF grows_ok [OF c1] us assms(4)]])
      (use outputs_added_trans [OF grows_outputs_added [OF c1]] in fastforce)
qed

text \<open>
  The iteration as a whole: the first output tells whether all banks are solvent, the second whether
  no transaction is left, and the result is the new selection.
\<close>

lemma marks_updateSelectedTransactions:
  assumes "circuit_ok c" "\<not> is_BoolRing R" "gl_ok gl" "txn_queue gl \<noteq> []" "length selected = length (txn_queue gl)"
    "length balance = num_banks gl"
    "\<forall>t<length (txn_queue gl). has R inp c (selected ! t) (of_bool (sel t))"
    "\<forall>t<length (txn_queue gl). has R inp c (amt (txn_queue gl ! t)) (a t)"
    "\<forall>b<num_banks gl. has R inp c (balance ! b) (bal b)"
  shows "marks c (updateSelectedTransactions gl balance selected) (\<lambda>ns c'. length ns = length (txn_queue gl) \<and>
    (\<exists>p d. outputs_added c [p, d] c' \<and>
      has R inp c' p (of_bool (\<forall>b<num_banks gl. \<not> insolvent R gl bal a sel b)) \<and>
      has R inp c' d (of_bool (\<forall>t<length (txn_queue gl). \<not> stays_selected gl (insolvent R gl bal a sel) sel t))) \<and>
    (\<forall>t<length (txn_queue gl). has R inp c' (ns ! t) (of_bool (stays_selected gl (insolvent R gl bal a sel) sel t))))"
    (is "marks c _ ?Q")
proof -
  let ?q = "length (txn_queue gl)" and ?k = "num_banks gl" and ?ins = "insolvent R gl bal a sel"
  have k: "0 < ?k" "0 < ?q" using assms(3,4) by (cases "txn_queue gl"; auto simp: gl_ok_def)+
  obtain nb c1 where nb: "newBalances gl balance selected c = Some (Inr (nb, c1))" "grows c c1" "length nb = ?k"
    "\<forall>b<?k. has R inp c1 (nb ! b) (settled gl bal (\<lambda>t. of_bool (sel t) * a t) b)"
    using makes_newBalances [OF assms(1,3,5,6,7,8,9)] by (auto elim: makesE)
  obtain neg pos c2 where fl: "bank_flags gl nb c1 = Some (Inr ((neg, pos), c2))" "grows c1 c2" "length neg = ?k" "length pos = ?k"
    "\<forall>b<?k. has R inp c2 (neg ! b) (of_bool (?ins b))" "\<forall>b<?k. has R inp c2 (pos ! b) (of_bool (\<not> ?ins b))"
    using makes_bank_flags [OF grows_ok [OF nb(2)] assms(2) nb(3,4)] unfolding insolvent_def by (auto elim!: makesE)
  obtain c3 p where p: "bindA (treeMult pos) outputA c2 = Some (Inr ((), c3))" "circuit_ok c3" "outputs_added c2 [p] c3"
    "has R inp c3 p (of_bool (\<forall>b<?k. \<not> ?ins b))"
    using marks_all_bits [OF grows_ok [OF fl(2)] bits_all2 [OF fl(4,6)] k(1)] by (auto simp: marks_def)
  have e: "outputs_added c [p] c3"
    using outputs_added_trans [OF grows_outputs_added [OF grows_trans [OF nb(2) fl(2)]] p(3)] by simp
  have in3: "\<forall>t<?q. has R inp c3 (selected ! t) (of_bool (sel t))" "\<forall>b<?k. has R inp c3 (neg ! b) (of_bool (?ins b))"
    "\<forall>b<?k. has R inp c3 (pos ! b) (of_bool (\<not> ?ins b))"
    using assms(7) fl(5,6) has_outputs_added [OF _ e] has_outputs_added [OF _ p(3)] by blast+
  obtain ns c4 where ns: "reselect gl selected neg pos c3 = Some (Inr (ns, c4))" "grows c3 c4" "length ns = ?q"
    "\<forall>t<?q. has R inp c4 (ns ! t) (of_bool (stays_selected gl ?ins sel t))"
    using makes_reselect [OF p(2) assms(3,5) fl(3,4) in3] by (auto elim: makesE)
  obtain c5 d where d: "mark_deadlock ns c4 = Some (Inr ((), c5))" "circuit_ok c5" "outputs_added c4 [d] c5"
    "has R inp c5 d (of_bool (\<forall>t<?q. \<not> stays_selected gl ?ins sel t))"
    using marks_mark_deadlock [OF grows_ok [OF ns(2)] ns(3,4) k(2)] by (auto simp: marks_def)
  have e35: "outputs_added c3 [d] c5" using outputs_added_trans [OF grows_outputs_added [OF ns(2)] d(3)] by simp
  have e5: "outputs_added c [p, d] c5" using outputs_added_trans [OF e e35] by simp
  have h5: "has R inp c5 p (of_bool (\<forall>b<?k. \<not> ?ins b))" using p(4) e35 by (rule has_outputs_added)
  have s5: "\<forall>t<?q. has R inp c5 (ns ! t) (of_bool (stays_selected gl ?ins sel t))"
    using ns(4) has_outputs_added [OF _ d(3)] by blast
  have "updateSelectedTransactions gl balance selected c = bindA (bindA (treeMult pos) outputA)
      (\<lambda>_. bindA (reselect gl selected neg pos) (\<lambda>ns. bindA (mark_deadlock ns) (\<lambda>_. retA ns))) c2"
    by (simp add: updateSelectedTransactions_def bindA_def nb(1) fl(1) split: option.splits sum.splits)
  also have "\<dots> = Some (Inr (ns, c5))" by (simp add: bindA_def [of "bindA (treeMult pos) outputA"] p(1)) (simp add: bindA_def ns(1) d(1) retA_def)
  finally show ?thesis using d e5 h5 s5 ns(3) unfolding marks_def by blast
qed

subsection \<open>Properties\<close>

text \<open>
  C22: One iteration of the gridlock resolution. From any well-formed circuit with wires for the amounts,
  the balances and the selection bits, the routine runs without an exception, keeps every gate and
  output, and adds two outputs: whether no bank is insolvent after the selected transactions, and
  whether no transaction is left. The returned wires carry the new selection, in which an insolvent
  bank loses the transactions that are not followed by a selected one of the same bank.
\<close>

theorem gridlock_iteration:
  assumes "circuit_ok c" "\<not> is_BoolRing R" "gl_ok gl" "txn_queue gl \<noteq> []" "length selected = length (txn_queue gl)"
    "length balance = num_banks gl"
    "\<forall>t<length (txn_queue gl). has R inp c (selected ! t) (of_bool (sel t))"
    "\<forall>t<length (txn_queue gl). has R inp c (amt (txn_queue gl ! t)) (a t)"
    "\<forall>b<num_banks gl. has R inp c (balance ! b) (bal b)"
  shows "\<exists>ns c' p d. updateSelectedTransactions gl balance selected c = Some (Inr (ns, c')) \<and> circuit_ok c' \<and>
    prefix (circ_gates c) (circ_gates c') \<and> circ_outputs c' = circ_outputs c @ [p, d] \<and>
    wval R inp c' p = of_bool (\<forall>b<num_banks gl. \<not> insolvent R gl bal a sel b) \<and>
    wval R inp c' d = of_bool (\<forall>t<length (txn_queue gl). \<not> stays_selected gl (insolvent R gl bal a sel) sel t) \<and>
    length ns = length (txn_queue gl) \<and>
    (\<forall>t<length (txn_queue gl). wval R inp c' (ns ! t) = of_bool (stays_selected gl (insolvent R gl bal a sel) sel t))"
  using marks_updateSelectedTransactions [OF assms] unfolding marks_def outputs_added_def has_def by blast

text \<open>Two banks that owe each other 25 and 40, with balances 20 and 10: the second cannot pay.\<close>

definition ex_gl :: SoDoGridLock where
  "ex_gl = \<lparr>txn_queue = [\<lparr>src = 0, dest = 1, amt = 0\<rparr>, \<lparr>src = 1, dest = 0, amt = 1\<rparr>], num_banks = 2\<rparr>"

definition ex_gl_inp :: "wire_t \<Rightarrow> u64" where
  "ex_gl_inp w = [25, 40, 20, 10, 1, 1] ! w"

definition ex_gl_ring :: "u64 ringops" where
  "ex_gl_ring = \<lparr>is_BoolRing = False, conv_u64 = (\<lambda>x. x), R_of_u64 = (\<lambda>x. x)\<rparr>"

definition ex_gl_amt :: "nat \<Rightarrow> u64" where
  "ex_gl_amt t = (if t = 0 then 25 else 40)"

definition ex_gl_bal :: "nat \<Rightarrow> u64" where
  "ex_gl_bal b = (if b = 0 then 20 else 10)"

abbreviation ex_insolvent :: "nat \<Rightarrow> bool" where
  "ex_insolvent \<equiv> insolvent ex_gl_ring ex_gl ex_gl_bal ex_gl_amt (\<lambda>_. True)"

lemma ex_gl_inputs:
  "\<forall>t<length (txn_queue ex_gl). has ex_gl_ring ex_gl_inp (inputs_circuit 6) ([4, 5] ! t) (of_bool True)"
  "\<forall>t<length (txn_queue ex_gl). has ex_gl_ring ex_gl_inp (inputs_circuit 6) (amt (txn_queue ex_gl ! t)) (ex_gl_amt t)"
  "\<forall>b<num_banks ex_gl. has ex_gl_ring ex_gl_inp (inputs_circuit 6) ([2, 3] ! b) (ex_gl_bal b)"
  using has_inputs_circuit [of _ 6 ex_gl_ring ex_gl_inp]
  by (auto simp: ex_gl_def ex_gl_inp_def ex_gl_amt_def ex_gl_bal_def less_Suc_eq numeral_eq_Suc has_def wval_def)

lemma ex_gl_insolvent: "ex_insolvent 0 = False" "ex_insolvent (Suc 0) = True"
  by (simp_all add: insolvent_def msb_def settled_def txns_of_def ex_gl_def ex_gl_ring_def ex_gl_bal_def ex_gl_amt_def
      numeral_2_eq_2)

theorem gridlock_iteration_witness:
  "\<exists>ns c' p d. updateSelectedTransactions ex_gl [2, 3] [4, 5] (inputs_circuit 6) = Some (Inr (ns, c')) \<and>
    circ_outputs c' = [p, d] \<and> wval ex_gl_ring ex_gl_inp c' p = 0 \<and> wval ex_gl_ring ex_gl_inp c' d = 0"
proof -
  have "\<exists>ns c' p d. updateSelectedTransactions ex_gl [2, 3] [4, 5] (inputs_circuit 6) = Some (Inr (ns, c')) \<and> circuit_ok c' \<and>
    prefix (circ_gates (inputs_circuit 6)) (circ_gates c') \<and> circ_outputs c' = circ_outputs (inputs_circuit 6 :: u64 Circuit) @ [p, d] \<and>
    wval ex_gl_ring ex_gl_inp c' p = of_bool (\<forall>b<num_banks ex_gl. \<not> ex_insolvent b) \<and>
    wval ex_gl_ring ex_gl_inp c' d = of_bool (\<forall>t<length (txn_queue ex_gl). \<not> stays_selected ex_gl ex_insolvent (\<lambda>_. True) t) \<and>
    length ns = length (txn_queue ex_gl) \<and>
    (\<forall>t<length (txn_queue ex_gl). wval ex_gl_ring ex_gl_inp c' (ns ! t) = of_bool (stays_selected ex_gl ex_insolvent (\<lambda>_. True) t))"
    by (rule gridlock_iteration [OF inputs_circuit_ok, where R = ex_gl_ring and inp = ex_gl_inp and gl = ex_gl and
          sel = "\<lambda>_. True" and a = ex_gl_amt and bal = ex_gl_bal and selected = "[4, 5]" and balance = "[2, 3]"])
      (use ex_gl_inputs in \<open>simp_all add: ex_gl_def ex_gl_ring_def gl_ok_def\<close>)
  moreover have "\<not> (\<forall>b<num_banks ex_gl. \<not> ex_insolvent b)" 
  proof -
    have "Suc 0 < num_banks ex_gl" by (simp add: ex_gl_def)
    then show ?thesis using ex_gl_insolvent(2) by blast
  qed
  moreover have "\<not> (\<forall>t<length (txn_queue ex_gl). \<not> stays_selected ex_gl ex_insolvent (\<lambda>_. True) t)"
  proof -
    have "0 < length (txn_queue ex_gl)" "src (txn_queue ex_gl ! 0) = 0" by (simp_all add: ex_gl_def)
    then show ?thesis using ex_gl_insolvent(1) by (auto simp: stays_selected_def)
  qed
  ultimately show ?thesis by (simp add: inputs_circuit_def) blast
qed

end
