(* ===== verification/DarkPool.thy ===== *)
theory DarkPool
  imports AppBuild
begin

section \<open>Dark pool trading (utils/darkpool.h)\<close>

text \<open>
  \<open>DarkPool\<close> builds the circuits of the two auction modes, continuous double auction
  (\<open>getCDACircuit\<close>) and volume matching (\<open>getVMCircuit\<close>), over a list of sell orders and one of buy
  orders. The member \<open>circ_\<close> is the state of the monad of \<open>AppBuild\<close>.
\<close>

record Order =
  name :: wire_t
  unit :: wire_t
  price :: wire_t

text \<open>\<open>BuyList\<close> and \<open>SellList\<close> wrap a vector of orders; \<open>new_order\<close> is assigned before it is read.\<close>

record DarkPool =
  s_list :: "Order list"
  b_list :: "Order list"
  sell_list_size :: nat
  buy_list_size :: nat
  new_order :: Order

definition Order_new :: Order where
  "Order_new = \<lparr>name = 0, unit = 0, price = 0\<rparr>"

definition DarkPool_new :: "nat \<Rightarrow> nat \<Rightarrow> DarkPool" where
  "DarkPool_new sells buys =
     \<lparr>s_list = [], b_list = [], sell_list_size = sells, buy_list_size = buys, new_order = Order_new\<rparr>"

text \<open>\<open>resize\<close> cuts the vector or fills it with value-initialised orders, whose wires are 0.\<close>

definition resize :: "nat \<Rightarrow> Order list \<Rightarrow> Order list" where
  "resize n os = take n os @ replicate (n - length os) Order_new"

definition resizeList :: "DarkPool \<Rightarrow> DarkPool" where
  "resizeList dp = dp\<lparr>s_list := resize (sell_list_size dp) (s_list dp), b_list := resize (buy_list_size dp) (b_list dp)\<rparr>"

subsection \<open>Volume matching\<close>

definition inputOrder :: "('r, Order) appb" where
  "inputOrder = bindA inputA (\<lambda>n. bindA inputA (\<lambda>u. bindA inputA (\<lambda>p.
     retA \<lparr>name = n, unit = u, price = p\<rparr>)))"

text \<open>The units of a list summed up: the first two, then the rest.\<close>

definition vm_first :: "Order list \<Rightarrow> ('r, wire_t) appb" where
  "vm_first os = bindA (atA os 0) (\<lambda>a. bindA (atA os 1) (\<lambda>b. addGate2A kAdd (unit a) (unit b)))"

definition vm_rest :: "Order list \<Rightarrow> wire_t \<Rightarrow> ('r, wire_t) appb" where
  "vm_rest os w = forA (\<lambda>i w. bindA (atA os i) (\<lambda>b. addGate2A kAdd w (unit b))) [2..<length os] w"

text \<open>
  The wires \<open>L\<close> of what is left of the volume: entry 0 of the vector is never assigned, so it is
  wire 0.
\<close>

definition vm_left :: "wire_t \<Rightarrow> Order list \<Rightarrow> wire_t \<Rightarrow> ('r, wire_t list) appb" where
  "vm_left t_wire os first =
     bindA (bindA (putA (replicate (length os) 0) 0 first) (\<lambda>temp.
       forA (\<lambda>i (temp, L). bindA (atA os i) (\<lambda>b. bindA (atA temp (i - 1)) (\<lambda>prev.
           bindA (addGate2A kAdd (unit b) prev) (\<lambda>w. bindA (putA temp i w) (\<lambda>temp.
           bindA (addGate2A kSub t_wire w) (\<lambda>l. bindA (putA L i l) (\<lambda>L. retA (temp, L)))))))) 
         [1..<length os] (temp, replicate (length os) 0))) (\<lambda>(temp, L). retA L)"

text \<open>
  Writing entry \<open>i\<close> of a temporary vector of \<open>n\<close> entries, which is read back only in the same round.
\<close>

definition storeA :: "nat \<Rightarrow> nat \<Rightarrow> wire_t \<Rightarrow> ('r, wire_t) appb" where
  "storeA n i w = (if i < n then retA w else undefA)"

text \<open>
  One round of the matching of a side: the units of order \<open>i\<close> that are traded. The vectors
  \<open>z_1\<close>, \<open>z_2\<close> and \<open>temp_1\<close> to \<open>temp_4\<close> have an entry for each order, \<open>temp_5\<close> and \<open>temp_6\<close> have
  \<open>n\<close> entries.
\<close>

definition vm_round :: "nat \<Rightarrow> wire_t list \<Rightarrow> nat \<Rightarrow> Order list \<Rightarrow> ('r::comm_ring_1, Order list) appb" where
  "vm_round n L i os =
     bindA (atA L i) (\<lambda>l. bindA (atA os i) (\<lambda>b.
     bindA (addConstA kConstAdd l (- 1)) (\<lambda>t1.
     bindA (addGate2A kSub l (unit b)) (\<lambda>t2.
     bindA (addGate1A kLtz t1) (\<lambda>z1.
     bindA (addGate1A kLtz t2) (\<lambda>z2.
     bindA (addGate2A kMul t2 z2) (\<lambda>t3.
     bindA (addConstA kConstMul z1 (- 1)) (\<lambda>t4.
     bindA (addConstA kConstAdd t4 1) (\<lambda>t5. bindA (storeA n i t5) (\<lambda>t5.
     bindA (addGate2A kAdd t3 (unit b)) (\<lambda>t6. bindA (storeA n i t6) (\<lambda>t6.
     bindA (addGate2A kMul t6 t5) (\<lambda>u.
     bindA (putA os i (b\<lparr>unit := u\<rparr>)) (\<lambda>os.
     bindA (outputA u) (\<lambda>_. retA os)))))))))))))))"

definition vm_total :: "wire_t \<Rightarrow> wire_t \<Rightarrow> ('r, wire_t) appb" where
  "vm_total s_wire b_wire =
     bindA (addGate2A kSub b_wire s_wire) (\<lambda>tmp.
     bindA (addGate1A kLtz tmp) (\<lambda>f_wire.
     bindA (addGate2A kSub s_wire b_wire) (\<lambda>tmp_diff.
     bindA (addGate2A kMul tmp_diff f_wire) (\<lambda>tmp_sel.
     addGate2A kAdd tmp_sel b_wire))))"

definition getVMCircuit :: "DarkPool \<Rightarrow> ('r::comm_ring_1, DarkPool) appb" where
  "getVMCircuit dp =
     bindA inputOrder (\<lambda>new.
     bindA (vm_first (s_list dp)) (\<lambda>s_wire.
     bindA (vm_first (b_list dp)) (\<lambda>b_wire.
     bindA (vm_rest (s_list dp) s_wire) (\<lambda>s_wire.
     bindA (vm_rest (b_list dp) b_wire) (\<lambda>b_wire.
     bindA (vm_total s_wire b_wire) (\<lambda>t_wire.
     bindA (bindA (atA (s_list dp) 0) (\<lambda>a. addConstA kConstMul (unit a) 0)) (\<lambda>temp_s0.
     bindA (bindA (atA (b_list dp) 0) (\<lambda>a. addConstA kConstMul (unit a) 0)) (\<lambda>temp_b0.
     bindA (vm_left t_wire (s_list dp) temp_s0) (\<lambda>Ls_wire.
     bindA (vm_left t_wire (b_list dp) temp_b0) (\<lambda>Lb_wire.
     bindA (forA (vm_round (length (s_list dp)) Ls_wire) [0..<length (s_list dp)] (s_list dp)) (\<lambda>sl.
     bindA (forA (vm_round (length (s_list dp)) Lb_wire) [0..<length (b_list dp)] (b_list dp)) (\<lambda>bl.
     retA (dp\<lparr>s_list := sl, b_list := bl, new_order := new\<rparr>)))))))))))))"

subsection \<open>What volume matching computes\<close>

text \<open>\<open>units_have R inp c os x\<close>: the unit wire of order \<open>i\<close> carries \<open>x i\<close>.\<close>

definition units_have :: "'r::comm_ring_1 ringops \<Rightarrow> (wire_t \<Rightarrow> 'r) \<Rightarrow> 'r Circuit \<Rightarrow> Order list \<Rightarrow> (nat \<Rightarrow> 'r) \<Rightarrow> bool" where
  "units_have R inp c os x \<longleftrightarrow> (\<forall>i<length os. has R inp c (unit (os ! i)) (x i))"

lemma units_have_nth: "units_have R inp c os x \<Longrightarrow> i < length os \<Longrightarrow> has R inp c (unit (os ! i)) (x i)"
  by (simp add: units_have_def)

lemma units_have_grows: "units_have R inp c os x \<Longrightarrow> grows c c' \<Longrightarrow> units_have R inp c' os x"
  by (auto simp: units_have_def intro: has_grows)

lemma units_have_outputs: "units_have R inp c os x \<Longrightarrow> outputs_added c ws c' \<Longrightarrow> units_have R inp c' os x"
  by (auto simp: units_have_def intro: has_outputs_added)

definition total_units :: "(nat \<Rightarrow> 'r::comm_ring_1) \<Rightarrow> nat \<Rightarrow> 'r" where
  "total_units x n = (\<Sum>i\<leftarrow>[0..<n]. x i)"

lemma makes_vm_first:
  assumes "circuit_ok c" "2 \<le> length os" "units_have R inp c os x"
  shows "makes c (vm_first os) (\<lambda>w c'. has R inp c' w (total_units x 2))"
proof -
  have "makes c (addGate2A kAdd (unit (os ! 0)) (unit (os ! 1))) (\<lambda>w c'. has R inp c' w (x 0 + x 1))"
    by (rule makes_add [OF assms(1) units_have_nth [OF assms(3)] units_have_nth [OF assms(3)]])
      (use assms(2) in linarith)+
  moreover have "0 < length os" "1 < length os" using assms(2) by linarith+
  ultimately have "makes c (vm_first os) (\<lambda>w c'. has R inp c' w (x 0 + x 1))"
    unfolding vm_first_def by (simp only: atA_ret bindA_ret)
  then show ?thesis by (simp add: total_units_def numeral_2_eq_2)
qed

lemma makes_vm_rest:
  assumes "circuit_ok c" "2 \<le> length os" "units_have R inp c os x" "has R inp c w (total_units x 2)"
  shows "makes c (vm_rest os w) (\<lambda>w c'. has R inp c' w (total_units x (length os)))"
  unfolding vm_rest_def
proof (rule makes_upt [where I = "\<lambda>k w c'. has R inp c' w (total_units x k)", OF assms(1,4,2)])
  fix i w c' assume i: "i < length os" and c': "grows c c'" and w: "has R inp c' w (total_units x i)"
  have "total_units x (Suc i) = total_units x i + x i" by (simp add: total_units_def)
  then show "makes c' (bindA (atA os i) (\<lambda>b. addGate2A kAdd w (unit b))) (\<lambda>w c'. has R inp c' w (total_units x (Suc i)))"
    using makes_add [OF grows_ok [OF c'] w units_have_nth [OF units_have_grows [OF assms(3) c'] i]] i by simp
qed

text \<open>The volume that is matched: the sum of the sells if that of the buys is smaller, else that of the buys.\<close>

definition volume :: "'r::comm_ring_1 ringops \<Rightarrow> 'r \<Rightarrow> 'r \<Rightarrow> 'r" where
  "volume R s b = (if msb R (b - s) then s else b)"

lemma makes_vm_total:
  assumes "circuit_ok c" "\<not> is_BoolRing R" "has R inp c s x" "has R inp c b y"
  shows "makes c (vm_total s b) (\<lambda>w c'. has R inp c' w (volume R x y))"
  unfolding vm_total_def
proof (rule makes_bind [OF makes_sub [OF assms(1,4,3)]])
  fix t c1 assume c1: "grows c c1" and t: "has R inp c1 t (y - x)"
  show "makes c1 (bindA (addGate1A kLtz t) (\<lambda>f. bindA (addGate2A kSub s b) (\<lambda>d. bindA (addGate2A kMul d f) (\<lambda>e. addGate2A kAdd e b))))
      (\<lambda>w c'. has R inp c' w (volume R x y))"
  proof (rule makes_bind [OF makes_sign [OF _ assms(2) grows_ok [OF c1] t]])
    fix f c2 assume c2: "grows c1 c2" and f: "has R inp c2 f (of_bool (msb R (y - x)))"
    have g2: "grows c c2" using c1 c2 by (rule grows_trans)
    show "makes c2 (bindA (addGate2A kSub s b) (\<lambda>d. bindA (addGate2A kMul d f) (\<lambda>e. addGate2A kAdd e b)))
        (\<lambda>w c'. has R inp c' w (volume R x y))"
    proof (rule makes_bind [OF makes_sub [OF grows_ok [OF c2] has_grows [OF assms(3) g2] has_grows [OF assms(4) g2]]])
      fix d c3 assume c3: "grows c2 c3" and d: "has R inp c3 d (x - y)"
      show "makes c3 (bindA (addGate2A kMul d f) (\<lambda>e. addGate2A kAdd e b)) (\<lambda>w c'. has R inp c' w (volume R x y))"
      proof (rule makes_bind [OF makes_mul [OF grows_ok [OF c3] d has_grows [OF f c3]]])
        fix e c4 assume c4: "grows c3 c4" and e: "has R inp c4 e ((x - y) * of_bool (msb R (y - x)))"
        have "grows c c4" using g2 c3 c4 by (blast intro: grows_trans)
        moreover have "(x - y) * of_bool (msb R (y - x)) + y = volume R x y" by (simp add: volume_def)
        ultimately show "makes c4 (addGate2A kAdd e b) (\<lambda>w c'. has R inp c' w (volume R x y))"
          using makes_add [OF grows_ok [OF c4] e has_grows [OF assms(4)]] by simp
      qed
    qed
  qed simp
qed

text \<open>
  The entries of \<open>L\<close>: from the second on, the volume less the units of orders 1 to \<open>i\<close> (order 0 is
  left out of the sum); the first is wire 0.
\<close>

definition left_val :: "'r::comm_ring_1 \<Rightarrow> 'r \<Rightarrow> (nat \<Rightarrow> 'r) \<Rightarrow> nat \<Rightarrow> 'r" where
  "left_val z t x i = (if i = 0 then z else t - (\<Sum>k\<leftarrow>[1..<Suc i]. x k))"

lemma makes_vm_left:
  assumes "circuit_ok c" "0 < length os" "units_have R inp c os x" "has R inp c t v" "has R inp c first 0" "has R inp c 0 z"
  shows "makes c (vm_left t os first) (\<lambda>L c'. length L = length os \<and> (\<forall>i<length os. has R inp c' (L ! i) (left_val z v x i)))"
proof -
  let ?n = "length os"
  let ?I = "\<lambda>k (temp, L) c'. length temp = ?n \<and> length L = ?n \<and> has R inp c' (temp ! (k - 1)) (\<Sum>j\<leftarrow>[1..<k]. x j) \<and>
    (\<forall>i<k. has R inp c' (L ! i) (left_val z v x i))"
  let ?body = "\<lambda>i (temp, L). bindA (atA os i) (\<lambda>b. bindA (atA temp (i - 1)) (\<lambda>prev.
           bindA (addGate2A kAdd (unit b) prev) (\<lambda>w. bindA (putA temp i w) (\<lambda>temp.
           bindA (addGate2A kSub t w) (\<lambda>l. bindA (putA L i l) (\<lambda>L. retA (temp, L)))))))"
  have "makes c (forA ?body [1..<?n] ((replicate ?n 0)[0 := first], replicate ?n 0)) (?I ?n)"
  proof (rule makes_upt [where I = ?I, OF assms(1)])
    fix i s c' assume i: "1 \<le> i" "i < ?n" and c': "grows c c'" and I: "?I i s c'"
    obtain temp L where s: "s = (temp, L)" by fastforce
    let ?P = "\<Sum>j\<leftarrow>[1..<i]. x j"
    have tl: "length temp = ?n" "length L = ?n" "has R inp c' (temp ! (i - 1)) ?P" "\<forall>k<i. has R inp c' (L ! k) (left_val z v x k)"
      using I s by simp_all
    have u: "has R inp c' (unit (os ! i)) (x i)" "has R inp c' t v"
      using units_have_nth [OF assms(3) i(2)] assms(4) by (auto intro: has_grows [OF _ c'])
    have "makes c' (bindA (addGate2A kAdd (unit (os ! i)) (temp ! (i - 1))) (\<lambda>w.
        bindA (addGate2A kSub t w) (\<lambda>l. retA (temp[i := w], L[i := l])))) (?I (Suc i))"
    proof (rule makes_bind [OF makes_add [OF grows_ok [OF c'] u(1) tl(3)]])
      fix w c1 assume c1: "grows c' c1" and w: "has R inp c1 w (x i + ?P)"
      show "makes c1 (bindA (addGate2A kSub t w) (\<lambda>l. retA (temp[i := w], L[i := l]))) (?I (Suc i))"
      proof (rule makes_bind [OF makes_sub [OF grows_ok [OF c1] has_grows [OF u(2) c1] w]])
        fix l c2 assume c2: "grows c1 c2" and l: "has R inp c2 l (v - (x i + ?P))"
        have sum: "(\<Sum>j\<leftarrow>[1..<Suc i]. x j) = x i + ?P" using i by simp
        have g: "grows c' c2" using c1 c2 by (rule grows_trans)
        have "has R inp c2 (L[i := l] ! k) (left_val z v x k)" if "k < Suc i" for k
        proof (cases "k = i")
          case True
          then show ?thesis using l i tl(2) sum by (simp add: left_val_def del: upt_Suc)
        next
          case False
          then have "has R inp c' (L ! k) (left_val z v x k)" using tl(4) that by simp
          then show ?thesis using False has_grows [OF _ g] by simp
        qed
        moreover have "has R inp c2 (temp[i := w] ! (Suc i - 1)) (\<Sum>j\<leftarrow>[1..<Suc i]. x j)"
          unfolding sum using has_grows [OF w c2] i tl(1) by simp
        ultimately show "makes c2 (retA (temp[i := w], L[i := l])) (?I (Suc i))"
          using tl(1,2) by (intro makes_ret grows_ok [OF c2]) (simp del: upt_Suc)
      qed
    qed
    then show "makes c' (?body i s) (?I (Suc i))" using s i tl(1,2) by simp
  qed (use assms in \<open>simp_all add: left_val_def Suc_leI\<close>)
  then have "makes c (bindA (forA ?body [1..<?n] ((replicate ?n 0)[0 := first], replicate ?n 0)) (\<lambda>(temp, L). retA L))
      (\<lambda>L c'. length L = ?n \<and> (\<forall>i<?n. has R inp c' (L ! i) (left_val z v x i)))"
    by (rule makes_bind) (auto intro!: makes_ret dest: grows_ok)
  then show ?thesis using assms(2) by (simp add: vm_left_def)
qed

text \<open>The units of an order that are traded: what is left of the volume, and at most its units.\<close>

definition traded :: "'r::comm_ring_1 ringops \<Rightarrow> 'r \<Rightarrow> 'r \<Rightarrow> 'r" where
  "traded R l s = (if msb R (l - 1) then 0 else if msb R (l - s) then l else s)"

text \<open>The gates of a round before the first write to the vector \<open>temp_5\<close>, and those after it.\<close>

definition vm_flags :: "wire_t \<Rightarrow> wire_t \<Rightarrow> ('r::comm_ring_1, wire_t \<times> wire_t) appb" where
  "vm_flags l b =
     bindA (addConstA kConstAdd l (- 1)) (\<lambda>t1.
     bindA (addGate2A kSub l b) (\<lambda>t2.
     bindA (addGate1A kLtz t1) (\<lambda>z1.
     bindA (addGate1A kLtz t2) (\<lambda>z2.
     bindA (addGate2A kMul t2 z2) (\<lambda>t3.
     bindA (addConstA kConstMul z1 (- 1)) (\<lambda>t4.
     bindA (addConstA kConstAdd t4 1) (\<lambda>t5. retA (t3, t5))))))))"

lemma vm_round_flags:
  assumes "i < length L" "i < length os"
  shows "vm_round n L i os = bindA (vm_flags (L ! i) (unit (os ! i))) (\<lambda>(t3, t5).
     bindA (storeA n i t5) (\<lambda>t5. bindA (addGate2A kAdd t3 (unit (os ! i))) (\<lambda>t6. bindA (storeA n i t6) (\<lambda>t6.
     bindA (addGate2A kMul t6 t5) (\<lambda>u. bindA (outputA u) (\<lambda>_. retA (os[i := (os ! i)\<lparr>unit := u\<rparr>])))))))"
  using assms by (simp add: vm_round_def vm_flags_def bindA_assoc)

lemma makes_vm_flags:
  assumes ok: "circuit_ok c" and R: "\<not> is_BoolRing R" and l: "has R inp c l x" and b: "has R inp c b y"
  shows "makes c (vm_flags l b) (\<lambda>(t3, t5) c'. has R inp c' t3 ((x - y) * of_bool (msb R (x - y))) \<and>
    has R inp c' t5 (of_bool (\<not> msb R (x - 1))))"
proof -
  obtain t1 c1 where 1: "addConstA kConstAdd l (- 1) c = Some (Inr (t1, c1))" "grows c c1" "has R inp c1 t1 (x + - 1)"
    using makes_constAdd [OF ok l] by (rule makesE)
  obtain t2 c2 where 2: "addGate2A kSub l b c1 = Some (Inr (t2, c2))" "grows c1 c2" "has R inp c2 t2 (x - y)"
    using makes_sub [OF grows_ok [OF 1(2)] has_grows [OF l 1(2)] has_grows [OF b 1(2)]] by (rule makesE)
  obtain z1 c3 where 3: "addGate1A kLtz t1 c2 = Some (Inr (z1, c3))" "grows c2 c3" "has R inp c3 z1 (of_bool (msb R (x + - 1)))"
    using makes_sign [OF _ R grows_ok [OF 2(2)] has_grows [OF 1(3) 2(2)], of kLtz] by (auto elim: makesE)
  obtain z2 c4 where 4: "addGate1A kLtz t2 c3 = Some (Inr (z2, c4))" "grows c3 c4" "has R inp c4 z2 (of_bool (msb R (x - y)))"
    using makes_sign [OF _ R grows_ok [OF 3(2)] has_grows [OF 2(3) 3(2)], of kLtz] by (auto elim: makesE)
  obtain t3 c5 where 5: "addGate2A kMul t2 z2 c4 = Some (Inr (t3, c5))" "grows c4 c5"
      "has R inp c5 t3 ((x - y) * of_bool (msb R (x - y)))"
    using makes_mul [OF grows_ok [OF 4(2)] has_grows [OF 2(3) grows_trans [OF 3(2) 4(2)]] 4(3)] by (rule makesE)
  obtain t4 c6 where 6: "addConstA kConstMul z1 (- 1) c5 = Some (Inr (t4, c6))" "grows c5 c6"
      "has R inp c6 t4 (of_bool (msb R (x + - 1)) * - 1)"
    using makes_constMul [OF grows_ok [OF 5(2)] has_grows [OF 3(3) grows_trans [OF 4(2) 5(2)]]] by (rule makesE)
  obtain t5 c7 where 7: "addConstA kConstAdd t4 1 c6 = Some (Inr (t5, c7))" "grows c6 c7"
      "has R inp c7 t5 (of_bool (msb R (x + - 1)) * - 1 + 1)"
    using makes_constAdd [OF grows_ok [OF 6(2)] 6(3)] by (rule makesE)
  have run: "vm_flags l b c = Some (Inr ((t3, t5), c7))"
    by (simp add: vm_flags_def bindA_def retA_def 1(1) 2(1) 3(1) 4(1) 5(1) 6(1) 7(1))
  have "grows c c7" using 1(2) 2(2) 3(2) 4(2) 5(2) 6(2) 7(2) by (blast intro: grows_trans)
  moreover have "has R inp c7 t3 ((x - y) * of_bool (msb R (x - y)))"
    using 5(3) grows_trans [OF 6(2) 7(2)] by (rule has_grows)
  moreover have "has R inp c7 t5 (of_bool (\<not> msb R (x - 1)))" using 7(3) by (cases "msb R (x - 1)") simp_all
  ultimately show ?thesis using run by (simp add: makes_def)
qed

lemma marks_vm_round:
  assumes ok: "circuit_ok c" and R: "\<not> is_BoolRing R" and i: "i < n" "i < length L" "i < length os"
    and l: "has R inp c (L ! i) x" and b: "has R inp c (unit (os ! i)) y"
  shows "marks c (vm_round n L i os) (\<lambda>os' c'. \<exists>u. os' = os[i := (os ! i)\<lparr>unit := u\<rparr>] \<and> outputs_added c [u] c' \<and>
    has R inp c' u (traded R x y))"
  unfolding vm_round_flags [OF i(2,3)]
proof (rule marks_makes [OF makes_vm_flags [OF ok R l b]])
  let ?b = "unit (os ! i)" and ?Q = "\<lambda>os' c'. \<exists>u. os' = os[i := (os ! i)\<lparr>unit := u\<rparr>] \<and> outputs_added c [u] c' \<and> has R inp c' u (traded R x y)"
  fix p c1 assume c1: "grows c c1" and "(case p of (t3, t5) \<Rightarrow> \<lambda>c'. has R inp c' t3 ((x - y) * of_bool (msb R (x - y))) \<and>
    has R inp c' t5 (of_bool (\<not> msb R (x - 1)))) c1"
  then obtain t3 t5 where p: "p = (t3, t5)" "has R inp c1 t3 ((x - y) * of_bool (msb R (x - y)))"
      "has R inp c1 t5 (of_bool (\<not> msb R (x - 1)))" by (cases p) simp
  have "marks c1 (bindA (addGate2A kAdd t3 ?b) (\<lambda>t6. bindA (addGate2A kMul t6 t5) (\<lambda>u.
      bindA (outputA u) (\<lambda>_. retA (os[i := (os ! i)\<lparr>unit := u\<rparr>]))))) ?Q"
  proof (rule marks_makes [OF makes_add [OF grows_ok [OF c1] p(2) has_grows [OF b c1]]])
    fix t6 c2 assume c2: "grows c1 c2" and t6: "has R inp c2 t6 ((x - y) * of_bool (msb R (x - y)) + y)"
    show "marks c2 (bindA (addGate2A kMul t6 t5) (\<lambda>u. bindA (outputA u) (\<lambda>_. retA (os[i := (os ! i)\<lparr>unit := u\<rparr>])))) ?Q"
    proof (rule marks_makes [OF makes_mul [OF grows_ok [OF c2] t6 has_grows [OF p(3) c2]]])
      fix u c3 assume c3: "grows c2 c3" and u: "has R inp c3 u (((x - y) * of_bool (msb R (x - y)) + y) * of_bool (\<not> msb R (x - 1)))"
      have "((x - y) * of_bool (msb R (x - y)) + y) * of_bool (\<not> msb R (x - 1)) = traded R x y"
        by (simp add: traded_def)
      with u have u': "has R inp c3 u (traded R x y)" by simp
      have g: "grows c c3" using c1 c2 c3 by (blast intro: grows_trans)
      show "marks c3 (bindA (outputA u) (\<lambda>_. retA (os[i := (os ! i)\<lparr>unit := u\<rparr>]))) ?Q"
        by (rule marks_bind [OF marks_output [OF grows_ok [OF c3] u']])
          (use outputs_added_output [OF g, of u] u' in \<open>auto intro!: marks_ret exI [of _ u]\<close>)
    qed
  qed
  then show "marks c1 (case p of (t3, t5) \<Rightarrow> bindA (storeA n i t5) (\<lambda>t5. bindA (addGate2A kAdd t3 ?b) (\<lambda>t6.
      bindA (storeA n i t6) (\<lambda>t6. bindA (addGate2A kMul t6 t5) (\<lambda>u.
      bindA (outputA u) (\<lambda>_. retA (os[i := (os ! i)\<lparr>unit := u\<rparr>]))))))) ?Q"
    using i(1) p(1) by (simp add: storeA_def)
qed

text \<open>The rounds of a side, as long as the temporary vectors are long enough.\<close>

definition side_inv ::
  "'r::comm_ring_1 ringops \<Rightarrow> (wire_t \<Rightarrow> 'r) \<Rightarrow> 'r Circuit \<Rightarrow> Order list \<Rightarrow> (nat \<Rightarrow> 'r) \<Rightarrow> (nat \<Rightarrow> 'r) \<Rightarrow> nat \<Rightarrow>
   Order list \<Rightarrow> 'r Circuit \<Rightarrow> bool" where
  "side_inv R inp c0 os0 l x k os c \<longleftrightarrow> length os = length os0 \<and> (\<forall>i. k \<le> i \<longrightarrow> i < length os0 \<longrightarrow> os ! i = os0 ! i) \<and>
     (\<exists>ws. outputs_added c0 ws c \<and> list_all2 (has R inp c) ws (map (\<lambda>i. traded R (l i) (x i)) [0..<k]))"

lemma marks_vm_rounds:
  assumes ok: "circuit_ok c" and R: "\<not> is_BoolRing R" and k: "k \<le> n" "k \<le> length L" "k \<le> length os"
    and l: "\<forall>i<k. has R inp c (L ! i) (l i)" and x: "units_have R inp c os x"
  shows "marks c (forA (vm_round n L) [0..<k] os) (side_inv R inp c os l x k)"
proof (rule marks_upto [where I = "side_inv R inp c os l x", OF ok])
  show "side_inv R inp c os l x 0 os c" by (auto simp: side_inv_def outputs_added_refl)
  fix i os1 c1 assume i: "i < k" and c1: "circuit_ok c1" and I: "side_inv R inp c os l x i os1 c1"
  obtain ws where ws: "outputs_added c ws c1" "list_all2 (has R inp c1) ws (map (\<lambda>i. traded R (l i) (x i)) [0..<i])"
    and os1: "length os1 = length os" "\<forall>j. i \<le> j \<longrightarrow> j < length os \<longrightarrow> os1 ! j = os ! j"
    using I by (auto simp: side_inv_def)
  have h: "has R inp c1 (L ! i) (l i)" "has R inp c1 (unit (os1 ! i)) (x i)"
    using l units_have_nth [OF x, of i] i k os1 has_outputs_added [OF _ ws(1)] by auto
  show "marks c1 (vm_round n L i os1) (side_inv R inp c os l x (Suc i))"
  proof (rule marks_weaken [OF marks_vm_round [OF c1 R _ _ _ h]])
    fix os2 c2 assume "\<exists>u. os2 = os1[i := (os1 ! i)\<lparr>unit := u\<rparr>] \<and> outputs_added c1 [u] c2 \<and> has R inp c2 u (traded R (l i) (x i))"
    then obtain u where u: "os2 = os1[i := (os1 ! i)\<lparr>unit := u\<rparr>]" "outputs_added c1 [u] c2" "has R inp c2 u (traded R (l i) (x i))"
      by blast
    have "list_all2 (has R inp c2) ws (map (\<lambda>i. traded R (l i) (x i)) [0..<i])"
      using ws(2) has_outputs_added [OF _ u(2)] by (rule list_all2_mono)
    then have "list_all2 (has R inp c2) (ws @ [u]) (map (\<lambda>i. traded R (l i) (x i)) [0..<Suc i])"
      using u(3) by (simp add: list_all2_appendI)
    moreover have "outputs_added c (ws @ [u]) c2" using ws(1) u(2) by (rule outputs_added_trans)
    ultimately show "side_inv R inp c os l x (Suc i) os2 c2"
      unfolding side_inv_def using os1 u(1) by auto
  qed (use i k os1 in simp_all)
qed

text \<open>With more rounds than entries in the temporary vectors, the first write past their end.\<close>

lemma vm_rounds_undef:
  assumes ok: "circuit_ok c" and R: "\<not> is_BoolRing R" and n: "n < length os" "length L = length os"
    and l: "\<forall>i<length os. has R inp c (L ! i) (l i)" and x: "units_have R inp c os x"
  shows "forA (vm_round n L) [0..<length os] os c = None"
proof -
  have "[0..<length os] = [0..<n] @ n # [Suc n..<length os]"
    using n(1) upt_add_eq_append [of 0 n "length os - n"] by (simp add: upt_conv_Cons)
  then have "forA (vm_round n L) [0..<length os] os c =
      bindA (forA (vm_round n L) [0..<n] os) (\<lambda>os1. bindA (vm_round n L n os1) (forA (vm_round n L) [Suc n..<length os])) c"
    by (simp add: forA_append forA_Cons_bind)
  also have "\<dots> = None"
  proof (rule marks_undef [OF marks_vm_rounds [OF ok R _ _ _ _ x]])
    show "\<forall>i<n. has R inp c (L ! i) (l i)" using l n by simp
    fix os1 c1 assume c1: "circuit_ok c1" and I: "side_inv R inp c os l x n os1 c1"
    obtain ws where ws: "outputs_added c ws c1" and os1: "length os1 = length os" "\<forall>j. n \<le> j \<longrightarrow> j < length os \<longrightarrow> os1 ! j = os ! j"
      using I by (auto simp: side_inv_def)
    have h: "has R inp c1 (L ! n) (l n)" "has R inp c1 (unit (os1 ! n)) (x n)"
      using l units_have_nth [OF x n(1)] n os1 has_outputs_added [OF _ ws] by auto
    have "vm_round n L n os1 c1 = None"
      unfolding vm_round_flags [of n L os1 n, OF n(1) [folded n(2)] n(1) [folded os1(1)]]
      by (rule makes_undef [OF makes_vm_flags [OF c1 R h]]) (simp add: storeA_def undefA_def split: prod.splits)
    then show "bindA (vm_round n L n os1) (forA (vm_round n L) [Suc n..<length os]) c1 = None"
      by (simp add: bindA_def)
  qed (use n in simp_all)
  finally show ?thesis .
qed

text \<open>The circuit after the three inputs of the new order.\<close>

definition after_inputs :: "'r Circuit \<Rightarrow> 'r Circuit" where
  "after_inputs c = snd (newInputWire (snd (newInputWire (snd (newInputWire c)))))"

lemma inputOrder_eq:
  "\<exists>new. inputOrder c = Some (Inr (new, after_inputs c))"
  by (simp add: inputOrder_def inputA_def liftA_def inputB_def bindA_def retA_def after_inputs_def newInputWire_def Let_def)

lemma after_inputs_ok:
  assumes "circuit_ok c"
  shows "circuit_ok (after_inputs c)" "outputs_added c [] (after_inputs c)" "has R inp (after_inputs c) 0 (wval R inp (after_inputs c) 0)"
proof -
  show "circuit_ok (after_inputs c)" using assms by (simp add: after_inputs_def circuit_ok_newInputWire)
  show "outputs_added c [] (after_inputs c)"
    by (simp add: outputs_added_def after_inputs_def newInputWire_def Let_def push_gate_def)
  show "has R inp (after_inputs c) 0 (wval R inp (after_inputs c) 0)"
    by (simp add: has_def after_inputs_def newInputWire_def Let_def push_gate_def)
qed

text \<open>Everything before the rounds.\<close>

definition vm_prepare :: "Order list \<Rightarrow> Order list \<Rightarrow> ('r::comm_ring_1, wire_t list \<times> wire_t list) appb" where
  "vm_prepare sl bl =
     bindA (vm_first sl) (\<lambda>s_wire.
     bindA (vm_first bl) (\<lambda>b_wire.
     bindA (vm_rest sl s_wire) (\<lambda>s_wire.
     bindA (vm_rest bl b_wire) (\<lambda>b_wire.
     bindA (vm_total s_wire b_wire) (\<lambda>t_wire.
     bindA (bindA (atA sl 0) (\<lambda>a. addConstA kConstMul (unit a) 0)) (\<lambda>temp_s0.
     bindA (bindA (atA bl 0) (\<lambda>a. addConstA kConstMul (unit a) 0)) (\<lambda>temp_b0.
     bindA (vm_left t_wire sl temp_s0) (\<lambda>Ls_wire.
     bindA (vm_left t_wire bl temp_b0) (\<lambda>Lb_wire. retA (Ls_wire, Lb_wire))))))))))"

lemma getVMCircuit_prepare:
  "getVMCircuit dp = bindA inputOrder (\<lambda>new. bindA (vm_prepare (s_list dp) (b_list dp)) (\<lambda>(Ls_wire, Lb_wire).
     bindA (forA (vm_round (length (s_list dp)) Ls_wire) [0..<length (s_list dp)] (s_list dp)) (\<lambda>sl.
     bindA (forA (vm_round (length (s_list dp)) Lb_wire) [0..<length (b_list dp)] (b_list dp)) (\<lambda>bl.
     retA (dp\<lparr>s_list := sl, b_list := bl, new_order := new\<rparr>)))))"
  by (simp add: getVMCircuit_def vm_prepare_def bindA_assoc)

lemma makes_vm_zero:
  assumes "circuit_ok c" "0 < length os" "units_have R inp c os x"
  shows "makes c (bindA (atA os 0) (\<lambda>a. addConstA kConstMul (unit a) 0)) (\<lambda>w c'. has R inp c' w 0)"
  using makes_constMul [OF assms(1) units_have_nth [OF assms(3,2)], of 0] assms(2) by simp

lemma makes_vm_prepare:
  assumes ok: "circuit_ok c" and R: "\<not> is_BoolRing R" and len: "2 \<le> length sl" "2 \<le> length bl"
    and s: "units_have R inp c sl s" and b: "units_have R inp c bl b" and z: "has R inp c 0 z"
  defines "v \<equiv> volume R (total_units s (length sl)) (total_units b (length bl))"
  shows "makes c (vm_prepare sl bl) (\<lambda>(Ls, Lb) c'.
    (length Ls = length sl \<and> (\<forall>i<length sl. has R inp c' (Ls ! i) (left_val z v s i))) \<and>
    (length Lb = length bl \<and> (\<forall>i<length bl. has R inp c' (Lb ! i) (left_val z v b i))))"
proof -
  have pos: "0 < length sl" "0 < length bl" using len by linarith+
  obtain sw c1 where 1: "vm_first sl c = Some (Inr (sw, c1))" "grows c c1" "has R inp c1 sw (total_units s 2)"
    using makes_vm_first [OF ok len(1) s] by (rule makesE)
  obtain bw c2 where 2: "vm_first bl c1 = Some (Inr (bw, c2))" "grows c1 c2" "has R inp c2 bw (total_units b 2)"
    using makes_vm_first [OF grows_ok [OF 1(2)] len(2) units_have_grows [OF b 1(2)]] by (rule makesE)
  note g2 = grows_trans [OF 1(2) 2(2)]
  obtain sw' c3 where 3: "vm_rest sl sw c2 = Some (Inr (sw', c3))" "grows c2 c3" "has R inp c3 sw' (total_units s (length sl))"
    using makes_vm_rest [OF grows_ok [OF 2(2)] len(1) units_have_grows [OF s g2] has_grows [OF 1(3) 2(2)]] by (rule makesE)
  note g3 = grows_trans [OF g2 3(2)]
  obtain bw' c4 where 4: "vm_rest bl bw c3 = Some (Inr (bw', c4))" "grows c3 c4" "has R inp c4 bw' (total_units b (length bl))"
    using makes_vm_rest [OF grows_ok [OF 3(2)] len(2) units_have_grows [OF b g3] has_grows [OF 2(3) 3(2)]] by (rule makesE)
  note g4 = grows_trans [OF g3 4(2)]
  obtain t c5 where 5: "vm_total sw' bw' c4 = Some (Inr (t, c5))" "grows c4 c5" "has R inp c5 t v"
    using makes_vm_total [OF grows_ok [OF 4(2)] R has_grows [OF 3(3) 4(2)] 4(3)] unfolding v_def by (rule makesE)
  note g5 = grows_trans [OF g4 5(2)]
  obtain s0 c6 where 6: "bindA (atA sl 0) (\<lambda>a. addConstA kConstMul (unit a) 0) c5 = Some (Inr (s0, c6))" "grows c5 c6" "has R inp c6 s0 0"
    using makes_vm_zero [OF grows_ok [OF 5(2)] pos(1) units_have_grows [OF s g5]] by (rule makesE)
  note g6 = grows_trans [OF g5 6(2)]
  obtain b0 c7 where 7: "bindA (atA bl 0) (\<lambda>a. addConstA kConstMul (unit a) 0) c6 = Some (Inr (b0, c7))" "grows c6 c7" "has R inp c7 b0 0"
    using makes_vm_zero [OF grows_ok [OF 6(2)] pos(2) units_have_grows [OF b g6]] by (rule makesE)
  note g7 = grows_trans [OF g6 7(2)] and g57 = grows_trans [OF 6(2) 7(2)]
  obtain Ls c8 where 8: "vm_left t sl s0 c7 = Some (Inr (Ls, c8))" "grows c7 c8"
      "length Ls = length sl \<and> (\<forall>i<length sl. has R inp c8 (Ls ! i) (left_val z v s i))"
    using makes_vm_left [OF grows_ok [OF 7(2)] pos(1) units_have_grows [OF s g7] has_grows [OF 5(3) g57]
        has_grows [OF 6(3) 7(2)] has_grows [OF z g7]] by (rule makesE)
  note g8 = grows_trans [OF g7 8(2)]
  obtain Lb c9 where 9: "vm_left t bl b0 c8 = Some (Inr (Lb, c9))" "grows c8 c9"
      "length Lb = length bl \<and> (\<forall>i<length bl. has R inp c9 (Lb ! i) (left_val z v b i))"
    using makes_vm_left [OF grows_ok [OF 8(2)] pos(2) units_have_grows [OF b g8] has_grows [OF 5(3) grows_trans [OF g57 8(2)]]
        has_grows [OF 7(3) 8(2)] has_grows [OF z g8]] by (rule makesE)
  have "vm_prepare sl bl c = Some (Inr ((Ls, Lb), c9))"
    by (simp add: vm_prepare_def bindA_run [where m = "vm_first os" for os] bindA_run [where m = "vm_rest os w" for os w]
        bindA_run [where m = "vm_total u w" for u w] bindA_run [where m = "vm_left t os w" for t os w]
        bindA_run [where m = "bindA (atA os 0) f" for os f] 1(1) 2(1) 3(1) 4(1) 5(1) 6(1) 7(1) 8(1) 9(1) retA_def)
  moreover have "grows c c9" using g8 9(2) by (rule grows_trans)
  moreover have "\<forall>i<length sl. has R inp c9 (Ls ! i) (left_val z v s i)" using 8(3) has_grows [OF _ 9(2)] by blast
  ultimately show ?thesis using 8(3) 9(3) by (simp add: makes_def)
qed

subsection \<open>Properties\<close>

lemma all2_wval: "list_all2 (has R inp c) ws xs \<Longrightarrow> map (wval R inp c) ws = xs"
  by (simp add: list_all2_conv_all_nth has_def list_eq_iff_nth_eq)

lemma getVMCircuit_outputs:
  fixes R :: "'r::comm_ring_1 ringops" and dp :: DarkPool
  defines "N \<equiv> length (s_list dp)" and "M \<equiv> length (b_list dp)"
  assumes ok: "circuit_ok c" and R: "\<not> is_BoolRing R" and len: "2 \<le> N" "2 \<le> M"
    and s: "units_have R inp (after_inputs c) (s_list dp) s" and b: "units_have R inp (after_inputs c) (b_list dp) b"
  defines "v \<equiv> volume R (total_units s N) (total_units b M)" and "z \<equiv> wval R inp (after_inputs c) 0"
  shows "M \<le> N \<Longrightarrow> \<exists>dp' c' ws vs. getVMCircuit dp c = Some (Inr (dp', c')) \<and> circuit_ok c' \<and> circ_outputs c' = circ_outputs c @ ws @ vs \<and>
      map (wval R inp c') ws = map (\<lambda>i. traded R (left_val z v s i) (s i)) [0..<N] \<and>
      map (wval R inp c') vs = map (\<lambda>i. traded R (left_val z v b i) (b i)) [0..<M]"
    and "N < M \<Longrightarrow> getVMCircuit dp c = None"
proof -
  obtain new where new: "inputOrder c = Some (Inr (new, after_inputs c))" using inputOrder_eq by blast
  note c0 = after_inputs_ok [OF ok]
  obtain Ls Lb c1 where p: "vm_prepare (s_list dp) (b_list dp) (after_inputs c) = Some (Inr ((Ls, Lb), c1))" "grows (after_inputs c) c1"
      "length Ls = N" "\<forall>i<N. has R inp c1 (Ls ! i) (left_val z v s i)" "length Lb = M" "\<forall>i<M. has R inp c1 (Lb ! i) (left_val z v b i)"
    using makes_vm_prepare [OF c0(1) R len [unfolded N_def M_def] s b c0(3)] unfolding N_def M_def v_def z_def by (auto elim!: makesE)
  have Ns: "N \<le> N" "N \<le> length Ls" "N \<le> length (s_list dp)" using p(3) by (simp_all add: N_def)
  obtain sl c2 where sl: "forA (vm_round N Ls) [0..<N] (s_list dp) c1 = Some (Inr (sl, c2))" "circuit_ok c2"
      "side_inv R inp c1 (s_list dp) (left_val z v s) s N sl c2"
    using marks_vm_rounds [OF grows_ok [OF p(2)] R Ns p(4) units_have_grows [OF s p(2)]] by (auto simp: marks_def)
  obtain ws where ws: "outputs_added c1 ws c2" "list_all2 (has R inp c2) ws (map (\<lambda>i. traded R (left_val z v s i) (s i)) [0..<N])"
    using sl(3) by (auto simp: side_inv_def)
  have Lb: "\<forall>i<M. has R inp c2 (Lb ! i) (left_val z v b i)" "units_have R inp c2 (b_list dp) b"
    using p(6) has_outputs_added [OF _ ws(1)] units_have_outputs [OF units_have_grows [OF b p(2)] ws(1)] by auto
  have run: "getVMCircuit dp c = bindA (forA (vm_round N Lb) [0..<M] (b_list dp)) (\<lambda>bl.
      retA (dp\<lparr>s_list := sl, b_list := bl, new_order := new\<rparr>)) c2"
    by (simp add: getVMCircuit_prepare bindA_run [where m = inputOrder] new bindA_run [where m = "vm_prepare x y" for x y] p(1)
        bindA_run [where m = "forA f x (s_list dp)" for f x] sl(1) flip: N_def M_def)
  show "getVMCircuit dp c = None" if "N < M"
    using vm_rounds_undef [OF sl(2) R _ _ _ Lb(2), of N Lb] that Lb(1) p(5) by (simp add: run M_def bindA_def)
  show "\<exists>dp' c' ws vs. getVMCircuit dp c = Some (Inr (dp', c')) \<and> circuit_ok c' \<and> circ_outputs c' = circ_outputs c @ ws @ vs \<and>
      map (wval R inp c') ws = map (\<lambda>i. traded R (left_val z v s i) (s i)) [0..<N] \<and>
      map (wval R inp c') vs = map (\<lambda>i. traded R (left_val z v b i) (b i)) [0..<M]" if "M \<le> N"
  proof -
    have Ms: "M \<le> N" "M \<le> length Lb" "M \<le> length (b_list dp)" using p(5) that by (simp_all add: M_def)
    obtain bl c3 where bl: "forA (vm_round N Lb) [0..<M] (b_list dp) c2 = Some (Inr (bl, c3))" "circuit_ok c3"
        "side_inv R inp c2 (b_list dp) (left_val z v b) b M bl c3"
      using marks_vm_rounds [OF sl(2) R Ms Lb] by (auto simp: marks_def)
    obtain vs where vs: "outputs_added c2 vs c3" "list_all2 (has R inp c3) vs (map (\<lambda>i. traded R (left_val z v b i) (b i)) [0..<M])"
      using bl(3) by (auto simp: side_inv_def)
    have "list_all2 (has R inp c3) ws (map (\<lambda>i. traded R (left_val z v s i) (s i)) [0..<N])"
      using ws(2) has_outputs_added [OF _ vs(1)] by (rule list_all2_mono)
    moreover have "circ_outputs c3 = circ_outputs c @ ws @ vs"
      using c0(2) p(2) ws(1) vs(1) by (simp add: outputs_added_def grows_def)
    ultimately show ?thesis
      using all2_wval [OF vs(2)] bl(1,2) by (auto simp: run bindA_def retA_def dest: all2_wval)
  qed
qed

text \<open>
  C25: The volume matching circuit. For at least two orders on each side and no more buys than sells the
  routine runs without an exception; output \<open>i\<close> of a side tells how much of order \<open>i\<close> is traded: what is
  left of the volume, cut to the interval from 0 to its units. The volume is the larger of the two totals,
  where matching would need the smaller one, and what is left before order \<open>i\<close> counts orders 1 to \<open>i\<close>
  instead of 0 to \<open>i - 1\<close> (for order 0 it is wire 0). With more buys than sells the routine writes outside
  the vectors \<open>bz_temp_5\<close> and \<open>bz_temp_6\<close>.
\<close>

theorem volume_matching:
  assumes "circuit_ok c" "\<not> is_BoolRing R" "2 \<le> length (s_list dp)" "2 \<le> length (b_list dp)"
    "units_have R inp (after_inputs c) (s_list dp) s" "units_have R inp (after_inputs c) (b_list dp) b"
  shows "let N = length (s_list dp); M = length (b_list dp); z = wval R inp (after_inputs c) 0;
             v = (if msb R (total_units b M - total_units s N) then total_units s N else total_units b M)
    in if N < M then getVMCircuit dp c = None
       else \<exists>dp' c' ws vs. getVMCircuit dp c = Some (Inr (dp', c')) \<and> circuit_ok c' \<and>
         circ_outputs c' = circ_outputs c @ ws @ vs \<and>
         map (wval R inp c') ws = map (\<lambda>i. traded R (left_val z v s i) (s i)) [0..<N] \<and>
         map (wval R inp c') vs = map (\<lambda>i. traded R (left_val z v b i) (b i)) [0..<M]"
proof (cases "length (s_list dp) < length (b_list dp)")
  case True
  then show ?thesis using getVMCircuit_outputs(2) [OF assms] by (simp add: Let_def)
next
  case False
  then show ?thesis using getVMCircuit_outputs(1) [OF assms] by (simp add: Let_def volume_def)
qed

text \<open>
  A fresh pool with three sells and two buys. All wires of its lists are wire 0, the name of the new order;
  here it carries 5, so the totals are 15 and 10, and 15 units are matched on either side.
\<close>

definition ex_pool :: DarkPool where
  "ex_pool = resizeList (DarkPool_new 3 2)"

definition ex_pool_ring :: "u64 ringops" where
  "ex_pool_ring = \<lparr>is_BoolRing = False, conv_u64 = (\<lambda>x. x), R_of_u64 = (\<lambda>x. x)\<rparr>"

lemma ex_pool_lists: "s_list ex_pool = replicate 3 Order_new" "b_list ex_pool = replicate 2 Order_new"
  by (simp_all add: ex_pool_def resizeList_def DarkPool_new_def resize_def)

lemma ex_pool_units:
  "units_have ex_pool_ring (\<lambda>_. 5) (after_inputs Circuit_new) (s_list ex_pool) (\<lambda>_. 5)"
  "units_have ex_pool_ring (\<lambda>_. 5) (after_inputs Circuit_new) (b_list ex_pool) (\<lambda>_. 5)"
  "wval ex_pool_ring (\<lambda>_. 5) (after_inputs Circuit_new) 0 = 5"
  by (simp_all add: ex_pool_lists units_have_def Order_new_def has_def wval_def wire_vals_def vals_by_def
      after_inputs_def newInputWire_def Let_def push_gate_def Circuit_new_def)

theorem volume_matching_witness:
  "\<exists>dp' c' ws vs. getVMCircuit ex_pool Circuit_new = Some (Inr (dp', c')) \<and> circ_outputs c' = ws @ vs \<and>
     map (wval ex_pool_ring (\<lambda>_. 5) c') ws = [5, 5, 5] \<and> map (wval ex_pool_ring (\<lambda>_. 5) c') vs = [5, 5]"
proof -
  have "let N = length (s_list ex_pool); M = length (b_list ex_pool); z = wval ex_pool_ring (\<lambda>_. 5) (after_inputs Circuit_new) 0;
             v = (if msb ex_pool_ring (total_units (\<lambda>_. 5) M - total_units (\<lambda>_. 5) N) then total_units (\<lambda>_. 5) N else total_units (\<lambda>_. 5) M)
    in if N < M then getVMCircuit ex_pool (Circuit_new :: u64 Circuit) = None
       else \<exists>dp' c' ws vs. getVMCircuit ex_pool Circuit_new = Some (Inr (dp', c')) \<and> circuit_ok c' \<and>
         circ_outputs c' = circ_outputs (Circuit_new :: u64 Circuit) @ ws @ vs \<and>
         map (wval ex_pool_ring (\<lambda>_. 5) c') ws = map (\<lambda>i. traded ex_pool_ring (left_val z v (\<lambda>_. 5) i) 5) [0..<N] \<and>
         map (wval ex_pool_ring (\<lambda>_. 5) c') vs = map (\<lambda>i. traded ex_pool_ring (left_val z v (\<lambda>_. 5) i) 5) [0..<M]"
    by (rule volume_matching [OF circuit_ok_new _ _ _ ex_pool_units(1,2)]) (simp_all add: ex_pool_ring_def ex_pool_lists)
  moreover have m: "msb ex_pool_ring (10 - 15)" "circ_outputs (Circuit_new :: u64 Circuit) = []"
    "total_units (\<lambda>_. 5 :: u64) 3 = 15" "total_units (\<lambda>_. 5 :: u64) 2 = 10"
    by (simp_all add: total_units_def upt_rec msb_def ex_pool_ring_def Circuit_new_def)
  moreover have "length (s_list ex_pool) = 3" "length (b_list ex_pool) = 2" by (simp_all add: ex_pool_lists)
  ultimately obtain dp' c' ws vs where r: "getVMCircuit ex_pool Circuit_new = Some (Inr (dp', c'))" "circ_outputs c' = ws @ vs"
      "map (wval ex_pool_ring (\<lambda>_. 5) c') ws = map (\<lambda>i. traded ex_pool_ring (left_val 5 15 (\<lambda>_. 5) i) 5) [0..<3]"
      "map (wval ex_pool_ring (\<lambda>_. 5) c') vs = map (\<lambda>i. traded ex_pool_ring (left_val 5 15 (\<lambda>_. 5) i) 5) [0..<2]"
    unfolding Let_def ex_pool_units(3) by auto
  moreover have "map (\<lambda>i. traded ex_pool_ring (left_val 5 15 (\<lambda>_. 5) i) 5) [0..<3] = [5, 5, 5]"
     "map (\<lambda>i. traded ex_pool_ring (left_val 5 15 (\<lambda>_. 5) i) 5) [0..<2] = [5, 5]"
    by (simp_all add: traded_def left_val_def ex_pool_ring_def msb_def upt_rec)
  ultimately show ?thesis by metis
qed

end
