(* ===== verification/DarkPool_CDA.thy ===== *)
theory DarkPool_CDA
  imports DarkPool
begin

section \<open>Continuous double auction (getCDACircuit of utils/darkpool.h)\<close>

text \<open>
  The routine phase by phase: it fills both lists with orders derived from the new one, computes which
  sells the new order matches, inserts what is left of it into the buys, and returns the circuit.
\<close>

definition next_order :: "Order \<Rightarrow> ('r::comm_ring_1, Order) appb" where
  "next_order b =
     bindA (addConstA kConstAdd (name b) 1) (\<lambda>n. bindA (addConstA kConstAdd (unit b) 1) (\<lambda>u.
     bindA (addConstA kConstAdd (price b) 1) (\<lambda>p. retA \<lparr>name = n, unit = u, price = p\<rparr>)))"

definition cda_fill :: "Order \<Rightarrow> Order list \<Rightarrow> ('r::comm_ring_1, Order list) appb" where
  "cda_fill new os =
     bindA (next_order new) (\<lambda>b. bindA (putA os 0 b) (\<lambda>os.
     forA (\<lambda>i os. bindA (atA os (i - 1)) (\<lambda>prev. bindA (next_order prev) (\<lambda>b. putA os i b))) [1..<length os] os))"

text \<open>The sums \<open>w\<close> of the units of the sells before each position.\<close>

definition cda_sums :: "Order list \<Rightarrow> ('r::comm_ring_1, wire_t list) appb" where
  "cda_sums os =
     bindA (bindA (atA os 0) (\<lambda>b. addConstA kConstMul (unit b) 0)) (\<lambda>w0.
     forA (\<lambda>i w. bindA (atA os (i - 1)) (\<lambda>b. bindA (atA w (i - 1)) (\<lambda>prev.
         bindA (addGate2A kAdd (unit b) prev) (\<lambda>x. putA w i x))))
       [1..<Suc (length os)] ((replicate (Suc (length os)) 0)[0 := w0]))"

text \<open>\<open>z\<close>: the sells before the order do not exhaust the new order; \<open>z_dash\<close>: its price is acceptable.\<close>

definition cda_flags ::
  "Order \<Rightarrow> Order list \<Rightarrow> wire_t list \<Rightarrow> ('r::comm_ring_1, wire_t list \<times> wire_t list) appb" where
  "cda_flags new os w =
     bindA (bindA (atA w 0) (\<lambda>v. addConstA kConstMul v 0)) (\<lambda>z0.
     bindA (bindA (atA w 0) (\<lambda>v. addConstA kConstMul v 0)) (\<lambda>z0'.
     forA (\<lambda>i (z, z').
         bindA (atA w (i - 1)) (\<lambda>v. bindA (addGate2A kSub v (unit new)) (\<lambda>temp1.
         bindA (addConstA kConstAdd (price new) 1) (\<lambda>temp2.
         bindA (atA os (i - 1)) (\<lambda>b. bindA (addGate2A kSub (price b) temp2) (\<lambda>temp3.
         bindA (addGate1A kLtz temp1) (\<lambda>x. bindA (putA z i x) (\<lambda>z.
         bindA (addGate1A kLtz temp3) (\<lambda>y. bindA (putA z' i y) (\<lambda>z'. retA (z, z')))))))))))
       [1..<Suc (length os)]
       ((replicate (Suc (length os)) 0)[0 := z0], (replicate (Suc (length os)) 0)[0 := z0'])))"

definition cda_matches :: "nat \<Rightarrow> wire_t list \<Rightarrow> wire_t list \<Rightarrow> ('r::comm_ring_1, unit) appb" where
  "cda_matches N z z' =
     bindA (bindA (atA z 0) (\<lambda>v. addConstA kConstMul v 0)) (\<lambda>f0.
     forA (\<lambda>i _. bindA (atA z i) (\<lambda>x. bindA (atA z' i) (\<lambda>y. bindA (addGate2A kMul x y) outputA)))
       [1..<Suc N] ())"

definition cda_sells :: "Order list \<Rightarrow> nat \<Rightarrow> ('r, unit) appb" where
  "cda_sells os k =
     forA (\<lambda>i _. bindA (atA os i) (\<lambda>b. bindA (outputA (name b)) (\<lambda>_. bindA (outputA (unit b)) (\<lambda>_.
         outputA (price b))))) [0..<k] ()"

text \<open>What is sold of the order that is matched in part; the index \<open>k - 1\<close> wraps around for \<open>k = 0\<close>.\<close>

definition cda_partial :: "Order \<Rightarrow> Order list \<Rightarrow> wire_t list \<Rightarrow> wire_t list \<Rightarrow> nat \<Rightarrow> ('r, wire_t) appb" where
  "cda_partial new os w z k =
     (if k = 0 then undefA else
      bindA (atA w (k - 1)) (\<lambda>v. bindA (addGate2A kSub (unit new) v) (\<lambda>tmp1.
      bindA (atA os (k - 1)) (\<lambda>b. bindA (addGate2A kSub tmp1 (unit b)) (\<lambda>tmp2.
      bindA (atA z (k + 1)) (\<lambda>x. bindA (addGate2A kMul tmp2 x) (\<lambda>tmp3.
      addGate2A kAdd tmp3 (unit b))))))))"

text \<open>The new last buy, with wires of value 0.\<close>

definition cda_extend :: "nat \<Rightarrow> nat \<Rightarrow> Order list \<Rightarrow> ('r::comm_ring_1, Order list) appb" where
  "cda_extend sz M os =
     (let os = resize sz os in
      bindA (atA os 0) (\<lambda>b.
      bindA (addConstA kConstMul (name b) 0) (\<lambda>n. bindA (addConstA kConstMul (unit b) 0) (\<lambda>u.
      bindA (addConstA kConstMul (price b) 0) (\<lambda>p. putA os M \<lparr>name = n, unit = u, price = p\<rparr>)))))"

text \<open>
  The three bit vectors of the insertion; \<open>1 - v\<close> takes two gates. The first entry of \<open>h\<close> takes \<open>g[0]\<close>
  twice, which \<open>0 - 1 = 0\<close> on \<open>nat\<close> gives.
\<close>

definition cda_g :: "wire_t \<Rightarrow> Order list \<Rightarrow> nat \<Rightarrow> ('r::comm_ring_1, wire_t list) appb" where
  "cda_g new_price os M =
     bindA (atA os 0) (\<lambda>b. bindA (addGate2A kSub new_price (price b)) (\<lambda>tmp4. bindA (addGate1A kLtz tmp4) (\<lambda>g0.
     forA (\<lambda>i g. bindA (atA os i) (\<lambda>b. bindA (addConstA kConstAdd (price b) 1) (\<lambda>temp_1.
         bindA (addGate2A kSub new_price temp_1) (\<lambda>temp_2. bindA (addGate1A kLtz temp_2) (\<lambda>x. putA g i x)))))
       [1..<M + 1] ((replicate (M + 2) 0)[0 := g0]))))"

definition cda_h :: "wire_t list \<Rightarrow> nat \<Rightarrow> ('r::comm_ring_1, wire_t list \<times> wire_t list) appb" where
  "cda_h g M =
     forA (\<lambda>i (tmp6, h). bindA (atA g i) (\<lambda>x. bindA (complA x) (\<lambda>c. bindA (putA tmp6 i c) (\<lambda>tmp6.
         bindA (atA g (i - 1)) (\<lambda>y. bindA (addGate2A kMul c y) (\<lambda>m. bindA (putA h i m) (\<lambda>h. retA (tmp6, h))))))))
       [0..<M + 1] (replicate (M + 2) 0, replicate (M + 2) 0)"

definition cda_u :: "wire_t list \<Rightarrow> wire_t list \<Rightarrow> nat \<Rightarrow> ('r::comm_ring_1, wire_t list) appb" where
  "cda_u tmp6 h M =
     forA (\<lambda>i u. bindA (atA h i) (\<lambda>x. bindA (complA x) (\<lambda>c. bindA (atA tmp6 i) (\<lambda>y.
         bindA (addGate2A kMul c y) (\<lambda>m. putA u i m)))))
       [0..<M + 1] (replicate (M + 2) 0)"

text \<open>One field of an entry of the updated list: \<open>g * a + h * b + u * c\<close>.\<close>

definition cda_mux :: "wire_t \<Rightarrow> wire_t \<Rightarrow> wire_t \<Rightarrow> wire_t \<Rightarrow> wire_t \<Rightarrow> wire_t \<Rightarrow> ('r, wire_t) appb" where
  "cda_mux g a h b u c =
     bindA (addGate2A kMul g a) (\<lambda>t1. bindA (addGate2A kMul h b) (\<lambda>t2. bindA (addGate2A kMul u c) (\<lambda>t3.
     bindA (addGate2A kAdd t1 t2) (\<lambda>t4. addGate2A kAdd t3 t4))))"

definition cda_update ::
  "Order \<Rightarrow> Order list \<Rightarrow> wire_t list \<Rightarrow> wire_t list \<Rightarrow> wire_t list \<Rightarrow> nat \<Rightarrow> ('r::comm_ring_1, Order list) appb" where
  "cda_update new os g h u M =
     bindA (atA os 0) (\<lambda>b0.
     bindA (addConstA kConstMul (name b0) 0) (\<lambda>n. bindA (addConstA kConstMul (unit b0) 0) (\<lambda>un.
     bindA (addConstA kConstMul (price b0) 0) (\<lambda>p.
     forA (\<lambda>i upd. bindA (atA g (i - 1)) (\<lambda>x. bindA (atA h (i - 1)) (\<lambda>y. bindA (atA u (i - 1)) (\<lambda>v. bindA (atA os i) (\<lambda>b.
         bindA (cda_mux x (name b) y (name b0) v (name new)) (\<lambda>n.
         bindA (cda_mux x (unit b) y (unit b0) v (unit new)) (\<lambda>un.
         bindA (cda_mux x (price b) y (price b0) v (price new)) (\<lambda>p.
         putA upd i \<lparr>name = n, unit = un, price = p\<rparr>))))))))
       [1..<M + 1] ((replicate (M + 2) Order_new)[0 := \<lparr>name = n, unit = un, price = p\<rparr>])))))"

text \<open>The updated list of buys is a local variable of the routine: neither an output nor a member.\<close>

definition getCDACircuit :: "DarkPool \<Rightarrow> ('r::comm_ring_1, DarkPool) appb" where
  "getCDACircuit dp =
     (let N = length (s_list dp); M = length (b_list dp); k = N div 2; sz = buy_list_size dp + 1 in
      bindA inputOrder (\<lambda>new.
      bindA (cda_fill new (s_list dp)) (\<lambda>sl.
      bindA (cda_fill new (b_list dp)) (\<lambda>bl.
      bindA (cda_sums sl) (\<lambda>w.
      bindA (cda_flags new sl w) (\<lambda>(z, z').
      bindA (cda_matches N z z') (\<lambda>_.
      bindA (cda_sells sl k) (\<lambda>_.
      bindA (cda_partial new sl w z k) (\<lambda>s_dash.
      bindA (addGate1A kEqz (unit new)) (\<lambda>e.
      bindA (addGate2A kMul (price new) e) (\<lambda>pr.
      bindA (cda_extend sz M bl) (\<lambda>bl.
      bindA (cda_g pr bl M) (\<lambda>g.
      bindA (cda_h g M) (\<lambda>(tmp6, h).
      bindA (cda_u tmp6 h M) (\<lambda>u.
      bindA (cda_update (new\<lparr>price := pr\<rparr>) bl g h u M) (\<lambda>updated.
      retA (dp\<lparr>s_list := sl, b_list := bl, buy_list_size := sz, new_order := new\<lparr>price := pr\<rparr>\<rparr>)))))))))))))))))"

subsection \<open>The matches\<close>

definition order_has :: "'r::comm_ring_1 ringops \<Rightarrow> (wire_t \<Rightarrow> 'r) \<Rightarrow> 'r Circuit \<Rightarrow> Order \<Rightarrow> 'r \<times> 'r \<times> 'r \<Rightarrow> bool" where
  "order_has R inp c b x \<longleftrightarrow> has R inp c (name b) (fst x) \<and> has R inp c (unit b) (fst (snd x)) \<and> has R inp c (price b) (snd (snd x))"

lemma order_has_grows: "order_has R inp c b x \<Longrightarrow> grows c c' \<Longrightarrow> order_has R inp c' b x"
  by (auto simp: order_has_def intro: has_grows)

lemma makes_next_order:
  assumes "circuit_ok c" "order_has R inp c b (n, u, p)"
  shows "makes c (next_order b) (\<lambda>b' c'. order_has R inp c' b' (n + 1, u + 1, p + 1))"
  unfolding next_order_def
proof (rule makes_bind [OF makes_constAdd [OF assms(1)]])
  show "has R inp c (name b) n" using assms(2) by (simp add: order_has_def)
  fix wn c1 assume c1: "grows c c1" and wn: "has R inp c1 wn (n + 1)"
  have b1: "has R inp c1 (unit b) u" "has R inp c1 (price b) p" using order_has_grows [OF assms(2) c1] by (simp_all add: order_has_def)
  show "makes c1 (bindA (addConstA kConstAdd (unit b) 1) (\<lambda>u. bindA (addConstA kConstAdd (price b) 1) (\<lambda>p. retA \<lparr>name = wn, unit = u, price = p\<rparr>)))
      (\<lambda>b' c'. order_has R inp c' b' (n + 1, u + 1, p + 1))"
  proof (rule makes_bind [OF makes_constAdd [OF grows_ok [OF c1] b1(1)]])
    fix wu c2 assume c2: "grows c1 c2" and wu: "has R inp c2 wu (u + 1)"
    show "makes c2 (bindA (addConstA kConstAdd (price b) 1) (\<lambda>p. retA \<lparr>name = wn, unit = wu, price = p\<rparr>))
        (\<lambda>b' c'. order_has R inp c' b' (n + 1, u + 1, p + 1))"
    proof (rule makes_bind [OF makes_constAdd [OF grows_ok [OF c2] has_grows [OF b1(2) c2]]])
      fix wp c3 assume c3: "grows c2 c3" and wp: "has R inp c3 wp (p + 1)"
      then show "makes c3 (retA \<lparr>name = wn, unit = wu, price = wp\<rparr>) (\<lambda>b' c'. order_has R inp c' b' (n + 1, u + 1, p + 1))"
        using has_grows [OF wn grows_trans [OF c2 c3]] has_grows [OF wu c3]
        by (intro makes_ret grows_ok [OF c3]) (simp add: order_has_def)
    qed
  qed
qed

text \<open>The list \<open>os\<close> holds the new order's values plus 1, plus 2, and so on.\<close>

definition filled_list :: "'r::comm_ring_1 ringops \<Rightarrow> (wire_t \<Rightarrow> 'r) \<Rightarrow> 'r \<times> 'r \<times> 'r \<Rightarrow> nat \<Rightarrow> nat \<Rightarrow> Order list \<Rightarrow> 'r Circuit \<Rightarrow> bool" where
  "filled_list R inp x n k os c \<longleftrightarrow> length os = n \<and>
     (\<forall>i<k. order_has R inp c (os ! i) (fst x + of_nat (i + 1), fst (snd x) + of_nat (i + 1), snd (snd x) + of_nat (i + 1)))"

lemma filled_list_put:
  assumes "filled_list R inp x n k os c" "grows c c'" "k < n"
    "order_has R inp c' b (fst x + of_nat (k + 1), fst (snd x) + of_nat (k + 1), snd (snd x) + of_nat (k + 1))"
  shows "filled_list R inp x n (Suc k) (os[k := b]) c'"
  unfolding filled_list_def
proof (intro conjI allI impI)
  show "length (os[k := b]) = n" using assms(1) by (simp add: filled_list_def)
  fix i assume "i < Suc k"
  then consider "i = k" | "i < k" by linarith
  then show "order_has R inp c' (os[k := b] ! i) (fst x + of_nat (i + 1), fst (snd x) + of_nat (i + 1), snd (snd x) + of_nat (i + 1))"
  proof cases
    case 1
    then show ?thesis using assms(1,3,4) by (simp add: filled_list_def)
  next
    case 2
    then have "order_has R inp c (os ! i) (fst x + of_nat (i + 1), fst (snd x) + of_nat (i + 1), snd (snd x) + of_nat (i + 1))"
      using assms(1) by (simp only: filled_list_def)
    from order_has_grows [OF this assms(2)] 2 show ?thesis by simp
  qed
qed

lemma makes_cda_fill:
  assumes "circuit_ok c" "0 < length os" "order_has R inp c new x"
  shows "makes c (cda_fill new os) (filled_list R inp x (length os) (length os))"
proof -
  obtain n u p where x: "x = (n, u, p)" by (cases x) 
  have "makes c (bindA (next_order new) (\<lambda>b. forA (\<lambda>i os. bindA (atA os (i - 1)) (\<lambda>prev. bindA (next_order prev) (\<lambda>b. putA os i b)))
      [1..<length os] (os[0 := b]))) (filled_list R inp x (length os) (length os))"
  proof (rule makes_bind [OF makes_next_order [OF assms(1) assms(3) [unfolded x]]])
    fix b c1 assume c1: "grows c c1" and b: "order_has R inp c1 b (n + 1, u + 1, p + 1)"
    show "makes c1 (forA (\<lambda>i os. bindA (atA os (i - 1)) (\<lambda>prev. bindA (next_order prev) (\<lambda>b. putA os i b))) [1..<length os] (os[0 := b]))
        (filled_list R inp x (length os) (length os))"
    proof (rule makes_upt [where I = "filled_list R inp x (length os)", OF grows_ok [OF c1]])
      show "filled_list R inp x (length os) 1 (os[0 := b]) c1" using b assms(2) by (simp add: filled_list_def x)
      fix i os' c2 assume i: "1 \<le> i" "i < length os" and c2: "grows c1 c2" and I: "filled_list R inp x (length os) i os' c2"
      have len: "length os' = length os" using I by (simp add: filled_list_def)
      have "order_has R inp c2 (os' ! (i - 1)) (n + of_nat (i - 1 + 1), u + of_nat (i - 1 + 1), p + of_nat (i - 1 + 1))"
        using I i unfolding filled_list_def x fst_conv snd_conv by (metis One_nat_def Suc_pred' less_numeral_extra(1) lessI less_le_trans)
      then have prev: "order_has R inp c2 (os' ! (i - 1)) (n + of_nat i, u + of_nat i, p + of_nat i)" using i by simp
      have "makes c2 (bindA (next_order (os' ! (i - 1))) (putA os' i)) (filled_list R inp x (length os) (Suc i))"
      proof (rule makes_bind [OF makes_next_order [OF grows_ok [OF c2] prev]])
        fix b c3 assume c3: "grows c2 c3" and b: "order_has R inp c3 b (n + of_nat i + 1, u + of_nat i + 1, p + of_nat i + 1)"
        have "filled_list R inp x (length os) (Suc i) (os'[i := b]) c3"
          by (rule filled_list_put [OF I c3 i(2)]) (use b in \<open>simp add: x algebra_simps\<close>)
        then show "makes c3 (putA os' i b) (filled_list R inp x (length os) (Suc i))"
          using len i by (simp add: makes_ret grows_ok [OF c3])
      qed
      then show "makes c2 (bindA (atA os' (i - 1)) (\<lambda>prev. bindA (next_order prev) (putA os' i))) (filled_list R inp x (length os) (Suc i))"
        using len i by simp
    qed (use assms(2) in linarith)
  qed
  then show ?thesis using assms(2) by (simp add: cda_fill_def)
qed

lemma makes_zero:
  assumes "circuit_ok c" "has R inp c w x"
  shows "makes c (addConstA kConstMul w 0) (\<lambda>w c'. has R inp c' w 0)"
  using makes_constMul [OF assms, of 0] by simp

text \<open>The units and prices of a list, as values.\<close>

definition list_has :: "'r::comm_ring_1 ringops \<Rightarrow> (wire_t \<Rightarrow> 'r) \<Rightarrow> 'r Circuit \<Rightarrow> Order list \<Rightarrow> (nat \<Rightarrow> 'r) \<Rightarrow> (nat \<Rightarrow> 'r) \<Rightarrow> bool" where
  "list_has R inp c os u p \<longleftrightarrow> units_have R inp c os u \<and> (\<forall>i<length os. has R inp c (price (os ! i)) (p i))"

lemma list_hasD: "list_has R inp c os u p \<Longrightarrow> i < length os \<Longrightarrow> has R inp c (unit (os ! i)) (u i) \<and> has R inp c (price (os ! i)) (p i)"
  by (simp add: list_has_def units_have_def)

lemma list_has_grows: "list_has R inp c os u p \<Longrightarrow> grows c c' \<Longrightarrow> list_has R inp c' os u p"
  by (auto simp: list_has_def intro: units_have_grows has_grows)

lemma makes_cda_sums:
  assumes "circuit_ok c" "0 < length os" "list_has R inp c os u p"
  shows "makes c (cda_sums os) (\<lambda>w c'. length w = Suc (length os) \<and> (\<forall>j<Suc (length os). has R inp c' (w ! j) (total_units u j)))"
proof -
  let ?n = "Suc (length os)" and ?I = "\<lambda>k w c'. length w = Suc (length os) \<and> (\<forall>j<k. has R inp c' (w ! j) (total_units u j))"
  have u0: "has R inp c (unit (os ! 0)) (u 0)" using list_hasD [OF assms(3,2)] by simp
  have "makes c (bindA (addConstA kConstMul (unit (os ! 0)) 0) (\<lambda>w0. forA (\<lambda>i w. bindA (atA os (i - 1)) (\<lambda>b. bindA (atA w (i - 1)) (\<lambda>prev.
         bindA (addGate2A kAdd (unit b) prev) (\<lambda>x. putA w i x)))) [1..<?n] ((replicate ?n 0)[0 := w0]))) (?I ?n)"
  proof (rule makes_bind [OF makes_zero [OF assms(1) u0]])
    fix w0 c1 assume c1: "grows c c1" and w0: "has R inp c1 w0 0"
    show "makes c1 (forA (\<lambda>i w. bindA (atA os (i - 1)) (\<lambda>b. bindA (atA w (i - 1)) (\<lambda>prev.
         bindA (addGate2A kAdd (unit b) prev) (\<lambda>x. putA w i x)))) [1..<?n] ((replicate ?n 0)[0 := w0])) (?I ?n)"
    proof (rule makes_upt [where I = ?I, OF grows_ok [OF c1]])
      show "?I 1 ((replicate ?n 0)[0 := w0]) c1" using w0 by (simp add: total_units_def)
      fix i w c2 assume i: "1 \<le> i" "i < ?n" and c2: "grows c1 c2" and I: "?I i w c2"
      obtain j where j: "i = Suc j" "j < length os" using i by (cases i) auto
      have h: "has R inp c2 (unit (os ! j)) (u j)" "has R inp c2 (w ! j) (total_units u j)"
        using list_hasD [OF assms(3) j(2)] has_grows [OF _ grows_trans [OF c1 c2]] I j by auto
      have "makes c2 (bindA (addGate2A kAdd (unit (os ! j)) (w ! j)) (\<lambda>x. retA (w[i := x]))) (?I (Suc i))"
      proof (rule makes_bind [OF makes_add [OF grows_ok [OF c2] h]])
        fix x c3 assume c3: "grows c2 c3" and x: "has R inp c3 x (u j + total_units u j)"
        have "total_units u i = u j + total_units u j" by (simp add: total_units_def j(1))
        then have "?I (Suc i) (w[i := x]) c3"
          using I x has_grows [OF _ c3] i(2) by (auto simp: less_Suc_eq nth_list_update)
        then show "makes c3 (retA (w[i := x])) (?I (Suc i))" by (simp add: makes_ret grows_ok [OF c3])
      qed
      then show "makes c2 (bindA (atA os (i - 1)) (\<lambda>b. bindA (atA w (i - 1)) (\<lambda>prev. bindA (addGate2A kAdd (unit b) prev) (\<lambda>x. putA w i x)))) (?I (Suc i))"
        using I j by simp
    qed simp
  qed
  then show ?thesis using assms(2) by (simp add: cda_sums_def bindA_assoc del: upt_Suc)
qed

text \<open>Sell \<open>i - 1\<close> is wanted as long as the sells before it do not cover the new order, and at an acceptable price.\<close>

definition wanted :: "'r::comm_ring_1 ringops \<Rightarrow> (nat \<Rightarrow> 'r) \<Rightarrow> 'r \<Rightarrow> nat \<Rightarrow> bool" where
  "wanted R u nu i \<longleftrightarrow> msb R (total_units u (i - 1) - nu)"

definition acceptable :: "'r::comm_ring_1 ringops \<Rightarrow> (nat \<Rightarrow> 'r) \<Rightarrow> 'r \<Rightarrow> nat \<Rightarrow> bool" where
  "acceptable R p np i \<longleftrightarrow> msb R (p (i - 1) - (np + 1))"

text \<open>Entries 1 to \<open>k - 1\<close> of a vector of \<open>n\<close> wires carry the bits \<open>P\<close>; entry 0 is a wire.\<close>

definition bits_from_1 :: "'r::comm_ring_1 ringops \<Rightarrow> (wire_t \<Rightarrow> 'r) \<Rightarrow> nat \<Rightarrow> (nat \<Rightarrow> bool) \<Rightarrow> nat \<Rightarrow> wire_t list \<Rightarrow> 'r Circuit \<Rightarrow> bool" where
  "bits_from_1 R inp n P k z c \<longleftrightarrow> length z = n \<and> has R inp c (z ! 0) 0 \<and> (\<forall>i. 1 \<le> i \<longrightarrow> i < k \<longrightarrow> has R inp c (z ! i) (of_bool (P i)))"

lemma bits_from_1_put:
  assumes "bits_from_1 R inp n P k z c" "grows c c'" "1 \<le> k" "k < n" "has R inp c' w (of_bool (P k))"
  shows "bits_from_1 R inp n P (Suc k) (z[k := w]) c'"
  unfolding bits_from_1_def
proof (intro conjI allI impI)
  show "length (z[k := w]) = n" "has R inp c' (z[k := w] ! 0) 0"
    using assms(1,3) has_grows [OF _ assms(2)] by (auto simp: bits_from_1_def)
  fix i assume i: "1 \<le> i" "i < Suc k"
  show "has R inp c' (z[k := w] ! i) (of_bool (P i))"
  proof (cases "i = k")
    case True
    then show ?thesis using assms(1,4,5) by (simp add: bits_from_1_def)
  next
    case False
    then have "has R inp c (z ! i) (of_bool (P i))" using assms(1) i by (simp add: bits_from_1_def)
    then show ?thesis using False has_grows [OF _ assms(2)] by simp
  qed
qed

lemma bits_from_1_grows: "bits_from_1 R inp n P k z c \<Longrightarrow> grows c c' \<Longrightarrow> bits_from_1 R inp n P k z c'"
  unfolding bits_from_1_def using has_grows by blast

lemma makes_cda_flags:
  assumes ok: "circuit_ok c" and R: "\<not> is_BoolRing R" and "0 < length os" and os: "list_has R inp c os u p"
    and w: "length w = Suc (length os)" "\<forall>j<Suc (length os). has R inp c (w ! j) (total_units u j)"
    and new: "order_has R inp c new (nn, nu, np)"
  shows "makes c (cda_flags new os w) (\<lambda>(z, z') c'. bits_from_1 R inp (Suc (length os)) (wanted R u nu) (Suc (length os)) z c' \<and>
    bits_from_1 R inp (Suc (length os)) (acceptable R p np) (Suc (length os)) z' c')"
proof -
  let ?n = "Suc (length os)"
  let ?Z = "bits_from_1 R inp ?n (wanted R u nu)" and ?Z' = "bits_from_1 R inp ?n (acceptable R p np)"
  let ?I = "\<lambda>k (z, z') c'. ?Z k z c' \<and> ?Z' k z' c'"
  let ?body = "\<lambda>i (z, z').
         bindA (atA w (i - 1)) (\<lambda>v. bindA (addGate2A kSub v (unit new)) (\<lambda>temp1.
         bindA (addConstA kConstAdd (price new) 1) (\<lambda>temp2.
         bindA (atA os (i - 1)) (\<lambda>b. bindA (addGate2A kSub (price b) temp2) (\<lambda>temp3.
         bindA (addGate1A kLtz temp1) (\<lambda>x. bindA (putA z i x) (\<lambda>z.
         bindA (addGate1A kLtz temp3) (\<lambda>y. bindA (putA z' i y) (\<lambda>z'. retA (z, z'))))))))))"
  have w0: "has R inp c (w ! 0) 0" using w(2) by (auto simp: total_units_def)
  obtain z0 c1 where z0: "addConstA kConstMul (w ! 0) 0 c = Some (Inr (z0, c1))" "grows c c1" "has R inp c1 z0 0"
    using makes_zero [OF ok w0] by (rule makesE)
  obtain z0' c2 where z0': "addConstA kConstMul (w ! 0) 0 c1 = Some (Inr (z0', c2))" "grows c1 c2" "has R inp c2 z0' 0"
    using makes_zero [OF grows_ok [OF z0(2)] has_grows [OF w0 z0(2)]] by (rule makesE)
  note g2 = grows_trans [OF z0(2) z0'(2)]
  have "makes c2 (forA ?body [1..<?n] ((replicate ?n 0)[0 := z0], (replicate ?n 0)[0 := z0'])) (?I ?n)"
  proof (rule makes_upt [where I = ?I, OF grows_ok [OF g2]])
    show "?I 1 ((replicate ?n 0)[0 := z0], (replicate ?n 0)[0 := z0']) c2"
      using has_grows [OF z0(3) z0'(2)] z0'(3) by (simp add: bits_from_1_def)
    fix i s c3 assume i: "1 \<le> i" "i < ?n" and c3: "grows c2 c3" and I: "?I i s c3"
    obtain z z' where s: "s = (z, z')" by fastforce
    obtain j where j: "i = Suc j" "j < length os" using i by (cases i) auto
    note g3 = grows_trans [OF g2 c3]
    have h: "has R inp c3 (w ! j) (total_units u j)" "has R inp c3 (unit new) nu" "has R inp c3 (price new) np"
        "has R inp c3 (price (os ! j)) (p j)"
      using w(2) new list_hasD [OF os j(2)] j by (auto simp: order_has_def intro!: has_grows [OF _ g3])
    obtain t1 c4 where t1: "addGate2A kSub (w ! j) (unit new) c3 = Some (Inr (t1, c4))" "grows c3 c4" "has R inp c4 t1 (total_units u j - nu)"
      using makes_sub [OF grows_ok [OF c3] h(1,2)] by (rule makesE)
    obtain t2 c5 where t2: "addConstA kConstAdd (price new) 1 c4 = Some (Inr (t2, c5))" "grows c4 c5" "has R inp c5 t2 (np + 1)"
      using makes_constAdd [OF grows_ok [OF t1(2)] has_grows [OF h(3) t1(2)]] by (rule makesE)
    note g35 = grows_trans [OF t1(2) t2(2)]
    obtain t3 c6 where t3: "addGate2A kSub (price (os ! j)) t2 c5 = Some (Inr (t3, c6))" "grows c5 c6" "has R inp c6 t3 (p j - (np + 1))"
      using makes_sub [OF grows_ok [OF t2(2)] has_grows [OF h(4) g35] t2(3)] by (rule makesE)
    obtain x c7 where x: "addGate1A kLtz t1 c6 = Some (Inr (x, c7))" "grows c6 c7" "has R inp c7 x (of_bool (wanted R u nu i))"
      using makes_sign [OF _ R grows_ok [OF t3(2)] has_grows [OF t1(3) grows_trans [OF t2(2) t3(2)]], of kLtz]
      by (auto simp: wanted_def j(1) elim: makesE)
    obtain y c8 where y: "addGate1A kLtz t3 c7 = Some (Inr (y, c8))" "grows c7 c8" "has R inp c8 y (of_bool (acceptable R p np i))"
      using makes_sign [OF _ R grows_ok [OF x(2)] has_grows [OF t3(3) x(2)], of kLtz]
      by (auto simp: acceptable_def j(1) elim: makesE)
    have g38: "grows c3 c8" using g35 t3(2) x(2) y(2) by (blast intro: grows_trans)
    have Zs: "?Z i z c3" "?Z' i z' c3" using I s by simp_all
    then have len: "length z = ?n" "length z' = ?n" by (simp_all add: bits_from_1_def)
    have "?body i s c3 = Some (Inr ((z[i := x], z'[i := y]), c8))"
      using i j len w(1) t1(1) t2(1) t3(1) x(1) y(1) by (simp add: s bindA_run [where m = "liftA f" for f] retA_def)
    moreover have "?I (Suc i) (z[i := x], z'[i := y]) c8"
      using bits_from_1_put [OF Zs(1) g38 i has_grows [OF x(3) y(2)]] bits_from_1_put [OF Zs(2) g38 i y(3)] by simp
    ultimately show "makes c3 (?body i s) (?I (Suc i))" using g38 by (simp only: makes_def) blast
  qed simp
  then have "makes c2 (forA ?body [1..<?n] ((replicate ?n 0)[0 := z0], (replicate ?n 0)[0 := z0'])) (?I ?n)" .
  then obtain r c9 where r: "forA ?body [1..<?n] ((replicate ?n 0)[0 := z0], (replicate ?n 0)[0 := z0']) c2 = Some (Inr (r, c9))"
      "grows c2 c9" "?I ?n r c9" by (rule makesE)
  have "cda_flags new os w c = Some (Inr (r, c9))"
    using w(1) z0(1) z0'(1) r(1) by (simp add: cda_flags_def bindA_run [where m = "liftA f" for f])
  then show ?thesis using grows_trans [OF g2 r(2)] r(3) by (auto simp: makes_def)
qed

text \<open>The outputs: the flags of the matches, then the fields of the first \<open>k\<close> sells.\<close>

lemma marks_cda_matches:
  assumes ok: "circuit_ok c" and z: "bits_from_1 R inp (Suc N) P (Suc N) z c" "bits_from_1 R inp (Suc N) P' (Suc N) z' c"
  shows "marks c (cda_matches N z z') (\<lambda>_ c'. \<exists>ws. outputs_added c ws c' \<and>
    list_all2 (has R inp c') ws (map (\<lambda>i. of_bool (P i \<and> P' i)) [1..<Suc N]))"
proof -
  have len: "length z = Suc N" "length z' = Suc N" using z by (simp_all add: bits_from_1_def)
  have "has R inp c (z ! 0) 0" using z(1) by (simp add: bits_from_1_def)
  then obtain f0 c1 where f0: "addConstA kConstMul (z ! 0) 0 c = Some (Inr (f0, c1))" "grows c c1" "has R inp c1 f0 0"
    using makes_zero [OF ok] by (blast elim: makesE)
  let ?I = "\<lambda>k _ c'. \<exists>ws. outputs_added c ws c' \<and> list_all2 (has R inp c') ws (map (\<lambda>i. of_bool (P i \<and> P' i)) [1..<k])"
  let ?body = "\<lambda>i _. bindA (atA z i) (\<lambda>x. bindA (atA z' i) (\<lambda>y. bindA (addGate2A kMul x y) outputA))"
  have "marks c1 (forA ?body [1..<Suc N] ()) (?I (Suc N))"
  proof (rule marks_upt [where I = ?I, OF grows_ok [OF f0(2)]])
    show "?I 1 () c1" using grows_outputs_added [OF f0(2)] by auto
    fix i s c2 assume i: "1 \<le> i" "i < Suc N" and ok2: "circuit_ok c2" and "?I i s c2"
    then obtain ws where ws: "outputs_added c ws c2" "list_all2 (has R inp c2) ws (map (\<lambda>i. of_bool (P i \<and> P' i)) [1..<i])" by blast
    have h: "has R inp c2 (z ! i) (of_bool (P i))" "has R inp c2 (z' ! i) (of_bool (P' i))"
      by (rule has_outputs_added [OF _ ws(1)], use z i in \<open>simp add: bits_from_1_def\<close>)+
    have "marks c2 (bindA (addGate2A kMul (z ! i) (z' ! i)) outputA) (?I (Suc i))"
    proof (rule marks_makes [OF makes_mul [OF ok2 h]])
      fix w c3 assume c3: "grows c2 c3" and w: "has R inp c3 w (of_bool (P i) * of_bool (P' i))"
      have w': "has R inp c3 w (of_bool (P i \<and> P' i))" using w by (simp add: of_bool_conj)
      show "marks c3 (outputA w) (?I (Suc i))"
      proof (rule marks_weaken [OF marks_output [OF grows_ok [OF c3] w']])
        fix u c4 assume "c4 = c3\<lparr>circ_outputs := circ_outputs c3 @ [w]\<rparr>"
        then have c4: "outputs_added c2 [w] c4" "has R inp c4 w (of_bool (P i \<and> P' i))"
          using outputs_added_output [OF c3] w' by simp_all
        have "list_all2 (has R inp c4) ws (map (\<lambda>i. of_bool (P i \<and> P' i)) [1..<i])"
          using ws(2) has_outputs_added [OF _ c4(1)] by (rule list_all2_mono)
        then have "list_all2 (has R inp c4) (ws @ [w]) (map (\<lambda>i. of_bool (P i \<and> P' i)) [1..<Suc i])"
          using c4(2) i(1) by (simp add: list_all2_appendI)
        then show "?I (Suc i) u c4" using outputs_added_trans [OF ws(1) c4(1)] by blast
      qed
    qed
    then show "marks c2 (?body i s) (?I (Suc i))" using i len by simp
  qed simp
  then show ?thesis using len f0(1) by (simp add: cda_matches_def bindA_run [where m = "liftA f" for f] marks_def)
qed

lemma marks_output_added:
  "circuit_ok c \<Longrightarrow> has R inp c w x \<Longrightarrow> marks c (outputA w) (\<lambda>_ c'. outputs_added c [w] c')"
  by (rule marks_weaken [OF marks_output]) (auto simp: outputs_added_def)

lemma marks_cda_sells:
  assumes ok: "circuit_ok c" and os: "\<forall>i<k. order_has R inp c (os ! i) (x i)" and k: "k \<le> length os"
  shows "marks c (cda_sells os k) (\<lambda>_ c'. \<exists>ws. outputs_added c ws c' \<and>
    list_all2 (has R inp c') ws (concat (map (\<lambda>i. [fst (x i), fst (snd (x i)), snd (snd (x i))]) [0..<k])))"
  unfolding cda_sells_def
proof (rule marks_upto [where I = "\<lambda>k _ c'. \<exists>ws. outputs_added c ws c' \<and>
    list_all2 (has R inp c') ws (concat (map (\<lambda>i. [fst (x i), fst (snd (x i)), snd (snd (x i))]) [0..<k]))", OF ok])
  let ?vs = "\<lambda>k. concat (map (\<lambda>i. [fst (x i), fst (snd (x i)), snd (snd (x i))]) [0..<k])"
  let ?I = "\<lambda>k c'. \<exists>ws. outputs_added c ws c' \<and> list_all2 (has R inp c') ws (?vs k)"
  show "?I 0 c" using outputs_added_refl by auto
  fix i and s :: Product_Type.unit and c1 assume i: "i < k" and ok1: "circuit_ok c1" and "?I i c1"
  then obtain ws where ws: "outputs_added c ws c1" "list_all2 (has R inp c1) ws (?vs i)" by blast
  let ?b = "os ! i"
  have h: "has R inp c1 (name ?b) (fst (x i))" "has R inp c1 (unit ?b) (fst (snd (x i)))" "has R inp c1 (price ?b) (snd (snd (x i)))"
    by (rule has_outputs_added [OF _ ws(1)], use os i in \<open>simp add: order_has_def\<close>)+
  have "marks c1 (bindA (outputA (name ?b)) (\<lambda>_. bindA (outputA (unit ?b)) (\<lambda>_. outputA (price ?b)))) (\<lambda>_ c'. ?I (Suc i) c')"
  proof (rule marks_bind [OF marks_output_added [OF ok1 h(1)]])
    fix u c2 assume ok2: "circuit_ok c2" and c2: "outputs_added c1 [name ?b] c2"
    show "marks c2 (bindA (outputA (unit ?b)) (\<lambda>_. outputA (price ?b))) (\<lambda>_ c'. ?I (Suc i) c')"
    proof (rule marks_bind [OF marks_output_added [OF ok2 has_outputs_added [OF h(2) c2]]])
      fix u c3 assume ok3: "circuit_ok c3" and "outputs_added c2 [unit ?b] c3"
      with c2 have c3: "outputs_added c1 [name ?b, unit ?b] c3" using outputs_added_trans by fastforce
      show "marks c3 (outputA (price ?b)) (\<lambda>_ c'. ?I (Suc i) c')"
      proof (rule marks_weaken [OF marks_output_added [OF ok3 has_outputs_added [OF h(3) c3]]])
        fix u c4 assume "outputs_added c3 [price ?b] c4"
        with c3 have c4: "outputs_added c1 [name ?b, unit ?b, price ?b] c4" using outputs_added_trans by fastforce
        have "list_all2 (has R inp c4) ws (?vs i)" using ws(2) has_outputs_added [OF _ c4] by (rule list_all2_mono)
        then have "list_all2 (has R inp c4) (ws @ [name ?b, unit ?b, price ?b]) (?vs (Suc i))"
          using h has_outputs_added [OF _ c4] by (simp add: list_all2_appendI)
        then show "?I (Suc i) c4" using outputs_added_trans [OF ws(1) c4] by blast
      qed
    qed
  qed
  then show "marks c1 (bindA (atA os i) (\<lambda>b. bindA (outputA (name b)) (\<lambda>_. bindA (outputA (unit b)) (\<lambda>_. outputA (price b)))))
      (\<lambda>_ c'. ?I (Suc i) c')" using i k by simp
qed

subsection \<open>The insertion\<close>

text \<open>
  Nothing of the insertion reaches an output, so it is enough that it runs: every wire it reads exists.
\<close>

definition live :: "'r Circuit \<Rightarrow> wire_t \<Rightarrow> bool" where
  "live c w \<longleftrightarrow> w < length (circ_gates c)"

definition live_order :: "'r Circuit \<Rightarrow> Order \<Rightarrow> bool" where
  "live_order c b \<longleftrightarrow> live c (name b) \<and> live c (unit b) \<and> live c (price b)"

lemma live_grows: "live c w \<Longrightarrow> grows c c' \<Longrightarrow> live c' w"
  by (auto simp: live_def dest: grows_length)

lemma live_order_grows: "live_order c b \<Longrightarrow> grows c c' \<Longrightarrow> live_order c' b"
  by (auto simp: live_order_def intro: live_grows)

lemma live_orderD: "live_order c b \<Longrightarrow> live c (name b)" "live_order c b \<Longrightarrow> live c (unit b)" "live_order c b \<Longrightarrow> live c (price b)"
  by (simp_all add: live_order_def)

lemma all_live_grows: "\<forall>w\<in>W. live c w \<Longrightarrow> grows c c' \<Longrightarrow> \<forall>w\<in>W. live c' w"
  by (blast intro: live_grows)

lemma all_live_order_grows: "\<forall>b\<in>B. live_order c b \<Longrightarrow> grows c c' \<Longrightarrow> \<forall>b\<in>B. live_order c' b"
  by (blast intro: live_order_grows)

lemmas live_stable = live_grows live_order_grows all_live_grows all_live_order_grows grows_ok

lemma makes_push:
  assumes "m c = Inr (length (circ_gates c), push_gate g c)" "circuit_ok c"
    "gout g = length (circ_gates c)" "gate_typed g" "\<forall>w\<in>set (gins g). w < length (circ_gates c)"
  shows "makes c (liftA m) (\<lambda>w c'. live c' w)"
  using circuit_ok_push [OF assms(2-5)] assms(1) by (simp add: makes_def liftA_def grows_def) (simp add: push_gate_def live_def)

lemma makes_live2:
  "t \<in> {kAdd, kMul, kSub} \<Longrightarrow> circuit_ok c \<Longrightarrow> live c a \<Longrightarrow> live c b \<Longrightarrow> makes c (addGate2A t a b) (\<lambda>w c'. live c' w)"
  by (rule makes_push [where g = "FIn2Gate t a b (length (circ_gates c))"]) (auto simp: addGate2_def isWireValid_def live_def Let_def)

lemma makes_live1:
  "t \<in> {kLtz, kEqz} \<Longrightarrow> circuit_ok c \<Longrightarrow> live c a \<Longrightarrow> makes c (addGate1A t a) (\<lambda>w c'. live c' w)"
  by (rule makes_push [where g = "FIn1Gate t a (length (circ_gates c))"]) (auto simp: addGate1_def isWireValid_def live_def Let_def)

lemma makes_liveC:
  "t \<in> {kConstAdd, kConstMul} \<Longrightarrow> circuit_ok c \<Longrightarrow> live c a \<Longrightarrow> makes c (addConstA t a v) (\<lambda>w c'. live c' w)"
  by (rule makes_push [where g = "ConstOpGate t a v (length (circ_gates c))"]) (auto simp: addConstOpGate_def isWireValid_def live_def Let_def)

lemma makes_compl_live: "circuit_ok c \<Longrightarrow> live c v \<Longrightarrow> makes c (complA v) (\<lambda>w c'. live c' w)"
  unfolding complA_def by (rule makes_bind [OF makes_liveC]) (auto intro: makes_liveC grows_ok)

lemma makes_zero_order:
  assumes "circuit_ok c" "live_order c b"
    and k: "\<And>n u p c'. grows c c' \<Longrightarrow> live_order c' \<lparr>name = n, unit = u, price = p\<rparr> \<Longrightarrow> makes c' (k n u p) Q"
  shows "makes c (bindA (addConstA kConstMul (name b) 0) (\<lambda>n. bindA (addConstA kConstMul (unit b) 0) (\<lambda>u.
      bindA (addConstA kConstMul (price b) 0) (\<lambda>p. k n u p)))) Q"
proof (rule makes_bind [OF makes_liveC [OF _ assms(1) live_orderD(1) [OF assms(2)]]])
  fix n c1 assume c1: "grows c c1" and n: "live c1 n"
  note b1 = live_order_grows [OF assms(2) c1]
  show "makes c1 (bindA (addConstA kConstMul (unit b) 0) (\<lambda>u. bindA (addConstA kConstMul (price b) 0) (\<lambda>p. k n u p))) Q"
  proof (rule makes_bind [OF makes_liveC [OF _ grows_ok [OF c1] live_orderD(2) [OF b1]]])
    fix u c2 assume c2: "grows c1 c2" and u: "live c2 u"
    show "makes c2 (bindA (addConstA kConstMul (price b) 0) (\<lambda>p. k n u p)) Q"
    proof (rule makes_bind [OF makes_liveC [OF _ grows_ok [OF c2] live_orderD(3) [OF live_order_grows [OF b1 c2]]]])
      fix p c3 assume c3: "grows c2 c3" and p: "live c3 p"
      show "makes c3 (k n u p) Q"
        using n u p c1 c2 c3 by (intro k) (auto simp: live_order_def intro: live_grows grows_trans)
    qed simp
  qed simp
qed simp

lemma makes_cda_partial:
  assumes ok: "circuit_ok c" and k: "0 < k" "k \<le> length os" "k \<le> length w" "k + 1 < length z"
    and l: "\<forall>b\<in>set os. live_order c b" "\<forall>v\<in>set w. live c v" "\<forall>v\<in>set z. live c v" "live c (unit new)"
  shows "makes c (cda_partial new os w z k) (\<lambda>w c'. live c' w)"
proof -
  have m: "k - 1 < length os" "k - 1 < length w" using k by simp_all
  have h: "live c (unit (os ! (k - 1)))" "live c (w ! (k - 1))" "live c (z ! (k + 1))"
    using l m k(4) by (auto simp: live_order_def)
  have "makes c (bindA (addGate2A kSub (unit new) (w ! (k - 1))) (\<lambda>t1. bindA (addGate2A kSub t1 (unit (os ! (k - 1)))) (\<lambda>t2.
      bindA (addGate2A kMul t2 (z ! (k + 1))) (\<lambda>t3. addGate2A kAdd t3 (unit (os ! (k - 1))))))) (\<lambda>w c'. live c' w)"
  proof (rule makes_bind [OF makes_live2 [OF _ ok l(4) h(2)]])
    fix t1 c1 assume c1: "grows c c1" and t1: "live c1 t1"
    show "makes c1 (bindA (addGate2A kSub t1 (unit (os ! (k - 1)))) (\<lambda>t2. bindA (addGate2A kMul t2 (z ! (k + 1))) (\<lambda>t3.
        addGate2A kAdd t3 (unit (os ! (k - 1)))))) (\<lambda>w c'. live c' w)"
    proof (rule makes_bind [OF makes_live2 [OF _ grows_ok [OF c1] t1 live_grows [OF h(1) c1]]])
      fix t2 c2 assume c2: "grows c1 c2" and t2: "live c2 t2"
      note g2 = grows_trans [OF c1 c2]
      show "makes c2 (bindA (addGate2A kMul t2 (z ! (k + 1))) (\<lambda>t3. addGate2A kAdd t3 (unit (os ! (k - 1))))) (\<lambda>w c'. live c' w)"
      proof (rule makes_bind [OF makes_live2 [OF _ grows_ok [OF c2] t2 live_grows [OF h(3) g2]]])
        fix t3 c3 assume c3: "grows c2 c3" and t3: "live c3 t3"
        show "makes c3 (addGate2A kAdd t3 (unit (os ! (k - 1)))) (\<lambda>w c'. live c' w)"
          by (rule makes_live2 [OF _ grows_ok [OF c3] t3 live_grows [OF h(1) grows_trans [OF g2 c3]]]) simp
      qed simp
    qed simp
  qed simp
  then show ?thesis using k by (simp add: cda_partial_def)
qed

lemma set_list_update_live: "\<forall>w\<in>set ws. P w \<Longrightarrow> P x \<Longrightarrow> \<forall>w\<in>set (ws[i := x]). P w"
  using set_update_subset_insert [of ws i x] by blast

lemma makes_cda_extend:
  assumes "circuit_ok c" "length os = M" "0 < M" "\<forall>b\<in>set os. live_order c b" "M < sz" "live c 0"
  shows "makes c (cda_extend sz M os) (\<lambda>os' c'. length os' = sz \<and> (\<forall>b\<in>set os'. live_order c' b))"
proof -
  let ?os = "resize sz os"
  have os: "length ?os = sz" "\<forall>b\<in>set ?os. live_order c b" "0 < length ?os"
    using assms by (auto simp: resize_def Order_new_def live_order_def)
  then have b0: "live_order c (?os ! 0)" by (simp del: length_greater_0_conv)
  have "makes c (bindA (addConstA kConstMul (name (?os ! 0)) 0) (\<lambda>n. bindA (addConstA kConstMul (unit (?os ! 0)) 0) (\<lambda>u.
      bindA (addConstA kConstMul (price (?os ! 0)) 0) (\<lambda>p. putA ?os M \<lparr>name = n, unit = u, price = p\<rparr>))))
      (\<lambda>os' c'. length os' = sz \<and> (\<forall>b\<in>set os'. live_order c' b))"
  proof (rule makes_zero_order [OF assms(1) b0])
    fix n u p c' assume c': "grows c c'" and l: "live_order c' \<lparr>name = n, unit = u, price = p\<rparr>"
    show "makes c' (putA ?os M \<lparr>name = n, unit = u, price = p\<rparr>) (\<lambda>os' c'. length os' = sz \<and> (\<forall>b\<in>set os'. live_order c' b))"
      using os assms(5) set_list_update_live [OF all_live_order_grows [OF os(2) c'] l] by (simp add: makes_ret grows_ok [OF c'])
  qed
  then show ?thesis using os(3) by (simp add: cda_extend_def Let_def)
qed

text \<open>Loops that write one live wire per round.\<close>

definition live_vec :: "nat \<Rightarrow> wire_t list \<Rightarrow> 'r Circuit \<Rightarrow> bool" where
  "live_vec n v c \<longleftrightarrow> length v = n \<and> (\<forall>w\<in>set v. live c w)"

lemma live_vec_nth: "live_vec n v c \<Longrightarrow> i < n \<Longrightarrow> live c (v ! i)"
  by (simp add: live_vec_def)

lemma live_vec_grows: "live_vec n v c \<Longrightarrow> grows c c' \<Longrightarrow> live_vec n v c'"
  by (auto simp: live_vec_def intro: live_grows)

lemma live_vec_put: "live_vec n v c \<Longrightarrow> live c w \<Longrightarrow> live_vec n (v[i := w]) c"
  using set_list_update_live [of v "live c"] by (simp add: live_vec_def)

lemma live_vec_zeros: "live c 0 \<Longrightarrow> live_vec n (replicate n 0) c"
  by (auto simp: live_vec_def)

lemma makes_cda_g:
  assumes ok: "circuit_ok c" and os: "\<forall>b\<in>set os. live_order c b" "M < length os" and "live c pr" "live c 0"
  shows "makes c (cda_g pr os M) (live_vec (M + 2))"
proof -
  have nth: "live_order c (os ! i)" if "i \<le> M" for i using os that by (simp add: nth_mem)
  let ?body = "\<lambda>i g. bindA (atA os i) (\<lambda>b. bindA (addConstA kConstAdd (price b) 1) (\<lambda>temp_1.
         bindA (addGate2A kSub pr temp_1) (\<lambda>temp_2. bindA (addGate1A kLtz temp_2) (\<lambda>x. putA g i x))))"
  have step: "makes c' (?body i g) (live_vec (M + 2))" if i: "i < M + 1" and c': "grows c c'" and g: "live_vec (M + 2) g c'" for i g c'
  proof -
    have b: "live c' (price (os ! i))" using nth [of i] i c' by (auto simp: live_order_def intro: live_grows)
    have len: "i < length os" "i < length g" using i os(2) g by (simp_all add: live_vec_def)
    have "makes c' (bindA (addConstA kConstAdd (price (os ! i)) 1) (\<lambda>t1. bindA (addGate2A kSub pr t1) (\<lambda>t2.
        bindA (addGate1A kLtz t2) (\<lambda>x. retA (g[i := x]))))) (live_vec (M + 2))"
    proof (rule makes_bind [OF makes_liveC [OF _ grows_ok [OF c'] b]])
      fix t1 c1 assume c1: "grows c' c1" and t1: "live c1 t1"
      have pr: "live c1 pr" using assms(4) grows_trans [OF c' c1] by (rule live_grows)
      show "makes c1 (bindA (addGate2A kSub pr t1) (\<lambda>t2. bindA (addGate1A kLtz t2) (\<lambda>x. retA (g[i := x])))) (live_vec (M + 2))"
      proof (rule makes_bind [OF makes_live2 [OF _ grows_ok [OF c1] pr t1]])
        fix t2 c2 assume c2: "grows c1 c2" and t2: "live c2 t2"
        show "makes c2 (bindA (addGate1A kLtz t2) (\<lambda>x. retA (g[i := x]))) (live_vec (M + 2))"
          by (rule makes_bind [OF makes_live1 [OF _ grows_ok [OF c2] t2]])
            (use g c1 c2 in \<open>auto intro!: makes_ret live_vec_put intro: grows_ok live_vec_grows grows_trans\<close>)
      qed simp
    qed simp
    then show ?thesis using len by simp
  qed
  have b0: "live c (price (os ! 0))" using nth [of 0] by (simp add: live_order_def)
  have "makes c (bindA (addGate2A kSub pr (price (os ! 0))) (\<lambda>tmp4. bindA (addGate1A kLtz tmp4) (\<lambda>g0.
      forA ?body [1..<M + 1] ((replicate (M + 2) 0)[0 := g0])))) (live_vec (M + 2))"
  proof (rule makes_bind [OF makes_live2 [OF _ ok assms(4) b0]])
    fix t c1 assume c1: "grows c c1" and t: "live c1 t"
    show "makes c1 (bindA (addGate1A kLtz t) (\<lambda>g0. forA ?body [1..<M + 1] ((replicate (M + 2) 0)[0 := g0]))) (live_vec (M + 2))"
    proof (rule makes_bind [OF makes_live1 [OF _ grows_ok [OF c1] t]])
      fix g0 c2 assume c2: "grows c1 c2" and g0: "live c2 g0"
      note g = grows_trans [OF c1 c2]
      show "makes c2 (forA ?body [1..<M + 1] ((replicate (M + 2) 0)[0 := g0])) (live_vec (M + 2))"
        by (rule makes_upt [where I = "\<lambda>_. live_vec (M + 2)", OF grows_ok [OF c2]])
          (use g0 live_grows [OF assms(5) g] g step in \<open>auto intro!: live_vec_put live_vec_zeros intro: grows_trans simp del: replicate.simps\<close>)
    qed simp
  qed simp
  moreover have "0 < length os" using os(2) by linarith
  ultimately show ?thesis unfolding cda_g_def by (simp only: atA_ret bindA_ret)
qed

lemma makes_cda_h:
  assumes ok: "circuit_ok c" and g: "live_vec (M + 2) g c" and z: "live c 0"
  shows "makes c (cda_h g M) (\<lambda>(tmp6, h) c'. live_vec (M + 2) tmp6 c' \<and> live_vec (M + 2) h c')"
  unfolding cda_h_def
proof (rule makes_upto [where I = "\<lambda>_ (t, h) c'. live_vec (M + 2) t c' \<and> live_vec (M + 2) h c'", OF ok])
  let ?Q = "\<lambda>(t, h) c'. live_vec (M + 2) t c' \<and> live_vec (M + 2) h c'"
  show "?Q (replicate (M + 2) 0, replicate (M + 2) 0) c" using live_vec_zeros [OF z] by (simp del: replicate.simps)
  fix i s c1 assume i: "i < M + 1" and c1: "grows c c1" and I: "?Q s c1"
  obtain t h where s: "s = (t, h)" by fastforce
  note g1 = live_vec_grows [OF g c1]
  have len: "i < length g" "i - 1 < length g" "i < length t" "i < length h" using i g I s by (simp_all add: live_vec_def)
  have gi: "live c1 (g ! i)" "live c1 (g ! (i - 1))" using live_vec_nth [OF g1] i by simp_all
  have "makes c1 (bindA (complA (g ! i)) (\<lambda>x. bindA (addGate2A kMul x (g ! (i - 1))) (\<lambda>m. retA (t[i := x], h[i := m])))) ?Q"
  proof (rule makes_bind [OF makes_compl_live [OF grows_ok [OF c1] gi(1)]])
    fix x c2 assume c2: "grows c1 c2" and x: "live c2 x"
    show "makes c2 (bindA (addGate2A kMul x (g ! (i - 1))) (\<lambda>m. retA (t[i := x], h[i := m]))) ?Q"
    proof (rule makes_bind [OF makes_live2 [OF _ grows_ok [OF c2] x live_grows [OF gi(2) c2]]])
      fix m c3 assume c3: "grows c2 c3" and m: "live c3 m"
      note g3 = grows_trans [OF c2 c3]
      show "makes c3 (retA (t[i := x], h[i := m])) ?Q"
        using I s m live_grows [OF x c3] by (auto intro!: makes_ret live_vec_put intro: grows_ok [OF c3] live_vec_grows [OF _ g3])
    qed simp
  qed
  then show "makes c1 ((\<lambda>(tmp6, h). bindA (atA g i) (\<lambda>x. bindA (complA x) (\<lambda>c. bindA (putA tmp6 i c) (\<lambda>tmp6.
         bindA (atA g (i - 1)) (\<lambda>y. bindA (addGate2A kMul c y) (\<lambda>m. bindA (putA h i m) (\<lambda>h. retA (tmp6, h)))))))) s) ?Q"
    using len s by simp
qed

lemma makes_cda_u:
  assumes ok: "circuit_ok c" and v: "live_vec (M + 2) t c" "live_vec (M + 2) h c" and z: "live c 0"
  shows "makes c (cda_u t h M) (live_vec (M + 2))"
  unfolding cda_u_def
proof (rule makes_upto [where I = "\<lambda>_. live_vec (M + 2)", OF ok live_vec_zeros [OF z]])
  fix i u c1 assume i: "i < M + 1" and c1: "grows c c1" and u: "live_vec (M + 2) u c1"
  have len: "i < length t" "i < length h" "i < length u" using i v u by (simp_all add: live_vec_def)
  have l: "live c1 (h ! i)" "live c1 (t ! i)"
    by (rule live_grows [OF live_vec_nth [OF v(2)] c1], use i in simp)
      (rule live_grows [OF live_vec_nth [OF v(1)] c1], use i in simp)
  have "makes c1 (bindA (complA (h ! i)) (\<lambda>x. bindA (addGate2A kMul x (t ! i)) (\<lambda>m. retA (u[i := m])))) (live_vec (M + 2))"
  proof (rule makes_bind [OF makes_compl_live [OF grows_ok [OF c1] l(1)]])
    fix x c2 assume c2: "grows c1 c2" and x: "live c2 x"
    show "makes c2 (bindA (addGate2A kMul x (t ! i)) (\<lambda>m. retA (u[i := m]))) (live_vec (M + 2))"
      by (rule makes_bind [OF makes_live2 [OF _ grows_ok [OF c2] x live_grows [OF l(2) c2]]])
        (use u c2 in \<open>auto intro!: makes_ret live_vec_put intro: grows_ok live_vec_grows grows_trans\<close>)
  qed
  then show "makes c1 (bindA (atA h i) (\<lambda>x. bindA (complA x) (\<lambda>c. bindA (atA t i) (\<lambda>y. bindA (addGate2A kMul c y) (putA u i)))))
      (live_vec (M + 2))" using len by (simp add: putA_fun)
qed

lemma makes_cda_mux:
  assumes ok: "circuit_ok c" and l: "live c g" "live c a" "live c h" "live c b" "live c u" "live c w"
  shows "makes c (cda_mux g a h b u w) (\<lambda>w c'. live c' w)"
  unfolding cda_mux_def
proof (rule makes_bind [OF makes_live2 [OF _ ok l(1,2)]])
  fix t1 c1 assume c1: "grows c c1" and t1: "live c1 t1"
  show "makes c1 (bindA (addGate2A kMul h b) (\<lambda>t2. bindA (addGate2A kMul u w) (\<lambda>t3. bindA (addGate2A kAdd t1 t2) (addGate2A kAdd t3))))
      (\<lambda>w c'. live c' w)"
  proof (rule makes_bind [OF makes_live2 [OF _ grows_ok [OF c1] live_grows [OF l(3) c1] live_grows [OF l(4) c1]]])
    fix t2 c2 assume c2: "grows c1 c2" and t2: "live c2 t2"
    note g2 = grows_trans [OF c1 c2]
    show "makes c2 (bindA (addGate2A kMul u w) (\<lambda>t3. bindA (addGate2A kAdd t1 t2) (addGate2A kAdd t3))) (\<lambda>w c'. live c' w)"
    proof (rule makes_bind [OF makes_live2 [OF _ grows_ok [OF c2] live_grows [OF l(5) g2] live_grows [OF l(6) g2]]])
      fix t3 c3 assume c3: "grows c2 c3" and t3: "live c3 t3"
      show "makes c3 (bindA (addGate2A kAdd t1 t2) (addGate2A kAdd t3)) (\<lambda>w c'. live c' w)"
        by (rule makes_bind [OF makes_live2 [OF _ grows_ok [OF c3] live_grows [OF t1 grows_trans [OF c2 c3]] live_grows [OF t2 c3]]])
          (use t3 in \<open>auto intro!: makes_live2 intro: grows_ok live_grows\<close>)
    qed simp
  qed simp
qed simp

lemma makes_cda_update:
  assumes ok: "circuit_ok c" and os: "\<forall>b\<in>set os. live_order c b" "M < length os"
    and v: "live_vec (M + 2) g c" "live_vec (M + 2) h c" "live_vec (M + 2) u c" and new: "live_order c new"
  shows "makes c (cda_update new os g h u M) (\<lambda>_ _. True)"
proof -
  have nth: "live_order c (os ! i)" if "i \<le> M" for i using os that by (simp add: nth_mem)
  have pos: "0 < length os" using os(2) by linarith
  let ?b0 = "os ! 0"
  let ?body = "\<lambda>i upd. bindA (atA g (i - 1)) (\<lambda>x. bindA (atA h (i - 1)) (\<lambda>y. bindA (atA u (i - 1)) (\<lambda>v. bindA (atA os i) (\<lambda>b.
         bindA (cda_mux x (name b) y (name ?b0) v (name new)) (\<lambda>n.
         bindA (cda_mux x (unit b) y (unit ?b0) v (unit new)) (\<lambda>un.
         bindA (cda_mux x (price b) y (price ?b0) v (price new)) (\<lambda>p.
         putA upd i \<lparr>name = n, unit = un, price = p\<rparr>)))))))"
  have step: "makes c1 (?body i upd) (\<lambda>upd _. length upd = M + 2)"
    if i: "1 \<le> i" "i < M + 1" and c1: "grows c c1" and upd: "length upd = M + 2" for i c1 and upd :: "Order list"
  proof -
    have len: "i - 1 < length g" "i - 1 < length h" "i - 1 < length u" "i < length os" "i < length upd"
      using i v os(2) upd by (simp_all add: live_vec_def)
    have vi: "live c (g ! (i - 1))" "live c (h ! (i - 1))" "live c (u ! (i - 1))"
      using live_vec_nth [of "M + 2" _ c "i - 1"] v i by simp_all
    have bi: "live_order c (os ! i)" "live_order c ?b0" using nth i by simp_all
    have mux: "makes c' (cda_mux (g ! (i - 1)) (f (os ! i)) (h ! (i - 1)) (f ?b0) (u ! (i - 1)) (f new)) (\<lambda>w c'. live c' w)"
      if "grows c c'" "\<And>b. live_order c b \<Longrightarrow> live c (f b)" for c' and f :: "Order \<Rightarrow> wire_t"
      by (rule makes_cda_mux; rule grows_ok [OF that(1)] live_grows [OF _ that(1)]; use vi bi new that(2) in simp)
    have "makes c1 (bindA (cda_mux (g ! (i - 1)) (name (os ! i)) (h ! (i - 1)) (name ?b0) (u ! (i - 1)) (name new)) (\<lambda>n.
         bindA (cda_mux (g ! (i - 1)) (unit (os ! i)) (h ! (i - 1)) (unit ?b0) (u ! (i - 1)) (unit new)) (\<lambda>un.
         bindA (cda_mux (g ! (i - 1)) (price (os ! i)) (h ! (i - 1)) (price ?b0) (u ! (i - 1)) (price new)) (\<lambda>p.
         retA (upd[i := \<lparr>name = n, unit = un, price = p\<rparr>]))))) (\<lambda>upd _. length upd = M + 2)"
    proof (rule makes_bind [OF mux [OF c1 live_orderD(1)]], assumption)
      fix n c2 assume c2: "grows c1 c2"
      note g2 = grows_trans [OF c1 c2]
      show "makes c2 (bindA (cda_mux (g ! (i - 1)) (unit (os ! i)) (h ! (i - 1)) (unit ?b0) (u ! (i - 1)) (unit new)) (\<lambda>un.
         bindA (cda_mux (g ! (i - 1)) (price (os ! i)) (h ! (i - 1)) (price ?b0) (u ! (i - 1)) (price new)) (\<lambda>p.
         retA (upd[i := \<lparr>name = n, unit = un, price = p\<rparr>])))) (\<lambda>upd _. length upd = M + 2)"
      proof (rule makes_bind [OF mux [OF g2 live_orderD(2)]], assumption)
        fix un c3 assume c3: "grows c2 c3"
        note g3 = grows_trans [OF g2 c3]
        show "makes c3 (bindA (cda_mux (g ! (i - 1)) (price (os ! i)) (h ! (i - 1)) (price ?b0) (u ! (i - 1)) (price new)) (\<lambda>p.
           retA (upd[i := \<lparr>name = n, unit = un, price = p\<rparr>]))) (\<lambda>upd _. length upd = M + 2)"
          by (rule makes_bind [OF mux [OF g3 live_orderD(3)]], assumption) (use upd in \<open>auto intro: makes_ret grows_ok\<close>)
      qed
    qed
    then show ?thesis using len by simp
  qed
  have "makes c (bindA (addConstA kConstMul (name ?b0) 0) (\<lambda>n. bindA (addConstA kConstMul (unit ?b0) 0) (\<lambda>un.
     bindA (addConstA kConstMul (price ?b0) 0) (\<lambda>p.
     forA ?body [1..<M + 1] ((replicate (M + 2) Order_new)[0 := \<lparr>name = n, unit = un, price = p\<rparr>]))))) (\<lambda>_ _. True)"
  proof (rule makes_zero_order [OF ok nth])
    fix n un p c' assume c': "grows c c'"
    have "makes c' (forA ?body [1..<M + 1] ((replicate (M + 2) Order_new)[0 := \<lparr>name = n, unit = un, price = p\<rparr>])) (\<lambda>upd _. length upd = M + 2)"
    proof (rule makes_upt [where I = "\<lambda>_ upd _. length upd = M + 2", OF grows_ok [OF c']])
      fix i c1 and upd :: "Order list" assume "1 \<le> i" "i < M + 1" "grows c' c1" "length upd = M + 2"
      then show "makes c1 (?body i upd) (\<lambda>upd _. length upd = M + 2)" using c' by (intro step) (auto intro: grows_trans)
    qed simp_all
    then show "makes c' (forA ?body [1..<M + 1] ((replicate (M + 2) Order_new)[0 := \<lparr>name = n, unit = un, price = p\<rparr>])) (\<lambda>_ _. True)"
      by (rule makes_weaken) simp
  qed simp
  then show ?thesis using pos unfolding cda_update_def by (simp only: atA_ret bindA_ret)
qed

subsection \<open>The routine as a whole\<close>

lemma order_has_live: "order_has R inp c b x \<Longrightarrow> live_order c b"
  by (simp add: order_has_def live_order_def live_def has_def)

lemma live_outputs_added: "live c w \<Longrightarrow> outputs_added c ws c' \<Longrightarrow> live c' w"
  by (auto simp: live_def outputs_added_def dest: prefix_length_le)

lemma live_order_outputs_added: "live_order c b \<Longrightarrow> outputs_added c ws c' \<Longrightarrow> live_order c' b"
  by (auto simp: live_order_def intro: live_outputs_added)

lemma filled_list_orders:
  assumes "filled_list R inp x n n os c"
  shows "length os = n" "\<forall>b\<in>set os. live_order c b"
    "list_has R inp c os (\<lambda>i. fst (snd x) + of_nat (i + 1)) (\<lambda>i. snd (snd x) + of_nat (i + 1))"
    "\<forall>i<n. order_has R inp c (os ! i) (fst x + of_nat (i + 1), fst (snd x) + of_nat (i + 1), snd (snd x) + of_nat (i + 1))"
proof -
  show len: "length os = n" and all: "\<forall>i<n. order_has R inp c (os ! i) (fst x + of_nat (i + 1), fst (snd x) + of_nat (i + 1), snd (snd x) + of_nat (i + 1))"
    using assms unfolding filled_list_def by blast+
  show "\<forall>b\<in>set os. live_order c b" using all len order_has_live by (metis in_set_conv_nth)
  show "list_has R inp c os (\<lambda>i. fst (snd x) + of_nat (i + 1)) (\<lambda>i. snd (snd x) + of_nat (i + 1))"
    using all len unfolding list_has_def units_have_def order_has_def by simp
qed

lemma inputOrder_has:
  assumes "circuit_ok c"
  defines "k \<equiv> length (circ_gates c)"
  shows "\<exists>new. inputOrder c = Some (Inr (new, after_inputs c)) \<and>
    order_has R inp (after_inputs c) new (inp k, inp (k + 1), inp (k + 2))"
proof -
  have "makes c inputOrder (\<lambda>new c'. order_has R inp c' new (inp k, inp (k + 1), inp (k + 2)))"
    unfolding inputOrder_def
  proof (rule makes_bind [OF makes_input [OF assms(1)]], elim conjE)
    fix n c1 assume c1: "grows c c1" and n: "n = length (circ_gates c)" "circ_gates c1 = circ_gates c @ [Gate kInp n]" "has R inp c1 n (inp n)"
    show "makes c1 (bindA inputA (\<lambda>u. bindA inputA (\<lambda>p. retA \<lparr>name = n, unit = u, price = p\<rparr>)))
        (\<lambda>new c'. order_has R inp c' new (inp k, inp (k + 1), inp (k + 2)))"
    proof (rule makes_bind [OF makes_input [OF grows_ok [OF c1]]], elim conjE)
      fix u c2 assume c2: "grows c1 c2" and u: "u = length (circ_gates c1)" "circ_gates c2 = circ_gates c1 @ [Gate kInp u]" "has R inp c2 u (inp u)"
      show "makes c2 (bindA inputA (\<lambda>p. retA \<lparr>name = n, unit = u, price = p\<rparr>))
          (\<lambda>new c'. order_has R inp c' new (inp k, inp (k + 1), inp (k + 2)))"
      proof (rule makes_bind [OF makes_input [OF grows_ok [OF c2]]], elim conjE)
        fix p c3 assume c3: "grows c2 c3" and p: "p = length (circ_gates c2)" "circ_gates c3 = circ_gates c2 @ [Gate kInp p]" "has R inp c3 p (inp p)"
        have "has R inp c3 n (inp n)" "has R inp c3 u (inp u)"
          using has_grows [OF n(3) grows_trans [OF c2 c3]] has_grows [OF u(3) c3] by simp_all
        moreover have "n = k" "u = k + 1" "p = k + 2" using n u p by (simp_all add: k_def)
        ultimately show "makes c3 (retA \<lparr>name = n, unit = u, price = p\<rparr>) (\<lambda>new c'. order_has R inp c' new (inp k, inp (k + 1), inp (k + 2)))"
          using p(3) by (intro makes_ret grows_ok [OF c3]) (simp add: order_has_def)
      qed
    qed
  qed
  then show ?thesis using inputOrder_eq [of c] by (auto simp: makes_def)
qed

text \<open>
  With at least two sells and one buy the routine runs. Its outputs are the flags of the matches and the
  first half of the sells; the values of both lists are those of the new order plus 1, 2, and so on.
\<close>

definition cda_insert :: "DarkPool \<Rightarrow> Order \<Rightarrow> Order list \<Rightarrow> Order list \<Rightarrow> nat \<Rightarrow> ('r::comm_ring_1, DarkPool) appb" where
  "cda_insert dp new sl bl M =
     (let sz = buy_list_size dp + 1 in
      bindA (addGate1A kEqz (unit new)) (\<lambda>e.
      bindA (addGate2A kMul (price new) e) (\<lambda>pr.
      bindA (cda_extend sz M bl) (\<lambda>bl.
      bindA (cda_g pr bl M) (\<lambda>g.
      bindA (cda_h g M) (\<lambda>(tmp6, h).
      bindA (cda_u tmp6 h M) (\<lambda>u.
      bindA (cda_update (new\<lparr>price := pr\<rparr>) bl g h u M) (\<lambda>updated.
      retA (dp\<lparr>s_list := sl, b_list := bl, buy_list_size := sz, new_order := new\<lparr>price := pr\<rparr>\<rparr>)))))))))"

lemma getCDACircuit_insert:
  "getCDACircuit dp =
     bindA inputOrder (\<lambda>new. bindA (cda_fill new (s_list dp)) (\<lambda>sl. bindA (cda_fill new (b_list dp)) (\<lambda>bl.
     bindA (cda_sums sl) (\<lambda>w. bindA (cda_flags new sl w) (\<lambda>(z, z').
     bindA (cda_matches (length (s_list dp)) z z') (\<lambda>_. bindA (cda_sells sl (length (s_list dp) div 2)) (\<lambda>_.
     bindA (cda_partial new sl w z (length (s_list dp) div 2)) (\<lambda>_. cda_insert dp new sl bl (length (b_list dp))))))))))"
  by (simp add: getCDACircuit_def cda_insert_def Let_def split_def)

lemma makes_cda_insert:
  assumes ok: "circuit_ok c" and new: "live_order c new" and bl: "length bl = M" "0 < M" "\<forall>b\<in>set bl. live_order c b"
    and sz: "M \<le> buy_list_size dp" and z: "live c 0"
  shows "makes c (cda_insert dp new sl bl M) (\<lambda>_ _. True)"
proof -
  obtain e c1 where e: "addGate1A kEqz (unit new) c = Some (Inr (e, c1))" "grows c c1" "live c1 e"
    using makes_live1 [OF _ ok live_orderD(2) [OF new], of kEqz] by (auto elim: makesE)
  obtain pr c2 where pr: "addGate2A kMul (price new) e c1 = Some (Inr (pr, c2))" "grows c1 c2" "live c2 pr"
    using makes_live2 [OF _ grows_ok [OF e(2)] live_grows [OF live_orderD(3) [OF new] e(2)] e(3), of kMul] by (auto elim: makesE)
  note g2 = grows_trans [OF e(2) pr(2)]
  obtain bl' c3 where bl': "cda_extend (buy_list_size dp + 1) M bl c2 = Some (Inr (bl', c3))" "grows c2 c3"
      "length bl' = buy_list_size dp + 1" "\<forall>b\<in>set bl'. live_order c3 b"
    using makes_cda_extend [OF grows_ok [OF pr(2)] bl(1,2) all_live_order_grows [OF bl(3) g2] _ live_grows [OF z g2], of "buy_list_size dp + 1"] sz
    by (auto elim: makesE)
  have M: "M < length bl'" using bl'(3) sz by simp
  note g3 = grows_trans [OF g2 bl'(2)]
  obtain g c4 where g: "cda_g pr bl' M c3 = Some (Inr (g, c4))" "grows c3 c4" "live_vec (M + 2) g c4"
    using makes_cda_g [OF grows_ok [OF bl'(2)] bl'(4) M live_grows [OF pr(3) bl'(2)] live_grows [OF z g3]] by (rule makesE)
  note g4 = grows_trans [OF g3 g(2)]
  obtain t h c5 where h: "cda_h g M c4 = Some (Inr ((t, h), c5))" "grows c4 c5" "live_vec (M + 2) t c5" "live_vec (M + 2) h c5"
    using makes_cda_h [OF grows_ok [OF g(2)] g(3) live_grows [OF z g4]] by (auto elim!: makesE)
  note g5 = grows_trans [OF g4 h(2)]
  obtain u c6 where u: "cda_u t h M c5 = Some (Inr (u, c6))" "grows c5 c6" "live_vec (M + 2) u c6"
    using makes_cda_u [OF grows_ok [OF h(2)] h(3,4) live_grows [OF z g5]] by (rule makesE)
  note g6 = grows_trans [OF g5 u(2)]
  note g46 = grows_trans [OF h(2) u(2)]
  note g36 = grows_trans [OF g(2) g46]
  have b6: "\<forall>b\<in>set bl'. live_order c6 b" "live_vec (M + 2) g c6" "live_vec (M + 2) h c6" "live c6 pr"
    using all_live_order_grows [OF bl'(4) g36] live_vec_grows [OF g(3) g46] live_vec_grows [OF h(4) u(2)]
      live_grows [OF pr(3) grows_trans [OF bl'(2) g36]] by simp_all
  have "live_order c6 (new\<lparr>price := pr\<rparr>)" using live_order_grows [OF new g6] b6(4) by (simp add: live_order_def)
  then obtain upd c7 where "cda_update (new\<lparr>price := pr\<rparr>) bl' g h u M c6 = Some (Inr (upd, c7))" "grows c6 c7"
    using makes_cda_update [OF grows_ok [OF u(2)] b6(1) M b6(2,3) u(3)] by (blast elim: makesE)
  then show ?thesis
    using grows_trans [OF g6] e(1) pr(1) bl'(1) g(1) h(1) u(1)
    by (auto simp: cda_insert_def Let_def makes_def bindA_run [where m = "liftA f" for f] bindA_run [where m = "cda_extend x y v" for x y v]
        bindA_run [where m = "cda_g x y v" for x y v] bindA_run [where m = "cda_h x y" for x y] bindA_run [where m = "cda_u x y v" for x y v]
        bindA_run [where m = "cda_update a b d e f g" for a b d e f g] retA_def)
qed

text \<open>The values of the flags: \<open>x\<close> holds the name, the units and the price of the new order.\<close>

definition match_flag :: "'r::comm_ring_1 ringops \<Rightarrow> 'r \<times> 'r \<times> 'r \<Rightarrow> nat \<Rightarrow> 'r" where
  "match_flag R x i = of_bool (wanted R (\<lambda>i. fst (snd x) + of_nat (i + 1)) (fst (snd x)) i \<and>
     acceptable R (\<lambda>i. snd (snd x) + of_nat (i + 1)) (snd (snd x)) i)"

lemma bits_from_1_live:
  assumes "bits_from_1 R inp n P n z c"
  shows "\<forall>v\<in>set z. live c v"
proof
  fix v assume "v \<in> set z"
  then obtain i where "i < n" "v = z ! i" using assms by (auto simp: bits_from_1_def in_set_conv_nth)
  then show "live c v" using assms by (cases "i = 0") (auto simp: bits_from_1_def live_def has_def)
qed

lemma getCDACircuit_outputs:
  fixes R :: "'r::comm_ring_1 ringops" and dp :: DarkPool and inp :: "wire_t \<Rightarrow> 'r" and c :: "'r Circuit"
  defines "N \<equiv> length (s_list dp)" and "M \<equiv> length (b_list dp)"
  assumes ok: "circuit_ok c" and R: "\<not> is_BoolRing R" and N: "2 \<le> N" and M: "1 \<le> M" "M \<le> buy_list_size dp"
  defines "k \<equiv> length (circ_gates c)"
  defines "x \<equiv> (inp k, inp (k + 1), inp (k + 2))"
  shows "\<exists>dp' c' ws vs. getCDACircuit dp c = Some (Inr (dp', c')) \<and> circuit_ok c' \<and> circ_outputs c' = circ_outputs c @ ws @ vs \<and>
    map (wval R inp c') ws = map (match_flag R x) [1..<Suc N] \<and>
    map (wval R inp c') vs = concat (map (\<lambda>i. [fst x + of_nat (i + 1), fst (snd x) + of_nat (i + 1), snd (snd x) + of_nat (i + 1)]) [0..<N div 2])"
proof -
  let ?u = "\<lambda>i. fst (snd x) + of_nat (i + 1)" and ?p = "\<lambda>i. snd (snd x) + of_nat (i + 1)"
  obtain new where new: "inputOrder c = Some (Inr (new, after_inputs c))" "order_has R inp (after_inputs c) new x"
    using inputOrder_has [OF ok, of R inp] unfolding x_def k_def by blast
  note c0 = after_inputs_ok [OF ok]
  have pos: "0 < length (s_list dp)" "0 < length (b_list dp)" using N M unfolding N_def M_def by linarith+
  obtain sl c1 where sl: "cda_fill new (s_list dp) (after_inputs c) = Some (Inr (sl, c1))" "grows (after_inputs c) c1" "filled_list R inp x N N sl c1"
    using makes_cda_fill [OF c0(1) pos(1) new(2)] unfolding N_def by (rule makesE)
  note new1 = order_has_grows [OF new(2) sl(2)]
  obtain bl c2 where bl: "cda_fill new (b_list dp) c1 = Some (Inr (bl, c2))" "grows c1 c2" "filled_list R inp x M M bl c2"
    using makes_cda_fill [OF grows_ok [OF sl(2)] pos(2) new1] unfolding M_def by (rule makesE)
  note S = filled_list_orders [OF sl(3)] and B = filled_list_orders [OF bl(3)]
  have posS: "0 < length sl" using S(1) N by linarith
  obtain w c3 where w: "cda_sums sl c2 = Some (Inr (w, c3))" "grows c2 c3" "length w = Suc (length sl)"
      "\<forall>j<Suc (length sl). has R inp c3 (w ! j) (total_units ?u j)"
    using makes_cda_sums [OF grows_ok [OF bl(2)] posS list_has_grows [OF S(3) bl(2)]] by (auto elim!: makesE)
  note g13 = grows_trans [OF bl(2) w(2)]
  note new3 = order_has_grows [OF new1 g13]
  obtain z z' c4 where z: "cda_flags new sl w c3 = Some (Inr ((z, z'), c4))" "grows c3 c4"
      "bits_from_1 R inp (Suc N) (wanted R ?u (fst (snd x))) (Suc N) z c4" "bits_from_1 R inp (Suc N) (acceptable R ?p (snd (snd x))) (Suc N) z' c4"
    using makes_cda_flags [OF grows_ok [OF w(2)] R posS list_has_grows [OF S(3) g13] w(3,4), of new "fst x" "fst (snd x)" "snd (snd x)"] new3
    unfolding S(1) prod.collapse by (auto elim!: makesE)
  obtain c5 fs where f: "cda_matches N z z' c4 = Some (Inr ((), c5))" "circuit_ok c5" "outputs_added c4 fs c5"
      "list_all2 (has R inp c5) fs (map (match_flag R x) [1..<Suc N])"
    using marks_cda_matches [OF grows_ok [OF z(2)] z(3,4)] unfolding match_flag_def by (auto simp: marks_def)
  note g14 = grows_trans [OF g13 z(2)]
  have s5: "\<forall>i<N div 2. order_has R inp c5 (sl ! i) (fst x + of_nat (i + 1), ?u i, ?p i)"
    using S(4) order_has_grows [OF _ g14] has_outputs_added [OF _ f(3)] unfolding order_has_def by (meson div_le_dividend less_le_trans)
  have half: "N div 2 \<le> length sl" using S(1) by simp
  obtain c6 os where o6: "cda_sells sl (N div 2) c5 = Some (Inr ((), c6))" "circuit_ok c6" "outputs_added c5 os c6"
      "list_all2 (has R inp c6) os (concat (map (\<lambda>i. [fst x + of_nat (i + 1), ?u i, ?p i]) [0..<N div 2]))"
    using marks_cda_sells [OF f(2) s5 half] by (auto simp: marks_def)
  have e46: "outputs_added c4 (fs @ os) c6" using f(3) o6(3) by (rule outputs_added_trans)
  have l6: "\<forall>b\<in>set sl. live_order c6 b" "\<forall>b\<in>set bl. live_order c6 b" "live_order c6 new" "\<forall>v\<in>set w. live c6 v" "\<forall>v\<in>set z. live c6 v" "live c6 0"
  proof -
    have "\<forall>b\<in>set sl. live_order c4 b" "\<forall>b\<in>set bl. live_order c4 b"
      using all_live_order_grows [OF S(2) g14] all_live_order_grows [OF B(2) grows_trans [OF w(2) z(2)]] by simp_all
    moreover have "live_order c4 new" using order_has_live [OF order_has_grows [OF new3 z(2)]] .
    moreover have "\<forall>v\<in>set w. live c3 v" using w(3,4) by (auto simp: in_set_conv_nth live_def has_def)
    then have "\<forall>v\<in>set w. live c4 v" using z(2) by (rule all_live_grows)
    moreover have "\<forall>v\<in>set z. live c4 v" using z(3) by (rule bits_from_1_live)
    moreover have "live (after_inputs c) 0" using c0(3) by (simp add: live_def has_def)
    then have "live c4 0" using grows_trans [OF sl(2) g14] by (rule live_grows)
    ultimately show "\<forall>b\<in>set sl. live_order c6 b" "\<forall>b\<in>set bl. live_order c6 b" "live_order c6 new" "\<forall>v\<in>set w. live c6 v" "\<forall>v\<in>set z. live c6 v" "live c6 0"
      using live_outputs_added [OF _ e46] live_order_outputs_added [OF _ e46] by blast+
  qed
  have half2: "0 < N div 2" "N div 2 + 1 < Suc N" using N by linarith+
  have lens: "N div 2 \<le> length w" "N div 2 + 1 < length z" using half2 w(3) S(1) z(3) by (simp_all add: bits_from_1_def)
  obtain sd c7 where p7: "cda_partial new sl w z (N div 2) c6 = Some (Inr (sd, c7))" "grows c6 c7"
    using makes_cda_partial [OF o6(2) half2(1) half lens l6(1,4,5) live_orderD(2) [OF l6(3)]] by (auto elim: makesE)
  have posM: "0 < M" using M(1) by simp
  obtain dp' c8 where i8: "cda_insert dp new sl bl M c7 = Some (Inr (dp', c8))" "grows c7 c8"
    using makes_cda_insert [OF grows_ok [OF p7(2)] live_order_grows [OF l6(3) p7(2)] B(1) posM all_live_order_grows [OF l6(2) p7(2)] M(2)
        live_grows [OF l6(6) p7(2)], of sl] by (auto elim: makesE)
  have run: "getCDACircuit dp c = Some (Inr (dp', c8))"
    using new(1) sl(1) bl(1) w(1) z(1) f(1) o6(1) p7(1) i8(1) unfolding N_def M_def
    by (simp add: getCDACircuit_insert bindA_run [where m = inputOrder] bindA_run [where m = "cda_fill a b" for a b]
        bindA_run [where m = "cda_sums a" for a] bindA_run [where m = "cda_flags a b d" for a b d] bindA_run [where m = "cda_matches a b d" for a b d]
        bindA_run [where m = "cda_sells a b" for a b] bindA_run [where m = "cda_partial a b d e f" for a b d e f])
  have g68: "grows c6 c8" using p7(2) i8(2) by (rule grows_trans)
  have "list_all2 (has R inp c8) fs (map (match_flag R x) [1..<Suc N])"
    using list_all2_mono [OF f(4) has_outputs_added [OF _ o6(3)]] g68 by (rule hasl_grows)
  moreover have "circ_outputs c8 = circ_outputs c @ fs @ os"
    using c0(2) sl(2) g14 e46 g68 by (simp add: outputs_added_def grows_def)
  ultimately show ?thesis
    using run grows_ok [OF g68] all2_wval all2_wval [OF hasl_grows [OF o6(4) g68]] by blast
qed

end
