(* ===== verification/NeuralNet.thy ===== *)
theory NeuralNet
  imports AppBuild
begin

section \<open>Neural networks (utils/neural_network.h)\<close>

text \<open>
  \<open>NeuralNetwork\<close> builds the circuits of feed-forward networks: every layer is a method from an array
  of wires to an array of wires. The member \<open>circ_\<close> is the state of the monad of \<open>AppBuild\<close>.

  A \<open>boost::multi_array\<close> is its shape and its elements in row-major order, which is the order
  of \<open>origin()\<close>; indices out of range are \<open>None\<close>.
\<close>

record marray =
  shape :: "nat list"
  elems :: "wire_t list"

record NeuralNetwork =
  linear_weights :: "marray list"
  conv_weights :: "marray list"
  conv_bias :: "marray list"

definition NeuralNetwork_new :: NeuralNetwork where
  "NeuralNetwork_new = \<lparr>linear_weights = [], conv_weights = [], conv_bias = []\<rparr>"

definition num_elements :: "nat list \<Rightarrow> nat" where
  "num_elements sh = prod_list sh"

definition marray_new :: "nat list \<Rightarrow> marray" where
  "marray_new sh = \<lparr>shape = sh, elems = replicate (num_elements sh) 0\<rparr>"

fun offset :: "nat list \<Rightarrow> nat list \<Rightarrow> nat option" where
  "offset [] [] = Some 0"
| "offset (n # ns) (i # is) =
     (if i < n then map_option (\<lambda>k. i * num_elements ns + k) (offset ns is) else None)"
| "offset _ _ = None"

definition getM :: "marray \<Rightarrow> nat list \<Rightarrow> ('r, wire_t) appb" where
  "getM m ix = (case offset (shape m) ix of None \<Rightarrow> undefA | Some k \<Rightarrow> atA (elems m) k)"

definition putM :: "marray \<Rightarrow> nat list \<Rightarrow> wire_t \<Rightarrow> ('r, marray) appb" where
  "putM m ix w = (case offset (shape m) ix of None \<Rightarrow> undefA
     | Some k \<Rightarrow> bindA (putA (elems m) k w) (\<lambda>es. retA (m\<lparr>elems := es\<rparr>)))"

definition newInput :: "nat list \<Rightarrow> ('r, marray) appb" where
  "newInput sh =
     bindA (forA (\<lambda>_ ws. bindA inputA (\<lambda>w. retA (ws @ [w]))) [0..<num_elements sh] [])
       (\<lambda>ws. retA \<lparr>shape = sh, elems = ws\<rparr>)"

subsection \<open>The layers\<close>

text \<open>The first \<open>k\<close> entries of row \<open>b\<close> of a matrix, copied into a vector.\<close>

definition rowA :: "marray \<Rightarrow> nat \<Rightarrow> nat \<Rightarrow> ('r, wire_t list) appb" where
  "rowA m b k = forA (\<lambda>j v. bindA (getM m [b, j]) (\<lambda>w. retA (v @ [w]))) [0..<k] []"

definition linear_cell ::
  "marray \<Rightarrow> wire_t list \<Rightarrow> nat \<Rightarrow> nat \<Rightarrow> nat \<Rightarrow> marray \<Rightarrow> ('r, marray) appb" where
  "linear_cell weights vinp bias_idx b i out =
     bindA (rowA weights i bias_idx) (\<lambda>vwt.
     bindA (addGateVA kTrdotp vwt vinp) (\<lambda>wdotp.
     bindA (getM weights [i, bias_idx]) (\<lambda>bias.
     bindA (addGate2A kAdd wdotp bias) (\<lambda>w. putM out [b, i] w))))"

definition linear :: "NeuralNetwork \<Rightarrow> marray \<Rightarrow> nat \<Rightarrow> ('r, marray \<times> NeuralNetwork) appb" where
  "linear nn input out_dim =
     (let a = shape input ! 1 in
      bindA (newInput [out_dim, a + 1]) (\<lambda>weights.
      bindA (forA (\<lambda>b out. bindA (rowA input b a) (\<lambda>vinp.
            forA (linear_cell weights vinp a b) [0..<out_dim] out))
          [0..<shape input ! 0] (marray_new [shape input ! 0, out_dim])) (\<lambda>out.
      retA (out, nn\<lparr>linear_weights := linear_weights nn @ [weights]\<rparr>))))"

definition getLinearWeights :: "NeuralNetwork \<Rightarrow> nat \<Rightarrow> exn + marray" where
  "getLinearWeights nn idx =
     (if idx < length (linear_weights nn) then Inr (linear_weights nn ! idx) else Inl out_of_range)"

definition relu :: "marray \<Rightarrow> ('r, marray) appb" where
  "relu input =
     bindA (forA (\<lambda>i es. bindA (atA (elems input) i) (\<lambda>w. bindA (addGate1A kRelu w) (\<lambda>v. putA es i v)))
       [0..<num_elements (shape input)] (replicate (num_elements (shape input)) 0))
     (\<lambda>es. retA \<lparr>shape = shape input, elems = es\<rparr>)"

text \<open>
  The inputs of one output of a convolution. With padding the kernel is centred on the output position
  and the positions outside the input are left out.
\<close>

definition pad_start :: "bool \<Rightarrow> nat \<times> nat \<Rightarrow> nat \<times> nat" where
  "pad_start padding ksz = (if padding then ((fst ksz - 1) div 2, (snd ksz - 1) div 2) else (0, 0))"

definition conv_window ::
  "marray \<Rightarrow> marray \<Rightarrow> bool \<Rightarrow> nat \<Rightarrow> nat \<Rightarrow> nat \<Rightarrow> nat \<Rightarrow> ('r, wire_t list \<times> wire_t list) appb" where
  "conv_window input weights padding b d i j =
     (let kh = shape weights ! 1; kw = shape weights ! 2; st = pad_start padding (kh, kw);
          ed_h = fst st + shape input ! 1; ed_w = snd st + shape input ! 2 in
      forA (\<lambda>(kd, ki, kj) (vwt, vinp).
          if padding \<and> \<not> (fst st \<le> i + ki \<and> snd st \<le> j + kj \<and> i + ki < ed_h \<and> j + kj < ed_w)
          then retA (vwt, vinp)
          else bindA (getM weights [d, ki, kj, kd]) (\<lambda>w.
               bindA (getM input [b, i + ki - fst st, j + kj - snd st, kd]) (\<lambda>x.
               retA (vwt @ [w], vinp @ [x]))))
        [(kd, ki, kj). kd \<leftarrow> [0..<shape input ! 3], ki \<leftarrow> [0..<kh], kj \<leftarrow> [0..<kw]] ([], []))"

text \<open>
  The sizes of the output are computed in \<open>size_t\<close>. Without padding a kernel larger than the input
  by more than one makes them wrap around; no array of that size can be allocated.
\<close>

definition convolution ::
  "NeuralNetwork \<Rightarrow> marray \<Rightarrow> nat \<times> nat \<Rightarrow> nat \<Rightarrow> bool \<Rightarrow> ('r, marray \<times> NeuralNetwork) appb" where
  "convolution nn input ksz num_filters padding =
     (let (kh, kw) = ksz; N = shape input ! 0; H = shape input ! 1; W = shape input ! 2; C = shape input ! 3;
          out_h = (if padding then H else H + 1 - kh); out_w = (if padding then W else W + 1 - kw) in
      if \<not> padding \<and> (H + 1 < kh \<or> W + 1 < kw) then undefA else
      bindA (newInput [num_filters, kh, kw, C]) (\<lambda>weights.
      bindA (newInput [out_h, out_w, num_filters]) (\<lambda>bias.
      bindA (forA (\<lambda>(b, d, i, j) out.
            bindA (conv_window input weights padding b d i j) (\<lambda>(vwt, vinp).
            bindA (addGateVA kTrdotp vwt vinp) (\<lambda>wdotp.
            bindA (getM bias [i, j, d]) (\<lambda>w0.
            bindA (addGate2A kAdd wdotp w0) (\<lambda>w. putM out [b, i, j, d] w)))))
          [(b, d, i, j). b \<leftarrow> [0..<N], d \<leftarrow> [0..<num_filters], i \<leftarrow> [0..<out_h], j \<leftarrow> [0..<out_w]]
          (marray_new [N, out_h, out_w, num_filters])) (\<lambda>out.
      retA (out, nn\<lparr>conv_weights := conv_weights nn @ [weights], conv_bias := conv_bias nn @ [bias]\<rparr>)))))"

text \<open>
  The sum over a pooling window, and the multiplier \<open>2 ^ FRACTION / (ph * pw)\<close> cut to an integer. The
  code computes it in \<open>double\<close>, which gives the same integer for fewer than \<open>2 ^ 36\<close> cells.
\<close>

definition pool_sum :: "marray \<Rightarrow> nat \<times> nat \<Rightarrow> nat \<times> nat \<Rightarrow> nat \<Rightarrow> nat \<Rightarrow> nat \<Rightarrow> nat \<Rightarrow> ('r, wire_t) appb" where
  "pool_sum input pool strides b d i j =
     forA (\<lambda>(pi, pj) acc.
         bindA (getM input [b, i * fst strides + pi, j * snd strides + pj, d]) (\<lambda>w.
         if pi = 0 \<and> pj = 0 then retA w else addGate2A kAdd acc w))
       [(pi, pj). pi \<leftarrow> [0..<fst pool], pj \<leftarrow> [0..<snd pool]] 0"

definition pool_factor :: "nat \<times> nat \<Rightarrow> u64" where
  "pool_factor pool = word_of_nat (2 ^ FRACTION div (fst pool * snd pool))"

text \<open>An empty window, a stride of 0 or a window larger than the input has no defined output size or factor.\<close>

definition averagePool :: "(u64 \<Rightarrow> 'r) \<Rightarrow> marray \<Rightarrow> nat \<times> nat \<Rightarrow> nat \<times> nat \<Rightarrow> ('r, marray) appb" where
  "averagePool conv input pool strides =
     (let N = shape input ! 0; H = shape input ! 1; W = shape input ! 2; C = shape input ! 3 in
      if fst strides = 0 \<or> snd strides = 0 \<or> H < fst pool \<or> W < snd pool \<or> fst pool = 0 \<or> snd pool = 0 then undefA else
      let out_h = (H - fst pool) div fst strides + 1; out_w = (W - snd pool) div snd strides + 1 in
      forA (\<lambda>(b, d, i, j) out.
          bindA (pool_sum input pool strides b d i j) (\<lambda>acc.
          bindA (addConstA kConstMul acc (conv (pool_factor pool))) (\<lambda>w. putM out [b, i, j, d] w)))
        [(b, d, i, j). b \<leftarrow> [0..<N], d \<leftarrow> [0..<C], i \<leftarrow> [0..<out_h], j \<leftarrow> [0..<out_w]]
        (marray_new [N, out_h, out_w, C]))"

definition flatten :: "marray \<Rightarrow> marray" where
  "flatten input = \<lparr>shape = [shape input ! 0, num_elements (tl (shape input))], elems = elems input\<rparr>"

definition setOutput :: "marray \<Rightarrow> ('r, unit) appb" where
  "setOutput input = forA (\<lambda>i _. bindA (atA (elems input) i) outputA) [0..<num_elements (shape input)] ()"

subsection \<open>The networks\<close>

definition fcnMNIST :: "nat \<Rightarrow> ('r, NeuralNetwork) appb" where
  "fcnMNIST batch_size =
     bindA (newInput [batch_size, 28 * 28]) (\<lambda>input.
     bindA (linear NeuralNetwork_new input 128) (\<lambda>(layer1_lin, nn).
     bindA (relu layer1_lin) (\<lambda>layer1_out.
     bindA (linear nn layer1_out 128) (\<lambda>(layer2_lin, nn).
     bindA (relu layer2_lin) (\<lambda>layer2_out.
     bindA (linear nn layer2_out 10) (\<lambda>(output, nn).
     bindA (setOutput output) (\<lambda>_. retA nn)))))))"

definition lenetMNIST :: "(u64 \<Rightarrow> 'r) \<Rightarrow> nat \<Rightarrow> ('r, NeuralNetwork) appb" where
  "lenetMNIST conv batch_size =
     bindA (newInput [batch_size, 28, 28, 1]) (\<lambda>input.
     bindA (convolution NeuralNetwork_new input (5, 5) 20 False) (\<lambda>(layer1_conv, nn).
     bindA (relu layer1_conv) (\<lambda>layer1_relu.
     bindA (averagePool conv layer1_relu (2, 2) (2, 2)) (\<lambda>layer1_out.
     bindA (convolution nn layer1_out (5, 5) 50 False) (\<lambda>(layer2_conv, nn).
     bindA (relu layer2_conv) (\<lambda>layer2_relu.
     bindA (averagePool conv layer2_relu (2, 2) (2, 2)) (\<lambda>layer2_out.
     bindA (linear nn (flatten layer2_out) 500) (\<lambda>(layer3_lin, nn).
     bindA (relu layer3_lin) (\<lambda>layer3_out.
     bindA (linear nn layer3_out 10) (\<lambda>(output, nn).
     bindA (setOutput output) (\<lambda>_. retA nn)))))))))))"

subsection \<open>Arrays of values\<close>

definition arr_has ::
  "'r::comm_ring_1 ringops \<Rightarrow> (wire_t \<Rightarrow> 'r) \<Rightarrow> 'r Circuit \<Rightarrow> marray \<Rightarrow> nat list \<Rightarrow> (nat \<Rightarrow> 'r) \<Rightarrow> bool" where
  "arr_has R inp c m sh v \<longleftrightarrow> shape m = sh \<and> length (elems m) = num_elements sh \<and>
     (\<forall>k<num_elements sh. has R inp c (elems m ! k) (v k))"

lemma arr_has_grows: "arr_has R inp c m sh v \<Longrightarrow> grows c c' \<Longrightarrow> arr_has R inp c' m sh v"
  by (auto simp: arr_has_def intro: has_grows)

lemma num_elements_simps [simp]: "num_elements [] = 1" "num_elements (n # ns) = n * num_elements ns"
  by (simp_all add: num_elements_def)

lemma offset_less: "offset sh ix = Some k \<Longrightarrow> k < num_elements sh"
proof (induction sh ix arbitrary: k rule: offset.induct)
  case (2 n ns i "is")
  then obtain j where j: "i < n" "offset ns is = Some j" "k = i * num_elements ns + j"
    by (auto split: if_splits)
  then have "k < Suc i * num_elements ns" using "2.IH" by simp
  also have "\<dots> \<le> n * num_elements ns" using j(1) by (intro mult_le_mono1) simp
  finally show ?case by simp
qed simp_all

text \<open>Every position of the array has an index.\<close>

lemma offset_surj:
  "k < num_elements sh \<Longrightarrow> \<exists>ix. offset sh ix = Some k \<and> length ix = length sh \<and> (\<forall>j<length sh. ix ! j < sh ! j)"
proof (induction sh arbitrary: k)
  case (Cons n ns)
  let ?m = "num_elements ns"
  have m: "0 < ?m" "k div ?m < n" using Cons.prems by (auto simp: less_mult_imp_div_less mult.commute intro: gr0I)
  then obtain ix where ix: "offset ns ix = Some (k mod ?m)" "length ix = length ns" "\<forall>j<length ns. ix ! j < ns ! j"
    using Cons.IH [of "k mod ?m"] by auto
  then show ?case using m by (intro exI [of _ "k div ?m # ix"]) (auto simp: nth_Cons split: nat.splits)
qed (auto intro: exI [of _ "[]"])

lemma getM_at:
  assumes "shape m = sh" "length (elems m) = num_elements sh" "offset sh ix = Some k"
  shows "getM m ix = retA (elems m ! k)"
  using assms offset_less [OF assms(3)] by (simp add: getM_def)

lemma getM_has:
  assumes "arr_has R inp c m sh v" "offset sh ix = Some k"
  shows "getM m ix = retA (elems m ! k)" "has R inp c (elems m ! k) (v k)"
  using assms offset_less [OF assms(2)] by (auto simp: arr_has_def getM_at)

lemma putM_at:
  assumes "shape m = sh" "length (elems m) = num_elements sh" "offset sh ix = Some k"
  shows "putM m ix = (\<lambda>w. retA (m\<lparr>elems := (elems m)[k := w]\<rparr>))"
  using assms offset_less [OF assms(3)] by (simp add: putM_def fun_eq_iff)

text \<open>
  A layer fills its output cell by cell, in some order of the indices: cell \<open>x\<close> of the loop has index
  \<open>ix x\<close> and gets the value of its position.
\<close>

lemma makes_cells:
  assumes "circuit_ok c" and cover: "\<And>k. k < num_elements sh \<Longrightarrow> \<exists>x\<in>set xs. offset sh (ix x) = Some k"
    and cell: "\<And>x out c'. x \<in> set xs \<Longrightarrow> grows c c' \<Longrightarrow> shape out = sh \<Longrightarrow> length (elems out) = num_elements sh \<Longrightarrow>
      makes c' (f x out) (\<lambda>out' c''. \<exists>k w. offset sh (ix x) = Some k \<and> out' = out\<lparr>elems := (elems out)[k := w]\<rparr> \<and> has R inp c'' w (v k))"
  shows "makes c (forA f xs (marray_new sh)) (\<lambda>out c'. arr_has R inp c' out sh v)"
proof -
  let ?I = "\<lambda>dn out c'. shape out = sh \<and> length (elems out) = num_elements sh \<and>
    (\<forall>x\<in>set dn. \<forall>k. offset sh (ix x) = Some k \<longrightarrow> has R inp c' (elems out ! k) (v k))"
  have "makes c (forA f xs (marray_new sh)) (?I xs)"
  proof (rule makes_for [where I = ?I, OF assms(1)])
    show "?I [] (marray_new sh) c" by (simp add: marray_new_def)
    fix dn x rest c' and out :: marray assume xs: "xs = dn @ x # rest" and c': "grows c c'" and I: "?I dn out c'"
    show "makes c' (f x out) (?I (dn @ [x]))"
    proof (rule makes_weaken [OF cell])
      fix out' c'' assume c'': "grows c' c''"
        and "\<exists>k w. offset sh (ix x) = Some k \<and> out' = out\<lparr>elems := (elems out)[k := w]\<rparr> \<and> has R inp c'' w (v k)"
      then obtain k w where kw: "offset sh (ix x) = Some k" "out' = out\<lparr>elems := (elems out)[k := w]\<rparr>" "has R inp c'' w (v k)"
        by blast
      have "has R inp c'' (elems out' ! q) (v q)" if "y \<in> set (dn @ [x])" "offset sh (ix y) = Some q" for y q
      proof (cases "q = k")
        case True
        then show ?thesis using kw I offset_less [OF kw(1)] by simp
      next
        case False
        then have "y \<in> set dn" using that kw(1) by auto
        then have "has R inp c' (elems out ! q) (v q)" using I that(2) by blast
        then show ?thesis using False kw(2) has_grows [OF _ c''] by simp
      qed
      then show "?I (dn @ [x]) out' c''" using I kw(2) by simp
    qed (use xs c' I in simp_all)
  qed
  then show ?thesis by (rule makes_weaken) (use cover in \<open>fastforce simp: arr_has_def\<close>)
qed

text \<open>Inputs: consecutive wires that carry the values given to them.\<close>

definition is_input :: "'r Circuit \<Rightarrow> wire_t \<Rightarrow> bool" where
  "is_input c w \<longleftrightarrow> w < length (circ_gates c) \<and> circ_gates c ! w = Gate kInp w"

lemma is_input_grows: "is_input c w \<Longrightarrow> grows c c' \<Longrightarrow> is_input c' w"
  by (auto simp: is_input_def grows_def prefix_def nth_append)

lemma is_input_has: "circuit_ok c \<Longrightarrow> is_input c w \<Longrightarrow> has R inp c w (inp w)"
  using wire_vals_fix [of "circ_gates c" w R inp] by (simp add: is_input_def has_def wval_def circuit_ok_def)

lemma makes_newInput:
  fixes c :: "'r::comm_ring_1 Circuit"
  assumes "circuit_ok c"
  shows "makes c (newInput sh) (\<lambda>m c'. shape m = sh \<and> elems m = [length (circ_gates c)..<length (circ_gates c) + num_elements sh] \<and>
    (\<forall>w\<in>set (elems m). is_input c' w))"
proof -
  let ?n = "num_elements sh" and ?b = "length (circ_gates c)"
  let ?I = "\<lambda>k ws c'. ws = [?b..<?b + k] \<and> length (circ_gates c') = ?b + k \<and> (\<forall>w\<in>set ws. is_input c' w)"
  have "makes c (forA (\<lambda>_ ws. bindA inputA (\<lambda>w. retA (ws @ [w]))) [0..<?n] []) (?I ?n)"
  proof (rule makes_upto [where I = ?I, OF assms])
    fix i ws c' assume c': "grows c c'" and I: "?I i ws c'"
    show "makes c' (bindA inputA (\<lambda>w. retA (ws @ [w]))) (?I (Suc i))"
    proof (rule makes_bind [OF makes_input [OF grows_ok [OF c']]], elim conjE)
      fix w c'' assume c'': "grows c' c''" and w: "w = length (circ_gates c')" "circ_gates c'' = circ_gates c' @ [Gate kInp w]"
      have "is_input c'' w" using w by (simp add: is_input_def nth_append)
      moreover have "\<forall>u\<in>set ws. is_input c'' u" using I is_input_grows [OF _ c''] by blast
      ultimately have "?I (Suc i) (ws @ [w]) c''" using I w by simp
      then show "makes c'' (retA (ws @ [w])) (?I (Suc i))" by (intro makes_ret grows_ok [OF c''])
    qed
  qed simp
  then show ?thesis
    unfolding newInput_def by (rule makes_bind) (auto intro!: makes_ret dest: grows_ok)
qed

lemma inputs_arr_has:
  assumes "circuit_ok c" "shape m = sh" "length (elems m) = num_elements sh" "\<forall>w\<in>set (elems m). is_input c w"
  shows "arr_has R inp c m sh (\<lambda>k. inp (elems m ! k))"
  using assms is_input_has [OF assms(1)] by (simp add: arr_has_def)

subsection \<open>What the layers compute\<close>

text \<open>
  A layer on flat arrays: position \<open>k\<close> of the output of a dense layer is row \<open>k div n\<close>, unit \<open>k mod n\<close>;
  the weights of a unit are a row of \<open>a + 1\<close> entries, the last of which is the bias.
\<close>

definition dense :: "'r::comm_ring_1 ringops \<Rightarrow> nat \<Rightarrow> nat \<Rightarrow> (nat \<Rightarrow> 'r) \<Rightarrow> (nat \<Rightarrow> 'r) \<Rightarrow> nat \<Rightarrow> 'r" where
  "dense R a n w x k =
     truncate_val R (\<Sum>j\<leftarrow>[0..<a]. w (k mod n * (a + 1) + j) * x (k div n * a + j)) + w (k mod n * (a + 1) + a)"

definition relu_val :: "'r::comm_ring_1 ringops \<Rightarrow> (nat \<Rightarrow> 'r) \<Rightarrow> nat \<Rightarrow> 'r" where
  "relu_val R x k = (if msb R (x k) then 0 else x k)"

lemma rowA_eq:
  assumes "shape m = [n, a]" "length (elems m) = n * a" "b < n" "k \<le> a"
  shows "rowA m b k = retA (map (\<lambda>j. elems m ! (b * a + j)) [0..<k])"
proof -
  have "forA (\<lambda>j v. bindA (getM m [b, j]) (\<lambda>w. retA (v @ [w]))) [0..<k] [] =
      forA (\<lambda>j v. retA (v @ [elems m ! (b * a + j)])) [0..<k] []"
    by (rule forA_cong) (use assms in \<open>simp add: getM_at [where sh = "[n, a]"]\<close>)
  then show ?thesis by (simp add: rowA_def forA_collect)
qed

lemma makes_linear_cell:
  fixes R :: "'r::comm_ring_1 ringops"
  assumes ok: "circuit_ok c" and W: "arr_has R inp c W [n, a + 1] w" and x: "length vinp = a" "\<forall>j<a. has R inp c (vinp ! j) (x (b * a + j))"
    and i: "i < n" "b < N" and out: "shape out = [N, n]" "length (elems out) = N * n"
  shows "makes c (linear_cell W vinp a b i out)
    (\<lambda>out' c'. \<exists>k u. offset [N, n] [b, i] = Some k \<and> out' = out\<lparr>elems := (elems out)[k := u]\<rparr> \<and> has R inp c' u (dense R a n w x k))"
proof -
  have W': "shape W = [n, a + 1]" "length (elems W) = n * (a + 1)" using W by (simp_all add: arr_has_def)
  let ?vwt = "map (\<lambda>j. elems W ! (i * (a + 1) + j)) [0..<a]" and ?k = "b * n + i"
  let ?xs = "map (\<lambda>j. w (i * (a + 1) + j)) [0..<a]" and ?ys = "map (\<lambda>j. x (b * a + j)) [0..<a]"
  have pos: "i * (a + 1) + j < n * (a + 1)" if "j \<le> a" for j
  proof -
    have "i * (a + 1) + j < Suc i * (a + 1)" using that by simp
    also have "\<dots> \<le> n * (a + 1)" using i(1) by (intro mult_le_mono1) simp
    finally show ?thesis .
  qed
  have row: "rowA W i a = (retA ?vwt :: ('r, wire_t list) appb)" by (rule rowA_eq [OF W' i(1)]) simp
  have vwt: "list_all2 (has R inp c) ?vwt ?xs" using W pos by (auto simp: list_all2_conv_all_nth arr_has_def)
  have vinp: "list_all2 (has R inp c) vinp ?ys" using x by (simp add: list_all2_conv_all_nth)
  have off: "offset [N, n] [b, i] = Some ?k" "offset [n, a + 1] [i, a] = Some (i * (a + 1) + a)" using i by simp_all
  have km: "?k mod n = i" "?k div n = b" using i by simp_all
  note bias = getM_has [OF W off(2)]
  have dot: "(\<Sum>(p, q)\<leftarrow>zip ?xs ?ys. p * q) = (\<Sum>j\<leftarrow>[0..<a]. w (i * (a + 1) + j) * x (b * a + j))"
    by (simp add: zip_map_map zip_same_conv_map o_def)
  have "makes c (bindA (addGateVA kTrdotp ?vwt vinp) (\<lambda>wdotp. bindA (addGate2A kAdd wdotp (elems W ! (i * (a + 1) + a)))
      (\<lambda>u. retA (out\<lparr>elems := (elems out)[?k := u]\<rparr>))))
    (\<lambda>out' c'. \<exists>u. out' = out\<lparr>elems := (elems out)[?k := u]\<rparr> \<and> has R inp c' u (dense R a n w x ?k))"
  proof (rule makes_bind [OF makes_trdotp [OF ok vwt vinp]])
    fix wd c1 assume c1: "grows c c1" and wd: "has R inp c1 wd (truncate_val R (\<Sum>(p, q)\<leftarrow>zip ?xs ?ys. p * q))"
    show "makes c1 (bindA (addGate2A kAdd wd (elems W ! (i * (a + 1) + a))) (\<lambda>u. retA (out\<lparr>elems := (elems out)[?k := u]\<rparr>)))
      (\<lambda>out' c'. \<exists>u. out' = out\<lparr>elems := (elems out)[?k := u]\<rparr> \<and> has R inp c' u (dense R a n w x ?k))"
    proof (rule makes_bind [OF makes_add [OF grows_ok [OF c1] wd has_grows [OF bias(2) c1]]])
      fix u c2 assume c2: "grows c1 c2" and "has R inp c2 u (truncate_val R (\<Sum>(p, q)\<leftarrow>zip ?xs ?ys. p * q) + w (i * (a + 1) + a))"
      then have "has R inp c2 u (dense R a n w x ?k)" unfolding dense_def km dot by (simp only:)
      then show "makes c2 (retA (out\<lparr>elems := (elems out)[?k := u]\<rparr>))
        (\<lambda>out' c'. \<exists>u. out' = out\<lparr>elems := (elems out)[?k := u]\<rparr> \<and> has R inp c' u (dense R a n w x ?k))"
        by (intro makes_ret grows_ok [OF c2]) blast
    qed
  qed simp
  note main = this
  have put: "putM out [b, i] = (\<lambda>u. retA (out\<lparr>elems := (elems out)[?k := u]\<rparr>))"
    by (rule putM_at [OF out(1) _ off(1)]) (simp add: out(2))
  show ?thesis
    unfolding linear_cell_def row bindA_ret bias(1) put by (rule makes_weaken [OF main]) (use off(1) in blast)
qed

lemma makes_linear:
  fixes R :: "'r::comm_ring_1 ringops"
  assumes ok: "circuit_ok c" and x: "arr_has R inp c input [N, a] x"
  shows "makes c (linear nn input n) (\<lambda>(out, nn') c'. \<exists>W. nn' = nn\<lparr>linear_weights := linear_weights nn @ [W]\<rparr> \<and>
    shape W = [n, a + 1] \<and> length (elems W) = n * (a + 1) \<and> (\<forall>w\<in>set (elems W). is_input c' w) \<and>
    arr_has R inp c' out [N, n] (dense R a n (\<lambda>k. inp (elems W ! k)) x))"
proof -
  have inp: "shape input = [N, a]" "length (elems input) = N * a" using x by (simp_all add: arr_has_def)
  obtain W c1 where W: "newInput [n, a + 1] c = Some (Inr (W, c1))" "grows c c1" "shape W = [n, a + 1]"
      "length (elems W) = n * (a + 1)" "\<forall>w\<in>set (elems W). is_input c1 w"
    using makes_newInput [OF ok, of "[n, a + 1]"] by (auto elim!: makesE)
  have W1: "arr_has R inp c1 W [n, a + 1] (\<lambda>k. inp (elems W ! k))"
    by (rule inputs_arr_has [OF grows_ok [OF W(2)] W(3) _ W(5)]) (simp add: W(4))
  let ?vinp = "\<lambda>b. map (\<lambda>j. elems input ! (b * a + j)) [0..<a]"
  let ?xs = "[(b, i). b \<leftarrow> [0..<N], i \<leftarrow> [0..<n]]"
  have "forA (\<lambda>b out. bindA (rowA input b a) (\<lambda>vinp. forA (linear_cell W vinp a b) [0..<n] out)) [0..<N] (marray_new [N, n]) =
      forA (\<lambda>b out. forA (\<lambda>i. linear_cell W (?vinp b) a b i) [0..<n] out) [0..<N] (marray_new [N, n])"
    by (rule forA_cong) (simp add: rowA_eq [OF inp])
  also have "\<dots> = forA (\<lambda>(b, i) out. linear_cell W (?vinp b) a b i out) ?xs (marray_new [N, n])" by (rule forA_nested)
  finally have loop: "forA (\<lambda>b out. bindA (rowA input b a) (\<lambda>vinp. forA (linear_cell W vinp a b) [0..<n] out)) [0..<N] (marray_new [N, n]) =
      (forA (\<lambda>(b, i) out. linear_cell W (?vinp b) a b i out) ?xs (marray_new [N, n]) :: ('r, marray) appb)" .
  have "makes c1 (forA (\<lambda>(b, i) out. linear_cell W (?vinp b) a b i out) ?xs (marray_new [N, n]))
      (\<lambda>out c'. arr_has R inp c' out [N, n] (dense R a n (\<lambda>k. inp (elems W ! k)) x))"
  proof (rule makes_cells [where ix = "\<lambda>(b, i). [b, i]", OF grows_ok [OF W(2)]])
    fix k assume k: "k < num_elements [N, n]"
    then have "k div n < N" "k mod n < n" by (auto simp: less_mult_imp_div_less mult.commute intro!: mod_less_divisor gr0I)
    then have "(k div n, k mod n) \<in> set ?xs" "offset [N, n] [k div n, k mod n] = Some k"
      by (auto intro!: bexI [of _ "k div n"])
    then show "\<exists>x\<in>set ?xs. offset [N, n] (case x of (b, i) \<Rightarrow> [b, i]) = Some k" by force
  next
    fix p c' and out :: marray
    assume p: "p \<in> set ?xs" and c': "grows c1 c'" and out: "shape out = [N, n]" "length (elems out) = num_elements [N, n]"
    obtain b i where bi: "p = (b, i)" "b < N" "i < n" using p by auto
    have rowb: "b * a + j < N * a" if "j < a" for j
    proof -
      have "b * a + j < Suc b * a" using that by simp
      also have "\<dots> \<le> N * a" using bi(2) by (intro mult_le_mono1) simp
      finally show ?thesis .
    qed
    have "has R inp c' (elems input ! (b * a + j)) (x (b * a + j))" if "j < a" for j
      using x rowb [OF that] W(2) c' by (auto simp: arr_has_def intro: has_grows [OF _ grows_trans])
    then have v: "\<forall>j<a. has R inp c' (?vinp b ! j) (x (b * a + j))" by simp
    have "length (elems out) = N * n" using out(2) by simp
    from makes_linear_cell [OF grows_ok [OF c'] arr_has_grows [OF W1 c'] _ v bi(3,2) out(1) this]
    show "makes c' ((\<lambda>(b, i) out. linear_cell W (?vinp b) a b i out) p out)
      (\<lambda>out' c''. \<exists>k w. offset [N, n] (case p of (b, i) \<Rightarrow> [b, i]) = Some k \<and> out' = out\<lparr>elems := (elems out)[k := w]\<rparr> \<and>
         has R inp c'' w (dense R a n (\<lambda>k. inp (elems W ! k)) x k))" by (simp add: bi(1))
  qed
  then obtain out c2 where out: "forA (\<lambda>(b, i) out. linear_cell W (?vinp b) a b i out) ?xs (marray_new [N, n]) c1 = Some (Inr (out, c2))"
      "grows c1 c2" "arr_has R inp c2 out [N, n] (dense R a n (\<lambda>k. inp (elems W ! k)) x)" by (rule makesE)
  have "linear nn input n c = Some (Inr ((out, nn\<lparr>linear_weights := linear_weights nn @ [W]\<rparr>), c2))"
    using W(1) out(1) by (simp add: linear_def inp(1) Let_def bindA_run [where m = "newInput s" for s] loop
        bindA_run [where m = "forA f x (marray_new s)" for f x s] retA_def)
  then show ?thesis
    using grows_trans [OF W(2) out(2)] out(3) W(3,4,5) is_input_grows [OF _ out(2)] by (auto simp: makes_def)
qed

lemma makes_relu_layer:
  assumes ok: "circuit_ok c" and x: "arr_has R inp c input sh x"
  shows "makes c (relu input) (\<lambda>out c'. arr_has R inp c' out sh (relu_val R x))"
proof -
  have sh: "shape input = sh" "length (elems input) = num_elements sh" using x by (simp_all add: arr_has_def)
  have "makes c (forA (\<lambda>i es. bindA (atA (elems input) i) (\<lambda>w. bindA (addGate1A kRelu w) (\<lambda>v. putA es i v)))
       [0..<num_elements sh] (replicate (num_elements sh) 0))
     (\<lambda>es c'. length es = num_elements sh \<and> (\<forall>i<num_elements sh. has R inp c' (es ! i) (relu_val R x i)))"
  proof (rule makes_fill [OF ok])
    fix i c' and es :: "wire_t list" assume i: "i < num_elements sh" "length es = num_elements sh" and c': "grows c c'"
    have "has R inp c' (elems input ! i) (x i)" by (rule has_grows [OF _ c']) (use x i(1) in \<open>simp add: arr_has_def\<close>)
    then have "makes c' (bindA (addGate1A kRelu (elems input ! i)) (\<lambda>v. retA (es[i := v])))
        (\<lambda>ns' c''. \<exists>w. ns' = es[i := w] \<and> has R inp c'' w (relu_val R x i))"
      unfolding relu_val_def by (intro makes_bind [OF makes_relu [OF grows_ok [OF c']]] makes_ret) (auto dest: grows_ok)
    then show "makes c' (bindA (atA (elems input) i) (\<lambda>w. bindA (addGate1A kRelu w) (putA es i)))
        (\<lambda>ns' c''. \<exists>w. ns' = es[i := w] \<and> has R inp c'' w (relu_val R x i))"
      using i sh(2) by (simp add: putA_fun)
  qed
  then show ?thesis
    unfolding relu_def sh(1) by (rule makes_bind) (auto intro!: makes_ret simp: arr_has_def dest: grows_ok)
qed

lemma marks_setOutput:
  assumes ok: "circuit_ok c" and x: "arr_has R inp c m sh x"
  shows "marks c (setOutput m) (\<lambda>_ c'. outputs_added c (elems m) c')"
proof -
  have m: "shape m = sh" "length (elems m) = num_elements sh" using x by (simp_all add: arr_has_def)
  have "marks c (forA (\<lambda>i _. bindA (atA (elems m) i) outputA) [0..<num_elements sh] ())
      (\<lambda>_ c'. outputs_added c (take (num_elements sh) (elems m)) c')"
  proof (rule marks_upto [where I = "\<lambda>i _ c'. outputs_added c (take i (elems m)) c'", OF ok])
    show "outputs_added c (take 0 (elems m)) c" by (simp add: outputs_added_refl)
    fix i and u :: Product_Type.unit and c1 assume i: "i < num_elements sh" and ok1: "circuit_ok c1" and I: "outputs_added c (take i (elems m)) c1"
    have h: "has R inp c1 (elems m ! i) (x i)" by (rule has_outputs_added [OF _ I]) (use x i in \<open>simp add: arr_has_def\<close>)
    have "marks c1 (outputA (elems m ! i)) (\<lambda>_ c'. outputs_added c (take (Suc i) (elems m)) c')"
    proof (rule marks_weaken [OF marks_output [OF ok1 h]])
      fix u c2 assume "c2 = c1\<lparr>circ_outputs := circ_outputs c1 @ [elems m ! i]\<rparr>"
      then have "outputs_added c1 [elems m ! i] c2" by (simp add: outputs_added_def)
      then show "outputs_added c (take (Suc i) (elems m)) c2"
        using outputs_added_trans [OF I] i m(2) by (simp add: take_Suc_conv_app_nth)
    qed
    then show "marks c1 (bindA (atA (elems m) i) outputA) (\<lambda>_ c'. outputs_added c (take (Suc i) (elems m)) c')"
      using i m(2) by simp
  qed
  then show ?thesis using m by (simp add: setOutput_def)
qed

text \<open>The fully connected network as a function of its input and its three layers of weights.\<close>

definition fcn_val :: "'r::comm_ring_1 ringops \<Rightarrow> (nat \<Rightarrow> nat \<Rightarrow> 'r) \<Rightarrow> (nat \<Rightarrow> 'r) \<Rightarrow> nat \<Rightarrow> 'r" where
  "fcn_val R W x =
     dense R 128 10 (W 2) (relu_val R (dense R 128 128 (W 1) (relu_val R (dense R 784 128 (W 0) x))))"

definition weight :: "(wire_t \<Rightarrow> 'r) \<Rightarrow> NeuralNetwork \<Rightarrow> nat \<Rightarrow> nat \<Rightarrow> 'r" where
  "weight inp nn l k = inp (elems (linear_weights nn ! l) ! k)"

text \<open>
  C23: \<open>fcnMNIST\<close> builds the circuit of the fully connected network for a batch of \<open>B\<close> images. There is no
  exception and no access outside a vector; the weights have the shapes of the three layers, with a
  column for the bias; images and weights are input wires; and the outputs are the values of the
  network \<open>fcn_val\<close> on the values of these inputs.
\<close>

theorem fcnMNIST_computes:
  fixes R :: "'r::comm_ring_1 ringops"
  shows "\<exists>nn c. fcnMNIST B Circuit_new = Some (Inr (nn, c)) \<and> circuit_ok c \<and>
    map shape (linear_weights nn) = [[128, 785], [128, 129], [10, 129]] \<and>
    {0..<B * 784} \<union> \<Union> (set ` elems ` set (linear_weights nn)) \<subseteq> {w. is_input c w} \<and>
    map (wval R inp c) (circ_outputs c) = map (fcn_val R (weight inp nn) inp) [0..<B * 10]"
proof -
  have gates0: "length (circ_gates Circuit_new) = 0" by (simp add: Circuit_new_def)
  obtain x c1 where x: "newInput [B, 784] Circuit_new = Some (Inr (x, c1))" "grows (Circuit_new :: 'r Circuit) c1" "shape x = [B, 784]"
      "elems x = [0..<B * 784]" "\<forall>w\<in>set (elems x). is_input c1 w"
    using makes_newInput [OF circuit_ok_new, of "[B, 784]"] by (auto simp: gates0 elim!: makesE)
  have X: "arr_has R inp c1 x [B, 784] inp"
    using inputs_arr_has [OF grows_ok [OF x(2)] x(3) _ x(5), of R inp] x(4) by (simp add: arr_has_def)
  obtain l1 W1 c2 where l1: "linear NeuralNetwork_new x 128 c1 = Some (Inr ((l1, NeuralNetwork_new\<lparr>linear_weights := [W1]\<rparr>), c2))" "grows c1 c2"
      "shape W1 = [128, 785]" "\<forall>w\<in>set (elems W1). is_input c2 w" "arr_has R inp c2 l1 [B, 128] (dense R 784 128 (\<lambda>k. inp (elems W1 ! k)) inp)"
    using makes_linear [OF grows_ok [OF x(2)] X, of NeuralNetwork_new 128] by (auto simp: NeuralNetwork_new_def elim!: makesE)
  obtain r1 c3 where r1: "relu l1 c2 = Some (Inr (r1, c3))" "grows c2 c3"
      "arr_has R inp c3 r1 [B, 128] (relu_val R (dense R 784 128 (\<lambda>k. inp (elems W1 ! k)) inp))"
    using makes_relu_layer [OF grows_ok [OF l1(2)] l1(5)] by (rule makesE)
  obtain l2 W2 c4 where l2: "linear (NeuralNetwork_new\<lparr>linear_weights := [W1]\<rparr>) r1 128 c3 =
        Some (Inr ((l2, NeuralNetwork_new\<lparr>linear_weights := [W1, W2]\<rparr>), c4))" "grows c3 c4"
      "shape W2 = [128, 129]" "\<forall>w\<in>set (elems W2). is_input c4 w"
      "arr_has R inp c4 l2 [B, 128] (dense R 128 128 (\<lambda>k. inp (elems W2 ! k)) (relu_val R (dense R 784 128 (\<lambda>k. inp (elems W1 ! k)) inp)))"
    using makes_linear [OF grows_ok [OF r1(2)] r1(3), of "NeuralNetwork_new\<lparr>linear_weights := [W1]\<rparr>" 128] by (auto elim!: makesE)
  obtain r2 c5 where r2: "relu l2 c4 = Some (Inr (r2, c5))" "grows c4 c5"
      "arr_has R inp c5 r2 [B, 128] (relu_val R (dense R 128 128 (\<lambda>k. inp (elems W2 ! k)) (relu_val R (dense R 784 128 (\<lambda>k. inp (elems W1 ! k)) inp))))"
    using makes_relu_layer [OF grows_ok [OF l2(2)] l2(5)] by (rule makesE)
  let ?nn = "NeuralNetwork_new\<lparr>linear_weights := [W1, W2]\<rparr>"
  obtain l3 W3 c6 where l3: "linear ?nn r2 10 c5 = Some (Inr ((l3, ?nn\<lparr>linear_weights := [W1, W2, W3]\<rparr>), c6))" "grows c5 c6"
      "shape W3 = [10, 129]" "\<forall>w\<in>set (elems W3). is_input c6 w"
      "arr_has R inp c6 l3 [B, 10] (dense R 128 10 (\<lambda>k. inp (elems W3 ! k)) (relu_val R (dense R 128 128 (\<lambda>k. inp (elems W2 ! k))
         (relu_val R (dense R 784 128 (\<lambda>k. inp (elems W1 ! k)) inp)))))"
    using makes_linear [OF grows_ok [OF r2(2)] r2(3), of ?nn 10] by (auto elim!: makesE)
  let ?N = "?nn\<lparr>linear_weights := [W1, W2, W3]\<rparr>"
  obtain c7 where o7: "setOutput l3 c6 = Some (Inr ((), c7))" "circuit_ok c7" "outputs_added c6 (elems l3) c7"
    using marks_setOutput [OF grows_ok [OF l3(2)] l3(5)] by (auto simp: marks_def)
  have run: "fcnMNIST B Circuit_new = Some (Inr (?N, c7))"
    using x(1) l1(1) r1(1) l2(1) r2(1) l3(1) o7(1) by (simp add: fcnMNIST_def bindA_run retA_def del: fun_upd_apply)
  note g5 = grows_trans [OF r2(2) l3(2)]
  note g4 = grows_trans [OF l2(2) g5] note g3 = grows_trans [OF r1(2) g4] note g2 = grows_trans [OF l1(2) g3]
  have W: "weight inp ?N 0 = (\<lambda>k. inp (elems W1 ! k))" "weight inp ?N 1 = (\<lambda>k. inp (elems W2 ! k))" "weight inp ?N 2 = (\<lambda>k. inp (elems W3 ! k))"
    by (simp_all add: weight_def fun_eq_iff)
  have "list_all2 (has R inp c6) (elems l3) (map (fcn_val R (weight inp ?N) inp) [0..<B * 10])"
    using l3(5) unfolding arr_has_def fcn_val_def W by (simp add: list_all2_conv_all_nth)
  then have "list_all2 (has R inp c7) (elems l3) (map (fcn_val R (weight inp ?N) inp) [0..<B * 10])"
    by (rule list_all2_mono) (rule has_outputs_added [OF _ o7(3)])
  then have vals: "map (wval R inp c7) (elems l3) = map (fcn_val R (weight inp ?N) inp) [0..<B * 10]"
    by (simp add: list_all2_conv_all_nth has_def list_eq_iff_nth_eq)
  have outs: "circ_outputs c7 = elems l3"
    using o7(3) x(2) g2 by (simp add: outputs_added_def grows_def Circuit_new_def)
  have in7: "is_input c6 w \<Longrightarrow> is_input c7 w" for w
    using o7(3) by (auto simp: is_input_def outputs_added_def prefix_def nth_append)
  have "\<forall>w\<in>{0..<B * 784} \<union> \<Union> (set ` elems ` set (linear_weights ?N)). is_input c7 w"
    using x(4,5) l1(4) l2(4) l3(4) is_input_grows [OF _ g2] is_input_grows [OF _ g3] is_input_grows [OF _ g5] in7 by auto
  then have "{0..<B * 784} \<union> \<Union> (set ` elems ` set (linear_weights ?N)) \<subseteq> {w. is_input c7 w}" by blast
  then show ?thesis using run o7(2) l1(3) l2(3) l3(3) vals outs by auto
qed

end
