(* ===== verification/NeuralNet_Conv.thy ===== *)
theory NeuralNet_Conv
  imports NeuralNet
begin

section \<open>Convolutional networks\<close>

text \<open>
  What \<open>convolution\<close> and \<open>averagePool\<close> compute, and the convolutional network \<open>lenetMNIST\<close>. Values of an
  array are given by a function of the index list; \<open>unflat\<close> is the index of a position.
\<close>

fun flat :: "nat list \<Rightarrow> nat list \<Rightarrow> nat" where
  "flat (n # ns) (i # is) = i * num_elements ns + flat ns is"
| "flat _ _ = 0"

fun unflat :: "nat list \<Rightarrow> nat \<Rightarrow> nat list" where
  "unflat [] k = []"
| "unflat (n # ns) k = k div num_elements ns # unflat ns (k mod num_elements ns)"

lemma offset_flat: "offset sh ix = Some k \<Longrightarrow> flat sh ix = k"
  by (induction sh ix arbitrary: k rule: offset.induct) (auto split: if_splits)

lemma unflat_offset: "offset sh ix = Some k \<Longrightarrow> unflat sh k = ix"
proof (induction sh ix arbitrary: k rule: offset.induct)
  case (2 n ns i "is")
  then obtain j where j: "i < n" "offset ns is = Some j" "k = i * num_elements ns + j" by (auto split: if_splits)
  then show ?case using "2.IH" offset_less [OF j(2)] by simp
qed simp_all

lemma offset_unflat: "k < num_elements sh \<Longrightarrow> offset sh (unflat sh k) = Some k"
  using offset_surj [of k sh] unflat_offset by metis

text \<open>An array with the values \<open>X\<close> by index.\<close>

abbreviation arr_at :: "'r::comm_ring_1 ringops \<Rightarrow> (wire_t \<Rightarrow> 'r) \<Rightarrow> 'r Circuit \<Rightarrow> marray \<Rightarrow> nat list \<Rightarrow> (nat list \<Rightarrow> 'r) \<Rightarrow> bool" where
  "arr_at R inp c m sh X \<equiv> arr_has R inp c m sh (\<lambda>k. X (unflat sh k))"

lemma getM_arr_at:
  assumes "arr_at R inp c m sh X" "offset sh ix = Some k"
  shows "getM m ix = retA (elems m ! k)" "has R inp c (elems m ! k) (X ix)"
  using getM_has [OF assms] unflat_offset [OF assms(2)] by simp_all

lemma arr_has_at: "arr_has R inp c m sh v \<Longrightarrow> arr_at R inp c m sh (\<lambda>ix. v (flat sh ix))"
  using offset_flat [OF offset_unflat] by (simp add: arr_has_def)

subsection \<open>Convolution\<close>

text \<open>
  The convolution of the zero-padded input: a cell is the sum over the whole kernel, where positions
  outside the input count as 0. The code leaves those positions out of the dot product.
\<close>

definition padded_at :: "nat \<times> nat \<Rightarrow> nat list \<Rightarrow> (nat list \<Rightarrow> 'r::comm_ring_1) \<Rightarrow> nat \<Rightarrow> nat \<Rightarrow> nat \<Rightarrow> nat \<Rightarrow> 'r" where
  "padded_at st sh x b r s kd =
     (if fst st \<le> r \<and> snd st \<le> s \<and> r < fst st + sh ! 1 \<and> s < snd st + sh ! 2
      then x [b, r - fst st, s - snd st, kd] else 0)"

definition kernel_cells :: "nat \<Rightarrow> nat \<Rightarrow> nat \<Rightarrow> (nat \<times> nat \<times> nat) list" where
  "kernel_cells C kh kw = [(kd, ki, kj). kd \<leftarrow> [0..<C], ki \<leftarrow> [0..<kh], kj \<leftarrow> [0..<kw]]"

definition conv_val ::
  "'r::comm_ring_1 ringops \<Rightarrow> nat list \<Rightarrow> nat \<times> nat \<Rightarrow> bool \<Rightarrow> (nat list \<Rightarrow> 'r) \<Rightarrow> (nat list \<Rightarrow> 'r) \<Rightarrow> (nat list \<Rightarrow> 'r) \<Rightarrow> nat list \<Rightarrow> 'r" where
  "conv_val R sh ksz padding w bias x ix =
     (let b = ix ! 0; i = ix ! 1; j = ix ! 2; d = ix ! 3 in
      truncate_val R (\<Sum>(kd, ki, kj)\<leftarrow>kernel_cells (sh ! 3) (fst ksz) (snd ksz).
        w [d, ki, kj, kd] * padded_at (pad_start padding ksz) sh x b (i + ki) (j + kj) kd) + bias [i, j, d])"

lemma forA_collect2:
  "forA (\<lambda>t (v, x). if P t then retA (v, x) else retA (v @ [f t], x @ [g t])) ts (v, x) =
   retA (v @ map f (filter (\<lambda>t. \<not> P t) ts), x @ map g (filter (\<lambda>t. \<not> P t) ts))"
  by (induction ts arbitrary: v x) simp_all

lemma sum_filter_zero: "(\<Sum>t\<leftarrow>filter P ts. f t) = (\<Sum>t\<leftarrow>ts. if P t then f t else (0 :: 'r::comm_monoid_add))"
  by (induction ts) simp_all

lemma makes_conv_window:
  fixes R :: "'r::comm_ring_1 ringops"
  assumes x: "arr_at R inp c input [N, H, W, C] x" and w: "arr_at R inp c weights [nf, kh, kw, C] w"
    and b: "b < N" and d: "d < nf" and fit: "\<not> padding \<longrightarrow> i + kh \<le> H \<and> j + kw \<le> W"
  shows "\<exists>vwt vinp ps. (conv_window input weights padding b d i j :: ('r, wire_t list \<times> wire_t list) appb) = retA (vwt, vinp) \<and>
    list_all2 (has R inp c) vwt (map (\<lambda>(kd, ki, kj). w [d, ki, kj, kd]) ps) \<and>
    list_all2 (has R inp c) vinp (map (\<lambda>(kd, ki, kj). padded_at (pad_start padding (kh, kw)) [N, H, W, C] x b (i + ki) (j + kj) kd) ps) \<and>
    (\<Sum>(kd, ki, kj)\<leftarrow>ps. w [d, ki, kj, kd] * padded_at (pad_start padding (kh, kw)) [N, H, W, C] x b (i + ki) (j + kj) kd) =
    (\<Sum>(kd, ki, kj)\<leftarrow>kernel_cells C kh kw. w [d, ki, kj, kd] * padded_at (pad_start padding (kh, kw)) [N, H, W, C] x b (i + ki) (j + kj) kd)"
proof -
  have sh: "shape input = [N, H, W, C]" "shape weights = [nf, kh, kw, C]" using x w by (simp_all add: arr_has_def)
  let ?sh = "fst (pad_start padding (kh, kw))" and ?sw = "snd (pad_start padding (kh, kw))"
  let ?in = "\<lambda>(kd, ki, kj). ?sh \<le> i + ki \<and> ?sw \<le> j + kj \<and> i + ki < ?sh + H \<and> j + kj < ?sw + W"
  let ?ts = "kernel_cells C kh kw" and ?pad = "\<lambda>(kd, ki, kj). padded_at (pad_start padding (kh, kw)) [N, H, W, C] x b (i + ki) (j + kj) kd"
  let ?f = "\<lambda>(kd, ki, kj). elems weights ! flat [nf, kh, kw, C] [d, ki, kj, kd]"
  let ?g = "\<lambda>(kd, ki, kj). elems input ! flat [N, H, W, C] [b, i + ki - ?sh, j + kj - ?sw, kd]"
  have ts: "t \<in> set ?ts \<longleftrightarrow> (case t of (kd, ki, kj) \<Rightarrow> kd < C \<and> ki < kh \<and> kj < kw)" for t
    by (cases t) (auto simp: kernel_cells_def image_iff)
  have nopad: "?in t" if "t \<in> set ?ts" "\<not> padding" for t
    using that fit by (auto simp: ts pad_start_def)
  have W: "getM weights [d, ki, kj, kd] = (retA (?f (kd, ki, kj)) :: ('r, wire_t) appb)" "has R inp c (?f (kd, ki, kj)) (w [d, ki, kj, kd])"
    if "(kd, ki, kj) \<in> set ?ts" for kd ki kj
  proof -
    have "offset [nf, kh, kw, C] [d, ki, kj, kd] = Some (flat [nf, kh, kw, C] [d, ki, kj, kd])" using that d by (simp add: ts)
    from getM_arr_at [OF w this]
    show "getM weights [d, ki, kj, kd] = (retA (?f (kd, ki, kj)) :: ('r, wire_t) appb)" "has R inp c (?f (kd, ki, kj)) (w [d, ki, kj, kd])"
      by simp_all
  qed
  have X: "getM input [b, i + ki - ?sh, j + kj - ?sw, kd] = (retA (?g (kd, ki, kj)) :: ('r, wire_t) appb)"
    "has R inp c (?g (kd, ki, kj)) (?pad (kd, ki, kj))" if "(kd, ki, kj) \<in> set ?ts" "?in (kd, ki, kj)" for kd ki kj
  proof -
    have "offset [N, H, W, C] [b, i + ki - ?sh, j + kj - ?sw, kd] = Some (flat [N, H, W, C] [b, i + ki - ?sh, j + kj - ?sw, kd])"
      using that b by (auto simp: ts)
    from getM_arr_at [OF x this] that(2)
    show "getM input [b, i + ki - ?sh, j + kj - ?sw, kd] = (retA (?g (kd, ki, kj)) :: ('r, wire_t) appb)"
      "has R inp c (?g (kd, ki, kj)) (?pad (kd, ki, kj))" by (simp_all add: padded_at_def)
  qed
  have nths: "[nf, kh, kw, C] ! 1 = kh" "[nf, kh, kw, C] ! 2 = kw" "[N, H, W, C] ! 1 = H" "[N, H, W, C] ! 2 = W" "[N, H, W, C] ! 3 = C"
    by simp_all
  have "(conv_window input weights padding b d i j :: ('r, wire_t list \<times> wire_t list) appb) =
      forA (\<lambda>t (v, x). if \<not> ?in t then retA (v, x) else retA (v @ [?f t], x @ [?g t])) ?ts ([], [])"
    unfolding conv_window_def Let_def sh nths kernel_cells_def [symmetric]
  proof (rule forA_cong, goal_cases)
    case (1 t s)
    then have t: "t \<in> set ?ts" by simp
    show ?case
    proof -
      obtain kd ki kj where k: "t = (kd, ki, kj)" by (cases t)
      obtain v u where s: "s = (v, u)" by fastforce
      show ?thesis
      proof (cases "?in (kd, ki, kj)")
        case True
        then show ?thesis unfolding k s using W(1) X(1) t k by simp
      next
        case False
        then have padding using nopad t k by blast
        then show ?thesis unfolding k s using False by simp
      qed
    qed
  qed
  also have "\<dots> = retA (map ?f (filter ?in ?ts), map ?g (filter ?in ?ts))" by (simp add: forA_collect2)
  finally have run: "(conv_window input weights padding b d i j :: ('r, wire_t list \<times> wire_t list) appb) = retA (map ?f (filter ?in ?ts), map ?g (filter ?in ?ts))" .
  have 1: "list_all2 (has R inp c) (map ?f (filter ?in ?ts)) (map (\<lambda>(kd, ki, kj). w [d, ki, kj, kd]) (filter ?in ?ts))"
    using W(2) by (auto simp: list_all2_map1 list_all2_map2 list_all2_same)
  have 2: "list_all2 (has R inp c) (map ?g (filter ?in ?ts)) (map ?pad (filter ?in ?ts))"
    using X(2) by (auto simp: list_all2_map1 list_all2_map2 list_all2_same)
  have 3: "(\<Sum>(kd, ki, kj)\<leftarrow>filter ?in ?ts. w [d, ki, kj, kd] * ?pad (kd, ki, kj)) = (\<Sum>(kd, ki, kj)\<leftarrow>?ts. w [d, ki, kj, kd] * ?pad (kd, ki, kj))"
    unfolding sum_filter_zero by (rule arg_cong [where f = sum_list], rule map_cong) (auto simp: padded_at_def split: if_splits)
  show ?thesis
    by (intro exI [of _ "map ?f (filter ?in ?ts)"] exI [of _ "map ?g (filter ?in ?ts)"] exI [of _ "filter ?in ?ts"]
        conjI run 1 2 3 [unfolded prod.case])
qed

text \<open>The cells of an output array in the order of the loops, and that they cover it.\<close>

definition cells4 :: "nat \<Rightarrow> nat \<Rightarrow> nat \<Rightarrow> nat \<Rightarrow> (nat \<times> nat \<times> nat \<times> nat) list" where
  "cells4 N D H W = [(b, d, i, j). b \<leftarrow> [0..<N], d \<leftarrow> [0..<D], i \<leftarrow> [0..<H], j \<leftarrow> [0..<W]]"

definition index4 :: "nat \<times> nat \<times> nat \<times> nat \<Rightarrow> nat list" where
  "index4 = (\<lambda>(b, d, i, j). [b, i, j, d])"

lemma cells4: "(b, d, i, j) \<in> set (cells4 N D H W) \<longleftrightarrow> b < N \<and> d < D \<and> i < H \<and> j < W"
  by (auto simp: cells4_def image_iff)

lemma offset4: "b < N \<Longrightarrow> d < D \<Longrightarrow> i < H \<Longrightarrow> j < W \<Longrightarrow> offset [N, H, W, D] [b, i, j, d] = Some (flat [N, H, W, D] [b, i, j, d])"
  by simp

lemma cells4_cover:
  assumes "k < num_elements [N, H, W, D]"
  shows "\<exists>p\<in>set (cells4 N D H W). offset [N, H, W, D] (index4 p) = Some k"
proof -
  obtain ix where ix: "offset [N, H, W, D] ix = Some k" "length ix = length [N, H, W, D]" "\<forall>j<length [N, H, W, D]. ix ! j < [N, H, W, D] ! j"
    using offset_surj [OF assms] by blast
  then obtain b i j d where e: "ix = [b, i, j, d]" by (auto simp: length_Suc_conv eval_nat_numeral)
  have "b < N \<and> i < H \<and> j < W \<and> d < D"
    using ix(3) [rule_format, of 0] ix(3) [rule_format, of 1] ix(3) [rule_format, of 2] ix(3) [rule_format, of 3] by (simp add: e)
  then show ?thesis using ix(1) e by (intro bexI [of _ "(b, d, i, j)"]) (auto simp: cells4 index4_def)
qed

text \<open>
  A layer whose cell \<open>(b, i, j, d)\<close> is computed by \<open>f\<close> to a wire with the value \<open>X [b, i, j, d]\<close>.
\<close>

lemma makes_cells4:
  fixes R :: "'r::comm_ring_1 ringops"
  assumes ok: "circuit_ok c"
    and f: "\<And>b d i j c'. b < N \<Longrightarrow> d < D \<Longrightarrow> i < H \<Longrightarrow> j < W \<Longrightarrow> grows c c' \<Longrightarrow> makes c' (f b d i j) (\<lambda>w c''. has R inp c'' w (X [b, i, j, d]))"
  shows "makes c (forA (\<lambda>(b, d, i, j) out. bindA (f b d i j) (\<lambda>w. putM out [b, i, j, d] w)) (cells4 N D H W) (marray_new [N, H, W, D]))
    (\<lambda>out c'. arr_at R inp c' out [N, H, W, D] X)"
proof (rule makes_cells [where ix = index4, OF ok cells4_cover])
  fix p c' and out :: marray
  assume p: "p \<in> set (cells4 N D H W)" and c': "grows c c'" and out: "shape out = [N, H, W, D]" "length (elems out) = num_elements [N, H, W, D]"
  obtain b d i j where bi: "p = (b, d, i, j)" by (cases p)
  then have lt: "b < N" "d < D" "i < H" "j < W" using p cells4 [of b d i j N D H W] by simp_all
  let ?k = "flat [N, H, W, D] [b, i, j, d]"
  note off = offset4 [OF lt]
  have X: "X (unflat [N, H, W, D] ?k) = X [b, i, j, d]" using unflat_offset [OF off] by simp
  have "makes c' (bindA (f b d i j) (\<lambda>w. retA (out\<lparr>elems := (elems out)[?k := w]\<rparr>)))
      (\<lambda>out' c''. \<exists>k w. offset [N, H, W, D] (index4 p) = Some k \<and> out' = out\<lparr>elems := (elems out)[k := w]\<rparr> \<and> has R inp c'' w (X (unflat [N, H, W, D] k)))"
  proof (rule makes_bind [OF f [OF lt c']])
    fix w c'' assume c'': "grows c' c''" and w: "has R inp c'' w (X [b, i, j, d])"
    show "makes c'' (retA (out\<lparr>elems := (elems out)[?k := w]\<rparr>))
      (\<lambda>out' c''. \<exists>k w. offset [N, H, W, D] (index4 p) = Some k \<and> out' = out\<lparr>elems := (elems out)[k := w]\<rparr> \<and> has R inp c'' w (X (unflat [N, H, W, D] k)))"
      unfolding bi index4_def prod.case
      by (rule makes_ret [OF grows_ok [OF c'']]) (intro exI [of _ ?k] exI [of _ w] conjI refl, use off w X in simp_all)
  qed
  then show "makes c' ((\<lambda>(b, d, i, j) out. bindA (f b d i j) (\<lambda>w. putM out [b, i, j, d] w)) p out)
      (\<lambda>out' c''. \<exists>k w. offset [N, H, W, D] (index4 p) = Some k \<and> out' = out\<lparr>elems := (elems out)[k := w]\<rparr> \<and> has R inp c'' w (X (unflat [N, H, W, D] k)))"
    unfolding bi prod.case putM_at [OF out off] .
qed

definition out_dims :: "nat list \<Rightarrow> nat \<times> nat \<Rightarrow> bool \<Rightarrow> nat \<times> nat" where
  "out_dims sh ksz padding = (if padding then (sh ! 1, sh ! 2) else (sh ! 1 + 1 - fst ksz, sh ! 2 + 1 - snd ksz))"

lemma makes_convolution:
  fixes R :: "'r::comm_ring_1 ringops" and input :: marray
  assumes ok: "circuit_ok c" and x: "arr_at R inp c input [N, H, W, C] x"
    and fit: "padding \<or> kh \<le> H \<and> kw \<le> W"
  defines "oh \<equiv> fst (out_dims [N, H, W, C] (kh, kw) padding)" and "ow \<equiv> snd (out_dims [N, H, W, C] (kh, kw) padding)"
  shows "makes c (convolution nn input (kh, kw) nf padding) (\<lambda>(out, nn') c'. \<exists>wt bs.
    nn' = nn\<lparr>conv_weights := conv_weights nn @ [wt], conv_bias := conv_bias nn @ [bs]\<rparr> \<and>
    shape wt = [nf, kh, kw, C] \<and> shape bs = [oh, ow, nf] \<and> (\<forall>w\<in>set (elems wt) \<union> set (elems bs). is_input c' w) \<and>
    arr_at R inp c' out [N, oh, ow, nf] (conv_val R [N, H, W, C] (kh, kw) padding
      (\<lambda>ix. inp (elems wt ! flat [nf, kh, kw, C] ix)) (\<lambda>ix. inp (elems bs ! flat [oh, ow, nf] ix)) x))"
proof -
  have sh: "shape input = [N, H, W, C]" using x by (simp add: arr_has_def)
  obtain wt c1 where wt: "newInput [nf, kh, kw, C] c = Some (Inr (wt, c1))" "grows c c1" "shape wt = [nf, kh, kw, C]"
      "length (elems wt) = num_elements [nf, kh, kw, C]" "\<forall>w\<in>set (elems wt). is_input c1 w"
    using makes_newInput [OF ok, of "[nf, kh, kw, C]"] by (auto elim!: makesE)
  obtain bs c2 where bs: "newInput [oh, ow, nf] c1 = Some (Inr (bs, c2))" "grows c1 c2" "shape bs = [oh, ow, nf]"
      "length (elems bs) = num_elements [oh, ow, nf]" "\<forall>w\<in>set (elems bs). is_input c2 w"
    using makes_newInput [OF grows_ok [OF wt(2)], of "[oh, ow, nf]"] by (auto elim!: makesE)
  note g2 = grows_trans [OF wt(2) bs(2)]
  let ?w = "\<lambda>ix. inp (elems wt ! flat [nf, kh, kw, C] ix)" and ?b = "\<lambda>ix. inp (elems bs ! flat [oh, ow, nf] ix)"
  have wi: "\<forall>w\<in>set (elems wt). is_input c2 w" using wt(5) is_input_grows [OF _ bs(2)] by blast
  have w2: "arr_at R inp c2 wt [nf, kh, kw, C] ?w" "arr_at R inp c2 bs [oh, ow, nf] ?b"
    using arr_has_at [OF inputs_arr_has [OF grows_ok [OF bs(2)] wt(3,4) wi]] arr_has_at [OF inputs_arr_has [OF grows_ok [OF bs(2)] bs(3,4,5)]] by simp_all
  let ?X = "conv_val R [N, H, W, C] (kh, kw) padding ?w ?b x"
  let ?f = "\<lambda>b d i j. bindA (conv_window input wt padding b d i j) (\<lambda>(vwt, vinp). bindA (addGateVA kTrdotp vwt vinp) (\<lambda>wdotp.
      bindA (getM bs [i, j, d]) (addGate2A kAdd wdotp)))"
  have "makes c2 (forA (\<lambda>(b, d, i, j) out. bindA (?f b d i j) (\<lambda>w. putM out [b, i, j, d] w)) (cells4 N nf oh ow) (marray_new [N, oh, ow, nf]))
      (\<lambda>out c'. arr_at R inp c' out [N, oh, ow, nf] ?X)"
  proof (rule makes_cells4 [OF grows_ok [OF bs(2)]])
    fix b d i j c' assume lt: "b < N" "d < nf" "i < oh" "j < ow" and c': "grows c2 c'"
    have inH: "\<not> padding \<longrightarrow> i + kh \<le> H \<and> j + kw \<le> W" using lt(3,4) fit by (auto simp: oh_def ow_def out_dims_def)
    obtain vwt vinp ps where win: "conv_window input wt padding b d i j = (retA (vwt, vinp) :: ('r, wire_t list \<times> wire_t list) appb)"
        "list_all2 (has R inp c') vwt (map (\<lambda>(kd, ki, kj). ?w [d, ki, kj, kd]) ps)"
        "list_all2 (has R inp c') vinp (map (\<lambda>(kd, ki, kj). padded_at (pad_start padding (kh, kw)) [N, H, W, C] x b (i + ki) (j + kj) kd) ps)"
        "(\<Sum>(kd, ki, kj)\<leftarrow>ps. ?w [d, ki, kj, kd] * padded_at (pad_start padding (kh, kw)) [N, H, W, C] x b (i + ki) (j + kj) kd) =
         (\<Sum>(kd, ki, kj)\<leftarrow>kernel_cells C kh kw. ?w [d, ki, kj, kd] * padded_at (pad_start padding (kh, kw)) [N, H, W, C] x b (i + ki) (j + kj) kd)"
      using makes_conv_window [OF arr_has_grows [OF x grows_trans [OF g2 c']] arr_has_grows [OF w2(1) c'] lt(1,2) inH] by blast
    have off: "offset [oh, ow, nf] [i, j, d] = Some (flat [oh, ow, nf] [i, j, d])" using lt by simp
    note bias = getM_arr_at [OF arr_has_grows [OF w2(2) c'] off]
    have dot: "(\<Sum>(p, q)\<leftarrow>zip (map (\<lambda>(kd, ki, kj). ?w [d, ki, kj, kd]) ps)
          (map (\<lambda>(kd, ki, kj). padded_at (pad_start padding (kh, kw)) [N, H, W, C] x b (i + ki) (j + kj) kd) ps). p * q) =
        (\<Sum>(kd, ki, kj)\<leftarrow>kernel_cells C kh kw. ?w [d, ki, kj, kd] * padded_at (pad_start padding (kh, kw)) [N, H, W, C] x b (i + ki) (j + kj) kd)"
      unfolding win(4) [symmetric] by (simp add: zip_map_map zip_same_conv_map o_def split_def)
    have cv: "?X [b, i, j, d] = truncate_val R (\<Sum>(kd, ki, kj)\<leftarrow>kernel_cells C kh kw.
        ?w [d, ki, kj, kd] * padded_at (pad_start padding (kh, kw)) [N, H, W, C] x b (i + ki) (j + kj) kd) + ?b [i, j, d]"
      by (simp add: conv_val_def Let_def)
    have "makes c' (bindA (addGateVA kTrdotp vwt vinp) (\<lambda>wd. addGate2A kAdd wd (elems bs ! flat [oh, ow, nf] [i, j, d]))) (\<lambda>w c''. has R inp c'' w (?X [b, i, j, d]))"
    proof (rule makes_bind [OF makes_trdotp [OF grows_ok [OF c'] win(2,3)]])
      fix wd c3 assume c3: "grows c' c3" and wd: "has R inp c3 wd (truncate_val R (\<Sum>(p, q)\<leftarrow>zip (map (\<lambda>(kd, ki, kj). ?w [d, ki, kj, kd]) ps)
          (map (\<lambda>(kd, ki, kj). padded_at (pad_start padding (kh, kw)) [N, H, W, C] x b (i + ki) (j + kj) kd) ps). p * q))"
      show "makes c3 (addGate2A kAdd wd (elems bs ! flat [oh, ow, nf] [i, j, d])) (\<lambda>w c''. has R inp c'' w (?X [b, i, j, d]))"
        unfolding cv using makes_add [OF grows_ok [OF c3] wd [unfolded dot] has_grows [OF bias(2) c3]] .
    qed simp
    then show "makes c' (?f b d i j) (\<lambda>w c''. has R inp c'' w (?X [b, i, j, d]))"
      unfolding win(1) bindA_ret prod.case bias(1) .
  qed
  then obtain out c3 where out: "forA (\<lambda>(b, d, i, j) out. bindA (?f b d i j) (\<lambda>w. putM out [b, i, j, d] w)) (cells4 N nf oh ow) (marray_new [N, oh, ow, nf]) c2 = Some (Inr (out, c3))"
      "grows c2 c3" "arr_at R inp c3 out [N, oh, ow, nf] ?X" by (rule makesE)
  have dims: "oh = (if padding then H else H + 1 - kh)" "ow = (if padding then W else W + 1 - kw)" by (simp_all add: oh_def ow_def out_dims_def)
  have "convolution nn input (kh, kw) nf padding c = Some (Inr ((out, nn\<lparr>conv_weights := conv_weights nn @ [wt], conv_bias := conv_bias nn @ [bs]\<rparr>), c3))"
  proof -
    have ok_size: "\<not> (\<not> padding \<and> (H + 1 < kh \<or> W + 1 < kw))" using fit by auto
    have loop: "(\<lambda>(b, d, i, j) out. bindA (conv_window input wt padding b d i j) (\<lambda>(vwt, vinp).
            bindA (addGateVA kTrdotp vwt vinp) (\<lambda>wdotp. bindA (getM bs [i, j, d]) (\<lambda>w0.
            bindA (addGate2A kAdd wdotp w0) (\<lambda>w. putM out [b, i, j, d] w))))) =
        (\<lambda>(b, d, i, j) out. bindA (?f b d i j) (\<lambda>w. putM out [b, i, j, d] w) :: ('r, marray) appb)"
      by (simp add: bindA_assoc split_def)
    have sel: "shape input ! 0 = N" "shape input ! 1 = H" "shape input ! 2 = W" "shape input ! 3 = C" by (simp_all add: sh)
    show ?thesis
      unfolding convolution_def Let_def prod.case sel if_not_P [OF ok_size] dims [symmetric] cells4_def [symmetric]
      using wt(1) bs(1) out(1) by (simp only: bindA_run [where m = "newInput s" for s] continueA_simps
          bindA_run [where m = "forA g l (marray_new s)" for g l s] loop [symmetric] retA_def)
  qed
  then show ?thesis
  proof (rule makesI [OF _ grows_trans [OF g2 out(2)]], unfold prod.case)
    have inputs: "\<forall>w\<in>set (elems wt) \<union> set (elems bs). is_input c3 w" using wi bs(5) is_input_grows [OF _ out(2)] by blast
    show "\<exists>wta bsa. nn\<lparr>conv_weights := conv_weights nn @ [wt], conv_bias := conv_bias nn @ [bs]\<rparr> =
        nn\<lparr>conv_weights := conv_weights nn @ [wta], conv_bias := conv_bias nn @ [bsa]\<rparr> \<and>
      shape wta = [nf, kh, kw, C] \<and> shape bsa = [oh, ow, nf] \<and> (\<forall>w\<in>set (elems wta) \<union> set (elems bsa). is_input c3 w) \<and>
      arr_at R inp c3 out [N, oh, ow, nf] (conv_val R [N, H, W, C] (kh, kw) padding
        (\<lambda>ix. inp (elems wta ! flat [nf, kh, kw, C] ix)) (\<lambda>ix. inp (elems bsa ! flat [oh, ow, nf] ix)) x)"
      by (intro exI [of _ wt] exI [of _ bs] conjI refl wt(3) bs(3) inputs out(3))
  qed
qed

end
