(* ===== verification/NeuralNet_Lenet.thy ===== *)
theory NeuralNet_Lenet
  imports NeuralNet_Conv
begin

section \<open>Average pooling and the convolutional network\<close>

text \<open>
  A pooled cell is the sum over its window times the fixed-point inverse of the size of the window. The
  code does not truncate the product, so that the result keeps \<open>FRACTION\<close> extra bits.
\<close>

definition pool_cells :: "nat \<times> nat \<Rightarrow> (nat \<times> nat) list" where
  "pool_cells pool = [(pi, pj). pi \<leftarrow> [0..<fst pool], pj \<leftarrow> [0..<snd pool]]"

definition pool_val :: "(u64 \<Rightarrow> 'r::comm_ring_1) \<Rightarrow> nat \<times> nat \<Rightarrow> nat \<times> nat \<Rightarrow> (nat list \<Rightarrow> 'r) \<Rightarrow> nat list \<Rightarrow> 'r" where
  "pool_val conv pool st x ix =
     (\<Sum>(pi, pj)\<leftarrow>pool_cells pool. x [ix ! 0, ix ! 1 * fst st + pi, ix ! 2 * snd st + pj, ix ! 3]) * conv (pool_factor pool)"

definition relu_at :: "'r::comm_ring_1 ringops \<Rightarrow> (nat list \<Rightarrow> 'r) \<Rightarrow> nat list \<Rightarrow> 'r" where
  "relu_at R x ix = (if msb R (x ix) then 0 else x ix)"

lemma makes_relu_at:
  "circuit_ok c \<Longrightarrow> arr_at R inp c input sh x \<Longrightarrow> makes c (relu input) (\<lambda>out c'. arr_at R inp c' out sh (relu_at R x))"
  using makes_relu_layer [of c R inp input sh "\<lambda>k. x (unflat sh k)"] by (simp add: relu_val_def [abs_def] relu_at_def)

lemma pool_cells_Cons:
  assumes "0 < fst pool" "0 < snd pool"
  obtains rest where "pool_cells pool = (0, 0) # rest" "(0, 0) \<notin> set rest"
proof -
  have p: "pool_cells pool = List.product [0..<fst pool] [0..<snd pool]" by (simp add: pool_cells_def product_concat_map)
  have "pool_cells pool = (0, 0) # tl (pool_cells pool)"
    using assms by (simp add: p upt_conv_Cons)
  moreover have "distinct (pool_cells pool)" by (simp add: p distinct_product)
  ultimately show ?thesis using that [of "tl (pool_cells pool)"] by (metis distinct.simps(2))
qed

lemma makes_pool_sum:
  fixes R :: "'r::comm_ring_1 ringops"
  assumes ok: "circuit_ok c" and x: "arr_at R inp c input [N, H, W, C] x" and pool: "0 < fst pool" "0 < snd pool"
    and b: "b < N" "d < C" and fit: "i * fst st + fst pool \<le> H" "j * snd st + snd pool \<le> W"
  shows "makes c (pool_sum input pool st b d i j)
    (\<lambda>w c'. has R inp c' w (\<Sum>(pi, pj)\<leftarrow>pool_cells pool. x [b, i * fst st + pi, j * snd st + pj, d]))"
proof -
  let ?X = "\<lambda>(pi, pj). x [b, i * fst st + pi, j * snd st + pj, d]"
  obtain rest0 where cells: "pool_cells pool = (0, 0) # rest0" "(0, 0) \<notin> set rest0" using pool_cells_Cons [OF pool] .
  let ?I = "\<lambda>dn acc c'. dn \<noteq> [] \<longrightarrow> has R inp c' acc (\<Sum>p\<leftarrow>dn. ?X p)"
  have "makes c (pool_sum input pool st b d i j) (?I (pool_cells pool))"
    unfolding pool_sum_def pool_cells_def [symmetric]
  proof (rule makes_for [where I = ?I, OF ok])
    fix dn p rest acc c' assume e: "pool_cells pool = dn @ p # rest" and c': "grows c c'" and I: "?I dn acc c'"
    obtain pi pj where p: "p = (pi, pj)" by (cases p)
    have "p \<in> set (pool_cells pool)" by (simp add: e)
    then have "pi < fst pool" "pj < snd pool" by (auto simp: p pool_cells_def)
    then have "offset [N, H, W, C] [b, i * fst st + pi, j * snd st + pj, d] = Some (flat [N, H, W, C] [b, i * fst st + pi, j * snd st + pj, d])"
      using b fit by simp
    note g = getM_arr_at [OF arr_has_grows [OF x c'] this]
    let ?w = "elems input ! flat [N, H, W, C] [b, i * fst st + pi, j * snd st + pj, d]"
    have first: "dn = [] \<longleftrightarrow> pi = 0 \<and> pj = 0" using e cells p by (cases dn) auto
    have "makes c' (if pi = 0 \<and> pj = 0 then retA ?w else addGate2A kAdd acc ?w) (?I (dn @ [p]))"
    proof (cases "dn = []")
      case True
      then show ?thesis using first makes_ret [OF grows_ok [OF c']] g(2) by (simp add: p)
    next
      case False
      then have n: "\<not> (pi = 0 \<and> pj = 0)" and a: "has R inp c' acc (\<Sum>p\<leftarrow>dn. ?X p)" using first I by auto
      show ?thesis unfolding if_not_P [OF n] using makes_add [OF grows_ok [OF c'] a g(2)] by (simp add: p)
    qed
    then show "makes c' ((\<lambda>(pi, pj) acc. bindA (getM input [b, i * fst st + pi, j * snd st + pj, d]) (\<lambda>w.
         if pi = 0 \<and> pj = 0 then retA w else addGate2A kAdd acc w)) p acc) (?I (dn @ [p]))"
      unfolding p prod.case g(1) bindA_ret .
  qed simp
  then show ?thesis by (rule makes_weaken) (use cells(1) in simp)
qed

lemma makes_averagePool:
  fixes R :: "'r::comm_ring_1 ringops"
  assumes ok: "circuit_ok c" and x: "arr_at R inp c input [N, H, W, C] x"
    and pool: "0 < fst pool" "0 < snd pool" "fst pool \<le> H" "snd pool \<le> W" and st: "0 < fst st" "0 < snd st"
  shows "makes c (averagePool conv input pool st)
    (\<lambda>out c'. arr_at R inp c' out [N, (H - fst pool) div fst st + 1, (W - snd pool) div snd st + 1, C] (pool_val conv pool st x))"
proof -
  have sh: "shape input = [N, H, W, C]" using x by (simp add: arr_has_def)
  let ?oh = "(H - fst pool) div fst st + 1" and ?ow = "(W - snd pool) div snd st + 1"
  let ?f = "\<lambda>b d i j. bindA (pool_sum input pool st b d i j) (\<lambda>acc. addConstA kConstMul acc (conv (pool_factor pool)))"
  have window: "k * s + p \<le> n" if "k < (n - p) div s + 1" "p \<le> n" for k s p n :: nat
    using mult_le_mono1 [of k "(n - p) div s" s] div_times_less_eq_dividend [of "n - p" s] that by linarith
  have "makes c (forA (\<lambda>(b, d, i, j) out. bindA (?f b d i j) (\<lambda>w. putM out [b, i, j, d] w)) (cells4 N C ?oh ?ow) (marray_new [N, ?oh, ?ow, C]))
      (\<lambda>out c'. arr_at R inp c' out [N, ?oh, ?ow, C] (pool_val conv pool st x))"
  proof (rule makes_cells4 [OF ok])
    fix b d i j c' assume lt: "b < N" "d < C" "i < ?oh" "j < ?ow" and c': "grows c c'"
    let ?s = "\<Sum>(pi, pj)\<leftarrow>pool_cells pool. x [b, i * fst st + pi, j * snd st + pj, d]"
    have v: "pool_val conv pool st x [b, i, j, d] = ?s * conv (pool_factor pool)" by (simp add: pool_val_def)
    show "makes c' (?f b d i j) (\<lambda>w c''. has R inp c'' w (pool_val conv pool st x [b, i, j, d]))"
      unfolding v
      by (rule makes_bind [OF makes_pool_sum [OF grows_ok [OF c'] arr_has_grows [OF x c'] pool(1,2) lt(1,2) window [OF lt(3) pool(3)] window [OF lt(4) pool(4)]]])
        (rule makes_constMul [OF grows_ok])
  qed
  moreover have "\<not> (fst st = 0 \<or> snd st = 0 \<or> H < fst pool \<or> W < snd pool \<or> fst pool = 0 \<or> snd pool = 0)" using pool st by auto
  moreover have "shape input ! 0 = N" "shape input ! 1 = H" "shape input ! 2 = W" "shape input ! 3 = C" by (simp_all add: sh)
  ultimately show ?thesis
    unfolding averagePool_def Let_def by (simp only: if_False cells4_def [symmetric] bindA_assoc)
qed

text \<open>Flattening keeps the elements in their order.\<close>

lemma flatten_has: "arr_has R inp c m (n # ns) v \<Longrightarrow> arr_has R inp c (flatten m) [n, num_elements ns] v"
  by (simp add: arr_has_def flatten_def)


subsection \<open>LeNet\<close>

text \<open>The steps of the network, with the state of the object after each.\<close>

lemma lenet_convolution:
  fixes R :: "'r::comm_ring_1 ringops" and input :: marray
  assumes "circuit_ok c" "arr_at R inp c input [N, H, W, C] x" "5 \<le> H" "5 \<le> W"
  obtains out wt bs c' where "convolution nn input (5, 5) nf False c =
      Some (Inr ((out, nn\<lparr>conv_weights := conv_weights nn @ [wt], conv_bias := conv_bias nn @ [bs]\<rparr>), c'))" "grows c c'"
    "shape wt = [nf, 5, 5, C]" "shape bs = [H - 4, W - 4, nf]" "\<forall>w\<in>set (elems wt) \<union> set (elems bs). is_input c' w"
    "arr_at R inp c' out [N, H - 4, W - 4, nf] (conv_val R [N, H, W, C] (5, 5) False
      (\<lambda>ix. inp (elems wt ! flat (shape wt) ix)) (\<lambda>ix. inp (elems bs ! flat (shape bs) ix)) x)"
proof -
  note r = that
  have "makes c (convolution nn input (5, 5) nf False) (\<lambda>(out, nn') c'. \<exists>wt bs.
    nn' = nn\<lparr>conv_weights := conv_weights nn @ [wt], conv_bias := conv_bias nn @ [bs]\<rparr> \<and>
    shape wt = [nf, 5, 5, C] \<and> shape bs = [H - 4, W - 4, nf] \<and> (\<forall>w\<in>set (elems wt) \<union> set (elems bs). is_input c' w) \<and>
    arr_at R inp c' out [N, H - 4, W - 4, nf] (conv_val R [N, H, W, C] (5, 5) False
      (\<lambda>ix. inp (elems wt ! flat [nf, 5, 5, C] ix)) (\<lambda>ix. inp (elems bs ! flat [H - 4, W - 4, nf] ix)) x))"
    using makes_convolution [OF assms(1,2), of False 5 5 nn nf] assms(3,4) by (simp add: out_dims_def)
  then show ?thesis
  proof (rule makesE, clarify)
    fix out wt bs c'
    assume *: "convolution nn input (5, 5) nf False c =
      Some (Inr ((out, nn\<lparr>conv_weights := conv_weights nn @ [wt], conv_bias := conv_bias nn @ [bs]\<rparr>), c'))" "grows c c'"
      "shape wt = [nf, 5, 5, C]" "shape bs = [H - 4, W - 4, nf]" "\<forall>w\<in>set (elems wt) \<union> set (elems bs). is_input c' w"
      "arr_at R inp c' out [N, H - 4, W - 4, nf] (conv_val R [N, H, W, C] (5, 5) False
        (\<lambda>ix. inp (elems wt ! flat [nf, 5, 5, C] ix)) (\<lambda>ix. inp (elems bs ! flat [H - 4, W - 4, nf] ix)) x)"
    show thesis by (rule r [OF *(1-5)]) (use *(6) in \<open>simp add: *(3,4)\<close>)
  qed
qed

lemma lenet_pool:
  fixes R :: "'r::comm_ring_1 ringops"
  assumes "circuit_ok c" "arr_at R inp c input [N, H, W, C] x" "2 \<le> H" "2 \<le> W"
  obtains out c' where "averagePool conv input (2, 2) (2, 2) c = Some (Inr (out, c'))" "grows c c'"
    "arr_at R inp c' out [N, H div 2, W div 2, C] (pool_val conv (2, 2) (2, 2) x)"
proof -
  note r = that
  have "(H - 2) div 2 + 1 = H div 2" "(W - 2) div 2 + 1 = W div 2" using assms(3,4) by linarith+
  then have "makes c (averagePool conv input (2, 2) (2, 2)) (\<lambda>out c'. arr_at R inp c' out [N, H div 2, W div 2, C] (pool_val conv (2, 2) (2, 2) x))"
    using makes_averagePool [OF assms(1,2), of "(2, 2)" "(2, 2)" conv] assms(3,4) by simp
  then show ?thesis by (rule makesE) (rule r)
qed

lemma lenet_linear:
  fixes R :: "'r::comm_ring_1 ringops"
  assumes "circuit_ok c" "arr_has R inp c input [N, a] x"
  obtains out W c' where "linear nn input n c = Some (Inr ((out, nn\<lparr>linear_weights := linear_weights nn @ [W]\<rparr>), c'))" "grows c c'"
    "shape W = [n, a + 1]" "\<forall>w\<in>set (elems W). is_input c' w" "arr_has R inp c' out [N, n] (dense R a n (\<lambda>k. inp (elems W ! k)) x)"
proof -
  note r = that
  show ?thesis by (rule makesE [OF makes_linear [OF assms, of nn n]], clarify) (rule r)
qed

text \<open>A block of the network: a convolution, the activation and the pooling.\<close>

definition conv_block :: "(u64 \<Rightarrow> 'r) \<Rightarrow> NeuralNetwork \<Rightarrow> marray \<Rightarrow> nat \<Rightarrow> ('r, marray \<times> NeuralNetwork) appb" where
  "conv_block conv nn input nf =
     bindA (convolution nn input (5, 5) nf False) (\<lambda>(y, nn').
     bindA (relu y) (\<lambda>r. bindA (averagePool conv r (2, 2) (2, 2)) (\<lambda>out. retA (out, nn'))))"

definition block_val :: "'r::comm_ring_1 ringops \<Rightarrow> (u64 \<Rightarrow> 'r) \<Rightarrow> nat list \<Rightarrow> (nat list \<Rightarrow> 'r) \<Rightarrow> (nat list \<Rightarrow> 'r) \<Rightarrow> (nat list \<Rightarrow> 'r) \<Rightarrow> nat list \<Rightarrow> 'r" where
  "block_val R conv sh w b x = pool_val conv (2, 2) (2, 2) (relu_at R (conv_val R sh (5, 5) False w b x))"

lemma conv_block_computes:
  fixes R :: "'r::comm_ring_1 ringops"
  assumes ok: "circuit_ok c" and x: "arr_at R inp c input [N, H, W, C] x" and dims: "6 \<le> H" "6 \<le> W"
  obtains out wt bs c' where "conv_block conv nn input nf c =
      Some (Inr ((out, nn\<lparr>conv_weights := conv_weights nn @ [wt], conv_bias := conv_bias nn @ [bs]\<rparr>), c'))" "grows c c'"
    "shape wt = [nf, 5, 5, C]" "shape bs = [H - 4, W - 4, nf]" "\<forall>w\<in>set (elems wt) \<union> set (elems bs). is_input c' w"
    "arr_at R inp c' out [N, (H - 4) div 2, (W - 4) div 2, nf] (block_val R conv [N, H, W, C]
      (\<lambda>ix. inp (elems wt ! flat (shape wt) ix)) (\<lambda>ix. inp (elems bs ! flat (shape bs) ix)) x)"
proof -
  note r = that
  obtain y wt bs c1 where y: "convolution nn input (5, 5) nf False c =
      Some (Inr ((y, nn\<lparr>conv_weights := conv_weights nn @ [wt], conv_bias := conv_bias nn @ [bs]\<rparr>), c1))" "grows c c1"
    "shape wt = [nf, 5, 5, C]" "shape bs = [H - 4, W - 4, nf]" "\<forall>w\<in>set (elems wt) \<union> set (elems bs). is_input c1 w"
    "arr_at R inp c1 y [N, H - 4, W - 4, nf] (conv_val R [N, H, W, C] (5, 5) False
      (\<lambda>ix. inp (elems wt ! flat (shape wt) ix)) (\<lambda>ix. inp (elems bs ! flat (shape bs) ix)) x)" (is "arr_at _ _ _ _ _ ?v")
    by (rule lenet_convolution [OF ok x, of nn nf]) (use dims in simp_all)
  obtain a c2 where a: "relu y c1 = Some (Inr (a, c2))" "grows c1 c2" "arr_at R inp c2 a [N, H - 4, W - 4, nf] (relu_at R ?v)"
    using makes_relu_at [OF grows_ok [OF y(2)] y(6)] by (rule makesE)
  obtain out c3 where out: "averagePool conv a (2, 2) (2, 2) c2 = Some (Inr (out, c3))" "grows c2 c3"
      "arr_at R inp c3 out [N, (H - 4) div 2, (W - 4) div 2, nf] (pool_val conv (2, 2) (2, 2) (relu_at R ?v))"
    by (rule lenet_pool [OF grows_ok [OF a(2)] a(3), of conv]) (use dims in simp_all)
  have g: "grows c1 c3" using grows_trans [OF a(2) out(2)] .
  show thesis
  proof (rule r [OF _ grows_trans [OF y(2) g] y(3,4)])
    show "conv_block conv nn input nf c =
      Some (Inr ((out, nn\<lparr>conv_weights := conv_weights nn @ [wt], conv_bias := conv_bias nn @ [bs]\<rparr>), c3))"
      using y(1) a(1) out(1) by (simp add: conv_block_def bindA_run retA_def)
    show "\<forall>w\<in>set (elems wt) \<union> set (elems bs). is_input c3 w" using y(5) is_input_grows [OF _ g] by blast
  qed (use out(3) in \<open>simp add: block_val_def\<close>)
qed

text \<open>
  The convolutional network as a function: \<open>w\<close> and \<open>b\<close> are the kernels and biases of the convolutions by
  layer and index, \<open>W\<close> the weights of the dense layers by layer and position.
\<close>

definition lenet_val :: "'r::comm_ring_1 ringops \<Rightarrow> (u64 \<Rightarrow> 'r) \<Rightarrow> nat \<Rightarrow> (nat \<Rightarrow> nat list \<Rightarrow> 'r) \<Rightarrow> (nat \<Rightarrow> nat list \<Rightarrow> 'r) \<Rightarrow> (nat \<Rightarrow> nat \<Rightarrow> 'r) \<Rightarrow> (nat list \<Rightarrow> 'r) \<Rightarrow> nat \<Rightarrow> 'r" where
  "lenet_val R conv B w b W x =
     dense R 500 10 (W 1) (relu_val R (dense R 800 500 (W 0) (\<lambda>k.
       block_val R conv [B, 12, 12, 20] (w 1) (b 1) (block_val R conv [B, 28, 28, 1] (w 0) (b 0) x) (unflat [B, 4, 4, 50] k))))"

definition kernel_at :: "(wire_t \<Rightarrow> 'r) \<Rightarrow> NeuralNetwork \<Rightarrow> nat \<Rightarrow> nat list \<Rightarrow> 'r" where
  "kernel_at inp nn l ix = inp (elems (conv_weights nn ! l) ! flat (shape (conv_weights nn ! l)) ix)"

definition bias_at :: "(wire_t \<Rightarrow> 'r) \<Rightarrow> NeuralNetwork \<Rightarrow> nat \<Rightarrow> nat list \<Rightarrow> 'r" where
  "bias_at inp nn l ix = inp (elems (conv_bias nn ! l) ! flat (shape (conv_bias nn ! l)) ix)"

definition network_inputs :: "NeuralNetwork \<Rightarrow> wire_t set" where
  "network_inputs nn = \<Union> (set ` elems ` set (conv_weights nn @ conv_bias nn @ linear_weights nn))"

text \<open>The dense layers at the end.\<close>

definition dense_block :: "NeuralNetwork \<Rightarrow> marray \<Rightarrow> ('r, NeuralNetwork) appb" where
  "dense_block nn input =
     bindA (linear nn input 500) (\<lambda>(lin3, nn). bindA (relu lin3) (\<lambda>out3.
     bindA (linear nn out3 10) (\<lambda>(output, nn). bindA (setOutput output) (\<lambda>_. retA nn))))"

lemma dense_block_computes:
  fixes R :: "'r::comm_ring_1 ringops"
  assumes ok: "circuit_ok c" and x: "arr_has R inp c input [B, 800] x" and nn: "linear_weights nn = []" and outs: "circ_outputs c = []"
  obtains W1 W2 c' where "dense_block nn input c = Some (Inr (nn\<lparr>linear_weights := [W1, W2]\<rparr>, c'))" "circuit_ok c'"
    "shape W1 = [500, 801]" "shape W2 = [10, 501]" "\<forall>w\<in>set (elems W1) \<union> set (elems W2). is_input c' w"
    "\<forall>w. is_input c w \<longrightarrow> is_input c' w"
    "map (wval R inp c') (circ_outputs c') =
      map (dense R 500 10 (\<lambda>k. inp (elems W2 ! k)) (relu_val R (dense R 800 500 (\<lambda>k. inp (elems W1 ! k)) x))) [0..<B * 10]"
proof -
  note res = that
  obtain l1 W1 c1 where l1: "linear nn input 500 c = Some (Inr ((l1, nn\<lparr>linear_weights := linear_weights nn @ [W1]\<rparr>), c1))" "grows c c1"
    "shape W1 = [500, 800 + 1]" "\<forall>w\<in>set (elems W1). is_input c1 w"
    "arr_has R inp c1 l1 [B, 500] (dense R 800 500 (\<lambda>k. inp (elems W1 ! k)) x)" (is "arr_has _ _ _ _ _ ?d")
    by (rule lenet_linear [OF ok x, of nn 500])
  obtain r c2 where r: "relu l1 c1 = Some (Inr (r, c2))" "grows c1 c2" "arr_has R inp c2 r [B, 500] (relu_val R ?d)"
    using makes_relu_layer [OF grows_ok [OF l1(2)] l1(5)] by (rule makesE)
  let ?n1 = "nn\<lparr>linear_weights := [W1]\<rparr>"
  obtain l2 W2 c3 where l2: "linear ?n1 r 10 c2 = Some (Inr ((l2, ?n1\<lparr>linear_weights := linear_weights ?n1 @ [W2]\<rparr>), c3))" "grows c2 c3"
    "shape W2 = [10, 500 + 1]" "\<forall>w\<in>set (elems W2). is_input c3 w"
    "arr_has R inp c3 l2 [B, 10] (dense R 500 10 (\<lambda>k. inp (elems W2 ! k)) (relu_val R ?d))" (is "arr_has _ _ _ _ _ ?val")
    by (rule lenet_linear [OF grows_ok [OF r(2)] r(3), of ?n1 10])
  obtain c4 where o: "setOutput l2 c3 = Some (Inr ((), c4))" "circuit_ok c4" "outputs_added c3 (elems l2) c4"
    using marks_setOutput [OF grows_ok [OF l2(2)] l2(5)] by (auto simp: marks_def)
  have "list_all2 (has R inp c3) (elems l2) (map ?val [0..<B * 10])" using l2(5) by (simp add: arr_has_def list_all2_conv_all_nth)
  then have "list_all2 (has R inp c4) (elems l2) (map ?val [0..<B * 10])"
    by (rule list_all2_mono) (rule has_outputs_added [OF _ o(3)])
  then have vals: "map (wval R inp c4) (elems l2) = map ?val [0..<B * 10]"
    by (simp add: list_all2_conv_all_nth has_def list_eq_iff_nth_eq)
  note g = grows_trans [OF l1(2) grows_trans [OF r(2) l2(2)]]
  have "circ_outputs c4 = elems l2" using o(3) g outs by (simp add: outputs_added_def grows_def)
  moreover have last: "is_input c3 w \<Longrightarrow> is_input c4 w" for w
    using o(3) by (auto simp: is_input_def outputs_added_def prefix_def nth_append)
  moreover have "dense_block nn input c = Some (Inr (nn\<lparr>linear_weights := [W1, W2]\<rparr>, c4))"
    using l1(1) r(1) l2(1) o(1) by (simp add: dense_block_def bindA_run retA_def nn)
  moreover have "\<forall>w\<in>set (elems W1) \<union> set (elems W2). is_input c4 w"
    using l1(4) l2(4) is_input_grows [OF _ grows_trans [OF r(2) l2(2)]] last by blast
  ultimately show thesis using res [of W1 W2 c4] o(2) l1(3) l2(3) vals is_input_grows [OF _ g] by simp
qed

lemma lenetMNIST_blocks:
  "lenetMNIST conv B =
     bindA (newInput [B, 28, 28, 1]) (\<lambda>input. bindA (conv_block conv NeuralNetwork_new input 20) (\<lambda>(out1, nn).
     bindA (conv_block conv nn out1 50) (\<lambda>(out2, nn). dense_block nn (flatten out2))))"
  by (simp add: lenetMNIST_def conv_block_def dense_block_def bindA_assoc split_def)

text \<open>
  C24: LeNet. For every batch size the routine runs without an exception and without an access outside an
  array, from the empty circuit to a well-formed one. The pixels are the first inputs, the kernels, biases
  and dense weights, of the shapes given, are inputs too, and the outputs carry the value of the network
  (two blocks of convolution, activation and pooling, and two dense layers) on these inputs.
\<close>

theorem lenetMNIST_computes:
  fixes R :: "'r::comm_ring_1 ringops"
  shows "\<exists>nn c. lenetMNIST conv B Circuit_new = Some (Inr (nn, c)) \<and> circuit_ok c \<and>
    map shape (conv_weights nn) = [[20, 5, 5, 1], [50, 5, 5, 20]] \<and> map shape (conv_bias nn) = [[24, 24, 20], [8, 8, 50]] \<and>
    map shape (linear_weights nn) = [[500, 801], [10, 501]] \<and>
    {0..<B * 784} \<union> network_inputs nn \<subseteq> Collect (is_input c) \<and>
    map (wval R inp c) (circ_outputs c) =
      map (lenet_val R conv B (kernel_at inp nn) (bias_at inp nn) (weight inp nn) (\<lambda>ix. inp (flat [B, 28, 28, 1] ix))) [0..<B * 10]"
proof -
  let ?x = "\<lambda>ix. inp (flat [B, 28, 28, 1] ix)"
  have gates0: "length (circ_gates Circuit_new) = 0" by (simp add: Circuit_new_def)
  obtain x c0 where x: "newInput [B, 28, 28, 1] Circuit_new = Some (Inr (x, c0))" "grows (Circuit_new :: 'r Circuit) c0" "shape x = [B, 28, 28, 1]"
      "elems x = [0..<B * 784]" "\<forall>w\<in>set (elems x). is_input c0 w"
    using makes_newInput [OF circuit_ok_new, of "[B, 28, 28, 1]"] by (auto simp: gates0 elim!: makesE)
  have "arr_has R inp c0 x [B, 28, 28, 1] inp"
    using inputs_arr_has [OF grows_ok [OF x(2)] x(3) _ x(5), of R inp] x(4) by (simp add: arr_has_def)
  note X = arr_has_at [OF this]
  obtain p1 w1 b1 c3 where s1: "conv_block conv NeuralNetwork_new x 20 c0 =
      Some (Inr ((p1, NeuralNetwork_new\<lparr>conv_weights := conv_weights NeuralNetwork_new @ [w1], conv_bias := conv_bias NeuralNetwork_new @ [b1]\<rparr>), c3))"
    "grows c0 c3" "shape w1 = [20, 5, 5, 1]" "shape b1 = [28 - 4, 28 - 4, 20]" "\<forall>w\<in>set (elems w1) \<union> set (elems b1). is_input c3 w"
    "arr_at R inp c3 p1 [B, (28 - 4) div 2, (28 - 4) div 2, 20] (block_val R conv [B, 28, 28, 1]
      (\<lambda>ix. inp (elems w1 ! flat (shape w1) ix)) (\<lambda>ix. inp (elems b1 ! flat (shape b1) ix)) ?x)" (is "arr_at _ _ _ _ _ ?u1")
    by (rule conv_block_computes [OF grows_ok [OF x(2)] X, of conv NeuralNetwork_new 20]) simp_all
  let ?n1 = "NeuralNetwork_new\<lparr>conv_weights := [w1], conv_bias := [b1]\<rparr>"
  have p1: "arr_at R inp c3 p1 [B, 12, 12, 20] ?u1" using s1(6) by simp
  obtain p2 w2 b2 c6 where s2: "conv_block conv ?n1 p1 50 c3 =
      Some (Inr ((p2, ?n1\<lparr>conv_weights := conv_weights ?n1 @ [w2], conv_bias := conv_bias ?n1 @ [b2]\<rparr>), c6))"
    "grows c3 c6" "shape w2 = [50, 5, 5, 20]" "shape b2 = [12 - 4, 12 - 4, 50]" "\<forall>w\<in>set (elems w2) \<union> set (elems b2). is_input c6 w"
    "arr_at R inp c6 p2 [B, (12 - 4) div 2, (12 - 4) div 2, 50] (block_val R conv [B, 12, 12, 20]
      (\<lambda>ix. inp (elems w2 ! flat (shape w2) ix)) (\<lambda>ix. inp (elems b2 ! flat (shape b2) ix)) ?u1)" (is "arr_at _ _ _ _ _ ?u2")
    by (rule conv_block_computes [OF grows_ok [OF s1(2)] p1, of conv ?n1 50]) simp_all
  let ?n2 = "NeuralNetwork_new\<lparr>conv_weights := [w1, w2], conv_bias := [b1, b2]\<rparr>"
  have "arr_has R inp c6 p2 [B, 4, 4, 50] (\<lambda>k. ?u2 (unflat [B, 4, 4, 50] k))" using s2(6) by simp
  from flatten_has [OF this] have fl: "arr_has R inp c6 (flatten p2) [B, 800] (\<lambda>k. ?u2 (unflat [B, 4, 4, 50] k))" by simp
  have "linear_weights ?n2 = []" "circ_outputs c6 = []"
    using x(2) s1(2) s2(2) by (simp_all add: grows_def Circuit_new_def NeuralNetwork_new_def)
  note dense = dense_block_computes [OF grows_ok [OF s2(2)] fl this]
  obtain W1 W2 c7 where d: "dense_block ?n2 (flatten p2) c6 = Some (Inr (?n2\<lparr>linear_weights := [W1, W2]\<rparr>, c7))" "circuit_ok c7"
    "shape W1 = [500, 801]" "shape W2 = [10, 501]" "\<forall>w\<in>set (elems W1) \<union> set (elems W2). is_input c7 w"
    "\<forall>w. is_input c6 w \<longrightarrow> is_input c7 w"
    "map (wval R inp c7) (circ_outputs c7) = map (dense R 500 10 (\<lambda>k. inp (elems W2 ! k))
      (relu_val R (dense R 800 500 (\<lambda>k. inp (elems W1 ! k)) (\<lambda>k. ?u2 (unflat [B, 4, 4, 50] k))))) [0..<B * 10]"
    by (rule dense)
  let ?N = "?n2\<lparr>linear_weights := [W1, W2]\<rparr>"
  have run: "lenetMNIST conv B Circuit_new = Some (Inr (?N, c7))"
    using x(1) s1(1) s2(1) d(1) by (simp add: lenetMNIST_blocks bindA_run NeuralNetwork_new_def)
  have V: "(\<lambda>k. inp (elems W1 ! k)) = weight inp ?N 0" "(\<lambda>k. inp (elems W2 ! k)) = weight inp ?N 1"
      "(\<lambda>ix. inp (elems w1 ! flat (shape w1) ix)) = kernel_at inp ?N 0" "(\<lambda>ix. inp (elems w2 ! flat (shape w2) ix)) = kernel_at inp ?N 1"
      "(\<lambda>ix. inp (elems b1 ! flat (shape b1) ix)) = bias_at inp ?N 0" "(\<lambda>ix. inp (elems b2 ! flat (shape b2) ix)) = bias_at inp ?N 1"
    by (simp_all add: weight_def kernel_at_def bias_at_def fun_eq_iff)
  note vals = d(7) [unfolded V, folded lenet_val_def]
  note g6 = s2(2) note g0 = grows_trans [OF s1(2) g6]
  have "\<forall>w\<in>{0..<B * 784}. is_input c7 w" using x(4,5) is_input_grows [OF _ g0] d(6) by simp
  moreover have "\<forall>w\<in>network_inputs ?N. is_input c7 w"
    using s1(5) s2(5) d(5) is_input_grows [OF _ g6] d(6)
    by (auto simp: network_inputs_def)
  ultimately have inputs: "{0..<B * 784} \<union> network_inputs ?N \<subseteq> Collect (is_input c7)" by blast
  have shapes: "map shape (conv_weights ?N) = [[20, 5, 5, 1], [50, 5, 5, 20]]" "map shape (conv_bias ?N) = [[24, 24, 20], [8, 8, 50]]"
      "map shape (linear_weights ?N) = [[500, 801], [10, 501]]"
    using s1(3,4) s2(3,4) d(3,4) by (simp_all add: NeuralNetwork_new_def)
  show ?thesis by (intro exI [of _ ?N] exI [of _ c7] conjI run d(2) shapes inputs vals)
qed

end
