(* ===== verification/CircuitGen_More.thy ===== *)
theory CircuitGen_More
  imports AppBuild
begin

section \<open>Generated circuits over checked vectors (utils/circuit.h)\<close>

text \<open>
  The generators \<open>generateParaPrefixAND\<close>, which marks many outputs and then adds gates, and
  \<open>generateAuction\<close>, which reads outside a vector for some arguments, in the monad of \<open>AppBuild\<close>; further
  \<open>generatePrefixAND\<close>, whose tree differs from that of the other generators, and the empty
  \<open>generateCDA\<close>.
\<close>

definition runA :: "('r, unit) appb \<Rightarrow> (exn + 'r Circuit) option" where
  "runA m = map_option (map_sum (\<lambda>e. e) snd) (m Circuit_new)"

definition generateParaPrefixAND :: "nat \<Rightarrow> (exn + 'r::comm_ring_1 Circuit) option" where
  "generateParaPrefixAND repeat = runA
     (bindA (liftA (inputsB (repeat * 64))) (\<lambda>input.
      bindA (liftA (forB (prefix_level (repeat * 64)) [1..<Suc 3] input)) (\<lambda>leveli.
      bindA (forA (\<lambda>m _. bindA (atA leveli m) outputA)
        [rep * 64 + i. rep \<leftarrow> [0..<repeat], i \<leftarrow> [1..<64]] ()) (\<lambda>_.
      bindA (forA (\<lambda>rep lastAND. bindA (atA leveli 1) (\<lambda>a. bindA (atA leveli 2) (\<lambda>b.
          bindA (addGate2A kMul a b) (putA lastAND rep)))) [0..<repeat] (replicate repeat 0)) (\<lambda>_.
      retA ())))))"

definition generateCDA :: "int \<Rightarrow> int \<Rightarrow> 'r Circuit" where
  "generateCDA M N = Circuit_new"

text \<open>
  A step of the tree of \<open>generatePrefixAND\<close>: the first wires of the sub-blocks stand where the
  other generators take the last wires of the sub-blocks before.
\<close>

definition and_step :: "nat \<Rightarrow> wire_t list \<Rightarrow> nat \<times> nat \<Rightarrow> wire_t list \<Rightarrow> ('r, wire_t list) builder" where
  "and_step level leveli = (\<lambda>(j, i) level_next.
     let p = (j - 1) * 4 ^ level;
         q = (j - 1) * 4 ^ level + 4 ^ (level - 1);
         r = (j - 1) * 4 ^ level + 2 * 4 ^ (level - 1);
         s = (j - 1) * 4 ^ level + 3 * 4 ^ (level - 1)
     in bindB (addGate2 kMul (leveli ! q) (leveli ! (q + i))) (\<lambda>w2.
        bindB (addGate3 kMul3 (leveli ! q) (leveli ! r) (leveli ! (r + i))) (\<lambda>w3.
        bindB (addGate4 kMul4 (leveli ! q) (leveli ! r) (leveli ! s) (leveli ! (s + i))) (\<lambda>w4.
        retB (level_next[p + i := leveli ! (p + i), q + i := w2, r + i := w3, s + i := w4])))))"

definition and_level :: "nat \<Rightarrow> wire_t list \<Rightarrow> ('r, wire_t list) builder" where
  "and_level level leveli =
     forB (and_step level leveli)
       [(j, i). j \<leftarrow> [1..<Suc (64 div 4 ^ level)], i \<leftarrow> [0..<4 ^ (level - 1)]] (replicate 64 0)"

definition generatePrefixAND :: "exn + 'r::comm_ring_1 Circuit" where
  "generatePrefixAND = runB
     (bindB (inputsB 64) (\<lambda>input.
      bindB (inputsB 64) (\<lambda>inp_d.
      bindB (forB and_level [1..<Suc 3] input) (\<lambda>leveli.
      bindB (forB (\<lambda>i wv. bindB (addConstOpGate kConstAdd (leveli ! i) 1) (\<lambda>w. retB (wv @ [w]))) [0..<64] []) (\<lambda>wv.
      bindB (prefixOR_diffs 0 wv) (\<lambda>wz.
      bindB (addGateV kDotprod wz inp_d) (\<lambda>wu.
      bindB (addConstOpGate kConstAdd wu 1) outputB)))))))"

text \<open>
  The auction circuit takes the maximum of a knock-out tournament: each match of a level keeps
  \<open>(1 - (d < 0)) * d + y\<close> with \<open>d = x - y\<close>. The number of rounds \<open>int(log(N)/log(2))\<close> is
  the integer logarithm; the loop condition \<open>i < N/pow(2, level)\<close> compares reals.
\<close>

fun ilog2 :: "nat \<Rightarrow> nat" where
  "ilog2 n = (if n < 2 then 0 else Suc (ilog2 (n div 2)))"

definition auction_match :: "wire_t \<Rightarrow> wire_t \<Rightarrow> ('r::comm_ring_1, wire_t) builder" where
  "auction_match x y =
     bindB (addGate2 kSub x y) (\<lambda>t1.
     bindB (addGate1 kLtz t1) (\<lambda>t2.
     bindB (addConstOpGate kConstMul t2 (- 1)) (\<lambda>t3.
     bindB (addConstOpGate kConstAdd t3 1) (\<lambda>t4.
     bindB (addGate2 kMul t4 t1) (\<lambda>t5. addGate2 kAdd t5 y)))))"

definition auction_level :: "nat \<Rightarrow> nat \<Rightarrow> wire_t list \<Rightarrow> ('r::comm_ring_1, wire_t list) appb" where
  "auction_level N level leveli =
     forA (\<lambda>i next. bindA (atA leveli (2 * i)) (\<lambda>x. bindA (atA leveli (2 * i + 1)) (\<lambda>y.
         bindA (liftA (auction_match x y)) (\<lambda>w. putA next i w))))
       (filter (\<lambda>i. i * 2 ^ level < N) [0..<N]) (replicate (N div 2 ^ level) 0)"

definition generateAuction :: "nat \<Rightarrow> (exn + 'r::comm_ring_1 Circuit) option" where
  "generateAuction N = runA
     (bindA (liftA (inputsB (N * N))) (\<lambda>M_pi.
      bindA (liftA (inputsB N)) (\<lambda>x.
      bindA (forA (auction_level N) [1..<Suc (ilog2 N)] x) (\<lambda>leveli. bindA (atA leveli 0) outputA))))"

subsection \<open>The parallel prefix conjunctions\<close>

text \<open>The levels keep the number of wires.\<close>

lemma prefix_step_length: "prefix_step l lev p ws c = Inr (ws', c') \<Longrightarrow> length ws' = length ws"
  by (cases p) (auto simp: prefix_step_def Let_def bindB_def retB_def split: sum.splits)

lemma forB_length:
  "(\<And>i s s' c c'. f i s c = Inr (s', c') \<Longrightarrow> length s' = length s) \<Longrightarrow> forB f is s c = Inr (s', c') \<Longrightarrow> length s' = length s"
  by (induction "is" arbitrary: s c) (fastforce simp: bindB_def retB_def split: sum.splits)+

lemma prefix_level_length: "prefix_level n l lev c = Inr (ws, c') \<Longrightarrow> length ws = n"
  using forB_length [of "prefix_step l lev", OF prefix_step_length] by (fastforce simp: prefix_level_def)

lemma prefix_levels_length: "forB (prefix_level n) [1..<Suc 3] ws c = Inr (ws', c') \<Longrightarrow> length ws' = n"
  by (auto simp: upt_rec bindB_def retB_def split: sum.splits) (rule prefix_level_length)

text \<open>A loop that marks wires as outputs.\<close>

lemma marks_outputs:
  "circuit_ok c \<Longrightarrow> \<forall>m\<in>set ms. m < length ws \<and> (\<exists>x. has R inp c (ws ! m) x) \<Longrightarrow>
   marks c (forA (\<lambda>m _. bindA (atA ws m) outputA) ms ()) (\<lambda>_ c'. outputs_added c (map ((!) ws) ms) c')"
proof (induction ms arbitrary: c)
  case Nil
  then show ?case by (simp add: marks_ret outputs_added_refl)
next
  case (Cons m ms)
  then obtain x where m: "m < length ws" "has R inp c (ws ! m) x" by auto
  let ?c = "c\<lparr>circ_outputs := circ_outputs c @ [ws ! m]\<rparr>"
  have e: "outputs_added c [ws ! m] ?c" by (simp add: outputs_added_def)
  have "marks c (bindA (outputA (ws ! m)) (\<lambda>_. forA (\<lambda>m _. bindA (atA ws m) outputA) ms ()))
      (\<lambda>_ c'. outputs_added c (map ((!) ws) (m # ms)) c')"
  proof (rule marks_bind [OF marks_output [OF Cons.prems(1) m(2)]])
    fix u c' assume ok: "circuit_ok c'" and c': "c' = ?c"
    have "\<forall>m\<in>set ms. m < length ws \<and> (\<exists>x. has R inp c' (ws ! m) x)"
      using Cons.prems(2) has_outputs_added [OF _ e] unfolding c' by fastforce
    from Cons.IH [OF ok this]
    show "marks c' (forA (\<lambda>m _. bindA (atA ws m) outputA) ms ()) (\<lambda>_ c'. outputs_added c (map ((!) ws) (m # ms)) c')"
      by (rule marks_weaken) (use outputs_added_trans [OF e] in \<open>auto simp: c'\<close>)
  qed
  then show ?case using m(1) by (simp add: atA_def)
qed

lemma makes_lastAND:
  assumes "circuit_ok c" "n = 0 \<or> 2 < length lev" "2 < length lev \<longrightarrow> has R inp c (lev ! 1) x \<and> has R inp c (lev ! 2) y"
  shows "makes c (forA (\<lambda>rep lastAND. bindA (atA lev 1) (\<lambda>a. bindA (atA lev 2) (\<lambda>b.
      bindA (addGate2A kMul a b) (putA lastAND rep)))) [0..<n] (replicate n 0)) (\<lambda>ws c'. length ws = n)"
proof (rule makes_upto [where I = "\<lambda>i ws c'. length ws = n", OF assms(1)])
  fix i c' and ws :: "wire_t list" assume i: "i < n" and c': "grows c c'" and ws: "length ws = n"
  have l: "2 < length lev" using assms(2) i by simp
  then have h: "has R inp c' (lev ! 1) x" "has R inp c' (lev ! 2) y" using assms(3) has_grows [OF _ c'] by blast+
  have "makes c' (bindA (addGate2A kMul (lev ! 1) (lev ! 2)) (putA ws i)) (\<lambda>ws c'. length ws = n)"
    by (rule makes_bind [OF makes_mul [OF grows_ok [OF c'] h]]) (use i ws in \<open>auto simp: putA_def intro!: makes_ret dest: grows_ok\<close>)
  then show "makes c' (bindA (atA lev 1) (\<lambda>a. bindA (atA lev 2) (\<lambda>b. bindA (addGate2A kMul a b) (putA ws i)))) (\<lambda>ws c'. length ws = n)"
    using l by (simp add: atA_def)
qed simp

text \<open>The outputs are the prefix products of each block of 64 inputs, from the second on.\<close>

lemma generateParaPrefixAND_computes:
  fixes R :: "'r::comm_ring_1 ringops"
  shows "\<exists>c. generateParaPrefixAND n = Some (Inr c) \<and> circuit_ok c \<and> prefix (map (Gate kInp) [0..<n * 64]) (circ_gates c) \<and>
    map (wval R inp c) (circ_outputs c) =
      [prod_list (map inp [rep * 64..<rep * 64 + Suc i]). rep \<leftarrow> [0..<n], i \<leftarrow> [1..<64]]"
proof -
  let ?N = "n * 64" and ?ms = "[rep * 64 + i. rep \<leftarrow> [0..<n], i \<leftarrow> [1..<64]]"
  let ?c0 = "inputs_circuit (n * 64) :: 'r Circuit"
  have h0: "has R inp ?c0 ([0..<?N] ! m) (inp m)" if "m < ?N" for m using has_inputs_circuit that by simp
  obtain lev c1 where l: "forB (prefix_level ?N) [1..<Suc 3] [0..<?N] ?c0 = Inr (lev, c1)" "extends ?c0 c1"
      "\<forall>m<?N. has R inp c1 (lev ! m) (block_prod inp 3 m)"
    using builds_prefix_levels [OF inputs_circuit_ok _ h0] by (rule buildsE) simp_all
  have len: "length lev = ?N" using prefix_levels_length [OF l(1)] .
  have ms: "m < ?N" if "m \<in> set ?ms" for m
  proof -
    from that obtain rep where "rep < n" "m < 64 + rep * 64" by auto
    moreover have "Suc rep * 64 \<le> n * 64" using \<open>rep < n\<close> by (intro mult_le_mono1) simp
    ultimately show ?thesis by simp
  qed
  have "\<forall>m\<in>set ?ms. m < length lev \<and> (\<exists>x. has R inp c1 (lev ! m) x)" using ms l(3) unfolding len by blast
  note marked = marks_outputs [OF extends_ok [OF l(2)] this]
  obtain c2 where o: "forA (\<lambda>m _. bindA (atA lev m) outputA) ?ms () c1 = Some (Inr ((), c2))" "circuit_ok c2"
      "outputs_added c1 (map ((!) lev) ?ms) c2"
    using marked by (auto simp: marks_def)
  have h2: "has R inp c2 (lev ! m) (block_prod inp 3 m)" if "m < ?N" for m
    using l(3) that by (blast intro: has_outputs_added [OF _ o(3)])
  obtain ws c3 where a: "forA (\<lambda>rep lastAND. bindA (atA lev 1) (\<lambda>a. bindA (atA lev 2) (\<lambda>b.
      bindA (addGate2A kMul a b) (putA lastAND rep)))) [0..<n] (replicate n 0) c2 = Some (Inr (ws, c3))" "grows c2 c3"
  proof -
    have "n = 0 \<or> 2 < length lev" using len by (cases n) simp_all
    moreover have "2 < length lev \<longrightarrow> has R inp c2 (lev ! 1) (block_prod inp 3 1) \<and> has R inp c2 (lev ! 2) (block_prod inp 3 2)"
      using h2 [of 1] h2 [of 2] len by linarith
    ultimately show ?thesis using makesE [OF makes_lastAND [OF o(2)]] that by metis
  qed
  have i0: "inputsB ?N (inputs_circuit 0) = Inr ([0..<?N], ?c0)" using inputsB_eq [of ?N 0] by simp
  have run: "generateParaPrefixAND n = Some (Inr c3)"
    using l(1) o(1) a(1) i0 unfolding generateParaPrefixAND_def runA_def
    by (simp add: bindA_def liftA_def retA_def Circuit_new_inputs)
  have o13: "outputs_added c1 (map ((!) lev) ?ms) c3" using outputs_added_trans [OF o(3) grows_outputs_added [OF a(2)]] by simp
  have outs: "circ_outputs c3 = map ((!) lev) ?ms"
    using o13 l(2) by (simp add: outputs_added_def extends_def inputs_circuit_def)
  have "wval R inp c3 (lev ! m) = block_prod inp 3 m" if "m \<in> set ?ms" for m
    using has_grows [OF h2 [OF ms [OF that]] a(2)] by (simp add: has_def)
  then have "map (wval R inp c3) (circ_outputs c3) = map (block_prod inp 3) ?ms" by (simp add: outs cong: map_cong)
  also have "\<dots> = [prod_list (map inp [rep * 64..<rep * 64 + Suc i]). rep \<leftarrow> [0..<n], i \<leftarrow> [1..<64]]"
    by (auto simp: map_concat o_def block_prod_def simp del: upt_Suc intro!: arg_cong [where f = concat])
  finally have "map (wval R inp c3) (circ_outputs c3) = \<dots>" .
  moreover have "prefix (map (Gate kInp) [0..<?N]) (circ_gates c3)"
    using l(2) o13 by (auto simp: extends_def outputs_added_def inputs_circuit_def intro: prefix_order.trans)
  ultimately show ?thesis using run grows_ok [OF a(2)] by blast
qed

subsection \<open>The tree of generatePrefixAND\<close>

text \<open>
  One level on values: a wire is multiplied by the \<^emph>\<open>first\<close> wires of the sub-blocks of its block from the
  second sub-block up to its own.
\<close>

definition and_val :: "(nat \<Rightarrow> 'r::comm_ring_1) \<Rightarrow> nat \<Rightarrow> nat \<Rightarrow> 'r" where
  "and_val x L m =
     (let b = m div 4 ^ Suc L * 4 ^ Suc L in
      prod_list (map (\<lambda>t. x (b + t * 4 ^ L)) [1..<Suc (m div 4 ^ L mod 4)]) * x m)"

lemma and_val_at:
  assumes "i < 4 ^ L"
  shows "and_val x L (g * 4 ^ Suc L + i) = x (g * 4 ^ Suc L + i)"
    "and_val x L (g * 4 ^ Suc L + 4 ^ L + i) = x (g * 4 ^ Suc L + 4 ^ L) * x (g * 4 ^ Suc L + 4 ^ L + i)"
    "and_val x L (g * 4 ^ Suc L + 2 * 4 ^ L + i) =
      x (g * 4 ^ Suc L + 4 ^ L) * x (g * 4 ^ Suc L + 2 * 4 ^ L) * x (g * 4 ^ Suc L + 2 * 4 ^ L + i)"
    "and_val x L (g * 4 ^ Suc L + 3 * 4 ^ L + i) =
      x (g * 4 ^ Suc L + 4 ^ L) * x (g * 4 ^ Suc L + 2 * 4 ^ L) * x (g * 4 ^ Suc L + 3 * 4 ^ L) * x (g * 4 ^ Suc L + 3 * 4 ^ L + i)"
proof -
  have d: "(g * 4 ^ Suc L + t * 4 ^ L + i) div 4 ^ L = 4 * g + t" for t
  proof -
    have "g * 4 ^ Suc L + t * 4 ^ L + i = (4 * g + t) * 4 ^ L + i" by (simp add: algebra_simps)
    then show ?thesis using assms by simp
  qed
  have S: "4 ^ Suc L = 4 ^ L * (4 :: nat)" by simp
  have v: "and_val x L (g * 4 ^ Suc L + t * 4 ^ L + i) =
      prod_list (map (\<lambda>t. x (g * 4 ^ Suc L + t * 4 ^ L)) [1..<Suc t]) * x (g * 4 ^ Suc L + t * 4 ^ L + i)" if "t < 4" for t
  proof -
    have "(g * 4 ^ Suc L + t * 4 ^ L + i) div 4 ^ Suc L = (g * 4 ^ Suc L + t * 4 ^ L + i) div 4 ^ L div 4"
      by (simp only: S div_mult2_eq)
    also have "\<dots> = g" unfolding d using that by simp
    finally show ?thesis unfolding and_val_def Let_def d using that by (simp del: power_Suc upt_Suc)
  qed
  show "and_val x L (g * 4 ^ Suc L + i) = x (g * 4 ^ Suc L + i)" using v [of 0] by simp
  show "and_val x L (g * 4 ^ Suc L + 4 ^ L + i) = x (g * 4 ^ Suc L + 4 ^ L) * x (g * 4 ^ Suc L + 4 ^ L + i)"
    using v [of 1] by (simp add: upt_rec)
  show "and_val x L (g * 4 ^ Suc L + 2 * 4 ^ L + i) =
      x (g * 4 ^ Suc L + 4 ^ L) * x (g * 4 ^ Suc L + 2 * 4 ^ L) * x (g * 4 ^ Suc L + 2 * 4 ^ L + i)"
    using v [of 2] by (simp add: upt_rec ac_simps)
  show "and_val x L (g * 4 ^ Suc L + 3 * 4 ^ L + i) =
      x (g * 4 ^ Suc L + 4 ^ L) * x (g * 4 ^ Suc L + 2 * 4 ^ L) * x (g * 4 ^ Suc L + 3 * 4 ^ L) * x (g * 4 ^ Suc L + 3 * 4 ^ L + i)"
    using v [of 3] by (simp add: upt_rec ac_simps)
qed

lemma builds_and_step:
  assumes c: "circuit_ok c" and i: "i < 4 ^ L" and j: "1 \<le> j" "j * 4 ^ Suc L \<le> n"
    and lev: "\<And>m. m < n \<Longrightarrow> has R inp c (leveli ! m) (x m)"
    and ws: "filled R inp n (and_val x L) D ws c"
  shows "builds c (and_step (Suc L) leveli (j, i) ws)
    (\<lambda>ws' c'. filled R inp n (and_val x L) (D \<union> group_cells L (j, i)) ws' c')"
proof -
  let ?b = "(j - 1) * 4 ^ Suc L" and ?P = "(4::nat) ^ L"
  let ?p = "?b + i" and ?q = "?b + ?P" and ?r = "?b + 2 * ?P" and ?s = "?b + 3 * ?P"
  have "?b + 4 * ?P \<le> n" using j by (cases j) (simp_all add: algebra_simps)
  then have lt: "?p < n" "?q + i < n" "?r + i < n" "?s + i < n" "?q < n" "?r < n" "?s < n"
    using i by (simp_all del: power_Suc)
  note st = and_val_at [OF i, of x "j - 1"]
  have l: "has R inp c' (leveli ! m) (x m)" if "extends c c'" "m < n" for c' m
    using lev [OF that(2)] that(1) by (rule has_extends)
  let ?ret = "\<lambda>w2 w3 w4. retB (ws[?p := leveli ! ?p, ?q + i := w2, ?r + i := w3, ?s + i := w4])"
  let ?Q = "\<lambda>ws' c'. filled R inp n (and_val x L) (D \<union> group_cells L (j, i)) ws' c'"
  show ?thesis
    unfolding and_step_def Let_def prod.case diff_Suc_1
  proof (rule builds_bind [OF builds_mul2 [OF c lev [OF lt(5)] lev [OF lt(2)]]])
    fix w2 c2 assume e2: "extends c c2" and w2: "has R inp c2 w2 (x ?q * x (?q + i))"
    note ok = extends_ok [OF e2]
    show "builds c2 (bindB (addGate3 kMul3 (leveli ! ?q) (leveli ! ?r) (leveli ! (?r + i))) (\<lambda>w3.
        bindB (addGate4 kMul4 (leveli ! ?q) (leveli ! ?r) (leveli ! ?s) (leveli ! (?s + i))) (?ret w2 w3))) ?Q"
    proof (rule builds_bind [OF builds_mul3 [OF ok l [OF e2 lt(5)] l [OF e2 lt(6)] l [OF e2 lt(3)]]])
      fix w3 c3 assume c3: "extends c2 c3" and w3: "has R inp c3 w3 (x ?q * x ?r * x (?r + i))"
      note ok = extends_ok [OF c3] and e3 = extends_trans [OF e2 c3]
      show "builds c3 (bindB (addGate4 kMul4 (leveli ! ?q) (leveli ! ?r) (leveli ! ?s) (leveli ! (?s + i))) (?ret w2 w3)) ?Q"
      proof (rule builds_bind [OF builds_mul4 [OF ok l [OF e3 lt(5)] l [OF e3 lt(6)] l [OF e3 lt(7)] l [OF e3 lt(4)]]])
        fix w4 c4 assume c4: "extends c3 c4" and w4: "has R inp c4 w4 (x ?q * x ?r * x ?s * x (?s + i))"
        have h: "has R inp c4 (leveli ! ?p) (and_val x L ?p)" "has R inp c4 w2 (and_val x L (?q + i))"
            "has R inp c4 w3 (and_val x L (?r + i))" "has R inp c4 w4 (and_val x L (?s + i))"
          using l [OF extends_trans [OF e3 c4] lt(1)] has_extends [OF w2 extends_trans [OF c3 c4]] has_extends [OF w3 c4] w4
          by (simp_all only: st)
        have f: "filled R inp n (and_val x L) D ws c4" by (rule filled_extends [OF ws extends_trans [OF e3 c4]])
        have eq: "insert (?s + i) (insert (?r + i) (insert (?q + i) (insert ?p D))) = D \<union> group_cells L (j, i)"
          by (auto simp: group_cells_def)
        show "builds c4 (?ret w2 w3 w4) ?Q"
          unfolding eq [symmetric] by (rule builds_ret [OF extends_ok [OF c4]]) (intro filled_update f h)
      qed
    qed
  qed
qed

lemma builds_and_level:
  assumes c: "circuit_ok c" and dv: "4 ^ Suc L dvd (64 :: nat)" and lev: "\<And>m. m < 64 \<Longrightarrow> has R inp c (leveli ! m) (x m)"
  shows "builds c (and_level (Suc L) leveli) (\<lambda>ws c'. \<forall>m<64. has R inp c' (ws ! m) (and_val x L m))"
proof -
  let ?ps = "[(j, i). j \<leftarrow> [1..<Suc (64 div 4 ^ Suc L)], i \<leftarrow> [0..<4 ^ L]]"
  let ?I = "\<lambda>dn ws c'. filled R inp 64 (and_val x L) (\<Union>p\<in>set dn. group_cells L p) ws c'"
  have "builds c (and_level (Suc L) leveli) (?I ?ps)"
    unfolding and_level_def diff_Suc_1
  proof (rule builds_for [OF c])
    show "?I [] (replicate 64 0) c" by (simp add: filled_def)
    fix dn p rest ws c'
    assume split: "?ps = dn @ p # rest" and c': "extends c c'" and I: "?I dn ws c'"
    obtain j i where p: "p = (j, i)" by fastforce
    have "p \<in> set ?ps" unfolding split by simp
    then have ji: "1 \<le> j" "j \<le> 64 div 4 ^ Suc L" "i < 4 ^ L" by (auto simp: p simp del: power_Suc upt_Suc)
    then have "j * 4 ^ Suc L \<le> 64" by (metis div_times_less_eq_dividend le_trans mult_le_mono1)
    then show "builds c' (and_step (Suc L) leveli p ws) (?I (dn @ [p]))"
      using builds_and_step [OF extends_ok [OF c'] ji(3,1) _ _ I] lev c'
      by (auto simp: p Un_commute intro: has_extends simp del: power_Suc)
  qed
  then show ?thesis
    by (rule builds_weaken) (use group_cells_cover [OF dv] in \<open>auto simp: filled_def simp del: power_Suc upt_Suc\<close>)
qed

definition and_tree :: "(nat \<Rightarrow> 'r::comm_ring_1) \<Rightarrow> nat \<Rightarrow> 'r" where
  "and_tree x = and_val (and_val (and_val x 0) 1) 2"

lemma builds_and_levels:
  assumes c: "circuit_ok c" and lev: "\<And>m. m < 64 \<Longrightarrow> has R inp c (ws ! m) (x m)"
  shows "builds c (forB and_level [1..<Suc 3] ws) (\<lambda>ws c'. \<forall>m<64. has R inp c' (ws ! m) (and_tree x m))"
proof -
  have levels: "[1..<Suc 3] = [Suc 0, Suc 1, Suc 2]" by (simp add: upt_rec)
  have dvds: "4 ^ Suc 0 dvd (64::nat)" "4 ^ Suc 1 dvd (64::nat)" "4 ^ Suc 2 dvd (64::nat)" by simp_all
  show ?thesis
    unfolding levels forB.simps
  proof (rule builds_bind [OF builds_and_level [OF c dvds(1) lev]])
    fix ws1 c1 assume c1: "extends c c1" and h: "\<forall>m<64. has R inp c1 (ws1 ! m) (and_val x 0 m)"
    show "builds c1 (bindB (and_level (Suc 1) ws1) (\<lambda>s. bindB (and_level (Suc 2) s) retB))
        (\<lambda>ws c'. \<forall>m<64. has R inp c' (ws ! m) (and_tree x m))"
    proof (rule builds_bind [OF builds_and_level [OF extends_ok [OF c1] dvds(2) h [rule_format]]], assumption)
      fix ws2 c2 assume c2: "extends c1 c2" and h: "\<forall>m<64. has R inp c2 (ws2 ! m) (and_val (and_val x 0) 1 m)"
      show "builds c2 (bindB (and_level (Suc 2) ws2) retB) (\<lambda>ws c'. \<forall>m<64. has R inp c' (ws ! m) (and_tree x m))"
        by (rule builds_bind [OF builds_and_level [OF extends_ok [OF c2] dvds(3) h [rule_format]]], assumption)
          (auto intro!: builds_ret extends_ok simp: and_tree_def)
    qed
  qed
qed

text \<open>The output of \<open>generatePrefixAND\<close>, for any ring.\<close>

definition prefixAND_val :: "(wire_t \<Rightarrow> 'r::comm_ring_1) \<Rightarrow> 'r" where
  "prefixAND_val inp = (\<Sum>m\<leftarrow>[0..<64]. step_val (\<lambda>m. and_tree inp m + 1) m * inp (64 + m)) + 1"

lemma generatePrefixAND_computes:
  fixes R :: "'r::comm_ring_1 ringops"
  shows "\<exists>c. generatePrefixAND = Inr c \<and> circuit_ok c \<and> inputs_first 128 c \<and>
    (\<exists>w. circ_outputs c = [w] \<and> wval R inp c w = prefixAND_val inp)"
proof -
  let ?c0 = "inputs_circuit 128" and ?v = "\<lambda>m. and_tree inp m + 1"
  let ?Q = "\<lambda>c. inputs_first 128 c \<and> (\<exists>w. circ_outputs c = [w] \<and> wval R inp c w = prefixAND_val inp)"
  have inp: "has R inp ?c0 w (inp w)" if "w < 128" for w using that by (rule has_inputs_circuit)
  let ?add1 = "\<lambda>wu. bindB (addConstOpGate kConstAdd wu 1) outputB"
  let ?rest = "\<lambda>leveli. bindB (forB (\<lambda>i wv. bindB (addConstOpGate kConstAdd (leveli ! i) 1) (\<lambda>w. retB (wv @ [w]))) [0..<64] []) (\<lambda>wv.
      bindB (prefixOR_diffs 0 wv) (\<lambda>wz. bindB (addGateV kDotprod wz [64..<128]) ?add1))"
  have "ends ?c0 (bindB (forB and_level [1..<Suc 3] [0..<64]) ?rest) ?Q"
  proof (rule ends_bind [OF builds_and_levels [OF inputs_circuit_ok, where x = inp]])
    show "has R inp ?c0 ([0..<64] ! m) (inp m)" if "m < 64" for m using inp [of m] that by simp
    fix lv c1 assume c1: "extends ?c0 c1" and lv: "\<forall>m<64. has R inp c1 (lv ! m) (and_tree inp m)"
    have wvB: "builds c1 (forB (\<lambda>i wv. bindB (addConstOpGate kConstAdd (lv ! i) 1) (\<lambda>w. retB (wv @ [w]))) [0..<64] [])
      (\<lambda>ws c'. length ws = length [0..<64] \<and> (\<forall>k<length [0..<64]. has R inp c' (ws ! k) (?v k)))"
      by (rule builds_append_loop [OF extends_ok [OF c1]])
        (use lv in \<open>auto intro!: builds_constAdd extends_ok intro: has_extends\<close>)
    show "ends c1 (?rest lv) ?Q"
    proof (rule ends_bind [OF wvB])
      fix wv c2 assume c2: "extends c1 c2" and wv: "length wv = length [0..<64] \<and> (\<forall>k<length [0..<64]. has R inp c2 (wv ! k) (?v k))"
      show "ends c2 (bindB (prefixOR_diffs 0 wv) (\<lambda>wz. bindB (addGateV kDotprod wz [64..<128]) ?add1)) ?Q"
      proof (rule ends_bind [OF builds_diffs [OF extends_ok [OF c2], where n = 1 and i = 0 and R = R and inp = inp and v = ?v]])
        show "has R inp c2 (wv ! m) (?v m)" if "m < 1 * 64" for m using wv that by simp
        fix wz c3 assume c3: "extends c2 c3"
          and wz: "length wz = 64 \<and> (\<forall>k<64. has R inp c3 (wz ! k) (step_val ?v (0 * 64 + k)))"
        have e: "extends ?c0 c3" using c1 c2 c3 by (blast intro: extends_trans)
        have D: "builds c3 (addGateV kDotprod wz [64..<128])
            (\<lambda>w c'. has R inp c' w (\<Sum>i\<leftarrow>[0..<length wz]. step_val ?v i * inp (64 + i)))"
        proof (rule builds_dotprod [OF extends_ok [OF c3]])
          show "length wz = length [64..<128]" using wz by simp
          fix i assume "i < length wz"
          then have i: "i < 64" using wz by simp
          show "has R inp c3 (wz ! i) (step_val ?v i)" using wz i by simp
          have "[64..<128] ! i = 64 + i" by (rule nth_upt) (use i in simp)
          then show "has R inp c3 ([64..<128] ! i) (inp (64 + i))"
            using has_extends [OF inp [of "64 + i"] e] i by (simp only:)
        qed
        show "ends c3 (bindB (addGateV kDotprod wz [64..<128]) ?add1) ?Q"
        proof (rule ends_bind [OF D])
          fix wu c4 assume c4: "extends c3 c4" and wu: "has R inp c4 wu (\<Sum>i\<leftarrow>[0..<length wz]. step_val ?v i * inp (64 + i))"
          show "ends c4 (?add1 wu) ?Q"
          proof (rule ends_bind [OF builds_constAdd [OF extends_ok [OF c4] wu]])
            fix w c5 assume c5: "extends c4 c5" and "has R inp c5 w ((\<Sum>i\<leftarrow>[0..<length wz]. step_val ?v i * inp (64 + i)) + 1)"
            then have w: "has R inp c5 w (prefixAND_val inp)" using wz by (simp add: prefixAND_val_def)
            have e5: "extends ?c0 c5" using e c4 c5 by (blast intro: extends_trans)
            then have "circ_outputs c5 = []" by (simp add: extends_def inputs_circuit_def)
            moreover have "wval R inp (c5\<lparr>circ_outputs := circ_outputs c5 @ [w]\<rparr>) w = prefixAND_val inp"
              using w by (simp add: has_def wval_def)
            ultimately show "ends c5 (outputB w) ?Q"
              using inputs_first_extends [OF e5] by (intro ends_output [OF extends_ok [OF c5] w]) simp
          qed
        qed
      qed simp
    qed
  qed
  then show ?thesis
    by (auto simp: generatePrefixAND_def runB_def ends_def Circuit_new_inputs bindB_def
        inputsB_eq [of 64 0, simplified] inputsB_eq [of 64 64, simplified])
qed

text \<open>
  The tree does not compute conjunctions of prefixes: with a single 0, at position 0, position 3 still carries 1.
\<close>

lemma and_tree_misses:
  "and_tree (\<lambda>m. of_bool (m \<noteq> 0) :: BoolRing) 3 = 1" "block_prod (\<lambda>m. of_bool (m \<noteq> 0) :: BoolRing) 3 3 = 0"
  by (simp_all add: and_tree_def and_val_def Let_def block_prod_def upt_rec)

subsection \<open>The auction\<close>

lemma liftA_bindB: "liftA (bindB m k) = bindA (liftA m) (\<lambda>x. liftA (k x))"
  by (rule ext) (simp add: liftA_def bindA_def bindB_def split: sum.splits)

text \<open>A match is won by the first bid unless the difference is negative.\<close>

definition winner :: "'r::comm_ring_1 ringops \<Rightarrow> 'r \<Rightarrow> 'r \<Rightarrow> 'r" where
  "winner R x y = (if msb R (x - y) then y else x)"

lemma makes_auction_match:
  fixes R :: "'r::comm_ring_1 ringops"
  assumes R: "\<not> is_BoolRing R" and c: "circuit_ok c" and a: "has R inp c a x" and b: "has R inp c b y"
  shows "makes c (liftA (auction_match a b)) (\<lambda>w c'. has R inp c' w (winner R x y))"
  unfolding auction_match_def liftA_bindB
proof (rule makes_bind [OF makes_sub [OF c a b]])
  fix t1 c1 assume c1: "grows c c1" and t1: "has R inp c1 t1 (x - y)"
  have "makes c1 (bindA (addGate1A kLtz t1) (\<lambda>t2. bindA (complA t2) (\<lambda>t4. bindA (addGate2A kMul t4 t1) (\<lambda>t5. addGate2A kAdd t5 b))))
      (\<lambda>w c'. has R inp c' w (winner R x y))"
  proof (rule makes_bind [OF makes_sign [OF _ R grows_ok [OF c1] t1]])
    fix t2 c2 assume c2: "grows c1 c2" and t2: "has R inp c2 t2 (of_bool (msb R (x - y)))"
    show "makes c2 (bindA (complA t2) (\<lambda>t4. bindA (addGate2A kMul t4 t1) (\<lambda>t5. addGate2A kAdd t5 b))) (\<lambda>w c'. has R inp c' w (winner R x y))"
    proof (rule makes_bind [OF makes_compl [OF grows_ok [OF c2] t2]])
      fix t4 c3 assume c3: "grows c2 c3" and t4: "has R inp c3 t4 (of_bool (\<not> msb R (x - y)))"
      note g = grows_trans [OF c2 c3]
      show "makes c3 (bindA (addGate2A kMul t4 t1) (\<lambda>t5. addGate2A kAdd t5 b)) (\<lambda>w c'. has R inp c' w (winner R x y))"
      proof (rule makes_bind [OF makes_mul [OF grows_ok [OF c3] t4 has_grows [OF t1 g]]])
        fix t5 c4 assume c4: "grows c3 c4" and t5: "has R inp c4 t5 (of_bool (\<not> msb R (x - y)) * (x - y))"
        have b4: "has R inp c4 b y" using b by (rule has_grows) (use c1 g c4 in \<open>blast intro: grows_trans\<close>)
        have "of_bool (\<not> msb R (x - y)) * (x - y) + y = winner R x y" by (simp add: winner_def)
        then show "makes c4 (addGate2A kAdd t5 b) (\<lambda>w c'. has R inp c' w (winner R x y))"
          using makes_add [OF grows_ok [OF c4] t5 b4] by simp
      qed
    qed
  qed simp
  then show "makes c1 (bindA (addGate1A kLtz t1) (\<lambda>t2. bindA (addConstA kConstMul t2 (- 1)) (\<lambda>t3.
      bindA (addConstA kConstAdd t3 1) (\<lambda>t4. bindA (addGate2A kMul t4 t1) (\<lambda>t5. addGate2A kAdd t5 b)))))
      (\<lambda>w c'. has R inp c' w (winner R x y))"
    by (simp add: complA_def bindA_assoc)
qed

text \<open>The bids after \<open>l\<close> rounds.\<close>

fun round_of :: "'r::comm_ring_1 ringops \<Rightarrow> (nat \<Rightarrow> 'r) \<Rightarrow> nat \<Rightarrow> nat \<Rightarrow> 'r" where
  "round_of R x 0 i = x i"
| "round_of R x (Suc l) i = winner R (round_of R x l (2 * i)) (round_of R x l (2 * i + 1))"

lemma makes_auction_level:
  fixes R :: "'r::comm_ring_1 ringops"
  assumes R: "\<not> is_BoolRing R" and c: "circuit_ok c" and l: "l < k"
    and lev: "length lev = 2 ^ (k - l)" "\<forall>i<2 ^ (k - l). has R inp c (lev ! i) (round_of R x l i)"
  shows "makes c (auction_level (2 ^ k) (Suc l) lev)
    (\<lambda>ws c'. length ws = 2 ^ (k - Suc l) \<and> (\<forall>i<2 ^ (k - Suc l). has R inp c' (ws ! i) (round_of R x (Suc l) i)))"
proof -
  have k: "(2::nat) ^ k = 2 ^ (k - Suc l) * 2 ^ Suc l" "(2::nat) ^ (k - l) = 2 * 2 ^ (k - Suc l)"
    using l by (simp_all flip: power_add power_Suc add: Suc_diff_Suc)
  have "(i * 2 ^ Suc l < 2 ^ k) = (i < 2 ^ (k - Suc l))" for i :: nat unfolding k(1) by simp
  moreover have "filter (\<lambda>i. i < n) [0..<n + j] = [0..<n]" for n j
    using upt_add_eq_append [of 0 n j] by (simp add: filter_empty_conv)
  from this [of "2 ^ (k - Suc l)" "2 ^ k - 2 ^ (k - Suc l)"] have "filter (\<lambda>i. i < 2 ^ (k - Suc l)) [0..<2 ^ k] = [0..<2 ^ (k - Suc l)]" by simp
  ultimately have range: "filter (\<lambda>i. i * 2 ^ Suc l < 2 ^ k) [0..<2 ^ k] = [0..<2 ^ (k - Suc l)]" by (simp only:)
  have n: "2 ^ k div 2 ^ Suc l = (2::nat) ^ (k - Suc l)" unfolding k(1) by simp
  show ?thesis
    unfolding auction_level_def range n
  proof (rule makes_fill [OF c])
    fix i :: nat and c' and es :: "wire_t list" assume i: "i < 2 ^ (k - Suc l)" "length es = 2 ^ (k - Suc l)" and c': "grows c c'"
    then have lt: "2 * i < length lev" "2 * i + 1 < length lev" using lev(1) k(2) by simp_all
    then have h: "has R inp c' (lev ! (2 * i)) (round_of R x l (2 * i))" "has R inp c' (lev ! (2 * i + 1)) (round_of R x l (2 * i + 1))"
      using lev has_grows [OF _ c'] by metis+
    have "makes c' (bindA (liftA (auction_match (lev ! (2 * i)) (lev ! (2 * i + 1)))) (\<lambda>w. retA (es[i := w])))
        (\<lambda>ns' c''. \<exists>w. ns' = es[i := w] \<and> has R inp c'' w (round_of R x (Suc l) i))"
      by (rule makes_bind [OF makes_auction_match [OF R grows_ok [OF c'] h]]) (auto intro!: makes_ret dest: grows_ok)
    then show "makes c' (bindA (atA lev (2 * i)) (\<lambda>x. bindA (atA lev (2 * i + 1)) (\<lambda>y. bindA (liftA (auction_match x y)) (\<lambda>w. putA es i w))))
        (\<lambda>ns' c''. \<exists>w. ns' = es[i := w] \<and> has R inp c'' w (round_of R x (Suc l) i))"
      using lt i by (simp add: atA_def putA_fun)
  qed
qed

lemma ilog2_power: "ilog2 (2 ^ k) = k"
  by (induction k) (simp_all add: ilog2.simps [of "2 ^ k" for k] ilog2.simps [of "2 * 2 ^ k" for k] ilog2.simps [of "Suc 0"] del: ilog2.simps)

text \<open>For \<open>2 ^ k\<close> bidders the output is the winning bid of the tournament.\<close>

lemma generateAuction_computes:
  fixes R :: "'r::comm_ring_1 ringops" and k :: nat
  assumes R: "\<not> is_BoolRing R"
  defines "N \<equiv> 2 ^ k"
  shows "\<exists>c w. generateAuction N = Some (Inr c) \<and> circuit_ok c \<and> prefix (map (Gate kInp) [0..<N * N + N]) (circ_gates c) \<and>
    circ_outputs c = [w] \<and> wval R inp c w = round_of R (\<lambda>i. inp (N * N + i)) k 0"
proof -
  let ?c0 = "inputs_circuit (N * N + N) :: 'r Circuit" and ?x = "\<lambda>i. inp (N * N + i)"
  let ?I = "\<lambda>l ws c'. length ws = 2 ^ (k - (l - 1)) \<and> (\<forall>i<2 ^ (k - (l - 1)). has R inp c' (ws ! i) (round_of R ?x (l - 1) i))"
  have "makes ?c0 (forA (auction_level N) [1..<Suc k] [N * N..<N * N + N]) (?I (Suc k))"
  proof (rule makes_upt [where I = ?I, OF inputs_circuit_ok])
    show "?I 1 [N * N..<N * N + N] ?c0" using has_inputs_circuit [of _ "N * N + N" R inp] by (simp add: N_def)
    fix l ws c' assume l: "1 \<le> l" "l < Suc k" and c': "grows ?c0 c'" and I: "?I l ws c'"
    then obtain j where j: "l = Suc j" "j < k" by (cases l) simp_all
    from makes_auction_level [OF R grows_ok [OF c'] j(2), of ws inp ?x] I
    show "makes c' (auction_level N l ws) (?I (Suc l))" by (simp add: j(1) N_def)
  qed simp
  then obtain ws c1 where a: "forA (auction_level N) [1..<Suc k] [N * N..<N * N + N] ?c0 = Some (Inr (ws, c1))" "grows ?c0 c1" "?I (Suc k) ws c1"
    by (rule makesE)
  then have w: "length ws = 1" "has R inp c1 (ws ! 0) (round_of R ?x k 0)" by simp_all
  let ?d = "c1\<lparr>circ_outputs := circ_outputs c1 @ [ws ! 0]\<rparr>"
  have o: "outputA (ws ! 0) c1 = Some (Inr ((), ?d))" "circuit_ok ?d"
    using marks_output [OF grows_ok [OF a(2)] w(2)] by (auto simp: marks_def)
  have "outputs_added ?c0 [ws ! 0] (c1\<lparr>circ_outputs := circ_outputs c1 @ [ws ! 0]\<rparr>)" by (rule outputs_added_output [OF a(2)])
  then have e: "circ_outputs ?d = [ws ! 0]" "prefix (map (Gate kInp) [0..<N * N + N]) (circ_gates ?d)"
    by (simp_all add: outputs_added_def inputs_circuit_def)
  have i1: "inputsB (N * N) (inputs_circuit 0) = Inr ([0..<N * N], inputs_circuit (N * N) :: 'r Circuit)"
    and i2: "inputsB N (inputs_circuit (N * N)) = Inr ([N * N..<N * N + N], ?c0)"
    using inputsB_eq [of "N * N" 0] inputsB_eq [of N "N * N"] by simp_all
  have at: "atA ws 0 = (retA (ws ! 0) :: ('r, wire_t) appb)" using w(1) by (simp add: atA_def)
  have "ilog2 N = k" by (simp add: N_def ilog2_power del: ilog2.simps)
  then have "generateAuction N = Some (Inr ?d)"
    using i1 i2 a(1) at o(1) unfolding generateAuction_def runA_def
    by (simp add: bindA_def liftA_def retA_def Circuit_new_inputs del: upt_Suc ilog2.simps)
  moreover have "wval R inp ?d (ws ! 0) = round_of R ?x k 0" using w(2) by (simp add: has_def wval_def)
  ultimately show ?thesis using o(2) e by blast
qed

end
