(* ===== verification/Clock_Source.thy ===== *)
theory Clock_Source
  imports Tdma
begin

section \<open>The time source and schedule files (time/, net/tdma_scheduler)\<close>

text \<open>
  Opening the shared clock, and reading a schedule from a file. The results of \<open>shm_open\<close> and \<open>mmap\<close> are
  arguments, as is the JSON library: what its accessors return, or the exception they throw.
\<close>

subsection \<open>Opening the clock\<close>

text \<open>The header of the shared page; its sampled fields are read through \<open>shm_read\<close>.\<close>

record TimeSrcShared =
  sh_magic :: u32
  sh_version :: u32
  sh_backend_id :: u32
  sh_quality_ns :: u32

definition SHM_MAGIC :: u32 where
  "SHM_MAGIC = 0x54535243"

definition SHM_VERSION :: u32 where
  "SHM_VERSION = 1"

record TimeSource =
  ts_shm :: "TimeSrcShared option"
  ts_fd :: int

text \<open>\<open>opened\<close> is the result of \<open>shm_open\<close>, \<open>mapped\<close> the page, or \<open>None\<close> for \<open>MAP_FAILED\<close>.\<close>

definition TimeSource_new :: "int \<Rightarrow> TimeSrcShared option \<Rightarrow> TimeSource" where
  "TimeSource_new opened mapped =
     (if opened < 0 then \<lparr>ts_shm = None, ts_fd = opened\<rparr>
      else case mapped of
          None \<Rightarrow> \<lparr>ts_shm = None, ts_fd = - 1\<rparr>
        | Some p \<Rightarrow> if sh_magic p \<noteq> SHM_MAGIC \<or> sh_version p \<noteq> SHM_VERSION then \<lparr>ts_shm = None, ts_fd = - 1\<rparr>
            else \<lparr>ts_shm = Some p, ts_fd = opened\<rparr>)"

definition TimeSource_ok :: "TimeSource \<Rightarrow> bool" where
  "TimeSource_ok ts \<longleftrightarrow> ts_shm ts \<noteq> None"

definition TimeSource_now_ns :: "TimeSource \<Rightarrow> (nat \<Rightarrow> shm_read) \<Rightarrow> u64 \<Rightarrow> u64" where
  "TimeSource_now_ns ts = now_ns (TimeSource_ok ts)"

definition quality_ns :: "TimeSource \<Rightarrow> u32" where
  "quality_ns ts = (case ts_shm ts of Some p \<Rightarrow> sh_quality_ns p | None \<Rightarrow> - 1)"

definition backend :: "TimeSource \<Rightarrow> u32" where
  "backend ts = (case ts_shm ts of Some p \<Rightarrow> sh_backend_id p | None \<Rightarrow> 0)"

definition backend_name :: "TimeSource \<Rightarrow> string" where
  "backend_name ts =
     (if backend ts = 1 then ''fake'' else if backend ts = 2 then ''ntp'' else if backend ts = 3 then ''ptp''
      else ''unknown'')"

text \<open>A source is usable exactly if the page could be mapped and has the expected header; otherwise no descriptor is kept.\<close>

lemma TimeSource_ok_iff:
  "TimeSource_ok (TimeSource_new fd m) \<longleftrightarrow> fd \<ge> 0 \<and> (\<exists>p. m = Some p \<and> sh_magic p = SHM_MAGIC \<and> sh_version p = SHM_VERSION)"
  by (auto simp: TimeSource_ok_def TimeSource_new_def split: option.splits)

lemma TimeSource_fd_iff: "ts_fd (TimeSource_new fd m) \<ge> 0 \<longleftrightarrow> TimeSource_ok (TimeSource_new fd m)"
  by (auto simp: TimeSource_ok_def TimeSource_new_def split: option.splits)

text \<open>Without a source the clock is the local one, and a scheduler that is given it never waits.\<close>

lemma no_source_local_clock: "\<not> TimeSource_ok ts \<Longrightarrow> TimeSource_now_ns ts reads raw = raw"
  by (simp add: TimeSource_now_ns_def now_ns_def)

lemma no_source_no_wait:
  "\<not> TimeSource_ok ts \<Longrightarrow>
   wait_for_slot clock guard (TDMAScheduler_new p (TimeSource_ok ts) s d) = Some (0, TDMAScheduler_new p (TimeSource_ok ts) s d)"
  by (simp add: wait_for_slot_def TDMAScheduler_new_def Let_def)

subsection \<open>Schedules from a file\<close>

text \<open>
  The accessors of a parsed file: \<open>value\<close> with a default, \<open>at\<close>, iteration, and the conversion to \<open>int\<close>.
\<close>

record ('j, 'e) json_lib =
  js_value :: "'j \<Rightarrow> string \<Rightarrow> u64 \<Rightarrow> 'e + u64"
  js_at :: "'j \<Rightarrow> string \<Rightarrow> 'e + 'j"
  js_items :: "'j \<Rightarrow> 'j list"
  js_int :: "'j \<Rightarrow> 'e + int"

definition TDMASchedule_default :: TDMASchedule where
  "TDMASchedule_default = \<lparr>slot_ns = 10000000, slot_owners = []\<rparr>"

fun json_owners :: "('j, 'e) json_lib \<Rightarrow> 'j list \<Rightarrow> 'e + int list" where
  "json_owners J [] = Inr []"
| "json_owners J (p # ps) =
     (case js_int J p of Inl e \<Rightarrow> Inl e
      | Inr i \<Rightarrow> map_sum (\<lambda>e. e) (\<lambda>is. i # is) (json_owners J ps))"

fun json_rows :: "('j, 'e) json_lib \<Rightarrow> 'j list \<Rightarrow> 'e + int list list" where
  "json_rows J [] = Inr []"
| "json_rows J (row # rows) =
     (case json_owners J (js_items J row) of Inl e \<Rightarrow> Inl e
      | Inr owners \<Rightarrow> map_sum (\<lambda>e. e) (\<lambda>rs. owners # rs) (json_rows J rows))"

text \<open>\<open>file\<close> is \<open>None\<close> if the file cannot be opened, \<open>Some (Inl e)\<close> if it does not parse.\<close>

definition from_json_file :: "('j, 'e) json_lib \<Rightarrow> ('e + 'j) option \<Rightarrow> 'e + TDMASchedule" where
  "from_json_file J file =
     (case file of
        None \<Rightarrow> Inr TDMASchedule_default
      | Some (Inl e) \<Rightarrow> Inl e
      | Some (Inr j) \<Rightarrow>
          (case js_value J j ''slot_ns'' 10000000 of Inl e \<Rightarrow> Inl e
           | Inr n \<Rightarrow>
               (case js_at J j ''schedule'' of Inl e \<Rightarrow> Inl e
                | Inr rows \<Rightarrow> map_sum (\<lambda>e. e) (\<lambda>owners. \<lparr>slot_ns = n, slot_owners = owners\<rparr>) (json_rows J (js_items J rows)))))"

text \<open>Without a file the schedule is not usable, so a scheduler built from it is disabled.\<close>

lemma missing_file_disables:
  "from_json_file J None = Inr s \<Longrightarrow> \<not> sched_ok s \<and> td_disabled (TDMAScheduler_new p ts s d)"
  by (auto simp: from_json_file_def TDMASchedule_default_def sched_ok_def TDMAScheduler_new_def Let_def)

text \<open>A file with a list of lists of integers gives these lists as the owners of the slots.\<close>

lemma json_owners_ints: "list_all2 (\<lambda>p i. js_int J p = Inr i) ps is \<Longrightarrow> json_owners J ps = Inr is"
  by (induction ps "is" rule: list_all2_induct) simp_all

lemma json_rows_ints:
  "list_all2 (\<lambda>row is. list_all2 (\<lambda>p i. js_int J p = Inr i) (js_items J row) is) rows iss \<Longrightarrow> json_rows J rows = Inr iss"
  by (induction rows iss rule: list_all2_induct) (simp_all add: json_owners_ints)

lemma from_json_file_reads:
  "js_value J j ''slot_ns'' 10000000 = Inr n \<Longrightarrow> js_at J j ''schedule'' = Inr sch \<Longrightarrow>
   list_all2 (\<lambda>row is. list_all2 (\<lambda>p i. js_int J p = Inr i) (js_items J row) is) (js_items J sch) iss \<Longrightarrow>
   from_json_file J (Some (Inr j)) = Inr \<lparr>slot_ns = n, slot_owners = iss\<rparr>"
  by (simp add: from_json_file_def json_rows_ints)

end
