(* ===== verification/Spec2Isabelle.thy ===== *)
theory Spec2Isabelle
  imports Online_BoolRun NetMP Assisted_Run Gridlock DarkPool_CDA NeuralNet_Lenet CircuitGen_More Clock_Source
begin

text \<open>
  A verification development for the Asterisk library: secure multi-party computation with
  \<open>nP\<close> computing parties \<open>1, \<dots>, nP\<close> and a helper, party 0, that deals correlated
  randomness (sources under \<open>src/code/src/\<close>).

  \<^bold>\<open>The program.\<close> A user builds an arithmetic circuit (\<open>utils/circuit.h\<close>), orders it by levels,
  runs the offline phase (\<open>asterisk/offline_evaluator.cpp\<close>) in which the helper deals an
  authenticated additive sharing of a random mask for every wire and of the products of
  masks each gate needs, and then the online phase
  (\<open>asterisk/online_evaluator_load_balanced.cpp\<close>) in which the parties hold every wire masked
  in the clear, open one share per interactive gate and level, check the MACs and unmask the
  outputs. Equality and comparison gates run a nested boolean circuit, batched over all the
  gates of a level.

  \<^bold>\<open>Theories, in the order of the imports.\<close>
  \<^item> \<open>Prelude\<close>: machine types, rewrite collections, the sum over the parties, fallible loops.
  \<^item> \<open>BoolRings\<close>: \<open>utils/types\<close> and \<open>utils/helpers\<close>: \<open>BoolRing\<close> as a commutative ring, packing of
    bits into bytes, index helpers, bit decomposition.
  \<^item> \<open>Circuits\<close>: gates, the builder calls with their exceptions, \<open>orderGatesByLevel\<close>, \<open>evaluate\<close>,
    and the reference evaluation they are compared with.
  \<^item> \<open>CircuitGen\<close>, \<open>CircuitGen_More\<close>: the static generators of \<open>circuit.h\<close> and the values of the circuits
    they return. The number of levels is 3 for the constant 64 of the code, and the integer logarithm of the
    number of bidders for the auction.
  \<^item> \<open>Sharing\<close>: \<open>AuthAddShare\<close> (a party's view) and \<open>TPShare\<close> (the helper's view) of
    \<open>asterisk/sharing.h\<close>, and \<open>dealt\<close>: the two views agree, the value is a given one and the MAC
    tags sum to key times value.
  \<^item> \<open>Offline_Shares\<close>: the generator pools and \<open>randomShare\<close>, \<open>randomShareSecret\<close>,
    \<open>randomShareWithParty\<close>; \<open>deal_sync\<close> states that the pools of all parties are in step.
  \<^item> \<open>Preproc\<close>: the classes of \<open>preproc.h\<close>, and the locale \<open>dealing\<close>: the two sharing routines, a
    joint-state invariant and the law that a call keeps it and deals a sharing. All offline
    gate lemmas are proved once in it.
  \<^item> \<open>Offline_Gates\<close>, \<open>Offline_Nested\<close>, \<open>Offline\<close>, \<open>Offline_Bool\<close>: \<open>setWireMasksParty\<close> gate by gate, the
    nested circuits of equality and comparison, the whole phase with its messages, and the
    boolean evaluator; the locale is interpreted three times (field shares, the nested boolean
    shares, the boolean evaluator).
  \<^item> \<open>Exchange\<close>: how shares are opened: the two-round load-balanced exchange and the opening
    through the helper, over the locale \<open>codec\<close> (encode and decode a vector of known length),
    interpreted for field elements and for packed bits.
  \<^item> \<open>Online_Gates\<close>, \<open>Online_Bool\<close>, \<open>Online_Nested\<close>, \<open>Online\<close>: masked evaluation of gates, the batch
    evaluator \<open>BoolEval\<close> of the nested circuits and \<open>BoolEvaluator\<close>, \<open>eqzEvaluate\<close> and
    \<open>ltzEvaluate\<close>, the field evaluator with inputs, levels, MAC check and outputs. The locale
    \<open>level_run\<close> (a level keeps the invariant and fixes the wires of its gates) is interpreted
    for all three evaluators.
  \<^item> \<open>Online_Correct\<close>, \<open>Online_Result\<close>, \<open>Online_BoolRun\<close>: what a run returns, in terms of the plaintext
    evaluation.
  \<^item> \<open>Assisted\<close>, \<open>Assisted_Deal\<close>, \<open>Assisted_Run\<close>: the offline phase of \<open>assistedMPC/\<close>: the sharing routines of the
    helper and of the parties, the gates on both sides, and the whole phase with its messages. Its
    \<open>sharing.h\<close> and \<open>preproc.h\<close> repeat the classes of \<open>asterisk/\<close>, whose definitions are used.

  \<^bold>\<open>The applications.\<close> Three classes under \<open>utils/\<close> build circuits for users of the protocol.
  \<^item> \<open>AppBuild\<close>: the builder with unchecked vectors, as a monad with the outcomes \<open>None\<close> (an access outside a
    vector), exception, and result with circuit; the judgements \<open>makes\<close> (gates are added) and \<open>marks\<close> (outputs
    too), with rules for loops.
  \<^item> \<open>Gridlock\<close>: \<open>SoDoGridLock\<close> of \<open>liquidity_matching.h\<close>; the tree product, the balances, the new selection.
  \<^item> \<open>DarkPool\<close>, \<open>DarkPool_CDA\<close>: \<open>darkpool.h\<close>, volume matching and the continuous double auction; what the
    output wires carry, and where the routines leave their vectors.
  \<^item> \<open>NeuralNet\<close>, \<open>NeuralNet_Conv\<close>, \<open>NeuralNet_Lenet\<close>: \<open>neural_network.h\<close>; a \<open>boost::multi_array\<close> is its
    shape and its elements in row-major order. Each layer is compared with a function on arrays of values
    (\<open>dense\<close>, \<open>relu_val\<close>, the zero-padded convolution \<open>conv_val\<close>, \<open>pool_val\<close>), and the networks \<open>fcnMNIST\<close> and
    \<open>lenetMNIST\<close> with their composition. The pooling factor, computed in \<open>double\<close> by the code, is the
    integer quotient, which is the same for fewer than \<open>2 ^ 36\<close> cells.

  \<^bold>\<open>How the model corresponds to the code.\<close> A class is a record with the fields of the class; a
  method is a function from the old to the new record. The joint run of all parties is a
  function on the vector of their records in which each party's step is its own method and a
  message is the value its sender computed, so sends and receives match by construction in
  the protocol theories. A C++ exception is \<open>Inl\<close>, an out-of-bounds access of a vector the code
  indexes without a check is \<open>None\<close>. The part of a party in a run is an \<open>outcome\<close>: \<open>Some (Inr r)\<close> if it
  returns, \<open>Some (Inl e)\<close> if it throws, as the owner of an input does whose value is missing
  (\<open>inputs.at\<close>), and \<open>None\<close> where it waits for ever for a message of such a party or leaves a vector.
  Integers of the ring are words where their width matters
  and elements of an arbitrary commutative ring otherwise. No fuel is used in the protocol
  theories: every loop there is bounded by a circuit, a vector or the number of parties.

  \<^bold>\<open>Parameters.\<close> Code that is not in the repository is an argument: NTL's conversions between
  \<open>ZZ_p\<close>, \<open>ZZ\<close> and machine words (\<open>conv_u64\<close>, \<open>on_zz\<close>, \<open>on_modulus\<close>, with \<open>zz_field\<close> as the documented
  behaviour), and the samplers of emp's generators. Witnesses instantiate
  them with arithmetic modulo a power of two and with counters.

  \<^bold>\<open>The network.\<close> Below the protocol, \<open>io/bcast_bus\<close> carries the messages: one socket per host, frames
  broadcast to all hosts and encrypted for one of them, retransmission on request.
  \<^item> \<open>AesCtr\<close>: integers as bytes, the key string and the nonce (both injective), encryption with
    OpenSSL's hash and key stream as parameters.
  \<^item> \<open>Bus\<close>: the frame format and the state of a \<open>BcastBus\<close>; \<open>Bus_Rx\<close>: reassembly and the byte queue, with the
    invariant \<open>rx_inv\<close> (what has been returned and what is queued is a prefix of what was sent);
    \<open>Bus_Nack\<close>: the search for gaps, whose loop need not end, the NACK budget, and the reachable states of a
    receiver (\<open>rx_reach\<close>) with what a round of requests does in each of them; \<open>Bus_Tx\<close>: \<open>send\<close> fragment by
    fragment, the buffer and the answers to NACKs; \<open>Bus_Pump\<close>: the pump, the witness role and \<open>sync\<close>.
  \<^item> \<open>Bus_System\<close>: a cluster of hosts over a network that loses, repeats and reorders datagrams, as the
    inductive step relation \<open>cl_step\<close>; its invariant, and the refinement of one FIFO pipe of bytes for
    each pair of hosts; what a data frame on the wire is encrypted with. Bounds: at most 256 hosts, fewer than \<open>2 ^ 32\<close> messages per channel of fewer than
    \<open>2 ^ 16\<close> fragments each (\<open>sane\<close>); beyond them the code loses data.
  \<^item> \<open>Bus_Properties\<close>: the theorems on the bus.
  \<^item> \<open>Tdma\<close>: \<open>net/tdma_scheduler\<close> and the reading of the shared clock of \<open>time/\<close>: slots, schedules, and
    the waiting loop as a partial function of the clock readings, since it need not end. \<open>Clock_Source\<close>:
    opening the clock and schedules from a file, with the system calls and the JSON library as parameters.
  \<^item> \<open>NetMP\<close>: \<open>io/netmp.h\<close> on the model of the bus: bytes, vectors of field elements and of booleans.

  \<^bold>\<open>What the properties show.\<close> The two \<open>computes_circuit\<close> theorems put both phases together:
  with generator pools in step and a value for every input at its owner (\<open>inputs_given\<close>), every party
  gets the plaintext outputs, through opening, MAC check and nested circuits; without such a value
  one owner throws and nobody gets a result. The others give the layers below (the invariant of
  the joint state, the opening, the dealing of shares, the operators on shares, level
  ordering and evaluation, the builder) and the places where the code deviates from its
  intent: the sign of the equality gate's mask, the input of the last party in the boolean
  evaluator, the weights of the MAC check, the seeding of the pools,
  the product sharings of the assisted phase, the guard band of the scheduler and the volume of the dark
  pool.

  \<^bold>\<open>Not modelled.\<close> Sockets, threads and log output of the bus (datagrams, clock readings and the results of
  \<open>sendto\<close> are inputs of the model); the \<open>ZZ_pE\<close> helpers, thin loops over NTL and emp that nothing
  calls; stream output; the legacy UDP channel (in no build target); benchmarks and tests. The protocol theories take a
  message as received as it was sent, which is what \<open>Bus_System\<close> proves of the bus.
\<close>

section \<open>Sample instances for the witnesses\<close>

text \<open>
  The ring \<open>u64\<close> (arithmetic modulo \<open>2 ^ 64\<close>) stands in for the field, a counter for the
  generator. The sample circuit multiplies two inputs and tests the product for zero.
\<close>

definition ex_circ :: "u64 Circuit" where
  "ex_circ = \<lparr>circ_outputs = [3],
     circ_gates = [Gate kInp 0, Gate kInp 1, FIn2Gate kMul 0 1 2, FIn1Gate kEqz 2 3]\<rparr>"

definition ex_inputs :: "(wire_t, u64) umap" where
  "ex_inputs = [(0, 6), (1, 0)]"

definition ex_ring :: "u64 ringops" where
  "ex_ring = \<lparr>is_BoolRing = False, conv_u64 = (\<lambda>x. x), R_of_u64 = (\<lambda>x. x)\<rparr>"

definition ex_env :: "(nat, u64) offline_env" where
  "ex_env = \<lparr>oe_nP = 2, oe_field = (\<lambda>g. (word_of_nat (7 * g + 3), g + 1)),
     oe_bool = (\<lambda>g. (BR (g mod 3 = 0), g + 1)), oe_conv = (\<lambda>x. x)\<rparr>"

definition ex_pids :: "(wire_t, nat) umap" where
  "ex_pids = [(0, 1), (1, 2)]"

lemma ex_circ_ok: "circuit_ok ex_circ"
  by (simp add: circuit_ok_def gates_ok_def ex_circ_def less_Suc_eq numeral_eq_Suc)

lemma ex_offline_ok: "offline_ok ex_env ex_circ ex_pids"
  using ex_circ_ok
  by (auto simp: offline_ok_def ex_env_def ex_circ_def ex_pids_def field_gate_kind_def arith_gate_def ran_def
      split: if_splits)

lemma ex_given: "inputs_given ex_circ ex_pids (\<lambda>p. [(p - 1, x)])"
proof -
  have "input_wires ex_circ = {0, 1}" by (simp add: input_wires_code ex_circ_def)
  then show ?thesis by (simp add: inputs_given_def party_of_def ex_pids_def)
qed

definition ex_tp :: "u64 \<Rightarrow> u64 \<Rightarrow> u64 TPShare" where
  "ex_tp v w = \<lparr>macKey = 7, tp_key_sh = [0, 3, 4], tp_values = [0, v, w], tp_tags = [0, 1, 7 * (v + w) - 1]\<rparr>"

definition ex_sh :: "u64 \<Rightarrow> u64 \<Rightarrow> nat \<Rightarrow> u64 AuthAddShare" where
  "ex_sh v w i = (if i = 1 then \<lparr>key_sh = 3, valueAt = v, tagAt = 1\<rparr>
     else \<lparr>key_sh = 4, valueAt = w, tagAt = 7 * (v + w) - 1\<rparr>)"

lemma ex_dealt: "dealt 2 (\<lambda>i. if i = 1 then 3 else 4) (ex_tp v w) (ex_sh v w) (v + w)"
  by (auto simp: dealt_def shared_def ex_tp_def ex_sh_def psum_def numeral_eq_Suc nth_Cons split: nat.splits)

definition ex_cmp_circ :: "u64 Circuit" where
  "ex_cmp_circ = \<lparr>circ_outputs = [2, 3, 4],
     circ_gates = [Gate kInp 0, Gate kInp 1, FIn2Gate kMul 0 1 2, FIn2Gate kSub 0 1 3, FIn1Gate kLtz 3 4]\<rparr>"

definition ex_online :: "(nat, u64) online_env" where
  "ex_online = \<lparr>on_nP = 2, on_conv = (\<lambda>x. x), on_zz = unat, on_modulus = 2 ^ 64,
     on_bit = (\<lambda>g. (BR (g mod 3 = 0), g + 1)), on_zzp = (\<lambda>g. (word_of_nat (7 * g + 3), g + 1)),
     on_rgen = (\<lambda>p. evaluator_rgen unat 0 p 200)\<rparr>"

lemma ex_cmp_ok: "offline_ok ex_env ex_cmp_circ ex_pids"
proof -
  have "circuit_ok ex_cmp_circ" by (simp add: circuit_ok_def gates_ok_def ex_cmp_circ_def less_Suc_eq numeral_eq_Suc)
  then show ?thesis
    by (auto simp: offline_ok_def ex_env_def ex_cmp_circ_def ex_pids_def field_gate_kind_def arith_gate_def ran_def
        split: if_splits)
qed

lemma ex_online_field: "zz_field ex_online \<and> 2 < on_modulus ex_online"
proof -
  have "unat (x :: u64) < 2 ^ 64" for x using unsigned_less [of x, where 'a = nat] by simp
  moreover have "unat (x + y) = (unat x + unat y) mod 2 ^ 64" for x y :: u64 by (simp add: unat_word_ariths)
  moreover have "unat (word_of_nat k :: u64) = k mod 2 ^ 64" for k by (simp add: unsigned_of_nat take_bit_eq_mod)
  moreover have "inj (unat :: u64 \<Rightarrow> nat)" by (simp add: inj_def word_unat_eq_iff)
  ultimately show ?thesis by (simp add: zz_field_def ex_online_def)
qed

lemma ex_owned: "\<forall>d\<in>ran (map_of ex_pids). d \<noteq> 0"
  by (auto simp: ex_pids_def ran_def split: if_splits)

lemma ex_online_env:
  "on_nP ex_online = oe_nP ex_env" "on_conv ex_online = oe_conv ex_env" "on_rgen ex_online = (\<lambda>p. evaluator_rgen unat 0 p 200)"
  "oe_nP ex_env \<le> 200"
  by (simp_all add: ex_online_def ex_env_def)

section \<open>Properties of the protocol\<close>

text \<open>
  C1: The protocol computes the circuit. If the dealer and the parties run the offline phase and the
  parties then run the online phase on what it leaves, with a value for every input at its owner,
  every party gets the values of the output wires in the plaintext evaluation, in which a comparison
  gate tells whether its input is in the upper half of the field. There is no exception and no abort.
  The equality gates must have mask bit 0, which the dealer draws; for the other case see
  \<open>equality_gate_output\<close>. If an owner has no value for one of its inputs, one such owner throws
  \<open>out_of_range\<close>, and all other parties and the dealer wait for ever.
\<close>

theorem mpc_computes_circuit:
  fixes E :: "('g, 'f::comm_ring_1) offline_env" and F :: "('g, 'f) online_env"
  assumes "offline_ok E c m" "oe_nP E \<le> seed" "\<forall>d\<in>ran (map_of m). d \<noteq> 0"
    "on_nP F = oe_nP E" "on_conv F = oe_conv E" "on_rgen F = (\<lambda>p. evaluator_rgen reseed fresh p 200)"
    "zz_field F \<and> 2 < on_modulus F"
  shows "\<exists>G st msgs. (\<forall>p. offline_run E c m (\<lambda>p. evaluator_rgen reseed fresh p seed) p = Inr (G p, st p, msgs p)) \<and>
    (\<forall>prg inputs. inputs_given c m inputs \<and> (\<forall>g\<in>set (circ_gates c). gtype g = kEqz \<longrightarrow> \<not> eqz_mask_bit (G 0) (gout g)) \<longrightarrow>
     (\<forall>me\<in>{1..oe_nP E}. evaluateCircuit F G (orderGatesByLevel c) prg inputs me =
        Some (Inr (map (\<lambda>w. vals_by (field_val F R (owned_input m inputs)) (circ_gates c) ! w) (circ_outputs c))))) \<and>
    (\<forall>prg inputs. \<not> inputs_given c m inputs \<longrightarrow>
     (\<exists>d\<in>{1..oe_nP E}. \<forall>me\<in>{0..oe_nP E}. evaluateCircuit F G (orderGatesByLevel c) prg inputs me =
        (if d = me then Some (Inl out_of_range) else None)))"
proof -
  obtain G st msgs kf kb \<delta>
    where run: "\<forall>p. offline_run E c m (\<lambda>p. evaluator_rgen reseed fresh p seed) p = Inr (G p, st p, msgs p)"
    and ready: "online_ready F c m kf kb \<delta> G"
    using offline_online_ready [OF assms(1-6)] by metis
  have "circuit_ok c" using assms(1) by (simp add: offline_ok_def)
  then have "evaluateCircuit F G (orderGatesByLevel c) prg inputs me =
        Some (Inr (map (\<lambda>w. vals_by (field_val F R (owned_input m inputs)) (circ_gates c) ! w) (circ_outputs c)))"
    if "inputs_given c m inputs" "\<forall>g\<in>set (circ_gates c). gtype g = kEqz \<longrightarrow> \<not> eqz_mask_bit (G 0) (gout g)"
      "me \<in> {1..oe_nP E}" for prg inputs me
    using evaluateCircuit_eq [OF ready, of inputs me prg R] online_vals_field [of F c "G 0"] assms(4,7) that by simp
  then show ?thesis
    using run evaluateCircuit_lacks [OF ready] unfolding assms(4) by (intro exI [of _ G] exI [of _ st] exI [of _ msgs]) blast
qed

theorem mpc_computes_circuit_witness:
  "\<exists>G st msgs. (\<forall>p. offline_run ex_env ex_cmp_circ ex_pids (\<lambda>p. evaluator_rgen unat 0 p 200) p = Inr (G p, st p, msgs p)) \<and>
     (\<forall>me\<in>{1..2}. evaluateCircuit ex_online G (orderGatesByLevel ex_cmp_circ) 5 (\<lambda>p. [(p - 1, if p = 1 then 6 else 7)]) me =
        Some (Inr [42, - 1, 1])) \<and>
     (\<exists>d\<in>{1..2}. \<forall>me\<in>{0..2}. evaluateCircuit ex_online G (orderGatesByLevel ex_cmp_circ) 5 (\<lambda>p. [(1, 7)]) me =
        (if d = me then Some (Inl out_of_range) else None))"
proof -
  have mask: "\<forall>g\<in>set (circ_gates ex_cmp_circ). gtype g = kEqz \<longrightarrow> \<not> eqz_mask_bit G0 (gout g)" for G0
    by (simp add: ex_cmp_circ_def)
  have wires: "input_wires ex_cmp_circ = {0, 1}" by (simp add: input_wires_code ex_cmp_circ_def)
  have given: "inputs_given ex_cmp_circ ex_pids (\<lambda>p. [(p - 1, if p = 1 then 6 else 7)])"
    and missing: "\<not> inputs_given ex_cmp_circ ex_pids (\<lambda>p. [(1, 7)])"
    unfolding inputs_given_def wires by (simp_all add: party_of_def ex_pids_def)
  have "ltz_M ex_online = 2 ^ 63" and n: "oe_nP ex_env = 2" by (simp_all add: ltz_M_def ex_online_def ex_env_def)
  moreover have "unat (- 1 :: u64) = 2 ^ 64 - 1" by (simp add: unsigned_minus_1_eq_mask mask_eq_exp_minus_1)
  ultimately have vals: "map (\<lambda>w. vals_by (field_val ex_online ex_ring (owned_input ex_pids (\<lambda>p. [(p - 1, if p = 1 then 6 else 7)])))
      (circ_gates ex_cmp_circ) ! w) (circ_outputs ex_cmp_circ) = [42, - 1, 1]"
    by (simp add: vals_by_def field_val_def owned_input_def party_of_def ex_pids_def ex_cmp_circ_def ex_online_def)
  with mpc_computes_circuit [OF ex_cmp_ok ex_online_env(4) ex_owned ex_online_env(1-3) ex_online_field, where R = ex_ring]
  show ?thesis unfolding n
  proof (elim ex_forward conjE, intro conjI)
    fix G st msgs
    assume yes: "\<forall>prg inputs. inputs_given ex_cmp_circ ex_pids inputs \<and>
        (\<forall>g\<in>set (circ_gates ex_cmp_circ). gtype g = kEqz \<longrightarrow> \<not> eqz_mask_bit (G 0) (gout g)) \<longrightarrow>
        (\<forall>me\<in>{1..2}. evaluateCircuit ex_online G (orderGatesByLevel ex_cmp_circ) prg inputs me =
          Some (Inr (map (\<lambda>w. vals_by (field_val ex_online ex_ring (owned_input ex_pids inputs)) (circ_gates ex_cmp_circ) ! w) (circ_outputs ex_cmp_circ))))"
      and no: "\<forall>prg inputs. \<not> inputs_given ex_cmp_circ ex_pids inputs \<longrightarrow> (\<exists>d\<in>{1..2}. \<forall>me\<in>{0..2}.
        evaluateCircuit ex_online G (orderGatesByLevel ex_cmp_circ) prg inputs me = (if d = me then Some (Inl out_of_range) else None))"
    show "\<forall>me\<in>{1..2}. evaluateCircuit ex_online G (orderGatesByLevel ex_cmp_circ) 5 (\<lambda>p. [(p - 1, if p = 1 then 6 else 7)]) me =
        Some (Inr [42, - 1, 1])"
      using yes [rule_format, OF conjI [OF given mask]] vals by (simp only:) simp
    show "\<exists>d\<in>{1..2}. \<forall>me\<in>{0..2}. evaluateCircuit ex_online G (orderGatesByLevel ex_cmp_circ) 5 (\<lambda>p. [(1, 7)]) me =
        (if d = me then Some (Inl out_of_range) else None)"
      by (rule no [rule_format, OF missing])
  qed
qed

text \<open>
  C2: The same for the boolean protocol, over bits, with inputs that belong to the parties
  \<open>1, \<dots>, n - 1\<close> (see \<open>bool_last_party_input\<close>): the offline phase raises no exception; with a value for
  every input at its owner, every party gets from \<open>BoolEvaluator::evaluateCircuit\<close> the values of the
  plaintext evaluation, and otherwise an owner throws and all others wait.
\<close>

theorem bool_mpc_computes_circuit:
  assumes "bool_offline_ok n c m bm" "n \<le> seed" "\<forall>d\<in>ran (map_of m). d \<noteq> 0 \<and> d \<noteq> n"
  shows "\<exists>G st msgs. (\<forall>p. bool_offline_run smp n c m bm (\<lambda>p. evaluator_rgen reseed fresh p seed) p = Inr (G p, st p, msgs p)) \<and>
    (\<forall>inputs. inputs_given c m inputs \<longrightarrow>
     (\<forall>me\<in>{1..n}. BoolEvaluator_evaluateCircuit smpI smpQ n (orderGatesByLevel c) G inputs
        (\<lambda>p. evaluator_rgen reseed' fresh' p seed') me =
      Some (Inr (map (\<lambda>w. wire_vals R (owned_input m inputs) (circ_gates c) ! w) (circ_outputs c))))) \<and>
    (\<forall>inputs. \<not> inputs_given c m inputs \<longrightarrow>
     (\<exists>d\<in>{1..<n}. \<forall>me. BoolEvaluator_evaluateCircuit smpI smpQ n (orderGatesByLevel c) G inputs
        (\<lambda>p. evaluator_rgen reseed' fresh' p seed') me = (if d = me then Some (Inl out_of_range) else None)))"
proof -
  obtain G st msgs kb \<delta>
    where run: "\<forall>p. bool_offline_run smp n c m bm (\<lambda>p. evaluator_rgen reseed fresh p seed) p = Inr (G p, st p, msgs p)"
    and ready: "bool_online_ready n c m bm kb \<delta> G (\<lambda>p. evaluator_rgen reseed' fresh' p seed')"
    using bool_offline_online_ready [OF assms] by metis
  then show ?thesis
    using BoolEvaluator_evaluateCircuit_eq [OF ready, where R = R] BoolEvaluator_evaluateCircuit_lacks [OF ready]
    by (intro exI [of _ G] exI [of _ st] exI [of _ msgs]) simp
qed

definition ex_bool_circ :: "BoolRing Circuit" where
  "ex_bool_circ = \<lparr>circ_outputs = [3],
     circ_gates = [Gate kInp 0, Gate kInp 1, FIn2Gate kMul 0 1 2, ConstOpGate kConstAdd 2 1 3]\<rparr>"

lemma ex_bool_mpc_ok: "bool_offline_ok 3 ex_bool_circ [(0, 1), (1, 2)] [(0, 0), (1, 1)]"
  by (auto simp: bool_offline_ok_def ex_bool_circ_def circuit_ok_def gates_ok_def arith_gate_def ran_def
      less_Suc_eq numeral_eq_Suc split: if_splits)

theorem bool_mpc_computes_circuit_witness:
  "\<exists>G st msgs. (\<forall>p. bool_offline_run (\<lambda>g. (BR (g mod 3 = 0), g + 1)) 3 ex_bool_circ [(0, 1), (1, 2)] [(0, 0), (1, 1)]
       (\<lambda>p. evaluator_rgen unat 0 p 200) p = Inr (G p, st p, msgs p)) \<and>
    (\<forall>me\<in>{1..3}. BoolEvaluator_evaluateCircuit (\<lambda>g. (BR (g mod 2 = 0), g + 1)) (\<lambda>g. (BR True, g)) 3
        (orderGatesByLevel ex_bool_circ) G (\<lambda>p. [(p - 1, 1)]) (\<lambda>p. evaluator_rgen unat 0 p 200) me = Some (Inr [0])) \<and>
    (\<exists>d\<in>{1..<3}. \<forall>me. BoolEvaluator_evaluateCircuit (\<lambda>g. (BR (g mod 2 = 0), g + 1)) (\<lambda>g. (BR True, g)) 3
        (orderGatesByLevel ex_bool_circ) G (\<lambda>p. [(1, 1)]) (\<lambda>p. evaluator_rgen unat 0 p 200) me =
      (if d = me then Some (Inl out_of_range) else None))"
proof -
  have own: "\<forall>d\<in>ran (map_of [(0 :: nat, 1 :: nat), (1, 2)]). d \<noteq> 0 \<and> d \<noteq> 3"
    by (auto simp: ran_def split: if_splits)
  have wires: "input_wires ex_bool_circ = {0, 1}" by (simp add: input_wires_code ex_bool_circ_def)
  have given: "inputs_given ex_bool_circ [(0, 1), (1, 2)] (\<lambda>p. [(p - 1, 1)])"
    and missing: "\<not> inputs_given ex_bool_circ [(0, 1), (1, 2)] (\<lambda>p. [(1, 1)])"
    unfolding inputs_given_def wires by (simp_all add: party_of_def)
  have vals: "map (\<lambda>w. wire_vals R (owned_input [(0, 1), (1, 2)] (\<lambda>p. [(p - 1, 1)])) (circ_gates ex_bool_circ) ! w)
      (circ_outputs ex_bool_circ) = [0]" for R
    by (simp add: wire_vals_def vals_by_def owned_input_def party_of_def ex_bool_circ_def)
  let ?R = "\<lparr>is_BoolRing = True, conv_u64 = (\<lambda>_. 0), R_of_u64 = (\<lambda>_. 0)\<rparr> :: BoolRing ringops"
  let ?run = "\<lambda>G inputs. BoolEvaluator_evaluateCircuit (\<lambda>g. (BR (g mod 2 = 0), g + 1)) (\<lambda>g. (BR True, g)) 3
      (orderGatesByLevel ex_bool_circ) G inputs (\<lambda>p. evaluator_rgen unat 0 p 200)"
  have seed: "(3 :: nat) \<le> 200" by simp
  show ?thesis
    using bool_mpc_computes_circuit [OF ex_bool_mpc_ok seed own, where smp = "\<lambda>g. (BR (g mod 3 = 0), g + 1)" and
      reseed = unat and fresh = 0 and smpI = "\<lambda>g. (BR (g mod 2 = 0), g + 1)" and smpQ = "\<lambda>g. (BR True, g)" and
      reseed' = unat and fresh' = 0 and seed' = 200 and R = ?R]
  proof (elim ex_forward conjE, intro conjI)
    fix G st msgs
    assume yes: "\<forall>inputs. inputs_given ex_bool_circ [(0, 1), (1, 2)] inputs \<longrightarrow> (\<forall>me\<in>{1..3}. ?run G inputs me =
        Some (Inr (map (\<lambda>w. wire_vals ?R (owned_input [(0, 1), (1, 2)] inputs) (circ_gates ex_bool_circ) ! w) (circ_outputs ex_bool_circ))))"
      and no: "\<forall>inputs. \<not> inputs_given ex_bool_circ [(0, 1), (1, 2)] inputs \<longrightarrow>
        (\<exists>d\<in>{1..<3}. \<forall>me. ?run G inputs me = (if d = me then Some (Inl out_of_range) else None))"
    show "\<forall>me\<in>{1..3}. ?run G (\<lambda>p. [(p - 1, 1)]) me = Some (Inr [0])"
      using yes [rule_format, OF given] vals [of ?R] by (simp only:) simp
    show "\<exists>d\<in>{1..<3}. \<forall>me. ?run G (\<lambda>p. [(1, 1)]) me = (if d = me then Some (Inl out_of_range) else None)"
      by (rule no [rule_format, OF missing])
  qed
qed

text \<open>
  C5: What an equality gate returns. After a run on dealt preprocessing with a value for every input,
  an output that is an equality gate has the value 1 if the gate's input is 0. Otherwise it has the value 0 only if the
  gate's mask bit is 0: with mask bit 1 it is 4, because \<open>eqzEvaluate\<close> subtracts the product of the
  masked bit and the shared mask bit from the correction it opens, where \<open>ltzEvaluate\<close> adds it.
\<close>

theorem equality_gate_output:
  fixes E :: "('g, 'f::comm_ring_1) online_env"
  assumes "online_ready E c m kf kb \<delta> G" "zz_field E" "1 \<le> me" "me \<le> on_nP E"
    "g \<in> set (circ_gates c)" "gtype g = kEqz" "i < length (circ_outputs c)" "circ_outputs c ! i = gout g" "inputs_given c m inputs"
  shows "\<exists>outs. evaluateCircuit E G (orderGatesByLevel c) prg inputs me = Some (Inr outs) \<and> outs ! i =
    (if online_vals E (G 0) \<delta> R (owned_input m inputs) (circ_gates c) ! (gins g ! 0) = 0 then 1
     else if eqz_mask_bit (G 0) (gout g) then 4 else 0)"
proof -
  have c: "circuit_ok c" and ok: "gates_ok (circ_gates c)" using assms(1) by (auto simp: online_ready_def circuit_ok_def)
  have out: "gout g < length (circ_gates c)" by (rule gout_less [OF c assms(5)])
  have nth: "circ_gates c ! gout g = g" using assms(5) gates_okD(1) [OF ok] by (auto simp: in_set_conv_nth)
  have "online_vals E (G 0) \<delta> R (owned_input m inputs) (circ_gates c) ! gout g =
      (if online_vals E (G 0) \<delta> R (owned_input m inputs) (circ_gates c) ! (gins g ! 0) = 0 then 1
       else if eqz_mask_bit (G 0) (gout g) then 4 else 0)"
    unfolding online_vals_fix [OF ok out] nth
    using assms(6) by (simp add: online_val_def eqz_out_cases eqz_bit_eq [OF assms(2)])
  with evaluateCircuit_eq [OF assms(1,9,3,4), of prg R] assms(7,8) show ?thesis by simp
qed

theorem equality_gate_output_witness:
  "\<exists>G kf kb \<delta>. online_ready ex_online ex_circ ex_pids kf kb \<delta> G \<and>
     (\<exists>outs. evaluateCircuit ex_online G (orderGatesByLevel ex_circ) 5 (\<lambda>p. [(p - 1, 6)]) 1 = Some (Inr outs) \<and>
       outs ! 0 = (if eqz_mask_bit (G 0) 3 then 4 else 0)) \<and>
     (\<exists>outs. evaluateCircuit ex_online G (orderGatesByLevel ex_circ) 5 (\<lambda>p. [(p - 1, 0)]) 1 = Some (Inr outs) \<and> outs ! 0 = 1)"
proof -
  obtain G kf kb \<delta> where ready: "online_ready ex_online ex_circ ex_pids kf kb \<delta> G"
    using offline_online_ready [OF ex_offline_ok ex_online_env(4) ex_owned ex_online_env(1-3), of unat 0] by metis
  note eq = equality_gate_output [OF ready conjunct1 [OF ex_online_field] _ _ _ _ _ _ ex_given, where me = 1 and
      g = "FIn1Gate kEqz 2 3" and i = 0 and prg = 5 and R = ex_ring]
  show ?thesis
    using ready eq [of 6] eq [of 0]
    by (intro exI [of _ G] exI [of _ kf] exI [of _ kb] exI [of _ \<delta>])
      (simp add: ex_circ_def online_vals_def vals_by_def online_val_def owned_input_def party_of_def ex_pids_def ex_online_def)
qed

text \<open>
  C6: The MAC check. If the parties hold the same opened values \<open>q\<close> and authenticated sharings of \<open>x\<close>
  for the multiplication gates, the check accepts exactly if the MAC key annihilates the sum of the
  deviations \<open>q - x\<close>, weighted with the common random numbers; in particular if nothing deviates.
\<close>

theorem MAC_check_accepts_iff:
  fixes E :: "('g, 'f::comm_ring_1) online_env"
  assumes "\<forall>p\<in>{1..on_nP E}. key_sh (sh_at (G p) 0) = kf p"
    "\<forall>g\<in>set (concat (gates_by_level circ)). mac_terms (gtype g) \<noteq> 0 \<longrightarrow>
       (\<forall>p\<in>{1..on_nP E}. q_val (S p) ! gout g = q (gout g)) \<and> shared (on_nP E) kf (\<lambda>p. q_sh (S p) ! gout g) (x (gout g))"
  shows "MACVerification E G circ prg S \<longleftrightarrow>
    psum (on_nP E) kf * mac_deviation (on_zzp E) (\<lambda>w. q w - x w) (concat (gates_by_level circ)) prg = 0"
  by (rule MACVerification_iff [OF _ assms(2)]) (use assms(1) in auto)

definition ex_mac_circ :: "u64 LevelOrderedCircuit" where
  "ex_mac_circ = \<lparr>num_gates = 2, gate_count = (\<lambda>_. 1), outputs = [1], gates_by_level = [[Gate kInp 0], [FIn2Gate kMul 0 0 1]]\<rparr>"

definition ex_mac_pre :: "nat \<Rightarrow> u64 field_gate option list" where
  "ex_mac_pre p = [Some (PreprocInput (ex_sh 5 6 p, ex_tp 5 6) 1 0)]"

definition ex_mac_st :: "u64 \<Rightarrow> nat \<Rightarrow> u64 online" where
  "ex_mac_st q p = \<lparr>wires = [0, q], q_sh = [AuthAddShare_default, ex_sh 5 6 p], q_val = [0, q]\<rparr>"

theorem MAC_check_accepts_iff_witness:
  "\<not> MACVerification ex_online ex_mac_pre ex_mac_circ 5 (ex_mac_st 12) \<and>
   MACVerification ex_online ex_mac_pre ex_mac_circ 5 (ex_mac_st 11)"
proof -
  let ?kf = "\<lambda>i :: nat. if i = 1 then 3 else 4 :: u64"
  have key: "\<forall>p\<in>{1..on_nP ex_online}. key_sh (sh_at (ex_mac_pre p) 0) = ?kf p"
    by (simp add: ex_online_def ex_mac_pre_def sh_at_def mask_at_def ex_sh_def)
  have sh: "shared 2 ?kf (ex_sh 5 6) (5 + 6)" using dealt_shared [OF ex_dealt [of 5 6]] .
  have op: "\<forall>g\<in>set (concat (gates_by_level ex_mac_circ)). mac_terms (gtype g) \<noteq> 0 \<longrightarrow>
       (\<forall>p\<in>{1..on_nP ex_online}. q_val (ex_mac_st q p) ! gout g = (\<lambda>_. q) (gout g)) \<and>
       shared (on_nP ex_online) ?kf (\<lambda>p. q_sh (ex_mac_st q p) ! gout g) ((\<lambda>_. 11) (gout g))" for q
    using sh by (simp add: ex_mac_circ_def mac_terms_def ex_mac_st_def ex_online_def)
  have four: "(f ^^ 4) x = f (f (f (f x)))" for f :: "nat \<times> u64 \<Rightarrow> nat \<times> u64" and x by (simp add: eval_nat_numeral)
  have K: "psum (on_nP ex_online) ?kf = 7" by (simp add: psum_def ex_online_def upt_conv_Cons)
  have dev: "mac_deviation (on_zzp ex_online) (\<lambda>w. q - 11) (concat (gates_by_level ex_mac_circ)) 5 = 194 * (q - 11)" for q
    by (simp add: mac_deviation_def mac_terms_def dev_term_def four ex_mac_circ_def ex_online_def algebra_simps)
  show ?thesis
    unfolding MAC_check_accepts_iff [OF key op [of 12], of 5] MAC_check_accepts_iff [OF key op [of 11], of 5] K dev by simp
qed

text \<open>
  C7: An input that belongs to the last party: \<open>BoolEvaluator::setInputs\<close> counts the inputs per owner
  in a vector of \<open>nP\<close> entries, which it indexes out of bounds, so that no party gets a result. The
  only other way for a party to stop is that it lacks the value of one of its own inputs, which
  comes first.
\<close>

theorem bool_last_party_input:
  assumes "gates_dealt n kb (arith_ok n kb) (bit_inp m bm) \<delta> (concat (gates_by_level (orderGatesByLevel c))) 0 G"
    "circuit_ok c" "g \<in> set (circ_gates c)" "gtype g = kInp" "party_of m (gout g) = n"
  shows "BoolEvaluator_evaluateCircuit smp smp4 n (orderGatesByLevel c) G inputs rgen me = None \<or>
    BoolEvaluator_evaluateCircuit smp smp4 n (orderGatesByLevel c) G inputs rgen me = Some (Inl out_of_range) \<and>
      (\<exists>w\<in>input_wires c. party_of m w = me \<and> map_of (inputs me) w = None)"
  by (rule BoolEvaluator_last_party_input [OF assms])

theorem bool_last_party_input_witness:
  "\<exists>G. BoolEvaluator_evaluateCircuit (\<lambda>g. (BR True, g)) (\<lambda>g. (BR True, g)) 2 (orderGatesByLevel ex_bool_circ) G
     (\<lambda>p. [(p - 1, 1)]) (\<lambda>p. evaluator_rgen unat 0 p 200) 1 = None"
proof -
  have ok: "bool_offline_ok 2 ex_bool_circ [(0, 1), (1, 2)] [(0, 0), (1, 1)]"
    by (auto simp: bool_offline_ok_def ex_bool_circ_def circuit_ok_def gates_ok_def arith_gate_def ran_def
        less_Suc_eq numeral_eq_Suc split: if_splits)
  have "rgs_ok 2 (\<lambda>p. evaluator_rgen unat (0 :: nat) p 200)" by (simp add: evaluator_rgens_ok)
  from bool_offline_run_dealt [OF ok this, of "\<lambda>g. (BR True, g)"] obtain G kb \<delta> where
    "gates_dealt 2 kb (arith_ok 2 kb) (bit_inp [(0, 1), (1, 2)] [(0, 0), (1, 1)]) \<delta>
      (concat (gates_by_level (orderGatesByLevel ex_bool_circ))) 0 G" by blast
  note none = bool_last_party_input [OF this, where g = "Gate kInp 1" and me = 1 and inputs = "\<lambda>p. [(p - 1, 1)]"]
  have c: "circuit_ok ex_bool_circ" using ok by (simp add: bool_offline_ok_def)
  have "input_wires ex_bool_circ = {0, 1}" by (simp add: input_wires_code ex_bool_circ_def)
  then have "\<not> (\<exists>w\<in>input_wires ex_bool_circ. party_of [(0, 1), (1, 2)] w = 1 \<and> map_of [(1 - 1 :: nat, 1 :: BoolRing)] w = None)"
    by (simp add: party_of_def)
  moreover have "Gate kInp 1 \<in> set (circ_gates ex_bool_circ)" "party_of [(0, 1), (1, 2)] (gout (Gate kInp 1 :: BoolRing gate)) = 2"
    by (simp_all add: ex_bool_circ_def party_of_def)
  ultimately show ?thesis using none [OF c] by (metis gtype.simps(1))
qed

text \<open>
  C8: The load-balanced opening. Whatever the number of values and of parties, after the two rounds
  in which each party adds up one slice of the vectors and distributes it, every party holds the sum
  of all vectors, over field elements as well as over packed bits.
\<close>

theorem exchange_opens_sum:
  assumes "0 < nP"
  shows "exchange (\<lambda>xs. xs) raw_dec tot nP comm me = map (\<lambda>j. psum nP (\<lambda>p. comm p ! j)) [0..<tot] \<and>
    exchange pack unpack_len len nP bcomm me = map (\<lambda>j. psum nP (\<lambda>p. bcomm p ! j)) [0..<len]"
  using raw.exchange_sum [OF assms] packed.exchange_sum [OF assms] by blast

theorem exchange_opens_sum_witness:
  "exchange (\<lambda>xs. xs) raw_dec 5 3 (\<lambda>p. [1, 2, 3, 4, of_nat p :: u64]) 2 = [3, 6, 9, 12, 6] \<and>
   exchange pack unpack_len 2 3 (\<lambda>p. [1, 0]) 2 = [1, 0]"
  using exchange_opens_sum [of 3 5 "\<lambda>p. [1, 2, 3, 4, of_nat p :: u64]" 2 2 "\<lambda>p. [1, 0]"]
  by (simp add: psum_def upt_conv_Cons)

text \<open>
  C9: The invariant of the online phase holds after every run in which each input has a value at its
  owner: all parties have started, and they hold the same masked value of every wire, and for every multiplication gate the opened value and an authenticated
  sharing of it.
\<close>

theorem online_run_keeps_invariant:
  fixes E :: "('g, 'f::comm_ring_1) online_env"
  assumes "online_ready E c m kf kb \<delta> G" "inputs_given c m inputs"
  shows "\<exists>S. (\<forall>p. online_start G inputs (orderGatesByLevel c) p = Some (Inr (S p))) \<and>
    online_inv E kf (online_vals E (G 0) \<delta> R (owned_input m inputs) (circ_gates c)) \<delta> (mult_wires c) (gout ` set (circ_gates c))
      (fold (evaluateGatesAtDepth E G) (gates_by_level (orderGatesByLevel c)) S)"
  by (rule online_run_inv [OF assms])

theorem online_run_keeps_invariant_witness:
  "\<exists>G kf kb \<delta> S. (\<forall>p. online_start G (\<lambda>p. [(p - 1, 6)]) (orderGatesByLevel ex_circ) p = Some (Inr (S p))) \<and>
     online_inv ex_online kf (online_vals ex_online (G 0) \<delta> ex_ring (owned_input ex_pids (\<lambda>p. [(p - 1, 6)])) (circ_gates ex_circ)) \<delta>
       (mult_wires ex_circ) (gout ` set (circ_gates ex_circ))
       (fold (evaluateGatesAtDepth ex_online G) (gates_by_level (orderGatesByLevel ex_circ)) S)"
  using offline_online_ready [OF ex_offline_ok ex_online_env(4) ex_owned ex_online_env(1-3), of unat 0]
    online_run_keeps_invariant [OF _ ex_given, of ex_online _ _ _ _ 6 ex_ring] by blast

section \<open>Properties of the offline phase\<close>

text \<open>
  C10: The offline phase, run by the dealer and \<open>nP\<close> parties whose generators come from the
  constructors of the evaluators with an argument \<open>seed\<close> of at least \<open>nP\<close>, raises no exception on a
  well-formed circuit and ends in dealt sharings: every wire has an authenticated sharing of its
  mask, every multiplication, equality and comparison gate the sharings it needs (\<open>field_ok\<close>), and
  the party that provides an input knows its mask. The dealer's output masks are the masks of the
  output wires.
\<close>

theorem offline_phase_deals:
  fixes E :: "('g, 'f::comm_ring_1) offline_env"
  assumes "offline_ok E c m" "oe_nP E \<le> seed"
  shows "\<exists>G st msgs kf kb \<delta>.
    (\<forall>p. offline_run E c m (\<lambda>p. evaluator_rgen reseed fresh p seed) p = Inr (G p, st p, msgs p)) \<and>
    full_sync (oe_nP E) kf kb st \<and>
    gates_dealt (oe_nP E) kf (field_ok (oe_nP E) kf kb (oe_conv E)) (party_inp m) \<delta>
      (concat (gates_by_level (orderGatesByLevel c))) 0 G \<and>
    getOutputMasks (orderGatesByLevel c) 0 (G 0) = map \<delta> (circ_outputs c)"
proof -
  obtain G st msgs kf kb \<delta>
    where run: "\<forall>p. offline_run E c m (\<lambda>p. evaluator_rgen reseed fresh p seed) p = Inr (G p, st p, msgs p)"
      "full_sync (oe_nP E) kf kb st"
    and G: "gates_dealt (oe_nP E) kf (field_ok (oe_nP E) kf kb (oe_conv E)) (party_inp m) \<delta>
      (concat (gates_by_level (orderGatesByLevel c))) 0 G"
    using offline_run_dealt [OF assms(1)] assms(2) by (metis evaluator_rgens_ok)
  have c: "circuit_ok c" using assms(1) by (simp add: offline_ok_def)
  have "getOutputMasks (orderGatesByLevel c) 0 (G 0) = map \<delta> (circ_outputs c)"
    using gates_dealt_secret [OF G c] c by (auto simp: getOutputMasks_def circuit_ok_def)
  with run G show ?thesis by blast
qed

theorem offline_phase_deals_witness:
  "\<exists>G st msgs kf kb \<delta>.
    (\<forall>p. offline_run ex_env ex_circ ex_pids (\<lambda>p. evaluator_rgen unat 0 p 200) p = Inr (G p, st p, msgs p)) \<and>
    full_sync (oe_nP ex_env) kf kb st \<and>
    gates_dealt (oe_nP ex_env) kf (field_ok (oe_nP ex_env) kf kb (oe_conv ex_env)) (party_inp ex_pids) \<delta>
      (concat (gates_by_level (orderGatesByLevel ex_circ))) 0 G \<and>
    getOutputMasks (orderGatesByLevel ex_circ) 0 (G 0) = map \<delta> (circ_outputs ex_circ)"
  by (rule offline_phase_deals [OF ex_offline_ok]) (simp add: ex_env_def)

text \<open>
  C11: The same for the boolean offline evaluator: an input of a party has a mask the party knows,
  and an input of the dealer has the mask the caller passes.
\<close>

theorem bool_offline_phase_deals:
  assumes "bool_offline_ok n c m bm" "n \<le> seed"
  shows "\<exists>G st msgs kb \<delta>.
    (\<forall>p. bool_offline_run smp n c m bm (\<lambda>p. evaluator_rgen reseed fresh p seed) p = Inr (G p, st p, msgs p)) \<and>
    deal_sync n kb st \<and>
    gates_dealt n kb (arith_ok n kb) (bit_inp m bm) \<delta> (concat (gates_by_level (orderGatesByLevel c))) 0 G \<and>
    map secret (snd (bool_getOutputMasks (orderGatesByLevel c) 0 (G 0))) = map \<delta> (circ_outputs c)"
proof -
  obtain G st msgs kb \<delta>
    where run: "\<forall>p. bool_offline_run smp n c m bm (\<lambda>p. evaluator_rgen reseed fresh p seed) p = Inr (G p, st p, msgs p)"
      "deal_sync n kb st"
    and G: "gates_dealt n kb (arith_ok n kb) (bit_inp m bm) \<delta> (concat (gates_by_level (orderGatesByLevel c))) 0 G"
    using bool_offline_run_dealt [OF assms(1)] assms(2) by (metis evaluator_rgens_ok)
  have c: "circuit_ok c" using assms(1) by (simp add: bool_offline_ok_def)
  have "map secret (snd (bool_getOutputMasks (orderGatesByLevel c) 0 (G 0))) = map \<delta> (circ_outputs c)"
    using gates_dealt_secret [OF G c] c by (auto simp: bool_getOutputMasks_def circuit_ok_def)
  with run G show ?thesis by blast
qed

lemma ex_bool_ok: "bool_offline_ok 2 ex_bool_circ [(0, 1), (1, 0)] [(0, 0), (1, 1)]"
  by (auto simp: bool_offline_ok_def ex_bool_circ_def circuit_ok_def gates_ok_def arith_gate_def ran_def
      less_Suc_eq numeral_eq_Suc split: if_splits)

theorem bool_offline_phase_deals_witness:
  "\<exists>G st msgs kb \<delta>.
    (\<forall>p. bool_offline_run (\<lambda>g. (BR (g mod 3 = 0), g + 1)) 2 ex_bool_circ [(0, 1), (1, 0)] [(0, 0), (1, 1)]
       (\<lambda>p. evaluator_rgen unat 0 p 200) p = Inr (G p, st p, msgs p)) \<and>
    deal_sync 2 kb st \<and>
    gates_dealt 2 kb (arith_ok 2 kb) (bit_inp [(0, 1), (1, 0)] [(0, 0), (1, 1)]) \<delta>
      (concat (gates_by_level (orderGatesByLevel ex_bool_circ))) 0 G \<and>
    map secret (snd (bool_getOutputMasks (orderGatesByLevel ex_bool_circ) 0 (G 0))) = map \<delta> (circ_outputs ex_bool_circ)"
  by (rule bool_offline_phase_deals [OF ex_bool_ok]) simp

text \<open>
  C12: The messages of the dealer arrive: the last party unpacks from lengths, field elements and
  packed bits exactly the six vectors the dealer's run has filled.
\<close>

theorem offline_messages_roundtrip:
  "receive_msgs (dealer_msgs v bv) = (v, bv) \<and> bool_receive_msgs (bool_dealer_msgs bv) = bv"
  using receive_dealer_msgs [of v bv] split_join_vecs [of bv]
  by (simp add: bool_receive_msgs_def bool_dealer_msgs_def)

text \<open>
  C13: The evaluators construct their generator pools as \<open>rgen_(my_id, seed)\<close>, which makes \<open>seed\<close>
  the number of parties; so the pools of the dealer and \<open>nP\<close> parties fit together exactly when
  \<open>nP\<close> is at most the seed, whatever the generator is.
\<close>

theorem evaluator_pools_fit_iff:
  "rgs_ok nP (\<lambda>p. evaluator_rgen reseed fresh p seed) \<longleftrightarrow> nP \<le> seed"
  by (rule evaluator_rgens_ok)

text \<open>
  C14: Dealing a secret. If the pools of dealer and parties are in step and the last party holds
  what the dealer writes, \<open>randomShareSecret\<close> leaves them in step and an authenticated sharing of
  the dealer's secret, of which the dealer has a copy.
\<close>

theorem randomShareSecret_deals:
  assumes "deal_sync n kf st" "deal_bufs n (\<lambda>p. snd (call_randomShareSecret smp n p (x p) (st p)))"
  shows "deal_sync n kf (\<lambda>p. snd (call_randomShareSecret smp n p (x p) (st p))) \<and>
    dealt n kf (snd (fst (call_randomShareSecret smp n 0 (x 0) (st 0))))
      (\<lambda>p. fst (fst (call_randomShareSecret smp n p (x p) (st p)))) (x 0) \<and>
    secret (snd (fst (call_randomShareSecret smp n 0 (x 0) (st 0)))) = x 0"
  using call_randomShareSecret_ok [OF assms] dealt_secret by blast

text \<open>A joint state of two parties for the witnesses; \<open>buf\<close> is what the last party has received.\<close>

definition ex_deal_st :: "u64 list \<Rightarrow> nat \<Rightarrow> (nat, u64) deal_st" where
  "ex_deal_st buf p =
     (\<lparr>k_id = p, k_p0 = 5, k_self = 0, k_all_minus_0 = 0, k_all = 9, k_pi = [0, 5, 5]\<rparr>,
      \<lparr>pl_key = (if p = 0 then 7 else if p = 1 then 3 else 4), pl_keySh = [0, 3, 4],
       pl_rand_sh = (if p = 2 then buf else []), pl_idx_rand_sh = 0,
       pl_rand_sh_sec = (if p = 2 then buf else []), pl_idx_rand_sh_sec = 0,
       pl_rand_sh_party = (if p = 2 then buf else []), pl_idx_rand_sh_party = 0\<rparr>)"

definition ex_smp :: "nat \<Rightarrow> u64 \<times> nat" where
  "ex_smp g = (word_of_nat g, g + 1)"

lemma ex_deal_sync: "deal_sync 2 (\<lambda>i. if i = 1 then 3 else 4) (ex_deal_st buf)"
  by (auto simp: deal_sync_def rgs_ok_def pools_ok_def ex_deal_st_def psum_def numeral_eq_Suc nth_Cons split: nat.splits)

lemmas ex_deal_simps = deal_bufs_def bufs_ok_def ex_deal_st_def ex_smp_def Let_def draw_pi_def draw_p0_def
  upt_conv_Cons numeral_2_eq_2

lemma ex_deal_bufs:
  "deal_bufs 2 (\<lambda>p. snd (call_randomShareSecret ex_smp 2 p (if p = 0 then 42 else 0) (ex_deal_st [37, 288] p)))"
  by (simp add: ex_deal_simps call_randomShareSecret_def randomShareSecret_def rss_step_def start_defs secret_def)

theorem randomShareSecret_deals_witness:
  "deal_sync 2 (\<lambda>i. if i = 1 then 3 else 4)
      (\<lambda>p. snd (call_randomShareSecret ex_smp 2 p (if p = 0 then 42 else 0) (ex_deal_st [37, 288] p))) \<and>
   dealt 2 (\<lambda>i. if i = 1 then 3 else 4)
     (snd (fst (call_randomShareSecret ex_smp 2 0 (if (0::nat) = 0 then 42 else 0) (ex_deal_st [37, 288] 0))))
     (\<lambda>p. fst (fst (call_randomShareSecret ex_smp 2 p (if p = 0 then 42 else 0) (ex_deal_st [37, 288] p))))
     (if (0::nat) = 0 then 42 else 0) \<and>
   secret (snd (fst (call_randomShareSecret ex_smp 2 0 (if (0::nat) = 0 then 42 else 0) (ex_deal_st [37, 288] 0)))) =
     (if (0::nat) = 0 then 42 else 0)"
  by (rule randomShareSecret_deals [OF ex_deal_sync ex_deal_bufs])

text \<open>
  C15: Dealing a mask known to a party. \<open>randomShareWithParty\<close> for the party \<open>d\<close> (the dealer when
  \<open>d = 0\<close>) leaves an authenticated sharing of the secret the dealer gets back, and party \<open>d\<close> gets
  back the same secret.
\<close>

theorem randomShareWithParty_deals:
  assumes "deal_sync n kf st" "d \<le> n" "deal_bufs n (\<lambda>p. snd (call_randomShareWithParty smp n p d (x p) (st p)))"
  shows "deal_sync n kf (\<lambda>p. snd (call_randomShareWithParty smp n p d (x p) (st p))) \<and>
    dealt n kf (snd (fst (fst (call_randomShareWithParty smp n 0 d (x 0) (st 0)))))
      (\<lambda>p. fst (fst (fst (call_randomShareWithParty smp n p d (x p) (st p)))))
      (snd (fst (call_randomShareWithParty smp n d d (x d) (st d))))"
  using call_randomShareWithParty_ok [OF assms] by (cases "d = 0") auto

lemma ex_deal_bufs_party:
  "deal_bufs 2 (\<lambda>p. snd (call_randomShareWithParty ex_smp 2 p 1 0 (ex_deal_st [- 1, 28] p)))"
  by (simp add: ex_deal_simps call_randomShareWithParty_def randomShareWithParty_def rsp_step_def start_defs)

theorem randomShareWithParty_deals_witness:
  "deal_sync 2 (\<lambda>i. if i = 1 then 3 else 4)
      (\<lambda>p. snd (call_randomShareWithParty ex_smp 2 p 1 0 (ex_deal_st [- 1, 28] p))) \<and>
   dealt 2 (\<lambda>i. if i = 1 then 3 else 4)
     (snd (fst (fst (call_randomShareWithParty ex_smp 2 0 1 0 (ex_deal_st [- 1, 28] 0)))))
     (\<lambda>p. fst (fst (fst (call_randomShareWithParty ex_smp 2 p 1 0 (ex_deal_st [- 1, 28] p)))))
     (snd (fst (call_randomShareWithParty ex_smp 2 1 1 0 (ex_deal_st [- 1, 28] 1))))"
  by (rule randomShareWithParty_deals [where x = "\<lambda>_. 0", OF ex_deal_sync _ ex_deal_bufs_party]) simp

text \<open>
  C16: The share operators compute on dealt values: addition, subtraction and multiplication by a
  public constant act on the dealer's copy and on every party's share consistently, and adding a
  public constant at any one party adds it to the shared value, tags included.
\<close>

theorem share_operators_compute:
  assumes "dealt n kf s a x" "dealt n kf t b y" "1 \<le> q" "q \<le> n"
  shows "dealt n kf (tp_add s t) (\<lambda>i. aas_add (a i) (b i)) (x + y) \<and>
    dealt n kf (tp_sub s t) (\<lambda>i. aas_sub (a i) (b i)) (x - y) \<and>
    dealt n kf (tp_mul s c) (\<lambda>i. aas_mul (a i) c) (x * c) \<and>
    shared n kf (\<lambda>i. addWithAdder v i q (a i)) (x + v) \<and> shared n kf (\<lambda>i. aas_addc v i (a i)) (x + v) \<and>
    secret s = x"
  using assms dealt_ops shared_addWithAdder [OF dealt_shared [OF assms(1)] assms(3,4), of v]
    shared_addc [OF dealt_shared [OF assms(1)], of v] dealt_secret by auto

theorem share_operators_compute_witness:
  "dealt 2 (\<lambda>i. if i = 1 then 3 else 4) (tp_add (ex_tp 5 6) (ex_tp 1 2)) (\<lambda>i. aas_add (ex_sh 5 6 i) (ex_sh 1 2 i)) (5 + 6 + (1 + 2)) \<and>
   dealt 2 (\<lambda>i. if i = 1 then 3 else 4) (tp_sub (ex_tp 5 6) (ex_tp 1 2)) (\<lambda>i. aas_sub (ex_sh 5 6 i) (ex_sh 1 2 i)) (5 + 6 - (1 + 2)) \<and>
   dealt 2 (\<lambda>i. if i = 1 then 3 else 4) (tp_mul (ex_tp 5 6) 9) (\<lambda>i. aas_mul (ex_sh 5 6 i) 9) ((5 + 6) * 9) \<and>
   shared 2 (\<lambda>i. if i = 1 then 3 else 4) (\<lambda>i. addWithAdder 8 i 2 (ex_sh 5 6 i)) (5 + 6 + 8) \<and>
   shared 2 (\<lambda>i. if i = 1 then 3 else 4) (\<lambda>i. aas_addc 8 i (ex_sh 5 6 i)) (5 + 6 + 8) \<and> secret (ex_tp 5 6) = 5 + 6"
  by (rule share_operators_compute [OF ex_dealt ex_dealt]) simp_all

section \<open>Properties of the circuits\<close>

text \<open>
  C17: Ordering a well-formed circuit by levels keeps every gate exactly once, and reading the
  levels in order every gate finds its inputs computed; the gates that need a round of
  communication read wires of earlier levels only.
\<close>

theorem orderGatesByLevel_sound:
  assumes "circuit_ok c"
  shows "mset (concat (gates_by_level (orderGatesByLevel c))) = mset (circ_gates c) \<and>
    levels_ok {} (gates_by_level (orderGatesByLevel c)) \<and>
    num_gates (orderGatesByLevel c) = length (circ_gates c) \<and> outputs (orderGatesByLevel c) = circ_outputs c"
  using orderGatesByLevel_mset [OF assms] orderGatesByLevel_levels_ok [OF assms] by simp

theorem orderGatesByLevel_sound_witness:
  "mset (concat (gates_by_level (orderGatesByLevel ex_circ))) = mset (circ_gates ex_circ) \<and>
    levels_ok {} (gates_by_level (orderGatesByLevel ex_circ)) \<and>
    num_gates (orderGatesByLevel ex_circ) = length (circ_gates ex_circ) \<and>
    outputs (orderGatesByLevel ex_circ) = circ_outputs ex_circ"
  by (rule orderGatesByLevel_sound [OF ex_circ_ok])

text \<open>
  C18: The plaintext evaluation in level order returns, for each output wire, its value in the
  reference evaluation that takes the gates in the order they were added.
\<close>

theorem evaluate_is_reference:
  assumes "circuit_ok c" "inputs_ok (circ_gates c) inputs" "\<forall>g\<in>set (circ_gates c). gate_supported R g"
  shows "evaluate R c inputs =
    Inr (map (\<lambda>w. wire_vals R (\<lambda>w. the (map_of inputs w)) (circ_gates c) ! w) (circ_outputs c))"
  by (rule evaluate_eq [OF assms])

theorem evaluate_is_reference_witness: "evaluate ex_ring ex_circ ex_inputs = Inr [1]"
  by (subst evaluate_is_reference [OF ex_circ_ok])
    (auto simp: inputs_ok_def gate_supported_def ex_circ_def ex_inputs_def ex_ring_def wire_vals_def vals_by_def)

definition or_throws :: "('a \<Rightarrow> bool) \<Rightarrow> exn + 'a \<Rightarrow> bool" where
  "or_throws P r \<longleftrightarrow> (case r of Inl e \<Rightarrow> True | Inr x \<Rightarrow> P x)"

text \<open>
  C19: No builder call can make a circuit ill-formed: whatever gate types and wires a caller
  passes, the call throws or leaves a well-formed circuit.
\<close>

theorem builder_keeps_circuit_ok:
  assumes "circuit_ok c"
  shows "circuit_ok (snd (newInputWire c)) \<and>
    or_throws circuit_ok (setAsOutput w c) \<and>
    or_throws (circuit_ok \<circ> snd) (addGate1 t w c) \<and>
    or_throws (circuit_ok \<circ> snd) (addGate2 t w x c) \<and>
    or_throws (circuit_ok \<circ> snd) (addGate3 t w x y c) \<and>
    or_throws (circuit_ok \<circ> snd) (addGate4 t w x y z c) \<and>
    or_throws (circuit_ok \<circ> snd) (addConstOpGate t w k c) \<and>
    or_throws (circuit_ok \<circ> snd) (addGateV t ws xs c)"
  using assms
  by (auto simp: or_throws_def circuit_ok_newInputWire split: sum.splits intro: circuit_ok_setAsOutput circuit_ok_addGate1
      circuit_ok_addGate2 circuit_ok_addGate3 circuit_ok_addGate4 circuit_ok_addConstOpGate circuit_ok_addGateV)

theorem builder_keeps_circuit_ok_witness:
  "circuit_ok (snd (newInputWire ex_circ)) \<and> or_throws circuit_ok (setAsOutput 7 ex_circ) \<and>
    or_throws (circuit_ok \<circ> snd) (addGate1 kLtz 7 ex_circ) \<and> or_throws (circuit_ok \<circ> snd) (addGate2 kLtz 7 0 ex_circ) \<and>
    or_throws (circuit_ok \<circ> snd) (addGate3 kLtz 7 0 1 ex_circ) \<and> or_throws (circuit_ok \<circ> snd) (addGate4 kLtz 7 0 1 2 ex_circ) \<and>
    or_throws (circuit_ok \<circ> snd) (addConstOpGate kLtz 7 5 ex_circ) \<and>
    or_throws (circuit_ok \<circ> snd) (addGateV kLtz [0] [1] ex_circ)"
  by (rule builder_keeps_circuit_ok [OF ex_circ_ok])

text \<open>
  C20: \<open>generateMultK\<close> raises no exception, and its output is the product of its 64 inputs, which
  are the first 64 wires.
\<close>

theorem generateMultK_computes_product:
  "\<exists>c w. generateMultK = Inr c \<and> circuit_ok c \<and> inputs_first 64 c \<and> circ_outputs c = [w] \<and>
    wire_vals R inp (circ_gates c) ! w = prod_list (map inp [0..<64])"
  using generateMultK_exists [of R inp] by (auto simp: wval_def)

text \<open>
  C21: \<open>generateParaPrefixOR(n)\<close> raises no exception for \<open>n > 0\<close>. Over \<open>BoolRing\<close>, its output adds up
  over the \<open>n\<close> blocks of 64 the entries of the second half of the inputs at the positions where
  the prefix products of the first half change from 1 to 0.
\<close>

theorem generateParaPrefixOR_computes:
  assumes "0 < n"
  shows "\<exists>c w. generateParaPrefixOR n = Inr c \<and> circuit_ok c \<and> inputs_first (2 * (n * 64)) c \<and> circ_outputs c = [w] \<and>
    wire_vals R inp (circ_gates c) ! w =
      (\<Sum>m\<leftarrow>[0..<64 * n]. step_val (\<lambda>m. block_prod inp 3 m + 1) m * inp (n * 64 + m) :: BoolRing)"
proof -
  have "(64 :: BoolRing) = 0" using BoolRing_double [of 32] by (simp del: BoolRing_double)
  then have "(\<Sum>k\<leftarrow>[0..<64 * n]. inp 0 * inp 0) = (0 :: BoolRing)" by (simp add: sum_list_triv)
  with generateParaPrefixOR_exists [OF assms, of R inp] show ?thesis
    by (auto simp: wval_def prefixOR_val_def)
qed

theorem generateParaPrefixOR_computes_witness:
  "\<exists>c w. generateParaPrefixOR 2 = Inr c \<and> circuit_ok c \<and> inputs_first (2 * (2 * 64)) c \<and> circ_outputs c = [w] \<and>
    wire_vals undefined (\<lambda>w. 1) (circ_gates c) ! w =
      (\<Sum>m\<leftarrow>[0..<64 * 2]. step_val (\<lambda>m. block_prod (\<lambda>w. 1) 3 m + 1) m * 1 :: BoolRing)"
  by (rule generateParaPrefixOR_computes) simp

text \<open>
  C39: Packing bits into bytes, or booleans into 64-bit words, and unpacking gives the bits back; a
  vector of \<open>len\<close> bits takes \<open>(len + 7) div 8\<close> bytes, the size the receiver computes.
\<close>

theorem pack_roundtrip:
  "unpack (pack xs) (length xs) = xs \<and> unpackBool (packBool bs) (length bs) = bs \<and>
   length (pack xs) = (length xs + 7) div 8"
  using unpack_pack_words [of bs] by (simp add: unpack_pack length_pack packBool_def unpackBool_def)

text \<open>
  C40: \<open>upperTriangularToArray\<close> packs the strict upper triangle of an \<open>n\<close> by \<open>n\<close> matrix: up to
  \<open>n = 2 ^ 32 + 1\<close> its cells are in bijection with the \<open>n (n - 1) / 2\<close> positions of the array, and
  the order of the coordinates does not matter. Beyond that the \<open>size_t\<close> arithmetic wraps around and
  cells collide.
\<close>

theorem upperTriangularToArray_packs:
  assumes "n \<le> 2 ^ 32 + 1"
  shows "bij_betw (\<lambda>(i, j). unat (upperTriangularToArray (of_nat i) (of_nat j))) {(i, j). i < j \<and> j < n}
      {0..<(n * (n - 1)) div 2} \<and>
    upperTriangularToArray l k = upperTriangularToArray k l \<and>
    upperTriangularToArray 0 (- 1) = upperTriangularToArray 0 2"
  using upperTriangularToArray_bij [OF assms]
  by (simp add: upperTriangularToArray_def min.commute max.commute min_def max_def)

theorem upperTriangularToArray_packs_witness:
  "bij_betw (\<lambda>(i, j). unat (upperTriangularToArray (of_nat i) (of_nat j))) {(i, j). i < j \<and> j < 4} {0..<6} \<and>
   upperTriangularToArray 3 1 = 4"
  using upperTriangularToArray_packs [of 4 3 1] by (simp add: upperTriangularToArray_def)

end
